(* ===== verification/Prelude.thy ===== *)
theory Prelude
  imports Main "HOL-Library.Word"
begin

text \<open>
  Shared vocabulary of the development: the C integer types as machine words, the
  collections of rewrite rules the components use, and generic lemmas on words, bits
  and lists that several components need.

  A C integer of width \<open>w\<close> is a word of that width. Signed and unsigned C types of one
  width share the same word type: the unsigned value is read with \<^const>\<open>unat\<close> and the
  two's complement value with \<^const>\<open>sint\<close>, so a C cast between the two is the identity.
\<close>

unbundle bit_operations_syntax

named_theorems bit_defs \<open>definitions of the bit-level routines\<close>
named_theorems flag_defs \<open>definitions of flag and privilege constants\<close>

type_synonym uchar = "8 word"
type_synonym uint8 = "8 word"
type_synonym uint16 = "16 word"
type_synonym uint32 = "32 word"
type_synonym uint = "32 word"
type_synonym ulonglong = "64 word"
type_synonym longlong = "64 word"

abbreviation ULONGLONG_MAX :: ulonglong where
  "ULONGLONG_MAX \<equiv> 0xFFFFFFFFFFFFFFFF"

abbreviation LONGLONG_MAX :: longlong where
  "LONGLONG_MAX \<equiv> 0x7FFFFFFFFFFFFFFF"

abbreviation LONGLONG_MIN :: longlong where
  "LONGLONG_MIN \<equiv> 0x8000000000000000"

section \<open>Masks and shifts on words\<close>

lemma and_not_mask_eq_0_iff:
  fixes w :: "'a::len word"
  shows "w AND NOT (mask k) = 0 \<longleftrightarrow> unat w < 2 ^ k"
proof -
  have "w AND NOT (mask k) = 0 \<longleftrightarrow> take_bit k w = w"
  proof
    assume a: "w AND NOT (mask k) = 0"
    have "(w AND mask k) OR (w AND NOT (mask k)) = w"
      by (rule bit_word_eqI) (auto simp: bit_simps)
    with a show "take_bit k w = w" by (simp add: take_bit_eq_mask)
  next
    assume "take_bit k w = w"
    then have "w = w AND mask k" by (simp add: take_bit_eq_mask)
    then have "w AND NOT (mask k) = (w AND mask k) AND NOT (mask k)" by simp
    also have "\<dots> = 0" by (rule bit_word_eqI) (auto simp: bit_simps)
    finally show "w AND NOT (mask k) = 0" .
  qed
  also have "\<dots> \<longleftrightarrow> take_bit k (unat w) = unat w"
    by (metis unsigned_take_bit_eq unsigned_word_eqI)
  also have "\<dots> \<longleftrightarrow> unat w < 2 ^ k"
    by (simp add: take_bit_nat_eq_self_iff)
  finally show ?thesis .
qed

lemma unat_drop_bit [simp]: "unat (drop_bit k w) = unat w div 2 ^ k"
  for w :: "'a::len word"
  using unsigned_drop_bit_eq [where ?'a = nat, of k w]
  by (simp add: drop_bit_eq_div take_bit_nat_eq_self trans_less_add1)

lemma unat_ucast_less:
  fixes w :: "'a::len word"
  assumes "unat w < 2 ^ LENGTH('b::len)"
  shows "unat (ucast w :: 'b word) = unat w"
  using assms by (simp add: unsigned_ucast_eq take_bit_nat_eq_self)

lemma unat_add_no_overflow:
  fixes a b :: "'a::len word"
  assumes "unat a + unat b < 2 ^ LENGTH('a)"
  shows "unat (a + b) = unat a + unat b"
  using assms by (simp add: unat_word_ariths)

lemma unat_mult_no_overflow:
  fixes a b :: "'a::len word"
  assumes "unat a * unat b < 2 ^ LENGTH('a)"
  shows "unat (a * b) = unat a * unat b"
  using assms by (simp add: unat_word_ariths)

lemma unat_push_bit_no_overflow:
  fixes w :: "'a::len word"
  assumes "unat w * 2 ^ k < 2 ^ LENGTH('a)"
  shows "unat (push_bit k w) = unat w * 2 ^ k"
  using assms unsigned_push_bit_eq [where ?'a = nat, of k w]
  by (simp add: push_bit_eq_mult take_bit_nat_eq_self)

lemma unat_2_pow: "k < LENGTH('a) \<Longrightarrow> unat (2 ^ k :: 'a::len word) = 2 ^ k"
  using unat_of_nat [of "2 ^ k", where ?'a = 'a] by (simp add: take_bit_nat_eq_self)

lemma unat_lt_pow: "LENGTH('a) = k \<Longrightarrow> unat (w :: 'a::len word) < 2 ^ k"
  using unsigned_less [of w] by auto

lemma bit_word_lt: "bit (w :: 'a::len word) n \<Longrightarrow> n < LENGTH('a)"
  by (rule bit_imp_le_length)

lemma high_bits_clear:
  fixes x :: "'a::len word"
  assumes "unat x < 2 ^ k" and "k \<le> n"
  shows "\<not> bit x n"
proof
  assume b: "bit x n"
  then have "bit (unat x) n" by (simp add: bit_unsigned_iff)
  then have "2 ^ n \<le> unat x"
    by (metis bit_nat_iff div_less even_zero linorder_not_le bit_iff_odd)
  then show False
    using assms power_increasing [of k n "2::nat"] by linarith
qed

section \<open>Quantifiers over an index range, one index at a time\<close>

lemma range_all_rec:
  "i < n \<Longrightarrow> (\<forall>j. i \<le> j \<and> j < n \<longrightarrow> P j) \<longleftrightarrow> P i \<and> (\<forall>j. Suc i \<le> j \<and> j < n \<longrightarrow> P j)"
  for i n :: nat
  by (auto simp: Suc_le_eq) (metis le_neq_implies_less)

lemma all_less_split:
  "k \<le> n \<Longrightarrow> (\<forall>i<n. P i) \<longleftrightarrow> (\<forall>i. 0 \<le> i \<and> i < k \<longrightarrow> P i) \<and> (\<forall>i. k \<le> i \<and> i < n \<longrightarrow> P i)"
  for k n :: nat
  by (metis le_less_linear less_le_trans zero_le)

lemma range_ex_rec:
  "i < n \<Longrightarrow> (\<exists>j. i \<le> j \<and> j < n \<and> P j) \<longleftrightarrow> P i \<or> (\<exists>j. Suc i \<le> j \<and> j < n \<and> P j)"
  for i n :: nat
  using range_all_rec [of i n "\<lambda>j. \<not> P j"] by blast

section \<open>Case analysis on a bit position\<close>

lemma all_below_numeral_list:
  assumes "list_all P [0..<k]" and "n < k"
  shows "P n"
  using assms by (simp add: list_all_iff)

lemma upt_16: "[0..<16] =
     [0, 1, 2, 3, 4, 5, 6, 7, 8, 9, 10, 11, 12, 13, 14, 15]"
  by (simp add: upt_rec)

lemma upt_64: "[0..<64] =
     [0, 1, 2, 3, 4, 5, 6, 7, 8, 9, 10, 11, 12, 13, 14, 15, 16, 17, 18, 19, 20, 21, 22, 23,
     24, 25, 26, 27, 28, 29, 30, 31, 32, 33, 34, 35, 36, 37, 38, 39, 40, 41, 42, 43, 44, 45,
     46, 47, 48, 49, 50, 51, 52, 53, 54, 55, 56, 57, 58, 59, 60, 61, 62, 63]"
  by (simp add: upt_rec)

lemma upt_256: "[0..<256] =
     [0, 1, 2, 3, 4, 5, 6, 7, 8, 9, 10, 11, 12, 13, 14, 15, 16, 17, 18, 19, 20, 21, 22, 23,
     24, 25, 26, 27, 28, 29, 30, 31, 32, 33, 34, 35, 36, 37, 38, 39, 40, 41, 42, 43, 44, 45,
     46, 47, 48, 49, 50, 51, 52, 53, 54, 55, 56, 57, 58, 59, 60, 61, 62, 63, 64, 65, 66, 67,
     68, 69, 70, 71, 72, 73, 74, 75, 76, 77, 78, 79, 80, 81, 82, 83, 84, 85, 86, 87, 88, 89,
     90, 91, 92, 93, 94, 95, 96, 97, 98, 99, 100, 101, 102, 103, 104, 105, 106, 107, 108,
     109, 110, 111, 112, 113, 114, 115, 116, 117, 118, 119, 120, 121, 122, 123, 124, 125,
     126, 127, 128, 129, 130, 131, 132, 133, 134, 135, 136, 137, 138, 139, 140, 141, 142,
     143, 144, 145, 146, 147, 148, 149, 150, 151, 152, 153, 154, 155, 156, 157, 158, 159,
     160, 161, 162, 163, 164, 165, 166, 167, 168, 169, 170, 171, 172, 173, 174, 175, 176,
     177, 178, 179, 180, 181, 182, 183, 184, 185, 186, 187, 188, 189, 190, 191, 192, 193,
     194, 195, 196, 197, 198, 199, 200, 201, 202, 203, 204, 205, 206, 207, 208, 209, 210,
     211, 212, 213, 214, 215, 216, 217, 218, 219, 220, 221, 222, 223, 224, 225, 226, 227,
     228, 229, 230, 231, 232, 233, 234, 235, 236, 237, 238, 239, 240, 241, 242, 243, 244,
     245, 246, 247, 248, 249, 250, 251, 252, 253, 254, 255]"
  by (simp add: upt_rec)

lemma word64_eqI:
  fixes a b :: "64 word"
  assumes "list_all (\<lambda>n. bit a n = bit b n) [0..<64]"
  shows "a = b"
  by (rule bit_word_eqI) (rule all_below_numeral_list [OF assms], simp)

lemma word_neq_0_iff_bit: "w \<noteq> 0 \<longleftrightarrow> (\<exists>n < LENGTH('a). bit w n)"
  for w :: "'a::len word"
  by (metis bit_0_eq bit_imp_le_length bit_word_eqI bot_apply bot_bool_def)

section \<open>Three-way comparison\<close>

text \<open>
  The interface of a C comparison function: a negative, zero or positive result according to
  the order of the keys of its arguments.
\<close>

locale three_way =
  fixes cmp :: "'a \<Rightarrow> 'a \<Rightarrow> int" and key :: "'a \<Rightarrow> 'k::linorder"
  assumes cmp_less: "cmp a b < 0 \<longleftrightarrow> key a < key b"
    and cmp_eq: "cmp a b = 0 \<longleftrightarrow> key a = key b"
begin

lemma cmp_greater: "cmp a b > 0 \<longleftrightarrow> key b < key a"
  using cmp_less [of a b] cmp_eq [of a b] by (cases "key a" "key b" rule: linorder_cases) auto

lemma cmp_refl: "cmp a a = 0"
  by (simp add: cmp_eq)

lemma cmp_antisym: "cmp a b < 0 \<longleftrightarrow> cmp b a > 0"
  by (simp add: cmp_less cmp_greater)

lemma cmp_trans: "cmp a b \<le> 0 \<Longrightarrow> cmp b c \<le> 0 \<Longrightarrow> cmp a c \<le> 0"
  using cmp_greater [of a b] cmp_greater [of b c] cmp_greater [of a c] by (meson not_le order.trans)

end

section \<open>Sets of flags\<close>

text \<open>
  The interface of a flag type with overloaded bitwise operators: its values are sets of bits,
  the operators are intersection and union.
\<close>

locale flag_set =
  fixes bits :: "'a \<Rightarrow> nat \<Rightarrow> bool" and conj disj :: "'a \<Rightarrow> 'a \<Rightarrow> 'a"
  assumes ext: "(\<And>n. bits a n = bits b n) \<Longrightarrow> a = b"
    and bits_conj: "bits (conj a b) n \<longleftrightarrow> bits a n \<and> bits b n"
    and bits_disj: "bits (disj a b) n \<longleftrightarrow> bits a n \<or> bits b n"
begin

lemma conj_laws: "conj a b = conj b a" "conj (conj a b) c = conj a (conj b c)" "conj a a = a"
  by (auto intro: ext simp: bits_conj)

lemma disj_laws: "disj a b = disj b a" "disj (disj a b) c = disj a (disj b c)" "disj a a = a"
  by (auto intro: ext simp: bits_disj)

lemma absorb: "conj a (disj a b) = a" "disj a (conj a b) = a"
  by (auto intro: ext simp: bits_conj bits_disj)

lemma distrib: "conj a (disj b c) = disj (conj a b) (conj a c)"
  by (auto intro: ext simp: bits_conj bits_disj)

lemma added_flags_kept: "conj (disj a b) b = b"
  by (auto intro: ext simp: bits_conj bits_disj)

lemma conj_eq_iff: "conj a b = a \<longleftrightarrow> (\<forall>n. bits a n \<longrightarrow> bits b n)"
  using bits_conj ext [of "conj a b" a] by metis

end

end
