(* ===== verification/My_Bit.thy ===== *)
theory My_Bit
  imports Prelude
begin

text \<open>
  The bit routines of \<^verbatim>\<open>my_bit.h\<close>: integer logarithms, population count, rounding to a
  power of two, bit reversal, masks and the search for the lowest set bit.
\<close>

section \<open>Definitions\<close>

definition my_bit_log2_hex_digit :: "uint8 \<Rightarrow> uint" where
  "my_bit_log2_hex_digit value =
     (if value AND 0x0C \<noteq> 0 then (if value AND 0x08 \<noteq> 0 then 3 else 2)
      else (if value AND 0x02 \<noteq> 0 then 1 else 0))"

definition my_bit_log2_uint8 :: "uint8 \<Rightarrow> uint" where
  "my_bit_log2_uint8 value =
     (if value AND 0xF0 \<noteq> 0 then my_bit_log2_hex_digit (drop_bit 4 value) + 4
      else my_bit_log2_hex_digit value)"

definition my_bit_log2_uint16 :: "uint16 \<Rightarrow> uint" where
  "my_bit_log2_uint16 value =
     (if value AND 0xFF00 \<noteq> 0 then my_bit_log2_uint8 (ucast (drop_bit 8 value)) + 8
      else my_bit_log2_uint8 (ucast value))"

definition my_bit_log2_uint32 :: "uint32 \<Rightarrow> uint" where
  "my_bit_log2_uint32 value =
     (if value AND 0xFFFF0000 \<noteq> 0 then my_bit_log2_uint16 (ucast (drop_bit 16 value)) + 16
      else my_bit_log2_uint16 (ucast value))"

definition my_bit_log2_uint64 :: "ulonglong \<Rightarrow> uint" where
  "my_bit_log2_uint64 value =
     (if value AND 0xFFFFFFFF00000000 \<noteq> 0
      then my_bit_log2_uint32 (ucast (drop_bit 32 value)) + 32
      else my_bit_log2_uint32 (ucast value))"

text \<open>On the 64-bit build \<^verbatim>\<open>size_t\<close> is as wide as \<^verbatim>\<open>ulonglong\<close>.\<close>

definition my_bit_log2_size_t :: "64 word \<Rightarrow> uint" where
  "my_bit_log2_size_t value = my_bit_log2_uint64 value"

definition my_count_bits_uint32 :: "uint32 \<Rightarrow> uint" where
  "my_count_bits_uint32 v0 =
     (let v1 = v0 - (drop_bit 1 v0 AND 0x55555555);
          v2 = (v1 AND 0x33333333) + (drop_bit 2 v1 AND 0x33333333)
      in drop_bit 24 (((v2 + drop_bit 4 v2) AND 0xF0F0F0F) * 0x1010101))"

definition my_count_bits :: "ulonglong \<Rightarrow> uint" where
  "my_count_bits x =
     my_count_bits_uint32 (ucast x) + my_count_bits_uint32 (ucast (drop_bit 32 x))"

definition my_round_up_to_next_power :: "uint32 \<Rightarrow> uint32" where
  "my_round_up_to_next_power v0 =
     (let v = v0 - 1;
          v = v OR drop_bit 1 v;
          v = v OR drop_bit 2 v;
          v = v OR drop_bit 4 v;
          v = v OR drop_bit 8 v;
          v = v OR drop_bit 16 v
      in v + 1)"

definition my_clear_highest_bit :: "uint32 \<Rightarrow> uint32" where
  "my_clear_highest_bit v =
     (let w = drop_bit 1 v;
          w = w OR drop_bit 1 w;
          w = w OR drop_bit 2 w;
          w = w OR drop_bit 4 w;
          w = w OR drop_bit 8 w;
          w = w OR drop_bit 16 w
      in v AND w)"

text \<open>
  The table \<^verbatim>\<open>_my_bits_reverse_table\<close> is declared \<^verbatim>\<open>extern\<close> in the header; its contents
  are a parameter \<open>tbl\<close>, indexed by the byte.
\<close>

definition my_reverse_bits :: "(uchar \<Rightarrow> uchar) \<Rightarrow> uint32 \<Rightarrow> uint32" where
  "my_reverse_bits tbl key =
     push_bit 24 (ucast (tbl (ucast (key AND 255)))) OR
     push_bit 16 (ucast (tbl (ucast (drop_bit 8 key AND 255)))) OR
     push_bit 8 (ucast (tbl (ucast (drop_bit 16 key AND 255)))) OR
     ucast (tbl (ucast (drop_bit 24 key)))"

text \<open>A shift by a negative amount or by 64 and more is undefined in C: the value \<open>None\<close>.\<close>

definition my_set_bits :: "int \<Rightarrow> ulonglong option" where
  "my_set_bits n =
     (if 0 \<le> n - 1 \<and> n - 1 < 64
      then Some (push_bit 1 (push_bit (nat (n - 1)) 1 - 1) OR 1) else None)"

definition last_byte_mask :: "uint \<Rightarrow> uchar" where
  "last_byte_mask bits =
     (let used = (bits - 1) AND 7 in ucast (push_bit (unat used) (2 :: uint) - 1))"

definition my_bits_in_bytes :: "uint \<Rightarrow> uint" where
  "my_bits_in_bytes n = (n + 7) div 8"

text \<open>
  The portable branch of \<^verbatim>\<open>my_find_first_bit\<close>: the loop over the nibbles of \<open>n\<close>, with
  \<open>None\<close> when the fuel runs out. A non-zero 64-bit value has a non-zero nibble among its
  sixteen, so sixteen iterations are enough.
\<close>

definition last_bit :: "nat list" where
  "last_bit = [32, 0, 1, 0, 2, 0, 1, 0, 3, 0, 1, 0, 2, 0, 1, 0]"

fun find_first_loop :: "nat \<Rightarrow> ulonglong \<Rightarrow> nat \<Rightarrow> nat option" where
  "find_first_loop 0 n shift = None"
| "find_first_loop (Suc fuel) n shift =
     (let bit = last_bit ! unat (drop_bit shift n AND 0xF)
      in if bit = 32 then find_first_loop fuel n (shift + 4) else Some (shift + bit))"

definition my_find_first_bit :: "ulonglong \<Rightarrow> nat option" where
  "my_find_first_bit n = (if n = 0 then Some 64 else find_first_loop 16 n 0)"

section \<open>Integer logarithm\<close>

text \<open>\<open>is_log2 n r\<close>: \<open>r\<close> is the position of the highest set bit of \<open>n\<close>.\<close>

definition is_log2 :: "nat \<Rightarrow> nat \<Rightarrow> bool" where
  "is_log2 n r \<longleftrightarrow> 2 ^ r \<le> n \<and> n < 2 ^ Suc r"

lemma is_log2_shift:
  assumes "is_log2 (n div 2 ^ k) r"
  shows "is_log2 n (r + k)"
proof -
  have k: "(0::nat) < 2 ^ k" by simp
  have "2 ^ r * 2 ^ k \<le> n"
    using assms by (simp add: is_log2_def less_eq_div_iff_mult_less_eq [OF k])
  moreover have "n < 2 ^ Suc r * 2 ^ k"
    using assms by (simp only: is_log2_def div_less_iff_less_mult [OF k])
  ultimately show ?thesis by (simp add: is_log2_def power_add)
qed

lemma is_log2_less:
  assumes "is_log2 n r" and "n < 2 ^ k"
  shows "r < k"
proof -
  have "(2::nat) ^ r < 2 ^ k" using assms unfolding is_log2_def by linarith
  then show ?thesis by simp
qed

lemma hex_digit_log2:
  assumes "unat v < 16" and "unat v \<noteq> 0"
  shows "is_log2 (unat v) (unat (my_bit_log2_hex_digit v))"
proof -
  have "list_all (\<lambda>n. n \<noteq> 0 \<longrightarrow> is_log2 n (unat (my_bit_log2_hex_digit (of_nat n)))) [0..<16]"
    unfolding upt_16 by (simp add: my_bit_log2_hex_digit_def is_log2_def)
  from all_below_numeral_list [OF this assms(1)] show ?thesis using assms(2) by simp
qed

text \<open>
  One halving step of the search, shared by the four wider versions: \<open>hi\<close> is the result on
  the upper half, \<open>lo\<close> the result on the whole value when the upper half is empty.
\<close>

lemma log2_halving:
  fixes v :: "'a::len word" and hi lo :: uint
  assumes hi: "unat v div 2 ^ k \<noteq> 0 \<Longrightarrow> is_log2 (unat v div 2 ^ k) (unat hi)"
    and lo: "unat v < 2 ^ k \<Longrightarrow> is_log2 (unat v) (unat lo)"
    and k: "LENGTH('a) = k + k" "k \<le> 32" "m = NOT (mask k)" "a = of_nat k"
  shows "is_log2 (unat v) (unat (if v AND m \<noteq> 0 then hi + a else lo))"
proof (cases "unat v < 2 ^ k")
  case True
  then show ?thesis using lo k(3) by (simp add: and_not_mask_eq_0_iff)
next
  case False
  then have log: "is_log2 (unat v div 2 ^ k) (unat hi)"
    using hi by (simp add: div_eq_0_iff)
  have "unat v < 2 ^ k * 2 ^ k"
    using unat_lt_pow [of "k + k" v] k(1) by (simp add: power_add)
  then have "unat v div 2 ^ k < 2 ^ k" by (simp add: div_less_iff_less_mult)
  with log have "unat hi < k" by (rule is_log2_less)
  then have "unat (hi + of_nat k) = unat hi + k"
    using k(2) by (simp add: unat_word_ariths unat_of_nat)
  then show ?thesis
    using False is_log2_shift [OF log] k(3,4) by (simp add: and_not_mask_eq_0_iff)
qed

lemma log2_uint8:
  assumes "unat v \<noteq> 0"
  shows "is_log2 (unat v) (unat (my_bit_log2_uint8 v))"
  unfolding my_bit_log2_uint8_def
proof (rule log2_halving [where k = 4])
  have "unat v div 2 ^ 4 < 16" using unat_lt_pow [of 8 v] by simp
  then show "unat v div 2 ^ 4 \<noteq> 0 \<Longrightarrow>
      is_log2 (unat v div 2 ^ 4) (unat (my_bit_log2_hex_digit (drop_bit 4 v)))"
    using hex_digit_log2 [of "drop_bit 4 v"] by simp
  show "unat v < 2 ^ 4 \<Longrightarrow> is_log2 (unat v) (unat (my_bit_log2_hex_digit v))"
    using hex_digit_log2 [of v] assms by simp
qed (simp_all add: mask_eq_exp_minus_1)

lemma log2_uint16:
  assumes "unat v \<noteq> 0"
  shows "is_log2 (unat v) (unat (my_bit_log2_uint16 v))"
  unfolding my_bit_log2_uint16_def
proof (rule log2_halving [where k = 8])
  have "unat v div 2 ^ 8 < 2 ^ 8" using unat_lt_pow [of 16 v] by simp
  then have "unat (ucast (drop_bit 8 v) :: uint8) = unat v div 2 ^ 8"
    by (subst unat_ucast_less) simp_all
  then show "unat v div 2 ^ 8 \<noteq> 0 \<Longrightarrow>
      is_log2 (unat v div 2 ^ 8) (unat (my_bit_log2_uint8 (ucast (drop_bit 8 v))))"
    using log2_uint8 [of "ucast (drop_bit 8 v)"] by simp
  show "unat v < 2 ^ 8 \<Longrightarrow> is_log2 (unat v) (unat (my_bit_log2_uint8 (ucast v)))"
    using log2_uint8 [of "ucast v"] assms unat_ucast_less [of v, where ?'b = 8] by simp
qed (simp_all add: mask_eq_exp_minus_1)

lemma log2_uint32:
  assumes "unat v \<noteq> 0"
  shows "is_log2 (unat v) (unat (my_bit_log2_uint32 v))"
  unfolding my_bit_log2_uint32_def
proof (rule log2_halving [where k = 16])
  have "unat v div 2 ^ 16 < 2 ^ 16" using unat_lt_pow [of 32 v] by simp
  then have "unat (ucast (drop_bit 16 v) :: uint16) = unat v div 2 ^ 16"
    by (subst unat_ucast_less) simp_all
  then show "unat v div 2 ^ 16 \<noteq> 0 \<Longrightarrow>
      is_log2 (unat v div 2 ^ 16) (unat (my_bit_log2_uint16 (ucast (drop_bit 16 v))))"
    using log2_uint16 [of "ucast (drop_bit 16 v)"] by simp
  show "unat v < 2 ^ 16 \<Longrightarrow> is_log2 (unat v) (unat (my_bit_log2_uint16 (ucast v)))"
    using log2_uint16 [of "ucast v"] assms unat_ucast_less [of v, where ?'b = 16] by simp
qed (simp_all add: mask_eq_exp_minus_1)

lemma log2_uint64:
  assumes "unat v \<noteq> 0"
  shows "is_log2 (unat v) (unat (my_bit_log2_uint64 v))"
  unfolding my_bit_log2_uint64_def
proof (rule log2_halving [where k = 32])
  have "unat v div 2 ^ 32 < 2 ^ 32" using unat_lt_pow [of 64 v] by simp
  then have "unat (ucast (drop_bit 32 v) :: uint32) = unat v div 2 ^ 32"
    by (subst unat_ucast_less) simp_all
  then show "unat v div 2 ^ 32 \<noteq> 0 \<Longrightarrow>
      is_log2 (unat v div 2 ^ 32) (unat (my_bit_log2_uint32 (ucast (drop_bit 32 v))))"
    using log2_uint32 [of "ucast (drop_bit 32 v)"] by simp
  show "unat v < 2 ^ 32 \<Longrightarrow> is_log2 (unat v) (unat (my_bit_log2_uint32 (ucast v)))"
    using log2_uint32 [of "ucast v"] assms unat_ucast_less [of v, where ?'b = 32] by simp
qed (simp_all add: mask_eq_exp_minus_1)

section \<open>Population count\<close>

text \<open>The number of set bits of a natural number, by its binary digits.\<close>

fun ones :: "nat \<Rightarrow> nat" where
  "ones n = (if n = 0 then 0 else n mod 2 + ones (n div 2))"

declare ones.simps [simp del]

lemma ones_0 [simp]: "ones 0 = 0"
  by (simp add: ones.simps)

lemma ones_of_bool: "ones (of_bool b + 2 * n) = of_bool b + ones n"
  by (subst ones.simps) auto

lemma ones_numeral [simp]:
  "ones (Suc 0) = 1" "ones 1 = 1"
  "ones (numeral (num.Bit0 n)) = ones (numeral n)"
  "ones (numeral (num.Bit1 n)) = Suc (ones (numeral n))"
  using ones_of_bool [of True 0] ones_of_bool [of False "numeral n"]
    ones_of_bool [of True "numeral n"]
  by simp_all

text \<open>The bitwise conjunction of two numbers given as fields in base \<open>2 ^ k\<close>.\<close>

lemma and_fields:
  fixes a b :: nat
  assumes "a < 2 ^ k" and "b < 2 ^ k"
  shows "(a + 2 ^ k * x) AND (b + 2 ^ k * y) = (a AND b) + 2 ^ k * (x AND y)"
proof -
  have d: "bit (u + 2 ^ k * w) n \<longleftrightarrow> (if n < k then bit u n else bit w (n - k))"
    if "u < 2 ^ k" for u w n :: nat
  proof (cases "n < k")
    case True
    then have "bit (u + 2 ^ k * w) n = bit (take_bit k (u + 2 ^ k * w)) n"
      by (simp add: bit_take_bit_iff)
    also have "take_bit k (u + 2 ^ k * w) = u" using that by (simp add: take_bit_eq_mod)
    finally show ?thesis using True by simp
  next
    case False
    then have "bit (u + 2 ^ k * w) n = bit (drop_bit k (u + 2 ^ k * w)) (n - k)"
      by (simp add: bit_drop_bit_eq)
    with that False show ?thesis by (simp add: drop_bit_eq_div)
  qed
  have ab: "a AND b < 2 ^ k"
    using assms by (metis take_bit_and take_bit_nat_eq_self_iff)
  show ?thesis
    by (rule bit_eqI) (simp add: bit_and_iff d assms ab)
qed

text \<open>
  The parallel count works on the four bytes of the value at once: no step carries from one
  byte into the next. The three steps on one byte, and the facts about them that make the
  bytes independent, checked on all 256 bytes.
\<close>

definition byte1 :: "nat \<Rightarrow> nat" where
  "byte1 b = b - (b div 2 AND 0x55)"

definition byte2 :: "nat \<Rightarrow> nat" where
  "byte2 b = (b AND 0x33) + (b div 4 AND 0x33)"

definition byte3 :: "nat \<Rightarrow> nat" where
  "byte3 b = (b + b div 16) AND 0xF"

definition byte_ok :: "nat \<Rightarrow> bool" where
  "byte_ok b \<longleftrightarrow> b div 2 AND 0x55 \<le> b \<and> byte2 (byte1 b) \<le> 0x44 \<and>
     byte2 (byte1 b) mod 16 \<le> 4 \<and> byte3 (byte2 (byte1 b)) = ones b \<and> ones b \<le> 8"

lemma all_byte_ok: "list_all byte_ok [0..<256]"
  unfolding upt_256 by (simp add: byte_ok_def byte1_def byte2_def byte3_def flip: numeral_2_eq_2 numeral_3_eq_3)

lemma byte_okI: "b < 256 \<Longrightarrow> byte_ok b"
  using all_below_numeral_list [OF all_byte_ok] .

lemma byte_facts:
  assumes "b < 256"
  shows "b div 2 AND 0x55 \<le> b" "byte1 b < 256" "byte2 (byte1 b) \<le> 0x44"
    "byte2 (byte1 b) mod 16 \<le> 4" "byte3 (byte2 (byte1 b)) = ones b" "ones b \<le> 8"
  using byte_okI [OF assms] assms by (auto simp: byte_ok_def byte1_def)

lemma shift_and_byte:
  fixes b m x M :: nat
  assumes "b < 256" and "s \<le> 8" and "m < 2 ^ (8 - s)"
  shows "(b + 256 * x) div 2 ^ s AND (m + 256 * M) = (b div 2 ^ s AND m) + 256 * (x div 2 ^ s AND M)"
proof -
  let ?e = "x mod 2 ^ s"
  have p: "(2::nat) ^ s * 2 ^ (8 - s) = 256"
    using assms(2) by (simp flip: power_add)
  have bs: "b div 2 ^ s < 2 ^ (8 - s)"
    using assms(1) p by (simp add: div_less_iff_less_mult mult.commute)
  have "b + 256 * x = b + 2 ^ s * (2 ^ (8 - s) * x)"
    using p by (simp add: mult.assoc [symmetric])
  then have "(b + 256 * x) div 2 ^ s = b div 2 ^ s + 2 ^ (8 - s) * x"
    by (simp only: div_mult_self2 power_not_zero zero_neq_numeral not_False_eq_True)
  also have "x = ?e + 2 ^ s * (x div 2 ^ s)" by simp
  also have "2 ^ (8 - s) * (?e + 2 ^ s * (x div 2 ^ s)) = 2 ^ (8 - s) * ?e + 256 * (x div 2 ^ s)"
    by (simp only: distrib_left mult.assoc [symmetric] mult.commute [of "2 ^ (8 - s)" "2 ^ s"] p)
  finally have eq: "(b + 256 * x) div 2 ^ s =
      (b div 2 ^ s + 2 ^ (8 - s) * ?e) + 2 ^ 8 * (x div 2 ^ s)" by simp
  have "2 ^ (8 - s) * ?e \<le> 2 ^ (8 - s) * (2 ^ s - 1)"
    by (intro mult_le_mono) (simp_all add: less_Suc_eq_le [symmetric])
  also have "\<dots> = 256 - 2 ^ (8 - s)" using p by (simp add: diff_mult_distrib mult.commute)
  finally have lt: "b div 2 ^ s + 2 ^ (8 - s) * ?e < 2 ^ 8"
    using bs power_increasing [of "8 - s" 8 "2::nat"] by simp
  have m8: "m < 2 ^ 8"
    using assms(3) power_increasing [of "8 - s" 8 "2::nat"] by simp
  show ?thesis
    unfolding eq using and_fields [OF lt m8, of "x div 2 ^ s" M] and_fields [OF bs assms(3), of ?e 0]
    by simp
qed

lemma ones_split: "b < 2 ^ k \<Longrightarrow> ones (b + 2 ^ k * x) = ones b + ones x"
proof (induction k arbitrary: b)
  case 0
  then show ?case by simp
next
  case (Suc k)
  have b: "b = of_bool (odd b) + 2 * (b div 2)" by simp
  have "b div 2 < 2 ^ k" using Suc.prems by auto
  then have "ones (b div 2 + 2 ^ k * x) = ones (b div 2) + ones x" by (rule Suc.IH)
  moreover have "b + 2 ^ Suc k * x = of_bool (odd b) + 2 * (b div 2 + 2 ^ k * x)"
    by (subst b) (simp add: algebra_simps)
  ultimately show ?case by (metis ones_of_bool b add.assoc)
qed

text \<open>A value as its lowest byte and the rest.\<close>

definition bcat :: "nat \<Rightarrow> nat \<Rightarrow> nat" where
  "bcat b x = b + 256 * x"

lemma bcat_decomp: "n = bcat (n mod 256) (n div 256)"
  by (simp add: bcat_def)

lemma bcat_shift_and:
  "b < 256 \<Longrightarrow> s \<le> 8 \<Longrightarrow> m < 2 ^ (8 - s) \<Longrightarrow>
   bcat b x div 2 ^ s AND bcat m M = bcat (b div 2 ^ s AND m) (x div 2 ^ s AND M)"
  unfolding bcat_def by (rule shift_and_byte)

lemma bcat_add: "bcat a x + bcat b y = bcat (a + b) (x + y)"
  by (simp add: bcat_def)

lemma bcat_diff: "b \<le> a \<Longrightarrow> y \<le> x \<Longrightarrow> bcat a x - bcat b y = bcat (a - b) (x - y)"
  by (simp add: bcat_def diff_mult_distrib2)

lemma bcat_mono: "b \<le> a \<Longrightarrow> y \<le> x \<Longrightarrow> bcat b y \<le> bcat a x"
  by (simp add: bcat_def add_mono)

lemma bcat_div_16: "bcat a x div 16 = bcat (a div 16 + 16 * (x mod 16)) (x div 16)"
proof -
  have "bcat a x div 16 = (a + 16 * (16 * x)) div 16" by (simp add: bcat_def)
  also have "\<dots> = a div 16 + 16 * x" by (simp only: div_mult_self2 zero_neq_numeral
        not_False_eq_True)
  also have "16 * x = 16 * (x mod 16) + 256 * (x div 16)"
    using mult_div_mod_eq [of 16 x] by linarith
  finally show ?thesis by (simp add: bcat_def)
qed

lemma bcat_mod_16: "bcat a x mod 16 = a mod 16"
  using mod_mult_self2 [of a 16 "16 * x"] by (simp add: bcat_def)

lemma ones_bcat: "b < 256 \<Longrightarrow> ones (bcat b x) = ones b + ones x"
  unfolding bcat_def using ones_split [of b 8 x] by simp

abbreviation bytes4 :: "nat \<Rightarrow> nat \<Rightarrow> nat \<Rightarrow> nat \<Rightarrow> nat" where
  "bytes4 a b c d \<equiv> bcat a (bcat b (bcat c d))"

lemma bytes4_of_unat:
  fixes v :: uint32
  obtains a b c d where "unat v = bytes4 a b c d" "a < 256" "b < 256" "c < 256" "d < 256"
proof -
  let ?n = "unat v"
  have "?n = bytes4 (?n mod 256) (?n div 256 mod 256) (?n div 256 div 256 mod 256)
      (?n div 256 div 256 div 256)"
    by (simp only: bcat_decomp [symmetric])
  moreover have "?n div 256 div 256 div 256 < 256" using unat_lt_pow [of 32 v] by simp
  ultimately show thesis using that by simp
qed

lemma and_shift_bytes4:
  assumes "a < 256" "b < 256" "c < 256" "d < 256" "s \<le> 8" "m < 2 ^ (8 - s)"
  shows "bytes4 a b c d div 2 ^ s AND bytes4 m m m m =
    bytes4 (a div 2 ^ s AND m) (b div 2 ^ s AND m) (c div 2 ^ s AND m) (d div 2 ^ s AND m)"
  using assms by (simp add: bcat_shift_and)

lemma count_step1:
  assumes "a < 256" "b < 256" "c < 256" "d < 256"
  shows "bytes4 a b c d - (bytes4 a b c d div 2 AND bytes4 0x55 0x55 0x55 0x55) =
    bytes4 (byte1 a) (byte1 b) (byte1 c) (byte1 d)"
  using and_shift_bytes4 [where s = 1 and m = "0x55"] assms byte_facts(1)
  by (simp add: bcat_diff bcat_mono byte1_def)

lemma count_step2:
  assumes "a < 256" "b < 256" "c < 256" "d < 256"
  shows "(bytes4 a b c d AND bytes4 0x33 0x33 0x33 0x33) +
      (bytes4 a b c d div 4 AND bytes4 0x33 0x33 0x33 0x33) =
    bytes4 (byte2 a) (byte2 b) (byte2 c) (byte2 d)"
  using and_shift_bytes4 [where s = 0 and m = "0x33"] and_shift_bytes4 [where s = 2 and m = "0x33"] assms
  by (simp add: bcat_add byte2_def)

lemma byte3_carry: "(x + x div 16 + 16 * e) AND 0xF = byte3 x"
proof -
  have "n AND 0xF = n mod 16" for n :: nat
    using take_bit_eq_mask [of 4 n] by (simp add: take_bit_eq_mod mask_eq_exp_minus_1)
  then show ?thesis by (simp add: byte3_def)
qed

lemma count_step3:
  assumes le: "a \<le> 0x44" "b \<le> 0x44" "c \<le> 0x44" "d \<le> 0x44"
    and nib: "b mod 16 \<le> 4" "c mod 16 \<le> 4" "d mod 16 \<le> 4"
  shows "(bytes4 a b c d + bytes4 a b c d div 16) AND bytes4 0xF 0xF 0xF 0xF =
    bytes4 (byte3 a) (byte3 b) (byte3 c) (byte3 d)"
proof -
  have sum: "bytes4 a b c d + bytes4 a b c d div 16 =
      bytes4 (a + a div 16 + 16 * (b mod 16)) (b + b div 16 + 16 * (c mod 16))
        (c + c div 16 + 16 * (d mod 16)) (d + d div 16 + 16 * 0)"
    by (simp add: bcat_div_16 bcat_mod_16 bcat_add add.assoc)
  have lt: "x + x div 16 + 16 * e < 256" if "x \<le> 0x44" "e \<le> 4" for x e :: nat
    using that by linarith
  show ?thesis
    unfolding sum
    using and_shift_bytes4 [OF lt [OF le(1) nib(1)] lt [OF le(2) nib(2)] lt [OF le(3) nib(3)]
        lt [OF le(4), of 0], where s = 0 and m = "0xF"]
    by (simp only: byte3_carry power_0 div_by_1) simp
qed

lemma extract_field:
  fixes lo p h :: nat
  assumes "lo < 2 ^ 24" and "p < 2 ^ 8"
  shows "(lo + 2 ^ 24 * p + 2 ^ 32 * h) mod 2 ^ 32 div 2 ^ 24 = p"
proof -
  have "(lo + 2 ^ 24 * p + 2 ^ 32 * h) mod 2 ^ 32 = (lo + 2 ^ 24 * p) mod 2 ^ 32"
    by (rule mod_mult_self2)
  also have "\<dots> = lo + 2 ^ 24 * p" using assms by simp
  finally show ?thesis using assms by simp
qed

lemma count_step4:
  assumes "a \<le> 8" "b \<le> 8" "c \<le> 8" "d \<le> 8"
  shows "bytes4 a b c d * 0x1010101 mod 2 ^ 32 div 2 ^ 24 = a + b + c + d"
proof -
  let ?hi = "b + c + d + 256 * (c + d + 256 * d)"
  let ?lo = "a + 256 * (a + b) + 65536 * (a + b + c)"
  have "bytes4 a b c d * 0x1010101 = ?lo + 2 ^ 24 * (a + b + c + d) + 2 ^ 32 * ?hi"
    by (simp add: bcat_def)
  moreover have "?lo < 2 ^ 24" and "a + b + c + d < 2 ^ 8"
    using assms by simp_all
  ultimately show ?thesis by (simp only: extract_field)
qed

lemma unat_and: "unat (v AND w) = unat v AND unat w"
  for v w :: "'a::len word"
  by (simp add: unsigned_and_eq)

lemma masks4: "bytes4 0x55 0x55 0x55 0x55 = 0x55555555" "bytes4 0x33 0x33 0x33 0x33 = 0x33333333"
  "bytes4 0xF 0xF 0xF 0xF = 0xF0F0F0F"
  by (simp_all add: bcat_def)

lemma count_bits_uint32: "unat (my_count_bits_uint32 v) = ones (unat v)"
proof -
  obtain a b c d where v: "unat v = bytes4 a b c d"
    and lt: "a < 256" "b < 256" "c < 256" "d < 256"
    by (rule bytes4_of_unat)
  note bf = lt [THEN byte_facts(1)] lt [THEN byte_facts(2)] lt [THEN byte_facts(3)]
    lt [THEN byte_facts(4)] lt [THEN byte_facts(5)] lt [THEN byte_facts(6)]
  define v1 where "v1 = v - (drop_bit 1 v AND 0x55555555)"
  define v2 where "v2 = (v1 AND 0x33333333) + (drop_bit 2 v1 AND 0x33333333)"
  define v3 where "v3 = (v2 + drop_bit 4 v2) AND 0xF0F0F0F"
  have and_v: "unat v div 2 AND 0x55555555 \<le> unat v"
    using and_shift_bytes4 [OF lt, where s = 1 and m = "0x55"] bf(1-4)
    by (simp add: v masks4 bcat_mono)
  have "unat v1 = unat v - (unat v div 2 AND 0x55555555)"
    unfolding v1_def using and_v by (subst unat_sub) (simp_all add: word_le_nat_alt unat_and)
  then have 1: "unat v1 = bytes4 (byte1 a) (byte1 b) (byte1 c) (byte1 d)"
    using count_step1 [OF lt] by (simp add: v masks4)
  let ?b2 = "bytes4 (byte2 (byte1 a)) (byte2 (byte1 b)) (byte2 (byte1 c)) (byte2 (byte1 d))"
  have sum2: "(unat v1 AND 0x33333333) + (unat v1 div 4 AND 0x33333333) = ?b2"
    using count_step2 [OF bf(5-8)] by (simp add: 1 masks4)
  have b2: "?b2 \<le> 0x44444444"
    using bf(9-12) by (simp add: bcat_def)
  have 2: "unat v2 = ?b2"
    unfolding v2_def using sum2 b2 by (simp add: unat_word_ariths unat_and)
  have "unat (v2 + drop_bit 4 v2) = unat v2 + unat v2 div 16"
    using b2 by (subst unat_add_no_overflow) (simp_all add: 2)
  then have 3: "unat v3 = bytes4 (ones a) (ones b) (ones c) (ones d)"
    using count_step3 [OF bf(9-12) bf(14-16)] bf(17-20)
    by (simp add: v3_def unat_and 2 masks4)
  have "my_count_bits_uint32 v = drop_bit 24 (v3 * 0x1010101)"
    by (simp add: my_count_bits_uint32_def v1_def v2_def v3_def Let_def)
  then have "unat (my_count_bits_uint32 v) = unat v3 * 0x1010101 mod 2 ^ 32 div 2 ^ 24"
    by (simp add: unat_word_ariths)
  also have "\<dots> = ones (unat v)"
    unfolding 3 v using bf lt by (simp only: count_step4 ones_bcat)
  finally show ?thesis .
qed

lemma ones_eq_card: "finite {i. bit n i} \<and> ones n = card {i. bit n i}"
proof (induction n rule: ones.induct)
  case (1 n)
  show ?case
  proof (cases "n = 0")
    case False
    have bits: "{i. bit n i} = (if odd n then {0} else {}) \<union> Suc ` {i. bit (n div 2) i}"
      by (auto simp: bit_Suc image_iff) (metis bit_0 bit_Suc not0_implies_Suc)+
    have IH: "finite {i. bit (n div 2) i}" "ones (n div 2) = card {i. bit (n div 2) i}"
      using 1 False by auto
    have "card {i. bit n i} = n mod 2 + card (Suc ` {i. bit (n div 2) i})"
      unfolding bits using IH(1) by (subst card_Un_disjoint) (auto simp: odd_iff_mod_2_eq_one)
    also have "\<dots> = n mod 2 + ones (n div 2)" using IH(2) by (simp add: card_image)
    also have "\<dots> = ones n" using False by (simp add: ones.simps [of n])
    finally show ?thesis using IH(1) by (simp add: bits)
  qed simp
qed

lemma ones_unat: "ones (unat w) = card {i. bit w i}" for w :: "'a::len word"
  using ones_eq_card [of "unat w"] by (simp add: bit_unsigned_iff)

lemma count_bits_64: "unat (my_count_bits x) = ones (unat x)"
proof -
  have lt: "unat x < 2 ^ 64" using unat_lt_pow [of 64 x] by simp
  have lo: "unat (ucast x :: uint32) = unat x mod 2 ^ 32"
    by (simp add: unsigned_ucast_eq take_bit_eq_mod)
  have hi: "unat (ucast (drop_bit 32 x) :: uint32) = unat x div 2 ^ 32"
    using lt by (subst unat_ucast_less) (simp_all add: div_less_iff_less_mult)
  have split: "ones (unat x) = ones (unat x mod 2 ^ 32) + ones (unat x div 2 ^ 32)"
    using ones_split [of "unat x mod 2 ^ 32" 32 "unat x div 2 ^ 32"] by simp
  have "ones (unat w) \<le> 32" for w :: uint32
  proof -
    have "{i. bit w i} \<subseteq> {..<32}" using bit_word_lt [of w] by auto
    then have "card {i. bit w i} \<le> 32" using card_mono [of "{..<32}" "{i. bit w i}"] by simp
    then show ?thesis by (simp add: ones_unat)
  qed
  from this [of "ucast x"] this [of "ucast (drop_bit 32 x)"] show ?thesis
    unfolding my_count_bits_def
    by (subst unat_add_no_overflow) (simp_all add: count_bits_uint32 lo hi split)
qed

section \<open>Smearing the highest bit to the right\<close>

definition smeared :: "nat \<Rightarrow> uint32 \<Rightarrow> uint32 \<Rightarrow> bool" where
  "smeared d v w \<longleftrightarrow> (\<forall>i. bit w i \<longleftrightarrow> (\<exists>j. i \<le> j \<and> j < i + d \<and> bit v j))"

lemma smeared_1: "smeared 1 v v"
  unfolding smeared_def by (metis add.commute le_antisym less_Suc_eq_le order_refl plus_1_eq_Suc
      lessI)

lemma smeared_double:
  assumes "smeared d v w"
  shows "smeared (d + d) v (w OR drop_bit d w)"
  unfolding smeared_def
proof (intro allI iffI)
  fix i
  assume "bit (w OR drop_bit d w) i"
  then have "bit w i \<or> bit w (i + d)" by (auto simp: bit_simps add.commute)
  then obtain e where "e = 0 \<or> e = d" "bit w (i + e)" by force
  moreover then obtain j where "i + e \<le> j" "j < i + e + d" "bit v j"
    using assms unfolding smeared_def by blast
  ultimately show "\<exists>j. i \<le> j \<and> j < i + (d + d) \<and> bit v j"
    by (intro exI [of _ j]) auto
next
  fix i
  assume "\<exists>j. i \<le> j \<and> j < i + (d + d) \<and> bit v j"
  then obtain j where j: "i \<le> j" "j < i + (d + d)" "bit v j" by blast
  show "bit (w OR drop_bit d w) i"
  proof (cases "j < i + d")
    case True
    with j assms have "bit w i" by (auto simp: smeared_def)
    then show ?thesis by (simp add: bit_simps)
  next
    case False
    with j assms have "bit w (i + d)" by (auto simp: smeared_def)
    then show ?thesis by (simp add: bit_simps add.commute)
  qed
qed

definition smear :: "uint32 \<Rightarrow> uint32" where
  "smear v = (let v = v OR drop_bit 1 v; v = v OR drop_bit 2 v; v = v OR drop_bit 4 v;
     v = v OR drop_bit 8 v in v OR drop_bit 16 v)"

lemma bit_smear: "bit (smear v) i \<longleftrightarrow> (\<exists>j\<ge>i. bit v j)"
proof -
  define w1 where "w1 = v OR drop_bit 1 v"
  define w2 where "w2 = w1 OR drop_bit 2 w1"
  define w3 where "w3 = w2 OR drop_bit 4 w2"
  define w4 where "w4 = w3 OR drop_bit 8 w3"
  have "smeared 2 v w1" using smeared_double [OF smeared_1 [of v]] by (simp add: w1_def numeral_2_eq_2)
  then have "smeared 4 v w2" using smeared_double [of 2] by (simp add: w2_def)
  then have "smeared 8 v w3" using smeared_double [of 4] by (simp add: w3_def)
  then have "smeared 16 v w4" using smeared_double [of 8] by (simp add: w4_def)
  then have "smeared (16 + 16) v (w4 OR drop_bit 16 w4)" by (rule smeared_double)
  moreover have "smear v = w4 OR drop_bit 16 w4"
    by (simp only: smear_def Let_def w1_def w2_def w3_def w4_def)
  ultimately have "smeared 32 v (smear v)" by simp
  then show ?thesis
    using bit_word_lt [of v] by (auto simp: smeared_def) (metis trans_less_add2)
qed

lemma highest_bit:
  assumes "v \<noteq> (0 :: 'a::len word)"
  obtains h where "bit v h" "\<And>j. bit v j \<Longrightarrow> j \<le> h" "is_log2 (unat v) h"
proof -
  let ?S = "{i. bit v i}"
  have "?S \<subseteq> {..<LENGTH('a)}" using bit_word_lt [of v] by auto
  then have fin: "finite ?S" by (rule finite_subset) simp
  have ne: "?S \<noteq> {}" using assms word_neq_0_iff_bit [of v] by auto
  define h where "h = Max ?S"
  have h: "bit v h" "\<And>j. bit v j \<Longrightarrow> j \<le> h"
    using Max_in [OF fin ne] Max_ge [OF fin] by (auto simp: h_def)
  have "take_bit (Suc h) v = v"
    by (rule bit_word_eqI) (use h in \<open>auto simp: bit_take_bit_iff less_Suc_eq_le\<close>)
  then have "unat v < 2 ^ Suc h"
    by (metis take_bit_nat_eq_self_iff unsigned_take_bit_eq)
  moreover have "odd (unat v div 2 ^ h)"
    using h(1) by (simp add: bit_unsigned_iff flip: bit_iff_odd)
  then have "1 \<le> unat v div 2 ^ h" by (metis One_nat_def Suc_leI even_zero gr0I)
  then have "2 ^ h \<le> unat v" by (simp add: less_eq_div_iff_mult_less_eq)
  ultimately have "is_log2 (unat v) h" by (simp add: is_log2_def)
  with h show thesis by (rule that)
qed

lemma smear_mask:
  assumes "bit v h" "\<And>j. bit v j \<Longrightarrow> j \<le> h"
  shows "smear v = mask (Suc h)"
  by (rule bit_word_eqI)
    (use assms in \<open>auto simp: bit_smear bit_mask_iff less_Suc_eq_le intro: order_trans\<close>)

lemma round_up_smear: "my_round_up_to_next_power v = smear (v - 1) + 1"
  by (simp only: my_round_up_to_next_power_def smear_def Let_def)

lemma clear_highest_smear: "my_clear_highest_bit v = v AND smear (drop_bit 1 v)"
  by (simp only: my_clear_highest_bit_def smear_def Let_def)

lemma mask_plus_1: "mask k + 1 = (2 ^ k :: 'a::len word)"
  by (simp add: mask_eq_exp_minus_1)

section \<open>Masks\<close>

lemma my_set_bits_mask:
  assumes "1 \<le> n" "n \<le> 64"
  shows "my_set_bits n = Some (mask (nat n))"
proof -
  define k where "k = nat (n - 1)"
  have k: "nat n = Suc k" "k < 64" using assms by (auto simp: k_def)
  have "push_bit 1 (mask k) OR 1 = (mask (Suc k) :: ulonglong)"
    using k(2) by (intro bit_word_eqI) (auto simp: bit_simps simp del: push_bit_Suc)
  moreover have "push_bit k 1 - 1 = (mask k :: ulonglong)"
    by (simp add: push_bit_eq_mult mask_eq_exp_minus_1)
  ultimately show ?thesis
    using assms by (simp add: my_set_bits_def k(1) flip: k_def)
qed

section \<open>The lowest set bit\<close>

definition nibble_ok :: "nat \<Rightarrow> bool" where
  "nibble_ok k \<longleftrightarrow> (if k = 0 then last_bit ! k = 32
     else last_bit ! k < 4 \<and> bit k (last_bit ! k) \<and> take_bit (last_bit ! k) k = 0)"

lemma all_nibble_ok: "list_all nibble_ok [0..<16]"
  unfolding upt_16 by (simp add: nibble_ok_def last_bit_def bit_simps flip: bit_Suc)

lemma nibble_facts:
  assumes "k < 16"
  shows "last_bit ! k = 32 \<longleftrightarrow> k = 0"
    and "k \<noteq> 0 \<Longrightarrow> last_bit ! k < 4 \<and> bit k (last_bit ! k) \<and> (\<forall>j < last_bit ! k. \<not> bit k j)"
proof -
  have ok: "nibble_ok k" using all_below_numeral_list [OF all_nibble_ok assms] .
  then show "last_bit ! k = 32 \<longleftrightarrow> k = 0" by (auto simp: nibble_ok_def split: if_splits)
  show "last_bit ! k < 4 \<and> bit k (last_bit ! k) \<and> (\<forall>j < last_bit ! k. \<not> bit k j)" if "k \<noteq> 0"
  proof (intro conjI allI impI)
    fix j
    assume "j < last_bit ! k"
    then have "bit k j = bit (take_bit (last_bit ! k) k) j" by (simp add: bit_take_bit_iff)
    also have "\<dots> = False" using ok that by (simp add: nibble_ok_def)
    finally show "\<not> bit k j" by simp
  qed (use ok that in \<open>auto simp: nibble_ok_def\<close>)
qed

definition nibble :: "ulonglong \<Rightarrow> nat \<Rightarrow> nat" where
  "nibble n s = unat (drop_bit s n AND 0xF)"

lemma bit_nibble: "bit (nibble n s) j \<longleftrightarrow> j < 4 \<and> bit n (s + j)"
proof -
  have "drop_bit s n AND 0xF = take_bit 4 (drop_bit s n)"
    by (simp add: take_bit_eq_mask mask_eq_exp_minus_1)
  then show ?thesis by (auto simp: nibble_def bit_simps dest: bit_word_lt)
qed

lemma nibble_lt: "nibble n s < 16"
proof -
  have "nibble n s = take_bit 4 (nibble n s)"
    by (rule bit_eqI) (auto simp: bit_nibble bit_take_bit_iff)
  then show ?thesis using take_bit_nat_less_exp [of 4 "nibble n s"] by simp
qed

lemma find_first_loop_ok:
  assumes "\<forall>j < s. \<not> bit n j" and "n \<noteq> 0" and "64 \<le> s + 4 * fuel"
  shows "\<exists>k. find_first_loop fuel n s = Some k \<and> bit n k \<and> (\<forall>j < k. \<not> bit n j)"
  using assms
proof (induction fuel arbitrary: s)
  case 0
  then show ?case using word_neq_0_iff_bit [of n] by auto
next
  case (Suc fuel)
  note nb = nibble_facts [OF nibble_lt [of n s]]
  show ?case
  proof (cases "nibble n s = 0")
    case True
    then have none: "\<not> bit n (s + j)" if "j < 4" for j
      using bit_nibble [of n s j] that by simp
    have "\<not> bit n j" if "j < s + 4" for j
      using none [of "j - s"] Suc.prems(1) that by (cases "j < s") auto
    then have "\<exists>k. find_first_loop fuel n (s + 4) = Some k \<and> bit n k \<and> (\<forall>j < k. \<not> bit n j)"
      using Suc.prems by (intro Suc.IH) auto
    then show ?thesis using nb(1) True by (simp add: Let_def flip: nibble_def)
  next
    case False
    let ?b = "last_bit ! nibble n s"
    have b: "?b < 4" "bit n (s + ?b)" "\<forall>j < ?b. \<not> bit n (s + j)"
      using nb(2) [OF False] by (auto simp: bit_nibble)
    have "\<not> bit n j" if "j < s + ?b" for j
      using b(3) [rule_format, of "j - s"] Suc.prems(1) that by (cases "j < s") auto
    then show ?thesis
      using nb(1) False b(2) by (simp add: Let_def flip: nibble_def)
  qed
qed

section \<open>Bit reversal\<close>

lemma bit_my_reverse_bits:
  assumes tbl: "\<And>b i. i < 8 \<Longrightarrow> bit (tbl b) i \<longleftrightarrow> bit b (7 - i)" and i: "i < 32"
  shows "bit (my_reverse_bits tbl key) i \<longleftrightarrow> bit key (31 - i)"
proof -
  have byte: "bit (push_bit s (ucast (tbl w) :: uint32)) i \<longleftrightarrow> s \<le> i \<and> i < s + 8 \<and> bit w (7 - (i - s))"
    for s and w :: uchar
    using i tbl [of "i - s" w] bit_word_lt [of "tbl w" "i - s"]
    by (auto simp: bit_simps simp del: push_bit_Suc)
  have low: "bit (ucast (tbl w) :: uint32) i \<longleftrightarrow> i < 8 \<and> bit w (7 - i)" for w :: uchar
    using byte [of 0 w] by simp
  have m8: "(255 :: uint32) = mask 8" by (simp add: mask_eq_exp_minus_1)
  consider "i < 8" | "8 \<le> i" "i < 16" | "16 \<le> i" "i < 24" | "24 \<le> i" by linarith
  then show ?thesis
    unfolding my_reverse_bits_def bit_or_iff byte low
    using i by cases (auto simp: bit_simps m8)
qed

section \<open>Rounding up\<close>

lemma round_up_above_1:
  assumes "1 < unat v"
  obtains h where "my_round_up_to_next_power v = 2 ^ Suc h" "h < 32" "is_log2 (unat v - 1) h"
proof -
  have u: "unat (v - 1) = unat v - 1"
    using assms by (subst unat_sub) (simp_all add: word_le_nat_alt)
  then have "unat (v - 1) \<noteq> 0" using assms by simp
  then have "v - 1 \<noteq> 0" by auto
  then obtain h where h: "bit (v - 1) h" "\<And>j. bit (v - 1) j \<Longrightarrow> j \<le> h" "is_log2 (unat (v - 1)) h"
    by (rule highest_bit) blast
  have "my_round_up_to_next_power v = 2 ^ Suc h"
    by (simp add: round_up_smear smear_mask [OF h(1,2)] mask_plus_1 del: power_Suc)
  moreover have "h < 32" using bit_word_lt [OF h(1)] by simp
  ultimately show thesis using h(3) u that by simp
qed

lemma round_up_small:
  assumes "1 \<le> unat v" "unat v \<le> 2 ^ 31"
  shows "\<exists>k \<le> 31. unat (my_round_up_to_next_power v) = 2 ^ k \<and> unat v \<le> 2 ^ k \<and>
    (\<forall>j. unat v \<le> 2 ^ j \<longrightarrow> k \<le> j)"
proof (cases "unat v = 1")
  case True
  then have "v = 1" by (metis unat_1 unsigned_word_eqI)
  moreover have "smear 0 = 0" by (simp add: smear_def)
  ultimately show ?thesis by (intro exI [of _ 0]) (simp add: round_up_smear)
next
  case False
  then obtain h where h: "my_round_up_to_next_power v = 2 ^ Suc h" "is_log2 (unat v - 1) h"
    using assms by (metis round_up_above_1 le_neq_implies_less)
  have h31: "h < 31" using assms by (intro is_log2_less [OF h(2)]) simp
  then have "unat (my_round_up_to_next_power v) = 2 ^ Suc h"
    unfolding h(1) by (subst unat_2_pow) simp_all
  moreover have bounds: "2 ^ h < unat v" "unat v \<le> 2 ^ Suc h"
    using h(2) assms False unfolding is_log2_def by linarith+
  moreover have "Suc h \<le> j" if "unat v \<le> 2 ^ j" for j
  proof -
    have "(2::nat) ^ h < 2 ^ j" using bounds(1) that by linarith
    then show ?thesis by simp
  qed
  ultimately show ?thesis using h31 by (intro exI [of _ "Suc h"]) auto
qed

lemma round_up_large:
  assumes "unat v = 0 \<or> 2 ^ 31 < unat v"
  shows "my_round_up_to_next_power v = 0"
proof (cases "unat v = 0")
  case True
  then have "v - 1 = mask 32" by (simp add: unat_eq_zero mask_eq_exp_minus_1)
  then have "smear (v - 1) = mask 32"
    using smear_mask [of "v - 1" 31] by (auto simp: bit_mask_iff)
  then show ?thesis by (simp add: round_up_smear mask_plus_1)
next
  case False
  with assms have big: "2 ^ 31 < unat v" by simp
  then obtain h where h: "my_round_up_to_next_power v = 2 ^ Suc h" "h < 32" "is_log2 (unat v - 1) h"
    using round_up_above_1 [of v] by auto
  have "(2::nat) ^ 31 < 2 ^ Suc h" using big h(3) unfolding is_log2_def by linarith
  then have "31 < Suc h" by (simp only: power_strict_increasing_iff one_less_numeral_iff semiring_norm)
  then have "h = 31" using h(2) by simp
  then show ?thesis using h(1) by simp
qed

section \<open>Properties of the header\<close>

text \<open>
  \<open>my_bit_log2_uint64\<close> returns the position of the highest set bit of a non-zero value
  (the floor of its binary logarithm), and 0 for the value 0.
\<close>

theorem my_bit_log2_uint64_floor:
  "my_bit_log2_uint64 0 = 0 \<and>
   (v \<noteq> 0 \<longrightarrow> 2 ^ unat (my_bit_log2_uint64 v) \<le> unat v \<and>
             unat v < 2 ^ Suc (unat (my_bit_log2_uint64 v)))"
proof -
  have "my_bit_log2_uint64 0 = 0"
    by (simp add: my_bit_log2_uint64_def my_bit_log2_uint32_def my_bit_log2_uint16_def
        my_bit_log2_uint8_def my_bit_log2_hex_digit_def)
  then show ?thesis using log2_uint64 [of v] by (simp add: is_log2_def unat_eq_zero)
qed

theorem my_bit_log2_uint64_floor_witness:
  "(3 :: ulonglong) \<noteq> 0 \<and> 2 ^ unat (my_bit_log2_uint64 3) \<le> (3::nat)"
  using my_bit_log2_uint64_floor [of 3] by simp

text \<open>
  \<open>my_count_bits\<close>, the parallel bit count, returns the number of set bits of its argument.
\<close>

theorem my_count_bits_card: "unat (my_count_bits x) = card {i. bit x i}"
  by (simp add: count_bits_64 ones_unat)

text \<open>
  \<open>my_round_up_to_next_power\<close> returns the least power of two that is at least its argument
  for every argument from 1 to \<open>2^31\<close>; for 0 and for larger arguments it returns 0.
\<close>

theorem my_round_up_to_next_power_least:
  "(1 \<le> unat v \<and> unat v \<le> 2 ^ 31 \<longrightarrow>
     (\<exists>k \<le> 31. unat (my_round_up_to_next_power v) = 2 ^ k \<and> unat v \<le> 2 ^ k \<and>
       (\<forall>j. unat v \<le> 2 ^ j \<longrightarrow> k \<le> j))) \<and>
   (unat v = 0 \<or> 2 ^ 31 < unat v \<longrightarrow> my_round_up_to_next_power v = 0)"
  using round_up_small [of v] round_up_large [of v] by blast

theorem my_round_up_to_next_power_least_witness:
  "1 \<le> unat (5 :: uint32) \<and> unat (5 :: uint32) \<le> 2 ^ 31 \<and>
   (\<exists>k \<le> 31. unat (my_round_up_to_next_power 5) = 2 ^ k \<and> unat (5 :: uint32) \<le> 2 ^ k \<and>
     (\<forall>j. unat (5 :: uint32) \<le> 2 ^ j \<longrightarrow> k \<le> j))"
proof -
  have h: "1 \<le> unat (5 :: uint32) \<and> unat (5 :: uint32) \<le> 2 ^ 31" by simp
  with my_round_up_to_next_power_least [of 5] show ?thesis by blast
qed

text \<open>
  \<open>my_clear_highest_bit\<close> clears exactly the highest set bit: a bit is kept when it is set
  and a higher one is set too.
\<close>

theorem my_clear_highest_bit_bits:
  "bit (my_clear_highest_bit v) i \<longleftrightarrow> bit v i \<and> (\<exists>j. i < j \<and> bit v j)"
proof -
  have "(\<exists>j\<ge>i. bit (drop_bit 1 v) j) \<longleftrightarrow> (\<exists>j>i. bit v j)"
    unfolding bit_drop_bit_eq comp_def
    by (metis Suc_leD Suc_le_D Suc_le_mono le_Suc_eq less_eq_Suc_le plus_1_eq_Suc)
  then show ?thesis by (simp add: clear_highest_smear bit_and_iff bit_smear)
qed

text \<open>
  \<open>my_find_first_bit\<close> always returns: the position of the lowest set bit of a non-zero
  argument, and 64 for the argument 0. The loop never runs past the sixteenth nibble.
\<close>

theorem my_find_first_bit_lowest:
  "my_find_first_bit 0 = Some 64 \<and>
   (n \<noteq> 0 \<longrightarrow> (\<exists>k < 64. my_find_first_bit n = Some k \<and> bit n k \<and> (\<forall>j < k. \<not> bit n j)))"
  using find_first_loop_ok [of 0 n 16] bit_word_lt [of n]
  by (auto simp: my_find_first_bit_def)

theorem my_find_first_bit_lowest_witness:
  "(8 :: ulonglong) \<noteq> 0 \<and>
   (\<exists>k < 64. my_find_first_bit 8 = Some k \<and> bit (8 :: ulonglong) k \<and> (\<forall>j < k. \<not> bit (8 :: ulonglong) j))"
  using my_find_first_bit_lowest [of 8] by simp

text \<open>
  With a byte-reversal table (entry \<open>b\<close> is the byte \<open>b\<close> with its bits in reverse order),
  \<open>my_reverse_bits\<close> reverses the order of the 32 bits of its argument.
\<close>

theorem my_reverse_bits_reverses:
  assumes "\<And>b i. i < 8 \<Longrightarrow> bit (tbl b) i \<longleftrightarrow> bit b (7 - i)" and "i < 32"
  shows "bit (my_reverse_bits tbl key) i \<longleftrightarrow> bit key (31 - i)"
  using assms by (rule bit_my_reverse_bits)

theorem my_reverse_bits_reverses_witness:
  "bit (my_reverse_bits (\<lambda>b. word_reverse b) 1) 31 \<longleftrightarrow> bit (1 :: uint32) (31 - 31)"
proof (rule my_reverse_bits_reverses)
  show "bit (word_reverse b) i \<longleftrightarrow> bit b (7 - i)" if "i < 8" for b :: uchar and i
    using that by (simp add: bit_word_reverse_iff)
qed simp

text \<open>
  \<open>my_set_bits\<close> is defined exactly for 1 to 64, where it returns the mask of the \<open>n\<close> lowest
  bits; \<open>my_set_bits(0)\<close> shifts by a negative amount.
\<close>

theorem my_set_bits_defined:
  "my_set_bits n = (if 1 \<le> n \<and> n \<le> 64 then Some (mask (nat n)) else None)"
  using my_set_bits_mask [of n] by (auto simp: my_set_bits_def)

end
