(* ===== verification/Sql_Bitmap.thy ===== *)
theory Sql_Bitmap
  imports My_Bit
begin

text \<open>
  The fixed-width bitmap of \<^verbatim>\<open>sql_bitmap.h\<close>: the class template \<^verbatim>\<open>Bitmap<width>\<close>, an array of
  64-bit words, the iterator over the bits of one word (\<^verbatim>\<open>Table_map_iterator\<close>) and the
  iterator over a whole bitmap. The template argument is the field \<open>width\<close>. A loop over the
  words is a recursive function over the index. \<^verbatim>\<open>DBUG_ASSERT\<close> is compiled out of the shipped
  build: the conditions it states are hypotheses of the lemmas.

  The abstraction \<open>elems\<close> is the set of the positions of the set bits, and the interface
  locale \<open>bit_set\<close> states what the operations promise of it.
\<close>

section \<open>Definitions\<close>

subsection \<open>Iterating over the bits of one word\<close>

record table_map_iterator =
  bmp :: ulonglong

definition Table_map_iterator :: "ulonglong \<Rightarrow> table_map_iterator" where
  "Table_map_iterator t = \<lparr>bmp = t\<rparr>"

definition TMI_BITMAP_END :: nat where
  "TMI_BITMAP_END = 64"

definition next_bit :: "table_map_iterator \<Rightarrow> (nat \<times> table_map_iterator) option" where
  "next_bit it =
     (if bmp it = 0 then Some (TMI_BITMAP_END, it)
      else case my_find_first_bit (bmp it) of
             None \<Rightarrow> None
           | Some pos \<Rightarrow> Some (pos, it\<lparr>bmp := bmp it AND NOT (push_bit pos 1)\<rparr>))"

definition tmi_postincrement :: "table_map_iterator \<Rightarrow> (nat \<times> table_map_iterator) option" where
  "tmi_postincrement it = next_bit it"

subsection \<open>The bitmap\<close>

definition BITS_PER_ELEMENT :: nat where
  "BITS_PER_ELEMENT = 8 * 8"

definition ARRAY_ELEMENTS :: "nat \<Rightarrow> nat" where
  "ARRAY_ELEMENTS w = (w + BITS_PER_ELEMENT - 1) div BITS_PER_ELEMENT"

definition ALL_BITS_SET :: ulonglong where
  "ALL_BITS_SET = ULONGLONG_MAX"

record bitmap =
  width :: nat
  buffer :: "ulonglong list"

definition bit_index :: "nat \<Rightarrow> nat \<Rightarrow> nat" where
  "bit_index w n = (if ARRAY_ELEMENTS w = 1 then 0 else n div BITS_PER_ELEMENT)"

definition bit_mask :: "nat \<Rightarrow> nat \<Rightarrow> ulonglong" where
  "bit_mask w n =
     (if ARRAY_ELEMENTS w = 1 then push_bit n 1 else push_bit (n mod BITS_PER_ELEMENT) 1)"

definition last_element_mask :: "nat \<Rightarrow> nat \<Rightarrow> ulonglong" where
  "last_element_mask w n = bit_mask w n - 1"

definition bitmap_length :: "bitmap \<Rightarrow> nat" where
  "bitmap_length b = width b"

definition set_bit_n :: "bitmap \<Rightarrow> nat \<Rightarrow> bitmap" where
  "set_bit_n b n = (let i = bit_index (width b) n in
     b\<lparr>buffer := (buffer b)[i := buffer b ! i OR bit_mask (width b) n]\<rparr>)"

definition clear_bit :: "bitmap \<Rightarrow> nat \<Rightarrow> bitmap" where
  "clear_bit b n = (let i = bit_index (width b) n in
     b\<lparr>buffer := (buffer b)[i := buffer b ! i AND NOT (bit_mask (width b) n)]\<rparr>)"

definition is_set :: "bitmap \<Rightarrow> nat \<Rightarrow> bool" where
  "is_set b n \<longleftrightarrow> buffer b ! bit_index (width b) n AND bit_mask (width b) n \<noteq> 0"

text \<open>The loops: store one value from \<open>i\<close> up to \<open>n\<close>; test one value from \<open>i\<close> up to \<open>n\<close>.\<close>

function fill :: "nat \<Rightarrow> nat \<Rightarrow> ulonglong \<Rightarrow> ulonglong list \<Rightarrow> ulonglong list" where
  "fill i n v buf = (if i < n then fill (Suc i) n v (buf[i := v]) else buf)"
  by pat_completeness auto
termination
  by (relation "measure (\<lambda>(i, n, v, buf). n - i)") auto

function all_equal :: "nat \<Rightarrow> nat \<Rightarrow> ulonglong \<Rightarrow> ulonglong list \<Rightarrow> bool" where
  "all_equal i n v buf =
     (if i < n then (if buf ! i \<noteq> v then False else all_equal (Suc i) n v buf) else True)"
  by pat_completeness auto
termination
  by (relation "measure (\<lambda>(i, n, v, buf). n - i)") auto

definition set_prefix :: "bitmap \<Rightarrow> nat \<Rightarrow> bitmap" where
  "set_prefix b prefix_size =
     (let prefix_size = (if width b < prefix_size then width b else prefix_size);
          idx = prefix_size div BITS_PER_ELEMENT;
          buf = fill 0 idx ALL_BITS_SET (buffer b);
          (buf, idx) = (if prefix_size mod BITS_PER_ELEMENT \<noteq> 0
                        then (buf[idx := last_element_mask (width b) prefix_size], Suc idx)
                        else (buf, idx))
      in b\<lparr>buffer := fill idx (ARRAY_ELEMENTS (width b)) 0 buf\<rparr>)"

definition bitmap_init :: "bitmap \<Rightarrow> nat \<Rightarrow> bitmap" where
  "bitmap_init b prefix = set_prefix b prefix"

definition is_prefix :: "bitmap \<Rightarrow> nat \<Rightarrow> bool" where
  "is_prefix b prefix_size =
     (let idx = prefix_size div BITS_PER_ELEMENT in
      if \<not> all_equal 0 idx ALL_BITS_SET (buffer b) then False
      else if prefix_size mod BITS_PER_ELEMENT \<noteq> 0
      then (if buffer b ! idx \<noteq> last_element_mask (width b) prefix_size then False
            else all_equal (Suc idx) (ARRAY_ELEMENTS (width b)) 0 (buffer b))
      else all_equal idx (ARRAY_ELEMENTS (width b)) 0 (buffer b))"

definition set_all :: "bitmap \<Rightarrow> bitmap" where
  "set_all b =
     (if width b mod BITS_PER_ELEMENT \<noteq> 0 then set_prefix b (width b)
      else if 1 < ARRAY_ELEMENTS (width b)
      then b\<lparr>buffer := replicate (length (buffer b)) ALL_BITS_SET\<rparr>
      else b\<lparr>buffer := (buffer b)[0 := ALL_BITS_SET]\<rparr>)"

definition clear_all :: "bitmap \<Rightarrow> bitmap" where
  "clear_all b =
     (if 1 < ARRAY_ELEMENTS (width b) then b\<lparr>buffer := replicate (length (buffer b)) 0\<rparr>
      else b\<lparr>buffer := (buffer b)[0 := 0]\<rparr>)"

text \<open>The loop \<open>for (i..n) buffer[i] = f(buffer[i], other.buffer[i])\<close>.\<close>

function combine :: "(ulonglong \<Rightarrow> ulonglong \<Rightarrow> ulonglong) \<Rightarrow> nat \<Rightarrow> nat \<Rightarrow>
    ulonglong list \<Rightarrow> ulonglong list \<Rightarrow> ulonglong list" where
  "combine f i n buf buf2 =
     (if i < n then combine f (Suc i) n (buf[i := f (buf ! i) (buf2 ! i)]) buf2 else buf)"
  by pat_completeness auto
termination
  by (relation "measure (\<lambda>(f, i, n, buf, buf2). n - i)") auto

definition intersect :: "bitmap \<Rightarrow> bitmap \<Rightarrow> bitmap" where
  "intersect b other = b\<lparr>buffer :=
     combine (\<lambda>x y. x AND y) 0 (ARRAY_ELEMENTS (width b)) (buffer b) (buffer other)\<rparr>"

definition intersect_and_pad :: "bitmap \<Rightarrow> ulonglong \<Rightarrow> bool \<Rightarrow> bitmap" where
  "intersect_and_pad b other_bits pad_with_ones =
     (let w = width b;
          buf = (buffer b)[0 := buffer b ! 0 AND other_bits];
          buf = fill 1 (ARRAY_ELEMENTS w) (if pad_with_ones then ALL_BITS_SET else 0) buf;
          buf = (if 1 < ARRAY_ELEMENTS w \<and> w mod BITS_PER_ELEMENT \<noteq> 0 \<and> pad_with_ones
                 then buf[ARRAY_ELEMENTS w - 1 := last_element_mask w w] else buf)
      in b\<lparr>buffer := buf\<rparr>)"

definition intersect_word :: "bitmap \<Rightarrow> ulonglong \<Rightarrow> bitmap" where
  "intersect_word b other_bits = intersect_and_pad b other_bits False"

definition intersect_extended :: "bitmap \<Rightarrow> ulonglong \<Rightarrow> bitmap" where
  "intersect_extended b other_bits =
     intersect_and_pad b other_bits (other_bits AND push_bit 63 1 \<noteq> 0)"

definition subtract :: "bitmap \<Rightarrow> bitmap \<Rightarrow> bitmap" where
  "subtract b other = b\<lparr>buffer :=
     combine (\<lambda>x y. x AND NOT y) 0 (ARRAY_ELEMENTS (width b)) (buffer b) (buffer other)\<rparr>"

definition merge :: "bitmap \<Rightarrow> bitmap \<Rightarrow> bitmap" where
  "merge b other = b\<lparr>buffer :=
     combine (\<lambda>x y. x OR y) 0 (ARRAY_ELEMENTS (width b)) (buffer b) (buffer other)\<rparr>"

definition is_clear_all :: "bitmap \<Rightarrow> bool" where
  "is_clear_all b = all_equal 0 (ARRAY_ELEMENTS (width b)) 0 (buffer b)"

text \<open>The loop \<open>for (i..n) if (f(buffer[i], other.buffer[i])) return true; return false\<close>.\<close>

function any_pair :: "(ulonglong \<Rightarrow> ulonglong \<Rightarrow> ulonglong) \<Rightarrow> nat \<Rightarrow> nat \<Rightarrow>
    ulonglong list \<Rightarrow> ulonglong list \<Rightarrow> bool" where
  "any_pair f i n buf buf2 =
     (if i < n then (if f (buf ! i) (buf2 ! i) \<noteq> 0 then True else any_pair f (Suc i) n buf buf2)
      else False)"
  by pat_completeness auto
termination
  by (relation "measure (\<lambda>(f, i, n, buf, buf2). n - i)") auto

definition is_subset :: "bitmap \<Rightarrow> bitmap \<Rightarrow> bool" where
  "is_subset b other \<longleftrightarrow>
     \<not> any_pair (\<lambda>x y. x AND NOT y) 0 (ARRAY_ELEMENTS (width b)) (buffer b) (buffer other)"

definition is_overlapping :: "bitmap \<Rightarrow> bitmap \<Rightarrow> bool" where
  "is_overlapping b other \<longleftrightarrow>
     any_pair (\<lambda>x y. x AND y) 0 (ARRAY_ELEMENTS (width b)) (buffer b) (buffer other)"

definition bitmap_eq :: "bitmap \<Rightarrow> bitmap \<Rightarrow> bool" where
  "bitmap_eq b other \<longleftrightarrow>
     (if 1 < ARRAY_ELEMENTS (width b) then buffer b = buffer other
      else buffer b ! 0 = buffer other ! 0)"

definition bitmap_neq :: "bitmap \<Rightarrow> bitmap \<Rightarrow> bool" where
  "bitmap_neq b other \<longleftrightarrow> \<not> bitmap_eq b other"

definition to_ulonglong :: "bitmap \<Rightarrow> ulonglong" where
  "to_ulonglong b = buffer b ! 0"

function count_from :: "nat \<Rightarrow> nat \<Rightarrow> uint \<Rightarrow> ulonglong list \<Rightarrow> uint" where
  "count_from i n res buf =
     (if i < n then count_from (Suc i) n (res + my_count_bits (buf ! i)) buf else res)"
  by pat_completeness auto
termination
  by (relation "measure (\<lambda>(i, n, res, buf). n - i)") auto

definition bits_set :: "bitmap \<Rightarrow> uint" where
  "bits_set b = count_from 0 (ARRAY_ELEMENTS (width b)) 0 (buffer b)"

subsection \<open>Printing\<close>

text \<open>
  \<^verbatim>\<open>print\<close>, with the digit table \<open>dig\<close> (\<^verbatim>\<open>_dig_vec_upper\<close>) and the conversion
  \<open>longlong2str num buf radix\<close> (the characters of \<open>buf\<close> after the call) as parameters: both
  are defined outside the header. A right shift by 64 or more is undefined in C, the value
  \<open>None\<close>.
\<close>

fun last_nonzero :: "nat \<Rightarrow> ulonglong list \<Rightarrow> nat" where
  "last_nonzero 0 buf = 0"
| "last_nonzero (Suc k) buf = (if buf ! Suc k = 0 then last_nonzero k buf else Suc k)"

fun print_digits :: "(nat \<Rightarrow> char) \<Rightarrow> ulonglong \<Rightarrow> nat \<Rightarrow> nat \<Rightarrow> nat \<Rightarrow> nat \<Rightarrow> string \<Rightarrow> string option"
where
  "print_digits dig num pos 0 j shift buf = Some buf"
| "print_digits dig num pos (Suc left) j shift buf =
     (if shift < 64
      then print_digits dig num pos left (Suc j) (shift + 4)
             (buf[pos + j := dig (unat (drop_bit shift num AND 0xf))])
      else None)"

function print_elements :: "(nat \<Rightarrow> char) \<Rightarrow> ulonglong list \<Rightarrow> nat \<Rightarrow> nat \<Rightarrow> string \<Rightarrow> string option"
where
  "print_elements dig elts i last_i buf =
     (if i < last_i
      then case print_digits dig (elts ! i) (i * (BITS_PER_ELEMENT div 4)) (BITS_PER_ELEMENT div 4) 0
                  (BITS_PER_ELEMENT - 4) buf of
             None \<Rightarrow> None
           | Some buf \<Rightarrow> print_elements dig elts (Suc i) last_i buf
      else Some buf)"
  by pat_completeness auto
termination
  by (relation "measure (\<lambda>(dig, elts, i, last_i, buf). last_i - i)") auto

definition print :: "(nat \<Rightarrow> char) \<Rightarrow> (ulonglong \<Rightarrow> string \<Rightarrow> nat \<Rightarrow> string) \<Rightarrow> bitmap \<Rightarrow> string \<Rightarrow>
    string option" where
  "print dig longlong2str b buf =
     (let last_i = last_nonzero (ARRAY_ELEMENTS (width b) - 1) (buffer b) in
      case print_elements dig (buffer b) 0 last_i buf of
        None \<Rightarrow> None
      | Some buf \<Rightarrow> Some (longlong2str (buffer b ! last_i) buf 16))"

subsection \<open>Iterating over a bitmap\<close>

record bitmap_iterator =
  imap :: bitmap
  offset :: nat
  tmi :: table_map_iterator

definition Iterator :: "bitmap \<Rightarrow> bitmap_iterator" where
  "Iterator other = \<lparr>imap = other, offset = 0, tmi = Table_map_iterator (buffer other ! 0)\<rparr>"

text \<open>The positions are numbers; the \<^verbatim>\<open>int\<close> of the code holds those of a bitmap of fewer than \<open>2 ^ 31\<close> bits.\<close>

definition BITMAP_END :: "bitmap \<Rightarrow> nat" where
  "BITMAP_END b = width b"

function iterator_next :: "bitmap_iterator \<Rightarrow> (nat \<times> bitmap_iterator) option" where
  "iterator_next it =
     (case tmi_postincrement (tmi it) of
        None \<Rightarrow> None
      | Some (nextbit, t) \<Rightarrow>
          (let it = it\<lparr>tmi := t\<rparr> in
           if nextbit \<noteq> TMI_BITMAP_END then Some (offset it + nextbit, it)
           else if bitmap_length (imap it) \<le> offset it + BITS_PER_ELEMENT
           then Some (BITMAP_END (imap it), it)
           else let off = offset it + BITS_PER_ELEMENT in
                iterator_next (it\<lparr>offset := off,
                  tmi := Table_map_iterator (buffer (imap it) ! (off div BITS_PER_ELEMENT))\<rparr>)))"
  by pat_completeness auto
termination
  by (relation "measure (\<lambda>it. width (imap it) - offset it)")
    (auto simp: bitmap_length_def BITS_PER_ELEMENT_def)

declare fill.simps [simp del] all_equal.simps [simp del] combine.simps [simp del]
  any_pair.simps [simp del] count_from.simps [simp del] print_elements.simps [simp del]
  iterator_next.simps [simp del]

section \<open>The loops\<close>

lemma length_fill [simp]: "length (fill i n v buf) = length buf"
  by (induction i n v buf rule: fill.induct) (subst fill.simps, simp)

lemma nth_fill:
  "j < length buf \<Longrightarrow> fill i n v buf ! j = (if i \<le> j \<and> j < n then v else buf ! j)"
proof (induction i n v buf rule: fill.induct)
  case (1 i n v buf)
  then show ?case by (subst fill.simps) (auto simp: nth_list_update)
qed

lemma all_equal_iff: "all_equal i n v buf \<longleftrightarrow> (\<forall>j. i \<le> j \<and> j < n \<longrightarrow> buf ! j = v)"
proof (induction i n v buf rule: all_equal.induct)
  case (1 i n v buf)
  then show ?case by (subst all_equal.simps) (auto simp: range_all_rec)
qed

lemma length_combine [simp]: "length (combine f i n buf buf2) = length buf"
  by (induction f i n buf buf2 rule: combine.induct) (subst combine.simps, simp)

lemma nth_combine:
  "j < length buf \<Longrightarrow>
   combine f i n buf buf2 ! j = (if i \<le> j \<and> j < n then f (buf ! j) (buf2 ! j) else buf ! j)"
proof (induction f i n buf buf2 rule: combine.induct)
  case (1 f i n buf buf2)
  then show ?case by (cases "j = i") (subst combine.simps, simp)+
qed

lemma any_pair_iff:
  "any_pair f i n buf buf2 \<longleftrightarrow> (\<exists>j. i \<le> j \<and> j < n \<and> f (buf ! j) (buf2 ! j) \<noteq> 0)"
proof (induction f i n buf buf2 rule: any_pair.induct)
  case (1 f i n buf buf2)
  then show ?case by (subst any_pair.simps) (simp add: range_ex_rec)
qed

section \<open>Abstraction and invariant\<close>

definition elems :: "bitmap \<Rightarrow> nat set" where
  "elems b = {n. n div 64 < length (buffer b) \<and> bit (buffer b ! (n div 64)) (n mod 64)}"

definition bitmap_wf :: "bitmap \<Rightarrow> bool" where
  "bitmap_wf b \<longleftrightarrow> 0 < width b \<and> length (buffer b) = ARRAY_ELEMENTS (width b) \<and>
     elems b \<subseteq> {..<width b}"

lemmas bitmap_consts = BITS_PER_ELEMENT_def ARRAY_ELEMENTS_def ALL_BITS_SET_def

lemma div_less_ARRAY_ELEMENTS: "n < w \<Longrightarrow> n div 64 < ARRAY_ELEMENTS w"
  by (simp add: bitmap_consts)

lemma less_ARRAY_ELEMENTS_iff: "i < ARRAY_ELEMENTS w \<longleftrightarrow> i * 64 < w"
  by (simp add: bitmap_consts) linarith

lemma ARRAY_ELEMENTS_pos [simp]: "0 < w \<Longrightarrow> 0 < ARRAY_ELEMENTS w"
  by (simp add: less_ARRAY_ELEMENTS_iff)

lemma ARRAY_ELEMENTS_eq: "ARRAY_ELEMENTS w = w div 64 + (if w mod 64 = 0 then 0 else 1)"
proof -
  have "ARRAY_ELEMENTS w = (w mod 64 + 63 + 64 * (w div 64)) div 64" by (simp add: bitmap_consts)
  also have "\<dots> = w div 64 + (w mod 64 + 63) div 64"
    by (simp only: div_mult_self2 zero_neq_numeral not_False_eq_True)
  finally show ?thesis by (cases "w mod 64 = 0") (auto simp: div_eq_dividend_iff div_nat_eqI)
qed

lemma one_word: "bitmap_wf b \<Longrightarrow> \<not> 1 < ARRAY_ELEMENTS (width b) \<Longrightarrow> length (buffer b) = 1"
  using ARRAY_ELEMENTS_pos [of "width b"] unfolding bitmap_wf_def by (elim conjE) linarith

lemma elems_cong: "buffer a = buffer b \<Longrightarrow> elems a = elems b"
  by (simp add: elems_def)

lemma bit_index_eq: "n < w \<Longrightarrow> bit_index w n = n div 64"
  using div_less_ARRAY_ELEMENTS [of n w] by (auto simp: bit_index_def BITS_PER_ELEMENT_def)

lemma bit_mask_eq:
  assumes "n < w \<or> n \<le> w \<and> n mod 64 \<noteq> 0"
  shows "bit_mask w n = push_bit (n mod 64) 1"
proof (cases "ARRAY_ELEMENTS w = 1")
  case True
  then have "w \<le> 64" using less_ARRAY_ELEMENTS_iff [of 1 w] by simp
  then have "n < 64" using assms by (cases "n = 64") auto
  then show ?thesis by (simp add: bit_mask_def True)
qed (simp add: bit_mask_def BITS_PER_ELEMENT_def)

lemma bit_single: "bit (2 ^ k :: ulonglong) m \<longleftrightarrow> k < 64 \<and> m = k"
  by (auto simp: bit_exp_iff possible_bit_def)

lemma and_single_neq_0: "k < 64 \<Longrightarrow> (x AND 2 ^ k \<noteq> 0) = bit x k" for x :: ulonglong
  unfolding word_neq_0_iff_bit by (auto simp: bit_and_iff bit_single)

lemma bit_last_element_mask:
  assumes "n \<le> w" "n mod 64 \<noteq> 0"
  shows "bit (last_element_mask w n) m \<longleftrightarrow> m < n mod 64"
proof -
  have "last_element_mask w n = mask (n mod 64)"
    using assms by (simp add: last_element_mask_def bit_mask_eq push_bit_eq_mult mask_eq_exp_minus_1)
  then show ?thesis by (auto simp: bit_mask_iff)
qed

lemma bit_ALL_BITS_SET: "bit ALL_BITS_SET m \<longleftrightarrow> m < 64"
proof -
  have ones: "ALL_BITS_SET = mask 64" by (simp add: ALL_BITS_SET_def mask_eq_exp_minus_1)
  show ?thesis unfolding ones bit_mask_iff by auto
qed

text \<open>Two buffers of one length are equal when they hold the same bits.\<close>

lemma elems_inject:
  assumes "length (buffer a) = length (buffer b)" and "elems a = elems b"
  shows "buffer a = buffer b"
proof (rule nth_equalityI)
  fix i
  assume i: "i < length (buffer a)"
  show "buffer a ! i = buffer b ! i"
  proof (rule bit_word_eqI)
    fix m
    assume "m < LENGTH(64)"
    then have m: "(i * 64 + m) div 64 = i" "(i * 64 + m) mod 64 = m" "m mod 64 = m" by simp_all
    have "i * 64 + m \<in> elems a \<longleftrightarrow> i * 64 + m \<in> elems b" using assms(2) by simp
    then show "bit (buffer a ! i) m = bit (buffer b ! i) m"
      using i assms(1) by (simp add: elems_def m)
  qed
qed (rule assms(1))

section \<open>The interface of a set of bits\<close>

text \<open>
  What a bitmap of a fixed capacity promises its clients, in terms of the set of the
  positions it holds: single-bit updates and tests, and the set operations on two bitmaps
  of one capacity.
\<close>

locale bit_set =
  fixes inv :: "'m \<Rightarrow> bool" and cap :: "'m \<Rightarrow> nat" and els :: "'m \<Rightarrow> nat set"
    and add del :: "'m \<Rightarrow> nat \<Rightarrow> 'm" and test :: "'m \<Rightarrow> nat \<Rightarrow> bool"
    and inter diff union :: "'m \<Rightarrow> 'm \<Rightarrow> 'm"
    and sub overlap eq :: "'m \<Rightarrow> 'm \<Rightarrow> bool"
  assumes els_bound: "inv m \<Longrightarrow> els m \<subseteq> {..<cap m}"
    and add: "inv m \<Longrightarrow> n < cap m \<Longrightarrow>
          inv (add m n) \<and> cap (add m n) = cap m \<and> els (add m n) = insert n (els m)"
    and del: "inv m \<Longrightarrow> n < cap m \<Longrightarrow>
          inv (del m n) \<and> cap (del m n) = cap m \<and> els (del m n) = els m - {n}"
    and test: "inv m \<Longrightarrow> n < cap m \<Longrightarrow> test m n \<longleftrightarrow> n \<in> els m"
    and inter: "inv m \<Longrightarrow> inv k \<Longrightarrow> cap m = cap k \<Longrightarrow>
          inv (inter m k) \<and> cap (inter m k) = cap m \<and> els (inter m k) = els m \<inter> els k"
    and diff: "inv m \<Longrightarrow> inv k \<Longrightarrow> cap m = cap k \<Longrightarrow>
          inv (diff m k) \<and> cap (diff m k) = cap m \<and> els (diff m k) = els m - els k"
    and union: "inv m \<Longrightarrow> inv k \<Longrightarrow> cap m = cap k \<Longrightarrow>
          inv (union m k) \<and> cap (union m k) = cap m \<and> els (union m k) = els m \<union> els k"
    and sub: "inv m \<Longrightarrow> inv k \<Longrightarrow> cap m = cap k \<Longrightarrow> sub m k \<longleftrightarrow> els m \<subseteq> els k"
    and overlap: "inv m \<Longrightarrow> inv k \<Longrightarrow> cap m = cap k \<Longrightarrow> overlap m k \<longleftrightarrow> els m \<inter> els k \<noteq> {}"
    and eq: "inv m \<Longrightarrow> inv k \<Longrightarrow> cap m = cap k \<Longrightarrow> eq m k \<longleftrightarrow> els m = els k"
begin

lemma test_add:
  "inv m \<Longrightarrow> n < cap m \<Longrightarrow> j < cap m \<Longrightarrow> test (add m n) j \<longleftrightarrow> j = n \<or> test m j"
  using add [of m n] test [of m j] test [of "add m n" j] by auto

lemma test_del:
  "inv m \<Longrightarrow> n < cap m \<Longrightarrow> j < cap m \<Longrightarrow> test (del m n) j \<longleftrightarrow> j \<noteq> n \<and> test m j"
  using del [of m n] test [of m j] test [of "del m n" j] by auto

lemma del_add_restores:
  "inv m \<Longrightarrow> n < cap m \<Longrightarrow> \<not> test m n \<Longrightarrow> eq (del (add m n) n) m"
  using add [of m n] del [of "add m n" n] test [of m n] eq [of "del (add m n) n" m] by auto

lemma overlap_iff_diff_changes:
  "inv m \<Longrightarrow> inv k \<Longrightarrow> cap m = cap k \<Longrightarrow> overlap m k \<longleftrightarrow> \<not> eq (diff m k) m"
  using overlap [of m k] diff [of m k] eq [of "diff m k" m] by auto

lemma sub_iff_union_absorbs:
  "inv m \<Longrightarrow> inv k \<Longrightarrow> cap m = cap k \<Longrightarrow> sub m k \<longleftrightarrow> eq (union m k) k"
  using sub [of m k] union [of m k] eq [of "union m k" k] by auto

end

section \<open>The bitmap operations implement the interface\<close>

lemma bitmap_wf_less: "bitmap_wf b \<Longrightarrow> n < width b \<Longrightarrow> n div 64 < length (buffer b)"
  by (simp add: bitmap_wf_def div_less_ARRAY_ELEMENTS)

lemma div_mod_64_eq: "n div 64 = m div 64 \<Longrightarrow> n mod 64 = m mod 64 \<Longrightarrow> n = (m::nat)"
  by (metis div_mult_mod_eq)

lemma width_ops [simp]:
  "width (set_bit_n b n) = width b" "width (clear_bit b n) = width b"
  "width (intersect b other) = width b" "width (subtract b other) = width b"
  "width (merge b other) = width b" "width (set_prefix b p) = width b"
  "width (set_all b) = width b" "width (clear_all b) = width b"
  "width (intersect_and_pad b x pad) = width b"
  by (simp_all add: set_bit_n_def clear_bit_def intersect_def subtract_def merge_def
      set_prefix_def set_all_def clear_all_def intersect_and_pad_def Let_def split: prod.splits)

lemma length_buffer_ops [simp]:
  "length (buffer (set_bit_n b n)) = length (buffer b)"
  "length (buffer (clear_bit b n)) = length (buffer b)"
  "length (buffer (intersect b other)) = length (buffer b)"
  "length (buffer (subtract b other)) = length (buffer b)"
  "length (buffer (merge b other)) = length (buffer b)"
  "length (buffer (set_prefix b p)) = length (buffer b)"
  "length (buffer (set_all b)) = length (buffer b)"
  "length (buffer (clear_all b)) = length (buffer b)"
  "length (buffer (intersect_and_pad b x pad)) = length (buffer b)"
  by (simp_all add: set_bit_n_def clear_bit_def intersect_def subtract_def merge_def
      set_prefix_def set_all_def clear_all_def intersect_and_pad_def Let_def split: prod.splits)

lemma bitmap_wf_by_elems:
  "bitmap_wf b \<Longrightarrow> width c = width b \<Longrightarrow> length (buffer c) = length (buffer b) \<Longrightarrow>
   elems c \<subseteq> {..<width b} \<Longrightarrow> bitmap_wf c"
  by (simp add: bitmap_wf_def)

lemma elems_set_bit:
  assumes "bitmap_wf b" "n < width b"
  shows "elems (set_bit_n b n) = insert n (elems b)"
  using bitmap_wf_less [OF assms] assms(2) div_mod_64_eq [of _ n]
  by (auto simp: elems_def set_bit_n_def Let_def bit_index_eq bit_mask_eq nth_list_update
      bit_or_iff bit_single split: if_splits)

lemma elems_clear_bit:
  assumes "bitmap_wf b" "n < width b"
  shows "elems (clear_bit b n) = elems b - {n}"
  using bitmap_wf_less [OF assms] assms(2) div_mod_64_eq [of _ n]
  by (auto simp: elems_def clear_bit_def Let_def bit_index_eq bit_mask_eq nth_list_update
      bit_and_iff bit_not_iff bit_single split: if_splits)

lemma is_set_elems:
  assumes "bitmap_wf b" "n < width b"
  shows "is_set b n \<longleftrightarrow> n \<in> elems b"
  using bitmap_wf_less [OF assms] assms(2)
  by (simp add: elems_def is_set_def bit_index_eq bit_mask_eq and_single_neq_0)

lemma elems_binary:
  assumes "bitmap_wf b" "bitmap_wf c" "width b = width c"
  shows "elems (intersect b c) = elems b \<inter> elems c"
    and "elems (subtract b c) = elems b - elems c"
    and "elems (merge b c) = elems b \<union> elems c"
  using assms
  by (auto simp: elems_def intersect_def subtract_def merge_def bitmap_wf_def nth_combine
      bit_and_iff bit_or_iff bit_not_iff)

lemma any_pair_bits:
  assumes "bitmap_wf b"
  shows "any_pair f 0 (ARRAY_ELEMENTS (width b)) (buffer b) (buffer c) \<longleftrightarrow>
    (\<exists>n. n div 64 < length (buffer b) \<and>
       bit (f (buffer b ! (n div 64)) (buffer c ! (n div 64))) (n mod 64))"
    (is "?L \<longleftrightarrow> ?R")
proof
  assume ?L
  then obtain i where i: "i < ARRAY_ELEMENTS (width b)" "f (buffer b ! i) (buffer c ! i) \<noteq> 0"
    by (auto simp: any_pair_iff)
  then obtain m where "m < 64" "bit (f (buffer b ! i) (buffer c ! i)) m"
    by (auto simp: word_neq_0_iff_bit)
  then show ?R
    using i(1) assms by (intro exI [of _ "i * 64 + m"]) (simp add: bitmap_wf_def)
next
  assume ?R
  then obtain n where "n div 64 < length (buffer b)"
    and n: "bit (f (buffer b ! (n div 64)) (buffer c ! (n div 64))) (n mod 64)" by blast
  moreover have "f (buffer b ! (n div 64)) (buffer c ! (n div 64)) \<noteq> 0" using n by auto
  ultimately show ?L using assms by (auto simp: any_pair_iff bitmap_wf_def)
qed

lemma bitmap_wf_same_length:
  "bitmap_wf b \<Longrightarrow> bitmap_wf c \<Longrightarrow> width b = width c \<Longrightarrow> length (buffer b) = length (buffer c)"
  by (simp add: bitmap_wf_def)

lemma is_subset_elems:
  assumes "bitmap_wf b" "bitmap_wf c" "width b = width c"
  shows "is_subset b c \<longleftrightarrow> elems b \<subseteq> elems c"
  unfolding is_subset_def any_pair_bits [OF assms(1)]
  using bitmap_wf_same_length [OF assms] by (auto simp: elems_def bit_and_iff bit_not_iff)

lemma is_overlapping_elems:
  assumes "bitmap_wf b" "bitmap_wf c" "width b = width c"
  shows "is_overlapping b c \<longleftrightarrow> elems b \<inter> elems c \<noteq> {}"
  unfolding is_overlapping_def any_pair_bits [OF assms(1)]
  using bitmap_wf_same_length [OF assms] by (auto simp: elems_def bit_and_iff)

lemma bitmap_eq_elems:
  assumes "bitmap_wf b" "bitmap_wf c" "width b = width c"
  shows "bitmap_eq b c \<longleftrightarrow> elems b = elems c"
proof -
  have len: "length (buffer b) = length (buffer c)" using assms by (simp add: bitmap_wf_def)
  have "bitmap_eq b c \<longleftrightarrow> buffer b = buffer c"
  proof (cases "1 < ARRAY_ELEMENTS (width b)")
    case False
    then have "length (buffer b) = 1" by (rule one_word [OF assms(1)])
    then show ?thesis using False len by (auto simp: bitmap_eq_def length_Suc_conv)
  qed (simp add: bitmap_eq_def)
  also have "\<dots> \<longleftrightarrow> elems b = elems c" using elems_inject [OF len] elems_cong [of b c] by auto
  finally show ?thesis .
qed

interpretation bm: bit_set bitmap_wf width elems set_bit_n clear_bit is_set
  intersect subtract merge is_subset is_overlapping bitmap_eq
proof
  fix b c n
  assume b: "bitmap_wf b"
  show "elems b \<subseteq> {..<width b}" using b by (simp add: bitmap_wf_def)
  then have "bitmap_wf (set_bit_n b n)" and "bitmap_wf (clear_bit b n)" if "n < width b"
    using b that
    by (auto intro!: bitmap_wf_by_elems [OF b] simp: elems_set_bit elems_clear_bit)
  then show
    "n < width b \<Longrightarrow> bitmap_wf (set_bit_n b n) \<and> width (set_bit_n b n) = width b \<and>
       elems (set_bit_n b n) = insert n (elems b)"
    "n < width b \<Longrightarrow> bitmap_wf (clear_bit b n) \<and> width (clear_bit b n) = width b \<and>
       elems (clear_bit b n) = elems b - {n}"
    "n < width b \<Longrightarrow> is_set b n = (n \<in> elems b)"
    using b by (auto simp: elems_set_bit elems_clear_bit is_set_elems)
  assume c: "bitmap_wf c" "width b = width c"
  note bin = elems_binary [OF b c]
  have sub: "elems b \<subseteq> {..<width b}" "elems c \<subseteq> {..<width b}" using b c by (auto simp: bitmap_wf_def)
  have "bitmap_wf (intersect b c)" "bitmap_wf (subtract b c)" "bitmap_wf (merge b c)"
    by (rule bitmap_wf_by_elems [OF b]; use sub in \<open>auto simp: bin\<close>)+
  with bin show
    "bitmap_wf (intersect b c) \<and> width (intersect b c) = width b \<and> elems (intersect b c) = elems b \<inter> elems c"
    "bitmap_wf (subtract b c) \<and> width (subtract b c) = width b \<and> elems (subtract b c) = elems b - elems c"
    "bitmap_wf (merge b c) \<and> width (merge b c) = width b \<and> elems (merge b c) = elems b \<union> elems c"
    by simp_all
qed (simp_all add: is_subset_elems is_overlapping_elems bitmap_eq_elems)

section \<open>Prefixes\<close>

lemma bit_set_prefix_word:
  assumes "length (buffer b) = ARRAY_ELEMENTS (width b)" "i < length (buffer b)" "m < 64"
  shows "bit (buffer (set_prefix b p) ! i) m \<longleftrightarrow> i * 64 + m < min p (width b)"
proof -
  let ?p = "min p (width b)" and ?buf = "fill 0 (min p (width b) div 64) ALL_BITS_SET (buffer b)"
  have p: "(if width b < p then width b else p) = ?p" by simp
  have q: "?p = ?p div 64 * 64 + ?p mod 64" by simp
  show ?thesis
  proof (cases "?p mod 64 = 0")
    case True
    then have "buffer (set_prefix b p) = fill (?p div 64) (ARRAY_ELEMENTS (width b)) 0 ?buf"
      by (simp add: set_prefix_def Let_def p BITS_PER_ELEMENT_def)
    moreover have "i < ?p div 64 \<longleftrightarrow> i * 64 + m < ?p"
      using True assms(3) q by linarith
    ultimately show ?thesis using assms by (auto simp: nth_fill bit_ALL_BITS_SET)
  next
    case False
    let ?idx = "?p div 64"
    have "buffer (set_prefix b p) = fill (Suc ?idx) (ARRAY_ELEMENTS (width b)) 0
        (?buf[?idx := last_element_mask (width b) ?p])"
      using False by (simp add: set_prefix_def Let_def p BITS_PER_ELEMENT_def)
    moreover have "i * 64 + m < ?p \<longleftrightarrow> i < ?idx \<or> i = ?idx \<and> m < ?p mod 64"
      using assms(3) q by linarith
    moreover have "bit (last_element_mask (width b) ?p) m \<longleftrightarrow> m < ?p mod 64"
      by (rule bit_last_element_mask [OF _ False]) simp
    ultimately show ?thesis
      using assms by (auto simp: nth_fill nth_list_update bit_ALL_BITS_SET)
  qed
qed

lemma elems_set_prefix:
  assumes "length (buffer b) = ARRAY_ELEMENTS (width b)"
  shows "elems (set_prefix b p) = {..<min p (width b)}"
  using div_less_ARRAY_ELEMENTS [of _ "width b"] assms
  by (auto simp: elems_def bit_set_prefix_word)

lemma elems_replicate_zero: "elems (b\<lparr>buffer := replicate k 0\<rparr>) = {}"
  by (auto simp: elems_def)

lemma single_word:
  assumes "bitmap_wf b" "\<not> 1 < ARRAY_ELEMENTS (width b)"
  shows "(buffer b)[0 := x] = replicate (length (buffer b)) x"
  using one_word [OF assms] by (auto simp: length_Suc_conv)

lemma elems_clear_all: "bitmap_wf b \<Longrightarrow> elems (clear_all b) = {}"
  using single_word [of b 0] by (simp add: clear_all_def elems_replicate_zero)

lemma elems_set_all:
  assumes "bitmap_wf b"
  shows "elems (set_all b) = {..<width b}"
proof (cases "width b mod 64 = 0")
  case True
  then have "64 * ARRAY_ELEMENTS (width b) = width b" by (auto simp: bitmap_consts)
  then have "n div 64 < ARRAY_ELEMENTS (width b) \<longleftrightarrow> n < width b" for n by linarith
  moreover have "buffer (set_all b) = replicate (length (buffer b)) ALL_BITS_SET"
    using True single_word [OF assms, of ALL_BITS_SET] by (simp add: set_all_def BITS_PER_ELEMENT_def)
  ultimately show ?thesis using assms by (auto simp: elems_def bitmap_wf_def bit_ALL_BITS_SET)
next
  case False
  then show ?thesis
    using assms by (simp add: set_all_def BITS_PER_ELEMENT_def elems_set_prefix bitmap_wf_def)
qed

lemma bitmap_wf_init:
  assumes "0 < width b" "length (buffer b) = ARRAY_ELEMENTS (width b)"
  shows "bitmap_wf (set_prefix b p)"
  using assms elems_set_prefix [OF assms(2), of p] by (auto simp: bitmap_wf_def)

lemma prefix_shape:
  fixes k n :: nat
  assumes "k < n"
  shows "(\<forall>i<n. f i = (if i < k then A else if i = k then L else z)) \<longleftrightarrow>
    (\<forall>i. 0 \<le> i \<and> i < k \<longrightarrow> f i = A) \<and> f k = L \<and> (\<forall>i. Suc k \<le> i \<and> i < n \<longrightarrow> f i = z)"
    (is "?L \<longleftrightarrow> ?R")
proof
  assume ?R
  show ?L
  proof (intro allI impI)
    fix i
    assume "i < n"
    consider "i < k" | "i = k" | "k < i" by linarith
    then show "f i = (if i < k then A else if i = k then L else z)"
      using \<open>?R\<close> \<open>i < n\<close> by cases auto
  qed
qed (use assms in auto)

lemma is_prefix_buffer:
  assumes "bitmap_wf b" "p \<le> width b"
  shows "is_prefix b p \<longleftrightarrow> buffer b = buffer (set_prefix b p)"
proof -
  have len: "length (buffer b) = ARRAY_ELEMENTS (width b)" using assms by (simp add: bitmap_wf_def)
  have p: "(if width b < p then width b else p) = p" using assms(2) by simp
  have idx: "p div 64 < length (buffer b)" if "p mod 64 \<noteq> 0"
    using assms(2) that div_less_ARRAY_ELEMENTS [of p "width b"] len
    by (cases "p = width b") (auto simp: ARRAY_ELEMENTS_eq)
  have le: "p div 64 \<le> length (buffer b)"
    using div_le_mono [OF assms(2), of 64] len by (simp add: ARRAY_ELEMENTS_eq)
  show ?thesis
  proof (cases "p mod 64 = 0")
    case True
    then have "buffer (set_prefix b p) =
        fill (p div 64) (ARRAY_ELEMENTS (width b)) 0 (fill 0 (p div 64) ALL_BITS_SET (buffer b))"
      by (simp add: set_prefix_def Let_def p BITS_PER_ELEMENT_def)
    then have "buffer b = buffer (set_prefix b p) \<longleftrightarrow>
        (\<forall>i < ARRAY_ELEMENTS (width b). buffer b ! i = (if i < p div 64 then ALL_BITS_SET else 0))"
      using len by (auto simp: list_eq_iff_nth_eq nth_fill)
    with True le len show ?thesis
      by (simp add: is_prefix_def BITS_PER_ELEMENT_def Let_def all_equal_iff all_less_split)
  next
    case False
    let ?L = "last_element_mask (width b) p"
    have "buffer (set_prefix b p) = fill (Suc (p div 64)) (ARRAY_ELEMENTS (width b)) 0
        ((fill 0 (p div 64) ALL_BITS_SET (buffer b))[p div 64 := ?L])"
      using False by (simp add: set_prefix_def Let_def p BITS_PER_ELEMENT_def)
    then have "buffer (set_prefix b p) ! i =
        (if i < p div 64 then ALL_BITS_SET else if i = p div 64 then ?L else 0)"
      if "i < ARRAY_ELEMENTS (width b)" for i
      using len that by (auto simp: nth_fill nth_list_update)
    then have "buffer b = buffer (set_prefix b p) \<longleftrightarrow> (\<forall>i < ARRAY_ELEMENTS (width b).
        buffer b ! i = (if i < p div 64 then ALL_BITS_SET else if i = p div 64 then ?L else 0))"
      using len by (simp add: list_eq_iff_nth_eq)
    also have "\<dots> \<longleftrightarrow> is_prefix b p"
      using False idx [OF False] len
      by (subst prefix_shape) (auto simp: is_prefix_def BITS_PER_ELEMENT_def Let_def all_equal_iff)
    finally show ?thesis by simp
  qed
qed

lemma is_prefix_elems:
  assumes "bitmap_wf b" "p \<le> width b"
  shows "is_prefix b p \<longleftrightarrow> elems b = {..<p}"
proof -
  have len: "length (buffer b) = ARRAY_ELEMENTS (width b)" using assms by (simp add: bitmap_wf_def)
  have e: "elems (set_prefix b p) = {..<p}" using elems_set_prefix [OF len, of p] assms(2) by simp
  have "buffer b = buffer (set_prefix b p) \<longleftrightarrow> elems b = elems (set_prefix b p)"
    using elems_inject [of b "set_prefix b p"] elems_cong [of b "set_prefix b p"] by auto
  then show ?thesis using e is_prefix_buffer [OF assms] by simp
qed

lemma is_clear_all_elems:
  assumes "bitmap_wf b"
  shows "is_clear_all b \<longleftrightarrow> elems b = {}"
proof -
  have "is_clear_all b \<longleftrightarrow> \<not> any_pair (\<lambda>x y. x) 0 (ARRAY_ELEMENTS (width b)) (buffer b) []"
    by (auto simp: is_clear_all_def all_equal_iff any_pair_iff)
  also have "\<dots> \<longleftrightarrow> elems b = {}"
    using any_pair_bits [OF assms, of "\<lambda>x y. x" "b\<lparr>buffer := []\<rparr>"] by (auto simp: elems_def)
  finally show ?thesis .
qed

text \<open>
  Intersection with one word: the bits of the first word are masked; the rest of the bitmap is
  cleared, or filled when the padding is one.
\<close>

lemma elems_intersect_and_pad:
  assumes "bitmap_wf b"
  shows "elems (intersect_and_pad b x pad) =
    {n \<in> elems b. n < 64 \<and> bit x n} \<union> {n. 64 \<le> n \<and> n < width b \<and> pad}"
proof -
  let ?w = "width b" and ?A = "ARRAY_ELEMENTS (width b)"
  have len: "length (buffer b) = ?A" and pos: "0 < ?A" using assms by (auto simp: bitmap_wf_def)
  have word: "bit (buffer (intersect_and_pad b x pad) ! i) m \<longleftrightarrow>
      (if i = 0 then bit (buffer b ! 0) m \<and> bit x m else pad \<and> i * 64 + m < ?w)"
    if "i < ?A" "m < 64" for i m
  proof (cases "i = 0")
    case True
    then show ?thesis
      using pos len by (auto simp: intersect_and_pad_def Let_def nth_fill nth_list_update bit_and_iff)
  next
    case False
    have last: "bit (last_element_mask ?w ?w) m \<longleftrightarrow> m < ?w mod 64" if "?w mod 64 \<noteq> 0"
      by (rule bit_last_element_mask [OF order_refl that])
    have "i * 64 + m < ?w \<longleftrightarrow> (?w mod 64 = 0 \<or> i < ?A - 1 \<or> m < ?w mod 64)"
    proof -
      obtain q r where w: "?w = q * 64 + r" "r < 64" "q = ?w div 64" "r = ?w mod 64" by simp
      have A: "?A = q + (if r = 0 then 0 else 1)" by (simp add: ARRAY_ELEMENTS_eq w(3,4))
      show ?thesis
        unfolding w(4) [symmetric] using that w(1,2) unfolding A by (cases "r = 0") auto
    qed
    then show ?thesis
      using False that len last
      by (auto simp: intersect_and_pad_def Let_def nth_fill nth_list_update bit_ALL_BITS_SET
          BITS_PER_ELEMENT_def)
  qed
  have "n \<in> elems (intersect_and_pad b x pad) \<longleftrightarrow>
      n \<in> elems b \<and> n < 64 \<and> bit x n \<or> 64 \<le> n \<and> n < width b \<and> pad" for n
  proof (cases "n < 64")
    case True
    then show ?thesis using word [of 0 n] pos len by (auto simp: elems_def)
  next
    case False
    then have "n div 64 \<noteq> 0" by auto
    then show ?thesis
      using False word [of "n div 64" "n mod 64"] div_less_ARRAY_ELEMENTS [of n ?w] len
      by (auto simp: elems_def)
  qed
  then show ?thesis by blast
qed

section \<open>Counting\<close>

lemma count_from_sum:
  assumes "unat res + (\<Sum>j = i..<n. ones (unat (buf ! j))) < 2 ^ 32"
  shows "unat (count_from i n res buf) = unat res + (\<Sum>j = i..<n. ones (unat (buf ! j)))"
  using assms
proof (induction i n res buf rule: count_from.induct)
  case (1 i n res buf)
  show ?case
  proof (cases "i < n")
    case True
    then have sum: "(\<Sum>j = i..<n. ones (unat (buf ! j))) =
        ones (unat (buf ! i)) + (\<Sum>j = Suc i..<n. ones (unat (buf ! j)))"
      by (simp add: sum.atLeast_Suc_lessThan)
    have "unat (res + my_count_bits (buf ! i)) = unat res + ones (unat (buf ! i))"
      using "1.prems" sum by (subst unat_add_no_overflow) (simp_all add: count_bits_64)
    then show ?thesis
      using "1.IH" [OF True] "1.prems" True sum by (subst count_from.simps) (simp add: add.assoc)
  next
    case False
    then show ?thesis by (subst count_from.simps) simp
  qed
qed

text \<open>The set of positions is the disjoint union of the bits of the words.\<close>

lemma card_elems: "finite (elems b) \<and> card (elems b) = (\<Sum>i < length (buffer b). ones (unat (buffer b ! i)))"
proof -
  let ?W = "\<lambda>i. (\<lambda>m. i * 64 + m) ` {m. bit (buffer b ! i) m}"
  have fin: "finite {m. bit (w :: ulonglong) m}" for w
    by (rule finite_subset [of _ "{..<64}"]) (use bit_word_lt [of w] in auto)
  have eq: "elems b = (\<Union>i < length (buffer b). ?W i)"
  proof (rule set_eqI)
    fix n
    have mem: "n \<in> ?W i \<longleftrightarrow> n div 64 = i \<and> bit (buffer b ! i) (n mod 64)" for i
      using bit_word_lt [of "buffer b ! i"] by (force simp: image_iff)
    have "n \<in> (\<Union>i < length (buffer b). ?W i) \<longleftrightarrow> (\<exists>i < length (buffer b). n \<in> ?W i)" by auto
    also have "\<dots> \<longleftrightarrow> n \<in> elems b" by (simp only: mem) (auto simp: elems_def)
    finally show "n \<in> elems b \<longleftrightarrow> n \<in> (\<Union>i < length (buffer b). ?W i)" by (rule sym)
  qed
  have "card (elems b) = (\<Sum>i < length (buffer b). card (?W i))"
    unfolding eq
  proof (rule card_UN_disjoint)
    show "\<forall>i\<in>{..<length (buffer b)}. \<forall>j\<in>{..<length (buffer b)}. i \<noteq> j \<longrightarrow> ?W i \<inter> ?W j = {}"
    proof (intro ballI impI)
      fix i j :: nat
      assume ij: "i \<noteq> j"
      have wd: "x div 64 = k" if "x \<in> ?W k" for x k
      proof -
        from that obtain m where m: "x = k * 64 + m" "bit (buffer b ! k) m" by auto
        then show ?thesis using bit_word_lt [OF m(2)] by simp
      qed
      show "?W i \<inter> ?W j = {}"
      proof (rule equals0I)
        fix x
        assume "x \<in> ?W i \<inter> ?W j"
        then have "x div 64 = i" and "x div 64 = j"
          using wd [of x i] wd [of x j] by (simp_all only: Int_iff)
        with ij show False by simp
      qed
    qed
  qed (use fin in auto)
  also have "\<dots> = (\<Sum>i < length (buffer b). ones (unat (buffer b ! i)))"
    by (intro sum.cong refl) (simp add: card_image inj_on_def ones_unat)
  finally show ?thesis using fin by (simp add: eq)
qed

section \<open>Iteration\<close>

lemma next_bit_zero: "bmp it = 0 \<Longrightarrow> next_bit it = Some (64, it)"
  by (simp add: next_bit_def TMI_BITMAP_END_def)

lemma next_bit_nonzero:
  assumes "bmp it \<noteq> 0"
  shows "\<exists>k it'. next_bit it = Some (k, it') \<and> k < 64 \<and> bit (bmp it) k \<and> (\<forall>j < k. \<not> bit (bmp it) j) \<and>
    (\<forall>j. bit (bmp it') j \<longleftrightarrow> bit (bmp it) j \<and> j \<noteq> k)"
proof -
  obtain k where k: "my_find_first_bit (bmp it) = Some k" "bit (bmp it) k" "\<forall>j < k. \<not> bit (bmp it) j"
    using find_first_loop_ok [of 0 "bmp it" 16] assms by (auto simp: my_find_first_bit_def)
  moreover have "k < 64" using bit_word_lt [OF k(2)] by simp
  moreover have "bit (bmp it AND NOT (2 ^ k)) j \<longleftrightarrow> bit (bmp it) j \<and> j \<noteq> k" for j
    using bit_word_lt [of "bmp it" j] \<open>k < 64\<close> by (auto simp: bit_and_iff bit_not_iff bit_single)
  ultimately show ?thesis using assms by (simp add: next_bit_def)
qed

text \<open>The positions an iterator has still to return.\<close>

definition pending :: "bitmap_iterator \<Rightarrow> nat set" where
  "pending it = {offset it + m |m. bit (bmp (tmi it)) m} \<union> {n \<in> elems (imap it). offset it + 64 \<le> n}"

definition iterator_wf :: "bitmap_iterator \<Rightarrow> bool" where
  "iterator_wf it \<longleftrightarrow> bitmap_wf (imap it) \<and> 64 dvd offset it \<and> offset it < width (imap it) \<and>
     pending it \<subseteq> elems (imap it)"

text \<open>Moving on to the next word, when the current one is exhausted, keeps what is pending.\<close>

lemma pending_next_word:
  assumes wf: "iterator_wf it" and zero: "bmp (tmi it) = 0"
    and more: "offset it + 64 < width (imap it)"
  defines "it' \<equiv> it\<lparr>offset := offset it + 64,
     tmi := Table_map_iterator (buffer (imap it) ! ((offset it + 64) div 64))\<rparr>"
  shows "pending it' = pending it" and "iterator_wf it'"
proof -
  let ?o = "offset it + 64"
  obtain q where q: "?o = q * 64" using wf by (auto simp: iterator_wf_def dvd_def mult.commute)
      (metis add.commute mult.commute mult_Suc_right)
  have "?o div 64 < length (buffer (imap it))"
    using wf more bitmap_wf_less [of "imap it" ?o] by (simp add: iterator_wf_def)
  then have word: "n \<in> elems (imap it) \<longleftrightarrow> bit (buffer (imap it) ! q) (n - ?o)" if "?o \<le> n" "n < ?o + 64" for n
  proof -
    have "n div 64 = q" "n mod 64 = n - ?o" using that q by (auto simp: div_nat_eqI mod_nat_eqI)
    then show ?thesis using \<open>?o div 64 < length _\<close> q by (simp add: elems_def)
  qed
  have bits: "bit (buffer (imap it) ! q) m \<Longrightarrow> m < 64" for m
    using bit_word_lt [of "buffer (imap it) ! q" m] by simp
  show eq: "pending it' = pending it"
  proof (rule set_eqI)
    fix n
    have "n \<in> pending it' \<longleftrightarrow>
        (?o \<le> n \<and> n < ?o + 64 \<and> bit (buffer (imap it) ! q) (n - ?o)) \<or> (n \<in> elems (imap it) \<and> ?o + 64 \<le> n)"
      using bits q by (force simp: pending_def it'_def Table_map_iterator_def)
    also have "\<dots> \<longleftrightarrow> n \<in> elems (imap it) \<and> ?o \<le> n" using word [of n] by auto
    also have "\<dots> \<longleftrightarrow> n \<in> pending it" using zero by (auto simp: pending_def)
    finally show "n \<in> pending it' \<longleftrightarrow> n \<in> pending it" .
  qed
  show "iterator_wf it'" using wf more eq by (simp add: iterator_wf_def it'_def)
qed

text \<open>
  One step of the iterator: it returns, with the least pending position if there is one and the
  end marker otherwise, and what it returned is no longer pending.
\<close>

definition step_result :: "bitmap_iterator \<Rightarrow> nat \<Rightarrow> bitmap_iterator \<Rightarrow> bool" where
  "step_result it r it' \<longleftrightarrow> iterator_wf it' \<and> imap it' = imap it \<and>
     (if pending it = {} then r = width (imap it) \<and> pending it' = {}
      else r \<in> pending it \<and> (\<forall>n \<in> pending it. r \<le> n) \<and> pending it' = pending it - {r})"

lemma iterator_step_in_word:
  assumes wf: "iterator_wf it" and nz: "bmp (tmi it) \<noteq> 0"
  shows "\<exists>r it'. iterator_next it = Some (r, it') \<and> step_result it r it'"
proof -
  obtain k t where t: "next_bit (tmi it) = Some (k, t)" "k < 64" "bit (bmp (tmi it)) k"
    "\<forall>j < k. \<not> bit (bmp (tmi it)) j" "\<forall>j. bit (bmp t) j \<longleftrightarrow> bit (bmp (tmi it)) j \<and> j \<noteq> k"
    using next_bit_nonzero [OF nz] by blast
  let ?r = "offset it + k" and ?it = "it\<lparr>tmi := t\<rparr>"
  have "iterator_next it = Some (?r, ?it)"
    using t(1,2) by (subst iterator_next.simps) (simp add: tmi_postincrement_def TMI_BITMAP_END_def)
  moreover have "?r \<in> pending it" using t(3) by (auto simp: pending_def)
  moreover have "\<forall>n \<in> pending it. ?r \<le> n"
    using t(2,4) by (auto simp: pending_def) (meson not_le_imp_less)
  moreover have "pending ?it = pending it - {?r}"
  proof -
    have "{offset it + m |m. bit (bmp t) m} = {offset it + m |m. bit (bmp (tmi it)) m} - {?r}"
      unfolding t(5) [rule_format] by auto
    moreover have "?r \<notin> {n \<in> elems (imap it). offset it + 64 \<le> n}" using t(2) by simp
    ultimately show ?thesis by (simp add: pending_def Un_Diff)
  qed
  moreover from this have "iterator_wf ?it" using wf by (auto simp: iterator_wf_def)
  ultimately show ?thesis
    unfolding step_result_def by (intro exI [of _ ?r] exI [of _ ?it]) auto
qed

lemma iterator_next_step:
  "iterator_wf it \<Longrightarrow> \<exists>r it'. iterator_next it = Some (r, it') \<and> step_result it r it'"
proof (induction "width (imap it) - offset it" arbitrary: it rule: less_induct)
  case less
  show ?case
  proof (cases "bmp (tmi it) = 0")
    case False
    with less.prems show ?thesis by (rule iterator_step_in_word)
  next
    case zero: True
    define it2 where "it2 = it\<lparr>offset := offset it + 64,
      tmi := Table_map_iterator (buffer (imap it) ! ((offset it + 64) div 64))\<rparr>"
    show ?thesis
    proof (cases "width (imap it) \<le> offset it + 64")
      case True
      then have "iterator_next it = Some (width (imap it), it)"
        using zero by (subst iterator_next.simps)
          (simp add: tmi_postincrement_def next_bit_zero TMI_BITMAP_END_def BITMAP_END_def
            bitmap_length_def BITS_PER_ELEMENT_def)
      moreover have "pending it = {}"
        using less.prems zero True by (auto simp: pending_def iterator_wf_def bitmap_wf_def)
      ultimately show ?thesis using less.prems by (simp add: step_result_def)
    next
      case False
      then have more: "offset it + 64 < width (imap it)" by simp
      have nw: "pending it2 = pending it" "iterator_wf it2" "imap it2 = imap it"
        using pending_next_word [OF less.prems zero more] by (simp_all only: it2_def) simp
      have "iterator_next it = iterator_next it2"
        using zero False by (subst iterator_next.simps)
          (simp add: tmi_postincrement_def next_bit_zero TMI_BITMAP_END_def bitmap_length_def
            BITS_PER_ELEMENT_def Let_def it2_def)
      moreover have "step_result it2 = step_result it"
        by (simp only: fun_eq_iff step_result_def nw(1,3)) simp
      moreover have "\<exists>r it'. iterator_next it2 = Some (r, it') \<and> step_result it2 r it'"
        using more nw(2) by (intro less.hyps) (auto simp: it2_def)
      ultimately show ?thesis by simp
    qed
  qed
qed

lemma Iterator_wf:
  assumes "bitmap_wf b"
  shows "iterator_wf (Iterator b)" and "pending (Iterator b) = elems b" and "imap (Iterator b) = b"
proof -
  have pos: "0 < length (buffer b)" using assms by (simp add: bitmap_wf_def)
  have "n \<in> pending (Iterator b) \<longleftrightarrow> n \<in> elems b" for n
  proof (cases "n < 64")
    case True
    then show ?thesis using pos
      by (auto simp: pending_def Iterator_def Table_map_iterator_def elems_def)
  next
    case False
    then show ?thesis using bit_word_lt [of "buffer b ! 0" n]
      by (auto simp: pending_def Iterator_def Table_map_iterator_def)
  qed
  then show p: "pending (Iterator b) = elems b" by blast
  show "imap (Iterator b) = b" by (simp add: Iterator_def)
  then show "iterator_wf (Iterator b)"
    using assms p by (simp add: iterator_wf_def) (simp add: Iterator_def bitmap_wf_def)
qed

text \<open>The results of the first \<open>k\<close> calls of the iterator.\<close>

fun iterate :: "nat \<Rightarrow> bitmap_iterator \<Rightarrow> nat list option" where
  "iterate 0 it = Some []"
| "iterate (Suc k) it =
     (case iterator_next it of None \<Rightarrow> None | Some (r, it') \<Rightarrow> map_option ((#) r) (iterate k it'))"

lemma iterate_pending:
  "iterator_wf it \<Longrightarrow> card (pending it) = k \<Longrightarrow>
   iterate (Suc k) it = Some (sorted_list_of_set (pending it) @ [width (imap it)])"
proof (induction k arbitrary: it)
  have fin: "iterator_wf it \<Longrightarrow> finite (pending it)" for it
    using card_elems [of "imap it"] by (auto simp: iterator_wf_def intro: finite_subset)
  {
    case 0
    then have "pending it = {}" using fin by simp
    then show ?case using iterator_next_step [OF 0(1)] by (auto simp: step_result_def)
  next
    case (Suc k)
    then have ne: "pending it \<noteq> {}" by auto
    obtain r it' where it': "iterator_next it = Some (r, it')" "iterator_wf it'" "imap it' = imap it"
      "r \<in> pending it" "\<forall>n \<in> pending it. r \<le> n" "pending it' = pending it - {r}"
      using iterator_next_step [OF Suc.prems(1)] ne by (auto simp: step_result_def)
    have f: "finite (pending it)" using fin Suc.prems(1) by simp
    have "sorted_list_of_set (pending it) = r # sorted_list_of_set (pending it')"
      using it'(4,5) f by (simp add: it'(6) sorted_list_of_set_nonempty Min_eqI ne)
        (metis Min_eqI)
    moreover have "card (pending it') = k" using Suc.prems(2) it'(4) f by (simp add: it'(6))
    ultimately show ?case using Suc.IH [OF it'(2)] it'(1,3) by simp
  }
qed

section \<open>Printing\<close>

lemma print_digits_fails: "print_digits dig num pos 16 0 60 buf = None"
  by (simp add: eval_nat_numeral)

lemma last_nonzero_pos: "last_nonzero k buf > 0 \<longleftrightarrow> (\<exists>j. 0 < j \<and> j \<le> k \<and> buf ! j \<noteq> 0)"
  by (induction k) (auto simp: le_Suc_eq)

lemma print_fails_iff:
  "print dig l2s b buf = None \<longleftrightarrow> (\<exists>j. 0 < j \<and> j \<le> ARRAY_ELEMENTS (width b) - 1 \<and> buffer b ! j \<noteq> 0)"
proof -
  let ?l = "last_nonzero (ARRAY_ELEMENTS (width b) - 1) (buffer b)"
  have "print_elements dig (buffer b) 0 ?l buf = None \<longleftrightarrow> 0 < ?l"
    by (subst print_elements.simps) (simp add: BITS_PER_ELEMENT_def print_digits_fails)
  then show ?thesis
    unfolding last_nonzero_pos [symmetric] by (auto simp: print_def Let_def split: option.splits)
qed

section \<open>Properties of the header\<close>

text \<open>A concrete bitmap of 70 bits in two words, for the witnesses.\<close>

definition example_map :: "nat \<Rightarrow> bitmap" where
  "example_map p = set_prefix \<lparr>width = 70, buffer = [0, 0]\<rparr> p"

lemma example_map [simp]: "bitmap_wf (example_map p)" "width (example_map p) = 70"
  using bitmap_wf_init [of "\<lparr>width = 70, buffer = [0, 0]\<rparr>" p]
  by (simp_all add: example_map_def bitmap_consts)

text \<open>
  The operations on two bitmaps of one width are the set operations on their bits, the
  comparisons are the set comparisons, and every result is a well-formed bitmap.
\<close>

theorem bitmap_set_operations:
  assumes "bitmap_wf b" and "bitmap_wf c" and "width b = width c"
  shows "bitmap_wf (intersect b c) \<and> elems (intersect b c) = elems b \<inter> elems c \<and>
    bitmap_wf (subtract b c) \<and> elems (subtract b c) = elems b - elems c \<and>
    bitmap_wf (merge b c) \<and> elems (merge b c) = elems b \<union> elems c \<and>
    (is_subset b c \<longleftrightarrow> elems b \<subseteq> elems c) \<and>
    (is_overlapping b c \<longleftrightarrow> elems b \<inter> elems c \<noteq> {}) \<and>
    (bitmap_eq b c \<longleftrightarrow> elems b = elems c) \<and> (bitmap_neq b c \<longleftrightarrow> elems b \<noteq> elems c) \<and>
    (is_clear_all b \<longleftrightarrow> elems b = {})"
  using bm.inter [OF assms] bm.diff [OF assms] bm.union [OF assms] bm.sub [OF assms]
    bm.overlap [OF assms] bm.eq [OF assms] is_clear_all_elems [OF assms(1)]
  by (simp add: bitmap_neq_def)

theorem bitmap_set_operations_witness:
  "elems (merge (example_map 3) (example_map 66)) = elems (example_map 3) \<union> elems (example_map 66)"
  using bitmap_set_operations [of "example_map 3" "example_map 66"] by simp

text \<open>
  Setting and clearing a bit change that bit and no other, and keep the bitmap well formed.
\<close>

theorem bitmap_single_bit:
  assumes "bitmap_wf b" and "n < width b" and "j < width b"
  shows "(is_set (set_bit_n b n) j \<longleftrightarrow> j = n \<or> is_set b j) \<and>
    (is_set (clear_bit b n) j \<longleftrightarrow> j \<noteq> n \<and> is_set b j) \<and>
    bitmap_wf (set_bit_n b n) \<and> bitmap_wf (clear_bit b n)"
  using bm.test_add [OF assms] bm.test_del [OF assms] bm.add [OF assms(1,2)] bm.del [OF assms(1,2)]
  by simp

theorem bitmap_single_bit_witness:
  "is_set (set_bit_n (example_map 3) 66) 66"
  using bitmap_single_bit [of "example_map 3" 66 66] by simp

text \<open>
  \<open>set_prefix\<close> makes any buffer of the right size the well-formed bitmap of the positions
  below the given size, cut at the width; \<open>is_prefix\<close> recognises exactly these bitmaps.
\<close>

theorem bitmap_prefix:
  assumes "0 < width b" and "length (buffer b) = ARRAY_ELEMENTS (width b)" and "q \<le> width b"
  shows "bitmap_wf (set_prefix b p) \<and> elems (set_prefix b p) = {..<min p (width b)} \<and>
    (bitmap_wf b \<longrightarrow> is_prefix b q = (elems b = {..<q})) \<and> is_prefix (set_prefix b q) q"
  using bitmap_wf_init [OF assms(1,2)] elems_set_prefix [OF assms(2)] is_prefix_elems assms(3)
  by simp

theorem bitmap_prefix_witness:
  "is_prefix (set_prefix \<lparr>width = 70, buffer = [0, 0]\<rparr> 65) 65"
  using bitmap_prefix [of "\<lparr>width = 70, buffer = [0, 0]\<rparr>" 65] by (simp add: bitmap_consts)

text \<open>
  \<open>set_all\<close> and \<open>clear_all\<close> give the full and the empty bitmap; intersecting with one
  64-bit word keeps the low positions the word allows and, in the extended form, sets every
  position above the word exactly when the word's highest bit is set. All keep the invariant.
\<close>

theorem bitmap_whole:
  assumes "bitmap_wf b"
  shows "bitmap_wf (set_all b) \<and> elems (set_all b) = {..<width b} \<and>
    bitmap_wf (clear_all b) \<and> elems (clear_all b) = {} \<and>
    bitmap_wf (intersect_word b x) \<and> elems (intersect_word b x) = {n \<in> elems b. n < 64 \<and> bit x n} \<and>
    bitmap_wf (intersect_extended b x) \<and> elems (intersect_extended b x) =
      {n \<in> elems b. n < 64 \<and> bit x n} \<union> {n. 64 \<le> n \<and> n < width b \<and> bit x 63}"
proof -
  have ext: "intersect_extended b x = intersect_and_pad b x (bit x 63)"
    using and_single_neq_0 [of 63 x] by (simp add: intersect_extended_def)
  have pad: "bitmap_wf (intersect_and_pad b x p)" for p
    using assms by (auto intro!: bitmap_wf_by_elems [OF assms] simp: elems_intersect_and_pad bitmap_wf_def)
  show ?thesis
    using elems_set_all [OF assms] bitmap_wf_by_elems [OF assms, of "set_all b"]
      elems_clear_all [OF assms] bitmap_wf_by_elems [OF assms, of "clear_all b"]
      pad elems_intersect_and_pad [OF assms]
    by (simp add: ext intersect_word_def)
qed

theorem bitmap_whole_witness: "elems (set_all (example_map 3)) = {..<70}"
  using bitmap_whole [of "example_map 3"] by simp

text \<open>\<open>bits_set\<close> counts the set bits; the 32-bit sum does not wrap.\<close>

theorem bits_set_card:
  assumes "bitmap_wf b" and "width b < 2 ^ 32"
  shows "unat (bits_set b) = card (elems b)"
proof -
  have "card (elems b) \<le> width b"
    using assms(1) card_mono [of "{..<width b}" "elems b"] by (simp add: bitmap_wf_def)
  moreover have "card (elems b) = (\<Sum>i = 0..<ARRAY_ELEMENTS (width b). ones (unat (buffer b ! i)))"
    using card_elems [of b] assms(1) by (simp add: bitmap_wf_def atLeast0LessThan)
  ultimately show ?thesis
    using assms(2) count_from_sum [where i = 0 and res = 0]
    by (simp add: bits_set_def)
qed

theorem bits_set_card_witness: "unat (bits_set (example_map 65)) = card (elems (example_map 65))"
  using bits_set_card [of "example_map 65"] by simp

text \<open>
  C40. Iterating over a bitmap always returns: the calls of \<open>operator++\<close> give the set positions in
  increasing order, each once, and then \<open>BITMAP_END\<close>.
\<close>

theorem bitmap_iterator_enumerates:
  assumes "bitmap_wf b"
  shows "iterate (Suc (card (elems b))) (Iterator b) =
    Some (sorted_list_of_set (elems b) @ [BITMAP_END b])"
  using iterate_pending [OF Iterator_wf(1) [OF assms], of "card (elems b)"]
    Iterator_wf(2,3) [OF assms] by (simp add: BITMAP_END_def)

theorem bitmap_iterator_enumerates_witness:
  "iterate (Suc (card (elems (example_map 65)))) (Iterator (example_map 65)) =
    Some (sorted_list_of_set (elems (example_map 65)) @ [BITMAP_END (example_map 65)])"
  using bitmap_iterator_enumerates [of "example_map 65"] by simp

text \<open>
  \<open>print\<close> shifts a word by 64 bits, which is undefined, exactly when a word after the first
  is not zero: the digit loop adds 4 to the shift where it has to subtract it.
\<close>

theorem bitmap_print_undefined:
  "print dig longlong2str b buf = None \<longleftrightarrow>
    (\<exists>j. 0 < j \<and> j \<le> ARRAY_ELEMENTS (width b) - 1 \<and> buffer b ! j \<noteq> 0)"
  by (rule print_fails_iff)

end
