(* ===== verification/Sql_Type_Int.thy ===== *)
theory Sql_Type_Int
  imports My_Bit
begin

text \<open>
  The integer classes of \<^verbatim>\<open>sql_type_int.h\<close>: 64-bit values with a NULL flag
  (\<^verbatim>\<open>Longlong_null\<close>, \<^verbatim>\<open>ULonglong_null\<close>), values that are signed or unsigned at run time
  (\<^verbatim>\<open>Longlong_hybrid\<close>) and absolute values with a sign (\<^verbatim>\<open>ULonglong_hybrid\<close>). Both
  \<^verbatim>\<open>longlong\<close> and \<^verbatim>\<open>ulonglong\<close> are 64-bit words; signed comparisons go through \<^const>\<open>sint\<close>.
  Each class gets a denotation as a mathematical integer, and the operations are proved
  exact on it, with NULL exactly where the result does not fit.
\<close>

section \<open>Definitions\<close>

subsection \<open>NULL flag and signed values\<close>

record Null_flag =
  m_is_null :: bool

record Longlong =
  m_value :: longlong

definition Longlong_abs :: "Longlong \<Rightarrow> ulonglong" where
  "Longlong_abs a =
     (if m_value a = LONGLONG_MIN then LONGLONG_MAX + 1
      else if sint (m_value a) < 0 then - m_value a else m_value a)"

text \<open>\<open>Longlong_null\<close> inherits from both classes: its record holds the two parts.\<close>

record Longlong_null =
  ll_part :: Longlong
  null_part :: Null_flag

definition Longlong_null_make :: "longlong \<Rightarrow> bool \<Rightarrow> Longlong_null" where
  "Longlong_null_make nr is_null =
     \<lparr>ll_part = \<lparr>m_value = nr\<rparr>, null_part = \<lparr>m_is_null = is_null\<rparr>\<rparr>"

definition Longlong_null_none :: Longlong_null where
  "Longlong_null_none = Longlong_null_make 0 True"

definition Longlong_null_of :: "longlong \<Rightarrow> Longlong_null" where
  "Longlong_null_of nr = Longlong_null_make nr False"

abbreviation ll_value :: "Longlong_null \<Rightarrow> longlong" where
  "ll_value a \<equiv> m_value (ll_part a)"

abbreviation ll_is_null :: "Longlong_null \<Rightarrow> bool" where
  "ll_is_null a \<equiv> m_is_null (null_part a)"

definition ll_or :: "Longlong_null \<Rightarrow> Longlong_null \<Rightarrow> Longlong_null" where
  "ll_or a other =
     (if ll_is_null a \<or> ll_is_null other then Longlong_null_none
      else Longlong_null_of (ll_value a OR ll_value other))"

definition ll_and :: "Longlong_null \<Rightarrow> Longlong_null \<Rightarrow> Longlong_null" where
  "ll_and a other =
     (if ll_is_null a \<or> ll_is_null other then Longlong_null_none
      else Longlong_null_of (ll_value a AND ll_value other))"

definition ll_xor :: "Longlong_null \<Rightarrow> Longlong_null \<Rightarrow> Longlong_null" where
  "ll_xor a other =
     (if ll_is_null a \<or> ll_is_null other then Longlong_null_none
      else Longlong_null_of (ll_value a XOR ll_value other))"

definition ll_not :: "Longlong_null \<Rightarrow> Longlong_null" where
  "ll_not a = (if ll_is_null a then a else Longlong_null_of (NOT (ll_value a)))"

definition ll_shl :: "Longlong_null \<Rightarrow> Longlong_null \<Rightarrow> Longlong_null" where
  "ll_shl a llshift =
     (if ll_is_null a \<or> ll_is_null llshift then Longlong_null_none
      else let shift = (ucast (ll_value llshift) :: uint);
               res = (if unat shift < 8 * 8 then push_bit (unat shift) (ll_value a) else 0)
           in Longlong_null_of res)"

definition ll_shr :: "Longlong_null \<Rightarrow> Longlong_null \<Rightarrow> Longlong_null" where
  "ll_shr a llshift =
     (if ll_is_null a \<or> ll_is_null llshift then Longlong_null_none
      else let shift = (ucast (ll_value llshift) :: uint);
               res = (if unat shift < 8 * 8 then drop_bit (unat shift) (ll_value a) else 0)
           in Longlong_null_of res)"

definition ll_bit_count :: "Longlong_null \<Rightarrow> Longlong_null" where
  "ll_bit_count a =
     (if ll_is_null a then a else Longlong_null_of (ucast (my_count_bits (ll_value a))))"

subsection \<open>Unsigned values\<close>

record ULonglong =
  u_value :: ulonglong

definition test_if_sum_overflows_ull :: "ulonglong \<Rightarrow> ulonglong \<Rightarrow> bool" where
  "test_if_sum_overflows_ull arg1 arg2 \<longleftrightarrow> ULONGLONG_MAX - arg1 < arg2"

definition ULonglong_neg :: "ULonglong \<Rightarrow> Longlong_null" where
  "ULonglong_neg a =
     (if u_value a > LONGLONG_MAX
      then (if u_value a = LONGLONG_MAX + 1 then Longlong_null_make LONGLONG_MIN False
            else Longlong_null_make 0 True)
      else Longlong_null_make (- u_value a) False)"

definition to_longlong_null :: "ULonglong \<Rightarrow> Longlong_null" where
  "to_longlong_null a =
     (if u_value a > LONGLONG_MAX then Longlong_null_make 0 True
      else Longlong_null_make (u_value a) False)"

record ULonglong_null =
  ull_part :: ULonglong
  unull_part :: Null_flag

definition ULonglong_null_make :: "ulonglong \<Rightarrow> bool \<Rightarrow> ULonglong_null" where
  "ULonglong_null_make nr is_null =
     \<lparr>ull_part = \<lparr>u_value = nr\<rparr>, unull_part = \<lparr>m_is_null = is_null\<rparr>\<rparr>"

abbreviation ull_value :: "ULonglong_null \<Rightarrow> ulonglong" where
  "ull_value a \<equiv> u_value (ull_part a)"

abbreviation ull_is_null :: "ULonglong_null \<Rightarrow> bool" where
  "ull_is_null a \<equiv> m_is_null (unull_part a)"

text \<open>\<^verbatim>\<open>ulong\<close> has 32 bits in the shipped (Windows) build.\<close>

definition ullmul :: "ulonglong \<Rightarrow> ulonglong \<Rightarrow> ULonglong_null" where
  "ullmul a b =
     (let a1 = (ucast (drop_bit 32 a) :: uint32);
          b1 = (ucast (drop_bit 32 b) :: uint32) in
      if a1 \<noteq> 0 \<and> b1 \<noteq> 0 then ULonglong_null_make 0 True
      else
        let a0 = (ucast (0xFFFFFFFF AND a) :: uint32);
            b0 = (ucast (0xFFFFFFFF AND b) :: uint32);
            res1 = (ucast a1 :: ulonglong) * ucast b0 + (ucast a0 :: ulonglong) * ucast b1 in
        if res1 > 0xFFFFFFFF then ULonglong_null_make 0 True
        else
          let res1 = push_bit 32 res1;
              res0 = (ucast a0 :: ulonglong) * ucast b0 in
          if test_if_sum_overflows_ull res1 res0 then ULonglong_null_make 0 True
          else ULonglong_null_make (res1 + res0) False)"

subsection \<open>Values that are signed or unsigned at run time\<close>

record Longlong_hybrid =
  lh_part :: Longlong
  m_unsigned :: bool

abbreviation lh_value :: "Longlong_hybrid \<Rightarrow> longlong" where
  "lh_value a \<equiv> m_value (lh_part a)"

definition Longlong_hybrid_make :: "longlong \<Rightarrow> bool \<Rightarrow> Longlong_hybrid" where
  "Longlong_hybrid_make nr unsigned_flag = \<lparr>lh_part = \<lparr>m_value = nr\<rparr>, m_unsigned = unsigned_flag\<rparr>"

definition cmp_signed :: "Longlong_hybrid \<Rightarrow> Longlong_hybrid \<Rightarrow> int" where
  "cmp_signed a other =
     (if sint (lh_value a) < sint (lh_value other) then -1
      else if lh_value a = lh_value other then 0 else 1)"

definition cmp_unsigned :: "Longlong_hybrid \<Rightarrow> Longlong_hybrid \<Rightarrow> int" where
  "cmp_unsigned a other =
     (if lh_value a < lh_value other then -1
      else if lh_value a = lh_value other then 0 else 1)"

definition is_unsigned_outside_of_signed_range :: "Longlong_hybrid \<Rightarrow> bool" where
  "is_unsigned_outside_of_signed_range a \<longleftrightarrow> m_unsigned a \<and> lh_value a > LONGLONG_MAX"

definition lh_neg :: "Longlong_hybrid \<Rightarrow> bool" where
  "lh_neg a \<longleftrightarrow> sint (lh_value a) < 0 \<and> \<not> m_unsigned a"

definition lh_abs :: "Longlong_hybrid \<Rightarrow> ulonglong" where
  "lh_abs a = (if m_unsigned a then lh_value a else Longlong_abs \<lparr>m_value = lh_value a\<rparr>)"

definition lh_to_ulonglong :: "Longlong_hybrid \<Rightarrow> ulonglong \<Rightarrow> ulonglong" where
  "lh_to_ulonglong a upper_bound =
     (if lh_neg a then 0 else if lh_value a > upper_bound then upper_bound else lh_value a)"

definition lh_to_uint :: "Longlong_hybrid \<Rightarrow> uint \<Rightarrow> uint" where
  "lh_to_uint a upper_bound = ucast (lh_to_ulonglong a (ucast upper_bound))"

definition lh_val_int_signed :: "Longlong_hybrid \<Rightarrow> Longlong_null" where
  "lh_val_int_signed a =
     (if m_unsigned a then to_longlong_null \<lparr>u_value = lh_value a\<rparr>
      else Longlong_null_make (lh_value a) False)"

definition lh_val_int_unsigned :: "Longlong_hybrid \<Rightarrow> Longlong_null" where
  "lh_val_int_unsigned a =
     (if \<not> m_unsigned a \<and> sint (lh_value a) < 0 then Longlong_null_make 0 True
      else Longlong_null_make (lh_value a) False)"

definition lh_val_int :: "Longlong_hybrid \<Rightarrow> bool \<Rightarrow> Longlong_null" where
  "lh_val_int a want_unsigned_value =
     (if want_unsigned_value then lh_val_int_unsigned a else lh_val_int_signed a)"

definition lh_cmp :: "Longlong_hybrid \<Rightarrow> Longlong_hybrid \<Rightarrow> int" where
  "lh_cmp a other =
     (if m_unsigned a = m_unsigned other
      then (if m_unsigned a then cmp_unsigned a other else cmp_signed a other)
      else if is_unsigned_outside_of_signed_range a then 1
      else if is_unsigned_outside_of_signed_range other then -1
      else cmp_signed a other)"

definition lh_eq :: "Longlong_hybrid \<Rightarrow> Longlong_hybrid \<Rightarrow> bool" where
  "lh_eq a nr \<longleftrightarrow> lh_cmp a nr = 0"

definition lh_eq_ulonglong :: "Longlong_hybrid \<Rightarrow> ulonglong \<Rightarrow> bool" where
  "lh_eq_ulonglong a nr \<longleftrightarrow> lh_cmp a (Longlong_hybrid_make nr True) = 0"

definition lh_eq_uint :: "Longlong_hybrid \<Rightarrow> uint \<Rightarrow> bool" where
  "lh_eq_uint a nr \<longleftrightarrow> lh_cmp a (Longlong_hybrid_make (ucast nr) True) = 0"

definition lh_eq_longlong :: "Longlong_hybrid \<Rightarrow> longlong \<Rightarrow> bool" where
  "lh_eq_longlong a nr \<longleftrightarrow> lh_cmp a (Longlong_hybrid_make nr False) = 0"

definition lh_eq_int :: "Longlong_hybrid \<Rightarrow> 32 word \<Rightarrow> bool" where
  "lh_eq_int a nr \<longleftrightarrow> lh_cmp a (Longlong_hybrid_make (scast nr) False) = 0"

record Longlong_hybrid_null =
  lhn_part :: Longlong_hybrid
  lhn_null :: Null_flag

definition Longlong_hybrid_null_make :: "Longlong_null \<Rightarrow> bool \<Rightarrow> Longlong_hybrid_null" where
  "Longlong_hybrid_null_make nr unsigned_flag =
     \<lparr>lhn_part = Longlong_hybrid_make (ll_value nr) unsigned_flag,
      lhn_null = \<lparr>m_is_null = ll_is_null nr\<rparr>\<rparr>"

subsection \<open>Absolute values with a sign\<close>

record ULonglong_hybrid =
  uh_part :: ULonglong
  m_neg :: bool

abbreviation uh_value :: "ULonglong_hybrid \<Rightarrow> ulonglong" where
  "uh_value a \<equiv> u_value (uh_part a)"

definition ULonglong_hybrid_make :: "ulonglong \<Rightarrow> bool \<Rightarrow> ULonglong_hybrid" where
  "ULonglong_hybrid_make nr neg =
     \<lparr>uh_part = \<lparr>u_value = nr\<rparr>, m_neg = (if neg \<and> nr = 0 then False else neg)\<rparr>"

definition uh_val_int_unsigned :: "ULonglong_hybrid \<Rightarrow> Longlong_null" where
  "uh_val_int_unsigned a =
     (if m_neg a then Longlong_null_make 0 True else Longlong_null_make (uh_value a) False)"

definition uh_val_int_signed :: "ULonglong_hybrid \<Rightarrow> Longlong_null" where
  "uh_val_int_signed a =
     (if m_neg a then ULonglong_neg \<lparr>u_value = uh_value a\<rparr> else to_longlong_null (uh_part a))"

definition uh_val_int :: "ULonglong_hybrid \<Rightarrow> bool \<Rightarrow> Longlong_null" where
  "uh_val_int a want_unsigned_value =
     (if want_unsigned_value then uh_val_int_unsigned a else uh_val_int_signed a)"

section \<open>Signed and unsigned readings of a 64-bit word\<close>

lemma sint_64: "sint (w :: 64 word) = (if uint w < 2 ^ 63 then uint w else uint w - 2 ^ 64)"
proof -
  have "sint w = (uint w + 2 ^ 63) mod 2 ^ 64 - 2 ^ 63"
    by (simp add: sint_uint signed_take_bit_eq_take_bit_shift take_bit_eq_mod)
  moreover have "(uint w + 2 ^ 63) mod 2 ^ 64 = (if uint w < 2 ^ 63 then uint w + 2 ^ 63 else uint w - 2 ^ 63)"
  proof (cases "uint w < 2 ^ 63")
    case True
    then show ?thesis by simp
  next
    case False
    have "uint w < 2 ^ 64" using uint_lt2p [of w] by simp
    moreover have "(uint w + 2 ^ 63) mod 2 ^ 64 = (uint w - 2 ^ 63) mod 2 ^ 64"
      using mod_add_self2 [of "uint w - 2 ^ 63" "2 ^ 64"] by (simp add: add.commute)
    ultimately show ?thesis using False by simp
  qed
  ultimately show ?thesis by simp
qed

lemma uint_64_range: "0 \<le> uint (w :: 64 word)" "uint (w :: 64 word) < 2 ^ 64"
  using uint_lt2p [of w] by simp_all

lemma uint_64_above [simp]:
  "- 9223372036854775808 \<le> uint (w :: 64 word)" "- uint (w :: 64 word) < 9223372036854775808"
  "\<not> uint (w :: 64 word) < - 9223372036854775808"
  using uint_ge_0 [of w] by linarith+

lemma word64_eq_uint: "a = b \<longleftrightarrow> uint a = uint b" for a b :: "64 word"
  by (rule word_uint_eq_iff)

lemmas word64_int = sint_64 word64_eq_uint word_less_def word_le_def

lemma uint_minus_64: "uint (- w :: 64 word) = (if uint w = 0 then 0 else 2 ^ 64 - uint w)"
  using uint_64_range [of w] by (simp add: uint_word_ariths zmod_zminus1_eq_if)

section \<open>Denotations\<close>

definition lh_int :: "Longlong_hybrid \<Rightarrow> int" where
  "lh_int a = (if m_unsigned a then uint (lh_value a) else sint (lh_value a))"

definition uh_int :: "ULonglong_hybrid \<Rightarrow> int" where
  "uh_int a = (if m_neg a then - uint (uh_value a) else uint (uh_value a))"

text \<open>
  A result is exact for the integer \<open>i\<close> in a range when it is NULL outside the range and
  otherwise carries \<open>i\<close> modulo \<open>2^64\<close>.
\<close>

definition exact_in :: "int set \<Rightarrow> int \<Rightarrow> Longlong_null \<Rightarrow> bool" where
  "exact_in R i r \<longleftrightarrow> (ll_is_null r \<longleftrightarrow> i \<notin> R) \<and> (i \<in> R \<longrightarrow> ll_value r = word_of_int i)"

abbreviation signed_range :: "int set" where
  "signed_range \<equiv> {- (2 ^ 63) ..< 2 ^ 63}"

abbreviation unsigned_range :: "int set" where
  "unsigned_range \<equiv> {0 ..< 2 ^ 64}"

lemmas ll_make_simps [simp] = Longlong_null_make_def Longlong_null_of_def Longlong_null_none_def
  Longlong_hybrid_make_def ULonglong_null_make_def

lemma word_of_int_uint [simp]: "word_of_int (uint w) = w" by simp

lemma word_of_int_sint [simp]: "word_of_int (sint w) = w" by simp

lemma exact_neg: "exact_in signed_range (- uint (u_value a)) (ULonglong_neg a)"
  using uint_64_range [of "u_value a"]
  by (auto simp: exact_in_def ULonglong_neg_def word64_int uint_minus_64)

lemma exact_to_longlong: "exact_in signed_range (uint (u_value a)) (to_longlong_null a)"
  using uint_64_range [of "u_value a"]
  by (auto simp: exact_in_def to_longlong_null_def word64_int)

lemma exact_lh_signed: "exact_in signed_range (lh_int a) (lh_val_int_signed a)"
  using exact_to_longlong [of "\<lparr>u_value = lh_value a\<rparr>"] uint_64_range [of "lh_value a"]
  by (auto simp: lh_int_def lh_val_int_signed_def exact_in_def sint_64)

lemma exact_lh_unsigned: "exact_in unsigned_range (lh_int a) (lh_val_int_unsigned a)"
  using uint_64_range [of "lh_value a"]
  by (auto simp: exact_in_def lh_int_def lh_val_int_unsigned_def sint_64)

lemma exact_uh_signed: "exact_in signed_range (uh_int a) (uh_val_int_signed a)"
  using exact_neg [of "\<lparr>u_value = uh_value a\<rparr>"] exact_to_longlong [of "uh_part a"]
  by (auto simp: uh_int_def uh_val_int_signed_def)

lemma exact_uh_unsigned:
  "m_neg a \<longrightarrow> uh_value a \<noteq> 0 \<Longrightarrow> exact_in unsigned_range (uh_int a) (uh_val_int_unsigned a)"
  using uint_64_range [of "uh_value a"]
  by (auto simp: exact_in_def uh_int_def uh_val_int_unsigned_def word64_eq_uint)

section \<open>Comparison\<close>

lemma lh_cmp_sgn: "lh_cmp a b = sgn (lh_int a - lh_int b)"
proof -
  have s: "cmp_signed x y = sgn (sint (lh_value x) - sint (lh_value y))" for x y
    using signed_word_eqI [of "lh_value x" "lh_value y"]
    by (auto simp: cmp_signed_def sgn_if signed_word_eqI)
  have u: "cmp_unsigned x y = sgn (uint (lh_value x) - uint (lh_value y))" for x y
    by (auto simp: cmp_unsigned_def sgn_if word_less_def word64_eq_uint)
  have out: "is_unsigned_outside_of_signed_range x \<longleftrightarrow> m_unsigned x \<and> 2 ^ 63 \<le> uint (lh_value x)" for x
    by (auto simp: is_unsigned_outside_of_signed_range_def word_less_def)
  have r: "- (2 ^ 63) \<le> sint (lh_value x)" "sint (lh_value x) < 2 ^ 63" for x
    using sint_ge [of "lh_value x"] sint_lt [of "lh_value x"] by simp_all
  have low: "uint (lh_value x) < 2 ^ 63 \<Longrightarrow> sint (lh_value x) = uint (lh_value x)" for x
    by (simp add: sint_64)
  show ?thesis
    unfolding lh_cmp_def lh_int_def s u out
    using r [of a] r [of b] low [of a] low [of b] by (auto simp: sgn_if)
qed

interpretation lh: three_way lh_cmp lh_int
  by unfold_locales (auto simp: lh_cmp_sgn sgn_if)

section \<open>Multiplication with overflow check\<close>

lemma sum_overflows: "test_if_sum_overflows_ull x y \<longleftrightarrow> 2 ^ 64 \<le> unat x + unat y"
proof -
  have "x \<le> ULONGLONG_MAX" by (simp add: word_le_nat_alt) (use unat_lt_pow [of 64 x] in simp)
  then have "unat (ULONGLONG_MAX - x) = 2 ^ 64 - 1 - unat x" by (subst unat_sub) simp_all
  then show ?thesis
    using unat_lt_pow [of 64 x] by (auto simp: test_if_sum_overflows_ull_def word_less_nat_alt)
qed

text \<open>The halves of a 64-bit value, and the product from the halves.\<close>

lemma unat_halves:
  fixes a :: ulonglong
  shows "unat (ucast (drop_bit 32 a) :: uint32) = unat a div 2 ^ 32"
    and "unat (ucast (0xFFFFFFFF AND a) :: uint32) = unat a mod 2 ^ 32"
proof -
  show "unat (ucast (drop_bit 32 a) :: uint32) = unat a div 2 ^ 32"
    using unat_lt_pow [of 64 a] by (subst unat_ucast_less) (simp_all add: div_less_iff_less_mult)
  have "0xFFFFFFFF AND a = take_bit 32 a"
    by (simp add: take_bit_eq_mask mask_eq_exp_minus_1 and.commute)
  then show "unat (ucast (0xFFFFFFFF AND a) :: uint32) = unat a mod 2 ^ 32"
    by (simp only: unsigned_ucast_eq unsigned_take_bit_eq take_bit_take_bit)
      (simp add: take_bit_eq_mod)
qed

lemma unat_ucast_32_64 [simp]: "unat (ucast (x :: uint32) :: ulonglong) = unat x"
  using unat_lt_pow [of 32 x] by (subst unat_ucast_less) simp_all

lemma unat_mult_32:
  fixes x y :: uint32
  shows "unat ((ucast x :: ulonglong) * ucast y) = unat x * unat y"
proof (subst unat_mult_no_overflow)
  have "unat x * unat y < 2 ^ 32 * 2 ^ 32"
    using unat_lt_pow [of 32 x] unat_lt_pow [of 32 y] by (intro mult_strict_mono) simp_all
  then show "unat (ucast x :: ulonglong) * unat (ucast y :: ulonglong) < 2 ^ LENGTH(64)" by simp
qed simp

lemma product_by_halves:
  fixes A :: nat
  assumes "a = a1 * A + a0" "b = b1 * A + b0" "a1 = 0 \<or> b1 = 0"
  shows "a * b = (a1 * b0 + a0 * b1) * A + a0 * b0"
  using assms by (auto simp: algebra_simps)

lemma ullmul_exact:
  "ull_is_null (ullmul a b) = (2 ^ 64 \<le> unat a * unat b) \<and>
   (unat a * unat b < 2 ^ 64 \<longrightarrow> unat (ull_value (ullmul a b)) = unat a * unat b)"
proof -
  define a1 b1 a0 b0 :: uint32
    where "a1 = ucast (drop_bit 32 a)" and "b1 = ucast (drop_bit 32 b)"
      and "a0 = ucast (0xFFFFFFFF AND a)" and "b0 = ucast (0xFFFFFFFF AND b)"
  note defs = a1_def b1_def a0_def b0_def
  have a: "unat a = unat a1 * 2 ^ 32 + unat a0" and b: "unat b = unat b1 * 2 ^ 32 + unat b0"
    by (simp_all only: defs unat_halves div_mult_mod_eq)
  show ?thesis
  proof (cases "a1 \<noteq> 0 \<and> b1 \<noteq> 0")
    case True
    then have "1 \<le> unat a1" "1 \<le> unat b1" by (simp_all add: Suc_le_eq unat_gt_0)
    then have "2 ^ 32 \<le> unat a" "2 ^ 32 \<le> unat b"
      using mult_le_mono1 [of 1 "unat a1" "2 ^ 32"] mult_le_mono1 [of 1 "unat b1" "2 ^ 32"]
      unfolding a b by (simp_all only: mult_1 trans_le_add1)
    then have "(2::nat) ^ 32 * 2 ^ 32 \<le> unat a * unat b" by (rule mult_le_mono)
    moreover have "ull_is_null (ullmul a b)" using True by (simp add: ullmul_def Let_def defs)
    ultimately show ?thesis by simp
  next
    case False
    then have z: "unat a1 = 0 \<or> unat b1 = 0" by auto
    define r where "r = (ucast a1 :: ulonglong) * ucast b0 + (ucast a0 :: ulonglong) * ucast b1"
    have lt: "unat x * unat y < 2 ^ 64" for x y :: uint32
      using unat_mult_32 [of x y] unat_lt_pow [of 64 "(ucast x :: ulonglong) * ucast y"] by simp
    have r: "unat r = unat a1 * unat b0 + unat a0 * unat b1"
      unfolding r_def using z lt [of a1 b0] lt [of a0 b1]
      by (subst unat_add_no_overflow) (auto simp: unat_mult_32)
    have prod: "unat a * unat b = unat r * 2 ^ 32 + unat a0 * unat b0"
      unfolding r by (rule product_by_halves [OF a b z])
    show ?thesis
    proof (cases "r > 0xFFFFFFFF")
      case big: True
      then have "2 ^ 32 \<le> unat r" by (simp add: word_less_nat_alt)
      then have "2 ^ 64 \<le> unat a * unat b" unfolding prod by simp
      moreover have "ull_is_null (ullmul a b)"
        using False big by (auto simp: ullmul_def Let_def r_def defs)
      ultimately show ?thesis by simp
    next
      case small: False
      then have "unat r < 2 ^ 32" by (simp add: word_less_nat_alt)
      then have p: "unat (push_bit 32 r) = unat r * 2 ^ 32"
        by (subst unat_push_bit_no_overflow) simp_all
      let ?m = "(ucast a0 :: ulonglong) * ucast b0"
      have res: "ullmul a b = (if test_if_sum_overflows_ull (push_bit 32 r) ?m
          then ULonglong_null_make 0 True else ULonglong_null_make (push_bit 32 r + ?m) False)"
        using False small by (simp only: ullmul_def Let_def r_def defs if_False)
      show ?thesis
        unfolding prod res sum_overflows p unat_mult_32
        using unat_add_no_overflow [of "push_bit 32 r" ?m] by (simp add: p unat_mult_32 not_le)
    qed
  qed
qed

section \<open>Properties of the header\<close>

text \<open>
  Comparing two values of mixed signedness gives the sign of the difference of the integers
  they denote, so it is a total order on them; equality with a literal of any of the four
  integer types is equality of the integers.
\<close>

theorem Longlong_hybrid_cmp_exact:
  "lh_cmp a b = sgn (lh_int a - lh_int b) \<and>
   (lh_eq a b \<longleftrightarrow> lh_int a = lh_int b) \<and>
   (lh_eq_ulonglong a u \<longleftrightarrow> lh_int a = uint u) \<and> (lh_eq_longlong a l \<longleftrightarrow> lh_int a = sint l) \<and>
   (lh_eq_uint a v \<longleftrightarrow> lh_int a = uint v) \<and> (lh_eq_int a i \<longleftrightarrow> lh_int a = sint i)"
proof -
  have "uint (ucast v :: longlong) = uint v"
    using uint_lt2p [of v] by (simp add: unsigned_ucast_eq take_bit_int_eq_self)
  moreover have "sint (scast i :: longlong) = sint i"
    by (simp add: signed_scast_eq signed_take_bit_int_eq_self_iff)
      (use sint_ge [of i] sint_lt [of i] in simp)
  ultimately show ?thesis
    unfolding lh_eq_def lh_eq_ulonglong_def lh_eq_longlong_def lh_eq_uint_def lh_eq_int_def lh.cmp_eq
    by (simp add: lh_cmp_sgn) (simp add: lh_int_def)
qed

text \<open>
  Conversions to a 64-bit result are exact: NULL exactly when the integer does not fit the
  requested signedness, and otherwise its 64-bit representation; for the hybrid value, the
  negated unsigned value and the signed absolute value (whose constructor never holds \<open>-0\<close>).
\<close>

theorem val_int_exact:
  "exact_in (if u then unsigned_range else signed_range) (lh_int h) (lh_val_int h u) \<and>
   exact_in signed_range (- uint v) (ULonglong_neg \<lparr>u_value = v\<rparr>) \<and>
   exact_in signed_range (uint v) (to_longlong_null \<lparr>u_value = v\<rparr>) \<and>
   exact_in (if u then unsigned_range else signed_range)
     (if n then - uint v else uint v) (uh_val_int (ULonglong_hybrid_make v n) u)"
proof -
  let ?a = "ULonglong_hybrid_make v n"
  have val: "uh_int ?a = (if n then - uint v else uint v)"
    by (auto simp: uh_int_def ULonglong_hybrid_make_def)
  have nz: "m_neg ?a \<longrightarrow> uh_value ?a \<noteq> 0" by (simp add: ULonglong_hybrid_make_def)
  show ?thesis
    unfolding val [symmetric]
    using exact_lh_signed [of h] exact_lh_unsigned [of h] exact_uh_unsigned [OF nz]
      exact_uh_signed [of ?a] exact_neg [of "\<lparr>u_value = v\<rparr>"] exact_to_longlong [of "\<lparr>u_value = v\<rparr>"]
    by (simp add: lh_val_int_def uh_val_int_def)
qed

text \<open>
  \<open>ullmul\<close> multiplies exactly: NULL exactly when the product needs more than 64 bits.
\<close>

theorem ullmul_overflow:
  "ull_is_null (ullmul a b) = (2 ^ 64 \<le> unat a * unat b) \<and>
   (unat a * unat b < 2 ^ 64 \<longrightarrow> unat (ull_value (ullmul a b)) = unat a * unat b)"
  by (rule ullmul_exact)

theorem ullmul_overflow_witness:
  "unat (3 :: ulonglong) * unat (5 :: ulonglong) < 2 ^ 64 \<and> unat (ull_value (ullmul 3 5)) = 15"
  using ullmul_overflow [of 3 5] by simp

text \<open>
  \<open>abs\<close> is the absolute value, without overflow at the least signed value, and
  \<open>to_ulonglong\<close> and \<open>to_uint\<close> clamp the denoted integer to the range from 0 to the bound.
\<close>

theorem Longlong_hybrid_abs_clamp:
  "uint (lh_abs a) = \<bar>lh_int a\<bar> \<and>
   uint (lh_to_ulonglong a ub) = max 0 (min (lh_int a) (uint ub)) \<and>
   uint (lh_to_uint a ub32) = max 0 (min (lh_int a) (uint ub32))"
proof -
  have clamp: "uint (lh_to_ulonglong a b) = max 0 (min (lh_int a) (uint b))" for b
    using uint_64_range [of "lh_value a"] uint_64_range [of b] uint_ge_0 [of "lh_value a"]
    by (auto simp: lh_to_ulonglong_def lh_neg_def lh_int_def word_less_def sint_64)
  have "uint (ucast ub32 :: ulonglong) = uint ub32"
    using uint_lt2p [of ub32] by (simp add: unsigned_ucast_eq take_bit_int_eq_self)
  then have "uint (lh_to_ulonglong a (ucast ub32)) = max 0 (min (lh_int a) (uint ub32))"
    by (simp add: clamp)
  moreover have "max 0 (min (lh_int a) (uint ub32)) < 2 ^ 32"
    using uint_lt2p [of ub32] by simp
  ultimately have "uint (lh_to_uint a ub32) = max 0 (min (lh_int a) (uint ub32))"
    by (simp add: lh_to_uint_def unsigned_ucast_eq take_bit_int_eq_self)
  moreover have "uint (lh_abs a) = \<bar>lh_int a\<bar>"
    using uint_64_range [of "lh_value a"]
    by (auto simp: lh_abs_def Longlong_abs_def lh_int_def word64_int uint_minus_64)
  ultimately show ?thesis using clamp by blast
qed

text \<open>
  The bit operators are strict in NULL. A shift uses the low 32 bits of the shift count
  only: it is zero when they are 64 or more, and shifts by that many bits otherwise.
\<close>

theorem Longlong_null_bit_operators:
  "ll_is_null (ll_or a b) = (ll_is_null a \<or> ll_is_null b) \<and>
   ll_is_null (ll_and a b) = (ll_is_null a \<or> ll_is_null b) \<and>
   ll_is_null (ll_xor a b) = (ll_is_null a \<or> ll_is_null b) \<and>
   ll_is_null (ll_shl a b) = (ll_is_null a \<or> ll_is_null b) \<and>
   ll_is_null (ll_shr a b) = (ll_is_null a \<or> ll_is_null b) \<and>
   ll_is_null (ll_not a) = ll_is_null a \<and> ll_is_null (ll_bit_count a) = ll_is_null a \<and>
   (\<not> ll_is_null a \<and> \<not> ll_is_null b \<longrightarrow>
      unat (ll_value (ll_bit_count a)) = card {i. bit (ll_value a) i} \<and>
      (let s = unat (ll_value b) mod 2 ^ 32 in
       unat (ll_value (ll_shl a b)) = (if s < 64 then unat (ll_value a) * 2 ^ s mod 2 ^ 64 else 0) \<and>
       unat (ll_value (ll_shr a b)) = (if s < 64 then unat (ll_value a) div 2 ^ s else 0)))"
proof -
  have s: "unat (ucast (ll_value b) :: uint) = unat (ll_value b) mod 2 ^ 32"
    by (simp add: unsigned_ucast_eq take_bit_eq_mod)
  have "unat (push_bit k w) = unat w * 2 ^ k mod 2 ^ 64" for k and w :: ulonglong
    using unsigned_push_bit_eq [where ?'a = nat, of k w] by (simp add: push_bit_eq_mult take_bit_eq_mod)
  then show ?thesis
    by (simp add: ll_or_def ll_and_def ll_xor_def ll_shl_def ll_shr_def ll_not_def ll_bit_count_def
        Let_def s count_bits_64 ones_unat)
qed

theorem Longlong_null_bit_operators_witness:
  "unat (ll_value (ll_shl (Longlong_null_of 5) (Longlong_null_of 4294967296))) = 5"
  using Longlong_null_bit_operators [of "Longlong_null_of 5" "Longlong_null_of 4294967296"]
  by (simp add: Let_def)

end
