(* ===== verification/Privilege.thy ===== *)
theory Privilege
  imports My_Bit
begin

text \<open>
  The privilege bits of \<^verbatim>\<open>privilege.h\<close>: the enumeration \<^verbatim>\<open>privilege_t\<close> as 64-bit words, the
  bitwise operators on it, every combination of bits the header names, and the functions
  that pack the rights of a database, table, column or routine into the contiguous bits of
  the grant tables and back. A \<^verbatim>\<open>constexpr\<close> is a definition in the collection \<open>flag_defs\<close>; the
  deleted overloads of \<^verbatim>\<open>operator==\<close> and \<^verbatim>\<open>operator!=\<close> only restrict what compiles.
\<close>

section \<open>Privilege bits\<close>

type_synonym privilege_t = ulonglong

definition NO_ACL :: privilege_t where [flag_defs]:
  "NO_ACL = 0"

definition SELECT_ACL :: privilege_t where [flag_defs]:
  "SELECT_ACL = push_bit 0 1"

definition INSERT_ACL :: privilege_t where [flag_defs]:
  "INSERT_ACL = push_bit 1 1"

definition UPDATE_ACL :: privilege_t where [flag_defs]:
  "UPDATE_ACL = push_bit 2 1"

definition DELETE_ACL :: privilege_t where [flag_defs]:
  "DELETE_ACL = push_bit 3 1"

definition CREATE_ACL :: privilege_t where [flag_defs]:
  "CREATE_ACL = push_bit 4 1"

definition DROP_ACL :: privilege_t where [flag_defs]:
  "DROP_ACL = push_bit 5 1"

definition RELOAD_ACL :: privilege_t where [flag_defs]:
  "RELOAD_ACL = push_bit 6 1"

definition SHUTDOWN_ACL :: privilege_t where [flag_defs]:
  "SHUTDOWN_ACL = push_bit 7 1"

definition PROCESS_ACL :: privilege_t where [flag_defs]:
  "PROCESS_ACL = push_bit 8 1"

definition FILE_ACL :: privilege_t where [flag_defs]:
  "FILE_ACL = push_bit 9 1"

definition GRANT_ACL :: privilege_t where [flag_defs]:
  "GRANT_ACL = push_bit 10 1"

definition REFERENCES_ACL :: privilege_t where [flag_defs]:
  "REFERENCES_ACL = push_bit 11 1"

definition INDEX_ACL :: privilege_t where [flag_defs]:
  "INDEX_ACL = push_bit 12 1"

definition ALTER_ACL :: privilege_t where [flag_defs]:
  "ALTER_ACL = push_bit 13 1"

definition SHOW_DB_ACL :: privilege_t where [flag_defs]:
  "SHOW_DB_ACL = push_bit 14 1"

definition SUPER_ACL :: privilege_t where [flag_defs]:
  "SUPER_ACL = push_bit 15 1"

definition CREATE_TMP_ACL :: privilege_t where [flag_defs]:
  "CREATE_TMP_ACL = push_bit 16 1"

definition LOCK_TABLES_ACL :: privilege_t where [flag_defs]:
  "LOCK_TABLES_ACL = push_bit 17 1"

definition EXECUTE_ACL :: privilege_t where [flag_defs]:
  "EXECUTE_ACL = push_bit 18 1"

definition REPL_SLAVE_ACL :: privilege_t where [flag_defs]:
  "REPL_SLAVE_ACL = push_bit 19 1"

definition BINLOG_MONITOR_ACL :: privilege_t where [flag_defs]:
  "BINLOG_MONITOR_ACL = push_bit 20 1"

definition CREATE_VIEW_ACL :: privilege_t where [flag_defs]:
  "CREATE_VIEW_ACL = push_bit 21 1"

definition SHOW_VIEW_ACL :: privilege_t where [flag_defs]:
  "SHOW_VIEW_ACL = push_bit 22 1"

definition CREATE_PROC_ACL :: privilege_t where [flag_defs]:
  "CREATE_PROC_ACL = push_bit 23 1"

definition ALTER_PROC_ACL :: privilege_t where [flag_defs]:
  "ALTER_PROC_ACL = push_bit 24 1"

definition CREATE_USER_ACL :: privilege_t where [flag_defs]:
  "CREATE_USER_ACL = push_bit 25 1"

definition EVENT_ACL :: privilege_t where [flag_defs]:
  "EVENT_ACL = push_bit 26 1"

definition TRIGGER_ACL :: privilege_t where [flag_defs]:
  "TRIGGER_ACL = push_bit 27 1"

definition CREATE_TABLESPACE_ACL :: privilege_t where [flag_defs]:
  "CREATE_TABLESPACE_ACL = push_bit 28 1"

definition DELETE_HISTORY_ACL :: privilege_t where [flag_defs]:
  "DELETE_HISTORY_ACL = push_bit 29 1"

definition SET_USER_ACL :: privilege_t where [flag_defs]:
  "SET_USER_ACL = push_bit 30 1"

definition FEDERATED_ADMIN_ACL :: privilege_t where [flag_defs]:
  "FEDERATED_ADMIN_ACL = push_bit 31 1"

definition CONNECTION_ADMIN_ACL :: privilege_t where [flag_defs]:
  "CONNECTION_ADMIN_ACL = push_bit 32 1"

definition READ_ONLY_ADMIN_ACL :: privilege_t where [flag_defs]:
  "READ_ONLY_ADMIN_ACL = push_bit 33 1"

definition REPL_SLAVE_ADMIN_ACL :: privilege_t where [flag_defs]:
  "REPL_SLAVE_ADMIN_ACL = push_bit 34 1"

definition REPL_MASTER_ADMIN_ACL :: privilege_t where [flag_defs]:
  "REPL_MASTER_ADMIN_ACL = push_bit 35 1"

definition BINLOG_ADMIN_ACL :: privilege_t where [flag_defs]:
  "BINLOG_ADMIN_ACL = push_bit 36 1"

definition BINLOG_REPLAY_ACL :: privilege_t where [flag_defs]:
  "BINLOG_REPLAY_ACL = push_bit 37 1"

definition SLAVE_MONITOR_ACL :: privilege_t where [flag_defs]:
  "SLAVE_MONITOR_ACL = push_bit 38 1"

definition ALL_KNOWN_BITS :: "privilege_t \<Rightarrow> privilege_t" where [flag_defs]:
  "ALL_KNOWN_BITS x = x OR (x - 1)"

section \<open>Version markers\<close>

definition LAST_100304_ACL :: privilege_t where [flag_defs]:
  "LAST_100304_ACL = DELETE_HISTORY_ACL"

definition LAST_100502_ACL :: privilege_t where [flag_defs]:
  "LAST_100502_ACL = BINLOG_REPLAY_ACL"

definition LAST_100508_ACL :: privilege_t where [flag_defs]:
  "LAST_100508_ACL = SLAVE_MONITOR_ACL"

definition LAST_CURRENT_ACL :: privilege_t where [flag_defs]:
  "LAST_CURRENT_ACL = LAST_100508_ACL"

definition PRIVILEGE_T_MAX_BIT :: uint where [flag_defs]:
  "PRIVILEGE_T_MAX_BIT = my_bit_log2_uint64 LAST_CURRENT_ACL"

definition ALL_KNOWN_ACL_100304 :: privilege_t where [flag_defs]:
  "ALL_KNOWN_ACL_100304 = ALL_KNOWN_BITS LAST_100304_ACL"

definition ALL_KNOWN_ACL_100502 :: privilege_t where [flag_defs]:
  "ALL_KNOWN_ACL_100502 = ALL_KNOWN_BITS LAST_100502_ACL"

definition ALL_KNOWN_ACL_100508 :: privilege_t where [flag_defs]:
  "ALL_KNOWN_ACL_100508 = ALL_KNOWN_BITS LAST_100508_ACL"

definition ALL_KNOWN_ACL_100509 :: privilege_t where [flag_defs]:
  "ALL_KNOWN_ACL_100509 = ALL_KNOWN_ACL_100508"

definition ALL_KNOWN_ACL :: privilege_t where [flag_defs]:
  "ALL_KNOWN_ACL = ALL_KNOWN_BITS LAST_CURRENT_ACL"

section \<open>Operators\<close>

definition privilege_not :: "privilege_t \<Rightarrow> ulonglong" where
  "privilege_not access = NOT access"

definition privilege_and :: "privilege_t \<Rightarrow> privilege_t \<Rightarrow> privilege_t" where
  "privilege_and a b = a AND b"

definition privilege_and_ulonglong_left :: "ulonglong \<Rightarrow> privilege_t \<Rightarrow> privilege_t" where
  "privilege_and_ulonglong_left a b = a AND b"

definition privilege_and_ulonglong :: "privilege_t \<Rightarrow> ulonglong \<Rightarrow> privilege_t" where
  "privilege_and_ulonglong a b = a AND b"

definition privilege_or :: "privilege_t \<Rightarrow> privilege_t \<Rightarrow> privilege_t" where
  "privilege_or a b = a OR b"

text \<open>The assignment operators store the result in their first argument and return it.\<close>

definition privilege_and_assign :: "privilege_t \<Rightarrow> privilege_t \<Rightarrow> privilege_t" where
  "privilege_and_assign a b = privilege_and a b"

definition privilege_and_assign_ulonglong :: "privilege_t \<Rightarrow> ulonglong \<Rightarrow> privilege_t" where
  "privilege_and_assign_ulonglong a b = privilege_and_ulonglong a b"

definition privilege_or_assign :: "privilege_t \<Rightarrow> privilege_t \<Rightarrow> privilege_t" where
  "privilege_or_assign a b = privilege_or a b"

section \<open>Combinations\<close>

definition GLOBAL_SUPER_ADDED_SINCE_USER_TABLE_ACLS :: privilege_t where [flag_defs]:
  "GLOBAL_SUPER_ADDED_SINCE_USER_TABLE_ACLS = SET_USER_ACL OR FEDERATED_ADMIN_ACL OR
     CONNECTION_ADMIN_ACL OR READ_ONLY_ADMIN_ACL OR REPL_SLAVE_ADMIN_ACL OR BINLOG_ADMIN_ACL OR
     BINLOG_REPLAY_ACL"

definition COL_DML_ACLS :: privilege_t where [flag_defs]:
  "COL_DML_ACLS = SELECT_ACL OR INSERT_ACL OR UPDATE_ACL OR DELETE_ACL"

definition VIEW_ACLS :: privilege_t where [flag_defs]:
  "VIEW_ACLS = CREATE_VIEW_ACL OR SHOW_VIEW_ACL"

definition STD_TABLE_DDL_ACLS :: privilege_t where [flag_defs]:
  "STD_TABLE_DDL_ACLS = CREATE_ACL OR DROP_ACL OR ALTER_ACL"

definition ALL_TABLE_DDL_ACLS :: privilege_t where [flag_defs]:
  "ALL_TABLE_DDL_ACLS = STD_TABLE_DDL_ACLS OR INDEX_ACL"

definition COL_ACLS :: privilege_t where [flag_defs]:
  "COL_ACLS = SELECT_ACL OR INSERT_ACL OR UPDATE_ACL OR REFERENCES_ACL"

definition PROC_DDL_ACLS :: privilege_t where [flag_defs]:
  "PROC_DDL_ACLS = CREATE_PROC_ACL OR ALTER_PROC_ACL"

definition SHOW_PROC_ACLS :: privilege_t where [flag_defs]:
  "SHOW_PROC_ACLS = PROC_DDL_ACLS OR EXECUTE_ACL"

definition TABLE_ACLS :: privilege_t where [flag_defs]:
  "TABLE_ACLS = COL_DML_ACLS OR ALL_TABLE_DDL_ACLS OR VIEW_ACLS OR GRANT_ACL OR
     REFERENCES_ACL OR TRIGGER_ACL OR DELETE_HISTORY_ACL"

definition DB_ACLS :: privilege_t where [flag_defs]:
  "DB_ACLS = TABLE_ACLS OR PROC_DDL_ACLS OR EXECUTE_ACL OR CREATE_TMP_ACL OR LOCK_TABLES_ACL
     OR EVENT_ACL"

definition PROC_ACLS :: privilege_t where [flag_defs]:
  "PROC_ACLS = ALTER_PROC_ACL OR EXECUTE_ACL OR GRANT_ACL"

definition GLOBAL_ACLS :: privilege_t where [flag_defs]:
  "GLOBAL_ACLS = DB_ACLS OR SHOW_DB_ACL OR CREATE_USER_ACL OR CREATE_TABLESPACE_ACL OR
     SUPER_ACL OR RELOAD_ACL OR SHUTDOWN_ACL OR PROCESS_ACL OR FILE_ACL OR REPL_SLAVE_ACL OR
     BINLOG_MONITOR_ACL OR GLOBAL_SUPER_ADDED_SINCE_USER_TABLE_ACLS OR REPL_MASTER_ADMIN_ACL OR
     SLAVE_MONITOR_ACL"

definition DEFAULT_CREATE_PROC_ACLS :: privilege_t where [flag_defs]:
  "DEFAULT_CREATE_PROC_ACLS = ALTER_PROC_ACL OR EXECUTE_ACL"

definition SHOW_CREATE_TABLE_ACLS :: privilege_t where [flag_defs]:
  "SHOW_CREATE_TABLE_ACLS = COL_DML_ACLS OR ALL_TABLE_DDL_ACLS OR TRIGGER_ACL OR
     REFERENCES_ACL OR GRANT_ACL OR VIEW_ACLS"

definition TMP_TABLE_ACLS :: privilege_t where [flag_defs]:
  "TMP_TABLE_ACLS = COL_DML_ACLS OR ALL_TABLE_DDL_ACLS OR REFERENCES_ACL"

definition PRIV_LOCK_TABLES :: privilege_t where [flag_defs]:
  "PRIV_LOCK_TABLES = SELECT_ACL OR LOCK_TABLES_ACL"

definition PRIV_DEFINER_CLAUSE :: privilege_t where [flag_defs]:
  "PRIV_DEFINER_CLAUSE = SET_USER_ACL OR SUPER_ACL"

definition PRIV_REVEAL_MISSING_DEFINER :: privilege_t where [flag_defs]:
  "PRIV_REVEAL_MISSING_DEFINER = SET_USER_ACL OR SUPER_ACL"

definition PRIV_DES_DECRYPT_ONE_ARG :: privilege_t where [flag_defs]:
  "PRIV_DES_DECRYPT_ONE_ARG = SUPER_ACL"

definition PRIV_LOG_BIN_TRUSTED_SP_CREATOR :: privilege_t where [flag_defs]:
  "PRIV_LOG_BIN_TRUSTED_SP_CREATOR = SUPER_ACL"

definition PRIV_DEBUG :: privilege_t where [flag_defs]:
  "PRIV_DEBUG = SUPER_ACL"

definition PRIV_SET_GLOBAL_SYSTEM_VARIABLE :: privilege_t where [flag_defs]:
  "PRIV_SET_GLOBAL_SYSTEM_VARIABLE = SUPER_ACL"

definition PRIV_SET_RESTRICTED_SESSION_SYSTEM_VARIABLE :: privilege_t where [flag_defs]:
  "PRIV_SET_RESTRICTED_SESSION_SYSTEM_VARIABLE = SUPER_ACL"

definition PRIV_SET_SYSTEM_VAR_BINLOG_FORMAT :: privilege_t where [flag_defs]:
  "PRIV_SET_SYSTEM_VAR_BINLOG_FORMAT = SUPER_ACL OR BINLOG_ADMIN_ACL"

definition PRIV_SET_SYSTEM_VAR_BINLOG_DIRECT_NON_TRANSACTIONAL_UPDATES :: privilege_t where [flag_defs]:
  "PRIV_SET_SYSTEM_VAR_BINLOG_DIRECT_NON_TRANSACTIONAL_UPDATES = SUPER_ACL OR
     BINLOG_ADMIN_ACL"

definition PRIV_SET_SYSTEM_VAR_BINLOG_ANNOTATE_ROW_EVENTS :: privilege_t where [flag_defs]:
  "PRIV_SET_SYSTEM_VAR_BINLOG_ANNOTATE_ROW_EVENTS = SUPER_ACL OR BINLOG_ADMIN_ACL"

definition PRIV_SET_SYSTEM_VAR_BINLOG_ROW_IMAGE :: privilege_t where [flag_defs]:
  "PRIV_SET_SYSTEM_VAR_BINLOG_ROW_IMAGE = SUPER_ACL OR BINLOG_ADMIN_ACL"

definition PRIV_SET_SYSTEM_VAR_SQL_LOG_BIN :: privilege_t where [flag_defs]:
  "PRIV_SET_SYSTEM_VAR_SQL_LOG_BIN = SUPER_ACL OR BINLOG_ADMIN_ACL"

definition PRIV_SET_SYSTEM_GLOBAL_VAR_BINLOG_CACHE_SIZE :: privilege_t where [flag_defs]:
  "PRIV_SET_SYSTEM_GLOBAL_VAR_BINLOG_CACHE_SIZE = SUPER_ACL OR BINLOG_ADMIN_ACL"

definition PRIV_SET_SYSTEM_GLOBAL_VAR_BINLOG_FILE_CACHE_SIZE :: privilege_t where [flag_defs]:
  "PRIV_SET_SYSTEM_GLOBAL_VAR_BINLOG_FILE_CACHE_SIZE = SUPER_ACL OR BINLOG_ADMIN_ACL"

definition PRIV_SET_SYSTEM_GLOBAL_VAR_BINLOG_STMT_CACHE_SIZE :: privilege_t where [flag_defs]:
  "PRIV_SET_SYSTEM_GLOBAL_VAR_BINLOG_STMT_CACHE_SIZE = SUPER_ACL OR BINLOG_ADMIN_ACL"

definition PRIV_SET_SYSTEM_GLOBAL_VAR_BINLOG_COMMIT_WAIT_COUNT :: privilege_t where [flag_defs]:
  "PRIV_SET_SYSTEM_GLOBAL_VAR_BINLOG_COMMIT_WAIT_COUNT = SUPER_ACL OR BINLOG_ADMIN_ACL"

definition PRIV_SET_SYSTEM_GLOBAL_VAR_BINLOG_COMMIT_WAIT_USEC :: privilege_t where [flag_defs]:
  "PRIV_SET_SYSTEM_GLOBAL_VAR_BINLOG_COMMIT_WAIT_USEC = SUPER_ACL OR BINLOG_ADMIN_ACL"

definition PRIV_SET_SYSTEM_GLOBAL_VAR_BINLOG_ROW_METADATA :: privilege_t where [flag_defs]:
  "PRIV_SET_SYSTEM_GLOBAL_VAR_BINLOG_ROW_METADATA = SUPER_ACL OR BINLOG_ADMIN_ACL"

definition PRIV_SET_SYSTEM_GLOBAL_VAR_EXPIRE_LOGS_DAYS :: privilege_t where [flag_defs]:
  "PRIV_SET_SYSTEM_GLOBAL_VAR_EXPIRE_LOGS_DAYS = SUPER_ACL OR BINLOG_ADMIN_ACL"

definition PRIV_SET_SYSTEM_GLOBAL_VAR_LOG_BIN_COMPRESS :: privilege_t where [flag_defs]:
  "PRIV_SET_SYSTEM_GLOBAL_VAR_LOG_BIN_COMPRESS = SUPER_ACL OR BINLOG_ADMIN_ACL"

definition PRIV_SET_SYSTEM_GLOBAL_VAR_LOG_BIN_COMPRESS_MIN_LEN :: privilege_t where [flag_defs]:
  "PRIV_SET_SYSTEM_GLOBAL_VAR_LOG_BIN_COMPRESS_MIN_LEN = SUPER_ACL OR BINLOG_ADMIN_ACL"

definition PRIV_SET_SYSTEM_GLOBAL_VAR_LOG_BIN_TRUST_FUNCTION_CREATORS :: privilege_t where [flag_defs]:
  "PRIV_SET_SYSTEM_GLOBAL_VAR_LOG_BIN_TRUST_FUNCTION_CREATORS = SUPER_ACL OR
     BINLOG_ADMIN_ACL"

definition PRIV_SET_SYSTEM_GLOBAL_VAR_MAX_BINLOG_CACHE_SIZE :: privilege_t where [flag_defs]:
  "PRIV_SET_SYSTEM_GLOBAL_VAR_MAX_BINLOG_CACHE_SIZE = SUPER_ACL OR BINLOG_ADMIN_ACL"

definition PRIV_SET_SYSTEM_GLOBAL_VAR_MAX_BINLOG_STMT_CACHE_SIZE :: privilege_t where [flag_defs]:
  "PRIV_SET_SYSTEM_GLOBAL_VAR_MAX_BINLOG_STMT_CACHE_SIZE = SUPER_ACL OR BINLOG_ADMIN_ACL"

definition PRIV_SET_SYSTEM_GLOBAL_VAR_MAX_BINLOG_SIZE :: privilege_t where [flag_defs]:
  "PRIV_SET_SYSTEM_GLOBAL_VAR_MAX_BINLOG_SIZE = SUPER_ACL OR BINLOG_ADMIN_ACL"

definition PRIV_SET_SYSTEM_GLOBAL_VAR_SYNC_BINLOG :: privilege_t where [flag_defs]:
  "PRIV_SET_SYSTEM_GLOBAL_VAR_SYNC_BINLOG = SUPER_ACL OR BINLOG_ADMIN_ACL"

definition PRIV_IGNORE_READ_ONLY :: privilege_t where [flag_defs]:
  "PRIV_IGNORE_READ_ONLY = READ_ONLY_ADMIN_ACL"

definition PRIV_SET_SYSTEM_GLOBAL_VAR_READ_ONLY :: privilege_t where [flag_defs]:
  "PRIV_SET_SYSTEM_GLOBAL_VAR_READ_ONLY = READ_ONLY_ADMIN_ACL"

definition PRIV_IGNORE_INIT_CONNECT :: privilege_t where [flag_defs]:
  "PRIV_IGNORE_INIT_CONNECT = CONNECTION_ADMIN_ACL OR SUPER_ACL"

definition PRIV_IGNORE_MAX_USER_CONNECTIONS :: privilege_t where [flag_defs]:
  "PRIV_IGNORE_MAX_USER_CONNECTIONS = CONNECTION_ADMIN_ACL OR SUPER_ACL"

definition PRIV_IGNORE_MAX_CONNECTIONS :: privilege_t where [flag_defs]:
  "PRIV_IGNORE_MAX_CONNECTIONS = CONNECTION_ADMIN_ACL OR SUPER_ACL"

definition PRIV_IGNORE_MAX_PASSWORD_ERRORS :: privilege_t where [flag_defs]:
  "PRIV_IGNORE_MAX_PASSWORD_ERRORS = CONNECTION_ADMIN_ACL OR SUPER_ACL"

definition PRIV_KILL_OTHER_USER_PROCESS :: privilege_t where [flag_defs]:
  "PRIV_KILL_OTHER_USER_PROCESS = CONNECTION_ADMIN_ACL OR SUPER_ACL"

definition PRIV_SET_SYSTEM_GLOBAL_VAR_CONNECT_TIMEOUT :: privilege_t where [flag_defs]:
  "PRIV_SET_SYSTEM_GLOBAL_VAR_CONNECT_TIMEOUT = CONNECTION_ADMIN_ACL OR SUPER_ACL"

definition PRIV_SET_SYSTEM_GLOBAL_VAR_DISCONNECT_ON_EXPIRED_PASSWORD :: privilege_t where [flag_defs]:
  "PRIV_SET_SYSTEM_GLOBAL_VAR_DISCONNECT_ON_EXPIRED_PASSWORD = CONNECTION_ADMIN_ACL OR
     SUPER_ACL"

definition PRIV_SET_SYSTEM_GLOBAL_VAR_EXTRA_MAX_CONNECTIONS :: privilege_t where [flag_defs]:
  "PRIV_SET_SYSTEM_GLOBAL_VAR_EXTRA_MAX_CONNECTIONS = CONNECTION_ADMIN_ACL OR SUPER_ACL"

definition PRIV_SET_SYSTEM_GLOBAL_VAR_INIT_CONNECT :: privilege_t where [flag_defs]:
  "PRIV_SET_SYSTEM_GLOBAL_VAR_INIT_CONNECT = CONNECTION_ADMIN_ACL OR SUPER_ACL"

definition PRIV_SET_SYSTEM_GLOBAL_VAR_MAX_CONNECTIONS :: privilege_t where [flag_defs]:
  "PRIV_SET_SYSTEM_GLOBAL_VAR_MAX_CONNECTIONS = CONNECTION_ADMIN_ACL OR SUPER_ACL"

definition PRIV_SET_SYSTEM_GLOBAL_VAR_MAX_CONNECT_ERRORS :: privilege_t where [flag_defs]:
  "PRIV_SET_SYSTEM_GLOBAL_VAR_MAX_CONNECT_ERRORS = CONNECTION_ADMIN_ACL OR SUPER_ACL"

definition PRIV_SET_SYSTEM_GLOBAL_VAR_MAX_PASSWORD_ERRORS :: privilege_t where [flag_defs]:
  "PRIV_SET_SYSTEM_GLOBAL_VAR_MAX_PASSWORD_ERRORS = CONNECTION_ADMIN_ACL OR SUPER_ACL"

definition PRIV_SET_SYSTEM_GLOBAL_VAR_PROXY_PROTOCOL_NETWORKS :: privilege_t where [flag_defs]:
  "PRIV_SET_SYSTEM_GLOBAL_VAR_PROXY_PROTOCOL_NETWORKS = CONNECTION_ADMIN_ACL OR SUPER_ACL"

definition PRIV_SET_SYSTEM_GLOBAL_VAR_SECURE_AUTH :: privilege_t where [flag_defs]:
  "PRIV_SET_SYSTEM_GLOBAL_VAR_SECURE_AUTH = CONNECTION_ADMIN_ACL OR SUPER_ACL"

definition PRIV_SET_SYSTEM_GLOBAL_VAR_SLOW_LAUNCH_TIME :: privilege_t where [flag_defs]:
  "PRIV_SET_SYSTEM_GLOBAL_VAR_SLOW_LAUNCH_TIME = CONNECTION_ADMIN_ACL OR SUPER_ACL"

definition PRIV_SET_SYSTEM_GLOBAL_VAR_THREAD_POOL :: privilege_t where [flag_defs]:
  "PRIV_SET_SYSTEM_GLOBAL_VAR_THREAD_POOL = CONNECTION_ADMIN_ACL OR SUPER_ACL"

definition PRIV_STMT_SHOW_BINLOG_STATUS :: privilege_t where [flag_defs]:
  "PRIV_STMT_SHOW_BINLOG_STATUS = BINLOG_MONITOR_ACL OR SUPER_ACL"

definition PRIV_STMT_SHOW_BINARY_LOGS :: privilege_t where [flag_defs]:
  "PRIV_STMT_SHOW_BINARY_LOGS = BINLOG_MONITOR_ACL OR SUPER_ACL"

definition PRIV_STMT_PURGE_BINLOG :: privilege_t where [flag_defs]:
  "PRIV_STMT_PURGE_BINLOG = BINLOG_ADMIN_ACL OR SUPER_ACL"

definition PRIV_STMT_SHOW_BINLOG_EVENTS :: privilege_t where [flag_defs]:
  "PRIV_STMT_SHOW_BINLOG_EVENTS = BINLOG_MONITOR_ACL"

definition PRIV_COM_REGISTER_SLAVE :: privilege_t where [flag_defs]:
  "PRIV_COM_REGISTER_SLAVE = REPL_SLAVE_ACL"

definition PRIV_COM_BINLOG_DUMP :: privilege_t where [flag_defs]:
  "PRIV_COM_BINLOG_DUMP = REPL_SLAVE_ACL"

definition PRIV_STMT_SHOW_SLAVE_HOSTS :: privilege_t where [flag_defs]:
  "PRIV_STMT_SHOW_SLAVE_HOSTS = REPL_MASTER_ADMIN_ACL"

definition PRIV_SET_SYSTEM_GLOBAL_VAR_RPL_SEMI_SYNC_MASTER_ENABLED :: privilege_t where [flag_defs]:
  "PRIV_SET_SYSTEM_GLOBAL_VAR_RPL_SEMI_SYNC_MASTER_ENABLED = REPL_MASTER_ADMIN_ACL OR
     SUPER_ACL"

definition PRIV_SET_SYSTEM_GLOBAL_VAR_RPL_SEMI_SYNC_MASTER_TIMEOUT :: privilege_t where [flag_defs]:
  "PRIV_SET_SYSTEM_GLOBAL_VAR_RPL_SEMI_SYNC_MASTER_TIMEOUT = REPL_MASTER_ADMIN_ACL OR
     SUPER_ACL"

definition PRIV_SET_SYSTEM_GLOBAL_VAR_RPL_SEMI_SYNC_MASTER_WAIT_NO_SLAVE :: privilege_t where [flag_defs]:
  "PRIV_SET_SYSTEM_GLOBAL_VAR_RPL_SEMI_SYNC_MASTER_WAIT_NO_SLAVE = REPL_MASTER_ADMIN_ACL OR
     SUPER_ACL"

definition PRIV_SET_SYSTEM_GLOBAL_VAR_RPL_SEMI_SYNC_MASTER_TRACE_LEVEL :: privilege_t where [flag_defs]:
  "PRIV_SET_SYSTEM_GLOBAL_VAR_RPL_SEMI_SYNC_MASTER_TRACE_LEVEL = REPL_MASTER_ADMIN_ACL OR
     SUPER_ACL"

definition PRIV_SET_SYSTEM_GLOBAL_VAR_RPL_SEMI_SYNC_MASTER_WAIT_POINT :: privilege_t where [flag_defs]:
  "PRIV_SET_SYSTEM_GLOBAL_VAR_RPL_SEMI_SYNC_MASTER_WAIT_POINT = REPL_MASTER_ADMIN_ACL OR
     SUPER_ACL"

definition PRIV_SET_SYSTEM_GLOBAL_VAR_MASTER_VERIFY_CHECKSUM :: privilege_t where [flag_defs]:
  "PRIV_SET_SYSTEM_GLOBAL_VAR_MASTER_VERIFY_CHECKSUM = REPL_MASTER_ADMIN_ACL OR SUPER_ACL"

definition PRIV_SET_SYSTEM_GLOBAL_VAR_GTID_BINLOG_STATE :: privilege_t where [flag_defs]:
  "PRIV_SET_SYSTEM_GLOBAL_VAR_GTID_BINLOG_STATE = REPL_MASTER_ADMIN_ACL OR SUPER_ACL"

definition PRIV_SET_SYSTEM_GLOBAL_VAR_SERVER_ID :: privilege_t where [flag_defs]:
  "PRIV_SET_SYSTEM_GLOBAL_VAR_SERVER_ID = REPL_MASTER_ADMIN_ACL OR SUPER_ACL"

definition PRIV_SET_SYSTEM_GLOBAL_VAR_GTID_DOMAIN_ID :: privilege_t where [flag_defs]:
  "PRIV_SET_SYSTEM_GLOBAL_VAR_GTID_DOMAIN_ID = REPL_MASTER_ADMIN_ACL OR SUPER_ACL"

definition PRIV_STMT_START_SLAVE :: privilege_t where [flag_defs]:
  "PRIV_STMT_START_SLAVE = REPL_SLAVE_ADMIN_ACL OR SUPER_ACL"

definition PRIV_STMT_STOP_SLAVE :: privilege_t where [flag_defs]:
  "PRIV_STMT_STOP_SLAVE = REPL_SLAVE_ADMIN_ACL OR SUPER_ACL"

definition PRIV_STMT_CHANGE_MASTER :: privilege_t where [flag_defs]:
  "PRIV_STMT_CHANGE_MASTER = REPL_SLAVE_ADMIN_ACL OR SUPER_ACL"

definition PRIV_STMT_SHOW_SLAVE_STATUS :: privilege_t where [flag_defs]:
  "PRIV_STMT_SHOW_SLAVE_STATUS = SLAVE_MONITOR_ACL OR SUPER_ACL"

definition PRIV_STMT_SHOW_RELAYLOG_EVENTS :: privilege_t where [flag_defs]:
  "PRIV_STMT_SHOW_RELAYLOG_EVENTS = SLAVE_MONITOR_ACL"

definition PRIV_STMT_BINLOG :: privilege_t where [flag_defs]:
  "PRIV_STMT_BINLOG = BINLOG_REPLAY_ACL OR SUPER_ACL"

definition PRIV_SET_SYSTEM_SESSION_VAR_GTID_SEQ_NO :: privilege_t where [flag_defs]:
  "PRIV_SET_SYSTEM_SESSION_VAR_GTID_SEQ_NO = BINLOG_REPLAY_ACL OR SUPER_ACL"

definition PRIV_SET_SYSTEM_SESSION_VAR_PSEUDO_THREAD_ID :: privilege_t where [flag_defs]:
  "PRIV_SET_SYSTEM_SESSION_VAR_PSEUDO_THREAD_ID = BINLOG_REPLAY_ACL OR SUPER_ACL"

definition PRIV_SET_SYSTEM_SESSION_VAR_SERVER_ID :: privilege_t where [flag_defs]:
  "PRIV_SET_SYSTEM_SESSION_VAR_SERVER_ID = BINLOG_REPLAY_ACL OR SUPER_ACL"

definition PRIV_SET_SYSTEM_SESSION_VAR_GTID_DOMAIN_ID :: privilege_t where [flag_defs]:
  "PRIV_SET_SYSTEM_SESSION_VAR_GTID_DOMAIN_ID = BINLOG_REPLAY_ACL OR SUPER_ACL"

definition PRIV_SET_SYSTEM_GLOBAL_VAR_REPLICATE_EVENTS_MARKED_FOR_SKIP :: privilege_t where [flag_defs]:
  "PRIV_SET_SYSTEM_GLOBAL_VAR_REPLICATE_EVENTS_MARKED_FOR_SKIP = REPL_SLAVE_ADMIN_ACL OR
     SUPER_ACL"

definition PRIV_SET_SYSTEM_GLOBAL_VAR_REPLICATE_REWRITE_DB :: privilege_t where [flag_defs]:
  "PRIV_SET_SYSTEM_GLOBAL_VAR_REPLICATE_REWRITE_DB = REPL_SLAVE_ADMIN_ACL OR SUPER_ACL"

definition PRIV_SET_SYSTEM_GLOBAL_VAR_REPLICATE_DO_DB :: privilege_t where [flag_defs]:
  "PRIV_SET_SYSTEM_GLOBAL_VAR_REPLICATE_DO_DB = REPL_SLAVE_ADMIN_ACL OR SUPER_ACL"

definition PRIV_SET_SYSTEM_GLOBAL_VAR_REPLICATE_DO_TABLE :: privilege_t where [flag_defs]:
  "PRIV_SET_SYSTEM_GLOBAL_VAR_REPLICATE_DO_TABLE = REPL_SLAVE_ADMIN_ACL OR SUPER_ACL"

definition PRIV_SET_SYSTEM_GLOBAL_VAR_REPLICATE_IGNORE_DB :: privilege_t where [flag_defs]:
  "PRIV_SET_SYSTEM_GLOBAL_VAR_REPLICATE_IGNORE_DB = REPL_SLAVE_ADMIN_ACL OR SUPER_ACL"

definition PRIV_SET_SYSTEM_GLOBAL_VAR_REPLICATE_IGNORE_TABLE :: privilege_t where [flag_defs]:
  "PRIV_SET_SYSTEM_GLOBAL_VAR_REPLICATE_IGNORE_TABLE = REPL_SLAVE_ADMIN_ACL OR SUPER_ACL"

definition PRIV_SET_SYSTEM_GLOBAL_VAR_REPLICATE_WILD_DO_TABLE :: privilege_t where [flag_defs]:
  "PRIV_SET_SYSTEM_GLOBAL_VAR_REPLICATE_WILD_DO_TABLE = REPL_SLAVE_ADMIN_ACL OR SUPER_ACL"

definition PRIV_SET_SYSTEM_GLOBAL_VAR_REPLICATE_WILD_IGNORE_TABLE :: privilege_t where [flag_defs]:
  "PRIV_SET_SYSTEM_GLOBAL_VAR_REPLICATE_WILD_IGNORE_TABLE = REPL_SLAVE_ADMIN_ACL OR
     SUPER_ACL"

definition PRIV_SET_SYSTEM_GLOBAL_VAR_READ_BINLOG_SPEED_LIMIT :: privilege_t where [flag_defs]:
  "PRIV_SET_SYSTEM_GLOBAL_VAR_READ_BINLOG_SPEED_LIMIT = REPL_SLAVE_ADMIN_ACL OR SUPER_ACL"

definition PRIV_SET_SYSTEM_GLOBAL_VAR_SLAVE_COMPRESSED_PROTOCOL :: privilege_t where [flag_defs]:
  "PRIV_SET_SYSTEM_GLOBAL_VAR_SLAVE_COMPRESSED_PROTOCOL = REPL_SLAVE_ADMIN_ACL OR SUPER_ACL"

definition PRIV_SET_SYSTEM_GLOBAL_VAR_SLAVE_DDL_EXEC_MODE :: privilege_t where [flag_defs]:
  "PRIV_SET_SYSTEM_GLOBAL_VAR_SLAVE_DDL_EXEC_MODE = REPL_SLAVE_ADMIN_ACL OR SUPER_ACL"

definition PRIV_SET_SYSTEM_GLOBAL_VAR_SLAVE_DOMAIN_PARALLEL_THREADS :: privilege_t where [flag_defs]:
  "PRIV_SET_SYSTEM_GLOBAL_VAR_SLAVE_DOMAIN_PARALLEL_THREADS = REPL_SLAVE_ADMIN_ACL OR
     SUPER_ACL"

definition PRIV_SET_SYSTEM_GLOBAL_VAR_SLAVE_EXEC_MODE :: privilege_t where [flag_defs]:
  "PRIV_SET_SYSTEM_GLOBAL_VAR_SLAVE_EXEC_MODE = REPL_SLAVE_ADMIN_ACL OR SUPER_ACL"

definition PRIV_SET_SYSTEM_GLOBAL_VAR_SLAVE_MAX_ALLOWED_PACKET :: privilege_t where [flag_defs]:
  "PRIV_SET_SYSTEM_GLOBAL_VAR_SLAVE_MAX_ALLOWED_PACKET = REPL_SLAVE_ADMIN_ACL OR SUPER_ACL"

definition PRIV_SET_SYSTEM_GLOBAL_VAR_SLAVE_MAX_STATEMENT_TIME :: privilege_t where [flag_defs]:
  "PRIV_SET_SYSTEM_GLOBAL_VAR_SLAVE_MAX_STATEMENT_TIME = REPL_SLAVE_ADMIN_ACL"

definition PRIV_SET_SYSTEM_GLOBAL_VAR_SLAVE_NET_TIMEOUT :: privilege_t where [flag_defs]:
  "PRIV_SET_SYSTEM_GLOBAL_VAR_SLAVE_NET_TIMEOUT = REPL_SLAVE_ADMIN_ACL OR SUPER_ACL"

definition PRIV_SET_SYSTEM_GLOBAL_VAR_SLAVE_PARALLEL_MAX_QUEUED :: privilege_t where [flag_defs]:
  "PRIV_SET_SYSTEM_GLOBAL_VAR_SLAVE_PARALLEL_MAX_QUEUED = REPL_SLAVE_ADMIN_ACL OR SUPER_ACL"

definition PRIV_SET_SYSTEM_GLOBAL_VAR_SLAVE_PARALLEL_MODE :: privilege_t where [flag_defs]:
  "PRIV_SET_SYSTEM_GLOBAL_VAR_SLAVE_PARALLEL_MODE = REPL_SLAVE_ADMIN_ACL OR SUPER_ACL"

definition PRIV_SET_SYSTEM_GLOBAL_VAR_SLAVE_PARALLEL_THREADS :: privilege_t where [flag_defs]:
  "PRIV_SET_SYSTEM_GLOBAL_VAR_SLAVE_PARALLEL_THREADS = REPL_SLAVE_ADMIN_ACL OR SUPER_ACL"

definition PRIV_SET_SYSTEM_GLOBAL_VAR_SLAVE_PARALLEL_WORKERS :: privilege_t where [flag_defs]:
  "PRIV_SET_SYSTEM_GLOBAL_VAR_SLAVE_PARALLEL_WORKERS = REPL_SLAVE_ADMIN_ACL OR SUPER_ACL"

definition PRIV_SET_SYSTEM_GLOBAL_VAR_SLAVE_RUN_TRIGGERS_FOR_RBR :: privilege_t where [flag_defs]:
  "PRIV_SET_SYSTEM_GLOBAL_VAR_SLAVE_RUN_TRIGGERS_FOR_RBR = REPL_SLAVE_ADMIN_ACL OR
     SUPER_ACL"

definition PRIV_SET_SYSTEM_GLOBAL_VAR_SLAVE_SQL_VERIFY_CHECKSUM :: privilege_t where [flag_defs]:
  "PRIV_SET_SYSTEM_GLOBAL_VAR_SLAVE_SQL_VERIFY_CHECKSUM = REPL_SLAVE_ADMIN_ACL OR SUPER_ACL"

definition PRIV_SET_SYSTEM_GLOBAL_VAR_SLAVE_TRANSACTION_RETRY_INTERVAL :: privilege_t where [flag_defs]:
  "PRIV_SET_SYSTEM_GLOBAL_VAR_SLAVE_TRANSACTION_RETRY_INTERVAL = REPL_SLAVE_ADMIN_ACL OR
     SUPER_ACL"

definition PRIV_SET_SYSTEM_GLOBAL_VAR_SLAVE_TYPE_CONVERSIONS :: privilege_t where [flag_defs]:
  "PRIV_SET_SYSTEM_GLOBAL_VAR_SLAVE_TYPE_CONVERSIONS = REPL_SLAVE_ADMIN_ACL OR SUPER_ACL"

definition PRIV_SET_SYSTEM_GLOBAL_VAR_INIT_SLAVE :: privilege_t where [flag_defs]:
  "PRIV_SET_SYSTEM_GLOBAL_VAR_INIT_SLAVE = REPL_SLAVE_ADMIN_ACL OR SUPER_ACL"

definition PRIV_SET_SYSTEM_GLOBAL_VAR_RPL_SEMI_SYNC_SLAVE_ENABLED :: privilege_t where [flag_defs]:
  "PRIV_SET_SYSTEM_GLOBAL_VAR_RPL_SEMI_SYNC_SLAVE_ENABLED = REPL_SLAVE_ADMIN_ACL OR
     SUPER_ACL"

definition PRIV_SET_SYSTEM_GLOBAL_VAR_RPL_SEMI_SYNC_SLAVE_TRACE_LEVEL :: privilege_t where [flag_defs]:
  "PRIV_SET_SYSTEM_GLOBAL_VAR_RPL_SEMI_SYNC_SLAVE_TRACE_LEVEL = REPL_SLAVE_ADMIN_ACL OR
     SUPER_ACL"

definition PRIV_SET_SYSTEM_GLOBAL_VAR_RPL_SEMI_SYNC_SLAVE_DELAY_MASTER :: privilege_t where [flag_defs]:
  "PRIV_SET_SYSTEM_GLOBAL_VAR_RPL_SEMI_SYNC_SLAVE_DELAY_MASTER = REPL_SLAVE_ADMIN_ACL OR
     SUPER_ACL"

definition PRIV_SET_SYSTEM_GLOBAL_VAR_RPL_SEMI_SYNC_SLAVE_KILL_CONN_TIMEOUT :: privilege_t where [flag_defs]:
  "PRIV_SET_SYSTEM_GLOBAL_VAR_RPL_SEMI_SYNC_SLAVE_KILL_CONN_TIMEOUT = REPL_SLAVE_ADMIN_ACL
     OR SUPER_ACL"

definition PRIV_SET_SYSTEM_GLOBAL_VAR_RELAY_LOG_PURGE :: privilege_t where [flag_defs]:
  "PRIV_SET_SYSTEM_GLOBAL_VAR_RELAY_LOG_PURGE = REPL_SLAVE_ADMIN_ACL OR SUPER_ACL"

definition PRIV_SET_SYSTEM_GLOBAL_VAR_RELAY_LOG_RECOVERY :: privilege_t where [flag_defs]:
  "PRIV_SET_SYSTEM_GLOBAL_VAR_RELAY_LOG_RECOVERY = REPL_SLAVE_ADMIN_ACL OR SUPER_ACL"

definition PRIV_SET_SYSTEM_GLOBAL_VAR_SYNC_MASTER_INFO :: privilege_t where [flag_defs]:
  "PRIV_SET_SYSTEM_GLOBAL_VAR_SYNC_MASTER_INFO = REPL_SLAVE_ADMIN_ACL OR SUPER_ACL"

definition PRIV_SET_SYSTEM_GLOBAL_VAR_SYNC_RELAY_LOG :: privilege_t where [flag_defs]:
  "PRIV_SET_SYSTEM_GLOBAL_VAR_SYNC_RELAY_LOG = REPL_SLAVE_ADMIN_ACL OR SUPER_ACL"

definition PRIV_SET_SYSTEM_GLOBAL_VAR_SYNC_RELAY_LOG_INFO :: privilege_t where [flag_defs]:
  "PRIV_SET_SYSTEM_GLOBAL_VAR_SYNC_RELAY_LOG_INFO = REPL_SLAVE_ADMIN_ACL OR SUPER_ACL"

definition PRIV_SET_SYSTEM_GLOBAL_VAR_GTID_CLEANUP_BATCH_SIZE :: privilege_t where [flag_defs]:
  "PRIV_SET_SYSTEM_GLOBAL_VAR_GTID_CLEANUP_BATCH_SIZE = REPL_SLAVE_ADMIN_ACL OR SUPER_ACL"

definition PRIV_SET_SYSTEM_GLOBAL_VAR_GTID_IGNORE_DUPLICATES :: privilege_t where [flag_defs]:
  "PRIV_SET_SYSTEM_GLOBAL_VAR_GTID_IGNORE_DUPLICATES = REPL_SLAVE_ADMIN_ACL OR SUPER_ACL"

definition PRIV_SET_SYSTEM_GLOBAL_VAR_GTID_POS_AUTO_ENGINES :: privilege_t where [flag_defs]:
  "PRIV_SET_SYSTEM_GLOBAL_VAR_GTID_POS_AUTO_ENGINES = REPL_SLAVE_ADMIN_ACL OR SUPER_ACL"

definition PRIV_SET_SYSTEM_GLOBAL_VAR_GTID_SLAVE_POS :: privilege_t where [flag_defs]:
  "PRIV_SET_SYSTEM_GLOBAL_VAR_GTID_SLAVE_POS = REPL_SLAVE_ADMIN_ACL OR SUPER_ACL"

definition PRIV_SET_SYSTEM_GLOBAL_VAR_GTID_STRICT_MODE :: privilege_t where [flag_defs]:
  "PRIV_SET_SYSTEM_GLOBAL_VAR_GTID_STRICT_MODE = REPL_SLAVE_ADMIN_ACL OR SUPER_ACL"

definition PRIV_STMT_CREATE_SERVER :: privilege_t where [flag_defs]:
  "PRIV_STMT_CREATE_SERVER = FEDERATED_ADMIN_ACL OR SUPER_ACL"

definition PRIV_STMT_ALTER_SERVER :: privilege_t where [flag_defs]:
  "PRIV_STMT_ALTER_SERVER = FEDERATED_ADMIN_ACL OR SUPER_ACL"

definition PRIV_STMT_DROP_SERVER :: privilege_t where [flag_defs]:
  "PRIV_STMT_DROP_SERVER = FEDERATED_ADMIN_ACL OR SUPER_ACL"

definition PRIV_COM_PROCESS_INFO :: privilege_t where [flag_defs]:
  "PRIV_COM_PROCESS_INFO = PROCESS_ACL"

definition PRIV_STMT_SHOW_EXPLAIN :: privilege_t where [flag_defs]:
  "PRIV_STMT_SHOW_EXPLAIN = PROCESS_ACL"

definition PRIV_STMT_SHOW_ENGINE_STATUS :: privilege_t where [flag_defs]:
  "PRIV_STMT_SHOW_ENGINE_STATUS = PROCESS_ACL"

definition PRIV_STMT_SHOW_ENGINE_MUTEX :: privilege_t where [flag_defs]:
  "PRIV_STMT_SHOW_ENGINE_MUTEX = PROCESS_ACL"

definition PRIV_STMT_SHOW_PROCESSLIST :: privilege_t where [flag_defs]:
  "PRIV_STMT_SHOW_PROCESSLIST = PROCESS_ACL"

section \<open>Packed rights\<close>

definition DB_CHUNK0 :: privilege_t where [flag_defs]:
  "DB_CHUNK0 = COL_DML_ACLS OR CREATE_ACL OR DROP_ACL"

definition DB_CHUNK1 :: privilege_t where [flag_defs]:
  "DB_CHUNK1 = GRANT_ACL OR REFERENCES_ACL OR INDEX_ACL OR ALTER_ACL"

definition DB_CHUNK2 :: privilege_t where [flag_defs]:
  "DB_CHUNK2 = CREATE_TMP_ACL OR LOCK_TABLES_ACL"

definition DB_CHUNK3 :: privilege_t where [flag_defs]:
  "DB_CHUNK3 = VIEW_ACLS OR PROC_DDL_ACLS"

definition DB_CHUNK4 :: privilege_t where [flag_defs]:
  "DB_CHUNK4 = EXECUTE_ACL"

definition DB_CHUNK5 :: privilege_t where [flag_defs]:
  "DB_CHUNK5 = EVENT_ACL OR TRIGGER_ACL"

definition DB_CHUNK6 :: privilege_t where [flag_defs]:
  "DB_CHUNK6 = DELETE_HISTORY_ACL"

definition fix_rights_for_db :: "privilege_t \<Rightarrow> privilege_t" where
  "fix_rights_for_db A =
     (A AND DB_CHUNK0) OR (push_bit 4 A AND DB_CHUNK1) OR (push_bit 6 A AND DB_CHUNK2) OR
     (push_bit 9 A AND DB_CHUNK3) OR (push_bit 2 A AND DB_CHUNK4) OR
     (push_bit 9 A AND DB_CHUNK5) OR (push_bit 10 A AND DB_CHUNK6)"

definition get_rights_for_db :: "privilege_t \<Rightarrow> privilege_t" where
  "get_rights_for_db A =
     (A AND DB_CHUNK0) OR drop_bit 4 (A AND DB_CHUNK1) OR drop_bit 6 (A AND DB_CHUNK2) OR
     drop_bit 9 (A AND DB_CHUNK3) OR drop_bit 2 (A AND DB_CHUNK4) OR
     drop_bit 9 (A AND DB_CHUNK5) OR drop_bit 10 (A AND DB_CHUNK6)"

definition TBL_CHUNK0 :: privilege_t where [flag_defs]:
  "TBL_CHUNK0 = DB_CHUNK0"

definition TBL_CHUNK1 :: privilege_t where [flag_defs]:
  "TBL_CHUNK1 = DB_CHUNK1"

definition TBL_CHUNK2 :: privilege_t where [flag_defs]:
  "TBL_CHUNK2 = CREATE_VIEW_ACL OR SHOW_VIEW_ACL"

definition TBL_CHUNK3 :: privilege_t where [flag_defs]:
  "TBL_CHUNK3 = TRIGGER_ACL"

definition TBL_CHUNK4 :: privilege_t where [flag_defs]:
  "TBL_CHUNK4 = DELETE_HISTORY_ACL"

definition fix_rights_for_table :: "privilege_t \<Rightarrow> privilege_t" where
  "fix_rights_for_table A =
     (A AND TBL_CHUNK0) OR (push_bit 4 A AND TBL_CHUNK1) OR (push_bit 11 A AND TBL_CHUNK2) OR
     (push_bit 15 A AND TBL_CHUNK3) OR (push_bit 16 A AND TBL_CHUNK4)"

definition get_rights_for_table :: "privilege_t \<Rightarrow> privilege_t" where
  "get_rights_for_table A =
     (A AND TBL_CHUNK0) OR drop_bit 4 (A AND TBL_CHUNK1) OR drop_bit 11 (A AND TBL_CHUNK2) OR
     drop_bit 15 (A AND TBL_CHUNK3) OR drop_bit 16 (A AND TBL_CHUNK4)"

definition fix_rights_for_column :: "privilege_t \<Rightarrow> privilege_t" where
  "fix_rights_for_column A =
     (let mask = SELECT_ACL OR INSERT_ACL OR UPDATE_ACL
      in (A AND mask) OR push_bit 8 (A AND NOT mask))"

definition get_rights_for_column :: "privilege_t \<Rightarrow> privilege_t" where
  "get_rights_for_column A =
     (let mask = SELECT_ACL OR INSERT_ACL OR UPDATE_ACL in (A AND mask) OR drop_bit 8 A)"

definition fix_rights_for_procedure :: "privilege_t \<Rightarrow> privilege_t" where
  "fix_rights_for_procedure A =
     (push_bit 18 A AND EXECUTE_ACL) OR (push_bit 23 A AND ALTER_PROC_ACL) OR
     (push_bit 8 A AND GRANT_ACL)"

definition get_rights_for_procedure :: "privilege_t \<Rightarrow> privilege_t" where
  "get_rights_for_procedure A =
     drop_bit 18 (A AND EXECUTE_ACL) OR drop_bit 23 (A AND ALTER_PROC_ACL) OR
     drop_bit 8 (A AND GRANT_ACL)"

section \<open>The sets of bits\<close>

text \<open>Every requirement the header names, in its order.\<close>

definition requirements :: "privilege_t list" where
  "requirements =
     [PRIV_LOCK_TABLES, PRIV_DEFINER_CLAUSE, PRIV_REVEAL_MISSING_DEFINER,
      PRIV_DES_DECRYPT_ONE_ARG, PRIV_LOG_BIN_TRUSTED_SP_CREATOR, PRIV_DEBUG,
      PRIV_SET_GLOBAL_SYSTEM_VARIABLE, PRIV_SET_RESTRICTED_SESSION_SYSTEM_VARIABLE,
      PRIV_SET_SYSTEM_VAR_BINLOG_FORMAT,
      PRIV_SET_SYSTEM_VAR_BINLOG_DIRECT_NON_TRANSACTIONAL_UPDATES,
      PRIV_SET_SYSTEM_VAR_BINLOG_ANNOTATE_ROW_EVENTS, PRIV_SET_SYSTEM_VAR_BINLOG_ROW_IMAGE,
      PRIV_SET_SYSTEM_VAR_SQL_LOG_BIN, PRIV_SET_SYSTEM_GLOBAL_VAR_BINLOG_CACHE_SIZE,
      PRIV_SET_SYSTEM_GLOBAL_VAR_BINLOG_FILE_CACHE_SIZE,
      PRIV_SET_SYSTEM_GLOBAL_VAR_BINLOG_STMT_CACHE_SIZE,
      PRIV_SET_SYSTEM_GLOBAL_VAR_BINLOG_COMMIT_WAIT_COUNT,
      PRIV_SET_SYSTEM_GLOBAL_VAR_BINLOG_COMMIT_WAIT_USEC,
      PRIV_SET_SYSTEM_GLOBAL_VAR_BINLOG_ROW_METADATA, PRIV_SET_SYSTEM_GLOBAL_VAR_EXPIRE_LOGS_DAYS,
      PRIV_SET_SYSTEM_GLOBAL_VAR_LOG_BIN_COMPRESS,
      PRIV_SET_SYSTEM_GLOBAL_VAR_LOG_BIN_COMPRESS_MIN_LEN,
      PRIV_SET_SYSTEM_GLOBAL_VAR_LOG_BIN_TRUST_FUNCTION_CREATORS,
      PRIV_SET_SYSTEM_GLOBAL_VAR_MAX_BINLOG_CACHE_SIZE,
      PRIV_SET_SYSTEM_GLOBAL_VAR_MAX_BINLOG_STMT_CACHE_SIZE,
      PRIV_SET_SYSTEM_GLOBAL_VAR_MAX_BINLOG_SIZE, PRIV_SET_SYSTEM_GLOBAL_VAR_SYNC_BINLOG,
      PRIV_IGNORE_READ_ONLY, PRIV_SET_SYSTEM_GLOBAL_VAR_READ_ONLY, PRIV_IGNORE_INIT_CONNECT,
      PRIV_IGNORE_MAX_USER_CONNECTIONS, PRIV_IGNORE_MAX_CONNECTIONS,
      PRIV_IGNORE_MAX_PASSWORD_ERRORS, PRIV_KILL_OTHER_USER_PROCESS,
      PRIV_SET_SYSTEM_GLOBAL_VAR_CONNECT_TIMEOUT,
      PRIV_SET_SYSTEM_GLOBAL_VAR_DISCONNECT_ON_EXPIRED_PASSWORD,
      PRIV_SET_SYSTEM_GLOBAL_VAR_EXTRA_MAX_CONNECTIONS, PRIV_SET_SYSTEM_GLOBAL_VAR_INIT_CONNECT,
      PRIV_SET_SYSTEM_GLOBAL_VAR_MAX_CONNECTIONS, PRIV_SET_SYSTEM_GLOBAL_VAR_MAX_CONNECT_ERRORS,
      PRIV_SET_SYSTEM_GLOBAL_VAR_MAX_PASSWORD_ERRORS,
      PRIV_SET_SYSTEM_GLOBAL_VAR_PROXY_PROTOCOL_NETWORKS, PRIV_SET_SYSTEM_GLOBAL_VAR_SECURE_AUTH,
      PRIV_SET_SYSTEM_GLOBAL_VAR_SLOW_LAUNCH_TIME, PRIV_SET_SYSTEM_GLOBAL_VAR_THREAD_POOL,
      PRIV_STMT_SHOW_BINLOG_STATUS, PRIV_STMT_SHOW_BINARY_LOGS, PRIV_STMT_PURGE_BINLOG,
      PRIV_STMT_SHOW_BINLOG_EVENTS, PRIV_COM_REGISTER_SLAVE, PRIV_COM_BINLOG_DUMP,
      PRIV_STMT_SHOW_SLAVE_HOSTS, PRIV_SET_SYSTEM_GLOBAL_VAR_RPL_SEMI_SYNC_MASTER_ENABLED,
      PRIV_SET_SYSTEM_GLOBAL_VAR_RPL_SEMI_SYNC_MASTER_TIMEOUT,
      PRIV_SET_SYSTEM_GLOBAL_VAR_RPL_SEMI_SYNC_MASTER_WAIT_NO_SLAVE,
      PRIV_SET_SYSTEM_GLOBAL_VAR_RPL_SEMI_SYNC_MASTER_TRACE_LEVEL,
      PRIV_SET_SYSTEM_GLOBAL_VAR_RPL_SEMI_SYNC_MASTER_WAIT_POINT,
      PRIV_SET_SYSTEM_GLOBAL_VAR_MASTER_VERIFY_CHECKSUM,
      PRIV_SET_SYSTEM_GLOBAL_VAR_GTID_BINLOG_STATE, PRIV_SET_SYSTEM_GLOBAL_VAR_SERVER_ID,
      PRIV_SET_SYSTEM_GLOBAL_VAR_GTID_DOMAIN_ID, PRIV_STMT_START_SLAVE, PRIV_STMT_STOP_SLAVE,
      PRIV_STMT_CHANGE_MASTER, PRIV_STMT_SHOW_SLAVE_STATUS, PRIV_STMT_SHOW_RELAYLOG_EVENTS,
      PRIV_STMT_BINLOG, PRIV_SET_SYSTEM_SESSION_VAR_GTID_SEQ_NO,
      PRIV_SET_SYSTEM_SESSION_VAR_PSEUDO_THREAD_ID, PRIV_SET_SYSTEM_SESSION_VAR_SERVER_ID,
      PRIV_SET_SYSTEM_SESSION_VAR_GTID_DOMAIN_ID,
      PRIV_SET_SYSTEM_GLOBAL_VAR_REPLICATE_EVENTS_MARKED_FOR_SKIP,
      PRIV_SET_SYSTEM_GLOBAL_VAR_REPLICATE_REWRITE_DB, PRIV_SET_SYSTEM_GLOBAL_VAR_REPLICATE_DO_DB,
      PRIV_SET_SYSTEM_GLOBAL_VAR_REPLICATE_DO_TABLE,
      PRIV_SET_SYSTEM_GLOBAL_VAR_REPLICATE_IGNORE_DB,
      PRIV_SET_SYSTEM_GLOBAL_VAR_REPLICATE_IGNORE_TABLE,
      PRIV_SET_SYSTEM_GLOBAL_VAR_REPLICATE_WILD_DO_TABLE,
      PRIV_SET_SYSTEM_GLOBAL_VAR_REPLICATE_WILD_IGNORE_TABLE,
      PRIV_SET_SYSTEM_GLOBAL_VAR_READ_BINLOG_SPEED_LIMIT,
      PRIV_SET_SYSTEM_GLOBAL_VAR_SLAVE_COMPRESSED_PROTOCOL,
      PRIV_SET_SYSTEM_GLOBAL_VAR_SLAVE_DDL_EXEC_MODE,
      PRIV_SET_SYSTEM_GLOBAL_VAR_SLAVE_DOMAIN_PARALLEL_THREADS,
      PRIV_SET_SYSTEM_GLOBAL_VAR_SLAVE_EXEC_MODE,
      PRIV_SET_SYSTEM_GLOBAL_VAR_SLAVE_MAX_ALLOWED_PACKET,
      PRIV_SET_SYSTEM_GLOBAL_VAR_SLAVE_MAX_STATEMENT_TIME,
      PRIV_SET_SYSTEM_GLOBAL_VAR_SLAVE_NET_TIMEOUT,
      PRIV_SET_SYSTEM_GLOBAL_VAR_SLAVE_PARALLEL_MAX_QUEUED,
      PRIV_SET_SYSTEM_GLOBAL_VAR_SLAVE_PARALLEL_MODE,
      PRIV_SET_SYSTEM_GLOBAL_VAR_SLAVE_PARALLEL_THREADS,
      PRIV_SET_SYSTEM_GLOBAL_VAR_SLAVE_PARALLEL_WORKERS,
      PRIV_SET_SYSTEM_GLOBAL_VAR_SLAVE_RUN_TRIGGERS_FOR_RBR,
      PRIV_SET_SYSTEM_GLOBAL_VAR_SLAVE_SQL_VERIFY_CHECKSUM,
      PRIV_SET_SYSTEM_GLOBAL_VAR_SLAVE_TRANSACTION_RETRY_INTERVAL,
      PRIV_SET_SYSTEM_GLOBAL_VAR_SLAVE_TYPE_CONVERSIONS, PRIV_SET_SYSTEM_GLOBAL_VAR_INIT_SLAVE,
      PRIV_SET_SYSTEM_GLOBAL_VAR_RPL_SEMI_SYNC_SLAVE_ENABLED,
      PRIV_SET_SYSTEM_GLOBAL_VAR_RPL_SEMI_SYNC_SLAVE_TRACE_LEVEL,
      PRIV_SET_SYSTEM_GLOBAL_VAR_RPL_SEMI_SYNC_SLAVE_DELAY_MASTER,
      PRIV_SET_SYSTEM_GLOBAL_VAR_RPL_SEMI_SYNC_SLAVE_KILL_CONN_TIMEOUT,
      PRIV_SET_SYSTEM_GLOBAL_VAR_RELAY_LOG_PURGE, PRIV_SET_SYSTEM_GLOBAL_VAR_RELAY_LOG_RECOVERY,
      PRIV_SET_SYSTEM_GLOBAL_VAR_SYNC_MASTER_INFO, PRIV_SET_SYSTEM_GLOBAL_VAR_SYNC_RELAY_LOG,
      PRIV_SET_SYSTEM_GLOBAL_VAR_SYNC_RELAY_LOG_INFO,
      PRIV_SET_SYSTEM_GLOBAL_VAR_GTID_CLEANUP_BATCH_SIZE,
      PRIV_SET_SYSTEM_GLOBAL_VAR_GTID_IGNORE_DUPLICATES,
      PRIV_SET_SYSTEM_GLOBAL_VAR_GTID_POS_AUTO_ENGINES, PRIV_SET_SYSTEM_GLOBAL_VAR_GTID_SLAVE_POS,
      PRIV_SET_SYSTEM_GLOBAL_VAR_GTID_STRICT_MODE, PRIV_STMT_CREATE_SERVER,
      PRIV_STMT_ALTER_SERVER, PRIV_STMT_DROP_SERVER, PRIV_COM_PROCESS_INFO,
      PRIV_STMT_SHOW_EXPLAIN, PRIV_STMT_SHOW_ENGINE_STATUS, PRIV_STMT_SHOW_ENGINE_MUTEX,
      PRIV_STMT_SHOW_PROCESSLIST]"

section \<open>Values of the sets\<close>

interpretation acl: flag_set bit privilege_and privilege_or
  by unfold_locales (simp_all add: bit_eq_iff privilege_and_def privilege_or_def bit_simps)

text \<open>\<open>acl_subset a b\<close>: every privilege of the first set is in the second.\<close>

definition acl_subset :: "privilege_t \<Rightarrow> privilege_t \<Rightarrow> bool" where
  "acl_subset a b \<longleftrightarrow> privilege_and a (privilege_not b) = NO_ACL"

lemma acl_subset_bits: "acl_subset a b \<longleftrightarrow> (\<forall>n. bit a n \<longrightarrow> bit b n)"
proof -
  have "a AND NOT b = 0 \<longleftrightarrow> (\<forall>n. \<not> (bit a n \<and> n < 64 \<and> \<not> bit b n))"
    using bit_word_lt [of a] by (auto simp: bit_eq_iff bit_simps)
  then show ?thesis
    using bit_word_lt [of a] by (auto simp: acl_subset_def privilege_and_def privilege_not_def NO_ACL_def)
qed

lemma acl_subset_refl [simp]: "acl_subset a a"
  by (simp add: acl_subset_bits)

lemma acl_subset_trans [trans]: "acl_subset a b \<Longrightarrow> acl_subset b c \<Longrightarrow> acl_subset a c"
  by (simp add: acl_subset_bits)

lemma acl_subset_or [simp]: "acl_subset a (a OR b)" "acl_subset b (a OR b)"
  by (simp_all add: acl_subset_bits bit_simps)

lemma db_chunks:
  "DB_CHUNK0 = 0x3F" "DB_CHUNK1 = 0x3C00" "DB_CHUNK2 = 0x30000" "DB_CHUNK3 = 0x1E00000"
  "DB_CHUNK4 = 0x40000" "DB_CHUNK5 = 0xC000000" "DB_CHUNK6 = 0x20000000"
  by (simp_all add: flag_defs)

lemma table_chunks:
  "TBL_CHUNK0 = 0x3F" "TBL_CHUNK1 = 0x3C00" "TBL_CHUNK2 = 0x600000" "TBL_CHUNK3 = 0x8000000"
  "TBL_CHUNK4 = 0x20000000"
  by (simp_all add: flag_defs)

lemma acl_values:
  "GLOBAL_ACLS = 0x7FFFFFFFFF" "ALL_KNOWN_ACL = 0x7FFFFFFFFF" "DB_ACLS = 0x2DE73C3F"
  "TABLE_ACLS = 0x28603C3F" "COL_ACLS = 0x807" "PROC_ACLS = 0x1040400" "SUPER_ACL = 0x8000"
  by (simp_all add: flag_defs)

section \<open>Packing of rights\<close>

text \<open>
  The contract of a pair of packing functions: \<open>widen\<close> spreads the \<open>k\<close> contiguous bits stored in
  a grant table over the privilege bits \<open>acls\<close>, \<open>pack\<close> collects them again.
\<close>

locale rights_packing =
  fixes widen pack :: "privilege_t \<Rightarrow> privilege_t" and acls :: privilege_t and k :: nat
  assumes widen_within: "unat x < 2 ^ k \<Longrightarrow> acl_subset (widen x) acls"
    and pack_below: "acl_subset y acls \<Longrightarrow> unat (pack y) < 2 ^ k"
    and pack_widen: "unat x < 2 ^ k \<Longrightarrow> pack (widen x) = x"
    and widen_pack: "acl_subset y acls \<Longrightarrow> widen (pack y) = y"
begin

lemma widen_bij: "bij_betw widen {x. unat x < 2 ^ k} {y. acl_subset y acls}"
  by (rule bij_betw_byWitness [where f' = pack])
    (auto simp: widen_within pack_below pack_widen widen_pack)

lemma pack_bij: "bij_betw pack {y. acl_subset y acls} {x. unat x < 2 ^ k}"
  by (rule bij_betw_byWitness [where f' = widen])
    (auto simp: widen_within pack_below pack_widen widen_pack)

end

lemma below_if_high_bits_clear:
  fixes x :: privilege_t
  assumes "\<And>n. k \<le> n \<Longrightarrow> n < 64 \<Longrightarrow> \<not> bit x n"
  shows "unat x < 2 ^ k"
proof -
  have "x AND NOT (mask k) = 0"
    using assms by (intro bit_word_eqI) (auto simp: bit_simps not_le [symmetric])
  then show ?thesis by (simp add: and_not_mask_eq_0_iff)
qed

lemma acl_subset_I:
  assumes "list_all (\<lambda>n. bit a n \<longrightarrow> bit b n) [0..<64]"
  shows "acl_subset a b"
  using all_below_numeral_list [OF assms] bit_word_lt [of a] by (auto simp: acl_subset_bits)

lemma below_64_I:
  fixes x :: privilege_t
  assumes "list_all (\<lambda>n. k \<le> n \<longrightarrow> \<not> bit x n) [0..<64]"
  shows "unat x < 2 ^ k"
  using all_below_numeral_list [OF assms] by (intro below_if_high_bits_clear) auto

lemmas pack_bits = bit_and_iff bit_or_iff bit_not_iff bit_push_bit_iff bit_drop_bit_eq

lemma column_bits: "SELECT_ACL OR INSERT_ACL OR UPDATE_ACL = (7 :: privilege_t)" "Let a f = f a"
  by (simp_all add: flag_defs)

lemma proc_bits: "EXECUTE_ACL = 0x40000" "ALTER_PROC_ACL = 0x1000000" "GRANT_ACL = 0x400"
  by (simp_all add: flag_defs)

lemma rights_for_db_laws:
  "unat x < 2 ^ 20 \<Longrightarrow> acl_subset (fix_rights_for_db x) DB_ACLS"
  "acl_subset y DB_ACLS \<Longrightarrow> unat (get_rights_for_db y) < 2 ^ 20"
  "unat x < 2 ^ 20 \<Longrightarrow> get_rights_for_db (fix_rights_for_db x) = x"
  "acl_subset y DB_ACLS \<Longrightarrow> fix_rights_for_db (get_rights_for_db y) = y"
proof -
  show "acl_subset (fix_rights_for_db x) DB_ACLS" if "unat x < 2 ^ 20"
    using high_bits_clear [OF that]
    by (intro acl_subset_I, unfold upt_64 fix_rights_for_db_def db_chunks acl_values)
      (simp add: pack_bits)
  show "get_rights_for_db (fix_rights_for_db x) = x" if "unat x < 2 ^ 20"
    using high_bits_clear [OF that]
    by (intro word64_eqI, unfold upt_64 fix_rights_for_db_def get_rights_for_db_def db_chunks)
      (simp add: pack_bits)
  have clear: "\<not> bit y n" if "acl_subset y DB_ACLS" "\<not> bit DB_ACLS n" for n
    using that by (auto simp: acl_subset_bits)
  show "unat (get_rights_for_db y) < 2 ^ 20" if "acl_subset y DB_ACLS"
    using clear [OF that]
    by (intro below_64_I, unfold upt_64 get_rights_for_db_def db_chunks acl_values)
      (simp add: pack_bits)
  show "fix_rights_for_db (get_rights_for_db y) = y" if "acl_subset y DB_ACLS"
    using clear [OF that]
    by (intro word64_eqI, unfold upt_64 fix_rights_for_db_def get_rights_for_db_def db_chunks
        acl_values) (simp add: pack_bits)
qed

interpretation db: rights_packing fix_rights_for_db get_rights_for_db DB_ACLS 20
  by unfold_locales (rule rights_for_db_laws, assumption)+

lemma rights_for_table_laws:
  "unat x < 2 ^ 14 \<Longrightarrow> acl_subset (fix_rights_for_table x) TABLE_ACLS"
  "acl_subset y TABLE_ACLS \<Longrightarrow> unat (get_rights_for_table y) < 2 ^ 14"
  "unat x < 2 ^ 14 \<Longrightarrow> get_rights_for_table (fix_rights_for_table x) = x"
  "acl_subset y TABLE_ACLS \<Longrightarrow> fix_rights_for_table (get_rights_for_table y) = y"
proof -
  show "acl_subset (fix_rights_for_table x) TABLE_ACLS" if "unat x < 2 ^ 14"
    using high_bits_clear [OF that]
    by (intro acl_subset_I, unfold upt_64 fix_rights_for_table_def table_chunks acl_values)
      (simp add: pack_bits)
  show "get_rights_for_table (fix_rights_for_table x) = x" if "unat x < 2 ^ 14"
    using high_bits_clear [OF that]
    by (intro word64_eqI, unfold upt_64 fix_rights_for_table_def get_rights_for_table_def table_chunks)
      (simp add: pack_bits)
  have clear: "\<not> bit y n" if "acl_subset y TABLE_ACLS" "\<not> bit TABLE_ACLS n" for n
    using that by (auto simp: acl_subset_bits)
  show "unat (get_rights_for_table y) < 2 ^ 14" if "acl_subset y TABLE_ACLS"
    using clear [OF that]
    by (intro below_64_I, unfold upt_64 get_rights_for_table_def table_chunks acl_values)
      (simp add: pack_bits)
  show "fix_rights_for_table (get_rights_for_table y) = y" if "acl_subset y TABLE_ACLS"
    using clear [OF that]
    by (intro word64_eqI, unfold upt_64 fix_rights_for_table_def get_rights_for_table_def table_chunks
        acl_values) (simp add: pack_bits)
qed

interpretation tbl: rights_packing fix_rights_for_table get_rights_for_table TABLE_ACLS 14
  by unfold_locales (rule rights_for_table_laws, assumption)+

lemma rights_for_column_laws:
  "unat x < 2 ^ 4 \<Longrightarrow> acl_subset (fix_rights_for_column x) COL_ACLS"
  "acl_subset y COL_ACLS \<Longrightarrow> unat (get_rights_for_column y) < 2 ^ 4"
  "unat x < 2 ^ 4 \<Longrightarrow> get_rights_for_column (fix_rights_for_column x) = x"
  "acl_subset y COL_ACLS \<Longrightarrow> fix_rights_for_column (get_rights_for_column y) = y"
proof -
  show "acl_subset (fix_rights_for_column x) COL_ACLS" if "unat x < 2 ^ 4"
    using high_bits_clear [OF that]
    by (intro acl_subset_I, unfold upt_64 fix_rights_for_column_def column_bits acl_values)
      (simp add: pack_bits)
  show "get_rights_for_column (fix_rights_for_column x) = x" if "unat x < 2 ^ 4"
    using high_bits_clear [OF that]
    by (intro word64_eqI, unfold upt_64 fix_rights_for_column_def get_rights_for_column_def column_bits)
      (simp add: pack_bits)
  have clear: "\<not> bit y n" if "acl_subset y COL_ACLS" "\<not> bit COL_ACLS n" for n
    using that by (auto simp: acl_subset_bits)
  show "unat (get_rights_for_column y) < 2 ^ 4" if "acl_subset y COL_ACLS"
    using clear [OF that]
    by (intro below_64_I, unfold upt_64 get_rights_for_column_def column_bits acl_values)
      (simp add: pack_bits)
  show "fix_rights_for_column (get_rights_for_column y) = y" if "acl_subset y COL_ACLS"
    using clear [OF that]
    by (intro word64_eqI, unfold upt_64 fix_rights_for_column_def get_rights_for_column_def column_bits
        acl_values) (simp add: pack_bits)
qed

interpretation col: rights_packing fix_rights_for_column get_rights_for_column COL_ACLS 4
  by unfold_locales (rule rights_for_column_laws, assumption)+

lemma rights_for_procedure_laws:
  "unat x < 2 ^ 3 \<Longrightarrow> acl_subset (fix_rights_for_procedure x) PROC_ACLS"
  "acl_subset y PROC_ACLS \<Longrightarrow> unat (get_rights_for_procedure y) < 2 ^ 3"
  "unat x < 2 ^ 3 \<Longrightarrow> get_rights_for_procedure (fix_rights_for_procedure x) = x"
  "acl_subset y PROC_ACLS \<Longrightarrow> fix_rights_for_procedure (get_rights_for_procedure y) = y"
proof -
  show "acl_subset (fix_rights_for_procedure x) PROC_ACLS" if "unat x < 2 ^ 3"
    using high_bits_clear [OF that]
    by (intro acl_subset_I, unfold upt_64 fix_rights_for_procedure_def proc_bits acl_values)
      (simp add: pack_bits)
  show "get_rights_for_procedure (fix_rights_for_procedure x) = x" if "unat x < 2 ^ 3"
    using high_bits_clear [OF that]
    by (intro word64_eqI, unfold upt_64 fix_rights_for_procedure_def get_rights_for_procedure_def proc_bits)
      (simp add: pack_bits)
  have clear: "\<not> bit y n" if "acl_subset y PROC_ACLS" "\<not> bit PROC_ACLS n" for n
    using that by (auto simp: acl_subset_bits)
  show "unat (get_rights_for_procedure y) < 2 ^ 3" if "acl_subset y PROC_ACLS"
    using clear [OF that]
    by (intro below_64_I, unfold upt_64 get_rights_for_procedure_def proc_bits acl_values)
      (simp add: pack_bits)
  show "fix_rights_for_procedure (get_rights_for_procedure y) = y" if "acl_subset y PROC_ACLS"
    using clear [OF that]
    by (intro word64_eqI, unfold upt_64 fix_rights_for_procedure_def get_rights_for_procedure_def proc_bits
        acl_values) (simp add: pack_bits)
qed

interpretation proc: rights_packing fix_rights_for_procedure get_rights_for_procedure PROC_ACLS 3
  by unfold_locales (rule rights_for_procedure_laws, assumption)+

text \<open>
  The packing of the rights stored in \<^verbatim>\<open>mysql.db\<close>, \<^verbatim>\<open>mysql.tables_priv\<close>,
  \<^verbatim>\<open>mysql.columns_priv\<close> and \<^verbatim>\<open>mysql.procs_priv\<close> loses nothing: each \<^verbatim>\<open>fix_rights_for_*\<close> maps the
  values of the stored column (20, 14, 4 and 3 bits) one to one onto the sets of privileges that
  can be granted at that level, and the corresponding \<^verbatim>\<open>get_rights_for_*\<close> is its inverse.
\<close>

theorem rights_packing_bijective:
  "bij_betw fix_rights_for_db {x. unat x < 2 ^ 20} {y. acl_subset y DB_ACLS} \<and>
   bij_betw fix_rights_for_table {x. unat x < 2 ^ 14} {y. acl_subset y TABLE_ACLS} \<and>
   bij_betw fix_rights_for_column {x. unat x < 2 ^ 4} {y. acl_subset y COL_ACLS} \<and>
   bij_betw fix_rights_for_procedure {x. unat x < 2 ^ 3} {y. acl_subset y PROC_ACLS} \<and>
   (\<forall>y. acl_subset y DB_ACLS \<longrightarrow> fix_rights_for_db (get_rights_for_db y) = y) \<and>
   (\<forall>y. acl_subset y TABLE_ACLS \<longrightarrow> fix_rights_for_table (get_rights_for_table y) = y) \<and>
   (\<forall>y. acl_subset y COL_ACLS \<longrightarrow> fix_rights_for_column (get_rights_for_column y) = y) \<and>
   (\<forall>y. acl_subset y PROC_ACLS \<longrightarrow> fix_rights_for_procedure (get_rights_for_procedure y) = y)"
  by (intro conjI allI impI db.widen_bij tbl.widen_bij col.widen_bij proc.widen_bij
      db.widen_pack tbl.widen_pack col.widen_pack proc.widen_pack)

theorem rights_packing_bijective_witness:
  "acl_subset (SELECT_ACL OR DELETE_HISTORY_ACL) DB_ACLS \<and>
   get_rights_for_db (SELECT_ACL OR DELETE_HISTORY_ACL) = 0x80001 \<and>
   fix_rights_for_db 0x80001 = SELECT_ACL OR DELETE_HISTORY_ACL"
proof -
  have a: "acl_subset (SELECT_ACL OR DELETE_HISTORY_ACL) DB_ACLS"
    by (simp add: acl_subset_def privilege_and_def privilege_not_def flag_defs)
  moreover have g: "get_rights_for_db (SELECT_ACL OR DELETE_HISTORY_ACL) = 0x80001"
    by (simp add: get_rights_for_db_def flag_defs)
  ultimately show ?thesis
    using rights_packing_bijective by metis
qed

section \<open>Requirements\<close>

definition requirements_without_super :: "privilege_t list" where
  "requirements_without_super =
     [PRIV_LOCK_TABLES, PRIV_IGNORE_READ_ONLY, PRIV_SET_SYSTEM_GLOBAL_VAR_READ_ONLY,
      PRIV_STMT_SHOW_BINLOG_EVENTS, PRIV_COM_REGISTER_SLAVE, PRIV_COM_BINLOG_DUMP,
      PRIV_STMT_SHOW_SLAVE_HOSTS, PRIV_STMT_SHOW_RELAYLOG_EVENTS,
      PRIV_SET_SYSTEM_GLOBAL_VAR_SLAVE_MAX_STATEMENT_TIME, PRIV_COM_PROCESS_INFO,
      PRIV_STMT_SHOW_EXPLAIN, PRIV_STMT_SHOW_ENGINE_STATUS, PRIV_STMT_SHOW_ENGINE_MUTEX,
      PRIV_STMT_SHOW_PROCESSLIST]"

text \<open>
  Every requirement the header names can be met and only by known privileges: it is a
  non-empty subset of \<^verbatim>\<open>GLOBAL_ACLS\<close>, which is exactly the set of all bits up to the last one.
  The levels are nested, and the highest bit of the enumeration is the one
  \<^verbatim>\<open>PRIVILEGE_T_MAX_BIT\<close> asserts. \<^verbatim>\<open>SUPER_ACL\<close> alone meets every requirement except the fourteen
  of \<open>requirements_without_super\<close>.
\<close>

theorem privilege_sets_consistent:
  "(\<forall>r \<in> set requirements. r \<noteq> NO_ACL \<and> acl_subset r GLOBAL_ACLS) \<and>
   GLOBAL_ACLS = ALL_KNOWN_ACL \<and> unat ALL_KNOWN_ACL = 2 ^ (unat PRIVILEGE_T_MAX_BIT + 1) - 1 \<and>
   acl_subset COL_ACLS TABLE_ACLS \<and> acl_subset TABLE_ACLS DB_ACLS \<and>
   acl_subset PROC_ACLS DB_ACLS \<and> acl_subset DB_ACLS GLOBAL_ACLS \<and>
   acl_subset TMP_TABLE_ACLS SHOW_CREATE_TABLE_ACLS \<and>
   filter (\<lambda>r. privilege_and r SUPER_ACL = NO_ACL) requirements = requirements_without_super"
proof (intro conjI)
  show "\<forall>r \<in> set requirements. r \<noteq> NO_ACL \<and> acl_subset r GLOBAL_ACLS"
    by (simp add: requirements_def acl_subset_def privilege_and_def privilege_not_def flag_defs)
  show "GLOBAL_ACLS = ALL_KNOWN_ACL" by (simp add: acl_values)
  show "unat ALL_KNOWN_ACL = 2 ^ (unat PRIVILEGE_T_MAX_BIT + 1) - 1"
    by (simp add: flag_defs my_bit_log2_uint64_def my_bit_log2_uint32_def
        my_bit_log2_uint16_def my_bit_log2_uint8_def my_bit_log2_hex_digit_def)
  show "filter (\<lambda>r. privilege_and r SUPER_ACL = NO_ACL) requirements = requirements_without_super"
    by (simp add: requirements_def requirements_without_super_def privilege_and_def flag_defs)
qed (simp_all add: acl_subset_def privilege_and_def privilege_not_def flag_defs)

theorem privilege_sets_consistent_witness:
  "PRIV_STMT_BINLOG \<in> set requirements \<and> acl_subset PRIV_STMT_BINLOG ALL_KNOWN_ACL"
proof -
  have "PRIV_STMT_BINLOG \<in> set requirements" by (simp add: requirements_def)
  then show ?thesis using privilege_sets_consistent by metis
qed

end
