(* ===== verification/Sql_Basic_Types.thy ===== *)
theory Sql_Basic_Types
  imports Prelude
begin

text \<open>
  The date conversion and rounding modes of \<^verbatim>\<open>sql_basic_types.h\<close>. Each of the three classes wraps
  an unscoped enumeration stored in 32 bits; a class is a datatype with one constructor, so that
  the modes of different kinds stay apart as in the source. Storing a \<^verbatim>\<open>ulonglong\<close> keeps its
  low 32 bits. An operand of an enumeration type is promoted to a signed 32-bit integer, so
  \<^verbatim>\<open>operator~\<close> sign-extends. A constructor whose debug assertion fails is \<^const>\<open>None\<close>.
\<close>

type_synonym sql_mode_t = ulonglong
type_synonym query_id_t = longlong

datatype enum_nullability = NOT_NULL | NULLABLE

section \<open>Data type conversion flags\<close>

definition CONV_NONE :: "32 word" where [flag_defs]: "CONV_NONE = 0"
definition FUZZY_DATES :: "32 word" where [flag_defs]: "FUZZY_DATES = 1"
definition TIME_ONLY :: "32 word" where [flag_defs]: "TIME_ONLY = 4"
definition INTERVAL_hhmmssff :: "32 word" where [flag_defs]: "INTERVAL_hhmmssff = 8"
definition INTERVAL_DAY :: "32 word" where [flag_defs]: "INTERVAL_DAY = 16"
definition RANGE0_LAST :: "32 word" where [flag_defs]: "RANGE0_LAST = INTERVAL_DAY"
definition NO_ZERO_IN_DATE :: "32 word" where [flag_defs]: "NO_ZERO_IN_DATE = push_bit 23 1"
definition NO_ZERO_DATE :: "32 word" where [flag_defs]: "NO_ZERO_DATE = push_bit 24 1"
definition INVALID_DATES :: "32 word" where [flag_defs]: "INVALID_DATES = push_bit 25 1"

definition conv_KNOWN_MODES :: "32 word" where [flag_defs]:
  "conv_KNOWN_MODES = FUZZY_DATES OR TIME_ONLY OR INTERVAL_hhmmssff OR INTERVAL_DAY OR
     NO_ZERO_IN_DATE OR NO_ZERO_DATE OR INVALID_DATES"

datatype date_conv_mode_t = Date_conv_mode (conv_m_mode: "32 word")

definition date_conv_mode :: "ulonglong \<Rightarrow> date_conv_mode_t" where
  "date_conv_mode fuzzydate = Date_conv_mode (ucast fuzzydate)"

definition conv_ulonglong :: "date_conv_mode_t \<Rightarrow> ulonglong" where
  "conv_ulonglong m = ucast (conv_m_mode m)"

definition conv_bool :: "date_conv_mode_t \<Rightarrow> bool" where
  "conv_bool m \<longleftrightarrow> conv_m_mode m \<noteq> 0"

definition conv_not :: "date_conv_mode_t \<Rightarrow> ulonglong" where
  "conv_not m = scast (NOT (conv_m_mode m))"

definition conv_and :: "date_conv_mode_t \<Rightarrow> date_conv_mode_t \<Rightarrow> date_conv_mode_t" where
  "conv_and m other = date_conv_mode (scast (conv_m_mode m AND conv_m_mode other))"

definition conv_and_ulonglong :: "date_conv_mode_t \<Rightarrow> ulonglong \<Rightarrow> date_conv_mode_t" where
  "conv_and_ulonglong m other = date_conv_mode (scast (conv_m_mode m) AND other)"

definition conv_or :: "date_conv_mode_t \<Rightarrow> date_conv_mode_t \<Rightarrow> date_conv_mode_t" where
  "conv_or m other = date_conv_mode (scast (conv_m_mode m OR conv_m_mode other))"

definition conv_and_assign :: "date_conv_mode_t \<Rightarrow> date_conv_mode_t \<Rightarrow> date_conv_mode_t" where
  "conv_and_assign m other = Date_conv_mode (conv_m_mode m AND conv_m_mode other)"

definition conv_or_assign :: "date_conv_mode_t \<Rightarrow> date_conv_mode_t \<Rightarrow> date_conv_mode_t" where
  "conv_or_assign m other = Date_conv_mode (conv_m_mode m OR conv_m_mode other)"

section \<open>Rounding modes\<close>

definition FRAC_NONE :: "32 word" where [flag_defs]: "FRAC_NONE = 0"
definition FRAC_TRUNCATE :: "32 word" where [flag_defs]: "FRAC_TRUNCATE = push_bit 1 RANGE0_LAST"
definition FRAC_ROUND :: "32 word" where [flag_defs]: "FRAC_ROUND = push_bit 2 RANGE0_LAST"

definition round_KNOWN_MODES :: "32 word" where [flag_defs]:
  "round_KNOWN_MODES = FRAC_TRUNCATE OR FRAC_ROUND"

datatype time_round_mode_t = Time_round_mode (round_m_mode: "32 word")

definition time_round_mode :: "ulonglong \<Rightarrow> time_round_mode_t option" where
  "time_round_mode mode =
     (if mode = ucast FRAC_NONE \<or> mode = ucast FRAC_TRUNCATE \<or> mode = ucast FRAC_ROUND
      then Some (Time_round_mode (ucast mode)) else None)"

definition round_ulonglong :: "time_round_mode_t \<Rightarrow> ulonglong" where
  "round_ulonglong m = ucast (round_m_mode m)"

definition round_mode :: "time_round_mode_t \<Rightarrow> 32 word" where
  "round_mode m = round_m_mode m"

definition round_eq :: "time_round_mode_t \<Rightarrow> time_round_mode_t \<Rightarrow> bool" where
  "round_eq m other \<longleftrightarrow> round_m_mode m = round_m_mode other"

section \<open>Conversion and rounding together\<close>

text \<open>The enumerators of \<^verbatim>\<open>date_mode_t\<close> repeat those of the two classes above.\<close>

datatype date_mode_t = Date_mode (date_m_mode: "32 word")

definition date_mode :: "ulonglong \<Rightarrow> date_mode_t" where
  "date_mode fuzzydate = Date_mode (ucast fuzzydate)"

definition date_ulonglong :: "date_mode_t \<Rightarrow> ulonglong" where
  "date_ulonglong m = ucast (date_m_mode m)"

definition date_bool :: "date_mode_t \<Rightarrow> bool" where
  "date_bool m \<longleftrightarrow> date_m_mode m \<noteq> 0"

definition date_to_conv :: "date_mode_t \<Rightarrow> date_conv_mode_t" where
  "date_to_conv m = date_conv_mode (ucast (date_m_mode m) AND ucast conv_KNOWN_MODES)"

definition date_to_round :: "date_mode_t \<Rightarrow> time_round_mode_t option" where
  "date_to_round m = time_round_mode (ucast (date_m_mode m) AND ucast round_KNOWN_MODES)"

definition date_not :: "date_mode_t \<Rightarrow> ulonglong" where
  "date_not m = scast (NOT (date_m_mode m))"

definition date_is_zero :: "date_mode_t \<Rightarrow> bool" where
  "date_is_zero m \<longleftrightarrow> date_m_mode m = 0"

definition date_and :: "date_mode_t \<Rightarrow> date_mode_t \<Rightarrow> date_mode_t" where
  "date_and m other = date_mode (scast (date_m_mode m AND date_m_mode other))"

definition date_and_ulonglong :: "date_mode_t \<Rightarrow> ulonglong \<Rightarrow> date_mode_t" where
  "date_and_ulonglong m other = date_mode (scast (date_m_mode m) AND other)"

definition date_or :: "date_mode_t \<Rightarrow> date_mode_t \<Rightarrow> date_mode_t" where
  "date_or m other = date_mode (scast (date_m_mode m OR date_m_mode other))"

definition date_and_assign :: "date_mode_t \<Rightarrow> date_mode_t \<Rightarrow> date_mode_t" where
  "date_and_assign m other = Date_mode (date_m_mode m AND date_m_mode other)"

definition date_or_assign :: "date_mode_t \<Rightarrow> date_mode_t \<Rightarrow> date_mode_t" where
  "date_or_assign m other = Date_mode (date_m_mode m OR date_m_mode other)"

definition date_or_assign_conv :: "date_mode_t \<Rightarrow> date_conv_mode_t \<Rightarrow> date_mode_t" where
  "date_or_assign_conv m other = Date_mode (ucast (scast (date_m_mode m) OR conv_ulonglong other))"

section \<open>Operators on mixtures\<close>

definition date_or_conv :: "date_mode_t \<Rightarrow> date_conv_mode_t \<Rightarrow> date_mode_t" where
  "date_or_conv a b = date_mode (date_ulonglong a OR conv_ulonglong b)"

definition conv_or_round :: "date_conv_mode_t \<Rightarrow> time_round_mode_t \<Rightarrow> date_mode_t" where
  "conv_or_round a b = date_mode (conv_ulonglong a OR round_ulonglong b)"

definition conv_or_date :: "date_conv_mode_t \<Rightarrow> date_mode_t \<Rightarrow> date_mode_t" where
  "conv_or_date a b = date_mode (conv_ulonglong a OR date_ulonglong b)"

definition date_and_conv :: "date_mode_t \<Rightarrow> date_conv_mode_t \<Rightarrow> date_conv_mode_t" where
  "date_and_conv a b = date_conv_mode (date_ulonglong a AND conv_ulonglong b)"

definition conv_and_date :: "date_conv_mode_t \<Rightarrow> date_mode_t \<Rightarrow> date_conv_mode_t" where
  "conv_and_date a b = date_conv_mode (conv_ulonglong a AND date_ulonglong b)"

definition sql_mode_and_conv :: "sql_mode_t \<Rightarrow> date_conv_mode_t \<Rightarrow> date_conv_mode_t" where
  "sql_mode_and_conv a b = date_conv_mode (a AND conv_ulonglong b)"

section \<open>Named modes\<close>

definition TIME_CONV_NONE where "TIME_CONV_NONE = date_conv_mode (ucast CONV_NONE)"
definition TIME_FUZZY_DATES where "TIME_FUZZY_DATES = date_conv_mode (ucast FUZZY_DATES)"
definition TIME_TIME_ONLY where "TIME_TIME_ONLY = date_conv_mode (ucast TIME_ONLY)"
definition TIME_INTERVAL_hhmmssff where
  "TIME_INTERVAL_hhmmssff = date_conv_mode (ucast INTERVAL_hhmmssff)"
definition TIME_INTERVAL_DAY where "TIME_INTERVAL_DAY = date_conv_mode (ucast INTERVAL_DAY)"
definition TIME_NO_ZERO_IN_DATE where
  "TIME_NO_ZERO_IN_DATE = date_conv_mode (ucast NO_ZERO_IN_DATE)"
definition TIME_NO_ZERO_DATE where "TIME_NO_ZERO_DATE = date_conv_mode (ucast NO_ZERO_DATE)"
definition TIME_INVALID_DATES where "TIME_INVALID_DATES = date_conv_mode (ucast INVALID_DATES)"

definition TIME_NO_ZEROS where
  "TIME_NO_ZEROS = date_conv_mode (ucast (NO_ZERO_DATE OR NO_ZERO_IN_DATE))"

definition TIME_MODE_FOR_XXX_TO_DATE where
  "TIME_MODE_FOR_XXX_TO_DATE =
     date_conv_mode (ucast (NO_ZERO_IN_DATE OR NO_ZERO_DATE OR INVALID_DATES))"

definition TIME_FRAC_NONE where "TIME_FRAC_NONE = time_round_mode (ucast FRAC_NONE)"
definition TIME_FRAC_TRUNCATE where "TIME_FRAC_TRUNCATE = time_round_mode (ucast FRAC_TRUNCATE)"
definition TIME_FRAC_ROUND where "TIME_FRAC_ROUND = time_round_mode (ucast FRAC_ROUND)"

section \<open>Operators on the stored bits\<close>

lemma ucast_scast_32 [simp]: "(ucast (scast (w :: 32 word) :: 64 word) :: 32 word) = w"
  by (rule bit_word_eqI) (auto simp: bit_simps)

lemma ucast_ucast_32 [simp]: "(ucast (ucast (w :: 32 word) :: 64 word) :: 32 word) = w"
  by (rule bit_word_eqI) (auto simp: bit_simps)

lemma ucast_and [simp]: "(ucast (a AND b) :: 32 word) = ucast a AND ucast b" for a b :: "64 word"
  by (rule bit_word_eqI) (auto simp: bit_simps)

lemma ucast_or [simp]: "(ucast (a OR b) :: 32 word) = ucast a OR ucast b" for a b :: "64 word"
  by (rule bit_word_eqI) (auto simp: bit_simps)

lemma conv_modes [simp]:
  "conv_m_mode (date_conv_mode x) = ucast x"
  "conv_m_mode (conv_and m n) = conv_m_mode m AND conv_m_mode n"
  "conv_m_mode (conv_or m n) = conv_m_mode m OR conv_m_mode n"
  "conv_m_mode (conv_and_ulonglong m x) = conv_m_mode m AND ucast x"
  by (simp_all add: date_conv_mode_def conv_and_def conv_or_def conv_and_ulonglong_def)

lemma date_modes [simp]:
  "date_m_mode (date_mode x) = ucast x"
  "date_m_mode (date_and d e) = date_m_mode d AND date_m_mode e"
  "date_m_mode (date_or d e) = date_m_mode d OR date_m_mode e"
  "date_m_mode (conv_or_round m r) = conv_m_mode m OR round_m_mode r"
  "date_m_mode (date_or_conv d m) = date_m_mode d OR conv_m_mode m"
  "date_m_mode (conv_or_date m d) = conv_m_mode m OR date_m_mode d"
  "date_m_mode (date_or_assign_conv d m) = date_m_mode d OR conv_m_mode m"
  "conv_m_mode (date_to_conv d) = date_m_mode d AND conv_KNOWN_MODES"
  by (simp_all add: date_mode_def date_and_def date_or_def conv_or_round_def date_or_conv_def
      conv_or_date_def conv_ulonglong_def round_ulonglong_def date_ulonglong_def
      date_or_assign_conv_def date_to_conv_def)

interpretation conv: flag_set "\<lambda>m. bit (conv_m_mode m)" conv_and conv_or
proof
  fix a b :: date_conv_mode_t
  assume "\<And>n. bit (conv_m_mode a) n = bit (conv_m_mode b) n"
  then show "a = b" by (intro date_conv_mode_t.expand bit_eqI) simp
qed (simp_all add: bit_simps)

interpretation date: flag_set "\<lambda>d. bit (date_m_mode d)" date_and date_or
proof
  fix a b :: date_mode_t
  assume "\<And>n. bit (date_m_mode a) n = bit (date_m_mode b) n"
  then show "a = b" by (intro date_mode_t.expand bit_eqI) simp
qed (simp_all add: bit_simps)

section \<open>Splitting a mode\<close>

lemma modes_disjoint: "conv_KNOWN_MODES AND round_KNOWN_MODES = 0"
  by (simp add: flag_defs)

lemma known_modes_values:
  "conv_KNOWN_MODES = 0x380001D" "round_KNOWN_MODES = 0x60" "FRAC_NONE = 0"
  "FRAC_TRUNCATE = 0x20" "FRAC_ROUND = 0x40"
  by (simp_all add: flag_defs)

text \<open>The value a rounding mode can have once its constructor's assertion holds.\<close>

definition valid_round :: "time_round_mode_t \<Rightarrow> bool" where
  "valid_round r \<longleftrightarrow> round_m_mode r \<in> {FRAC_NONE, FRAC_TRUNCATE, FRAC_ROUND}"

lemma ucast_32_64_inj [simp]: "(ucast (a :: 32 word) :: 64 word) = ucast b \<longleftrightarrow> a = b"
  by (metis ucast_ucast_32)

lemma time_round_mode_ucast:
  "time_round_mode (ucast w) = (if w \<in> {FRAC_NONE, FRAC_TRUNCATE, FRAC_ROUND}
     then Some (Time_round_mode w) else None)" for w :: "32 word"
  by (simp add: time_round_mode_def del: ucast_0 unsigned_0)

lemma time_round_mode_valid: "time_round_mode x = Some r \<Longrightarrow> valid_round r"
  by (auto simp: time_round_mode_def valid_round_def split: if_splits)

lemma ucast_and_64: "(ucast (a AND b) :: 64 word) = ucast a AND ucast b" for a b :: "32 word"
  by (rule bit_word_eqI) (auto simp: bit_simps)

lemma date_to_round_mode:
  "date_to_round d = (let w = date_m_mode d AND round_KNOWN_MODES in
     if w \<in> {FRAC_NONE, FRAC_TRUNCATE, FRAC_ROUND} then Some (Time_round_mode w) else None)"
  by (simp add: date_to_round_def ucast_and_64 [symmetric] time_round_mode_ucast Let_def
      del: insert_iff)

lemma and_subset_absorb:
  fixes a b k l :: "32 word"
  assumes "a AND k = a" and "b AND l = b" and "k AND l = 0"
  shows "(a OR b) AND k = a" and "(a OR b) AND l = b"
proof -
  have "bit a n \<longrightarrow> bit k n" "bit b n \<longrightarrow> bit l n" "\<not> (bit k n \<and> bit l n)" for n
    using assms by (metis bit_0_eq bit_and_iff bot_apply bot_bool_def)+
  then show "(a OR b) AND k = a" "(a OR b) AND l = b"
    by (simp_all add: bit_eq_iff bit_simps) blast+
qed

lemma round_bits:
  assumes "valid_round r"
  shows "round_m_mode r AND round_KNOWN_MODES = round_m_mode r"
  using assms by (auto simp: valid_round_def known_modes_values)

lemma round_mode_cases:
  "w AND 0x60 \<in> {0, 0x20, 0x40} \<longleftrightarrow> \<not> (bit w 5 \<and> bit w 6)" for w :: "32 word"
proof -
  have "w AND 0x60 = (if bit w 5 then 0x20 else 0) OR (if bit w 6 then 0x40 else 0)"
  proof (rule bit_word_eqI)
    fix n
    assume "n < LENGTH(32)"
    have "bit (0x60 :: 32 word) n \<longleftrightarrow> n = 5 \<or> n = 6"
      "bit (0x20 :: 32 word) n \<longleftrightarrow> n = 5" "bit (0x40 :: 32 word) n \<longleftrightarrow> n = 6"
      using bit_or_iff [of "2 ^ 5 :: 32 word" "2 ^ 6" n] bit_exp_iff [where ?'a = "32 word", of 5 n]
        bit_exp_iff [where ?'a = "32 word", of 6 n] by auto
    then show "bit (w AND 0x60) n =
        bit ((if bit w 5 then 0x20 else 0) OR (if bit w 6 then 0x40 else 0) :: 32 word) n"
      by (auto simp: bit_simps)
  qed
  then show ?thesis by auto
qed

text \<open>
  A \<^verbatim>\<open>date_mode_t\<close> is exactly a conversion mode plus a rounding mode: combining a known
  conversion mode with a valid rounding mode and converting back gives both parts, every
  mode of known bits is the combination of its two parts, and extracting the rounding mode
  violates the constructor's assertion only when both rounding flags are set.
\<close>

theorem date_mode_split:
  "(conv_m_mode c AND conv_KNOWN_MODES = conv_m_mode c \<and> valid_round r \<longrightarrow>
      date_to_conv (conv_or_round c r) = c \<and> date_to_round (conv_or_round c r) = Some r) \<and>
   (date_m_mode d AND (conv_KNOWN_MODES OR round_KNOWN_MODES) = date_m_mode d \<and>
      date_to_round d = Some s \<longrightarrow> conv_or_round (date_to_conv d) s = d \<and> valid_round s) \<and>
   (date_to_round d = None \<longleftrightarrow> bit (date_m_mode d) 5 \<and> bit (date_m_mode d) 6)"
proof (intro conjI impI; (elim conjE)?)
  assume c: "conv_m_mode c AND conv_KNOWN_MODES = conv_m_mode c" and r: "valid_round r"
  note abs = and_subset_absorb [OF c round_bits [OF r] modes_disjoint]
  show "date_to_conv (conv_or_round c r) = c"
    by (rule date_conv_mode_t.expand) (simp add: abs)
  show "date_to_round (conv_or_round c r) = Some r"
    using r by (simp add: date_to_round_mode abs valid_round_def)
next
  assume d: "date_m_mode d AND (conv_KNOWN_MODES OR round_KNOWN_MODES) = date_m_mode d"
    and s: "date_to_round d = Some s"
  have "round_m_mode s = date_m_mode d AND round_KNOWN_MODES"
    using s by (auto simp: date_to_round_mode Let_def split: if_splits)
  then have "date_m_mode (conv_or_round (date_to_conv d) s) = date_m_mode d"
    using d by (simp add: bit.conj_disj_distrib)
  then show "conv_or_round (date_to_conv d) s = d" by (rule date_mode_t.expand)
  show "valid_round s" using s unfolding date_to_round_def by (rule time_round_mode_valid)
next
  show "date_to_round d = None \<longleftrightarrow> bit (date_m_mode d) 5 \<and> bit (date_m_mode d) 6"
    using round_mode_cases [of "date_m_mode d"]
    by (simp add: date_to_round_mode Let_def known_modes_values del: insert_iff)
qed

theorem date_mode_split_witness:
  "valid_round (Time_round_mode 0x40) \<and>
   date_to_conv (conv_or_round TIME_NO_ZEROS (Time_round_mode 0x40)) = TIME_NO_ZEROS \<and>
   date_to_round (Date_mode 0x1000021) = Some (Time_round_mode 0x20) \<and>
   conv_or_round (Date_conv_mode 0x1000001) (Time_round_mode 0x20) = Date_mode 0x1000021"
proof -
  have r: "valid_round (Time_round_mode 0x40)" by (simp add: valid_round_def flag_defs)
  have c: "conv_m_mode TIME_NO_ZEROS AND conv_KNOWN_MODES = conv_m_mode TIME_NO_ZEROS"
    by (simp add: TIME_NO_ZEROS_def flag_defs)
  have s: "date_to_round (Date_mode 0x1000021) = Some (Time_round_mode 0x20)"
    by (simp add: date_to_round_mode known_modes_values)
  have t: "date_to_conv (Date_mode 0x1000021) = Date_conv_mode 0x1000001"
    by (simp add: date_to_conv_def date_conv_mode_def flag_defs)
  have d: "date_m_mode (Date_mode 0x1000021) AND (conv_KNOWN_MODES OR round_KNOWN_MODES) =
      date_m_mode (Date_mode 0x1000021)" by (simp add: flag_defs)
  show ?thesis
    using date_mode_split [of TIME_NO_ZEROS "Time_round_mode 0x40" "Date_mode 0x1000021"
        "Time_round_mode 0x20"] r c s t d by simp
qed

text \<open>
  The complement of a mode, converted to \<^verbatim>\<open>ulonglong\<close> through a signed promotion, is a mask
  that clears the flags of that mode and nothing else: applied to a 64-bit \<^verbatim>\<open>sql_mode_t\<close> it keeps
  all other 64 bits, and applied to a mode it removes exactly the flags given.
\<close>

theorem mode_complement_clears_flags:
  assumes "unat (conv_m_mode m) < 2 ^ 31"
  shows "bit (a AND conv_not m) n = (bit a n \<and> \<not> bit (conv_ulonglong m) n) \<and>
     bit (conv_m_mode (conv_and_ulonglong c (conv_not m))) n =
       (bit (conv_m_mode c) n \<and> \<not> bit (conv_m_mode m) n)"
proof -
  note hi = high_bits_clear [OF assms]
  have "bit (conv_not m) n \<longleftrightarrow> n < 64 \<and> \<not> bit (conv_ulonglong m) n"
    using hi [of 31] hi [of n]
    by (auto simp: conv_not_def conv_ulonglong_def bit_simps min_def)
  moreover have "ucast (conv_not m) = NOT (conv_m_mode m)"
    unfolding conv_not_def by (rule ucast_scast_32)
  ultimately show ?thesis
    using bit_word_lt [of a n] bit_word_lt [of "conv_m_mode c" n] by (auto simp: bit_simps)
qed

theorem mode_complement_clears_flags_witness:
  "unat (conv_m_mode TIME_NO_ZERO_DATE) < 2 ^ 31 \<and>
   bit (0x8000000001000000 AND conv_not TIME_NO_ZERO_DATE) 63 \<and>
   \<not> bit (0x8000000001000000 AND conv_not TIME_NO_ZERO_DATE) 24"
proof -
  have m: "unat (conv_m_mode TIME_NO_ZERO_DATE) < 2 ^ 31"
    by (simp add: TIME_NO_ZERO_DATE_def flag_defs)
  have u: "conv_ulonglong TIME_NO_ZERO_DATE = 0x1000000"
    by (simp add: TIME_NO_ZERO_DATE_def conv_ulonglong_def flag_defs)
  show ?thesis
    using m u mode_complement_clears_flags [OF m, of "0x8000000001000000" 63]
      mode_complement_clears_flags [OF m, of "0x8000000001000000" 24] by simp
qed

end
