(* ===== verification/Lifo_Buffer.thy ===== *)
theory Lifo_Buffer
  imports Prelude "HOL-Library.Monad_Syntax"
begin

text \<open>
  The in-memory LIFO buffers of \<^verbatim>\<open>sql_lifo_buffer.h\<close>. Memory is a function from addresses to bytes,
  a pointer is an integer address (0 is the null pointer), and a buffer is the record of the
  members of \<^verbatim>\<open>Lifo_buffer\<close> together with the member \<^verbatim>\<open>pos\<close> that both subclasses declare and
  the dynamic type that the virtual methods dispatch on. An operation whose debug assertion
  fails returns \<^const>\<open>None\<close>. Address arithmetic does not wrap: a pointer outside the memory object
  has no meaning in the source either.
\<close>

section \<open>Memory\<close>

type_synonym ptr = int
type_synonym mem = "ptr \<Rightarrow> uchar"

definition memcpy :: "mem \<Rightarrow> ptr \<Rightarrow> ptr \<Rightarrow> nat \<Rightarrow> mem" where
  "memcpy m dst src n = (\<lambda>a. if dst \<le> a \<and> a < dst + int n then m (src + (a - dst)) else m a)"

text \<open>\<^verbatim>\<open>TRASH_ALLOC\<close> overwrites the memory when the build defines \<^verbatim>\<open>TRASH_FREED_MEMORY\<close>.\<close>

definition TRASH_ALLOC :: "bool \<Rightarrow> ptr \<Rightarrow> nat \<Rightarrow> mem \<Rightarrow> mem" where
  "TRASH_ALLOC trash_freed_memory p n m =
     (if trash_freed_memory then (\<lambda>a. if p \<le> a \<and> a < p + int n then 0xA5 else m a) else m)"

definition bytes_at :: "mem \<Rightarrow> ptr \<Rightarrow> nat \<Rightarrow> uchar list" where
  "bytes_at m p n = map (\<lambda>i. m (p + int i)) [0..<n]"

section \<open>The buffer\<close>

datatype enum_direction = BACKWARD | FORWARD

record lifo_buffer =
  direction :: enum_direction
  size1 :: nat
  size2 :: nat
  write_ptr1 :: ptr
  write_ptr2 :: ptr
  read_ptr1 :: ptr
  read_ptr2 :: ptr
  buf_start :: ptr
  buf_end :: ptr
  pos :: ptr

subsection \<open>Forward_lifo_buffer\<close>

definition forward_used_size :: "lifo_buffer \<Rightarrow> nat" where
  "forward_used_size b = nat (pos b - buf_start b)"

definition forward_reset :: "lifo_buffer \<Rightarrow> lifo_buffer" where
  "forward_reset b = b\<lparr>pos := buf_start b\<rparr>"

definition forward_end_of_space :: "lifo_buffer \<Rightarrow> ptr" where
  "forward_end_of_space b = pos b"

definition forward_have_space_for :: "lifo_buffer \<Rightarrow> nat \<Rightarrow> bool" where
  "forward_have_space_for b bytes \<longleftrightarrow> pos b + int bytes < buf_end b"

definition forward_write_bytes ::
  "lifo_buffer \<Rightarrow> mem \<Rightarrow> ptr \<Rightarrow> nat \<Rightarrow> (lifo_buffer \<times> mem) option" where
  "forward_write_bytes b m data bytes =
     (if forward_have_space_for b bytes
      then Some (b\<lparr>pos := pos b + int bytes\<rparr>, memcpy m (pos b) data bytes) else None)"

definition forward_write :: "lifo_buffer \<Rightarrow> mem \<Rightarrow> (lifo_buffer \<times> mem) option" where
  "forward_write b m =
     do {
       (b1, m1) \<leftarrow> forward_write_bytes b m (write_ptr1 b) (size1 b);
       if size2 b \<noteq> 0 then forward_write_bytes b1 m1 (write_ptr2 b1) (size2 b1) else Some (b1, m1)
     }"

definition forward_have_data :: "lifo_buffer \<Rightarrow> ptr \<Rightarrow> nat \<Rightarrow> bool" where
  "forward_have_data b position bytes \<longleftrightarrow> position - buf_start b \<ge> int bytes"

text \<open>The new position and the returned pointer.\<close>

definition forward_read_bytes :: "lifo_buffer \<Rightarrow> ptr \<Rightarrow> nat \<Rightarrow> (ptr \<times> ptr) option" where
  "forward_read_bytes b position bytes =
     (if forward_have_data b position bytes
      then Some (position - int bytes, position - int bytes) else None)"

text \<open>The result, and the new values of the position and of the two pointers.\<close>

definition forward_read_at ::
  "lifo_buffer \<Rightarrow> ptr \<Rightarrow> ptr \<Rightarrow> ptr \<Rightarrow> (bool \<times> ptr \<times> ptr \<times> ptr) option" where
  "forward_read_at b position ptr1 ptr2 =
     (if \<not> forward_have_data b position (size1 b + size2 b) then Some (True, position, ptr1, ptr2)
      else do {
        (position, ptr2) \<leftarrow>
          (if size2 b \<noteq> 0 then forward_read_bytes b position (size2 b) else Some (position, ptr2));
        (position, ptr1) \<leftarrow> forward_read_bytes b position (size1 b);
        Some (False, position, ptr1, ptr2)
      })"

definition forward_remove_unused_space :: "lifo_buffer \<Rightarrow> (lifo_buffer \<times> ptr \<times> ptr) option" where
  "forward_remove_unused_space b = None"

definition forward_grow ::
  "bool \<Rightarrow> lifo_buffer \<Rightarrow> mem \<Rightarrow> ptr \<Rightarrow> ptr \<Rightarrow> (lifo_buffer \<times> mem) option" where
  "forward_grow trash b m unused_start unused_end =
     (if unused_end \<ge> unused_start \<and> buf_end b = unused_start
      then Some (b\<lparr>buf_end := unused_end\<rparr>,
                 TRASH_ALLOC trash unused_start (nat (unused_end - unused_start)) m)
      else None)"

definition forward_used_area :: "lifo_buffer \<Rightarrow> ptr" where
  "forward_used_area b = buf_start b"

subsection \<open>Backward_lifo_buffer\<close>

definition backward_used_size :: "lifo_buffer \<Rightarrow> nat" where
  "backward_used_size b = nat (buf_end b - pos b)"

definition backward_reset :: "lifo_buffer \<Rightarrow> lifo_buffer" where
  "backward_reset b = b\<lparr>pos := buf_end b\<rparr>"

definition backward_end_of_space :: "lifo_buffer \<Rightarrow> ptr" where
  "backward_end_of_space b = buf_end b"

definition backward_have_space_for :: "lifo_buffer \<Rightarrow> nat \<Rightarrow> bool" where
  "backward_have_space_for b bytes \<longleftrightarrow> pos b - int bytes \<ge> buf_start b"

definition backward_write_bytes ::
  "lifo_buffer \<Rightarrow> mem \<Rightarrow> ptr \<Rightarrow> nat \<Rightarrow> (lifo_buffer \<times> mem) option" where
  "backward_write_bytes b m data bytes =
     (if backward_have_space_for b bytes
      then Some (b\<lparr>pos := pos b - int bytes\<rparr>, memcpy m (pos b - int bytes) data bytes) else None)"

definition backward_write :: "lifo_buffer \<Rightarrow> mem \<Rightarrow> (lifo_buffer \<times> mem) option" where
  "backward_write b m =
     do {
       (b1, m1) \<leftarrow> (if write_ptr2 b \<noteq> 0 then backward_write_bytes b m (write_ptr2 b) (size2 b)
                   else Some (b, m));
       backward_write_bytes b1 m1 (write_ptr1 b1) (size1 b1)
     }"

definition backward_have_data :: "lifo_buffer \<Rightarrow> ptr \<Rightarrow> nat \<Rightarrow> bool" where
  "backward_have_data b position bytes \<longleftrightarrow> buf_end b - position \<ge> int bytes"

definition backward_read_bytes :: "lifo_buffer \<Rightarrow> ptr \<Rightarrow> nat \<Rightarrow> (ptr \<times> ptr) option" where
  "backward_read_bytes b position bytes =
     (if backward_have_data b position bytes then Some (position + int bytes, position) else None)"

definition backward_read_at ::
  "lifo_buffer \<Rightarrow> ptr \<Rightarrow> ptr \<Rightarrow> ptr \<Rightarrow> (bool \<times> ptr \<times> ptr \<times> ptr) option" where
  "backward_read_at b position ptr1 ptr2 =
     (if \<not> backward_have_data b position (size1 b + size2 b) then Some (True, position, ptr1, ptr2)
      else do {
        (position, ptr1) \<leftarrow> backward_read_bytes b position (size1 b);
        (position, ptr2) \<leftarrow>
          (if size2 b \<noteq> 0 then backward_read_bytes b position (size2 b) else Some (position, ptr2));
        Some (False, position, ptr1, ptr2)
      })"

text \<open>The buffer, and the bounds of the space it gives up.\<close>

definition backward_remove_unused_space :: "lifo_buffer \<Rightarrow> (lifo_buffer \<times> ptr \<times> ptr) option" where
  "backward_remove_unused_space b = Some (b\<lparr>buf_start := pos b\<rparr>, buf_start b, pos b)"

definition backward_grow ::
  "bool \<Rightarrow> lifo_buffer \<Rightarrow> mem \<Rightarrow> ptr \<Rightarrow> ptr \<Rightarrow> (lifo_buffer \<times> mem) option" where
  "backward_grow trash b m unused_start unused_end = None"

definition backward_used_area :: "lifo_buffer \<Rightarrow> ptr" where
  "backward_used_area b = pos b"

subsection \<open>Virtual methods\<close>

definition used_size :: "lifo_buffer \<Rightarrow> nat" where
  "used_size b = (case direction b of FORWARD \<Rightarrow> forward_used_size b | BACKWARD \<Rightarrow> backward_used_size b)"

definition reset :: "lifo_buffer \<Rightarrow> lifo_buffer" where
  "reset b = (case direction b of FORWARD \<Rightarrow> forward_reset b | BACKWARD \<Rightarrow> backward_reset b)"

definition have_space_for :: "lifo_buffer \<Rightarrow> nat \<Rightarrow> bool" where
  "have_space_for b n =
     (case direction b of FORWARD \<Rightarrow> forward_have_space_for b n | BACKWARD \<Rightarrow> backward_have_space_for b n)"

definition lifo_write :: "lifo_buffer \<Rightarrow> mem \<Rightarrow> (lifo_buffer \<times> mem) option" where
  "lifo_write b m =
     (case direction b of FORWARD \<Rightarrow> forward_write b m | BACKWARD \<Rightarrow> backward_write b m)"

definition read_at :: "lifo_buffer \<Rightarrow> ptr \<Rightarrow> ptr \<Rightarrow> ptr \<Rightarrow> (bool \<times> ptr \<times> ptr \<times> ptr) option" where
  "read_at b position ptr1 ptr2 =
     (case direction b of FORWARD \<Rightarrow> forward_read_at b position ptr1 ptr2
      | BACKWARD \<Rightarrow> backward_read_at b position ptr1 ptr2)"

definition used_area :: "lifo_buffer \<Rightarrow> ptr" where
  "used_area b = (case direction b of FORWARD \<Rightarrow> forward_used_area b | BACKWARD \<Rightarrow> backward_used_area b)"

definition end_of_space :: "lifo_buffer \<Rightarrow> ptr" where
  "end_of_space b =
     (case direction b of FORWARD \<Rightarrow> forward_end_of_space b | BACKWARD \<Rightarrow> backward_end_of_space b)"

definition remove_unused_space :: "lifo_buffer \<Rightarrow> (lifo_buffer \<times> ptr \<times> ptr) option" where
  "remove_unused_space b =
     (case direction b of FORWARD \<Rightarrow> forward_remove_unused_space b
      | BACKWARD \<Rightarrow> backward_remove_unused_space b)"

definition get_pos :: "lifo_buffer \<Rightarrow> ptr" where
  "get_pos b = pos b"

subsection \<open>Lifo_buffer\<close>

definition set_buffer_space :: "bool \<Rightarrow> lifo_buffer \<Rightarrow> mem \<Rightarrow> ptr \<Rightarrow> ptr \<Rightarrow> lifo_buffer \<times> mem" where
  "set_buffer_space trash b m start_arg end_arg =
     (let b1 = b\<lparr>buf_start := start_arg, buf_end := end_arg\<rparr>;
          m1 = (if end_arg \<noteq> start_arg
                then TRASH_ALLOC trash start_arg (nat (end_arg - start_arg)) m else m)
      in (reset b1, m1))"

definition setup_writing :: "lifo_buffer \<Rightarrow> nat \<Rightarrow> nat \<Rightarrow> lifo_buffer" where
  "setup_writing b len1 len2 = b\<lparr>size1 := len1, size2 := len2\<rparr>"

definition setup_reading :: "lifo_buffer \<Rightarrow> nat \<Rightarrow> nat \<Rightarrow> lifo_buffer option" where
  "setup_reading b len1 len2 = (if len1 = size1 b \<and> len2 = size2 b then Some b else None)"

definition can_write :: "lifo_buffer \<Rightarrow> bool" where
  "can_write b \<longleftrightarrow> have_space_for b (size1 b + size2 b)"

definition lifo_is_empty :: "lifo_buffer \<Rightarrow> bool" where
  "lifo_is_empty b \<longleftrightarrow> used_size b = 0"

text \<open>\<^verbatim>\<open>read()\<close> of both subclasses: read at the member \<^verbatim>\<open>pos\<close> into the members \<^verbatim>\<open>read_ptr1\<close> and
  \<^verbatim>\<open>read_ptr2\<close>.\<close>

definition lifo_read :: "lifo_buffer \<Rightarrow> (bool \<times> lifo_buffer) option" where
  "lifo_read b =
     do {
       (eof, position, p1, p2) \<leftarrow> read_at b (pos b) (read_ptr1 b) (read_ptr2 b);
       Some (eof, b\<lparr>pos := position, read_ptr1 := p1, read_ptr2 := p2\<rparr>)
     }"

text \<open>\<^verbatim>\<open>my_qsort2\<close> is a parameter: it receives the base address, the number of elements, their size
  and the comparison. A zero element size divides by zero.\<close>

definition lifo_sort ::
  "(mem \<Rightarrow> ptr \<Rightarrow> nat \<Rightarrow> nat \<Rightarrow> 'cmp \<Rightarrow> mem) \<Rightarrow> lifo_buffer \<Rightarrow> mem \<Rightarrow> 'cmp \<Rightarrow> mem option" where
  "lifo_sort my_qsort2 b m cmp_func =
     (let elem_size = size1 b + size2 b
      in if elem_size = 0 then None
         else Some (my_qsort2 m (used_area b) (used_size b div elem_size) elem_size cmp_func))"

section \<open>Lifo_buffer_iterator\<close>

record lifo_buffer_iterator =
  it_pos :: ptr
  it_buf :: lifo_buffer
  it_read_ptr1 :: ptr
  it_read_ptr2 :: ptr

definition iterator_init :: "lifo_buffer_iterator \<Rightarrow> lifo_buffer \<Rightarrow> lifo_buffer_iterator" where
  "iterator_init it buf_arg = it\<lparr>it_buf := buf_arg, it_pos := get_pos buf_arg\<rparr>"

definition iterator_read :: "lifo_buffer_iterator \<Rightarrow> (bool \<times> lifo_buffer_iterator) option" where
  "iterator_read it =
     do {
       (eof, position, p1, p2) \<leftarrow> read_at (it_buf it) (it_pos it) (it_read_ptr1 it) (it_read_ptr2 it);
       Some (eof, it\<lparr>it_pos := position, it_read_ptr1 := p1, it_read_ptr2 := p2\<rparr>)
     }"

section \<open>Contents of a buffer\<close>

text \<open>
  The abstraction: a buffer holds a list of elements, the last one written first. An element is the
  pair of byte sequences; in memory the \<open>size2\<close> bytes follow the \<open>size1\<close> bytes for both kinds.
\<close>

type_synonym element = "uchar list \<times> uchar list"

definition elem_size :: "lifo_buffer \<Rightarrow> nat" where
  "elem_size b = size1 b + size2 b"

definition element :: "lifo_buffer \<Rightarrow> mem \<Rightarrow> ptr \<Rightarrow> element" where
  "element b m p = (bytes_at m p (size1 b), bytes_at m (p + int (size1 b)) (size2 b))"

definition room_from :: "lifo_buffer \<Rightarrow> ptr \<Rightarrow> int" where
  "room_from b p = (case direction b of FORWARD \<Rightarrow> p - buf_start b | BACKWARD \<Rightarrow> buf_end b - p)"

definition elem_ptr :: "lifo_buffer \<Rightarrow> ptr \<Rightarrow> nat \<Rightarrow> ptr" where
  "elem_ptr b p i =
     (case direction b of FORWARD \<Rightarrow> p - (int i + 1) * int (elem_size b)
      | BACKWARD \<Rightarrow> p + int i * int (elem_size b))"

definition contents_from :: "lifo_buffer \<Rightarrow> mem \<Rightarrow> ptr \<Rightarrow> element list" where
  "contents_from b m p =
     map (\<lambda>i. element b m (elem_ptr b p i)) [0..<nat (room_from b p) div elem_size b]"

definition contents :: "lifo_buffer \<Rightarrow> mem \<Rightarrow> element list" where
  "contents b m = contents_from b m (pos b)"

text \<open>A position between two elements.\<close>

definition aligned :: "lifo_buffer \<Rightarrow> ptr \<Rightarrow> bool" where
  "aligned b p \<longleftrightarrow> buf_start b \<le> p \<and> p \<le> buf_end b \<and> int (elem_size b) dvd room_from b p"

definition lifo_wf :: "lifo_buffer \<Rightarrow> bool" where
  "lifo_wf b \<longleftrightarrow> 0 < elem_size b \<and> aligned b (pos b)"

text \<open>The element the write pointers designate, and the one the read pointers designate.\<close>

definition source_elem :: "lifo_buffer \<Rightarrow> mem \<Rightarrow> element" where
  "source_elem b m = (bytes_at m (write_ptr1 b) (size1 b), bytes_at m (write_ptr2 b) (size2 b))"

definition read_elem :: "lifo_buffer \<Rightarrow> mem \<Rightarrow> ptr \<Rightarrow> ptr \<Rightarrow> element" where
  "read_elem b m p1 p2 =
     (bytes_at m p1 (size1 b), if size2 b = 0 then [] else bytes_at m p2 (size2 b))"

text \<open>The source of a write lies outside the buffer space, and a pair has a second part.\<close>

definition outside :: "lifo_buffer \<Rightarrow> ptr \<Rightarrow> nat \<Rightarrow> bool" where
  "outside b p n \<longleftrightarrow> p + int n \<le> buf_start b \<or> buf_end b \<le> p"

definition source_ok :: "lifo_buffer \<Rightarrow> bool" where
  "source_ok b \<longleftrightarrow> outside b (write_ptr1 b) (size1 b) \<and> outside b (write_ptr2 b) (size2 b) \<and>
     (size2 b \<noteq> 0 \<longrightarrow> write_ptr2 b \<noteq> 0)"

section \<open>Memory lemmas\<close>

lemma bytes_at_0 [simp]: "bytes_at m p 0 = []"
  by (simp add: bytes_at_def)

lemma bytes_at_cong: "(\<And>a. p \<le> a \<Longrightarrow> a < p + int n \<Longrightarrow> m a = m' a) \<Longrightarrow> bytes_at m p n = bytes_at m' p n"
  by (simp add: bytes_at_def)

lemma bytes_at_memcpy_same [simp]: "bytes_at (memcpy m dst src n) dst n = bytes_at m src n"
  by (simp add: bytes_at_def memcpy_def)

lemma bytes_at_memcpy_disjoint:
  "p + int k \<le> dst \<or> dst + int n \<le> p \<Longrightarrow> bytes_at (memcpy m dst src n) p k = bytes_at m p k"
  by (intro bytes_at_cong) (auto simp: memcpy_def)

lemma memcpy_0 [simp]: "memcpy m dst src 0 = m"
  by (rule ext) (auto simp: memcpy_def)

lemma memcpy_other: "a < dst \<or> dst + int n \<le> a \<Longrightarrow> memcpy m dst src n a = m a"
  by (auto simp: memcpy_def)

section \<open>Reading\<close>

lemma room_from_elem:
  assumes "aligned b p" and "0 < elem_size b" and "room_from b p \<noteq> 0"
  shows "int (elem_size b) \<le> room_from b p"
proof -
  have "0 \<le> room_from b p"
    using assms(1) by (auto simp: aligned_def room_from_def split: enum_direction.split)
  then show ?thesis
    using assms zdvd_imp_le [of "int (elem_size b)" "room_from b p"] by (auto simp: aligned_def)
qed

definition next_position :: "lifo_buffer \<Rightarrow> ptr \<Rightarrow> ptr" where
  "next_position b p =
     (case direction b of FORWARD \<Rightarrow> p - int (elem_size b) | BACKWARD \<Rightarrow> p + int (elem_size b))"

lemma room_from_next: "room_from b (next_position b p) = room_from b p - int (elem_size b)"
  by (simp add: room_from_def next_position_def split: enum_direction.split)

lemma contents_from_Cons:
  assumes "aligned b p" and "0 < elem_size b" and "room_from b p \<noteq> 0"
  shows "aligned b (next_position b p)"
    and "contents_from b m p = element b m (elem_ptr b p 0) # contents_from b m (next_position b p)"
proof -
  note le = room_from_elem [OF assms]
  show "aligned b (next_position b p)"
    using assms(1) le room_from_next [of b p]
    by (auto simp: aligned_def next_position_def room_from_def split: enum_direction.splits)
  let ?n = "nat (room_from b (next_position b p)) div elem_size b"
  have "nat (room_from b p) = nat (room_from b (next_position b p)) + elem_size b"
    using le by (simp add: room_from_next nat_diff_distrib)
  then have n: "nat (room_from b p) div elem_size b = Suc ?n"
    using assms(2) div_add_self2 [of "elem_size b"] by simp
  have "elem_ptr b p (Suc i) = elem_ptr b (next_position b p) i" for i
    by (simp add: elem_ptr_def next_position_def algebra_simps split: enum_direction.split)
  then show "contents_from b m p = element b m (elem_ptr b p 0) # contents_from b m (next_position b p)"
    unfolding contents_from_def n by (simp add: upt_conv_Cons map_Suc_upt [symmetric] del: upt_Suc)
qed

lemma contents_from_Nil:
  assumes "aligned b p" and "0 < elem_size b"
  shows "contents_from b m p = [] \<longleftrightarrow> room_from b p = 0"
proof (cases "room_from b p = 0")
  case True
  then show ?thesis by (simp add: contents_from_def)
next
  case False
  then show ?thesis using contents_from_Cons(2) [OF assms, of m] by simp
qed

lemma read_at_eof:
  "aligned b p \<Longrightarrow> 0 < elem_size b \<Longrightarrow> room_from b p = 0 \<Longrightarrow>
     read_at b p p1 p2 = Some (True, p, p1, p2)"
  by (cases "direction b") (auto simp: read_at_def forward_read_at_def backward_read_at_def
      forward_have_data_def backward_have_data_def room_from_def elem_size_def)

lemma read_at_element:
  assumes "aligned b p" and "0 < elem_size b" and "room_from b p \<noteq> 0"
  shows "read_at b p p1 p2 = Some (False, next_position b p, elem_ptr b p 0,
           if size2 b = 0 then p2 else elem_ptr b p 0 + int (size1 b))"
  using room_from_elem [OF assms]
  by (cases "direction b")
    (simp_all add: read_at_def forward_read_at_def backward_read_at_def forward_have_data_def
      backward_have_data_def forward_read_bytes_def backward_read_bytes_def room_from_def
      elem_ptr_def next_position_def elem_size_def)

section \<open>Writing\<close>

lemma contents_from_cong:
  assumes "aligned b p" and "0 < elem_size b"
    and same: "\<And>a. (case direction b of FORWARD \<Rightarrow> buf_start b \<le> a \<and> a < p
                       | BACKWARD \<Rightarrow> p \<le> a \<and> a < buf_end b) \<Longrightarrow> m a = m' a"
  shows "contents_from b m p = contents_from b m' p"
proof -
  define k where "k = nat (room_from b p) div elem_size b"
  have k: "room_from b p = int k * int (elem_size b)"
  proof -
    have "0 \<le> room_from b p"
      using assms(1) by (auto simp: aligned_def room_from_def split: enum_direction.split)
    moreover have "elem_size b dvd nat (room_from b p)"
      using assms(1) calculation by (simp add: aligned_def nat_dvd_iff int_dvd_int_iff [symmetric])
    ultimately show ?thesis by (simp add: k_def of_nat_mult [symmetric] del: of_nat_mult)
  qed
  have "element b m (elem_ptr b p i) = element b m' (elem_ptr b p i)" if "i < k" for i
  proof -
    obtain d where d: "d = int i * int (elem_size b)" "0 \<le> d" by simp
    have "(int i + 1) * int (elem_size b) \<le> room_from b p"
      unfolding k using that by (intro mult_right_mono) auto
    then have le: "d + int (elem_size b) \<le> room_from b p" by (simp add: d(1) algebra_simps)
    have "elem_ptr b p i =
        (case direction b of FORWARD \<Rightarrow> p - d - int (elem_size b) | BACKWARD \<Rightarrow> p + d)"
      by (simp add: elem_ptr_def d(1) algebra_simps split: enum_direction.split)
    then show ?thesis
      using le d(2) unfolding element_def
      by (cases "direction b"; intro arg_cong2 [where f = Pair] bytes_at_cong same)
        (auto simp: room_from_def elem_size_def)
  qed
  then show ?thesis by (simp add: contents_from_def k_def)
qed

text \<open>Where the next element goes, and the position after it is written.\<close>

definition prev_position :: "lifo_buffer \<Rightarrow> ptr \<Rightarrow> ptr" where
  "prev_position b p =
     (case direction b of FORWARD \<Rightarrow> p + int (elem_size b) | BACKWARD \<Rightarrow> p - int (elem_size b))"

definition write_at :: "lifo_buffer \<Rightarrow> ptr" where
  "write_at b = (case direction b of FORWARD \<Rightarrow> pos b | BACKWARD \<Rightarrow> pos b - int (elem_size b))"

lemma next_prev [simp]: "next_position b (prev_position b p) = p"
  by (simp add: next_position_def prev_position_def split: enum_direction.split)

lemma elem_ptr_prev: "elem_ptr b (prev_position b (pos b)) 0 = write_at b"
  by (simp add: elem_ptr_def prev_position_def write_at_def split: enum_direction.split)

lemma lifo_write_result:
  assumes "lifo_wf b" and "can_write b" and "source_ok b"
  obtains m' where "lifo_write b m = Some (b\<lparr>pos := prev_position b (pos b)\<rparr>, m')"
    and "element b m' (write_at b) = source_elem b m"
    and "\<And>a. a < write_at b \<or> write_at b + int (elem_size b) \<le> a \<Longrightarrow> m' a = m a"
proof -
  define p where "p = write_at b"
  define m' where "m' = (case direction b of
      FORWARD \<Rightarrow> memcpy (memcpy m p (write_ptr1 b) (size1 b)) (p + int (size1 b)) (write_ptr2 b) (size2 b)
    | BACKWARD \<Rightarrow> memcpy (memcpy m (p + int (size1 b)) (write_ptr2 b) (size2 b)) p (write_ptr1 b) (size1 b))"
  have bounds: "buf_start b \<le> p" "p + int (size1 b) + int (size2 b) \<le> buf_end b"
    using assms(1,2)
    by (auto simp: lifo_wf_def aligned_def can_write_def have_space_for_def p_def write_at_def
        forward_have_space_for_def backward_have_space_for_def elem_size_def split: enum_direction.splits)
  have src: "write_ptr1 b + int (size1 b) \<le> p \<or> p + int (size1 b) + int (size2 b) \<le> write_ptr1 b"
      "write_ptr2 b + int (size2 b) \<le> p \<or> p + int (size1 b) + int (size2 b) \<le> write_ptr2 b"
    using assms(3) bounds by (auto simp: source_ok_def outside_def)
  have "lifo_write b m = Some (b\<lparr>pos := prev_position b (pos b)\<rparr>, m')"
    using assms(2,3)
    by (cases "direction b")
      (auto simp: lifo_write_def forward_write_def backward_write_def forward_write_bytes_def
        backward_write_bytes_def can_write_def have_space_for_def forward_have_space_for_def
        backward_have_space_for_def m'_def p_def write_at_def prev_position_def elem_size_def
        source_ok_def algebra_simps)
  moreover have "element b m' p = source_elem b m"
    using src by (cases "direction b")
      (auto simp: element_def source_elem_def m'_def bytes_at_memcpy_disjoint)
  moreover have "m' a = m a" if "a < p \<or> p + int (elem_size b) \<le> a" for a
    using that by (auto simp: m'_def memcpy_other elem_size_def split: enum_direction.split)
  ultimately show ?thesis using that by (simp add: p_def)
qed

section \<open>The LIFO contract\<close>

text \<open>
  The contract a client of a buffer relies on: a successful test before a write makes the write
  succeed and puts the source element on top; a read takes the top element off, or reports the end
  without changing anything.
\<close>

text \<open>The client of \<^verbatim>\<open>read()\<close>: read until the end is reported, collecting what the read pointers
  designate. \<^const>\<open>None\<close> is a failed assertion or too little fuel.\<close>

fun drain :: "('b \<Rightarrow> (bool \<times> 'b) option) \<Rightarrow> ('b \<Rightarrow> 'e) \<Rightarrow> nat \<Rightarrow> 'b \<Rightarrow> ('e list \<times> 'b) option" where
  "drain rd get 0 b = None"
| "drain rd get (Suc fuel) b =
     (case rd b of
        None \<Rightarrow> None
      | Some (True, b1) \<Rightarrow> Some ([], b1)
      | Some (False, b1) \<Rightarrow> map_option (\<lambda>(es, b2). (get b1 # es, b2)) (drain rd get fuel b1))"

locale lifo_reader =
  fixes wf :: "'b \<Rightarrow> bool" and elems :: "'b \<Rightarrow> 'e list"
    and rd :: "'b \<Rightarrow> (bool \<times> 'b) option" and get :: "'b \<Rightarrow> 'e"
  assumes rd_empty: "wf b \<Longrightarrow> elems b = [] \<Longrightarrow> rd b = Some (True, b)"
    and rd_elem: "wf b \<Longrightarrow> elems b = e # es \<Longrightarrow>
      \<exists>b1. rd b = Some (False, b1) \<and> wf b1 \<and> elems b1 = es \<and> get b1 = e"
begin

lemma drain_all:
  "wf b \<Longrightarrow> length (elems b) < fuel \<Longrightarrow>
     \<exists>b1. drain rd get fuel b = Some (elems b, b1) \<and> wf b1 \<and> elems b1 = []"
proof (induction fuel arbitrary: b)
  case (Suc fuel)
  show ?case
  proof (cases "elems b")
    case Nil
    then show ?thesis using rd_empty [OF Suc.prems(1)] Suc.prems(1) by simp
  next
    case (Cons e es)
    then obtain b1 where b1: "rd b = Some (False, b1)" "wf b1" "elems b1 = es" "get b1 = e"
      using rd_elem [OF Suc.prems(1)] by blast
    then show ?thesis
      using Suc.IH [of b1] Suc.prems(2) Cons by auto
  qed
qed simp

lemma rd_total: "wf b \<Longrightarrow> rd b \<noteq> None"
  using rd_empty rd_elem by (metis list.exhaust option.distinct(1))

end

lemma contents_cong_read:
  "contents_from (b\<lparr>pos := p, read_ptr1 := p1, read_ptr2 := p2\<rparr>) m q = contents_from b m q"
  "aligned (b\<lparr>pos := p, read_ptr1 := p1, read_ptr2 := p2\<rparr>) q = aligned b q"
  "elem_size (b\<lparr>pos := p, read_ptr1 := p1, read_ptr2 := p2\<rparr>) = elem_size b"
  by (simp_all add: contents_from_def element_def elem_ptr_def room_from_def elem_size_def
      aligned_def cong: enum_direction.case_cong)

lemma read_elem_element:
  "read_elem b m p (if size2 b = 0 then q else p + int (size1 b)) = element b m p"
  by (simp add: read_elem_def element_def)

interpretation buf: lifo_reader lifo_wf "\<lambda>b. contents b m" lifo_read
    "\<lambda>b. read_elem b m (read_ptr1 b) (read_ptr2 b)" for m
proof
  fix b
  assume wf: "lifo_wf b" and "contents b m = []"
  then have "room_from b (pos b) = 0"
    using contents_from_Nil [of b "pos b" m] by (simp add: lifo_wf_def contents_def)
  then show "lifo_read b = Some (True, b)"
    using wf read_at_eof [of b "pos b"] by (simp add: lifo_wf_def lifo_read_def)
next
  fix b e es
  assume wf: "lifo_wf b" and c: "contents b m = e # es"
  then have wf': "aligned b (pos b)" "0 < elem_size b" "room_from b (pos b) \<noteq> 0"
    using contents_from_Nil [of b "pos b" m] by (auto simp: lifo_wf_def contents_def)
  define p where "p = elem_ptr b (pos b) 0"
  define b1 where "b1 = b\<lparr>pos := next_position b (pos b), read_ptr1 := p,
      read_ptr2 := if size2 b = 0 then read_ptr2 b else p + int (size1 b)\<rparr>"
  have "lifo_read b = Some (False, b1)"
    by (simp add: lifo_read_def read_at_element [OF wf'] b1_def p_def)
  moreover have "lifo_wf b1"
    using contents_from_Cons(1) [OF wf'] wf'(2) by (simp add: lifo_wf_def b1_def contents_cong_read)
  moreover have "contents b1 m = es"
    using contents_from_Cons(2) [OF wf', of m] c by (simp add: contents_def b1_def contents_cong_read)
  moreover have "read_elem b1 m (read_ptr1 b1) (read_ptr2 b1) = e"
    using contents_from_Cons(2) [OF wf', of m] c
    by (auto simp add: contents_def b1_def p_def read_elem_def element_def)
  ultimately show "\<exists>b1. lifo_read b = Some (False, b1) \<and> lifo_wf b1 \<and> contents b1 m = es \<and>
      read_elem b1 m (read_ptr1 b1) (read_ptr2 b1) = e"
    by blast
qed

definition iterator_wf :: "lifo_buffer_iterator \<Rightarrow> bool" where
  "iterator_wf it \<longleftrightarrow> 0 < elem_size (it_buf it) \<and> aligned (it_buf it) (it_pos it)"

interpretation iter: lifo_reader iterator_wf "\<lambda>it. contents_from (it_buf it) m (it_pos it)"
    iterator_read "\<lambda>it. read_elem (it_buf it) m (it_read_ptr1 it) (it_read_ptr2 it)" for m
proof
  fix it
  assume wf: "iterator_wf it" and "contents_from (it_buf it) m (it_pos it) = []"
  then have "room_from (it_buf it) (it_pos it) = 0"
    using contents_from_Nil [of "it_buf it" "it_pos it" m] by (simp add: iterator_wf_def)
  then show "iterator_read it = Some (True, it)"
    using wf read_at_eof [of "it_buf it" "it_pos it"] by (simp add: iterator_wf_def iterator_read_def)
next
  fix it e es
  assume wf: "iterator_wf it" and c: "contents_from (it_buf it) m (it_pos it) = e # es"
  define b where "b = it_buf it"
  have wf': "aligned b (it_pos it)" "0 < elem_size b" "room_from b (it_pos it) \<noteq> 0"
    using wf c contents_from_Nil [of b "it_pos it" m] by (auto simp: iterator_wf_def b_def)
  note cons = contents_from_Cons(2) [OF wf', of m, folded b_def]
  show "\<exists>b1. iterator_read it = Some (False, b1) \<and> iterator_wf b1 \<and>
      contents_from (it_buf b1) m (it_pos b1) = es \<and>
      read_elem (it_buf b1) m (it_read_ptr1 b1) (it_read_ptr2 b1) = e"
    using c cons contents_from_Cons(1) [OF wf'] wf'(2)
      read_elem_element [of b m "elem_ptr b (it_pos it) 0" "it_read_ptr2 it"]
    by (simp add: iterator_read_def b_def [symmetric] read_at_element [OF wf'] iterator_wf_def)
qed

lemma contents_cong_pos:
  "contents_from (b\<lparr>pos := p\<rparr>) m q = contents_from b m q" "aligned (b\<lparr>pos := p\<rparr>) q = aligned b q"
  "elem_size (b\<lparr>pos := p\<rparr>) = elem_size b"
  by (simp_all add: contents_from_def element_def elem_ptr_def room_from_def elem_size_def
      aligned_def cong: enum_direction.case_cong)

lemma room_from_prev: "room_from b (prev_position b p) = room_from b p + int (elem_size b)"
  by (simp add: room_from_def prev_position_def split: enum_direction.split)

lemma lifo_write_push:
  assumes "lifo_wf b" and "can_write b" and "source_ok b"
  shows "\<exists>b1 m1. lifo_write b m = Some (b1, m1) \<and> b1 = b\<lparr>pos := pos b1\<rparr> \<and> lifo_wf b1 \<and>
     contents b1 m1 = source_elem b m # contents b m \<and>
     (\<forall>a. a < buf_start b \<or> buf_end b \<le> a \<longrightarrow> m1 a = m a)"
proof -
  let ?q = "prev_position b (pos b)"
  obtain m1 where m1: "lifo_write b m = Some (b\<lparr>pos := ?q\<rparr>, m1)"
      "element b m1 (write_at b) = source_elem b m"
      "\<And>a. a < write_at b \<or> write_at b + int (elem_size b) \<le> a \<Longrightarrow> m1 a = m a"
    using lifo_write_result [OF assms] by blast
  have al: "aligned b (pos b)" "0 < elem_size b" using assms(1) by (auto simp: lifo_wf_def)
  have space: "buf_start b \<le> write_at b" "write_at b + int (elem_size b) \<le> buf_end b"
    using assms(2) al(1)
    by (auto simp: aligned_def can_write_def have_space_for_def forward_have_space_for_def
        backward_have_space_for_def write_at_def elem_size_def split: enum_direction.splits)
  have alq: "aligned b ?q"
    using al(1) space room_from_prev [of b "pos b"]
    by (auto simp: aligned_def prev_position_def write_at_def split: enum_direction.splits)
  have "0 \<le> room_from b (pos b)"
    using al(1) by (auto simp: aligned_def room_from_def split: enum_direction.split)
  then have room: "room_from b ?q \<noteq> 0" using al(2) by (simp add: room_from_prev)
  have "contents_from b m1 (pos b) = contents_from b m (pos b)"
    by (rule contents_from_cong [OF al]) (auto intro!: m1(3) simp: write_at_def split: enum_direction.splits)
  then have "contents_from b m1 ?q = source_elem b m # contents_from b m (pos b)"
    using contents_from_Cons(2) [OF alq al(2) room, of m1] m1(2) by (simp add: elem_ptr_prev)
  then show ?thesis
    using m1(1,3) alq al(2) space
    by (auto simp: contents_def lifo_wf_def contents_cong_pos)
qed

text \<open>The client of \<^verbatim>\<open>write()\<close>: for each pair of source addresses set the write pointers, test for space
  and write; stop with the remaining sources when there is no more space.\<close>

fun write_all :: "(ptr \<times> ptr) list \<Rightarrow> lifo_buffer \<Rightarrow> mem \<Rightarrow> ((ptr \<times> ptr) list \<times> lifo_buffer \<times> mem) option"
where
  "write_all [] b m = Some ([], b, m)"
| "write_all ((p, q) # srcs) b m =
     (let b1 = b\<lparr>write_ptr1 := p, write_ptr2 := q\<rparr>
      in if can_write b1
         then (case lifo_write b1 m of None \<Rightarrow> None | Some (b2, m2) \<Rightarrow> write_all srcs b2 m2)
         else Some ((p, q) # srcs, b, m))"

definition sources_ok :: "lifo_buffer \<Rightarrow> (ptr \<times> ptr) list \<Rightarrow> bool" where
  "sources_ok b srcs = list_all (\<lambda>(p, q). source_ok (b\<lparr>write_ptr1 := p, write_ptr2 := q\<rparr>)) srcs"

definition source_at :: "lifo_buffer \<Rightarrow> mem \<Rightarrow> ptr \<times> ptr \<Rightarrow> element" where
  "source_at b m = (\<lambda>(p, q). (bytes_at m p (size1 b), bytes_at m q (size2 b)))"

lemma write_ptrs_irrelevant:
  "lifo_wf (b\<lparr>write_ptr1 := p, write_ptr2 := q\<rparr>) = lifo_wf b"
  "contents (b\<lparr>write_ptr1 := p, write_ptr2 := q\<rparr>) m = contents b m"
  "can_write (b\<lparr>write_ptr1 := p, write_ptr2 := q\<rparr>) = can_write b"
  "source_elem (b\<lparr>write_ptr1 := p, write_ptr2 := q\<rparr>) m = source_at b m (p, q)"
  by (simp_all add: lifo_wf_def aligned_def room_from_def elem_size_def contents_def
      contents_from_def element_def elem_ptr_def can_write_def have_space_for_def
      forward_have_space_for_def backward_have_space_for_def source_elem_def source_at_def
      cong: enum_direction.case_cong)

lemma sources_ok_cong:
  assumes "size1 b = size1 b'" "size2 b = size2 b'" "buf_start b = buf_start b'" "buf_end b = buf_end b'"
  shows "sources_ok b srcs = sources_ok b' srcs" "source_at b m = source_at b' m"
  using assms by (simp_all add: sources_ok_def source_ok_def outside_def source_at_def)

lemma source_at_frame:
  assumes "sources_ok b srcs" and "\<And>a. a < buf_start b \<or> buf_end b \<le> a \<Longrightarrow> m' a = m a"
    and "s \<in> set srcs"
  shows "source_at b m' s = source_at b m s"
proof -
  obtain p q where s: "s = (p, q)" by force
  have "outside b p (size1 b)" "outside b q (size2 b)"
    using assms(1,3) s by (auto simp: sources_ok_def list_all_iff source_ok_def outside_def)
  then show ?thesis
    using assms(2) unfolding s source_at_def prod.case outside_def
    by (intro arg_cong2 [where f = Pair] bytes_at_cong) auto
qed

lemma write_all_push:
  "lifo_wf b \<Longrightarrow> sources_ok b srcs \<Longrightarrow>
     \<exists>written rest b1 m1. write_all srcs b m = Some (rest, b1, m1) \<and> srcs = written @ rest \<and>
       (rest = [] \<or> \<not> can_write b1) \<and> lifo_wf b1 \<and> size1 b1 = size1 b \<and> size2 b1 = size2 b \<and>
       contents b1 m1 = rev (map (source_at b m) written) @ contents b m"
proof (induction srcs b m rule: write_all.induct)
  case (2 p q srcs b m)
  let ?b = "b\<lparr>write_ptr1 := p, write_ptr2 := q\<rparr>"
  show ?case
  proof (cases "can_write ?b")
    case True
    have ok: "source_ok ?b" "sources_ok b srcs" using 2(3) by (auto simp: sources_ok_def)
    obtain b2 m2 where w: "lifo_write ?b m = Some (b2, m2)" "b2 = ?b\<lparr>pos := pos b2\<rparr>" "lifo_wf b2"
        "contents b2 m2 = source_at b m (p, q) # contents b m"
        "\<And>a. a < buf_start b \<or> buf_end b \<le> a \<Longrightarrow> m2 a = m a"
      using lifo_write_push [of ?b m] True 2(2) ok(1) by (auto simp: write_ptrs_irrelevant)
    have same: "size1 b2 = size1 b" "size2 b2 = size2 b" "buf_start b2 = buf_start b"
        "buf_end b2 = buf_end b"
      by (subst w(2), simp)+
    note cong = sources_ok_cong [OF same]
    obtain written rest b1 m1 where ih: "write_all srcs b2 m2 = Some (rest, b1, m1)"
        "srcs = written @ rest" "rest = [] \<or> \<not> can_write b1" "lifo_wf b1" "size1 b1 = size1 b2"
        "size2 b1 = size2 b2" "contents b1 m1 = rev (map (source_at b2 m2) written) @ contents b2 m2"
      using 2(1) [OF refl True w(1) refl w(3)] ok(2) cong(1) by blast
    have "map (source_at b2 m2) written = map (source_at b m) written"
      using source_at_frame [OF ok(2) w(5)] by (auto simp: cong(2) ih(2))
    then show ?thesis
      using ih same w(1,4) True
      by (intro exI [of _ "(p, q) # written"] exI [of _ rest] exI [of _ b1] exI [of _ m1]) simp
  next
    case False
    then show ?thesis
      using 2(2) by (intro exI [of _ "[]"] exI [of _ "(p, q) # srcs"] exI [of _ b] exI [of _ m])
        (simp add: write_ptrs_irrelevant)
  qed
qed simp

section \<open>Properties\<close>

lemma contents_length_used:
  "lifo_wf b \<Longrightarrow> used_size b = length (contents b m) * elem_size b"
proof -
  assume wf: "lifo_wf b"
  have u: "used_size b = nat (room_from b (pos b))"
    by (simp add: used_size_def room_from_def forward_used_size_def backward_used_size_def
        split: enum_direction.split)
  have "0 \<le> room_from b (pos b)"
    using wf by (auto simp: lifo_wf_def aligned_def room_from_def split: enum_direction.split)
  then have "elem_size b dvd nat (room_from b (pos b))"
    using wf by (simp add: lifo_wf_def aligned_def nat_dvd_iff int_dvd_int_iff [symmetric])
  then show ?thesis by (simp add: contents_def contents_from_def u)
qed

lemma lifo_is_empty_iff: "lifo_wf b \<Longrightarrow> lifo_is_empty b \<longleftrightarrow> contents b m = []"
  using contents_length_used [of b m] by (auto simp: lifo_is_empty_def lifo_wf_def)

text \<open>
  C35. Last in, first out, for both kinds of buffer: writing elements as long as \<^verbatim>\<open>can_write\<close> holds
  never violates an assertion and stops early only when there is no more space; reading until the
  end is reported then returns the written elements, the last one first, followed by what
  the buffer held before, and leaves the buffer empty.
\<close>

theorem lifo_round_trip:
  assumes "lifo_wf b" and "sources_ok b srcs"
  shows "\<exists>written rest b1 m1. write_all srcs b m = Some (rest, b1, m1) \<and> srcs = written @ rest \<and>
     (rest = [] \<or> \<not> can_write b1) \<and>
     (\<exists>b2. drain lifo_read (\<lambda>b. read_elem b m1 (read_ptr1 b) (read_ptr2 b))
              (length written + length (contents b m) + 1) b1
            = Some (rev (map (source_at b m) written) @ contents b m, b2) \<and> lifo_is_empty b2)"
proof -
  obtain written rest b1 m1 where w: "write_all srcs b m = Some (rest, b1, m1)" "srcs = written @ rest"
      "rest = [] \<or> \<not> can_write b1" "lifo_wf b1"
      "contents b1 m1 = rev (map (source_at b m) written) @ contents b m"
    using write_all_push [OF assms] by blast
  obtain b2 where "drain lifo_read (\<lambda>b. read_elem b m1 (read_ptr1 b) (read_ptr2 b))
      (length written + length (contents b m) + 1) b1 = Some (contents b1 m1, b2)"
      "lifo_wf b2" "contents b2 m1 = []"
    using buf.drain_all [OF w(4), of m1 "length written + length (contents b m) + 1"] w(5) by auto
  then show ?thesis
    using w lifo_is_empty_iff [of b2 m1] by auto
qed

text \<open>A forward buffer for pairs of sizes 2 and 1 in the bytes 10 to 18, with its data at 100.\<close>

definition sample_lifo :: lifo_buffer where
  "sample_lifo = \<lparr>direction = FORWARD, size1 = 2, size2 = 1, write_ptr1 = 0, write_ptr2 = 0,
     read_ptr1 = 0, read_ptr2 = 0, buf_start = 10, buf_end = 19, pos = 10\<rparr>"

definition sample_mem :: mem where
  "sample_mem = (\<lambda>a. if 100 \<le> a \<and> a < 200 then word_of_int (a - 100) else 0)"

theorem lifo_round_trip_witness:
  "\<exists>written rest b1 m1.
     write_all [(100, 102), (103, 105), (106, 108)] sample_lifo sample_mem = Some (rest, b1, m1) \<and>
     [(100, 102), (103, 105), (106, 108)] = written @ rest \<and> (rest = [] \<or> \<not> can_write b1) \<and>
     (\<exists>b2. drain lifo_read (\<lambda>b. read_elem b m1 (read_ptr1 b) (read_ptr2 b)) (length written + 1) b1
        = Some (rev (map (source_at sample_lifo sample_mem) written), b2) \<and> lifo_is_empty b2)"
proof -
  have wf: "lifo_wf sample_lifo"
    by (simp add: lifo_wf_def aligned_def room_from_def elem_size_def sample_lifo_def)
  have ok: "sources_ok sample_lifo [(100, 102), (103, 105), (106, 108)]"
    by (simp add: sources_ok_def source_ok_def outside_def sample_lifo_def)
  have e: "contents sample_lifo sample_mem = []"
    by (simp add: contents_def contents_from_def room_from_def elem_size_def sample_lifo_def)
  show ?thesis
    using lifo_round_trip [OF wf ok, of sample_mem] unfolding e by simp
qed

lemma iterator_read_buf: "iterator_read it = Some (eof, it1) \<Longrightarrow> it_buf it1 = it_buf it"
  by (auto simp: iterator_read_def split: bind_splits)

lemma drain_iterator_buf:
  "drain iterator_read get fuel it = Some (es, it1) \<Longrightarrow> it_buf it1 = it_buf it"
proof (induction fuel arbitrary: it es)
  case (Suc fuel)
  then show ?case
    by (fastforce split: option.splits bool.splits prod.splits dest: iterator_read_buf)
qed simp

text \<open>
  The iterator walks over the same elements in the order the buffer would read them, never
  violates an assertion, and leaves the buffer as it was.
\<close>

theorem lifo_iterator_walks:
  assumes "lifo_wf b"
  shows "\<exists>it1. drain iterator_read
       (\<lambda>it. read_elem (it_buf it) m (it_read_ptr1 it) (it_read_ptr2 it))
       (length (contents b m) + 1) (iterator_init it b) = Some (contents b m, it1) \<and> it_buf it1 = b"
proof -
  have "iterator_wf (iterator_init it b)"
    using assms by (simp add: iterator_wf_def iterator_init_def get_pos_def lifo_wf_def)
  then obtain it1 where d: "drain iterator_read
       (\<lambda>it. read_elem (it_buf it) m (it_read_ptr1 it) (it_read_ptr2 it))
       (length (contents b m) + 1) (iterator_init it b) = Some (contents b m, it1)"
    using iter.drain_all [of "iterator_init it b" m "length (contents b m) + 1"]
    by (auto simp: iterator_init_def get_pos_def contents_def)
  then show ?thesis
    using drain_iterator_buf [OF d] by (simp add: iterator_init_def)
qed

definition sample_backward :: lifo_buffer where
  "sample_backward = sample_lifo\<lparr>direction := BACKWARD, buf_start := 100, buf_end := 109, pos := 103\<rparr>"

theorem lifo_iterator_walks_witness:
  "\<exists>it1. drain iterator_read (\<lambda>it. read_elem (it_buf it) sample_mem (it_read_ptr1 it) (it_read_ptr2 it))
     3 (iterator_init \<lparr>it_pos = 0, it_buf = sample_lifo, it_read_ptr1 = 0, it_read_ptr2 = 0\<rparr> sample_backward)
     = Some ([([3, 4], [5]), ([6, 7], [8])], it1) \<and> it_buf it1 = sample_backward"
proof -
  have wf: "lifo_wf sample_backward"
    by (simp add: lifo_wf_def aligned_def room_from_def elem_size_def sample_backward_def sample_lifo_def)
  have c: "contents sample_backward sample_mem = [([3, 4], [5]), ([6, 7], [8])]"
    by (simp add: contents_def contents_from_def room_from_def elem_size_def element_def elem_ptr_def
        bytes_at_def sample_backward_def sample_lifo_def sample_mem_def upt_rec)
  show ?thesis
    using lifo_iterator_walks [OF wf, of sample_mem] unfolding c
    by (simp add: numeral_eq_Suc del: drain.simps)
qed

text \<open>
  Two buffers on adjacent memory can trade space: the unused space a backward buffer
  gives up is accepted by the forward buffer that ends where it starts, even when the
  allocator overwrites it; both keep their elements and stay well formed, they are adjacent
  again, and the forward buffer has gained exactly that space.
\<close>

theorem lifo_space_transfer:
  assumes "lifo_wf f" and "direction f = FORWARD" and "lifo_wf g" and "direction g = BACKWARD"
    and "buf_end f = buf_start g"
  shows "\<exists>g1 s e f1 m1. remove_unused_space g = Some (g1, s, e) \<and>
     forward_grow trash f m s e = Some (f1, m1) \<and> lifo_wf f1 \<and> lifo_wf g1 \<and>
     contents f1 m1 = contents f m \<and> contents g1 m1 = contents g m \<and>
     buf_end f1 = buf_start g1 \<and> buf_end f1 - buf_end f = e - s \<and> \<not> backward_have_space_for g1 1"
proof -
  let ?g = "g\<lparr>buf_start := pos g\<rparr>"
  let ?f = "f\<lparr>buf_end := pos g\<rparr>"
  let ?m = "TRASH_ALLOC trash (buf_start g) (nat (pos g - buf_start g)) m"
  have g: "buf_start g \<le> pos g" "pos g \<le> buf_end g" and f: "buf_start f \<le> pos f" "pos f \<le> buf_end f"
    using assms by (auto simp: lifo_wf_def aligned_def)
  have frame: "?m a = m a" if "a < buf_start g \<or> pos g \<le> a" for a
    using that g(1) by (auto simp: TRASH_ALLOC_def)
  have "contents f ?m = contents f m"
    unfolding contents_def
    by (rule contents_from_cong) (use assms f in \<open>auto simp: lifo_wf_def intro!: frame\<close>)
  moreover have "contents g ?m = contents g m"
    unfolding contents_def
    by (rule contents_from_cong) (use assms g in \<open>auto simp: lifo_wf_def intro!: frame\<close>)
  moreover have "contents ?f x = contents f x" "contents ?g x = contents g x" for x
    using assms by (simp_all add: contents_def contents_from_def element_def elem_ptr_def
        room_from_def elem_size_def cong: enum_direction.case_cong)
  moreover have "lifo_wf ?f" "lifo_wf ?g"
    using assms f g by (simp_all add: lifo_wf_def aligned_def room_from_def elem_size_def)
  ultimately show ?thesis
    using assms g by (simp add: remove_unused_space_def backward_remove_unused_space_def
        forward_grow_def backward_have_space_for_def)
qed

theorem lifo_space_transfer_witness:
  "\<exists>g1 s e f1 m1. remove_unused_space sample_backward = Some (g1, s, e) \<and>
     forward_grow True (sample_lifo\<lparr>buf_end := 100\<rparr>) sample_mem s e = Some (f1, m1) \<and>
     contents g1 m1 = contents sample_backward sample_mem \<and> buf_end f1 - 100 = e - s"
proof -
  have wf: "lifo_wf sample_backward" "lifo_wf (sample_lifo\<lparr>buf_end := 100\<rparr>)"
    by (simp_all add: lifo_wf_def aligned_def room_from_def elem_size_def sample_backward_def
        sample_lifo_def)
  have "direction (sample_lifo\<lparr>buf_end := 100\<rparr>) = FORWARD" "direction sample_backward = BACKWARD"
    "buf_end (sample_lifo\<lparr>buf_end := 100\<rparr>) = buf_start sample_backward"
    by (simp_all add: sample_backward_def sample_lifo_def)
  from lifo_space_transfer [OF wf(2) this(1) wf(1) this(2,3), of True sample_mem]
  show ?thesis by auto
qed

text \<open>
  How many elements fit: a backward buffer accepts another element exactly when the space
  holds one more, a forward buffer only when the space would not be completely filled
  (its test is strict, so the last byte is never used).
\<close>

theorem lifo_capacity:
  assumes "lifo_wf b"
  shows "can_write b \<longleftrightarrow>
    (case direction b of
       FORWARD \<Rightarrow> int ((length (contents b m) + 1) * elem_size b) < buf_end b - buf_start b
     | BACKWARD \<Rightarrow> int ((length (contents b m) + 1) * elem_size b) \<le> buf_end b - buf_start b)"
proof -
  have u: "int (used_size b) = int (length (contents b m) * elem_size b)"
    by (simp add: contents_length_used [OF assms, of m])
  have "buf_start b \<le> pos b" "pos b \<le> buf_end b" using assms by (auto simp: lifo_wf_def aligned_def)
  then show ?thesis
    using u by (auto simp: can_write_def have_space_for_def forward_have_space_for_def
        backward_have_space_for_def used_size_def forward_used_size_def backward_used_size_def
        elem_size_def algebra_simps split: enum_direction.split)
qed

theorem lifo_capacity_witness:
  "\<not> can_write (sample_lifo\<lparr>pos := 16\<rparr>) \<and> length (contents (sample_lifo\<lparr>pos := 16\<rparr>) sample_mem) = 2"
proof -
  have wf: "lifo_wf (sample_lifo\<lparr>pos := 16\<rparr>)"
    by (simp add: lifo_wf_def aligned_def room_from_def elem_size_def sample_lifo_def)
  have l: "length (contents (sample_lifo\<lparr>pos := 16\<rparr>) sample_mem) = 2"
    by (simp add: contents_def contents_from_def room_from_def elem_size_def sample_lifo_def)
  show ?thesis
    using lifo_capacity [OF wf, of sample_mem] unfolding l
    by (simp add: sample_lifo_def elem_size_def contents_def contents_from_def room_from_def)
qed

end
