(* ===== verification/Sql_List.thy ===== *)
theory Sql_List
  imports Prelude "HOL-Library.Multiset"
begin

text \<open>
  The singly linked lists of \<^verbatim>\<open>sql_list.h\<close>: \<^verbatim>\<open>base_list\<close>, its iterators, the typed \<^verbatim>\<open>List\<close> and
  \<^verbatim>\<open>bubble_sort\<close>. The store holds the members of the nodes and of the list objects. A \<^verbatim>\<open>list_node *\<close>
  and a \<^verbatim>\<open>void *\<close> are numbers, 0 being the null pointer and 1 the address of the static node
  \<^verbatim>\<open>end_of_list\<close>; a \<^verbatim>\<open>list_node **\<close> is a slot, either the member \<^verbatim>\<open>first\<close> of a list object or the
  member \<^verbatim>\<open>next\<close> of a node, so that \<^verbatim>\<open>&first\<close> and \<^verbatim>\<open>&node->next\<close> are compared as in the source.
  The address that \<^verbatim>\<open>new\<close> returns is an argument (null when the allocation fails). The element
  count keeps its 32 bits. A loop over the nodes is a partial function whose value is
  \<^const>\<open>None\<close> if it does not end.
\<close>

section \<open>The store\<close>

type_synonym node = nat
type_synonym data = nat
type_synonym list_id = nat

abbreviation NULL :: nat where "NULL \<equiv> 0"
abbreviation end_of_list :: node where "end_of_list \<equiv> Suc 0"

datatype slot = First list_id | Next node

record base_list =
  first :: node
  last_slot :: slot
  elements :: uint

record store =
  nxt :: "node \<Rightarrow> node"
  info :: "node \<Rightarrow> data"
  lst :: "list_id \<Rightarrow> base_list"

definition get_slot :: "store \<Rightarrow> slot \<Rightarrow> node" where
  "get_slot st s = (case s of First l \<Rightarrow> first (lst st l) | Next n \<Rightarrow> nxt st n)"

definition put_list :: "store \<Rightarrow> list_id \<Rightarrow> base_list \<Rightarrow> store" where
  "put_list st l b = st\<lparr>lst := (lst st)(l := b)\<rparr>"

definition set_slot :: "store \<Rightarrow> slot \<Rightarrow> node \<Rightarrow> store" where
  "set_slot st s v = (case s of First l \<Rightarrow> put_list st l ((lst st l)\<lparr>first := v\<rparr>)
                      | Next n \<Rightarrow> st\<lparr>nxt := (nxt st)(n := v)\<rparr>)"

definition set_last :: "store \<Rightarrow> list_id \<Rightarrow> slot \<Rightarrow> store" where
  "set_last st l s = put_list st l ((lst st l)\<lparr>last_slot := s\<rparr>)"

definition set_elements :: "store \<Rightarrow> list_id \<Rightarrow> uint \<Rightarrow> store" where
  "set_elements st l n = put_list st l ((lst st l)\<lparr>elements := n\<rparr>)"

definition set_info :: "store \<Rightarrow> node \<Rightarrow> data \<Rightarrow> store" where
  "set_info st n d = st\<lparr>info := (info st)(n := d)\<rparr>"

text \<open>The constructor of a node at the address that \<^verbatim>\<open>new\<close> returned; nothing happens when it is null.\<close>

definition list_node :: "store \<Rightarrow> node \<Rightarrow> data \<Rightarrow> node \<Rightarrow> store" where
  "list_node st a info_par next_par =
     (if a = NULL then st else set_info (set_slot st (Next a) next_par) a info_par)"

text \<open>\<^verbatim>\<open>delete\<close> of a node overwrites it in builds that trash freed memory.\<close>

definition delete_node :: "bool \<Rightarrow> store \<Rightarrow> node \<Rightarrow> store" where
  "delete_node trash_freed_memory st n =
     (if trash_freed_memory
      then set_info (set_slot st (Next n) 0x8F8F8F8F8F8F8F8F) n 0x8F8F8F8F8F8F8F8F else st)"

section \<open>base_list\<close>

definition base_list_eq :: "store \<Rightarrow> list_id \<Rightarrow> list_id \<Rightarrow> bool" where
  "base_list_eq st this rhs \<longleftrightarrow>
     elements (lst st this) = elements (lst st rhs) \<and> first (lst st this) = first (lst st rhs) \<and>
     last_slot (lst st this) = last_slot (lst st rhs)"

definition base_list_assign :: "store \<Rightarrow> list_id \<Rightarrow> list_id \<Rightarrow> store" where
  "base_list_assign st this rhs =
     put_list st this \<lparr>first = first (lst st rhs),
       last_slot = (if elements (lst st rhs) \<noteq> 0 then last_slot (lst st rhs) else First this),
       elements = elements (lst st rhs)\<rparr>"

definition empty :: "store \<Rightarrow> list_id \<Rightarrow> store" where
  "empty st this = put_list st this \<lparr>first = end_of_list, last_slot = First this, elements = 0\<rparr>"

definition is_empty :: "store \<Rightarrow> list_id \<Rightarrow> bool" where
  "is_empty st this \<longleftrightarrow> first (lst st this) = end_of_list"

definition push_back :: "store \<Rightarrow> list_id \<Rightarrow> data \<Rightarrow> node \<Rightarrow> bool \<times> store" where
  "push_back st this data a =
     (let st = list_node st a data end_of_list;
          st = set_slot st (last_slot (lst st this)) a
      in if a \<noteq> NULL
         then let st = set_last st this (Next (get_slot st (last_slot (lst st this))))
              in (False, set_elements st this (elements (lst st this) + 1))
         else (True, st))"

definition push_front_impl :: "store \<Rightarrow> list_id \<Rightarrow> node \<Rightarrow> bool \<times> store" where
  "push_front_impl st this nd =
     (if nd \<noteq> NULL
      then let st = (if last_slot (lst st this) = First this then set_last st this (Next nd) else st);
               st = set_slot st (First this) nd
           in (False, set_elements st this (elements (lst st this) + 1))
      else (True, st))"

definition push_front :: "store \<Rightarrow> list_id \<Rightarrow> data \<Rightarrow> node \<Rightarrow> bool \<times> store" where
  "push_front st this data a =
     push_front_impl (list_node st a data (first (lst st this))) this a"

definition list_remove :: "bool \<Rightarrow> store \<Rightarrow> list_id \<Rightarrow> slot \<Rightarrow> store" where
  "list_remove trash st this prev =
     (let victim = get_slot st prev;
          nd = nxt st victim;
          st = set_elements st this (elements (lst st this) - 1);
          st = (if elements (lst st this) = 0 then set_last st this (First this)
                else if last_slot (lst st this) = Next victim then set_last st this prev else st);
          st = delete_node trash st victim
      in set_slot st prev nd)"

definition append :: "store \<Rightarrow> list_id \<Rightarrow> list_id \<Rightarrow> store" where
  "append st this other =
     (if \<not> is_empty st other
      then if is_empty st this then base_list_assign st this other
           else let st = set_slot st (last_slot (lst st this)) (first (lst st other));
                    st = set_last st this (last_slot (lst st other))
                in set_elements st this (elements (lst st this) + elements (lst st other))
      else st)"

definition pop :: "store \<Rightarrow> list_id \<Rightarrow> data \<times> store" where
  "pop st this =
     (if first (lst st this) = end_of_list then (NULL, st)
      else let tmp = first (lst st this);
               st = set_slot st (First this) (nxt st tmp);
               st = set_elements st this (elements (lst st this) - 1);
               st = (if elements (lst st this) = 0 then set_last st this (First this) else st)
           in (info st tmp, st))"

text \<open>The loop of \<^verbatim>\<open>disjoin\<close> returns whether it left the method, the slot \<^verbatim>\<open>prev\<close> and the count.\<close>

partial_function (option) disjoin_loop ::
  "store \<Rightarrow> node \<Rightarrow> slot \<Rightarrow> node \<Rightarrow> uint \<Rightarrow> (bool \<times> slot \<times> uint) option" where
  "disjoin_loop st list_first prev nd n =
     (if nd \<noteq> end_of_list \<and> nd \<noteq> list_first
      then if nxt st nd = end_of_list then Some (True, Next nd, n + 1)
           else disjoin_loop st list_first (Next nd) (nxt st nd) (n + 1)
      else Some (False, prev, n))"

definition disjoin :: "store \<Rightarrow> list_id \<Rightarrow> list_id \<Rightarrow> store option" where
  "disjoin st this other =
     (case disjoin_loop st (first (lst st other)) (First this) (first (lst st this)) 0 of
        None \<Rightarrow> None
      | Some (True, prev, n) \<Rightarrow> Some (set_elements st this n)
      | Some (False, prev, n) \<Rightarrow>
          Some (set_last (set_slot (set_elements st this n) prev end_of_list) this prev))"

definition prepend :: "store \<Rightarrow> list_id \<Rightarrow> list_id \<Rightarrow> store" where
  "prepend st this other =
     (if \<not> is_empty st other
      then let st = (if is_empty st this then set_last st this (last_slot (lst st other)) else st);
               st = set_slot st (last_slot (lst st other)) (first (lst st this));
               st = set_slot st (First this) (first (lst st other))
           in set_elements st this (elements (lst st this) + elements (lst st other))
      else st)"

definition swap :: "store \<Rightarrow> list_id \<Rightarrow> list_id \<Rightarrow> store" where
  "swap st this rhs =
     (let rhs_last = last_slot (lst st rhs);
          f1 = first (lst st this); f2 = first (lst st rhs);
          st = set_slot (set_slot st (First this) f2) (First rhs) f1;
          e1 = elements (lst st this); e2 = elements (lst st rhs);
          st = set_elements (set_elements st this e2) rhs e1;
          st = set_last st rhs (if last_slot (lst st this) = First this then First rhs
                                else last_slot (lst st this))
      in set_last st this (if rhs_last = First rhs then First this else rhs_last))"

definition last_node :: "store \<Rightarrow> list_id \<Rightarrow> node" where
  "last_node st this = get_slot st (last_slot (lst st this))"

definition first_node :: "store \<Rightarrow> list_id \<Rightarrow> node" where
  "first_node st this = first (lst st this)"

definition head :: "store \<Rightarrow> list_id \<Rightarrow> data" where
  "head st this = info st (first (lst st this))"

text \<open>A \<^verbatim>\<open>void **\<close> is the node whose member \<^verbatim>\<open>info\<close> it points to.\<close>

definition head_ref :: "store \<Rightarrow> list_id \<Rightarrow> node" where
  "head_ref st this = (if first (lst st this) \<noteq> end_of_list then first (lst st this) else NULL)"

definition last_ref :: "store \<Rightarrow> list_id \<Rightarrow> node" where
  "last_ref st this = end_of_list"

partial_function (option) add_unique_loop ::
  "store \<Rightarrow> (data \<Rightarrow> data \<Rightarrow> bool) \<Rightarrow> data \<Rightarrow> node \<Rightarrow> node option" where
  "add_unique_loop st eq data nd =
     (if nd \<noteq> end_of_list \<and> \<not> eq (info st nd) data then add_unique_loop st eq data (nxt st nd)
      else Some nd)"

definition add_unique ::
  "store \<Rightarrow> list_id \<Rightarrow> data \<Rightarrow> (data \<Rightarrow> data \<Rightarrow> bool) \<Rightarrow> node \<Rightarrow> (bool \<times> store) option" where
  "add_unique st this data eq a =
     (case add_unique_loop st eq data (first (lst st this)) of
        None \<Rightarrow> None
      | Some nd \<Rightarrow> Some (if nd = end_of_list then push_back st this data a else (True, st)))"

text \<open>The loop of \<^verbatim>\<open>elem\<close> runs from \<^verbatim>\<open>i\<close> to \<open>n\<close>; the first argument is the number of rounds left.\<close>

fun elem_loop :: "nat \<Rightarrow> store \<Rightarrow> node \<Rightarrow> data \<Rightarrow> data" where
  "elem_loop 0 st nd d = d"
| "elem_loop (Suc k) st nd d =
     (if nd = end_of_list then NULL else elem_loop k st (nxt st nd) (info st nd))"

definition elem :: "store \<Rightarrow> list_id \<Rightarrow> uint \<Rightarrow> data" where
  "elem st this n = elem_loop (unat n + 1) st (first (lst st this)) NULL"

partial_function (option) check_list_loop :: "store \<Rightarrow> node \<Rightarrow> uint \<Rightarrow> (node \<times> uint) option option" where
  "check_list_loop st nd cnt =
     (if nxt st nd \<noteq> end_of_list
      then if info st nd = NULL then Some None else check_list_loop st (nxt st nd) (cnt + 1)
      else Some (Some (nd, cnt)))"

definition check_list :: "store \<Rightarrow> list_id \<Rightarrow> bool option" where
  "check_list st this =
     (case check_list_loop st (first (lst st this)) 0 of
        None \<Rightarrow> None
      | Some None \<Rightarrow> Some False
      | Some (Some (nd, cnt)) \<Rightarrow>
          Some (if last_slot (lst st this) \<noteq> Next nd then False
                else if cnt + 1 \<noteq> elements (lst st this) then False else True))"

definition list_after :: "store \<Rightarrow> list_id \<Rightarrow> data \<Rightarrow> node \<Rightarrow> node \<Rightarrow> store" where
  "list_after st this data nd new_node =
     (let st = list_node st new_node data (nxt st nd);
          st = set_slot st (Next nd) new_node;
          st = set_elements st this (elements (lst st this) + 1)
      in if last_slot (lst st this) = Next nd then set_last st this (Next new_node) else st)"

section \<open>base_list_iterator\<close>

text \<open>The null value of \<^verbatim>\<open>prev\<close> and \<^verbatim>\<open>el\<close> is \<^const>\<open>None\<close>.\<close>

record list_iterator =
  it_list :: list_id
  el :: slot
  prev :: "slot option"
  current :: node

definition it_init :: "list_id \<Rightarrow> list_iterator" where
  "it_init list_par = \<lparr>it_list = list_par, el = First list_par, prev = None, current = NULL\<rparr>"

definition sublist :: "store \<Rightarrow> list_iterator \<Rightarrow> list_id \<Rightarrow> uint \<Rightarrow> store" where
  "sublist st it ls elm =
     put_list st ls \<lparr>first = get_slot st (el it), last_slot = last_slot (lst st (it_list it)),
       elements = elm\<rparr>"

definition it_next :: "store \<Rightarrow> list_iterator \<Rightarrow> data \<times> list_iterator" where
  "it_next st it =
     (let c = get_slot st (el it)
      in (info st c, it\<lparr>prev := Some (el it), current := c, el := Next c\<rparr>))"

definition it_peek :: "store \<Rightarrow> list_iterator \<Rightarrow> data" where
  "it_peek st it = info st (get_slot st (el it))"

definition next_fast :: "store \<Rightarrow> list_iterator \<Rightarrow> data \<times> list_iterator" where
  "next_fast st it =
     (let tmp = get_slot st (el it) in (info st tmp, it\<lparr>el := Next tmp\<rparr>))"

definition rewind :: "list_iterator \<Rightarrow> list_iterator" where
  "rewind it = it\<lparr>el := First (it_list it)\<rparr>"

text \<open>The debug assertion makes replacing at a null element \<^const>\<open>None\<close>.\<close>

definition it_replace :: "store \<Rightarrow> list_iterator \<Rightarrow> data \<Rightarrow> (data \<times> store) option" where
  "it_replace st it element =
     (if info st (current it) \<noteq> NULL
      then Some (info st (current it), set_info st (current it) element) else None)"

definition it_replace_list :: "store \<Rightarrow> list_iterator \<Rightarrow> list_id \<Rightarrow> data \<times> store" where
  "it_replace_list st it new_list =
     (let c = current it; this = it_list it; ret_value = info st c
      in if \<not> is_empty st new_list
         then let st = set_slot st (last_slot (lst st new_list)) (nxt st c);
                  st = set_info st c (info st (first (lst st new_list)));
                  st = set_slot st (Next c) (nxt st (first (lst st new_list)));
                  st = (if last_slot (lst st this) = Next c \<and> elements (lst st new_list) > 1
                        then set_last st this (last_slot (lst st new_list)) else st)
              in (ret_value,
                  set_elements st this (elements (lst st this) + (elements (lst st new_list) - 1)))
         else (ret_value, st))"

text \<open>Removing needs a previous call of \<^verbatim>\<open>next\<close>: without it \<^verbatim>\<open>prev\<close> is null.\<close>

definition it_remove :: "bool \<Rightarrow> store \<Rightarrow> list_iterator \<Rightarrow> (store \<times> list_iterator) option" where
  "it_remove trash st it =
     (case prev it of
        None \<Rightarrow> None
      | Some p \<Rightarrow> Some (list_remove trash st (it_list it) p, it\<lparr>el := p, current := NULL\<rparr>))"

definition it_after :: "store \<Rightarrow> list_iterator \<Rightarrow> data \<Rightarrow> node \<Rightarrow> store \<times> list_iterator" where
  "it_after st it element a =
     (let st = list_after st (it_list it) element (current it) a;
          c = nxt st (current it)
      in (st, it\<lparr>current := c, el := Next c\<rparr>))"

definition it_ref :: "list_iterator \<Rightarrow> node" where
  "it_ref it = current it"

definition it_is_last :: "store \<Rightarrow> list_iterator \<Rightarrow> bool" where
  "it_is_last st it \<longleftrightarrow> el it = Next (last_ref st (it_list it))"

definition at_end :: "list_iterator \<Rightarrow> bool" where
  "at_end it \<longleftrightarrow> current it = end_of_list"

section \<open>bubble_sort\<close>

partial_function (option) bubble_inner ::
  "(data \<Rightarrow> data \<Rightarrow> int) \<Rightarrow> store \<Rightarrow> list_iterator \<Rightarrow> data \<Rightarrow> node \<Rightarrow> node \<Rightarrow> bool \<Rightarrow>
   (store \<times> list_iterator \<times> node \<times> bool) option" where
  "bubble_inner sort_func st it item1 ref1 stop_ref swapped =
     (let (item2, it) = it_next st it; ref2 = it_ref it
      in if item2 \<noteq> NULL \<and> ref2 \<noteq> stop_ref
         then if sort_func item1 item2 > 0
              then bubble_inner sort_func (set_info (set_info st ref1 item2) ref2 item1) it item1 ref2
                     stop_ref True
              else bubble_inner sort_func st it item2 ref2 stop_ref swapped
         else Some (st, it, ref1, swapped))"

partial_function (option) bubble_outer ::
  "(data \<Rightarrow> data \<Rightarrow> int) \<Rightarrow> store \<Rightarrow> list_iterator \<Rightarrow> node \<Rightarrow> store option" where
  "bubble_outer sort_func st it ref1 =
     (let stop_ref = ref1; (item1, it) = it_next st it
      in case bubble_inner sort_func st it item1 (it_ref it) stop_ref False of
           None \<Rightarrow> None
         | Some (st, it, ref1, swapped) \<Rightarrow>
             if swapped then bubble_outer sort_func st (rewind it) ref1 else Some st)"

definition bubble_sort :: "store \<Rightarrow> list_id \<Rightarrow> (data \<Rightarrow> data \<Rightarrow> int) \<Rightarrow> store option" where
  "bubble_sort st list_to_sort sort_func = bubble_outer sort_func st (it_init list_to_sort) NULL"

section \<open>List\<close>

text \<open>The typed wrapper adds the following to the operations above. \<^verbatim>\<open>delete_elements\<close> deletes the
  data of each node; the model returns the pointers it deletes, in order.\<close>

partial_function (option) delete_elements_loop :: "store \<Rightarrow> node \<Rightarrow> data list option" where
  "delete_elements_loop st element =
     (if element \<noteq> end_of_list
      then Option.bind (delete_elements_loop st (nxt st element)) (\<lambda>ds. Some (info st element # ds))
      else Some [])"

definition delete_elements :: "store \<Rightarrow> list_id \<Rightarrow> (data list \<times> store) option" where
  "delete_elements st this =
     map_option (\<lambda>ds. (ds, empty st this)) (delete_elements_loop st (first (lst st this)))"

text \<open>\<^verbatim>\<open>make\<close> allocates the list object (\<^const>\<open>None\<close> when that fails) and its first node.\<close>

definition make :: "store \<Rightarrow> list_id option \<Rightarrow> data \<Rightarrow> node \<Rightarrow> list_id option \<times> store" where
  "make st res d a =
     (case res of
        None \<Rightarrow> (None, st)
      | Some l \<Rightarrow> (case push_back (empty st l) l d a of
                    (True, st) \<Rightarrow> (None, st) | (False, st) \<Rightarrow> (Some l, st)))"

text \<open>\<^verbatim>\<open>List::Iterator\<close> is a node; advancing past the end violates an assertion.\<close>

definition list_begin :: "store \<Rightarrow> list_id \<Rightarrow> node" where
  "list_begin st this = first (lst st this)"

definition list_end :: node where
  "list_end = end_of_list"

definition iterator_inc :: "store \<Rightarrow> node \<Rightarrow> node option" where
  "iterator_inc st nd = (if nd \<noteq> end_of_list then Some (nxt st nd) else None)"

text \<open>A range-based loop over a \<^verbatim>\<open>List\<close>: the data it visits.\<close>

partial_function (option) range_for :: "store \<Rightarrow> node \<Rightarrow> data list option" where
  "range_for st nd =
     (if nd \<noteq> list_end
      then Option.bind (iterator_inc st nd)
             (\<lambda>nd1. Option.bind (range_for st nd1) (\<lambda>ds. Some (info st nd # ds)))
      else Some [])"

text \<open>\<^verbatim>\<open>list_copy_and_replace_each_value\<close>: \<open>clone\<close> stands for the virtual method of the elements.\<close>

partial_function (option) list_copy_loop ::
  "(data \<Rightarrow> data) \<Rightarrow> store \<Rightarrow> list_iterator \<Rightarrow> store option" where
  "list_copy_loop clone st it =
     (let (d, it) = it_next st it
      in if d \<noteq> NULL
         then case it_replace st it (clone d) of
                None \<Rightarrow> None
              | Some (old, st) \<Rightarrow> list_copy_loop clone st it
         else Some st)"

definition list_copy_and_replace_each_value :: "(data \<Rightarrow> data) \<Rightarrow> store \<Rightarrow> list_id \<Rightarrow> store option" where
  "list_copy_and_replace_each_value clone st l = list_copy_loop clone st (it_init l)"

section \<open>Chains of slots\<close>

named_theorems store_simps \<open>effect of the updates on the members\<close>

lemma get_slot_simps [simp]: "get_slot st (First l) = first (lst st l)" "get_slot st (Next n) = nxt st n"
  by (simp_all add: get_slot_def)

lemma get_set_slot [simp]: "get_slot (set_slot st s v) t = (if s = t then v else get_slot st t)"
  by (auto simp: set_slot_def put_list_def split: slot.splits)

lemma set_slot_members [store_simps]:
  "nxt (set_slot st s v) n = (if s = Next n then v else nxt st n)"
  "info (set_slot st s v) = info st" "lst (set_slot st (Next n) v) = lst st"
  "s \<noteq> First l \<Longrightarrow> lst (set_slot st s v) l = lst st l"
  "first (lst (set_slot st s v) l) = (if s = First l then v else first (lst st l))"
  "last_slot (lst (set_slot st s v) k) = last_slot (lst st k)"
  "elements (lst (set_slot st s v) k) = elements (lst st k)"
  by (auto simp: set_slot_def put_list_def split: slot.split)

lemma set_last_members [store_simps]:
  "nxt (set_last st l s) = nxt st" "info (set_last st l s) = info st"
  "lst (set_last st l s) = (lst st)(l := (lst st l)\<lparr>last_slot := s\<rparr>)"
  "get_slot (set_last st l s) t = get_slot st t"
  by (auto simp: set_last_def put_list_def split: slot.split intro!: arg_cong [where f = first])
    (cases t; simp)

lemma set_elements_members [store_simps]:
  "nxt (set_elements st l n) = nxt st" "info (set_elements st l n) = info st"
  "lst (set_elements st l n) = (lst st)(l := (lst st l)\<lparr>elements := n\<rparr>)"
  "get_slot (set_elements st l n) t = get_slot st t"
  by (simp_all add: set_elements_def put_list_def) (cases t; simp)

lemma set_info_members [store_simps]:
  "nxt (set_info st n d) = nxt st" "info (set_info st n d) = (info st)(n := d)"
  "lst (set_info st n d) = lst st" "get_slot (set_info st n d) t = get_slot st t"
  by (simp_all add: set_info_def) (cases t; simp)

lemma put_list_members [store_simps]:
  "nxt (put_list st l b) = nxt st" "info (put_list st l b) = info st"
  "lst (put_list st l b) = (lst st)(l := b)"
  by (simp_all add: put_list_def)

text \<open>\<open>chain st s ns e\<close>: the slot \<open>s\<close> holds the first of the nodes \<open>ns\<close>, each node's \<^verbatim>\<open>next\<close> the
  following one, and the last slot holds \<open>e\<close>. \<open>end_slot s ns\<close> is that last slot.\<close>

fun chain :: "store \<Rightarrow> slot \<Rightarrow> node list \<Rightarrow> node \<Rightarrow> bool" where
  "chain st s [] e \<longleftrightarrow> get_slot st s = e"
| "chain st s (n # ns) e \<longleftrightarrow> get_slot st s = n \<and> chain st (Next n) ns e"

fun end_slot :: "slot \<Rightarrow> node list \<Rightarrow> slot" where
  "end_slot s [] = s"
| "end_slot s (n # ns) = end_slot (Next n) ns"

lemma end_slot_append [simp]: "end_slot s (xs @ ys) = end_slot (end_slot s xs) ys"
  by (induction s xs rule: end_slot.induct) simp_all

lemma end_slot_last: "end_slot s ns = (if ns = [] then s else Next (last ns))"
  by (induction s ns rule: end_slot.induct) auto

lemma end_slot_in: "end_slot s ns \<in> set (s # map Next ns)"
  by (induction s ns rule: end_slot.induct) auto

lemma chain_end: "chain st s ns e \<Longrightarrow> get_slot st (end_slot s ns) = e"
  by (induction s ns rule: end_slot.induct) auto

lemma chain_append: "chain st s (xs @ ys) e \<longleftrightarrow>
    chain st s xs (get_slot st (end_slot s xs)) \<and> chain st (end_slot s xs) ys e"
  by (induction s xs rule: end_slot.induct) auto

lemma chain_cong:
  "(\<And>t. t \<in> set (s # map Next ns) \<Longrightarrow> get_slot st t = get_slot st' t) \<Longrightarrow>
     chain st s ns e = chain st' s ns e"
  by (induction s ns rule: end_slot.induct) simp_all

lemma chain_set_end:
  "chain st s ns e \<Longrightarrow> distinct (s # map Next ns) \<Longrightarrow> chain (set_slot st (end_slot s ns) v) s ns v"
proof (induction s ns rule: end_slot.induct)
  case (2 s n ns)
  have "end_slot (Next n) ns \<noteq> s"
    using end_slot_in [of "Next n" ns] 2(3) by auto
  then show ?case using 2 by simp
qed simp

lemma chain_set_other:
  "t \<noteq> s \<Longrightarrow> \<forall>n\<in>set ns. t \<noteq> Next n \<Longrightarrow> chain (set_slot st t v) s ns e = chain st s ns e"
  by (rule chain_cong) auto

lemma chain_set_Next [simp]:
  "a \<notin> set ns \<Longrightarrow> s \<noteq> Next a \<Longrightarrow> chain (set_slot st (Next a) v) s ns e = chain st s ns e"
  by (rule chain_set_other) auto

lemma chain_set_First [simp]:
  "s \<noteq> First l \<Longrightarrow> chain (set_slot st (First l) v) s ns e = chain st s ns e"
  by (rule chain_set_other) auto

lemma chain_start: "chain st s ns e \<Longrightarrow> get_slot st s = hd (ns @ [e])"
  by (cases ns) auto

lemma chain_frame [simp]:
  "chain (set_last st l t) s ns e = chain st s ns e"
  "chain (set_elements st l k) s ns e = chain st s ns e"
  "chain (set_info st n d) s ns e = chain st s ns e"
  by (rule chain_cong, simp add: store_simps)+

lemma chain_put_list [simp]: "s \<noteq> First l \<Longrightarrow> chain (put_list st l b) s ns e = chain st s ns e"
  by (rule chain_cong) (auto simp: get_slot_def put_list_def split: slot.split)

section \<open>Representation of a list\<close>

text \<open>The static node is its own successor and holds no data.\<close>

definition store_ok :: "store \<Rightarrow> bool" where
  "store_ok st \<longleftrightarrow> nxt st end_of_list = end_of_list \<and> info st end_of_list = NULL"

definition nodes_ok :: "node list \<Rightarrow> bool" where
  "nodes_ok ns \<longleftrightarrow> distinct ns \<and> NULL \<notin> set ns \<and> end_of_list \<notin> set ns"

text \<open>The invariant: list object \<open>l\<close> is linked through the nodes \<open>ns\<close>.\<close>

definition rep :: "store \<Rightarrow> list_id \<Rightarrow> node list \<Rightarrow> bool" where
  "rep st l ns \<longleftrightarrow> store_ok st \<and> nodes_ok ns \<and> chain st (First l) ns end_of_list \<and>
     last_slot (lst st l) = end_slot (First l) ns \<and> unat (elements (lst st l)) = length ns"

definition data_of :: "store \<Rightarrow> node list \<Rightarrow> data list" where
  "data_of st ns = map (info st) ns"

lemma slots_distinct: "nodes_ok ns \<Longrightarrow> distinct (First l # map Next ns)"
  by (auto simp: nodes_ok_def distinct_map inj_on_def)

lemma rep_slots: "rep st l ns \<Longrightarrow> distinct (First l # map Next ns)"
  unfolding rep_def by (intro slots_distinct) simp

lemma rep_first: "rep st l ns \<Longrightarrow> first (lst st l) = hd (ns @ [end_of_list])"
  using chain_start [of st "First l" ns end_of_list] by (simp add: rep_def)

lemma rep_is_empty: "rep st l ns \<Longrightarrow> is_empty st l \<longleftrightarrow> ns = []"
  using rep_first [of st l ns] by (cases ns) (auto simp: is_empty_def rep_def nodes_ok_def)

lemma uint_inc: "unat n + 1 < 2 ^ 32 \<Longrightarrow> unat (n + 1) = unat n + 1" for n :: uint
  by (simp add: unat_word_ariths)

lemma uint_dec: "0 < unat n \<Longrightarrow> unat (n - 1) = unat n - 1" for n :: uint
  by (metis One_nat_def Suc_leI unat_minus_one word_neq_0_conv unat_gt_0 less_numeral_extra(3))

section \<open>The contract of an update\<close>

text \<open>\<open>same_except l N st st'\<close>: only the list object \<open>l\<close> and the nodes \<open>N\<close> may differ.\<close>

definition same_except :: "list_id \<Rightarrow> node set \<Rightarrow> store \<Rightarrow> store \<Rightarrow> bool" where
  "same_except l N st st' \<longleftrightarrow> (\<forall>n. n \<notin> N \<longrightarrow> nxt st' n = nxt st n \<and> info st' n = info st n) \<and>
     (\<forall>k. k \<noteq> l \<longrightarrow> lst st' k = lst st k)"

lemma rep_frame:
  assumes "rep st k ms" and "same_except l N st st'" and "k \<noteq> l" and "set ms \<inter> N = {}"
    and "end_of_list \<notin> N"
  shows "rep st' k ms" and "data_of st' ms = data_of st ms"
proof -
  have "get_slot st' t = get_slot st t" if "t \<in> set (First k # map Next ms)" for t
    using that assms by (auto simp: same_except_def)
  then have "chain st' (First k) ms end_of_list = chain st (First k) ms end_of_list"
    by (rule chain_cong)
  then show "rep st' k ms"
    using assms by (simp add: rep_def same_except_def store_ok_def)
  show "data_of st' ms = data_of st ms"
    using assms(2,4) by (auto simp: data_of_def same_except_def)
qed

locale list_update =
  fixes op :: "store \<Rightarrow> list_id \<Rightarrow> store" and pre :: "node list \<Rightarrow> bool"
    and nodes_after :: "node list \<Rightarrow> node list" and data_after :: "data list \<Rightarrow> data list"
    and new_nodes :: "node set"
  assumes op_rep: "rep st l ns \<Longrightarrow> pre ns \<Longrightarrow> rep (op st l) l (nodes_after ns)"
    and op_data: "rep st l ns \<Longrightarrow> pre ns \<Longrightarrow>
      data_of (op st l) (nodes_after ns) = data_after (data_of st ns)"
    and op_frame: "rep st l ns \<Longrightarrow> pre ns \<Longrightarrow> same_except l (set ns \<union> new_nodes) st (op st l)"
    and new_ok: "pre ns \<Longrightarrow> end_of_list \<notin> new_nodes"
begin

lemma other_list_kept:
  assumes "rep st l ns" and "pre ns" and "rep st k ms" and "k \<noteq> l"
    and "set ms \<inter> (set ns \<union> new_nodes) = {}"
  shows "rep (op st l) k ms" and "data_of (op st l) ms = data_of st ms"
proof -
  have "end_of_list \<notin> set ns \<union> new_nodes"
    using assms(1,2) new_ok by (auto simp: rep_def nodes_ok_def)
  from rep_frame [OF assms(3) op_frame [OF assms(1,2)] assms(4,5) this]
  show "rep (op st l) k ms" "data_of (op st l) ms = data_of st ms" .
qed

end

lemma rep_empty: "store_ok st \<Longrightarrow> rep (empty st l) l []"
  by (simp add: rep_def empty_def store_simps store_ok_def nodes_ok_def)

definition fresh :: "node \<Rightarrow> node list \<Rightarrow> bool" where
  "fresh a ns \<longleftrightarrow> a \<noteq> NULL \<and> a \<noteq> end_of_list \<and> a \<notin> set ns \<and> length ns + 1 < 2 ^ 32"

lemma end_slot_neq:
  "n \<notin> set ns \<Longrightarrow> s \<noteq> Next n \<Longrightarrow> end_slot s ns \<noteq> Next n"
  using end_slot_in [of s ns] by auto

lemma push_back_ok:
  assumes r: "rep st l ns" and a: "fresh a ns"
  shows "fst (push_back st l d a) = False" and "rep (snd (push_back st l d a)) l (ns @ [a])"
    and "data_of (snd (push_back st l d a)) (ns @ [a]) = data_of st ns @ [d]"
    and "same_except l (set ns \<union> {a}) st (snd (push_back st l d a))"
proof -
  let ?L = "end_slot (First l) ns"
  define st1 where "st1 = set_slot st (Next a) end_of_list"
  define st2 where "st2 = set_slot (set_info st1 a d) ?L a"
  define st3 where "st3 = set_elements (set_last st2 l (Next a)) l (elements (lst st l) + 1)"
  have L: "last_slot (lst st l) = ?L" "?L \<noteq> Next a" "?L \<noteq> Next end_of_list"
    using r a end_slot_neq [of a ns "First l"] end_slot_neq [of end_of_list ns "First l"]
    by (auto simp: rep_def nodes_ok_def fresh_def)
  have push: "push_back st l d a = (False, st3)"
    using a L by (simp add: push_back_def list_node_def fresh_def st1_def st2_def st3_def store_simps Let_def)
  have d: "distinct (First l # map Next ns)" using r by (rule rep_slots)
  have "chain st1 (First l) ns end_of_list"
    using r a by (auto simp: st1_def rep_def fresh_def chain_set_other)
  then have "chain st2 (First l) ns a"
    using chain_set_end [OF _ d] by (simp add: st2_def)
  then have c: "chain st3 (First l) (ns @ [a]) end_of_list"
    using L by (simp add: st3_def chain_append store_simps chain_end)
      (simp add: st2_def st1_def store_simps)
  have "unat (elements (lst st l) + 1) = length ns + 1"
    using r a by (simp add: rep_def fresh_def uint_inc)
  moreover have "store_ok st3"
    using r a L
    by (auto simp: rep_def store_ok_def st3_def st2_def st1_def fresh_def store_simps)
  ultimately have "rep st3 l (ns @ [a])"
    using r a c by (auto simp: rep_def nodes_ok_def fresh_def st3_def store_simps)
  moreover have "data_of st3 (ns @ [a]) = data_of st ns @ [d]"
    using a by (auto simp: data_of_def fresh_def st3_def st2_def st1_def store_simps)
  moreover have "same_except l (set ns \<union> {a}) st st3"
    using end_slot_in [of "First l" ns]
    by (auto simp: same_except_def st3_def st2_def st1_def store_simps)
  ultimately show "fst (push_back st l d a) = False" "rep (snd (push_back st l d a)) l (ns @ [a])"
    "data_of (snd (push_back st l d a)) (ns @ [a]) = data_of st ns @ [d]"
    "same_except l (set ns \<union> {a}) st (snd (push_back st l d a))"
    by (simp_all add: push)
qed

interpretation at_back: list_update "\<lambda>st l. snd (push_back st l d a)" "fresh a" "\<lambda>ns. ns @ [a]"
    "\<lambda>ds. ds @ [d]" "{a}" for d a
  by unfold_locales ((rule push_back_ok; assumption) | (simp add: fresh_def))+

lemma push_front_ok:
  assumes r: "rep st l ns" and a: "fresh a ns"
  shows "fst (push_front st l d a) = False" and "rep (snd (push_front st l d a)) l (a # ns)"
    and "data_of (snd (push_front st l d a)) (a # ns) = d # data_of st ns"
    and "same_except l (set ns \<union> {a}) st (snd (push_front st l d a))"
proof -
  define st1 where "st1 = set_info (set_slot st (Next a) (first (lst st l))) a d"
  define st2 where "st2 = (if ns = [] then set_last st1 l (Next a) else st1)"
  define st3 where "st3 = set_elements (set_slot st2 (First l) a) l (elements (lst st l) + 1)"
  have "last_slot (lst st l) = First l \<longleftrightarrow> ns = []"
    using r by (auto simp: rep_def end_slot_last)
  then have push: "push_front st l d a = (False, st3)"
    using a by (simp add: push_front_def push_front_impl_def list_node_def fresh_def st1_def st2_def
        st3_def store_simps Let_def)
  have "chain st1 (Next a) ns end_of_list"
  proof (cases ns)
    case Nil
    then show ?thesis using r by (simp add: st1_def rep_def store_simps)
  next
    case (Cons n ms)
    then show ?thesis
      using r a by (auto simp: st1_def rep_def store_simps fresh_def chain_set_other)
  qed
  then have "chain st3 (First l) (a # ns) end_of_list"
    using r by (auto simp: st3_def st2_def store_simps chain_set_other)
  moreover have "unat (elements (lst st l) + 1) = length ns + 1"
    using r a by (simp add: rep_def fresh_def uint_inc)
  ultimately have "rep st3 l (a # ns)"
    using r a by (auto simp: rep_def store_ok_def nodes_ok_def fresh_def st3_def st2_def st1_def
        store_simps end_slot_last)
  moreover have "data_of st3 (a # ns) = d # data_of st ns"
    using a by (auto simp: data_of_def fresh_def st3_def st2_def st1_def store_simps)
  moreover have "same_except l (set ns \<union> {a}) st st3"
    by (auto simp: same_except_def st3_def st2_def st1_def store_simps)
  ultimately show "fst (push_front st l d a) = False" "rep (snd (push_front st l d a)) l (a # ns)"
    "data_of (snd (push_front st l d a)) (a # ns) = d # data_of st ns"
    "same_except l (set ns \<union> {a}) st (snd (push_front st l d a))"
    by (simp_all add: push)
qed

interpretation at_front: list_update "\<lambda>st l. snd (push_front st l d a)" "fresh a" "\<lambda>ns. a # ns"
    "\<lambda>ds. d # ds" "{a}" for d a
  by unfold_locales ((rule push_front_ok; assumption) | (simp add: fresh_def))+

lemma pop_ok:
  assumes r: "rep st l ns"
  shows "fst (pop st l) = (if ns = [] then NULL else hd (data_of st ns))"
    and "rep (snd (pop st l)) l (tl ns)"
    and "data_of (snd (pop st l)) (tl ns) = tl (data_of st ns)"
    and "same_except l (set ns) st (snd (pop st l))"
proof -
  have "fst (pop st l) = (if ns = [] then NULL else hd (data_of st ns)) \<and>
      rep (snd (pop st l)) l (tl ns) \<and> data_of (snd (pop st l)) (tl ns) = tl (data_of st ns) \<and>
      same_except l (set ns) st (snd (pop st l))"
  proof (cases ns)
    case Nil
    then show ?thesis using r rep_first [OF r] by (simp add: pop_def same_except_def data_of_def)
  next
    case (Cons n ms)
    define st1 where "st1 = set_elements (set_slot st (First l) (nxt st n)) l (elements (lst st l) - 1)"
    define st2 where "st2 = (if ms = [] then set_last st1 l (First l) else st1)"
    have e: "unat (elements (lst st l) - 1) = length ms"
      using r Cons by (simp add: rep_def uint_dec)
    then have "elements (lst st l) - 1 = 0 \<longleftrightarrow> ms = []" by (metis length_0_conv unat_0 unat_eq_zero)
    then have pop: "pop st l = (info st n, st2)"
      using r Cons by (auto simp: pop_def rep_def nodes_ok_def st1_def st2_def store_simps Let_def)
    have "chain st (Next n) ms end_of_list" using r Cons by (simp add: rep_def)
    then have "chain st2 (First l) ms end_of_list"
      using r Cons by (cases ms) (auto simp: st2_def st1_def store_simps chain_set_other)
    then have "rep st2 l ms"
      using r Cons e by (auto simp: rep_def store_ok_def nodes_ok_def st2_def st1_def store_simps end_slot_last)
    then show ?thesis
      using Cons by (auto simp: pop data_of_def same_except_def st2_def st1_def store_simps)
  qed
  then show "fst (pop st l) = (if ns = [] then NULL else hd (data_of st ns))"
    "rep (snd (pop st l)) l (tl ns)" "data_of (snd (pop st l)) (tl ns) = tl (data_of st ns)"
    "same_except l (set ns) st (snd (pop st l))" by simp_all
qed

interpretation popped: list_update "\<lambda>st l. snd (pop st l)" "\<lambda>ns. True" tl tl "{}"
  by unfold_locales (auto intro: pop_ok)

lemma chain_set_end_eq:
  assumes "chain st s ns e" and "nodes_ok ns" and "s = First l"
  shows "chain (set_slot st (end_slot s ns) v) s ns v"
  using assms slots_distinct chain_set_end by blast

lemma rep_set_end:
  "rep st l ns \<Longrightarrow> chain (set_slot st (end_slot (First l) ns) v) (First l) ns v"
  unfolding rep_def using chain_set_end_eq by blast

lemma rep_end_slot: "rep st l ns \<Longrightarrow> end_slot (First k) ns \<noteq> Next end_of_list"
  by (rule end_slot_neq) (simp_all add: rep_def nodes_ok_def)

lemma append_ok:
  assumes r: "rep st l ns" and q: "rep st k ms" and k: "k \<noteq> l" and d: "set ns \<inter> set ms = {}"
    and len: "length ns + length ms < 2 ^ 32"
  shows "rep (append st l k) l (ns @ ms)" and "data_of (append st l k) (ns @ ms) = data_of st ns @ data_of st ms"
    and "rep (append st l k) k ms"
    and "same_except l (set ns) st (append st l k)"
proof -
  have "rep (append st l k) l (ns @ ms) \<and> data_of (append st l k) (ns @ ms) = data_of st ns @ data_of st ms \<and>
    same_except l (set ns) st (append st l k)"
  proof (cases "ns = [] \<or> ms = []")
    case True
    show ?thesis
    proof (cases ms)
      case Nil
      then show ?thesis
        using r rep_is_empty [OF q] by (simp add: append_def data_of_def same_except_def)
    next
      case (Cons m ms')
      have "elements (lst st k) \<noteq> 0" using q Cons by (auto simp: rep_def)
      then have "rep (base_list_assign st l k) l ms"
        using q Cons by (simp add: rep_def base_list_assign_def store_simps store_ok_def end_slot_last)
      moreover have "append st l k = base_list_assign st l k"
        using rep_is_empty [OF q] rep_is_empty [OF r] True Cons by (simp add: append_def)
      ultimately show ?thesis
        using True Cons by (simp add: data_of_def same_except_def base_list_assign_def store_simps)
    qed
  next
    case False
    let ?L = "end_slot (First l) ns"
    define st1 where "st1 = set_slot st ?L (first (lst st k))"
    define st2 where "st2 = set_elements (set_last st1 l (end_slot (First k) ms)) l
        (elements (lst st l) + elements (lst st k))"
    have L: "?L = Next (last ns)" using False by (simp add: end_slot_last)
    have app: "append st l k = st2"
      using r q k False rep_is_empty [OF q] rep_is_empty [OF r]
      by (simp add: append_def st2_def st1_def store_simps rep_def Let_def)
    obtain m ms' where ms: "ms = m # ms'" using False by (cases ms) auto
    have "chain st1 (First l) ns m"
      using rep_set_end [OF r] q ms unfolding st1_def by (simp add: rep_def)
    moreover have "last ns \<notin> set ms" using d False by (metis disjoint_iff last_in_set)
    then have "chain st1 (Next m) ms' end_of_list"
      using q ms unfolding st1_def L by (simp add: rep_def)
    ultimately have c: "chain st2 (First l) (ns @ ms) end_of_list"
      using ms chain_end [of st1 "First l" ns m] by (simp add: st2_def chain_append store_simps)
    have "unat (elements (lst st l) + elements (lst st k)) = length ns + length ms"
      using r q len by (simp add: rep_def unat_word_ariths)
    moreover have "store_ok st2"
      using r rep_end_slot [OF r, of l] by (simp add: rep_def store_ok_def st2_def st1_def store_simps)
    ultimately have "rep st2 l (ns @ ms)"
      using r q c d False by (auto simp: rep_def nodes_ok_def st2_def store_simps end_slot_last)
    then show ?thesis
      using False L by (auto simp: app data_of_def same_except_def st2_def st1_def store_simps)
  qed
  then show "rep (append st l k) l (ns @ ms)"
    "data_of (append st l k) (ns @ ms) = data_of st ns @ data_of st ms"
    "same_except l (set ns) st (append st l k)" by simp_all
  then show "rep (append st l k) k ms"
    using rep_frame(1) [OF q _ k, of "set ns" "append st l k"] d r by (auto simp: rep_def nodes_ok_def)
qed

lemma prepend_ok:
  assumes r: "rep st l ns" and q: "rep st k ms" and k: "k \<noteq> l" and d: "set ns \<inter> set ms = {}"
    and len: "length ns + length ms < 2 ^ 32"
  shows "rep (prepend st l k) l (ms @ ns)"
    and "data_of (prepend st l k) (ms @ ns) = data_of st ms @ data_of st ns"
    and "same_except l (set ms) st (prepend st l k)"
proof -
  have "rep (prepend st l k) l (ms @ ns) \<and>
    data_of (prepend st l k) (ms @ ns) = data_of st ms @ data_of st ns \<and>
    same_except l (set ms) st (prepend st l k)"
  proof (cases ms)
    case Nil
    then show ?thesis
      using r rep_is_empty [OF q] by (simp add: prepend_def data_of_def same_except_def)
  next
    case (Cons m ms')
    let ?L = "end_slot (First k) ms"
    define st1 where "st1 = (if ns = [] then set_last st l ?L else st)"
    define st2 where "st2 = set_slot st1 ?L (first (lst st l))"
    define st3 where "st3 = set_slot st2 (First l) m"
    define st4 where "st4 = set_elements st3 l (elements (lst st l) + elements (lst st k))"
    have L: "?L = Next (last ms)" using Cons by (simp add: end_slot_last)
    have m: "first (lst st k) = m" "last_slot (lst st k) = ?L" using q Cons by (simp_all add: rep_def)
    have pre: "prepend st l k = st4"
      using k m L rep_is_empty [OF q] rep_is_empty [OF r] Cons
      by (auto simp add: prepend_def st4_def st3_def st2_def st1_def store_simps Let_def)
    have "chain st1 (First k) ms end_of_list" "nodes_ok ms" using q by (simp_all add: st1_def rep_def)
    then have "chain st2 (First k) ms (first (lst st l))"
      unfolding st2_def by (rule chain_set_end_eq) simp
    then have "chain st3 (Next m) ms' (first (lst st l))"
      using Cons by (simp add: st3_def)
    then have ms: "chain st4 (First l) ms (first (lst st l))"
      using Cons by (simp add: st4_def st3_def store_simps)
    have ns: "chain st4 ?L ns end_of_list"
    proof (cases ns)
      case Nil
      then show ?thesis
        using r L by (simp add: st4_def st3_def st2_def st1_def store_simps rep_def)
    next
      case ns: (Cons n ns')
      have "last ms \<notin> set ns" using d Cons by (metis disjoint_iff last_in_set list.distinct(1))
      then show ?thesis
        using r L ns by (simp add: st4_def st3_def st2_def st1_def store_simps rep_def)
    qed
    have "end_slot (First l) ms = ?L" using Cons by simp
    then have c: "chain st4 (First l) (ms @ ns) end_of_list"
      using ms ns chain_end [OF ms] by (simp add: chain_append)
    have "unat (elements (lst st l) + elements (lst st k)) = length ns + length ms"
      using r q len by (simp add: rep_def unat_word_ariths)
    moreover have "store_ok st4"
      using q rep_end_slot [OF q, of k] by (simp add: rep_def store_ok_def st4_def st3_def st2_def st1_def
          store_simps)
    moreover have "last_slot (lst st4 l) = end_slot (First l) (ms @ ns)"
      using r Cons by (simp add: st4_def st3_def st2_def st1_def store_simps rep_def end_slot_last)
    ultimately have "rep st4 l (ms @ ns)"
      using r q c d by (auto simp: rep_def nodes_ok_def st4_def store_simps)
    then show ?thesis
      using L Cons by (auto simp: pre data_of_def same_except_def st4_def st3_def st2_def st1_def store_simps)
  qed
  then show "rep (prepend st l k) l (ms @ ns)"
    "data_of (prepend st l k) (ms @ ns) = data_of st ms @ data_of st ns"
    "same_except l (set ms) st (prepend st l k)" by simp_all
qed

lemma nodes_ok_append:
  "nodes_ok (xs @ ys) \<longleftrightarrow> nodes_ok xs \<and> nodes_ok ys \<and> set xs \<inter> set ys = {}"
  by (auto simp: nodes_ok_def)

lemma nodes_ok_Cons:
  "nodes_ok (n # ns) \<longleftrightarrow> n \<noteq> NULL \<and> n \<noteq> end_of_list \<and> n \<notin> set ns \<and> nodes_ok ns"
  by (auto simp: nodes_ok_def)

text \<open>A slot inside the list: the nodes before it and the node it holds.\<close>

lemma rep_split:
  assumes "rep st l (xs @ n # ys)"
  shows "get_slot st (end_slot (First l) xs) = n" and "chain st (First l) xs n"
    and "chain st (Next n) ys end_of_list" and "end_slot (First l) xs \<noteq> Next n"
    and "end_slot (First l) xs \<noteq> Next end_of_list" and "\<forall>y\<in>set ys. end_slot (First l) xs \<noteq> Next y"
proof -
  have c: "chain st (First l) (xs @ n # ys) end_of_list" and ok: "nodes_ok (xs @ n # ys)"
    using assms by (simp_all add: rep_def)
  then show "get_slot st (end_slot (First l) xs) = n" "chain st (First l) xs n"
    "chain st (Next n) ys end_of_list" by (auto simp: chain_append)
  show "end_slot (First l) xs \<noteq> Next n" "end_slot (First l) xs \<noteq> Next end_of_list"
    "\<forall>y\<in>set ys. end_slot (First l) xs \<noteq> Next y"
    using ok end_slot_in [of "First l" xs] by (auto simp: nodes_ok_def)
qed

lemma remove_ok:
  fixes trash :: bool
  assumes r: "rep st l (xs @ n # ys)"
  defines "st' \<equiv> list_remove trash st l (end_slot (First l) xs)"
  shows "rep st' l (xs @ ys)" and "data_of st' (xs @ ys) = data_of st (xs @ ys)"
    and "same_except l (set (xs @ n # ys)) st st'"
proof -
  let ?p = "end_slot (First l) xs"
  note sp = rep_split [OF r]
  define nd where "nd = nxt st n"
  define L where "L = (if ys = [] then ?p else last_slot (lst st l))"
  have ok: "nodes_ok (xs @ n # ys)" using r by (simp add: rep_def)
  have e: "unat (elements (lst st l) - 1) = length xs + length ys"
    using r by (simp add: rep_def uint_dec)
  then have z: "elements (lst st l) - 1 = 0 \<longleftrightarrow> xs = [] \<and> ys = []"
    by (metis add_is_0 length_0_conv unat_0 unat_eq_zero)
  have lastn: "last_slot (lst st l) = Next n \<longleftrightarrow> ys = []"
    using r ok by (cases ys rule: rev_cases) (auto simp: rep_def end_slot_last nodes_ok_def)
  define st1 where "st1 = set_last (set_elements st l (elements (lst st l) - 1)) l L"
  define st2 where "st2 = delete_node trash st1 n"
  have st': "st' = set_slot st2 ?p nd"
    using sp z lastn
    by (auto simp: st'_def list_remove_def st2_def st1_def nd_def L_def store_simps Let_def set_last_def
        set_elements_def put_list_def)
  have st2: "nxt st2 m = nxt st1 m" "info st2 m = info st1 m" if "m \<noteq> n" for m
    using that by (simp_all add: st2_def delete_node_def store_simps)
  have st2m: "nxt st2 m = nxt st m" "info st2 m = info st m" if "m \<in> set xs \<or> m \<in> set ys" for m
  proof -
    have "m \<noteq> n" using that ok by (auto simp: nodes_ok_def)
    then show "nxt st2 m = nxt st m" "info st2 m = info st m" by (simp_all add: st2 st1_def store_simps)
  qed
  have lst2: "lst st2 = lst st1" by (simp add: st2_def delete_node_def store_simps)
  have "chain st2 (First l) xs (get_slot st2 ?p)"
  proof -
    have "get_slot st2 t = get_slot st t" if "t \<in> set (First l # map Next xs)" for t
      using that by (auto simp: lst2 st1_def store_simps st2m)
    then have "chain st2 (First l) xs n" using sp(2) chain_cong [of "First l" xs st2 st n] by blast
    then show ?thesis by (simp add: chain_end)
  qed
  then have c1: "chain st' (First l) xs nd"
    using ok unfolding st' by (simp add: chain_set_end_eq nodes_ok_append)
  have c2: "chain st' ?p ys end_of_list"
  proof (cases ys)
    case Nil
    then show ?thesis using sp(3) by (simp add: st' nd_def)
  next
    case (Cons y zs)
    have "get_slot st' t = get_slot st t" if "t \<in> set (map Next (y # zs))" for t
      using that sp(6) Cons by (auto simp: st' store_simps st2m)
    then have "chain st' (Next y) zs end_of_list = chain st (Next y) zs end_of_list"
      by (intro chain_cong) auto
    then show ?thesis using Cons sp(3) by (simp add: st' nd_def)
  qed
  have "chain st' (First l) (xs @ ys) end_of_list"
    using c1 c2 chain_end [OF c1] by (simp add: chain_append)
  moreover have "store_ok st'"
    using r ok sp(5) st2 [of end_of_list]
    by (auto simp: rep_def store_ok_def st' store_simps st1_def nodes_ok_def)
  moreover have "last_slot (lst st' l) = end_slot (First l) (xs @ ys)"
    using r by (auto simp: st' lst2 st1_def store_simps L_def rep_def end_slot_last)
  moreover have "unat (elements (lst st' l)) = length (xs @ ys)"
    using e by (simp add: st' lst2 st1_def store_simps)
  ultimately show "rep st' l (xs @ ys)"
    using ok by (simp add: rep_def nodes_ok_append nodes_ok_Cons)
  show "data_of st' (xs @ ys) = data_of st (xs @ ys)"
    by (auto simp: data_of_def st' store_simps st2m)
  show "same_except l (set (xs @ n # ys)) st st'"
    using st2 end_slot_in [of "First l" xs] lst2
    by (auto simp: same_except_def st' store_simps st1_def)
qed

lemma chain_reroot:
  "chain st s ns e \<Longrightarrow> get_slot st' s' = get_slot st s \<Longrightarrow> (\<And>n. n \<in> set ns \<Longrightarrow> nxt st' n = nxt st n) \<Longrightarrow>
     chain st' s' ns e"
proof (induction ns arbitrary: s s')
  case (Cons n ns)
  then show ?case by auto
qed simp

lemma after_ok:
  fixes d :: data
  assumes r: "rep st l (xs @ n # ys)" and a: "fresh a (xs @ n # ys)"
  defines "st' \<equiv> list_after st l d n a"
  shows "rep st' l (xs @ n # a # ys)"
    and "data_of st' (xs @ n # a # ys) = data_of st (xs @ [n]) @ d # data_of st ys"
    and "same_except l (set (xs @ n # ys) \<union> {a}) st st'" and "nxt st' n = a"
proof -
  note sp = rep_split [OF r]
  have ok: "nodes_ok (xs @ n # ys)" using r by (simp add: rep_def)
  define st1 where "st1 = set_slot (set_info (set_slot st (Next a) (nxt st n)) a d) (Next n) a"
  define L where "L = (if ys = [] then Next a else last_slot (lst st l))"
  have lastn: "last_slot (lst st l) = Next n \<longleftrightarrow> ys = []"
    using r ok by (cases ys rule: rev_cases) (auto simp: rep_def end_slot_last nodes_ok_def)
  have st': "st' = set_last (set_elements st1 l (elements (lst st l) + 1)) l L"
    using a lastn by (auto simp: st'_def list_after_def list_node_def fresh_def st1_def L_def store_simps
        Let_def set_last_def set_elements_def put_list_def)
  have an: "a \<noteq> n" "a \<notin> set xs" "a \<notin> set ys" "a \<noteq> NULL" "a \<noteq> end_of_list"
    using a by (auto simp: fresh_def)
  have nn: "n \<notin> set xs" "n \<notin> set ys" "n \<noteq> end_of_list" using ok by (auto simp: nodes_ok_def)
  have "chain st' (Next a) ys end_of_list"
    by (rule chain_reroot [OF sp(3)]) (use an nn in \<open>auto simp: st' st1_def store_simps\<close>)
  moreover have "chain st' (First l) xs n"
    using sp(2) an nn by (simp add: st' st1_def)
  ultimately have "chain st' (First l) (xs @ n # a # ys) end_of_list"
    using chain_end [of st' "First l" xs n] an by (simp add: chain_append st' st1_def store_simps)
  moreover have "last_slot (lst st' l) = end_slot (First l) (xs @ n # a # ys)"
    using r by (simp add: st' store_simps L_def rep_def end_slot_last)
  moreover have "unat (elements (lst st' l)) = length (xs @ n # a # ys)"
    using r a uint_inc [of "elements (lst st l)"] by (simp add: st' store_simps rep_def fresh_def)
  moreover have "store_ok st'"
    using r an nn by (simp add: rep_def store_ok_def st' st1_def store_simps)
  moreover have "nodes_ok (xs @ n # a # ys)"
    using ok an by (auto simp: nodes_ok_def)
  ultimately show "rep st' l (xs @ n # a # ys)" by (simp add: rep_def)
  show "data_of st' (xs @ n # a # ys) = data_of st (xs @ [n]) @ d # data_of st ys"
    using an by (auto simp: data_of_def st' st1_def store_simps)
  show "same_except l (set (xs @ n # ys) \<union> {a}) st st'"
    by (auto simp: same_except_def st' st1_def store_simps)
  show "nxt st' n = a" using an by (simp add: st' st1_def store_simps)
qed

lemma swap_members:
  assumes "k \<noteq> l"
  shows "nxt (swap st l k) = nxt st" and "info (swap st l k) = info st"
    and "lst (swap st l k) l = \<lparr>first = first (lst st k),
        last_slot = (if last_slot (lst st k) = First k then First l else last_slot (lst st k)),
        elements = elements (lst st k)\<rparr>"
    and "lst (swap st l k) k = \<lparr>first = first (lst st l),
        last_slot = (if last_slot (lst st l) = First l then First k else last_slot (lst st l)),
        elements = elements (lst st l)\<rparr>"
  using assms by (auto simp: swap_def Let_def set_slot_def set_last_def set_elements_def put_list_def)

lemma swap_ok:
  assumes r: "rep st l ns" and q: "rep st k ms" and k: "k \<noteq> l"
  shows "rep (swap st l k) l ms" and "rep (swap st l k) k ns"
    and "data_of (swap st l k) xs = data_of st xs"
proof -
  note m = swap_members [OF k, of st]
  have "chain (swap st l k) (First l) ms end_of_list"
    by (rule chain_reroot [of st "First k" ms]) (use q m in \<open>auto simp: rep_def\<close>)
  then show "rep (swap st l k) l ms"
    using q m by (auto simp: rep_def store_ok_def end_slot_last)
  have "chain (swap st l k) (First k) ns end_of_list"
    by (rule chain_reroot [of st "First l" ns]) (use r m in \<open>auto simp: rep_def\<close>)
  then show "rep (swap st l k) k ns"
    using r m by (auto simp: rep_def store_ok_def end_slot_last)
  show "data_of (swap st l k) xs = data_of st xs" by (simp add: data_of_def m)
qed

lemma disjoin_loop_stop:
  "chain st s xs lf \<Longrightarrow> lf \<noteq> end_of_list \<Longrightarrow> lf \<notin> set xs \<Longrightarrow> end_of_list \<notin> set xs \<Longrightarrow>
     disjoin_loop st lf s (get_slot st s) c = Some (False, end_slot s xs, c + of_nat (length xs))"
proof (induction xs arbitrary: s c)
  case Nil
  then show ?case by (subst disjoin_loop.simps) simp
next
  case (Cons n xs)
  have "nxt st n \<noteq> end_of_list" using Cons.prems by (cases xs) auto
  then show ?case
    using Cons.prems Cons.IH [of "Next n" "c + 1"] by (subst disjoin_loop.simps) auto
qed

lemma disjoin_loop_end:
  "chain st s (n # xs) end_of_list \<Longrightarrow> end_of_list \<notin> set (n # xs) \<Longrightarrow>
     disjoin_loop st end_of_list s (get_slot st s) c =
       Some (True, end_slot s (n # xs), c + of_nat (length (n # xs)))"
proof (induction xs arbitrary: s n c)
  case Nil
  then show ?case by (subst disjoin_loop.simps) auto
next
  case (Cons m xs)
  then show ?case
    using Cons.IH [of "Next n" m "c + 1"] by (subst disjoin_loop.simps) auto
qed

lemma disjoin_ok:
  assumes r: "rep st l (xs @ ms)" and q: "rep st k ms" and k: "k \<noteq> l"
  shows "\<exists>st'. disjoin st l k = Some st' \<and> rep st' l xs \<and> data_of st' xs = data_of st xs"
proof -
  let ?lf = "hd (ms @ [end_of_list])"
  have lf: "first (lst st k) = ?lf" by (rule rep_first [OF q])
  have ok: "nodes_ok (xs @ ms)" and c: "chain st (First l) (xs @ ms) end_of_list"
    using r by (simp_all add: rep_def)
  have cx: "chain st (First l) xs ?lf"
    using c by (cases ms) (auto simp: chain_append)
  have len: "length xs < 2 ^ 32" using r unat_lt_pow [of 32 "elements (lst st l)"] by (simp add: rep_def)
  show ?thesis
  proof (cases "ms = [] \<and> xs \<noteq> []")
    case True
    then obtain n ns where xs: "xs = n # ns" by (cases xs) auto
    have "disjoin_loop st end_of_list (First l) (get_slot st (First l)) 0 =
        Some (True, end_slot (First l) (n # ns), 0 + of_nat (length (n # ns)))"
      using cx ok True xs by (intro disjoin_loop_end) (auto simp: nodes_ok_def)
    then have "disjoin st l k = Some (set_elements st l (of_nat (length xs)))"
      using lf True xs by (simp add: disjoin_def)
    moreover have "unat (of_nat (length xs) :: uint) = length xs"
      using len by (simp add: unat_of_nat take_bit_nat_eq_self)
    ultimately show ?thesis
      using r True by (auto simp: rep_def store_ok_def store_simps data_of_def)
  next
    case False
    let ?p = "end_slot (First l) xs"
    have "disjoin_loop st ?lf (First l) (get_slot st (First l)) 0 = Some (False, ?p, 0 + of_nat (length xs))"
    proof (cases ms)
      case Nil
      then show ?thesis using False cx by (subst disjoin_loop.simps) simp
    next
      case (Cons m ms')
      then show ?thesis
        using cx ok by (intro disjoin_loop_stop) (auto simp: nodes_ok_def)
    qed
    then have dj: "disjoin st l k =
        Some (set_last (set_slot (set_elements st l (of_nat (length xs))) ?p end_of_list) l ?p)"
      using lf by (simp add: disjoin_def)
    have "chain (set_slot (set_elements st l (of_nat (length xs))) ?p end_of_list) (First l) xs end_of_list"
      using cx ok by (intro chain_set_end_eq) (auto simp: nodes_ok_append)
    moreover have "unat (of_nat (length xs) :: uint) = length xs"
      using len by (simp add: unat_of_nat take_bit_nat_eq_self)
    ultimately show ?thesis
      using r ok by (auto simp: dj rep_def store_ok_def store_simps data_of_def nodes_ok_append)
  qed
qed

section \<open>Queries and traversals\<close>

lemma data_of_simps [simp]:
  "data_of st [] = []" "data_of st (n # ns) = info st n # data_of st ns"
  "data_of st (xs @ ys) = data_of st xs @ data_of st ys" "length (data_of st ns) = length ns"
  by (simp_all add: data_of_def)

lemma elem_loop_chain:
  "chain st s ns end_of_list \<Longrightarrow> end_of_list \<notin> set ns \<Longrightarrow>
     elem_loop (Suc k) st (get_slot st s) d = (if k < length ns then data_of st ns ! k else NULL)"
proof (induction ns arbitrary: s d k)
  case (Cons n ns)
  then show ?case
    using Cons.IH [of "Next n"] by (cases k) (auto simp: data_of_def)
qed simp

lemma elem_ok:
  "rep st l ns \<Longrightarrow> elem st l n = (if unat n < length ns then data_of st ns ! unat n else NULL)"
  using elem_loop_chain [of st "First l" ns "unat n" NULL]
  by (simp add: elem_def rep_def nodes_ok_def del: elem_loop.simps)

lemma head_ok: "rep st l ns \<Longrightarrow> head st l = (if ns = [] then NULL else hd (data_of st ns))"
  by (cases ns) (auto simp: head_def rep_def store_ok_def data_of_def)

lemma last_node_ok: "rep st l ns \<Longrightarrow> last_node st l = end_of_list"
  using chain_end [of st "First l" ns end_of_list] by (simp add: last_node_def rep_def)

lemma add_unique_loop_chain:
  "chain st s ns end_of_list \<Longrightarrow> end_of_list \<notin> set ns \<Longrightarrow>
     add_unique_loop st eq d (get_slot st s) =
       Some (hd (dropWhile (\<lambda>n. \<not> eq (info st n) d) ns @ [end_of_list]))"
proof (induction ns arbitrary: s)
  case Nil
  then show ?case by (subst add_unique_loop.simps) simp
next
  case (Cons n ns)
  then show ?case
    using Cons.IH [of "Next n"] by (subst add_unique_loop.simps) auto
qed

lemma add_unique_ok:
  assumes r: "rep st l ns"
  shows "add_unique st l d eq a =
    Some (if \<exists>x\<in>set (data_of st ns). eq x d then (True, st) else push_back st l d a)"
proof -
  have c: "chain st (First l) ns end_of_list" "end_of_list \<notin> set ns"
    using r by (auto simp: rep_def nodes_ok_def)
  let ?w = "dropWhile (\<lambda>n. \<not> eq (info st n) d) ns"
  have "?w = [] \<longleftrightarrow> (\<forall>x\<in>set (data_of st ns). \<not> eq x d)"
    by (auto simp: data_of_def dropWhile_eq_Nil_conv)
  moreover have "hd (?w @ [end_of_list]) = end_of_list \<longleftrightarrow> ?w = []"
    using c(2) by (metis append_Nil hd_append2 hd_in_set list.sel(1) set_dropWhileD)
  ultimately show ?thesis
    using add_unique_loop_chain [OF c, of eq d] by (auto simp: add_unique_def)
qed

lemma check_list_loop_chain:
  "chain st s (n # ns) end_of_list \<Longrightarrow> end_of_list \<notin> set (n # ns) \<Longrightarrow>
     check_list_loop st n c =
       Some (if NULL \<in> info st ` set (butlast (n # ns)) then None
             else Some (last (n # ns), c + of_nat (length ns)))"
proof (induction ns arbitrary: s n c)
  case Nil
  then show ?case by (subst check_list_loop.simps) simp
next
  case (Cons m ns)
  then show ?case
    using Cons.IH [of "Next n" m "c + 1"] by (subst check_list_loop.simps) auto
qed

lemma check_list_ok:
  assumes r: "rep st l ns"
  shows "check_list st l = Some (ns \<noteq> [] \<and> NULL \<notin> set (butlast (data_of st ns)))"
proof (cases ns)
  case Nil
  then have "check_list_loop st end_of_list 0 = Some (Some (end_of_list, 0))"
    using r by (subst check_list_loop.simps) (simp add: rep_def store_ok_def)
  then show ?thesis using r Nil by (simp add: check_list_def rep_def)
next
  case (Cons n ms)
  have "of_nat (length ms) + 1 = (of_nat (unat (elements (lst st l))) :: uint)"
    using r Cons by (simp add: rep_def)
  then have "of_nat (length ms) + 1 = elements (lst st l)" by simp
  moreover have "set (butlast (data_of st ns)) = info st ` set (butlast ns)"
    by (simp add: data_of_def map_butlast [symmetric])
  moreover have "end_of_list \<notin> set (n # ms)" "chain st (First l) (n # ms) end_of_list"
    using r Cons by (simp_all add: rep_def nodes_ok_def)
  ultimately show ?thesis
    using r Cons check_list_loop_chain [of st "First l" n ms 0]
    by (auto simp: check_list_def rep_def end_slot_last)
qed

lemma delete_elements_loop_chain:
  "chain st s ns end_of_list \<Longrightarrow> end_of_list \<notin> set ns \<Longrightarrow>
     delete_elements_loop st (get_slot st s) = Some (data_of st ns)"
proof (induction ns arbitrary: s)
  case Nil
  then show ?case by (subst delete_elements_loop.simps) (simp add: data_of_def)
next
  case (Cons n ns)
  then show ?case
    using Cons.IH [of "Next n"] by (subst delete_elements_loop.simps) (auto simp: data_of_def)
qed

lemma range_for_chain:
  "chain st s ns end_of_list \<Longrightarrow> end_of_list \<notin> set ns \<Longrightarrow>
     range_for st (get_slot st s) = Some (data_of st ns)"
proof (induction ns arbitrary: s)
  case Nil
  then show ?case by (subst range_for.simps) (simp add: data_of_def list_end_def)
next
  case (Cons n ns)
  then show ?case
    using Cons.IH [of "Next n"]
    by (subst range_for.simps) (auto simp: data_of_def list_end_def iterator_inc_def)
qed

text \<open>The results of \<open>k\<close> calls of \<^verbatim>\<open>next()\<close> and of \<^verbatim>\<open>next_fast()\<close>.\<close>

fun calls :: "(list_iterator \<Rightarrow> data \<times> list_iterator) \<Rightarrow> nat \<Rightarrow> list_iterator \<Rightarrow> data list" where
  "calls f 0 it = []"
| "calls f (Suc k) it = (let (d, it) = f it in d # calls f k it)"

lemma calls_chain:
  assumes "store_ok st" and "f = it_next st \<or> f = next_fast st"
  shows "chain st (el it) ns end_of_list \<Longrightarrow>
     calls f (length ns + j) it = data_of st ns @ replicate j NULL"
proof -
  have step: "\<exists>it'. f it = (info st (get_slot st (el it)), it') \<and> el it' = Next (get_slot st (el it))" for it
    using assms(2) by (auto simp: it_next_def next_fast_def Let_def)
  have tail: "get_slot st (el it) = end_of_list \<Longrightarrow> calls f j it = replicate j NULL" for it
  proof (induction j arbitrary: it)
    case (Suc j)
    obtain it' where "f it = (info st (get_slot st (el it)), it')" "el it' = Next (get_slot st (el it))"
      using step by blast
    then show ?case using Suc assms(1) by (simp add: store_ok_def)
  qed simp
  show "chain st (el it) ns end_of_list \<Longrightarrow> calls f (length ns + j) it = data_of st ns @ replicate j NULL"
  proof (induction ns arbitrary: it)
    case (Cons n ns)
    obtain it' where "f it = (info st (get_slot st (el it)), it')" "el it' = Next (get_slot st (el it))"
      using step by blast
    then show ?case using Cons by simp
  qed (simp add: tail)
qed

text \<open>A loop that removes the elements it selects while it walks over the list, the usual client
  of \<^verbatim>\<open>List_iterator::remove\<close>.\<close>

partial_function (option) remove_if ::
  "bool \<Rightarrow> (data \<Rightarrow> bool) \<Rightarrow> store \<Rightarrow> list_iterator \<Rightarrow> store option" where
  "remove_if trash P st it =
     (let (d, it) = it_next st it
      in if d = NULL then Some st
         else if P d then Option.bind (it_remove trash st it) (\<lambda>(st, it). remove_if trash P st it)
         else remove_if trash P st it)"

lemma remove_if_ok:
  "rep st l (xs @ ys) \<Longrightarrow> it_list it = l \<Longrightarrow> el it = end_slot (First l) xs \<Longrightarrow>
   NULL \<notin> set (data_of st ys) \<Longrightarrow>
     \<exists>st' zs. remove_if trash P st it = Some st' \<and> rep st' l (xs @ zs) \<and>
       data_of st' (xs @ zs) = data_of st xs @ filter (\<lambda>d. \<not> P d) (data_of st ys)"
proof (induction ys arbitrary: xs st it)
  case Nil
  then have "get_slot st (el it) = end_of_list" "store_ok st"
    using chain_end [of st "First l" xs] by (auto simp: rep_def)
  then show ?case
    using Nil by (subst remove_if.simps) (auto simp: it_next_def store_ok_def data_of_def intro!: exI [of _ "[]"])
next
  case (Cons y ys)
  note sp = rep_split [OF Cons.prems(1)]
  define it1 where "it1 = it\<lparr>prev := Some (el it), current := y, el := Next y\<rparr>"
  have nx: "it_next st it = (info st y, it1)" and y: "info st y \<noteq> NULL"
    using sp(1) Cons.prems(3,4) by (auto simp: it_next_def it1_def data_of_def)
  show ?case
  proof (cases "P (info st y)")
    case True
    define st1 where "st1 = list_remove trash st l (end_slot (First l) xs)"
    define it2 where "it2 = it1\<lparr>el := el it, current := NULL\<rparr>"
    note rm = remove_ok [OF Cons.prems(1), of trash, folded st1_def]
    have "data_of st1 xs = data_of st xs" "data_of st1 ys = data_of st ys"
      using rm(2) by (simp_all add: data_of_def)
    moreover obtain st' zs where "remove_if trash P st1 it2 = Some st'" "rep st' l (xs @ zs)"
        "data_of st' (xs @ zs) = data_of st1 xs @ filter (\<lambda>d. \<not> P d) (data_of st1 ys)"
      using Cons.IH [of st1 xs it2] rm(1) Cons.prems calculation
      by (auto simp: it2_def it1_def data_of_def)
    moreover have "remove_if trash P st it = remove_if trash P st1 it2"
      by (subst remove_if.simps) (use nx y True Cons.prems in
          \<open>simp add: it_remove_def it1_def it2_def st1_def\<close>)
    ultimately show ?thesis
      using True by (intro exI [of _ st'] exI [of _ zs]) simp
  next
    case False
    have "remove_if trash P st it = remove_if trash P st it1"
      by (subst remove_if.simps) (use nx y False in simp)
    moreover obtain st' zs where "remove_if trash P st it1 = Some st'" "rep st' l ((xs @ [y]) @ zs)"
        "data_of st' ((xs @ [y]) @ zs) = data_of st (xs @ [y]) @ filter (\<lambda>d. \<not> P d) (data_of st ys)"
      using Cons.IH [of st "xs @ [y]" it1] Cons.prems by (auto simp: it1_def data_of_def)
    ultimately show ?thesis
      using False by (intro exI [of _ st'] exI [of _ "y # zs"]) simp
  qed
qed

section \<open>Sorting\<close>

text \<open>One pass on the data: the elements after it, and whether two were exchanged.\<close>

fun bpass :: "(data \<Rightarrow> data \<Rightarrow> int) \<Rightarrow> data list \<Rightarrow> data list \<times> bool" where
  "bpass f (x # y # zs) =
     (if f x y > 0 then (y # fst (bpass f (x # zs)), True)
      else (x # fst (bpass f (y # zs)), snd (bpass f (y # zs))))"
| "bpass f [x] = ([x], False)"
| "bpass f [] = ([], False)"

lemma bpass_mset [simp]: "mset (fst (bpass f xs)) = mset xs"
  by (induction f xs rule: bpass.induct) auto

lemma bpass_length [simp]: "length (fst (bpass f xs)) = length xs"
  using mset_eq_length [OF bpass_mset] .

lemma bpass_set [simp]: "set (fst (bpass f xs)) = set xs"
  using mset_eq_setD [OF bpass_mset] .

lemma bpass_Nil_iff [simp]: "fst (bpass f xs) = [] \<longleftrightarrow> xs = []"
  using bpass_length [of f xs] by (metis length_0_conv)

lemma bpass_unswapped:
  "three_way f key \<Longrightarrow> \<not> snd (bpass f xs) \<Longrightarrow> fst (bpass f xs) = xs \<and> sorted (map key xs)"
proof (induction f xs rule: bpass.induct)
  case (1 f x y zs)
  then have "\<not> 0 < f x y" "fst (bpass f (y # zs)) = y # zs" "sorted (map key (y # zs))"
    by (auto split: if_splits)
  then show ?case using three_way.cmp_greater [OF "1.prems"(1), of x y] by force
qed simp_all

lemma bpass_max:
  "three_way f key \<Longrightarrow> x \<in> set xs \<Longrightarrow> key x \<le> key (last (fst (bpass f xs)))"
proof (induction f xs arbitrary: x rule: bpass.induct)
  case (1 f a b zs)
  note gt = three_way.cmp_greater [OF "1.prems"(1), of a b]
  show ?case
  proof (cases "0 < f a b")
    case True
    have "key z \<le> key (last (fst (bpass f (a # zs))))" if "z \<in> set (a # zs)" for z
      using 1(1) [OF True "1.prems"(1) that] .
    then show ?thesis using "1.prems"(2) True gt by (auto intro: order.trans [of _ "key a"])
  next
    case False
    have "key z \<le> key (last (fst (bpass f (b # zs))))" if "z \<in> set (b # zs)" for z
      using 1(2) [OF False "1.prems"(1) that] .
    then show ?thesis using "1.prems"(2) False gt by (auto intro: order.trans [of _ "key b"])
  qed
qed simp_all

lemma bpass_stable:
  "three_way f key \<Longrightarrow> filter (\<lambda>d. key d = k) (fst (bpass f xs)) = filter (\<lambda>d. key d = k) xs"
proof (induction f xs rule: bpass.induct)
  case (1 f x y zs)
  then show ?case using three_way.cmp_greater [OF "1.prems"(1), of x y] by auto
qed simp_all

text \<open>Sorting changes only the data of the nodes.\<close>

definition only_info :: "node set \<Rightarrow> store \<Rightarrow> store \<Rightarrow> bool" where
  "only_info N st st' \<longleftrightarrow> nxt st' = nxt st \<and> lst st' = lst st \<and> (\<forall>m. m \<notin> N \<longrightarrow> info st' m = info st m)"

lemma only_info_refl [simp]: "only_info N st st"
  by (simp add: only_info_def)

lemma only_info_trans:
  "only_info N st st1 \<Longrightarrow> only_info M st1 st2 \<Longrightarrow> N \<union> M \<subseteq> K \<Longrightarrow> only_info K st st2"
  by (auto simp: only_info_def) (metis subset_iff)

lemma only_info_rep:
  "only_info N st st' \<Longrightarrow> end_of_list \<notin> N \<Longrightarrow> rep st l ns \<Longrightarrow> rep st' l ns"
  using chain_cong [of "First l" ns st st' end_of_list]
  by (auto simp: only_info_def rep_def store_ok_def get_slot_def split: slot.splits)

lemma only_info_data:
  "only_info N st st' \<Longrightarrow> set ns \<inter> N = {} \<Longrightarrow> data_of st' ns = data_of st ns"
  by (auto simp: only_info_def data_of_def)

lemma bubble_inner_ok:
  assumes "rep st l (xs @ n # ys @ rest)" and "el it = Next n" and "it_list it = l"
    and "NULL \<notin> set (data_of st (n # ys @ rest))"
    and "stop = (if rest = [] then NULL else hd rest)"
  shows "\<exists>st' it'. bubble_inner f st it (info st n) n stop sw =
       Some (st', it', last (n # ys), sw \<or> snd (bpass f (data_of st (n # ys)))) \<and> it_list it' = l \<and>
     only_info (set (n # ys)) st st' \<and> data_of st' (n # ys) = fst (bpass f (data_of st (n # ys)))"
  using assms
proof (induction ys arbitrary: xs n st it sw)
  case Nil
  note sp = rep_split [of st l xs n rest]
  have "nxt st n = hd (rest @ [end_of_list])" "store_ok st"
    using Nil.prems(1) sp(3) by (cases rest; simp add: rep_def)+
  then show ?case
    using Nil.prems
    by (subst bubble_inner.simps) (cases rest; auto simp: it_next_def it_ref_def store_ok_def Let_def)
next
  case (Cons y ys)
  have ok: "nodes_ok (xs @ n # y # ys @ rest)" using Cons.prems(1) by (simp add: rep_def)
  have ny: "nxt st n = y" using rep_split(3) [of st l xs n "y # ys @ rest"] Cons.prems(1) by simp
  define it1 where "it1 = it\<lparr>prev := Some (el it), current := y, el := Next y\<rparr>"
  have nx: "it_next st it = (info st y, it1)" using Cons.prems(2) ny by (simp add: it_next_def it1_def)
  have stop: "y \<noteq> stop" "info st y \<noteq> NULL" "n \<noteq> y" "n \<notin> set ys" "y \<notin> set ys"
    using ok Cons.prems(4,5) by (auto simp: nodes_ok_def)
  show ?case
  proof (cases "f (info st n) (info st y) > 0")
    case True
    define st1 where "st1 = set_info (set_info st n (info st y)) y (info st n)"
    have oi: "only_info {n, y} st st1" by (auto simp: only_info_def st1_def store_simps)
    have i1: "info st1 y = info st n" "info st1 n = info st y"
      using stop by (simp_all add: st1_def store_simps)
    have d1: "data_of st1 ys = data_of st ys" "data_of st1 rest = data_of st rest"
      using oi ok by (auto intro!: only_info_data simp: nodes_ok_def)
    have r1: "rep st1 l ((xs @ [n]) @ y # ys @ rest)"
      using only_info_rep [OF oi _ Cons.prems(1)] ok by (auto simp: nodes_ok_def)
    have "\<exists>st' it'. bubble_inner f st1 it1 (info st1 y) y stop True =
       Some (st', it', last (y # ys), True \<or> snd (bpass f (data_of st1 (y # ys)))) \<and> it_list it' = l \<and>
       only_info (set (y # ys)) st1 st' \<and> data_of st' (y # ys) = fst (bpass f (data_of st1 (y # ys)))"
      by (rule Cons.IH [OF r1]) (use Cons.prems i1 d1 in \<open>simp_all add: it1_def\<close>)
    then obtain st' it' where ih: "bubble_inner f st1 it1 (info st n) y stop True =
        Some (st', it', last (y # ys), True)" "it_list it' = l" "only_info (set (y # ys)) st1 st'"
        "data_of st' (y # ys) = fst (bpass f (info st n # data_of st ys))"
      by (auto simp: i1 d1)
    moreover have "bubble_inner f st it (info st n) n stop sw = bubble_inner f st1 it1 (info st n) y stop True"
      by (subst bubble_inner.simps) (use nx stop True in \<open>simp add: it_ref_def it1_def st1_def\<close>)
    moreover have "info st' n = info st y" using ih(3) stop i1 by (auto simp: only_info_def)
    moreover have "only_info (set (n # y # ys)) st st'" by (rule only_info_trans [OF oi ih(3)]) auto
    ultimately show ?thesis using True by auto
  next
    case False
    have r1: "rep st l ((xs @ [n]) @ y # ys @ rest)" using Cons.prems(1) by simp
    have "\<exists>st' it'. bubble_inner f st it1 (info st y) y stop sw =
       Some (st', it', last (y # ys), sw \<or> snd (bpass f (data_of st (y # ys)))) \<and> it_list it' = l \<and>
       only_info (set (y # ys)) st st' \<and> data_of st' (y # ys) = fst (bpass f (data_of st (y # ys)))"
      by (rule Cons.IH [OF r1]) (use Cons.prems in \<open>simp_all add: it1_def\<close>)
    then obtain st' it' where ih: "bubble_inner f st it1 (info st y) y stop sw =
        Some (st', it', last (y # ys), sw \<or> snd (bpass f (data_of st (y # ys))))" "it_list it' = l"
        "only_info (set (y # ys)) st st'" "data_of st' (y # ys) = fst (bpass f (data_of st (y # ys)))"
      by auto
    moreover have "bubble_inner f st it (info st n) n stop sw = bubble_inner f st it1 (info st y) y stop sw"
      by (subst bubble_inner.simps) (use nx stop False in \<open>simp add: it_ref_def it1_def\<close>)
    moreover have "info st' n = info st n" using ih(3) stop by (auto simp: only_info_def)
    moreover have "only_info (set (n # y # ys)) st st'" using ih(3) by (auto simp: only_info_def)
    ultimately show ?thesis using False by auto
  qed
qed

lemma bubble_outer_ok:
  assumes "rep st l (P @ R)" and "P \<noteq> []" and "el it = First l" and "it_list it = l"
    and "NULL \<notin> set (data_of st (P @ R))" and "stop = (if R = [] then NULL else hd R)"
  shows "\<exists>st'. bubble_outer f st it stop = Some st' \<and> only_info (set P) st st' \<and>
     mset (data_of st' P) = mset (data_of st P) \<and>
     (\<forall>key :: data \<Rightarrow> 'k::linorder. three_way f key \<longrightarrow> sorted (map key (data_of st' P)) \<and>
        (\<forall>k. filter (\<lambda>d. key d = k) (data_of st' P) = filter (\<lambda>d. key d = k) (data_of st P)))"
  using assms
proof (induction "length P" arbitrary: P R st it stop rule: less_induct)
  case less
  obtain n ys where P: "P = n # ys" using less.prems(2) by (cases P) auto
  have ok: "nodes_ok (n # ys @ R)" using less.prems(1) P by (simp add: rep_def)
  have n: "first (lst st l) = n" using rep_first [OF less.prems(1)] P by simp
  define it1 where "it1 = it\<lparr>prev := Some (el it), current := n, el := Next n\<rparr>"
  have nx: "it_next st it = (info st n, it1)" using less.prems(3) n by (simp add: it_next_def it1_def)
  obtain st1 it2 where inner: "bubble_inner f st it1 (info st n) n stop False =
        Some (st1, it2, last P, snd (bpass f (data_of st P)))" "it_list it2 = l"
      "only_info (set P) st st1" "data_of st1 P = fst (bpass f (data_of st P))"
    using bubble_inner_ok [of st l "[]" n ys R it1 stop f False] less.prems P
    by (auto simp: it1_def simp del: bpass.simps)
  have out: "bubble_outer f st it stop =
      (if snd (bpass f (data_of st P)) then bubble_outer f st1 (rewind it2) (last P) else Some st1)"
    by (subst bubble_outer.simps) (use nx inner(1) in \<open>simp add: it_ref_def it1_def\<close>)
  show ?case
  proof (cases "snd (bpass f (data_of st P))")
    case False
    have "data_of st1 P = data_of st P \<and> sorted (map key (data_of st P))" if "three_way f key"
      for key :: "data \<Rightarrow> 'k"
      using bpass_unswapped [OF that False] inner(4) by simp
    then show ?thesis using out False inner(3,4) bpass_mset by (auto intro!: exI [of _ st1])
  next
    case True
    have "ys \<noteq> []" using True P by auto
    then obtain Q z where Q: "P = Q @ [z]" "Q \<noteq> []" "last P = z"
      using P by (metis append_butlast_last_id butlast.simps(2) last.simps list.distinct(1))
    have oQ: "end_of_list \<notin> set P" "z \<notin> set Q" "set P \<inter> set R = {}"
      using less.prems(1) unfolding Q(1) by (auto simp: rep_def nodes_ok_def)
    have r1: "rep st1 l (Q @ z # R)" using only_info_rep [OF inner(3) oQ(1) less.prems(1)] Q by simp
    have "data_of st1 R = data_of st R" using inner(3) oQ(3) by (intro only_info_data) auto
    moreover have m1: "mset (data_of st1 P) = mset (data_of st P)" by (simp add: inner(4))
    moreover have "set (data_of st1 P) = set (data_of st P)" using m1 by (rule mset_eq_setD)
    moreover have "Q @ z # R = P @ R" by (simp add: Q(1))
    ultimately have nonnull: "NULL \<notin> set (data_of st1 (Q @ z # R))"
      using less.prems(5) by (simp only: data_of_simps(3) set_append) blast
    obtain st' where st': "bubble_outer f st1 (rewind it2) z = Some st'" "only_info (set Q) st1 st'"
        "mset (data_of st' Q) = mset (data_of st1 Q)"
        "\<And>key :: data \<Rightarrow> 'k. three_way f key \<Longrightarrow> sorted (map key (data_of st' Q)) \<and>
          (\<forall>k. filter (\<lambda>d. key d = k) (data_of st' Q) = filter (\<lambda>d. key d = k) (data_of st1 Q))"
      using less.hyps [OF _ r1 Q(2), of "rewind it2" z] nonnull inner(2) Q(1)
      by (auto simp: rewind_def)
    have z: "info st' z = info st1 z" using st'(2) oQ(2) by (simp add: only_info_def)
    have "only_info (set P) st st'" by (rule only_info_trans [OF inner(3) st'(2)]) (use Q in auto)
    moreover have "mset (data_of st' P) = mset (data_of st P)" using st'(3) z m1 Q(1) by simp
    moreover have "sorted (map key (data_of st' P)) \<and>
        (\<forall>k. filter (\<lambda>d. key d = k) (data_of st' P) = filter (\<lambda>d. key d = k) (data_of st P))"
      if key: "three_way f key" for key :: "data \<Rightarrow> 'k"
    proof -
      have "info st1 z = last (fst (bpass f (data_of st P)))"
        using inner(4) Q(1) by (metis data_of_simps(2,3) last_snoc data_of_simps(1))
      then have "key d \<le> key (info st1 z)" if "d \<in> set (data_of st P)" for d
        using bpass_max [OF key that] by simp
      moreover have "set (data_of st' Q) \<subseteq> set (data_of st P)"
        using mset_eq_setD [OF st'(3)] mset_eq_setD [OF m1] Q(1) by auto
      ultimately have "sorted (map key (data_of st' P))"
        using st'(4) [OF key] z Q(1) by (auto simp: sorted_append)
      moreover have "filter (\<lambda>d. key d = k) (data_of st' P) = filter (\<lambda>d. key d = k) (data_of st1 P)" for k
        using st'(4) [OF key] z Q(1) by simp
      ultimately show ?thesis using bpass_stable [OF key] inner(4) by simp
    qed
    ultimately show ?thesis using out True st'(1) Q(3) by auto
  qed
qed

lemma bubble_sort_ok:
  assumes r: "rep st l ns" and nn: "NULL \<notin> set (data_of st ns)"
  shows "\<exists>st'. bubble_sort st l f = Some st' \<and> rep st' l ns \<and> only_info (set ns) st st' \<and>
     mset (data_of st' ns) = mset (data_of st ns) \<and>
     (\<forall>key :: data \<Rightarrow> 'k::linorder. three_way f key \<longrightarrow> sorted (map key (data_of st' ns)) \<and>
        (\<forall>k. filter (\<lambda>d. key d = k) (data_of st' ns) = filter (\<lambda>d. key d = k) (data_of st ns)))"
proof (cases "ns = []")
  case True
  define it1 where "it1 = (it_init l)\<lparr>prev := Some (First l), current := end_of_list, el := Next end_of_list\<rparr>"
  have s: "first (lst st l) = end_of_list" "nxt st end_of_list = end_of_list" "info st end_of_list = NULL"
    using r True by (auto simp: rep_def store_ok_def)
  have "\<exists>it2. bubble_inner f st it1 NULL end_of_list NULL False = Some (st, it2, end_of_list, False)"
    by (subst bubble_inner.simps) (use s in \<open>simp add: it_next_def it1_def it_ref_def Let_def\<close>)
  moreover have "it_next st (it_init l) = (NULL, it1)"
    using s by (simp add: it_next_def it_init_def it1_def)
  ultimately have "bubble_sort st l f = Some st"
    unfolding bubble_sort_def by (subst bubble_outer.simps) (auto simp: it_ref_def it1_def)
  then show ?thesis using r True by (auto intro!: exI [of _ st])
next
  case False
  have "\<exists>st'. bubble_outer f st (it_init l) NULL = Some st' \<and> only_info (set ns) st st' \<and>
     mset (data_of st' ns) = mset (data_of st ns) \<and>
     (\<forall>key :: data \<Rightarrow> 'k. three_way f key \<longrightarrow> sorted (map key (data_of st' ns)) \<and>
        (\<forall>k. filter (\<lambda>d. key d = k) (data_of st' ns) = filter (\<lambda>d. key d = k) (data_of st ns)))"
    by (rule bubble_outer_ok [where R = "[]"]) (use r nn False in \<open>simp_all add: it_init_def\<close>)
  moreover have "rep st' l ns" if "only_info (set ns) st st'" for st'
    using only_info_rep [OF that _ r] r by (simp add: rep_def nodes_ok_def)
  ultimately show ?thesis unfolding bubble_sort_def by blast
qed

lemma replace_list_ok:
  assumes r: "rep st l (xs @ c # ys)" and q: "rep st k (m # ms)" and k: "k \<noteq> l"
    and d: "set (xs @ c # ys) \<inter> set (m # ms) = {}"
    and len: "length (xs @ c # ys) + length ms < 2 ^ 32"
    and it: "current it = c" "it_list it = l"
  shows "fst (it_replace_list st it k) = info st c"
    and "rep (snd (it_replace_list st it k)) l (xs @ c # ms @ ys)"
    and "data_of (snd (it_replace_list st it k)) (xs @ c # ms @ ys) =
      data_of st xs @ data_of st (m # ms) @ data_of st ys"
proof -
  note sp = rep_split [OF r]
  let ?L = "end_slot (First k) (m # ms)"
  define st1 where "st1 = set_slot st ?L (nxt st c)"
  define st2 where "st2 = set_slot (set_info st1 c (info st m)) (Next c) (nxt st1 m)"
  define st3 where "st3 = (if ys = [] \<and> ms \<noteq> [] then set_last st2 l ?L else st2)"
  define st4 where "st4 = set_elements st3 l (elements (lst st l) + (elements (lst st k) - 1))"
  have okn: "nodes_ok (xs @ c # ys)" and okm: "nodes_ok (m # ms)" using r q by (simp_all add: rep_def)
  have km: "first (lst st k) = m" "last_slot (lst st k) = ?L" "\<not> is_empty st k"
      "unat (elements (lst st k)) = Suc (length ms)"
    using q rep_is_empty [OF q] by (simp_all add: rep_def)
  have L: "?L = Next (last (m # ms))" by (simp add: end_slot_last)
  have lm: "last (m # ms) \<in> set (m # ms)" by (rule last_in_set) simp
  have lastc: "last_slot (lst st l) = Next c \<longleftrightarrow> ys = []"
    using r okn by (cases ys rule: rev_cases) (auto simp: rep_def end_slot_last nodes_ok_def)
  have gt1: "1 < elements (lst st k) \<longleftrightarrow> ms \<noteq> []"
    using km(4) by (cases ms) (auto simp: word_less_nat_alt)
  have res: "it_replace_list st it k = (info st c, st4)"
    using km it L lastc gt1 k
    by (simp add: it_replace_list_def Let_def st4_def st3_def st2_def st1_def store_simps
        del: end_slot.simps)
  have nm: "nxt st4 n = nxt st n" if "n \<noteq> c" "n \<noteq> last (m # ms)" for n
    using that L by (auto simp: st4_def st3_def st2_def st1_def store_simps simp del: end_slot.simps last.simps)
  have nc: "nxt st4 c = (if ms = [] then nxt st c else nxt st m)"
    and nl: "c \<noteq> last (m # ms) \<Longrightarrow> nxt st4 (last (m # ms)) = nxt st c"
    using okm L by (auto simp: st4_def st3_def st2_def st1_def store_simps nodes_ok_def
        simp del: end_slot.simps)
  have c: "c \<notin> set (m # ms)" "c \<notin> set xs" "c \<notin> set ys" using d okn by (auto simp: nodes_ok_def)
  have f4: "first (lst st4 l) = first (lst st l)"
    using L by (simp add: st4_def st3_def st2_def st1_def store_simps del: end_slot.simps)
  have x: "n \<in> set xs \<Longrightarrow> n \<noteq> c \<and> n \<noteq> last (m # ms)" "n \<in> set ys \<Longrightarrow> n \<noteq> c \<and> n \<noteq> last (m # ms)" for n
    using c d lm by auto
  have cx: "chain st4 (First l) xs c"
    by (rule chain_reroot [OF sp(2)]) (use f4 nm x in \<open>auto simp del: last.simps\<close>)
  have cms: "chain st4 (Next c) ms (nxt st c)"
  proof (cases ms rule: rev_cases)
    case Nil
    then show ?thesis by (simp add: nc)
  next
    case (snoc ms' z)
    have cm: "chain st (Next m) ms' z"
      using q snoc by (auto simp: rep_def chain_append)
    have keep: "nxt st4 n = nxt st n" if "n \<in> set ms'" for n
      using nm [of n] that snoc c okm by (auto simp: nodes_ok_def)
    have "chain st4 (Next c) ms' z"
      by (rule chain_reroot [OF cm _ keep]) (use snoc nc in simp)
    then show ?thesis
      using snoc nl c chain_end [of st4 "Next c" ms' z] by (simp add: chain_append)
  qed
  have cys: "chain st4 (end_slot (Next c) ms) ys end_of_list"
    by (rule chain_reroot [OF sp(3)]) (use chain_end [OF cms] nm x in \<open>auto simp del: last.simps\<close>)
  have "chain st4 (First l) (xs @ c # ms @ ys) end_of_list"
    using cx cms cys chain_end [OF cx] chain_end [OF cms] by (simp add: chain_append)
  moreover have "last_slot (lst st4 l) = end_slot (First l) (xs @ c # ms @ ys)"
    using r lastc by (auto simp: st4_def st3_def st2_def st1_def store_simps rep_def end_slot_last)
  moreover have "unat (elements (lst st4 l)) = length (xs @ c # ms @ ys)"
    using r km(4) len uint_dec [of "elements (lst st k)"]
    by (simp add: st4_def store_simps rep_def unat_word_ariths)
  moreover have "store_ok st4"
  proof -
    have "end_of_list \<noteq> c" "end_of_list \<noteq> last (m # ms)" using okm okn lm by (auto simp: nodes_ok_def)
    moreover have "info st4 n = info st n" if "n \<noteq> c" for n
      using that by (simp add: st4_def st3_def st2_def st1_def store_simps)
    ultimately show ?thesis using r nm [of end_of_list] by (simp add: rep_def store_ok_def)
  qed
  moreover have "nodes_ok (xs @ c # ms @ ys)"
    using okn okm d by (auto simp: nodes_ok_def)
  ultimately have "rep st4 l (xs @ c # ms @ ys)" by (simp add: rep_def)
  moreover have "data_of st4 (xs @ c # ms @ ys) = data_of st xs @ data_of st (m # ms) @ data_of st ys"
    using c by (auto simp: data_of_def st4_def st3_def st2_def st1_def store_simps)
  ultimately show "fst (it_replace_list st it k) = info st c"
    "rep (snd (it_replace_list st it k)) l (xs @ c # ms @ ys)"
    "data_of (snd (it_replace_list st it k)) (xs @ c # ms @ ys) =
      data_of st xs @ data_of st (m # ms) @ data_of st ys"
    by (simp_all add: res)
qed

section \<open>Properties\<close>

text \<open>A sample store: list 7 holds the nodes 10, 11, 12 with the data 30, 10, 20; list 8 holds the
  node 20 with the data 50.\<close>

definition sample_store :: store where
  "sample_store = \<lparr>nxt = (\<lambda>n. if n = 10 then 11 else if n = 11 then 12 else 1),
     info = (\<lambda>n. if n = 10 then 30 else if n = 11 then 10 else if n = 12 then 20
                 else if n = 20 then 50 else 0),
     lst = (\<lambda>l. if l = 7 then \<lparr>first = 10, last_slot = Next 12, elements = 3\<rparr>
                else \<lparr>first = 20, last_slot = Next 20, elements = 1\<rparr>)\<rparr>"

lemma sample_rep: "rep sample_store 7 [10, 11, 12]" "rep sample_store 8 [20]"
  by (simp_all add: rep_def store_ok_def nodes_ok_def sample_store_def)

lemma sample_data:
  "data_of sample_store [10, 11, 12] = [30, 10, 20]" "data_of sample_store [20] = [50]"
  by (simp_all add: sample_store_def)

text \<open>
  C25. \<^verbatim>\<open>push_back\<close>, \<^verbatim>\<open>push_front\<close> and \<^verbatim>\<open>pop\<close> implement a double-ended sequence: each keeps the
  invariant of the list (links, indirect last pointer, count), has the effect of appending,
  prepending or removing the first element of the data, and \<^verbatim>\<open>pop\<close> returns that element, or null
  on an empty list; a list with other nodes is not affected.
\<close>

theorem list_queue_operations:
  assumes "rep st l ns" and "fresh a ns"
    and "rep st k ms" and "k \<noteq> l" and "set ms \<inter> (set ns \<union> {a}) = {}"
  shows "(let (err, st1) = push_back st l d a
          in \<not> err \<and> rep st1 l (ns @ [a]) \<and> data_of st1 (ns @ [a]) = data_of st ns @ [d] \<and>
             rep st1 k ms \<and> data_of st1 ms = data_of st ms) \<and>
    (let (err, st1) = push_front st l d a
          in \<not> err \<and> rep st1 l (a # ns) \<and> data_of st1 (a # ns) = d # data_of st ns \<and>
             rep st1 k ms \<and> data_of st1 ms = data_of st ms) \<and>
    (let (e, st1) = pop st l
          in e = (if ns = [] then NULL else hd (data_of st ns)) \<and> rep st1 l (tl ns) \<and>
             data_of st1 (tl ns) = tl (data_of st ns) \<and>
             rep st1 k ms \<and> data_of st1 ms = data_of st ms)"
proof (intro conjI)
  have d: "set ms \<inter> (set ns \<union> {}) = {}" using assms(5) by auto
  show "let (err, st1) = push_back st l d a
          in \<not> err \<and> rep st1 l (ns @ [a]) \<and> data_of st1 (ns @ [a]) = data_of st ns @ [d] \<and>
             rep st1 k ms \<and> data_of st1 ms = data_of st ms"
    using push_back_ok [OF assms(1,2), of d] at_back.other_list_kept [OF assms(1-5), of d]
    by (simp add: case_prod_unfold)
  show "let (err, st1) = push_front st l d a
          in \<not> err \<and> rep st1 l (a # ns) \<and> data_of st1 (a # ns) = d # data_of st ns \<and>
             rep st1 k ms \<and> data_of st1 ms = data_of st ms"
    using push_front_ok [OF assms(1,2), of d] at_front.other_list_kept [OF assms(1-5), of d]
    by (simp add: case_prod_unfold)
  show "let (e, st1) = pop st l
          in e = (if ns = [] then NULL else hd (data_of st ns)) \<and> rep st1 l (tl ns) \<and>
             data_of st1 (tl ns) = tl (data_of st ns) \<and>
             rep st1 k ms \<and> data_of st1 ms = data_of st ms"
    using pop_ok [OF assms(1)] popped.other_list_kept [OF assms(1) TrueI assms(3,4) d]
    by (simp add: case_prod_unfold)
qed

theorem list_queue_operations_witness:
  "fresh 13 [10, 11, 12] \<and>
   (let (err, st1) = push_back sample_store 7 40 13
    in \<not> err \<and> data_of st1 [10, 11, 12, 13] = [30, 10, 20, 40] \<and> data_of st1 [20] = [50]) \<and>
   fst (pop sample_store 7) = 30"
proof -
  have f: "fresh 13 [10, 11, 12]" by (simp add: fresh_def)
  have "set [20] \<inter> (set [10, 11, 12] \<union> {13 :: nat}) = {}" by simp
  from list_queue_operations [OF sample_rep(1) f sample_rep(2) _ this, of 40] f
  show ?thesis by (auto simp: case_prod_unfold Let_def sample_data simp del: data_of_simps)
qed

text \<open>
  Splicing whole lists: \<^verbatim>\<open>append\<close> and \<^verbatim>\<open>prepend\<close> concatenate the nodes and the data of two
  lists with different nodes, \<^verbatim>\<open>disjoin\<close> with the appended list undoes an \<^verbatim>\<open>append\<close>, and \<^verbatim>\<open>swap\<close>
  exchanges the contents of two lists.
\<close>

theorem list_splice_operations:
  assumes "rep st l ns" and "rep st k ms" and "k \<noteq> l" and "set ns \<inter> set ms = {}"
    and "length ns + length ms < 2 ^ 32"
  shows "rep (append st l k) l (ns @ ms) \<and>
    data_of (append st l k) (ns @ ms) = data_of st ns @ data_of st ms \<and>
    rep (prepend st l k) l (ms @ ns) \<and>
    data_of (prepend st l k) (ms @ ns) = data_of st ms @ data_of st ns \<and>
    (\<exists>st1. disjoin (append st l k) l k = Some st1 \<and> rep st1 l ns \<and> data_of st1 ns = data_of st ns) \<and>
    rep (swap st l k) l ms \<and> rep (swap st l k) k ns \<and>
    data_of (swap st l k) (ns @ ms) = data_of st (ns @ ms)"
proof -
  note a = append_ok [OF assms]
  have "data_of (append st l k) ns = data_of st ns" using a(2) by simp
  then show ?thesis
    using a prepend_ok [OF assms] swap_ok [OF assms(1-3)] disjoin_ok [OF a(1,3) assms(3)] by auto
qed

theorem list_splice_operations_witness:
  "data_of (append sample_store 7 8) [10, 11, 12, 20] = [30, 10, 20, 50] \<and>
   rep (swap sample_store 7 8) 8 [10, 11, 12]"
  using list_splice_operations [OF sample_rep] by (simp add: sample_data del: data_of_simps)

text \<open>
  Editing through an iterator: a loop that removes the elements it selects ends and leaves
  exactly the other elements, in order (also when freed memory is overwritten);
  \<^verbatim>\<open>after\<close> inserts behind the current element; \<^verbatim>\<open>replace\<close> with a non-empty list puts its
  elements in the place of the current one and returns the old data.
\<close>

theorem list_iterator_edits:
  assumes "rep st l (xs @ c # ys)"
  shows "(NULL \<notin> set (data_of st (xs @ c # ys)) \<longrightarrow>
      (\<exists>st1 zs. remove_if trash P st (it_init l) = Some st1 \<and> rep st1 l zs \<and>
         data_of st1 zs = filter (\<lambda>d. \<not> P d) (data_of st (xs @ c # ys)))) \<and>
    (current it = c \<and> it_list it = l \<and> fresh a (xs @ c # ys) \<longrightarrow>
      (let (st1, it1) = it_after st it d a
       in rep st1 l (xs @ c # a # ys) \<and> current it1 = a \<and> el it1 = Next a \<and>
          data_of st1 (xs @ c # a # ys) = data_of st (xs @ [c]) @ d # data_of st ys)) \<and>
    (current it = c \<and> it_list it = l \<and> rep st k (m # ms) \<and> k \<noteq> l \<and>
     set (xs @ c # ys) \<inter> set (m # ms) = {} \<and> length (xs @ c # ys) + length ms < 2 ^ 32 \<longrightarrow>
      (let (old, st1) = it_replace_list st it k
       in old = info st c \<and> rep st1 l (xs @ c # ms @ ys) \<and>
          data_of st1 (xs @ c # ms @ ys) = data_of st xs @ data_of st (m # ms) @ data_of st ys))"
proof (intro conjI impI; (elim conjE)?)
  assume "NULL \<notin> set (data_of st (xs @ c # ys))"
  then show "\<exists>st1 zs. remove_if trash P st (it_init l) = Some st1 \<and> rep st1 l zs \<and>
      data_of st1 zs = filter (\<lambda>d. \<not> P d) (data_of st (xs @ c # ys))"
    using remove_if_ok [of st l "[]" "xs @ c # ys" "it_init l" trash P] assms
    by (simp add: it_init_def)
next
  assume "current it = c" "it_list it = l" "fresh a (xs @ c # ys)"
  then show "let (st1, it1) = it_after st it d a
       in rep st1 l (xs @ c # a # ys) \<and> current it1 = a \<and> el it1 = Next a \<and>
          data_of st1 (xs @ c # a # ys) = data_of st (xs @ [c]) @ d # data_of st ys"
    using after_ok [OF assms, of a d] by (simp add: it_after_def Let_def)
next
  assume "current it = c" "it_list it = l" "rep st k (m # ms)" "k \<noteq> l"
    "set (xs @ c # ys) \<inter> set (m # ms) = {}" "length (xs @ c # ys) + length ms < 2 ^ 32"
  then show "let (old, st1) = it_replace_list st it k
       in old = info st c \<and> rep st1 l (xs @ c # ms @ ys) \<and>
          data_of st1 (xs @ c # ms @ ys) = data_of st xs @ data_of st (m # ms) @ data_of st ys"
    using replace_list_ok [OF assms, of k m ms it] by (simp add: case_prod_unfold)
qed

theorem list_iterator_edits_witness:
  "\<exists>st1 zs. remove_if True (\<lambda>d. d < 15) sample_store (it_init 7) = Some st1 \<and> rep st1 7 zs \<and>
     data_of st1 zs = [30, 20]"
proof -
  have r: "rep sample_store 7 ([10] @ 11 # [12])" using sample_rep(1) by simp
  show ?thesis
    using list_iterator_edits [OF r, of True "\<lambda>d. d < 15"] by (simp add: sample_store_def)
qed

text \<open>
  Every way to look at a list shows the same sequence: calls of \<^verbatim>\<open>next()\<close> or \<^verbatim>\<open>next_fast()\<close> return
  the data in order and then null for ever, a range-based loop visits them, \<^verbatim>\<open>elem(n)\<close> is the n-th
  or null, \<^verbatim>\<open>head\<close> the first or null, \<^verbatim>\<open>delete_elements\<close> frees each of them once and empties the
  list, and \<^verbatim>\<open>add_unique\<close> adds data only when no element equals it.
\<close>

theorem list_traversals:
  assumes "rep st l ns"
  shows "calls (it_next st) (length ns + j) (it_init l) = data_of st ns @ replicate j NULL \<and>
    calls (next_fast st) (length ns + j) (it_init l) = data_of st ns @ replicate j NULL \<and>
    range_for st (list_begin st l) = Some (data_of st ns) \<and>
    elem st l n = (if unat n < length ns then data_of st ns ! unat n else NULL) \<and>
    head st l = (if ns = [] then NULL else hd (data_of st ns)) \<and>
    delete_elements st l = Some (data_of st ns, empty st l) \<and> rep (empty st l) l [] \<and>
    add_unique st l d eq a =
      Some (if \<exists>x \<in> set (data_of st ns). eq x d then (True, st) else push_back st l d a)"
proof -
  have c: "store_ok st" "chain st (First l) ns end_of_list" "end_of_list \<notin> set ns"
    using assms by (auto simp: rep_def nodes_ok_def)
  have "get_slot st (First l) = first (lst st l)" by simp
  then have "range_for st (first (lst st l)) = Some (data_of st ns)"
    "delete_elements_loop st (first (lst st l)) = Some (data_of st ns)"
    using range_for_chain [OF c(2,3)] delete_elements_loop_chain [OF c(2,3)] by simp_all
  then show ?thesis
    using calls_chain [OF c(1), of "it_next st" "it_init l" ns j]
      calls_chain [OF c(1), of "next_fast st" "it_init l" ns j] c(1,2)
      elem_ok [OF assms] head_ok [OF assms] add_unique_ok [OF assms]
    by (simp add: it_init_def list_begin_def delete_elements_def rep_empty)
qed

theorem list_traversals_witness:
  "calls (it_next sample_store) 5 (it_init 7) = [30, 10, 20, 0, 0] \<and> elem sample_store 7 1 = 10 \<and>
   elem sample_store 7 9 = 0"
proof -
  have l: "length [10, 11, 12 :: node] + 2 = 5" "replicate 2 (0 :: data) = [0, 0]"
    by (simp_all add: numeral_2_eq_2)
  show ?thesis
    using list_traversals [OF sample_rep(1), of 2 1] list_traversals [OF sample_rep(1), of 2 9]
    unfolding l sample_data by simp
qed

text \<open>
  C26. \<^verbatim>\<open>bubble_sort\<close> ends for every comparison function, keeps the nodes and the list object, changes
  nothing outside the list and only permutes its data; when the function compares keys, the
  data come out in ascending order of the keys and equal elements keep their order.
\<close>

theorem bubble_sort_sorts:
  assumes "rep st l ns" and "NULL \<notin> set (data_of st ns)"
  shows "\<exists>st1. bubble_sort st l sort_func = Some st1 \<and> rep st1 l ns \<and> only_info (set ns) st st1 \<and>
    mset (data_of st1 ns) = mset (data_of st ns) \<and>
    (\<forall>key :: data \<Rightarrow> 'k::linorder. three_way sort_func key \<longrightarrow> sorted (map key (data_of st1 ns)) \<and>
       (\<forall>k. filter (\<lambda>d. key d = k) (data_of st1 ns) = filter (\<lambda>d. key d = k) (data_of st ns)))"
  using bubble_sort_ok [OF assms] .

theorem bubble_sort_sorts_witness:
  "three_way (\<lambda>a b. int a - int b) (\<lambda>d :: data. d) \<and>
   (\<exists>st1. bubble_sort sample_store 7 (\<lambda>a b. int a - int b) = Some st1 \<and>
      data_of st1 [10, 11, 12] = [10, 20, 30])"
proof -
  have t: "three_way (\<lambda>a b. int a - int b) (\<lambda>d :: data. d)" by unfold_locales auto
  have "NULL \<notin> set (data_of sample_store [10, 11, 12])" by (simp add: sample_data del: data_of_simps)
  from bubble_sort_sorts [OF sample_rep(1) this, where ?'k = nat, of "\<lambda>a b. int a - int b"] t
  obtain st1 where s: "bubble_sort sample_store 7 (\<lambda>a b. int a - int b) = Some st1"
      "mset (data_of st1 [10, 11, 12]) = mset [30, 10, 20]"
      "sorted (map (\<lambda>d. d) (data_of st1 [10, 11, 12]))"
    by (auto simp: sample_data simp del: data_of_simps)
  then have "data_of st1 [10, 11, 12] = sort [30, 10, 20]"
    by (metis list.map_ident properties_for_sort)
  then show ?thesis using t s(1) by auto
qed

text \<open>
  Three surprises of the code, proved as it is: when the allocation of a node fails, \<^verbatim>\<open>push_back\<close>
  reports the error but has already stored the null pointer in the last slot, so that the list
  is not terminated any more; \<^verbatim>\<open>last_node\<close> never returns the last node but the end marker; and the
  debugging check accepts a sound list only if it is not empty.
\<close>

theorem list_weak_points:
  assumes "rep st l ns"
  shows "(let (err, st1) = push_back st l d NULL
      in err \<and> get_slot st1 (end_slot (First l) ns) = NULL \<and> (\<nexists>ms. rep st1 l ms)) \<and>
    last_node st l = end_of_list \<and>
    check_list st l = Some (ns \<noteq> [] \<and> NULL \<notin> set (butlast (data_of st ns)))"
proof -
  define st1 where "st1 = set_slot st (end_slot (First l) ns) NULL"
  have "push_back st l d NULL = (True, st1)"
    using assms by (simp add: push_back_def list_node_def rep_def st1_def)
  moreover have "\<not> rep st1 l ms" for ms
  proof
    assume "rep st1 l ms"
    then have "get_slot st1 (last_slot (lst st1 l)) = end_of_list"
      using chain_end [of st1 "First l" ms] by (simp add: rep_def)
    then show False using assms by (simp add: st1_def store_simps rep_def)
  qed
  ultimately show ?thesis
    using last_node_ok [OF assms] check_list_ok [OF assms] by (simp add: st1_def)
qed

theorem list_weak_points_witness:
  "fst (push_back sample_store 7 40 0) \<and> (\<nexists>ms. rep (snd (push_back sample_store 7 40 0)) 7 ms) \<and>
   last_node sample_store 7 = 1 \<and> check_list (empty sample_store 7) 7 = Some False"
proof -
  have "store_ok sample_store" using sample_rep(1) by (simp add: rep_def)
  then have "check_list (empty sample_store 7) 7 = Some False"
    using list_weak_points [OF rep_empty] by simp
  then show ?thesis
    using list_weak_points [OF sample_rep(1), of 40] by (simp add: case_prod_unfold Let_def)
qed

end
