(* ===== verification/Sql_I_List.thy ===== *)
theory Sql_I_List
  imports Sql_List
begin

text \<open>
  The intrusive lists of \<^verbatim>\<open>sql_list.h\<close>: \<^verbatim>\<open>SQL_I_List\<close>, linked through a pointer inside its elements
  and terminated by the null pointer, and \<^verbatim>\<open>base_ilist\<close>, doubly linked through \<^verbatim>\<open>ilink\<close> with a
  sentinel inside the list object. \<^verbatim>\<open>SQL_I_List\<close> lives in the store of \<open>Sql_List\<close>: the member
  \<^verbatim>\<open>next\<close> of the list object is \<^const>\<open>last_slot\<close>, the pointer inside element \<open>n\<close> is \<open>nxt st n\<close>.
\<close>

section \<open>SQL_I_List\<close>

definition i_empty :: "store \<Rightarrow> list_id \<Rightarrow> store" where
  "i_empty st this = put_list st this \<lparr>first = NULL, last_slot = First this, elements = 0\<rparr>"

definition i_assign :: "store \<Rightarrow> list_id \<Rightarrow> list_id \<Rightarrow> store" where
  "i_assign st this tmp =
     put_list st this \<lparr>first = first (lst st tmp),
       last_slot = (if elements (lst st tmp) \<noteq> 0 then last_slot (lst st tmp) else First this),
       elements = elements (lst st tmp)\<rparr>"

definition link_in_list :: "store \<Rightarrow> list_id \<Rightarrow> node \<Rightarrow> slot \<Rightarrow> store" where
  "link_in_list st this element next_ptr =
     (let st = set_elements st this (elements (lst st this) + 1);
          st = set_slot st (last_slot (lst st this)) element;
          st = set_last st this next_ptr
      in set_slot st (last_slot (lst st this)) NULL)"

definition save_and_clear :: "store \<Rightarrow> list_id \<Rightarrow> list_id \<Rightarrow> store" where
  "save_and_clear st this save = i_empty (i_assign st save this) this"

definition i_push_front :: "store \<Rightarrow> list_id \<Rightarrow> list_id \<Rightarrow> store" where
  "i_push_front st this save =
     (let st = set_slot st (last_slot (lst st save)) (first (lst st this));
          st = set_slot st (First this) (first (lst st save))
      in set_elements st this (elements (lst st this) + elements (lst st save)))"

definition i_push_back :: "store \<Rightarrow> list_id \<Rightarrow> list_id \<Rightarrow> store" where
  "i_push_back st this save =
     (if first (lst st save) \<noteq> NULL
      then let st = set_slot st (last_slot (lst st this)) (first (lst st save));
               st = set_last st this (last_slot (lst st save))
           in set_elements st this (elements (lst st this) + elements (lst st save))
      else st)"

text \<open>The invariant of a list linked through the elements \<open>ns\<close>.\<close>

definition irep :: "store \<Rightarrow> list_id \<Rightarrow> node list \<Rightarrow> bool" where
  "irep st l ns \<longleftrightarrow> distinct ns \<and> NULL \<notin> set ns \<and> chain st (First l) ns NULL \<and>
     last_slot (lst st l) = end_slot (First l) ns \<and> unat (elements (lst st l)) = length ns"

lemma irep_slots: "irep st l ns \<Longrightarrow> distinct (First l # map Next ns)"
  by (auto simp: irep_def distinct_map inj_on_def)

lemma irep_first: "irep st l ns \<Longrightarrow> first (lst st l) = hd (ns @ [NULL])"
  using chain_start [of st "First l" ns NULL] by (simp add: irep_def)

lemma irep_set_end:
  assumes "irep st l ns"
  shows "chain (set_slot st (end_slot (First l) ns) v) (First l) ns v"
proof -
  have "chain st (First l) ns NULL" using assms by (simp add: irep_def)
  then show ?thesis by (rule chain_set_end) (rule irep_slots [OF assms])
qed

lemma link_in_list_ok:
  assumes r: "irep st l ns" and a: "a \<noteq> NULL" "a \<notin> set ns" "length ns + 1 < 2 ^ 32"
  shows "irep (link_in_list st l a (Next a)) l (ns @ [a])"
proof -
  let ?L = "end_slot (First l) ns"
  define st1 where "st1 = set_slot (set_elements st l (elements (lst st l) + 1)) ?L a"
  define st2 where "st2 = set_slot (set_last st1 l (Next a)) (Next a) NULL"
  have L: "last_slot (lst st l) = ?L" "?L \<noteq> Next a"
    using r a(2) end_slot_neq [of a ns "First l"] by (auto simp: irep_def)
  have res: "link_in_list st l a (Next a) = st2"
    using L by (simp add: link_in_list_def st2_def st1_def store_simps Let_def)
  have "chain (set_elements st l (elements (lst st l) + 1)) (First l) ns NULL"
    using r by (simp add: irep_def)
  then have "chain st1 (First l) ns a"
    unfolding st1_def using chain_set_end [OF _ irep_slots [OF r]] by blast
  then have c: "chain st2 (First l) ns a" using a(2) by (simp add: st2_def)
  then have "chain st2 (First l) (ns @ [a]) NULL"
    using chain_end [OF c] by (simp add: chain_append st2_def store_simps)
  moreover have "unat (elements (lst st l) + 1) = length ns + 1"
    using r a(3) by (simp add: irep_def uint_inc)
  ultimately show ?thesis
    using r a by (simp add: res irep_def st2_def st1_def store_simps)
qed

lemma i_empty_ok: "irep (i_empty st l) l []"
  by (simp add: irep_def i_empty_def store_simps)

lemma save_and_clear_ok:
  assumes r: "irep st l ns" and k: "k \<noteq> l"
  shows "irep (save_and_clear st l k) k ns" and "irep (save_and_clear st l k) l []"
proof -
  have e: "elements (lst st l) = 0 \<longleftrightarrow> ns = []"
    using r by (metis irep_def length_0_conv unat_0 unat_eq_zero)
  have "chain (save_and_clear st l k) (First k) ns NULL"
    by (rule chain_reroot [of st "First l" ns])
      (use r k in \<open>auto simp: irep_def save_and_clear_def i_empty_def i_assign_def store_simps\<close>)
  then show "irep (save_and_clear st l k) k ns"
    using r k e by (auto simp: irep_def save_and_clear_def i_empty_def i_assign_def store_simps
        end_slot_last)
  show "irep (save_and_clear st l k) l []" unfolding save_and_clear_def by (rule i_empty_ok)
qed

lemma i_push_back_ok:
  assumes r: "irep st l ns" and q: "irep st k ms" and k: "k \<noteq> l" and d: "set ns \<inter> set ms = {}"
    and len: "length ns + length ms < 2 ^ 32"
  shows "irep (i_push_back st l k) l (ns @ ms)"
proof (cases ms)
  case Nil
  then show ?thesis using r irep_first [OF q] by (simp add: i_push_back_def)
next
  case (Cons m ms')
  let ?L = "end_slot (First l) ns"
  define st1 where "st1 = set_slot st ?L m"
  define st2 where "st2 = set_elements (set_last st1 l (end_slot (First k) ms)) l
      (elements (lst st l) + elements (lst st k))"
  have m: "first (lst st k) = m" "m \<noteq> NULL" using q Cons by (auto simp: irep_def)
  have res: "i_push_back st l k = st2"
    using r q m k by (simp add: i_push_back_def Let_def st2_def st1_def store_simps irep_def)
  have c: "chain st1 (First l) ns m" unfolding st1_def by (rule irep_set_end [OF r])
  have "?L \<noteq> Next x" if "x \<in> set ms" for x
    using end_slot_neq [of x ns "First l"] d that by auto
  then have "chain st1 (Next m) ms' NULL"
    using q Cons unfolding st1_def by (subst chain_set_other) (auto simp: irep_def)
  then have "chain st2 (First l) (ns @ ms) NULL"
    using c Cons chain_end [OF c] by (simp add: st2_def chain_append store_simps)
  moreover have "unat (elements (lst st l) + elements (lst st k)) = length ns + length ms"
    using r q len by (simp add: irep_def unat_word_ariths)
  ultimately show ?thesis
    using r q d Cons by (auto simp: res irep_def st2_def st1_def store_simps)
qed

lemma i_push_front_members:
  assumes q: "irep st k (m # ms)" and k: "k \<noteq> l"
  defines "st' \<equiv> i_push_front st l k"
  shows "chain st' (First l) (m # ms) (first (lst st l))"
    and "x \<noteq> last (m # ms) \<Longrightarrow> nxt st' x = nxt st x"
    and "last_slot (lst st' l) = last_slot (lst st l)"
    and "elements (lst st' l) = elements (lst st l) + elements (lst st k)"
proof -
  let ?L = "end_slot (First k) (m # ms)"
  define st1 where "st1 = set_slot st ?L (first (lst st l))"
  have L: "?L = Next (last (m # ms))" by (simp add: end_slot_last)
  have m: "first (lst st k) = m" "last_slot (lst st k) = ?L" using q by (auto simp: irep_def)
  have res: "st' = set_elements (set_slot st1 (First l) m) l (elements (lst st l) + elements (lst st k))"
    using m L k by (auto simp: st'_def i_push_front_def Let_def st1_def store_simps)
  have "chain st1 (First k) (m # ms) (first (lst st l))"
    unfolding st1_def by (rule irep_set_end [OF q])
  then show "chain st' (First l) (m # ms) (first (lst st l))" by (simp add: res store_simps)
  show "last_slot (lst st' l) = last_slot (lst st l)"
    "elements (lst st' l) = elements (lst st l) + elements (lst st k)"
    using L by (simp_all add: res st1_def store_simps)
  show "nxt st' x = nxt st x" if "x \<noteq> last (m # ms)"
    using that L by (simp add: res st1_def store_simps del: last.simps)
qed

lemma i_push_front_ok:
  assumes r: "irep st l (n # ns)" and q: "irep st k ms" and k: "k \<noteq> l"
    and d: "set (n # ns) \<inter> set ms = {}" and len: "length (n # ns) + length ms < 2 ^ 32"
  shows "irep (i_push_front st l k) l (ms @ n # ns)"
proof (cases ms)
  case Nil
  have "i_push_front st l k = set_elements (set_slot (set_slot st (First k) n) (First l) n) l
      (elements (lst st l) + elements (lst st k))"
    using r q k Nil by (simp add: i_push_front_def Let_def irep_def store_simps)
  moreover have "elements (lst st k) = 0"
    using q Nil by (simp add: irep_def unat_eq_zero)
  ultimately show ?thesis using r k Nil by (simp add: irep_def store_simps)
next
  case (Cons m ms')
  note mem = i_push_front_members [OF q [unfolded Cons] k, folded Cons]
  have n: "first (lst st l) = n" using irep_first [OF r] by simp
  have "last ms \<in> set ms" using Cons by simp
  then have neq: "x \<noteq> last ms" if "x \<in> set (n # ns)" for x using that d by blast
  have "chain (i_push_front st l k) (Next n) ns NULL"
    by (rule chain_reroot [of st "Next n" ns]) (use r mem(2) neq in \<open>auto simp: irep_def\<close>)
  moreover have "unat (elements (lst st l) + elements (lst st k)) = length (n # ns) + length ms"
    using r q len by (simp add: irep_def unat_word_ariths)
  ultimately show ?thesis
    using r q d mem(1,3,4) n Cons chain_end [OF mem(1)]
    by (auto simp: irep_def chain_append end_slot_last)
qed

text \<open>
  \<^verbatim>\<open>SQL_I_List\<close> is a sequence with constant-time concatenation: linking an element appends
  it, \<^verbatim>\<open>save_and_clear\<close> moves all elements to the other list object, \<^verbatim>\<open>push_back\<close> appends the
  elements of the other list, and \<^verbatim>\<open>push_front\<close> prepends them to a list that is not empty. On
  an empty list \<^verbatim>\<open>push_front\<close> leaves the pointer \<^verbatim>\<open>next\<close> at \<^verbatim>\<open>first\<close>: the element linked
  next replaces all the elements just added, while the count includes them.
\<close>

theorem sql_i_list_operations:
  assumes "irep st l ns" and "irep st k ms" and "k \<noteq> l" and "set ns \<inter> set ms = {}"
    and "length ns + length ms + 1 < 2 ^ 32" and "a \<noteq> NULL" and "a \<notin> set ns" and "a \<notin> set ms"
  shows "irep (link_in_list st l a (Next a)) l (ns @ [a]) \<and>
    irep (save_and_clear st l k) k ns \<and> irep (save_and_clear st l k) l [] \<and>
    irep (i_push_back st l k) l (ns @ ms) \<and>
    (ns \<noteq> [] \<longrightarrow> irep (i_push_front st l k) l (ms @ ns)) \<and>
    (ns = [] \<and> ms \<noteq> [] \<longrightarrow>
      (let st1 = link_in_list (i_push_front st l k) l a (Next a)
       in chain st1 (First l) [a] NULL \<and> unat (elements (lst st1 l)) = length ms + 1))"
proof (intro conjI impI; (elim conjE)?)
  show "irep (link_in_list st l a (Next a)) l (ns @ [a])"
    using link_in_list_ok assms by simp
  show "irep (save_and_clear st l k) k ns" "irep (save_and_clear st l k) l []"
    using save_and_clear_ok assms by simp_all
  show "irep (i_push_back st l k) l (ns @ ms)" using i_push_back_ok assms by simp
  show "irep (i_push_front st l k) l (ms @ ns)" if "ns \<noteq> []"
    using i_push_front_ok [of st l "hd ns" "tl ns" k ms] that assms by simp
  assume e: "ns = []" "ms \<noteq> []"
  then obtain m ms' where ms: "ms = m # ms'" by (cases ms) auto
  note mem = i_push_front_members [OF assms(2) [unfolded ms] assms(3), folded ms]
  let ?s = "i_push_front st l k"
  have "last_slot (lst ?s l) = First l" using mem(3) assms(1) e by (simp add: irep_def)
  moreover have "elements (lst ?s l) = elements (lst st k)"
    using mem(4) assms(1) e by (simp add: irep_def unat_eq_zero)
  moreover have "unat (elements (lst st k) + 1) = length ms + 1"
    using assms(2,5) by (simp add: irep_def uint_inc)
  ultimately show "let st1 = link_in_list ?s l a (Next a)
       in chain st1 (First l) [a] NULL \<and> unat (elements (lst st1 l)) = length ms + 1"
    by (simp add: link_in_list_def Let_def store_simps)
qed

definition sample_i_store :: store where
  "sample_i_store = \<lparr>nxt = (\<lambda>n. if n = 10 then 11 else 0), info = (\<lambda>n. 0),
     lst = (\<lambda>l. if l = 8 then \<lparr>first = 10, last_slot = Next 11, elements = 2\<rparr>
                else \<lparr>first = 0, last_slot = First l, elements = 0\<rparr>)\<rparr>"

theorem sql_i_list_operations_witness:
  "irep sample_i_store 7 [] \<and> irep sample_i_store 8 [10, 11] \<and>
   irep (i_push_back sample_i_store 7 8) 7 [10, 11] \<and>
   chain (link_in_list (i_push_front sample_i_store 7 8) 7 12 (Next 12)) (First 7) [12] 0"
proof -
  have r: "irep sample_i_store 7 []" "irep sample_i_store 8 [10, 11]"
    by (simp_all add: irep_def sample_i_store_def)
  show ?thesis
    using r sql_i_list_operations [OF r, of 12] by (simp add: Let_def)
qed

section \<open>ilink and base_ilist\<close>

text \<open>An \<^verbatim>\<open>ilink *\<close> is null, the sentinel \<^verbatim>\<open>last\<close> inside a list object, or an element; an
  \<^verbatim>\<open>ilink **\<close> is the member \<^verbatim>\<open>first\<close> of a list object or the member \<^verbatim>\<open>next\<close> of an \<^verbatim>\<open>ilink\<close>, and
  \<^const>\<open>None\<close> when it is null.\<close>

datatype ilink = INull | Sentinel list_id | Elem nat

datatype islot = IFirst list_id | INext ilink

record istore =
  inext :: "ilink \<Rightarrow> ilink"
  iprev :: "ilink \<Rightarrow> islot option"
  ifirst :: "list_id \<Rightarrow> ilink"

definition iget :: "istore \<Rightarrow> islot \<Rightarrow> ilink" where
  "iget st s = (case s of IFirst l \<Rightarrow> ifirst st l | INext n \<Rightarrow> inext st n)"

definition iset :: "istore \<Rightarrow> islot \<Rightarrow> ilink \<Rightarrow> istore" where
  "iset st s v = (case s of IFirst l \<Rightarrow> st\<lparr>ifirst := (ifirst st)(l := v)\<rparr>
                  | INext n \<Rightarrow> st\<lparr>inext := (inext st)(n := v)\<rparr>)"

definition set_prev :: "istore \<Rightarrow> ilink \<Rightarrow> islot option \<Rightarrow> istore" where
  "set_prev st n p = st\<lparr>iprev := (iprev st)(n := p)\<rparr>"

text \<open>The constructor of \<^verbatim>\<open>ilink\<close>.\<close>

definition ilink_init :: "istore \<Rightarrow> ilink \<Rightarrow> istore" where
  "ilink_init st this = iset (set_prev st this None) (INext this) INull"

definition unlink :: "istore \<Rightarrow> ilink \<Rightarrow> istore" where
  "unlink st this =
     (let st = (case iprev st this of Some p \<Rightarrow> iset st p (inext st this) | None \<Rightarrow> st);
          st = (if inext st this \<noteq> INull then set_prev st (inext st this) (iprev st this) else st)
      in iset (set_prev st this None) (INext this) INull)"

definition assert_linked :: "istore \<Rightarrow> ilink \<Rightarrow> bool" where
  "assert_linked st this \<longleftrightarrow> iprev st this \<noteq> None \<and> inext st this \<noteq> INull"

definition assert_not_linked :: "istore \<Rightarrow> ilink \<Rightarrow> bool" where
  "assert_not_linked st this \<longleftrightarrow> iprev st this = None \<and> inext st this = INull"

definition ilist_empty :: "istore \<Rightarrow> list_id \<Rightarrow> istore" where
  "ilist_empty st this =
     set_prev (iset st (IFirst this) (Sentinel this)) (Sentinel this) (Some (IFirst this))"

definition ilist_is_empty :: "istore \<Rightarrow> list_id \<Rightarrow> bool" where
  "ilist_is_empty st this \<longleftrightarrow> ifirst st this = Sentinel this"

definition ilist_is_last :: "istore \<Rightarrow> list_id \<Rightarrow> ilink \<Rightarrow> bool" where
  "ilist_is_last st this p \<longleftrightarrow> inext st p = INull \<or> inext st p = Sentinel this"

definition ilist_append :: "istore \<Rightarrow> list_id \<Rightarrow> ilink \<Rightarrow> istore" where
  "ilist_append st this a =
     (let st = set_prev st (ifirst st this) (Some (INext a));
          st = iset st (INext a) (ifirst st this);
          st = set_prev st a (Some (IFirst this))
      in iset st (IFirst this) a)"

text \<open>\<^verbatim>\<open>*last.prev\<close> is undefined when it is null.\<close>

definition ilist_push_back :: "istore \<Rightarrow> list_id \<Rightarrow> ilink \<Rightarrow> istore option" where
  "ilist_push_back st this a =
     (case iprev st (Sentinel this) of
        None \<Rightarrow> None
      | Some p \<Rightarrow>
          let st = iset st p a;
              st = iset st (INext a) (Sentinel this);
              st = set_prev st a (iprev st (Sentinel this))
          in Some (set_prev st (Sentinel this) (Some (INext a))))"

definition ilist_get :: "istore \<Rightarrow> list_id \<Rightarrow> ilink \<times> istore" where
  "ilist_get st this =
     (let first_link = ifirst st this
      in if first_link = Sentinel this then (INull, st) else (first_link, unlink st first_link))"

definition ilist_head :: "istore \<Rightarrow> list_id \<Rightarrow> ilink" where
  "ilist_head st this = (if ifirst st this \<noteq> Sentinel this then ifirst st this else INull)"

definition move_elements_to :: "istore \<Rightarrow> list_id \<Rightarrow> list_id \<Rightarrow> istore option" where
  "move_elements_to st this new_owner =
     (if ilist_is_empty st new_owner
      then let st = iset st (IFirst new_owner) (ifirst st this);
               st = set_prev st (Sentinel new_owner) (iprev st (Sentinel this));
               st = iset st (INext (Sentinel new_owner)) (inext st (Sentinel this))
           in Some (ilist_empty st this)
      else None)"

record ilist_iterator =
  ii_list :: list_id
  ii_el :: islot
  ii_current :: ilink

definition ilist_iterator_init :: "list_id \<Rightarrow> ilist_iterator" where
  "ilist_iterator_init list_par = \<lparr>ii_list = list_par, ii_el = IFirst list_par, ii_current = INull\<rparr>"

definition ilist_next :: "istore \<Rightarrow> ilist_iterator \<Rightarrow> ilink \<times> ilist_iterator" where
  "ilist_next st it =
     (let c = iget st (ii_el it); it = it\<lparr>ii_current := c\<rparr>
      in if c = Sentinel (ii_list it) then (INull, it) else (c, it\<lparr>ii_el := INext c\<rparr>))"

text \<open>The iterator continues at the slot that held the unlinked element; that slot is null when the
  element was not linked.\<close>

definition ilist_unlink :: "istore \<Rightarrow> ilist_iterator \<Rightarrow> (istore \<times> ilist_iterator) option" where
  "ilist_unlink st it =
     (case iprev st (ii_current it) of
        None \<Rightarrow> None
      | Some tmp \<Rightarrow> Some (unlink st (ii_current it), it\<lparr>ii_el := tmp\<rparr>))"

section \<open>Doubly linked chains\<close>

lemma iget_simps [simp]: "iget st (IFirst l) = ifirst st l" "iget st (INext n) = inext st n"
  by (simp_all add: iget_def)

lemma iset_members [simp]:
  "iget (iset st s v) t = (if s = t then v else iget st t)"
  "inext (iset st s v) n = (if s = INext n then v else inext st n)"
  "ifirst (iset st s v) l = (if s = IFirst l then v else ifirst st l)"
  "iprev (iset st s v) = iprev st"
  by (auto simp: iset_def split: islot.splits)

lemma set_prev_members [simp]:
  "iget (set_prev st n p) t = iget st t" "inext (set_prev st n p) = inext st"
  "ifirst (set_prev st n p) = ifirst st" "iprev (set_prev st n p) = (iprev st)(n := p)"
  by (auto simp: set_prev_def iget_def split: islot.splits)

fun ichain :: "istore \<Rightarrow> islot \<Rightarrow> ilink list \<Rightarrow> ilink \<Rightarrow> bool" where
  "ichain st s [] e \<longleftrightarrow> iget st s = e \<and> iprev st e = Some s"
| "ichain st s (n # ns) e \<longleftrightarrow> iget st s = n \<and> iprev st n = Some s \<and> ichain st (INext n) ns e"

fun iend :: "islot \<Rightarrow> ilink list \<Rightarrow> islot" where
  "iend s [] = s"
| "iend s (n # ns) = iend (INext n) ns"

lemma iend_append [simp]: "iend s (xs @ ys) = iend (iend s xs) ys"
  by (induction s xs rule: iend.induct) simp_all

lemma iend_in: "iend s ns \<in> set (s # map INext ns)"
  by (induction s ns rule: iend.induct) auto

lemma ichain_append:
  "ichain st s (xs @ y # ys) e \<longleftrightarrow> ichain st s xs y \<and> ichain st (INext y) ys e"
  by (induction s xs rule: iend.induct) auto

lemma ichain_end: "ichain st s ns e \<Longrightarrow> iget st (iend s ns) = e \<and> iprev st e = Some (iend s ns)"
  by (induction s ns rule: iend.induct) auto

lemma ichain_cong:
  "(\<And>t. t \<in> set (s # map INext ns) \<Longrightarrow> iget st t = iget st' t) \<Longrightarrow>
   (\<And>n. n \<in> set (ns @ [e]) \<Longrightarrow> iprev st n = iprev st' n) \<Longrightarrow> ichain st s ns e = ichain st' s ns e"
  by (induction s ns rule: iend.induct) simp_all

text \<open>The part before an end that is replaced by another one.\<close>

lemma ichain_new_end:
  assumes "ichain st s ns e" and "distinct (s # map INext ns)" and "e' \<notin> set ns"
    and "iget st' (iend s ns) = e'" and "iprev st' e' = Some (iend s ns)"
    and "\<And>t. t \<in> set (s # map INext ns) \<Longrightarrow> t \<noteq> iend s ns \<Longrightarrow> iget st' t = iget st t"
    and "\<And>n. n \<in> set ns \<Longrightarrow> iprev st' n = iprev st n"
  shows "ichain st' s ns e'"
  using assms
proof (induction s ns rule: iend.induct)
  case (2 s n ns)
  have "s \<noteq> iend s (n # ns)" using iend_in [of "INext n" ns] "2.prems"(2) by auto
  then show ?case using 2 by auto
qed simp

definition ilrep :: "istore \<Rightarrow> list_id \<Rightarrow> ilink list \<Rightarrow> bool" where
  "ilrep st l ns \<longleftrightarrow> distinct ns \<and> (\<forall>n\<in>set ns. \<exists>x. n = Elem x) \<and>
     ichain st (IFirst l) ns (Sentinel l)"

lemma ilrep_slots: "ilrep st l ns \<Longrightarrow> distinct (IFirst l # map INext ns)"
  by (auto simp: ilrep_def distinct_map inj_on_def)

lemma ilrep_not_sentinel: "ilrep st l ns \<Longrightarrow> Sentinel k \<notin> set ns \<and> INull \<notin> set ns"
  by (auto simp: ilrep_def)

lemma ilist_append_ok:
  assumes r: "ilrep st l ns" and a: "Elem x \<notin> set ns"
  shows "ilrep (ilist_append st l (Elem x)) l (Elem x # ns)"
proof -
  let ?st = "ilist_append st l (Elem x)"
  have "ichain ?st (INext (Elem x)) ns (Sentinel l)"
  proof (cases ns)
    case Nil
    then show ?thesis using r by (simp add: ilist_append_def Let_def ilrep_def)
  next
    case (Cons n ms)
    have "ichain ?st (INext n) ms (Sentinel l) = ichain st (INext n) ms (Sentinel l)"
      by (rule ichain_cong)
        (use r a Cons ilrep_not_sentinel [OF r, of l] in \<open>auto simp: ilist_append_def Let_def ilrep_def\<close>)
    then show ?thesis using r a Cons by (auto simp: ilist_append_def Let_def ilrep_def)
  qed
  then show ?thesis using r a by (auto simp: ilrep_def ilist_append_def Let_def)
qed

lemma ilist_push_back_ok:
  assumes r: "ilrep st l ns" and a: "Elem x \<notin> set ns"
  shows "\<exists>st'. ilist_push_back st l (Elem x) = Some st' \<and> ilrep st' l (ns @ [Elem x])"
proof -
  let ?p = "iend (IFirst l) ns"
  have c: "ichain st (IFirst l) ns (Sentinel l)" using r by (simp add: ilrep_def)
  have p: "iprev st (Sentinel l) = Some ?p" using ichain_end [OF c] by simp
  have pa: "?p \<noteq> INext (Elem x)" using iend_in [of "IFirst l" ns] a by auto
  define st' where "st' = set_prev (set_prev (iset (iset st ?p (Elem x)) (INext (Elem x)) (Sentinel l))
      (Elem x) (Some ?p)) (Sentinel l) (Some (INext (Elem x)))"
  have res: "ilist_push_back st l (Elem x) = Some st'"
    by (simp add: ilist_push_back_def p Let_def st'_def)
  have "ichain st' (IFirst l) ns (Elem x)"
    by (rule ichain_new_end [OF c ilrep_slots [OF r] a])
      (use pa a ilrep_not_sentinel [OF r, of l] in \<open>auto simp: st'_def\<close>)
  then have "ichain st' (IFirst l) (ns @ [Elem x]) (Sentinel l)"
    using pa by (simp add: ichain_append st'_def)
  then show ?thesis using res r a by (auto simp: ilrep_def)
qed

lemma unlink_ok:
  assumes r: "ilrep st l (xs @ n # ys)"
  shows "ilrep (unlink st n) l (xs @ ys)" and "assert_not_linked (unlink st n) n"
    and "iprev st n = Some (iend (IFirst l) xs)"
proof -
  let ?p = "iend (IFirst l) xs"
  define q where "q = hd (ys @ [Sentinel l])"
  have c: "ichain st (IFirst l) xs n" "ichain st (INext n) ys (Sentinel l)"
    using r by (auto simp: ilrep_def ichain_append)
  have p: "iprev st n = Some ?p" using ichain_end [OF c(1)] by simp
  have q: "inext st n = q" using c(2) by (cases ys) (auto simp: q_def)
  have qn: "q \<noteq> INull" "q \<noteq> n" "q \<notin> set xs"
    using r ilrep_not_sentinel [OF r, of l] by (cases ys; auto simp: q_def ilrep_def)+
  have pn: "?p \<noteq> INext n" using iend_in [of "IFirst l" xs] r by (auto simp: ilrep_def)
  define st' where "st' = iset (set_prev (set_prev (iset st ?p q) q (Some ?p)) n None) (INext n) INull"
  have res: "unlink st n = st'"
    using p q qn pn by (simp add: unlink_def Let_def st'_def)
  have n: "n \<notin> set xs" "n \<notin> set ys" "distinct xs" using r by (auto simp: ilrep_def)
  have sl: "distinct (IFirst l # map INext xs)"
    using ilrep_slots [OF r] by auto
  have cx: "ichain st' (IFirst l) xs q"
    by (rule ichain_new_end [OF c(1) sl qn(3)]) (use pn n qn in \<open>auto simp: st'_def\<close>)
  have "ichain st' (IFirst l) (xs @ ys) (Sentinel l)"
  proof (cases ys)
    case Nil
    then show ?thesis using cx by (simp add: q_def)
  next
    case (Cons y zs)
    have yz: "?p \<noteq> INext z" if "z \<in> set ys" for z
      using iend_in [of "IFirst l" xs] r that by (auto simp: ilrep_def)
    have "ichain st' (INext y) zs (Sentinel l) = ichain st (INext y) zs (Sentinel l)"
      by (rule ichain_cong)
        (use Cons n yz r ilrep_not_sentinel [OF r, of l] in \<open>auto simp: st'_def q_def ilrep_def\<close>)
    then show ?thesis using cx c(2) Cons by (simp add: ichain_append q_def)
  qed
  then show "ilrep (unlink st n) l (xs @ ys)" using r by (auto simp: res ilrep_def)
  show "assert_not_linked (unlink st n) n" by (simp add: res assert_not_linked_def st'_def)
  show "iprev st n = Some ?p" by (rule p)
qed

lemma ilist_empty_ok: "ilrep (ilist_empty st l) l []"
  by (simp add: ilrep_def ilist_empty_def)

lemma ilist_get_ok:
  assumes r: "ilrep st l ns"
  shows "fst (ilist_get st l) = (if ns = [] then INull else hd ns)"
    and "ilrep (snd (ilist_get st l)) l (tl ns)"
proof -
  have "fst (ilist_get st l) = (if ns = [] then INull else hd ns) \<and> ilrep (snd (ilist_get st l)) l (tl ns)"
  proof (cases ns)
    case Nil
    then show ?thesis using r by (simp add: ilist_get_def ilrep_def)
  next
    case (Cons n ms)
    then have "ifirst st l = n" "n \<noteq> Sentinel l"
      using r ilrep_not_sentinel [OF r, of l] by (auto simp: ilrep_def)
    moreover have "ilrep (unlink st n) l ([] @ ms)" using r Cons by (intro unlink_ok) simp
    ultimately show ?thesis using Cons by (simp add: ilist_get_def)
  qed
  then show "fst (ilist_get st l) = (if ns = [] then INull else hd ns)"
    "ilrep (snd (ilist_get st l)) l (tl ns)" by simp_all
qed

text \<open>
  \<^verbatim>\<open>base_ilist\<close> keeps a doubly linked sequence: \<^verbatim>\<open>append\<close> links an element in front, \<^verbatim>\<open>push_back\<close> at
  the end, \<^verbatim>\<open>get\<close> takes the first one off (null when there is none), and \<^verbatim>\<open>unlink\<close> removes an
  element from wherever it is and leaves it unlinked.
\<close>

theorem ilist_operations:
  assumes "ilrep st l (xs @ ys)" and "Elem x \<notin> set (xs @ ys)"
  shows "ilrep (ilist_append st l (Elem x)) l (Elem x # xs @ ys) \<and>
    (\<exists>st1. ilist_push_back st l (Elem x) = Some st1 \<and> ilrep st1 l (xs @ ys @ [Elem x])) \<and>
    (let (e, st1) = ilist_get st l
     in e = (if xs @ ys = [] then INull else hd (xs @ ys)) \<and> ilrep st1 l (tl (xs @ ys))) \<and>
    (\<forall>n zs. ys = n # zs \<longrightarrow> ilrep (unlink st n) l (xs @ zs) \<and> assert_not_linked (unlink st n) n)"
proof (intro conjI allI impI)
  show "ilrep (ilist_append st l (Elem x)) l (Elem x # xs @ ys)"
    using ilist_append_ok [OF assms] .
  show "\<exists>st1. ilist_push_back st l (Elem x) = Some st1 \<and> ilrep st1 l (xs @ ys @ [Elem x])"
    using ilist_push_back_ok [OF assms] by simp
  show "let (e, st1) = ilist_get st l
     in e = (if xs @ ys = [] then INull else hd (xs @ ys)) \<and> ilrep st1 l (tl (xs @ ys))"
    using ilist_get_ok [OF assms(1)] by (simp add: case_prod_unfold)
  fix n zs
  assume "ys = n # zs"
  then show "ilrep (unlink st n) l (xs @ zs)" "assert_not_linked (unlink st n) n"
    using unlink_ok assms(1) by simp_all
qed

definition sample_istore :: istore where
  "sample_istore = (let st = ilist_empty (ilist_empty \<lparr>inext = (\<lambda>n. INull), iprev = (\<lambda>n. None),
       ifirst = (\<lambda>l. INull)\<rparr> 1) 2 in ilist_append (ilist_append st 1 (Elem 5)) 1 (Elem 4))"

lemma sample_ilrep: "ilrep sample_istore 1 ([Elem 4] @ [Elem 5])" "ilrep sample_istore 2 []"
  by (simp_all add: ilrep_def sample_istore_def ilist_empty_def ilist_append_def Let_def)

theorem ilist_operations_witness:
  "ilrep (ilist_append sample_istore 1 (Elem 3)) 1 [Elem 3, Elem 4, Elem 5] \<and>
   ilrep (unlink sample_istore (Elem 5)) 1 [Elem 4]"
  using ilist_operations [OF sample_ilrep(1), of 3] by simp

text \<open>
  \<^verbatim>\<open>move_elements_to\<close> does not move a list: it copies the head and the sentinel, but the last
  element still points to the sentinel of the old owner, so the new owner does not end; even
  moving an empty list leaves the new owner not empty. The old owner is emptied.
\<close>

theorem move_elements_to_broken:
  assumes "ilrep st l ns" and "ilrep st k []" and "k \<noteq> l"
  shows "\<exists>st1. move_elements_to st l k = Some st1 \<and> ilrep st1 l [] \<and> \<not> ilist_is_empty st1 k \<and>
    (ns \<noteq> [] \<longrightarrow> inext st1 (last ns) = Sentinel l) \<and> (\<nexists>ms. ilrep st1 k ms)"
proof -
  let ?p = "iend (IFirst l) ns"
  have e: "iget st ?p = Sentinel l" "iprev st (Sentinel l) = Some ?p"
    using ichain_end assms(1) by (auto simp: ilrep_def)
  have f: "ifirst st l \<noteq> Sentinel k"
    using assms(1,3) by (cases ns) (auto simp: ilrep_def)
  have empty: "ifirst st k = Sentinel k" using assms(2) by (simp add: ilrep_def)
  define st1 where "st1 = ilist_empty (iset (set_prev (iset st (IFirst k) (ifirst st l)) (Sentinel k)
      (iprev st (Sentinel l))) (INext (Sentinel k)) (inext st (Sentinel l))) l"
  have mv: "move_elements_to st l k = Some st1"
    using assms(3) empty by (simp add: move_elements_to_def ilist_is_empty_def Let_def st1_def)
  have last: "inext st1 (last ns) = Sentinel l" if ne: "ns \<noteq> []"
  proof -
    obtain ms z where z: "ns = ms @ [z]" using ne by (metis append_butlast_last_id)
    then have "z \<noteq> Sentinel k" using assms(1) by (auto simp: ilrep_def)
    then show ?thesis using e(1) z by (simp add: st1_def ilist_empty_def)
  qed
  have "\<not> ilrep st1 k ms" for ms
  proof
    assume "ilrep st1 k ms"
    then have g: "iget st1 (iend (IFirst k) ms) = Sentinel k"
        "iprev st1 (Sentinel k) = Some (iend (IFirst k) ms)"
      using ichain_end [of st1 "IFirst k" ms] by (auto simp: ilrep_def)
    then have "iend (IFirst k) ms = ?p" using e(2) assms(3) by (simp add: st1_def ilist_empty_def)
    moreover have "iget st1 ?p = Sentinel l"
      using last e(1) by (cases ns rule: rev_cases) (simp_all add: st1_def ilist_empty_def)
    ultimately show False using g(1) assms(3) by simp
  qed
  moreover have "ilrep st1 l []" unfolding st1_def by (rule ilist_empty_ok)
  moreover have "\<not> ilist_is_empty st1 k"
    using f assms(3) by (simp add: ilist_is_empty_def st1_def ilist_empty_def)
  ultimately show ?thesis using mv last by blast
qed

theorem move_elements_to_broken_witness:
  "\<exists>st1. move_elements_to sample_istore 1 2 = Some st1 \<and> inext st1 (Elem 5) = Sentinel 1 \<and>
     (\<nexists>ms. ilrep st1 2 ms)"
  using move_elements_to_broken [OF sample_ilrep] by auto

end
