(* ===== verification/Ilist.thy ===== *)
theory Ilist
  imports Prelude
begin

text \<open>
  The intrusive doubly linked list of \<^verbatim>\<open>ilist.h\<close>: a ring through a sentinel node inside the list
  object. A pointer to a node is a number, 0 being null; a list is named by the address of its
  sentinel, and an iterator is the node it points to. A failed debug assertion is \<^const>\<open>None\<close>.
  The element count of \<^verbatim>\<open>sized_ilist\<close> keeps its 64 bits.
\<close>

section \<open>Nodes\<close>

type_synonym list_node = nat

record nodes =
  nextp :: "list_node \<Rightarrow> list_node"
  prevp :: "list_node \<Rightarrow> list_node"
  m_size :: "list_node \<Rightarrow> 64 word"

definition set_next :: "nodes \<Rightarrow> list_node \<Rightarrow> list_node \<Rightarrow> nodes" where
  "set_next st n v = st\<lparr>nextp := (nextp st)(n := v)\<rparr>"

definition set_prev :: "nodes \<Rightarrow> list_node \<Rightarrow> list_node \<Rightarrow> nodes" where
  "set_prev st n v = st\<lparr>prevp := (prevp st)(n := v)\<rparr>"

definition ilist_node :: "nodes \<Rightarrow> list_node \<Rightarrow> list_node \<Rightarrow> list_node \<Rightarrow> nodes" where
  "ilist_node st this nx pv = set_prev (set_next st this nx) this pv"

section \<open>Iterator\<close>

definition Iterator :: "list_node \<Rightarrow> list_node option" where
  "Iterator nd = (if nd \<noteq> 0 then Some nd else None)"

definition iterator_inc :: "nodes \<Rightarrow> list_node \<Rightarrow> list_node option" where
  "iterator_inc st nd = (if nextp st nd \<noteq> 0 then Some (nextp st nd) else None)"

definition iterator_dec :: "nodes \<Rightarrow> list_node \<Rightarrow> list_node option" where
  "iterator_dec st nd = (if prevp st nd \<noteq> 0 then Some (prevp st nd) else None)"

definition iterator_eq :: "list_node \<Rightarrow> list_node \<Rightarrow> bool" where
  "iterator_eq lhs rhs \<longleftrightarrow> lhs = rhs"

section \<open>ilist\<close>

definition ilist_init :: "nodes \<Rightarrow> list_node \<Rightarrow> nodes" where
  "ilist_init st this = ilist_node st this this this"

definition begin_it :: "nodes \<Rightarrow> list_node \<Rightarrow> list_node option" where
  "begin_it st this = Iterator (nextp st this)"

definition end_it :: "list_node \<Rightarrow> list_node option" where
  "end_it this = Iterator this"

definition front :: "nodes \<Rightarrow> list_node \<Rightarrow> list_node option" where
  "front st this = begin_it st this"

definition back_elem :: "nodes \<Rightarrow> list_node \<Rightarrow> list_node option" where
  "back_elem st this = Option.bind (end_it this) (iterator_dec st)"

definition is_empty :: "nodes \<Rightarrow> list_node \<Rightarrow> bool" where
  "is_empty st this \<longleftrightarrow> nextp st this = this"

definition clear :: "nodes \<Rightarrow> list_node \<Rightarrow> nodes" where
  "clear st this = set_prev (set_next st this this) this this"

definition insert_at :: "nodes \<Rightarrow> list_node \<Rightarrow> list_node \<Rightarrow> nodes" where
  "insert_at st pos value =
     (let curr = pos; pv = prevp st pos;
          st = set_next st pv value;
          st = set_prev st curr value;
          st = set_prev st value pv
      in set_next st value curr)"

text \<open>The returned iterator follows the erased node. Its links are cleared in debug builds, which
  are the ones that check assertions.\<close>

definition erase :: "nodes \<Rightarrow> list_node \<Rightarrow> list_node option \<times> nodes" where
  "erase st pos =
     (let pv = prevp st pos; nx = nextp st pos;
          st = set_next st pv nx;
          st = set_prev st nx pv;
          curr = pos;
          st = set_prev st curr 0;
          st = set_next st curr 0
      in (Iterator nx, st))"

definition push_back :: "nodes \<Rightarrow> list_node \<Rightarrow> list_node \<Rightarrow> nodes" where
  "push_back st this value = insert_at st this value"

definition pop_back :: "nodes \<Rightarrow> list_node \<Rightarrow> nodes" where
  "pop_back st this = snd (erase st this)"

definition push_front :: "nodes \<Rightarrow> list_node \<Rightarrow> list_node \<Rightarrow> nodes" where
  "push_front st this value = insert_at st (nextp st this) value"

definition pop_front :: "nodes \<Rightarrow> list_node \<Rightarrow> nodes" where
  "pop_front st this = snd (erase st (nextp st this))"

definition remove :: "nodes \<Rightarrow> list_node \<Rightarrow> nodes" where
  "remove st value = snd (erase st value)"

section \<open>sized_ilist\<close>

definition set_size :: "nodes \<Rightarrow> list_node \<Rightarrow> 64 word \<Rightarrow> nodes" where
  "set_size st this k = st\<lparr>m_size := (m_size st)(this := k)\<rparr>"

definition sized_init :: "nodes \<Rightarrow> list_node \<Rightarrow> nodes" where
  "sized_init st this = set_size (ilist_init st this) this 0"

definition sized_clear :: "nodes \<Rightarrow> list_node \<Rightarrow> nodes" where
  "sized_clear st this = set_size (clear st this) this 0"

definition sized_insert :: "nodes \<Rightarrow> list_node \<Rightarrow> list_node \<Rightarrow> list_node \<Rightarrow> nodes" where
  "sized_insert st this pos value = insert_at (set_size st this (m_size st this + 1)) pos value"

definition sized_erase :: "nodes \<Rightarrow> list_node \<Rightarrow> list_node \<Rightarrow> list_node option \<times> nodes" where
  "sized_erase st this pos = erase (set_size st this (m_size st this - 1)) pos"

definition sized_push_back :: "nodes \<Rightarrow> list_node \<Rightarrow> list_node \<Rightarrow> nodes" where
  "sized_push_back st this value = sized_insert st this this value"

definition sized_pop_back :: "nodes \<Rightarrow> list_node \<Rightarrow> nodes" where
  "sized_pop_back st this = snd (sized_erase st this this)"

definition sized_push_front :: "nodes \<Rightarrow> list_node \<Rightarrow> list_node \<Rightarrow> nodes" where
  "sized_push_front st this value = sized_insert st this (nextp st this) value"

definition sized_pop_front :: "nodes \<Rightarrow> list_node \<Rightarrow> nodes" where
  "sized_pop_front st this = snd (sized_erase st this (nextp st this))"

definition sized_remove :: "nodes \<Rightarrow> list_node \<Rightarrow> list_node \<Rightarrow> nodes" where
  "sized_remove st this value = snd (sized_erase st this value)"

section \<open>Rings\<close>

text \<open>Consecutive nodes point to each other.\<close>

fun linked :: "nodes \<Rightarrow> list_node list \<Rightarrow> bool" where
  "linked st (x # y # zs) \<longleftrightarrow> nextp st x = y \<and> prevp st y = x \<and> linked st (y # zs)"
| "linked st _ \<longleftrightarrow> True"

definition ring :: "nodes \<Rightarrow> list_node \<Rightarrow> list_node list \<Rightarrow> bool" where
  "ring st s ns \<longleftrightarrow> distinct (s # ns) \<and> 0 \<notin> set (s # ns) \<and> linked st (s # ns @ [s])"

lemma linked_append: "linked st (xs @ y # ys) \<longleftrightarrow> linked st (xs @ [y]) \<and> linked st (y # ys)"
proof (induction xs)
  case (Cons x xs)
  then show ?case by (cases xs) auto
qed simp

lemma linked_cong:
  "(\<And>n. n \<in> set (butlast xs) \<Longrightarrow> nextp st n = nextp st' n) \<Longrightarrow>
   (\<And>n. n \<in> set (tl xs) \<Longrightarrow> prevp st n = prevp st' n) \<Longrightarrow> linked st xs = linked st' xs"
proof (induction xs)
  case (Cons x xs)
  then show ?case by (cases xs) auto
qed simp

lemma nodes_upd [simp]:
  "nextp (set_next st n v) = (nextp st)(n := v)" "prevp (set_next st n v) = prevp st"
  "nextp (set_prev st n v) = nextp st" "prevp (set_prev st n v) = (prevp st)(n := v)"
  "nextp (set_size st n k) = nextp st" "prevp (set_size st n k) = prevp st"
  "m_size (set_next st n v) = m_size st" "m_size (set_prev st n v) = m_size st"
  "m_size (set_size st n k) = (m_size st)(n := k)"
  by (simp_all add: set_next_def set_prev_def set_size_def)

lemma ring_size [simp]: "ring (set_size st n k) s ns = ring st s ns"
  using linked_cong [of "s # ns @ [s]" "set_size st n k" st] by (simp add: ring_def)

text \<open>A cut of the ring: the node before and the node after it.\<close>

lemma ring_cut:
  assumes "ring st s (xs @ ys)"
  obtains P a b Q where "s # xs = P @ [a]" and "ys @ [s] = b # Q" and "linked st (P @ [a])"
    and "linked st (b # Q)" and "nextp st a = b" and "prevp st b = a"
    and "b \<notin> set Q" and "a \<notin> set P" and "b \<notin> set (tl (P @ [a]))" and "a \<notin> set (butlast (b # Q))"
proof -
  obtain P a where P: "s # xs = P @ [a]" by (metis append_butlast_last_id list.distinct(1))
  obtain b Q where Q: "ys @ [s] = b # Q" by (metis append_is_Nil_conv list.exhaust not_Cons_self2)
  have "(P @ [a]) @ b # Q = s # (xs @ ys) @ [s]" unfolding P [symmetric] Q [symmetric] by simp
  then have "linked st ((P @ [a]) @ b # Q)" using assms by (simp add: ring_def)
  then have l2: "linked st (P @ a # b # Q)" by simp
  have d: "distinct (s # xs @ ys)" using assms by (simp add: ring_def)
  have Pa: "set P \<subseteq> set (s # xs)" "a \<in> set (s # xs)" "distinct (P @ [a])"
    using d by (simp_all only: P set_append distinct_append append_Cons [symmetric]) auto
  have bQ: "distinct (b # Q)" unfolding Q [symmetric] using d by simp
  have "butlast (b # Q) = ys" by (metis Q butlast_snoc)
  moreover have "tl (P @ [a]) = xs" by (metis P list.sel(3))
  moreover have "b \<in> set (ys @ [s])" using Q by simp
  ultimately have "b \<notin> set (tl (P @ [a]))" "a \<notin> set (butlast (b # Q))"
    using d Pa(2) by auto
  moreover have "linked st (P @ [a])" "linked st (a # b # Q)"
    using l2 linked_append [of st P a "b # Q"] by simp_all
  ultimately show ?thesis using that [OF P Q] Pa(3) bQ by auto
qed

lemma insert_ring:
  assumes r: "ring st s (xs @ ys)" and v: "v \<noteq> 0" "v \<noteq> s" "v \<notin> set (xs @ ys)"
  shows "ring (insert_at st (hd (ys @ [s])) v) s (xs @ v # ys)"
proof -
  obtain P a b Q where c: "s # xs = P @ [a]" "ys @ [s] = b # Q" "linked st (P @ [a])"
      "linked st (b # Q)" "nextp st a = b" "prevp st b = a" "b \<notin> set Q" "a \<notin> set P"
      "b \<notin> set (tl (P @ [a]))" "a \<notin> set (butlast (b # Q))"
    using ring_cut [OF r] by blast
  let ?st = "insert_at st b v"
  have vs: "v \<notin> set (P @ [a])" "v \<notin> set (b # Q)" using v c(1,2) by (simp_all flip: c(1,2))
  have n: "nextp ?st = (nextp st)(a := v, v := b)" and p: "prevp ?st = (prevp st)(b := v, v := a)"
    using c(6) by (simp_all add: insert_at_def Let_def)
  have "v \<notin> set (tl (P @ [a]))" using vs(1) by (cases P) auto
  then have "linked ?st (P @ [a]) = linked st (P @ [a])"
    using c(8,9) vs(1) by (intro linked_cong) (auto simp: n p)
  moreover have "v \<notin> set (butlast (b # Q))" using vs(2) by (meson in_set_butlastD)
  then have "linked ?st (b # Q) = linked st (b # Q)"
    using c(7,10) vs(2) by (intro linked_cong) (auto simp: n p simp del: butlast.simps)
  ultimately have "linked ?st (P @ [a])" "linked ?st (b # Q)" using c(3,4) by simp_all
  moreover have "linked ?st [a, v, b]" using vs by (simp add: n p)
  ultimately have "linked ?st (P @ a # v # b # Q)" by (subst linked_append) simp
  then have "linked ?st ((s # xs) @ v # ys @ [s])" by (simp add: c(1,2))
  then show ?thesis using r v c(2) by (auto simp: ring_def)
qed

lemma erase_ring:
  assumes r: "ring st s (xs @ n # ys)"
  shows "ring (snd (erase st n)) s (xs @ ys)" and "fst (erase st n) = Some (hd (ys @ [s]))"
    and "nextp (snd (erase st n)) n = 0" and "prevp (snd (erase st n)) n = 0"
proof -
  obtain P a n' Q' where c: "s # xs = P @ [a]" "(n # ys) @ [s] = n' # Q'" "linked st (P @ [a])"
      "linked st (n' # Q')" "nextp st a = n'" "prevp st n' = a" "n' \<notin> set Q'" "a \<notin> set P"
      "n' \<notin> set (tl (P @ [a]))" "a \<notin> set (butlast (n' # Q'))"
    using ring_cut [OF r] by blast
  obtain b Q where Q: "ys @ [s] = b # Q" by (metis append_is_Nil_conv list.exhaust not_Cons_self2)
  have n': "n' = n" "Q' = b # Q" using c(2) Q by auto
  have nb: "nextp st n = b" "prevp st b = n" "linked st (b # Q)" using c(4) n' by simp_all
  have d: "distinct (s # xs @ n # ys)" "0 \<notin> set (s # xs @ n # ys)" using r by (auto simp: ring_def)
  let ?st = "snd (erase st n)"
  have b: "b \<in> set (ys @ [s])" "a \<in> set (s # xs)" using Q c(1) by (metis list.set_intros(1), simp)
  have bn: "b \<noteq> n" "a \<noteq> n" "b \<noteq> 0" using b d by auto
  have nx: "nextp ?st = (nextp st)(a := b, n := 0)" and pv: "prevp ?st = (prevp st)(b := a, n := 0)"
    using nb c(6) n' bn by (auto simp: erase_def Let_def)
  have nP: "n \<notin> set (P @ [a])" "n \<notin> set (b # Q)" using d by (auto simp flip: c(1) Q)
  have Qd: "b \<notin> set Q" "a \<notin> set (butlast (b # Q))" "b \<notin> set (tl (P @ [a]))"
  proof -
    have "distinct (b # Q)" using d(1) by (auto simp flip: Q)
    then show "b \<notin> set Q" by simp
    have "butlast (b # Q) = ys" by (metis Q butlast_snoc)
    then show "a \<notin> set (butlast (b # Q))" using b(2) d(1) by auto
    have "tl (P @ [a]) = xs" by (metis c(1) list.sel(3))
    then show "b \<notin> set (tl (P @ [a]))" using b(1) d(1) by auto
  qed
  have "n \<notin> set (tl (P @ [a]))" using nP(1) by (cases P) auto
  then have "linked ?st (P @ [a]) = linked st (P @ [a])"
    using c(8) Qd(3) nP(1) by (intro linked_cong) (auto simp: nx pv)
  moreover have "n \<notin> set (butlast (b # Q))" using nP(2) by (meson in_set_butlastD)
  then have "linked ?st (b # Q) = linked st (b # Q)"
    using Qd(1,2) nP(2) by (intro linked_cong) (auto simp: nx pv simp del: butlast.simps)
  moreover have "linked ?st [a, b]" using bn by (simp add: nx pv)
  ultimately have "linked ?st (P @ a # b # Q)" using c(3) nb(3) by (subst linked_append) simp
  then have "linked ?st ((s # xs) @ ys @ [s])" by (simp add: c(1) Q)
  then show "ring ?st s (xs @ ys)" using r by (auto simp: ring_def)
  show "fst (erase st n) = Some (hd (ys @ [s]))" using nb bn Q by (simp add: erase_def Let_def Iterator_def)
  show "nextp ?st n = 0" "prevp ?st n = 0" by (simp_all add: nx pv)
qed

lemma ring_next: "ring st s ns \<Longrightarrow> nextp st s = hd (ns @ [s])"
  by (cases ns) (auto simp: ring_def)

lemma ring_init: "s \<noteq> 0 \<Longrightarrow> ring (ilist_init st s) s []" and ring_clear: "s \<noteq> 0 \<Longrightarrow> ring (clear st s) s []"
  by (simp_all add: ring_def ilist_init_def ilist_node_def clear_def)

section \<open>Properties\<close>

text \<open>
  The list is a sequence in both directions: \<^verbatim>\<open>push_front\<close> and \<^verbatim>\<open>push_back\<close> add an element at
  the ends, \<^verbatim>\<open>pop_front\<close> removes the first, \<^verbatim>\<open>erase\<close> and \<^verbatim>\<open>remove\<close> take any element out and clear its
  links, and the iterator they return is at the following element or the end; the counting list
  keeps the number of elements.
\<close>

theorem ilist_ring_operations:
  assumes "ring st s (xs @ n # ys)" and "v \<noteq> 0" and "v \<noteq> s" and "v \<notin> set (xs @ n # ys)"
    and "unat (m_size st s) = length (xs @ n # ys)" and "length (xs @ n # ys) + 1 < 2 ^ 64"
  shows "ring (push_front st s v) s (v # xs @ n # ys) \<and> ring (push_back st s v) s (xs @ n # ys @ [v]) \<and>
    ring (pop_front st s) s (tl (xs @ n # ys)) \<and> ring (remove st n) s (xs @ ys) \<and>
    fst (erase st n) = Some (hd (ys @ [s])) \<and> nextp (remove st n) n = 0 \<and> prevp (remove st n) n = 0 \<and>
    (let st1 = sized_push_back st s v
     in ring st1 s (xs @ n # ys @ [v]) \<and> unat (m_size st1 s) = length (xs @ n # ys @ [v])) \<and>
    (let st1 = sized_remove st s n in ring st1 s (xs @ ys) \<and> unat (m_size st1 s) = length (xs @ ys))"
proof (intro conjI)
  let ?ns = "xs @ n # ys"
  show "ring (push_front st s v) s (v # ?ns)"
    using insert_ring [of st s "[]" ?ns v] assms ring_next [OF assms(1)] by (simp add: push_front_def)
  show pb: "ring (push_back st s v) s (xs @ n # ys @ [v])"
    using insert_ring [of st s ?ns "[]" v] assms by (simp add: push_back_def)
  show "ring (pop_front st s) s (tl ?ns)"
  proof -
    obtain h t where ht: "?ns = h # t" by (cases xs) auto
    then show ?thesis
      using erase_ring(1) [of st s "[]" h t] assms(1) ring_next [OF assms(1)] by (simp add: pop_front_def)
  qed
  note er = erase_ring [OF assms(1)]
  show "ring (remove st n) s (xs @ ys)" "fst (erase st n) = Some (hd (ys @ [s]))"
    "nextp (remove st n) n = 0" "prevp (remove st n) n = 0"
    using er by (simp_all add: remove_def)
  have "ring (insert_at (set_size st s (m_size st s + 1)) s v) s (xs @ n # ys @ [v])"
    using insert_ring [of "set_size st s (m_size st s + 1)" s ?ns "[]" v] assms by simp
  moreover have "unat (m_size st s + 1) = length ?ns + 1"
    using assms(5,6) by (simp add: unat_word_ariths)
  ultimately show "let st1 = sized_push_back st s v
     in ring st1 s (xs @ n # ys @ [v]) \<and> unat (m_size st1 s) = length (xs @ n # ys @ [v])"
    by (simp add: sized_push_back_def sized_insert_def Let_def insert_at_def)
  have "ring (snd (erase (set_size st s (m_size st s - 1)) n)) s (xs @ ys)"
    using erase_ring(1) [of "set_size st s (m_size st s - 1)" s xs n ys] assms(1) by simp
  moreover have "unat (m_size st s - 1) = length (xs @ ys)"
    using assms(5) by (subst unat_minus_one) auto
  ultimately show "let st1 = sized_remove st s n in ring st1 s (xs @ ys) \<and> unat (m_size st1 s) = length (xs @ ys)"
    by (simp add: sized_remove_def sized_erase_def Let_def erase_def)
qed

definition sample_nodes :: nodes where
  "sample_nodes = sized_push_back (sized_push_back (sized_init
     \<lparr>nextp = (\<lambda>n. 0), prevp = (\<lambda>n. 0), m_size = (\<lambda>n. 0)\<rparr> 9) 9 1) 9 2"

lemma sample_ring: "ring sample_nodes 9 ([1] @ 2 # [])" "m_size sample_nodes 9 = 2"
  by (simp_all add: ring_def sample_nodes_def sized_push_back_def sized_insert_def insert_at_def
      sized_init_def ilist_init_def ilist_node_def Let_def)

theorem ilist_ring_operations_witness:
  "ring (push_front sample_nodes 9 5) 9 [5, 1, 2] \<and> ring (pop_front sample_nodes 9) 9 [2] \<and>
   ring (sized_remove sample_nodes 9 2) 9 [1]"
  using ilist_ring_operations [OF sample_ring(1), of 5] sample_ring(2) by (simp add: Let_def)

text \<open>
  \<^verbatim>\<open>pop_back\<close> does not remove the last element: it erases the end iterator, that is, the sentinel.
  The elements stay linked to each other in a ring that no longer contains the list object, whose
  links are null, so that \<^verbatim>\<open>begin\<close> violates an assertion; the count of the counting list drops.
\<close>

theorem ilist_pop_back_erases_sentinel:
  assumes "ring st s (n # ns)"
  shows "nextp (pop_back st s) s = 0 \<and> prevp (pop_back st s) s = 0 \<and>
    begin_it (pop_back st s) s = None \<and> (\<nexists>ms. ring (pop_back st s) s ms) \<and>
    linked (pop_back st s) (n # ns @ [n]) \<and>
    m_size (sized_pop_back st s) s = m_size st s - 1"
proof -
  obtain P z where P: "n # ns = P @ [z]" by (metis append_butlast_last_id list.distinct(1))
  have r: "linked st (s # P @ [z, s])" "distinct (s # n # ns)" "0 \<notin> set (s # n # ns)"
  proof -
    have "s # (n # ns) @ [s] = s # P @ [z, s]" by (simp only: P append_assoc append_Cons append_Nil)
    then show "linked st (s # P @ [z, s])" "distinct (s # n # ns)" "0 \<notin> set (s # n # ns)"
      using assms by (metis ring_def)+
  qed
  have sn: "nextp st s = n" using assms by (simp add: ring_def)
  have lz: "linked st ((s # P) @ [z, s])" using r(1) by simp
  then have z: "nextp st z = s" "prevp st s = z" "linked st ((s # P) @ [z])"
    using linked_append [of st "s # P" z "[s]"] by simp_all
  have "z \<in> set (n # ns)" by (simp only: P) simp
  then have zn: "z \<noteq> s" "n \<noteq> s" using r(2) by auto
  let ?st = "pop_back st s"
  have nx: "nextp ?st = (nextp st)(z := n, s := 0)" and pv: "prevp ?st = (prevp st)(n := z, s := 0)"
    using z sn zn by (auto simp: pop_back_def erase_def Let_def)
  have lP: "linked st (P @ [z])" using z(3) by (cases P) auto
  have dP: "distinct (P @ [z])" "s \<notin> set (P @ [z])" "n \<notin> set (tl (P @ [z]))"
    using r(2) by (metis P distinct.simps(2), metis P distinct.simps(2), metis P distinct.simps(2) list.sel(3))
  have "s \<notin> set (tl (P @ [z]))" using dP(2) by (cases P) auto
  then have "linked ?st (P @ [z]) = linked st (P @ [z])"
    using dP by (intro linked_cong) (auto simp: nx pv)
  then have "linked ?st (P @ z # [n])"
    using lP zn by (subst linked_append) (simp add: nx pv)
  then have ring_of_elements: "linked ?st (n # ns @ [n])"
    using P by (metis append_Cons append_assoc append_Nil)
  have s0: "nextp ?st s = 0" "prevp ?st s = 0" by (simp_all add: nx pv)
  have "\<not> ring ?st s ms" for ms
    using s0(1) ring_next [of ?st s ms] by (cases ms) (auto simp: ring_def)
  then show ?thesis
    using s0 ring_of_elements
    by (simp add: begin_it_def Iterator_def sized_pop_back_def sized_erase_def erase_def Let_def)
qed

theorem ilist_pop_back_erases_sentinel_witness:
  "begin_it (pop_back sample_nodes 9) 9 = None \<and> m_size (sized_pop_back sample_nodes 9) 9 = 1"
  using ilist_pop_back_erases_sentinel [of sample_nodes 9 1 "[2]"] sample_ring by simp

end
