(* ===== verification/Byte_Order.thy ===== *)
theory Byte_Order
  imports Prelude
begin

text \<open>
  Integers and floating point numbers in memory: \<^verbatim>\<open>myisampack.h\<close> (high byte first) and
  \<^verbatim>\<open>byte_order_generic.h\<close>, \<^verbatim>\<open>byte_order_generic_x86.h\<close>, \<^verbatim>\<open>byte_order_generic_x86_64.h\<close>,
  \<^verbatim>\<open>little_endian.h\<close>, \<^verbatim>\<open>big_endian.h\<close> and \<^verbatim>\<open>my_byteorder.h\<close> (low byte first).

  A memory maps addresses to bytes; a macro that reads takes the memory and the address, one that
  writes returns the new memory. The argument of a writing macro is a 64-bit value, of which the
  macro keeps the low bytes; \<^verbatim>\<open>long\<close> has 32 bits, as on the platform of the package.
\<close>

named_theorems load_defs \<open>definitions of the reading macros\<close>
named_theorems store_defs \<open>definitions of the writing macros\<close>

type_synonym memory = "nat \<Rightarrow> uchar"

abbreviation b16 :: "uchar \<Rightarrow> uint16" where "b16 \<equiv> ucast"
abbreviation b32 :: "uchar \<Rightarrow> uint32" where "b32 \<equiv> ucast"
abbreviation b64 :: "uchar \<Rightarrow> ulonglong" where "b64 \<equiv> ucast"
abbreviation byte :: "'a::len word \<Rightarrow> uchar" where "byte \<equiv> ucast"

section \<open>Accesses of a little-endian machine\<close>

definition load16 :: "memory \<Rightarrow> nat \<Rightarrow> uint16" where [load_defs]:
  "load16 m p = b16 (m p) OR push_bit 8 (b16 (m (p + 1)))"

definition load32 :: "memory \<Rightarrow> nat \<Rightarrow> uint32" where [load_defs]:
  "load32 m p =
     b32 (m p) OR push_bit 8 (b32 (m (p + 1))) OR push_bit 16 (b32 (m (p + 2))) OR
     push_bit 24 (b32 (m (p + 3)))"

definition load64 :: "memory \<Rightarrow> nat \<Rightarrow> ulonglong" where [load_defs]:
  "load64 m p =
     b64 (m p) OR push_bit 8 (b64 (m (p + 1))) OR push_bit 16 (b64 (m (p + 2))) OR
     push_bit 24 (b64 (m (p + 3))) OR push_bit 32 (b64 (m (p + 4))) OR
     push_bit 40 (b64 (m (p + 5))) OR push_bit 48 (b64 (m (p + 6))) OR push_bit 56 (b64 (m (p + 7)))"

definition store16 :: "memory \<Rightarrow> nat \<Rightarrow> uint16 \<Rightarrow> memory" where [store_defs]:
  "store16 m p v = m(p := byte v, p + 1 := byte (drop_bit 8 v))"

definition store32 :: "memory \<Rightarrow> nat \<Rightarrow> uint32 \<Rightarrow> memory" where [store_defs]:
  "store32 m p v =
     m(p := byte v, p + 1 := byte (drop_bit 8 v), p + 2 := byte (drop_bit 16 v),
       p + 3 := byte (drop_bit 24 v))"

definition store64 :: "memory \<Rightarrow> nat \<Rightarrow> ulonglong \<Rightarrow> memory" where [store_defs]:
  "store64 m p v =
     m(p := byte v, p + 1 := byte (drop_bit 8 v), p + 2 := byte (drop_bit 16 v),
       p + 3 := byte (drop_bit 24 v), p + 4 := byte (drop_bit 32 v), p + 5 := byte (drop_bit 40 v),
       p + 6 := byte (drop_bit 48 v), p + 7 := byte (drop_bit 56 v))"

text \<open>The instruction \<^verbatim>\<open>bswapq\<close> reverses the eight bytes of a register.\<close>

definition bswapq :: "ulonglong \<Rightarrow> ulonglong" where
  "bswapq v = (let b = (\<lambda>k. b64 (byte (drop_bit (8 * k) v))) in
     push_bit 56 (b 0) OR push_bit 48 (b 1) OR push_bit 40 (b 2) OR push_bit 32 (b 3) OR
     push_bit 24 (b 4) OR push_bit 16 (b 5) OR push_bit 8 (b 6) OR b 7)"

section \<open>High byte first: myisampack.h\<close>

text \<open>The readers and writers of keys and file pointers.\<close>

definition mi_uint1korr :: "memory \<Rightarrow> nat \<Rightarrow> uint8" where [load_defs]:
  "mi_uint1korr m p = m p"

definition mi_sint1korr :: "memory \<Rightarrow> nat \<Rightarrow> uint8" where [load_defs]:
  "mi_sint1korr m p = m p"

definition mi_uint2korr :: "memory \<Rightarrow> nat \<Rightarrow> uint16" where [load_defs]:
  "mi_uint2korr m p =
     b16 (m (p + 1)) OR push_bit 8 (b16 (m p))"

definition mi_uint3korr :: "memory \<Rightarrow> nat \<Rightarrow> uint32" where [load_defs]:
  "mi_uint3korr m p =
     b32 (m (p + 2)) OR push_bit 8 (b32 (m (p + 1))) OR push_bit 16 (b32 (m p))"

definition mi_uint4korr :: "memory \<Rightarrow> nat \<Rightarrow> uint32" where [load_defs]:
  "mi_uint4korr m p =
     b32 (m (p + 3)) OR push_bit 8 (b32 (m (p + 2))) OR push_bit 16 (b32 (m (p + 1))) OR
     push_bit 24 (b32 (m p))"

definition mi_uint5korr :: "memory \<Rightarrow> nat \<Rightarrow> ulonglong" where [load_defs]:
  "mi_uint5korr m p =
     ucast (b32 (m (p + 4)) OR push_bit 8 (b32 (m (p + 3))) OR
     push_bit 16 (b32 (m (p + 2))) OR push_bit 24 (b32 (m (p + 1)))) OR
     push_bit 32 (b64 (m p))"

definition mi_uint6korr :: "memory \<Rightarrow> nat \<Rightarrow> ulonglong" where [load_defs]:
  "mi_uint6korr m p =
     ucast (b32 (m (p + 5)) OR push_bit 8 (b32 (m (p + 4))) OR
     push_bit 16 (b32 (m (p + 3))) OR push_bit 24 (b32 (m (p + 2)))) OR
     push_bit 32 (ucast (b32 (m (p + 1)) OR push_bit 8 (b32 (m p))))"

definition mi_uint7korr :: "memory \<Rightarrow> nat \<Rightarrow> ulonglong" where [load_defs]:
  "mi_uint7korr m p =
     ucast (b32 (m (p + 6)) OR push_bit 8 (b32 (m (p + 5))) OR
     push_bit 16 (b32 (m (p + 4))) OR push_bit 24 (b32 (m (p + 3)))) OR
     push_bit 32 (ucast (b32 (m (p + 2)) OR push_bit 8 (b32 (m (p + 1))) OR
     push_bit 16 (b32 (m p))))"

definition mi_uint8korr :: "memory \<Rightarrow> nat \<Rightarrow> ulonglong" where [load_defs]:
  "mi_uint8korr m p =
     ucast (b32 (m (p + 7)) OR push_bit 8 (b32 (m (p + 6))) OR
     push_bit 16 (b32 (m (p + 5))) OR push_bit 24 (b32 (m (p + 4)))) OR
     push_bit 32 (ucast (b32 (m (p + 3)) OR push_bit 8 (b32 (m (p + 2))) OR
     push_bit 16 (b32 (m (p + 1))) OR push_bit 24 (b32 (m p))))"

definition mi_sint2korr :: "memory \<Rightarrow> nat \<Rightarrow> uint16" where [load_defs]:
  "mi_sint2korr m p =
     b16 (m (p + 1)) OR push_bit 8 (b16 (m p))"

definition mi_sint3korr :: "memory \<Rightarrow> nat \<Rightarrow> uint32" where [load_defs]:
  "mi_sint3korr m p =
     (if m p AND 128 \<noteq> 0
      then push_bit 24 255 OR push_bit 16 (b32 (m p)) OR push_bit 8 (b32 (m (p + 1))) OR b32 (m (p + 2))
      else push_bit 16 (b32 (m p)) OR push_bit 8 (b32 (m (p + 1))) OR b32 (m (p + 2)))"

definition mi_sint4korr :: "memory \<Rightarrow> nat \<Rightarrow> uint32" where [load_defs]:
  "mi_sint4korr m p =
     b32 (m (p + 3)) OR push_bit 8 (b32 (m (p + 2))) OR push_bit 16 (b32 (m (p + 1))) OR
     push_bit 24 (b32 (m p))"

definition mi_sint8korr :: "memory \<Rightarrow> nat \<Rightarrow> longlong" where [load_defs]:
  "mi_sint8korr m p = mi_uint8korr m p"

definition mi_int1store :: "memory \<Rightarrow> nat \<Rightarrow> ulonglong \<Rightarrow> memory" where [store_defs]:
  "mi_int1store m p A = m(p := byte A)"

definition mi_int2store :: "memory \<Rightarrow> nat \<Rightarrow> ulonglong \<Rightarrow> memory" where [store_defs]:
  "mi_int2store m p A =
     (let def_temp = ucast A :: uint32
      in m(p + 1 := byte def_temp, p := byte (drop_bit 8 def_temp)))"

definition mi_int3store :: "memory \<Rightarrow> nat \<Rightarrow> ulonglong \<Rightarrow> memory" where [store_defs]:
  "mi_int3store m p A =
     (let def_temp = ucast A :: uint32
      in m(p + 2 := byte def_temp, p + 1 := byte (drop_bit 8 def_temp),
           p := byte (drop_bit 16 def_temp)))"

definition mi_int4store :: "memory \<Rightarrow> nat \<Rightarrow> ulonglong \<Rightarrow> memory" where [store_defs]:
  "mi_int4store m p A =
     (let def_temp = ucast A :: uint32
      in m(p + 3 := byte def_temp, p + 2 := byte (drop_bit 8 def_temp),
           p + 1 := byte (drop_bit 16 def_temp), p := byte (drop_bit 24 def_temp)))"

definition mi_int5store :: "memory \<Rightarrow> nat \<Rightarrow> ulonglong \<Rightarrow> memory" where [store_defs]:
  "mi_int5store m p A =
     (let def_temp = ucast A :: uint32; def_temp2 = ucast (drop_bit 32 A) :: uint32
      in m(p + 4 := byte def_temp, p + 3 := byte (drop_bit 8 def_temp),
           p + 2 := byte (drop_bit 16 def_temp), p + 1 := byte (drop_bit 24 def_temp),
           p := byte def_temp2))"

definition mi_int6store :: "memory \<Rightarrow> nat \<Rightarrow> ulonglong \<Rightarrow> memory" where [store_defs]:
  "mi_int6store m p A =
     (let def_temp = ucast A :: uint32; def_temp2 = ucast (drop_bit 32 A) :: uint32
      in m(p + 5 := byte def_temp, p + 4 := byte (drop_bit 8 def_temp),
           p + 3 := byte (drop_bit 16 def_temp), p + 2 := byte (drop_bit 24 def_temp),
           p + 1 := byte def_temp2, p := byte (drop_bit 8 def_temp2)))"

definition mi_int7store :: "memory \<Rightarrow> nat \<Rightarrow> ulonglong \<Rightarrow> memory" where [store_defs]:
  "mi_int7store m p A =
     (let def_temp = ucast A :: uint32; def_temp2 = ucast (drop_bit 32 A) :: uint32
      in m(p + 6 := byte def_temp, p + 5 := byte (drop_bit 8 def_temp),
           p + 4 := byte (drop_bit 16 def_temp), p + 3 := byte (drop_bit 24 def_temp),
           p + 2 := byte def_temp2, p + 1 := byte (drop_bit 8 def_temp2),
           p := byte (drop_bit 16 def_temp2)))"

definition mi_int8store :: "memory \<Rightarrow> nat \<Rightarrow> ulonglong \<Rightarrow> memory" where [store_defs]:
  "mi_int8store m p A =
     (let def_temp3 = ucast A :: uint32; def_temp4 = ucast (drop_bit 32 A) :: uint32;
          m = mi_int4store m (p + 0) (ucast def_temp4)
      in mi_int4store m (p + 4) (ucast def_temp3))"

section \<open>Low byte first, any architecture: byte_order_generic.h\<close>

text \<open>The definitions that assume nothing of the machine.\<close>

definition uint2korr :: "memory \<Rightarrow> nat \<Rightarrow> uint16" where [load_defs]:
  "uint2korr m p =
     b16 (m p) OR push_bit 8 (b16 (m (p + 1)))"

definition uint3korr :: "memory \<Rightarrow> nat \<Rightarrow> uint32" where [load_defs]:
  "uint3korr m p =
     b32 (m p) OR push_bit 8 (b32 (m (p + 1))) OR push_bit 16 (b32 (m (p + 2)))"

definition uint4korr :: "memory \<Rightarrow> nat \<Rightarrow> uint32" where [load_defs]:
  "uint4korr m p =
     b32 (m p) OR push_bit 8 (b32 (m (p + 1))) OR push_bit 16 (b32 (m (p + 2))) OR
     push_bit 24 (b32 (m (p + 3)))"

definition uint5korr :: "memory \<Rightarrow> nat \<Rightarrow> ulonglong" where [load_defs]:
  "uint5korr m p =
     ucast (b32 (m p) OR push_bit 8 (b32 (m (p + 1))) OR push_bit 16 (b32 (m (p + 2))) OR
     push_bit 24 (b32 (m (p + 3)))) OR push_bit 32 (b64 (m (p + 4)))"

definition uint6korr :: "memory \<Rightarrow> nat \<Rightarrow> ulonglong" where [load_defs]:
  "uint6korr m p =
     ucast (b32 (m p) OR push_bit 8 (b32 (m (p + 1))) OR push_bit 16 (b32 (m (p + 2))) OR
     push_bit 24 (b32 (m (p + 3)))) OR push_bit 32 (b64 (m (p + 4))) OR
     push_bit 40 (b64 (m (p + 5)))"

definition uint8korr :: "memory \<Rightarrow> nat \<Rightarrow> ulonglong" where [load_defs]:
  "uint8korr m p =
     ucast (b32 (m p) OR push_bit 8 (b32 (m (p + 1))) OR push_bit 16 (b32 (m (p + 2))) OR
     push_bit 24 (b32 (m (p + 3)))) OR push_bit 32 (ucast (b32 (m (p + 4)) OR
     push_bit 8 (b32 (m (p + 5))) OR push_bit 16 (b32 (m (p + 6))) OR
     push_bit 24 (b32 (m (p + 7)))))"

definition sint2korr :: "memory \<Rightarrow> nat \<Rightarrow> uint16" where [load_defs]:
  "sint2korr m p =
     b16 (m p) OR push_bit 8 (b16 (m (p + 1)))"

definition sint3korr :: "memory \<Rightarrow> nat \<Rightarrow> uint32" where [load_defs]:
  "sint3korr m p =
     (if m (p + 2) AND 128 \<noteq> 0
      then push_bit 24 255 OR push_bit 16 (b32 (m (p + 2))) OR push_bit 8 (b32 (m (p + 1))) OR b32 (m p)
      else push_bit 16 (b32 (m (p + 2))) OR push_bit 8 (b32 (m (p + 1))) OR b32 (m p))"

definition sint4korr :: "memory \<Rightarrow> nat \<Rightarrow> uint32" where [load_defs]:
  "sint4korr m p =
     b32 (m p) OR push_bit 8 (b32 (m (p + 1))) OR push_bit 16 (b32 (m (p + 2))) OR
     push_bit 24 (b32 (m (p + 3)))"

definition sint8korr :: "memory \<Rightarrow> nat \<Rightarrow> longlong" where [load_defs]:
  "sint8korr m p = uint8korr m p"

definition int2store :: "memory \<Rightarrow> nat \<Rightarrow> ulonglong \<Rightarrow> memory" where [store_defs]:
  "int2store m p A =
     (let def_temp = ucast A :: uint in m(p := byte def_temp, p + 1 := byte (drop_bit 8 def_temp)))"

definition int3store :: "memory \<Rightarrow> nat \<Rightarrow> ulonglong \<Rightarrow> memory" where [store_defs]:
  "int3store m p A =
     m(p := byte A, p + 1 := byte (drop_bit 8 A), p + 2 := byte (drop_bit 16 A))"

definition int4store :: "memory \<Rightarrow> nat \<Rightarrow> ulonglong \<Rightarrow> memory" where [store_defs]:
  "int4store m p A =
     m(p := byte A, p + 1 := byte (drop_bit 8 A), p + 2 := byte (drop_bit 16 A),
       p + 3 := byte (drop_bit 24 A))"

definition int5store :: "memory \<Rightarrow> nat \<Rightarrow> ulonglong \<Rightarrow> memory" where [store_defs]:
  "int5store m p A =
     m(p := byte A, p + 1 := byte (drop_bit 8 A), p + 2 := byte (drop_bit 16 A),
       p + 3 := byte (drop_bit 24 A), p + 4 := byte (drop_bit 32 A))"

definition int6store :: "memory \<Rightarrow> nat \<Rightarrow> ulonglong \<Rightarrow> memory" where [store_defs]:
  "int6store m p A =
     m(p := byte A, p + 1 := byte (drop_bit 8 A), p + 2 := byte (drop_bit 16 A),
       p + 3 := byte (drop_bit 24 A), p + 4 := byte (drop_bit 32 A),
       p + 5 := byte (drop_bit 40 A))"

definition int8store :: "memory \<Rightarrow> nat \<Rightarrow> ulonglong \<Rightarrow> memory" where [store_defs]:
  "int8store m p A =
     (let def_temp = ucast A :: uint; def_temp2 = ucast (drop_bit 32 A) :: uint;
          m = int4store m p (ucast def_temp)
      in int4store m (p + 4) (ucast def_temp2))"

section \<open>Low byte first on x86-64: byte_order_generic_x86_64.h\<close>

text \<open>Unaligned accesses of the machine, and high byte first by swapping the bytes of a register.\<close>

definition x64_sint2korr :: "memory \<Rightarrow> nat \<Rightarrow> uint16" where [load_defs]:
  "x64_sint2korr m p = load16 m p"

definition x64_sint3korr :: "memory \<Rightarrow> nat \<Rightarrow> uint32" where [load_defs]:
  "x64_sint3korr m p =
     (if m (p + 2) AND 128 \<noteq> 0
      then push_bit 24 255 OR push_bit 16 (b32 (m (p + 2))) OR push_bit 8 (b32 (m (p + 1))) OR b32 (m p)
      else push_bit 16 (b32 (m (p + 2))) OR push_bit 8 (b32 (m (p + 1))) OR b32 (m p))"

definition x64_sint4korr :: "memory \<Rightarrow> nat \<Rightarrow> uint32" where [load_defs]:
  "x64_sint4korr m p = load32 m p"

definition x64_uint2korr :: "memory \<Rightarrow> nat \<Rightarrow> uint16" where [load_defs]:
  "x64_uint2korr m p = load16 m p"

definition x64_uint3korr :: "memory \<Rightarrow> nat \<Rightarrow> uint32" where [load_defs]:
  "x64_uint3korr m p =
     b32 (m p) OR push_bit 8 (b32 (m (p + 1))) OR push_bit 16 (b32 (m (p + 2)))"

definition x64_uint4korr :: "memory \<Rightarrow> nat \<Rightarrow> uint32" where [load_defs]:
  "x64_uint4korr m p = load32 m p"

definition x64_uint5korr :: "memory \<Rightarrow> nat \<Rightarrow> ulonglong" where [load_defs]:
  "x64_uint5korr m p =
     (let a = ucast (load32 m p) :: ulonglong; b = b64 (m (p + 4)) in a OR push_bit 32 b)"

definition x64_uint6korr :: "memory \<Rightarrow> nat \<Rightarrow> ulonglong" where [load_defs]:
  "x64_uint6korr m p =
     (let a = ucast (load32 m p) :: ulonglong; b = ucast (load16 m (p + 4)) in a OR push_bit 32 b)"

definition x64_uint8korr :: "memory \<Rightarrow> nat \<Rightarrow> ulonglong" where [load_defs]:
  "x64_uint8korr m p = load64 m p"

definition x64_sint8korr :: "memory \<Rightarrow> nat \<Rightarrow> longlong" where [load_defs]:
  "x64_sint8korr m p = load64 m p"

definition x64_int2store :: "memory \<Rightarrow> nat \<Rightarrow> ulonglong \<Rightarrow> memory" where [store_defs]:
  "x64_int2store m p A = store16 m p (ucast A)"

definition x64_int3store :: "memory \<Rightarrow> nat \<Rightarrow> ulonglong \<Rightarrow> memory" where [store_defs]:
  "x64_int3store m p A =
     m(p := byte A, p + 1 := byte (drop_bit 8 (ucast A :: uint)), p + 2 := byte (drop_bit 16 A))"

definition x64_int4store :: "memory \<Rightarrow> nat \<Rightarrow> ulonglong \<Rightarrow> memory" where [store_defs]:
  "x64_int4store m p A = store32 m p (ucast A)"

definition x64_int5store :: "memory \<Rightarrow> nat \<Rightarrow> ulonglong \<Rightarrow> memory" where [store_defs]:
  "x64_int5store m p A = (let m = store32 m p (ucast A) in m(p + 4 := byte (drop_bit 32 A)))"

definition x64_int6store :: "memory \<Rightarrow> nat \<Rightarrow> ulonglong \<Rightarrow> memory" where [store_defs]:
  "x64_int6store m p A =
     (let m = store32 m p (ucast A) in store16 m (p + 4) (ucast (drop_bit 32 A)))"

definition x64_int8store :: "memory \<Rightarrow> nat \<Rightarrow> ulonglong \<Rightarrow> memory" where [store_defs]:
  "x64_int8store m p A = store64 m p A"

definition x64_mi_uint5korr :: "memory \<Rightarrow> nat \<Rightarrow> ulonglong" where [load_defs]:
  "x64_mi_uint5korr m p =
     (let a = ucast (load32 m p) :: ulonglong; b = b64 (m (p + 4));
          v = push_bit 24 (a OR push_bit 32 b)
      in bswapq v)"

definition x64_mi_uint6korr :: "memory \<Rightarrow> nat \<Rightarrow> ulonglong" where [load_defs]:
  "x64_mi_uint6korr m p =
     (let a = ucast (load32 m p) :: ulonglong; b = ucast (load16 m (p + 4));
          v = push_bit 16 (a OR push_bit 32 b)
      in bswapq v)"

definition x64_mi_uint7korr :: "memory \<Rightarrow> nat \<Rightarrow> ulonglong" where [load_defs]:
  "x64_mi_uint7korr m p =
     (let a = ucast (load32 m p) :: ulonglong; b = ucast (load16 m (p + 4)); c = b64 (m (p + 6));
          v = push_bit 8 (a OR push_bit 32 b OR push_bit 48 c)
      in bswapq v)"

definition x64_mi_uint8korr :: "memory \<Rightarrow> nat \<Rightarrow> ulonglong" where [load_defs]:
  "x64_mi_uint8korr m p = bswapq (load64 m p)"

section \<open>Low byte first on x86: byte_order_generic_x86.h\<close>

text \<open>\<^verbatim>\<open>long\<close> has 32 bits there.\<close>

definition x86_sint2korr :: "memory \<Rightarrow> nat \<Rightarrow> uint16" where [load_defs]:
  "x86_sint2korr m p = load16 m p"

definition x86_sint3korr :: "memory \<Rightarrow> nat \<Rightarrow> uint32" where [load_defs]:
  "x86_sint3korr m p =
     (if m (p + 2) AND 128 \<noteq> 0
      then push_bit 24 255 OR push_bit 16 (b32 (m (p + 2))) OR push_bit 8 (b32 (m (p + 1))) OR b32 (m p)
      else push_bit 16 (b32 (m (p + 2))) OR push_bit 8 (b32 (m (p + 1))) OR b32 (m p))"

definition x86_sint4korr :: "memory \<Rightarrow> nat \<Rightarrow> uint32" where [load_defs]:
  "x86_sint4korr m p = load32 m p"

definition x86_uint2korr :: "memory \<Rightarrow> nat \<Rightarrow> uint16" where [load_defs]:
  "x86_uint2korr m p = load16 m p"

definition x86_uint3korr :: "memory \<Rightarrow> nat \<Rightarrow> uint32" where [load_defs]:
  "x86_uint3korr m p =
     b32 (m p) OR push_bit 8 (b32 (m (p + 1))) OR push_bit 16 (b32 (m (p + 2)))"

definition x86_uint4korr :: "memory \<Rightarrow> nat \<Rightarrow> uint32" where [load_defs]:
  "x86_uint4korr m p = load32 m p"

definition x86_uint5korr :: "memory \<Rightarrow> nat \<Rightarrow> ulonglong" where [load_defs]:
  "x86_uint5korr m p =
     ucast (b32 (m p) OR push_bit 8 (b32 (m (p + 1))) OR push_bit 16 (b32 (m (p + 2))) OR
     push_bit 24 (b32 (m (p + 3)))) OR push_bit 32 (b64 (m (p + 4)))"

definition x86_uint6korr :: "memory \<Rightarrow> nat \<Rightarrow> ulonglong" where [load_defs]:
  "x86_uint6korr m p =
     ucast (b32 (m p) OR push_bit 8 (b32 (m (p + 1))) OR push_bit 16 (b32 (m (p + 2))) OR
     push_bit 24 (b32 (m (p + 3)))) OR push_bit 32 (b64 (m (p + 4))) OR
     push_bit 40 (b64 (m (p + 5)))"

definition x86_uint8korr :: "memory \<Rightarrow> nat \<Rightarrow> ulonglong" where [load_defs]:
  "x86_uint8korr m p = load64 m p"

definition x86_sint8korr :: "memory \<Rightarrow> nat \<Rightarrow> longlong" where [load_defs]:
  "x86_sint8korr m p = load64 m p"

definition x86_int2store :: "memory \<Rightarrow> nat \<Rightarrow> ulonglong \<Rightarrow> memory" where [store_defs]:
  "x86_int2store m p A = store16 m p (ucast A)"

definition x86_int3store :: "memory \<Rightarrow> nat \<Rightarrow> ulonglong \<Rightarrow> memory" where [store_defs]:
  "x86_int3store m p A =
     m(p := byte A, p + 1 := byte (drop_bit 8 (ucast A :: uint)), p + 2 := byte (drop_bit 16 A))"

definition x86_int4store :: "memory \<Rightarrow> nat \<Rightarrow> ulonglong \<Rightarrow> memory" where [store_defs]:
  "x86_int4store m p A = store32 m p (ucast A)"

definition x86_int5store :: "memory \<Rightarrow> nat \<Rightarrow> ulonglong \<Rightarrow> memory" where [store_defs]:
  "x86_int5store m p A =
     m(p := byte A, p + 1 := byte (drop_bit 8 A), p + 2 := byte (drop_bit 16 A),
       p + 3 := byte (drop_bit 24 A), p + 4 := byte (drop_bit 32 A))"

definition x86_int6store :: "memory \<Rightarrow> nat \<Rightarrow> ulonglong \<Rightarrow> memory" where [store_defs]:
  "x86_int6store m p A =
     m(p := byte A, p + 1 := byte (drop_bit 8 A), p + 2 := byte (drop_bit 16 A),
       p + 3 := byte (drop_bit 24 A), p + 4 := byte (drop_bit 32 A),
       p + 5 := byte (drop_bit 40 A))"

definition x86_int8store :: "memory \<Rightarrow> nat \<Rightarrow> ulonglong \<Rightarrow> memory" where [store_defs]:
  "x86_int8store m p A = store64 m p A"

section \<open>Floating point numbers and machine order\<close>

text \<open>
  A float or double is given by the list of its bytes as they lie in memory. \<^verbatim>\<open>memcpy\<close> to and from
  such a value copies them in order.
\<close>

definition copy_in :: "memory \<Rightarrow> nat \<Rightarrow> uchar list \<Rightarrow> memory" where
  "copy_in m p bs = (\<lambda>q. if p \<le> q \<and> q < p + length bs then bs ! (q - p) else m q)"

definition copy_out :: "memory \<Rightarrow> nat \<Rightarrow> nat \<Rightarrow> uchar list" where
  "copy_out m p n = map (\<lambda>k. m (p + k)) [0..<n]"

text \<open>\<^verbatim>\<open>myisampack.h\<close> on a big-endian machine, on a little-endian machine, and on one whose doubles
  have their two words in the other order.\<close>

definition mi_float4store_be :: "memory \<Rightarrow> nat \<Rightarrow> uchar list \<Rightarrow> memory" where [store_defs]:
  "mi_float4store_be m p A = m(p := A ! 0, p + 1 := A ! 1, p + 2 := A ! 2, p + 3 := A ! 3)"

definition mi_float4get_be :: "memory \<Rightarrow> nat \<Rightarrow> uchar list" where [load_defs]:
  "mi_float4get_be m p = [m p, m (p + 1), m (p + 2), m (p + 3)]"

definition mi_float8store_be :: "memory \<Rightarrow> nat \<Rightarrow> uchar list \<Rightarrow> memory" where [store_defs]:
  "mi_float8store_be m p V =
     m(p := V ! 0, p + 1 := V ! 1, p + 2 := V ! 2, p + 3 := V ! 3,
       p + 4 := V ! 4, p + 5 := V ! 5, p + 6 := V ! 6, p + 7 := V ! 7)"

definition mi_float8get_be :: "memory \<Rightarrow> nat \<Rightarrow> uchar list" where [load_defs]:
  "mi_float8get_be m p =
     [m p, m (p + 1), m (p + 2), m (p + 3), m (p + 4), m (p + 5), m (p + 6), m (p + 7)]"

definition mi_float4store :: "memory \<Rightarrow> nat \<Rightarrow> uchar list \<Rightarrow> memory" where [store_defs]:
  "mi_float4store m p A = m(p := A ! 3, p + 1 := A ! 2, p + 2 := A ! 1, p + 3 := A ! 0)"

definition mi_float4get :: "memory \<Rightarrow> nat \<Rightarrow> uchar list" where [load_defs]:
  "mi_float4get m p = [m (p + 3), m (p + 2), m (p + 1), m p]"

definition mi_float8store_mixed :: "memory \<Rightarrow> nat \<Rightarrow> uchar list \<Rightarrow> memory" where [store_defs]:
  "mi_float8store_mixed m p V =
     m(p := V ! 3, p + 1 := V ! 2, p + 2 := V ! 1, p + 3 := V ! 0,
       p + 4 := V ! 7, p + 5 := V ! 6, p + 6 := V ! 5, p + 7 := V ! 4)"

definition mi_float8get_mixed :: "memory \<Rightarrow> nat \<Rightarrow> uchar list" where [load_defs]:
  "mi_float8get_mixed m p =
     [m (p + 3), m (p + 2), m (p + 1), m p, m (p + 7), m (p + 6), m (p + 5), m (p + 4)]"

definition mi_float8store :: "memory \<Rightarrow> nat \<Rightarrow> uchar list \<Rightarrow> memory" where [store_defs]:
  "mi_float8store m p V =
     m(p := V ! 7, p + 1 := V ! 6, p + 2 := V ! 5, p + 3 := V ! 4,
       p + 4 := V ! 3, p + 5 := V ! 2, p + 6 := V ! 1, p + 7 := V ! 0)"

definition mi_float8get :: "memory \<Rightarrow> nat \<Rightarrow> uchar list" where [load_defs]:
  "mi_float8get m p =
     [m (p + 7), m (p + 6), m (p + 5), m (p + 4), m (p + 3), m (p + 2), m (p + 1), m p]"

text \<open>Row numbers and file sizes, for the two settings of each build option.\<close>

definition mi_rowstore :: "memory \<Rightarrow> nat \<Rightarrow> ulonglong \<Rightarrow> memory" where [store_defs]:
  "mi_rowstore m p A = mi_int8store m p A"

definition mi_rowkorr :: "memory \<Rightarrow> nat \<Rightarrow> ulonglong" where [load_defs]:
  "mi_rowkorr m p = mi_uint8korr m p"

definition mi_rowstore_small :: "memory \<Rightarrow> nat \<Rightarrow> uint32 \<Rightarrow> memory" where [store_defs]:
  "mi_rowstore_small m p A = mi_int4store (mi_int4store m p 0) (p + 4) (ucast A)"

definition mi_rowkorr_small :: "memory \<Rightarrow> nat \<Rightarrow> uint32" where [load_defs]:
  "mi_rowkorr_small m p = mi_uint4korr m (p + 4)"

definition mi_sizestore :: "memory \<Rightarrow> nat \<Rightarrow> ulonglong \<Rightarrow> memory" where [store_defs]:
  "mi_sizestore m p A = mi_int8store m p A"

definition mi_sizekorr :: "memory \<Rightarrow> nat \<Rightarrow> ulonglong" where [load_defs]:
  "mi_sizekorr m p = mi_uint8korr m p"

definition mi_sizestore_small :: "memory \<Rightarrow> nat \<Rightarrow> uint32 \<Rightarrow> memory" where [store_defs]:
  "mi_sizestore_small m p A =
     (if A = - 1 then copy_in m p (replicate 8 255)
      else mi_int4store (mi_int4store m p 0) (p + 4) (ucast A))"

definition mi_sizekorr_small :: "memory \<Rightarrow> nat \<Rightarrow> uint32" where [load_defs]:
  "mi_sizekorr_small m p = mi_uint4korr m (p + 4)"

definition int4net :: "memory \<Rightarrow> nat \<Rightarrow> uint32" where [load_defs]:
  "int4net m p =
     b32 (m (p + 3)) OR push_bit 8 (b32 (m (p + 2))) OR push_bit 16 (b32 (m (p + 1))) OR
     push_bit 24 (b32 (m p))"

text \<open>\<^verbatim>\<open>little_endian.h\<close>, with the variant for doubles whose words are in the other order.\<close>

definition float4get :: "memory \<Rightarrow> nat \<Rightarrow> uchar list" where [load_defs]:
  "float4get m p = copy_out m p 4"

definition float4store :: "memory \<Rightarrow> nat \<Rightarrow> uchar list \<Rightarrow> memory" where [store_defs]:
  "float4store m p A = copy_in m p A"

definition doubleget :: "memory \<Rightarrow> nat \<Rightarrow> uchar list" where [load_defs]:
  "doubleget m p = copy_out m p 8"

definition doublestore :: "memory \<Rightarrow> nat \<Rightarrow> uchar list \<Rightarrow> memory" where [store_defs]:
  "doublestore m p V = copy_in m p V"

definition doublestore_mixed :: "memory \<Rightarrow> nat \<Rightarrow> uchar list \<Rightarrow> memory" where [store_defs]:
  "doublestore_mixed m p V =
     m(p + 0 := V ! 4, p + 1 := V ! 5, p + 2 := V ! 6, p + 3 := V ! 7,
       p + 4 := V ! 0, p + 5 := V ! 1, p + 6 := V ! 2, p + 7 := V ! 3)"

definition doubleget_mixed :: "memory \<Rightarrow> nat \<Rightarrow> uchar list" where [load_defs]:
  "doubleget_mixed m p =
     [m (p + 4), m (p + 5), m (p + 6), m (p + 7), m p, m (p + 1), m (p + 2), m (p + 3)]"

definition float8get :: "memory \<Rightarrow> nat \<Rightarrow> uchar list" where [load_defs]:
  "float8get m p = doubleget m p"

definition float8store :: "memory \<Rightarrow> nat \<Rightarrow> uchar list \<Rightarrow> memory" where [store_defs]:
  "float8store m p V = doublestore m p V"

definition ushortget :: "memory \<Rightarrow> nat \<Rightarrow> uint16" where [load_defs]:
  "ushortget m p = uint2korr m p"

definition shortget :: "memory \<Rightarrow> nat \<Rightarrow> uint16" where [load_defs]:
  "shortget m p = sint2korr m p"

definition longget :: "memory \<Rightarrow> nat \<Rightarrow> uint32" where [load_defs]:
  "longget m p = sint4korr m p"

definition ulongget :: "memory \<Rightarrow> nat \<Rightarrow> uint32" where [load_defs]:
  "ulongget m p = uint4korr m p"

definition shortstore :: "memory \<Rightarrow> nat \<Rightarrow> ulonglong \<Rightarrow> memory" where [store_defs]:
  "shortstore m p V = int2store m p V"

definition longstore :: "memory \<Rightarrow> nat \<Rightarrow> ulonglong \<Rightarrow> memory" where [store_defs]:
  "longstore m p V = int4store m p V"

text \<open>\<^verbatim>\<open>big_endian.h\<close>. The bytes of an integer variable of that machine are high byte first.\<close>

definition float4store_be :: "memory \<Rightarrow> nat \<Rightarrow> uchar list \<Rightarrow> memory" where [store_defs]:
  "float4store_be m p A = m(p := A ! 3, p + 1 := A ! 2, p + 2 := A ! 1, p + 3 := A ! 0)"

definition float4get_be :: "memory \<Rightarrow> nat \<Rightarrow> uchar list" where [load_defs]:
  "float4get_be m p = [m (p + 3), m (p + 2), m (p + 1), m p]"

definition float8store_be :: "memory \<Rightarrow> nat \<Rightarrow> uchar list \<Rightarrow> memory" where [store_defs]:
  "float8store_be m p V =
     m(p := V ! 7, p + 1 := V ! 6, p + 2 := V ! 5, p + 3 := V ! 4,
       p + 4 := V ! 3, p + 5 := V ! 2, p + 6 := V ! 1, p + 7 := V ! 0)"

definition float8get_be :: "memory \<Rightarrow> nat \<Rightarrow> uchar list" where [load_defs]:
  "float8get_be m p =
     [m (p + 7), m (p + 6), m (p + 5), m (p + 4), m (p + 3), m (p + 2), m (p + 1), m p]"

definition be_int32 :: "uchar list \<Rightarrow> uint32" where [load_defs]:
  "be_int32 b =
     push_bit 24 (b32 (b ! 0)) OR push_bit 16 (b32 (b ! 1)) OR push_bit 8 (b32 (b ! 2)) OR b32 (b ! 3)"

definition ushortget_be :: "memory \<Rightarrow> nat \<Rightarrow> uint16" where [load_defs]:
  "ushortget_be m p = b16 (m (p + 1)) + push_bit 8 (b16 (m p))"

definition shortget_be :: "memory \<Rightarrow> nat \<Rightarrow> uint16" where [load_defs]:
  "shortget_be m p = b16 (m (p + 1)) + push_bit 8 (b16 (m p))"

definition longget_be :: "memory \<Rightarrow> nat \<Rightarrow> uint32" where [load_defs]:
  "longget_be m p = be_int32 [m p, m (p + 1), m (p + 2), m (p + 3)]"

definition ulongget_be :: "memory \<Rightarrow> nat \<Rightarrow> uint32" where [load_defs]:
  "ulongget_be m p = be_int32 [m p, m (p + 1), m (p + 2), m (p + 3)]"

definition shortstore_be :: "memory \<Rightarrow> nat \<Rightarrow> ulonglong \<Rightarrow> memory" where [store_defs]:
  "shortstore_be m p A =
     (let def_temp = ucast A :: uint in m(p + 1 := byte def_temp, p + 0 := byte (drop_bit 8 def_temp)))"

definition longstore_be :: "memory \<Rightarrow> nat \<Rightarrow> ulonglong \<Rightarrow> memory" where [store_defs]:
  "longstore_be m p A =
     m(p + 3 := byte A, p + 2 := byte (drop_bit 8 A), p + 1 := byte (drop_bit 16 A),
       p + 0 := byte (drop_bit 24 A))"

text \<open>\<^verbatim>\<open>byte_order_generic_x86.h\<close>: a double goes through a union with two 32-bit integers.\<close>

definition le_bytes32 :: "uint32 \<Rightarrow> uchar list" where
  "le_bytes32 w = [byte w, byte (drop_bit 8 w), byte (drop_bit 16 w), byte (drop_bit 24 w)]"

definition le_int32 :: "uchar list \<Rightarrow> uint32" where
  "le_int32 b =
     b32 (b ! 0) OR push_bit 8 (b32 (b ! 1)) OR push_bit 16 (b32 (b ! 2)) OR push_bit 24 (b32 (b ! 3))"

definition x86_doubleget :: "memory \<Rightarrow> nat \<Rightarrow> uchar list" where [load_defs]:
  "x86_doubleget m p = le_bytes32 (load32 m p) @ le_bytes32 (load32 m (p + 4))"

definition x86_doublestore :: "memory \<Rightarrow> nat \<Rightarrow> uchar list \<Rightarrow> memory" where [store_defs]:
  "x86_doublestore m p V =
     (let m = store32 m p (le_int32 (take 4 V)) in store32 m (p + 4) (le_int32 (drop 4 V)))"

definition x86_float4get :: "memory \<Rightarrow> nat \<Rightarrow> uchar list" where [load_defs]:
  "x86_float4get m p = copy_out m p 4"

definition x86_float4store :: "memory \<Rightarrow> nat \<Rightarrow> uchar list \<Rightarrow> memory" where [store_defs]:
  "x86_float4store m p M = copy_in m p M"

section \<open>The contract of a reader and a writer\<close>

text \<open>
  A codec of \<open>n\<close> bytes: byte \<open>pos k\<close> in memory holds the bits from \<open>8 * k\<close> of the value. The two
  laws fix the reader bit by bit and the writer byte by byte; the rest follows.
\<close>

locale byte_codec =
  fixes n :: nat and pos :: "nat \<Rightarrow> nat"
    and ld :: "memory \<Rightarrow> nat \<Rightarrow> 'a::len word" and st :: "memory \<Rightarrow> nat \<Rightarrow> ulonglong \<Rightarrow> memory"
  assumes width: "8 * n \<le> LENGTH('a)" "n \<le> 8"
    and pos: "k < n \<Longrightarrow> pos k < n" "k < n \<Longrightarrow> pos (pos k) = k"
    and load_bit: "bit (ld m p) i \<longleftrightarrow> i < 8 * n \<and> bit (m (p + pos (i div 8))) (i mod 8)"
    and store_byte: "st m p v q = (if p \<le> q \<and> q < p + n then byte (drop_bit (8 * pos (q - p)) v) else m q)"
begin

lemma stored_byte: "k < n \<Longrightarrow> st m p v (p + pos k) = byte (drop_bit (8 * k) v)"
  using pos by (simp add: store_byte)

lemma load_store: "ld (st m p v) p = ucast (take_bit (8 * n) v)"
proof (rule bit_word_eqI)
  fix i assume i: "i < LENGTH('a)"
  have "i div 8 < n" if "i < 8 * n" using that by (simp add: div_less_iff_less_mult mult.commute)
  then show "bit (ld (st m p v) p) i \<longleftrightarrow> bit (ucast (take_bit (8 * n) v) :: 'a word) i"
    using i width bit_imp_le_length [of v i]
    by (auto simp: load_bit stored_byte bit_simps ac_simps)
qed

lemma store_load: "st m p (ucast (ld m p)) = m"
proof
  fix q
  show "st m p (ucast (ld m p)) q = m q"
  proof (cases "p \<le> q \<and> q < p + n")
    case True
    let ?k = "pos (q - p)"
    have k: "?k < n" "pos ?k = q - p" using True pos by auto
    have "byte (drop_bit (8 * ?k) (ucast (ld m p) :: ulonglong)) = m q"
    proof (rule bit_word_eqI)
      fix j assume j: "j < LENGTH(8)"
      then have "8 * ?k + j < 8 * n" using k by simp
      moreover have "(8 * ?k + j) div 8 = ?k" "(8 * ?k + j) mod 8 = j" using j by simp_all
      ultimately show "bit (byte (drop_bit (8 * ?k) (ucast (ld m p) :: ulonglong))) j \<longleftrightarrow> bit (m q) j"
        using j width k True by (simp add: bit_simps load_bit)
    qed
    then show ?thesis using True by (simp add: store_byte)
  qed (auto simp: store_byte)
qed

lemma store_frame: "q < p \<or> p + n \<le> q \<Longrightarrow> st m p v q = m q"
  by (auto simp: store_byte)

lemma load_frame: "(\<And>k. k < n \<Longrightarrow> m (p + k) = m' (p' + k)) \<Longrightarrow> ld m p = ld m' p'"
  using pos by (intro bit_word_eqI) (auto simp: load_bit div_less_iff_less_mult mult.commute)

end

subsection \<open>Bits of the readers, bytes of the writers\<close>

lemma all_less_8: "(\<forall>k<8. P k) \<longleftrightarrow> P 0 \<and> P (1::nat) \<and> P 2 \<and> P 3 \<and> P 4 \<and> P 5 \<and> P 6 \<and> P 7"
proof -
  have "{..<8} = {0, 1, 2, 3, 4, 5, 6, 7 :: nat}"
    by (simp add: lessThan_nat_numeral lessThan_Suc insert_commute)
  then show ?thesis by (metis (mono_tags) lessThan_iff insertE insertI1 insertI2 singletonD)
qed

lemma uchar_bit: "bit (b :: uchar) j \<Longrightarrow> j < 8"
  by (drule bit_imp_le_length) simp

lemma nat_offset: "Suc (p + numeral k) = p + numeral (k + num.One)"
  by simp

lemma load_bitI:
  fixes w :: "'a::len word"
  assumes "\<And>j. j < 8 \<Longrightarrow> \<forall>k<8. bit w (8 * k + j) \<longleftrightarrow> k < n \<and> bit (b k) j"
    and "LENGTH('a) \<le> 64" "n \<le> 8"
  shows "bit w i \<longleftrightarrow> i < 8 * n \<and> bit (b (i div 8)) (i mod 8)"
proof (cases "i < 64")
  case True
  then have "i div 8 < 8" by (simp add: less_mult_imp_div_less)
  moreover have "i < 8 * n \<longleftrightarrow> i div 8 < n" by (simp add: div_less_iff_less_mult mult.commute)
  moreover have "8 * (i div 8) + i mod 8 = i" by simp
  ultimately show ?thesis using assms(1) [of "i mod 8"] by (metis mod_less_divisor zero_less_numeral)
next
  case False
  then show ?thesis using bit_imp_le_length [of w i] assms(2,3) by auto
qed

lemma storeI:
  fixes f :: memory
  assumes "\<forall>k<8. k < n \<longrightarrow> f (p + k) = g k" and "\<And>q. q < p \<or> p + n \<le> q \<Longrightarrow> f q = h q" and "n \<le> 8"
  shows "f q = (if p \<le> q \<and> q < p + n then g (q - p) else h q)"
proof (cases "p \<le> q \<and> q < p + n")
  case True
  then have "q = p + (q - p)" "q - p < n" by auto
  then show ?thesis using True assms(1,3) by (metis less_le_trans)
next
  case False
  then show ?thesis using assms(2) by (auto simp: not_le not_less)
qed

lemmas load_bit_simps = all_less_8 load_defs bit_simps add.commute bswapq_def Let_def nat_offset
lemmas store_byte_simps = all_less_8 store_defs Let_def

interpretation le2: byte_codec 2 "\<lambda>k. k" uint2korr int2store
proof
  show "bit (uint2korr m p) i \<longleftrightarrow> i < 8 * 2 \<and> bit (m (p + i div 8)) (i mod 8)" for m p i
    by (rule load_bitI) (auto simp: load_bit_simps dest: uchar_bit)
  show "int2store m p v q = (if p \<le> q \<and> q < p + 2 then byte (drop_bit (8 * (q - p)) v) else m q)" for m p v q
    by (rule storeI) (simp_all add: store_byte_simps, auto intro!: bit_word_eqI simp: bit_simps ac_simps)
qed simp_all

interpretation le3: byte_codec 3 "\<lambda>k. k" uint3korr int3store
proof
  show "bit (uint3korr m p) i \<longleftrightarrow> i < 8 * 3 \<and> bit (m (p + i div 8)) (i mod 8)" for m p i
    by (rule load_bitI) (auto simp: load_bit_simps dest: uchar_bit)
  show "int3store m p v q = (if p \<le> q \<and> q < p + 3 then byte (drop_bit (8 * (q - p)) v) else m q)" for m p v q
    by (rule storeI) (simp_all add: store_byte_simps, auto intro!: bit_word_eqI simp: bit_simps ac_simps)
qed simp_all

interpretation le4: byte_codec 4 "\<lambda>k. k" uint4korr int4store
proof
  show "bit (uint4korr m p) i \<longleftrightarrow> i < 8 * 4 \<and> bit (m (p + i div 8)) (i mod 8)" for m p i
    by (rule load_bitI) (auto simp: load_bit_simps dest: uchar_bit)
  show "int4store m p v q = (if p \<le> q \<and> q < p + 4 then byte (drop_bit (8 * (q - p)) v) else m q)" for m p v q
    by (rule storeI) (simp_all add: store_byte_simps, auto intro!: bit_word_eqI simp: bit_simps ac_simps)
qed simp_all

interpretation le5: byte_codec 5 "\<lambda>k. k" uint5korr int5store
proof
  show "bit (uint5korr m p) i \<longleftrightarrow> i < 8 * 5 \<and> bit (m (p + i div 8)) (i mod 8)" for m p i
    by (rule load_bitI) (auto simp: load_bit_simps dest: uchar_bit)
  show "int5store m p v q = (if p \<le> q \<and> q < p + 5 then byte (drop_bit (8 * (q - p)) v) else m q)" for m p v q
    by (rule storeI) (simp_all add: store_byte_simps, auto intro!: bit_word_eqI simp: bit_simps ac_simps)
qed simp_all

interpretation le6: byte_codec 6 "\<lambda>k. k" uint6korr int6store
proof
  show "bit (uint6korr m p) i \<longleftrightarrow> i < 8 * 6 \<and> bit (m (p + i div 8)) (i mod 8)" for m p i
    by (rule load_bitI) (auto simp: load_bit_simps dest: uchar_bit)
  show "int6store m p v q = (if p \<le> q \<and> q < p + 6 then byte (drop_bit (8 * (q - p)) v) else m q)" for m p v q
    by (rule storeI) (simp_all add: store_byte_simps, auto intro!: bit_word_eqI simp: bit_simps ac_simps)
qed simp_all

interpretation le8: byte_codec 8 "\<lambda>k. k" uint8korr int8store
proof
  show "bit (uint8korr m p) i \<longleftrightarrow> i < 8 * 8 \<and> bit (m (p + i div 8)) (i mod 8)" for m p i
    by (rule load_bitI) (auto simp: load_bit_simps dest: uchar_bit)
  show "int8store m p v q = (if p \<le> q \<and> q < p + 8 then byte (drop_bit (8 * (q - p)) v) else m q)" for m p v q
    by (rule storeI) (simp_all add: store_byte_simps, auto intro!: bit_word_eqI simp: bit_simps ac_simps)
qed simp_all

interpretation be2: byte_codec 2 "\<lambda>k. 1 - k" mi_uint2korr mi_int2store
proof
  show "bit (mi_uint2korr m p) i \<longleftrightarrow> i < 8 * 2 \<and> bit (m (p + (1 - i div 8))) (i mod 8)" for m p i
    by (rule load_bitI) (auto simp: load_bit_simps dest: uchar_bit)
  show "mi_int2store m p v q =
      (if p \<le> q \<and> q < p + 2 then byte (drop_bit (8 * (1 - (q - p))) v) else m q)" for m p v q
    by (rule storeI) (simp_all add: store_byte_simps, auto intro!: bit_word_eqI simp: bit_simps ac_simps)
qed simp_all

interpretation be3: byte_codec 3 "\<lambda>k. 2 - k" mi_uint3korr mi_int3store
proof
  show "bit (mi_uint3korr m p) i \<longleftrightarrow> i < 8 * 3 \<and> bit (m (p + (2 - i div 8))) (i mod 8)" for m p i
    by (rule load_bitI) (auto simp: load_bit_simps dest: uchar_bit)
  show "mi_int3store m p v q =
      (if p \<le> q \<and> q < p + 3 then byte (drop_bit (8 * (2 - (q - p))) v) else m q)" for m p v q
    by (rule storeI) (simp_all add: store_byte_simps, auto intro!: bit_word_eqI simp: bit_simps ac_simps)
qed simp_all

interpretation be4: byte_codec 4 "\<lambda>k. 3 - k" mi_uint4korr mi_int4store
proof
  show "bit (mi_uint4korr m p) i \<longleftrightarrow> i < 8 * 4 \<and> bit (m (p + (3 - i div 8))) (i mod 8)" for m p i
    by (rule load_bitI) (auto simp: load_bit_simps dest: uchar_bit)
  show "mi_int4store m p v q =
      (if p \<le> q \<and> q < p + 4 then byte (drop_bit (8 * (3 - (q - p))) v) else m q)" for m p v q
    by (rule storeI) (simp_all add: store_byte_simps, auto intro!: bit_word_eqI simp: bit_simps ac_simps)
qed simp_all

interpretation be5: byte_codec 5 "\<lambda>k. 4 - k" mi_uint5korr mi_int5store
proof
  show "bit (mi_uint5korr m p) i \<longleftrightarrow> i < 8 * 5 \<and> bit (m (p + (4 - i div 8))) (i mod 8)" for m p i
    by (rule load_bitI) (auto simp: load_bit_simps dest: uchar_bit)
  show "mi_int5store m p v q =
      (if p \<le> q \<and> q < p + 5 then byte (drop_bit (8 * (4 - (q - p))) v) else m q)" for m p v q
    by (rule storeI) (simp_all add: store_byte_simps, auto intro!: bit_word_eqI simp: bit_simps ac_simps)
qed simp_all

interpretation be6: byte_codec 6 "\<lambda>k. 5 - k" mi_uint6korr mi_int6store
proof
  show "bit (mi_uint6korr m p) i \<longleftrightarrow> i < 8 * 6 \<and> bit (m (p + (5 - i div 8))) (i mod 8)" for m p i
    by (rule load_bitI) (auto simp: load_bit_simps dest: uchar_bit)
  show "mi_int6store m p v q =
      (if p \<le> q \<and> q < p + 6 then byte (drop_bit (8 * (5 - (q - p))) v) else m q)" for m p v q
    by (rule storeI) (simp_all add: store_byte_simps, auto intro!: bit_word_eqI simp: bit_simps ac_simps)
qed simp_all

interpretation be7: byte_codec 7 "\<lambda>k. 6 - k" mi_uint7korr mi_int7store
proof
  show "bit (mi_uint7korr m p) i \<longleftrightarrow> i < 8 * 7 \<and> bit (m (p + (6 - i div 8))) (i mod 8)" for m p i
    by (rule load_bitI) (auto simp: load_bit_simps dest: uchar_bit)
  show "mi_int7store m p v q =
      (if p \<le> q \<and> q < p + 7 then byte (drop_bit (8 * (6 - (q - p))) v) else m q)" for m p v q
    by (rule storeI) (simp_all add: store_byte_simps, auto intro!: bit_word_eqI simp: bit_simps ac_simps)
qed simp_all

interpretation be8: byte_codec 8 "\<lambda>k. 7 - k" mi_uint8korr mi_int8store
proof
  show "bit (mi_uint8korr m p) i \<longleftrightarrow> i < 8 * 8 \<and> bit (m (p + (7 - i div 8))) (i mod 8)" for m p i
    by (rule load_bitI) (auto simp: load_bit_simps dest: uchar_bit)
  show "mi_int8store m p v q =
      (if p \<le> q \<and> q < p + 8 then byte (drop_bit (8 * (7 - (q - p))) v) else m q)" for m p v q
    by (rule storeI) (simp_all add: store_byte_simps, auto intro!: bit_word_eqI simp: bit_simps ac_simps)
qed simp_all

section \<open>Keys in high byte first order\<close>

fun memcmp_less :: "uchar list \<Rightarrow> uchar list \<Rightarrow> bool" where
  "memcmp_less (x # xs) (y # ys) \<longleftrightarrow> x < y \<or> x = y \<and> memcmp_less xs ys"
| "memcmp_less _ _ \<longleftrightarrow> False"

definition be_bytes :: "nat \<Rightarrow> ulonglong \<Rightarrow> uchar list" where
  "be_bytes n v = map (\<lambda>k. byte (drop_bit (8 * (n - 1 - k)) v)) [0..<n]"

lemma be_bytes_Suc: "be_bytes (Suc n) v = byte (drop_bit (8 * n) v) # be_bytes n v"
proof -
  have "[0..<Suc n] = 0 # map Suc [0..<n]" by (metis upt_rec upt_Suc_append zero_less_Suc map_Suc_upt)
  then show ?thesis by (simp add: be_bytes_def comp_def)
qed

lemma digit_less_iff:
  fixes a :: nat
  assumes "r < B" and "s < B"
  shows "a * B + r < b * B + s \<longleftrightarrow> a < b \<or> a = b \<and> r < s"
proof (cases a b rule: linorder_cases)
  case less
  then have "a * B + B \<le> b * B" by (metis add.commute mult_Suc mult_le_mono1 Suc_leI)
  then show ?thesis using less assms by linarith
next
  case greater
  then have "b * B + B \<le> a * B" by (metis add.commute mult_Suc mult_le_mono1 Suc_leI)
  then show ?thesis using greater assms by linarith
qed simp

lemma unat_take_bit_Suc_byte:
  "unat (take_bit (8 * Suc n) (v :: ulonglong)) =
   unat (byte (drop_bit (8 * n) v)) * 2 ^ (8 * n) + unat (take_bit (8 * n) v)"
proof -
  have "unat (take_bit (8 * Suc n) v) = take_bit (8 * n + 8) (unat v)" by (simp add: unsigned_take_bit_eq add.commute)
  also have "\<dots> = take_bit 8 (drop_bit (8 * n) (unat v)) * 2 ^ (8 * n) + take_bit (8 * n) (unat v)"
    unfolding take_bit_eq_mod drop_bit_eq_div power_add mod_mult2_eq by simp
  also have "take_bit 8 (drop_bit (8 * n) (unat v)) = unat (byte (drop_bit (8 * n) v))"
    by (simp add: unsigned_ucast_eq unsigned_drop_bit_eq drop_bit_eq_div [where ?'a = nat])
  finally show ?thesis by (simp add: unsigned_take_bit_eq)
qed

lemma be_bytes_less:
  "memcmp_less (be_bytes n v) (be_bytes n w) \<longleftrightarrow> unat (take_bit (8 * n) v) < unat (take_bit (8 * n) w)"
proof (induction n)
  case (Suc n)
  have lt: "unat (take_bit (8 * n) u) < 2 ^ (8 * n)" for u :: ulonglong
    by (simp add: unsigned_take_bit_eq)
  show ?case
    using digit_less_iff [OF lt lt] Suc
    by (simp add: be_bytes_Suc unat_take_bit_Suc_byte word_less_nat_alt word_unat_eq_iff del: mult_Suc_right)
qed (simp add: be_bytes_def)

text \<open>With the high byte first, the stored bytes compare as the numbers do.\<close>

locale high_first = byte_codec +
  assumes pos_def: "pos k = n - 1 - k"
begin

lemma stored_key: "copy_out (st m p v) p n = be_bytes n v"
  by (simp add: copy_out_def be_bytes_def store_byte pos_def)

lemma key_order:
  "memcmp_less (copy_out (st m p v) p n) (copy_out (st m' p' w) p' n) \<longleftrightarrow>
   unat (take_bit (8 * n) v) < unat (take_bit (8 * n) w)"
  by (simp add: stored_key be_bytes_less)

end

interpretation hf2: high_first 2 "\<lambda>k. 1 - k" mi_uint2korr mi_int2store
  by unfold_locales simp

interpretation hf3: high_first 3 "\<lambda>k. 2 - k" mi_uint3korr mi_int3store
  by unfold_locales simp

interpretation hf4: high_first 4 "\<lambda>k. 3 - k" mi_uint4korr mi_int4store
  by unfold_locales simp

interpretation hf5: high_first 5 "\<lambda>k. 4 - k" mi_uint5korr mi_int5store
  by unfold_locales simp

interpretation hf6: high_first 6 "\<lambda>k. 5 - k" mi_uint6korr mi_int6store
  by unfold_locales simp

interpretation hf7: high_first 7 "\<lambda>k. 6 - k" mi_uint7korr mi_int7store
  by unfold_locales simp

interpretation hf8: high_first 8 "\<lambda>k. 7 - k" mi_uint8korr mi_int8store
  by unfold_locales simp

section \<open>Variants for an architecture\<close>

lemma bytewise_eqI:
  fixes w :: "'a::len word"
  assumes "\<And>j. j < 8 \<Longrightarrow> \<forall>k<8. bit w (8 * k + j) \<longleftrightarrow> bit u (8 * k + j)" and "LENGTH('a) \<le> 64"
  shows "w = u"
proof (rule bit_word_eqI)
  fix i assume "i < LENGTH('a)"
  then have "i div 8 < 8" using assms(2) by (simp add: less_mult_imp_div_less)
  then have "bit w (8 * (i div 8) + i mod 8) \<longleftrightarrow> bit u (8 * (i div 8) + i mod 8)"
    using spec [OF assms(1), of "i mod 8" "i div 8"] by simp
  then show "bit w i \<longleftrightarrow> bit u i" by simp
qed

lemma x64_same:
  "x64_sint2korr = sint2korr"
  "x64_sint3korr = sint3korr"
  "x64_sint4korr = sint4korr"
  "x64_uint2korr = uint2korr"
  "x64_uint3korr = uint3korr"
  "x64_uint4korr = uint4korr"
  by (simp_all add: fun_eq_iff load_defs)

lemma x64_loads:
  "x64_uint5korr m p = uint5korr m p"
  "x64_uint6korr m p = uint6korr m p"
  "x64_uint8korr m p = uint8korr m p"
  by (rule bytewise_eqI; auto simp: load_bit_simps dest: uchar_bit)+

lemma x64_sint8korr: "x64_sint8korr m p = sint8korr m p"
  using x64_loads by (simp add: x64_sint8korr_def sint8korr_def x64_uint8korr_def)

lemma x64_stores:
  "x64_int2store m p v = int2store m p v"
  "x64_int3store m p v = int3store m p v"
  "x64_int4store m p v = int4store m p v"
  "x64_int5store m p v = int5store m p v"
  "x64_int6store m p v = int6store m p v"
  "x64_int8store m p v = int8store m p v"
  by (rule ext, simp add: store_defs Let_def nat_offset; (intro conjI impI bit_word_eqI)?; auto simp: bit_simps)+

lemma x86_same:
  "x86_sint2korr = sint2korr"
  "x86_sint3korr = sint3korr"
  "x86_sint4korr = sint4korr"
  "x86_uint2korr = uint2korr"
  "x86_uint3korr = uint3korr"
  "x86_uint4korr = uint4korr"
  "x86_uint5korr = uint5korr"
  "x86_uint6korr = uint6korr"
  by (simp_all add: fun_eq_iff load_defs)

lemma x86_loads:
  "x86_uint8korr m p = uint8korr m p"
  by (rule bytewise_eqI; auto simp: load_bit_simps dest: uchar_bit)+

lemma x86_sint8korr: "x86_sint8korr m p = sint8korr m p"
  using x86_loads by (simp add: x86_sint8korr_def sint8korr_def x86_uint8korr_def)

lemma x86_stores:
  "x86_int2store m p v = int2store m p v"
  "x86_int3store m p v = int3store m p v"
  "x86_int4store m p v = int4store m p v"
  "x86_int5store m p v = int5store m p v"
  "x86_int6store m p v = int6store m p v"
  "x86_int8store m p v = int8store m p v"
  by (rule ext, simp add: store_defs Let_def nat_offset; (intro conjI impI bit_word_eqI)?; auto simp: bit_simps)+

lemma x64_mi_uint5korr: "x64_mi_uint5korr m p = mi_uint5korr m p"
  by (rule bytewise_eqI) (auto simp: load_bit_simps dest: uchar_bit)

lemma x64_mi_uint6korr: "x64_mi_uint6korr m p = mi_uint6korr m p"
  by (rule bytewise_eqI) (auto simp: load_bit_simps dest: uchar_bit)

lemma x64_mi_uint7korr: "x64_mi_uint7korr m p = mi_uint7korr m p"
  by (rule bytewise_eqI) (auto simp: load_bit_simps dest: uchar_bit)

lemma x64_mi_uint8korr: "x64_mi_uint8korr m p = mi_uint8korr m p"
  by (rule bytewise_eqI) (auto simp: load_bit_simps dest: uchar_bit)

section \<open>Signed readers, floating point numbers, row numbers\<close>

lemma sign_bit_and: "(b :: uchar) AND 128 \<noteq> 0 \<longleftrightarrow> bit b 7"
  using and_exp_eq_0_iff_not_bit [of b 7] by simp

lemma sign_bytes: "bit (4278190080 :: int) i \<longleftrightarrow> 24 \<le> i \<and> i < 32"
proof -
  have "(4278190080 :: int) = push_bit 24 (mask 8)" by (simp add: mask_eq_exp_minus_1)
  then have "bit (4278190080 :: int) i \<longleftrightarrow> bit (push_bit 24 (mask 8 :: int)) i" by (simp only:)
  then show ?thesis by (auto simp only: bit_push_bit_iff bit_mask_iff possible_bit_int)
qed

lemma sint3korr_value: "sint3korr m p = signed_take_bit 23 (uint3korr m p)"
proof (rule bytewise_eqI)
  show "\<forall>k<8. bit (sint3korr m p) (8 * k + j) \<longleftrightarrow> bit (signed_take_bit 23 (uint3korr m p)) (8 * k + j)"
    if "j < 8" for j
    using that by (cases "j = 7") (auto simp: load_bit_simps sign_bit_and sign_bytes min_def dest: uchar_bit)
qed simp

lemma mi_sint3korr_value: "mi_sint3korr m p = signed_take_bit 23 (mi_uint3korr m p)"
proof (rule bytewise_eqI)
  show "\<forall>k<8. bit (mi_sint3korr m p) (8 * k + j) \<longleftrightarrow> bit (signed_take_bit 23 (mi_uint3korr m p)) (8 * k + j)"
    if "j < 8" for j
    using that by (cases "j = 7") (auto simp: load_bit_simps sign_bit_and sign_bytes min_def dest: uchar_bit)
qed simp

lemma copy_out_4: "copy_out m p 4 = [m p, m (p + 1), m (p + 2), m (p + 3)]"
  by (simp add: copy_out_def upt_rec numeral_eq_Suc)

lemma copy_out_8:
  "copy_out m p 8 = [m p, m (p + 1), m (p + 2), m (p + 3), m (p + 4), m (p + 5), m (p + 6), m (p + 7)]"
  by (simp add: copy_out_def upt_rec numeral_eq_Suc)

lemma copy_in_4: "copy_in m p [a, b, c, d] = m(p := a, p + 1 := b, p + 2 := c, p + 3 := d)"
  by (rule ext) (auto simp: copy_in_def nth_Cons' numeral_eq_Suc)

lemma copy_in_8:
  "copy_in m p [a, b, c, d, e, f, g, h] =
   m(p := a, p + 1 := b, p + 2 := c, p + 3 := d, p + 4 := e, p + 5 := f, p + 6 := g, p + 7 := h)"
  by (rule ext) (auto simp: copy_in_def nth_Cons' numeral_eq_Suc)

lemma le_bytes32_load: "le_bytes32 (load32 m p) = [m p, m (p + 1), m (p + 2), m (p + 3)]"
  unfolding le_bytes32_def list.inject
  by (intro conjI bit_word_eqI; auto simp: load32_def bit_simps dest: uchar_bit)

lemma store32_bytes:
  "store32 m p (le_int32 [a, b, c, d]) = m(p := a, p + 1 := b, p + 2 := c, p + 3 := d)"
proof -
  have "byte (le_int32 [a, b, c, d]) = a" "byte (drop_bit 8 (le_int32 [a, b, c, d])) = b"
    "byte (drop_bit 16 (le_int32 [a, b, c, d])) = c" "byte (drop_bit 24 (le_int32 [a, b, c, d])) = d"
    by (rule bit_word_eqI; auto simp: le_int32_def bit_simps dest: uchar_bit)+
  then show ?thesis by (simp add: store32_def)
qed

lemma machine_order_gets:
  "ushortget_be m p = mi_uint2korr m p" "shortget_be m p = mi_sint2korr m p"
  "longget_be m p = mi_sint4korr m p" "ulongget_be m p = mi_uint4korr m p"
proof -
  have "b16 (m (p + 1)) + push_bit 8 (b16 (m p)) = b16 (m (p + 1)) OR push_bit 8 (b16 (m p))"
    by (rule disjunctive_add) (auto simp: bit_simps dest: uchar_bit)
  then show "ushortget_be m p = mi_uint2korr m p" "shortget_be m p = mi_sint2korr m p"
    by (simp_all add: ushortget_be_def shortget_be_def mi_uint2korr_def mi_sint2korr_def)
  show "longget_be m p = mi_sint4korr m p" "ulongget_be m p = mi_uint4korr m p"
    by (simp_all add: longget_be_def ulongget_be_def be_int32_def mi_uint4korr_def mi_sint4korr_def ac_simps)
qed

lemma machine_order_stores:
  "shortstore_be m p v = mi_int2store m p v" "longstore_be m p v = mi_int4store m p v"
  by (rule ext, simp add: store_defs Let_def; (intro conjI impI bit_word_eqI)?; auto simp: bit_simps)+

lemma four_bytes: "length bs = 4 \<Longrightarrow> [bs ! 0, bs ! 1, bs ! 2, bs ! 3] = bs"
  by (auto simp: numeral_eq_Suc length_Suc_conv)

lemma eight_bytes:
  "length bs = 8 \<Longrightarrow> [bs ! 0, bs ! 1, bs ! 2, bs ! 3, bs ! 4, bs ! 5, bs ! 6, bs ! 7] = bs"
  by (auto simp: numeral_eq_Suc length_Suc_conv)

lemmas load_store =
  le2.load_store le3.load_store le4.load_store le5.load_store le6.load_store le8.load_store
  be2.load_store be3.load_store be4.load_store be5.load_store be6.load_store be7.load_store
  be8.load_store

lemmas store_load =
  le2.store_load le3.store_load le4.store_load le5.store_load le6.store_load le8.store_load
  be2.store_load be3.store_load be4.store_load be5.store_load be6.store_load be7.store_load
  be8.store_load

lemmas key_order =
  hf2.key_order hf3.key_order hf4.key_order hf5.key_order hf6.key_order hf7.key_order
  hf8.key_order

section \<open>Properties of the headers\<close>

text \<open>
  The variants of the macros for x86 and x86-64, which use unaligned accesses of the machine and
  byte swaps, read the same values and write the same bytes as the portable definitions. The macros
  for the machine's own order on a big-endian machine agree with the high byte first format.
\<close>

theorem byte_order_variants_agree:
  "x64_uint2korr m p = uint2korr m p \<and> x64_uint3korr m p = uint3korr m p \<and>
   x64_uint4korr m p = uint4korr m p \<and> x64_uint5korr m p = uint5korr m p \<and>
   x64_uint6korr m p = uint6korr m p \<and> x64_uint8korr m p = uint8korr m p \<and>
   x64_sint2korr m p = sint2korr m p \<and> x64_sint3korr m p = sint3korr m p \<and>
   x64_sint4korr m p = sint4korr m p \<and> x64_sint8korr m p = sint8korr m p \<and>
   x64_int2store m p v = int2store m p v \<and> x64_int3store m p v = int3store m p v \<and>
   x64_int4store m p v = int4store m p v \<and> x64_int5store m p v = int5store m p v \<and>
   x64_int6store m p v = int6store m p v \<and> x64_int8store m p v = int8store m p v \<and>
   x86_uint2korr m p = uint2korr m p \<and> x86_uint3korr m p = uint3korr m p \<and>
   x86_uint4korr m p = uint4korr m p \<and> x86_uint5korr m p = uint5korr m p \<and>
   x86_uint6korr m p = uint6korr m p \<and> x86_uint8korr m p = uint8korr m p \<and>
   x86_sint2korr m p = sint2korr m p \<and> x86_sint3korr m p = sint3korr m p \<and>
   x86_sint4korr m p = sint4korr m p \<and> x86_sint8korr m p = sint8korr m p \<and>
   x86_int2store m p v = int2store m p v \<and> x86_int3store m p v = int3store m p v \<and>
   x86_int4store m p v = int4store m p v \<and> x86_int5store m p v = int5store m p v \<and>
   x86_int6store m p v = int6store m p v \<and> x86_int8store m p v = int8store m p v \<and>
   x64_mi_uint5korr m p = mi_uint5korr m p \<and> x64_mi_uint6korr m p = mi_uint6korr m p \<and>
   x64_mi_uint7korr m p = mi_uint7korr m p \<and> x64_mi_uint8korr m p = mi_uint8korr m p \<and>
   int4net m p = mi_uint4korr m p \<and>
   ushortget_be m p = mi_uint2korr m p \<and> shortget_be m p = mi_sint2korr m p \<and>
   longget_be m p = mi_sint4korr m p \<and> ulongget_be m p = mi_uint4korr m p \<and>
   shortstore_be m p v = mi_int2store m p v \<and> longstore_be m p v = mi_int4store m p v"
  by (simp add: x64_same x86_same x64_loads x86_loads x64_sint8korr x86_sint8korr x64_stores x86_stores
      x64_mi_uint5korr x64_mi_uint6korr x64_mi_uint7korr x64_mi_uint8korr
      machine_order_gets machine_order_stores)
    (simp add: int4net_def mi_uint4korr_def)

text \<open>
  C36. Round trips, in both byte orders and for every width: reading what was written gives the low
  bytes of the value, and writing back what was read changes no byte of the memory.
\<close>

theorem stored_integers_round_trip:
  "uint2korr (int2store m p v) p = ucast (take_bit (8 * 2) v) \<and>
   int2store m p (ucast (uint2korr m p)) = m \<and>
   uint3korr (int3store m p v) p = ucast (take_bit (8 * 3) v) \<and>
   int3store m p (ucast (uint3korr m p)) = m \<and>
   uint4korr (int4store m p v) p = ucast (take_bit (8 * 4) v) \<and>
   int4store m p (ucast (uint4korr m p)) = m \<and>
   uint5korr (int5store m p v) p = ucast (take_bit (8 * 5) v) \<and>
   int5store m p (ucast (uint5korr m p)) = m \<and>
   uint6korr (int6store m p v) p = ucast (take_bit (8 * 6) v) \<and>
   int6store m p (ucast (uint6korr m p)) = m \<and>
   uint8korr (int8store m p v) p = ucast (take_bit (8 * 8) v) \<and>
   int8store m p (ucast (uint8korr m p)) = m \<and>
   mi_uint2korr (mi_int2store m p v) p = ucast (take_bit (8 * 2) v) \<and>
   mi_int2store m p (ucast (mi_uint2korr m p)) = m \<and>
   mi_uint3korr (mi_int3store m p v) p = ucast (take_bit (8 * 3) v) \<and>
   mi_int3store m p (ucast (mi_uint3korr m p)) = m \<and>
   mi_uint4korr (mi_int4store m p v) p = ucast (take_bit (8 * 4) v) \<and>
   mi_int4store m p (ucast (mi_uint4korr m p)) = m \<and>
   mi_uint5korr (mi_int5store m p v) p = ucast (take_bit (8 * 5) v) \<and>
   mi_int5store m p (ucast (mi_uint5korr m p)) = m \<and>
   mi_uint6korr (mi_int6store m p v) p = ucast (take_bit (8 * 6) v) \<and>
   mi_int6store m p (ucast (mi_uint6korr m p)) = m \<and>
   mi_uint7korr (mi_int7store m p v) p = ucast (take_bit (8 * 7) v) \<and>
   mi_int7store m p (ucast (mi_uint7korr m p)) = m \<and>
   mi_uint8korr (mi_int8store m p v) p = ucast (take_bit (8 * 8) v) \<and>
   mi_int8store m p (ucast (mi_uint8korr m p)) = m"
  by (simp only: load_store store_load)

text \<open>
  C37. Keys: the bytes of two numbers stored with the high byte first compare (as \<^verbatim>\<open>memcmp\<close> does) like
  the numbers, for every width from 2 to 8 bytes, wherever they are stored.
\<close>

theorem mi_keys_compare_bytewise:
  "(memcmp_less (copy_out (mi_int2store m p v) p 2) (copy_out (mi_int2store m' q w) q 2) \<longleftrightarrow>
      unat (take_bit (8 * 2) v) < unat (take_bit (8 * 2) w)) \<and>
   (memcmp_less (copy_out (mi_int3store m p v) p 3) (copy_out (mi_int3store m' q w) q 3) \<longleftrightarrow>
      unat (take_bit (8 * 3) v) < unat (take_bit (8 * 3) w)) \<and>
   (memcmp_less (copy_out (mi_int4store m p v) p 4) (copy_out (mi_int4store m' q w) q 4) \<longleftrightarrow>
      unat (take_bit (8 * 4) v) < unat (take_bit (8 * 4) w)) \<and>
   (memcmp_less (copy_out (mi_int5store m p v) p 5) (copy_out (mi_int5store m' q w) q 5) \<longleftrightarrow>
      unat (take_bit (8 * 5) v) < unat (take_bit (8 * 5) w)) \<and>
   (memcmp_less (copy_out (mi_int6store m p v) p 6) (copy_out (mi_int6store m' q w) q 6) \<longleftrightarrow>
      unat (take_bit (8 * 6) v) < unat (take_bit (8 * 6) w)) \<and>
   (memcmp_less (copy_out (mi_int7store m p v) p 7) (copy_out (mi_int7store m' q w) q 7) \<longleftrightarrow>
      unat (take_bit (8 * 7) v) < unat (take_bit (8 * 7) w)) \<and>
   (memcmp_less (copy_out (mi_int8store m p v) p 8) (copy_out (mi_int8store m' q w) q 8) \<longleftrightarrow>
      unat (take_bit (8 * 8) v) < unat (take_bit (8 * 8) w))"
  by (simp only: key_order)

text \<open>
  C53. The three-byte signed readers extend the sign of the 24-bit value. A float or double that is
  written is read back unchanged on each of the three kinds of machine, row numbers and sizes
  survive in both build variants, the error value included, and reading back never depends on
  the previous contents of the memory.
\<close>

theorem stored_values_round_trip:
  assumes "length f = 4" and "length d = 8"
  shows "sint (sint3korr m p) = signed_take_bit 23 (uint (uint3korr m p))"
    and "sint (mi_sint3korr m p) = signed_take_bit 23 (uint (mi_uint3korr m p))"
    and "mi_float4get (mi_float4store m p f) p = f" "mi_float4get_be (mi_float4store_be m p f) p = f"
    and "mi_float8get (mi_float8store m p d) p = d" "mi_float8get_be (mi_float8store_be m p d) p = d"
    and "mi_float8get_mixed (mi_float8store_mixed m p d) p = d"
    and "mi_rowkorr (mi_rowstore m p v) p = v" "mi_rowkorr_small (mi_rowstore_small m p r) p = r"
    and "mi_sizekorr (mi_sizestore m p v) p = v" "mi_sizekorr_small (mi_sizestore_small m p r) p = r"
proof -
  have s: "sint (signed_take_bit 23 w) = signed_take_bit 23 (uint w)" for w :: uint32
    by (rule bit_eqI) (auto simp: bit_simps min_def)
  show "sint (sint3korr m p) = signed_take_bit 23 (uint (uint3korr m p))"
    "sint (mi_sint3korr m p) = signed_take_bit 23 (uint (mi_uint3korr m p))"
    by (simp_all only: sint3korr_value mi_sint3korr_value s)
  show "mi_float4get (mi_float4store m p f) p = f" "mi_float4get_be (mi_float4store_be m p f) p = f"
    using four_bytes [OF assms(1)] by (simp_all add: load_defs store_defs)
  show "mi_float8get (mi_float8store m p d) p = d" "mi_float8get_be (mi_float8store_be m p d) p = d"
    "mi_float8get_mixed (mi_float8store_mixed m p d) p = d"
    using eight_bytes [OF assms(2)] by (simp_all add: load_defs store_defs)
  show "mi_rowkorr (mi_rowstore m p v) p = v" "mi_sizekorr (mi_sizestore m p v) p = v"
    by (simp_all add: mi_rowkorr_def mi_rowstore_def mi_sizekorr_def mi_sizestore_def be8.load_store
        take_bit_length_eq [of v, simplified])
  have r: "mi_uint4korr (mi_int4store m' (p + 4) (ucast r)) (p + 4) = r" for m' and r :: uint32
    by (subst be4.load_store) (rule bit_word_eqI, simp add: bit_simps)
  show "mi_rowkorr_small (mi_rowstore_small m p r) p = r"
    by (simp add: mi_rowkorr_small_def mi_rowstore_small_def r)
  have "mi_uint4korr (copy_in m p (replicate 8 255)) (p + 4) = - 1"
    by (simp add: mi_uint4korr_def copy_in_def)
  then show "mi_sizekorr_small (mi_sizestore_small m p r) p = r"
    by (simp add: mi_sizekorr_small_def mi_sizestore_small_def r)
qed

theorem stored_values_round_trip_witness:
  "mi_float4get (mi_float4store (\<lambda>q. 0) 5 [1, 2, 3, 4]) 5 = [1, 2, 3, 4]"
  using stored_values_round_trip(3) [of "[1, 2, 3, 4]" "[1, 2, 3, 4, 5, 6, 7, 8]" "\<lambda>q. 0" 5] by simp

text \<open>
  C54. The stored form of a number does not depend on the machine: a machine with the other byte
  order, whose variables hold the bytes of the same number reversed, and one whose doubles have
  their two words exchanged, write the same bytes and read the same number, in both formats.
\<close>

theorem stored_floats_portable:
  assumes "length f = 4" and "length d = 8"
  defines "d' \<equiv> drop 4 d @ take 4 d"
  shows "float4store_be m p (rev f) = float4store m p f" "float4get_be m p = rev (float4get m p)"
    and "float8store_be m p (rev d) = float8store m p d" "float8get_be m p = rev (float8get m p)"
    and "doublestore_mixed m p d' = doublestore m p d"
    and "doubleget_mixed m p = drop 4 (doubleget m p) @ take 4 (doubleget m p)"
    and "x86_doublestore m p d = doublestore m p d" "x86_doubleget m p = doubleget m p"
    and "mi_float4store_be m p (rev f) = mi_float4store m p f" "mi_float4get_be m p = rev (mi_float4get m p)"
    and "mi_float8store_be m p (rev d) = mi_float8store m p d" "mi_float8get_be m p = rev (mi_float8get m p)"
    and "mi_float8store_mixed m p d' = mi_float8store m p d"
proof -
  obtain f0 f1 f2 f3 where f: "f = [f0, f1, f2, f3]" using four_bytes [OF assms(1)] by metis
  obtain d0 d1 d2 d3 d4 d5 d6 d7 where d: "d = [d0, d1, d2, d3, d4, d5, d6, d7]"
    using eight_bytes [OF assms(2)] by metis
  have d': "d' = [d4, d5, d6, d7, d0, d1, d2, d3]" by (simp add: d'_def d numeral_eq_Suc)
  note stores = store_defs copy_in_4 copy_in_8 f d d'
  show "float4store_be m p (rev f) = float4store m p f" "float8store_be m p (rev d) = float8store m p d"
    "doublestore_mixed m p d' = doublestore m p d" "mi_float4store_be m p (rev f) = mi_float4store m p f"
    "mi_float8store_be m p (rev d) = mi_float8store m p d" "mi_float8store_mixed m p d' = mi_float8store m p d"
    by (simp_all add: stores)
  show "float4get_be m p = rev (float4get m p)" "float8get_be m p = rev (float8get m p)"
    "doubleget_mixed m p = drop 4 (doubleget m p) @ take 4 (doubleget m p)"
    "mi_float4get_be m p = rev (mi_float4get m p)" "mi_float8get_be m p = rev (mi_float8get m p)"
    by (simp_all add: load_defs copy_out_4 copy_out_8)
  show "x86_doubleget m p = doubleget m p"
    by (simp add: x86_doubleget_def doubleget_def copy_out_8 le_bytes32_load ac_simps)
  show "x86_doublestore m p d = doublestore m p d"
    by (simp add: x86_doublestore_def doublestore_def d copy_in_8 store32_bytes ac_simps)
qed

theorem stored_floats_portable_witness:
  "float4store_be (\<lambda>q. 0) 3 [4, 3, 2, 1] = float4store (\<lambda>q. 0) 3 [1, 2, 3, 4]"
  using stored_floats_portable(1) [of "[1, 2, 3, 4]" "[1, 2, 3, 4, 5, 6, 7, 8]" "\<lambda>q. 0" 3] by simp

end
