(* ===== verification/Sql_Plist.thy ===== *)
theory Sql_Plist
  imports Prelude "HOL-Library.Monad_Syntax"
begin

text \<open>
  Intrusive parameterized lists: \<^verbatim>\<open>sql_plist.h\<close>. An element is an address, 0 is the null pointer.
  A \<^verbatim>\<open>T **\<close> is the member \<^verbatim>\<open>m_first\<close> of a list object or the \<^verbatim>\<open>next\<close> member of an element. The two
  policy classes of the template are the two members of a policy: whether elements are counted
  (\<^verbatim>\<open>I_P_List_counter\<close>, else \<^verbatim>\<open>I_P_List_null_counter\<close>) and whether the last slot is remembered
  (\<^verbatim>\<open>I_P_List_fast_push_back\<close>, else \<^verbatim>\<open>I_P_List_no_push_back\<close>).
\<close>

type_synonym plist_id = nat
type_synonym pelem = nat

datatype pslot = PFirst plist_id | PNext pelem

record policy =
  counting :: bool
  fast_push_back :: bool

record pstore =
  m_first :: "plist_id \<Rightarrow> pelem"
  m_last :: "plist_id \<Rightarrow> pslot"
  m_counter :: "plist_id \<Rightarrow> uint"
  next_of :: "pelem \<Rightarrow> pelem"
  prev_of :: "pelem \<Rightarrow> pslot"

section \<open>Members and policies\<close>

definition pget :: "pstore \<Rightarrow> pslot \<Rightarrow> pelem" where
  "pget st s = (case s of PFirst l \<Rightarrow> m_first st l | PNext a \<Rightarrow> next_of st a)"

definition pset :: "pstore \<Rightarrow> pslot \<Rightarrow> pelem \<Rightarrow> pstore" where
  "pset st s v = (case s of PFirst l \<Rightarrow> st\<lparr>m_first := (m_first st)(l := v)\<rparr>
                  | PNext a \<Rightarrow> st\<lparr>next_of := (next_of st)(a := v)\<rparr>)"

definition set_prev :: "pstore \<Rightarrow> pelem \<Rightarrow> pslot \<Rightarrow> pstore" where
  "set_prev st a s = st\<lparr>prev_of := (prev_of st)(a := s)\<rparr>"

definition set_last :: "policy \<Rightarrow> pstore \<Rightarrow> plist_id \<Rightarrow> pslot \<Rightarrow> pstore" where
  "set_last pol st l s = (if fast_push_back pol then st\<lparr>m_last := (m_last st)(l := s)\<rparr> else st)"

definition get_last :: "pstore \<Rightarrow> plist_id \<Rightarrow> pslot" where
  "get_last st l = m_last st l"

definition swap_last :: "policy \<Rightarrow> pstore \<Rightarrow> plist_id \<Rightarrow> plist_id \<Rightarrow> pstore" where
  "swap_last pol st l k =
     (if fast_push_back pol then st\<lparr>m_last := (m_last st)(l := m_last st k, k := m_last st l)\<rparr> else st)"

definition counter_reset :: "policy \<Rightarrow> pstore \<Rightarrow> plist_id \<Rightarrow> pstore" where
  "counter_reset pol st l = (if counting pol then st\<lparr>m_counter := (m_counter st)(l := 0)\<rparr> else st)"

definition counter_inc :: "policy \<Rightarrow> pstore \<Rightarrow> plist_id \<Rightarrow> pstore" where
  "counter_inc pol st l =
     (if counting pol then st\<lparr>m_counter := (m_counter st)(l := m_counter st l + 1)\<rparr> else st)"

definition counter_dec :: "policy \<Rightarrow> pstore \<Rightarrow> plist_id \<Rightarrow> pstore" where
  "counter_dec pol st l =
     (if counting pol then st\<lparr>m_counter := (m_counter st)(l := m_counter st l - 1)\<rparr> else st)"

definition counter_swap :: "policy \<Rightarrow> pstore \<Rightarrow> plist_id \<Rightarrow> plist_id \<Rightarrow> pstore" where
  "counter_swap pol st l k =
     (if counting pol then st\<lparr>m_counter := (m_counter st)(l := m_counter st k, k := m_counter st l)\<rparr> else st)"

definition elements :: "pstore \<Rightarrow> plist_id \<Rightarrow> uint" where
  "elements st l = m_counter st l"

section \<open>Operations\<close>

definition empty :: "policy \<Rightarrow> pstore \<Rightarrow> plist_id \<Rightarrow> pstore" where
  "empty pol st l = set_last pol (counter_reset pol (pset st (PFirst l) 0) l) l (PFirst l)"

definition is_empty :: "pstore \<Rightarrow> plist_id \<Rightarrow> bool" where
  "is_empty st l \<longleftrightarrow> m_first st l = 0"

definition push_front :: "policy \<Rightarrow> pstore \<Rightarrow> plist_id \<Rightarrow> pelem \<Rightarrow> pstore" where
  "push_front pol st l a =
     (let st = pset st (PNext a) (m_first st l);
          st = (if m_first st l \<noteq> 0 then set_prev st (m_first st l) (PNext a)
                else set_last pol st l (PNext a));
          st = pset st (PFirst l) a;
          st = set_prev st a (PFirst l)
      in counter_inc pol st l)"

definition push_back :: "policy \<Rightarrow> pstore \<Rightarrow> plist_id \<Rightarrow> pelem \<Rightarrow> pstore" where
  "push_back pol st l a =
     (let lst = get_last st l;
          st = pset st (PNext a) (pget st lst);
          st = pset st lst a;
          st = set_prev st a lst;
          st = set_last pol st l (PNext a)
      in counter_inc pol st l)"

definition insert_after :: "policy \<Rightarrow> pstore \<Rightarrow> plist_id \<Rightarrow> pelem \<Rightarrow> pelem \<Rightarrow> pstore" where
  "insert_after pol st l pos a =
     (if pos = 0 then push_front pol st l a
      else let st = pset st (PNext a) (next_of st pos);
               st = set_prev st a (PNext pos);
               st = pset st (PNext pos) a;
               st = (if next_of st a \<noteq> 0
                     then let old_next = next_of st a in set_prev st old_next (PNext a)
                     else set_last pol st l (PNext a))
           in counter_inc pol st l)"

definition remove :: "policy \<Rightarrow> pstore \<Rightarrow> plist_id \<Rightarrow> pelem \<Rightarrow> pstore" where
  "remove pol st l a =
     (let nxt = next_of st a;
          st = (if nxt \<noteq> 0 then set_prev st nxt (prev_of st a) else set_last pol st l (prev_of st a));
          st = pset st (prev_of st a) nxt
      in counter_dec pol st l)"

definition front :: "pstore \<Rightarrow> plist_id \<Rightarrow> pelem" where
  "front st l = m_first st l"

definition pop_front :: "policy \<Rightarrow> pstore \<Rightarrow> plist_id \<Rightarrow> pelem \<times> pstore" where
  "pop_front pol st l =
     (let result = front st l in (result, if result \<noteq> 0 then remove pol st l result else st))"

definition swap :: "policy \<Rightarrow> pstore \<Rightarrow> plist_id \<Rightarrow> plist_id \<Rightarrow> pstore" where
  "swap pol st l rhs =
     (let st = st\<lparr>m_first := (m_first st)(l := m_first st rhs, rhs := m_first st l)\<rparr>;
          st = swap_last pol st l rhs;
          st = (if m_first st l \<noteq> 0 then set_prev st (m_first st l) (PFirst l)
                else set_last pol st l (PFirst l));
          st = (if m_first st rhs \<noteq> 0 then set_prev st (m_first st rhs) (PFirst rhs)
                else set_last pol st l (PFirst rhs))
      in counter_swap pol st l rhs)"

section \<open>Iterator\<close>

record plist_iterator =
  it_list :: plist_id
  current :: pelem

definition it_init :: "pstore \<Rightarrow> plist_id \<Rightarrow> plist_iterator" where
  "it_init st l = \<lparr>it_list = l, current = m_first st l\<rparr>"

definition it_init_at :: "plist_id \<Rightarrow> pelem \<Rightarrow> plist_iterator" where
  "it_init_at l current_arg = \<lparr>it_list = l, current = current_arg\<rparr>"

definition it_postinc :: "pstore \<Rightarrow> plist_iterator \<Rightarrow> pelem \<times> plist_iterator" where
  "it_postinc st it =
     (let result = current it
      in (result, if result \<noteq> 0 then it\<lparr>current := next_of st (current it)\<rparr> else it))"

text \<open>The prefix operator reads the \<^verbatim>\<open>next\<close> member without a test, which is undefined at the end.\<close>

definition it_preinc :: "pstore \<Rightarrow> plist_iterator \<Rightarrow> (pelem \<times> plist_iterator) option" where
  "it_preinc st it =
     (if current it = 0 then None
      else let it = it\<lparr>current := next_of st (current it)\<rparr> in Some (current it, it))"

definition it_rewind :: "pstore \<Rightarrow> plist_iterator \<Rightarrow> plist_iterator" where
  "it_rewind st it = it\<lparr>current := m_first st (it_list it)\<rparr>"

text \<open>The loop \<^verbatim>\<open>while ((a= it++)) if (P(a)) list.remove(a);\<close> with the elements it visits.\<close>

partial_function (option) remove_while_iterating ::
  "policy \<Rightarrow> (pelem \<Rightarrow> bool) \<Rightarrow> pstore \<Rightarrow> plist_iterator \<Rightarrow> (pelem list \<times> pstore) option" where
  "remove_while_iterating pol P st it =
     (let (a, it) = it_postinc st it
      in if a = 0 then Some ([], st)
         else do {
           (as, st) \<leftarrow> remove_while_iterating pol P (if P a then remove pol st (it_list it) a else st) it;
           Some (a # as, st)
         })"

section \<open>Chains\<close>

lemma pget_simps [simp]: "pget st (PFirst l) = m_first st l" "pget st (PNext a) = next_of st a"
  by (simp_all add: pget_def)

lemma pset_members [simp]:
  "pget (pset st s v) t = (if s = t then v else pget st t)"
  "m_first (pset st s v) l = (if s = PFirst l then v else m_first st l)"
  "next_of (pset st s v) a = (if s = PNext a then v else next_of st a)"
  "prev_of (pset st s v) = prev_of st" "m_last (pset st s v) = m_last st"
  "m_counter (pset st s v) = m_counter st"
  by (auto simp: pset_def split: pslot.splits)

lemma plist_set_prev_members [simp]:
  "pget (set_prev st a s) t = pget st t" "m_first (set_prev st a s) = m_first st"
  "next_of (set_prev st a s) = next_of st" "prev_of (set_prev st a s) = (prev_of st)(a := s)"
  "m_last (set_prev st a s) = m_last st" "m_counter (set_prev st a s) = m_counter st"
  by (auto simp: set_prev_def pget_def split: pslot.splits)

lemma plist_set_last_members [simp]:
  "pget (set_last pol st l s) t = pget st t" "m_first (set_last pol st l s) = m_first st"
  "next_of (set_last pol st l s) = next_of st" "prev_of (set_last pol st l s) = prev_of st"
  "m_last (set_last pol st l s) k = (if fast_push_back pol \<and> l = k then s else m_last st k)"
  "m_counter (set_last pol st l s) = m_counter st"
  by (auto simp: set_last_def pget_def split: pslot.splits)

lemma counter_members [simp]:
  "pget (counter_inc pol st l) t = pget st t" "prev_of (counter_inc pol st l) = prev_of st"
  "m_last (counter_inc pol st l) = m_last st"
  "m_counter (counter_inc pol st l) k = (if counting pol \<and> l = k then m_counter st l + 1 else m_counter st k)"
  "pget (counter_dec pol st l) t = pget st t" "prev_of (counter_dec pol st l) = prev_of st"
  "m_last (counter_dec pol st l) = m_last st"
  "m_counter (counter_dec pol st l) k = (if counting pol \<and> l = k then m_counter st l - 1 else m_counter st k)"
  "pget (counter_reset pol st l) t = pget st t" "prev_of (counter_reset pol st l) = prev_of st"
  "m_last (counter_reset pol st l) = m_last st"
  "m_counter (counter_reset pol st l) k = (if counting pol \<and> l = k then 0 else m_counter st k)"
  by (auto simp: counter_inc_def counter_dec_def counter_reset_def pget_def split: pslot.splits)

lemma counter_slots [simp]:
  "m_first (counter_inc pol st l) = m_first st" "next_of (counter_inc pol st l) = next_of st"
  "m_first (counter_dec pol st l) = m_first st" "next_of (counter_dec pol st l) = next_of st"
  "m_first (counter_reset pol st l) = m_first st" "next_of (counter_reset pol st l) = next_of st"
  by (simp_all add: counter_inc_def counter_dec_def counter_reset_def)

text \<open>The slots from \<open>s\<close> on link the elements in both directions and end at \<open>e\<close>.\<close>

fun pchain :: "pstore \<Rightarrow> pslot \<Rightarrow> pelem list \<Rightarrow> pelem \<Rightarrow> bool" where
  "pchain st s [] e \<longleftrightarrow> pget st s = e \<and> (e \<noteq> 0 \<longrightarrow> prev_of st e = s)"
| "pchain st s (x # xs) e \<longleftrightarrow> pget st s = x \<and> prev_of st x = s \<and> pchain st (PNext x) xs e"

fun pend :: "pslot \<Rightarrow> pelem list \<Rightarrow> pslot" where
  "pend s [] = s"
| "pend s (x # xs) = pend (PNext x) xs"

lemma pend_append [simp]: "pend s (xs @ ys) = pend (pend s xs) ys"
  by (induction s xs rule: pend.induct) simp_all

lemma pend_in: "pend s xs \<in> set (s # map PNext xs)"
  by (induction s xs rule: pend.induct) auto

lemma pchain_append:
  "y \<noteq> 0 \<Longrightarrow> pchain st s (xs @ y # ys) e \<longleftrightarrow> pchain st s xs y \<and> pchain st (PNext y) ys e"
  by (induction s xs rule: pend.induct) auto

lemma pchain_end: "pchain st s xs e \<Longrightarrow> pget st (pend s xs) = e \<and> (e \<noteq> 0 \<longrightarrow> prev_of st e = pend s xs)"
  by (induction s xs rule: pend.induct) auto

lemma pchain_cong:
  "(\<And>t. t \<in> set (s # map PNext xs) \<Longrightarrow> pget st t = pget st' t) \<Longrightarrow>
   (\<And>x. x \<in> set xs \<Longrightarrow> prev_of st x = prev_of st' x) \<Longrightarrow>
   (e \<noteq> 0 \<Longrightarrow> prev_of st e = prev_of st' e) \<Longrightarrow> pchain st s xs e = pchain st' s xs e"
  by (induction s xs rule: pend.induct) simp_all

lemma pchain_new_end:
  assumes "pchain st s xs e" and "distinct (s # map PNext xs)" and "e' \<notin> set xs"
    and "pget st' (pend s xs) = e'" and "e' \<noteq> 0 \<Longrightarrow> prev_of st' e' = pend s xs"
    and "\<And>t. t \<in> set (s # map PNext xs) \<Longrightarrow> t \<noteq> pend s xs \<Longrightarrow> pget st' t = pget st t"
    and "\<And>x. x \<in> set xs \<Longrightarrow> prev_of st' x = prev_of st x"
  shows "pchain st' s xs e'"
  using assms
proof (induction s xs rule: pend.induct)
  case (2 s x xs)
  have "s \<noteq> pend s (x # xs)" using pend_in [of "PNext x" xs] "2.prems"(2) by auto
  then show ?case using 2 by auto
qed simp

definition prep :: "policy \<Rightarrow> pstore \<Rightarrow> plist_id \<Rightarrow> pelem list \<Rightarrow> bool" where
  "prep pol st l xs \<longleftrightarrow> distinct xs \<and> 0 \<notin> set xs \<and> pchain st (PFirst l) xs 0 \<and>
     (fast_push_back pol \<longrightarrow> m_last st l = pend (PFirst l) xs) \<and>
     (counting pol \<longrightarrow> m_counter st l = of_nat (length xs))"

lemma prep_slots: "prep pol st l xs \<Longrightarrow> distinct (PFirst l # map PNext xs)"
  by (auto simp: prep_def distinct_map inj_on_def)

lemma prep_first: "prep pol st l xs \<Longrightarrow> m_first st l = (case xs of [] \<Rightarrow> 0 | x # _ \<Rightarrow> x)"
  by (cases xs) (auto simp: prep_def)

lemma prep_split:
  assumes "prep pol st l (xs @ ys)"
  defines "o' \<equiv> (case ys of [] \<Rightarrow> 0 | y # _ \<Rightarrow> y)"
  shows "pchain st (PFirst l) xs o'" "pget st (pend (PFirst l) xs) = o'"
proof -
  show c: "pchain st (PFirst l) xs o'"
    using assms by (cases ys) (auto simp: prep_def pchain_append)
  show "pget st (pend (PFirst l) xs) = o'" using pchain_end [OF c] by simp
qed

text \<open>Linking an element in at a slot, as the three insertions do.\<close>

lemma prep_link:
  assumes r: "prep pol st l (xs @ ys)" and a: "a \<notin> set (xs @ ys)" "a \<noteq> 0"
  defines "s \<equiv> pend (PFirst l) xs"
  assumes g: "\<And>t. pget st' t = (if t = PNext a then pget st s else if t = s then a else pget st t)"
    and p: "\<And>x. prev_of st' x = (if x = a then s else if x = pget st s \<and> x \<noteq> 0 then PNext a else prev_of st x)"
    and l: "fast_push_back pol \<Longrightarrow> m_last st' l = (if pget st s = 0 then PNext a else m_last st l)"
    and c: "counting pol \<Longrightarrow> m_counter st' l = m_counter st l + 1"
  shows "prep pol st' l (xs @ a # ys)"
proof -
  let ?o = "case ys of [] \<Rightarrow> 0 | y # _ \<Rightarrow> y"
  note c1 = prep_split [OF r]
  have o: "pget st s = ?o" using c1(2) by (simp add: s_def)
  have sa: "s \<noteq> PNext a" using pend_in [of "PFirst l" xs] a by (auto simp: s_def)
  have dxs: "distinct (PFirst l # map PNext xs)" using prep_slots [OF r] by auto
  have z: "0 \<notin> set (xs @ ys)" and d: "distinct (xs @ ys)" using r by (auto simp: prep_def)
  have ox: "?o \<notin> set xs \<or> ?o = 0" using d by (cases ys) auto
  have "pchain st' (PFirst l) xs a"
  proof (rule pchain_new_end [OF c1(1) dxs])
    fix t assume "t \<in> set (PFirst l # map PNext xs)" "t \<noteq> pend (PFirst l) xs"
    then show "pget st' t = pget st t" using g a by (auto simp: s_def)
  next
    fix x assume "x \<in> set xs"
    then show "prev_of st' x = prev_of st x" using p o ox z a by auto
  qed (use a g p sa in \<open>auto simp: s_def\<close>)
  moreover have "pchain st' (PNext a) ys 0"
  proof (cases ys)
    case Nil
    then show ?thesis using g [of "PNext a"] o by simp
  next
    case (Cons y zs)
    have "pchain st' (PNext y) zs 0 = pchain st (PNext y) zs 0"
    proof (rule pchain_cong)
      fix t assume t: "t \<in> set (PNext y # map PNext zs)"
      then have "t \<noteq> s" using pend_in [of "PFirst l" xs] d Cons by (auto simp: s_def)
      then show "pget st' t = pget st t" using g a t Cons by auto
    next
      fix x assume "x \<in> set zs"
      then show "prev_of st' x = prev_of st x" using p o a d Cons by auto
    qed simp
    moreover have "y \<noteq> 0" using z Cons by auto
    ultimately show ?thesis using r g [of "PNext a"] p o a Cons by (auto simp: prep_def pchain_append)
  qed
  ultimately have ch: "pchain st' (PFirst l) (xs @ a # ys) 0" using a by (simp add: pchain_append)
  moreover have "m_last st' l = pend (PFirst l) (xs @ a # ys)" if "fast_push_back pol"
    using l that o z r by (cases ys) (auto simp: prep_def)
  ultimately show ?thesis using r a c by (auto simp: prep_def)
qed


text \<open>Taking an element out, as \<^verbatim>\<open>remove\<close> does; its own members stay as they are.\<close>

lemma plist_remove_ok:
  assumes r: "prep pol st l (xs @ a # ys)"
  shows "prep pol (remove pol st l a) l (xs @ ys)"
proof -
  let ?s = "pend (PFirst l) xs" and ?o = "case ys of [] \<Rightarrow> 0 | y # _ \<Rightarrow> y"
  have d: "distinct (xs @ a # ys)" "0 \<notin> set (xs @ a # ys)" using r by (auto simp: prep_def)
  have c: "pchain st (PFirst l) xs a" "pchain st (PNext a) ys 0"
    using r d by (auto simp: prep_def pchain_append)
  have s: "prev_of st a = ?s" using pchain_end [OF c(1)] d by auto
  have o: "next_of st a = ?o" using c(2) by (cases ys) auto
  have ox: "?o \<notin> set xs" "?o \<noteq> a" using d by (cases ys; auto)+
  define st' where "st' = remove pol st l a"
  have g: "pget st' t = (if t = ?s then ?o else pget st t)"
    and p: "prev_of st' x = (if x = ?o \<and> x \<noteq> 0 then ?s else prev_of st x)" for t x
    using s o ox by (auto simp: st'_def remove_def Let_def)
  have l: "m_last st' l = (if ?o = 0 then ?s else m_last st l)" if "fast_push_back pol"
    using that s o by (simp add: st'_def remove_def Let_def)
  have n: "m_counter st' l = m_counter st l - 1" if "counting pol"
    using that by (simp add: st'_def remove_def Let_def)
  have cx: "pchain st' (PFirst l) xs ?o"
  proof (rule pchain_new_end [OF c(1)])
    show "distinct (PFirst l # map PNext xs)" using prep_slots [OF r] by auto
  qed (use g p ox d in auto)
  have "pchain st' (PFirst l) (xs @ ys) 0"
  proof (cases ys)
    case (Cons y zs)
    have "pchain st' (PNext y) zs 0 = pchain st (PNext y) zs 0"
    proof (rule pchain_cong)
      fix t assume "t \<in> set (PNext y # map PNext zs)"
      then have "t \<noteq> ?s" using pend_in [of "PFirst l" xs] d Cons by auto
      then show "pget st' t = pget st t" using g by simp
    next
      fix x assume "x \<in> set zs"
      then show "prev_of st' x = prev_of st x" using p d Cons by auto
    qed simp
    then show ?thesis using cx c(2) d Cons by (simp add: pchain_append)
  qed (use cx in simp)
  moreover have "m_last st' l = pend (PFirst l) (xs @ ys)" if "fast_push_back pol"
    using l that d r by (cases ys) (auto simp: prep_def)
  ultimately have "prep pol st' l (xs @ ys)" using r n by (auto simp: prep_def)
  then show ?thesis by (simp add: st'_def)
qed

lemma plist_push_front_ok:
  assumes "prep pol st l xs" and "a \<notin> set xs" "a \<noteq> 0"
  shows "prep pol (push_front pol st l a) l (a # xs)"
proof -
  have "m_first st l \<noteq> a" using prep_first [OF assms(1)] assms(2,3) by (cases xs) auto
  then have "prep pol (push_front pol st l a) l ([] @ a # xs)"
    by (intro prep_link [where st = st]) (use assms in \<open>auto simp: push_front_def Let_def\<close>)
  then show ?thesis by simp
qed

lemma plist_push_back_ok:
  assumes "prep pol st l xs" and "a \<notin> set xs" "a \<noteq> 0" and "fast_push_back pol"
  shows "prep pol (push_back pol st l a) l (xs @ [a])"
proof -
  have l: "m_last st l = pend (PFirst l) xs" "pget st (pend (PFirst l) xs) = 0"
    using assms(1,4) prep_split [of pol st l xs "[]"] by (simp_all add: prep_def)
  moreover have "pend (PFirst l) xs \<noteq> PNext a" using pend_in [of "PFirst l" xs] assms(2) by auto
  ultimately show ?thesis
    by (intro prep_link [where st = st]) (use assms in \<open>auto simp: push_back_def get_last_def Let_def\<close>)
qed

lemma insert_after_ok:
  assumes "prep pol st l (xs @ pos # ys)" and "a \<notin> set (xs @ pos # ys)" "a \<noteq> 0"
  shows "prep pol (insert_after pol st l pos a) l (xs @ pos # a # ys)"
proof -
  have pos: "pos \<noteq> 0" using assms(1) by (auto simp: prep_def)
  have o: "next_of st pos = (case ys of [] \<Rightarrow> 0 | y # _ \<Rightarrow> y)"
    using prep_split(2) [of pol st l "xs @ [pos]" ys] assms(1) by simp
  then have "next_of st pos \<noteq> a" using assms(2,3) by (cases ys) auto
  then have "prep pol (insert_after pol st l pos a) l ((xs @ [pos]) @ a # ys)"
    by (intro prep_link [where st = st]) (use assms pos in \<open>auto simp: insert_after_def Let_def\<close>)
  then show ?thesis by simp
qed

lemma empty_ok: "prep pol (empty pol st l) l []"
  by (simp add: prep_def empty_def)

section \<open>Several lists in one store\<close>

text \<open>A store with several lists that share no element. An operation on one list may only touch that
  list's object and the elements it has or gets; the other lists then keep theirs.\<close>

definition touches :: "plist_id \<Rightarrow> pelem set \<Rightarrow> pstore \<Rightarrow> pstore \<Rightarrow> bool" where
  "touches l A st st' \<longleftrightarrow>
     (\<forall>t. t \<noteq> PFirst l \<and> t \<notin> PNext ` A \<longrightarrow> pget st' t = pget st t) \<and>
     (\<forall>x. x \<notin> A \<longrightarrow> prev_of st' x = prev_of st x) \<and>
     (\<forall>k. k \<noteq> l \<longrightarrow> m_last st' k = m_last st k \<and> m_counter st' k = m_counter st k)"

lemma prep_untouched:
  assumes t: "touches l A st st'" and r: "prep pol st k zs" and "k \<noteq> l" "set zs \<inter> A = {}"
  shows "prep pol st' k zs"
proof -
  have "pchain st' (PFirst k) zs 0 = pchain st (PFirst k) zs 0"
  proof (rule pchain_cong)
    fix u assume "u \<in> set (PFirst k # map PNext zs)"
    then have "u \<noteq> PFirst l \<and> u \<notin> PNext ` A" using assms(3,4) by auto
    then show "pget st' u = pget st u" using t by (simp add: touches_def)
  next
    fix x assume "x \<in> set zs"
    then have "x \<notin> A" using assms(4) by auto
    then show "prev_of st' x = prev_of st x" using t by (simp add: touches_def)
  qed simp
  then show ?thesis using r t assms(3) by (simp add: prep_def touches_def)
qed

definition pool :: "policy \<Rightarrow> plist_id set \<Rightarrow> pstore \<Rightarrow> (plist_id \<Rightarrow> pelem list) \<Rightarrow> bool" where
  "pool pol L st f \<longleftrightarrow> (\<forall>l\<in>L. prep pol st l (f l)) \<and>
     (\<forall>k\<in>L. \<forall>l\<in>L. k \<noteq> l \<longrightarrow> set (f k) \<inter> set (f l) = {})"

locale plist_update =
  fixes pol :: policy and upd :: "pstore \<Rightarrow> plist_id \<Rightarrow> pstore" and pre :: "pelem list \<Rightarrow> bool"
    and eff :: "pelem list \<Rightarrow> pelem list" and A :: "pelem set"
  assumes effect: "prep pol st l xs \<Longrightarrow> pre xs \<Longrightarrow> prep pol (upd st l) l (eff xs)"
    and only: "prep pol st l xs \<Longrightarrow> pre xs \<Longrightarrow> touches l (set xs \<union> A) st (upd st l)"
    and keeps: "pre xs \<Longrightarrow> set (eff xs) \<subseteq> set xs \<union> A"
begin

lemma pool_update:
  assumes p: "pool pol L st f" and l: "l \<in> L" and pre: "pre (f l)"
    and A: "\<And>k. k \<in> L \<Longrightarrow> k \<noteq> l \<Longrightarrow> A \<inter> set (f k) = {}"
  shows "pool pol L (upd st l) (f(l := eff (f l)))"
proof -
  have r: "prep pol st l (f l)" using p l by (auto simp: pool_def)
  have d: "set (f k) \<inter> (set (f l) \<union> A) = {}" if "k \<in> L" "k \<noteq> l" for k
    using p l A [OF that] that unfolding pool_def by blast
  have "prep pol (upd st l) k (f k)" if k: "k \<in> L" "k \<noteq> l" for k
    using prep_untouched [OF only [OF r pre] _ k(2)] d [OF k] p k by (auto simp: pool_def)
  moreover have "set (f k) \<inter> set (eff (f l)) = {}" if "k \<in> L" "k \<noteq> l" for k
    using d [OF that] keeps [OF pre] by blast
  ultimately show ?thesis using effect [OF r pre] p by (auto simp: pool_def Int_commute)
qed

end


lemma prep_member_slots:
  assumes "prep pol st l xs" and "x \<in> set xs"
  shows "next_of st x = 0 \<or> next_of st x \<in> set xs" "prev_of st x \<in> insert (PFirst l) (PNext ` set xs)"
proof -
  obtain us vs where xs: "xs = us @ x # vs" using assms(2) by (meson split_list)
  then have "next_of st x = (case vs of [] \<Rightarrow> 0 | v # _ \<Rightarrow> v)"
    using prep_split(2) [of pol st l "us @ [x]" vs] assms(1) by simp
  then show "next_of st x = 0 \<or> next_of st x \<in> set xs" using xs by (cases vs) auto
  have "x \<noteq> 0" using assms by (metis prep_def)
  then have "prev_of st x = pend (PFirst l) us"
    using pchain_end [OF prep_split(1) [of pol st l us "x # vs"]] assms(1) xs by simp
  then show "prev_of st x \<in> insert (PFirst l) (PNext ` set xs)"
    using pend_in [of "PFirst l" us] xs by auto
qed

fun add_after :: "pelem \<Rightarrow> pelem \<Rightarrow> pelem list \<Rightarrow> pelem list" where
  "add_after pos a [] = []"
| "add_after pos a (x # xs) = (if x = pos then x # a # xs else x # add_after pos a xs)"

lemma add_after_split: "pos \<notin> set us \<Longrightarrow> add_after pos a (us @ pos # vs) = us @ pos # a # vs"
  by (induction us) auto

interpretation at_front: plist_update pol "\<lambda>st l. push_front pol st l a" "\<lambda>xs. a \<notin> set xs \<and> a \<noteq> 0"
  "\<lambda>xs. a # xs" "{a}" for pol a
proof
  show "touches l (set xs \<union> {a}) st (push_front pol st l a)"
    if "prep pol st l xs" "a \<notin> set xs \<and> a \<noteq> 0" for st l xs
    using prep_first [OF that(1)]
    by (cases xs) (auto simp: touches_def push_front_def Let_def split: if_splits)
qed (use plist_push_front_ok in auto)

interpretation at_back: plist_update pol "\<lambda>st l. push_back pol st l a"
  "\<lambda>xs. a \<notin> set xs \<and> a \<noteq> 0 \<and> fast_push_back pol" "\<lambda>xs. xs @ [a]" "{a}" for pol a
proof
  show "touches l (set xs \<union> {a}) st (push_back pol st l a)"
    if "prep pol st l xs" "a \<notin> set xs \<and> a \<noteq> 0 \<and> fast_push_back pol" for st l xs
    using that pend_in [of "PFirst l" xs]
    by (auto simp: touches_def push_back_def get_last_def Let_def prep_def)
qed (use plist_push_back_ok in auto)

interpretation after: plist_update pol "\<lambda>st l. insert_after pol st l pos a"
  "\<lambda>xs. pos \<in> set xs \<and> a \<notin> set xs \<and> a \<noteq> 0" "add_after pos a" "{a}" for pol pos a
proof
  fix st l xs
  assume r: "prep pol st l xs" and pre: "pos \<in> set xs \<and> a \<notin> set xs \<and> a \<noteq> 0"
  obtain us vs where xs: "xs = us @ pos # vs" using pre by (meson split_list)
  have "pos \<notin> set us" using r xs by (auto simp: prep_def)
  then show "prep pol (insert_after pol st l pos a) l (add_after pos a xs)"
    using insert_after_ok [of pol st l us pos vs a] r pre xs by (simp add: add_after_split)
  have "pos \<noteq> 0" using r pre by (metis prep_def)
  then show "touches l (set xs \<union> {a}) st (insert_after pol st l pos a)"
    using prep_member_slots(1) [OF r, of pos] pre
    by (auto simp: touches_def insert_after_def Let_def)
next
  show "set (add_after pos a xs) \<subseteq> set xs \<union> {a}" for xs
    by (induction xs) auto
qed

interpretation removed: plist_update pol "\<lambda>st l. remove pol st l a" "\<lambda>xs. a \<in> set xs" "remove1 a" "{}" for pol a
proof
  fix st l xs
  assume r: "prep pol st l xs" and a: "a \<in> set xs"
  obtain us vs where xs: "xs = us @ a # vs" using a by (meson split_list)
  have "a \<notin> set us" using r xs by (auto simp: prep_def)
  then show "prep pol (remove pol st l a) l (remove1 a xs)"
    using plist_remove_ok [of pol st l us a vs] r xs by (simp add: remove1_append)
  show "touches l (set xs \<union> {}) st (remove pol st l a)"
    using prep_member_slots [OF r a] by (auto simp: touches_def remove_def Let_def)
qed (use set_remove1_subset in fastforce)

interpretation popped: plist_update pol "\<lambda>st l. snd (pop_front pol st l)" "\<lambda>xs. True" tl "{}" for pol
proof
  fix st l xs
  assume r: "prep pol st l xs"
  show "prep pol (snd (pop_front pol st l)) l (tl xs)"
  proof (cases xs)
    case Nil
    then show ?thesis using r prep_first [OF r] by (simp add: pop_front_def front_def)
  next
    case (Cons x ys)
    then have "x \<noteq> 0" using r by (auto simp: prep_def)
    then show ?thesis
      using r Cons prep_first [OF r] plist_remove_ok [of pol st l "[]" x ys] by (simp add: pop_front_def front_def)
  qed
  show "touches l (set xs \<union> {}) st (snd (pop_front pol st l))"
  proof (cases xs)
    case Nil
    then show ?thesis using prep_first [OF r] by (simp add: pop_front_def front_def touches_def)
  next
    case (Cons x ys)
    then show ?thesis
      using removed.only [OF r, of x] prep_first [OF r] by (simp add: pop_front_def front_def touches_def)
  qed
next
  show "set (tl xs) \<subseteq> set xs \<union> {}" for xs :: "pelem list" by (cases xs) auto
qed

section \<open>Swapping and iterating\<close>

lemma swap_half:
  assumes r: "prep pol st k ys" and "0 \<notin> set ys" and g: "m_first st' l = m_first st k" "next_of st' = next_of st"
    and p: "\<And>y. y \<in> set ys \<Longrightarrow> prev_of st' y = (if y = m_first st k then PFirst l else prev_of st y)"
  shows "pchain st' (PFirst l) ys 0"
proof (cases ys)
  case Nil
  then show ?thesis using r g by (simp add: prep_def)
next
  case (Cons y zs)
  have "pchain st' (PNext y) zs 0 = pchain st (PNext y) zs 0"
    by (rule pchain_cong) (use r g p Cons in \<open>auto simp: prep_def\<close>)
  then show ?thesis using r g p Cons by (auto simp: prep_def)
qed

lemma counter_swap_members [simp]:
  "m_first (counter_swap pol st l k) = m_first st" "next_of (counter_swap pol st l k) = next_of st"
  "prev_of (counter_swap pol st l k) = prev_of st" "m_last (counter_swap pol st l k) = m_last st"
  by (simp_all add: counter_swap_def)

lemma plist_swap_ok:
  assumes slow: "\<not> fast_push_back pol" and r: "prep pol st l xs" "prep pol st k ys" and "l \<noteq> k"
    and dis: "set xs \<inter> set ys = {}"
  shows "prep pol (swap pol st l k) l ys" "prep pol (swap pol st l k) k xs"
proof -
  define st' where "st' = swap pol st l k"
  note first = prep_first [OF r(1)] prep_first [OF r(2)]
  have z: "0 \<notin> set xs" "0 \<notin> set ys" using r by (auto simp: prep_def)
  have g: "m_first st' l = m_first st k" "m_first st' k = m_first st l" "next_of st' = next_of st"
    using slow assms(4) by (simp_all add: st'_def swap_def swap_last_def set_last_def Let_def)
  have p: "prev_of st' x = (if x = m_first st l \<and> x \<noteq> 0 then PFirst k
      else if x = m_first st k \<and> x \<noteq> 0 then PFirst l else prev_of st x)" for x
    using slow assms(4) by (auto simp: st'_def swap_def swap_last_def set_last_def Let_def)
  have n: "m_counter st' l = m_counter st k" "m_counter st' k = m_counter st l" if "counting pol"
    using slow that assms(4)
    by (auto simp: st'_def swap_def swap_last_def set_last_def counter_swap_def Let_def)
  have "m_first st l \<notin> set ys" "m_first st k \<notin> set xs"
    using first dis z by (cases xs; cases ys; auto)+
  then have "pchain st' (PFirst l) ys 0" "pchain st' (PFirst k) xs 0"
    using z g p by (auto intro!: swap_half [OF r(2)] swap_half [OF r(1)])
  then show "prep pol (swap pol st l k) l ys" "prep pol (swap pol st l k) k xs"
    using r slow n by (auto simp: prep_def st'_def [symmetric])
qed

lemma remove_while_iterating_ok:
  assumes "prep pol st l (xs @ ys)" and "it_list it = l" and "current it = (case ys of [] \<Rightarrow> 0 | y # _ \<Rightarrow> y)"
  shows "\<exists>st'. remove_while_iterating pol P st it = Some (ys, st') \<and>
    prep pol st' l (xs @ filter (\<lambda>x. \<not> P x) ys)"
  using assms
proof (induction ys arbitrary: xs st it)
  case Nil
  then show ?case
    by (subst remove_while_iterating.simps) (simp add: it_postinc_def)
next
  case (Cons y ys)
  let ?it = "it\<lparr>current := next_of st y\<rparr>"
  have y: "y \<noteq> 0" using Cons.prems(1) by (auto simp: prep_def)
  have n: "next_of st y = (case ys of [] \<Rightarrow> 0 | y # _ \<Rightarrow> y)"
    using prep_split(2) [of pol st l "xs @ [y]" ys] Cons.prems(1) by simp
  obtain st' where "remove_while_iterating pol P (if P y then remove pol st l y else st) ?it = Some (ys, st')"
      "prep pol st' l (xs @ filter (\<lambda>x. \<not> P x) (y # ys))"
  proof (cases "P y")
    case True
    then show ?thesis
      using Cons.IH [of "remove pol st l y" xs ?it] plist_remove_ok [OF Cons.prems(1)] Cons.prems(2) n that by auto
  next
    case False
    then show ?thesis using Cons.IH [of st "xs @ [y]" ?it] Cons.prems(1,2) n that by auto
  qed
  then show ?case
    using Cons.prems(2,3) y by (subst remove_while_iterating.simps) (simp add: it_postinc_def split: if_splits)
qed


section \<open>Properties of the header\<close>

lemma plist_pool_operations_parts:
  assumes p: "pool pol L st f" and l: "l \<in> L" and a: "a \<noteq> 0" "\<forall>k\<in>L. a \<notin> set (f k)"
  shows "pool pol L (push_front pol st l a) (f(l := a # f l))"
    and "fast_push_back pol \<Longrightarrow> pool pol L (push_back pol st l a) (f(l := f l @ [a]))"
    and "pos \<in> set (f l) \<Longrightarrow> pool pol L (insert_after pol st l pos a) (f(l := add_after pos a (f l)))"
    and "pos \<in> set (f l) \<Longrightarrow> pool pol L (remove pol st l pos) (f(l := remove1 pos (f l)))"
    and "pool pol L (snd (pop_front pol st l)) (f(l := tl (f l)))"
    and "fst (pop_front pol st l) = (case f l of [] \<Rightarrow> 0 | x # _ \<Rightarrow> x)"
    and "is_empty st l \<longleftrightarrow> f l = []"
    and "counting pol \<Longrightarrow> elements st l = of_nat (length (f l))"
proof -
  have r: "prep pol st l (f l)" using p l by (auto simp: pool_def)
  have al: "a \<notin> set (f l)" using a(2) l by blast
  show "pool pol L (push_front pol st l a) (f(l := a # f l))"
    by (rule at_front.pool_update [OF p l]) (use a al in auto)
  show "pool pol L (push_back pol st l a) (f(l := f l @ [a]))" if "fast_push_back pol"
    by (rule at_back.pool_update [OF p l]) (use a al that in auto)
  show "pool pol L (insert_after pol st l pos a) (f(l := add_after pos a (f l)))" if "pos \<in> set (f l)"
    by (rule after.pool_update [OF p l]) (use a al that in auto)
  show "pool pol L (remove pol st l pos) (f(l := remove1 pos (f l)))" if "pos \<in> set (f l)"
    by (rule removed.pool_update [OF p l]) (use that in auto)
  show "pool pol L (snd (pop_front pol st l)) (f(l := tl (f l)))"
    by (rule popped.pool_update [OF p l]) auto
  show "fst (pop_front pol st l) = (case f l of [] \<Rightarrow> 0 | x # _ \<Rightarrow> x)"
    using prep_first [OF r] by (simp add: pop_front_def front_def Let_def)
  show "is_empty st l \<longleftrightarrow> f l = []"
    using prep_first [OF r] r by (auto simp: is_empty_def prep_def split: list.splits)
  show "elements st l = of_nat (length (f l))" if "counting pol"
    using r that by (simp add: elements_def prep_def)
qed

text \<open>
  A store of lists that share no element stays one under every operation, and each operation has
  its effect on the sequence of the one list and none on the others: \<^verbatim>\<open>push_front\<close>, \<^verbatim>\<open>push_back\<close>
  and \<^verbatim>\<open>insert_after\<close> add an element that is in no list, \<^verbatim>\<open>remove\<close> and \<^verbatim>\<open>pop_front\<close> take one out,
  for every choice of policies that has the operation. The counter is the number of elements.
\<close>
theorem plist_pool_operations:
  assumes "pool pol L st f" and "l \<in> L" and "a \<noteq> 0" "\<forall>k\<in>L. a \<notin> set (f k)"
  shows "pool pol L (push_front pol st l a) (f(l := a # f l)) \<and>
    (fast_push_back pol \<longrightarrow> pool pol L (push_back pol st l a) (f(l := f l @ [a]))) \<and>
    (pos \<in> set (f l) \<longrightarrow> pool pol L (insert_after pol st l pos a) (f(l := add_after pos a (f l)))) \<and>
    (pos \<in> set (f l) \<longrightarrow> pool pol L (remove pol st l pos) (f(l := remove1 pos (f l)))) \<and>
    pool pol L (snd (pop_front pol st l)) (f(l := tl (f l))) \<and>
    fst (pop_front pol st l) = (case f l of [] \<Rightarrow> 0 | x # _ \<Rightarrow> x) \<and>
    (is_empty st l \<longleftrightarrow> f l = []) \<and>
    (counting pol \<longrightarrow> elements st l = of_nat (length (f l)))"
  by (intro conjI impI) (use plist_pool_operations_parts [OF assms] in blast)+

definition sample_policy :: policy where
  "sample_policy = \<lparr>counting = True, fast_push_back = True\<rparr>"

definition sample_pstore :: pstore where
  "sample_pstore = (let st = \<lparr>m_first = (\<lambda>l. 0), m_last = PFirst, m_counter = (\<lambda>l. 0), next_of = (\<lambda>a. 0),
       prev_of = (\<lambda>a. PFirst 0)\<rparr>
     in push_back sample_policy (push_front sample_policy st 1 4) 1 5)"

lemma sample_pool: "pool sample_policy {1, 2} sample_pstore ((\<lambda>l. [])(1 := [4, 5]))"
  by (simp add: pool_def prep_def sample_pstore_def sample_policy_def push_front_def push_back_def
      get_last_def set_last_def counter_inc_def set_prev_def pset_def Let_def)

theorem plist_pool_operations_witness:
  "pool sample_policy {1, 2} (remove sample_policy sample_pstore 1 4) ((\<lambda>l. [])(1 := [5])) \<and>
   pool sample_policy {1, 2} (push_front sample_policy sample_pstore 2 7) ((\<lambda>l. [])(1 := [4, 5], 2 := [7]))"
  using plist_pool_operations [OF sample_pool, of 1 7 4] plist_pool_operations [OF sample_pool, of 2 7 4]
  by simp

text \<open>
  Removing the elements a test selects while an iterator walks over the list ends: every element
  is visited once, in order, and exactly the others are left.
\<close>

theorem plist_remove_while_iterating:
  assumes "prep pol st l xs"
  shows "\<exists>st'. remove_while_iterating pol P st (it_init st l) = Some (xs, st') \<and>
    prep pol st' l (filter (\<lambda>x. \<not> P x) xs)"
  using remove_while_iterating_ok [of pol st l "[]" xs "it_init st l" P] assms prep_first [OF assms]
  by (simp add: it_init_def)

theorem plist_remove_while_iterating_witness:
  "\<exists>st'. remove_while_iterating sample_policy (\<lambda>x. x = 4) sample_pstore (it_init sample_pstore 1) =
     Some ([4, 5], st') \<and> prep sample_policy st' 1 [5]"
  using plist_remove_while_iterating [of sample_policy sample_pstore 1 "[4, 5]" "\<lambda>x. x = 4"] sample_pool
  by (simp add: pool_def)

lemma plist_swap_parts:
  assumes "prep pol st l xs" and "prep pol st k ys" and "l \<noteq> k" and "set xs \<inter> set ys = {}"
  shows "\<not> fast_push_back pol \<Longrightarrow> prep pol (swap pol st l k) l ys \<and> prep pol (swap pol st l k) k xs"
    and "fast_push_back pol \<and> xs = [] \<and> ys \<noteq> [] \<Longrightarrow>
      m_last (swap pol st l k) l = PFirst k \<and> (\<nexists>zs. prep pol (swap pol st l k) l zs)"
proof -
  show "prep pol (swap pol st l k) l ys \<and> prep pol (swap pol st l k) k xs" if "\<not> fast_push_back pol"
    using plist_swap_ok [OF that assms] by simp
  show "m_last (swap pol st l k) l = PFirst k \<and> (\<nexists>zs. prep pol (swap pol st l k) l zs)"
    if h: "fast_push_back pol \<and> xs = [] \<and> ys \<noteq> []"
  proof -
    have "m_first st l = 0" "m_first st k \<noteq> 0"
      using prep_first [OF assms(1)] prep_first [OF assms(2)] assms(2) h
      by (auto simp: prep_def split: list.splits)
    then have m: "m_last (swap pol st l k) l = PFirst k"
      using h assms(3) by (simp add: swap_def swap_last_def Let_def)
    moreover have "pend (PFirst l) zs \<noteq> PFirst k" for zs
      using pend_in [of "PFirst l" zs] assms(3) by auto
    ultimately show ?thesis using h by (metis prep_def)
  qed
qed

text \<open>
  \<^verbatim>\<open>swap\<close> exchanges two lists that do not remember their last slot. With the policy that does, it
  would break: after an empty list is swapped with one that is not, the remembered slot of
  the list is the head of the other one, because the last branch sets the member of the wrong list.
\<close>
theorem plist_swap:
  assumes "prep pol st l xs" and "prep pol st k ys" and "l \<noteq> k" and "set xs \<inter> set ys = {}"
  shows "(\<not> fast_push_back pol \<longrightarrow> prep pol (swap pol st l k) l ys \<and> prep pol (swap pol st l k) k xs) \<and>
    (fast_push_back pol \<and> xs = [] \<and> ys \<noteq> [] \<longrightarrow> m_last (swap pol st l k) l = PFirst k \<and> (\<nexists>zs. prep pol (swap pol st l k) l zs))"
  by (intro conjI impI) (use plist_swap_parts [OF assms] in blast)+

theorem plist_swap_witness:
  "m_last (swap sample_policy sample_pstore 2 1) 2 = PFirst 1"
  using plist_swap [of sample_policy sample_pstore 2 "[]" 1 "[4, 5]"] sample_pool
  by (simp add: pool_def sample_policy_def)

end
