(* ===== verification/Hash_Filo.thy ===== *)
theory Hash_Filo
  imports Prelude "HOL-Library.Monad_Syntax"
begin

text \<open>
  The cache of limited size of \<^verbatim>\<open>hash_filo.h\<close>: a hash table whose elements are also linked in the
  order of their last use. An element is an address, 0 is the null pointer. The hash table is
  library code: its functions are a parameter, a record of operations on an unknown table type,
  and \<open>hash_laws\<close> states what the code relies on. The state has the members of the class, the links of
  the elements, whether the mutex is held, and the elements given to \<^verbatim>\<open>free_element\<close>. A failed
  assertion, a lock that would deadlock and a use of the mutex before it is initialized give
  \<^const>\<open>None\<close>.
\<close>

type_synonym filo_element = nat

record ('h, 'k) hash_ops =
  my_hash_search :: "'h \<Rightarrow> 'k \<Rightarrow> filo_element"
  my_hash_insert :: "'h \<Rightarrow> filo_element \<Rightarrow> bool \<times> 'h"
  my_hash_delete :: "'h \<Rightarrow> filo_element \<Rightarrow> 'h"
  my_hash_init :: 'h
  hash_records :: "'h \<Rightarrow> nat"

record 'h hash_filo =
  m_size :: uint
  init :: bool
  first_link :: filo_element
  last_link :: filo_element
  next_used :: "filo_element \<Rightarrow> filo_element"
  prev_used :: "filo_element \<Rightarrow> filo_element"
  lock :: bool
  cache :: 'h
  freed :: "filo_element list"

section \<open>Operations\<close>

definition hash_filo_make ::
  "uint \<Rightarrow> 'h \<Rightarrow> (filo_element \<Rightarrow> filo_element) \<Rightarrow> (filo_element \<Rightarrow> filo_element) \<Rightarrow> 'h hash_filo" where
  "hash_filo_make size_arg zeroed nx pv =
     \<lparr>m_size = size_arg, init = False, first_link = 0, last_link = 0, next_used = nx, prev_used = pv,
      lock = False, cache = zeroed, freed = []\<rparr>"

definition mutex_lock :: "'h hash_filo \<Rightarrow> 'h hash_filo option" where
  "mutex_lock st = (if init st \<and> \<not> lock st then Some (st\<lparr>lock := True\<rparr>) else None)"

definition mutex_unlock :: "'h hash_filo \<Rightarrow> 'h hash_filo option" where
  "mutex_unlock st = (if init st \<and> lock st then Some (st\<lparr>lock := False\<rparr>) else None)"

definition clear :: "('h, 'k) hash_ops \<Rightarrow> 'h hash_filo \<Rightarrow> bool \<Rightarrow> 'h hash_filo option" where
  "clear ops st locked = do {
     let st = (if \<not> init st then st\<lparr>init := True, lock := False\<rparr> else st);
     st \<leftarrow> (if \<not> locked then mutex_lock st else Some st);
     let st = st\<lparr>first_link := 0, last_link := 0, cache := my_hash_init ops\<rparr>;
     (if \<not> locked then mutex_unlock st else Some st)
   }"

definition first :: "'h hash_filo \<Rightarrow> filo_element option" where
  "first st = (if lock st then Some (first_link st) else None)"

definition last_elem :: "'h hash_filo \<Rightarrow> filo_element option" where
  "last_elem st = (if lock st then Some (last_link st) else None)"

definition set_next :: "'h hash_filo \<Rightarrow> filo_element \<Rightarrow> filo_element \<Rightarrow> 'h hash_filo" where
  "set_next st e v = st\<lparr>next_used := (next_used st)(e := v)\<rparr>"

definition set_prev :: "'h hash_filo \<Rightarrow> filo_element \<Rightarrow> filo_element \<Rightarrow> 'h hash_filo" where
  "set_prev st e v = st\<lparr>prev_used := (prev_used st)(e := v)\<rparr>"

definition relink :: "'h hash_filo \<Rightarrow> filo_element \<Rightarrow> 'h hash_filo option" where
  "relink st entry = do {
     st \<leftarrow> (if entry = last_link st
            then let st = st\<lparr>last_link := prev_used st (last_link st)\<rparr>
                 in if last_link st = 0 then None else Some (set_next st (last_link st) 0)
            else if next_used st entry = 0 \<or> prev_used st entry = 0 then None
            else let st = set_prev st (next_used st entry) (prev_used st entry)
                 in Some (set_next st (prev_used st entry) (next_used st entry)));
     let st = set_prev st entry 0;
     let st = set_next st entry (first_link st);
     let st = set_prev st (first_link st) entry;
     Some (st\<lparr>first_link := entry\<rparr>)
   }"

definition search :: "('h, 'k) hash_ops \<Rightarrow> 'h hash_filo \<Rightarrow> 'k \<Rightarrow> (filo_element \<times> 'h hash_filo) option" where
  "search ops st key =
     (if \<not> lock st then None
      else let entry = my_hash_search ops (cache st) key
           in if entry \<noteq> 0
              then if first_link st = 0 \<or> last_link st = 0 then None
                   else if entry \<noteq> first_link st
                   then do { st \<leftarrow> relink st entry; Some (entry, st) }
                   else Some (entry, st)
              else Some (entry, st))"

text \<open>The first half of \<^verbatim>\<open>add\<close>: making room.\<close>

definition evict :: "('h, 'k) hash_ops \<Rightarrow> 'h hash_filo \<Rightarrow> 'h hash_filo option" where
  "evict ops st =
     (if hash_records ops (cache st) = unat (m_size st)
      then let tmp = last_link st
           in if tmp = 0 then None
              else let st = st\<lparr>last_link := prev_used st tmp\<rparr>;
                       st = (if last_link st \<noteq> 0 then set_next st (last_link st) 0 else st\<lparr>first_link := 0\<rparr>)
                   in Some (st\<lparr>cache := my_hash_delete ops (cache st) tmp\<rparr>)
      else Some st)"

definition add :: "('h, 'k) hash_ops \<Rightarrow> bool \<Rightarrow> 'h hash_filo \<Rightarrow> filo_element \<Rightarrow> (bool \<times> 'h hash_filo) option" where
  "add ops has_free st entry =
     (if m_size st = 0 then Some (True, st)
      else do {
        st \<leftarrow> evict ops st;
        let (failed, h) = my_hash_insert ops (cache st) entry;
        let st = st\<lparr>cache := h\<rparr>;
        (if failed then Some (True, if has_free then st\<lparr>freed := freed st @ [entry]\<rparr> else st)
         else let st = set_prev st entry 0;
                  st = set_next st entry (first_link st);
                  st = (if first_link st \<noteq> 0 then set_prev st (first_link st) entry
                        else st\<lparr>last_link := entry\<rparr>)
              in Some (False, st\<lparr>first_link := entry\<rparr>))
      })"

definition filo_size :: "'h hash_filo \<Rightarrow> uint" where
  "filo_size st = m_size st"

definition resize :: "('h, 'k) hash_ops \<Rightarrow> 'h hash_filo \<Rightarrow> uint \<Rightarrow> 'h hash_filo option" where
  "resize ops st new_size = do {
     st \<leftarrow> mutex_lock st;
     let st = st\<lparr>m_size := new_size\<rparr>;
     st \<leftarrow> clear ops st True;
     mutex_unlock st
   }"

section \<open>What the code relies on\<close>

text \<open>The table holds a finite set of elements; \<^verbatim>\<open>records\<close> is their number. A search returns an
  element with the key, or null when there is none. An insertion either fails and changes nothing
  or adds the element; keys need not be unique.\<close>

definition hash_laws :: "('h, 'k) hash_ops \<Rightarrow> (filo_element \<Rightarrow> 'k) \<Rightarrow> ('h \<Rightarrow> filo_element set) \<Rightarrow> bool" where
  "hash_laws ops get_key elems \<longleftrightarrow>
     elems (my_hash_init ops) = {} \<and>
     (\<forall>h. finite (elems h) \<and> hash_records ops h = card (elems h)) \<and>
     (\<forall>h k. my_hash_search ops h k \<noteq> 0 \<longrightarrow>
        my_hash_search ops h k \<in> elems h \<and> get_key (my_hash_search ops h k) = k) \<and>
     (\<forall>h e. e \<in> elems h \<longrightarrow> my_hash_search ops h (get_key e) \<noteq> 0) \<and>
     (\<forall>h e. elems (snd (my_hash_insert ops h e)) =
        (if fst (my_hash_insert ops h e) then elems h else insert e (elems h))) \<and>
     (\<forall>h e. elems (my_hash_delete ops h e) = elems h - {e})"

section \<open>The chain of used elements\<close>

lemma link_members [simp]:
  "next_used (set_next st e v) = (next_used st)(e := v)" "prev_used (set_next st e v) = prev_used st"
  "next_used (set_prev st e v) = next_used st" "prev_used (set_prev st e v) = (prev_used st)(e := v)"
  "first_link (set_next st e v) = first_link st" "first_link (set_prev st e v) = first_link st"
  "last_link (set_next st e v) = last_link st" "last_link (set_prev st e v) = last_link st"
  "cache (set_next st e v) = cache st" "cache (set_prev st e v) = cache st"
  "m_size (set_next st e v) = m_size st" "m_size (set_prev st e v) = m_size st"
  "lock (set_next st e v) = lock st" "lock (set_prev st e v) = lock st"
  by (simp_all add: set_next_def set_prev_def)

fun dl :: "'h hash_filo \<Rightarrow> filo_element \<Rightarrow> filo_element list \<Rightarrow> filo_element \<Rightarrow> bool" where
  "dl st p [] e \<longleftrightarrow> True"
| "dl st p (x # xs) e \<longleftrightarrow> prev_used st x = p \<and> next_used st x = hd (xs @ [e]) \<and> dl st x xs e"

lemma dl_append: "dl st p (xs @ ys) e \<longleftrightarrow> dl st p xs (hd (ys @ [e])) \<and> dl st (last (p # xs)) ys e"
  by (induction xs arbitrary: p) (auto simp: hd_append)

lemma dl_cong:
  "(\<And>x. x \<in> set xs \<Longrightarrow> next_used st x = next_used st' x \<and> prev_used st x = prev_used st' x) \<Longrightarrow>
   dl st p xs e = dl st' p xs e"
  by (induction xs arbitrary: p) auto

lemma dl_irrelevant [simp]:
  "dl (st\<lparr>cache := h\<rparr>) p xs e = dl st p xs e" "dl (st\<lparr>freed := fs\<rparr>) p xs e = dl st p xs e"
  "dl (st\<lparr>lock := b\<rparr>) p xs e = dl st p xs e"
  by (rule dl_cong; simp)+

lemma dl_new_end:
  assumes "dl st p xs e" and "distinct xs"
    and "\<And>x. x \<in> set xs \<Longrightarrow> next_used st' x = (if x = last xs then e' else next_used st x)"
    and "\<And>x. x \<in> set xs \<Longrightarrow> prev_used st' x = prev_used st x"
  shows "dl st' p xs e'"
  using assms
proof (induction xs arbitrary: p)
  case (Cons x xs)
  then show ?case by (cases "xs = []") (auto simp: hd_append)
qed simp

lemma dl_new_start:
  assumes "dl st p xs e" and "distinct xs"
    and "\<And>x. x \<in> set xs \<Longrightarrow> prev_used st' x = (if x = hd xs then p' else prev_used st x)"
    and "\<And>x. x \<in> set xs \<Longrightarrow> next_used st' x = next_used st x"
  shows "dl st' p' xs e"
proof (cases xs)
  case (Cons x ys)
  then have "dl st' x ys e = dl st x ys e" using assms by (intro dl_cong) auto
  then show ?thesis using Cons assms by auto
qed simp

lemma dl_unlink:
  assumes c: "dl st 0 (us @ e # vs) 0" and d: "distinct (us @ e # vs)"
    and n: "\<And>x. x \<in> set (us @ vs) \<Longrightarrow>
      next_used st' x = (if us \<noteq> [] \<and> x = last us then hd (vs @ [0]) else next_used st x)"
    and p: "\<And>x. x \<in> set (us @ vs) \<Longrightarrow>
      prev_used st' x = (if vs \<noteq> [] \<and> x = hd vs then last (0 # us) else prev_used st x)"
  shows "dl st' 0 (us @ vs) 0"
proof -
  have c1: "dl st 0 us e" "dl st e vs 0" using c by (simp_all add: dl_append)
  have "dl st' 0 us (hd (vs @ [0]))"
  proof (rule dl_new_end [OF c1(1)])
    fix x assume x: "x \<in> set us"
    then show "next_used st' x = (if x = last us then hd (vs @ [0]) else next_used st x)" using n by auto
    show "prev_used st' x = prev_used st x" using p x d by (cases vs) auto
  qed (use d in simp)
  moreover have "dl st' (last (0 # us)) vs 0"
  proof (rule dl_new_start [OF c1(2)])
    fix x assume x: "x \<in> set vs"
    then have "x \<notin> set us" using d by auto
    then have "x \<noteq> last us \<or> us = []" using last_in_set [of us] by metis
    then show "next_used st' x = next_used st x" using n x by auto
    show "prev_used st' x = (if x = hd vs then last (0 # us) else prev_used st x)" using p x by (cases vs) auto
  qed (use d in simp)
  ultimately show ?thesis by (simp add: dl_append)
qed

lemma dl_push:
  assumes c: "dl st 0 xs 0" and d: "distinct (e # xs)"
    and e: "next_used st' e = hd (xs @ [0])" "prev_used st' e = 0"
    and n: "\<And>x. x \<in> set xs \<Longrightarrow> next_used st' x = next_used st x"
    and p: "\<And>x. x \<in> set xs \<Longrightarrow> prev_used st' x = (if x = hd xs then e else prev_used st x)"
  shows "dl st' 0 (e # xs) 0"
  using dl_new_start [OF c, of st' e] assms by simp

definition filo_rep :: "('h \<Rightarrow> filo_element set) \<Rightarrow> 'h hash_filo \<Rightarrow> filo_element list \<Rightarrow> bool" where
  "filo_rep elems st xs \<longleftrightarrow> distinct xs \<and> 0 \<notin> set xs \<and> dl st 0 xs 0 \<and>
     first_link st = hd (xs @ [0]) \<and> last_link st = last (0 # xs) \<and>
     elems (cache st) = set xs \<and> length xs \<le> unat (m_size st)"

lemma dl_neighbours:
  assumes "dl st 0 (us @ e # vs) 0"
  shows "prev_used st e = last (0 # us)" "next_used st e = hd (vs @ [0])"
  using assms by (simp_all add: dl_append)

lemma relink_ok:
  assumes r: "filo_rep elems st (us @ e # vs)" and us: "us \<noteq> []"
  shows "\<exists>st'. relink st e = Some st' \<and> filo_rep elems st' (e # us @ vs) \<and>
    lock st' = lock st \<and> m_size st' = m_size st"
proof -
  have d: "distinct (us @ e # vs)" "0 \<notin> set (us @ e # vs)" and c: "dl st 0 (us @ e # vs) 0"
    using r by (simp_all add: filo_rep_def)
  note nb = dl_neighbours [OF c]
  have lu: "last us \<in> set us" "last (0 # us) = last us" "hd us \<in> set us" using us by simp_all
  have l0: "last us \<noteq> 0" using d(2) lu(1) by (metis UnCI set_append)
  have f: "first_link st = hd us" using r us by (simp add: filo_rep_def)
  define st1 where "st1 = (if vs = [] then set_next (st\<lparr>last_link := last us\<rparr>) (last us) 0
      else set_next (set_prev st (hd vs) (last us)) (last us) (hd vs))"
  have e_last: "e = last_link st \<longleftrightarrow> vs = []"
    using r d by (cases vs rule: rev_cases) (auto simp: filo_rep_def)
  have pl: "prev_used st (last_link st) = last us" if "vs = []"
    using that e_last nb lu by simp
  have hv: "hd vs \<in> set vs" if "vs \<noteq> []" using that by simp
  have "dl st1 0 (us @ vs) 0"
  proof (rule dl_unlink [OF c d(1)])
    fix x assume "x \<in> set (us @ vs)"
    show "next_used st1 x = (if us \<noteq> [] \<and> x = last us then hd (vs @ [0]) else next_used st x)"
      using us by (auto simp: st1_def hd_append)
    show "prev_used st1 x = (if vs \<noteq> [] \<and> x = hd vs then last (0 # us) else prev_used st x)"
      using us by (auto simp: st1_def)
  qed
  define st2 where "st2 = (set_prev (set_next (set_prev st1 e 0) e (hd us)) (hd us) e)\<lparr>first_link := e\<rparr>"
  have en: "e \<noteq> hd us" using d lu by auto
  have "dl st2 0 (e # us @ vs) 0"
    by (rule dl_push [OF \<open>dl st1 0 (us @ vs) 0\<close>]) (use d us en in \<open>auto simp: st2_def hd_append\<close>)
  moreover have "last_link st2 = last (0 # e # us @ vs)"
    using r us lu by (auto simp: st2_def st1_def filo_rep_def)
  moreover have "cache st2 = cache st" "m_size st2 = m_size st" "lock st2 = lock st" "first_link st2 = e"
    by (auto simp: st2_def st1_def)
  ultimately have "filo_rep elems st2 (e # us @ vs)" using r by (auto simp: filo_rep_def)
  moreover have "relink st e = Some st2"
  proof (cases "vs = []")
    case True
    then show ?thesis
      using e_last pl f l0 by (auto simp: relink_def st2_def st1_def Let_def)
  next
    case False
    then have "hd vs \<in> set (us @ e # vs)" using hv by simp
    then have "hd vs \<noteq> 0" using d(2) by metis
    moreover have "next_used st e = hd vs" "prev_used st e = last us" "hd vs \<noteq> e"
      using False nb lu hv d by auto
    ultimately show ?thesis using False e_last f l0 by (simp add: relink_def st2_def st1_def Let_def)
  qed
  ultimately show ?thesis by (auto simp: st2_def st1_def)
qed


lemma search_ok:
  assumes laws: "hash_laws ops get_key elems" and r: "filo_rep elems st xs" and lk: "lock st"
  shows "\<exists>e st'. search ops st k = Some (e, st') \<and> lock st' \<and> m_size st' = m_size st \<and>
    (if k \<in> get_key ` set xs then e \<in> set xs \<and> get_key e = k \<and> filo_rep elems st' (e # remove1 e xs)
     else e = 0 \<and> st' = st)"
proof (cases "my_hash_search ops (cache st) k = 0")
  case True
  then have "k \<notin> get_key ` set xs"
    using laws r unfolding hash_laws_def filo_rep_def by (metis imageE)
  then show ?thesis using True lk by (simp add: search_def)
next
  case False
  define e where "e = my_hash_search ops (cache st) k"
  have e: "e \<in> set xs" "get_key e = k" "e \<noteq> 0"
    using False laws r unfolding e_def hash_laws_def filo_rep_def by metis+
  obtain us vs where xs: "xs = us @ e # vs" using e(1) by (meson split_list)
  have eu: "e \<notin> set us" using r xs by (auto simp: filo_rep_def)
  then have rem: "remove1 e xs = us @ vs" using xs by (simp add: remove1_append)
  have nz: "first_link st \<noteq> 0" "last_link st \<noteq> 0"
  proof -
    have "xs \<noteq> []" using e(1) by auto
    then have "hd xs \<in> set xs" "last xs \<in> set xs" "first_link st = hd xs" "last_link st = last xs"
      using r by (simp_all add: filo_rep_def)
    then show "first_link st \<noteq> 0" "last_link st \<noteq> 0" using r unfolding filo_rep_def by metis+
  qed
  show ?thesis
  proof (cases "us = []")
    case True
    then have "first_link st = e" using r xs by (simp add: filo_rep_def)
    then have "search ops st k = Some (e, st)" using lk e nz by (simp add: search_def e_def [symmetric])
    then show ?thesis using e r xs True lk by auto
  next
    case us: False
    then have "first_link st = hd us" "hd us \<in> set us" using r xs by (simp_all add: filo_rep_def)
    then have "e \<noteq> first_link st" using eu by metis
    moreover obtain st' where "relink st e = Some st'" "filo_rep elems st' (e # us @ vs)"
        "lock st' = lock st" "m_size st' = m_size st"
      using relink_ok [OF r [unfolded xs] us] by blast
    ultimately show ?thesis
      using lk e nz rem by (auto simp: search_def e_def [symmetric])
  qed
qed

lemma evict_ok:
  assumes laws: "hash_laws ops get_key elems" and r: "filo_rep elems st xs" and sz: "m_size st \<noteq> 0"
  shows "\<exists>st'. evict ops st = Some st' \<and> filo_rep elems st' (take (unat (m_size st) - 1) xs) \<and>
    lock st' = lock st \<and> m_size st' = m_size st"
proof (cases "hash_records ops (cache st) = unat (m_size st)")
  case full: True
  have "card (set xs) = unat (m_size st)" using full laws r by (simp add: hash_laws_def filo_rep_def)
  then have len: "length xs = unat (m_size st)" using r by (simp add: filo_rep_def distinct_card)
  then have "xs \<noteq> []" using sz by (auto simp: unat_eq_zero)
  then obtain ys z where xs: "xs = ys @ [z]" by (metis append_butlast_last_id)
  have take: "take (unat (m_size st) - 1) xs = ys" using len xs by (simp flip: len)
  have d: "distinct (ys @ [z])" "0 \<notin> set (ys @ [z])" and c: "dl st 0 (ys @ [z]) 0"
    and z: "last_link st = z" "z \<noteq> 0"
    using r xs by (auto simp: filo_rep_def)
  have pz: "prev_used st z = last (0 # ys)" using dl_neighbours(1) [of st ys z "[]"] c by simp
  define st1 where "st1 = (if ys = [] then st\<lparr>last_link := 0, first_link := 0\<rparr>
      else set_next (st\<lparr>last_link := last ys\<rparr>) (last ys) 0)"
  define st2 where "st2 = st1\<lparr>cache := my_hash_delete ops (cache st) z\<rparr>"
  have ly: "last ys \<noteq> 0" if "ys \<noteq> []" using d(2) last_in_set [OF that] by (metis UnCI set_append)
  have ev: "evict ops st = Some st2"
    using full z pz ly by (auto simp: evict_def st2_def st1_def Let_def)
  have "dl st2 0 (ys @ []) 0"
    by (rule dl_unlink [OF c d(1)]) (auto simp: st2_def st1_def)
  moreover have "elems (my_hash_delete ops (cache st) z) = set ys"
    using laws r d xs by (auto simp: hash_laws_def filo_rep_def)
  ultimately have "filo_rep elems st2 ys"
    using r d xs by (auto simp: filo_rep_def st2_def st1_def hd_append)
  then show ?thesis using ev take by (auto simp: st2_def st1_def)
next
  case False
  have "hash_records ops (cache st) = length xs"
    using laws r by (simp add: hash_laws_def filo_rep_def distinct_card)
  then have "length xs \<le> unat (m_size st) - 1" using False r by (auto simp: filo_rep_def)
  then show ?thesis using False r by (simp add: evict_def)
qed

lemma add_ok:
  assumes laws: "hash_laws ops get_key elems" and r: "filo_rep elems st xs"
    and e: "e \<notin> set xs" "e \<noteq> 0" and sz: "m_size st \<noteq> 0"
  shows "\<exists>failed st'. add ops has_free st e = Some (failed, st') \<and> lock st' = lock st \<and> m_size st' = m_size st \<and>
    filo_rep elems st' (if failed then take (unat (m_size st) - 1) xs else take (unat (m_size st)) (e # xs))"
proof -
  define ys where "ys = take (unat (m_size st) - 1) xs"
  obtain st1 where s1: "evict ops st = Some st1" "filo_rep elems st1 ys" "lock st1 = lock st"
      "m_size st1 = m_size st"
    using evict_ok [OF laws r sz] unfolding ys_def by blast
  obtain failed h where h: "my_hash_insert ops (cache st1) e = (failed, h)" by fastforce
  have el: "elems h = (if failed then set ys else insert e (set ys))"
    using laws s1(2) h unfolding hash_laws_def filo_rep_def by (metis fst_conv snd_conv)
  have take: "take (unat (m_size st)) (e # xs) = e # ys"
    using sz by (cases "unat (m_size st)") (auto simp: unat_eq_zero ys_def)
  have short: "Suc (length ys) \<le> unat (m_size st)" using sz by (simp add: ys_def unat_gt_0 min_less_iff_disj Suc_le_eq)
  show ?thesis
  proof (cases failed)
    case True
    define st2 where "st2 = (if has_free then st1\<lparr>cache := h, freed := freed st1 @ [e]\<rparr> else st1\<lparr>cache := h\<rparr>)"
    have "filo_rep elems st2 ys" using s1(2) el True by (simp add: filo_rep_def st2_def)
    moreover have "add ops has_free st e = Some (True, st2)"
      using s1(1) h sz True by (simp add: add_def Let_def st2_def)
    moreover have "lock st2 = lock st" "m_size st2 = m_size st" using s1(3,4) by (simp_all add: st2_def)
    ultimately show ?thesis by (intro exI [of _ True] exI [of _ st2]) (simp add: ys_def)
  next
    case False
    have ey: "e \<notin> set ys" using e(1) unfolding ys_def by (meson in_set_takeD)
    have f: "first_link st1 = hd (ys @ [0])" and d: "distinct ys" "0 \<notin> set ys"
      using s1(2) by (simp_all add: filo_rep_def)
    have f0: "first_link st1 = 0 \<longleftrightarrow> ys = []"
      using f d(2) hd_in_set [of ys] by (metis append_Nil hd_append list.sel(1))
    have fe: "first_link st1 \<noteq> e" using f ey e(2) hd_in_set [of ys] by (metis hd_append list.sel(1))
    define st2 where "st2 = (let st = set_next (set_prev (st1\<lparr>cache := h\<rparr>) e 0) e (first_link st1);
        st = (if ys \<noteq> [] then set_prev st (first_link st1) e else st\<lparr>last_link := e\<rparr>) in st\<lparr>first_link := e\<rparr>)"
    have "add ops has_free st e = Some (False, st2)"
      using s1 h sz False f0 by (cases "ys = []") (simp_all add: add_def st2_def Let_def)
    moreover have st2: "cache st2 = h" "m_size st2 = m_size st" "lock st2 = lock st" "first_link st2 = e"
        "last_link st2 = (if ys = [] then e else last_link st1)"
      using s1(3,4) by (auto simp: st2_def Let_def)
    moreover have "dl st2 0 (e # ys) 0"
    proof (rule dl_push)
      show "dl st1 0 ys 0" "distinct (e # ys)" using s1(2) ey by (simp_all add: filo_rep_def)
    qed (use ey f fe in \<open>auto simp: st2_def Let_def hd_append\<close>)
    then have "filo_rep elems st2 (e # ys)"
      using s1(2) el False ey e(2) d short st2 by (simp add: filo_rep_def)
    ultimately show ?thesis using take False by (intro exI [of _ False] exI [of _ st2]) simp
  qed
qed


section \<open>Properties of the header\<close>

lemma filo_is_lru_list_parts:
  assumes "hash_laws ops get_key elems" and "filo_rep elems st xs"
  shows "lock st \<Longrightarrow> \<exists>e st'. search ops st k = Some (e, st') \<and>
      (if k \<in> get_key ` set xs then e \<in> set xs \<and> get_key e = k \<and> filo_rep elems st' (e # remove1 e xs)
       else e = 0 \<and> st' = st)"
    and "e \<notin> set xs \<and> e \<noteq> 0 \<and> m_size st \<noteq> 0 \<Longrightarrow> \<exists>failed st'. add ops has_free st e = Some (failed, st') \<and>
      filo_rep elems st'
        (if failed then take (unat (m_size st) - 1) xs else take (unat (m_size st)) (e # xs))"
    and "m_size st = 0 \<Longrightarrow> add ops has_free st e = Some (True, st)"
    and "init st \<and> \<not> lock st \<Longrightarrow> \<exists>st'. resize ops st n = Some st' \<and> filo_rep elems st' [] \<and>
      filo_size st' = n \<and> \<not> lock st'"
proof -
  show "\<exists>e st'. search ops st k = Some (e, st') \<and>
      (if k \<in> get_key ` set xs then e \<in> set xs \<and> get_key e = k \<and> filo_rep elems st' (e # remove1 e xs)
       else e = 0 \<and> st' = st)" if "lock st"
    using search_ok [OF assms that, of k] by blast
  show "\<exists>failed st'. add ops has_free st e = Some (failed, st') \<and>
      filo_rep elems st'
        (if failed then take (unat (m_size st) - 1) xs else take (unat (m_size st)) (e # xs))"
    if "e \<notin> set xs \<and> e \<noteq> 0 \<and> m_size st \<noteq> 0"
    using add_ok [OF assms, of e has_free] that by blast
  show "add ops has_free st e = Some (True, st)" if "m_size st = 0"
    using that by (simp add: add_def)
  show "\<exists>st'. resize ops st n = Some st' \<and> filo_rep elems st' [] \<and> filo_size st' = n \<and> \<not> lock st'"
    if "init st \<and> \<not> lock st"
    using that assms(1)
    by (simp add: resize_def mutex_lock_def mutex_unlock_def clear_def filo_rep_def filo_size_def hash_laws_def Let_def)
qed

text \<open>
  C27. The cache is a list of elements ordered by their last use, of at most \<^verbatim>\<open>m_size\<close> elements. A
  search that hits moves an element with the key to the front and a miss changes nothing; adding
  an element puts it in front and drops the least recently used one when the cache is full; a
  failed insertion has made room only; and no assertion of the code fails.
\<close>
theorem filo_is_lru_list:
  assumes "hash_laws ops get_key elems" and "filo_rep elems st xs"
  shows "(lock st \<longrightarrow> (\<exists>e st'. search ops st k = Some (e, st') \<and>
      (if k \<in> get_key ` set xs then e \<in> set xs \<and> get_key e = k \<and> filo_rep elems st' (e # remove1 e xs)
       else e = 0 \<and> st' = st))) \<and>
    (e \<notin> set xs \<and> e \<noteq> 0 \<and> m_size st \<noteq> 0 \<longrightarrow> (\<exists>failed st'. add ops has_free st e = Some (failed, st') \<and>
      filo_rep elems st'
        (if failed then take (unat (m_size st) - 1) xs else take (unat (m_size st)) (e # xs)))) \<and>
    (m_size st = 0 \<longrightarrow> add ops has_free st e = Some (True, st)) \<and>
    (init st \<and> \<not> lock st \<longrightarrow> (\<exists>st'. resize ops st n = Some st' \<and> filo_rep elems st' [] \<and>
      filo_size st' = n \<and> \<not> lock st'))"
  by (intro conjI impI) (use filo_is_lru_list_parts [OF assms] in blast)+

text \<open>A hash table as the list of its elements, whose insertions succeed.\<close>

definition list_ops :: "(filo_element list, nat) hash_ops" where
  "list_ops = \<lparr>my_hash_search = (\<lambda>h k. if k \<in> set h then k else 0),
     my_hash_insert = (\<lambda>h e. (e = 0, if e = 0 then h else List.insert e h)),
     my_hash_delete = (\<lambda>h e. removeAll e h), my_hash_init = [],
     hash_records = (\<lambda>h. card (set h - {0}))\<rparr>"

lemma list_ops_laws: "hash_laws list_ops (\<lambda>e. e) (\<lambda>h. set h - {0})"
  by (auto simp: hash_laws_def list_ops_def)

definition sample_filo :: "filo_element list hash_filo" where
  "sample_filo = \<lparr>m_size = 2, init = True, first_link = 8, last_link = 9, next_used = (\<lambda>e. 0)(8 := 9),
     prev_used = (\<lambda>e. 0)(9 := 8), lock = True, cache = [8, 9], freed = []\<rparr>"

lemma sample_filo_rep: "filo_rep (\<lambda>h. set h - {0}) sample_filo [8, 9]"
  by (auto simp: filo_rep_def sample_filo_def)

theorem filo_is_lru_list_witness:
  "(\<exists>e st'. search list_ops sample_filo 9 = Some (e, st') \<and> filo_rep (\<lambda>h. set h - {0}) st' [9, 8]) \<and>
   (\<exists>failed st'. add list_ops True sample_filo 7 = Some (failed, st') \<and>
      filo_rep (\<lambda>h. set h - {0}) st' (if failed then [8] else [7, 8]))"
proof
  have m: "lock sample_filo" "m_size sample_filo = 2" by (simp_all add: sample_filo_def)
  show "\<exists>e st'. search list_ops sample_filo 9 = Some (e, st') \<and> filo_rep (\<lambda>h. set h - {0}) st' [9, 8]"
    using filo_is_lru_list [OF list_ops_laws sample_filo_rep, of 9 7 True 5] m(1) by auto
  have "\<exists>failed st'. add list_ops True sample_filo 7 = Some (failed, st') \<and>
      filo_rep (\<lambda>h. set h - {0}) st' (if failed then take (unat (m_size sample_filo) - 1) [8, 9]
        else take (unat (m_size sample_filo)) [7, 8, 9])"
    by (rule filo_is_lru_list [OF list_ops_laws sample_filo_rep, of 9 7 True 5, THEN conjunct2, THEN conjunct1, THEN mp])
      (simp add: m)
  moreover have "take (unat (m_size sample_filo) - 1) [8, 9] = [8 :: nat]"
    "take (unat (m_size sample_filo)) [7, 8, 9] = [7, 8 :: nat]" by (simp_all add: m)
  ultimately show "\<exists>failed st'. add list_ops True sample_filo 7 = Some (failed, st') \<and>
      filo_rep (\<lambda>h. set h - {0}) st' (if failed then [8] else [7, 8])"
    by (simp only:)
qed

text \<open>Adding several elements, each of them successfully.\<close>

fun add_all :: "('h, 'k) hash_ops \<Rightarrow> bool \<Rightarrow> 'h hash_filo \<Rightarrow> filo_element list \<Rightarrow> 'h hash_filo option" where
  "add_all ops has_free st [] = Some st"
| "add_all ops has_free st (e # es) =
     do { (failed, st) \<leftarrow> add ops has_free st e; if failed then None else add_all ops has_free st es }"

lemma add_all_recent:
  assumes laws: "hash_laws ops get_key elems" and "filo_rep elems st xs" and "m_size st \<noteq> 0"
    and "distinct (es @ xs)" "0 \<notin> set es" and "add_all ops has_free st es = Some st'"
  shows "filo_rep elems st' (take (unat (m_size st)) (rev es @ xs)) \<and> lock st' = lock st"
  using assms(2-)
proof (induction es arbitrary: st xs)
  case Nil
  then show ?case by (simp add: filo_rep_def)
next
  case (Cons e es)
  have e: "e \<notin> set xs" "e \<noteq> 0" using Cons.prems(3,4) by auto
  obtain failed st1 where s1: "add ops has_free st e = Some (failed, st1)" "lock st1 = lock st"
      "m_size st1 = m_size st"
      "filo_rep elems st1 (if failed then take (unat (m_size st) - 1) xs else take (unat (m_size st)) (e # xs))"
    using add_ok [OF laws Cons.prems(1) e Cons.prems(2)] by blast
  have ok: "\<not> failed" "add_all ops has_free st1 es = Some st'" using Cons.prems(5) s1(1) by (auto split: if_splits)
  let ?ys = "take (unat (m_size st)) (e # xs)"
  have "set ?ys \<subseteq> set (e # xs)" by (rule set_take_subset)
  then have "distinct (es @ ?ys)" using Cons.prems(3) distinct_take [of "e # xs" "unat (m_size st)"] by auto
  then have "filo_rep elems st' (take (unat (m_size st)) (rev es @ ?ys)) \<and> lock st' = lock st"
    using Cons.IH [of st1 ?ys] s1 ok Cons.prems(2,4) by simp
  then show ?case by (simp add: take_Cons' min_def split: if_splits)
qed

text \<open>
  C28. An element that was just looked up survives any fewer than \<^verbatim>\<open>m_size\<close> additions of other
  elements: a later search for its key still hits.
\<close>

theorem filo_recent_element_survives:
  assumes "hash_laws ops get_key elems" and "filo_rep elems st xs" and "lock st" and "k \<in> get_key ` set xs"
    and "search ops st k = Some (e, st1)" and "add_all ops has_free st1 es = Some st2"
    and "distinct (es @ xs)" and "0 \<notin> set es" and "length es < unat (m_size st)"
  shows "\<exists>e' st3. search ops st2 k = Some (e', st3) \<and> e' \<noteq> 0 \<and> get_key e' = k"
proof -
  have s: "e \<in> set xs" "get_key e = k" "filo_rep elems st1 (e # remove1 e xs)" "lock st1" "m_size st1 = m_size st"
    using search_ok [OF assms(1-3), of k] assms(4,5) by auto
  have "distinct xs" using assms(7) by simp
  then have d: "distinct (es @ e # remove1 e xs)" using assms(7) s(1) set_remove1_subset [of e xs] by auto
  have "m_size st1 \<noteq> 0" using assms(9) s(5) by auto
  then have r2: "filo_rep elems st2 (take (unat (m_size st)) (rev es @ e # remove1 e xs))" "lock st2"
    using add_all_recent [OF assms(1) s(3) _ d assms(8,6)] s(4,5) by auto
  have "e \<in> set (take (unat (m_size st)) (rev es @ e # remove1 e xs))"
    using assms(9) by (cases "unat (m_size st) - length es") auto
  then have hit: "k \<in> get_key ` set (take (unat (m_size st)) (rev es @ e # remove1 e xs))" using s(2) by blast
  then obtain e' st3 where "search ops st2 k = Some (e', st3)" "get_key e' = k"
      "e' \<in> set (take (unat (m_size st)) (rev es @ e # remove1 e xs))"
    using search_ok [OF assms(1) r2, of k] by auto
  moreover from this have "e' \<noteq> 0" using r2(1) unfolding filo_rep_def by metis
  ultimately show ?thesis by blast
qed


definition sample_filo1 :: "filo_element list hash_filo" where
  "sample_filo1 = snd (the (search list_ops sample_filo 9))"

definition sample_filo2 :: "filo_element list hash_filo" where
  "sample_filo2 = the (add_all list_ops True sample_filo1 [7])"

lemma sample_filo1: "search list_ops sample_filo 9 = Some (9, sample_filo1)"
  by (simp add: sample_filo1_def search_def relink_def sample_filo_def list_ops_def set_next_def set_prev_def Let_def)

lemma sample_filo2: "add_all list_ops True sample_filo1 [7] = Some sample_filo2"
  by (simp add: sample_filo2_def sample_filo1_def search_def relink_def add_def evict_def sample_filo_def
      list_ops_def set_next_def set_prev_def Let_def)

theorem filo_recent_element_survives_witness:
  "\<exists>e' st3. search list_ops sample_filo2 9 = Some (e', st3) \<and> e' \<noteq> 0 \<and> e' = 9"
  using filo_recent_element_survives [OF list_ops_laws sample_filo_rep _ _ sample_filo1 sample_filo2]
  by (simp add: sample_filo_def)

end
