(* ===== verification/Array_Views.thy ===== *)
theory Array_Views
  imports Prelude "HOL-Library.Monad_Syntax"
begin

text \<open>
  Views on arrays that belong to somebody else: \<^verbatim>\<open>span.h\<close> and \<^verbatim>\<open>Bounds_checked_array\<close> of
  \<^verbatim>\<open>sql_array.h\<close>. A pointer to elements is a number that counts elements, 0 is the null pointer, and a
  memory gives the element at a pointer; a \<^verbatim>\<open>size_t\<close> has 64 bits. A failed assertion gives \<^const>\<open>None\<close>.
\<close>

type_synonym size_t = "64 word"
type_synonym 'a elements = "nat \<Rightarrow> 'a"

section \<open>span\<close>

record span =
  span_data :: nat
  span_len :: size_t

definition span_default :: span where
  "span_default = \<lparr>span_data = 0, span_len = 0\<rparr>"

definition span_make :: "nat \<Rightarrow> size_t \<Rightarrow> span" where
  "span_make p count = \<lparr>span_data = p, span_len = count\<rparr>"

definition span_range :: "nat \<Rightarrow> nat \<Rightarrow> span" where
  "span_range f l = \<lparr>span_data = f, span_len = of_int (int l - int f)\<rparr>"

definition span_array :: "nat \<Rightarrow> nat \<Rightarrow> span" where
  "span_array arr n = \<lparr>span_data = arr, span_len = of_nat n\<rparr>"

definition span_assign :: "span \<Rightarrow> span \<Rightarrow> span" where
  "span_assign this other = this\<lparr>span_data := span_data other, span_len := span_len other\<rparr>"

definition span_size :: "span \<Rightarrow> size_t" where
  "span_size s = span_len s"

definition size_bytes :: "size_t \<Rightarrow> span \<Rightarrow> size_t" where
  "size_bytes sizeof_element s = span_size s * sizeof_element"

definition span_empty :: "span \<Rightarrow> bool" where
  "span_empty s \<longleftrightarrow> span_size s = 0"

definition first_n :: "span \<Rightarrow> size_t \<Rightarrow> span option" where
  "first_n s count = (if span_empty s then None else Some (span_make (span_data s) 1))"

definition last_n :: "span \<Rightarrow> size_t \<Rightarrow> span option" where
  "last_n s count =
     (if span_empty s then None else Some (span_make (span_data s + unat (span_size s) - 1) 1))"

definition subspan :: "span \<Rightarrow> size_t \<Rightarrow> size_t \<Rightarrow> span option" where
  "subspan s offset count =
     (if \<not> span_empty s \<and> span_size s \<ge> offset + count
      then Some (span_make (span_data s + unat offset) count) else None)"

definition span_at :: "'a elements \<Rightarrow> span \<Rightarrow> size_t \<Rightarrow> 'a option" where
  "span_at m s idx = (if span_size s > idx then Some (m (span_data s + unat idx)) else None)"

definition span_front :: "'a elements \<Rightarrow> span \<Rightarrow> 'a option" where
  "span_front m s = (if span_empty s then None else Some (m (span_data s)))"

definition span_back :: "'a elements \<Rightarrow> span \<Rightarrow> 'a option" where
  "span_back m s = (if span_empty s then None else Some (m (span_data s + unat (span_size s - 1))))"

definition span_begin :: "span \<Rightarrow> nat" where
  "span_begin s = span_data s"

definition span_end :: "span \<Rightarrow> nat" where
  "span_end s = span_data s + unat (span_len s)"

section \<open>Bounds_checked_array\<close>

record bounds_checked_array =
  m_array :: nat
  m_size :: size_t

definition Bounds_checked_array :: "nat \<Rightarrow> size_t \<Rightarrow> bounds_checked_array" where
  "Bounds_checked_array el size_arg = \<lparr>m_array = el, m_size = size_arg\<rparr>"

definition reset :: "bounds_checked_array \<Rightarrow> bounds_checked_array" where
  "reset a = a\<lparr>m_array := 0, m_size := 0\<rparr>"

definition reset_to :: "bounds_checked_array \<Rightarrow> nat \<Rightarrow> size_t \<Rightarrow> bounds_checked_array" where
  "reset_to a array_arg size_arg = a\<lparr>m_array := array_arg, m_size := size_arg\<rparr>"

definition resize :: "bounds_checked_array \<Rightarrow> size_t \<Rightarrow> bounds_checked_array option" where
  "resize a new_size = (if new_size \<le> m_size a then Some (a\<lparr>m_size := new_size\<rparr>) else None)"

definition array_at :: "'a elements \<Rightarrow> bounds_checked_array \<Rightarrow> size_t \<Rightarrow> 'a option" where
  "array_at m a n = (if n < m_size a then Some (m (m_array a + unat n)) else None)"

definition array_size :: "bounds_checked_array \<Rightarrow> size_t" where
  "array_size a = m_size a"

definition is_null :: "bounds_checked_array \<Rightarrow> bool" where
  "is_null a \<longleftrightarrow> m_array a = 0"

definition pop_front :: "bounds_checked_array \<Rightarrow> bounds_checked_array option" where
  "pop_front a =
     (if m_size a > 0 then Some (a\<lparr>m_array := m_array a + 1, m_size := m_size a - 1\<rparr>) else None)"

definition array_begin :: "bounds_checked_array \<Rightarrow> nat" where
  "array_begin a = m_array a"

definition array_end :: "bounds_checked_array \<Rightarrow> nat" where
  "array_end a = m_array a + unat (m_size a)"

definition array_eq :: "bounds_checked_array \<Rightarrow> bounds_checked_array \<Rightarrow> bool" where
  "array_eq a b \<longleftrightarrow> m_array a = m_array b \<and> m_size a = m_size b"

definition array_neq :: "bounds_checked_array \<Rightarrow> bounds_checked_array \<Rightarrow> bool" where
  "array_neq a b \<longleftrightarrow> m_array a \<noteq> m_array b \<or> m_size a \<noteq> m_size b"

section \<open>A view and the elements it shows\<close>

definition window :: "'a elements \<Rightarrow> nat \<Rightarrow> nat \<Rightarrow> 'a list" where
  "window m p n = map (\<lambda>k. m (p + k)) [0..<n]"

lemma window_length [simp]: "length (window m p n) = n"
  by (simp add: window_def)

lemma window_nth [simp]: "k < n \<Longrightarrow> window m p n ! k = m (p + k)"
  by (simp add: window_def)

lemma window_part: "i + n \<le> k \<Longrightarrow> window m (p + i) n = take n (drop i (window m p k))"
  by (rule nth_equalityI) (auto simp: add.assoc)

lemma window_tl: "window m (p + 1) (n - 1) = tl (window m p n)"
  by (rule nth_equalityI) (simp_all add: nth_tl)

lemma window_Nil [simp]: "window m p n = [] \<longleftrightarrow> n = 0"
  by (metis length_0_conv window_length)

text \<open>The contract: reading at an index is checked, and gives the element of the view.\<close>

locale checked_view =
  fixes start :: "'v \<Rightarrow> nat" and len :: "'v \<Rightarrow> size_t" and rd :: "'a elements \<Rightarrow> 'v \<Rightarrow> size_t \<Rightarrow> 'a option"
  assumes read: "rd m v i = (if i < len v then Some (m (start v + unat i)) else None)"
begin

lemma read_nth:
  "rd m v i = (let xs = window m (start v) (unat (len v))
     in if unat i < length xs then Some (xs ! unat i) else None)"
  by (simp add: read word_less_nat_alt)

lemma read_only_inside:
  assumes "\<And>p. start v \<le> p \<Longrightarrow> p < start v + unat (len v) \<Longrightarrow> m p = m' p"
  shows "rd m v i = rd m' v i"
  using assms by (simp add: read word_less_nat_alt)

end

interpretation span_view: checked_view span_data span_size span_at
  by unfold_locales (simp add: span_at_def)

interpretation array_view: checked_view m_array array_size array_at
  by unfold_locales (simp add: array_at_def array_size_def)

definition span_elems :: "'a elements \<Rightarrow> span \<Rightarrow> 'a list" where
  "span_elems m s = window m (span_data s) (unat (span_len s))"

definition array_elems :: "'a elements \<Rightarrow> bounds_checked_array \<Rightarrow> 'a list" where
  "array_elems m a = window m (m_array a) (unat (m_size a))"

text \<open>The loop \<^verbatim>\<open>while (a.size() > 0) { visit(a[0]); a.pop_front(); }\<close>.\<close>

partial_function (option) drain :: "'a elements \<Rightarrow> bounds_checked_array \<Rightarrow> ('a list \<times> bounds_checked_array) option" where
  "drain m a =
     (if array_size a > 0
      then do {
        x \<leftarrow> array_at m a 0;
        a \<leftarrow> pop_front a;
        (xs, a) \<leftarrow> drain m a;
        Some (x # xs, a)
      }
      else Some ([], a))"

lemma pop_front_elems:
  assumes "m_size a \<noteq> 0"
  shows "\<exists>b. pop_front a = Some b \<and> array_elems m b = tl (array_elems m a) \<and> array_end b = array_end a \<and>
    unat (m_size b) = unat (m_size a) - 1"
proof -
  have s: "unat (m_size a - 1) = unat (m_size a) - 1" "0 < unat (m_size a)"
    using assms by (simp_all add: unat_minus_one unat_gt_0)
  then show ?thesis
    using assms window_tl [of m "m_array a" "unat (m_size a)"]
    by (simp add: pop_front_def array_elems_def array_end_def word_neq_0_conv)
qed

lemma drain_ok:
  "\<exists>b. drain m a = Some (array_elems m a, b) \<and> m_size b = 0 \<and> m_array b = array_end a"
proof (induction "unat (m_size a)" arbitrary: a)
  case 0
  then have "m_size a = 0" by (simp add: unat_eq_zero)
  then show ?case
    by (subst drain.simps) (simp add: array_size_def array_elems_def array_end_def window_def)
next
  case (Suc n)
  then have ne: "m_size a \<noteq> 0" by auto
  obtain b where b: "pop_front a = Some b" "array_elems m b = tl (array_elems m a)"
      "array_end b = array_end a" "unat (m_size b) = unat (m_size a) - 1"
    using pop_front_elems [OF ne] by blast
  have "array_at m a 0 = Some (hd (array_elems m a))"
    using ne Suc(2) by (simp add: array_at_def array_elems_def word_neq_0_conv hd_conv_nth flip: Suc(2))
  moreover have "hd (array_elems m a) # tl (array_elems m a) = array_elems m a"
    using Suc(2) by (simp add: array_elems_def flip: Suc(2))
  moreover obtain c where "drain m b = Some (array_elems m b, c)" "m_size c = 0" "m_array c = array_end b"
    using Suc(1) [of b] b(4) Suc(2) by (metis diff_Suc_1)
  ultimately show ?case
    using ne b by (subst drain.simps) (simp add: array_size_def word_neq_0_conv)
qed

section \<open>Properties of the headers\<close>

lemma span_shows_window_parts:
  "span_at m s i = (if unat i < length (span_elems m s) then Some (span_elems m s ! unat i) else None)"
  "unat offset + unat count \<le> unat (span_len s) \<and> span_len s \<noteq> 0 \<Longrightarrow>
     \<exists>t. subspan s offset count = Some t \<and>
       span_elems m t = take (unat count) (drop (unat offset) (span_elems m s))"
  "span_elems m s \<noteq> [] \<Longrightarrow> span_front m s = Some (hd (span_elems m s)) \<and>
     span_back m s = Some (last (span_elems m s))"
  "p \<le> q \<and> q - p < 2 ^ 64 \<Longrightarrow> span_elems m (span_range p q) = map m [p..<q]"
proof -
  show "span_at m s i = (if unat i < length (span_elems m s) then Some (span_elems m s ! unat i) else None)"
    using span_view.read_nth [of m s i] by (simp add: span_elems_def span_size_def Let_def)
  show "\<exists>t. subspan s offset count = Some t \<and>
      span_elems m t = take (unat count) (drop (unat offset) (span_elems m s))"
    if h: "unat offset + unat count \<le> unat (span_len s) \<and> span_len s \<noteq> 0"
  proof -
    have "unat (offset + count) = unat offset + unat count"
      using h unat_lt_pow [of 64 "span_len s"] by (intro unat_add_no_overflow) simp
    then have "offset + count \<le> span_len s" using h by (simp add: word_le_nat_alt)
    then show ?thesis
      using h by (simp add: subspan_def span_empty_def span_size_def span_make_def span_elems_def window_part)
  qed
  show "span_front m s = Some (hd (span_elems m s)) \<and> span_back m s = Some (last (span_elems m s))"
    if h: "span_elems m s \<noteq> []"
  proof -
    have n: "span_len s \<noteq> 0" "unat (span_len s) \<noteq> 0" using h by (auto simp: span_elems_def)
    then show ?thesis
      using h by (simp add: span_front_def span_back_def span_empty_def span_size_def hd_conv_nth last_conv_nth
          unat_minus_one) (simp add: span_elems_def)
  qed
  show "span_elems m (span_range p q) = map m [p..<q]" if h: "p \<le> q \<and> q - p < 2 ^ 64"
  proof -
    have e: "(of_int (int q - int p) :: size_t) = of_nat (q - p)" using h by (simp add: of_nat_diff)
    have "unat (of_int (int q - int p) :: size_t) = q - p"
      unfolding e using h by (subst unat_of_nat) (simp add: take_bit_nat_eq_self)
    then show ?thesis
      by (simp add: span_elems_def span_range_def) (rule nth_equalityI, auto)
  qed
qed

text \<open>
  A \<^verbatim>\<open>span\<close> shows a part of an array: reading is checked and gives the elements in order; a part
  of a span that does not run over the end shows the corresponding part of the sequence; the front
  and the back are its first and last element, and a pair of pointers gives the elements between them.
\<close>
theorem span_shows_window:
  "span_at m s i = (if unat i < length (span_elems m s) then Some (span_elems m s ! unat i) else None) \<and>
    (unat offset + unat count \<le> unat (span_len s) \<and> span_len s \<noteq> 0 \<longrightarrow> (\<exists>t. subspan s offset count = Some t \<and>
       span_elems m t = take (unat count) (drop (unat offset) (span_elems m s)))) \<and>
    (span_elems m s \<noteq> [] \<longrightarrow> span_front m s = Some (hd (span_elems m s)) \<and>
     span_back m s = Some (last (span_elems m s))) \<and>
    (p \<le> q \<and> q - p < 2 ^ 64 \<longrightarrow> span_elems m (span_range p q) = map m [p..<q])"
  by (intro conjI impI) (use span_shows_window_parts in blast)+

theorem span_shows_window_witness:
  "\<exists>t. subspan (span_make 10 5) 1 3 = Some t \<and> span_elems (\<lambda>p. p * p) t = [121, 144, 169]"
proof -
  have u: "[0..<5] = [0, 1, 2, 3, 4 :: nat]" by code_simp
  have e: "take 3 (drop 1 (span_elems (\<lambda>p. p * p) (span_make 10 5))) = [121, 144, 169 :: nat]"
    by (simp add: span_make_def span_elems_def window_def u)
  show ?thesis
    using span_shows_window [of "\<lambda>p. p * p" "span_make 10 5" 0 1 3] e by (simp add: span_make_def)
qed

lemma span_count_ignored_parts:
  "first_n s count = first_n s 1" "last_n s count = last_n s 1"
  "span_elems m s \<noteq> [] \<Longrightarrow> \<exists>t u. first_n s count = Some t \<and> last_n s count = Some u \<and>
     span_elems m t = [hd (span_elems m s)] \<and> span_elems m u = [last (span_elems m s)]"
  "span_len s \<noteq> 0 \<and> 0 < offset \<and> offset \<le> span_len s \<Longrightarrow>
     \<exists>t. subspan s offset (- offset) = Some t \<and> span_end t = span_data s + 2 ^ 64"
proof -
  show "first_n s count = first_n s 1" "last_n s count = last_n s 1"
    by (simp_all add: first_n_def last_n_def)
  show "\<exists>t u. first_n s count = Some t \<and> last_n s count = Some u \<and>
     span_elems m t = [hd (span_elems m s)] \<and> span_elems m u = [last (span_elems m s)]"
    if h: "span_elems m s \<noteq> []"
  proof -
    have n: "span_len s \<noteq> 0" "0 < unat (span_len s)" using h by (auto simp: span_elems_def unat_gt_0)
    then have "hd (span_elems m s) = m (span_data s)" "last (span_elems m s) = m (span_data s + unat (span_len s) - 1)"
      using h by (simp_all add: hd_conv_nth last_conv_nth) (simp_all add: span_elems_def)
    then show ?thesis
      using n by (simp add: first_n_def last_n_def span_empty_def span_size_def span_make_def)
        (simp add: span_elems_def window_def)
  qed
  show "\<exists>t. subspan s offset (- offset) = Some t \<and> span_end t = span_data s + 2 ^ 64"
    if h: "span_len s \<noteq> 0 \<and> 0 < offset \<and> offset \<le> span_len s"
  proof -
    have "offset \<noteq> 0" using h by auto
    then have "unat (0 - offset) = 2 ^ 64 - unat offset"
      unfolding unat_sub_if_size by (simp add: word_size unat_eq_zero)
    then show ?thesis
      using h unat_lt_pow [of 64 offset]
      by (simp add: subspan_def span_empty_def span_size_def span_make_def span_end_def)
  qed
qed

text \<open>
  Two operations of \<^verbatim>\<open>span\<close> do not do what their parameters say: \<^verbatim>\<open>first(count)\<close> and
  \<^verbatim>\<open>last(count)\<close> give a span of one element whatever the count, and the assertion of \<^verbatim>\<open>subspan\<close> adds
  offset and count modulo \<open>2^64\<close>, so that it accepts a span that reaches past the end of the array.
\<close>
theorem span_count_ignored:
  "first_n s count = first_n s 1 \<and>
    last_n s count = last_n s 1 \<and>
    (span_elems m s \<noteq> [] \<longrightarrow> (\<exists>t u. first_n s count = Some t \<and> last_n s count = Some u \<and>
     span_elems m t = [hd (span_elems m s)] \<and> span_elems m u = [last (span_elems m s)])) \<and>
    (span_len s \<noteq> 0 \<and> 0 < offset \<and> offset \<le> span_len s \<longrightarrow> (\<exists>t. subspan s offset (- offset) = Some t \<and> span_end t = span_data s + 2 ^ 64))"
  by (intro conjI impI) (use span_count_ignored_parts in blast)+

theorem span_count_ignored_witness:
  "\<exists>t. subspan (span_make 10 5) 2 (- 2) = Some t \<and> span_end t = 10 + 2 ^ 64"
  using span_count_ignored [of "span_make 10 5" 2 "\<lambda>p. p" 2] by (simp add: span_make_def)

lemma bounds_checked_array_window_parts:
  "array_at m a i = (if unat i < length (array_elems m a) then Some (array_elems m a ! unat i) else None)"
  "resize a n = None \<longleftrightarrow> unat n > length (array_elems m a)"
  "resize a n = Some b \<Longrightarrow> array_elems m b = take (unat n) (array_elems m a)"
  "pop_front a = None \<longleftrightarrow> array_elems m a = []"
  "pop_front a = Some b \<Longrightarrow> array_elems m b = tl (array_elems m a) \<and> array_end b = array_end a"
  "\<exists>b. drain m a = Some (array_elems m a, b) \<and> array_elems m b = [] \<and> array_begin b = array_end a"
  "array_eq a b \<longleftrightarrow> \<not> array_neq a b"
proof -
  show "array_at m a i = (if unat i < length (array_elems m a) then Some (array_elems m a ! unat i) else None)"
    using array_view.read_nth [of m a i] by (simp add: array_elems_def array_size_def Let_def)
  show "resize a n = None \<longleftrightarrow> unat n > length (array_elems m a)"
    by (simp add: resize_def array_elems_def word_le_nat_alt not_le)
  show "array_elems m b = take (unat n) (array_elems m a)" if "resize a n = Some b"
    using that window_part [of 0 "unat n" "unat (m_size a)" m "m_array a"]
    by (auto simp: resize_def array_elems_def word_le_nat_alt split: if_splits)
  show "pop_front a = None \<longleftrightarrow> array_elems m a = []"
    by (simp add: pop_front_def array_elems_def word_neq_0_conv [symmetric] unat_eq_zero)
  show "array_elems m b = tl (array_elems m a) \<and> array_end b = array_end a" if p: "pop_front a = Some b"
  proof -
    have "m_size a \<noteq> 0" using p by (auto simp: pop_front_def split: if_splits)
    then show ?thesis using pop_front_elems [of a m] p by auto
  qed
  show "\<exists>b. drain m a = Some (array_elems m a, b) \<and> array_elems m b = [] \<and> array_begin b = array_end a"
    using drain_ok [of m a] by (auto simp: array_elems_def array_begin_def)
  show "array_eq a b \<longleftrightarrow> \<not> array_neq a b" by (auto simp: array_eq_def array_neq_def)
qed

text \<open>
  A bounds-checked array shows the elements from its pointer on: reading is checked, shrinking
  keeps a prefix and popping drops the first element, both checked; the loop that visits and pops
  the first element until none is left ends, and visits every element once in order.
\<close>
theorem bounds_checked_array_window:
  "array_at m a i = (if unat i < length (array_elems m a) then Some (array_elems m a ! unat i) else None) \<and>
    (resize a n = None \<longleftrightarrow> unat n > length (array_elems m a)) \<and>
    (resize a n = Some b \<longrightarrow> array_elems m b = take (unat n) (array_elems m a)) \<and>
    (pop_front a = None \<longleftrightarrow> array_elems m a = []) \<and>
    (pop_front a = Some b \<longrightarrow> array_elems m b = tl (array_elems m a) \<and> array_end b = array_end a) \<and>
    (\<exists>b. drain m a = Some (array_elems m a, b) \<and> array_elems m b = [] \<and> array_begin b = array_end a) \<and>
    (array_eq a b \<longleftrightarrow> \<not> array_neq a b)"
  by (intro conjI impI) (use bounds_checked_array_window_parts in blast)+

theorem bounds_checked_array_window_witness:
  "array_elems (\<lambda>p. p) (the (resize (Bounds_checked_array 7 3) 2)) = [7, 8]"
proof -
  have u: "[0..<3] = [0, 1, 2 :: nat]" by code_simp
  have e: "take 2 (array_elems (\<lambda>p. p) (Bounds_checked_array 7 3)) = [7, 8 :: nat]"
    by (simp add: Bounds_checked_array_def array_elems_def window_def u)
  have r: "resize (Bounds_checked_array 7 3) 2 = Some \<lparr>m_array = 7, m_size = 2\<rparr>"
    by (simp add: resize_def Bounds_checked_array_def)
  then show ?thesis using bounds_checked_array_window [of "\<lambda>p. p" "Bounds_checked_array 7 3" 0 2] e by simp
qed

end
