(* ===== verification/Mem_Root_Array.thy ===== *)
theory Mem_Root_Array
  imports Prelude "HOL-Library.Monad_Syntax" "HOL-Library.Multiset"
begin

text \<open>
  The growing array of \<^verbatim>\<open>mem_root_array.h\<close>. The state has the members of the class, the live elements
  (those at the indices below \<^verbatim>\<open>m_size\<close>), the size in bytes of the area they are in, and the values for
  which a copy constructor and a destructor have run. The allocator \<^verbatim>\<open>alloc_root\<close> is a parameter: it
  takes the number of bytes it is asked for and returns the size of the area it has found, if any, which is at
  least that number (\<open>alloc_law\<close>). \<^const>\<open>None\<close> is what the class leaves undefined: constructing an element outside
  the area, reading an element that has been destroyed, and a call that violates an assertion, which a release
  build does not check. Sizes have 64 bits and wrap around.
\<close>

type_synonym size_t = "64 word"

record ('a, 'r) mem_root_array =
  m_root :: 'r
  m_array :: "'a list"
  m_size :: size_t
  m_capacity :: size_t
  area :: nat
  constructed :: "'a list"
  destroyed :: "'a list"

type_synonym 'r allocator = "'r \<Rightarrow> size_t \<Rightarrow> nat option \<times> 'r"

definition alloc_law :: "'r allocator \<Rightarrow> bool" where
  "alloc_law alloc_root \<longleftrightarrow> (\<forall>r n bytes r'. alloc_root r n = (Some bytes, r') \<longrightarrow> unat n \<le> bytes)"

text \<open>What a reference to an element may denote: an object elsewhere, or an element of the array itself.\<close>

datatype 'a element_ref = Value 'a | Element size_t

section \<open>Operations\<close>

definition Mem_root_array :: "'r \<Rightarrow> ('a, 'r) mem_root_array" where
  "Mem_root_array root = \<lparr>m_root = root, m_array = [], m_size = 0, m_capacity = 0, area = 0,
     constructed = [], destroyed = []\<rparr>"

definition at :: "('a, 'r) mem_root_array \<Rightarrow> size_t \<Rightarrow> 'a option" where
  "at a n = (if n < m_size a then Some (m_array a ! unat n) else None)"

definition back_elem :: "('a, 'r) mem_root_array \<Rightarrow> 'a option" where
  "back_elem a = at a (m_size a - 1)"

definition is_empty :: "('a, 'r) mem_root_array \<Rightarrow> bool" where
  "is_empty a \<longleftrightarrow> m_size a = 0"

definition destroy :: "bool \<Rightarrow> 'a list \<Rightarrow> ('a, 'r) mem_root_array \<Rightarrow> ('a, 'r) mem_root_array" where
  "destroy trivial xs a = (if trivial then a else a\<lparr>destroyed := destroyed a @ xs\<rparr>)"

definition chop :: "bool \<Rightarrow> ('a, 'r) mem_root_array \<Rightarrow> size_t \<Rightarrow> ('a, 'r) mem_root_array option" where
  "chop trivial a pos =
     (if pos < m_size a
      then let a = destroy trivial (drop (unat pos) (m_array a)) a
           in Some (a\<lparr>m_size := pos, m_array := take (unat pos) (m_array a)\<rparr>)
      else None)"

definition clear :: "bool \<Rightarrow> ('a, 'r) mem_root_array \<Rightarrow> ('a, 'r) mem_root_array option" where
  "clear trivial a = (if \<not> is_empty a then chop trivial a 0 else Some a)"

text \<open>Copying the elements into a new area of the given size; each old element is destroyed.\<close>

fun copy_elements ::
  "size_t \<Rightarrow> bool \<Rightarrow> nat \<Rightarrow> 'a list \<Rightarrow> 'a list \<Rightarrow> ('a, 'r) mem_root_array \<Rightarrow> ('a list \<times> ('a, 'r) mem_root_array) option" where
  "copy_elements element_size trivial bytes [] new_array a = Some (new_array, a)"
| "copy_elements element_size trivial bytes (x # old) new_array a =
     (if Suc (length new_array) * unat element_size \<le> bytes
      then copy_elements element_size trivial bytes old (new_array @ [x])
             (destroy trivial [x] (a\<lparr>constructed := constructed a @ [x]\<rparr>))
      else None)"

definition reserve ::
  "'r allocator \<Rightarrow> size_t \<Rightarrow> bool \<Rightarrow> ('a, 'r) mem_root_array \<Rightarrow> size_t \<Rightarrow> (bool \<times> ('a, 'r) mem_root_array) option" where
  "reserve alloc_root element_size trivial a n =
     (if n \<le> m_capacity a then Some (False, a)
      else case alloc_root (m_root a) (n * element_size) of
        (None, r) \<Rightarrow> Some (True, a\<lparr>m_root := r\<rparr>)
      | (Some bytes, r) \<Rightarrow> do {
          (new_array, a) \<leftarrow> copy_elements element_size trivial bytes (m_array a) [] (a\<lparr>m_root := r\<rparr>);
          Some (False, a\<lparr>m_array := new_array, m_capacity := n, area := bytes\<rparr>)
        })"

definition construct_at_end ::
  "size_t \<Rightarrow> ('a, 'r) mem_root_array \<Rightarrow> 'a \<Rightarrow> ('a, 'r) mem_root_array option" where
  "construct_at_end element_size a x =
     (if Suc (unat (m_size a)) * unat element_size \<le> area a
      then Some (a\<lparr>m_size := m_size a + 1, m_array := m_array a @ [x], constructed := constructed a @ [x]\<rparr>)
      else None)"

text \<open>
  The value that is read through a reference after the array may have been expanded: a re-expanded array has
  another capacity, and then the old elements are destroyed, unless their destructor is trivial.
\<close>

definition read_ref ::
  "bool \<Rightarrow> ('a, 'r) mem_root_array \<Rightarrow> ('a, 'r) mem_root_array \<Rightarrow> 'a element_ref \<Rightarrow> 'a option" where
  "read_ref trivial old a element =
     (case element of
        Value x \<Rightarrow> Some x
      | Element i \<Rightarrow> if i < m_size old \<and> (trivial \<or> m_capacity a = m_capacity old)
                     then Some (m_array old ! unat i) else None)"

definition push_back ::
  "'r allocator \<Rightarrow> size_t \<Rightarrow> bool \<Rightarrow> ('a, 'r) mem_root_array \<Rightarrow> 'a element_ref \<Rightarrow>
   (bool \<times> ('a, 'r) mem_root_array) option" where
  "push_back alloc_root element_size trivial this element = do {
     (failed, a) \<leftarrow> (if m_capacity this = 0 then reserve alloc_root element_size trivial this 20
                     else Some (False, this));
     if failed then Some (True, a)
     else do {
       (failed, a) \<leftarrow> (if m_size a = m_capacity a
                       then reserve alloc_root element_size trivial a (m_capacity a * 2) else Some (False, a));
       if failed then Some (True, a)
       else do {
         x \<leftarrow> read_ref trivial this a element;
         a \<leftarrow> construct_at_end element_size a x;
         Some (False, a)
       }
     }
   }"

definition pop_back :: "bool \<Rightarrow> ('a, 'r) mem_root_array \<Rightarrow> ('a, 'r) mem_root_array option" where
  "pop_back trivial a =
     (if is_empty a then None
      else do {
        x \<leftarrow> back_elem a;
        let a = destroy trivial [x] a;
        Some (a\<lparr>m_size := m_size a - 1, m_array := take (unat (m_size a - 1)) (m_array a)\<rparr>)
      })"

text \<open>\<^verbatim>\<open>resize\<close> is called with a value that is not an element of the array.\<close>

partial_function (option) push_until ::
  "'r allocator \<Rightarrow> size_t \<Rightarrow> bool \<Rightarrow> size_t \<Rightarrow> 'a \<Rightarrow> ('a, 'r) mem_root_array \<Rightarrow> ('a, 'r) mem_root_array option" where
  "push_until alloc_root element_size trivial n val a =
     (if n \<noteq> m_size a
      then do {
        (failed, a) \<leftarrow> push_back alloc_root element_size trivial a (Value val);
        push_until alloc_root element_size trivial n val a
      }
      else Some a)"

partial_function (option) pop_until :: "bool \<Rightarrow> size_t \<Rightarrow> ('a, 'r) mem_root_array \<Rightarrow> ('a, 'r) mem_root_array option" where
  "pop_until trivial n a =
     (if n \<noteq> m_size a then do { a \<leftarrow> pop_back trivial a; pop_until trivial n a } else Some a)"

definition resize ::
  "'r allocator \<Rightarrow> size_t \<Rightarrow> bool \<Rightarrow> ('a, 'r) mem_root_array \<Rightarrow> size_t \<Rightarrow> 'a \<Rightarrow> ('a, 'r) mem_root_array option" where
  "resize alloc_root element_size trivial a n val =
     (if n = m_size a then Some a
      else if n > m_size a
      then do {
        (failed, a) \<leftarrow> reserve alloc_root element_size trivial a n;
        if \<not> failed then push_until alloc_root element_size trivial n val a else Some a
      }
      else do {
        a \<leftarrow> (if \<not> trivial then pop_until trivial n a else Some a);
        Some (a\<lparr>m_size := n, m_array := take (unat n) (m_array a)\<rparr>)
      })"

section \<open>Invariant\<close>

text \<open>The area holds \<^verbatim>\<open>m_capacity\<close> elements, and every element that was constructed has been destroyed
  once or is live.\<close>

definition array_inv :: "size_t \<Rightarrow> bool \<Rightarrow> ('a, 'r) mem_root_array \<Rightarrow> bool" where
  "array_inv element_size trivial a \<longleftrightarrow>
     unat (m_size a) = length (m_array a) \<and> m_size a \<le> m_capacity a \<and>
     unat (m_capacity a) * unat element_size \<le> area a \<and>
     (\<not> trivial \<longrightarrow> mset (constructed a) = mset (destroyed a) + mset (m_array a))"

lemma destroy_members [simp]:
  "m_array (destroy t xs a) = m_array a" "m_size (destroy t xs a) = m_size a"
  "m_capacity (destroy t xs a) = m_capacity a" "area (destroy t xs a) = area a"
  "constructed (destroy t xs a) = constructed a" "m_root (destroy t xs a) = m_root a"
  "\<not> t \<Longrightarrow> destroyed (destroy t xs a) = destroyed a @ xs"
  by (simp_all add: destroy_def)

lemma copy_elements_ok:
  assumes "(length new_array + length old) * unat es \<le> bytes"
  shows "\<exists>b. copy_elements es trivial bytes old new_array a = Some (new_array @ old, b) \<and>
    m_root b = m_root a \<and> m_size b = m_size a \<and> m_capacity b = m_capacity a \<and>
    (\<not> trivial \<longrightarrow> constructed b = constructed a @ old \<and> destroyed b = destroyed a @ old)"
  using assms
proof (induction old arbitrary: new_array a)
  case (Cons x old)
  let ?a = "destroy trivial [x] (a\<lparr>constructed := constructed a @ [x]\<rparr>)"
  have "Suc (length new_array) * unat es \<le> (length new_array + length (x # old)) * unat es"
    by (intro mult_le_mono1) simp
  then have "Suc (length new_array) * unat es \<le> bytes" using Cons.prems by linarith
  moreover have "(length (new_array @ [x]) + length old) * unat es \<le> bytes" using Cons.prems by simp
  ultimately show ?case using Cons.IH [of "new_array @ [x]" ?a] by auto
qed simp

lemma reserve_ok:
  assumes i: "array_inv es trivial a" and fit: "unat n * unat es < 2 ^ 64" and law: "alloc_law alloc"
  shows "\<exists>failed b. reserve alloc es trivial a n = Some (failed, b) \<and> array_inv es trivial b \<and>
    m_array b = m_array a \<and> m_size b = m_size a \<and>
    (failed \<longleftrightarrow> m_capacity a < n \<and> fst (alloc (m_root a) (n * es)) = None) \<and>
    m_capacity b = (if failed then m_capacity a else max n (m_capacity a))"
proof (cases "n \<le> m_capacity a")
  case True
  then show ?thesis using i by (auto simp: reserve_def max_def dest: leD)
next
  case False
  obtain mem r where al: "alloc (m_root a) (n * es) = (mem, r)" by fastforce
  have inv: "array_inv es trivial (a\<lparr>m_root := r\<rparr>)" using i by (simp add: array_inv_def)
  show ?thesis
  proof (cases mem)
    case None
    then show ?thesis using False al inv by (auto simp: reserve_def)
  next
    case (Some bytes)
    have "unat (n * es) = unat n * unat es" using fit by (intro unat_mult_no_overflow) simp
    then have bytes: "unat n * unat es \<le> bytes" using law al Some unfolding alloc_law_def by metis
    have "length (m_array a) \<le> unat n"
      using i False by (auto simp: array_inv_def word_le_nat_alt)
    then have "length (m_array a) * unat es \<le> unat n * unat es" by (rule mult_le_mono1)
    then have "(length ([] :: 'a list) + length (m_array a)) * unat es \<le> bytes" using bytes by (simp only: list.size add_0)
    from copy_elements_ok [OF this, of trivial "a\<lparr>m_root := r\<rparr>"]
    obtain b where b: "copy_elements es trivial bytes (m_array a) [] (a\<lparr>m_root := r\<rparr>) = Some (m_array a, b)"
        "m_size b = m_size a"
        "\<not> trivial \<longrightarrow> constructed b = constructed a @ m_array a \<and> destroyed b = destroyed a @ m_array a"
      by auto
    have "m_size a \<le> n" using i False by (auto simp: array_inv_def)
    then have "array_inv es trivial (b\<lparr>m_array := m_array a, m_capacity := n, area := bytes\<rparr>)"
      using i b(2,3) bytes by (auto simp: array_inv_def)
    then show ?thesis using False al b(1,2) Some by (auto simp: reserve_def max_def)
  qed
qed


lemma construct_ok:
  assumes "array_inv es trivial a" and "m_size a < m_capacity a"
  shows "\<exists>b. construct_at_end es a x = Some b \<and> array_inv es trivial b \<and> m_array b = m_array a @ [x] \<and>
    m_size b = m_size a + 1 \<and> m_capacity b = m_capacity a"
proof -
  have lt: "Suc (unat (m_size a)) \<le> unat (m_capacity a)" using assms(2) by (simp add: word_less_nat_alt)
  then have "Suc (unat (m_size a)) * unat es \<le> area a"
    using assms(1) mult_le_mono1 [OF lt, of "unat es"] by (simp add: array_inv_def)
  moreover have "unat (m_size a + 1) = Suc (unat (m_size a))"
    using lt unat_lt_pow [of 64 "m_capacity a"] by (subst unat_add_no_overflow) auto
  ultimately show ?thesis
    using assms lt by (auto simp: construct_at_end_def array_inv_def word_le_nat_alt)
qed

text \<open>The growth of the capacity does not overflow.\<close>

definition may_grow :: "size_t \<Rightarrow> ('a, 'r) mem_root_array \<Rightarrow> bool" where
  "may_grow es a \<longleftrightarrow> es \<noteq> 0 \<and> 20 * unat es < 2 ^ 64 \<and> 2 * unat (m_capacity a) * unat es < 2 ^ 64"

text \<open>The value that a reference denotes when it is passed, and the capacity that a full array asks for.\<close>

definition denotes :: "('a, 'r) mem_root_array \<Rightarrow> 'a element_ref \<Rightarrow> 'a option" where
  "denotes a element = read_ref True a a element"

definition next_capacity :: "('a, 'r) mem_root_array \<Rightarrow> size_t" where
  "next_capacity a = (if m_capacity a = 0 then 20 else m_capacity a * 2)"

lemma denotes_Value [simp]: "denotes a (Value x) = Some x"
  by (simp add: denotes_def read_ref_def)

lemma push_back_room:
  assumes "array_inv es trivial a" and "m_size a < m_capacity a" and "denotes a element = Some x"
  shows "\<exists>b. push_back alloc es trivial a element = Some (False, b) \<and> array_inv es trivial b \<and>
    m_array b = m_array a @ [x] \<and> m_size b = m_size a + 1 \<and> m_capacity b = m_capacity a"
proof -
  have "m_capacity a \<noteq> 0" "m_size a \<noteq> m_capacity a" using assms(2) by auto
  moreover have "read_ref trivial a a element = Some x"
    using assms(3) by (auto simp: denotes_def read_ref_def split: element_ref.splits)
  ultimately show ?thesis using construct_ok [OF assms(1,2), of x] by (auto simp: push_back_def)
qed

lemma next_capacity_fits:
  assumes "may_grow es a"
  shows "unat (next_capacity a) * unat es < 2 ^ 64" and "m_capacity a < next_capacity a"
proof -
  have e1: "1 \<le> unat es" using assms by (simp add: may_grow_def unat_gt_0 Suc_le_eq)
  have dbl: "unat (m_capacity a * 2) = 2 * unat (m_capacity a)"
  proof -
    have "2 * unat (m_capacity a) * 1 \<le> 2 * unat (m_capacity a) * unat es" using e1 by (rule mult_le_mono2)
    then have "2 * unat (m_capacity a) < 2 ^ 64" using assms unfolding may_grow_def by linarith
    then have "unat (m_capacity a) * unat (2 :: size_t) < 2 ^ LENGTH(64)" by simp
    then show ?thesis using unat_mult_no_overflow [of "m_capacity a" 2] by simp
  qed
  show "unat (next_capacity a) * unat es < 2 ^ 64" using assms dbl by (simp add: next_capacity_def may_grow_def)
  show "m_capacity a < next_capacity a"
    using dbl by (auto simp: next_capacity_def word_less_nat_alt unat_gt_0)
qed

lemma push_back_full:
  assumes i: "array_inv es trivial a" and full: "m_size a = m_capacity a" and g: "may_grow es a"
    and law: "alloc_law alloc"
  shows "\<exists>failed b. reserve alloc es trivial a (next_capacity a) = Some (failed, b) \<and> array_inv es trivial b \<and>
    m_array b = m_array a \<and> m_size b = m_size a \<and>
    (failed \<longleftrightarrow> fst (alloc (m_root a) (next_capacity a * es)) = None) \<and>
    m_capacity b = (if failed then m_capacity a else next_capacity a) \<and>
    push_back alloc es trivial a element =
      (if failed then Some (True, b)
       else do { x \<leftarrow> read_ref trivial a b element; c \<leftarrow> construct_at_end es b x; Some (False, c) })"
proof -
  note up = next_capacity_fits [OF g]
  have mx: "max (next_capacity a) (m_capacity a) = next_capacity a" using up(2) by (simp add: max.absorb1 less_imp_le)
  obtain failed b where r: "reserve alloc es trivial a (next_capacity a) = Some (failed, b)" "array_inv es trivial b"
      "m_array b = m_array a" "m_size b = m_size a"
      "failed \<longleftrightarrow> fst (alloc (m_root a) (next_capacity a * es)) = None"
      "m_capacity b = (if failed then m_capacity a else next_capacity a)"
    using reserve_ok [OF i up(1) law] up(2) unfolding mx by blast
  have "push_back alloc es trivial a element =
      (if failed then Some (True, b)
       else do { x \<leftarrow> read_ref trivial a b element; c \<leftarrow> construct_at_end es b x; Some (False, c) })"
    using r full up(2) by (cases "m_capacity a = 0") (auto simp: push_back_def next_capacity_def)
  then show ?thesis using r by blast
qed

text \<open>A reference to an element does not survive the re-expansion, unless the destructor is trivial.\<close>

definition dangles :: "'r allocator \<Rightarrow> size_t \<Rightarrow> bool \<Rightarrow> ('a, 'r) mem_root_array \<Rightarrow> 'a element_ref \<Rightarrow> bool" where
  "dangles alloc es trivial a element \<longleftrightarrow> \<not> trivial \<and> m_size a = m_capacity a \<and> (\<exists>i. element = Element i) \<and>
     fst (alloc (m_root a) (next_capacity a * es)) \<noteq> None"

lemma push_back_sequence:
  assumes i: "array_inv es trivial a" and law: "alloc_law alloc" and g: "may_grow es a"
    and d: "denotes a element = Some x"
  shows "if dangles alloc es trivial a element then push_back alloc es trivial a element = None
    else \<exists>failed b. push_back alloc es trivial a element = Some (failed, b) \<and> array_inv es trivial b \<and>
      (failed \<longleftrightarrow> m_size a = m_capacity a \<and> fst (alloc (m_root a) (next_capacity a * es)) = None) \<and>
      m_array b = (if failed then m_array a else m_array a @ [x]) \<and>
      m_capacity b = (if m_size a = m_capacity a \<and> \<not> failed then next_capacity a else m_capacity a)"
proof (cases "m_size a = m_capacity a")
  case False
  then have "m_size a < m_capacity a" using i by (auto simp: array_inv_def less_le)
  from push_back_room [OF i this d, of alloc] show ?thesis using False by (auto simp: dangles_def)
next
  case full: True
  from push_back_full [OF i full g law, of element] obtain failed b where b: "array_inv es trivial b"
    "m_array b = m_array a" "m_size b = m_size a"
    "failed \<longleftrightarrow> fst (alloc (m_root a) (next_capacity a * es)) = None"
    "m_capacity b = (if failed then m_capacity a else next_capacity a)"
    "push_back alloc es trivial a element =
      (if failed then Some (True, b)
       else do { x \<leftarrow> read_ref trivial a b element; c \<leftarrow> construct_at_end es b x; Some (False, c) })" by blast
  have up: "m_capacity a < next_capacity a" by (rule next_capacity_fits [OF g])
  show ?thesis
  proof (cases failed)
    case True
    then show ?thesis using b full by (auto simp: dangles_def)
  next
    case ok: False
    then have grown: "m_capacity b = next_capacity a" "m_size b < m_capacity b" using b(3,5) full up by simp_all
    show ?thesis
    proof (cases "dangles alloc es trivial a element")
      case True
      then have "read_ref trivial a b element = None" using grown up by (auto simp: dangles_def read_ref_def)
      then show ?thesis using True b(6) ok by simp
    next
      case False
      have read: "read_ref trivial a b element = Some x"
        using d False ok b(4) full
        by (auto simp: dangles_def denotes_def read_ref_def split: element_ref.splits if_splits)
      from construct_ok [OF b(1) grown(2), of x] obtain c where
        "construct_at_end es b x = Some c" "array_inv es trivial c" "m_array c = m_array b @ [x]"
        "m_capacity c = m_capacity b" by blast
      then show ?thesis using False b(2,4,6) read ok full grown(1) by simp
    qed
  qed
qed

lemma pop_back_ok:
  assumes i: "array_inv es trivial a" and ne: "m_array a \<noteq> []"
  shows "\<exists>b. pop_back trivial a = Some b \<and> array_inv es trivial b \<and> m_array b = butlast (m_array a) \<and>
    m_size b = m_size a - 1 \<and> m_capacity b = m_capacity a \<and>
    (\<not> trivial \<longrightarrow> destroyed b = destroyed a @ [last (m_array a)])"
proof -
  have nz: "m_size a \<noteq> 0" using i ne by (auto simp: array_inv_def)
  have s: "unat (m_size a - 1) = length (m_array a) - 1" using i nz by (simp add: array_inv_def unat_minus_one)
  have lt: "m_size a - 1 < m_size a" using s i ne by (simp add: word_less_nat_alt array_inv_def)
  then have le: "m_size a - 1 \<le> m_capacity a" using i by (auto simp: array_inv_def)
  have bk: "back_elem a = Some (last (m_array a))"
    using lt s ne by (simp add: back_elem_def at_def last_conv_nth)
  have "mset (m_array a) = mset (butlast (m_array a)) + {#last (m_array a)#}"
    using ne by (metis append_butlast_last_id mset_append mset_single_iff_right)
  then show ?thesis
    using i nz bk s le by (auto simp: pop_back_def is_empty_def array_inv_def butlast_conv_take)
qed

lemma chop_ok:
  assumes i: "array_inv es trivial a" and p: "unat pos < length (m_array a)"
  shows "\<exists>b. chop trivial a pos = Some b \<and> array_inv es trivial b \<and> m_array b = take (unat pos) (m_array a) \<and>
    (\<not> trivial \<longrightarrow> destroyed b = destroyed a @ drop (unat pos) (m_array a))"
proof -
  have lt: "pos < m_size a" using i p by (simp add: array_inv_def word_less_nat_alt)
  have "mset (m_array a) = mset (take (unat pos) (m_array a)) + mset (drop (unat pos) (m_array a))"
    by (metis append_take_drop_id mset_append)
  moreover have "pos \<le> m_capacity a" using i lt by (auto simp: array_inv_def)
  ultimately show ?thesis using i p lt by (auto simp: chop_def array_inv_def Let_def)
qed

lemma push_until_ok:
  assumes "array_inv es trivial a" and "m_size a \<le> n" and "n \<le> m_capacity a"
  shows "\<exists>b. push_until alloc es trivial n val a = Some b \<and> array_inv es trivial b \<and> m_size b = n \<and>
    m_array b = m_array a @ replicate (unat n - unat (m_size a)) val"
  using assms
proof (induction "unat n - unat (m_size a)" arbitrary: a)
  case 0
  then have "n = m_size a" by (simp add: word_le_nat_alt word_unat_eq_iff)
  then show ?case using 0 by (subst push_until.simps) simp
next
  case (Suc k)
  then have lt: "m_size a < n" by (simp add: word_less_nat_alt)
  then have room: "m_size a < m_capacity a" using Suc.prems(3) by simp
  obtain b where b: "push_back alloc es trivial a (Value val) = Some (False, b)" "array_inv es trivial b"
      "m_array b = m_array a @ [val]" "m_size b = m_size a + 1" "m_capacity b = m_capacity a"
    using push_back_room [OF Suc.prems(1) room denotes_Value] by blast
  have u: "unat (m_size b) = Suc (unat (m_size a))"
    using b(2,3) Suc.prems(1) by (simp add: array_inv_def)
  then have "k = unat n - unat (m_size b)" "m_size b \<le> n" "n \<le> m_capacity b"
    using Suc(2) lt Suc.prems(3) b(5) by (auto simp: word_le_nat_alt word_less_nat_alt)
  from Suc(1) [OF this(1) b(2) this(2,3)]
  obtain c where c: "push_until alloc es trivial n val b = Some c" "array_inv es trivial c" "m_size c = n"
      "m_array c = m_array b @ replicate k val"
    using \<open>k = unat n - unat (m_size b)\<close> by metis
  have "m_array c = m_array a @ replicate (Suc k) val" using c(4) b(3) by simp
  then show ?case
    using b(1) c lt Suc(2) by (subst push_until.simps) auto
qed

lemma pop_until_ok:
  assumes "array_inv es trivial a" and "n \<le> m_size a"
  shows "\<exists>b. pop_until trivial n a = Some b \<and> array_inv es trivial b \<and> m_size b = n \<and>
    m_array b = take (unat n) (m_array a) \<and> m_capacity b = m_capacity a"
  using assms
proof (induction "unat (m_size a) - unat n" arbitrary: a)
  case 0
  then have "n = m_size a" by (simp add: word_le_nat_alt word_unat_eq_iff)
  then show ?case using 0 by (subst pop_until.simps) (simp add: array_inv_def)
next
  case (Suc k)
  then have lt: "unat n < unat (m_size a)" by linarith
  then have ne: "m_array a \<noteq> []" "n \<noteq> m_size a" using Suc.prems(1) by (auto simp: array_inv_def)
  obtain b where b: "pop_back trivial a = Some b" "array_inv es trivial b" "m_array b = butlast (m_array a)"
      "m_capacity b = m_capacity a"
    using pop_back_ok [OF Suc.prems(1) ne(1)] by blast
  have "unat (m_size b) = unat (m_size a) - 1" using b(2,3) Suc.prems(1) by (simp add: array_inv_def)
  then have "k = unat (m_size b) - unat n" "n \<le> m_size b" using Suc(2) lt by (auto simp: word_le_nat_alt)
  from Suc(1) [OF this(1) b(2) this(2)]
  obtain c where "pop_until trivial n b = Some c" "array_inv es trivial c" "m_size c = n"
      "m_array c = take (unat n) (m_array b)" "m_capacity c = m_capacity b"
    by blast
  moreover have "take (unat n) (butlast (m_array a)) = take (unat n) (m_array a)"
    using lt Suc.prems(1) by (simp add: take_butlast array_inv_def)
  ultimately show ?case using b ne(2) by (subst pop_until.simps) auto
qed


section \<open>Properties of the header\<close>

lemma mem_root_array_sequence_parts:
  assumes i: "array_inv es trivial a"
  shows "m_array a \<noteq> [] \<Longrightarrow> \<exists>b. pop_back trivial a = Some b \<and> array_inv es trivial b \<and>
      m_array b = butlast (m_array a) \<and> (\<not> trivial \<longrightarrow> destroyed b = destroyed a @ [last (m_array a)])"
    and "unat pos < length (m_array a) \<Longrightarrow> \<exists>b. chop trivial a pos = Some b \<and> array_inv es trivial b \<and>
      m_array b = take (unat pos) (m_array a) \<and>
      (\<not> trivial \<longrightarrow> destroyed b = destroyed a @ drop (unat pos) (m_array a))"
    and "\<exists>b. clear trivial a = Some b \<and> array_inv es trivial b \<and> m_array b = []"
    and "unat n < length (m_array a) \<Longrightarrow> at a n = Some (m_array a ! unat n)"
    and "array_inv es trivial (Mem_root_array root)"
proof -
  show "\<exists>b. pop_back trivial a = Some b \<and> array_inv es trivial b \<and>
      m_array b = butlast (m_array a) \<and> (\<not> trivial \<longrightarrow> destroyed b = destroyed a @ [last (m_array a)])"
    if "m_array a \<noteq> []"
    using pop_back_ok [OF i that] by blast
  show "\<exists>b. chop trivial a pos = Some b \<and> array_inv es trivial b \<and>
      m_array b = take (unat pos) (m_array a) \<and>
      (\<not> trivial \<longrightarrow> destroyed b = destroyed a @ drop (unat pos) (m_array a))"
    if "unat pos < length (m_array a)"
    using chop_ok [OF i that] by blast
  show "\<exists>b. clear trivial a = Some b \<and> array_inv es trivial b \<and> m_array b = []"
  proof (cases "m_array a = []")
    case True
    then show ?thesis using i by (auto simp: clear_def is_empty_def array_inv_def unat_eq_zero)
  next
    case False
    then have "unat (0 :: size_t) < length (m_array a)" "\<not> is_empty a"
      using i by (auto simp: is_empty_def array_inv_def)
    then show ?thesis using chop_ok [OF i, of 0] by (auto simp: clear_def)
  qed
  show "at a n = Some (m_array a ! unat n)" if "unat n < length (m_array a)"
    using i that by (simp add: at_def array_inv_def word_less_nat_alt)
  show "array_inv es trivial (Mem_root_array root)"
    by (simp add: array_inv_def Mem_root_array_def)
qed

text \<open>
  C38. The array is a sequence, over any allocator that returns at least the memory it is asked for. As long as
  the growth of the capacity does not overflow, \<^verbatim>\<open>push_back\<close> of an object, or of an element of the array itself,
  appends a copy of it; it asks for memory exactly when the array is full, namely for 20 elements at first and
  then for twice the capacity, and when it does not get it the sequence stays as it is and an error is reported. The
  exception is an element of a full array whose destructor is not trivial: the array is re-expanded first, so that
  the copy is made of an element that has been destroyed. \<^verbatim>\<open>pop_back\<close> and \<^verbatim>\<open>chop\<close> cut off the end and destroy it, and
  \<^verbatim>\<open>clear\<close> everything; \<^verbatim>\<open>at\<close> returns the element for each index that its assertion allows. No element is
  ever constructed outside the area, and every constructed element is destroyed once or still live.
\<close>
theorem mem_root_array_sequence:
  assumes "array_inv es trivial a"
  shows "(alloc_law alloc \<and> may_grow es a \<and> denotes a element = Some x \<longrightarrow>
      (if dangles alloc es trivial a element then push_back alloc es trivial a element = None
       else \<exists>failed b. push_back alloc es trivial a element = Some (failed, b) \<and> array_inv es trivial b \<and>
         (failed \<longleftrightarrow> m_size a = m_capacity a \<and> fst (alloc (m_root a) (next_capacity a * es)) = None) \<and>
         m_array b = (if failed then m_array a else m_array a @ [x]) \<and>
         m_capacity b = (if m_size a = m_capacity a \<and> \<not> failed then next_capacity a else m_capacity a))) \<and>
    (m_array a \<noteq> [] \<longrightarrow> (\<exists>b. pop_back trivial a = Some b \<and> array_inv es trivial b \<and>
      m_array b = butlast (m_array a) \<and> (\<not> trivial \<longrightarrow> destroyed b = destroyed a @ [last (m_array a)]))) \<and>
    (unat pos < length (m_array a) \<longrightarrow> (\<exists>b. chop trivial a pos = Some b \<and> array_inv es trivial b \<and>
      m_array b = take (unat pos) (m_array a) \<and>
      (\<not> trivial \<longrightarrow> destroyed b = destroyed a @ drop (unat pos) (m_array a)))) \<and>
    (\<exists>b. clear trivial a = Some b \<and> array_inv es trivial b \<and> m_array b = []) \<and>
    (unat n < length (m_array a) \<longrightarrow> at a n = Some (m_array a ! unat n)) \<and>
    array_inv es trivial (Mem_root_array root)"
proof (intro conjI)
  show "alloc_law alloc \<and> may_grow es a \<and> denotes a element = Some x \<longrightarrow>
      (if dangles alloc es trivial a element then push_back alloc es trivial a element = None
       else \<exists>failed b. push_back alloc es trivial a element = Some (failed, b) \<and> array_inv es trivial b \<and>
         (failed \<longleftrightarrow> m_size a = m_capacity a \<and> fst (alloc (m_root a) (next_capacity a * es)) = None) \<and>
         m_array b = (if failed then m_array a else m_array a @ [x]) \<and>
         m_capacity b = (if m_size a = m_capacity a \<and> \<not> failed then next_capacity a else m_capacity a))"
    using push_back_sequence [OF assms] by blast
qed (intro impI mem_root_array_sequence_parts [OF assms]; assumption)+

text \<open>An allocator that finds exactly what it is asked for, up to 1000 bytes.\<close>

definition sample_alloc :: "unit allocator" where
  "sample_alloc r n = (if n \<le> 1000 then Some (unat n) else None, r)"

lemma sample_alloc_law: "alloc_law sample_alloc"
  by (auto simp: alloc_law_def sample_alloc_def split: if_splits)

lemma sample_array:
  "array_inv 8 False (Mem_root_array () :: (nat, unit) mem_root_array)"
  "may_grow 8 (Mem_root_array () :: (nat, unit) mem_root_array)"
  by (simp_all add: array_inv_def Mem_root_array_def may_grow_def)

theorem mem_root_array_sequence_witness:
  "\<exists>b. push_back sample_alloc 8 False (Mem_root_array ()) (Value (7 :: nat)) = Some (False, b) \<and>
     m_array b = [7] \<and> m_capacity b = 20"
proof -
  let ?a = "Mem_root_array () :: (nat, unit) mem_root_array"
  have "alloc_law sample_alloc \<and> may_grow 8 ?a \<and> denotes ?a (Value 7) = Some 7"
    using sample_alloc_law sample_array by simp
  from mem_root_array_sequence [OF sample_array(1), of sample_alloc "Value 7" 7, THEN conjunct1, THEN mp, OF this]
  show ?thesis
    by (auto simp: dangles_def next_capacity_def Mem_root_array_def sample_alloc_def)
qed

lemma resize_shrinks:
  assumes i: "array_inv es trivial a" and less: "n < m_size a"
  shows "\<exists>b. resize alloc es trivial a n val = Some b \<and> array_inv es trivial b \<and>
    m_array b = take (unat n) (m_array a)"
proof -
  have lt: "unat n < length (m_array a)" using i less by (simp add: array_inv_def word_less_nat_alt)
  have "m_size a \<le> m_capacity a" using i by (simp add: array_inv_def)
  then have c: "n \<le> m_capacity a" using less by order
  obtain b where b: "pop_until trivial n a = Some b" "array_inv es trivial b" "m_size b = n"
      "m_array b = take (unat n) (m_array a)"
    using pop_until_ok [OF i less_imp_le [OF less]] by blast
  have eq: "b\<lparr>m_size := n, m_array := take (unat n) (m_array b)\<rparr> = b" using b(3,4) by simp
  show ?thesis
  proof (cases trivial)
    case True
    then have "array_inv es trivial (a\<lparr>m_size := n, m_array := take (unat n) (m_array a)\<rparr>)"
      using i lt c by (simp add: array_inv_def)
    then show ?thesis using True less by (auto simp: resize_def)
  next
    case False
    then have "resize alloc es trivial a n val = Some (b\<lparr>m_size := n, m_array := take (unat n) (m_array b)\<rparr>)"
      using less b(1) by (auto simp: resize_def)
    then show ?thesis unfolding eq using b(2,4) by simp
  qed
qed

lemma resize_grows:
  assumes i: "array_inv es trivial a" and greater: "m_size a < n" and fit: "unat n * unat es < 2 ^ 64"
    and law: "alloc_law alloc"
  shows "\<exists>b. resize alloc es trivial a n val = Some b \<and> array_inv es trivial b \<and>
    m_array b = (if m_capacity a < n \<and> fst (alloc (m_root a) (n * es)) = None then m_array a
      else m_array a @ replicate (unat n - length (m_array a)) val)"
proof -
  obtain failed b where r: "reserve alloc es trivial a n = Some (failed, b)" "array_inv es trivial b"
      "m_array b = m_array a" "m_size b = m_size a"
      "failed \<longleftrightarrow> m_capacity a < n \<and> fst (alloc (m_root a) (n * es)) = None"
      "m_capacity b = (if failed then m_capacity a else max n (m_capacity a))"
    using reserve_ok [OF i fit law] by blast
  have len: "unat (m_size a) = length (m_array a)" using i by (simp add: array_inv_def)
  show ?thesis
  proof (cases failed)
    case True
    then show ?thesis using r greater by (auto simp: resize_def)
  next
    case False
    then have "m_size b \<le> n" "n \<le> m_capacity b" using r(4,6) greater by auto
    from push_until_ok [OF r(2) this, of alloc val]
    obtain c where c: "push_until alloc es trivial n val b = Some c" "array_inv es trivial c"
        "m_array c = m_array a @ replicate (unat n - length (m_array a)) val"
      using r(3,4) len by auto
    have "resize alloc es trivial a n val = Some c"
      using r(1) False greater c(1) by (auto simp: resize_def)
    then show ?thesis using c(2,3) r(5) False by auto
  qed
qed

lemma resize_ok:
  assumes i: "array_inv es trivial a" and fit: "unat n * unat es < 2 ^ 64" and law: "alloc_law alloc"
  shows "\<exists>b. resize alloc es trivial a n val = Some b \<and> array_inv es trivial b \<and>
    m_array b = (if m_capacity a < n \<and> fst (alloc (m_root a) (n * es)) = None then m_array a
      else take (unat n) (m_array a) @ replicate (unat n - length (m_array a)) val)"
proof -
  have len: "unat (m_size a) = length (m_array a)" and cap: "m_size a \<le> m_capacity a"
    using i by (simp_all add: array_inv_def)
  consider "n < m_size a" | "n = m_size a" | "m_size a < n" by force
  then show ?thesis
  proof cases
    case 1
    then have "\<not> m_capacity a < n" using cap by order
    moreover have "unat n \<le> length (m_array a)" using 1 len by (simp add: word_less_nat_alt)
    ultimately show ?thesis using resize_shrinks [OF i 1, of alloc val] by simp
  next
    case 2
    then show ?thesis using i len cap by (auto simp: resize_def)
  next
    case 3
    then have "length (m_array a) \<le> unat n" using len by (simp add: word_less_nat_alt)
    then show ?thesis using resize_grows [OF i 3 fit law, of val] by (simp only: take_all)
  qed
qed

lemma reserve_wraps:
  assumes "unat n * unat es \<ge> 2 ^ 64" and "m_array a = []" and "m_capacity a < n"
    and "fst (alloc (m_root a) (n * es)) = Some (unat (n * es))"
  shows "\<exists>b. reserve alloc es trivial a n = Some (False, b) \<and> m_capacity b = n \<and>
    area b < unat (m_capacity b) * unat es \<and> \<not> array_inv es trivial b"
proof -
  obtain r where al: "alloc (m_root a) (n * es) = (Some (unat (n * es)), r)" using assms(4) by (metis prod.collapse)
  let ?b = "a\<lparr>m_root := r, m_array := [], m_capacity := n, area := unat (n * es)\<rparr>"
  have "reserve alloc es trivial a n = Some (False, ?b)"
    using assms al leD [of n "m_capacity a"] by (auto simp: reserve_def)
  moreover have "unat (n * es) < unat n * unat es"
    using assms(1) unat_lt_pow [of 64 "n * es"] by simp
  ultimately show ?thesis by (auto simp: array_inv_def)
qed

text \<open>
  \<^verbatim>\<open>resize\<close> always ends. It cuts the sequence, or extends it by copies of the value when the
  memory can be reserved and leaves it unchanged otherwise, if the number of bytes fits 64 bits.
  When it does not, \<^verbatim>\<open>reserve\<close> asks for the number of bytes modulo \<open>2^64\<close>, and with an allocator that finds just
  that many it claims a capacity the area does not have.
\<close>
theorem mem_root_array_resize:
  assumes "array_inv es trivial a"
  shows "(alloc_law alloc \<and> unat n * unat es < 2 ^ 64 \<longrightarrow>
      (\<exists>b. resize alloc es trivial a n val = Some b \<and> array_inv es trivial b \<and>
      m_array b = (if m_capacity a < n \<and> fst (alloc (m_root a) (n * es)) = None then m_array a
        else take (unat n) (m_array a) @ replicate (unat n - length (m_array a)) val))) \<and>
    (unat n * unat es \<ge> 2 ^ 64 \<and> m_array a = [] \<and> m_capacity a < n \<and>
       fst (alloc (m_root a) (n * es)) = Some (unat (n * es)) \<longrightarrow>
      (\<exists>b. reserve alloc es trivial a n = Some (False, b) \<and> m_capacity b = n \<and>
        area b < unat (m_capacity b) * unat es \<and> \<not> array_inv es trivial b))"
  using resize_ok [OF assms, of n alloc val] reserve_wraps [of n es a alloc trivial] by (intro conjI impI) blast+

theorem mem_root_array_resize_witness:
  "\<exists>b. resize sample_alloc 8 False (Mem_root_array ()) 3 (7 :: nat) = Some b \<and> m_array b = [7, 7, 7]"
proof -
  from mem_root_array_resize [OF sample_array(1), of sample_alloc 3 7] sample_alloc_law
  obtain b where "resize sample_alloc 8 False (Mem_root_array ()) 3 (7 :: nat) = Some b"
      "m_array b = replicate 3 7"
    by (auto simp: Mem_root_array_def sample_alloc_def)
  then show ?thesis by (intro exI [of _ b]) (simp add: numeral_3_eq_3)
qed

end
