(* ===== verification/Sql_Limit.thy ===== *)
theory Sql_Limit
  imports Prelude
begin

text \<open>
  LIMIT and OFFSET: \<^verbatim>\<open>Select_limit_counters\<close> of \<^verbatim>\<open>sql_limit.h\<close>. A number of rows (\<^verbatim>\<open>ha_rows\<close>) has 64
  bits; \<^verbatim>\<open>HA_POS_ERROR\<close> is the largest one and means no limit.
\<close>

type_synonym ha_rows = "64 word"

abbreviation HA_POS_ERROR :: ha_rows where
  "HA_POS_ERROR \<equiv> - 1"

record select_limit_counters =
  select_limit_cnt :: ha_rows
  offset_limit_cnt :: ha_rows
  with_ties :: bool

definition Select_limit_counters :: select_limit_counters where
  "Select_limit_counters = \<lparr>select_limit_cnt = 0, offset_limit_cnt = 0, with_ties = False\<rparr>"

definition Select_limit_counters_copy :: "select_limit_counters \<Rightarrow> select_limit_counters" where
  "Select_limit_counters_copy orig = \<lparr>select_limit_cnt = select_limit_cnt orig,
     offset_limit_cnt = offset_limit_cnt orig, with_ties = with_ties orig\<rparr>"

definition set_limit :: "select_limit_counters \<Rightarrow> ha_rows \<Rightarrow> ha_rows \<Rightarrow> bool \<Rightarrow> select_limit_counters" where
  "set_limit c limit offset with_ties_arg =
     (let offset = (if limit = 0 then 0 else offset);
          c = c\<lparr>offset_limit_cnt := offset\<rparr>;
          c = c\<lparr>select_limit_cnt := limit\<rparr>;
          c = c\<lparr>with_ties := with_ties_arg\<rparr>
      in if select_limit_cnt c + offset_limit_cnt c \<ge> select_limit_cnt c
         then c\<lparr>select_limit_cnt := select_limit_cnt c + offset_limit_cnt c\<rparr>
         else c\<lparr>select_limit_cnt := HA_POS_ERROR\<rparr>)"

definition set_single_row :: "select_limit_counters \<Rightarrow> select_limit_counters" where
  "set_single_row c = c\<lparr>offset_limit_cnt := 0, select_limit_cnt := 1, with_ties := False\<rparr>"

definition send_first_row :: "select_limit_counters \<Rightarrow> select_limit_counters" where
  "send_first_row c =
     (let c = c\<lparr>select_limit_cnt := offset_limit_cnt c + 1\<rparr>
      in if select_limit_cnt c = 0 then c\<lparr>select_limit_cnt := offset_limit_cnt c\<rparr> else c)"

definition is_unlimited :: "select_limit_counters \<Rightarrow> bool" where
  "is_unlimited c \<longleftrightarrow> select_limit_cnt c = HA_POS_ERROR"

definition set_unlimited :: "select_limit_counters \<Rightarrow> select_limit_counters" where
  "set_unlimited c = c\<lparr>select_limit_cnt := HA_POS_ERROR\<rparr>"

definition clear :: "select_limit_counters \<Rightarrow> select_limit_counters" where
  "clear c = c\<lparr>select_limit_cnt := HA_POS_ERROR, offset_limit_cnt := 0, with_ties := False\<rparr>"

definition check_offset :: "select_limit_counters \<Rightarrow> ha_rows \<Rightarrow> bool" where
  "check_offset c sent \<longleftrightarrow> sent < offset_limit_cnt c"

definition remove_offset :: "select_limit_counters \<Rightarrow> select_limit_counters" where
  "remove_offset c = c\<lparr>offset_limit_cnt := 0\<rparr>"

definition get_select_limit :: "select_limit_counters \<Rightarrow> ha_rows" where
  "get_select_limit c = select_limit_cnt c"

definition get_offset_limit :: "select_limit_counters \<Rightarrow> ha_rows" where
  "get_offset_limit c = offset_limit_cnt c"

definition is_with_ties :: "select_limit_counters \<Rightarrow> bool" where
  "is_with_ties c \<longleftrightarrow> with_ties c"

section \<open>The window of rows\<close>

text \<open>
  The rows of a result are numbered from 0. The counters let those through that \<^verbatim>\<open>check_offset\<close> does not skip
  and that lie below the limit. WITH TIES is only a flag here: what it adds to the window is not the matter of this
  class.
\<close>

definition in_window :: "select_limit_counters \<Rightarrow> ha_rows \<Rightarrow> bool" where
  "in_window c n \<longleftrightarrow> \<not> check_offset c n \<and> n < get_select_limit c"

lemma in_window_iff:
  "in_window c n \<longleftrightarrow> unat (offset_limit_cnt c) \<le> unat n \<and> unat n < unat (select_limit_cnt c)"
  by (auto simp: in_window_def check_offset_def get_select_limit_def word_less_nat_alt)

lemma unat_pos_error: "unat HA_POS_ERROR = 2 ^ 64 - 1"
  by (simp add: unsigned_minus_1_eq_mask mask_eq_exp_minus_1)

lemma below_pos_error: "n \<noteq> HA_POS_ERROR \<longleftrightarrow> unat n < 2 ^ 64 - 1"
proof -
  have "unat n \<le> 2 ^ 64 - 1" using unat_lt_pow [of 64 n] by simp
  moreover have "n = HA_POS_ERROR \<longleftrightarrow> unat n = unat HA_POS_ERROR" by (rule word_unat_eq_iff)
  ultimately show ?thesis unfolding unat_pos_error by linarith
qed

lemma set_limit_counters:
  "offset_limit_cnt (set_limit c l off t) = (if l = 0 then 0 else off)"
  "unat (select_limit_cnt (set_limit c l off t)) = (if l = 0 then 0 else min (unat l + unat off) (2 ^ 64 - 1))"
proof -
  have lt: "unat l < 2 ^ 64" "unat off < 2 ^ 64" by (rule unat_lt_pow, simp)+
  show "offset_limit_cnt (set_limit c l off t) = (if l = 0 then 0 else off)"
    by (simp add: set_limit_def Let_def)
  show "unat (select_limit_cnt (set_limit c l off t)) = (if l = 0 then 0 else min (unat l + unat off) (2 ^ 64 - 1))"
  proof (cases "unat l + unat off < 2 ^ 64")
    case True
    then have "unat (l + off) = unat l + unat off" by (intro unat_add_no_overflow) simp
    then show ?thesis using True by (simp add: set_limit_def Let_def word_le_nat_alt)
  next
    case False
    then have "unat (l + off) = unat l + unat off - 2 ^ 64"
      using lt by (simp add: unat_plus_if')
    then have "unat (l + off) < unat l" using lt False by linarith
    moreover have "l \<noteq> 0" using False lt by auto
    ultimately show ?thesis
      using False by (simp add: set_limit_def Let_def word_le_nat_alt unat_pos_error)
  qed
qed

lemma set_limit_window:
  assumes "n \<noteq> HA_POS_ERROR"
  shows "in_window (set_limit c l off t) n \<longleftrightarrow> unat off \<le> unat n \<and> unat n < unat off + unat l"
  using assms unfolding below_pos_error in_window_iff set_limit_counters by (cases "l = 0") auto

lemma send_first_row_window:
  assumes "n \<noteq> HA_POS_ERROR"
  shows "in_window (send_first_row c) n \<longleftrightarrow> n = offset_limit_cnt c"
proof (cases "offset_limit_cnt c + 1 = 0")
  case True
  then have "offset_limit_cnt c = HA_POS_ERROR" by (simp add: add_eq_0_iff2)
  then show ?thesis using True assms by (auto simp: in_window_iff send_first_row_def Let_def)
next
  case False
  then have "unat (offset_limit_cnt c + 1) = Suc (unat (offset_limit_cnt c))"
    using unatSuc [of "offset_limit_cnt c"] by (simp add: add.commute)
  then show ?thesis using False
    by (auto simp: in_window_iff send_first_row_def Let_def less_Suc_eq_le word_unat_eq_iff [of n])
qed

text \<open>
  C39. The counters of LIMIT and OFFSET. After \<^verbatim>\<open>set_limit\<close> the window is exactly the rows from the offset on, as
  many as the limit, for all 64-bit parameters and every row number but \<^verbatim>\<open>HA_POS_ERROR\<close>, although the sum of
  the two may overflow: then the limit is \<^verbatim>\<open>HA_POS_ERROR\<close>. It is that, and the counters say that there is no
  limit, exactly when the sum is at least \<open>2^64 - 1\<close> and the limit is not 0. The offset is kept, as 0 when the limit
  is 0, and so is the flag of WITH TIES. The window of \<^verbatim>\<open>send_first_row\<close> is the one row after the offset, that of
  \<^verbatim>\<open>set_single_row\<close> the first row, that of \<^verbatim>\<open>set_unlimited\<close> all rows from the offset on, that of \<^verbatim>\<open>clear\<close> all rows;
  \<^verbatim>\<open>remove_offset\<close> adds the skipped rows. \<^verbatim>\<open>set_single_row\<close> and \<^verbatim>\<open>clear\<close> end WITH TIES, the others leave it.
\<close>
theorem limit_counters_window:
  assumes "n \<noteq> HA_POS_ERROR"
  shows "(in_window (set_limit c l off t) n \<longleftrightarrow> unat off \<le> unat n \<and> unat n < unat off + unat l) \<and>
    (is_unlimited (set_limit c l off t) \<longleftrightarrow> l \<noteq> 0 \<and> unat l + unat off \<ge> 2 ^ 64 - 1) \<and>
    get_offset_limit (set_limit c l off t) = (if l = 0 then 0 else off) \<and> is_with_ties (set_limit c l off t) = t \<and>
    (in_window (send_first_row c) n \<longleftrightarrow> n = offset_limit_cnt c) \<and>
    (in_window (set_single_row c) n \<longleftrightarrow> n = 0) \<and> \<not> is_with_ties (set_single_row c) \<and>
    (in_window (set_unlimited c) n \<longleftrightarrow> offset_limit_cnt c \<le> n) \<and> is_unlimited (set_unlimited c) \<and>
    in_window (clear c) n \<and> is_unlimited (clear c) \<and> \<not> is_with_ties (clear c) \<and>
    (in_window (remove_offset (set_limit c l off t)) n \<longleftrightarrow> l \<noteq> 0 \<and> unat n < unat off + unat l) \<and>
    is_with_ties (send_first_row c) = is_with_ties c \<and> is_with_ties (set_unlimited c) = is_with_ties c \<and>
    is_with_ties (remove_offset c) = is_with_ties c"
proof -
  have n: "unat n < 2 ^ 64 - 1" using assms below_pos_error by blast
  have "in_window (set_single_row c) n \<longleftrightarrow> n = 0"
    by (auto simp: in_window_iff set_single_row_def unat_eq_zero)
  moreover have "in_window (set_unlimited c) n \<longleftrightarrow> offset_limit_cnt c \<le> n" "in_window (clear c) n"
    using n by (simp_all add: in_window_iff set_unlimited_def clear_def unat_pos_error word_le_nat_alt)
  moreover have "in_window (remove_offset (set_limit c l off t)) n \<longleftrightarrow> l \<noteq> 0 \<and> unat n < unat off + unat l"
    using n set_limit_counters(2) [of c l off t] by (auto simp: in_window_iff remove_offset_def)
  moreover have "is_unlimited (set_limit c l off t) \<longleftrightarrow> l \<noteq> 0 \<and> unat l + unat off \<ge> 2 ^ 64 - 1"
    using below_pos_error [of "select_limit_cnt (set_limit c l off t)"]
    unfolding is_unlimited_def set_limit_counters(2) by (cases "l = 0") (simp_all add: min_less_iff_disj, linarith)
  moreover have "is_with_ties (set_limit c l off t) = t" "\<not> is_with_ties (set_single_row c)"
    "\<not> is_with_ties (clear c)" "is_with_ties (send_first_row c) = is_with_ties c"
    "is_with_ties (set_unlimited c) = is_with_ties c" "is_with_ties (remove_offset c) = is_with_ties c"
    "is_unlimited (set_unlimited c)" "is_unlimited (clear c)"
    by (simp_all add: is_with_ties_def set_limit_def set_single_row_def clear_def send_first_row_def
      set_unlimited_def remove_offset_def is_unlimited_def Let_def)
  ultimately show ?thesis
    using set_limit_window [OF assms] send_first_row_window [OF assms] set_limit_counters(1)
    by (simp add: get_offset_limit_def)
qed

theorem limit_counters_window_witness:
  "in_window (set_limit Select_limit_counters 2 HA_POS_ERROR False) 5 = False \<and>
   in_window (set_limit Select_limit_counters HA_POS_ERROR 3 False) 5"
  using limit_counters_window [of 5 Select_limit_counters 2 HA_POS_ERROR False]
    limit_counters_window [of 5 Select_limit_counters HA_POS_ERROR 3 False] by (simp add: unat_pos_error)

end
