(* ===== verification/Sql_String.thy ===== *)
theory Sql_String
  imports Byte_Order "HOL-Library.Monad_Syntax" "HOL-Library.Sublist"
begin

text \<open>
  Strings of the server: \<^verbatim>\<open>sql_string.h\<close>.

  A \<^verbatim>\<open>Binary_string\<close> is a pointer into memory with a length, an allocated length and a flag that
  says whether the object owns the buffer; the operations that write take the memory and return it.
  The lengths are 32-bit words, and arguments of type \<^verbatim>\<open>size_t\<close> are 64-bit words, so each sum is
  computed at the width the code computes it. A failed assertion is \<^const>\<open>None\<close>.

  The functions that allocate (\<^verbatim>\<open>real_alloc\<close>, \<^verbatim>\<open>realloc_raw\<close>, \<^verbatim>\<open>my_free\<close>) and the length encoding of
  the network layer are defined in files that are not part of the package: they are the fields of a
  parameter \<open>lib\<close>, and \<open>string_laws\<close> states what the code relies on. The overload of \<^verbatim>\<open>append\<close> that
  converts between character sets is a parameter of the operations that call it.
\<close>

type_synonym size_t = "64 word"

abbreviation UINT_MAX32 :: size_t where "UINT_MAX32 \<equiv> 0xFFFFFFFF"

section \<open>Character sets\<close>

text \<open>A character set is named by its address; the attributes are those the code reads.\<close>

record charset_info =
  mbminlen :: uint
  mbmaxlen :: uint
  cs_name_str :: nat
  cs_name_length :: size_t
  wc_mb :: "nat \<Rightarrow> int \<times> uchar list"

record charset_table =
  my_charset_bin :: nat
  my_charset_latin1 :: nat
  info :: "nat \<Rightarrow> charset_info"

definition is_good_for_ft :: "charset_table \<Rightarrow> nat \<Rightarrow> bool" where
  "is_good_for_ft cst m_charset \<longleftrightarrow> m_charset \<noteq> my_charset_bin cst \<and> mbminlen (info cst m_charset) = 1"

definition can_have_collate_clause :: "charset_table \<Rightarrow> nat \<Rightarrow> bool" where
  "can_have_collate_clause cst m_charset \<longleftrightarrow> m_charset \<noteq> my_charset_bin cst"

definition latest_mariadb_version_with_collation_change :: uint where
  "latest_mariadb_version_with_collation_change = 110002"

definition collation_changed_order :: "uint \<Rightarrow> uint \<Rightarrow> bool" where
  "collation_changed_order mysql_version cs_number =
     (if (mysql_version < 50048 \<and>
            (cs_number = 11 \<or> cs_number = 41 \<or> cs_number = 42 \<or> cs_number = 20 \<or>
             cs_number = 21 \<or> cs_number = 22 \<or> cs_number = 23 \<or> cs_number = 26)) \<or>
          (mysql_version < 50124 \<and> (cs_number = 33 \<or> cs_number = 35))
      then True
      else if cs_number = 159 \<and>
          ((mysql_version \<ge> 100400 \<and> mysql_version < 100429) \<or>
           (mysql_version \<ge> 100500 \<and> mysql_version < 100520) \<or>
           (mysql_version \<ge> 100600 \<and> mysql_version < 100613) \<or>
           (mysql_version \<ge> 100700 \<and> mysql_version < 100708) \<or>
           (mysql_version \<ge> 100800 \<and> mysql_version < 100808) \<or>
           (mysql_version \<ge> 100900 \<and> mysql_version < 100906) \<or>
           (mysql_version \<ge> 101000 \<and> mysql_version < 101004) \<or>
           (mysql_version \<ge> 101100 \<and> mysql_version < 101103) \<or>
           (mysql_version \<ge> 110000 \<and> mysql_version < 110002))
      then True
      else False)"

definition MY_PAGE2_COLLATION_ID_UTF8 :: uint where "MY_PAGE2_COLLATION_ID_UTF8 = 0x240"
definition MY_PAGE2_COLLATION_ID_UTF8MB4 :: uint where "MY_PAGE2_COLLATION_ID_UTF8MB4 = 0x260"
definition MY_PAGE2_COLLATION_ID_UCS2 :: uint where "MY_PAGE2_COLLATION_ID_UCS2 = 0x280"
definition MY_PAGE2_COLLATION_ID_UTF16 :: uint where "MY_PAGE2_COLLATION_ID_UTF16 = 0x2A0"
definition MY_PAGE2_COLLATION_ID_UTF32 :: uint where "MY_PAGE2_COLLATION_ID_UTF32 = 0x2E0"

lemmas page2_defs = MY_PAGE2_COLLATION_ID_UTF8_def MY_PAGE2_COLLATION_ID_UTF8MB4_def
  MY_PAGE2_COLLATION_ID_UCS2_def MY_PAGE2_COLLATION_ID_UTF16_def MY_PAGE2_COLLATION_ID_UTF32_def

definition upgrade_collation_id :: "uint \<Rightarrow> uint \<Rightarrow> uint" where
  "upgrade_collation_id mysql_version cs_number =
     (if mysql_version \<ge> 50300 \<and> mysql_version \<le> 50399 \<and> cs_number = 149
      then MY_PAGE2_COLLATION_ID_UCS2
      else if mysql_version \<ge> 50300 \<and> mysql_version \<le> 50399 \<and> cs_number = 213
      then MY_PAGE2_COLLATION_ID_UTF8
      else if (mysql_version \<ge> 50500 \<and> mysql_version \<le> 50599) \<or>
              (mysql_version \<ge> 100000 \<and> mysql_version \<le> 100005)
      then if cs_number = 149 then MY_PAGE2_COLLATION_ID_UCS2
           else if cs_number = 213 then MY_PAGE2_COLLATION_ID_UTF8
           else if cs_number = 214 then MY_PAGE2_COLLATION_ID_UTF32
           else if cs_number = 215 then MY_PAGE2_COLLATION_ID_UTF16
           else if cs_number = 245 then MY_PAGE2_COLLATION_ID_UTF8MB4
           else cs_number
      else cs_number)"

section \<open>Objects and the library\<close>

record binary_string =
  Ptr :: nat
  str_length :: uint32
  Alloced_length :: uint32
  extra_alloc :: uint32
  alloced :: bool
  thread_specific :: bool

record lex_cstring =
  str :: nat
  lex_length :: size_t

record 'h world =
  mem :: memory
  heap :: 'h

record 'h string_lib =
  my_free :: "'h world \<Rightarrow> nat \<Rightarrow> 'h world"
  real_alloc :: "'h world \<Rightarrow> binary_string \<Rightarrow> size_t \<Rightarrow> bool \<times> 'h world \<times> binary_string"
  realloc_raw :: "'h world \<Rightarrow> binary_string \<Rightarrow> size_t \<Rightarrow> bool \<times> 'h world \<times> binary_string"
  net_store_length :: "ulonglong \<Rightarrow> uchar list"
  net_length_size :: "ulonglong \<Rightarrow> uint"
  dig_vec_lower :: "uchar \<Rightarrow> uchar"

text \<open>The value of an operation that reports failure: the flag, the memory and the object.\<close>

type_synonym 'h outcome = "(bool \<times> 'h world \<times> binary_string) option"

definition poke :: "'h world \<Rightarrow> nat \<Rightarrow> uchar \<Rightarrow> 'h world" where
  "poke w p c = w\<lparr>mem := (mem w)(p := c)\<rparr>"

definition memcpy :: "'h world \<Rightarrow> nat \<Rightarrow> nat \<Rightarrow> nat \<Rightarrow> 'h world" where
  "memcpy w dst src n = w\<lparr>mem := copy_in (mem w) dst (copy_out (mem w) src n)\<rparr>"

section \<open>Binary strings\<close>

definition init_private_data :: binary_string where
  "init_private_data = \<lparr>Ptr = 0, str_length = 0, Alloced_length = 0, extra_alloc = 0,
     alloced = False, thread_specific = False\<rparr>"

definition free_buffer :: "'h string_lib \<Rightarrow> 'h world \<Rightarrow> binary_string \<Rightarrow> 'h world \<times> binary_string" where
  "free_buffer lib w s =
     (if alloced s then (my_free lib w (Ptr s), s\<lparr>alloced := False\<rparr>) else (w, s))"

definition Binary_string :: binary_string where
  "Binary_string = init_private_data"

definition Binary_string_sized :: "'h string_lib \<Rightarrow> 'h world \<Rightarrow> size_t \<Rightarrow> 'h world \<times> binary_string" where
  "Binary_string_sized lib w length_arg = snd (real_alloc lib w init_private_data length_arg)"

definition Binary_string_const :: "nat \<Rightarrow> size_t \<Rightarrow> binary_string" where
  "Binary_string_const p len = \<lparr>Ptr = p, str_length = ucast len, Alloced_length = 0, extra_alloc = 0,
     alloced = False, thread_specific = False\<rparr>"

definition Binary_string_buffer :: "nat \<Rightarrow> size_t \<Rightarrow> binary_string" where
  "Binary_string_buffer p len = \<lparr>Ptr = p, str_length = ucast len, Alloced_length = ucast len,
     extra_alloc = 0, alloced = False, thread_specific = False\<rparr>"

definition Binary_string_copy :: "binary_string \<Rightarrow> binary_string" where
  "Binary_string_copy s = \<lparr>Ptr = Ptr s, str_length = str_length s, Alloced_length = Alloced_length s,
     extra_alloc = 0, alloced = False, thread_specific = False\<rparr>"

definition set_length :: "binary_string \<Rightarrow> size_t \<Rightarrow> binary_string" where
  "set_length s len = s\<lparr>str_length := ucast len\<rparr>"

definition is_empty :: "binary_string \<Rightarrow> bool" where
  "is_empty s \<longleftrightarrow> str_length s = 0"

definition end_ptr :: "binary_string \<Rightarrow> nat" where
  "end_ptr s = Ptr s + unat (str_length s)"

definition my_isascii :: "uchar \<Rightarrow> bool" where
  "my_isascii c \<longleftrightarrow> c AND 0x80 = 0"

fun scan_8bit :: "memory \<Rightarrow> nat \<Rightarrow> nat \<Rightarrow> bool" where
  "scan_8bit m c 0 = False"
| "scan_8bit m c (Suc n) = (if \<not> my_isascii (m c) then True else scan_8bit m (c + 1) n)"

definition has_8bit_bytes :: "'h world \<Rightarrow> binary_string \<Rightarrow> bool" where
  "has_8bit_bytes w s = scan_8bit (mem w) (Ptr s) (end_ptr s - Ptr s)"

definition bin_eq :: "'h world \<Rightarrow> binary_string \<Rightarrow> binary_string \<Rightarrow> bool" where
  "bin_eq w s other \<longleftrightarrow> str_length s = str_length other \<and>
     copy_out (mem w) (Ptr s) (unat (str_length s)) = copy_out (mem w) (Ptr other) (unat (str_length s))"

text \<open>\<^verbatim>\<open>strlen(p) == n\<close>.\<close>

definition strlen_is :: "memory \<Rightarrow> nat \<Rightarrow> nat \<Rightarrow> bool" where
  "strlen_is m p n \<longleftrightarrow> 0 \<notin> set (copy_out m p n) \<and> m (p + n) = 0"

definition chop :: "'h world \<Rightarrow> binary_string \<Rightarrow> ('h world \<times> binary_string) option" where
  "chop w s =
     (if str_length s \<noteq> 0
      then let s = s\<lparr>str_length := str_length s - 1\<rparr>;
               w = poke w (Ptr s + unat (str_length s)) 0
           in if strlen_is (mem w) (Ptr s) (unat (str_length s)) then Some (w, s) else None
      else Some (w, s))"

definition ASSERT_LENGTH :: "binary_string \<Rightarrow> size_t \<Rightarrow> bool" where
  "ASSERT_LENGTH s A \<longleftrightarrow> str_length s + ucast A \<le> Alloced_length s"

definition q_append_char :: "'h world \<Rightarrow> binary_string \<Rightarrow> uchar \<Rightarrow> ('h world \<times> binary_string) option" where
  "q_append_char w s c =
     (if \<not> ASSERT_LENGTH s 1 then None
      else Some (poke w (Ptr s + unat (str_length s)) c, s\<lparr>str_length := str_length s + 1\<rparr>))"

definition q_append2b :: "'h world \<Rightarrow> binary_string \<Rightarrow> uint32 \<Rightarrow> ('h world \<times> binary_string) option" where
  "q_append2b w s n =
     (if \<not> ASSERT_LENGTH s 2 then None
      else Some (w\<lparr>mem := int2store (mem w) (Ptr s + unat (str_length s)) (ucast n)\<rparr>,
                 s\<lparr>str_length := str_length s + 2\<rparr>))"

definition q_append_uint32 :: "'h world \<Rightarrow> binary_string \<Rightarrow> uint32 \<Rightarrow> ('h world \<times> binary_string) option" where
  "q_append_uint32 w s n =
     (if \<not> ASSERT_LENGTH s 4 then None
      else Some (w\<lparr>mem := int4store (mem w) (Ptr s + unat (str_length s)) (ucast n)\<rparr>,
                 s\<lparr>str_length := str_length s + 4\<rparr>))"

definition q_append_double :: "'h world \<Rightarrow> binary_string \<Rightarrow> uchar list \<Rightarrow> ('h world \<times> binary_string) option" where
  "q_append_double w s d =
     (if \<not> ASSERT_LENGTH s 8 then None
      else Some (w\<lparr>mem := float8store (mem w) (Ptr s + unat (str_length s)) d\<rparr>,
                 s\<lparr>str_length := str_length s + 8\<rparr>))"

definition q_append :: "'h world \<Rightarrow> binary_string \<Rightarrow> nat \<Rightarrow> size_t \<Rightarrow> ('h world \<times> binary_string) option" where
  "q_append w s data data_len =
     (if \<not> ASSERT_LENGTH s data_len then None
      else let w = (if data_len \<noteq> 0 then memcpy w (Ptr s + unat (str_length s)) data (unat data_len) else w)
           in if \<not> ucast (str_length s) \<le> UINT_MAX32 - data_len then None
              else Some (w, s\<lparr>str_length := str_length s + ucast data_len\<rparr>))"

text \<open>The assertion on a \<^verbatim>\<open>LEX_CSTRING\<close>.\<close>

definition lex_ok :: "'h world \<Rightarrow> lex_cstring \<Rightarrow> bool" where
  "lex_ok w ls \<longleftrightarrow> lex_length ls < UINT_MAX32 \<and>
     ((lex_length ls = 0 \<and> str ls = 0) \<or> strlen_is (mem w) (str ls) (unat (lex_length ls)))"

definition q_append_lex :: "'h world \<Rightarrow> binary_string \<Rightarrow> lex_cstring \<Rightarrow> ('h world \<times> binary_string) option" where
  "q_append_lex w s ls =
     (if \<not> lex_ok w ls then None else q_append w s (str ls) (ucast (ucast (lex_length ls) :: uint32)))"

definition write_at_position :: "'h world \<Rightarrow> binary_string \<Rightarrow> uint32 \<Rightarrow> uint32 \<Rightarrow> 'h world option" where
  "write_at_position w s position value =
     (if \<not> str_length s \<ge> position + 4 then None
      else Some (w\<lparr>mem := int4store (mem w) (Ptr s + unat position) (ucast value)\<rparr>))"

definition q_append_wc :: "charset_info \<Rightarrow> 'h world \<Rightarrow> binary_string \<Rightarrow> nat \<Rightarrow> int \<times> 'h world \<times> binary_string" where
  "q_append_wc cs w s wc =
     (case wc_mb cs wc of (mblen, bs) \<Rightarrow>
        let w = w\<lparr>mem := copy_in (mem w) (end_ptr s) bs\<rparr>
        in (mblen, w, if mblen > 0 then s\<lparr>str_length := str_length s + word_of_int mblen\<rparr> else s))"

definition set_thread_specific :: "binary_string \<Rightarrow> binary_string" where
  "set_thread_specific s = (if \<not> alloced s then s\<lparr>thread_specific := True\<rparr> else s)"

definition set_extra_allocation :: "binary_string \<Rightarrow> size_t \<Rightarrow> binary_string" where
  "set_extra_allocation s len = s\<lparr>extra_alloc := ucast len\<rparr>"

definition mark_as_const :: "binary_string \<Rightarrow> binary_string" where
  "mark_as_const s = s\<lparr>Alloced_length := 0\<rparr>"

definition uses_buffer_owned_by :: "binary_string \<Rightarrow> binary_string \<Rightarrow> bool" where
  "uses_buffer_owned_by this s \<longleftrightarrow>
     alloced s \<and> Ptr this \<ge> Ptr s \<and> Ptr this < Ptr s + unat (Alloced_length s)"

definition swap :: "binary_string \<Rightarrow> binary_string \<Rightarrow> binary_string \<times> binary_string" where
  "swap this s =
     (this\<lparr>Ptr := Ptr s, str_length := str_length s, Alloced_length := Alloced_length s, alloced := alloced s\<rparr>,
      s\<lparr>Ptr := Ptr this, str_length := str_length this, Alloced_length := Alloced_length this,
        alloced := alloced this\<rparr>)"

definition set_alloced ::
  "'h string_lib \<Rightarrow> 'h world \<Rightarrow> binary_string \<Rightarrow> nat \<Rightarrow> size_t \<Rightarrow> size_t \<Rightarrow> ('h world \<times> binary_string) option" where
  "set_alloced lib w s p len alloced_len =
     (let (w, s) = free_buffer lib w s;
          s = s\<lparr>Ptr := p, str_length := ucast len\<rparr>
      in if \<not> alloced_len < UINT_MAX32 then None
         else Some (w, s\<lparr>Alloced_length := ucast alloced_len\<rparr>))"

definition set_buffer ::
  "'h string_lib \<Rightarrow> 'h world \<Rightarrow> binary_string \<Rightarrow> nat \<Rightarrow> size_t \<Rightarrow> ('h world \<times> binary_string) option" where
  "set_buffer lib w s p arg_length = set_alloced lib w s p arg_length arg_length"

definition set_const ::
  "'h string_lib \<Rightarrow> 'h world \<Rightarrow> binary_string \<Rightarrow> nat \<Rightarrow> size_t \<Rightarrow> 'h world \<times> binary_string" where
  "set_const lib w s p len =
     (let (w, s) = free_buffer lib w s
      in (w, s\<lparr>Ptr := p, str_length := ucast len, Alloced_length := 0\<rparr>))"

definition set_substring ::
  "'h string_lib \<Rightarrow> 'h world \<Rightarrow> binary_string \<Rightarrow> binary_string \<Rightarrow> size_t \<Rightarrow> size_t \<Rightarrow> 'h world \<times> binary_string" where
  "set_substring lib w s other offset len =
     (let (w, s) = free_buffer lib w s;
          s = s\<lparr>Ptr := Ptr other + unat offset, str_length := ucast len, Alloced_length := 0\<rparr>
      in (w, if Alloced_length other \<noteq> 0
             then s\<lparr>Alloced_length := ucast (ucast (Alloced_length other) - offset)\<rparr> else s))"

definition to_lex_cstring :: "binary_string \<Rightarrow> lex_cstring" where
  "to_lex_cstring s = \<lparr>str = Ptr s, lex_length = ucast (str_length s)\<rparr>"

definition reset ::
  "'h string_lib \<Rightarrow> 'h world \<Rightarrow> binary_string \<Rightarrow> nat \<Rightarrow> size_t \<Rightarrow> size_t \<Rightarrow> ('h world \<times> binary_string) option" where
  "reset lib w s ptr_arg length_arg alloced_length_arg = do {
     (w, s) \<leftarrow> set_alloced lib w s ptr_arg length_arg alloced_length_arg;
     Some (w, s\<lparr>alloced := ptr_arg \<noteq> 0\<rparr>)
   }"

definition release :: "binary_string \<Rightarrow> nat \<times> binary_string" where
  "release s = (Ptr s, init_private_data)"

definition set_buffer_if_not_allocated :: "binary_string \<Rightarrow> nat \<Rightarrow> size_t \<Rightarrow> binary_string" where
  "set_buffer_if_not_allocated s p arg_length =
     (if \<not> alloced s
      then s\<lparr>Ptr := p, str_length := ucast arg_length, Alloced_length := ucast arg_length\<rparr> else s)"

definition assign ::
  "'h string_lib \<Rightarrow> 'h world \<Rightarrow> binary_string \<Rightarrow> binary_string \<Rightarrow> ('h world \<times> binary_string) option" where
  "assign lib w this s =
     (if uses_buffer_owned_by s this then None
      else set_alloced lib w this (Ptr s) (ucast (str_length s)) (ucast (Alloced_length s)))"

definition move ::
  "'h string_lib \<Rightarrow> 'h world \<Rightarrow> binary_string \<Rightarrow> binary_string \<Rightarrow> ('h world \<times> binary_string \<times> binary_string) option" where
  "move lib w this s = do {
     (w, this) \<leftarrow> set_alloced lib w this (Ptr s) (ucast (str_length s)) (ucast (Alloced_length s));
     Some (w, this\<lparr>extra_alloc := extra_alloc s, alloced := alloced s, thread_specific := thread_specific s\<rparr>,
           s\<lparr>alloced := False\<rparr>)
   }"

definition free :: "'h string_lib \<Rightarrow> 'h world \<Rightarrow> binary_string \<Rightarrow> 'h world \<times> binary_string" where
  "free lib w s =
     (let (w, s) = free_buffer lib w s
      in (w, s\<lparr>Ptr := 0, str_length := 0, Alloced_length := 0, extra_alloc := 0\<rparr>))"

definition alloc :: "'h string_lib \<Rightarrow> 'h world \<Rightarrow> binary_string \<Rightarrow> size_t \<Rightarrow> bool \<times> 'h world \<times> binary_string" where
  "alloc lib w s arg_length =
     (if arg_length \<le> ucast (Alloced_length s) \<and> Alloced_length s \<noteq> 0 then (False, w, s)
      else real_alloc lib w s arg_length)"

definition realloc :: "'h string_lib \<Rightarrow> 'h world \<Rightarrow> binary_string \<Rightarrow> size_t \<Rightarrow> bool \<times> 'h world \<times> binary_string" where
  "realloc lib w s arg_length =
     (case realloc_raw lib w s (arg_length + 1) of (failed, w, s) \<Rightarrow>
        if failed then (True, w, s) else (False, poke w (Ptr s + unat arg_length) 0, s))"

definition realloc_with_extra ::
  "'h string_lib \<Rightarrow> 'h world \<Rightarrow> binary_string \<Rightarrow> size_t \<Rightarrow> bool \<times> 'h world \<times> binary_string" where
  "realloc_with_extra lib w s arg_length =
     (let s = (if extra_alloc s < 4096 then s\<lparr>extra_alloc := extra_alloc s * 2 + 128\<rparr> else s)
      in case realloc_raw lib w s (arg_length + ucast (extra_alloc s)) of (failed, w, s) \<Rightarrow>
           if failed then (True, w, s) else (False, poke w (Ptr s + unat arg_length) 0, s))"

definition realloc_with_extra_if_needed ::
  "'h string_lib \<Rightarrow> 'h world \<Rightarrow> binary_string \<Rightarrow> size_t \<Rightarrow> bool \<times> 'h world \<times> binary_string" where
  "realloc_with_extra_if_needed lib w s arg_length =
     (if arg_length < ucast (Alloced_length s)
      then (False, poke w (Ptr s + unat arg_length) 0, s)
      else realloc_with_extra lib w s arg_length)"

definition append :: "'h string_lib \<Rightarrow> 'h world \<Rightarrow> binary_string \<Rightarrow> nat \<Rightarrow> size_t \<Rightarrow> 'h outcome" where
  "append lib w s p n =
     (if n = 0 then Some (False, w, s)
      else case realloc_with_extra_if_needed lib w s (ucast (str_length s) + n) of (failed, w, s) \<Rightarrow>
        if failed then Some (True, w, s)
        else do { (w, s) \<leftarrow> q_append w s p n; Some (False, w, s) })"

definition append_lex :: "'h string_lib \<Rightarrow> 'h world \<Rightarrow> binary_string \<Rightarrow> lex_cstring \<Rightarrow> 'h outcome" where
  "append_lex lib w s ls = append lib w s (str ls) (lex_length ls)"

definition append_string :: "'h string_lib \<Rightarrow> 'h world \<Rightarrow> binary_string \<Rightarrow> binary_string \<Rightarrow> 'h outcome" where
  "append_string lib w s other = append lib w s (Ptr other) (ucast (str_length other))"

definition append_char :: "'h string_lib \<Rightarrow> 'h world \<Rightarrow> binary_string \<Rightarrow> uchar \<Rightarrow> 'h outcome" where
  "append_char lib w s chr =
     (if str_length s < Alloced_length s
      then Some (False, poke w (Ptr s + unat (str_length s)) chr, s\<lparr>str_length := str_length s + 1\<rparr>)
      else case realloc_with_extra lib w s (ucast (str_length s + 1)) of (failed, w, s) \<Rightarrow>
        if failed then Some (True, w, s)
        else Some (False, poke w (Ptr s + unat (str_length s)) chr, s\<lparr>str_length := str_length s + 1\<rparr>))"

text \<open>The short-circuit disjunction of two calls that report failure.\<close>

definition or_else ::
  "('h world \<Rightarrow> 's \<Rightarrow> (bool \<times> 'h world \<times> 's) option) \<Rightarrow>
   ('h world \<Rightarrow> 's \<Rightarrow> (bool \<times> 'h world \<times> 's) option) \<Rightarrow>
   'h world \<Rightarrow> 's \<Rightarrow> (bool \<times> 'h world \<times> 's) option" where
  "or_else f g w s = do {
     (failed, w, s) \<leftarrow> f w s;
     if failed then Some (True, w, s) else g w s
   }"

fun append_hex :: "'h string_lib \<Rightarrow> 'h world \<Rightarrow> binary_string \<Rightarrow> nat \<Rightarrow> nat \<Rightarrow> 'h outcome" where
  "append_hex lib w s src 0 = Some (False, w, s)"
| "append_hex lib w s src (Suc n) = do {
     (failed, w', s') \<leftarrow> or_else
        (\<lambda>w s. append_char lib w s (dig_vec_lower lib (drop_bit 4 (mem w src))))
        (\<lambda>w s. append_char lib w s (dig_vec_lower lib (mem w src AND 0x0F))) w s;
     if failed then Some (True, w', s') else append_hex lib w' s' (src + 1) n
   }"

definition append_with_step ::
  "'h string_lib \<Rightarrow> 'h world \<Rightarrow> binary_string \<Rightarrow> nat \<Rightarrow> uint32 \<Rightarrow> uint32 \<Rightarrow> 'h outcome" where
  "append_with_step lib w s p arg_length step_alloc =
     (let new_length = arg_length + str_length s;
          (failed, w, s) = (if new_length > Alloced_length s
                            then realloc lib w s (ucast (new_length + step_alloc)) else (False, w, s))
      in if failed then Some (True, w, s)
         else do { (w, s) \<leftarrow> q_append w s p (ucast arg_length); Some (False, w, s) })"

definition c_ptr :: "'h string_lib \<Rightarrow> nat \<Rightarrow> 'h world \<Rightarrow> binary_string \<Rightarrow> nat \<times> 'h world \<times> binary_string" where
  "c_ptr lib empty_literal w s =
     (if Ptr s = 0 then (empty_literal, w, s)
      else if \<not> alloced s \<and> mem w (Ptr s + unat (str_length s)) = 0 then (Ptr s, w, s)
      else if str_length s < Alloced_length s
      then (Ptr s, poke w (Ptr s + unat (str_length s)) 0, s)
      else case realloc lib w s (ucast (str_length s)) of (failed, w, s) \<Rightarrow> (Ptr s, w, s))"

definition c_ptr_safe :: "'h string_lib \<Rightarrow> 'h world \<Rightarrow> binary_string \<Rightarrow> nat \<times> 'h world \<times> binary_string" where
  "c_ptr_safe lib w s =
     (if Ptr s \<noteq> 0 \<and> str_length s < Alloced_length s
      then (Ptr s, poke w (Ptr s + unat (str_length s)) 0, s)
      else case realloc lib w s (ucast (str_length s)) of (failed, w, s) \<Rightarrow> (Ptr s, w, s))"

definition c_ptr_quick :: "'h string_lib \<Rightarrow> 'h world \<Rightarrow> binary_string \<Rightarrow> nat \<times> 'h world \<times> binary_string" where
  "c_ptr_quick lib w s = c_ptr_safe lib w s"

definition reserve :: "'h string_lib \<Rightarrow> 'h world \<Rightarrow> binary_string \<Rightarrow> size_t \<Rightarrow> 'h outcome" where
  "reserve lib w s space_needed =
     (if \<not> ucast (str_length s) + space_needed < UINT_MAX32 then None
      else Some (realloc lib w s (ucast (str_length s) + space_needed)))"

definition prep_append ::
  "'h string_lib \<Rightarrow> 'h world \<Rightarrow> binary_string \<Rightarrow> uint32 \<Rightarrow> uint32 \<Rightarrow> nat \<times> 'h world \<times> binary_string" where
  "prep_append lib w s arg_length step_alloc =
     (let new_length = arg_length + str_length s;
          (failed, w, s) = (if new_length > Alloced_length s
                            then realloc lib w s (ucast (new_length + step_alloc)) else (False, w, s))
      in if failed then (0, w, s)
         else let old_length = str_length s
              in (Ptr s + unat old_length, w, s\<lparr>str_length := str_length s + arg_length\<rparr>))"

definition q_net_store_length ::
  "'h string_lib \<Rightarrow> 'h world \<Rightarrow> binary_string \<Rightarrow> ulonglong \<Rightarrow> ('h world \<times> binary_string) option" where
  "q_net_store_length lib w s len =
     (if \<not> Alloced_length s \<ge> str_length s + net_length_size lib len then None
      else let bs = net_store_length lib len
           in Some (w\<lparr>mem := copy_in (mem w) (Ptr s + unat (str_length s)) bs\<rparr>,
                    s\<lparr>str_length := word_of_nat (Ptr s + unat (str_length s) + length bs - Ptr s)\<rparr>))"

definition q_net_store_data ::
  "'h string_lib \<Rightarrow> 'h world \<Rightarrow> binary_string \<Rightarrow> nat \<Rightarrow> size_t \<Rightarrow> ('h world \<times> binary_string) option" where
  "q_net_store_data lib w s from len =
     (if \<not> len < UINT_MAX32 then None
      else if \<not> ucast (Alloced_length s) \<ge> ucast (str_length s) + len + ucast (net_length_size lib len) then None
      else do {
        (w, s) \<leftarrow> q_net_store_length lib w s len;
        q_append w s from (ucast (ucast len :: uint32))
      })"

section \<open>Strings with a character set\<close>

record sql_string =
  bstr :: binary_string
  m_charset :: nat

type_synonym 'h sql_outcome = "(bool \<times> 'h world \<times> sql_string) option"

definition lift_string :: "('h world \<Rightarrow> binary_string \<Rightarrow> 'h outcome) \<Rightarrow> 'h world \<Rightarrow> sql_string \<Rightarrow> 'h sql_outcome" where
  "lift_string f w s = map_option (\<lambda>(failed, w, b). (failed, w, s\<lparr>bstr := b\<rparr>)) (f w (bstr s))"

definition string_append_char :: "'h string_lib \<Rightarrow> uchar \<Rightarrow> 'h world \<Rightarrow> sql_string \<Rightarrow> 'h sql_outcome" where
  "string_append_char lib chr = lift_string (\<lambda>w s. append_char lib w s chr)"

text \<open>
  \<^verbatim>\<open>append(const LEX_CSTRING *)\<close> calls the overload with conversion, the parameter \<open>app\<close>.
\<close>

definition string_append_lex ::
  "('h world \<Rightarrow> sql_string \<Rightarrow> nat \<Rightarrow> size_t \<Rightarrow> 'h sql_outcome) \<Rightarrow> lex_cstring \<Rightarrow> 'h world \<Rightarrow> sql_string \<Rightarrow>
   'h sql_outcome" where
  "string_append_lex app ls w s =
     (if \<not> lex_ok w ls then None else app w s (str ls) (ucast (ucast (lex_length ls) :: uint32)))"

definition append_name_value ::
  "'h string_lib \<Rightarrow> ('h world \<Rightarrow> sql_string \<Rightarrow> nat \<Rightarrow> size_t \<Rightarrow> 'h sql_outcome) \<Rightarrow> lex_cstring \<Rightarrow> lex_cstring \<Rightarrow>
   uchar \<Rightarrow> 'h world \<Rightarrow> sql_string \<Rightarrow> 'h sql_outcome" where
  "append_name_value lib app name value quot =
     or_else (string_append_lex app name)
    (or_else (string_append_char lib 61)
    (or_else (\<lambda>w s. if quot \<noteq> 0 then string_append_char lib quot w s else Some (False, w, s))
    (or_else (string_append_lex app value)
             (\<lambda>w s. if quot \<noteq> 0 then string_append_char lib quot w s else Some (False, w, s)))))"

definition append_introducer_and_hex ::
  "'h string_lib \<Rightarrow> charset_table \<Rightarrow> ('h world \<Rightarrow> sql_string \<Rightarrow> nat \<Rightarrow> size_t \<Rightarrow> 'h sql_outcome) \<Rightarrow> nat \<Rightarrow>
   sql_string \<Rightarrow> 'h world \<Rightarrow> sql_string \<Rightarrow> 'h sql_outcome" where
  "append_introducer_and_hex lib cst app hex_literal other =
     or_else (string_append_char lib 95)
    (or_else (string_append_lex app \<lparr>str = cs_name_str (info cst (m_charset other)),
                lex_length = cs_name_length (info cst (m_charset other))\<rparr>)
    (or_else (\<lambda>w s. app w s hex_literal 3)
             (lift_string (\<lambda>w s. append_hex lib w s (Ptr (bstr other)) (unat (str_length (bstr other)))))))"

definition append_wc ::
  "'h string_lib \<Rightarrow> charset_table \<Rightarrow> nat \<Rightarrow> 'h world \<Rightarrow> sql_string \<Rightarrow> 'h sql_outcome" where
  "append_wc lib cst wc w s =
     (let cs = info cst (m_charset s)
      in do {
        (failed, w, b) \<leftarrow> reserve lib w (bstr s) (ucast (mbmaxlen cs));
        if failed then Some (True, w, s\<lparr>bstr := b\<rparr>)
        else case q_append_wc cs w b wc of (mblen, w, b) \<Rightarrow>
          if mblen > 0 then Some (False, w, s\<lparr>bstr := b\<rparr>)
          else if mblen = 0 \<and> wc \<noteq> 63
          then (case q_append_wc cs w b 63 of (mblen, w, b) \<Rightarrow> Some (mblen \<le> 0, w, s\<lparr>bstr := b\<rparr>))
          else Some (True, w, s\<lparr>bstr := b\<rparr>)
      })"

text \<open>The loop of \<^verbatim>\<open>append_flag32_names\<close>: \<open>n\<close> bits are left, the next one is \<open>n - 1\<close>.\<close>

fun flag_names_loop ::
  "'h string_lib \<Rightarrow> ('h world \<Rightarrow> sql_string \<Rightarrow> nat \<Rightarrow> size_t \<Rightarrow> 'h sql_outcome) \<Rightarrow> uint32 \<Rightarrow> lex_cstring list \<Rightarrow>
   nat \<Rightarrow> bool \<Rightarrow> 'h world \<Rightarrow> sql_string \<Rightarrow> 'h sql_outcome" where
  "flag_names_loop lib app flags names 0 added w s = Some (False, w, s)"
| "flag_names_loop lib app flags names (Suc b) added w s =
     (if flags AND push_bit b 1 \<noteq> 0
      then or_else (\<lambda>w s. if added then string_append_char lib 124 w s else Some (False, w, s))
          (or_else (if b < length names then string_append_lex app (names ! b) else string_append_char lib 63)
                   (flag_names_loop lib app flags names b True)) w s
      else flag_names_loop lib app flags names b added w s)"

definition append_flag32_names ::
  "'h string_lib \<Rightarrow> ('h world \<Rightarrow> sql_string \<Rightarrow> nat \<Rightarrow> size_t \<Rightarrow> 'h sql_outcome) \<Rightarrow> uint32 \<Rightarrow> lex_cstring list \<Rightarrow>
   'h world \<Rightarrow> sql_string \<Rightarrow> 'h sql_outcome" where
  "append_flag32_names lib app flags names =
     or_else (\<lambda>w s. if flags \<noteq> 0 then string_append_char lib 40 w s else Some (False, w, s))
    (or_else (flag_names_loop lib app flags names 32 False)
             (\<lambda>w s. if flags \<noteq> 0 then string_append_char lib 41 w s else Some (False, w, s)))"

definition escaped_wc_for_single_quote :: "nat \<Rightarrow> nat" where
  "escaped_wc_for_single_quote ch =
     (if ch = 92 then 92 else if ch = 0 then 48 else if ch = 39 then 39 else if ch = 10 then 110
      else if ch = 13 then 114 else if ch = 26 then 90 else 0)"

definition is_ascii :: "charset_table \<Rightarrow> 'h world \<Rightarrow> sql_string \<Rightarrow> bool" where
  "is_ascii cst w s \<longleftrightarrow>
     (if str_length (bstr s) = 0 then True
      else if mbminlen (info cst (m_charset s)) > 1 then False
      else \<not> has_8bit_bytes w (bstr s))"

definition string_swap :: "sql_string \<Rightarrow> sql_string \<Rightarrow> sql_string \<times> sql_string" where
  "string_swap this s =
     (case swap (bstr this) (bstr s) of (a, b) \<Rightarrow>
        (this\<lparr>bstr := a, m_charset := m_charset s\<rparr>, s\<lparr>bstr := b, m_charset := m_charset this\<rparr>))"

definition StringBuffer :: "nat \<Rightarrow> size_t \<Rightarrow> nat \<Rightarrow> sql_string" where
  "StringBuffer buff buff_sz cs =
     \<lparr>bstr = set_length (Binary_string_buffer buff buff_sz) 0, m_charset = cs\<rparr>"

definition StringBuffer_set_buffer_if_not_allocated :: "nat \<Rightarrow> size_t \<Rightarrow> sql_string \<Rightarrow> nat \<Rightarrow> sql_string" where
  "StringBuffer_set_buffer_if_not_allocated buff buff_sz s cs =
     (let b = bstr s;
          b = (if \<not> alloced b then b\<lparr>Ptr := buff, Alloced_length := ucast buff_sz\<rparr> else b)
      in s\<lparr>bstr := b\<lparr>str_length := 0\<rparr>, m_charset := cs\<rparr>)"

section \<open>What the allocator promises\<close>

text \<open>
  \<open>live\<close> is the set of addresses in use; \<open>frame\<close> says that an operation keeps every address in use
  outside the buffer of its object, and does not place the new buffer on it.
\<close>

definition area :: "binary_string \<Rightarrow> nat set" where
  "area s = {Ptr s..<Ptr s + unat (Alloced_length s)}"

definition content :: "'h world \<Rightarrow> binary_string \<Rightarrow> uchar list" where
  "content w s = copy_out (mem w) (Ptr s) (unat (str_length s))"

definition frame :: "('h \<Rightarrow> nat set) \<Rightarrow> 'h world \<Rightarrow> binary_string \<Rightarrow> 'h world \<Rightarrow> binary_string \<Rightarrow> bool" where
  "frame live w s w' s' \<longleftrightarrow>
     (\<forall>A. A \<subseteq> live (heap w) \<and> A \<inter> area s = {} \<longrightarrow>
        A \<subseteq> live (heap w') \<and> A \<inter> area s' = {} \<and> (\<forall>q\<in>A. mem w' q = mem w q))"

definition string_laws :: "'h string_lib \<Rightarrow> ('h \<Rightarrow> nat set) \<Rightarrow> bool" where
  "string_laws lib live \<longleftrightarrow>
     (\<forall>w s n failed w' s'. realloc_raw lib w s n = (failed, w', s') \<and> area s \<subseteq> live (heap w) \<and>
        unat (str_length s) \<le> unat n \<longrightarrow>
        (if failed then w' = w \<and> s' = s
         else unat n \<le> unat (Alloced_length s') \<and> Ptr s' \<noteq> 0 \<and> str_length s' = str_length s \<and>
           extra_alloc s' = extra_alloc s \<and> content w' s' = content w s \<and>
           area s' \<subseteq> live (heap w') \<and> frame live w s w' s'))"

text \<open>A string is well-formed when it fits its buffer, or its buffer may not be written to.\<close>

definition str_wf :: "('h \<Rightarrow> nat set) \<Rightarrow> 'h world \<Rightarrow> binary_string \<Rightarrow> bool" where
  "str_wf live w s \<longleftrightarrow> (Alloced_length s = 0 \<or> Ptr s \<noteq> 0 \<and> str_length s \<le> Alloced_length s) \<and> area s \<subseteq> live (heap w)"

definition avail :: "('h \<Rightarrow> nat set) \<Rightarrow> 'h world \<Rightarrow> binary_string \<Rightarrow> nat \<Rightarrow> uchar list \<Rightarrow> bool" where
  "avail live w s p bs \<longleftrightarrow> copy_out (mem w) p (length bs) = bs \<and>
     {p..<p + length bs} \<subseteq> live (heap w) \<and> {p..<p + length bs} \<inter> area s = {}"

definition ready :: "('h \<Rightarrow> nat set) \<Rightarrow> 'h world \<Rightarrow> binary_string \<Rightarrow> nat \<Rightarrow> bool" where
  "ready live w s n \<longleftrightarrow> str_wf live w s \<and> unat (str_length s) + n < 2 ^ 32"

definition appended ::
  "('h \<Rightarrow> nat set) \<Rightarrow> uchar list \<Rightarrow> 'h world \<Rightarrow> binary_string \<Rightarrow> bool \<times> 'h world \<times> binary_string \<Rightarrow> bool" where
  "appended live bs w s r \<longleftrightarrow>
     (case r of (failed, w', s') \<Rightarrow> str_wf live w' s' \<and> frame live w s w' s' \<and>
        (\<exists>zs. prefix zs bs \<and> content w' s' = content w s @ zs \<and> (\<not> failed \<longrightarrow> zs = bs)))"

section \<open>Memory\<close>

lemma size_t_of_uint32 [simp]: "unat (ucast (n :: uint32) :: size_t) = unat n"
  by (rule unat_ucast_less) (rule less_trans [OF unat_lt_pow [of 32]], simp_all)

lemma uint32_of_size_t: "unat n < 2 ^ 32 \<Longrightarrow> unat (ucast (n :: size_t) :: uint32) = unat n"
  by (rule unat_ucast_less) simp

lemma area_updates [simp]:
  "area (s\<lparr>str_length := n\<rparr>) = area s" "area (s\<lparr>extra_alloc := e\<rparr>) = area s"
  "area (s\<lparr>alloced := a\<rparr>) = area s"
  by (simp_all add: area_def)

lemma poke_members [simp]: "heap (poke w p c) = heap w" "mem (poke w p c) = (mem w)(p := c)"
  by (simp_all add: poke_def)

lemma length_content [simp]: "length (content w s) = unat (str_length s)"
  by (simp add: content_def copy_out_def)

lemma content_extra [simp]: "content w (s\<lparr>extra_alloc := e\<rparr>) = content w s"
  by (simp add: content_def)

lemma frame_refl: "area s' = area s \<Longrightarrow> frame live w s w s'"
  by (simp add: frame_def)

lemma frame_trans: "frame live w s w' s' \<Longrightarrow> frame live w' s' w'' s'' \<Longrightarrow> frame live w s w'' s''"
  unfolding frame_def by (metis (no_types, lifting))

lemma frame_start: "area t = area s \<Longrightarrow> frame live w t w' s' = frame live w s w' s'"
  by (simp add: frame_def)

lemma frame_write:
  assumes "\<And>q. q \<notin> area s \<Longrightarrow> m q = mem w q" and "area s' = area s"
  shows "frame live w s (w\<lparr>mem := m\<rparr>) s'"
  using assms by (auto simp: frame_def)

lemma frame_poke: "p \<in> area s \<Longrightarrow> area s' = area s \<Longrightarrow> frame live w s (poke w p c) s'"
  unfolding poke_def by (rule frame_write) auto

lemma content_poke: "Ptr s + unat (str_length s) \<le> p \<Longrightarrow> content (poke w p c) s = content w s"
  by (auto simp: content_def copy_out_def)

lemma copy_out_copy_in: "copy_out (copy_in m p bs) p (length bs) = bs"
  by (rule nth_equalityI) (simp_all add: copy_out_def copy_in_def)

lemma copy_out_append: "copy_out m p (k + n) = copy_out m p k @ copy_out m (p + k) n"
  by (rule nth_equalityI) (auto simp: copy_out_def nth_append ac_simps)

lemma copy_out_cong: "(\<And>q. p \<le> q \<Longrightarrow> q < p + n \<Longrightarrow> m q = m' q) \<Longrightarrow> copy_out m p n = copy_out m' p n"
  by (simp add: copy_out_def)

lemma content_write:
  assumes "unat (str_length s) + length bs < 2 ^ 32"
  shows "content (w\<lparr>mem := copy_in (mem w) (Ptr s + unat (str_length s)) bs\<rparr>)
      (s\<lparr>str_length := str_length s + of_nat (length bs)\<rparr>) = content w s @ bs"
proof -
  have l: "unat (str_length s + of_nat (length bs)) = unat (str_length s) + length bs"
    using assms by (simp add: unat_word_ariths unat_of_nat)
  have "copy_out (copy_in (mem w) (Ptr s + unat (str_length s)) bs) (Ptr s) (unat (str_length s)) = content w s"
    unfolding content_def by (rule copy_out_cong) (simp add: copy_in_def)
  then show ?thesis
    by (simp add: content_def l copy_out_append copy_out_copy_in)
qed

lemma avail_frame: "avail live w s p bs \<Longrightarrow> frame live w s w' s' \<Longrightarrow> avail live w' s' p bs"
proof -
  assume a: "avail live w s p bs" and f: "frame live w s w' s'"
  let ?A = "{p..<p + length bs}"
  have "?A \<subseteq> live (heap w') \<and> ?A \<inter> area s' = {} \<and> (\<forall>q\<in>?A. mem w' q = mem w q)"
    using a f unfolding avail_def frame_def by blast
  moreover from this have "copy_out (mem w') p (length bs) = copy_out (mem w) p (length bs)"
    by (intro copy_out_cong) auto
  ultimately show ?thesis using a by (simp add: avail_def)
qed

section \<open>Growing the buffer\<close>

text \<open>The result of a call that makes room for \<open>n\<close> bytes.\<close>

definition grown ::
  "('h \<Rightarrow> nat set) \<Rightarrow> nat \<Rightarrow> 'h world \<Rightarrow> binary_string \<Rightarrow> bool \<times> 'h world \<times> binary_string \<Rightarrow> bool" where
  "grown live n w s r \<longleftrightarrow>
     (case r of (failed, w', s') \<Rightarrow> str_wf live w' s' \<and> frame live w s w' s' \<and>
        content w' s' = content w s \<and> str_length s' = str_length s \<and>
        (\<not> failed \<longrightarrow> n \<le> unat (Alloced_length s')))"

lemma realloc_raw_grown:
  assumes "string_laws lib live" and "str_wf live w s" and "unat (str_length s) \<le> unat n"
  shows "grown live (unat n) w s (realloc_raw lib w s n)"
proof -
  obtain failed w' s' where r: "realloc_raw lib w s n = (failed, w', s')" by (metis prod_cases3)
  have "if failed then w' = w \<and> s' = s
     else unat n \<le> unat (Alloced_length s') \<and> Ptr s' \<noteq> 0 \<and> str_length s' = str_length s \<and>
       extra_alloc s' = extra_alloc s \<and> content w' s' = content w s \<and>
       area s' \<subseteq> live (heap w') \<and> frame live w s w' s'"
    using assms r unfolding string_laws_def str_wf_def by blast
  then show ?thesis
    using assms(2,3) unfolding r grown_def
    by (cases failed) (auto simp: frame_refl str_wf_def word_le_nat_alt)
qed

lemma grown_poke:
  assumes "grown live n w s (False, w', s')" and "unat (str_length s) \<le> k" and "k < n"
  shows "grown live n w s (False, poke w' (Ptr s' + k) c, s')"
  using assms frame_trans [OF _ frame_poke, of live w s w' s' "Ptr s' + k" s']
  by (auto simp: grown_def str_wf_def content_poke area_def)

lemma realloc_grown:
  assumes "string_laws lib live" and "str_wf live w s" and "unat (str_length s) \<le> unat n"
    and "unat n + 1 < 2 ^ 64"
  shows "grown live (unat n + 1) w s (realloc lib w s n)"
proof -
  have n: "unat (n + 1) = unat n + 1" using assms(4) by (simp add: unat_word_ariths)
  obtain failed w' s' where r: "realloc_raw lib w s (n + 1) = (failed, w', s')" by (metis prod_cases3)
  then have "grown live (unat n + 1) w s (failed, w', s')"
    using realloc_raw_grown [OF assms(1,2), of "n + 1"] assms(3) n by simp
  then show ?thesis
    using grown_poke [of live "unat n + 1" w s w' s' "unat n" 0] assms(3)
    by (cases failed) (simp_all add: realloc_def r)
qed

lemma realloc_with_extra_grown:
  assumes "string_laws lib live" and "str_wf live w s" and "unat (str_length s) \<le> unat n"
    and "unat n < 2 ^ 63"
  shows "grown live (unat n + 1) w s (realloc_with_extra lib w s n)"
proof -
  define t where "t = (if extra_alloc s < 4096 then s\<lparr>extra_alloc := extra_alloc s * 2 + 128\<rparr> else s)"
  have t: "str_length t = str_length s" "area t = area s" "content w t = content w s"
      "Alloced_length t = Alloced_length s" "Ptr t = Ptr s"
    by (simp_all add: t_def content_def)
  have e: "0 < unat (extra_alloc t)" "unat (extra_alloc t) < 2 ^ 32"
  proof -
    show "unat (extra_alloc t) < 2 ^ 32" by (rule unat_lt_pow) simp
    show "0 < unat (extra_alloc t)"
    proof (cases "extra_alloc s < 4096")
      case True
      then have "unat (extra_alloc s) < 4096" by (simp add: word_less_nat_alt)
      then show ?thesis using True by (simp add: t_def unat_word_ariths)
    next
      case False
      then show ?thesis by (simp add: t_def word_less_nat_alt)
    qed
  qed
  have n: "unat (n + ucast (extra_alloc t)) = unat n + unat (extra_alloc t)"
    using assms(4) e(2) by (simp add: unat_word_ariths)
  obtain failed w' s' where r: "realloc_raw lib w t (n + ucast (extra_alloc t)) = (failed, w', s')"
    by (metis prod_cases3)
  have "str_wf live w t" using assms(2) t by (simp add: str_wf_def)
  then have "grown live (unat n + unat (extra_alloc t)) w t (failed, w', s')"
    using realloc_raw_grown [OF assms(1), of w t "n + ucast (extra_alloc t)"] assms(3) n t(1) r by simp
  then have g: "grown live (unat n + 1) w s (failed, w', s')"
    using e(1) t(1,3) by (auto simp: grown_def frame_start [OF t(2)])
  then show ?thesis
    using grown_poke [of live "unat n + 1" w s w' s' "unat n" 0] assms(3)
    by (cases failed) (simp_all add: realloc_with_extra_def r flip: t_def)
qed

lemma realloc_if_needed_grown:
  assumes "string_laws lib live" and "str_wf live w s" and "unat (str_length s) \<le> unat n"
    and "unat n < 2 ^ 63"
  shows "grown live (unat n + 1) w s (realloc_with_extra_if_needed lib w s n)"
proof (cases "n < ucast (Alloced_length s)")
  case True
  then have lt: "unat n < unat (Alloced_length s)" by (simp add: word_less_nat_alt)
  then have "grown live (unat n + 1) w s (False, w, s)"
    using assms(2) lt by (simp add: grown_def frame_refl)
  then show ?thesis
    using grown_poke [of live "unat n + 1" w s w s "unat n" 0] assms(3) True
    by (simp add: realloc_with_extra_if_needed_def)
next
  case False
  then show ?thesis
    using realloc_with_extra_grown [OF assms(1-4)] by (simp add: realloc_with_extra_if_needed_def)
qed

section \<open>Appending\<close>

lemma frame_content_write:
  assumes "str_wf live w s" and "unat (str_length s) + length bs \<le> unat (Alloced_length s)"
  shows "appended live bs w s
    (False, w\<lparr>mem := copy_in (mem w) (Ptr s + unat (str_length s)) bs\<rparr>,
     s\<lparr>str_length := str_length s + of_nat (length bs)\<rparr>)"
proof -
  have lt: "unat (str_length s) + length bs < 2 ^ 32"
    using assms(2) unat_lt_pow [of 32 "Alloced_length s"] by simp
  have l: "unat (str_length s + of_nat (length bs)) = unat (str_length s) + length bs"
    using lt by (simp add: unat_word_ariths unat_of_nat)
  have "frame live w s (w\<lparr>mem := copy_in (mem w) (Ptr s + unat (str_length s)) bs\<rparr>)
      (s\<lparr>str_length := str_length s + of_nat (length bs)\<rparr>)"
    using assms(2) by (intro frame_write) (auto simp: copy_in_def area_def)
  moreover have "Alloced_length s = 0 \<longrightarrow> bs = []" using assms(2) by auto
  ultimately show ?thesis
    using assms content_write [OF lt, of w] l by (auto simp: appended_def str_wf_def word_le_nat_alt)
qed

lemma appended_after_grown:
  assumes "grown live n w s (failed, w1, s1)" and "appended live bs w1 s1 r"
  shows "appended live bs w s r"
  using assms frame_trans [of live w s w1 s1] by (auto simp: appended_def grown_def)

lemma appended_failed: "grown live n w s (True, w', s') \<Longrightarrow> appended live bs w s (True, w', s')"
  by (auto simp: appended_def grown_def intro: exI [of _ "[]"])

lemma q_append_ok:
  assumes "str_wf live w s" and "unat (str_length s) + unat n \<le> unat (Alloced_length s)"
    and "avail live w s p bs" and "length bs = unat n"
  shows "\<exists>w' s'. q_append w s p n = Some (w', s') \<and> appended live bs w s (False, w', s')"
proof -
  have lt: "unat (str_length s) + unat n < 2 ^ 32"
    using assms(2) unat_lt_pow [of 32 "Alloced_length s"] by simp
  then have n: "(ucast n :: uint32) = of_nat (length bs)" "unat (ucast n :: uint32) = unat n"
    using assms(4) by (simp_all add: word_unat_eq_iff uint32_of_size_t unat_of_nat)
  have a: "ASSERT_LENGTH s n"
    using assms(2) lt n(2) by (simp add: ASSERT_LENGTH_def word_le_nat_alt unat_word_ariths)
  have m: "ucast (str_length s) \<le> UINT_MAX32 - n"
    using lt by (simp add: word_le_nat_alt unat_sub_if_size)
  have c: "copy_out (mem w) p (unat n) = bs" using assms(3,4) by (simp add: avail_def)
  have z: "w\<lparr>mem := copy_in (mem w) q bs\<rparr> = w" if "n = 0" for q
  proof -
    have "copy_in (mem w) q bs = mem w" using that assms(4) by (auto simp: copy_in_def fun_eq_iff)
    then show ?thesis by simp
  qed
  have "q_append w s p n = Some (w\<lparr>mem := copy_in (mem w) (Ptr s + unat (str_length s)) bs\<rparr>,
      s\<lparr>str_length := str_length s + of_nat (length bs)\<rparr>)"
    using a m c z by (auto simp: q_append_def memcpy_def n(1))
  then show ?thesis using frame_content_write [of live w s bs] assms by simp
qed

lemma string_append_ok:
  assumes "string_laws lib live" and "str_wf live w s" and "avail live w s p bs"
    and "length bs = unat n" and "unat n < 2 ^ 62"
  shows "\<exists>r. append lib w s p n = Some r \<and> appended live bs w s r"
proof (cases "n = 0")
  case True
  then show ?thesis
    using assms by (auto simp: append_def appended_def frame_refl)
next
  case False
  have lt: "unat (str_length s) < 2 ^ 32" by (rule unat_lt_pow) simp
  then have u: "unat (ucast (str_length s) + n) = unat (str_length s) + unat n"
    using assms(5) by (simp add: unat_word_ariths)
  obtain failed w1 s1 where r:
      "realloc_with_extra_if_needed lib w s (ucast (str_length s) + n) = (failed, w1, s1)"
    by (metis prod_cases3)
  then have g: "grown live (unat (str_length s) + unat n + 1) w s (failed, w1, s1)"
    using realloc_if_needed_grown [OF assms(1,2), of "ucast (str_length s) + n"] u assms(5) lt by simp
  show ?thesis
  proof (cases failed)
    case True
    then show ?thesis using appended_failed [of live _ w s w1 s1] g False r by (auto simp: append_def)
  next
    case nf: False
    have "str_wf live w1 s1" "avail live w1 s1 p bs"
        "unat (str_length s1) + unat n \<le> unat (Alloced_length s1)"
      using g nf assms(3) avail_frame by (auto simp: grown_def)
    then obtain w2 s2 where "q_append w1 s1 p n = Some (w2, s2)" "appended live bs w1 s1 (False, w2, s2)"
      using q_append_ok assms(4) by blast
    then show ?thesis using appended_after_grown [OF g] False nf r by (auto simp: append_def)
  qed
qed

lemma poke_appended:
  assumes "str_wf live w s" and "unat (str_length s) < unat (Alloced_length s)"
  shows "appended live [c] w s
    (False, poke w (Ptr s + unat (str_length s)) c, s\<lparr>str_length := str_length s + 1\<rparr>)"
proof -
  have "copy_in (mem w) q [c] = (mem w)(q := c)" for q by (auto simp: copy_in_def fun_eq_iff)
  then show ?thesis using frame_content_write [of live w s "[c]"] assms by (simp add: poke_def)
qed

lemma append_char_ok:
  assumes "string_laws lib live" and "ready live w s 1"
  shows "\<exists>r. append_char lib w s c = Some r \<and> appended live [c] w s r"
proof (cases "str_length s < Alloced_length s")
  case True
  then show ?thesis
    using poke_appended [of live w s c] assms by (simp add: append_char_def ready_def word_less_nat_alt)
next
  case False
  have u: "unat (ucast (str_length s + 1) :: size_t) = unat (str_length s) + 1"
    using assms(2) by (simp add: ready_def unat_word_ariths)
  obtain failed w1 s1 where r: "realloc_with_extra lib w s (ucast (str_length s + 1)) = (failed, w1, s1)"
    by (metis prod_cases3)
  then have g: "grown live (unat (str_length s) + 2) w s (failed, w1, s1)"
    using realloc_with_extra_grown [OF assms(1), of w s "ucast (str_length s + 1)"] u assms(2)
    by (simp add: ready_def)
  show ?thesis
  proof (cases failed)
    case True
    then show ?thesis using appended_failed [of live _ w s w1 s1] g False r by (auto simp: append_char_def)
  next
    case nf: False
    then have "appended live [c] w1 s1
        (False, poke w1 (Ptr s1 + unat (str_length s1)) c, s1\<lparr>str_length := str_length s1 + 1\<rparr>)"
      using g by (intro poke_appended) (auto simp: grown_def)
    then show ?thesis using appended_after_grown [OF g] False nf r by (auto simp: append_char_def)
  qed
qed

lemma append_with_step_ok:
  assumes "string_laws lib live" and "str_wf live w s" and "avail live w s p bs"
    and "length bs = unat n" and "unat (str_length s) + unat n + unat step < 2 ^ 32"
  shows "\<exists>r. append_with_step lib w s p n step = Some r \<and> appended live bs w s r"
proof -
  have u: "unat (n + str_length s) = unat (str_length s) + unat n"
      "unat (n + str_length s + step) = unat (str_length s) + unat n + unat step"
    using assms(5) by (simp_all add: unat_word_ariths)
  obtain failed w1 s1 where r: "(if n + str_length s > Alloced_length s
      then realloc lib w s (ucast (n + str_length s + step)) else (False, w, s)) = (failed, w1, s1)"
    by (metis prod_cases3)
  have g: "grown live (if failed then 0 else unat (str_length s) + unat n) w s (failed, w1, s1)"
  proof (cases "n + str_length s > Alloced_length s")
    case True
    then have "realloc lib w s (ucast (n + str_length s + step)) = (failed, w1, s1)" using r by simp
    then have "grown live (unat (str_length s) + unat n + unat step + 1) w s (failed, w1, s1)"
      using realloc_grown [OF assms(1,2), of "ucast (n + str_length s + step)"] u assms(5) by simp
    then show ?thesis by (auto simp: grown_def)
  next
    case False
    then have "unat (str_length s) + unat n \<le> unat (Alloced_length s)"
      using u(1) by (simp add: word_less_nat_alt)
    then show ?thesis using False r assms(2) by (auto simp: grown_def frame_refl)
  qed
  show ?thesis
  proof (cases failed)
    case True
    then show ?thesis using appended_failed [of live _ w s w1 s1] g r by (auto simp: append_with_step_def)
  next
    case nf: False
    have "str_wf live w1 s1" "avail live w1 s1 p bs"
        "unat (str_length s1) + unat (ucast n :: size_t) \<le> unat (Alloced_length s1)"
      using g nf assms(3) avail_frame by (auto simp: grown_def)
    then obtain w2 s2 where "q_append w1 s1 p (ucast n) = Some (w2, s2)" "appended live bs w1 s1 (False, w2, s2)"
      using q_append_ok [of live w1 s1 "ucast n" p bs] assms(4) by auto
    then show ?thesis using appended_after_grown [OF g] nf r by (auto simp: append_with_step_def)
  qed
qed

section \<open>Sequences of appends\<close>

text \<open>
  \<open>appends get live Src f bs\<close>: the operation \<open>f\<close> on objects that hold a \<^verbatim>\<open>Binary_string\<close> appends
  \<open>bs\<close>, or reports a failure after it has appended a part of \<open>bs\<close>, whenever \<open>Src\<close> holds. A
  condition is stable when it speaks about bytes outside the buffer only.
\<close>

definition appends ::
  "('s \<Rightarrow> binary_string) \<Rightarrow> ('h \<Rightarrow> nat set) \<Rightarrow> ('h world \<Rightarrow> binary_string \<Rightarrow> bool) \<Rightarrow>
   ('h world \<Rightarrow> 's \<Rightarrow> (bool \<times> 'h world \<times> 's) option) \<Rightarrow> uchar list \<Rightarrow> bool" where
  "appends get live Src f bs \<longleftrightarrow>
     (\<forall>w s. ready live w (get s) (length bs) \<and> Src w (get s) \<longrightarrow>
        (\<exists>failed w' s'. f w s = Some (failed, w', s') \<and> appended live bs w (get s) (failed, w', get s')))"

definition stable :: "('h \<Rightarrow> nat set) \<Rightarrow> ('h world \<Rightarrow> binary_string \<Rightarrow> bool) \<Rightarrow> bool" where
  "stable live Src \<longleftrightarrow> (\<forall>w s w' s'. Src w s \<and> frame live w s w' s' \<longrightarrow> Src w' s')"

lemma appendsE:
  assumes "appends get live Src f bs" and "ready live w (get s) (length bs)" and "Src w (get s)"
  obtains failed w' s' where "f w s = Some (failed, w', s')"
    "appended live bs w (get s) (failed, w', get s')"
  using assms unfolding appends_def by blast

lemma appended_seq:
  assumes "appended live xs w s (False, w1, s1)" and "appended live ys w1 s1 (failed, w2, s2)"
  shows "appended live (xs @ ys) w s (failed, w2, s2)"
  using assms frame_trans [of live w s w1 s1 w2 s2] unfolding appended_def by fastforce

lemma appended_prefix: "appended live xs w s (True, w1, s1) \<Longrightarrow> appended live (xs @ ys) w s (True, w1, s1)"
  unfolding appended_def by fastforce

lemma appended_ready:
  assumes "appended live xs w s (False, w1, s1)" and "ready live w s (length xs + n)"
  shows "ready live w1 s1 n"
proof -
  have "content w1 s1 = content w s @ xs" using assms(1) by (simp add: appended_def)
  then have "unat (str_length s1) = unat (str_length s) + length xs"
    by (metis length_append length_content)
  then show ?thesis using assms by (simp add: ready_def appended_def)
qed

lemma appends_or_else:
  assumes "appends get live Src f xs" and "appends get live Src g ys" and "stable live Src"
  shows "appends get live Src (or_else f g) (xs @ ys)"
  unfolding appends_def
proof (intro allI impI)
  fix w s assume a: "ready live w (get s) (length (xs @ ys)) \<and> Src w (get s)"
  then have "ready live w (get s) (length xs)" by (simp add: ready_def)
  then obtain failed w1 s1 where f: "f w s = Some (failed, w1, s1)"
      "appended live xs w (get s) (failed, w1, get s1)"
    using a by (auto intro: appendsE [OF assms(1)])
  show "\<exists>failed w' s'. or_else f g w s = Some (failed, w', s') \<and>
      appended live (xs @ ys) w (get s) (failed, w', get s')"
  proof (cases failed)
    case True
    then have "or_else f g w s = Some (True, w1, s1)" using f(1) by (simp add: or_else_def)
    then show ?thesis using f(2) True appended_prefix [of live xs w "get s" w1 "get s1" ys] by auto
  next
    case False
    have "Src w1 (get s1)" using assms(3) a f(2) unfolding stable_def appended_def by auto
    moreover have "ready live w1 (get s1) (length ys)"
      using appended_ready [of live xs w "get s" w1 "get s1"] f(2) False a by simp
    ultimately obtain failed2 w2 s2 where "g w1 s1 = Some (failed2, w2, s2)"
        "appended live ys w1 (get s1) (failed2, w2, get s2)"
      by (auto intro: appendsE [OF assms(2)])
    moreover from this have "or_else f g w s = Some (failed2, w2, s2)"
      using f(1) False by (simp add: or_else_def)
    ultimately show ?thesis
      using f(2) False appended_seq [of live xs w "get s" w1 "get s1" ys failed2 w2 "get s2"] by auto
  qed
qed

lemma appends_skip: "appends get live Src (\<lambda>w s. Some (False, w, s)) []"
  unfolding appends_def appended_def ready_def by (auto simp: frame_refl)

lemma appends_weaken: "appends get live Src f bs \<Longrightarrow> (\<And>w s. Src' w s \<Longrightarrow> Src w s) \<Longrightarrow> appends get live Src' f bs"
  unfolding appends_def by blast

lemma appends_cong:
  "appends get live Src f bs \<Longrightarrow> (\<And>w s. Src w (get s) \<Longrightarrow> g w s = f w s) \<Longrightarrow> appends get live Src g bs"
  unfolding appends_def by simp

lemma appends_lift: "appends (\<lambda>s. s) live Src f bs \<Longrightarrow> appends bstr live Src (lift_string f) bs"
  unfolding appends_def lift_string_def by fastforce

lemma stable_avail: "stable live (\<lambda>w s. avail live w s p bs)"
  unfolding stable_def using avail_frame by blast

lemma stable_conj: "stable live P \<Longrightarrow> stable live Q \<Longrightarrow> stable live (\<lambda>w s. P w s \<and> Q w s)"
  unfolding stable_def by blast

lemma stable_True: "stable live (\<lambda>w s. True)"
  unfolding stable_def by blast

lemma appends_append:
  assumes "string_laws lib live" and "length bs < 2 ^ 32"
  shows "appends (\<lambda>s. s) live (\<lambda>w s. avail live w s p bs) (\<lambda>w s. append lib w s p (of_nat (length bs))) bs"
  unfolding appends_def
proof (intro allI impI)
  fix w s assume a: "ready live w s (length bs) \<and> avail live w s p bs"
  have "unat (of_nat (length bs) :: size_t) = length bs"
    using assms(2) by (simp add: unat_of_nat)
  then obtain r where "append lib w s p (of_nat (length bs)) = Some r" "appended live bs w s r"
    using string_append_ok [OF assms(1), of w s p bs "of_nat (length bs)"] a assms(2) by (auto simp: ready_def)
  then show "\<exists>failed w' s'. append lib w s p (of_nat (length bs)) = Some (failed, w', s') \<and>
      appended live bs w s (failed, w', s')"
    by (cases r) auto
qed

lemma appends_char:
  assumes "string_laws lib live"
  shows "appends (\<lambda>s. s) live Src (\<lambda>w s. append_char lib w s c) [c]"
  unfolding appends_def using append_char_ok [OF assms] by fastforce

lemma appends_string_char:
  assumes "string_laws lib live"
  shows "appends bstr live Src (string_append_char lib c) [c]"
  unfolding string_append_char_def by (rule appends_lift [OF appends_char [OF assms]])

section \<open>Hexadecimal digits\<close>

definition hex_digits :: "'h string_lib \<Rightarrow> uchar list \<Rightarrow> uchar list" where
  "hex_digits lib bs = concat (map (\<lambda>b. [dig_vec_lower lib (drop_bit 4 b), dig_vec_lower lib (b AND 0x0F)]) bs)"

lemma avail_Cons:
  assumes "avail live w s p (b # bs)"
  shows "mem w p = b" and "avail live w s (p + 1) bs"
proof -
  have "copy_out (mem w) p (1 + length bs) = b # bs" using assms by (simp add: avail_def)
  then show "mem w p = b" unfolding copy_out_append by (simp add: copy_out_def)
  have c: "copy_out (mem w) (p + 1) (length bs) = bs"
    using \<open>copy_out (mem w) p (1 + length bs) = b # bs\<close> unfolding copy_out_append by (simp add: copy_out_def)
  have "{p + 1..<p + 1 + length bs} \<subseteq> {p..<p + length (b # bs)}" by auto
  then show "avail live w s (p + 1) bs" using assms c unfolding avail_def by blast
qed

lemma appends_hex:
  assumes "string_laws lib live"
  shows "appends (\<lambda>s. s) live (\<lambda>w s. avail live w s src bs) (\<lambda>w s. append_hex lib w s src (length bs))
    (hex_digits lib bs)"
proof (induction bs arbitrary: src)
  case Nil
  then show ?case unfolding appends_def appended_def ready_def by (auto simp: hex_digits_def frame_refl)
next
  case (Cons b bs)
  let ?hi = "\<lambda>w s. append_char lib w s (dig_vec_lower lib (drop_bit 4 (mem w src)))"
  let ?lo = "\<lambda>w s. append_char lib w s (dig_vec_lower lib (mem w src AND 0x0F))"
  let ?Src = "\<lambda>w s. avail live w s src (b # bs)"
  have "appends (\<lambda>s. s) live ?Src ?hi [dig_vec_lower lib (drop_bit 4 b)]"
    by (rule appends_cong [OF appends_char [OF assms]]) (simp add: avail_Cons)
  moreover have "appends (\<lambda>s. s) live ?Src ?lo [dig_vec_lower lib (b AND 0x0F)]"
    by (rule appends_cong [OF appends_char [OF assms]]) (simp add: avail_Cons)
  moreover have "appends (\<lambda>s. s) live ?Src (\<lambda>w s. append_hex lib w s (src + 1) (length bs)) (hex_digits lib bs)"
    by (rule appends_weaken [OF Cons.IH]) (rule avail_Cons)
  ultimately have "appends (\<lambda>s. s) live ?Src
      (or_else (or_else ?hi ?lo) (\<lambda>w s. append_hex lib w s (src + 1) (length bs))) (hex_digits lib (b # bs))"
    using appends_or_else [OF appends_or_else [OF _ _ stable_avail] _ stable_avail] by (fastforce simp: hex_digits_def)
  then show ?case by (rule appends_cong) (simp only: length_Cons append_hex.simps or_else_def [of "or_else ?hi ?lo"])
qed

section \<open>Appending text\<close>

text \<open>The bytes of a \<^verbatim>\<open>LEX_CSTRING\<close>: a C string in memory that is in use.\<close>

definition lex_avail :: "('h \<Rightarrow> nat set) \<Rightarrow> 'h world \<Rightarrow> binary_string \<Rightarrow> lex_cstring \<Rightarrow> uchar list \<Rightarrow> bool" where
  "lex_avail live w s ls bs \<longleftrightarrow> length bs < 2 ^ 32 - 1 \<and> lex_length ls = of_nat (length bs) \<and>
     0 \<notin> set bs \<and> avail live w s (str ls) (bs @ [0])"

lemma stable_lex_avail: "stable live (\<lambda>w s. lex_avail live w s ls bs)"
  unfolding stable_def lex_avail_def using avail_frame by blast

lemma avail_terminated:
  assumes "avail live w s p (bs @ [c])"
  shows "avail live w s p bs" and "mem w (p + length bs) = c"
proof -
  have "copy_out (mem w) p (length bs + 1) = bs @ [c]" using assms by (simp add: avail_def)
  then have c: "copy_out (mem w) p (length bs) = bs" "mem w (p + length bs) = c"
    unfolding copy_out_append by (simp_all add: copy_out_def)
  then show "mem w (p + length bs) = c" by simp
  have "{p..<p + length bs} \<subseteq> {p..<p + length (bs @ [c])}" by auto
  then show "avail live w s p bs" using assms c(1) unfolding avail_def by blast
qed

lemma lex_avail_ok:
  assumes "lex_avail live w s ls bs"
  shows "lex_ok w ls" and "(ucast (ucast (lex_length ls) :: uint32) :: size_t) = of_nat (length bs)"
proof -
  have n: "unat (lex_length ls) = length bs" using assms by (simp add: lex_avail_def unat_of_nat)
  show "(ucast (ucast (lex_length ls) :: uint32) :: size_t) = of_nat (length bs)"
    using assms n by (simp add: word_unat_eq_iff uint32_of_size_t unat_of_nat lex_avail_def)
  have "copy_out (mem w) (str ls) (length bs) = bs" "mem w (str ls + length bs) = 0"
    using assms avail_terminated [of live w s "str ls" bs 0] by (auto simp: lex_avail_def avail_def)
  then show "lex_ok w ls"
    using assms n by (simp add: lex_ok_def strlen_is_def lex_avail_def word_less_nat_alt)
qed

text \<open>What the clients of the converting overload of \<^verbatim>\<open>append\<close> rely on when nothing is converted.\<close>

locale text_append =
  fixes lib :: "'h string_lib" and live :: "'h \<Rightarrow> nat set"
    and app :: "'h world \<Rightarrow> sql_string \<Rightarrow> nat \<Rightarrow> size_t \<Rightarrow> 'h sql_outcome"
  assumes app_appends: "string_laws lib live \<Longrightarrow> length bs < 2 ^ 32 \<Longrightarrow>
    appends bstr live (\<lambda>w s. avail live w s p bs) (\<lambda>w s. app w s p (of_nat (length bs))) bs"
begin

lemma lex_appends:
  assumes "string_laws lib live"
  shows "appends bstr live (\<lambda>w s. lex_avail live w s ls bs) (string_append_lex app ls) bs"
proof (cases "length bs < 2 ^ 32 - 1")
  case True
  then have "appends bstr live (\<lambda>w s. lex_avail live w s ls bs) (\<lambda>w s. app w s (str ls) (of_nat (length bs))) bs"
    by (intro appends_weaken [OF app_appends [OF assms]]) (auto simp: lex_avail_def dest: avail_terminated)
  then show ?thesis
    by (rule appends_cong) (simp add: string_append_lex_def lex_avail_ok)
next
  case False
  then show ?thesis by (simp add: appends_def lex_avail_def)
qed

lemma quote_appends:
  assumes "string_laws lib live"
  shows "appends bstr live Src
    (\<lambda>w s. if quot \<noteq> 0 then string_append_char lib quot w s else Some (False, w, s))
    (if quot \<noteq> 0 then [quot] else [])"
  using appends_string_char [OF assms, of Src quot] appends_skip [of bstr live Src] by (cases "quot = 0") simp_all

lemma name_value_appends:
  assumes "string_laws lib live"
  shows "appends bstr live (\<lambda>w s. lex_avail live w s name n \<and> lex_avail live w s val v)
    (append_name_value lib app name val quot)
    (n @ [61] @ (if quot \<noteq> 0 then [quot] else []) @ v @ (if quot \<noteq> 0 then [quot] else []))"
proof -
  have n: "appends bstr live (\<lambda>w s. lex_avail live w s name n \<and> lex_avail live w s val v)
      (string_append_lex app name) n"
    by (rule appends_weaken [OF lex_appends [OF assms]]) simp
  have v: "appends bstr live (\<lambda>w s. lex_avail live w s name n \<and> lex_avail live w s val v)
      (string_append_lex app val) v"
    by (rule appends_weaken [OF lex_appends [OF assms]]) simp
  show ?thesis
    unfolding append_name_value_def
    by (intro appends_or_else n v quote_appends appends_string_char assms stable_conj stable_lex_avail)
qed

end

interpretation plain: text_append lib live "\<lambda>w s p n. lift_string (\<lambda>w b. append lib w b p n) w s"
  for lib :: "'h string_lib" and live :: "'h \<Rightarrow> nat set"
proof
  fix bs :: "uchar list" and p
  assume "string_laws lib live" and "length bs < 2 ^ 32"
  then have "appends bstr live (\<lambda>w s. avail live w s p bs)
      (lift_string (\<lambda>w s. append lib w s p (of_nat (length bs)))) bs"
    by (intro appends_lift appends_append)
  then show "appends bstr live (\<lambda>w s. avail live w s p bs)
      (\<lambda>w s. lift_string (\<lambda>w b. append lib w b p (of_nat (length bs))) w s) bs" by simp
qed

section \<open>Names of flags\<close>

fun join_with :: "uchar \<Rightarrow> uchar list list \<Rightarrow> uchar list" where
  "join_with c [] = []"
| "join_with c (x # xs) = x @ concat (map (\<lambda>y. c # y) xs)"

definition flag_item :: "uchar list list \<Rightarrow> nat \<Rightarrow> uchar list" where
  "flag_item texts b = (if b < length texts then texts ! b else [63])"

definition flag_text :: "uint32 \<Rightarrow> uchar list list \<Rightarrow> uchar list" where
  "flag_text flags texts =
     (if flags = 0 then []
      else 40 # join_with 124 (map (flag_item texts) (filter (bit flags) (rev [0..<32]))) @ [41])"

fun loop_text :: "uint32 \<Rightarrow> uchar list list \<Rightarrow> nat \<Rightarrow> bool \<Rightarrow> uchar list" where
  "loop_text flags texts 0 added = []"
| "loop_text flags texts (Suc b) added =
     (if bit flags b then (if added then [124] else []) @ flag_item texts b @ loop_text flags texts b True
      else loop_text flags texts b added)"

lemma loop_text_closed:
  "loop_text flags texts n added =
     (let items = map (flag_item texts) (filter (bit flags) (rev [0..<n]))
      in if added then concat (map (\<lambda>y. 124 # y) items) else join_with 124 items)"
  by (induction n arbitrary: added) (simp_all add: Let_def)

definition names_avail ::
  "('h \<Rightarrow> nat set) \<Rightarrow> lex_cstring list \<Rightarrow> uchar list list \<Rightarrow> 'h world \<Rightarrow> binary_string \<Rightarrow> bool" where
  "names_avail live names texts w s \<longleftrightarrow> list_all2 (lex_avail live w s) names texts"

lemma stable_names_avail: "stable live (names_avail live names texts)"
  unfolding stable_def names_avail_def
  using stable_lex_avail [unfolded stable_def] by (blast intro: list_all2_mono)

context text_append
begin

lemma item_appends:
  assumes "string_laws lib live"
  shows "appends bstr live (names_avail live names texts)
    (if b < length names then string_append_lex app (names ! b) else string_append_char lib 63)
    (flag_item texts b)"
proof (cases "length names = length texts")
  case True
  have "appends bstr live (names_avail live names texts) (string_append_lex app (names ! b)) (texts ! b)"
    if "b < length names"
    by (rule appends_weaken [OF lex_appends [OF assms]])
      (use that in \<open>auto simp: names_avail_def list_all2_conv_all_nth\<close>)
  moreover have "appends bstr live (names_avail live names texts) (string_append_char lib 63) [63]"
    by (rule appends_string_char [OF assms])
  ultimately show ?thesis using True by (simp add: flag_item_def)
next
  case False
  then show ?thesis by (auto simp: appends_def names_avail_def dest: list_all2_lengthD)
qed

lemma loop_appends:
  assumes "string_laws lib live"
  shows "appends bstr live (names_avail live names texts) (flag_names_loop lib app flags names n added)
    (loop_text flags texts n added)"
proof (induction n arbitrary: added)
  case 0
  have "flag_names_loop lib app flags names 0 added = (\<lambda>w s. Some (False, w, s))" by (intro ext) simp
  then show ?case by (simp add: appends_skip)
next
  case (Suc b)
  let ?Src = "names_avail live names texts"
  let ?bar = "\<lambda>w s. if added then string_append_char lib 124 w s else Some (False, w, s)"
  let ?item = "if b < length names then string_append_lex app (names ! b) else string_append_char lib 63"
  have bar: "appends bstr live ?Src ?bar (if added then [124] else [])"
    using appends_string_char [OF assms, of ?Src 124] appends_skip [of bstr live ?Src] by (cases added) simp_all
  show ?case
  proof (cases "bit flags b")
    case True
    then have "flag_names_loop lib app flags names (Suc b) added =
        or_else ?bar (or_else ?item (flag_names_loop lib app flags names b True))"
      by (intro ext) (simp add: bit_iff_and_push_bit_not_eq_0)
    then show ?thesis
      using appends_or_else [OF bar appends_or_else [OF item_appends [OF assms] Suc.IH stable_names_avail]
          stable_names_avail, of b True] True by simp
  next
    case False
    then have "flag_names_loop lib app flags names (Suc b) added = flag_names_loop lib app flags names b added"
      by (intro ext) (simp add: bit_iff_and_push_bit_not_eq_0)
    then show ?thesis using Suc.IH False by simp
  qed
qed

lemma flag_names_appends:
  assumes "string_laws lib live"
  shows "appends bstr live (names_avail live names texts) (append_flag32_names lib app flags names)
    (flag_text flags texts)"
proof -
  let ?Src = "names_avail live names texts"
  have c: "appends bstr live ?Src
      (\<lambda>w s. if flags \<noteq> 0 then string_append_char lib c w s else Some (False, w, s))
      (if flags \<noteq> 0 then [c] else [])" for c
    using appends_string_char [OF assms, of ?Src c] appends_skip [of bstr live ?Src] by (cases "flags = 0") simp_all
  have t: "flag_text flags texts = (if flags \<noteq> 0 then [40] else []) @ loop_text flags texts 32 False @
      (if flags \<noteq> 0 then [41] else [])"
    by (simp add: flag_text_def loop_text_closed Let_def)
  show ?thesis
    unfolding append_flag32_names_def t by (intro appends_or_else c loop_appends assms stable_names_avail)
qed

end

section \<open>C strings\<close>

text \<open>A call gives a C string: its bytes are those of the object, and a zero follows.\<close>

definition c_string :: "('h \<Rightarrow> nat set) \<Rightarrow> 'h world \<Rightarrow> binary_string \<Rightarrow> bool \<Rightarrow> nat \<times> 'h world \<times> binary_string \<Rightarrow> bool" where
  "c_string live w s ok r \<longleftrightarrow>
     (case r of (p, w', s') \<Rightarrow> p = Ptr s' \<and> str_wf live w' s' \<and> frame live w s w' s' \<and>
        content w' s' = content w s \<and> (ok \<longrightarrow> mem w' (p + unat (str_length s')) = 0))"

lemma c_string_room:
  assumes "str_wf live w s" and "str_length s < Alloced_length s"
  shows "c_string live w s ok (Ptr s, poke w (Ptr s + unat (str_length s)) 0, s)"
  using assms by (auto simp: c_string_def str_wf_def content_poke word_less_nat_alt area_def intro!: frame_poke)

lemma c_string_realloc:
  assumes "string_laws lib live" and "str_wf live w s" and "realloc lib w s (ucast (str_length s)) = (failed, w', s')"
  shows "c_string live w s (\<not> failed) (Ptr s', w', s')"
proof -
  have lt: "unat (str_length s) + 1 < 2 ^ 64" using unat_lt_pow [of 32 "str_length s"] by simp
  then have "grown live (unat (str_length s) + 1) w s (failed, w', s')"
    using realloc_grown [OF assms(1,2), of "ucast (str_length s)"] assms(3) by simp
  moreover have "\<not> failed \<Longrightarrow> mem w' (Ptr s' + unat (str_length s)) = 0"
    using assms(3) by (auto simp: realloc_def split: prod.splits if_splits)
  ultimately show ?thesis by (auto simp: grown_def c_string_def)
qed

definition can_grow :: "'h string_lib \<Rightarrow> 'h world \<Rightarrow> binary_string \<Rightarrow> bool" where
  "can_grow lib w s \<longleftrightarrow> \<not> fst (realloc lib w s (ucast (str_length s)))"

lemma c_ptr_ok:
  assumes "string_laws lib live" and "str_wf live w s" and "Ptr s \<noteq> 0"
  shows "c_string live w s (can_grow lib w s) (c_ptr lib lit w s)"
proof -
  obtain failed w' s' where r: "realloc lib w s (ucast (str_length s)) = (failed, w', s')" by (metis prod_cases3)
  then have g: "c_string live w s (can_grow lib w s) (Ptr s', w', s')"
    using c_string_realloc [OF assms(1,2) r] by (simp add: can_grow_def)
  have "c_string live w s ok (Ptr s, w, s)" if "mem w (Ptr s + unat (str_length s)) = 0" for ok
    using that assms(2) by (simp add: c_string_def frame_refl)
  then show ?thesis using g c_string_room [OF assms(2)] assms(3) r by (simp add: c_ptr_def)
qed

lemma c_ptr_safe_ok:
  assumes "string_laws lib live" and "str_wf live w s"
  shows "c_string live w s (can_grow lib w s) (c_ptr_safe lib w s)"
proof -
  obtain failed w' s' where r: "realloc lib w s (ucast (str_length s)) = (failed, w', s')" by (metis prod_cases3)
  then have "c_string live w s (can_grow lib w s) (Ptr s', w', s')"
    using c_string_realloc [OF assms(1,2) r] by (simp add: can_grow_def)
  then show ?thesis using c_string_room [OF assms(2)] r by (simp add: c_ptr_safe_def)
qed

lemma string_chop_ok:
  assumes "str_wf live w s" and "Alloced_length s \<noteq> 0"
  shows "(chop w s = None \<longleftrightarrow> 0 \<in> set (butlast (content w s))) \<and>
    (chop w s = Some (w', s') \<longrightarrow> content w' s' = butlast (content w s) \<and> str_wf live w' s' \<and> frame live w s w' s')"
proof (cases "str_length s = 0")
  case True
  then have "content w s = []" by (simp add: content_def copy_out_def)
  then show ?thesis using True assms by (auto simp: chop_def frame_refl)
next
  case False
  define t where "t = s\<lparr>str_length := str_length s - 1\<rparr>"
  define v where "v = poke w (Ptr s + unat (str_length t)) 0"
  have "unat (str_length t) = unat (str_length s) - 1" "0 < unat (str_length s)"
    using False by (simp_all add: t_def unat_minus_one unat_gt_0)
  then have n: "unat (str_length s) = Suc (unat (str_length t))" by simp
  have b: "butlast (content w s) = content w t"
    by (simp add: content_def n copy_out_def t_def)
  have c: "content v t = content w t"
    unfolding v_def by (rule content_poke) (simp add: t_def)
  have "strlen_is (mem v) (Ptr t) (unat (str_length t)) \<longleftrightarrow> 0 \<notin> set (butlast (content w s))"
    unfolding b c [symmetric] by (simp add: strlen_is_def content_def v_def t_def)
  then have ch: "chop w s = (if 0 \<in> set (butlast (content w s)) then None else Some (v, t))"
    using False by (simp add: chop_def Let_def t_def v_def)
  have fit: "unat (str_length s) \<le> unat (Alloced_length s)" using assms by (simp add: str_wf_def word_le_nat_alt)
  then have "frame live w s v t"
    unfolding v_def using n by (intro frame_poke) (auto simp: area_def t_def)
  moreover have "str_wf live v t"
    using assms fit n by (simp add: str_wf_def v_def t_def word_le_nat_alt)
  ultimately show ?thesis unfolding ch using c b by auto
qed

section \<open>A library for the examples\<close>

text \<open>An allocator that hands out fresh addresses, with the next free one as its state.\<close>

definition fresh_realloc :: "nat world \<Rightarrow> binary_string \<Rightarrow> size_t \<Rightarrow> bool \<times> nat world \<times> binary_string" where
  "fresh_realloc w s n =
     (if n \<le> ucast (Alloced_length s) \<and> Ptr s \<noteq> 0 then (False, w, s)
      else if n \<ge> UINT_MAX32 then (True, w, s)
      else let p = heap w + 1
           in (False, \<lparr>mem = copy_in (mem w) p (content w s), heap = p + unat n\<rparr>,
               s\<lparr>Ptr := p, Alloced_length := ucast n, alloced := True\<rparr>))"

definition sample_lib :: "nat string_lib" where
  "sample_lib = \<lparr>my_free = (\<lambda>w p. w), real_alloc = fresh_realloc, realloc_raw = fresh_realloc,
     net_store_length = (\<lambda>n. [ucast n]), net_length_size = (\<lambda>n. 1), dig_vec_lower = (\<lambda>d. if d < 10 then d + 48 else d + 87)\<rparr>"

definition below :: "nat \<Rightarrow> nat set" where
  "below h = {..<h}"

lemma sample_laws: "string_laws sample_lib below"
  unfolding string_laws_def
proof (intro allI impI, elim conjE)
  fix w s n failed w' s'
  assume r: "realloc_raw sample_lib w s n = (failed, w', s')" and a: "area s \<subseteq> below (heap w)"
    and l: "unat (str_length s) \<le> unat n"
  consider (fits) "n \<le> ucast (Alloced_length s)" "Ptr s \<noteq> 0" | (big) "\<not> (n \<le> ucast (Alloced_length s) \<and> Ptr s \<noteq> 0)" "n \<ge> UINT_MAX32"
    | (new) "\<not> (n \<le> ucast (Alloced_length s) \<and> Ptr s \<noteq> 0)" "n < UINT_MAX32" by force
  then show "if failed then w' = w \<and> s' = s
       else unat n \<le> unat (Alloced_length s') \<and> Ptr s' \<noteq> 0 \<and> str_length s' = str_length s \<and>
         extra_alloc s' = extra_alloc s \<and> content w' s' = content w s \<and>
         area s' \<subseteq> below (heap w') \<and> frame below w s w' s'"
  proof cases
    case fits
    then show ?thesis using r a by (auto simp: sample_lib_def fresh_realloc_def frame_refl word_le_nat_alt)
  next
    case big
    then have "fresh_realloc w s n = (True, w, s)" unfolding fresh_realloc_def by (simp only: if_False if_True)
    then show ?thesis using r by (simp add: sample_lib_def)
  next
    case new
    then have nu: "\<not> UINT_MAX32 \<le> n" by (simp only: not_le)
    have "fresh_realloc w s n = (False,
        \<lparr>mem = copy_in (mem w) (heap w + 1) (content w s), heap = heap w + 1 + unat n\<rparr>,
        s\<lparr>Ptr := heap w + 1, Alloced_length := ucast n, alloced := True\<rparr>)"
      unfolding fresh_realloc_def Let_def by (simp only: new(1) nu if_False)
    then have e: "failed = False"
        "w' = \<lparr>mem = copy_in (mem w) (heap w + 1) (content w s), heap = heap w + 1 + unat n\<rparr>"
        "s' = s\<lparr>Ptr := heap w + 1, Alloced_length := ucast n, alloced := True\<rparr>"
      using r by (simp_all add: sample_lib_def)
    have n: "unat (ucast n :: uint32) = unat n"
      using new(2) by (intro uint32_of_size_t) (simp add: word_less_nat_alt)
    have "content w' s' = copy_out (copy_in (mem w) (heap w + 1) (content w s)) (heap w + 1) (length (content w s))"
      by (simp add: e content_def [of "\<lparr>mem = _, heap = _\<rparr>"])
    then have c: "content w' s' = content w s" by (simp only: copy_out_copy_in)
    have "frame below w s w' s'"
      unfolding frame_def
    proof (intro allI impI, elim conjE)
      fix A assume "A \<subseteq> below (heap w)"
      then have "q < heap w" if "q \<in> A" for q using that by (auto simp: below_def)
      then show "A \<subseteq> below (heap w') \<and> A \<inter> area s' = {} \<and> (\<forall>q\<in>A. mem w' q = mem w q)"
        by (fastforce simp: e below_def area_def copy_in_def)
    qed
    then show ?thesis using c by (simp add: e n area_def below_def) auto
  qed
qed

section \<open>Properties\<close>

text \<open>
  C33. A string grows on demand and never touches the memory of others: \<^verbatim>\<open>append\<close>, \<^verbatim>\<open>append_char\<close>,
  \<^verbatim>\<open>append_hex\<close> and \<^verbatim>\<open>append_with_step\<close> of \<^verbatim>\<open>Binary_string\<close> return, fail no assertion, and leave a
  well-formed string whose bytes are the old ones followed by the appended ones, or, when the
  allocation fails, by a part of them; every address in use outside the buffer keeps its byte.
  \<^verbatim>\<open>append_with_step\<close> needs the length with the step to fit 32 bits, since it adds them at that width.
\<close>

theorem string_append_operations:
  assumes "string_laws lib live" and "ready live w s (length bs)" and "avail live w s p bs"
  shows "(\<exists>r. append lib w s p (of_nat (length bs)) = Some r \<and> appended live bs w s r) \<and>
    (bs \<noteq> [] \<longrightarrow> (\<exists>r. append_char lib w s c = Some r \<and> appended live [c] w s r)) \<and>
    (unat (str_length s) + 2 * length bs < 2 ^ 32 \<longrightarrow>
      (\<exists>r. append_hex lib w s p (length bs) = Some r \<and> appended live (hex_digits lib bs) w s r)) \<and>
    (unat (str_length s) + length bs + unat step < 2 ^ 32 \<longrightarrow>
      (\<exists>r. append_with_step lib w s p (of_nat (length bs)) step = Some r \<and> appended live bs w s r))"
proof (intro conjI impI)
  have wf: "str_wf live w s" and lt: "length bs < 2 ^ 32" using assms(2) by (simp_all add: ready_def)
  show "\<exists>r. append lib w s p (of_nat (length bs)) = Some r \<and> appended live bs w s r"
    using string_append_ok [OF assms(1) wf assms(3), of "of_nat (length bs)"] lt by (simp add: unat_of_nat)
  show "\<exists>r. append_char lib w s c = Some r \<and> appended live [c] w s r" if "bs \<noteq> []"
  proof -
    have "1 \<le> length bs" using that by (cases bs) auto
    then show ?thesis using append_char_ok [OF assms(1), of w s c] assms(2) by (simp add: ready_def)
  qed
  show "\<exists>r. append_hex lib w s p (length bs) = Some r \<and> appended live (hex_digits lib bs) w s r"
    if "unat (str_length s) + 2 * length bs < 2 ^ 32"
  proof -
    have "length (hex_digits lib bs) = 2 * length bs" by (induction bs) (simp_all add: hex_digits_def)
    then have "ready live w s (length (hex_digits lib bs))" using that wf by (simp add: ready_def)
    from appendsE [OF appends_hex [OF assms(1)] this assms(3)] show ?thesis by blast
  qed
  show "\<exists>r. append_with_step lib w s p (of_nat (length bs)) step = Some r \<and> appended live bs w s r"
    if "unat (str_length s) + length bs + unat step < 2 ^ 32"
    using append_with_step_ok [OF assms(1) wf assms(3), of "of_nat (length bs)" step] that lt
    by (simp add: unat_of_nat)
qed

definition sample_world :: "nat world" where
  "sample_world = \<lparr>mem = (\<lambda>q. if q = 7 then 72 else if q = 8 then 105 else 0), heap = 10\<rparr>"

lemma sample_ready: "ready below sample_world Binary_string (length [72, 105 :: uchar])"
  by (simp add: ready_def str_wf_def Binary_string_def init_private_data_def area_def)

lemma sample_avail: "avail below sample_world Binary_string 7 [72, 105]"
  by (auto simp: Binary_string_def init_private_data_def area_def avail_def below_def sample_world_def
      copy_out_def numeral_2_eq_2)

lemma sample_buffer: "str_wf below sample_world (Binary_string_buffer 4 3)"
  by (auto simp: str_wf_def Binary_string_buffer_def area_def below_def sample_world_def)

theorem string_append_operations_witness:
  "\<exists>r. append sample_lib sample_world Binary_string 7 2 = Some r \<and>
     appended below [72, 105] sample_world Binary_string r"
proof -
  have "of_nat (length [72, 105 :: uchar]) = (2 :: size_t)" by simp
  then show ?thesis
    using string_append_operations [OF sample_laws sample_ready sample_avail] by metis
qed

text \<open>
  \<^verbatim>\<open>append_flag32_names\<close> appends the names of the bits that are set, from the highest down to the
  lowest, between parentheses and separated by bars, with a question mark for a bit that has no name,
  and nothing at all when no bit is set; \<^verbatim>\<open>append_name_value\<close> appends the name, an equals sign and
  the value between quotes. Both work over every overload of \<^verbatim>\<open>append\<close> that appends its argument.
\<close>

theorem string_text_operations:
  assumes "text_append lib live app" and "string_laws lib live"
  shows "appends bstr live (names_avail live names texts) (append_flag32_names lib app flags names)
      (flag_text flags texts) \<and>
    appends bstr live (\<lambda>w s. lex_avail live w s name n \<and> lex_avail live w s val v)
      (append_name_value lib app name val quot)
      (n @ [61] @ (if quot \<noteq> 0 then [quot] else []) @ v @ (if quot \<noteq> 0 then [quot] else []))"
  using text_append.flag_names_appends [OF assms] text_append.name_value_appends [OF assms] by simp

theorem string_text_operations_witness:
  "appends bstr below
     (names_avail below [\<lparr>str = 3, lex_length = 1\<rparr>, \<lparr>str = 7, lex_length = 2\<rparr>] [[65], [72, 105]])
     (append_flag32_names sample_lib (\<lambda>w s p n. lift_string (\<lambda>w b. append sample_lib w b p n) w s) 7
       [\<lparr>str = 3, lex_length = 1\<rparr>, \<lparr>str = 7, lex_length = 2\<rparr>])
     [40, 63, 124, 72, 105, 124, 65, 41]"
proof -
  have "flag_text 7 [[65], [72, 105]] = [40, 63, 124, 72, 105, 124, 65, 41]"
    by code_simp
  then show ?thesis
    using string_text_operations [OF plain.text_append_axioms sample_laws,
        of "[\<lparr>str = 3, lex_length = 1\<rparr>, \<lparr>str = 7, lex_length = 2\<rparr>]" "[[65], [72, 105]]" 7] by simp
qed

text \<open>
  \<^verbatim>\<open>c_ptr\<close> and \<^verbatim>\<open>c_ptr_safe\<close> return the buffer with the bytes of the string unchanged and a
  zero behind them, unless the allocation that makes room for it fails; \<^verbatim>\<open>chop\<close> drops the last byte, and
  its assertion fails exactly when one of the remaining bytes is zero.
\<close>

theorem string_c_string_operations:
  assumes "string_laws lib live" and "str_wf live w s"
  shows "(Ptr s \<noteq> 0 \<longrightarrow> c_string live w s (can_grow lib w s) (c_ptr lib lit w s)) \<and>
    c_string live w s (can_grow lib w s) (c_ptr_safe lib w s) \<and>
    (Alloced_length s \<noteq> 0 \<longrightarrow>
      (chop w s = None \<longleftrightarrow> 0 \<in> set (butlast (content w s))) \<and>
      (chop w s = Some (w', s') \<longrightarrow>
        content w' s' = butlast (content w s) \<and> str_wf live w' s' \<and> frame live w s w' s'))"
  using c_ptr_ok [OF assms] c_ptr_safe_ok [OF assms] string_chop_ok [OF assms(2)] by blast

theorem string_c_string_operations_witness:
  "c_string below sample_world (Binary_string_buffer 4 3)
     (can_grow sample_lib sample_world (Binary_string_buffer 4 3))
     (c_ptr sample_lib 1 sample_world (Binary_string_buffer 4 3))"
  using string_c_string_operations [OF sample_laws sample_buffer, of 1 sample_world Binary_string]
  by (simp add: Binary_string_buffer_def)

section \<open>Numbers in a string\<close>

definition le_bytes :: "nat \<Rightarrow> ulonglong \<Rightarrow> uchar list" where
  "le_bytes n v = map (\<lambda>k. byte (drop_bit (8 * k) v)) [0..<n]"

lemma store_le_bytes:
  "int2store m p v = copy_in m p (le_bytes 2 v)" "int4store m p v = copy_in m p (le_bytes 4 v)"
  by (auto simp: fun_eq_iff copy_in_def le_bytes_def le2.store_byte le4.store_byte)

lemma q_append_numbers:
  assumes "str_wf live w s"
  shows "unat (str_length s) + 2 \<le> unat (Alloced_length s) \<Longrightarrow>
      \<exists>w' s'. q_append2b w s n = Some (w', s') \<and> appended live (le_bytes 2 (ucast n)) w s (False, w', s') \<and>
        mem w' = int2store (mem w) (Ptr s + unat (str_length s)) (ucast n)"
    and "unat (str_length s) + 4 \<le> unat (Alloced_length s) \<Longrightarrow>
      \<exists>w' s'. q_append_uint32 w s n = Some (w', s') \<and> appended live (le_bytes 4 (ucast n)) w s (False, w', s') \<and>
        mem w' = int4store (mem w) (Ptr s + unat (str_length s)) (ucast n)"
proof -
  have a: "ASSERT_LENGTH s A" if "unat (str_length s) + unat A \<le> unat (Alloced_length s)" for A
  proof -
    have "unat (str_length s) + unat A < 2 ^ 32"
      using that unat_lt_pow [of 32 "Alloced_length s"] by simp
    then have "unat (ucast A :: uint32) = unat A" by (intro uint32_of_size_t) simp
    then show ?thesis
      using that \<open>unat (str_length s) + unat A < 2 ^ 32\<close>
      by (simp add: ASSERT_LENGTH_def word_le_nat_alt unat_word_ariths)
  qed
  have l: "length (le_bytes 2 v) = 2" "length (le_bytes 4 v) = 4" for v by (simp_all add: le_bytes_def)
  show "\<exists>w' s'. q_append2b w s n = Some (w', s') \<and> appended live (le_bytes 2 (ucast n)) w s (False, w', s') \<and>
        mem w' = int2store (mem w) (Ptr s + unat (str_length s)) (ucast n)"
    if "unat (str_length s) + 2 \<le> unat (Alloced_length s)"
    using frame_content_write [OF assms, of "le_bytes 2 (ucast n)"] that a [of 2]
    by (simp add: q_append2b_def store_le_bytes l)
  show "\<exists>w' s'. q_append_uint32 w s n = Some (w', s') \<and> appended live (le_bytes 4 (ucast n)) w s (False, w', s') \<and>
        mem w' = int4store (mem w) (Ptr s + unat (str_length s)) (ucast n)"
    if "unat (str_length s) + 4 \<le> unat (Alloced_length s)"
    using frame_content_write [OF assms, of "le_bytes 4 (ucast n)"] that a [of 4]
    by (simp add: q_append_uint32_def store_le_bytes l)
qed

lemma write_at_position_ok:
  assumes "str_wf live w s" and "Alloced_length s \<noteq> 0" and "unat position + 4 \<le> unat (str_length s)"
  shows "\<exists>w'. write_at_position w s position v = Some w' \<and> frame live w s w' s \<and>
    uint4korr (mem w') (Ptr s + unat position) = v \<and>
    content w' s = take (unat position) (content w s) @ le_bytes 4 (ucast v) @ drop (unat position + 4) (content w s)"
proof -
  have "unat (str_length s) < 2 ^ 32" by (rule unat_lt_pow) simp
  then have "str_length s \<ge> position + 4" using assms(3) by (simp add: word_le_nat_alt unat_word_ariths)
  then have e: "write_at_position w s position v =
      Some (w\<lparr>mem := copy_in (mem w) (Ptr s + unat position) (le_bytes 4 (ucast v))\<rparr>)"
    by (simp add: write_at_position_def store_le_bytes)
  have l: "length (le_bytes 4 (ucast v)) = 4" by (simp add: le_bytes_def)
  have fit: "unat (str_length s) \<le> unat (Alloced_length s)"
    using assms(1,2) by (simp add: str_wf_def word_le_nat_alt)
  have "content (w\<lparr>mem := copy_in (mem w) (Ptr s + unat position) (le_bytes 4 (ucast v))\<rparr>) s =
      take (unat position) (content w s) @ le_bytes 4 (ucast v) @ drop (unat position + 4) (content w s)"
    by (rule nth_equalityI) (use assms(3) l in \<open>auto simp: content_def copy_out_def copy_in_def nth_append\<close>)
  moreover have "uint4korr (copy_in (mem w) (Ptr s + unat position) (le_bytes 4 (ucast v))) (Ptr s + unat position) = v"
    unfolding store_le_bytes(2) [symmetric] le4.load_store by (rule bit_word_eqI) (simp add: bit_simps)
  moreover have "frame live w s (w\<lparr>mem := copy_in (mem w) (Ptr s + unat position) (le_bytes 4 (ucast v))\<rparr>) s"
    by (rule frame_write) (use fit assms(3) l in \<open>auto simp: copy_in_def area_def\<close>)
  ultimately show ?thesis using e by simp
qed

text \<open>
  Numbers put in a string are read back by the macros of \<^verbatim>\<open>byte_order_generic.h\<close>: \<^verbatim>\<open>q_append\<close> of a
  32-bit number appends its four bytes, low byte first, and \<^verbatim>\<open>write_at_position\<close> replaces four bytes
  that are already there and no others.
\<close>

theorem string_numbers_round_trip:
  assumes "str_wf live w s" and "unat (str_length s) + 4 \<le> unat (Alloced_length s)"
  shows "\<exists>w' s'. q_append_uint32 w s n = Some (w', s') \<and>
      content w' s' = content w s @ le_bytes 4 (ucast n) \<and>
      uint4korr (mem w') (Ptr s' + unat (str_length s)) = n \<and>
      (\<exists>w''. write_at_position w' s' (str_length s) k = Some w'' \<and>
        content w'' s' = content w s @ le_bytes 4 (ucast k) \<and>
        uint4korr (mem w'') (Ptr s' + unat (str_length s)) = k)"
proof -
  obtain w' s' where q: "q_append_uint32 w s n = Some (w', s')" "appended live (le_bytes 4 (ucast n)) w s (False, w', s')"
      "mem w' = int4store (mem w) (Ptr s + unat (str_length s)) (ucast n)"
    using q_append_numbers(2) [OF assms] by blast
  have p: "Ptr s' = Ptr s" "Alloced_length s' = Alloced_length s"
    using q(1) by (auto simp: q_append_uint32_def split: if_splits)
  have c: "content w' s' = content w s @ le_bytes 4 (ucast n)" and wf: "str_wf live w' s'"
    using q(2) by (simp_all add: appended_def)
  have l: "length (le_bytes 4 v) = 4" for v by (simp add: le_bytes_def)
  have len: "unat (str_length s') = unat (str_length s) + 4"
    using arg_cong [OF c, of length] l by simp
  have "uint4korr (mem w') (Ptr s' + unat (str_length s)) = n"
    unfolding p q(3) le4.load_store by (rule bit_word_eqI) (simp add: bit_simps)
  moreover have "Alloced_length s' \<noteq> 0" using p assms(2) by auto
  from write_at_position_ok [OF wf this, of "str_length s" k]
  have "\<exists>w''. write_at_position w' s' (str_length s) k = Some w'' \<and>
        content w'' s' = content w s @ le_bytes 4 (ucast k) \<and>
        uint4korr (mem w'') (Ptr s' + unat (str_length s)) = k"
    using len c l by fastforce
  ultimately show ?thesis using q(1) c by blast
qed

theorem string_numbers_round_trip_witness:
  "\<exists>w' s'. q_append_uint32 sample_world (set_length (Binary_string_buffer 2 6) 1) 258 = Some (w', s') \<and>
     uint4korr (mem w') (Ptr s' + 1) = 258"
proof -
  have "str_wf below sample_world (set_length (Binary_string_buffer 2 6) 1)"
    by (auto simp: str_wf_def Binary_string_buffer_def set_length_def area_def below_def sample_world_def)
  from string_numbers_round_trip [OF this, of 258 0]
  show ?thesis by (auto simp: Binary_string_buffer_def set_length_def)
qed


text \<open>
  Upgrading from an old server: no collation is reported as changed from the version on that
  \<^verbatim>\<open>latest_mariadb_version_with_collation_change\<close> names, one is reported just before it, and
  \<^verbatim>\<open>upgrade_collation_id\<close> changes the five reused identifiers only, into identifiers of the second page
  that it never changes again.
\<close>

theorem collation_versions:
  "(v \<ge> latest_mariadb_version_with_collation_change \<longrightarrow> \<not> collation_changed_order v n) \<and>
   collation_changed_order (latest_mariadb_version_with_collation_change - 1) 159 \<and>
   (upgrade_collation_id v n \<noteq> n \<longrightarrow> n \<in> {149, 213, 214, 215, 245} \<and> upgrade_collation_id v n \<ge> 0x240 \<and>
      upgrade_collation_id v' (upgrade_collation_id v n) = upgrade_collation_id v n)"
proof (intro conjI impI)
  show "\<not> collation_changed_order v n" if "v \<ge> latest_mariadb_version_with_collation_change"
    using that by (simp add: collation_changed_order_def latest_mariadb_version_with_collation_change_def
        word_less_nat_alt word_le_nat_alt)
  show "collation_changed_order (latest_mariadb_version_with_collation_change - 1) 159"
    by (simp add: collation_changed_order_def latest_mariadb_version_with_collation_change_def)
  assume "upgrade_collation_id v n \<noteq> n"
  then have u: "n \<in> {149, 213, 214, 215, 245} \<and>
      upgrade_collation_id v n \<in> {0x240, 0x260, 0x280, 0x2A0, 0x2E0}"
    unfolding upgrade_collation_id_def page2_defs by (simp split: if_splits) blast+
  then show "n \<in> {149, 213, 214, 215, 245}" "upgrade_collation_id v n \<ge> 0x240" by auto
  show "upgrade_collation_id v' (upgrade_collation_id v n) = upgrade_collation_id v n"
    using u [THEN conjunct2] by (elim insertE) (simp_all add: upgrade_collation_id_def [of v'])
qed

theorem collation_versions_witness:
  "\<not> collation_changed_order 110002 159 \<and> collation_changed_order 110001 159 \<and>
   upgrade_collation_id 100011 (upgrade_collation_id 50312 149) = upgrade_collation_id 50312 149"
proof -
  have "upgrade_collation_id 50312 149 \<noteq> 149"
    by (simp add: upgrade_collation_id_def page2_defs)
  then show ?thesis
    using collation_versions [of 110002 159 0] collation_versions [of 50312 149 100011]
    by (simp add: latest_mariadb_version_with_collation_change_def collation_changed_order_def)
qed


end
