(* ===== verification/String_Owner.thy ===== *)
theory String_Owner
  imports Sql_String
begin

text \<open>
  Who frees the buffers of the strings of \<^verbatim>\<open>sql_string.h\<close>: a set of objects of class
  \<^verbatim>\<open>Binary_string\<close> on which the functions that set, copy, swap, move, release and take over buffers are
  called in any order. \<open>serve\<close> is one call; \<open>one_owner\<close> is the invariant.
\<close>

section \<open>Taking over blocks\<close>

text \<open>
  \<open>blocks\<close> is the set of the heap blocks that exist. An operation on one object takes over what it
  allocates and gives back what it freed.
\<close>

definition owned :: "binary_string \<Rightarrow> nat set" where
  "owned s = (if alloced s then {Ptr s} else {})"

definition transfers :: "('h \<Rightarrow> nat set) \<Rightarrow> 'h world \<Rightarrow> binary_string \<Rightarrow> 'h world \<Rightarrow> binary_string \<Rightarrow> bool" where
  "transfers blocks w s w' s' \<longleftrightarrow> blocks (heap w') = blocks (heap w) - owned s \<union> owned s' \<and>
     owned s' \<inter> (blocks (heap w) - owned s) = {}"

definition alloc_laws :: "'h string_lib \<Rightarrow> ('h \<Rightarrow> nat set) \<Rightarrow> bool" where
  "alloc_laws lib blocks \<longleftrightarrow> (\<forall>h. 0 \<notin> blocks h) \<and>
     (\<forall>w p. blocks (heap (my_free lib w p)) = blocks (heap w) - {p}) \<and>
     (\<forall>w s n failed w' s'. owned s \<subseteq> blocks (heap w) \<and>
        (real_alloc lib w s n = (failed, w', s') \<or> realloc_raw lib w s n = (failed, w', s')) \<longrightarrow>
        transfers blocks w s w' s')"

lemma transfers_same [simp]: "owned s' = owned s \<Longrightarrow> owned s \<subseteq> blocks (heap w) \<Longrightarrow> transfers blocks w s w s'"
  by (auto simp: transfers_def)

lemma owned_updates [simp]:
  "owned (s\<lparr>str_length := n\<rparr>) = owned s" "owned (s\<lparr>extra_alloc := e\<rparr>) = owned s"
  "owned (s\<lparr>Alloced_length := n\<rparr>) = owned s" "owned (s\<lparr>thread_specific := t\<rparr>) = owned s"
  "owned (s\<lparr>alloced := False\<rparr>) = {}"
  by (simp_all add: owned_def)

lemma transfers_poke [simp]: "transfers blocks w s (poke w' p c) s' = transfers blocks w s w' s'"
  by (simp add: transfers_def)

lemma transfers_owned: "transfers blocks w s w' s' \<Longrightarrow> owned s' \<subseteq> blocks (heap w')"
  by (auto simp: transfers_def)

lemma transfers_cong: "owned s' = owned t' \<Longrightarrow> transfers blocks w s w' s' = transfers blocks w s w' t'"
  by (simp add: transfers_def)

lemma transfers_start: "owned s = owned t \<Longrightarrow> transfers blocks w s w' s' \<Longrightarrow> transfers blocks w t w' s'"
  by (simp add: transfers_def)

lemma my_free_blocks: "alloc_laws lib blocks \<Longrightarrow> blocks (heap (my_free lib w p)) = blocks (heap w) - {p}"
  unfolding alloc_laws_def by (elim conjE allE)

lemma after_free:
  assumes "alloc_laws lib blocks" and "free_buffer lib w s = (w', s')" and "\<not> alloced t"
  shows "transfers blocks w s w' t"
proof -
  have "w' = (if alloced s then my_free lib w (Ptr s) else w)"
    using assms(2) by (auto simp: free_buffer_def split: if_splits)
  then show ?thesis
    using my_free_blocks [OF assms(1), of w "Ptr s"] assms(3) by (simp add: transfers_def owned_def)
qed

lemma free_buffer_alloced: "free_buffer lib w s = (w', s') \<Longrightarrow> \<not> alloced s'"
  by (auto simp: free_buffer_def split: if_splits)

lemma set_alloced_transfers:
  assumes "alloc_laws lib blocks" and "set_alloced lib w s p n k = Some (w', s')"
  shows "transfers blocks w s w' s'" and "\<not> alloced s'"
proof -
  obtain w1 s1 where f: "free_buffer lib w s = (w1, s1)" by (metis surj_pair)
  then have s': "w' = w1" "\<not> alloced s'"
    using assms(2) free_buffer_alloced [OF f] by (auto simp: set_alloced_def split: if_splits)
  then show "\<not> alloced s'" by simp
  show "transfers blocks w s w' s'" unfolding s'(1) by (rule after_free [OF assms(1) f s'(2)])
qed

lemma free_and_set_transfers:
  assumes "alloc_laws lib blocks"
  shows "set_const lib w s p n = (w', s') \<Longrightarrow> transfers blocks w s w' s'"
    and "set_substring lib w s other off n = (w', s') \<Longrightarrow> transfers blocks w s w' s'"
    and "free lib w s = (w', s') \<Longrightarrow> transfers blocks w s w' s'"
proof -
  obtain w1 s1 where f: "free_buffer lib w s = (w1, s1)" by (metis surj_pair)
  note a = free_buffer_alloced [OF f] and t = after_free [OF assms f]
  show "transfers blocks w s w' s'" if "set_const lib w s p n = (w', s')"
  proof -
    have "w' = w1 \<and> \<not> alloced s'" using that f a by (auto simp: set_const_def)
    then show ?thesis using t by simp
  qed
  show "transfers blocks w s w' s'" if "set_substring lib w s other off n = (w', s')"
  proof -
    have "w' = w1 \<and> \<not> alloced s'" using that f a by (auto simp: set_substring_def Let_def split: if_splits)
    then show ?thesis using t by simp
  qed
  show "transfers blocks w s w' s'" if "free lib w s = (w', s')"
  proof -
    have "w' = w1 \<and> \<not> alloced s'" using that f a by (auto simp: free_def)
    then show ?thesis using t by simp
  qed
qed

lemma allocator_transfers:
  assumes "alloc_laws lib blocks" and "owned s \<subseteq> blocks (heap w)"
  shows "real_alloc lib w s n = (failed, w', s') \<Longrightarrow> transfers blocks w s w' s'"
    and "realloc_raw lib w s n = (failed, w', s') \<Longrightarrow> transfers blocks w s w' s'"
  using assms(2) by (auto intro: assms(1) [unfolded alloc_laws_def, THEN conjunct2, THEN conjunct2, rule_format])

lemma alloc_transfers:
  assumes "alloc_laws lib blocks" and "owned s \<subseteq> blocks (heap w)" and "alloc lib w s n = (failed, w', s')"
  shows "transfers blocks w s w' s'"
proof (cases "n \<le> ucast (Alloced_length s) \<and> Alloced_length s \<noteq> 0")
  case True
  then show ?thesis using assms(2,3) by (simp add: alloc_def)
next
  case False
  then have "real_alloc lib w s n = (failed, w', s')" using assms(3) unfolding alloc_def by (simp only: if_False)
  then show ?thesis by (rule allocator_transfers(1) [OF assms(1,2)])
qed

lemma realloc_transfers:
  assumes "alloc_laws lib blocks" and "owned s \<subseteq> blocks (heap w)" and "realloc lib w s n = (failed, w', s')"
  shows "transfers blocks w s w' s'"
proof -
  obtain f w1 s1 where r: "realloc_raw lib w s (n + 1) = (f, w1, s1)" by (metis prod_cases3)
  then have "transfers blocks w s w1 s1" by (rule allocator_transfers(2) [OF assms(1,2)])
  then show ?thesis using assms(3) r by (auto simp: realloc_def split: if_splits)
qed

lemma realloc_with_extra_transfers:
  assumes "alloc_laws lib blocks" and "owned s \<subseteq> blocks (heap w)"
    and "realloc_with_extra lib w s n = (failed, w', s')"
  shows "transfers blocks w s w' s'"
proof -
  define t where "t = (if extra_alloc s < 4096 then s\<lparr>extra_alloc := extra_alloc s * 2 + 128\<rparr> else s)"
  have o: "owned t = owned s" by (simp add: t_def)
  obtain f w1 s1 where r: "realloc_raw lib w t (n + ucast (extra_alloc t)) = (f, w1, s1)" by (metis prod_cases3)
  have "transfers blocks w t w1 s1"
    by (rule allocator_transfers(2) [OF assms(1) _ r]) (simp add: o assms(2))
  then have "transfers blocks w s w1 s1" by (rule transfers_start [OF o])
  then show ?thesis
    using assms(3) r unfolding realloc_with_extra_def t_def [symmetric] by (auto split: if_splits)
qed

lemma append_transfers:
  assumes "alloc_laws lib blocks" and "owned s \<subseteq> blocks (heap w)" and "append lib w s p n = Some (failed, w', s')"
  shows "transfers blocks w s w' s'"
proof (cases "n = 0")
  case True
  then show ?thesis using assms by (simp add: append_def)
next
  case False
  let ?n = "ucast (str_length s) + n"
  obtain f w1 s1 where r: "realloc_with_extra_if_needed lib w s ?n = (f, w1, s1)" by (metis prod_cases3)
  have t: "transfers blocks w s w1 s1"
  proof (cases "?n < ucast (Alloced_length s)")
    case True
    then show ?thesis using r assms(2) by (auto simp: realloc_with_extra_if_needed_def)
  next
    case False
    then have "realloc_with_extra lib w s ?n = (f, w1, s1)"
      using r unfolding realloc_with_extra_if_needed_def by (simp only: if_False)
    then show ?thesis by (rule realloc_with_extra_transfers [OF assms(1,2)])
  qed
  have "heap w' = heap w1 \<and> owned s' = owned s1"
    using assms(3) False r by (auto simp: append_def q_append_def memcpy_def Let_def split: if_splits)
  then show ?thesis using t by (simp add: transfers_def)
qed

subsection \<open>Several strings\<close>

text \<open>A pool of objects, the memory, and the blocks the caller answers for.\<close>

record 'h pool =
  pool_world :: "'h world"
  obj :: "nat \<Rightarrow> binary_string"
  caller :: "nat set"

datatype request =
  Alloc nat size_t
| Realloc nat size_t
| Append nat nat size_t
| Free nat
| Set_buffer nat nat size_t
| Set_const nat nat size_t
| Set_substring nat nat size_t size_t
| Set_if_not_allocated nat nat size_t
| Assign nat nat
| Swap nat nat
| Move nat nat
| Release nat
| Reset nat nat size_t size_t
| Caller_free nat

definition put :: "'h pool \<Rightarrow> nat \<Rightarrow> 'h world \<times> binary_string \<Rightarrow> 'h pool" where
  "put st i r = st\<lparr>pool_world := fst r, obj := (obj st)(i := snd r)\<rparr>"

text \<open>
  One call. The functions on two objects are given two objects, and \<^verbatim>\<open>reset\<close> takes over a block of the
  caller.
\<close>

fun serve :: "'h string_lib \<Rightarrow> request \<Rightarrow> 'h pool \<Rightarrow> 'h pool option" where
  "serve lib (Alloc i n) st = Some (put st i (snd (alloc lib (pool_world st) (obj st i) n)))"
| "serve lib (Realloc i n) st = Some (put st i (snd (realloc lib (pool_world st) (obj st i) n)))"
| "serve lib (Append i p n) st = map_option (\<lambda>r. put st i (snd r)) (append lib (pool_world st) (obj st i) p n)"
| "serve lib (Free i) st = Some (put st i (free lib (pool_world st) (obj st i)))"
| "serve lib (Set_buffer i p n) st = map_option (put st i) (set_buffer lib (pool_world st) (obj st i) p n)"
| "serve lib (Set_const i p n) st = Some (put st i (set_const lib (pool_world st) (obj st i) p n))"
| "serve lib (Set_substring i j off n) st =
     (if i = j then None else Some (put st i (set_substring lib (pool_world st) (obj st i) (obj st j) off n)))"
| "serve lib (Set_if_not_allocated i p n) st =
     Some (put st i (pool_world st, set_buffer_if_not_allocated (obj st i) p n))"
| "serve lib (Assign i j) st =
     (if i = j then Some st else map_option (put st i) (assign lib (pool_world st) (obj st i) (obj st j)))"
| "serve lib (Swap i j) st =
     (if i = j then None
      else case swap (obj st i) (obj st j) of (a, b) \<Rightarrow> Some (st\<lparr>obj := (obj st)(i := a, j := b)\<rparr>))"
| "serve lib (Move i j) st =
     (if i = j then None
      else map_option (\<lambda>(w, a, b). st\<lparr>pool_world := w, obj := (obj st)(i := a, j := b)\<rparr>)
             (move lib (pool_world st) (obj st i) (obj st j)))"
| "serve lib (Release i) st =
     (case release (obj st i) of (old, s) \<Rightarrow>
        Some (st\<lparr>obj := (obj st)(i := s), caller := (if alloced (obj st i) then insert old (caller st) else caller st)\<rparr>))"
| "serve lib (Reset i p n k) st =
     (if p \<noteq> 0 \<and> p \<notin> caller st then None
      else map_option (\<lambda>r. (put st i r)\<lparr>caller := caller st - {p}\<rparr>) (reset lib (pool_world st) (obj st i) p n k))"
| "serve lib (Caller_free p) st =
     (if p \<notin> caller st then None
      else Some (st\<lparr>pool_world := my_free lib (pool_world st) p, caller := caller st - {p}\<rparr>))"

inductive pool_reachable :: "'h string_lib \<Rightarrow> 'h pool \<Rightarrow> 'h pool \<Rightarrow> bool" for lib start where
  pool_start: "pool_reachable lib start start"
| pool_step: "pool_reachable lib start st \<Longrightarrow> serve lib req st = Some st' \<Longrightarrow> pool_reachable lib start st'"

text \<open>Every block has one owner: an object or the caller; nothing is lost.\<close>

definition one_owner :: "('h \<Rightarrow> nat set) \<Rightarrow> 'h pool \<Rightarrow> bool" where
  "one_owner blocks st \<longleftrightarrow>
     (\<forall>i j. i \<noteq> j \<longrightarrow> owned (obj st i) \<inter> owned (obj st j) = {}) \<and>
     (\<forall>i. owned (obj st i) \<inter> caller st = {}) \<and>
     blocks (heap (pool_world st)) = caller st \<union> (\<Union>i. owned (obj st i))"

lemma one_owner_put:
  assumes "one_owner blocks st" and "transfers blocks (pool_world st) (obj st i) w' s'"
  shows "one_owner blocks (put st i (w', s'))"
proof -
  let ?rest = "caller st \<union> (\<Union>j \<in> - {i}. owned (obj st j))"
  have u: "(\<Union>j. owned (f j)) = owned (f i) \<union> (\<Union>j \<in> - {i}. owned (f j))" for f by auto
  have disj: "owned (obj st i) \<inter> owned (obj st j) = {}" if "j \<noteq> i" for j
    using assms(1) that unfolding one_owner_def by simp
  have "owned (obj st i) \<inter> caller st = {}" using assms(1) by (simp add: one_owner_def)
  moreover have "owned (obj st i) \<inter> (\<Union>j \<in> - {i}. owned (obj st j)) = {}" using disj by fast
  moreover have "blocks (heap (pool_world st)) =
      caller st \<union> (owned (obj st i) \<union> (\<Union>j \<in> - {i}. owned (obj st j)))"
    using assms(1) unfolding one_owner_def u [of "obj st"] by (elim conjE)
  ultimately have b: "blocks (heap (pool_world st)) - owned (obj st i) = ?rest" by blast
  have t: "blocks (heap w') = ?rest \<union> owned s' \<and> owned s' \<inter> ?rest = {}"
    using assms(2) unfolding transfers_def b .
  note n = t [THEN conjunct1] t [THEN conjunct2]
  have "(\<Union>j. owned (((obj st)(i := s')) j)) = owned s' \<union> (\<Union>j \<in> - {i}. owned (obj st j))"
    unfolding u [of "(obj st)(i := s')"] by simp
  then have "blocks (heap w') = caller st \<union> (\<Union>j. owned (((obj st)(i := s')) j))"
    unfolding n(1) by (simp only: ac_simps)
  moreover have d: "owned s' \<inter> owned (obj st j) = {}" if "j \<noteq> i" for j using n(2) that by fast
  have "owned (((obj st)(i := s')) j) \<inter> owned (((obj st)(i := s')) k) = {}" if "j \<noteq> k" for j k
    using assms(1) d [of j] d [of k] that unfolding one_owner_def by (cases "j = i"; cases "k = i") auto
  moreover have "owned (((obj st)(i := s')) j) \<inter> caller st = {}" for j
    using assms(1) n(2) unfolding one_owner_def by (cases "j = i") auto
  ultimately show ?thesis unfolding one_owner_def put_def by simp
qed

lemma one_owner_apart:
  assumes "one_owner blocks st" and "i \<noteq> j"
  shows "owned (obj st i) \<inter> owned (obj st j) = {}" and "owned (obj st i) \<inter> caller st = {}"
  using assms by (simp_all add: one_owner_def)

lemma one_owner_owned: "one_owner blocks st \<Longrightarrow> owned (obj st i) \<subseteq> blocks (heap (pool_world st))"
  unfolding one_owner_def by blast

text \<open>Two objects, or an object and the caller, may exchange what they own.\<close>

lemma one_owner_two:
  assumes o: "one_owner blocks st" and ij: "i \<noteq> j"
    and u: "owned a \<union> owned b = owned (obj st i) \<union> owned (obj st j)" and d: "owned a \<inter> owned b = {}"
  shows "one_owner blocks (st\<lparr>obj := (obj st)(i := a, j := b)\<rparr>)"
proof -
  let ?f = "(obj st)(i := a, j := b)"
  have all: "(\<Union>k. owned (f k)) = owned (f i) \<union> owned (f j) \<union> (\<Union>k \<in> - {i, j}. owned (f k))" for f by auto
  have "(\<Union>k. owned (?f k)) = (\<Union>k. owned (obj st k))"
    unfolding all [of ?f] all [of "obj st"] using ij u by simp
  then have "blocks (heap (pool_world st)) = caller st \<union> (\<Union>k. owned (?f k))"
    using o by (simp add: one_owner_def)
  moreover have "(owned a \<union> owned b) \<inter> caller st = {}"
    unfolding u using one_owner_apart(2) [OF o ij] one_owner_apart(2) [OF o ij [symmetric]] by fast
  then have "owned (?f k) \<inter> caller st = {}" for k
    using o by (cases "k = i"; cases "k = j") (auto simp: one_owner_def)
  moreover have "owned (?f k) \<inter> owned (?f l) = {}" if "k \<noteq> l" for k l
  proof -
    have "owned (?f m) \<inter> owned (obj st n) = {}" if "m \<in> {i, j}" "n \<notin> {i, j}" for m n
      using one_owner_apart(1) [OF o, of i n] one_owner_apart(1) [OF o, of j n] u that by auto
    then show ?thesis
      using one_owner_apart(1) [OF o that] that d ij
      by (cases "k \<in> {i, j}"; cases "l \<in> {i, j}") (auto simp: Int_commute)
  qed
  ultimately show ?thesis by (simp add: one_owner_def)
qed

lemma one_owner_give:
  assumes o: "one_owner blocks st" and u: "owned a \<union> C = owned (obj st i) \<union> caller st" and d: "owned a \<inter> C = {}"
  shows "one_owner blocks (st\<lparr>obj := (obj st)(i := a), caller := C\<rparr>)"
proof -
  let ?f = "(obj st)(i := a)"
  have all: "(\<Union>k. owned (f k)) = owned (f i) \<union> (\<Union>k \<in> - {i}. owned (f k))" for f by auto
  have "blocks (heap (pool_world st)) = caller st \<union> (\<Union>k. owned (obj st k))" using o by (simp add: one_owner_def)
  also have "\<dots> = (owned (obj st i) \<union> caller st) \<union> (\<Union>k \<in> - {i}. owned (obj st k))"
    unfolding all [of "obj st"] by (simp only: ac_simps)
  also have "\<dots> = C \<union> (\<Union>k. owned (?f k))"
    unfolding all [of ?f] u [symmetric] by (simp add: ac_simps)
  finally have "blocks (heap (pool_world st)) = C \<union> (\<Union>k. owned (?f k))" .
  moreover have other: "owned (obj st k) \<inter> (owned a \<union> C) = {}" if "k \<noteq> i" for k
    unfolding u using one_owner_apart(1) [OF o that] one_owner_apart(2) [OF o that] by fast
  have "owned (?f k) \<inter> C = {}" for k using other [of k] d by (cases "k = i") auto
  moreover have "owned (?f k) \<inter> owned (?f l) = {}" if "k \<noteq> l" for k l
    using other [of k] other [of l] one_owner_apart(1) [OF o that] that by (cases "k = i"; cases "l = i") auto
  ultimately show ?thesis by (simp add: one_owner_def)
qed

lemma one_owner_caller_free:
  assumes "alloc_laws lib blocks" and o: "one_owner blocks st" and "p \<in> caller st"
  shows "one_owner blocks (st\<lparr>pool_world := my_free lib (pool_world st) p, caller := caller st - {p}\<rparr>)"
proof -
  have "p \<notin> owned (obj st i)" for i using assms(3) o unfolding one_owner_def by blast
  then have "caller st \<union> (\<Union>i. owned (obj st i)) - {p} = caller st - {p} \<union> (\<Union>i. owned (obj st i))" by fast
  then have "blocks (heap (my_free lib (pool_world st) p)) = caller st - {p} \<union> (\<Union>i. owned (obj st i))"
    using o unfolding my_free_blocks [OF assms(1)] by (simp add: one_owner_def)
  then show ?thesis using o unfolding one_owner_def by auto
qed

lemma one_owner_put':
  "one_owner blocks st \<Longrightarrow> transfers blocks (pool_world st) (obj st i) (fst r) (snd r) \<Longrightarrow> one_owner blocks (put st i r)"
  using one_owner_put [of blocks st i "fst r" "snd r"] by simp

lemma set_alloced_Ptr: "set_alloced lib w s p n k = Some (w', s') \<Longrightarrow> Ptr s' = p"
  by (auto simp: set_alloced_def split: prod.splits if_splits)

lemma one_owner_move:
  assumes "alloc_laws lib blocks" and o: "one_owner blocks st" and ij: "i \<noteq> j"
    and r: "set_alloced lib (pool_world st) (obj st i) (Ptr (obj st j)) n k = Some (v, t)"
  shows "one_owner blocks (st\<lparr>pool_world := v, obj := (obj st)(i := t\<lparr>extra_alloc := e,
    alloced := alloced (obj st j), thread_specific := h\<rparr>, j := (obj st j)\<lparr>alloced := False\<rparr>)\<rparr>)"
proof -
  let ?a = "t\<lparr>extra_alloc := e, alloced := alloced (obj st j), thread_specific := h\<rparr>"
  let ?st1 = "put st i (v, t)"
  note t = set_alloced_transfers [OF assms(1) r] set_alloced_Ptr [OF r]
  have o1: "one_owner blocks ?st1" using one_owner_put [OF o t(1)] .
  have "owned ?a = owned (obj st j)" using t(3) by (simp add: owned_def)
  then have "one_owner blocks (?st1\<lparr>obj := (obj ?st1)(i := ?a, j := (obj st j)\<lparr>alloced := False\<rparr>)\<rparr>)"
    using ij t(2) by (intro one_owner_two [OF o1 ij]) (simp_all add: put_def owned_def)
  then show ?thesis by (simp add: put_def)
qed

lemma one_owner_reset:
  assumes laws: "alloc_laws lib blocks" and o: "one_owner blocks st" and q: "q = 0 \<or> q \<in> caller st"
    and r: "set_alloced lib (pool_world st) (obj st i) q n k = Some (v, t)"
  shows "one_owner blocks ((put st i (v, t\<lparr>alloced := q \<noteq> 0\<rparr>))\<lparr>caller := caller st - {q}\<rparr>)"
proof -
  let ?a = "t\<lparr>alloced := q \<noteq> 0\<rparr>"
  let ?st1 = "put st i (v, t)"
  note t = set_alloced_transfers [OF laws r] set_alloced_Ptr [OF r]
  have o1: "one_owner blocks ?st1" using one_owner_put [OF o t(1)] .
  have "0 \<notin> blocks (heap (pool_world st))" using laws by (simp add: alloc_laws_def)
  then have "0 \<notin> caller st" using o by (simp add: one_owner_def)
  then have "one_owner blocks (?st1\<lparr>obj := (obj ?st1)(i := ?a), caller := caller st - {q}\<rparr>)"
    using t(2,3) q by (intro one_owner_give [OF o1]) (auto simp: put_def owned_def)
  then show ?thesis by (simp add: put_def)
qed

lemma serve_one_owner:
  assumes laws: "alloc_laws lib blocks" and o: "one_owner blocks st" and s: "serve lib req st = Some st'"
  shows "one_owner blocks st'"
proof -
  note w = one_owner_owned [OF o]
  note p = one_owner_put' [OF o]
  show ?thesis
  proof (cases req)
    case (Alloc i n)
    obtain f v t where r: "alloc lib (pool_world st) (obj st i) n = (f, v, t)" by (metis prod_cases3)
    then show ?thesis using s p [of i "(v, t)"] alloc_transfers [OF laws w r] Alloc by auto
  next
    case (Realloc i n)
    obtain f v t where r: "realloc lib (pool_world st) (obj st i) n = (f, v, t)" by (metis prod_cases3)
    then show ?thesis using s p [of i "(v, t)"] realloc_transfers [OF laws w r] Realloc by auto
  next
    case (Append i q n)
    then obtain f v t where r: "append lib (pool_world st) (obj st i) q n = Some (f, v, t)" "st' = put st i (v, t)"
      using s by auto
    then show ?thesis using p [of i "(v, t)"] append_transfers [OF laws w r(1)] by auto
  next
    case (Free i)
    obtain v t where r: "free lib (pool_world st) (obj st i) = (v, t)" by (metis surj_pair)
    then show ?thesis using s p [of i "(v, t)"] free_and_set_transfers(3) [OF laws r] Free by auto
  next
    case (Set_buffer i q n)
    then obtain v t where r: "set_alloced lib (pool_world st) (obj st i) q n n = Some (v, t)" "st' = put st i (v, t)"
      using s by (auto simp: set_buffer_def)
    then show ?thesis using p [of i "(v, t)"] set_alloced_transfers [OF laws r(1)] by auto
  next
    case (Set_const i q n)
    obtain v t where r: "set_const lib (pool_world st) (obj st i) q n = (v, t)" by (metis surj_pair)
    then show ?thesis using s p [of i "(v, t)"] free_and_set_transfers(1) [OF laws r] Set_const by auto
  next
    case (Set_substring i j off n)
    obtain v t where r: "set_substring lib (pool_world st) (obj st i) (obj st j) off n = (v, t)" by (metis surj_pair)
    then show ?thesis
      using s p [of i "(v, t)"] free_and_set_transfers(2) [OF laws r] Set_substring by (auto split: if_splits)
  next
    case (Set_if_not_allocated i q n)
    have "owned (set_buffer_if_not_allocated (obj st i) q n) = owned (obj st i)"
      by (simp add: set_buffer_if_not_allocated_def owned_def)
    then show ?thesis
      using s p [of i "(pool_world st, set_buffer_if_not_allocated (obj st i) q n)"] w Set_if_not_allocated by auto
  next
    case (Assign i j)
    show ?thesis
    proof (cases "i = j")
      case True
      then show ?thesis using s o Assign by simp
    next
      case False
      then obtain v t where r: "set_alloced lib (pool_world st) (obj st i) (Ptr (obj st j)) (ucast (str_length (obj st j)))
          (ucast (Alloced_length (obj st j))) = Some (v, t)" "st' = put st i (v, t)"
        using s Assign by (auto simp: assign_def split: if_splits)
      then show ?thesis using p [of i "(v, t)"] set_alloced_transfers [OF laws r(1)] by auto
    qed
  next
    case (Swap i j)
    then have ij: "i \<noteq> j" and e: "st' = st\<lparr>obj := (obj st)(i := fst (swap (obj st i) (obj st j)),
        j := snd (swap (obj st i) (obj st j)))\<rparr>"
      using s by (auto simp: swap_def split: if_splits)
    have "owned (fst (swap (obj st i) (obj st j))) = owned (obj st j)"
        "owned (snd (swap (obj st i) (obj st j))) = owned (obj st i)"
      by (simp_all add: swap_def owned_def)
    then show ?thesis unfolding e
      using one_owner_apart(1) [OF o ij] by (intro one_owner_two [OF o ij]) auto
  next
    case (Move i j)
    then obtain v t where ij: "i \<noteq> j" and r: "set_alloced lib (pool_world st) (obj st i) (Ptr (obj st j))
          (ucast (str_length (obj st j))) (ucast (Alloced_length (obj st j))) = Some (v, t)"
        and e: "st' = st\<lparr>pool_world := v, obj := (obj st)(i := t\<lparr>extra_alloc := extra_alloc (obj st j),
          alloced := alloced (obj st j), thread_specific := thread_specific (obj st j)\<rparr>,
          j := (obj st j)\<lparr>alloced := False\<rparr>)\<rparr>"
      using s by (auto simp: move_def split: if_splits bind_splits)
    show ?thesis unfolding e by (rule one_owner_move [OF laws o ij r])
  next
    case (Release i)
    then have e: "st' = st\<lparr>obj := (obj st)(i := init_private_data), caller := owned (obj st i) \<union> caller st\<rparr>"
      using s by (auto simp: release_def owned_def)
    show ?thesis unfolding e by (rule one_owner_give [OF o]) (simp_all add: owned_def init_private_data_def)
  next
    case (Reset i q n k)
    then obtain v t where q: "q = 0 \<or> q \<in> caller st"
        and r: "set_alloced lib (pool_world st) (obj st i) q n k = Some (v, t)"
        and e: "st' = (put st i (v, t\<lparr>alloced := q \<noteq> 0\<rparr>))\<lparr>caller := caller st - {q}\<rparr>"
      using s by (auto simp: reset_def split: if_splits bind_splits)
    show ?thesis unfolding e by (rule one_owner_reset [OF laws o q r])
  next
    case (Caller_free q)
    then show ?thesis using s one_owner_caller_free [OF laws o] by (auto split: if_splits)
  qed
qed

lemma reachable_one_owner:
  "pool_reachable lib start st \<Longrightarrow> alloc_laws lib blocks \<Longrightarrow> one_owner blocks start \<Longrightarrow> one_owner blocks st"
  by (induction rule: pool_reachable.induct) (auto intro: serve_one_owner)

subsection \<open>Passing the ownership on\<close>

text \<open>The buffer that an object refers to, whether it owns it or not.\<close>

definition same_buffer :: "binary_string \<Rightarrow> binary_string \<Rightarrow> bool" where
  "same_buffer a b \<longleftrightarrow> Ptr a = Ptr b \<and> str_length a = str_length b \<and> Alloced_length a = Alloced_length b"

definition others_kept :: "nat set \<Rightarrow> 'h pool \<Rightarrow> 'h pool \<Rightarrow> bool" where
  "others_kept is st st' \<longleftrightarrow> (\<forall>k. k \<notin> is \<longrightarrow> obj st' k = obj st k)"

text \<open>The object \<open>i\<close> frees what it owned, and gets the buffer of \<open>j\<close>.\<close>

definition took_buffer :: "('h \<Rightarrow> nat set) \<Rightarrow> nat \<Rightarrow> nat \<Rightarrow> 'h pool \<Rightarrow> 'h pool \<Rightarrow> bool" where
  "took_buffer blocks i j st st' \<longleftrightarrow> same_buffer (obj st' i) (obj st j) \<and> same_buffer (obj st' j) (obj st j) \<and>
     blocks (heap (pool_world st')) = blocks (heap (pool_world st)) - owned (obj st i) \<and> caller st' = caller st"

lemma set_alloced_runs:
  assumes "alloc_laws lib blocks" and "n < UINT_MAX32"
  shows "\<exists>v t. set_alloced lib w s p k n = Some (v, t) \<and> blocks (heap v) = blocks (heap w) - owned s \<and>
    \<not> alloced t \<and> Ptr t = p \<and> str_length t = ucast k \<and> Alloced_length t = ucast n"
proof -
  obtain v u where "free_buffer lib w s = (v, u)" by (metis surj_pair)
  then have r: "set_alloced lib w s p k n =
      Some (v, u\<lparr>Ptr := p, str_length := ucast k, Alloced_length := ucast n\<rparr>)" (is "_ = Some (v, ?t)")
    using assms(2) by (simp add: set_alloced_def)
  have "blocks (heap v) = blocks (heap w) - owned s"
    using set_alloced_transfers [OF assms(1) r] by (simp add: transfers_def owned_def)
  then show ?thesis using r set_alloced_transfers(2) [OF assms(1) r] by simp
qed

lemma ucast_back: "ucast (ucast x :: size_t) = (x :: uint32)"
  by (rule bit_word_eqI) (simp add: bit_ucast_iff)

lemma move_passes:
  assumes "alloc_laws lib blocks" and "i \<noteq> j" and "ucast (Alloced_length (obj st j)) < (UINT_MAX32 :: size_t)"
  shows "\<exists>st'. serve lib (Move i j) st = Some st' \<and> took_buffer blocks i j st st' \<and>
    owned (obj st' i) = owned (obj st j) \<and> owned (obj st' j) = {} \<and> others_kept {i, j} st st'"
proof -
  obtain v t where r: "set_alloced lib (pool_world st) (obj st i) (Ptr (obj st j)) (ucast (str_length (obj st j)))
      (ucast (Alloced_length (obj st j))) = Some (v, t)"
    "blocks (heap v) = blocks (heap (pool_world st)) - owned (obj st i)" "Ptr t = Ptr (obj st j)"
    "str_length t = str_length (obj st j)" "Alloced_length t = Alloced_length (obj st j)"
    using set_alloced_runs [OF assms(1,3), of "pool_world st" "obj st i" "Ptr (obj st j)" "ucast (str_length (obj st j))"]
    by (auto simp: ucast_back)
  then show ?thesis
    using assms(2) by (simp add: move_def took_buffer_def same_buffer_def others_kept_def owned_def)
qed

lemma assign_copies:
  assumes "alloc_laws lib blocks" and "i \<noteq> j" and "ucast (Alloced_length (obj st j)) < (UINT_MAX32 :: size_t)"
    and "\<not> uses_buffer_owned_by (obj st j) (obj st i)"
  shows "\<exists>st'. serve lib (Assign i j) st = Some st' \<and> took_buffer blocks i j st st' \<and>
    owned (obj st' i) = {} \<and> others_kept {i} st st'"
proof -
  obtain v t where r: "set_alloced lib (pool_world st) (obj st i) (Ptr (obj st j)) (ucast (str_length (obj st j)))
      (ucast (Alloced_length (obj st j))) = Some (v, t)"
    "blocks (heap v) = blocks (heap (pool_world st)) - owned (obj st i)" "Ptr t = Ptr (obj st j)" "\<not> alloced t"
    "str_length t = str_length (obj st j)" "Alloced_length t = Alloced_length (obj st j)"
    using set_alloced_runs [OF assms(1,3), of "pool_world st" "obj st i" "Ptr (obj st j)" "ucast (str_length (obj st j))"]
    by (auto simp: ucast_back)
  then show ?thesis
    using assms(2,4) by (simp add: assign_def put_def took_buffer_def same_buffer_def others_kept_def owned_def)
qed

lemma swap_exchanges:
  assumes "i \<noteq> j"
  shows "\<exists>st'. serve lib (Swap i j) st = Some st' \<and> pool_world st' = pool_world st \<and> caller st' = caller st \<and>
    same_buffer (obj st' i) (obj st j) \<and> same_buffer (obj st' j) (obj st i) \<and>
    owned (obj st' i) = owned (obj st j) \<and> owned (obj st' j) = owned (obj st i) \<and> others_kept {i, j} st st'"
  using assms by (simp add: swap_def same_buffer_def others_kept_def owned_def)

lemma release_hands_over:
  "\<exists>st'. serve lib (Release i) st = Some st' \<and> pool_world st' = pool_world st \<and>
    caller st' = owned (obj st i) \<union> caller st \<and> owned (obj st' i) = {} \<and> others_kept {i} st st'"
  by (auto simp: release_def init_private_data_def others_kept_def owned_def)

section \<open>Property\<close>

text \<open>
  C34. Whatever calls are made on a set of strings, each heap block is owned by exactly one string or by
  the caller: no block is freed twice or while another object owns it, and none is lost. In every pool that
  is reached so, \<^verbatim>\<open>move\<close> frees the buffer of the target and gives it the buffer of the source together with the
  ownership; \<^verbatim>\<open>swap\<close> exchanges the buffers and the ownership; an assignment that the assertions allow frees the
  buffer of the target and makes it a copy that owns nothing, the source stays as it is; \<^verbatim>\<open>release\<close> hands the
  ownership to the caller. None of them changes another object.
\<close>

theorem string_buffers_have_one_owner:
  assumes "pool_reachable lib start st" and "alloc_laws lib blocks" and "one_owner blocks start"
  shows "one_owner blocks st \<and>
    (alloced (obj st i) \<longrightarrow> Ptr (obj st i) \<in> blocks (heap (pool_world st)) \<and> Ptr (obj st i) \<notin> caller st) \<and>
    (alloced (obj st i) \<and> alloced (obj st j) \<and> Ptr (obj st i) = Ptr (obj st j) \<longrightarrow> i = j) \<and>
    (i \<noteq> j \<and> ucast (Alloced_length (obj st j)) < (UINT_MAX32 :: size_t) \<longrightarrow>
      (\<exists>st'. serve lib (Move i j) st = Some st' \<and> took_buffer blocks i j st st' \<and>
        owned (obj st' i) = owned (obj st j) \<and> owned (obj st' j) = {} \<and> others_kept {i, j} st st')) \<and>
    (i \<noteq> j \<and> ucast (Alloced_length (obj st j)) < (UINT_MAX32 :: size_t) \<and>
        \<not> uses_buffer_owned_by (obj st j) (obj st i) \<longrightarrow>
      (\<exists>st'. serve lib (Assign i j) st = Some st' \<and> took_buffer blocks i j st st' \<and>
        owned (obj st' i) = {} \<and> others_kept {i} st st')) \<and>
    (i \<noteq> j \<longrightarrow>
      (\<exists>st'. serve lib (Swap i j) st = Some st' \<and> pool_world st' = pool_world st \<and> caller st' = caller st \<and>
        same_buffer (obj st' i) (obj st j) \<and> same_buffer (obj st' j) (obj st i) \<and>
        owned (obj st' i) = owned (obj st j) \<and> owned (obj st' j) = owned (obj st i) \<and> others_kept {i, j} st st')) \<and>
    (\<exists>st'. serve lib (Release i) st = Some st' \<and> pool_world st' = pool_world st \<and>
      caller st' = owned (obj st i) \<union> caller st \<and> owned (obj st' i) = {} \<and> others_kept {i} st st')"
proof -
  have o: "one_owner blocks st" by (rule reachable_one_owner [OF assms])
  have "Ptr (obj st i) \<in> blocks (heap (pool_world st))" "Ptr (obj st i) \<notin> caller st" if "alloced (obj st i)"
    using one_owner_owned [OF o, of i] one_owner_apart(2) [OF o, of i "Suc i"] that by (auto simp: owned_def)
  moreover have "i = j" if "alloced (obj st i) \<and> alloced (obj st j) \<and> Ptr (obj st i) = Ptr (obj st j)"
    using one_owner_apart(1) [OF o, of i j] that by (auto simp: owned_def)
  ultimately show ?thesis
    using o move_passes [OF assms(2), of i j st] assign_copies [OF assms(2), of i j st] swap_exchanges [of i j lib st]
      release_hands_over [of lib i st] by blast
qed

text \<open>An allocator that keeps the list of its blocks.\<close>

definition list_malloc :: "nat list world \<Rightarrow> binary_string \<Rightarrow> size_t \<Rightarrow> bool \<times> nat list world \<times> binary_string" where
  "list_malloc w s n =
     (let p = Suc (fold max (heap w) 0)
      in (False, w\<lparr>heap := p # (if alloced s then removeAll (Ptr s) (heap w) else heap w)\<rparr>,
          s\<lparr>Ptr := p, Alloced_length := ucast n, alloced := True\<rparr>))"

definition list_lib :: "nat list string_lib" where
  "list_lib = \<lparr>my_free = (\<lambda>w p. w\<lparr>heap := removeAll p (heap w)\<rparr>), real_alloc = list_malloc, realloc_raw = list_malloc,
     net_store_length = (\<lambda>n. [ucast n]), net_length_size = (\<lambda>n. 1), dig_vec_lower = (\<lambda>d. d)\<rparr>"

definition list_blocks :: "nat list \<Rightarrow> nat set" where
  "list_blocks h = set h - {0}"

lemma list_alloc_laws: "alloc_laws list_lib list_blocks"
proof -
  have mono: "q \<le> fold max h q" for h and q :: nat
    by (induction h arbitrary: q) (auto intro: order_trans [OF max.cobounded2])
  have fresh: "p \<in> set h \<Longrightarrow> p \<le> fold max h q" for h and p q :: nat
    by (induction h arbitrary: q) (auto intro: order_trans [OF max.cobounded1 mono])
  have n: "Suc (fold max h 0) \<notin> set h" for h using fresh [of "Suc (fold max h 0)" h 0] by auto
  show ?thesis
    unfolding alloc_laws_def
    by (auto simp: list_lib_def list_malloc_def list_blocks_def transfers_def owned_def Let_def n split: if_splits)
qed

definition sample_pool :: "nat list pool" where
  "sample_pool = \<lparr>pool_world = \<lparr>mem = (\<lambda>q. 0), heap = []\<rparr>, obj = (\<lambda>i. Binary_string), caller = {}\<rparr>"

theorem string_buffers_have_one_owner_witness:
  "\<exists>st. pool_reachable list_lib sample_pool st \<and> one_owner list_blocks st \<and>
     alloced (obj st 1) \<and> \<not> alloced (obj st 0) \<and> Ptr (obj st 0) = Ptr (obj st 1)"
proof -
  have start: "one_owner list_blocks sample_pool"
    by (auto simp: one_owner_def sample_pool_def Binary_string_def init_private_data_def owned_def list_blocks_def)
  obtain st1 where s1: "serve list_lib (Alloc 0 3) sample_pool = Some st1" by simp
  then have a1: "alloced (obj st1 0)" "Alloced_length (obj st1 0) = 3" "\<not> alloced (obj st1 1)"
    by (auto simp: sample_pool_def put_def alloc_def list_lib_def list_malloc_def Binary_string_def init_private_data_def
        Let_def)
  then obtain st2 where s2: "serve list_lib (Move 1 0) st1 = Some st2"
    by (auto simp: move_def set_alloced_def free_buffer_def Let_def)
  have r: "pool_reachable list_lib sample_pool st2"
    by (rule pool_step [OF pool_step [OF pool_start s1] s2])
  have "alloced (obj st2 1) \<and> \<not> alloced (obj st2 0) \<and> Ptr (obj st2 0) = Ptr (obj st2 1)"
    using s2 a1 by (auto simp: move_def set_alloced_def free_buffer_def Let_def)
  then show ?thesis
    using string_buffers_have_one_owner [OF r list_alloc_laws start] r by blast
qed

end
