(* ===== verification/Lex_String.thy ===== *)
theory Lex_String
  imports Sql_String
begin

text \<open>
  Strings that only refer to their text: \<^verbatim>\<open>lex_string.h\<close>.

  A \<^verbatim>\<open>Lex_cstring\<close> is a pointer into memory and a length of 64 bits. Whether a byte is white space in a
  character set, and the case-insensitive comparison of a character set, are members of \<^verbatim>\<open>CHARSET_INFO\<close>:
  they are parameters. \<^verbatim>\<open>strlen\<close>, \<^verbatim>\<open>memcmp\<close> and \<^verbatim>\<open>strcasecmp\<close> are the functions of the C library in the
  POSIX locale. A failed assertion is \<^const>\<open>None\<close>; a function of the C library that never finds the end of
  a string does not return, which is \<^const>\<open>None\<close> too.
\<close>

section \<open>Functions of the C library\<close>

partial_function (option) strlen :: "memory \<Rightarrow> nat \<Rightarrow> nat option" where
  "strlen m p = (if m p = 0 then Some 0 else do { n \<leftarrow> strlen m (p + 1); Some (Suc n) })"

definition lower :: "uchar \<Rightarrow> uchar" where
  "lower c = (if 0x41 \<le> c \<and> c \<le> 0x5A then c + 0x20 else c)"

partial_function (option) strcasecmp :: "memory \<Rightarrow> nat \<Rightarrow> nat \<Rightarrow> int option" where
  "strcasecmp m a b =
     (if lower (m a) \<noteq> lower (m b) \<or> m a = 0
      then Some (uint (lower (m a)) - uint (lower (m b)))
      else strcasecmp m (a + 1) (b + 1))"

fun memcmp :: "memory \<Rightarrow> nat \<Rightarrow> nat \<Rightarrow> nat \<Rightarrow> int" where
  "memcmp m a b 0 = 0"
| "memcmp m a b (Suc n) = (if m a \<noteq> m b then uint (m a) - uint (m b) else memcmp m (a + 1) (b + 1) n)"

section \<open>Lex_cstring\<close>

definition Lex_cstring :: lex_cstring where
  "Lex_cstring = \<lparr>str = 0, lex_length = 0\<rparr>"

definition Lex_cstring_copy :: "lex_cstring \<Rightarrow> lex_cstring" where
  "Lex_cstring_copy s = s"

definition Lex_cstring_len :: "nat \<Rightarrow> size_t \<Rightarrow> lex_cstring" where
  "Lex_cstring_len p len = \<lparr>str = p, lex_length = len\<rparr>"

definition Lex_cstring_range :: "nat \<Rightarrow> nat \<Rightarrow> lex_cstring option" where
  "Lex_cstring_range start end =
     (if start \<le> end then Some \<lparr>str = start, lex_length = of_nat (end - start)\<rparr> else None)"

definition lex_set :: "nat \<Rightarrow> size_t \<Rightarrow> lex_cstring \<Rightarrow> lex_cstring" where
  "lex_set p len s = s\<lparr>str := p, lex_length := len\<rparr>"

function ltrim_loop :: "(uchar \<Rightarrow> bool) \<Rightarrow> memory \<Rightarrow> lex_cstring \<Rightarrow> lex_cstring" where
  "ltrim_loop sp m s =
     (if lex_length s > 0 \<and> sp (m (str s))
      then ltrim_loop sp m (s\<lparr>lex_length := lex_length s - 1, str := str s + 1\<rparr>) else s)"
  by pat_completeness auto

function rtrim_loop :: "(uchar \<Rightarrow> bool) \<Rightarrow> memory \<Rightarrow> lex_cstring \<Rightarrow> lex_cstring" where
  "rtrim_loop sp m s =
     (if lex_length s > 0 \<and> sp (m (str s + unat (lex_length s - 1)))
      then rtrim_loop sp m (s\<lparr>lex_length := lex_length s - 1\<rparr>) else s)"
  by pat_completeness auto

lemma length_decreases: "lex_length s > 0 \<Longrightarrow> unat (lex_length s - 1) < unat (lex_length s)"
  by (simp add: unat_minus_one word_gt_0 unat_gt_0)

termination ltrim_loop
  by (relation "measure (\<lambda>(sp, m, s). unat (lex_length s))") (simp_all add: length_decreases)

termination rtrim_loop
  by (relation "measure (\<lambda>(sp, m, s). unat (lex_length s))") (simp_all add: length_decreases)

declare ltrim_loop.simps [simp del] rtrim_loop.simps [simp del]

definition ltrim_whitespace :: "(uchar \<Rightarrow> bool) \<Rightarrow> uint \<Rightarrow> memory \<Rightarrow> lex_cstring \<Rightarrow> lex_cstring option" where
  "ltrim_whitespace sp mbmin m s = (if mbmin = 1 then Some (ltrim_loop sp m s) else None)"

definition rtrim_whitespace :: "(uchar \<Rightarrow> bool) \<Rightarrow> uint \<Rightarrow> memory \<Rightarrow> lex_cstring \<Rightarrow> lex_cstring option" where
  "rtrim_whitespace sp mbmin m s = (if mbmin = 1 then Some (rtrim_loop sp m s) else None)"

definition trim_whitespace :: "(uchar \<Rightarrow> bool) \<Rightarrow> uint \<Rightarrow> memory \<Rightarrow> lex_cstring \<Rightarrow> lex_cstring option" where
  "trim_whitespace sp mbmin m s = do { t \<leftarrow> ltrim_whitespace sp mbmin m s; rtrim_whitespace sp mbmin m t }"

text \<open>The overload that also tells how many bytes were cut off in front.\<close>

definition trim_whitespace_prefix ::
    "(uchar \<Rightarrow> bool) \<Rightarrow> uint \<Rightarrow> memory \<Rightarrow> lex_cstring \<Rightarrow> (size_t \<times> lex_cstring) option" where
  "trim_whitespace_prefix sp mbmin m s = do {
     tmp \<leftarrow> ltrim_whitespace sp mbmin m (Lex_cstring_copy s);
     let prefix_length = of_nat (str tmp - str s);
     t \<leftarrow> rtrim_whitespace sp mbmin m tmp;
     Some (prefix_length, t) }"

definition Lex_cstring_strlen :: "memory \<Rightarrow> nat \<Rightarrow> lex_cstring option" where
  "Lex_cstring_strlen m from =
     (if from \<noteq> 0 then map_option (\<lambda>n. Lex_cstring_len from (of_nat n)) (strlen m from)
      else Some (Lex_cstring_len from 0))"

section \<open>Comparisons\<close>

definition lex_string_cmp :: "(memory \<Rightarrow> nat \<Rightarrow> nat \<Rightarrow> int) \<Rightarrow> memory \<Rightarrow> lex_cstring \<Rightarrow> lex_cstring \<Rightarrow> bool" where
  "lex_string_cmp my_strcasecmp m a b \<longleftrightarrow> my_strcasecmp m (str a) (str b) \<noteq> 0"

definition cmp :: "memory \<Rightarrow> lex_cstring \<Rightarrow> lex_cstring \<Rightarrow> bool" where
  "cmp m a b \<longleftrightarrow> lex_length a \<noteq> lex_length b \<or>
     (lex_length a \<noteq> 0 \<and> memcmp m (str a) (str b) (unat (lex_length a)) \<noteq> 0)"

definition lex_string_eq :: "memory \<Rightarrow> lex_cstring \<Rightarrow> lex_cstring \<Rightarrow> bool option" where
  "lex_string_eq m a b =
     (if lex_length a \<noteq> lex_length b then Some False
      else map_option (\<lambda>r. r = 0) (strcasecmp m (str a) (str b)))"

definition lex_string_eq_len :: "memory \<Rightarrow> lex_cstring \<Rightarrow> nat \<Rightarrow> size_t \<Rightarrow> bool option" where
  "lex_string_eq_len m a b b_length =
     (if lex_length a \<noteq> b_length then Some False
      else map_option (\<lambda>r. r = 0) (strcasecmp m (str a) b))"

section \<open>The text of a string\<close>

definition text_of :: "memory \<Rightarrow> lex_cstring \<Rightarrow> uchar list" where
  "text_of m s = copy_out m (str s) (unat (lex_length s))"

lemma copy_out_Suc: "copy_out m p (Suc n) = m p # copy_out m (p + 1) n"
  using copy_out_append [of m p 1 n] by (simp add: copy_out_def)

lemma copy_out_last: "copy_out m p (Suc n) = copy_out m p n @ [m (p + n)]"
  by (simp add: copy_out_def)

lemma length_text_of [simp]: "length (text_of m s) = unat (lex_length s)"
  by (simp add: text_of_def copy_out_def)

lemma text_of_head:
  assumes "lex_length s > 0"
  shows "text_of m s = m (str s) # text_of m (s\<lparr>lex_length := lex_length s - 1, str := str s + 1\<rparr>)"
    and "text_of m s = text_of m (s\<lparr>lex_length := lex_length s - 1\<rparr>) @ [m (str s + unat (lex_length s - 1))]"
proof -
  have "unat (lex_length s) = Suc (unat (lex_length s - 1))"
    using assms by (simp add: unat_minus_one word_gt_0 unat_gt_0)
  then have n: "text_of m s = copy_out m (str s) (Suc (unat (lex_length s - 1)))" by (simp add: text_of_def)
  show "text_of m s = m (str s) # text_of m (s\<lparr>lex_length := lex_length s - 1, str := str s + 1\<rparr>)"
    unfolding n by (simp add: copy_out_Suc text_of_def)
  show "text_of m s = text_of m (s\<lparr>lex_length := lex_length s - 1\<rparr>) @ [m (str s + unat (lex_length s - 1))]"
    unfolding n copy_out_last by (simp add: text_of_def)
qed

lemma text_of_empty: "\<not> lex_length s > 0 \<Longrightarrow> text_of m s = []"
  by (simp add: text_of_def copy_out_def word_gt_0)

lemma ltrim_loop_text:
  "text_of m (ltrim_loop sp m s) = dropWhile sp (text_of m s) \<and>
   str (ltrim_loop sp m s) = str s + length (takeWhile sp (text_of m s))"
proof (induction sp m s rule: ltrim_loop.induct)
  case (1 sp m s)
  show ?case
  proof (cases "lex_length s > 0")
    case True
    note h = text_of_head(1) [OF True, of m]
    show ?thesis using 1 True by (subst (1 2) ltrim_loop.simps) (simp add: h)
  next
    case False
    then show ?thesis by (subst (1 2) ltrim_loop.simps) (simp add: text_of_empty)
  qed
qed

lemma rtrim_loop_text:
  "text_of m (rtrim_loop sp m s) = rev (dropWhile sp (rev (text_of m s))) \<and>
   str (rtrim_loop sp m s) = str s"
proof (induction sp m s rule: rtrim_loop.induct)
  case (1 sp m s)
  show ?case
  proof (cases "lex_length s > 0")
    case True
    note h = text_of_head(2) [OF True, of m]
    show ?thesis using 1 True by (subst (1 2) rtrim_loop.simps) (simp add: h)
  next
    case False
    then show ?thesis by (subst (1 2) rtrim_loop.simps) (simp add: text_of_empty)
  qed
qed

lemma uint_eq [simp]: "uint (a :: uchar) = uint b \<longleftrightarrow> a = b"
  by (simp add: word_uint_eq_iff)

lemma uint_zero [simp]: "uint (a :: uchar) = 0 \<longleftrightarrow> a = 0"
  using uint_eq [of a 0] by simp

lemma memcmp_zero: "memcmp m a b n = 0 \<longleftrightarrow> copy_out m a n = copy_out m b n"
  by (induction n arbitrary: a b) (simp_all add: copy_out_Suc copy_out_def [of _ _ 0])

lemma cmp_text: "cmp m a b \<longleftrightarrow> text_of m a \<noteq> text_of m b"
proof (cases "lex_length a = lex_length b")
  case True
  then show ?thesis by (auto simp: cmp_def memcmp_zero text_of_def copy_out_def)
next
  case False
  then have "length (text_of m a) \<noteq> length (text_of m b)" by (simp add: word_unat_eq_iff)
  then have "text_of m a \<noteq> text_of m b" by metis
  then show ?thesis using False by (simp add: cmp_def)
qed

text \<open>A string whose text is followed by its first zero byte.\<close>

definition terminated :: "memory \<Rightarrow> lex_cstring \<Rightarrow> bool" where
  "terminated m s \<longleftrightarrow> strlen_is m (str s) (unat (lex_length s))"

lemma strlen_is_Suc: "strlen_is m p (Suc n) \<longleftrightarrow> m p \<noteq> 0 \<and> strlen_is m (p + 1) n"
  by (auto simp: strlen_is_def copy_out_Suc)

lemma strlen_returns: "strlen_is m p n \<Longrightarrow> strlen m p = Some n"
proof (induction n arbitrary: p)
  case 0
  then show ?case by (subst strlen.simps) (simp add: strlen_is_def)
next
  case (Suc n)
  then show ?case by (subst strlen.simps) (simp add: strlen_is_Suc)
qed

lemma lower_zero: "lower c = 0 \<longleftrightarrow> c = 0"
proof (cases "0x41 \<le> c \<and> c \<le> 0x5A")
  case True
  then have "unat c \<le> 0x5A" "unat c \<ge> 0x41" by (simp_all add: word_le_nat_alt)
  then have "unat (c + 0x20) = unat c + 0x20" by (simp add: unat_word_ariths)
  then have "lower c \<noteq> 0" "c \<noteq> 0" using True by (auto simp: lower_def)
  then show ?thesis by simp
qed (auto simp: lower_def)

lemma strcasecmp_returns:
  "strlen_is m a k \<Longrightarrow> strlen_is m b n \<Longrightarrow>
   \<exists>r. strcasecmp m a b = Some r \<and> (r = 0 \<longleftrightarrow> map lower (copy_out m a k) = map lower (copy_out m b n))"
proof (induction k arbitrary: a b n)
  case 0
  then have "m a = 0" by (simp add: strlen_is_def)
  then show ?case using 0 lower_zero [of 0] lower_zero [of "m b"]
    by (subst strcasecmp.simps, cases n)
      (auto simp: strlen_is_def copy_out_Suc copy_out_def [of _ _ 0])
next
  case (Suc k)
  then have a: "m a \<noteq> 0" "strlen_is m (a + 1) k" by (simp_all add: strlen_is_Suc)
  show ?case
  proof (cases n)
    case 0
    then have "m b = 0" using Suc.prems(2) by (simp add: strlen_is_def)
    then show ?thesis using a(1) lower_zero [of 0] lower_zero [of "m a"] 0
      by (subst strcasecmp.simps) (auto simp: copy_out_Suc copy_out_def [of _ _ 0])
  next
    case (Suc j)
    then have b: "strlen_is m (b + 1) j" using Suc.prems(2) by (simp add: strlen_is_Suc)
    show ?thesis
    proof (cases "lower (m a) = lower (m b)")
      case True
      then show ?thesis using Suc.IH [OF a(2) b] a(1) Suc
        by (subst strcasecmp.simps) (simp add: copy_out_Suc)
    next
      case False
      then show ?thesis using Suc
        by (subst strcasecmp.simps) (simp add: copy_out_Suc)
    qed
  qed
qed

lemma lex_string_eq_text:
  assumes "terminated m a" and "terminated m b"
  shows "lex_string_eq m a b = Some (map lower (text_of m a) = map lower (text_of m b))"
proof (cases "lex_length a = lex_length b")
  case True
  then show ?thesis using strcasecmp_returns assms
    by (fastforce simp: lex_string_eq_def terminated_def text_of_def)
next
  case False
  then have "length (map lower (text_of m a)) \<noteq> length (map lower (text_of m b))" by (simp add: word_unat_eq_iff)
  then have "map lower (text_of m a) \<noteq> map lower (text_of m b)" by metis
  then show ?thesis using False by (simp add: lex_string_eq_def)
qed
section \<open>Properties\<close>

definition trimmed :: "(uchar \<Rightarrow> bool) \<Rightarrow> uchar list \<Rightarrow> uchar list" where
  "trimmed sp cs = rev (dropWhile sp (rev (dropWhile sp cs)))"

lemma trimmed_ends:
  assumes "trimmed sp cs = c # ds"
  shows "\<not> sp c" and "\<not> sp (last (c # ds))"
proof -
  let ?e = "dropWhile sp cs"
  have r: "dropWhile sp (rev ?e) = rev (c # ds)" using assms by (metis rev_rev_ident trimmed_def)
  then have "dropWhile sp (rev ?e) \<noteq> []" by simp
  then show "\<not> sp (last (c # ds))" using r hd_dropWhile by (metis hd_rev)
  have "?e \<noteq> []"
  proof
    assume "?e = []"
    then have "trimmed sp cs = []" unfolding trimmed_def by (simp only: rev.simps dropWhile.simps)
    then show False using assms by simp
  qed
  moreover obtain ys where "?e = (c # ds) @ ys"
    using r by (metis rev_append rev_rev_ident takeWhile_dropWhile_id)
  then have "hd ?e = c" by simp
  ultimately show "\<not> sp c" using hd_dropWhile by metis
qed

lemma trim_fixpoint: "trimmed sp (text_of m t) = text_of m t \<Longrightarrow> ltrim_loop sp m t = t \<and> rtrim_loop sp m t = t"
proof -
  assume h: "trimmed sp (text_of m t) = text_of m t"
  show ?thesis
  proof (cases "lex_length t > 0")
    case True
    note hd = text_of_head(1) [OF True, of m] and tl = text_of_head(2) [OF True, of m]
    have "\<not> sp (m (str t))" using trimmed_ends(1) h hd by metis
    moreover have "\<not> sp (m (str t + unat (lex_length t - 1)))"
      using trimmed_ends(2) h hd tl last_snoc by metis
    ultimately show ?thesis by (subst ltrim_loop.simps, subst rtrim_loop.simps) simp
  next
    case False
    then show ?thesis by (subst ltrim_loop.simps, subst rtrim_loop.simps) simp
  qed
qed

lemma trimmed_trimmed: "trimmed sp (trimmed sp cs) = trimmed sp cs"
proof (cases "trimmed sp cs")
  case Nil
  show ?thesis unfolding Nil by (simp add: trimmed_def)
next
  case (Cons c ds)
  then have "dropWhile sp (trimmed sp cs) = trimmed sp cs" using trimmed_ends(1) [OF Cons] by simp
  moreover have "dropWhile sp (rev (trimmed sp cs)) = rev (trimmed sp cs)"
    by (simp add: trimmed_def)
  ultimately show ?thesis by (simp add: trimmed_def)
qed

lemma trim_ok:
  "\<exists>t. trim_whitespace sp 1 m s = Some t \<and> text_of m t = trimmed sp (text_of m s) \<and>
     str t = str s + length (takeWhile sp (text_of m s)) \<and> trim_whitespace sp 1 m t = Some t \<and>
     trim_whitespace_prefix sp 1 m s = Some (of_nat (length (takeWhile sp (text_of m s))), t)"
proof -
  let ?t = "rtrim_loop sp m (ltrim_loop sp m s)"
  have t: "text_of m ?t = trimmed sp (text_of m s)" "str ?t = str s + length (takeWhile sp (text_of m s))"
    by (simp_all add: rtrim_loop_text ltrim_loop_text trimmed_def)
  then have "ltrim_loop sp m ?t = ?t \<and> rtrim_loop sp m ?t = ?t" by (intro trim_fixpoint) (simp add: trimmed_trimmed)
  then show ?thesis using t
    by (intro exI [of _ ?t])
      (simp add: trim_whitespace_def trim_whitespace_prefix_def ltrim_whitespace_def rtrim_whitespace_def
        Lex_cstring_copy_def ltrim_loop_text)
qed

lemma strlen_string:
  assumes "strlen_is m p n" "p \<noteq> 0" "n < 2 ^ 64"
  shows "\<exists>t. Lex_cstring_strlen m p = Some t \<and> str t = p \<and> unat (lex_length t) = n \<and> terminated m t"
  using assms strlen_returns [OF assms(1)]
  by (simp add: Lex_cstring_strlen_def Lex_cstring_len_def terminated_def unat_of_nat)

lemma copy_out_small:
  "copy_out m p 2 = [m p, m (p + 1)]" "copy_out m p 3 = [m p, m (p + 1), m (p + 2)]"
  by (simp_all add: copy_out_def upt_rec)

text \<open>Two strings of two bytes with the same text, the first of a longer word each.\<close>

definition sample_words :: memory where
  "sample_words = (\<lambda>_. 0)(1 := 0x61, 2 := 0x62, 3 := 0x63, 11 := 0x61, 12 := 0x62, 13 := 0x64)"

lemma unterminated_differ:
  "text_of sample_words (Lex_cstring_len 1 2) = text_of sample_words (Lex_cstring_len 11 2) \<and>
   lex_string_eq sample_words (Lex_cstring_len 1 2) (Lex_cstring_len 11 2) = Some False"
proof -
  have "strcasecmp sample_words 1 11 = Some (uint (0x63 :: uchar) - uint (0x64 :: uchar))"
    by (subst strcasecmp.simps, subst strcasecmp.simps, subst strcasecmp.simps)
      (simp add: sample_words_def lower_def)
  then show ?thesis
    by (simp add: lex_string_eq_def Lex_cstring_len_def text_of_def copy_out_small sample_words_def)
qed

text \<open>
  Trimming a string whose characters have at least one byte gives the part of the text between its
  first and its last byte that is not white space, in place; trimming again changes nothing, and the
  overload with a prefix length reports the bytes cut off in front. \<^verbatim>\<open>cmp\<close> tells whether two texts
  differ, and \<^verbatim>\<open>lex_string_eq\<close> whether they are equal up to the case of letters, provided that
  both are followed by their first zero byte; without that it reads past the end, and two strings with the
  same text can be reported as different. A string made of a C string has its length and is terminated.
\<close>
theorem lex_string_operations:
  "(\<exists>t. trim_whitespace sp 1 m s = Some t \<and> text_of m t = trimmed sp (text_of m s) \<and>
      str t = str s + length (takeWhile sp (text_of m s)) \<and> trim_whitespace sp 1 m t = Some t \<and>
      trim_whitespace_prefix sp 1 m s = Some (of_nat (length (takeWhile sp (text_of m s))), t)) \<and>
    (cmp m a b \<longleftrightarrow> text_of m a \<noteq> text_of m b) \<and>
    (terminated m a \<and> terminated m b \<longrightarrow>
      lex_string_eq m a b = Some (map lower (text_of m a) = map lower (text_of m b)) \<and>
      lex_string_eq_len m a (str b) (lex_length b) = lex_string_eq m a b) \<and>
    (\<exists>m a b. text_of m a = text_of m b \<and> lex_string_eq m a b = Some False) \<and>
    (strlen_is m p n \<and> p \<noteq> 0 \<and> n < 2 ^ 64 \<longrightarrow>
      (\<exists>t. Lex_cstring_strlen m p = Some t \<and> str t = p \<and> unat (lex_length t) = n \<and> terminated m t))"
proof (intro conjI impI)
  show "lex_string_eq m a b = Some (map lower (text_of m a) = map lower (text_of m b))"
    if "terminated m a \<and> terminated m b" using lex_string_eq_text that by blast
  show "lex_string_eq_len m a (str b) (lex_length b) = lex_string_eq m a b"
    by (simp add: lex_string_eq_len_def lex_string_eq_def)
  show "\<exists>m a b. text_of m a = text_of m b \<and> lex_string_eq m a b = Some False"
    using unterminated_differ by blast
  show "\<exists>t. Lex_cstring_strlen m p = Some t \<and> str t = p \<and> unat (lex_length t) = n \<and> terminated m t"
    if "strlen_is m p n \<and> p \<noteq> 0 \<and> n < 2 ^ 64" using strlen_string that by blast
qed (rule trim_ok cmp_text)+

theorem lex_string_operations_witness:
  "lex_string_eq sample_words (Lex_cstring_len 1 3) (Lex_cstring_len 11 3) = Some False \<and>
   (\<exists>t. Lex_cstring_strlen sample_words 1 = Some t \<and> unat (lex_length t) = 3)"
proof -
  have t: "terminated sample_words (Lex_cstring_len 1 3)" "terminated sample_words (Lex_cstring_len 11 3)"
    by (simp_all add: terminated_def strlen_is_def Lex_cstring_len_def copy_out_small sample_words_def)
  have s: "strlen_is sample_words 1 3"
    by (simp add: strlen_is_def copy_out_small sample_words_def)
  have ne: "map lower (text_of sample_words (Lex_cstring_len 1 3)) \<noteq> map lower (text_of sample_words (Lex_cstring_len 11 3))"
    by (simp add: text_of_def Lex_cstring_len_def copy_out_small sample_words_def lower_def)
  note p = lex_string_operations [of "\<lambda>_. False" sample_words Lex_cstring "Lex_cstring_len 1 3" "Lex_cstring_len 11 3" 1 3]
  have "lex_string_eq sample_words (Lex_cstring_len 1 3) (Lex_cstring_len 11 3) = Some False" using p t ne by simp
  moreover have "\<exists>t. Lex_cstring_strlen sample_words 1 = Some t \<and> unat (lex_length t) = 3"
    using p s by auto
  ultimately show ?thesis by blast
qed

end
