(* ===== verification/Thread_Cache.thy ===== *)
theory Thread_Cache
  imports Prelude "HOL-Library.Monad_Syntax"
begin

text \<open>
  The cache of threads that wait for connections: \<^verbatim>\<open>thread_cache.h\<close>.

  Connection handlers call \<open>enqueue\<close>, worker threads call \<open>park\<close> when their connection ends, and
  administrators call \<open>flush\<close> and \<open>final_flush\<close>. A section between \<^verbatim>\<open>mysql_mutex_lock\<close> and the unlock, or the
  wait that releases the mutex, is one atomic step, and so is the increment in \<open>final_flush\<close>, which the
  code does without the mutex; \<open>phase\<close> and \<open>flush_phase\<close> say where in the code a thread
  is. A wait ends by a signal, by its timeout, or without any reason, as the documentation of condition
  variables allows; the flag of the step relation says whether the last may happen to a flush. The queue of
  connections is the list that \<^verbatim>\<open>I_List\<close> holds (theory \<open>Sql_I_List\<close>). The registration of the instruments is left
  out.
\<close>

type_synonym connect = nat

datatype phase =
  Running
| Blocked
| Awake bool
| Leaving "connect option"

datatype flush_phase =
  Idle
| Final
| Waiting bool
| Woken bool
| Flushed

record thread_cache =
  connects :: "connect list"
  cached_thread_count :: uint32
  kill_cached_threads :: uint32
  workers :: "nat \<Rightarrow> phase"
  flushers :: "nat \<Rightarrow> flush_phase"
  pending_signals :: nat
  accepted :: "connect list"
  served :: "connect list"

section \<open>The functions of the class\<close>

definition init :: thread_cache where
  "init = \<lparr>connects = [], cached_thread_count = 0, kill_cached_threads = 0,
     workers = (\<lambda>t. Running), flushers = (\<lambda>f. Idle), pending_signals = 0, accepted = [], served = []\<rparr>"

definition destroy_asserts :: "thread_cache \<Rightarrow> bool" where
  "destroy_asserts st \<longleftrightarrow> cached_thread_count st = 0 \<and> connects st = []"

definition size_of :: "thread_cache \<Rightarrow> uint32" where
  "size_of st = cached_thread_count st"

text \<open>\<^verbatim>\<open>list.get()\<close>: the first connection, if there is one.\<close>

definition get :: "thread_cache \<Rightarrow> connect option \<times> thread_cache" where
  "get st = (case connects st of
       [] \<Rightarrow> (None, st)
     | c # cs \<Rightarrow> (Some c, st\<lparr>connects := cs, served := served st @ [c]\<rparr>))"

definition enqueue :: "thread_cache \<Rightarrow> connect \<Rightarrow> bool \<times> thread_cache" where
  "enqueue st c =
     (if cached_thread_count st \<noteq> 0
      then (True, st\<lparr>connects := connects st @ [c], cached_thread_count := cached_thread_count st - 1,
                     pending_signals := pending_signals st + 1, accepted := accepted st @ [c]\<rparr>)
      else (False, st))"

text \<open>\<^verbatim>\<open>park()\<close> up to the wait, and from the end of a wait to the next one or to the unlock.\<close>

definition park :: "uint32 \<Rightarrow> thread_cache \<Rightarrow> nat \<Rightarrow> thread_cache" where
  "park thread_cache_size st t =
     (case get st of
        (Some c, st) \<Rightarrow> st\<lparr>cached_thread_count := cached_thread_count st + 1\<rparr>
      | (None, st) \<Rightarrow>
          if cached_thread_count st < thread_cache_size \<and> kill_cached_threads st = 0
          then st\<lparr>cached_thread_count := cached_thread_count st + 1, workers := (workers st)(t := Blocked)\<rparr>
          else st)"

definition leave :: "thread_cache \<Rightarrow> nat \<Rightarrow> bool \<Rightarrow> connect option \<Rightarrow> thread_cache" where
  "leave st t flushed c = st\<lparr>workers := (workers st)(t := if flushed then Leaving c else Running)\<rparr>"

definition park_wake :: "thread_cache \<Rightarrow> nat \<Rightarrow> bool \<Rightarrow> thread_cache" where
  "park_wake st t timed_out =
     (let flushed = kill_cached_threads st \<noteq> 0
      in case get st of
           (Some c, st) \<Rightarrow> leave st t flushed (Some c)
         | (None, st) \<Rightarrow>
             if flushed \<or> timed_out
             then leave (st\<lparr>cached_thread_count := cached_thread_count st - 1\<rparr>) t flushed None
             else st\<lparr>workers := (workers st)(t := Blocked)\<rparr>)"

text \<open>The loop of \<^verbatim>\<open>flush()\<close> when the mutex is held: \<open>b\<close> says that \<^verbatim>\<open>final_flush()\<close> called it.\<close>

definition wake_all :: "(nat \<Rightarrow> phase) \<Rightarrow> nat \<Rightarrow> phase" where
  "wake_all w t = (if w t = Blocked then Awake False else w t)"

definition flush_loop :: "thread_cache \<Rightarrow> nat \<Rightarrow> bool \<Rightarrow> thread_cache" where
  "flush_loop st f b =
     (if cached_thread_count st \<noteq> 0
      then st\<lparr>workers := wake_all (workers st), flushers := (flushers st)(f := Waiting b)\<rparr>
      else st\<lparr>kill_cached_threads := kill_cached_threads st - 1,
             flushers := (flushers st)(f := if b then Flushed else Idle)\<rparr>)"

definition flush :: "thread_cache \<Rightarrow> nat \<Rightarrow> bool \<Rightarrow> thread_cache" where
  "flush st f b = flush_loop (st\<lparr>kill_cached_threads := kill_cached_threads st + 1\<rparr>) f b"

definition final_flush :: "thread_cache \<Rightarrow> nat \<Rightarrow> thread_cache" where
  "final_flush st f =
     st\<lparr>kill_cached_threads := kill_cached_threads st + 1, flushers := (flushers st)(f := Final)\<rparr>"

section \<open>Interleavings\<close>

text \<open>
  \<open>n\<close> workers and \<open>m\<close> administrators run; \<open>spurious\<close> allows the wait of a flush to end for no reason.
\<close>

inductive step :: "bool \<Rightarrow> nat \<Rightarrow> nat \<Rightarrow> thread_cache \<Rightarrow> thread_cache \<Rightarrow> bool" for spurious n m where
  enqueue: "step spurious n m st (snd (enqueue st c))"
| signal: "pending_signals st \<noteq> 0 \<Longrightarrow> workers st t = Blocked \<Longrightarrow>
     step spurious n m st (st\<lparr>pending_signals := pending_signals st - 1, workers := (workers st)(t := Awake False)\<rparr>)"
| no_signal: "pending_signals st \<noteq> 0 \<Longrightarrow> (\<forall>t. workers st t \<noteq> Blocked) \<Longrightarrow>
     step spurious n m st (st\<lparr>pending_signals := pending_signals st - 1\<rparr>)"
| wake: "workers st t = Blocked \<Longrightarrow> step spurious n m st (st\<lparr>workers := (workers st)(t := Awake timed_out)\<rparr>)"
| park: "workers st t = Running \<Longrightarrow> t < n \<Longrightarrow> step spurious n m st (park thread_cache_size st t)"
| park_wake: "workers st t = Awake timed_out \<Longrightarrow> step spurious n m st (park_wake st t timed_out)"
| tell: "workers st t = Leaving c \<Longrightarrow> flushers st f = Waiting b \<Longrightarrow>
     step spurious n m st (st\<lparr>workers := (workers st)(t := Running), flushers := (flushers st)(f := Woken b)\<rparr>)"
| tell_nobody: "workers st t = Leaving c \<Longrightarrow> (\<forall>f b. flushers st f \<noteq> Waiting b) \<Longrightarrow>
     step spurious n m st (st\<lparr>workers := (workers st)(t := Running)\<rparr>)"
| flush: "flushers st f = Idle \<Longrightarrow> f < m \<Longrightarrow> step spurious n m st (flush st f False)"
| final_flush: "flushers st f = Idle \<Longrightarrow> f < m \<Longrightarrow> step spurious n m st (final_flush st f)"
| final_flush_rest: "flushers st f = Final \<Longrightarrow> step spurious n m st (flush st f True)"
| flush_wake: "flushers st f = Woken b \<Longrightarrow> step spurious n m st (flush_loop st f b)"
| flush_spurious: "spurious \<Longrightarrow> flushers st f = Waiting b \<Longrightarrow>
     step spurious n m st (st\<lparr>flushers := (flushers st)(f := Woken b)\<rparr>)"

inductive steps :: "bool \<Rightarrow> nat \<Rightarrow> nat \<Rightarrow> thread_cache \<Rightarrow> thread_cache \<Rightarrow> bool" for spurious n m st where
  refl: "steps spurious n m st st"
| step: "steps spurious n m st st1 \<Longrightarrow> step spurious n m st1 st2 \<Longrightarrow> steps spurious n m st st2"

abbreviation reachable :: "bool \<Rightarrow> nat \<Rightarrow> nat \<Rightarrow> thread_cache \<Rightarrow> bool" where
  "reachable spurious n m \<equiv> steps spurious n m init"

section \<open>Invariant\<close>

definition is_parked :: "phase \<Rightarrow> bool" where
  "is_parked p \<longleftrightarrow> (case p of Blocked \<Rightarrow> True | Awake b \<Rightarrow> True | _ \<Rightarrow> False)"

definition parked :: "nat \<Rightarrow> thread_cache \<Rightarrow> nat" where
  "parked n st = (\<Sum>t<n. of_bool (is_parked (workers st t)))"

definition weight :: "flush_phase \<Rightarrow> nat" where
  "weight p = (case p of Idle \<Rightarrow> 0 | Final \<Rightarrow> 1 | Waiting b \<Rightarrow> (if b then 2 else 1) | Woken b \<Rightarrow> (if b then 2 else 1)
     | Flushed \<Rightarrow> 1)"

definition requests :: "nat \<Rightarrow> thread_cache \<Rightarrow> nat" where
  "requests m st = (\<Sum>f<m. weight (flushers st f))"

text \<open>
  The parked threads are those that are counted and those a queued connection is waiting for; the number
  of flush requests is the number of flushes under way; every accepted connection is served or queued.
\<close>

definition cache_inv :: "nat \<Rightarrow> nat \<Rightarrow> thread_cache \<Rightarrow> bool" where
  "cache_inv n m st \<longleftrightarrow>
     parked n st = unat (cached_thread_count st) + length (connects st) \<and>
     unat (kill_cached_threads st) = requests m st \<and>
     accepted st = served st @ connects st \<and>
     (\<forall>t\<ge>n. workers st t = Running) \<and> (\<forall>f\<ge>m. flushers st f = Idle)"
lemma sum_update:
  fixes g :: "'p \<Rightarrow> nat" and w :: "nat \<Rightarrow> 'p"
  assumes "t < n"
  shows "(\<Sum>i<n. g ((w(t := p)) i)) + g (w t) = (\<Sum>i<n. g (w i)) + g p"
proof -
  have "(\<Sum>i<n. h i) = h t + (\<Sum>i\<in>{..<n} - {t}. h i)" for h :: "nat \<Rightarrow> nat"
    using assms by (intro sum.remove) auto
  from this [of "\<lambda>i. g ((w(t := p)) i)"] this [of "\<lambda>i. g (w i)"]
  show ?thesis by simp
qed

lemma parked_update:
  "t < n \<Longrightarrow> parked n (st\<lparr>workers := (workers st)(t := p)\<rparr>) + of_bool (is_parked (workers st t)) =
     parked n st + of_bool (is_parked p)"
  using sum_update [of t n "\<lambda>q. of_bool (is_parked q)" "workers st" p] by (simp add: parked_def)

lemma requests_update:
  "f < m \<Longrightarrow> requests m (st\<lparr>flushers := (flushers st)(f := p)\<rparr>) + weight (flushers st f) =
     requests m st + weight p"
  using sum_update [of f m weight "flushers st" p] by (simp add: requests_def)

text \<open>Both sums depend on one field each.\<close>

lemma parked_cong: "workers st' = workers st \<Longrightarrow> parked n st' = parked n st"
  by (simp add: parked_def)

lemma requests_cong: "flushers st' = flushers st \<Longrightarrow> requests m st' = requests m st"
  by (simp add: requests_def)

lemma phases [simp]:
  "is_parked Blocked" "is_parked (Awake b)" "\<not> is_parked Running" "\<not> is_parked (Leaving c)"
  "weight Idle = 0" "weight Final = 1" "weight (Waiting b) = (if b then 2 else 1)"
  "weight (Woken b) = (if b then 2 else 1)" "weight Flushed = 1"
  by (simp_all add: is_parked_def weight_def)

lemma parked_le: "parked n st \<le> n"
proof -
  have "parked n st \<le> (\<Sum>t<n. 1)" unfolding parked_def by (rule sum_mono) simp
  then show ?thesis by simp
qed

lemma requests_le: "requests m st \<le> 2 * m"
proof -
  have "requests m st \<le> (\<Sum>f<m. 2)" unfolding requests_def
    by (rule sum_mono) (simp add: weight_def split: flush_phase.split)
  then show ?thesis by simp
qed

lemma parked_pos: "t < n \<Longrightarrow> is_parked (workers st t) \<Longrightarrow> parked n st > 0"
  unfolding parked_def by (subst sum.remove [of "{..<n}" t]) auto

lemma requests_pos: "f < m \<Longrightarrow> weight (flushers st f) \<le> requests m st"
  unfolding requests_def by (rule member_le_sum) auto

lemma unat_inc: "unat (x :: uint32) + 1 < 2 ^ 32 \<Longrightarrow> unat (x + 1) = unat x + 1"
  by (simp add: unat_word_ariths)

lemma unat_dec: "x \<noteq> 0 \<Longrightarrow> unat (x - 1 :: uint32) = unat x - 1 \<and> 0 < unat x"
  by (simp add: unat_minus_one unat_gt_0)

lemma get_cases:
  obtains "connects st = []" "get st = (None, st)"
  | c cs where "connects st = c # cs" "get st = (Some c, st\<lparr>connects := cs, served := served st @ [c]\<rparr>)"
  by (cases "connects st") (auto simp: get_def)

text \<open>A step that changes what the invariant reads in one of the ways below keeps it.\<close>

lemma inv_worker:
  assumes "cache_inv n m st" and "t < n" and "workers st' = (workers st)(t := p)"
    and "flushers st' = flushers st" and "kill_cached_threads st' = kill_cached_threads st"
    and "unat (cached_thread_count st') + length (connects st') + of_bool (is_parked (workers st t)) =
      unat (cached_thread_count st) + length (connects st) + of_bool (is_parked p)"
    and "accepted st' = served st' @ connects st'"
  shows "cache_inv n m st'"
proof -
  have "parked n st' = parked n (st\<lparr>workers := (workers st)(t := p)\<rparr>)" by (rule parked_cong) (simp add: assms(3))
  then have "parked n st' = unat (cached_thread_count st') + length (connects st')"
    using parked_update [OF assms(2), of st p] assms(1,6) by (simp add: cache_inv_def)
  moreover have "requests m st' = requests m st" by (rule requests_cong) (rule assms(4))
  ultimately show ?thesis using assms(1,2,3,4,5,7) by (simp add: cache_inv_def)
qed

lemma inv_park:
  assumes "cache_inv n m st" and "workers st t = Running" and "t < n" and "n < 2 ^ 32"
  shows "cache_inv n m (park thread_cache_size st t)"
proof -
  have bound: "unat (cached_thread_count st) + length (connects st) \<le> n"
    using assms(1) parked_le [of n st] by (simp add: cache_inv_def)
  have same: "(workers st)(t := Running) = workers st" using assms(2) by (simp add: fun_upd_idem)
  show ?thesis
  proof (cases st rule: get_cases)
    case 1
    show ?thesis
    proof (cases "cached_thread_count st < thread_cache_size \<and> kill_cached_threads st = 0")
      case True
      then have "unat (cached_thread_count st) < unat thread_cache_size" by (simp add: word_less_nat_alt)
      then have "unat (cached_thread_count st + 1) = unat (cached_thread_count st) + 1"
        using unat_lt_pow [of 32 thread_cache_size] by (intro unat_inc) simp
      then show ?thesis
        using 1 True assms(1,2)
        by (intro inv_worker [OF assms(1,3), where p = Blocked]) (simp_all add: park_def cache_inv_def)
    next
      case False
      then show ?thesis using 1 assms(1) by (auto simp: park_def)
    qed
  next
    case (2 c cs)
    then have "unat (cached_thread_count st + 1) = unat (cached_thread_count st) + 1"
      using bound assms(4) by (intro unat_inc) simp
    then show ?thesis
      using 2 assms(1,2) same
      by (intro inv_worker [OF assms(1,3), where p = Running]) (simp_all add: park_def cache_inv_def)
  qed
qed

lemma inv_park_wake:
  assumes "cache_inv n m st" and "workers st t = Awake timed_out" and "t < n"
  shows "cache_inv n m (park_wake st t timed_out)"
    and "connects st = [] \<Longrightarrow> cached_thread_count st \<noteq> 0"
proof -
  let ?flushed = "kill_cached_threads st \<noteq> 0"
  have pos: "0 < unat (cached_thread_count st) + length (connects st)"
    using parked_pos [OF assms(3), of st] assms(1,2) by (simp add: cache_inv_def)
  then show nz: "connects st = [] \<Longrightarrow> cached_thread_count st \<noteq> 0" by auto
  show "cache_inv n m (park_wake st t timed_out)"
  proof (cases st rule: get_cases)
    case 1
    show ?thesis
    proof (cases "?flushed \<or> timed_out")
      case True
      have "unat (cached_thread_count st - 1) + 1 = unat (cached_thread_count st)"
        using unat_dec [OF nz] 1 by simp
      then show ?thesis
        using 1 True assms(1,2)
        by (intro inv_worker [OF assms(1,3), where p = "if ?flushed then Leaving None else Running"])
          (simp_all add: park_wake_def leave_def cache_inv_def Let_def)
    next
      case False
      then show ?thesis
        using 1 assms(1,2)
        by (intro inv_worker [OF assms(1,3), where p = Blocked]) (simp_all add: park_wake_def cache_inv_def Let_def)
    qed
  next
    case (2 c cs)
    then show ?thesis
      using assms(1,2)
      by (intro inv_worker [OF assms(1,3), where p = "if ?flushed then Leaving (Some c) else Running"])
        (simp_all add: park_wake_def leave_def cache_inv_def Let_def)
  qed
qed

lemma inv_enqueue: "cache_inv n m st \<Longrightarrow> cache_inv n m (snd (enqueue st c))"
  using unat_dec [of "cached_thread_count st"]
  by (auto simp: enqueue_def cache_inv_def parked_def requests_def)

lemma inv_flusher:
  assumes "cache_inv n m st" and "f < m"
    and "unat kill + weight (flushers st f) = unat (kill_cached_threads st) + weight p"
    and "\<And>t. is_parked (w t) = is_parked (workers st t)" and "\<And>t. n \<le> t \<Longrightarrow> w t = Running"
  shows "cache_inv n m (st\<lparr>kill_cached_threads := kill, workers := w, flushers := (flushers st)(f := p)\<rparr>)"
proof -
  let ?st = "st\<lparr>kill_cached_threads := kill, workers := w, flushers := (flushers st)(f := p)\<rparr>"
  have "requests m ?st = requests m (st\<lparr>flushers := (flushers st)(f := p)\<rparr>)" by (rule requests_cong) simp
  then have "requests m ?st = unat kill"
    using requests_update [OF assms(2), of st p] assms(1,3) by (simp add: cache_inv_def)
  moreover have "parked n ?st = parked n st" using assms(4) by (simp add: parked_def)
  ultimately show ?thesis using assms(1,2,5) by (simp add: cache_inv_def)
qed

lemma wake_all_parked [simp]: "is_parked (wake_all w t) = is_parked (w t)"
  by (simp add: wake_all_def)

lemma inv_flush_loop:
  assumes "cache_inv n m st" and "f < m" and "weight (flushers st f) = (if b then 2 else 1)"
  shows "cache_inv n m (flush_loop st f b)"
proof -
  have k: "kill_cached_threads st \<noteq> 0"
    using assms requests_pos [OF assms(2), of st] by (auto simp: cache_inv_def split: if_splits)
  have w: "wake_all (workers st) t = Running" if "n \<le> t" for t
    using assms(1) that by (simp add: cache_inv_def wake_all_def)
  show ?thesis
  proof (cases "cached_thread_count st = 0")
    case True
    then show ?thesis
      using inv_flusher [OF assms(1,2), of "kill_cached_threads st - 1" "if b then Flushed else Idle" "workers st"]
        unat_dec [OF k] assms by (simp add: flush_loop_def cache_inv_def split: if_splits)
  next
    case False
    then show ?thesis
      using inv_flusher [OF assms(1,2), of "kill_cached_threads st" "Waiting b" "wake_all (workers st)"] assms(3) w
      by (simp add: flush_loop_def)
  qed
qed
lemma inv_flush_start:
  assumes "cache_inv n m st" and "f < m" and "2 * m < 2 ^ 32" and "weight (flushers st f) + 1 = weight p"
  shows "cache_inv n m (st\<lparr>kill_cached_threads := kill_cached_threads st + 1, flushers := (flushers st)(f := p)\<rparr>)"
proof -
  have "requests m st + 1 \<le> 2 * m"
    using requests_update [OF assms(2), of st p] requests_le [of m "st\<lparr>flushers := (flushers st)(f := p)\<rparr>"] assms(4)
    by simp
  then have "unat (kill_cached_threads st + 1) = unat (kill_cached_threads st) + 1"
    using assms(1,3) by (intro unat_inc) (simp add: cache_inv_def)
  then show ?thesis
    using inv_flusher [OF assms(1,2), of "kill_cached_threads st + 1" p "workers st"] assms(1,4)
    by (simp add: cache_inv_def)
qed

lemma inv_flush:
  assumes "cache_inv n m st" and "f < m" and "2 * m < 2 ^ 32" and "weight (flushers st f) = (if b then 1 else 0)"
  shows "cache_inv n m (flush st f b)"
proof -
  let ?st = "st\<lparr>kill_cached_threads := kill_cached_threads st + 1, flushers := (flushers st)(f := Woken b)\<rparr>"
  have "cache_inv n m ?st" using assms(4) by (intro inv_flush_start [OF assms(1-3)]) simp
  then have "cache_inv n m (flush_loop ?st f b)" by (rule inv_flush_loop [OF _ assms(2)]) simp
  moreover have "flush st f b = flush_loop ?st f b" by (simp add: flush_def flush_loop_def)
  ultimately show ?thesis by simp
qed

lemma inv_threads:
  assumes "cache_inv n m st"
  shows "workers st t \<noteq> Running \<Longrightarrow> t < n" and "flushers st f \<noteq> Idle \<Longrightarrow> f < m"
  using assms unfolding cache_inv_def by (meson not_le)+

lemma inv_step:
  assumes "step spurious n m st st'" and "cache_inv n m st" and "n < 2 ^ 32" and "2 * m < 2 ^ 32"
  shows "cache_inv n m st'"
  using assms(1)
proof cases
  case (enqueue c)
  then show ?thesis using inv_enqueue [OF assms(2)] by simp
next
  case (signal t)
  then show ?thesis
    using assms(2) by (intro inv_worker [OF assms(2) inv_threads(1) [OF assms(2)], where t = t and p = "Awake False"])
      (simp_all add: cache_inv_def)
next
  case no_signal
  then show ?thesis using assms(2) by (simp add: cache_inv_def parked_def requests_def)
next
  case (wake t timed_out)
  then show ?thesis
    using assms(2) by (intro inv_worker [OF assms(2) inv_threads(1) [OF assms(2)], where t = t and p = "Awake timed_out"])
      (simp_all add: cache_inv_def)
next
  case (park t thread_cache_size)
  then show ?thesis using inv_park [OF assms(2) _ _ assms(3)] by simp
next
  case (park_wake t timed_out)
  then show ?thesis using inv_park_wake(1) [OF assms(2)] inv_threads(1) [OF assms(2), of t] by simp
next
  case (tell t c f b)
  then have "cache_inv n m (st\<lparr>workers := (workers st)(t := Running)\<rparr>)"
    using assms(2) by (intro inv_worker [OF assms(2) inv_threads(1) [OF assms(2)], where t = t and p = Running])
      (simp_all add: cache_inv_def)
  from inv_flusher [OF this inv_threads(2) [OF assms(2)], of f "kill_cached_threads st" "Woken b"
      "(workers st)(t := Running)"]
  show ?thesis using tell assms(2) by (simp add: cache_inv_def)
next
  case (tell_nobody t c)
  then show ?thesis
    using assms(2) by (intro inv_worker [OF assms(2) inv_threads(1) [OF assms(2)], where t = t and p = Running])
      (simp_all add: cache_inv_def)
next
  case (flush f)
  then show ?thesis using inv_flush [OF assms(2) _ assms(4), of f False] by simp
next
  case (final_flush f)
  then show ?thesis using inv_flush_start [OF assms(2) _ assms(4), of f Final] by (simp add: final_flush_def)
next
  case (final_flush_rest f)
  then show ?thesis using inv_flush [OF assms(2) inv_threads(2) [OF assms(2)] assms(4), of f True] by simp
next
  case (flush_wake f b)
  then show ?thesis using inv_flush_loop [OF assms(2) inv_threads(2) [OF assms(2)], of f b] by simp
next
  case (flush_spurious f b)
  then show ?thesis
    using inv_flusher [OF assms(2) inv_threads(2) [OF assms(2)], of f "kill_cached_threads st" "Woken b" "workers st"]
      assms(2) by (simp add: cache_inv_def)
qed

lemma inv_init: "cache_inv n m init"
  by (simp add: cache_inv_def init_def parked_def requests_def)

lemma inv_reachable:
  assumes "reachable spurious n m st" and "n < 2 ^ 32" and "2 * m < 2 ^ 32"
  shows "cache_inv n m st"
  using assms(1) by (induction rule: steps.induct) (simp_all add: inv_init inv_step [OF _ _ assms(2,3)])

section \<open>One flush at a time\<close>

text \<open>A flush that waits is never forgotten: a thread that it woke is still to leave, or to tell it.\<close>

definition watched :: "thread_cache \<Rightarrow> bool" where
  "watched st \<longleftrightarrow> (\<forall>b. flushers st 0 = Waiting b \<longrightarrow> (\<forall>t. workers st t \<noteq> Blocked) \<and>
     (\<exists>t c d. workers st t = Awake c \<or> workers st t = Leaving d))"

lemma wake_all_not_blocked [simp]: "wake_all w t \<noteq> Blocked"
  by (simp add: wake_all_def)

lemma flush_loop_watched:
  assumes "cache_inv n 1 st" and "flushers st 0 = Woken b"
  shows "watched (flush_loop st 0 b)"
proof (cases "cached_thread_count st = 0")
  case True
  then show ?thesis by (simp add: flush_loop_def watched_def)
next
  case False
  then have "0 < parked n st" using assms(1) unat_dec [OF False] by (simp add: cache_inv_def)
  then obtain t where "is_parked (workers st t)"
    unfolding parked_def by (metis (mono_tags, lifting) gr_implies_not0 of_bool_eq(1) sum.neutral)
  then have "\<exists>c. wake_all (workers st) t = Awake c"
    by (auto simp: wake_all_def is_parked_def split: phase.splits)
  then show ?thesis using False by (auto simp: flush_loop_def watched_def)
qed
lemma waiting_kill:
  assumes "cache_inv n m st" and "flushers st f = Waiting b"
  shows "kill_cached_threads st \<noteq> 0"
proof -
  have "f < m" using inv_threads(2) [OF assms(1)] assms(2) by simp
  from requests_pos [OF this, of st] show ?thesis using assms by (auto simp: cache_inv_def split: if_splits)
qed

lemma park_killed: "kill_cached_threads st \<noteq> 0 \<Longrightarrow> workers (park sz st t) = workers st \<and> flushers (park sz st t) = flushers st"
  by (cases st rule: get_cases) (simp_all add: park_def)

lemma park_wake_killed:
  "kill_cached_threads st \<noteq> 0 \<Longrightarrow> \<exists>c. workers (park_wake st t timed_out) = (workers st)(t := Leaving c)"
  by (cases st rule: get_cases) (simp_all add: park_wake_def leave_def Let_def, blast+)

lemma park_flushers [simp]: "flushers (park sz st t) = flushers st" "flushers (park_wake st t b) = flushers st"
  by (cases st rule: get_cases; simp add: park_def park_wake_def leave_def Let_def)+

lemma watched_other: "flushers st' 0 = flushers st 0 \<Longrightarrow> \<forall>b. flushers st 0 \<noteq> Waiting b \<Longrightarrow> watched st'"
  by (simp add: watched_def)

lemma flush_watched:
  assumes "cache_inv n 1 st" and "n < 2 ^ 32" and "weight (flushers st 0) = (if b then 1 else 0)"
  shows "watched (flush st 0 b)"
proof -
  let ?st = "st\<lparr>kill_cached_threads := kill_cached_threads st + 1, flushers := (flushers st)(0 := Woken b)\<rparr>"
  have "cache_inv n 1 ?st" using assms(3) by (intro inv_flush_start [OF assms(1)]) simp_all
  then have "watched (flush_loop ?st 0 b)" by (rule flush_loop_watched) simp
  moreover have "flush st 0 b = flush_loop ?st 0 b" by (simp add: flush_def flush_loop_def)
  ultimately show ?thesis by simp
qed

lemma watched_step:
  assumes s: "step spurious n 1 st st'" and i: "cache_inv n 1 st" and n: "n < 2 ^ 32" and w: "watched st"
  shows "watched st'"
proof -
  have zero: "f = 0" if "flushers st f \<noteq> Idle" for f using inv_threads(2) [OF i that] by simp
  show ?thesis
    using s
  proof cases
    case (enqueue c)
    then show ?thesis using w by (simp add: enqueue_def watched_def)
  next
    case (signal t)
    then show ?thesis using w by (auto simp: watched_def)
  next
    case no_signal
    then show ?thesis using w by (simp add: watched_def)
  next
    case (wake t timed_out)
    then show ?thesis using w by (auto simp: watched_def)
  next
    case (park t sz)
    show ?thesis
    proof (cases "\<exists>b. flushers st 0 = Waiting b")
      case True
      then have "workers st' = workers st" using park park_killed waiting_kill [OF i] by auto
      then show ?thesis using w park by (simp add: watched_def)
    next
      case False
      then show ?thesis using park by (intro watched_other [of _ st]) simp_all
    qed
  next
    case (park_wake t timed_out)
    show ?thesis
    proof (cases "\<exists>b. flushers st 0 = Waiting b")
      case True
      then obtain c where "workers st' = (workers st)(t := Leaving c)"
        using park_wake park_wake_killed [of st t timed_out] waiting_kill [OF i] by auto
      then show ?thesis using w park_wake by (auto simp: watched_def)
    next
      case False
      then show ?thesis using park_wake by (intro watched_other [of _ st]) simp_all
    qed
  next
    case (tell t c f b)
    then show ?thesis using zero [of f] by (simp add: watched_def)
  next
    case (tell_nobody t c)
    then show ?thesis by (simp add: watched_def)
  next
    case (flush f)
    then show ?thesis using flush_watched [OF i n, of False] by simp
  next
    case (final_flush f)
    then show ?thesis by (simp add: final_flush_def watched_def)
  next
    case (final_flush_rest f)
    then show ?thesis using flush_watched [OF i n, of True] zero [of f] by simp
  next
    case (flush_wake f b)
    then show ?thesis using flush_loop_watched [OF i, of b] zero [of f] by simp
  next
    case (flush_spurious f b)
    then show ?thesis using zero [of f] by (simp add: watched_def)
  qed
qed

lemma watched_reachable:
  assumes "reachable spurious n 1 st" and "n < 2 ^ 32"
  shows "cache_inv n 1 st \<and> watched st"
  using assms(1)
proof (induction rule: steps.induct)
  case refl
  show ?case using inv_init by (auto simp: watched_def init_def)
next
  case (step st1 st2)
  then show ?case using inv_step [OF step.hyps(2)] watched_step [OF step.hyps(2)] assms(2) by simp
qed

text \<open>Each step of a thread that leaves, or of the flush, brings its end closer.\<close>

definition leave_rank :: "phase \<Rightarrow> nat" where
  "leave_rank p = (case p of Running \<Rightarrow> 0 | Leaving c \<Rightarrow> 1 | Awake b \<Rightarrow> 2 | Blocked \<Rightarrow> 2)"

definition flush_rank :: "nat \<Rightarrow> thread_cache \<Rightarrow> nat" where
  "flush_rank n st = 2 * (\<Sum>t<n. leave_rank (workers st t)) + (case flushers st 0 of Woken b \<Rightarrow> 1 | _ \<Rightarrow> 0)"

lemma steps_trans: "steps spurious n m st1 st2 \<Longrightarrow> steps spurious n m st st1 \<Longrightarrow> steps spurious n m st st2"
  by (induction rule: steps.induct) (auto intro: steps.step)

lemma flush_ends:
  assumes "cache_inv n 1 st" and "n < 2 ^ 32" and "watched st" and "flushers st 0 = Waiting b \<or> flushers st 0 = Woken b"
  shows "\<exists>st'. steps spurious n 1 st st' \<and> cached_thread_count st' = 0 \<and>
    flushers st' 0 = (if b then Flushed else Idle)"
  using assms
proof (induction "flush_rank n st" arbitrary: st rule: less_induct)
  case less
  have go: ?case if s: "step spurious n 1 st st1" and r: "flush_rank n st1 < flush_rank n st"
      and f: "flushers st1 0 = Waiting b \<or> flushers st1 0 = Woken b" for st1
  proof -
    have "cache_inv n 1 st1" "watched st1"
      using inv_step [OF s less.prems(1,2)] watched_step [OF s less.prems(1,2,3)] less.prems(2) by simp_all
    from less.hyps [OF r this(1) less.prems(2) this(2) f]
    obtain st' where "steps spurious n 1 st1 st'" "cached_thread_count st' = 0"
        "flushers st' 0 = (if b then Flushed else Idle)" by blast
    then show ?thesis using steps_trans steps.step [OF steps.refl s] by blast
  qed
  have rank: "(\<Sum>i<n. leave_rank (((workers st)(t := p)) i)) + leave_rank (workers st t) =
      (\<Sum>i<n. leave_rank (workers st i)) + leave_rank p" if "workers st t \<noteq> Running" for t p
    using sum_update [of t n leave_rank "workers st" p] inv_threads(1) [OF less.prems(1) that] by simp
  show ?case
    using less.prems(4)
  proof
    assume wt: "flushers st 0 = Waiting b"
    then obtain t c d where "workers st t = Awake c \<or> workers st t = Leaving d"
      using less.prems(3) by (auto simp: watched_def)
    then show ?case
    proof
      assume a: "workers st t = Awake c"
      obtain e where e: "workers (park_wake st t c) = (workers st)(t := Leaving e)"
        using park_wake_killed [of st t c] waiting_kill [OF less.prems(1) wt] by blast
      then have "flush_rank n (park_wake st t c) < flush_rank n st"
        using rank [of t "Leaving e"] a wt by (simp add: flush_rank_def leave_rank_def)
      then show ?case using go [OF step.park_wake [OF a]] wt by simp
    next
      assume a: "workers st t = Leaving d"
      let ?st = "st\<lparr>workers := (workers st)(t := Running), flushers := (flushers st)(0 := Woken b)\<rparr>"
      have "flush_rank n ?st < flush_rank n st"
        using rank [of t Running] a wt by (simp add: flush_rank_def leave_rank_def)
      then show ?case using go [OF step.tell [OF a wt]] by simp
    qed
  next
    assume wk: "flushers st 0 = Woken b"
    show ?case
    proof (cases "cached_thread_count st = 0")
      case True
      then have "cached_thread_count (flush_loop st 0 b) = 0 \<and>
          flushers (flush_loop st 0 b) 0 = (if b then Flushed else Idle)"
        by (simp add: flush_loop_def)
      then show ?thesis using steps.step [OF steps.refl step.flush_wake [OF wk]] by blast
    next
      case False
      have "leave_rank (wake_all (workers st) t) = leave_rank (workers st t)" for t
        by (simp add: wake_all_def leave_rank_def)
      then have "flush_rank n (flush_loop st 0 b) < flush_rank n st"
        using False wk by (simp add: flush_rank_def flush_loop_def)
      then show ?thesis using go [OF step.flush_wake [OF wk]] False by (simp add: flush_loop_def)
    qed
  qed
qed

section \<open>Properties\<close>

text \<open>
  C29. Whatever the interleaving of the threads, the parked threads are exactly those that are counted
  and one for each queued connection: a connection that \<^verbatim>\<open>enqueue\<close> accepts has a parked thread about to
  serve it, the count never drops below zero, accepted connections are served once each and in order,
  and when no thread is parked the assertions of \<^verbatim>\<open>destroy\<close> hold.
\<close>

theorem thread_cache_keeps_count:
  assumes "reachable spurious n m st" and "n < 2 ^ 32" and "2 * m < 2 ^ 32"
  shows "parked n st = unat (cached_thread_count st) + length (connects st) \<and>
    accepted st = served st @ connects st \<and>
    (fst (enqueue st c) \<longleftrightarrow> length (connects st) < parked n st) \<and>
    (workers st t = Awake timed_out \<and> connects st = [] \<longrightarrow> cached_thread_count st \<noteq> 0) \<and>
    (parked n st = 0 \<longrightarrow> destroy_asserts st)"
proof -
  have i: "cache_inv n m st" by (rule inv_reachable [OF assms])
  have "workers st t = Awake timed_out \<and> connects st = [] \<longrightarrow> cached_thread_count st \<noteq> 0"
    using inv_park_wake(2) [OF i, of t timed_out] inv_threads(1) [OF i, of t] by auto
  then show ?thesis
    using i by (auto simp: cache_inv_def enqueue_def destroy_asserts_def unat_eq_zero unat_gt_0)
qed

text \<open>
  C30. A flush that is alone always ends: from every reachable state in which it waits, the parked threads
  and the flush itself can run until it returns with an empty cache, whatever has happened before; while it
  waits no thread is left asleep.
\<close>

theorem single_flush_ends:
  assumes "reachable spurious n 1 st" and "n < 2 ^ 32" and "flushers st 0 = Waiting b"
  shows "(\<forall>t. workers st t \<noteq> Blocked) \<and>
    (\<exists>st'. steps spurious n 1 st st' \<and> cached_thread_count st' = 0 \<and>
      flushers st' 0 = (if b then Flushed else Idle))"
proof -
  have i: "cache_inv n 1 st" "watched st" using watched_reachable [OF assms(1,2)] by simp_all
  have "\<forall>t. workers st t \<noteq> Blocked" using i(2) assms(3) by (simp add: watched_def)
  then show ?thesis using flush_ends [OF i(1) assms(2) i(2)] assms(3) by blast
qed

text \<open>A pool of one thread: it parks, is told to leave, and the flush returns.\<close>

definition sample_cache :: thread_cache where
  "sample_cache = flush (park 1 init 0) 0 False"

lemma sample_cache_reachable: "0 < n \<Longrightarrow> 0 < m \<Longrightarrow> reachable spurious n m sample_cache"
proof -
  assume nm: "0 < n" "0 < m"
  have p: "step spurious n m init (park 1 init 0)" using nm by (intro step.park) (simp_all add: init_def)
  have "flushers (park 1 init 0) 0 = Idle" by (simp add: park_def get_def init_def)
  then have "step spurious n m (park 1 init 0) sample_cache"
    unfolding sample_cache_def using nm by (intro step.flush)
  then show "reachable spurious n m sample_cache" using steps.step [OF steps.step [OF steps.refl p]] by blast
qed

lemma sample_cache_state:
  "workers sample_cache 0 = Awake False" "flushers sample_cache 0 = Waiting False"
  "cached_thread_count sample_cache = 1" "connects sample_cache = []" "kill_cached_threads sample_cache = 1"
  "flushers sample_cache 1 = Idle"
  by (simp_all add: sample_cache_def flush_def flush_loop_def park_def get_def init_def wake_all_def)

theorem thread_cache_keeps_count_witness:
  "parked 1 sample_cache = 1 \<and> fst (enqueue sample_cache 7)"
  using thread_cache_keeps_count [OF sample_cache_reachable, of 1 1 7] sample_cache_state by simp

theorem single_flush_ends_witness:
  "\<exists>st'. steps False 1 1 sample_cache st' \<and> cached_thread_count st' = 0 \<and> flushers st' 0 = Idle"
  using single_flush_ends [OF sample_cache_reachable, of 1 False False] sample_cache_state by simp

text \<open>The state after two flushes met one parked thread.\<close>

definition stuck :: "thread_cache \<Rightarrow> bool" where
  "stuck st \<longleftrightarrow> flushers st 1 = Waiting False \<and> cached_thread_count st = 0 \<and> connects st = [] \<and>
     (\<forall>t. workers st t = Running)"

lemma stuck_step:
  assumes s: "step False n 2 st st'" and i: "cache_inv n 2 st" and w: "stuck st"
  shows "stuck st'"
proof -
  have k: "kill_cached_threads st \<noteq> 0" using waiting_kill [OF i] w unfolding stuck_def by blast
  have fl: "stuck (flush_loop (st\<lparr>kill_cached_threads := l\<rparr>) f b)" if "f \<noteq> 1" for f b l
    using w that by (simp add: stuck_def flush_loop_def)
  have not1: "f \<noteq> 1" if "\<forall>b. flushers st f \<noteq> Waiting b" for f using w that by (auto simp: stuck_def)
  show ?thesis
    using s
  proof cases
    case (enqueue c)
    then show ?thesis using w by (simp add: enqueue_def stuck_def)
  next
    case (park t sz)
    then show ?thesis using w k by (simp add: park_def get_def stuck_def)
  next
    case (flush f)
    then show ?thesis using fl not1 [of f] by (simp add: flush_def)
  next
    case (final_flush f)
    then show ?thesis using w not1 [of f] by (auto simp: final_flush_def stuck_def)
  next
    case (final_flush_rest f)
    then show ?thesis using fl not1 [of f] by (simp add: flush_def)
  next
    case (flush_wake f b)
    then show ?thesis using fl [of f "kill_cached_threads st" b] not1 [of f] by simp
  qed (use w in \<open>auto simp: stuck_def\<close>)
qed

lemma stuck_forever:
  assumes "steps False n 2 st st'" and "cache_inv n 2 st" and "n < 2 ^ 32" and "stuck st"
  shows "stuck st'"
proof -
  have "cache_inv n 2 st' \<and> stuck st'"
    using assms(1)
  proof (induction rule: steps.induct)
    case refl
    then show ?case using assms(2,4) by simp
  next
    case (step st1 st2)
    then show ?case using inv_step [OF step.hyps(2)] stuck_step [OF step.hyps(2)] assms(3) by simp
  qed
  then show ?thesis by simp
qed

text \<open>
  C31. Two flushes at the same time can leave one of them waiting forever: \<^verbatim>\<open>park\<close> wakes one waiting
  flush only, and a flush that returns wakes no other. One thread is parked, two flushes wait for it, it
  leaves and tells the first of them; the cache is empty and will stay so, and the second one never returns,
  unless its wait ends for no reason.
\<close>

theorem concurrent_flush_hangs:
  "\<exists>st. reachable False 1 2 st \<and> (\<forall>st'. steps False 1 2 st st' \<longrightarrow>
     flushers st' 1 = Waiting False \<and> cached_thread_count st' = 0 \<and> kill_cached_threads st' \<noteq> 0)"
proof -
  let ?a = "flush sample_cache 1 False"
  let ?b = "park_wake ?a 0 False"
  let ?c = "?b\<lparr>workers := (workers ?b)(0 := Running), flushers := (flushers ?b)(0 := Woken False)\<rparr>"
  let ?d = "flush_loop ?c 0 False"
  have a: "workers ?a 0 = Awake False" "flushers ?a 0 = Waiting False" "flushers ?a 1 = Waiting False"
      "cached_thread_count ?a = 1" "connects ?a = []" "kill_cached_threads ?a = 2"
    using sample_cache_state by (simp_all add: flush_def flush_loop_def wake_all_def)
  have other: "workers ?a t = Running" if "t \<noteq> 0" for t
    using that by (simp add: flush_def flush_loop_def wake_all_def sample_cache_def park_def get_def init_def)
  have b: "workers ?b 0 = Leaving None" "flushers ?b = flushers ?a" "cached_thread_count ?b = 0" "connects ?b = []"
      "kill_cached_threads ?b = 2" "\<And>t. t \<noteq> 0 \<Longrightarrow> workers ?b t = Running"
    using a other by (simp_all add: park_wake_def get_def leave_def Let_def)
  have "reachable False 1 2 ?a"
    using steps.step [OF sample_cache_reachable step.flush] sample_cache_state(6) by simp
  then have "reachable False 1 2 ?b" by (rule steps.step [OF _ step.park_wake [OF a(1)]])
  then have "reachable False 1 2 ?c"
    using b(1,2) a(2) by (intro steps.step [OF _ step.tell]) simp_all
  then have r: "reachable False 1 2 ?d" by (rule steps.step [OF _ step.flush_wake]) simp
  have "stuck ?d" using a b by (simp add: stuck_def flush_loop_def)
  then have "stuck st' \<and> cache_inv 1 2 st'" if "steps False 1 2 ?d st'" for st'
    using stuck_forever [OF that inv_reachable [OF r]] inv_reachable [OF steps_trans [OF that r]] by simp
  then show ?thesis using r waiting_kill unfolding stuck_def by blast
qed

theorem concurrent_flush_hangs_witness:
  "\<exists>st. reachable False 1 2 st \<and> flushers st 1 = Waiting False \<and> cached_thread_count st = 0"
  using concurrent_flush_hangs steps.refl by blast
end
