(* ===== verification/Tranx_Allocator.thy ===== *)
theory Tranx_Allocator
  imports Prelude "HOL-Library.Monad_Syntax" "HOL-Library.Multiset"
begin

text \<open>
  The memory of the transactions that wait for a slave: \<^verbatim>\<open>Tranx_node_allocator\<close> of
  \<^verbatim>\<open>semisync_master.h\<close>.

  Nodes are handed out in order from blocks of sixteen; the blocks form a linked list, with those in use in
  front. A block and a node are named by their addresses, 0 is \<^verbatim>\<open>NULL\<close>, and the node \<open>i\<close> of a block lies
  behind the pointer to the next block, as on the platform of the package. The block that \<^verbatim>\<open>my_malloc\<close>
  would return is an argument of the operation. Reading a field through \<^verbatim>\<open>NULL\<close> and a failed assertion are
  \<^const>\<open>None\<close>; a loop is a partial function, so that its end is part of what is proved.
\<close>

abbreviation BLOCK_TRANX_NODES :: nat where "BLOCK_TRANX_NODES \<equiv> 16"

text \<open>The name of a log file takes 512 bytes, and the other four fields of a node eight bytes each.\<close>

definition NODE_SIZE :: nat where "NODE_SIZE = 544"

definition node_addr :: "nat \<Rightarrow> nat \<Rightarrow> nat" where
  "node_addr block i = block + 8 + NODE_SIZE * i"

definition BLOCK_SIZE :: nat where "BLOCK_SIZE = 8 + NODE_SIZE * BLOCK_TRANX_NODES"

record tranx_node =
  log_name :: "uchar list"
  log_pos :: ulonglong
  node_thd :: nat
  node_next :: nat
  hash_next :: nat

record allocator =
  reserved_blocks :: uint32
  first_block :: nat
  last_block :: nat
  current_block :: nat
  last_node :: int
  block_num :: uint32
  block_next :: "nat \<Rightarrow> nat"
  node_at :: "nat \<Rightarrow> tranx_node"
  given_back :: "nat list"

section \<open>The operations\<close>

definition Tranx_node_allocator :: "uint32 \<Rightarrow> (nat \<Rightarrow> nat) \<Rightarrow> (nat \<Rightarrow> tranx_node) \<Rightarrow> allocator" where
  "Tranx_node_allocator reserved_nodes nx nodes =
     \<lparr>reserved_blocks = reserved_nodes div of_nat BLOCK_TRANX_NODES +
        (if reserved_nodes mod of_nat BLOCK_TRANX_NODES > 1 then 2 else 1),
      first_block = 0, last_block = 0, current_block = 0, last_node = -1, block_num = 0,
      block_next = nx, node_at = nodes, given_back = []\<rparr>"

definition allocate_block :: "nat \<Rightarrow> allocator \<Rightarrow> bool \<times> allocator" where
  "allocate_block block st =
     (if block \<noteq> 0
      then let st = st\<lparr>block_next := (block_next st)(block := 0)\<rparr>;
               st = (if first_block st = 0 then st\<lparr>first_block := block\<rparr>
                     else st\<lparr>block_next := (block_next st)(last_block st := block)\<rparr>);
               st = st\<lparr>last_block := block\<rparr>;
               st = st\<lparr>current_block := block\<rparr>
           in (False, st\<lparr>block_num := block_num st + 1\<rparr>)
      else (True, st))"

definition free_block :: "nat \<Rightarrow> allocator \<Rightarrow> allocator" where
  "free_block block st = st\<lparr>given_back := given_back st @ [block], block_num := block_num st - 1\<rparr>"

partial_function (option) destroy_loop :: "nat \<Rightarrow> allocator \<Rightarrow> allocator option" where
  "destroy_loop block st =
     (if block \<noteq> 0 then destroy_loop (block_next st block) (free_block block st) else Some st)"

definition destroy :: "allocator \<Rightarrow> allocator option" where
  "destroy st = destroy_loop (first_block st) st"

partial_function (option) free_blocks_loop :: "nat \<Rightarrow> allocator \<Rightarrow> (nat \<times> allocator) option" where
  "free_blocks_loop block st =
     (if block_num st > reserved_blocks st \<and> block \<noteq> 0
      then free_blocks_loop (block_next st block) (free_block block st) else Some (block, st))"

definition free_blocks :: "allocator \<Rightarrow> allocator option" where
  "free_blocks st =
     (if current_block st = 0 \<or> block_next st (current_block st) = 0 then Some st
      else let spare = block_next st (current_block st)
           in do {
             (block, st) \<leftarrow> free_blocks_loop (block_next st spare) st;
             let st = st\<lparr>block_next := (block_next st)(spare := block)\<rparr>;
             Some (if block = 0 then st\<lparr>last_block := spare\<rparr> else st)
           })"

definition hand_node :: "allocator \<Rightarrow> nat \<times> allocator" where
  "hand_node st =
     (let st = st\<lparr>last_node := last_node st + 1\<rparr>;
          trx_node = node_addr (current_block st) (nat (last_node st));
          nd = (node_at st trx_node)\<lparr>log_name := (log_name (node_at st trx_node))[0 := 0],
                 log_pos := 0, node_next := 0, hash_next := 0\<rparr>
      in (trx_node, st\<lparr>node_at := (node_at st)(trx_node := nd)\<rparr>))"

definition allocate_node :: "nat \<Rightarrow> allocator \<Rightarrow> (nat \<times> allocator) option" where
  "allocate_node new_block st =
     (let block = current_block st
      in do {
        st \<leftarrow> (if last_node st = int BLOCK_TRANX_NODES - 1
               then if current_block st = 0 then None
                    else Some (st\<lparr>current_block := block_next st (current_block st), last_node := -1\<rparr>)
               else Some st);
        let (failed, st) = (if current_block st = 0 then allocate_block new_block st else (False, st));
        if failed
        then let st = st\<lparr>current_block := block\<rparr>
             in Some (0, if current_block st \<noteq> 0 then st\<lparr>last_node := int BLOCK_TRANX_NODES - 1\<rparr> else st)
        else Some (hand_node st)
      })"

definition free_all_nodes :: "allocator \<Rightarrow> allocator option" where
  "free_all_nodes st = free_blocks (st\<lparr>current_block := first_block st, last_node := -1\<rparr>)"

definition holds_node :: "nat \<Rightarrow> nat \<Rightarrow> bool" where
  "holds_node block node \<longleftrightarrow> node_addr block 0 \<le> node \<and> node_addr block BLOCK_TRANX_NODES \<ge> node"

definition put_rear :: "nat \<Rightarrow> nat \<Rightarrow> allocator \<Rightarrow> allocator option" where
  "put_rear prev_block block st =
     (if first_block st \<noteq> block
      then let st = st\<lparr>block_next := (block_next st)(last_block st := first_block st)\<rparr>;
               st = st\<lparr>first_block := block\<rparr>;
               st = st\<lparr>last_block := prev_block\<rparr>
           in if prev_block = 0 then None
              else free_blocks (st\<lparr>block_next := (block_next st)(last_block st := 0)\<rparr>)
      else Some st)"

partial_function (option) find_block :: "nat \<Rightarrow> nat \<Rightarrow> nat \<Rightarrow> allocator \<Rightarrow> (nat \<times> nat) option" where
  "find_block node prev_block block st =
     (if current_block st = 0 then None
      else if block \<noteq> block_next st (current_block st)
      then if block = 0 then None
           else if holds_node block node then Some (prev_block, block)
           else find_block node block (block_next st block) st
      else None)"

definition free_nodes_before :: "nat \<Rightarrow> allocator \<Rightarrow> allocator option" where
  "free_nodes_before node st = do {
     (prev_block, block) \<leftarrow> find_block node 0 (first_block st) st;
     put_rear prev_block block st
   }"

section \<open>The list of blocks\<close>

fun bseg :: "(nat \<Rightarrow> nat) \<Rightarrow> nat \<Rightarrow> nat list \<Rightarrow> nat \<Rightarrow> bool" where
  "bseg nx p [] q \<longleftrightarrow> p = q"
| "bseg nx p (b # bs) q \<longleftrightarrow> p = b \<and> b \<noteq> 0 \<and> bseg nx (nx b) bs q"

definition separated :: "nat \<Rightarrow> nat \<Rightarrow> bool" where
  "separated p q \<longleftrightarrow> p + BLOCK_SIZE \<le> q \<or> q + BLOCK_SIZE \<le> p"

definition blocks_ok :: "nat list \<Rightarrow> bool" where
  "blocks_ok bs \<longleftrightarrow> distinct bs \<and> 0 \<notin> set bs \<and> (\<forall>x\<in>set bs. \<forall>y\<in>set bs. x \<noteq> y \<longrightarrow> separated x y)"

text \<open>\<open>bs\<close> is the list of blocks, and the current one has the index \<open>k\<close>.\<close>

definition arep :: "allocator \<Rightarrow> nat list \<Rightarrow> nat \<Rightarrow> bool" where
  "arep st bs k \<longleftrightarrow> bseg (block_next st) (first_block st) bs 0 \<and> blocks_ok bs \<and>
     unat (block_num st) = length bs \<and>
     (if bs = [] then current_block st = 0 \<and> last_node st = -1 \<and> k = 0
      else k < length bs \<and> current_block st = bs ! k \<and> last_block st = last bs \<and>
        -1 \<le> last_node st \<and> last_node st < int BLOCK_TRANX_NODES)"

text \<open>The nodes that are in use, in the order in which they were handed out.\<close>

definition block_nodes :: "nat \<Rightarrow> nat \<Rightarrow> nat list" where
  "block_nodes n block = map (node_addr block) [0..<n]"

definition nodes_of :: "allocator \<Rightarrow> nat list \<Rightarrow> nat \<Rightarrow> nat list" where
  "nodes_of st bs k = concat (map (block_nodes BLOCK_TRANX_NODES) (take k bs)) @
     (if bs = [] then [] else block_nodes (nat (last_node st + 1)) (bs ! k))"

lemma bseg_append: "bseg nx p (xs @ ys) q \<longleftrightarrow> (\<exists>r. bseg nx p xs r \<and> bseg nx r ys q)"
  by (induction xs arbitrary: p) auto

lemma bseg_cong: "(\<And>b. b \<in> set bs \<Longrightarrow> nx' b = nx b) \<Longrightarrow> bseg nx' p bs q = bseg nx p bs q"
  by (induction bs arbitrary: p) auto

lemma bseg_end: "bseg nx p (xs @ [b]) q \<Longrightarrow> nx b = q"
  by (auto simp: bseg_append)

lemma bseg_upd: "c \<notin> set bs \<Longrightarrow> bseg (nx(c := r)) p bs q = bseg nx p bs q"
  by (rule bseg_cong) auto

lemma bseg_new_end: "bseg nx p (xs @ [b]) q \<Longrightarrow> b \<notin> set xs \<Longrightarrow> bseg (nx(b := r)) p (xs @ [b]) r"
  by (auto simp: bseg_append bseg_upd)

lemma bseg_start: "bseg nx p bs 0 \<Longrightarrow> p = (case bs of [] \<Rightarrow> 0 | b # _ \<Rightarrow> b)"
  by (cases bs) auto

lemma bseg_nth:
  assumes "bseg nx p bs 0" and "k < length bs"
  shows "nx (bs ! k) = (if Suc k < length bs then bs ! Suc k else 0)"
  using assms
proof (induction bs arbitrary: p k)
  case (Cons b bs)
  then show ?case by (cases k; cases bs) auto
qed simp

lemma blocks_ok_subset: "blocks_ok bs \<Longrightarrow> set cs \<subseteq> set bs \<Longrightarrow> distinct cs \<Longrightarrow> blocks_ok cs"
  unfolding blocks_ok_def by blast

lemma node_addr_in:
  assumes "i < BLOCK_TRANX_NODES"
  shows "b \<le> node_addr b i" and "node_addr b i < b + BLOCK_SIZE"
  using assms by (simp_all add: node_addr_def BLOCK_SIZE_def NODE_SIZE_def)

lemma node_addr_inject [simp]: "node_addr b i = node_addr b j \<longleftrightarrow> i = j"
  by (simp add: node_addr_def NODE_SIZE_def)

lemma node_addr_separated:
  assumes "separated b c" and "i < BLOCK_TRANX_NODES" and "j < BLOCK_TRANX_NODES"
  shows "node_addr b i \<noteq> node_addr c j"
  using assms(1) node_addr_in [OF assms(2), of b] node_addr_in [OF assms(3), of c]
  unfolding separated_def by linarith

lemma holds_node_iff:
  assumes "i < BLOCK_TRANX_NODES" and "c = b \<or> separated b c"
  shows "holds_node b (node_addr c i) \<longleftrightarrow> c = b"
proof
  assume "c = b"
  then show "holds_node b (node_addr c i)"
    using assms(1) by (simp add: holds_node_def node_addr_def)
next
  assume h: "holds_node b (node_addr c i)"
  show "c = b"
  proof (rule ccontr)
    assume "c \<noteq> b"
    then have "b + BLOCK_SIZE \<le> c \<or> c + BLOCK_SIZE \<le> b" using assms(2) by (simp add: separated_def)
    then show False
      using h assms(1) by (auto simp: holds_node_def node_addr_def BLOCK_SIZE_def NODE_SIZE_def)
  qed
qed

lemma in_block_nodes: "x \<in> set (block_nodes n b) \<longleftrightarrow> (\<exists>i<n. x = node_addr b i)"
  by (auto simp: block_nodes_def)

lemma length_block_nodes [simp]: "length (block_nodes n b) = n"
  by (simp add: block_nodes_def)

lemma block_nodes_Suc: "block_nodes (Suc n) b = block_nodes n b @ [node_addr b n]"
  by (simp add: block_nodes_def)

lemma arep_current: "arep st bs k \<Longrightarrow> current_block st = (if bs = [] then 0 else bs ! k)"
  by (simp add: arep_def)

lemma arep_nonzero: "arep st bs k \<Longrightarrow> b \<in> set bs \<Longrightarrow> b \<noteq> 0"
  unfolding arep_def blocks_ok_def by metis

lemma length_full_blocks: "length (concat (map (block_nodes n) bs)) = n * length bs"
  by (induction bs) simp_all

lemma length_nodes_of:
  assumes "arep st bs k"
  shows "length (nodes_of st bs k) = BLOCK_TRANX_NODES * k + nat (last_node st + 1)"
  using assms by (auto simp: nodes_of_def arep_def length_full_blocks min_def split: if_splits)

text \<open>A node in use lies in the current block or in one before it.\<close>

lemma in_nodes_of:
  assumes "arep st bs k" and "x \<in> set (nodes_of st bs k)"
  obtains j i where "j \<le> k" "j < length bs" "i < BLOCK_TRANX_NODES" "x = node_addr (bs ! j) i"
    "j = k \<Longrightarrow> int i \<le> last_node st"
proof -
  consider (full) b where "b \<in> set (take k bs)" "x \<in> set (block_nodes BLOCK_TRANX_NODES b)"
    | (last) "bs \<noteq> []" "x \<in> set (block_nodes (nat (last_node st + 1)) (bs ! k))"
    using assms(2) by (auto simp: nodes_of_def split: if_splits)
  then show thesis
  proof cases
    case full
    then obtain j where j: "j < k" "j < length bs" "b = bs ! j" by (auto simp: in_set_conv_nth)
    obtain i where "i < BLOCK_TRANX_NODES" "x = node_addr b i" using full(2) by (auto simp: in_block_nodes)
    then show thesis using that [of j i] j by simp
  next
    case last
    then obtain i where i: "i < nat (last_node st + 1)" "x = node_addr (bs ! k) i" by (auto simp: in_block_nodes)
    then show thesis using that [of k i] assms(1) last(1) by (auto simp: arep_def)
  qed
qed

section \<open>Allocation\<close>

text \<open>The next node of the current block.\<close>

lemma hand_out:
  assumes "arep st bs k" and "bs \<noteq> []" and "last_node st < int BLOCK_TRANX_NODES - 1"
  shows "arep (st\<lparr>last_node := last_node st + 1, node_at := nodes\<rparr>) bs k"
    and "nodes_of (st\<lparr>last_node := last_node st + 1, node_at := nodes\<rparr>) bs k =
      nodes_of st bs k @ [node_addr (bs ! k) (nat (last_node st + 1))]"
    and "node_addr (bs ! k) (nat (last_node st + 1)) \<notin> set (nodes_of st bs k)"
proof -
  let ?n = "nat (last_node st + 1)"
  have ge: "-1 \<le> last_node st" "k < length bs" using assms by (simp_all add: arep_def)
  show "arep (st\<lparr>last_node := last_node st + 1, node_at := nodes\<rparr>) bs k"
    using assms by (simp add: arep_def)
  have s: "nat (last_node st + 1 + 1) = Suc ?n" using ge by simp
  show "nodes_of (st\<lparr>last_node := last_node st + 1, node_at := nodes\<rparr>) bs k =
      nodes_of st bs k @ [node_addr (bs ! k) ?n]"
    using assms(2) s by (simp add: nodes_of_def block_nodes_Suc)
  have lt: "?n < BLOCK_TRANX_NODES" using assms(3) by simp
  show "node_addr (bs ! k) ?n \<notin> set (nodes_of st bs k)"
  proof
    assume "node_addr (bs ! k) ?n \<in> set (nodes_of st bs k)"
    from in_nodes_of [OF assms(1) this]
    obtain j i where j: "j \<le> k" "j < length bs" "i < BLOCK_TRANX_NODES" "node_addr (bs ! k) ?n = node_addr (bs ! j) i"
        "j = k \<Longrightarrow> int i \<le> last_node st" by metis
    show False
    proof (cases "j = k")
      case True
      then show False using j by simp
    next
      case False
      then have "bs ! j \<noteq> bs ! k" "bs ! j \<in> set bs" "bs ! k \<in> set bs"
        using assms(1) j(2) ge(2) by (auto simp: arep_def blocks_ok_def nth_eq_iff_index_eq)
      then have "separated (bs ! k) (bs ! j)" using assms(1) by (auto simp: arep_def blocks_ok_def)
      then show False using node_addr_separated lt j(3,4) by blast
    qed
  qed
qed

text \<open>A fresh block becomes the last and the current one.\<close>

definition fresh_block :: "nat \<Rightarrow> nat list \<Rightarrow> bool" where
  "fresh_block p bs \<longleftrightarrow> p \<noteq> 0 \<and> (\<forall>b\<in>set bs. separated p b)"

lemma separated_irrefl [simp]: "\<not> separated p p"
  by (simp add: separated_def BLOCK_SIZE_def)

lemma separated_sym: "separated p q = separated q p"
  by (auto simp: separated_def)

lemma allocate_block_ok:
  assumes "bseg (block_next st) (first_block st) bs 0" and "blocks_ok bs" and "unat (block_num st) = length bs"
    and "bs \<noteq> [] \<Longrightarrow> last_block st = last bs" and "fresh_block p bs" and "length bs + 1 < 2 ^ 32"
  shows "\<exists>st'. allocate_block p st = (False, st') \<and> bseg (block_next st') (first_block st') (bs @ [p]) 0 \<and>
    blocks_ok (bs @ [p]) \<and> unat (block_num st') = length (bs @ [p]) \<and> last_block st' = p \<and>
    current_block st' = p \<and> last_node st' = last_node st \<and> node_at st' = node_at st \<and>
    given_back st' = given_back st"
proof -
  have p: "p \<noteq> 0" "p \<notin> set bs" using assms(5) by (auto simp: fresh_block_def)
  have ok: "blocks_ok (bs @ [p])"
    using assms(2,5) p separated_sym by (auto simp: blocks_ok_def fresh_block_def)
  have n: "unat (block_num st + 1) = length bs + 1"
    using assms(3,6) by (simp add: unat_word_ariths)
  show ?thesis
  proof (cases "bs = []")
    case True
    then show ?thesis using assms(1) p n ok by (simp add: allocate_block_def Let_def)
  next
    case False
    then obtain xs b where bs: "bs = xs @ [b]" by (metis rev_exhaust)
    have b: "b \<notin> set xs" "last_block st = b" "b \<noteq> p"
      using assms(2,4) bs p by (auto simp: blocks_ok_def)
    have f: "first_block st \<noteq> 0" using bseg_start [OF assms(1)] bs assms(2) by (cases xs) (auto simp: blocks_ok_def)
    have "bseg ((block_next st)(p := 0)) (first_block st) (xs @ [b]) 0"
      using assms(1) p(2) bs by (subst bseg_cong [of _ _ "block_next st"]) auto
    then have "bseg ((block_next st)(p := 0, b := p)) (first_block st) (xs @ [b]) p"
      using b(1) by (rule bseg_new_end)
    then have "bseg ((block_next st)(p := 0, b := p)) (first_block st) (bs @ [p]) 0"
      unfolding bs bseg_append [of _ _ "xs @ [b]"] using b(3) p(1) by auto
    then show ?thesis using p(1) f b(2) n ok by (simp add: allocate_block_def Let_def)
  qed
qed

definition handed_out :: "allocator \<Rightarrow> nat list \<Rightarrow> nat \<Rightarrow> nat \<Rightarrow> allocator \<Rightarrow> bool" where
  "handed_out st bs k x st' \<longleftrightarrow> x \<noteq> 0 \<and> x \<notin> set (nodes_of st bs k) \<and>
     (\<exists>bs' k'. arep st' bs' k' \<and> nodes_of st' bs' k' = nodes_of st bs k @ [x] \<and> take (length bs) bs' = bs) \<and>
     node_at st' x = (node_at st x)\<lparr>log_name := (log_name (node_at st x))[0 := 0], log_pos := 0,
        node_next := 0, hash_next := 0\<rparr> \<and>
     (\<forall>y. y \<noteq> x \<longrightarrow> node_at st' y = node_at st y) \<and> given_back st' = given_back st"

lemma handed_out_nonzero: "handed_out st bs k x st' \<Longrightarrow> x \<noteq> 0"
  by (simp add: handed_out_def)

lemma hand_node_ok:
  assumes a: "arep st2 bs2 k2" and n: "bs2 \<noteq> []" "last_node st2 < int BLOCK_TRANX_NODES - 1"
    and same: "nodes_of st2 bs2 k2 = nodes_of st bs k" "take (length bs) bs2 = bs" "node_at st2 = node_at st"
      "given_back st2 = given_back st"
  shows "\<exists>x st'. hand_node st2 = (x, st') \<and> handed_out st bs k x st'"
proof -
  have c: "current_block st2 = bs2 ! k2" using arep_current [OF a] n(1) by simp
  let ?x = "node_addr (bs2 ! k2) (nat (last_node st2 + 1))"
  let ?st = "snd (hand_node st2)"
  have st: "\<exists>nodes. ?st = st2\<lparr>last_node := last_node st2 + 1, node_at := nodes\<rparr>"
    unfolding hand_node_def Let_def snd_conv by (rule exI, rule refl) 
  then obtain nodes where st: "?st = st2\<lparr>last_node := last_node st2 + 1, node_at := nodes\<rparr>" by blast
  note h = hand_out(1,2) [OF a n, of nodes, folded st] hand_out(3) [OF a n]
  have "hand_node st2 = (?x, ?st)" by (simp add: hand_node_def Let_def c)
  moreover have "?x \<noteq> 0" by (simp add: node_addr_def)
  moreover have "\<forall>y. y \<noteq> ?x \<longrightarrow> node_at ?st y = node_at st y"
    "node_at ?st ?x = (node_at st ?x)\<lparr>log_name := (log_name (node_at st ?x))[0 := 0], log_pos := 0,
       node_next := 0, hash_next := 0\<rparr>" "given_back ?st = given_back st"
    by (simp_all add: hand_node_def Let_def c same)
  ultimately show ?thesis unfolding handed_out_def using h same(1,2) by metis
qed

lemma nodes_of_next:
  assumes "arep st bs k" and "last_node st = int BLOCK_TRANX_NODES - 1" and "bs \<noteq> []" and "last_node st2 = -1"
    and "bs2 = bs @ cs" and "bs2 \<noteq> bs \<Longrightarrow> Suc k = length bs"
  shows "nodes_of st2 bs2 (Suc k) = nodes_of st bs k"
proof -
  have "k < length bs" using assms by (simp add: arep_def)
  then show ?thesis using assms by (simp add: nodes_of_def take_Suc_conv_app_nth block_nodes_def)
qed

lemma fresh_arep:
  assumes a: "arep st bs k" and p: "fresh_block p bs" and n: "length bs + 1 < 2 ^ 32"
    and full: "bs \<noteq> [] \<Longrightarrow> Suc k = length bs \<and> last_node st = int BLOCK_TRANX_NODES - 1"
    and st1: "st1 = st\<lparr>current_block := c, last_node := -1\<rparr>"
  shows "\<exists>x st'. hand_node (snd (allocate_block p st1)) = (x, st') \<and> handed_out st bs k x st'"
    and "\<not> fst (allocate_block p st1)"
proof -
  have f: "bseg (block_next st1) (first_block st1) bs 0" "blocks_ok bs" "unat (block_num st1) = length bs"
    "bs \<noteq> [] \<Longrightarrow> last_block st1 = last bs"
    using a st1 by (simp_all add: arep_def)
  from allocate_block_ok [OF f p n]
  obtain st2 where st2: "allocate_block p st1 = (False, st2)" "bseg (block_next st2) (first_block st2) (bs @ [p]) 0"
    "blocks_ok (bs @ [p])" "unat (block_num st2) = length (bs @ [p])" "last_block st2 = p"
    "current_block st2 = p" "last_node st2 = last_node st1" "node_at st2 = node_at st1" "given_back st2 = given_back st1"
    by blast
  show "\<not> fst (allocate_block p st1)" using st2(1) by simp
  have ar: "arep st2 (bs @ [p]) (length bs)"
    using st2 st1 by (simp add: arep_def)
  have "nodes_of st2 (bs @ [p]) (length bs) = nodes_of st bs k"
  proof (cases "bs = []")
    case True
    then show ?thesis using st2(7) st1 by (simp add: nodes_of_def block_nodes_def)
  next
    case False
    then have "nodes_of st2 (bs @ [p]) (Suc k) = nodes_of st bs k"
      using nodes_of_next [OF a _ False, of st2 "bs @ [p]" "[p]"] full st2(7) st1 by simp
    then show ?thesis using full [OF False] by simp
  qed
  from hand_node_ok [OF ar _ _ this] show "\<exists>x st'. hand_node (snd (allocate_block p st1)) = (x, st') \<and> handed_out st bs k x st'"
    using st2(1,7,8,9) st1 by simp
qed

lemma allocate_node_ok:
  assumes a: "arep st bs k" and p: "p = 0 \<or> fresh_block p bs" and n: "length bs + 1 < 2 ^ 32"
  shows "\<exists>x st'. allocate_node p st = Some (x, st') \<and> (if x = 0 then p = 0 \<and> st' = st \<and> length (nodes_of st bs k) = BLOCK_TRANX_NODES * length bs
     else handed_out st bs k x st')"
proof (cases "bs = []")
  case True
  then have c: "current_block st = 0" "last_node st = -1" using a by (simp_all add: arep_def)
  show ?thesis
  proof (cases "p = 0")
    case True
    then show ?thesis using c \<open>bs = []\<close> by (simp add: allocate_node_def allocate_block_def Let_def nodes_of_def)
  next
    case False
    then have fr: "fresh_block p bs" using p by simp
    have "\<exists>x st'. hand_node (snd (allocate_block p st)) = (x, st') \<and> handed_out st bs k x st'"
      "\<not> fst (allocate_block p st)"
      using fresh_arep [OF a fr n, of st 0] True c by simp_all
    then obtain x st' where h: "hand_node (snd (allocate_block p st)) = (x, st')" "handed_out st bs k x st'"
      "\<not> fst (allocate_block p st)" by blast
    have "allocate_node p st = Some (x, st')"
      using c h by (simp add: allocate_node_def Let_def case_prod_unfold)
    then show ?thesis using h(2) handed_out_nonzero [OF h(2)] by auto
  qed
next
  case ne: False
  have k: "k < length bs" "current_block st = bs ! k" "bs ! k \<noteq> 0"
    using a ne arep_nonzero [OF a] by (simp_all add: arep_def)
  have nx: "block_next st (bs ! k) = (if Suc k < length bs then bs ! Suc k else 0)"
    using bseg_nth [of "block_next st" "first_block st" bs k] a k(1) by (simp add: arep_def)
  show ?thesis
  proof (cases "last_node st = int BLOCK_TRANX_NODES - 1")
    case False
    then have lt: "last_node st < int BLOCK_TRANX_NODES - 1" using a ne by (simp add: arep_def)
    from hand_node_ok [OF a ne lt refl take_all [OF order_refl] refl refl]
    obtain x st' where h: "hand_node st = (x, st')" "handed_out st bs k x st'" by blast
    have "allocate_node p st = Some (x, st')" using False k h by (simp add: allocate_node_def Let_def)
    then show ?thesis using h(2) handed_out_nonzero [OF h(2)] by auto
  next
    case last: True
    let ?st = "st\<lparr>current_block := block_next st (bs ! k), last_node := -1\<rparr>"
    show ?thesis
    proof (cases "Suc k < length bs")
      case True
      have ar: "arep ?st bs (Suc k)" using a nx True ne by (simp add: arep_def)
      have nz: "bs ! Suc k \<noteq> 0" using arep_nonzero [OF a] True by simp
      have "nodes_of ?st bs (Suc k) = nodes_of st bs k"
        using nodes_of_next [OF a last ne, of ?st bs "[]"] by simp
      from hand_node_ok [OF ar ne _ this take_all [OF order_refl]]
      obtain x st' where h: "hand_node ?st = (x, st')" "handed_out st bs k x st'" by auto
      have "allocate_node p st = Some (x, st')"
        using last k nx nz True h by (simp add: allocate_node_def Let_def)
      then show ?thesis using h(2) handed_out_nonzero [OF h(2)] by auto
    next
      case False
      then have kk: "Suc k = length bs" using k(1) by simp
      show ?thesis
      proof (cases "p = 0")
        case True
        then have "allocate_node p st = Some (0, st)" using last k nx False
          by (simp add: allocate_node_def allocate_block_def Let_def)
        moreover have "length (nodes_of st bs k) = BLOCK_TRANX_NODES * length bs"
          using length_nodes_of [OF a] last kk by simp
        ultimately show ?thesis using True by simp
      next
        case p0: False
        then have fr: "fresh_block p bs" using p by simp
        have "\<exists>x st'. hand_node (snd (allocate_block p ?st)) = (x, st') \<and> handed_out st bs k x st'"
          "\<not> fst (allocate_block p ?st)"
          using fresh_arep [OF a fr n _ refl] kk last by simp_all
        then obtain x st' where h: "hand_node (snd (allocate_block p ?st)) = (x, st')" "handed_out st bs k x st'"
          "\<not> fst (allocate_block p ?st)" by blast
        have "allocate_node p st = Some (x, st')"
          using last k nx False h by (simp add: allocate_node_def Let_def case_prod_unfold)
        then show ?thesis using h(2) handed_out_nonzero [OF h(2)] by auto
      qed
    qed
  qed
qed

section \<open>Giving blocks back\<close>

text \<open>The loop gives back a prefix of the blocks it walks over.\<close>

definition surplus :: "allocator \<Rightarrow> nat" where
  "surplus st = unat (block_num st) - unat (reserved_blocks st)"

abbreviation start_of :: "nat list \<Rightarrow> nat" where
  "start_of bs \<equiv> (case bs of [] \<Rightarrow> 0 | b # _ \<Rightarrow> b)"

definition give_back :: "nat list \<Rightarrow> allocator \<Rightarrow> allocator" where
  "give_back ds st = st\<lparr>given_back := given_back st @ ds, block_num := block_num st - of_nat (length ds)\<rparr>"

lemma give_back_Nil [simp]: "give_back [] st = st"
  by (simp add: give_back_def)

lemma give_back_Cons: "give_back (d # ds) st = give_back ds (free_block d st)"
  by (simp add: give_back_def free_block_def algebra_simps)

lemma give_back_num:
  assumes "length ds \<le> unat (block_num st)"
  shows "unat (block_num (give_back ds st)) = unat (block_num st) - length ds"
proof -
  have "length ds < 2 ^ 32" using assms unat_lt_pow [where w = "block_num st", of 32] by simp
  then have "unat (of_nat (length ds) :: uint32) = length ds" by (simp add: unat_of_nat)
  then show ?thesis using assms by (simp add: give_back_def unat_sub_if_size)
qed

lemma free_blocks_loop_ok:
  assumes "bseg (block_next st) p cs 0" and "length cs \<le> unat (block_num st)"
    and "f = min (length cs) (surplus st)"
  shows "free_blocks_loop p st = Some (start_of (drop f cs), give_back (take f cs) st)"
  using assms
proof (induction cs arbitrary: p st f)
  case Nil
  then show ?case by (subst free_blocks_loop.simps) simp
next
  case (Cons c cs)
  have c: "p = c" "c \<noteq> 0" "bseg (block_next st) (block_next st c) cs 0" using Cons.prems(1) by simp_all
  show ?case
  proof (cases "surplus st = 0")
    case True
    then have "\<not> block_num st > reserved_blocks st" by (simp add: surplus_def word_less_nat_alt)
    then show ?thesis using True Cons.prems(3) c(1) by (subst free_blocks_loop.simps) simp
  next
    case False
    then have gt: "block_num st > reserved_blocks st" by (simp add: surplus_def word_less_nat_alt)
    have n: "unat (block_num (free_block c st)) = unat (block_num st) - 1"
    proof -
      have "block_num st \<noteq> 0" using Cons.prems(2) by auto
      then show ?thesis by (simp add: free_block_def unat_minus_one)
    qed
    have s: "surplus (free_block c st) = surplus st - 1"
      using n by (simp add: surplus_def free_block_def)
    have "free_blocks_loop (block_next st c) (free_block c st) =
        Some (start_of (drop (min (length cs) (surplus st - 1)) cs),
              give_back (take (min (length cs) (surplus st - 1)) cs) (free_block c st))"
      using Cons.IH [of "free_block c st" "block_next st c"] c(3) n Cons.prems(2) s
      by (simp add: free_block_def)
    moreover have "f = Suc (min (length cs) (surplus st - 1))" using Cons.prems(3) False by simp
    ultimately show ?thesis using gt c(1,2)
      by (subst free_blocks_loop.simps) (simp add: give_back_Cons)
  qed
qed

lemma destroy_loop_ok:
  "bseg (block_next st) p cs 0 \<Longrightarrow> destroy_loop p st = Some (give_back cs st)"
proof (induction cs arbitrary: p st)
  case Nil
  then show ?case by (subst destroy_loop.simps) simp
next
  case (Cons c cs)
  have "bseg (block_next (free_block c st)) (block_next st c) cs 0" using Cons.prems by (simp add: free_block_def)
  then show ?case using Cons by (subst destroy_loop.simps) (simp add: give_back_Cons)
qed

text \<open>
  \<open>kept st bs k st' bs'\<close>: the blocks up to the current one, with the index \<open>k\<close>, and the free block behind it
  stay; the \<open>f\<close> blocks behind that one were given back, and those after them stay in their order. There are as
  many as it takes to come down to the reserve, or all of them.
\<close>

definition kept :: "allocator \<Rightarrow> nat list \<Rightarrow> nat \<Rightarrow> allocator \<Rightarrow> nat list \<Rightarrow> bool" where
  "kept st bs k st' bs' \<longleftrightarrow>
     (let f = min (length bs - (k + 2)) (length bs - unat (reserved_blocks st))
      in bs' = take (k + 2) bs @ drop (k + 2 + f) bs \<and>
         given_back st' = given_back st @ take f (drop (k + 2) bs)) \<and>
     length bs' \<le> max (unat (reserved_blocks st)) (k + 2) \<and>
     min (length bs) (unat (reserved_blocks st)) \<le> length bs' \<and>
     reserved_blocks st' = reserved_blocks st \<and> node_at st' = node_at st"

lemma free_blocks_ok:
  assumes a: "arep st bs k"
  shows "\<exists>st' bs'. free_blocks st = Some st' \<and> arep st' bs' k \<and> nodes_of st' bs' k = nodes_of st bs k \<and>
    kept st bs k st' bs'"
proof (cases "Suc k < length bs")
  case False
  have "current_block st = 0 \<or> block_next st (current_block st) = 0"
    using a False bseg_nth [of "block_next st" "first_block st" bs k] by (auto simp: arep_def split: if_splits)
  then have "free_blocks st = Some st" by (simp add: free_blocks_def)
  moreover have "kept st bs k st bs" using False by (auto simp: kept_def Let_def)
  ultimately show ?thesis using a by blast
next
  case True
  let ?nx = "block_next st" and ?first = "first_block st"
  let ?spare = "bs ! Suc k" and ?front = "take (Suc (Suc k)) bs" and ?rest = "drop (Suc (Suc k)) bs"
  have b: "bseg ?nx ?first bs 0" "blocks_ok bs" "unat (block_num st) = length bs" "current_block st = bs ! k"
    "bs \<noteq> []" using a True by (auto simp: arep_def split: if_splits)
  have front: "?front = take (Suc k) bs @ [?spare]" using True by (simp add: take_Suc_conv_app_nth)
  have "distinct (?front @ ?rest)" using b(2) by (simp add: blocks_ok_def)
  then have d: "?spare \<notin> set (take (Suc k) bs)" "?spare \<notin> set ?rest" unfolding front by auto
  have cur: "bs ! k \<noteq> 0" "?nx (bs ! k) = ?spare" "?spare \<noteq> 0"
    using arep_nonzero [OF a] True bseg_nth [OF b(1), of k] by simp_all
  have "bseg ?nx ?first (?front @ ?rest) 0" using b(1) by simp
  then obtain r where r: "bseg ?nx ?first ?front r" "bseg ?nx r ?rest 0" unfolding bseg_append by blast
  have nr: "?nx ?spare = r" using bseg_end r(1) unfolding front .
  define f where "f = min (length ?rest) (surplus st)"
  define es where "es = drop f ?rest"
  have loop: "free_blocks_loop (?nx ?spare) st = Some (start_of es, give_back (take f ?rest) st)"
    unfolding nr es_def by (rule free_blocks_loop_ok [OF r(2) _ f_def]) (simp add: b(3))
  define nx' where "nx' = ?nx(?spare := start_of es)"
  have es: "set es \<subseteq> set ?rest" unfolding es_def by (rule set_drop_subset)
  have "bseg ?nx (start_of es) es 0"
  proof -
    have "bseg ?nx r (take f ?rest @ es) 0" using r(2) unfolding es_def append_take_drop_id .
    then obtain q where "bseg ?nx q es 0" unfolding bseg_append by blast
    then show ?thesis using bseg_start by metis
  qed
  then have seg_es: "bseg nx' (start_of es) es 0"
    unfolding nx'_def using bseg_upd d(2) es by blast
  have "bseg nx' ?first ?front (start_of es)"
    unfolding nx'_def front by (rule bseg_new_end [OF r(1) [unfolded front] d(1)])
  then have seg: "bseg nx' ?first (?front @ es) 0" using seg_es unfolding bseg_append by blast
  define st' where "st' = (let s = (give_back (take f ?rest) st)\<lparr>block_next := nx'\<rparr>
    in if start_of es = 0 then s\<lparr>last_block := ?spare\<rparr> else s)"
  have run: "free_blocks st = Some st'"
    using loop cur b(4) by (simp add: free_blocks_def st'_def Let_def nx'_def give_back_def)
  have fields: "block_next st' = nx'" "first_block st' = ?first" "current_block st' = bs ! k"
    "last_node st' = last_node st" "given_back st' = given_back st @ take f ?rest"
    "reserved_blocks st' = reserved_blocks st" "node_at st' = node_at st"
    "block_num st' = block_num (give_back (take f ?rest) st)"
    using b(4) by (simp_all add: st'_def Let_def give_back_def)
  have f: "f \<le> length bs - Suc (Suc k)" by (simp add: f_def)
  have num: "unat (block_num st') = length (?front @ es)"
    using give_back_num [of "take f ?rest" st] f b(3) True by (simp add: fields(8) es_def)
  have nz: "start_of es = 0 \<longleftrightarrow> es = []"
  proof -
    have "x \<noteq> 0" if "x \<in> set es" for x
    proof -
      have "x \<in> set ?rest" using that es by (rule subsetD [rotated])
      then have "x \<in> set bs" by (rule in_set_dropD)
      then show ?thesis by (rule arep_nonzero [OF a])
    qed
    then show ?thesis by (cases es) auto
  qed
  have lastb: "last_block st' = last (?front @ es)"
  proof (cases "es = []")
    case True
    then show ?thesis using nz by (simp add: st'_def Let_def front)
  next
    case False
    then have "es \<noteq> [] \<and> ?rest \<noteq> []" unfolding es_def by auto
    then have "last es = last bs" by (simp add: es_def last_drop)
    then show ?thesis using False nz a b(5) by (simp add: st'_def Let_def give_back_def arep_def)
  qed
  have sub: "set (?front @ es) \<subseteq> set bs" "distinct (?front @ es)"
  proof -
    show "set (?front @ es) \<subseteq> set bs" using es by (auto dest: in_set_takeD in_set_dropD)
    have "?front @ take f ?rest @ es = bs" unfolding es_def append_take_drop_id ..
    then have "distinct (?front @ take f ?rest @ es)" using b(2) by (simp only: blocks_ok_def)
    then show "distinct (?front @ es)" by auto
  qed
  have "arep st' (?front @ es) k"
    using seg num lastb blocks_ok_subset [OF b(2) sub] a b(5) True
    unfolding arep_def by (simp add: fields nth_append)
  moreover have "nodes_of st' (?front @ es) k = nodes_of st bs k"
    using True b(5) by (simp add: nodes_of_def fields nth_append)
  moreover have "kept st bs k st' (?front @ es)"
  proof -
    have "f = min (length bs - Suc (Suc k)) (length bs - unat (reserved_blocks st))"
      by (simp add: f_def surplus_def b(3))
    then show ?thesis using True by (auto simp: kept_def fields es_def Let_def add.commute)
  qed
  ultimately show ?thesis using run by blast
qed

lemma free_all_nodes_ok:
  assumes "arep st bs k"
  shows "\<exists>st' bs'. free_all_nodes st = Some st' \<and> arep st' bs' 0 \<and> nodes_of st' bs' 0 = [] \<and>
    kept st bs 0 st' bs'"
proof -
  let ?st = "st\<lparr>current_block := first_block st, last_node := -1\<rparr>"
  have "arep ?st bs 0" using assms by (cases bs) (auto simp: arep_def)
  from free_blocks_ok [OF this] obtain st' bs' where s: "free_blocks ?st = Some st'" "arep st' bs' 0"
    "nodes_of st' bs' 0 = nodes_of ?st bs 0" "kept ?st bs 0 st' bs'" by blast
  have "nodes_of ?st bs 0 = []" by (simp add: nodes_of_def block_nodes_def)
  then show ?thesis using s by (auto simp: free_all_nodes_def kept_def)
qed

section \<open>Freeing the nodes before a given one\<close>

lemma blocks_separated: "arep st bs k \<Longrightarrow> i < length bs \<Longrightarrow> j < length bs \<Longrightarrow> i \<noteq> j \<Longrightarrow> separated (bs ! i) (bs ! j)"
  unfolding arep_def blocks_ok_def by (metis nth_eq_iff_index_eq nth_mem)

lemma walk_facts:
  assumes "arep st bs k" "m \<le> k" "k < length bs"
  shows "current_block st \<noteq> 0" "bs ! m \<noteq> 0" "bs ! m \<noteq> block_next st (current_block st)"
proof -
  have nz: "bs ! n \<noteq> 0" if "n < length bs" for n using arep_nonzero [OF assms(1)] that by simp
  have c: "current_block st = bs ! k" using arep_current [OF assms(1)] assms(3) by (cases "bs = []") simp_all
  show "current_block st \<noteq> 0" "bs ! m \<noteq> 0" using nz c assms(2,3) by simp_all
  have "block_next st (bs ! k) = (if Suc k < length bs then bs ! Suc k else 0)"
    using bseg_nth [of "block_next st" "first_block st" bs k] assms by (simp add: arep_def)
  moreover have "bs ! m \<noteq> bs ! Suc k" if "Suc k < length bs"
    using assms that by (auto simp: arep_def blocks_ok_def nth_eq_iff_index_eq)
  ultimately show "bs ! m \<noteq> block_next st (current_block st)" using c nz [of m] assms(2,3) by auto
qed

lemma find_block_ok:
  assumes a: "arep st bs k" and j: "j \<le> k" "k < length bs" and i: "i < BLOCK_TRANX_NODES" and m: "m \<le> j"
  shows "find_block (node_addr (bs ! j) i) prev (bs ! m) st =
    Some (if m = j then prev else bs ! (j - 1), bs ! j)"
  using m
proof (induction "j - m" arbitrary: m prev)
  case 0
  then have "m = j" by simp
  moreover have "holds_node (bs ! j) (node_addr (bs ! j) i)" using holds_node_iff [OF i] by simp
  moreover have "current_block st \<noteq> 0" "bs ! j \<noteq> 0" "bs ! j \<noteq> block_next st (current_block st)"
    using walk_facts [OF a j] by simp_all
  ultimately show ?case by (subst find_block.simps) simp
next
  case (Suc d)
  then have lt: "m < j" "d = j - Suc m" by simp_all
  have w: "current_block st \<noteq> 0" "bs ! m \<noteq> 0" "bs ! m \<noteq> block_next st (current_block st)"
    using walk_facts [OF a _ j(2), of m] lt j by simp_all
  have "bs ! m \<noteq> bs ! j" using blocks_separated [OF a, of m j] lt j by auto
  moreover have "separated (bs ! m) (bs ! j)" 
    using blocks_separated [OF a, of m j] lt j by simp
  ultimately have h: "\<not> holds_node (bs ! m) (node_addr (bs ! j) i)" using holds_node_iff [OF i] by metis
  have nx: "block_next st (bs ! m) = bs ! Suc m"
    using bseg_nth [of "block_next st" "first_block st" bs m] a lt j by (simp add: arep_def split: if_splits)
  have "find_block (node_addr (bs ! j) i) (bs ! m) (bs ! Suc m) st =
      Some (if Suc m = j then bs ! m else bs ! (j - 1), bs ! j)"
    using Suc.hyps(1) [of "Suc m" "bs ! m"] lt by simp
  then show ?case using w h nx lt by (subst find_block.simps) auto
qed

text \<open>The blocks in front are moved to the rear.\<close>

lemma rotate_ok:
  assumes a: "arep st (pre @ c # post) k" and k: "length pre \<le> k" and ne: "pre \<noteq> []"
  defines "st1 \<equiv> st\<lparr>block_next := (block_next st)(last_block st := first_block st, last pre := 0),
    first_block := c, last_block := last pre\<rparr>"
  shows "arep st1 (c # post @ pre) (k - length pre)"
    and "nodes_of st (pre @ c # post) k = concat (map (block_nodes BLOCK_TRANX_NODES) pre) @
      nodes_of st1 (c # post @ pre) (k - length pre)"
    and "first_block st \<noteq> c"
proof -
  let ?nx = "block_next st" and ?nx1 = "(block_next st)(last_block st := first_block st, last pre := 0)"
  have b: "bseg ?nx (first_block st) (pre @ c # post) 0" "blocks_ok (pre @ c # post)"
    "last_block st = last (c # post)" "k < length (pre @ c # post)" "current_block st = (pre @ c # post) ! k"
    "unat (block_num st) = length (pre @ c # post)"
    "-1 \<le> last_node st" "last_node st < int BLOCK_TRANX_NODES"
    using a by (auto simp: arep_def)
  obtain xs x where pre: "pre = xs @ [x]" using ne by (metis rev_exhaust)
  obtain ys y where post: "c # post = ys @ [y]" by (metis list.distinct(1) rev_exhaust)
  have l: "last pre = x" "last_block st = y" using pre post b(3) by simp_all
  have d: "distinct ((xs @ [x]) @ (ys @ [y]))" using b(2) pre post by (simp add: blocks_ok_def)
  have seg: "bseg ?nx (first_block st) ((xs @ [x]) @ (ys @ [y])) 0" using b(1) pre post by simp
  then obtain r where r: "bseg ?nx (first_block st) (xs @ [x]) r" "bseg ?nx r (ys @ [y]) 0"
    unfolding bseg_append [of _ _ "xs @ [x]"] by blast
  have rc: "r = c" using bseg_start [OF r(2)] post by (metis list.simps(5))
  have "bseg (?nx(y := first_block st)) c (ys @ [y]) (first_block st)"
    using bseg_new_end [OF r(2)] d rc by simp
  then have s1: "bseg ?nx1 c (ys @ [y]) (first_block st)"
    unfolding l by (subst bseg_upd) (use d in auto)
  have "bseg (?nx(y := first_block st)) (first_block st) (xs @ [x]) r"
    using r(1) by (subst bseg_upd) (use d in auto)
  then have s2: "bseg ?nx1 (first_block st) (xs @ [x]) 0"
    unfolding l by (rule bseg_new_end) (use d in auto)
  have "bseg ?nx1 c ((ys @ [y]) @ (xs @ [x])) 0"
    unfolding bseg_append [of _ _ "ys @ [y]"] using s1 s2 by blast
  then have s: "bseg ?nx1 c (c # post @ pre) 0" unfolding post [symmetric] pre [symmetric] by simp
  have ok: "blocks_ok (c # post @ pre)"
    by (rule blocks_ok_subset [OF b(2)]) (use b(2) in \<open>auto simp: blocks_ok_def\<close>)
  have at: "(c # post @ pre) ! (k - length pre) = (pre @ c # post) ! k"
  proof -
    have lt: "k - length pre < length (c # post)" using b(4) k by simp
    have "(c # post @ pre) ! (k - length pre) = ((c # post) @ pre) ! (k - length pre)" by simp
    also have "\<dots> = (c # post) ! (k - length pre)" using lt by (simp only: nth_append if_True)
    also have "\<dots> = (pre @ c # post) ! k" using k by (simp add: nth_append)
    finally show ?thesis .
  qed
  show "arep st1 (c # post @ pre) (k - length pre)"
    using s ok at b ne k unfolding arep_def st1_def by auto
  have "nodes_of st1 (c # post @ pre) (k - length pre) =
      concat (map (block_nodes BLOCK_TRANX_NODES) (take (k - length pre) ((c # post) @ pre))) @
      block_nodes (nat (last_node st + 1)) ((pre @ c # post) ! k)"
    using at by (simp add: nodes_of_def st1_def)
  moreover have "take (k - length pre) ((c # post) @ pre) = take (k - length pre) (c # post)"
    using b(4) by (subst take_append) simp
  moreover have "take k (pre @ c # post) = pre @ take (k - length pre) (c # post)"
    using k by simp
  ultimately show "nodes_of st (pre @ c # post) k = concat (map (block_nodes BLOCK_TRANX_NODES) pre) @
      nodes_of st1 (c # post @ pre) (k - length pre)"
    by (simp add: nodes_of_def)
  show "first_block st \<noteq> c"
    using bseg_start [OF seg] d post by (cases xs; cases ys) auto
qed

text \<open>
  The given node is in the block with the index \<open>j\<close>, and fewer than sixteen nodes are left before it: the nodes of
  the \<open>j\<close> blocks before that one are gone. These blocks are moved behind the last one, in their order, and
  then some of the free blocks are given back.
\<close>

definition freed_before :: "allocator \<Rightarrow> nat list \<Rightarrow> nat \<Rightarrow> nat \<Rightarrow> allocator \<Rightarrow> bool" where
  "freed_before st bs k node st' \<longleftrightarrow> (\<exists>bs' j i. j \<le> k \<and> arep st' bs' (k - j) \<and>
     nodes_of st' bs' (k - j) = drop (BLOCK_TRANX_NODES * j) (nodes_of st bs k) \<and>
     i < BLOCK_TRANX_NODES \<and> nodes_of st bs k ! (BLOCK_TRANX_NODES * j + i) = node \<and>
     (if j = 0 then st' = st \<and> bs' = bs else kept st (drop j bs @ take j bs) (k - j) st' bs'))"

lemma node_position:
  assumes "j \<le> k" "k < length bs" "i < BLOCK_TRANX_NODES" "j = k \<Longrightarrow> int i \<le> last_node st"
  shows "nodes_of st bs k ! (BLOCK_TRANX_NODES * j + i) = node_addr (bs ! j) i"
proof (cases "j = k")
  case True
  have "length (concat (map (block_nodes BLOCK_TRANX_NODES) (take k bs))) = BLOCK_TRANX_NODES * j"
    using assms(2) True by (simp add: length_full_blocks min_def del: mult_numeral_left_semiring_numeral)
  moreover have "bs \<noteq> []" "int i \<le> last_node st" using assms True by auto
  ultimately show ?thesis using True
    by (simp add: nodes_of_def nth_append block_nodes_def)
next
  case False
  then have lt: "j < k" using assms(1) by simp
  then have "take k bs = take j bs @ bs ! j # drop (Suc j) (take k bs)"
    using assms(2) id_take_nth_drop [of j "take k bs"] by (simp add: min_def)
  then have "nodes_of st bs k = concat (map (block_nodes BLOCK_TRANX_NODES) (take j bs)) @
      block_nodes BLOCK_TRANX_NODES (bs ! j) @ concat (map (block_nodes BLOCK_TRANX_NODES) (drop (Suc j) (take k bs))) @
      (if bs = [] then [] else block_nodes (nat (last_node st + 1)) (bs ! k))"
    unfolding nodes_of_def by (metis append_assoc concat.simps(2) concat_append list.simps(9) map_append)
  moreover have "length (concat (map (block_nodes BLOCK_TRANX_NODES) (take j bs))) = BLOCK_TRANX_NODES * j"
    using assms(2) lt by (simp add: length_full_blocks)
  ultimately show ?thesis using assms(3) by (simp add: nth_append block_nodes_def)
qed

lemma free_nodes_before_ok:
  assumes a: "arep st bs k" and x: "node \<in> set (nodes_of st bs k)"
  shows "\<exists>st'. free_nodes_before node st = Some st' \<and> freed_before st bs k node st'"
proof -
  from in_nodes_of [OF a x] obtain j i where j: "j \<le> k" "j < length bs" "i < BLOCK_TRANX_NODES"
    "node = node_addr (bs ! j) i" "j = k \<Longrightarrow> int i \<le> last_node st" by metis
  have k: "k < length bs" "bs \<noteq> []" using a j(2) by (auto simp: arep_def split: if_splits)
  have pos: "nodes_of st bs k ! (BLOCK_TRANX_NODES * j + i) = node"
    using node_position [OF j(1) k(1) j(3) j(5)] j(4) by simp
  have first: "first_block st = bs ! 0" using a k(2) bseg_start [of "block_next st" "first_block st" bs]
    by (cases bs) (auto simp: arep_def)
  have find: "find_block node 0 (first_block st) st = Some (if j = 0 then 0 else bs ! (j - 1), bs ! j)"
    unfolding first j(4) using find_block_ok [OF a j(1) k(1) j(3), of 0 0] by auto
  show ?thesis
  proof (cases "j = 0")
    case True
    then have "free_nodes_before node st = Some st"
      using find first by (simp add: free_nodes_before_def put_rear_def)
    moreover have "freed_before st bs k node st"
      unfolding freed_before_def using a pos j(3) True by (intro exI [of _ bs] exI [of _ 0] exI [of _ i]) simp
    ultimately show ?thesis by blast
  next
    case False
    define pre where "pre = take j bs"
    define post where "post = drop (Suc j) bs"
    have bs: "bs = pre @ bs ! j # post" unfolding pre_def post_def by (rule id_take_nth_drop [OF j(2)])
    have len: "length pre = j" "pre \<noteq> []" using j(2) False by (auto simp: pre_def)
    have lastp: "last pre = bs ! (j - 1)" "last pre \<noteq> 0"
      using len j(2) False arep_nonzero [OF a, of "bs ! (j - 1)"] by (simp_all add: pre_def last_conv_nth)
    let ?st = "st\<lparr>block_next := (block_next st)(last_block st := first_block st, last pre := 0),
      first_block := bs ! j, last_block := last pre\<rparr>"
    have a': "arep st (pre @ bs ! j # post) k" using a bs by simp
    note rot = rotate_ok [OF a' _ len(2), unfolded len(1), OF j(1)]
    from free_blocks_ok [OF rot(1)] obtain st' bs' where s: "free_blocks ?st = Some st'" "arep st' bs' (k - j)"
      "nodes_of st' bs' (k - j) = nodes_of ?st (bs ! j # post @ pre) (k - j)"
      "kept ?st (bs ! j # post @ pre) (k - j) st' bs'" by blast
    have "put_rear (last pre) (bs ! j) st = free_blocks ?st"
      using rot(3) lastp(2) by (cases st) (simp add: put_rear_def Let_def)
    then have run: "free_nodes_before node st = Some st'"
      using find lastp(1) False s(1) by (simp add: free_nodes_before_def)
    have "nodes_of st' bs' (k - j) = drop (BLOCK_TRANX_NODES * j) (nodes_of st bs k)"
      using rot(2) s(3) bs len(1) by (simp add: length_full_blocks)
    moreover have "kept st (drop j bs @ take j bs) (k - j) st' bs'"
    proof -
      have "bs ! j # post @ pre = drop j bs @ take j bs"
        by (simp add: pre_def post_def Cons_nth_drop_Suc [OF j(2)])
      then show ?thesis using s(4) by (simp add: kept_def)
    qed
    ultimately have "freed_before st bs k node st'"
      unfolding freed_before_def using s(2) pos j(1,3) False by (intro exI [of _ bs'] exI [of _ j] exI [of _ i]) simp
    then show ?thesis using run by blast
  qed
qed

lemma destroy_ok:
  assumes "arep st bs k"
  shows "\<exists>st'. destroy st = Some st' \<and> given_back st' = given_back st @ bs \<and> block_num st' = 0"
proof -
  have b: "bseg (block_next st) (first_block st) bs 0" "unat (block_num st) = length bs"
    using assms by (simp_all add: arep_def)
  have "destroy st = Some (give_back bs st)" using destroy_loop_ok [OF b(1)] by (simp add: destroy_def)
  moreover have "unat (block_num (give_back bs st)) = 0" using give_back_num b(2) by simp
  ultimately show ?thesis by (simp add: give_back_def unat_eq_0)
qed

section \<open>Properties\<close>

lemma reserve_of_nodes:
  "unat (reserved_blocks (Tranx_node_allocator r nx nodes)) =
    unat r div BLOCK_TRANX_NODES + (if unat r mod BLOCK_TRANX_NODES > 1 then 2 else 1)"
proof -
  have d: "unat (r div 16) = unat r div 16" "unat (r mod 16) = unat r mod 16"
    by (simp_all add: unat_div unat_mod)
  have "unat r < 2 ^ 32" by (rule unat_lt_pow) simp
  then have "unat (r div 16) + 2 < 2 ^ 32" using d(1) by simp
  moreover have "(r mod 16 > 1) = (unat r mod 16 > 1)" using d(2) by (simp add: word_less_nat_alt)
  ultimately show ?thesis using d by (simp add: Tranx_node_allocator_def unat_word_ariths)
qed

text \<open>
  C32. The allocator is a queue of nodes. While its list of blocks is well formed, \<^verbatim>\<open>allocate_node\<close>
  appends a node that is not in use, with an empty log name and the position and both links zero, and touches no
  other node; the blocks stay in the list, a new one comes at the rear. It fails, leaving everything as it
  was, only when \<^verbatim>\<open>my_malloc\<close> fails and every node of every block is in use. \<^verbatim>\<open>free_all_nodes\<close> empties the
  queue. \<^verbatim>\<open>free_nodes_before\<close> of a node in use always finds its block, and drops the nodes of the blocks
  before it, so that fewer than sixteen older nodes remain; it moves these blocks, in their order, behind the
  last one. Both then give back blocks: those from the second one behind the current block on, until the number
  of blocks is the reserve or none is left there; the other blocks stay in the list. The destructor gives
  back all blocks. Each of the loops ends.
\<close>
theorem tranx_allocator_operations:
  "arep st bs k \<longrightarrow> length bs + 1 < 2 ^ 32 \<longrightarrow> p = 0 \<or> fresh_block p bs \<longrightarrow>
    (\<exists>x st'. allocate_node p st = Some (x, st') \<and>
      (if x = 0 then p = 0 \<and> st' = st \<and> length (nodes_of st bs k) = BLOCK_TRANX_NODES * length bs
       else handed_out st bs k x st')) \<and>
    (\<exists>st' bs'. free_all_nodes st = Some st' \<and> arep st' bs' 0 \<and> nodes_of st' bs' 0 = [] \<and> kept st bs 0 st' bs') \<and>
    (\<forall>node\<in>set (nodes_of st bs k). \<exists>st'. free_nodes_before node st = Some st' \<and> freed_before st bs k node st') \<and>
    (\<exists>st'. destroy st = Some st' \<and> given_back st' = given_back st @ bs \<and> block_num st' = 0)"
  by (intro impI conjI ballI allocate_node_ok free_all_nodes_ok free_nodes_before_ok destroy_ok)

text \<open>
  The reserve. The constructor asks for enough blocks to hold the reserved number of nodes, without
  wrapping around, and the new allocator is empty. Once the list has been as large as that, emptying the
  queue keeps room for that number of nodes, and keeps no more than the reserve, or two blocks.
\<close>
theorem tranx_allocator_reserve:
  "arep (Tranx_node_allocator r nx nodes) [] 0 \<and>
    unat r \<le> BLOCK_TRANX_NODES * unat (reserved_blocks (Tranx_node_allocator r nx nodes)) \<and>
    (arep st bs k \<and> reserved_blocks st = reserved_blocks (Tranx_node_allocator r nx nodes) \<and>
       unat r \<le> BLOCK_TRANX_NODES * length bs \<longrightarrow>
     (\<exists>st' bs'. free_all_nodes st = Some st' \<and> arep st' bs' 0 \<and> nodes_of st' bs' 0 = [] \<and>
        unat r \<le> BLOCK_TRANX_NODES * length bs' \<and> length bs' \<le> unat r div BLOCK_TRANX_NODES + 2))"
proof (intro conjI impI)
  show "arep (Tranx_node_allocator r nx nodes) [] 0"
    by (simp add: arep_def Tranx_node_allocator_def blocks_ok_def)
  have split: "unat r = BLOCK_TRANX_NODES * (unat r div BLOCK_TRANX_NODES) + unat r mod BLOCK_TRANX_NODES"
    "unat r mod BLOCK_TRANX_NODES < BLOCK_TRANX_NODES" by simp_all
  show res: "unat r \<le> BLOCK_TRANX_NODES * unat (reserved_blocks (Tranx_node_allocator r nx nodes))"
    unfolding reserve_of_nodes using split by (auto simp del: mod_mult_div_eq)
  assume h: "arep st bs k \<and> reserved_blocks st = reserved_blocks (Tranx_node_allocator r nx nodes) \<and>
    unat r \<le> BLOCK_TRANX_NODES * length bs"
  then obtain st' bs' where s: "free_all_nodes st = Some st'" "arep st' bs' 0" "nodes_of st' bs' 0 = []"
    "kept st bs 0 st' bs'" using free_all_nodes_ok by blast
  let ?m = "unat (reserved_blocks st)"
  have l: "length bs' \<le> max ?m 2" "min (length bs) ?m \<le> length bs'" using s(4) unfolding kept_def add_0 by blast+
  have "unat r \<le> BLOCK_TRANX_NODES * length bs'"
  proof (cases "length bs \<le> ?m")
    case True
    then show ?thesis using h l(2) by simp
  next
    case False
    then show ?thesis using h res l(2) by simp
  qed
  moreover have "?m \<le> unat r div BLOCK_TRANX_NODES + 2" using h reserve_of_nodes by auto
  then have "length bs' \<le> unat r div BLOCK_TRANX_NODES + 2" using l(1) by simp
  ultimately show "\<exists>st' bs'. free_all_nodes st = Some st' \<and> arep st' bs' 0 \<and> nodes_of st' bs' 0 = [] \<and>
      unat r \<le> BLOCK_TRANX_NODES * length bs' \<and> length bs' \<le> unat r div BLOCK_TRANX_NODES + 2"
    using s by blast
qed

text \<open>An allocator with two blocks: all nodes of the first and one node of the second are in use.\<close>

definition sample_allocator :: allocator where
  "sample_allocator = (Tranx_node_allocator 1 (\<lambda>_. 0) (\<lambda>_. \<lparr>log_name = [], log_pos = 0, node_thd = 0, node_next = 0, hash_next = 0\<rparr>))
     \<lparr>first_block := 10000, last_block := 20000, current_block := 20000, last_node := 0, block_num := 2,
      block_next := (\<lambda>_. 0)(10000 := 20000)\<rparr>"

lemma sample_allocator_rep: "arep sample_allocator [10000, 20000] 1"
  by (simp add: arep_def sample_allocator_def blocks_ok_def separated_def BLOCK_SIZE_def NODE_SIZE_def)

lemma sample_allocator_node: "node_addr 20000 0 \<in> set (nodes_of sample_allocator [10000, 20000] 1)"
  by (simp add: nodes_of_def sample_allocator_def block_nodes_def)

theorem tranx_allocator_operations_witness:
  "\<exists>st'. free_nodes_before (node_addr 20000 0) sample_allocator = Some st' \<and>
    freed_before sample_allocator [10000, 20000] 1 (node_addr 20000 0) st'"
  using tranx_allocator_operations [of sample_allocator "[10000, 20000]" 1 0] sample_allocator_rep
    sample_allocator_node by auto

theorem tranx_allocator_reserve_witness:
  "\<exists>st' bs'. free_all_nodes sample_allocator = Some st' \<and> arep st' bs' 0 \<and> length bs' \<le> 2"
proof -
  have "reserved_blocks sample_allocator =
      reserved_blocks (Tranx_node_allocator 1 (\<lambda>_. 0) (\<lambda>_. \<lparr>log_name = [], log_pos = 0, node_thd = 0, node_next = 0, hash_next = 0\<rparr>))"
    by (simp add: sample_allocator_def)
  then show ?thesis
    using tranx_allocator_reserve [of 1 "\<lambda>_. 0" "\<lambda>_. \<lparr>log_name = [], log_pos = 0, node_thd = 0, node_next = 0, hash_next = 0\<rparr>"
        sample_allocator "[10000, 20000]" 1] sample_allocator_rep by fastforce
qed
end
