(* ===== verification/Sel_Arg.thy ===== *)
theory Sel_Arg
  imports Byte_Order "HOL-Library.Monad_Syntax"
begin

text \<open>
  The intervals of the range optimizer: \<^verbatim>\<open>SEL_ARG\<close> of \<^verbatim>\<open>opt_range.h\<close>.

  A node is an interval over one part of an index. The nodes of one part are linked into a list, and
  \<^verbatim>\<open>next_key_part\<close> leads from an interval to the list of a later part; the graph is a function from addresses
  to nodes, 0 is \<^verbatim>\<open>NULL\<close>. The values of the ends are addresses in the memory of keys.

  The comparison of two ends (\<^verbatim>\<open>sel_cmp\<close>), the comparison of two values of a field (\<^verbatim>\<open>key_cmp\<close>), the
  constructor and the search for the first and the last node of a list are defined in files that are not part
  of the package: they are parameters, and \<open>sel_cmp_law\<close>, \<open>key_cmp_law\<close> and \<open>constructor_law\<close> state what the
  code relies on. Loops and recursive functions over the graph are partial functions.
\<close>

section \<open>Flags\<close>

abbreviation NO_MIN_RANGE :: "'a::len word" where "NO_MIN_RANGE \<equiv> 1"
abbreviation NO_MAX_RANGE :: "'a::len word" where "NO_MAX_RANGE \<equiv> 2"
abbreviation NEAR_MIN :: "'a::len word" where "NEAR_MIN \<equiv> 4"
abbreviation NEAR_MAX :: "'a::len word" where "NEAR_MAX \<equiv> 8"
abbreviation EQ_RANGE :: "'a::len word" where "EQ_RANGE \<equiv> 32"
abbreviation GEOM_FLAG :: "'a::len word" where "GEOM_FLAG \<equiv> 128"
abbreviation HA_REVERSE_SORT :: "'a::len word" where "HA_REVERSE_SORT \<equiv> 128"

definition invert_min_flag :: "uint \<Rightarrow> uint" where
  "invert_min_flag min_flag =
     (let max_flag_out = min_flag AND NOT (NEAR_MIN OR NO_MIN_RANGE);
          max_flag_out = (if min_flag AND NEAR_MIN \<noteq> 0 then max_flag_out OR NEAR_MAX else max_flag_out)
      in if min_flag AND NO_MIN_RANGE \<noteq> 0 then max_flag_out OR NO_MAX_RANGE else max_flag_out)"

definition invert_max_flag :: "uint \<Rightarrow> uint" where
  "invert_max_flag max_flag =
     (let min_flag_out = max_flag AND NOT (NEAR_MAX OR NO_MAX_RANGE);
          min_flag_out = (if max_flag AND NEAR_MAX \<noteq> 0 then min_flag_out OR NEAR_MIN else min_flag_out)
      in if max_flag AND NO_MAX_RANGE \<noteq> 0 then min_flag_out OR NO_MIN_RANGE else min_flag_out)"

section \<open>Nodes\<close>

text \<open>The members of a key part that the code reads.\<close>

record key_part =
  store_length :: uint16
  kp_flag :: uint8

datatype leaf_color = BLACK | RED

datatype sel_arg_type = IMPOSSIBLE | MAYBE | MAYBE_KEY | KEY_RANGE

record sel_arg =
  min_flag :: uint8
  max_flag :: uint8
  maybe_flag :: uint8
  part :: uint8
  maybe_null :: uint8
  max_part_no :: uint16
  elements :: uint32
  use_count :: uint
  field :: nat
  min_value :: nat
  max_value :: nat
  left :: nat
  right :: nat
  next_iv :: nat
  prev_iv :: nat
  parent :: nat
  next_key_part :: nat
  color :: leaf_color
  kind :: sel_arg_type
  weight :: uint

type_synonym graph = "nat \<Rightarrow> sel_arg"

type_synonym end_cmp = "nat \<Rightarrow> nat \<Rightarrow> nat \<Rightarrow> uint8 \<Rightarrow> uint8 \<Rightarrow> int"

text \<open>The constructor with all members of an interval.\<close>

type_synonym new_sel_arg = "nat \<Rightarrow> uint8 \<Rightarrow> nat \<Rightarrow> nat \<Rightarrow> uint8 \<Rightarrow> uint8 \<Rightarrow> uint8 \<Rightarrow> sel_arg"

text \<open>The constructor of a degenerate node: the members it does not set are those of the memory.\<close>

definition SEL_ARG_type :: "sel_arg_type \<Rightarrow> sel_arg \<Rightarrow> sel_arg" where
  "SEL_ARG_type type_arg raw =
     raw\<lparr>min_flag := 0, max_part_no := 0, elements := 1, use_count := 1, left := 0, right := 0,
         next_key_part := 0, color := BLACK, kind := type_arg, weight := 1\<rparr>"

definition cmp_min_to_min :: "end_cmp \<Rightarrow> sel_arg \<Rightarrow> sel_arg \<Rightarrow> int" where
  "cmp_min_to_min sel_cmp this arg =
     sel_cmp (field this) (min_value this) (min_value arg) (min_flag this) (min_flag arg)"

definition cmp_min_to_max :: "end_cmp \<Rightarrow> sel_arg \<Rightarrow> sel_arg \<Rightarrow> int" where
  "cmp_min_to_max sel_cmp this arg =
     sel_cmp (field this) (min_value this) (max_value arg) (min_flag this) (max_flag arg)"

definition cmp_max_to_max :: "end_cmp \<Rightarrow> sel_arg \<Rightarrow> sel_arg \<Rightarrow> int" where
  "cmp_max_to_max sel_cmp this arg =
     sel_cmp (field this) (max_value this) (max_value arg) (max_flag this) (max_flag arg)"

definition cmp_max_to_min :: "end_cmp \<Rightarrow> sel_arg \<Rightarrow> sel_arg \<Rightarrow> int" where
  "cmp_max_to_min sel_cmp this arg =
     sel_cmp (field this) (max_value this) (min_value arg) (max_flag this) (min_flag arg)"

definition is_same :: "end_cmp \<Rightarrow> sel_arg \<Rightarrow> sel_arg \<Rightarrow> bool" where
  "is_same sel_cmp this arg =
     (if kind this \<noteq> kind arg \<or> part this \<noteq> part arg then False
      else if kind this \<noteq> KEY_RANGE then True
      else cmp_min_to_min sel_cmp this arg = 0 \<and> cmp_max_to_max sel_cmp this arg = 0)"

partial_function (option) all_same_loop :: "end_cmp \<Rightarrow> graph \<Rightarrow> nat \<Rightarrow> nat \<Rightarrow> (nat \<times> nat) option" where
  "all_same_loop sel_cmp g cur_arg cmp_arg =
     (if cur_arg \<noteq> 0 \<and> cmp_arg \<noteq> 0 \<and> is_same sel_cmp (g cur_arg) (g cmp_arg)
      then all_same_loop sel_cmp g (next_iv (g cur_arg)) (next_iv (g cmp_arg))
      else Some (cur_arg, cmp_arg))"

definition all_same :: "end_cmp \<Rightarrow> (graph \<Rightarrow> nat \<Rightarrow> nat) \<Rightarrow> graph \<Rightarrow> nat \<Rightarrow> nat \<Rightarrow> bool option" where
  "all_same sel_cmp first_of g this arg =
     (if kind (g this) \<noteq> kind (g arg) \<or> part (g this) \<noteq> part (g arg) then Some False
      else if kind (g this) \<noteq> KEY_RANGE then Some True
      else if arg = this then Some True
      else do {
        (cur_arg, cmp_arg) \<leftarrow> all_same_loop sel_cmp g (first_of g this) (first_of g arg);
        Some (\<not> (cur_arg \<noteq> 0 \<or> cmp_arg \<noteq> 0))
      })"

definition merge_flags :: "sel_arg \<Rightarrow> sel_arg \<Rightarrow> sel_arg" where
  "merge_flags this arg = this\<lparr>maybe_flag := maybe_flag this OR maybe_flag arg\<rparr>"

definition maybe_smaller :: "sel_arg \<Rightarrow> sel_arg" where
  "maybe_smaller this = this\<lparr>maybe_flag := 1\<rparr>"

definition is_null_interval :: "memory \<Rightarrow> sel_arg \<Rightarrow> bool" where
  "is_null_interval m this \<longleftrightarrow> maybe_null this \<noteq> 0 \<and> m (max_value this) = 1"

section \<open>Combining intervals\<close>

definition clone_and :: "end_cmp \<Rightarrow> new_sel_arg \<Rightarrow> sel_arg \<Rightarrow> sel_arg \<Rightarrow> sel_arg" where
  "clone_and sel_cmp new_sel this arg =
     (let (new_min, flag_min) =
            (if cmp_min_to_min sel_cmp this arg \<ge> 0 then (min_value this, min_flag this)
             else (min_value arg, min_flag arg));
          (new_max, flag_max) =
            (if cmp_max_to_max sel_cmp this arg \<le> 0 then (max_value this, max_flag this)
             else (max_value arg, max_flag arg))
      in new_sel (field this) (part this) new_min new_max flag_min flag_max
           (if maybe_flag this \<noteq> 0 \<and> maybe_flag arg \<noteq> 0 then 1 else 0))"

definition clone_first :: "new_sel_arg \<Rightarrow> sel_arg \<Rightarrow> sel_arg \<Rightarrow> sel_arg" where
  "clone_first new_sel this arg =
     new_sel (field this) (part this) (min_value this) (min_value arg) (min_flag this)
       (if min_flag arg AND NEAR_MIN \<noteq> 0 then 0 else NEAR_MAX) (maybe_flag this OR maybe_flag arg)"

definition clone_last :: "new_sel_arg \<Rightarrow> sel_arg \<Rightarrow> sel_arg \<Rightarrow> sel_arg" where
  "clone_last new_sel this arg =
     new_sel (field this) (part this) (min_value this) (max_value arg) (min_flag this) (max_flag arg)
       (maybe_flag this OR maybe_flag arg)"

definition copy_min :: "end_cmp \<Rightarrow> sel_arg \<Rightarrow> sel_arg \<Rightarrow> bool \<times> sel_arg" where
  "copy_min sel_cmp this arg =
     (let moved = cmp_min_to_min sel_cmp this arg > 0;
          this = (if moved then this\<lparr>min_value := min_value arg, min_flag := min_flag arg\<rparr> else this)
      in if moved \<and> max_flag this AND (NO_MAX_RANGE OR NO_MIN_RANGE) = NO_MAX_RANGE OR NO_MIN_RANGE
         then (True, this)
         else (False, this\<lparr>maybe_flag := maybe_flag this OR maybe_flag arg\<rparr>))"

definition copy_max :: "end_cmp \<Rightarrow> sel_arg \<Rightarrow> sel_arg \<Rightarrow> bool \<times> sel_arg" where
  "copy_max sel_cmp this arg =
     (let moved = cmp_max_to_max sel_cmp this arg \<le> 0;
          this = (if moved then this\<lparr>max_value := max_value arg, max_flag := max_flag arg\<rparr> else this)
      in if moved \<and> max_flag this AND (NO_MAX_RANGE OR NO_MIN_RANGE) = NO_MAX_RANGE OR NO_MIN_RANGE
         then (True, this)
         else (False, this\<lparr>maybe_flag := maybe_flag this OR maybe_flag arg\<rparr>))"

definition copy_min_to_min :: "sel_arg \<Rightarrow> sel_arg \<Rightarrow> sel_arg" where
  "copy_min_to_min this arg = this\<lparr>min_value := min_value arg, min_flag := min_flag arg\<rparr>"

definition copy_min_to_max :: "sel_arg \<Rightarrow> sel_arg \<Rightarrow> sel_arg" where
  "copy_min_to_max this arg =
     this\<lparr>max_value := min_value arg, max_flag := if min_flag arg AND NEAR_MIN \<noteq> 0 then 0 else NEAR_MAX\<rparr>"

definition copy_max_to_min :: "sel_arg \<Rightarrow> sel_arg \<Rightarrow> sel_arg" where
  "copy_max_to_min this arg =
     this\<lparr>min_value := max_value arg, min_flag := if max_flag arg AND NEAR_MAX \<noteq> 0 then 0 else NEAR_MIN\<rparr>"

definition is_singlepoint :: "(nat \<Rightarrow> nat \<Rightarrow> nat \<Rightarrow> int) \<Rightarrow> memory \<Rightarrow> sel_arg \<Rightarrow> bool" where
  "is_singlepoint key_cmp m this =
     (if min_flag this \<noteq> 0 \<or> max_flag this \<noteq> 0 then False
      else let min_val = min_value this; max_val = max_value this
           in if maybe_null this \<noteq> 0
              then if m min_val \<noteq> m max_val then False
                   else if m min_val \<noteq> 0 then True
                   else key_cmp (field this) (min_val + 1) (max_val + 1) = 0
              else key_cmp (field this) min_val max_val = 0)"

section \<open>Storing the ends of an interval in a key\<close>

text \<open>
  The value of an end, or a NULL with zeros, is written at the end of a key of which \<open>len\<close> bytes are
  taken; the number of values is the first result.
\<close>

definition store_value :: "memory \<Rightarrow> sel_arg \<Rightarrow> nat \<Rightarrow> uint \<Rightarrow> nat \<Rightarrow> memory" where
  "store_value m this val len key =
     (if maybe_null this \<noteq> 0 \<and> m val \<noteq> 0
      then copy_in m key (1 # replicate (unat (len - 1)) 0)
      else copy_in m key (copy_out m val (unat len)))"

definition store_min :: "memory \<Rightarrow> sel_arg \<Rightarrow> uint \<Rightarrow> nat \<Rightarrow> uint \<Rightarrow> int \<times> memory \<times> nat" where
  "store_min m this len min_key min_key_flag =
     (if min_flag this AND GEOM_FLAG \<noteq> 0 \<or>
         \<not> (min_flag this AND NO_MIN_RANGE \<noteq> 0) \<and> \<not> (min_key_flag AND (NO_MIN_RANGE OR NEAR_MIN) \<noteq> 0)
      then (1, store_value m this (min_value this) len min_key, min_key + unat len)
      else (0, m, min_key))"

definition store_max :: "memory \<Rightarrow> sel_arg \<Rightarrow> uint \<Rightarrow> nat \<Rightarrow> uint \<Rightarrow> int \<times> memory \<times> nat" where
  "store_max m this len max_key max_key_flag =
     (if \<not> (max_flag this AND NO_MAX_RANGE \<noteq> 0) \<and> \<not> (max_key_flag AND (NO_MAX_RANGE OR NEAR_MAX) \<noteq> 0)
      then (1, store_value m this (max_value this) len max_key, max_key + unat len)
      else (0, m, max_key))"

definition descending :: "(nat \<Rightarrow> key_part) \<Rightarrow> sel_arg \<Rightarrow> bool" where
  "descending kp this \<longleftrightarrow> kp_flag (kp (unat (part this))) AND HA_REVERSE_SORT \<noteq> 0"

definition store_min_max ::
    "(nat \<Rightarrow> key_part) \<Rightarrow> memory \<Rightarrow> sel_arg \<Rightarrow> uint \<Rightarrow> nat \<Rightarrow> uint \<Rightarrow> nat \<Rightarrow> uint \<Rightarrow> int \<Rightarrow> int \<Rightarrow>
     memory \<times> nat \<times> nat \<times> int \<times> int" where
  "store_min_max kp m this len min_key flag_min max_key flag_max min_part max_part =
     (if descending kp this
      then let (n, m, max_key) = store_min m this len max_key flag_min;
               max_part = max_part + n;
               (n, m, min_key) = store_max m this len min_key flag_max
           in (m, min_key, max_key, min_part + n, max_part)
      else let (n, m, min_key) = store_min m this len min_key flag_min;
               min_part = min_part + n;
               (n, m, max_key) = store_max m this len max_key flag_max
           in (m, min_key, max_key, min_part, max_part + n))"

definition get_min_flag :: "(nat \<Rightarrow> key_part) \<Rightarrow> sel_arg \<Rightarrow> uint" where
  "get_min_flag kp this = (if descending kp this then invert_max_flag (ucast (max_flag this)) else ucast (min_flag this))"

definition get_max_flag :: "(nat \<Rightarrow> key_part) \<Rightarrow> sel_arg \<Rightarrow> uint" where
  "get_max_flag kp this = (if descending kp this then invert_min_flag (ucast (min_flag this)) else ucast (max_flag this))"

definition index_order_prev :: "(nat \<Rightarrow> key_part) \<Rightarrow> sel_arg \<Rightarrow> nat" where
  "index_order_prev kp this = (if descending kp this then next_iv this else prev_iv this)"

definition index_order_next :: "(nat \<Rightarrow> key_part) \<Rightarrow> sel_arg \<Rightarrow> nat" where
  "index_order_next kp this = (if descending kp this then prev_iv this else next_iv this)"

text \<open>
  \<^verbatim>\<open>store_min_key\<close> and \<^verbatim>\<open>store_max_key\<close> call each other: \<open>side\<close> tells which of the two runs. The search for
  the first and the last node of a list is given by \<open>end_of\<close>.
\<close>

datatype side = Lower | Upper

definition store_end :: "side \<Rightarrow> memory \<Rightarrow> sel_arg \<Rightarrow> uint \<Rightarrow> nat \<Rightarrow> uint \<Rightarrow> int \<times> memory \<times> nat" where
  "store_end sd = (case sd of Lower \<Rightarrow> store_min | Upper \<Rightarrow> store_max)"

definition end_flag :: "side \<Rightarrow> sel_arg \<Rightarrow> uint8" where
  "end_flag sd = (case sd of Lower \<Rightarrow> min_flag | Upper \<Rightarrow> max_flag)"

definition open_flags :: "side \<Rightarrow> uint" where
  "open_flags sd = (case sd of Lower \<Rightarrow> NO_MIN_RANGE OR NEAR_MIN | Upper \<Rightarrow> NO_MAX_RANGE OR NEAR_MAX)"

definition invert_flag :: "side \<Rightarrow> uint \<Rightarrow> uint" where
  "invert_flag sd = (case sd of Lower \<Rightarrow> invert_min_flag | Upper \<Rightarrow> invert_max_flag)"

definition other :: "side \<Rightarrow> side" where
  "other sd = (case sd of Lower \<Rightarrow> Upper | Upper \<Rightarrow> Lower)"

partial_function (option) store_key ::
    "(side \<Rightarrow> graph \<Rightarrow> nat \<Rightarrow> nat) \<Rightarrow> graph \<Rightarrow> (nat \<Rightarrow> key_part) \<Rightarrow> uint \<Rightarrow> bool \<Rightarrow>
     side \<Rightarrow> nat \<Rightarrow> memory \<Rightarrow> nat \<Rightarrow> uint \<Rightarrow> (int \<times> memory \<times> nat \<times> uint) option" where
  "store_key end_of g key last_part start_key sd this m range_key range_key_flag =
     (let key_tree = g (end_of sd g this);
          (res, m, range_key) =
            store_end sd m key_tree (ucast (store_length (key (unat (part key_tree))))) range_key range_key_flag
      in if res = 0 then Some (0, m, range_key, range_key_flag)
         else let range_key_flag = range_key_flag OR ucast (end_flag sd key_tree);
                  nkp = next_key_part key_tree
              in if nkp \<noteq> 0 \<and> kind (g nkp) = KEY_RANGE \<and> ucast (part key_tree) \<noteq> last_part \<and>
                    unat (part (g nkp)) = unat (part key_tree) + 1 \<and> range_key_flag AND open_flags sd = 0
                 then let asc = (\<not> descending key key_tree)
                      in if (start_key = asc) = (sd = Lower)
                         then do {
                           (n, m, range_key, range_key_flag) \<leftarrow>
                             store_key end_of g key last_part start_key sd nkp m range_key range_key_flag;
                           Some (res + n, m, range_key, range_key_flag) }
                         else do {
                           let tmp_flag = invert_flag sd range_key_flag;
                           (n, m, range_key, tmp_flag) \<leftarrow>
                             store_key end_of g key last_part start_key (other sd) nkp m range_key tmp_flag;
                           Some (res + n, m, range_key, invert_flag (other sd) tmp_flag) }
                 else Some (res, m, range_key, range_key_flag))"

definition store_min_key where
  "store_min_key end_of g key last_part start_key =
     store_key end_of g key last_part start_key Lower"

definition store_max_key where
  "store_max_key end_of g key last_part start_key =
     store_key end_of g key last_part start_key Upper"

section \<open>Use counts\<close>

definition simple_key :: "sel_arg \<Rightarrow> bool" where
  "simple_key this \<longleftrightarrow> next_key_part this = 0 \<and> elements this = 1"

definition set_use_count :: "graph \<Rightarrow> nat \<Rightarrow> uint \<Rightarrow> graph" where
  "set_use_count g p n = g(p := (g p)\<lparr>use_count := n\<rparr>)"

text \<open>
  The loop of \<^verbatim>\<open>increment_use_count\<close>, with the recursive call written out. \<^verbatim>\<open>ulong\<close> and \<^verbatim>\<open>long\<close> have 32 bits
  on the platform of the package (\<^verbatim>\<open>SIZEOF_LONG\<close> in \<^verbatim>\<open>my_config.h\<close>).
\<close>

partial_function (option) increment_loop ::
    "(graph \<Rightarrow> nat \<Rightarrow> nat) \<Rightarrow> uint \<Rightarrow> nat \<Rightarrow> graph \<Rightarrow> graph option" where
  "increment_loop first_of count pos g =
     (if pos \<noteq> 0
      then do {
        g \<leftarrow> (let nkp = next_key_part (g pos)
              in if nkp \<noteq> 0
                 then let g = set_use_count g nkp (use_count (g nkp) + count)
                      in increment_loop first_of (count * (use_count (g nkp) - count)) (first_of g nkp) g
                 else Some g);
        increment_loop first_of count (next_iv (g pos)) g }
      else Some g)"

definition increment_use_count :: "(graph \<Rightarrow> nat \<Rightarrow> nat) \<Rightarrow> uint \<Rightarrow> nat \<Rightarrow> graph \<Rightarrow> graph option" where
  "increment_use_count first_of count this g =
     (let nkp = next_key_part (g this)
      in if nkp \<noteq> 0
         then let g = set_use_count g nkp (use_count (g nkp) + count)
              in increment_loop first_of (count * (use_count (g nkp) - count)) (first_of g nkp) g
         else Some g)"

definition incr_refs :: "(graph \<Rightarrow> nat \<Rightarrow> nat) \<Rightarrow> nat \<Rightarrow> graph \<Rightarrow> graph option" where
  "incr_refs first_of this g = do {
     g \<leftarrow> increment_use_count first_of 1 this g;
     Some (set_use_count g this (use_count (g this) + 1)) }"

definition incr_refs_all :: "(graph \<Rightarrow> nat \<Rightarrow> nat) \<Rightarrow> nat \<Rightarrow> graph \<Rightarrow> graph option" where
  "incr_refs_all first_of this g = do {
     g \<leftarrow> increment_loop first_of 1 (first_of g this) g;
     Some (set_use_count g this (use_count (g this) + 1)) }"

partial_function (option) free_loop :: "(graph \<Rightarrow> nat \<Rightarrow> nat) \<Rightarrow> nat \<Rightarrow> graph \<Rightarrow> graph option" where
  "free_loop first_of pos g =
     (if pos \<noteq> 0
      then do {
        g \<leftarrow> (let nkp = next_key_part (g pos)
              in if nkp \<noteq> 0
                 then let g = set_use_count g nkp (use_count (g nkp) - 1)
                      in free_loop first_of (first_of g nkp) g
                 else Some g);
        free_loop first_of (next_iv (g pos)) g }
      else Some g)"

definition free_tree :: "(graph \<Rightarrow> nat \<Rightarrow> nat) \<Rightarrow> nat \<Rightarrow> graph \<Rightarrow> graph option" where
  "free_tree first_of this g = free_loop first_of (first_of g this) g"

datatype child = Left_child | Right_child

definition parent_ptr :: "graph \<Rightarrow> nat \<Rightarrow> child \<times> nat" where
  "parent_ptr g this = (if left (g (parent (g this))) = this then Left_child else Right_child, parent (g this))"

section \<open>Ranges for the storage engine\<close>

type_synonym key_part_map = uint

datatype ha_rkey_function =
  HA_READ_KEY_EXACT | HA_READ_KEY_OR_NEXT | HA_READ_KEY_OR_PREV | HA_READ_AFTER_KEY | HA_READ_BEFORE_KEY |
  HA_READ_PREFIX | HA_READ_PREFIX_LAST | HA_READ_PREFIX_LAST_OR_PREV | HA_READ_MBR_CONTAIN |
  HA_READ_MBR_INTERSECT | HA_READ_MBR_WITHIN | HA_READ_MBR_DISJOINT | HA_READ_MBR_EQUAL

record key_range =
  kr_key :: nat
  kr_length :: uint
  kr_keypart_map :: key_part_map
  kr_flag :: ha_rkey_function

record quick_range =
  min_key :: nat
  max_key :: nat
  min_length :: uint16
  max_length :: uint16
  qr_flag :: uint16
  min_keypart_map :: key_part_map
  max_keypart_map :: key_part_map

text \<open>The constructor: \<open>min_dup\<close> and \<open>max_dup\<close> are the copies of the keys that \<^verbatim>\<open>memdup\<close> made.\<close>

definition QUICK_RANGE :: "nat \<Rightarrow> uint \<Rightarrow> key_part_map \<Rightarrow> nat \<Rightarrow> uint \<Rightarrow> key_part_map \<Rightarrow> uint \<Rightarrow> quick_range" where
  "QUICK_RANGE min_dup min_length_arg min_map max_dup max_length_arg max_map flag_arg =
     \<lparr>min_key = min_dup, max_key = max_dup, min_length = ucast min_length_arg, max_length = ucast max_length_arg,
      qr_flag = ucast flag_arg, min_keypart_map = min_map, max_keypart_map = max_map\<rparr>"

definition make_min_endpoint :: "quick_range \<Rightarrow> key_range" where
  "make_min_endpoint qr =
     \<lparr>kr_key = min_key qr, kr_length = ucast (min_length qr), kr_keypart_map = min_keypart_map qr,
      kr_flag = (if qr_flag qr AND NEAR_MIN \<noteq> 0 then HA_READ_AFTER_KEY
                 else if qr_flag qr AND EQ_RANGE \<noteq> 0 then HA_READ_KEY_EXACT else HA_READ_KEY_OR_NEXT)\<rparr>"

definition make_min_endpoint_prefix :: "quick_range \<Rightarrow> uint \<Rightarrow> key_part_map \<Rightarrow> key_range" where
  "make_min_endpoint_prefix qr prefix_length keypart_map =
     (let kr = make_min_endpoint qr
      in kr\<lparr>kr_length := min (kr_length kr) prefix_length, kr_keypart_map := kr_keypart_map kr AND keypart_map\<rparr>)"

definition make_max_endpoint :: "quick_range \<Rightarrow> key_range" where
  "make_max_endpoint qr =
     \<lparr>kr_key = max_key qr, kr_length = ucast (max_length qr), kr_keypart_map = max_keypart_map qr,
      kr_flag = (if qr_flag qr AND NEAR_MAX \<noteq> 0 then HA_READ_BEFORE_KEY else HA_READ_AFTER_KEY)\<rparr>"

definition make_max_endpoint_prefix :: "quick_range \<Rightarrow> uint \<Rightarrow> key_part_map \<Rightarrow> key_range" where
  "make_max_endpoint_prefix qr prefix_length keypart_map =
     (let kr = make_max_endpoint qr
      in kr\<lparr>kr_length := min (kr_length kr) prefix_length, kr_keypart_map := kr_keypart_map kr AND keypart_map\<rparr>)"

section \<open>What an interval means\<close>

text \<open>
  \<open>key f p\<close> is the value of field \<open>f\<close> that is stored at \<open>p\<close>, in the order of the field, a NULL
  before all others. Bit 0 is \<^verbatim>\<open>NO_MIN_RANGE\<close>, bit 1 \<^verbatim>\<open>NO_MAX_RANGE\<close>, bit 2 \<^verbatim>\<open>NEAR_MIN\<close>, bit 3 \<^verbatim>\<open>NEAR_MAX\<close>.
\<close>

lemma flag_bits [simp]:
  "(w AND 1 = 0) = (\<not> bit w 0)" "(w AND 2 = 0) = (\<not> bit w 1)" "(w AND 4 = 0) = (\<not> bit w 2)"
  "(w AND 8 = 0) = (\<not> bit w 3)" "(w AND 128 = 0) = (\<not> bit w 7)" for w :: "'a::len word"
  using and_exp_eq_0_iff_not_bit [of w 0] and_exp_eq_0_iff_not_bit [of w 1] and_exp_eq_0_iff_not_bit [of w 2]
    and_exp_eq_0_iff_not_bit [of w 3] and_exp_eq_0_iff_not_bit [of w 7] by simp_all

definition min_ok :: "(nat \<Rightarrow> nat \<Rightarrow> 'k::linorder) \<Rightarrow> sel_arg \<Rightarrow> 'k \<Rightarrow> bool" where
  "min_ok key sa v \<longleftrightarrow> bit (min_flag sa) 0 \<or>
     (if bit (min_flag sa) 2 then key (field sa) (min_value sa) < v else key (field sa) (min_value sa) \<le> v)"

definition max_ok :: "(nat \<Rightarrow> nat \<Rightarrow> 'k::linorder) \<Rightarrow> sel_arg \<Rightarrow> 'k \<Rightarrow> bool" where
  "max_ok key sa v \<longleftrightarrow> bit (max_flag sa) 1 \<or>
     (if bit (max_flag sa) 3 then v < key (field sa) (max_value sa) else v \<le> key (field sa) (max_value sa))"

definition range_of :: "(nat \<Rightarrow> nat \<Rightarrow> 'k::linorder) \<Rightarrow> sel_arg \<Rightarrow> 'k set" where
  "range_of key sa = {v. min_ok key sa v \<and> max_ok key sa v}"

text \<open>The flags of the lower end stay in \<^verbatim>\<open>min_flag\<close>, those of the upper end in \<^verbatim>\<open>max_flag\<close>.\<close>

definition wf_ends :: "sel_arg \<Rightarrow> bool" where
  "wf_ends sa \<longleftrightarrow> \<not> bit (min_flag sa) 1 \<and> \<not> bit (min_flag sa) 3 \<and> \<not> bit (max_flag sa) 0 \<and> \<not> bit (max_flag sa) 2"

text \<open>An end lies at a value, just above it or just below it, or before or after all values.\<close>

definition offset_of :: "uint8 \<Rightarrow> int" where
  "offset_of fl = (if bit fl 2 then 1 else if bit fl 3 then -1 else 0)"

definition pos_cmp :: "'k::linorder \<Rightarrow> 'k \<Rightarrow> uint8 \<Rightarrow> uint8 \<Rightarrow> int" where
  "pos_cmp a b fa fb =
     (if bit fa 0 then (if bit fb 0 then 0 else -1)
      else if bit fa 1 then (if bit fb 1 then 0 else 1)
      else if bit fb 0 then 1 else if bit fb 1 then -1
      else if a < b then -1 else if b < a then 1 else sgn (offset_of fa - offset_of fb))"

definition sel_cmp_law :: "(nat \<Rightarrow> nat \<Rightarrow> 'k::linorder) \<Rightarrow> end_cmp \<Rightarrow> bool" where
  "sel_cmp_law key sel_cmp \<longleftrightarrow> (\<forall>f a b fa fb. sgn (sel_cmp f a b fa fb) = pos_cmp (key f a) (key f b) fa fb)"

definition constructor_law :: "new_sel_arg \<Rightarrow> bool" where
  "constructor_law new_sel \<longleftrightarrow> (\<forall>f p a b fa fb mf. let sa = new_sel f p a b fa fb mf in
     field sa = f \<and> part sa = p \<and> min_value sa = a \<and> max_value sa = b \<and> min_flag sa = fa \<and>
     max_flag sa = fb \<and> maybe_flag sa = mf)"

text \<open>The first byte of a value that may be NULL tells whether it is.\<close>

definition key_cmp_law ::
    "(nat \<Rightarrow> nat \<Rightarrow> 'k::linorder) \<Rightarrow> (nat \<Rightarrow> nat \<Rightarrow> nat \<Rightarrow> int) \<Rightarrow> memory \<Rightarrow> sel_arg \<Rightarrow> bool" where
  "key_cmp_law key key_cmp m sa \<longleftrightarrow> (\<forall>p q.
     if maybe_null sa = 0 then key_cmp (field sa) p q = 0 \<longleftrightarrow> key (field sa) p = key (field sa) q
     else m p \<noteq> m q \<and> key (field sa) p \<noteq> key (field sa) q \<or>
          m p \<noteq> 0 \<and> m p = m q \<and> key (field sa) p = key (field sa) q \<or>
          m p = 0 \<and> m q = 0 \<and> (key_cmp (field sa) (p + 1) (q + 1) = 0 \<longleftrightarrow> key (field sa) p = key (field sa) q))"

lemma sel_cmp_sign:
  assumes "sel_cmp_law key sel_cmp"
  shows "0 \<le> sel_cmp f a b fa fb \<longleftrightarrow> 0 \<le> pos_cmp (key f a) (key f b) fa fb"
    and "sel_cmp f a b fa fb \<le> 0 \<longleftrightarrow> pos_cmp (key f a) (key f b) fa fb \<le> 0"
    and "0 < sel_cmp f a b fa fb \<longleftrightarrow> 0 < pos_cmp (key f a) (key f b) fa fb"
    and "sel_cmp f a b fa fb = 0 \<longleftrightarrow> pos_cmp (key f a) (key f b) fa fb = 0"
proof -
  have s: "pos_cmp (key f a) (key f b) fa fb = sgn (sel_cmp f a b fa fb)"
    using assms by (simp add: sel_cmp_law_def)
  show "0 \<le> sel_cmp f a b fa fb \<longleftrightarrow> 0 \<le> pos_cmp (key f a) (key f b) fa fb"
    and "sel_cmp f a b fa fb \<le> 0 \<longleftrightarrow> pos_cmp (key f a) (key f b) fa fb \<le> 0"
    and "0 < sel_cmp f a b fa fb \<longleftrightarrow> 0 < pos_cmp (key f a) (key f b) fa fb"
    and "sel_cmp f a b fa fb = 0 \<longleftrightarrow> pos_cmp (key f a) (key f b) fa fb = 0"
    unfolding s by (simp_all add: sgn_if)
qed

text \<open>The comparison of two lower ends, and of two upper ends.\<close>

lemma min_order:
  assumes "wf_ends a" "wf_ends b" "field a = field b"
    and "d = pos_cmp (key (field a) (min_value a)) (key (field a) (min_value b)) (min_flag a) (min_flag b)"
  shows "0 \<le> d \<Longrightarrow> min_ok key a v \<Longrightarrow> min_ok key b v" and "d \<le> 0 \<Longrightarrow> min_ok key b v \<Longrightarrow> min_ok key a v"
  using assms by (auto simp: wf_ends_def min_ok_def pos_cmp_def offset_of_def split: if_splits)

lemma max_order:
  assumes "wf_ends a" "wf_ends b" "field a = field b"
    and "d = pos_cmp (key (field a) (max_value a)) (key (field a) (max_value b)) (max_flag a) (max_flag b)"
  shows "0 \<le> d \<Longrightarrow> max_ok key b v \<Longrightarrow> max_ok key a v" and "d \<le> 0 \<Longrightarrow> max_ok key a v \<Longrightarrow> max_ok key b v"
  using assms by (auto simp: wf_ends_def max_ok_def pos_cmp_def offset_of_def split: if_splits)

lemma cmp_min:
  assumes "sel_cmp_law key sel_cmp" "wf_ends a" "wf_ends b" "field a = field b"
  shows "0 \<le> cmp_min_to_min sel_cmp a b \<Longrightarrow> min_ok key a v \<Longrightarrow> min_ok key b v"
    and "cmp_min_to_min sel_cmp a b \<le> 0 \<Longrightarrow> min_ok key b v \<Longrightarrow> min_ok key a v"
  using min_order [OF assms(2-4) refl, of key v] sel_cmp_sign [OF assms(1)]
  by (auto simp: cmp_min_to_min_def)

lemma cmp_max:
  assumes "sel_cmp_law key sel_cmp" "wf_ends a" "wf_ends b" "field a = field b"
  shows "0 \<le> cmp_max_to_max sel_cmp a b \<Longrightarrow> max_ok key b v \<Longrightarrow> max_ok key a v"
    and "cmp_max_to_max sel_cmp a b \<le> 0 \<Longrightarrow> max_ok key a v \<Longrightarrow> max_ok key b v"
  using max_order [OF assms(2-4) refl, of key v] sel_cmp_sign [OF assms(1)]
  by (auto simp: cmp_max_to_max_def)

lemma constructed [simp]:
  assumes "constructor_law new_sel"
  shows "field (new_sel f p a b fa fb mf) = f" "part (new_sel f p a b fa fb mf) = p"
    "min_value (new_sel f p a b fa fb mf) = a" "max_value (new_sel f p a b fa fb mf) = b"
    "min_flag (new_sel f p a b fa fb mf) = fa" "max_flag (new_sel f p a b fa fb mf) = fb"
    "maybe_flag (new_sel f p a b fa fb mf) = mf"
  using assms by (simp_all add: constructor_law_def Let_def)

lemma clone_and_range:
  assumes "sel_cmp_law key sel_cmp" "constructor_law new_sel" "wf_ends a" "wf_ends b" "field a = field b"
  shows "range_of key (clone_and sel_cmp new_sel a b) = range_of key a \<inter> range_of key b \<and>
    wf_ends (clone_and sel_cmp new_sel a b)"
proof -
  let ?c = "clone_and sel_cmp new_sel a b"
  have "min_ok key ?c v \<longleftrightarrow> min_ok key a v \<and> min_ok key b v" for v
  proof (cases "0 \<le> cmp_min_to_min sel_cmp a b")
    case True
    then have "min_ok key ?c v = min_ok key a v"
      using assms(2) by (simp add: clone_and_def min_ok_def split: prod.split)
    then show ?thesis using cmp_min(1) [OF assms(1,3,4,5) True] by blast
  next
    case False
    then have "min_ok key ?c v = min_ok key b v"
      using assms(2,5) by (simp add: clone_and_def min_ok_def split: prod.split)
    then show ?thesis using cmp_min(2) [OF assms(1,3,4,5)] False by auto
  qed
  moreover have "max_ok key ?c v \<longleftrightarrow> max_ok key a v \<and> max_ok key b v" for v
  proof (cases "cmp_max_to_max sel_cmp a b \<le> 0")
    case True
    then have "max_ok key ?c v = max_ok key a v"
      using assms(2) by (simp add: clone_and_def max_ok_def split: prod.split)
    then show ?thesis using cmp_max(2) [OF assms(1,3,4,5) True] by blast
  next
    case False
    then have "max_ok key ?c v = max_ok key b v"
      using assms(2,5) by (simp add: clone_and_def max_ok_def split: prod.split)
    then show ?thesis using cmp_max(1) [OF assms(1,3,4,5)] False by auto
  qed
  moreover have "wf_ends ?c" using assms(2,3,4) by (simp add: clone_and_def wf_ends_def split: prod.split)
  ultimately show ?thesis by (auto simp: range_of_def)
qed

lemma clone_parts_range:
  assumes "constructor_law new_sel" "wf_ends a" "wf_ends b" "field a = field b"
  shows "\<not> bit (min_flag b) 0 \<longrightarrow> range_of key (clone_first new_sel a b) = {v. min_ok key a v \<and> \<not> min_ok key b v}"
    and "range_of key (clone_last new_sel a b) = {v. min_ok key a v \<and> max_ok key b v}"
  using assms by (auto simp: range_of_def min_ok_def max_ok_def clone_first_def clone_last_def)

lemma copy_min_range:
  assumes "sel_cmp_law key sel_cmp" "wf_ends a" "wf_ends b" "field a = field b"
  shows "\<exists>a'. copy_min sel_cmp a b = (False, a') \<and> wf_ends a' \<and> max_ok key a' = max_ok key a \<and>
    (\<forall>v. min_ok key a' v \<longleftrightarrow> min_ok key a v \<or> min_ok key b v)"
proof -
  have f: "max_flag a AND 3 \<noteq> 3"
  proof
    assume "max_flag a AND 3 = 3"
    then have "bit (max_flag a AND 3) 0" by simp
    then show False using assms(2) by (simp add: wf_ends_def bit_and_iff)
  qed
  show ?thesis
  proof (cases "0 < cmp_min_to_min sel_cmp a b")
    case True
    have "min_ok key (a\<lparr>min_value := min_value b, min_flag := min_flag b, maybe_flag := n\<rparr>) v = min_ok key b v" for v n
      using assms(4) by (simp add: min_ok_def)
    moreover have "min_ok key a v \<Longrightarrow> min_ok key b v" for v
      using cmp_min(1) [OF assms] True by simp
    ultimately show ?thesis using True f assms(2,3)
      by (auto simp: copy_min_def Let_def wf_ends_def max_ok_def fun_eq_iff)
  next
    case False
    have "min_ok key (a\<lparr>maybe_flag := n\<rparr>) v = min_ok key a v" for v n by (simp add: min_ok_def)
    moreover have "min_ok key b v \<Longrightarrow> min_ok key a v" for v
      using cmp_min(2) [OF assms] False by simp
    ultimately show ?thesis using False assms(2)
      by (auto simp: copy_min_def Let_def wf_ends_def max_ok_def fun_eq_iff)
  qed
qed

lemma copy_max_range:
  assumes "sel_cmp_law key sel_cmp" "wf_ends a" "wf_ends b" "field a = field b"
  shows "\<exists>a'. copy_max sel_cmp a b = (False, a') \<and> wf_ends a' \<and> min_ok key a' = min_ok key a \<and>
    (\<forall>v. max_ok key a' v \<longleftrightarrow> max_ok key a v \<or> max_ok key b v)"
proof -
  have f: "max_flag b AND 3 \<noteq> 3"
  proof
    assume "max_flag b AND 3 = 3"
    then have "bit (max_flag b AND 3) 0" by simp
    then show False using assms(3) by (simp add: wf_ends_def bit_and_iff)
  qed
  show ?thesis
  proof (cases "cmp_max_to_max sel_cmp a b \<le> 0")
    case True
    have "max_ok key (a\<lparr>max_value := max_value b, max_flag := max_flag b, maybe_flag := n\<rparr>) v = max_ok key b v" for v n
      using assms(4) by (simp add: max_ok_def)
    moreover have "max_ok key a v \<Longrightarrow> max_ok key b v" for v
      using cmp_max(2) [OF assms] True by simp
    ultimately show ?thesis using True f assms(2,3)
      by (auto simp: copy_max_def Let_def wf_ends_def min_ok_def fun_eq_iff)
  next
    case False
    have "max_ok key (a\<lparr>maybe_flag := n\<rparr>) v = max_ok key a v" for v n by (simp add: max_ok_def)
    moreover have "max_ok key b v \<Longrightarrow> max_ok key a v" for v
      using cmp_max(1) [OF assms] False by simp
    ultimately show ?thesis using False assms(2)
      by (auto simp: copy_max_def Let_def wf_ends_def min_ok_def fun_eq_iff)
  qed
qed

lemma copy_ends_range:
  assumes "wf_ends a" "wf_ends b" "field a = field b"
  shows "range_of key (copy_min_to_min a b) = {v. min_ok key b v \<and> max_ok key a v}"
    and "\<not> bit (min_flag b) 0 \<longrightarrow> range_of key (copy_min_to_max a b) = {v. min_ok key a v \<and> \<not> min_ok key b v}"
    and "\<not> bit (max_flag b) 1 \<longrightarrow> range_of key (copy_max_to_min a b) = {v. \<not> max_ok key b v \<and> max_ok key a v}"
  using assms
  by (auto simp: range_of_def min_ok_def max_ok_def copy_min_to_min_def copy_min_to_max_def copy_max_to_min_def)

lemma is_same_range:
  assumes "sel_cmp_law key sel_cmp" "wf_ends a" "wf_ends b" "field a = field b"
  shows "is_same sel_cmp a b \<Longrightarrow> kind a = KEY_RANGE \<Longrightarrow> range_of key a = range_of key b"
  using cmp_min [OF assms, of _] cmp_max [OF assms, of _]
  by (auto simp: is_same_def range_of_def split: if_splits)

lemma is_singlepoint_range:
  assumes "key_cmp_law key key_cmp m a"
  shows "is_singlepoint key_cmp m a \<longleftrightarrow> min_flag a = 0 \<and> max_flag a = 0 \<and>
    key (field a) (min_value a) = key (field a) (max_value a)"
proof -
  have "if maybe_null a = 0 then key_cmp (field a) (min_value a) (max_value a) = 0 \<longleftrightarrow>
      key (field a) (min_value a) = key (field a) (max_value a)
    else m (min_value a) \<noteq> m (max_value a) \<and> key (field a) (min_value a) \<noteq> key (field a) (max_value a) \<or>
      m (min_value a) \<noteq> 0 \<and> m (min_value a) = m (max_value a) \<and>
        key (field a) (min_value a) = key (field a) (max_value a) \<or>
      m (min_value a) = 0 \<and> m (max_value a) = 0 \<and>
        (key_cmp (field a) (min_value a + 1) (max_value a + 1) = 0 \<longleftrightarrow>
         key (field a) (min_value a) = key (field a) (max_value a))"
    using assms unfolding key_cmp_law_def by blast
  then show ?thesis by (auto simp: is_singlepoint_def Let_def split: if_splits)
qed

text \<open>
  The operations on intervals compute what their names say, for any comparison of ends that orders
  them: \<^verbatim>\<open>clone_and\<close> is the intersection, \<^verbatim>\<open>clone_first\<close> the part before the other interval,
  \<^verbatim>\<open>clone_last\<close> reaches from the lower end of one to the upper end of the other, \<^verbatim>\<open>copy_min\<close> and
  \<^verbatim>\<open>copy_max\<close> extend the interval to the lower or the upper end of the other, and the three copies of an
  end cut the interval at the other one. \<^verbatim>\<open>copy_min\<close> and \<^verbatim>\<open>copy_max\<close> never report that the interval
  has become a full range, even when it has. Intervals that are the same have the same values, and a
  single point is an interval with both ends closed and equal.
\<close>
theorem sel_arg_interval_operations:
  "sel_cmp_law key sel_cmp \<and> constructor_law new_sel \<and> key_cmp_law key key_cmp m a \<and>
     wf_ends a \<and> wf_ends b \<and> field a = field b \<longrightarrow>
   range_of key (clone_and sel_cmp new_sel a b) = range_of key a \<inter> range_of key b \<and>
   (\<not> bit (min_flag b) 0 \<longrightarrow> range_of key (clone_first new_sel a b) = {v. min_ok key a v \<and> \<not> min_ok key b v}) \<and>
   range_of key (clone_last new_sel a b) = {v. min_ok key a v \<and> max_ok key b v} \<and>
   (\<exists>a'. copy_min sel_cmp a b = (False, a') \<and> wf_ends a' \<and> max_ok key a' = max_ok key a \<and>
     (\<forall>v. min_ok key a' v \<longleftrightarrow> min_ok key a v \<or> min_ok key b v)) \<and>
   (\<exists>a'. copy_max sel_cmp a b = (False, a') \<and> wf_ends a' \<and> min_ok key a' = min_ok key a \<and>
     (\<forall>v. max_ok key a' v \<longleftrightarrow> max_ok key a v \<or> max_ok key b v)) \<and>
   range_of key (copy_min_to_min a b) = {v. min_ok key b v \<and> max_ok key a v} \<and>
   (\<not> bit (min_flag b) 0 \<longrightarrow> range_of key (copy_min_to_max a b) = {v. min_ok key a v \<and> \<not> min_ok key b v}) \<and>
   (\<not> bit (max_flag b) 1 \<longrightarrow> range_of key (copy_max_to_min a b) = {v. \<not> max_ok key b v \<and> max_ok key a v}) \<and>
   (is_same sel_cmp a b \<and> kind a = KEY_RANGE \<longrightarrow> range_of key a = range_of key b) \<and>
   (is_singlepoint key_cmp m a \<longleftrightarrow> min_flag a = 0 \<and> max_flag a = 0 \<and>
     key (field a) (min_value a) = key (field a) (max_value a))"
  (is "_ \<longrightarrow> ?range")
proof (rule impI)
  assume "sel_cmp_law key sel_cmp \<and> constructor_law new_sel \<and> key_cmp_law key key_cmp m a \<and>
    wf_ends a \<and> wf_ends b \<and> field a = field b"
  then have h: "sel_cmp_law key sel_cmp" "constructor_law new_sel" "key_cmp_law key key_cmp m a"
    "wf_ends a" "wf_ends b" "field a = field b" by simp_all
  have "is_same sel_cmp a b \<and> kind a = KEY_RANGE \<longrightarrow> range_of key a = range_of key b"
    using is_same_range [OF h(1,4-6)] by blast
  note facts = this clone_and_range [OF h(1,2,4-6), THEN conjunct1] clone_parts_range [OF h(2,4-6), where key = key]
    copy_min_range [OF h(1,4-6)] copy_max_range [OF h(1,4-6)] copy_ends_range [OF h(4-6), where key = key]
    is_singlepoint_range [OF h(3)]
  show "?range" by (intro conjI) (fact facts)+
qed

section \<open>Conditions\<close>

text \<open>
  \<open>Iv p d r\<close>: the interval of node \<open>p\<close>, the condition \<open>d\<close> on later parts, \<open>Done\<close> when there is none, and the
  other intervals of the list. The graph may share conditions; the chain repeats them.
\<close>

datatype chain = Done | Iv (iv_node: nat) (iv_down: chain) (iv_rest: chain)

fun list_end :: "side \<Rightarrow> chain \<Rightarrow> nat \<times> chain" where
  "list_end sd Done = (0, Done)"
| "list_end Lower (Iv p d r) = (p, d)"
| "list_end Upper (Iv p d r) = (if r = Done then (p, d) else list_end Upper r)"

text \<open>
  The node at the end of the list, the node at the end of the list that its \<^verbatim>\<open>next_key_part\<close> leads to, and
  so on.
\<close>

fun end_nodes :: "side \<Rightarrow> chain \<Rightarrow> nat list" where
  "end_nodes sd Done = []"
| "end_nodes sd (Iv p d r) = (if sd = Lower \<or> r = Done then p # end_nodes sd d else end_nodes sd r)"

lemma end_nodes_step: "list_end sd c = (p, d) \<Longrightarrow> c \<noteq> Done \<Longrightarrow> end_nodes sd c = p # end_nodes sd d"
  by (induction sd c arbitrary: p d rule: list_end.induct) (auto split: if_splits)

lemma end_nodes_empty [simp]: "end_nodes sd c = [] \<longleftrightarrow> c = Done"
  by (induction c) auto

fun nodes_of :: "chain \<Rightarrow> nat set" where
  "nodes_of Done = {}"
| "nodes_of (Iv p d r) = {p} \<union> nodes_of d \<union> nodes_of r"

fun list_nodes :: "chain \<Rightarrow> nat list" where
  "list_nodes Done = []"
| "list_nodes (Iv p d r) = p # list_nodes r"

text \<open>
  The list of the condition is found from its root, to which \<^verbatim>\<open>next_key_part\<close> points. A root that is not a
  \<^verbatim>\<open>KEY_RANGE\<close> states nothing of the later parts that is known.
\<close>

fun crep :: "(side \<Rightarrow> graph \<Rightarrow> nat \<Rightarrow> nat) \<Rightarrow> graph \<Rightarrow> nat \<Rightarrow> chain \<Rightarrow> bool" where
  "crep end_of g q Done \<longleftrightarrow> q = 0"
| "crep end_of g q (Iv p d r) \<longleftrightarrow> q = p \<and> p \<noteq> 0 \<and> crep end_of g (next_iv (g p)) r \<and>
     (if d = Done then next_key_part (g p) = 0 \<or> kind (g (next_key_part (g p))) \<noteq> KEY_RANGE
      else next_key_part (g p) \<noteq> 0 \<and> crep end_of g (end_of Lower g (next_key_part (g p))) d \<and>
        end_of Upper g (next_key_part (g p)) = fst (list_end Upper d) \<and> 
        kind (g (next_key_part (g p))) = KEY_RANGE \<and>
        part (g (next_key_part (g p))) = part (g (iv_node d)))"

text \<open>There are no other roots than ranges.\<close>

fun only_ranges :: "graph \<Rightarrow> chain \<Rightarrow> bool" where
  "only_ranges g Done \<longleftrightarrow> True"
| "only_ranges g (Iv p d r) \<longleftrightarrow> (d = Done \<longrightarrow> next_key_part (g p) = 0) \<and> only_ranges g d \<and> only_ranges g r"

text \<open>The condition that a chain states of the values of the key parts.\<close>

fun sat :: "(nat \<Rightarrow> nat \<Rightarrow> 'k::linorder) \<Rightarrow> graph \<Rightarrow> chain \<Rightarrow> (nat \<Rightarrow> 'k) \<Rightarrow> bool" where
  "sat key g Done f \<longleftrightarrow> False"
| "sat key g (Iv p d r) f \<longleftrightarrow>
     (f (unat (part (g p))) \<in> range_of key (g p) \<and> (d = Done \<or> sat key g d f)) \<or> sat key g r f"

text \<open>A list of disjoint intervals in ascending order, none of them empty, and on later parts likewise.\<close>

fun ordered :: "(nat \<Rightarrow> nat \<Rightarrow> 'k::linorder) \<Rightarrow> graph \<Rightarrow> chain \<Rightarrow> bool" where
  "ordered key g Done \<longleftrightarrow> True"
| "ordered key g (Iv p d r) \<longleftrightarrow> wf_ends (g p) \<and> \<not> bit (min_flag (g p)) 7 \<and> range_of key (g p) \<noteq> {} \<and>
     (\<forall>q\<in>set (list_nodes r). part (g q) = part (g p) \<and>
        (\<forall>x\<in>range_of key (g p). \<forall>y\<in>range_of key (g q). x < y)) \<and>
     ordered key g d \<and> ordered key g r"

text \<open>The value of an end, and what lies before it on its side.\<close>

definition end_value :: "side \<Rightarrow> sel_arg \<Rightarrow> nat" where
  "end_value sd = (case sd of Lower \<Rightarrow> min_value | Upper \<Rightarrow> max_value)"

definition inside :: "side \<Rightarrow> 'k::linorder \<Rightarrow> 'k \<Rightarrow> bool" where
  "inside sd a b = (case sd of Lower \<Rightarrow> a < b | Upper \<Rightarrow> b < a)"

definition near :: "side \<Rightarrow> 'a::len word \<Rightarrow> bool" where
  "near sd w = bit w (case sd of Lower \<Rightarrow> 2 | Upper \<Rightarrow> 3)"

definition unbounded :: "side \<Rightarrow> 'a::len word \<Rightarrow> bool" where
  "unbounded sd w = bit w (case sd of Lower \<Rightarrow> 0 | Upper \<Rightarrow> 1)"

text \<open>The tuple \<open>f\<close> is not outside of the key with the ends of the nodes \<open>ps\<close>, and not on it when it is open.\<close>

fun bounded :: "(nat \<Rightarrow> nat \<Rightarrow> 'k::linorder) \<Rightarrow> graph \<Rightarrow> side \<Rightarrow> bool \<Rightarrow> nat list \<Rightarrow> (nat \<Rightarrow> 'k) \<Rightarrow> bool" where
  "bounded key g sd open_end [] f \<longleftrightarrow> \<not> open_end"
| "bounded key g sd open_end (p # ps) f \<longleftrightarrow>
     (let v = key (field (g p)) (end_value sd (g p)); x = f (unat (part (g p)))
      in inside sd v x \<or> v = x \<and> bounded key g sd open_end ps f)"

lemma open_flags_iff: "(fl AND open_flags sd = 0) \<longleftrightarrow> \<not> unbounded sd fl \<and> \<not> near sd fl"
proof -
  have o: "fl AND (a OR b) = 0 \<longleftrightarrow> fl AND a = 0 \<and> fl AND b = 0" for a b :: uint
  proof -
    have "fl AND (a OR b) = (fl AND a) OR (fl AND b)"
      by (rule bit_eqI) (auto simp: bit_or_iff bit_and_iff)
    then show ?thesis by (simp add: or_eq_0_iff)
  qed
  show ?thesis by (cases sd) (simp_all only: open_flags_def side.case o flag_bits unbounded_def near_def)
qed

lemma end_flag_bits: "bit (ucast (end_flag sd sa) :: uint) n \<longleftrightarrow> bit (end_flag sd sa) n"
  by (auto simp: bit_ucast_iff dest: bit_imp_le_length)

lemma unbounded_or: "unbounded sd (fl OR ucast (end_flag sd sa) :: uint) \<longleftrightarrow> unbounded sd fl \<or> unbounded sd (end_flag sd sa)"
  and near_or: "near sd (fl OR ucast (end_flag sd sa) :: uint) \<longleftrightarrow> near sd fl \<or> near sd (end_flag sd sa)"
  by (simp_all add: unbounded_def near_def bit_or_iff end_flag_bits)

text \<open>The bytes of a value in a key.\<close>

definition value_bytes :: "memory \<Rightarrow> sel_arg \<Rightarrow> nat \<Rightarrow> nat \<Rightarrow> uchar list" where
  "value_bytes m sa val n =
     (if maybe_null sa \<noteq> 0 \<and> m val \<noteq> 0 then 1 # replicate (n - 1) 0 else copy_out m val n)"

lemma length_value_bytes: "0 < n \<Longrightarrow> length (value_bytes m sa val n) = n"
  by (simp add: value_bytes_def copy_out_def)

lemma store_end_value:
  fixes n :: uint16
  assumes "0 < n" and "\<not> bit (min_flag sa) 7" and "fl AND open_flags sd = 0"
  shows "store_end sd m sa (ucast n) rk fl =
    (if unbounded sd (end_flag sd sa) then (0, m, rk)
     else (1, copy_in m rk (value_bytes m sa (end_value sd sa) (unat n)), rk + unat n))"
proof -
  have u: "unat (ucast n :: uint) = unat n" by transfer simp
  have pos: "ucast n \<noteq> (0 :: uint)" using assms(1) u by (auto simp: word_gt_0 unat_eq_0)
  have u1: "unat (ucast n - 1 :: uint) = unat n - 1" using pos u by (simp add: unat_minus_one)
  show ?thesis
    using assms(2,3) u u1
    by (cases sd) (auto simp: store_end_def store_min_def store_max_def store_value_def value_bytes_def
      end_flag_def end_value_def unbounded_def open_flags_def)
qed

lemma copy_in_twice: "copy_in (copy_in m p xs) (p + length xs) ys = copy_in m p (xs @ ys)"
  by (rule ext) (auto simp: copy_in_def nth_append)

section \<open>Bounds of a condition\<close>

lemma sat_list_node: "sat key g c f \<Longrightarrow> \<exists>q\<in>set (list_nodes c). f (unat (part (g q))) \<in> range_of key (g q)"
  by (induction c) auto

text \<open>
  The first interval of a list, or the last: a tuple that satisfies the condition lies in it, or beyond all
  of its values.
\<close>

lemma list_end_facts:
  assumes "ordered key g c" and "c \<noteq> Done" and "list_end sd c = (p, d)"
  shows "wf_ends (g p) \<and> \<not> bit (min_flag (g p)) 7 \<and> range_of key (g p) \<noteq> {} \<and> ordered key g d \<and>
    size d < size c \<and> p \<in> set (list_nodes c) \<and> part (g p) = part (g (iv_node c)) \<and> p \<in> nodes_of c \<and>
    nodes_of d \<subseteq> nodes_of c"
  using assms
proof (induction c)
  case (Iv q e r)
  show ?case
  proof (cases "sd = Lower \<or> r = Done")
    case True
    then have "p = q" "d = e" using Iv.prems(3) by (cases sd; auto)+
    then show ?thesis using Iv.prems(1) by auto
  next
    case False
    then have sd: "sd = Upper" "r \<noteq> Done" by (cases sd; auto)+
    then have l: "list_end sd r = (p, d)" using Iv.prems(3) by simp
    have h: "wf_ends (g p) \<and> \<not> bit (min_flag (g p)) 7 \<and> range_of key (g p) \<noteq> {} \<and> ordered key g d \<and>
      size d < size r \<and> p \<in> set (list_nodes r) \<and> part (g p) = part (g (iv_node r)) \<and> p \<in> nodes_of r \<and>
      nodes_of d \<subseteq> nodes_of r"
      using Iv.IH(2) Iv.prems(1) sd(2) l by simp
    then have "part (g p) = part (g q)" using Iv.prems(1) by auto
    then show ?thesis using h by auto
  qed
qed simp

lemma list_end_sat:
  assumes "ordered key g c" and "c \<noteq> Done" and "sat key g c f" and "list_end sd c = (p, d)"
  shows "(f (unat (part (g p))) \<in> range_of key (g p) \<and> (d = Done \<or> sat key g d f)) \<or>
    (\<forall>x\<in>range_of key (g p). inside sd x (f (unat (part (g p)))))"
  using assms
proof (induction c)
  case (Iv q e r)
  show ?case
  proof (cases sd)
    case Lower
    then have pq: "p = q" "d = e" using Iv.prems(4) by simp_all
    show ?thesis
    proof (cases "f (unat (part (g q))) \<in> range_of key (g q) \<and> (e = Done \<or> sat key g e f)")
      case True
      then show ?thesis using pq by simp
    next
      case False
      then have "sat key g r f" using Iv.prems(3) unfolding sat.simps by blast
      then obtain s where "s \<in> set (list_nodes r)" "f (unat (part (g s))) \<in> range_of key (g s)"
        using sat_list_node by blast
      then show ?thesis using Iv.prems(1) pq Lower by (auto simp: inside_def)
    qed
  next
    case Upper
    show ?thesis
    proof (cases "r = Done")
      case True
      then show ?thesis using Iv.prems(3,4) Upper by auto
    next
      case False
      then have l: "list_end sd r = (p, d)" using Iv.prems(4) Upper by simp
      have o: "ordered key g r" using Iv.prems(1) by simp
      note pf = list_end_facts [OF o False l]
      show ?thesis
      proof (cases "sat key g r f")
        case True
        then show ?thesis using Iv.IH(2) [OF o False _ l] by simp
      next
        case nr: False
        then have "f (unat (part (g q))) \<in> range_of key (g q)" using Iv.prems(3) by simp
        moreover have "part (g p) = part (g q)" "\<forall>x\<in>range_of key (g q). \<forall>y\<in>range_of key (g p). x < y"
          using Iv.prems(1) pf by auto
        ultimately show ?thesis using Upper by (auto simp: inside_def)
      qed
    qed
  qed
qed simp

text \<open>From the interval to its end: a bounded end is not passed, and an open one is not met.\<close>

lemma end_bounds:
  assumes "\<not> unbounded sd (end_flag sd sa)" and "v \<in> range_of key sa"
  shows "inside sd (key (field sa) (end_value sd sa)) v \<or>
    key (field sa) (end_value sd sa) = v \<and> \<not> near sd (end_flag sd sa)"
  using assms by (cases sd) (auto simp: inside_def unbounded_def near_def end_flag_def end_value_def
    range_of_def min_ok_def max_ok_def split: if_splits)

lemma inside_trans: "inside sd a b \<Longrightarrow> inside sd b c \<Longrightarrow> inside sd a c"
  by (cases sd) (auto simp: inside_def)

lemma list_end_bound:
  assumes o: "ordered key g c" and "c \<noteq> Done" and s: "sat key g c f" and l: "list_end sd c = (p, d)"
    and b: "\<not> unbounded sd (end_flag sd (g p))"
  defines "v \<equiv> key (field (g p)) (end_value sd (g p))" and "x \<equiv> f (unat (part (g p)))"
  shows "inside sd v x \<or> v = x \<and> \<not> near sd (end_flag sd (g p)) \<and> (d = Done \<or> sat key g d f)"
proof -
  consider "x \<in> range_of key (g p)" "d = Done \<or> sat key g d f" | "\<forall>y\<in>range_of key (g p). inside sd y x"
    using list_end_sat [OF assms(1-4)] unfolding x_def by blast
  then show ?thesis
  proof cases
    case 1
    then show ?thesis using end_bounds [OF b, of x key] unfolding v_def by blast
  next
    case 2
    obtain y where y: "y \<in> range_of key (g p)" using list_end_facts [OF assms(1,2) l] by blast
    then have "inside sd v y \<or> v = y" using end_bounds [OF b, of y key] unfolding v_def by blast
    then have "inside sd v x" using 2 y inside_trans by blast
    then show ?thesis ..
  qed
qed

text \<open>
  In a descending part the ends change places: the start of the interval in the index is its upper end,
  with the flags of a lower one.
\<close>

lemma ucast_flag_bit: "bit (ucast (w :: uint8) :: uint) n \<longleftrightarrow> bit w n"
  by (auto simp: bit_ucast_iff dest: bit_imp_le_length)

lemma bit_flag_masks:
  "bit (5 :: uint) n \<longleftrightarrow> n = 0 \<or> n = 2" "bit (10 :: uint) n \<longleftrightarrow> n = 1 \<or> n = 3"
  "bit (8 :: uint) n \<longleftrightarrow> n = 3" "bit (4 :: uint) n \<longleftrightarrow> n = 2" "bit (2 :: uint) n \<longleftrightarrow> n = 1" "bit (1 :: uint) n \<longleftrightarrow> n = 0"
  by (simp_all add: bit_numeral_rec bit_1_iff split: nat.split) presburger+

lemma bit_replaced_flags:
  fixes w :: uint
  shows "bit (let m = w AND NOT a; m = (if p then m OR b else m) in if q then m OR c else m) n \<longleftrightarrow>
    bit w n \<and> \<not> bit a n \<or> p \<and> bit b n \<or> q \<and> bit c n"
  by (auto simp: Let_def bit_or_iff bit_and_iff bit_not_iff dest: bit_imp_le_length)

lemma inverted_flags:
  "bit (invert_min_flag w) n \<longleftrightarrow>
     (if n = 0 \<or> n = 2 then False else if n = 1 then bit w 0 \<or> bit w 1 else if n = 3 then bit w 2 \<or> bit w 3 else bit w n)"
  "bit (invert_max_flag w) n \<longleftrightarrow>
     (if n = 1 \<or> n = 3 then False else if n = 0 then bit w 1 \<or> bit w 0 else if n = 2 then bit w 3 \<or> bit w 2 else bit w n)"
  unfolding invert_min_flag_def invert_max_flag_def bit_replaced_flags bit_or_iff bit_flag_masks flag_bits
  by auto

lemma index_ends:
  assumes "wf_ends sa"
  shows "unbounded Lower (get_min_flag kp sa) \<longleftrightarrow>
      (if descending kp sa then unbounded Upper (max_flag sa) else unbounded Lower (min_flag sa))"
    and "near Lower (get_min_flag kp sa) \<longleftrightarrow>
      (if descending kp sa then near Upper (max_flag sa) else near Lower (min_flag sa))"
    and "unbounded Upper (get_max_flag kp sa) \<longleftrightarrow>
      (if descending kp sa then unbounded Lower (min_flag sa) else unbounded Upper (max_flag sa))"
    and "near Upper (get_max_flag kp sa) \<longleftrightarrow>
      (if descending kp sa then near Lower (min_flag sa) else near Upper (max_flag sa))"
  using assms
  by (simp_all add: unbounded_def near_def get_min_flag_def get_max_flag_def inverted_flags ucast_flag_bit wf_ends_def)

section \<open>The key that is stored\<close>

definition key_len :: "(nat \<Rightarrow> key_part) \<Rightarrow> sel_arg \<Rightarrow> nat" where
  "key_len kp sa = unat (store_length (kp (unat (part sa))))"

text \<open>The bytes that a condition may need, and the values of its ends outside of them.\<close>

fun room :: "(nat \<Rightarrow> key_part) \<Rightarrow> graph \<Rightarrow> chain \<Rightarrow> nat" where
  "room kp g Done = 0"
| "room kp g (Iv p d r) = max (key_len kp (g p) + room kp g d) (room kp g r)"

definition apart :: "(nat \<Rightarrow> key_part) \<Rightarrow> graph \<Rightarrow> side \<Rightarrow> nat set \<Rightarrow> nat \<Rightarrow> nat \<Rightarrow> bool" where
  "apart kp g sd ns rk n \<longleftrightarrow> (\<forall>p\<in>ns. 0 < key_len kp (g p) \<and>
     (\<forall>a. end_value sd (g p) \<le> a \<and> a < end_value sd (g p) + key_len kp (g p) \<longrightarrow> a < rk \<or> rk + n \<le> a))"

definition rooted :: "(side \<Rightarrow> graph \<Rightarrow> nat \<Rightarrow> nat) \<Rightarrow> graph \<Rightarrow> nat \<Rightarrow> chain \<Rightarrow> bool" where
  "rooted end_of g root c \<longleftrightarrow> c \<noteq> Done \<and> crep end_of g (end_of Lower g root) c \<and>
     end_of Upper g root = fst (list_end Upper c)"

definition node_bytes :: "(nat \<Rightarrow> key_part) \<Rightarrow> graph \<Rightarrow> side \<Rightarrow> memory \<Rightarrow> nat \<Rightarrow> uchar list" where
  "node_bytes kp g sd m p = value_bytes m (g p) (end_value sd (g p)) (key_len kp (g p))"

definition add_flags :: "graph \<Rightarrow> side \<Rightarrow> uint \<Rightarrow> nat list \<Rightarrow> uint" where
  "add_flags g sd fl ps = foldl (\<lambda>fl p. fl OR ucast (end_flag sd (g p))) fl ps"

lemma room_list_end: "c \<noteq> Done \<Longrightarrow> list_end sd c = (p, d) \<Longrightarrow> key_len kp (g p) + room kp g d \<le> room kp g c"
proof (induction c)
  case (Iv q e r)
  show ?case
  proof (cases "sd = Lower \<or> r = Done")
    case True
    then have "p = q" "d = e" using Iv.prems(2) by (cases sd; auto)+
    then show ?thesis by simp
  next
    case False
    then have "sd = Upper" "r \<noteq> Done" by (cases sd; auto)+
    then show ?thesis using Iv.IH(2) Iv.prems(2) by simp
  qed
qed simp

lemma crep_list_end:
  assumes "crep end_of g q c" and "c \<noteq> Done" and "list_end sd c = (p, d)"
  shows "p \<noteq> 0 \<and> (if d = Done then next_key_part (g p) = 0 \<or> kind (g (next_key_part (g p))) \<noteq> KEY_RANGE
     else next_key_part (g p) \<noteq> 0 \<and> rooted end_of g (next_key_part (g p)) d \<and>
       kind (g (next_key_part (g p))) = KEY_RANGE \<and> part (g (next_key_part (g p))) = part (g (iv_node d)))"
  using assms
proof (induction c arbitrary: q)
  case (Iv s e r)
  show ?case
  proof (cases "sd = Lower \<or> r = Done")
    case True
    then have "p = s" "d = e" using Iv.prems(3) by (cases sd; auto)+
    then show ?thesis using Iv.prems(1) by (auto simp: rooted_def)
  next
    case False
    then have "sd = Upper" "r \<noteq> Done" by (cases sd; auto)+
    then show ?thesis using Iv.IH(2) [of "next_iv (g s)"] Iv.prems(1,3) by simp
  qed
qed simp

lemma rooted_end:
  assumes "rooted end_of g root c" and "list_end sd c = (p, d)"
  shows "end_of sd g root = p"
proof (cases sd)
  case Lower
  obtain s e r where "c = Iv s e r" using assms(1) by (cases c) (simp_all add: rooted_def)
  then show ?thesis using assms Lower by (simp add: rooted_def)
next
  case Upper
  then show ?thesis using assms by (simp add: rooted_def)
qed

lemma node_bytes_kept:
  assumes "apart kp g sd ns rk n" and "p \<in> ns" and "length bs \<le> n"
  shows "node_bytes kp g sd (copy_in m rk bs) p = node_bytes kp g sd m p"
proof -
  let ?v = "end_value sd (g p)" and ?l = "key_len kp (g p)"
  have a: "copy_in m rk bs a = m a" if "?v \<le> a" "a < ?v + ?l" for a
    using assms that unfolding apart_def copy_in_def by fastforce
  have "0 < ?l" using assms(1,2) by (simp add: apart_def)
  then have "copy_in m rk bs ?v = m ?v" using a by simp
  moreover have "copy_out (copy_in m rk bs) ?v ?l = copy_out m ?v ?l"
    using a by (simp add: copy_out_def)
  ultimately show ?thesis by (simp add: node_bytes_def value_bytes_def)
qed

lemma apart_sub:
  assumes "apart kp g sd ns rk n" and "ns' \<subseteq> ns" and "rk \<le> rk'" and "rk' + n' \<le> rk + n"
  shows "apart kp g sd ns' rk' n'"
  using assms unfolding apart_def by (meson le_trans less_le_trans subsetD)

text \<open>
  \<open>ps\<close> are the first of the end nodes of a condition, with bounded ends, of the parts that follow each other
  from the first one; all but the last of them have closed ends and are not of the part \<open>last_part\<close>. They are
  as many as possible: the next end node, when there is one, has no bound, or the last of \<open>ps\<close> forbids to go on.
\<close>

definition first_ends :: "graph \<Rightarrow> side \<Rightarrow> uint \<Rightarrow> uint \<Rightarrow> chain \<Rightarrow> nat list \<Rightarrow> bool" where
  "first_ends g sd last_part fl c ps \<longleftrightarrow>
     (let es = end_nodes sd c; k = length ps
      in ps = take k es \<and>
         (\<forall>i<k. unat (part (g (ps ! i))) = unat (part (g (iv_node c))) + i \<and>
            \<not> unbounded sd (end_flag sd (g (ps ! i)))) \<and>
         (\<forall>i. i + 1 < k \<longrightarrow> \<not> near sd (end_flag sd (g (ps ! i))) \<and> ucast (part (g (ps ! i))) \<noteq> last_part) \<and>
         (k < length es \<longrightarrow> unbounded sd (end_flag sd (g (es ! k))) \<or>
            0 < k \<and> (near sd (add_flags g sd fl ps) \<or> ucast (part (g (ps ! (k - 1)))) = last_part \<or>
              unat (part (g (es ! k))) \<noteq> unat (part (g (ps ! (k - 1)))) + 1)))"

lemma first_ends_Nil:
  assumes "c \<noteq> Done" and "list_end sd c = (p, d)" and "unbounded sd (end_flag sd (g p))"
  shows "first_ends g sd last_part fl c []"
  using end_nodes_step [OF assms(2,1)] assms(3) by (simp add: first_ends_def)

lemma first_ends_single:
  assumes "c \<noteq> Done" and "list_end sd c = (p, d)" and "\<not> unbounded sd (end_flag sd (g p))"
    and "part (g p) = part (g (iv_node c))"
    and "d \<noteq> Done \<Longrightarrow> part (g (fst (list_end sd d))) = part (g (iv_node d))"
    and "d \<noteq> Done \<Longrightarrow> near sd (fl OR ucast (end_flag sd (g p))) \<or> ucast (part (g p)) = last_part \<or>
       unat (part (g (iv_node d))) \<noteq> unat (part (g p)) + 1"
  shows "first_ends g sd last_part fl c [p]"
proof -
  have e: "end_nodes sd c = p # end_nodes sd d" by (rule end_nodes_step [OF assms(2,1)])
  have "end_nodes sd d ! 0 = fst (list_end sd d)" if "d \<noteq> Done"
    using end_nodes_step [of sd d "fst (list_end sd d)" "snd (list_end sd d)"] that by simp
  then show ?thesis using assms(3-6) by (cases "d = Done") (auto simp: first_ends_def e add_flags_def)
qed

lemma first_ends_Cons:
  assumes "c \<noteq> Done" and "list_end sd c = (p, d)" and "\<not> unbounded sd (end_flag sd (g p))"
    and "part (g p) = part (g (iv_node c))" and "unat (part (g (iv_node d))) = unat (part (g p)) + 1"
    and "\<not> near sd (end_flag sd (g p))" and "ucast (part (g p)) \<noteq> last_part"
    and "first_ends g sd last_part (fl OR ucast (end_flag sd (g p))) d ps"
  shows "first_ends g sd last_part fl c (p # ps)"
proof -
  have e: "end_nodes sd c = p # end_nodes sd d" by (rule end_nodes_step [OF assms(2,1)])
  have a: "add_flags g sd fl (p # ps) = add_flags g sd (fl OR ucast (end_flag sd (g p))) ps"
    by (simp add: add_flags_def)
  show ?thesis
    using assms(3-8) unfolding first_ends_def Let_def e a
    by (auto simp: nth_Cons split: nat.split)
qed

text \<open>
  The whole of \<^verbatim>\<open>store_min_key\<close> and \<^verbatim>\<open>store_max_key\<close>, when all parts run in the same direction: the values of
  the ends of the nodes \<open>ps\<close> are stored, and no tuple that satisfies the condition lies outside of them.
\<close>

lemma store_key_bound:
  assumes "rooted end_of g this c" and "ordered key g c" and "apart kp g sd (nodes_of c) rk (room kp g c)"
    and "\<forall>p\<in>nodes_of c. (start_key = (\<not> descending kp (g p))) = (sd = Lower)"
    and "fl AND open_flags sd = 0"
  shows "\<exists>ps. store_key end_of g kp last_part start_key sd this m rk fl =
      Some (int (length ps), copy_in m rk (concat (map (node_bytes kp g sd m) ps)),
        rk + length (concat (map (node_bytes kp g sd m) ps)), add_flags g sd fl ps) \<and>
    set ps \<subseteq> nodes_of c \<and> first_ends g sd last_part fl c ps \<and>
    (ps = [] \<longleftrightarrow> unbounded sd (end_flag sd (g (fst (list_end sd c))))) \<and>
    (\<forall>f. sat key g c f \<longrightarrow> bounded key g sd (near sd (add_flags g sd fl ps)) ps f)"
  using assms
proof (induction "size c" arbitrary: c this m rk fl rule: less_induct)
  case less
  have ne: "c \<noteq> Done" using less.prems(1) by (simp add: rooted_def)
  obtain p d where l: "list_end sd c = (p, d)" by (cases "list_end sd c")
  have e: "end_of sd g this = p" by (rule rooted_end [OF less.prems(1) l])
  note pf = list_end_facts [OF less.prems(2) ne l]
  have len: "0 < key_len kp (g p)" using less.prems(3) pf unfolding apart_def by blast
  have pos: "0 < store_length (kp (unat (part (g p))))"
    using len by (simp add: key_len_def word_gt_0 unat_gt_0)
  have flag7: "\<not> bit (min_flag (g p)) 7" using pf by blast
  note st = store_end_value [OF pos flag7 less.prems(5), of m rk]
  show ?case
  proof (cases "unbounded sd (end_flag sd (g p))")
    case True
    have "store_key end_of g kp last_part start_key sd this m rk fl = Some (0, m, rk, fl)"
      by (subst store_key.simps) (simp add: e st True)
    moreover have "copy_in m rk [] = m" by (rule ext) (auto simp: copy_in_def)
    moreover have "\<not> near sd fl" using less.prems(5) open_flags_iff by blast
    ultimately show ?thesis using True l first_ends_Nil [where sd = sd and c = c and p = p and d = d and g = g, OF ne l True]
      by (intro exI [of _ "[]"]) (simp add: add_flags_def)
  next
    case False
    let ?bs = "node_bytes kp g sd m p" and ?nkp = "next_key_part (g p)"
    let ?m = "copy_in m rk ?bs" and ?rk = "rk + key_len kp (g p)"
    let ?fl = "fl OR ucast (end_flag sd (g p))"
    have lbs: "length ?bs = key_len kp (g p)" using len by (simp add: node_bytes_def length_value_bytes)
    have nofl: "\<not> near sd fl" "\<not> unbounded sd fl" using less.prems(5) open_flags_iff by blast+
    have st1: "store_end sd m (g p) (ucast (store_length (kp (unat (part (g p)))))) rk fl = (1, ?m, ?rk)"
      using st False by (simp add: node_bytes_def key_len_def)
    note bnd = list_end_bound [OF less.prems(2) ne _ l False]
    define more where "more \<longleftrightarrow> ?nkp \<noteq> 0 \<and> kind (g ?nkp) = KEY_RANGE \<and> ucast (part (g p)) \<noteq> last_part \<and>
      unat (part (g ?nkp)) = unat (part (g p)) + 1 \<and> ?fl AND open_flags sd = 0"
    have cr: "crep end_of g (end_of Lower g this) c" using less.prems(1) by (simp add: rooted_def)
    show ?thesis
    proof (cases more)
      case stop: False
      have "store_key end_of g kp last_part start_key sd this m rk fl = Some (1, ?m, ?rk, ?fl)"
        using stop unfolding more_def by (subst store_key.simps) (auto simp: e st1 Let_def)
      moreover have "bounded key g sd (near sd ?fl) [p] f" if "sat key g c f" for f
        using bnd [OF that] nofl by (auto simp: near_or Let_def)
      moreover have "first_ends g sd last_part fl c [p]"
      proof (rule first_ends_single [where sd = sd and c = c and p = p and d = d and g = g, OF ne l False])
        show "part (g p) = part (g (iv_node c))" using pf by blast
        assume d: "d \<noteq> Done"
        have "ordered key g d" using pf by blast
        from list_end_facts [OF this d surjective_pairing, of sd]
        show "part (g (fst (list_end sd d))) = part (g (iv_node d))" by blast
        have "?nkp \<noteq> 0" "kind (g ?nkp) = KEY_RANGE" "part (g ?nkp) = part (g (iv_node d))"
          using crep_list_end [OF cr ne l] d by simp_all
        then show "near sd ?fl \<or> ucast (part (g p)) = last_part \<or>
            unat (part (g (iv_node d))) \<noteq> unat (part (g p)) + 1"
          using stop open_flags_iff [of ?fl sd] nofl(2) False unfolding more_def by (auto simp: unbounded_or)
      qed
      ultimately show ?thesis using pf lbs False l
        by (intro exI [of _ "[p]"]) (simp add: add_flags_def)
    next
      case True
      have d: "d \<noteq> Done" "rooted end_of g ?nkp d" "part (g ?nkp) = part (g (iv_node d))"
        using crep_list_end [OF cr ne l] True unfolding more_def by (auto split: if_splits)
      have dir: "(start_key = (\<not> descending kp (g p))) = (sd = Lower)" using less.prems(4) pf by blast
      have ap: "apart kp g sd (nodes_of d) ?rk (room kp g d)"
        by (rule apart_sub [OF less.prems(3)]) (use pf room_list_end [OF ne l, of kp g] in auto)
      have "\<forall>q\<in>nodes_of d. (start_key = (\<not> descending kp (g q))) = (sd = Lower)" using less.prems(4) pf by blast
      moreover have "?fl AND open_flags sd = 0" using True unfolding more_def by blast
      moreover have "ordered key g d" "size d < size c" using pf by blast+
      ultimately obtain ps where ps: "store_key end_of g kp last_part start_key sd ?nkp ?m ?rk ?fl =
          Some (int (length ps), copy_in ?m ?rk (concat (map (node_bytes kp g sd ?m) ps)),
            ?rk + length (concat (map (node_bytes kp g sd ?m) ps)), add_flags g sd ?fl ps)"
        "set ps \<subseteq> nodes_of d" "first_ends g sd last_part ?fl d ps"
        "\<forall>f. sat key g d f \<longrightarrow> bounded key g sd (near sd (add_flags g sd ?fl ps)) ps f"
        using less.hyps [of d ?nkp ?rk ?fl ?m] d(2) ap by blast
      have same: "map (node_bytes kp g sd ?m) ps = map (node_bytes kp g sd m) ps"
      proof (rule map_cong [OF refl])
        fix q assume "q \<in> set ps"
        then have "q \<in> nodes_of c" using ps(2) pf by blast
        moreover have "length ?bs \<le> room kp g c" using lbs room_list_end [OF ne l, of kp g] by linarith
        ultimately show "node_bytes kp g sd ?m q = node_bytes kp g sd m q"
          using node_bytes_kept [OF less.prems(3)] by blast
      qed
      have "store_key end_of g kp last_part start_key sd this m rk fl =
          Some (1 + int (length ps), copy_in ?m ?rk (concat (map (node_bytes kp g sd m) ps)),
            ?rk + length (concat (map (node_bytes kp g sd m) ps)), add_flags g sd ?fl ps)"
        using True ps(1) unfolding more_def same by (subst store_key.simps) (simp add: e st1 Let_def dir)
      moreover have "copy_in ?m ?rk bs = copy_in m rk (?bs @ bs)" for bs
        using copy_in_twice [of m rk ?bs bs] lbs by simp
      moreover have "bounded key g sd (near sd (add_flags g sd ?fl ps)) (p # ps) f" if "sat key g c f" for f
        using bnd [OF that] ps(4) d(1) by (auto simp: Let_def)
      moreover have "first_ends g sd last_part fl c (p # ps)"
      proof (rule first_ends_Cons [where sd = sd and c = c and p = p and d = d and g = g, OF ne l False])
        show "part (g p) = part (g (iv_node c))" using pf by blast
        show "unat (part (g (iv_node d))) = unat (part (g p)) + 1" "ucast (part (g p)) \<noteq> last_part"
          using True d(3) unfolding more_def by simp_all
        show "\<not> near sd (end_flag sd (g p))"
          using True open_flags_iff [of ?fl sd] unfolding more_def by (simp add: near_or)
        show "first_ends g sd last_part ?fl d ps" by (rule ps(3))
      qed
      ultimately show ?thesis using ps(2) pf lbs False l
        by (intro exI [of _ "p # ps"]) (auto simp: add_flags_def)
    qed
  qed
qed

section \<open>Parts in different directions\<close>

text \<open>The order of an index: each part ascending or descending.\<close>

fun index_before :: "bool list \<Rightarrow> 'k::linorder list \<Rightarrow> 'k list \<Rightarrow> bool" where
  "index_before (desc # ds) (x # xs) (y # ys) \<longleftrightarrow>
     (if desc then y < x else x < y) \<or> x = y \<and> index_before ds xs ys"
| "index_before _ _ _ \<longleftrightarrow> False"

definition sample_sel_cmp :: "(nat \<Rightarrow> nat \<Rightarrow> 'k::linorder) \<Rightarrow> end_cmp" where
  "sample_sel_cmp key f a b fa fb = pos_cmp (key f a) (key f b) fa fb"

definition sample_new :: new_sel_arg where
  "sample_new f p a b fa fb mf =
     \<lparr>min_flag = fa, max_flag = fb, maybe_flag = mf, part = p, maybe_null = 0, max_part_no = 1, elements = 1,
      use_count = 1, field = f, min_value = a, max_value = b, left = 0, right = 0, next_iv = 0, prev_iv = 0,
      parent = 0, next_key_part = 0, color = BLACK, kind = KEY_RANGE, weight = 1\<rparr>"

lemma sample_sel_laws:
  "sel_cmp_law key (sample_sel_cmp key)" "constructor_law sample_new"
  by (simp_all add: sel_cmp_law_def sample_sel_cmp_def constructor_law_def sample_new_def pos_cmp_def sgn_if)

text \<open>Values of one byte: 10 at 100, 20 at 101, 1 at 102, 5 at 103.\<close>

definition sample_values :: memory where
  "sample_values = (\<lambda>_. 0)(100 := 10, 101 := 20, 102 := 1, 103 := 5)"

abbreviation byte_key :: "nat \<Rightarrow> nat \<Rightarrow> uchar" where
  "byte_key f p \<equiv> sample_values p"

text \<open>\<open>(kp1 BETWEEN 10 AND 20) AND (kp2 BETWEEN 1 AND 5)\<close>.\<close>

definition sample_graph :: graph where
  "sample_graph = (\<lambda>_. sample_new 0 0 0 0 0 0 0)
     (11 := (sample_new 0 1 100 101 0 0 0)\<lparr>next_key_part := 12\<rparr>, 12 := sample_new 0 2 102 103 0 0 0)"

definition sample_cond :: chain where
  "sample_cond = Iv 11 (Iv 12 Done Done) Done"

definition sample_end :: "side \<Rightarrow> graph \<Rightarrow> nat \<Rightarrow> nat" where
  "sample_end sd g p = p"

definition one_byte_parts :: "bool \<Rightarrow> nat \<Rightarrow> key_part" where
  "one_byte_parts desc k = \<lparr>store_length = 1, kp_flag = (if desc \<and> k = 2 then HA_REVERSE_SORT else 0)\<rparr>"

lemma sample_ranges: "\<exists>x\<ge>10. x \<le> (20 :: uchar)" "\<exists>x\<ge>1. x \<le> (5 :: uchar)"
  by (rule exI [of _ 10], simp) (rule exI [of _ 1], simp)

lemma sample_cond_facts:
  "rooted sample_end sample_graph 11 sample_cond" "ordered byte_key sample_graph sample_cond"
  using sample_ranges
  by (simp_all add: rooted_def sample_cond_def sample_graph_def sample_new_def sample_end_def wf_ends_def
      range_of_def min_ok_def max_ok_def sample_values_def)

lemma sample_nodes:
  "min_flag (sample_graph 11) = 0" "part (sample_graph 11) = 1" "maybe_null (sample_graph 11) = 0"
  "min_value (sample_graph 11) = 100" "next_key_part (sample_graph 11) = 12"
  "min_flag (sample_graph 12) = 0" "part (sample_graph 12) = 2" "maybe_null (sample_graph 12) = 0"
  "min_value (sample_graph 12) = 102" "next_key_part (sample_graph 12) = 0" "kind (sample_graph 12) = KEY_RANGE"
  by (simp_all add: sample_graph_def sample_new_def)

text \<open>The two values of a start key, when the second part is descending.\<close>

lemma two_part_start_key:
  fixes m :: memory
  assumes "c = Iv p d r" "d = Iv q Done s" "rooted end_of g this c" "ordered key g c"
    "apart kp g Lower (nodes_of c) rk (room kp g c)" "fl AND (NO_MIN_RANGE OR NEAR_MIN) = 0"
    "\<not> descending kp (g p)" "descending kp (g q)" "unat (part (g q)) = unat (part (g p)) + 1"
    "ucast (part (g p)) \<noteq> last_part" "\<not> unbounded Lower (min_flag (g p))" "\<not> near Lower (min_flag (g p))"
    "\<not> unbounded Lower (min_flag (g q))"
  defines "bytes \<equiv> node_bytes kp g Lower m p @ node_bytes kp g Lower m q"
  shows "store_min_key end_of g kp last_part True this m rk fl =
    Some (2, copy_in m rk bytes, rk + length bytes, add_flags g Lower fl [p, q])"
proof -
  let ?bp = "node_bytes kp g Lower m p" and ?bq = "node_bytes kp g Lower m q"
  let ?nkp = "next_key_part (g p)" and ?fl = "fl OR ucast (min_flag (g p))"
  let ?m = "copy_in m rk ?bp" and ?rk = "rk + length ?bp"
  have cd: "c \<noteq> Done" "list_end Lower c = (p, d)" "d \<noteq> Done" "list_end Lower d = (q, Done)"
    using assms(1,2) by simp_all
  have cr: "crep end_of g (end_of Lower g this) c" using assms(3) by (simp add: rooted_def)
  have nkp: "?nkp \<noteq> 0" "rooted end_of g ?nkp d" "kind (g ?nkp) = KEY_RANGE" "part (g ?nkp) = part (g q)"
    using crep_list_end [OF cr cd(1,2)] cd(3) assms(2) by simp_all
  have e: "end_of Lower g this = p" "end_of Lower g ?nkp = q"
    using rooted_end [OF assms(3) cd(2)] rooted_end [OF nkp(2) cd(4)] by simp_all
  have nq: "next_key_part (g q) = 0 \<or> kind (g (next_key_part (g q))) \<noteq> KEY_RANGE"
    using crep_list_end [of end_of g "end_of Lower g ?nkp" d Lower q Done] nkp(2) cd(3,4) by (simp add: rooted_def)
  have len: "0 < key_len kp (g p)" "0 < key_len kp (g q)"
    using assms(1,2,5) by (simp_all add: apart_def)
  have pos: "0 < store_length (kp (unat (part (g x))))" if "0 < key_len kp (g x)" for x
    using that by (simp add: key_len_def word_gt_0 unat_gt_0)
  have f7: "\<not> bit (min_flag (g p)) 7" "\<not> bit (min_flag (g q)) 7" using assms(1,2,4) by simp_all
  have lbs: "length ?bp = key_len kp (g p)" "length ?bq = key_len kp (g q)"
    using len by (simp_all add: node_bytes_def length_value_bytes)
  have fl: "fl AND open_flags Lower = 0" "?fl AND open_flags Lower = 0"
    using assms(6,11,12) open_flags_iff [of ?fl Lower] open_flags_iff [of fl Lower]
      unbounded_or [of Lower fl "g p"] near_or [of Lower fl "g p"]
    by (simp_all add: open_flags_def end_flag_def)
  have st1: "store_end Lower m (g p) (ucast (store_length (kp k))) rk fl = (1, ?m, ?rk)" if "k = unat (part (g p))" for k
    using store_end_value [OF pos [OF len(1)] f7(1) fl(1), of m rk] assms(11) lbs that
    by (simp add: node_bytes_def end_flag_def key_len_def)
  have "length ?bp \<le> room kp g c" using lbs(1) assms(1) by simp
  then have kept: "node_bytes kp g Lower ?m q = ?bq"
    using node_bytes_kept [OF assms(5), of q ?bp] assms(1,2) by simp
  have st2: "store_end Lower ?m (g q) (ucast (store_length (kp (unat (part (g q)))))) ?rk ?fl =
      (1, copy_in ?m ?rk ?bq, ?rk + length ?bq)"
    using store_end_value [OF pos [OF len(2)] f7(2) fl(2), of ?m ?rk] assms(13) lbs kept
    by (simp add: node_bytes_def end_flag_def key_len_def)
  have "store_key end_of g kp last_part True Lower ?nkp ?m ?rk ?fl =
      Some (1, copy_in ?m ?rk ?bq, ?rk + length ?bq, ?fl OR ucast (min_flag (g q)))"
    using nq by (subst store_key.simps) (auto simp: e st2 end_flag_def Let_def)
  then have "store_key end_of g kp last_part True Lower this m rk fl =
      Some (2, copy_in ?m ?rk ?bq, ?rk + length ?bq, ?fl OR ucast (min_flag (g q)))"
    using st1 nkp fl(2) assms(7,9,10) by (subst store_key.simps) (simp add: e end_flag_def Let_def)
  then show ?thesis
    by (simp add: store_min_key_def bytes_def copy_in_twice add_flags_def end_flag_def)
qed

section \<open>Walks over the graph\<close>

lemma all_same_loop_ok:
  "crep end_of g a c \<Longrightarrow> crep end_of g b c' \<Longrightarrow>
   \<exists>x y. all_same_loop sel_cmp g a b = Some (x, y) \<and>
     (x = 0 \<and> y = 0 \<longleftrightarrow> list_all2 (\<lambda>p q. is_same sel_cmp (g p) (g q)) (list_nodes c) (list_nodes c'))"
proof (induction c arbitrary: a b c')
  case Done
  then show ?case by (subst all_same_loop.simps, cases c') simp_all
next
  case (Iv p d r)
  then have a: "a = p" "p \<noteq> 0" "crep end_of g (next_iv (g p)) r" by simp_all
  show ?case
  proof (cases c')
    case Done
    then show ?thesis using Iv.prems a by (subst all_same_loop.simps) simp
  next
    case (Iv q e s)
    then have b: "b = q" "q \<noteq> 0" "crep end_of g (next_iv (g q)) s" using Iv.prems(2) by simp_all
    show ?thesis
    proof (cases "is_same sel_cmp (g p) (g q)")
      case True
      then show ?thesis using Iv.IH(2) [OF a(3) b(3)] a b Iv by (subst all_same_loop.simps) simp
    next
      case False
      then show ?thesis using a b Iv by (subst all_same_loop.simps) simp
    qed
  qed
qed

lemma all_same_ok:
  assumes "rooted end_of g this c" "rooted end_of g arg c'" "kind (g this) = KEY_RANGE" "kind (g arg) = KEY_RANGE"
  shows "all_same sel_cmp (end_of Lower) g this arg = Some (part (g this) = part (g arg) \<and>
    (this = arg \<or> list_all2 (\<lambda>p q. is_same sel_cmp (g p) (g q)) (list_nodes c) (list_nodes c')))"
proof -
  obtain x y where "all_same_loop sel_cmp g (end_of Lower g this) (end_of Lower g arg) = Some (x, y)"
    "x = 0 \<and> y = 0 \<longleftrightarrow> list_all2 (\<lambda>p q. is_same sel_cmp (g p) (g q)) (list_nodes c) (list_nodes c')"
    using all_same_loop_ok assms(1,2) unfolding rooted_def by blast
  then show ?thesis using assms(3,4) by (auto simp: all_same_def)
qed

text \<open>Graphs that differ in use counts only; a list is found by its links.\<close>

definition same_links :: "graph \<Rightarrow> graph \<Rightarrow> bool" where
  "same_links g g' \<longleftrightarrow> (\<forall>p. g' p = (g p)\<lparr>use_count := use_count (g' p)\<rparr>)"

definition links_law :: "(side \<Rightarrow> graph \<Rightarrow> nat \<Rightarrow> nat) \<Rightarrow> bool" where
  "links_law end_of \<longleftrightarrow> (\<forall>sd g g' q. same_links g g' \<longrightarrow> end_of sd g' q = end_of sd g q)"

text \<open>How often a condition refers to the list with root \<open>p\<close>.\<close>

fun refs :: "graph \<Rightarrow> chain \<Rightarrow> nat \<Rightarrow> nat" where
  "refs g Done p = 0"
| "refs g (Iv q d r) p = (if d \<noteq> Done \<and> next_key_part (g q) = p then 1 else 0) + refs g d p + refs g r p"

text \<open>How often the intervals of its first list do.\<close>

fun direct_refs :: "graph \<Rightarrow> chain \<Rightarrow> nat \<Rightarrow> nat" where
  "direct_refs g Done p = 0"
| "direct_refs g (Iv q d r) p = (if d \<noteq> Done \<and> next_key_part (g q) = p then 1 else 0) + direct_refs g r p"

lemma direct_refs_le: "direct_refs g c p \<le> refs g c p"
  by (induction c) auto

lemma only_direct_refs:
  assumes "refs g (Iv s d r) p = direct_refs g (Iv s d r) p"
  shows "refs g d p = 0 \<and> direct_refs g d p = 0 \<and> refs g r p = direct_refs g r p"
  using assms direct_refs_le [of g r p] direct_refs_le [of g d p] by simp

lemma same_links_members:
  assumes "same_links g g'"
  shows "next_iv (g' p) = next_iv (g p)" "next_key_part (g' p) = next_key_part (g p)" "kind (g' p) = kind (g p)"
    "part (g' p) = part (g p)"
proof -
  have "g' p = (g p)\<lparr>use_count := use_count (g' p)\<rparr>" using assms unfolding same_links_def by blast
  note h = arg_cong [OF this, of next_iv] arg_cong [OF this, of next_key_part] arg_cong [OF this, of kind]
    arg_cong [OF this, of part]
  show "next_iv (g' p) = next_iv (g p)" "next_key_part (g' p) = next_key_part (g p)"
    "kind (g' p) = kind (g p)" "part (g' p) = part (g p)"
    using h by simp_all
qed

lemma same_links_refl: "same_links g g"
  by (simp add: same_links_def)

lemma same_links_trans: "same_links g g1 \<Longrightarrow> same_links g1 g2 \<Longrightarrow> same_links g g2"
proof -
  assume h: "same_links g g1" "same_links g1 g2"
  have "g2 p = (g p)\<lparr>use_count := use_count (g2 p)\<rparr>" for p
  proof -
    have "g1 p = (g p)\<lparr>use_count := use_count (g1 p)\<rparr>" using h(1) unfolding same_links_def by blast
    note e = arg_cong [OF this, of "\<lambda>s. s\<lparr>use_count := use_count (g2 p)\<rparr>"]
    have "g2 p = (g1 p)\<lparr>use_count := use_count (g2 p)\<rparr>" using h(2) unfolding same_links_def by blast
    also have "\<dots> = (g p)\<lparr>use_count := use_count (g2 p)\<rparr>" using e by simp
    finally show ?thesis .
  qed
  then show ?thesis unfolding same_links_def by blast
qed

lemma same_links_set: "same_links g (set_use_count g p n)"
  by (simp add: same_links_def set_use_count_def)

lemma crep_same_links:
  "links_law end_of \<Longrightarrow> same_links g g' \<Longrightarrow> crep end_of g' q c = crep end_of g q c"
  by (induction c arbitrary: q) (simp_all add: same_links_members links_law_def)

lemma only_ranges_same_links: "same_links g g' \<Longrightarrow> only_ranges g' c = only_ranges g c"
  by (induction c) (simp_all add: same_links_members)

lemma refs_same_links: "same_links g g' \<Longrightarrow> refs g' c p = refs g c p"
  by (induction c) (simp_all add: same_links_members)

lemma direct_refs_same_links: "same_links g g' \<Longrightarrow> direct_refs g' c p = direct_refs g c p"
  by (induction c) (simp_all add: same_links_members)

lemma free_loop_ok:
  assumes "links_law end_of"
  shows "crep end_of g q c \<Longrightarrow> only_ranges g c \<Longrightarrow> \<exists>g'. free_loop (end_of Lower) q g = Some g' \<and> same_links g g' \<and>
    (\<forall>p. use_count (g' p) = use_count (g p) - of_nat (refs g c p))"
proof (induction c arbitrary: q g)
  case Done
  then show ?case by (subst free_loop.simps) (simp add: same_links_refl)
next
  case (Iv s d r)
  let ?n = "next_key_part (g s)"
  have s: "q = s" "s \<noteq> 0" "crep end_of g (next_iv (g s)) r" using Iv.prems(1) by simp_all
  have "\<exists>g2. (if ?n \<noteq> 0
        then free_loop (end_of Lower) (end_of Lower (set_use_count g ?n (use_count (g ?n) - 1)) ?n)
          (set_use_count g ?n (use_count (g ?n) - 1))
        else Some g) = Some g2 \<and> same_links g g2 \<and>
      (\<forall>p. use_count (g2 p) = use_count (g p) - of_nat ((if d \<noteq> Done \<and> ?n = p then 1 else 0) + refs g d p))"
  proof (cases "d = Done")
    case True
    then show ?thesis using Iv.prems by (simp add: same_links_refl)
  next
    case False
    let ?g1 = "set_use_count g ?n (use_count (g ?n) - 1)"
    have n: "?n \<noteq> 0" "crep end_of g (end_of Lower g ?n) d" using Iv.prems False by simp_all
    have l1: "same_links g ?g1" by (rule same_links_set)
    have e1: "end_of Lower ?g1 ?n = end_of Lower g ?n" using assms l1 unfolding links_law_def by blast
    have "crep end_of ?g1 (end_of Lower ?g1 ?n) d" using n(2) crep_same_links [OF assms l1] e1 by simp
    moreover have "only_ranges ?g1 d" using Iv.prems(2) only_ranges_same_links [OF l1] by simp
    ultimately have c1: "crep end_of ?g1 (end_of Lower ?g1 ?n) d" "only_ranges ?g1 d" by blast+
    from Iv.IH(1) [OF c1] obtain g2 where g2: "free_loop (end_of Lower) (end_of Lower ?g1 ?n) ?g1 = Some g2"
      "same_links ?g1 g2" "\<forall>p. use_count (g2 p) = use_count (?g1 p) - of_nat (refs ?g1 d p)" by blast
    have "use_count (g2 p) = use_count (g p) - of_nat ((if d \<noteq> Done \<and> ?n = p then 1 else 0) + refs g d p)" for p
      using g2(3) refs_same_links [OF l1, of d p] False by (simp add: set_use_count_def)
    then show ?thesis using g2(1) n(1) same_links_trans [OF l1 g2(2)] by auto
  qed
  then obtain g2 where g2: "(if ?n \<noteq> 0
        then free_loop (end_of Lower) (end_of Lower (set_use_count g ?n (use_count (g ?n) - 1)) ?n)
          (set_use_count g ?n (use_count (g ?n) - 1))
        else Some g) = Some g2" "same_links g g2"
      "\<forall>p. use_count (g2 p) = use_count (g p) - of_nat ((if d \<noteq> Done \<and> ?n = p then 1 else 0) + refs g d p)"
    by blast
  have "crep end_of g2 (next_iv (g2 s)) r"
    using s(3) crep_same_links [OF assms g2(2)] same_links_members(1) [OF g2(2)] by simp
  moreover have "only_ranges g2 r" using Iv.prems(2) only_ranges_same_links [OF g2(2)] by simp
  ultimately have c2: "crep end_of g2 (next_iv (g2 s)) r" "only_ranges g2 r" by blast+
  from Iv.IH(2) [OF c2] obtain g3 where g3: "free_loop (end_of Lower) (next_iv (g2 s)) g2 = Some g3"
    "same_links g2 g3" "\<forall>p. use_count (g3 p) = use_count (g2 p) - of_nat (refs g2 r p)" by blast
  have "free_loop (end_of Lower) q g = Some g3"
    using s(1,2) g2(1) g3(1) by (cases "?n = 0"; subst free_loop.simps; simp add: Let_def)
  moreover have "use_count (g3 p) = use_count (g p) - of_nat (refs g (Iv s d r) p)" for p
    using g3(3) g2(3) refs_same_links [OF g2(2), of r p] by simp
  ultimately show ?case using same_links_trans [OF g2(2) g3(2)] by blast
qed

lemma increment_loop_ok:
  assumes "links_law end_of"
  shows "crep end_of g q c \<Longrightarrow> only_ranges g c \<Longrightarrow> \<exists>g'. increment_loop (end_of Lower) count q g = Some g' \<and> same_links g g' \<and>
    (\<forall>p. refs g c p = direct_refs g c p \<longrightarrow> use_count (g' p) = use_count (g p) + count * of_nat (direct_refs g c p))"
proof (induction c arbitrary: q g count)
  case Done
  then show ?case by (subst increment_loop.simps) (simp add: same_links_refl)
next
  case (Iv s d r)
  let ?n = "next_key_part (g s)"
  let ?g1 = "set_use_count g ?n (use_count (g ?n) + count)"
  let ?c = "count * (use_count (?g1 ?n) - count)"
  have s: "q = s" "s \<noteq> 0" "crep end_of g (next_iv (g s)) r" using Iv.prems(1) by simp_all
  have "\<exists>g2. (if ?n \<noteq> 0 then increment_loop (end_of Lower) ?c (end_of Lower ?g1 ?n) ?g1 else Some g) = Some g2 \<and>
      same_links g g2 \<and>
      (\<forall>p. refs g d p = 0 \<longrightarrow>
         use_count (g2 p) = use_count (g p) + count * of_nat (if d \<noteq> Done \<and> ?n = p then 1 else 0))"
  proof (cases "d = Done")
    case True
    then show ?thesis using Iv.prems by (simp add: same_links_refl)
  next
    case False
    have n: "?n \<noteq> 0" "crep end_of g (end_of Lower g ?n) d" using Iv.prems False by simp_all
    have l1: "same_links g ?g1" by (rule same_links_set)
    have e1: "end_of Lower ?g1 ?n = end_of Lower g ?n" using assms l1 unfolding links_law_def by blast
    have "crep end_of ?g1 (end_of Lower ?g1 ?n) d" using n(2) crep_same_links [OF assms l1] e1 by simp
    moreover have "only_ranges ?g1 d" using Iv.prems(2) only_ranges_same_links [OF l1] by simp
    ultimately have c1: "crep end_of ?g1 (end_of Lower ?g1 ?n) d" "only_ranges ?g1 d" by blast+
    from Iv.IH(1) [OF c1, of ?c] obtain g2 where g2:
      "increment_loop (end_of Lower) ?c (end_of Lower ?g1 ?n) ?g1 = Some g2"
      "same_links ?g1 g2" "\<forall>p. refs ?g1 d p = direct_refs ?g1 d p \<longrightarrow>
         use_count (g2 p) = use_count (?g1 p) + ?c * of_nat (direct_refs ?g1 d p)" by blast
    have "use_count (g2 p) = use_count (g p) + count * of_nat (if d \<noteq> Done \<and> ?n = p then 1 else 0)"
      if "refs g d p = 0" for p
      using g2(3) refs_same_links [OF l1, of d p] direct_refs_same_links [OF l1, of d p]
        direct_refs_le [of g d p] that False by (simp add: set_use_count_def)
    then show ?thesis using g2(1) n(1) same_links_trans [OF l1 g2(2)] by auto
  qed
  then obtain g2 where g2:
    "(if ?n \<noteq> 0 then increment_loop (end_of Lower) ?c (end_of Lower ?g1 ?n) ?g1 else Some g) = Some g2"
    "same_links g g2"
    "\<forall>p. refs g d p = 0 \<longrightarrow>
       use_count (g2 p) = use_count (g p) + count * of_nat (if d \<noteq> Done \<and> ?n = p then 1 else 0)"
    by blast
  have "crep end_of g2 (next_iv (g2 s)) r"
    using s(3) crep_same_links [OF assms g2(2)] same_links_members(1) [OF g2(2)] by simp
  moreover have "only_ranges g2 r" using Iv.prems(2) only_ranges_same_links [OF g2(2)] by simp
  ultimately have c2: "crep end_of g2 (next_iv (g2 s)) r" "only_ranges g2 r" by blast+
  from Iv.IH(2) [OF c2, of count] obtain g3 where
    g3: "increment_loop (end_of Lower) count (next_iv (g2 s)) g2 = Some g3"
    "same_links g2 g3" "\<forall>p. refs g2 r p = direct_refs g2 r p \<longrightarrow>
       use_count (g3 p) = use_count (g2 p) + count * of_nat (direct_refs g2 r p)" by blast
  have "increment_loop (end_of Lower) count q g = Some g3"
    using s(1,2) g2(1) g3(1) by (cases "?n = 0"; subst increment_loop.simps; simp add: Let_def)
  moreover have "use_count (g3 p) = use_count (g p) + count * of_nat (direct_refs g (Iv s d r) p)"
    if "refs g (Iv s d r) p = direct_refs g (Iv s d r) p" for p
    using g3(3) g2(3) refs_same_links [OF g2(2), of r p] direct_refs_same_links [OF g2(2), of r p]
      only_direct_refs [OF that] by (simp add: algebra_simps)
  ultimately show ?case using same_links_trans [OF g2(2) g3(2)] by blast
qed

text \<open>The lists that the interval refers to, and those that the intervals of that list refer to.\<close>

lemma increment_use_count_ok:
  assumes "links_law end_of" and "next_key_part (g q) \<noteq> 0" and "rooted end_of g (next_key_part (g q)) d"
    and "only_ranges g d"
  shows "\<exists>g'. increment_use_count (end_of Lower) 1 q g = Some g' \<and> same_links g g' \<and>
    (\<forall>p. refs g d p = direct_refs g d p \<longrightarrow> use_count (g' p) = use_count (g p) +
       (if p = next_key_part (g q) then 1 else 0) + use_count (g (next_key_part (g q))) * of_nat (direct_refs g d p))"
proof -
  let ?n = "next_key_part (g q)"
  let ?g1 = "set_use_count g ?n (use_count (g ?n) + 1)"
  have l1: "same_links g ?g1" by (rule same_links_set)
  have "end_of Lower ?g1 ?n = end_of Lower g ?n" using assms(1) l1 unfolding links_law_def by blast
  then have "crep end_of ?g1 (end_of Lower g ?n) d"
    using assms(3) crep_same_links [OF assms(1) l1] by (simp add: rooted_def)
  moreover have "only_ranges ?g1 d" using assms(4) only_ranges_same_links [OF l1] by simp
  ultimately have c1: "crep end_of ?g1 (end_of Lower g ?n) d" "only_ranges ?g1 d" by blast+
  from increment_loop_ok [OF assms(1) c1, of "use_count (g ?n)"] obtain g' where g':
    "increment_loop (end_of Lower) (use_count (g ?n)) (end_of Lower g ?n) ?g1 = Some g'" "same_links ?g1 g'"
    "\<forall>p. refs g d p = direct_refs g d p \<longrightarrow>
       use_count (g' p) = use_count (?g1 p) + use_count (g ?n) * of_nat (direct_refs g d p)"
    using refs_same_links [OF l1] direct_refs_same_links [OF l1] by auto
  have "increment_use_count (end_of Lower) 1 q g = Some g'"
    using g'(1) assms(2) \<open>end_of Lower ?g1 ?n = end_of Lower g ?n\<close>
    by (simp add: increment_use_count_def Let_def) (simp add: set_use_count_def)
  moreover have "use_count (g' p) = use_count (g p) + (if p = ?n then 1 else 0) +
      use_count (g ?n) * of_nat (direct_refs g d p)" if "refs g d p = direct_refs g d p" for p
    using g'(3) that by (simp add: set_use_count_def)
  ultimately show ?thesis using same_links_trans [OF l1 g'(2)] by blast
qed

section \<open>Properties\<close>

text \<open>
  C4. The keys that the range optimizer stores cover the condition. When the direction of every part is
  that of the key that is stored (ascending for the lower end of the start key, descending for the end key, and
  the other way round for the upper end), \<^verbatim>\<open>store_min_key\<close> and \<^verbatim>\<open>store_max_key\<close> return; they append the
  values of the end nodes of the condition, one for each of the first parts without a gap, as long as the ends
  are closed, the last part is not reached and the next end node has a bound; they report their number and collect
  their flags. Every tuple of values that satisfies the condition lies on the right side of that key, not on it if the
  flags say that the end is open. No value is stored only when the first interval of the list, for the
  upper end the last one, has no such end.
\<close>
theorem sel_arg_keys_cover_condition:
  "rooted end_of g this c \<and> ordered key g c \<longrightarrow>
   (apart kp g Lower (nodes_of c) rk (room kp g c) \<and> fl AND (NO_MIN_RANGE OR NEAR_MIN) = 0 \<and>
     (\<forall>p\<in>nodes_of c. start_key = (\<not> descending kp (g p))) \<longrightarrow>
    (\<exists>ps. store_min_key end_of g kp last_part start_key this m rk fl =
       Some (int (length ps), copy_in m rk (concat (map (node_bytes kp g Lower m) ps)),
         rk + length (concat (map (node_bytes kp g Lower m) ps)), add_flags g Lower fl ps) \<and>
       set ps \<subseteq> nodes_of c \<and> first_ends g Lower last_part fl c ps \<and>
       (ps = [] \<longleftrightarrow> unbounded Lower (end_flag Lower (g (fst (list_end Lower c))))) \<and>
       (\<forall>f. sat key g c f \<longrightarrow> bounded key g Lower (near Lower (add_flags g Lower fl ps)) ps f))) \<and>
   (apart kp g Upper (nodes_of c) rk (room kp g c) \<and> fl AND (NO_MAX_RANGE OR NEAR_MAX) = 0 \<and>
     (\<forall>p\<in>nodes_of c. start_key = descending kp (g p)) \<longrightarrow>
    (\<exists>ps. store_max_key end_of g kp last_part start_key this m rk fl =
       Some (int (length ps), copy_in m rk (concat (map (node_bytes kp g Upper m) ps)),
         rk + length (concat (map (node_bytes kp g Upper m) ps)), add_flags g Upper fl ps) \<and>
       set ps \<subseteq> nodes_of c \<and> first_ends g Upper last_part fl c ps \<and>
       (ps = [] \<longleftrightarrow> unbounded Upper (end_flag Upper (g (fst (list_end Upper c))))) \<and>
       (\<forall>f. sat key g c f \<longrightarrow> bounded key g Upper (near Upper (add_flags g Upper fl ps)) ps f)))"
proof (intro impI conjI)
  assume r: "rooted end_of g this c \<and> ordered key g c"
  show "\<exists>ps. store_min_key end_of g kp last_part start_key this m rk fl =
      Some (int (length ps), copy_in m rk (concat (map (node_bytes kp g Lower m) ps)),
        rk + length (concat (map (node_bytes kp g Lower m) ps)), add_flags g Lower fl ps) \<and>
      set ps \<subseteq> nodes_of c \<and> first_ends g Lower last_part fl c ps \<and>
       (ps = [] \<longleftrightarrow> unbounded Lower (end_flag Lower (g (fst (list_end Lower c))))) \<and>
      (\<forall>f. sat key g c f \<longrightarrow> bounded key g Lower (near Lower (add_flags g Lower fl ps)) ps f)"
    if "apart kp g Lower (nodes_of c) rk (room kp g c) \<and> fl AND (NO_MIN_RANGE OR NEAR_MIN) = 0 \<and>
     (\<forall>p\<in>nodes_of c. start_key = (\<not> descending kp (g p)))"
    using store_key_bound [of end_of g this c key kp Lower rk start_key fl last_part m] r that
    by (auto simp: store_min_key_def open_flags_def)
  show "\<exists>ps. store_max_key end_of g kp last_part start_key this m rk fl =
      Some (int (length ps), copy_in m rk (concat (map (node_bytes kp g Upper m) ps)),
        rk + length (concat (map (node_bytes kp g Upper m) ps)), add_flags g Upper fl ps) \<and>
      set ps \<subseteq> nodes_of c \<and> first_ends g Upper last_part fl c ps \<and>
       (ps = [] \<longleftrightarrow> unbounded Upper (end_flag Upper (g (fst (list_end Upper c))))) \<and>
      (\<forall>f. sat key g c f \<longrightarrow> bounded key g Upper (near Upper (add_flags g Upper fl ps)) ps f)"
    if "apart kp g Upper (nodes_of c) rk (room kp g c) \<and> fl AND (NO_MAX_RANGE OR NEAR_MAX) = 0 \<and>
     (\<forall>p\<in>nodes_of c. start_key = descending kp (g p))"
    using store_key_bound [of end_of g this c key kp Upper rk start_key fl last_part m] r that
    by (auto simp: store_max_key_def open_flags_def)
qed

text \<open>
  C5. \<^verbatim>\<open>store_min_key\<close> chooses the end of the next part by the direction of the part that it has just
  stored, not by that of the next one. Take a condition whose first interval \<open>p\<close> has a closed lower end, in an
  ascending part, and leads to a list of intervals of the next part, which is descending and the last one, the first
  of them, \<open>q\<close>, with a bounded lower end. The start key is then the values of the lower ends of \<open>p\<close> and
  of \<open>q\<close>: every tuple that satisfies the condition with the lower end of \<open>p\<close> in the first part, and another
  value than the lower end of \<open>q\<close> in the second, comes before that key in the index, so that a scan
  that starts at the key does not return it. With the upper end of the last interval of the list instead no
  tuple would be lost.
\<close>
theorem sel_arg_start_key_loses_rows:
  "c = Iv p d r \<and> d = Iv q Done s \<and> rooted end_of g this c \<and> ordered key g c \<and>
     apart kp g Lower (nodes_of c) rk (room kp g c) \<and> fl AND (NO_MIN_RANGE OR NEAR_MIN) = 0 \<and>
     \<not> descending kp (g p) \<and> descending kp (g q) \<and> unat (part (g q)) = unat (part (g p)) + 1 \<and>
     ucast (part (g p)) \<noteq> last_part \<and>
     \<not> unbounded Lower (min_flag (g p)) \<and> \<not> near Lower (min_flag (g p)) \<and> \<not> unbounded Lower (min_flag (g q)) \<longrightarrow>
   (let min_p = key (field (g p)) (min_value (g p)); min_q = key (field (g q)) (min_value (g q));
        bytes = node_bytes kp g Lower m p @ node_bytes kp g Lower m q; t = fst (list_end Upper d)
    in store_min_key end_of g kp last_part True this m rk fl =
         Some (2, copy_in m rk bytes, rk + length bytes, add_flags g Lower fl [p, q]) \<and>
       (\<forall>f. sat key g c f \<and> f (unat (part (g p))) = min_p \<and> f (unat (part (g q))) \<noteq> min_q \<longrightarrow>
          index_before [False, True] [f (unat (part (g p))), f (unat (part (g q)))] [min_p, min_q]) \<and>
       (\<forall>f. sat key g c f \<and> \<not> unbounded Upper (max_flag (g t)) \<longrightarrow>
          \<not> index_before [False, True] [f (unat (part (g p))), f (unat (part (g q)))]
              [min_p, key (field (g t)) (max_value (g t))]))"
proof (rule impI, unfold Let_def, elim conjE)
  assume h: "c = Iv p d r" "d = Iv q Done s" "rooted end_of g this c" "ordered key g c"
    "apart kp g Lower (nodes_of c) rk (room kp g c)" "fl AND (NO_MIN_RANGE OR NEAR_MIN) = 0"
    "\<not> descending kp (g p)" "descending kp (g q)" "unat (part (g q)) = unat (part (g p)) + 1"
    "ucast (part (g p)) \<noteq> last_part" "\<not> unbounded Lower (min_flag (g p))" "\<not> near Lower (min_flag (g p))"
    "\<not> unbounded Lower (min_flag (g q))"
  let ?P = "unat (part (g p))" and ?Q = "unat (part (g q))" and ?t = "fst (list_end Upper d)"
  let ?bp = "node_bytes kp g Lower m p" and ?bq = "node_bytes kp g Lower m q"
  have c: "c \<noteq> Done" "list_end Lower c = (p, d)" and d: "d \<noteq> Done" "list_end Lower d = (q, Done)"
    using h(1,2) by simp_all
  have od: "ordered key g d" using h(1,4) by simp
  note lost = two_part_start_key [OF h]
  have low: "min_p < x \<or> min_p = x \<and> sat key g d f"
    if "sat key g c f" "min_p = key (field (g p)) (min_value (g p))" "x = f ?P" for f min_p x
    using list_end_bound [OF h(4) c(1) that(1) c(2)] h(11) that(2,3) d(1)
    by (auto simp: inside_def end_value_def end_flag_def)
  have "index_before [False, True] [f ?P, f ?Q]
      [key (field (g p)) (min_value (g p)), key (field (g q)) (min_value (g q))]"
    if "sat key g c f" "f ?P = key (field (g p)) (min_value (g p))" "f ?Q \<noteq> key (field (g q)) (min_value (g q))" for f
  proof -
    have "sat key g d f" using low [OF that(1) refl refl] that(2) by simp
    from list_end_bound [OF od d(1) this d(2)] show ?thesis
      using h(13) that(2,3) by (auto simp: inside_def end_value_def end_flag_def)
  qed
  moreover have "\<not> index_before [False, True] [f ?P, f ?Q]
      [key (field (g p)) (min_value (g p)), key (field (g ?t)) (max_value (g ?t))]"
    if "sat key g c f" "\<not> unbounded Upper (max_flag (g ?t))" for f
  proof -
    have "part (g ?t) = part (g q)" using list_end_facts [OF od d(1) surjective_pairing, of Upper] h(2) by simp
    moreover have "f ?Q \<le> key (field (g ?t)) (max_value (g ?t))" if "sat key g d f"
      using list_end_bound [OF od d(1) that surjective_pairing, of Upper] \<open>\<not> unbounded Upper (max_flag (g ?t))\<close>
        calculation by (auto simp: inside_def end_value_def end_flag_def)
    ultimately show ?thesis using low [OF that(1) refl refl] by auto
  qed
  ultimately show "store_min_key end_of g kp last_part True this m rk fl =
         Some (2, copy_in m rk (?bp @ ?bq), rk + length (?bp @ ?bq), add_flags g Lower fl [p, q]) \<and>
       (\<forall>f. sat key g c f \<and> f ?P = key (field (g p)) (min_value (g p)) \<and>
            f ?Q \<noteq> key (field (g q)) (min_value (g q)) \<longrightarrow>
          index_before [False, True] [f ?P, f ?Q]
            [key (field (g p)) (min_value (g p)), key (field (g q)) (min_value (g q))]) \<and>
       (\<forall>f. sat key g c f \<and> \<not> unbounded Upper (max_flag (g ?t)) \<longrightarrow>
          \<not> index_before [False, True] [f ?P, f ?Q]
              [key (field (g p)) (min_value (g p)), key (field (g ?t)) (max_value (g ?t))])"
    using lost by blast
qed

text \<open>
  C6. The walks over a graph of ranges end, however it shares conditions. \<^verbatim>\<open>all_same\<close> compares two lists
  interval by interval. \<^verbatim>\<open>free_tree\<close> lowers the use count of each list by the number of times the condition
  refers to it and changes nothing else. \<^verbatim>\<open>incr_refs_all\<close> raises the use count of the root by one, and that of
  each list to which only intervals of the first list refer by the number of these references. \<^verbatim>\<open>incr_refs\<close>
  raises the use count of the node by one, that of the list it leads to by one, and that of each list to which only
  intervals of that list refer by as many times the old use count of that list as they do. Both leave
  everything but use counts as it is, and the use counts of lists to which the condition does not refer. The
  counts have 32 bits and wrap around.
\<close>
theorem sel_arg_graph_walks_end:
  "rooted end_of g this c \<and> only_ranges g c \<and> links_law end_of \<longrightarrow>
   (rooted end_of g arg c' \<and> kind (g this) = KEY_RANGE \<and> kind (g arg) = KEY_RANGE \<longrightarrow>
     all_same sel_cmp (end_of Lower) g this arg = Some (part (g this) = part (g arg) \<and>
       (this = arg \<or> list_all2 (\<lambda>p q. is_same sel_cmp (g p) (g q)) (list_nodes c) (list_nodes c')))) \<and>
   (\<exists>g'. free_tree (end_of Lower) this g = Some g' \<and> same_links g g' \<and>
     (\<forall>p. use_count (g' p) = use_count (g p) - of_nat (refs g c p))) \<and>
   (\<exists>g'. incr_refs_all (end_of Lower) this g = Some g' \<and> same_links g g' \<and>
     (\<forall>p. refs g c p = direct_refs g c p \<longrightarrow> use_count (g' p) =
        use_count (g p) + of_nat (direct_refs g c p) + (if p = this then 1 else 0))) \<and>
   (next_key_part (g q) = 0 \<longrightarrow>
     incr_refs (end_of Lower) q g = Some (set_use_count g q (use_count (g q) + 1))) \<and>
   (next_key_part (g q) = this \<and> this \<noteq> 0 \<longrightarrow> (\<exists>g'. incr_refs (end_of Lower) q g = Some g' \<and> same_links g g' \<and>
     (\<forall>p. refs g c p = direct_refs g c p \<longrightarrow> use_count (g' p) = use_count (g p) + (if p = this then 1 else 0) +
        use_count (g this) * of_nat (direct_refs g c p) + (if p = q then 1 else 0))))"
proof (intro impI conjI)
  assume h: "rooted end_of g this c \<and> only_ranges g c \<and> links_law end_of"
  then have l: "links_law end_of" and cr: "crep end_of g (end_of Lower g this) c" and o: "only_ranges g c"
    by (simp_all add: rooted_def)
  show "all_same sel_cmp (end_of Lower) g this arg = Some (part (g this) = part (g arg) \<and>
       (this = arg \<or> list_all2 (\<lambda>p q. is_same sel_cmp (g p) (g q)) (list_nodes c) (list_nodes c')))"
    if "rooted end_of g arg c' \<and> kind (g this) = KEY_RANGE \<and> kind (g arg) = KEY_RANGE"
    using all_same_ok h that by blast
  show "\<exists>g'. free_tree (end_of Lower) this g = Some g' \<and> same_links g g' \<and>
     (\<forall>p. use_count (g' p) = use_count (g p) - of_nat (refs g c p))"
    using free_loop_ok [OF l cr o] by (simp add: free_tree_def)
  obtain g1 where g1: "increment_loop (end_of Lower) 1 (end_of Lower g this) g = Some g1" "same_links g g1"
    "\<forall>p. refs g c p = direct_refs g c p \<longrightarrow> use_count (g1 p) = use_count (g p) + 1 * of_nat (direct_refs g c p)"
    using increment_loop_ok [OF l cr o] by blast
  have "incr_refs_all (end_of Lower) this g = Some (set_use_count g1 this (use_count (g1 this) + 1))"
    using g1(1) by (simp add: incr_refs_all_def)
  moreover have "same_links g (set_use_count g1 this (use_count (g1 this) + 1))"
    using same_links_trans [OF g1(2) same_links_set] .
  ultimately show "\<exists>g'. incr_refs_all (end_of Lower) this g = Some g' \<and> same_links g g' \<and>
     (\<forall>p. refs g c p = direct_refs g c p \<longrightarrow> use_count (g' p) =
        use_count (g p) + of_nat (direct_refs g c p) + (if p = this then 1 else 0))"
    using g1(3) by (auto simp: set_use_count_def)
  show "incr_refs (end_of Lower) q g = Some (set_use_count g q (use_count (g q) + 1))" if "next_key_part (g q) = 0"
    using that by (simp add: incr_refs_def increment_use_count_def)
  show "\<exists>g'. incr_refs (end_of Lower) q g = Some g' \<and> same_links g g' \<and>
     (\<forall>p. refs g c p = direct_refs g c p \<longrightarrow> use_count (g' p) = use_count (g p) + (if p = this then 1 else 0) +
        use_count (g this) * of_nat (direct_refs g c p) + (if p = q then 1 else 0))"
    if n: "next_key_part (g q) = this \<and> this \<noteq> 0"
  proof -
    obtain g2 where g2: "increment_use_count (end_of Lower) 1 q g = Some g2" "same_links g g2"
      "\<forall>p. refs g c p = direct_refs g c p \<longrightarrow> use_count (g2 p) = use_count (g p) +
         (if p = this then 1 else 0) + use_count (g this) * of_nat (direct_refs g c p)"
      using increment_use_count_ok [OF l, of g q c] n h by auto
    then have "incr_refs (end_of Lower) q g = Some (set_use_count g2 q (use_count (g2 q) + 1))"
      by (simp add: incr_refs_def)
    moreover have "same_links g (set_use_count g2 q (use_count (g2 q) + 1))"
      using same_links_trans [OF g2(2) same_links_set] .
    ultimately show ?thesis using g2(3) by (auto simp: set_use_count_def)
  qed
qed

theorem sel_arg_interval_operations_witness:
  "range_of byte_key (clone_and (sample_sel_cmp byte_key) sample_new (sample_new 0 1 100 101 0 0 0)
     (sample_new 0 1 103 100 4 0 0)) = {v. 10 \<le> v \<and> v \<le> 20} \<inter> {v. 5 < v \<and> v \<le> (10 :: uchar)}"
proof -
  let ?a = "sample_new 0 1 100 101 0 0 0" and ?b = "sample_new 0 1 103 100 4 0 0"
  let ?cmp = "\<lambda>f p q :: nat. if sample_values p = sample_values q then 0 else 1 :: int"
  have "key_cmp_law byte_key ?cmp sample_values ?a" by (simp add: key_cmp_law_def sample_new_def)
  then have h: "sel_cmp_law byte_key (sample_sel_cmp byte_key) \<and> constructor_law sample_new \<and>
      key_cmp_law byte_key ?cmp sample_values ?a \<and> wf_ends ?a \<and> wf_ends ?b \<and> field ?a = field ?b"
    using sample_sel_laws by (simp add: wf_ends_def sample_new_def)
  have "range_of byte_key (clone_and (sample_sel_cmp byte_key) sample_new ?a ?b) =
      range_of byte_key ?a \<inter> range_of byte_key ?b"
    by (rule sel_arg_interval_operations [of byte_key "sample_sel_cmp byte_key" sample_new ?cmp sample_values ?a ?b,
      THEN mp, OF h, THEN conjunct1])
  moreover have "range_of byte_key ?a = {v. 10 \<le> v \<and> v \<le> 20}" "range_of byte_key ?b = {v. 5 < v \<and> v \<le> 10}"
    by (simp_all add: range_of_def min_ok_def max_ok_def sample_new_def sample_values_def)
  ultimately show ?thesis by simp
qed

theorem sel_arg_keys_cover_condition_witness:
  "\<exists>ps. store_min_key sample_end sample_graph (one_byte_parts False) 64 True 11 sample_values 1000 0 =
     Some (int (length ps), copy_in sample_values 1000 (concat (map (node_bytes (one_byte_parts False) sample_graph Lower sample_values) ps)),
       1000 + length (concat (map (node_bytes (one_byte_parts False) sample_graph Lower sample_values) ps)),
       add_flags sample_graph Lower 0 ps)"
proof -
  have "apart (one_byte_parts False) sample_graph Lower (nodes_of sample_cond) 1000
      (room (one_byte_parts False) sample_graph sample_cond)"
    by (simp add: apart_def sample_cond_def key_len_def one_byte_parts_def end_value_def sample_nodes)
  moreover have "\<forall>p\<in>nodes_of sample_cond. True = (\<not> descending (one_byte_parts False) (sample_graph p))"
    by (simp add: sample_cond_def descending_def one_byte_parts_def)
  ultimately have a: "apart (one_byte_parts False) sample_graph Lower (nodes_of sample_cond) 1000
      (room (one_byte_parts False) sample_graph sample_cond) \<and> (0 :: uint) AND (NO_MIN_RANGE OR NEAR_MIN) = 0 \<and>
      (\<forall>p\<in>nodes_of sample_cond. True = (\<not> descending (one_byte_parts False) (sample_graph p)))" by simp
  have r: "rooted sample_end sample_graph 11 sample_cond \<and> ordered byte_key sample_graph sample_cond"
    using sample_cond_facts by blast
  note sel_arg_keys_cover_condition [of sample_end sample_graph 11 sample_cond byte_key "one_byte_parts False"
        1000 0 True 64 sample_values, THEN mp, OF r, THEN conjunct1, THEN mp, OF a]
  then show ?thesis by (elim exE conjE) (rule exI)
qed

text \<open>
  With the second part descending, the start key of (10..20, 1..5) is (10, 1): the row (10, 5), which
  satisfies the condition, comes before it in the index.
\<close>

theorem sel_arg_start_key_loses_rows_witness:
  "store_min_key sample_end sample_graph (one_byte_parts True) 64 True 11 sample_values 1000 0 =
     Some (2, copy_in sample_values 1000 [10, 1], 1002, 0) \<and>
   sat byte_key sample_graph sample_cond (\<lambda>k. if k = 1 then 10 else 5) \<and>
   index_before [False, True] [10, 5] [10, 1 :: uchar]"
proof -
  let ?f = "\<lambda>k :: nat. if k = 1 then 10 else 5 :: uchar"
  have c: "sample_cond = Iv 11 (Iv 12 Done Done) Done" by (simp add: sample_cond_def)
  have a: "apart (one_byte_parts True) sample_graph Lower (nodes_of sample_cond) 1000
      (room (one_byte_parts True) sample_graph sample_cond)"
    by (simp add: apart_def sample_cond_def key_len_def one_byte_parts_def end_value_def sample_nodes)
  have b: "node_bytes (one_byte_parts True) sample_graph Lower sample_values 11 = [10]"
    "node_bytes (one_byte_parts True) sample_graph Lower sample_values 12 = [1]"
    by (simp_all add: node_bytes_def value_bytes_def key_len_def one_byte_parts_def end_value_def sample_nodes
      copy_out_def, simp_all add: sample_values_def)
  have s: "sat byte_key sample_graph sample_cond ?f"
    by (simp add: sample_cond_def sample_graph_def sample_new_def range_of_def min_ok_def max_ok_def sample_values_def)
  have "descending (one_byte_parts True) (sample_graph 12)" "\<not> descending (one_byte_parts True) (sample_graph 11)"
    by (simp_all add: descending_def one_byte_parts_def sample_nodes)
  then have h: "store_min_key sample_end sample_graph (one_byte_parts True) 64 True 11 sample_values 1000 0 =
      Some (2, copy_in sample_values 1000 [10, 1], 1002, add_flags sample_graph Lower 0 [11, 12])"
    "\<forall>f. sat byte_key sample_graph sample_cond f \<and> f 1 = byte_key 0 100 \<and> f 2 \<noteq> byte_key 0 102 \<longrightarrow>
      index_before [False, True] [f 1, f 2] [byte_key 0 100, byte_key 0 102]"
    using sel_arg_start_key_loses_rows [of sample_cond 11 "Iv 12 Done Done" Done 12 Done sample_end sample_graph 11
        byte_key "one_byte_parts True" 1000 0 64 sample_values] sample_cond_facts a c
    by (simp_all add: sample_nodes unbounded_def near_def Let_def b)
  have "index_before [False, True] [?f 1, ?f 2] [byte_key 0 100, byte_key 0 102]"
    by (rule h(2) [THEN spec, THEN mp]) (use s in \<open>simp add: sample_values_def\<close>)
  moreover have "add_flags sample_graph Lower 0 [11, 12] = 0"
    by (simp add: add_flags_def end_flag_def sample_nodes)
  ultimately show ?thesis using s h(1) by (simp add: sample_values_def)
qed

lemma sample_only_ranges: "only_ranges sample_graph sample_cond"
  by (simp add: sample_cond_def sample_graph_def sample_new_def)

theorem sel_arg_graph_walks_end_witness:
  "\<exists>g'. free_tree (sample_end Lower) 11 sample_graph = Some g' \<and> use_count (g' 12) = 0"
proof -
  have "links_law sample_end" by (simp add: links_law_def sample_end_def)
  then obtain g' where "free_tree (sample_end Lower) 11 sample_graph = Some g'"
    "use_count (g' 12) = use_count (sample_graph 12) - of_nat (refs sample_graph sample_cond 12)"
    using sel_arg_graph_walks_end [of sample_end sample_graph 11 sample_cond 11 sample_cond "\<lambda>f a b fa fb. 0" 11,
        THEN mp, THEN conjunct2, THEN conjunct1] sample_cond_facts sample_only_ranges by blast
  then show ?thesis by (simp add: sample_cond_def sample_graph_def sample_new_def)
qed

end
