(* ===== verification/Window_Func.thy ===== *)
theory Window_Func
  imports Complex_Main Prelude "HOL-Library.Signed_Division"
begin

text \<open>
  Window functions: \<^verbatim>\<open>item_windowfunc.h\<close>.

  A window function is called for the rows of a partition in order: \<^verbatim>\<open>clear\<close> at its start, then, where the
  function needs it, \<^verbatim>\<open>set_partition_row_count\<close>, and \<^verbatim>\<open>add\<close> for every row, after which its value is read.
  The values of a row are arguments of these calls: the arguments of the function, an SQL NULL being
  \<^const>\<open>None\<close>. Doubles are a type with the operations \<open>double_ops\<close>, so that the rounding of the machine is
  a parameter; \<open>double_law\<close> states what is needed of it. The functions whose \<^verbatim>\<open>add\<close> is defined in a file that
  is not part of the package are modelled up to that call.
\<close>

section \<open>Doubles and errors\<close>

record 'd double_ops =
  d_of_ulonglong :: "ulonglong \<Rightarrow> 'd"
  d_of_longlong :: "longlong \<Rightarrow> 'd"
  d_plus :: "'d \<Rightarrow> 'd \<Rightarrow> 'd"
  d_minus :: "'d \<Rightarrow> 'd \<Rightarrow> 'd"
  d_times :: "'d \<Rightarrow> 'd \<Rightarrow> 'd"
  d_divide :: "'d \<Rightarrow> 'd \<Rightarrow> 'd"
  d_floor :: "'d \<Rightarrow> 'd"
  d_ceil :: "'d \<Rightarrow> 'd"

datatype wf_error = ER_INVALID_NTILE_ARGUMENT | ER_ARGUMENT_OUT_OF_RANGE | ER_ARGUMENT_NOT_CONSTANT

section \<open>Group_bound_tracker\<close>

text \<open>
  The cached items and the flag. \<^verbatim>\<open>test_if_group_changed\<close>, which compares the row with the cached items and
  stores it there, and \<^verbatim>\<open>cmp_read_only\<close> are parameters.
\<close>

record 'c tracker =
  group_fields :: "'c list"
  first_check :: bool

definition tracker_init :: "'c tracker \<Rightarrow> 'c tracker" where
  "tracker_init t = t\<lparr>first_check := True\<rparr>"

definition check_if_next_group ::
    "('r \<Rightarrow> 'c list \<Rightarrow> int \<times> 'c list) \<Rightarrow> 'r \<Rightarrow> 'c tracker \<Rightarrow> bool \<times> 'c tracker" where
  "check_if_next_group test_if_group_changed row t =
     (let (changed, fields) = test_if_group_changed row (group_fields t);
          t = t\<lparr>group_fields := fields\<rparr>
      in if changed > -1 \<or> first_check t then (True, t\<lparr>first_check := False\<rparr>) else (False, t))"

fun compare_loop :: "('r \<Rightarrow> 'c \<Rightarrow> int) \<Rightarrow> 'r \<Rightarrow> 'c list \<Rightarrow> int" where
  "compare_loop cmp_read_only row [] = 0"
| "compare_loop cmp_read_only row (ptr # li) =
     (let res = cmp_read_only row ptr in if res \<noteq> 0 then res else compare_loop cmp_read_only row li)"

definition compare_with_cache :: "('r \<Rightarrow> 'c \<Rightarrow> int) \<Rightarrow> 'r \<Rightarrow> 'c tracker \<Rightarrow> int" where
  "compare_with_cache cmp_read_only row t = compare_loop cmp_read_only row (group_fields t)"

section \<open>ROW_NUMBER, RANK and DENSE_RANK\<close>

record item_sum_row_number = rn_count :: longlong

definition row_number_clear :: "item_sum_row_number \<Rightarrow> item_sum_row_number" where
  "row_number_clear st = st\<lparr>rn_count := 0\<rparr>"

definition row_number_add :: "item_sum_row_number \<Rightarrow> bool \<times> item_sum_row_number" where
  "row_number_add st = (False, st\<lparr>rn_count := rn_count st + 1\<rparr>)"

definition row_number_val_int :: "item_sum_row_number \<Rightarrow> longlong" where
  "row_number_val_int st = rn_count st"

record item_sum_rank =
  row_number :: longlong
  cur_rank :: longlong

definition rank_clear :: "item_sum_rank \<Rightarrow> item_sum_rank" where
  "rank_clear st = st\<lparr>cur_rank := 1, row_number := 0\<rparr>"

definition rank_val_int :: "item_sum_rank \<Rightarrow> longlong" where
  "rank_val_int st = cur_rank st"

record item_sum_dense_rank =
  dense_rank :: longlong
  first_add :: bool

definition dense_rank_clear :: "item_sum_dense_rank \<Rightarrow> item_sum_dense_rank" where
  "dense_rank_clear st = st\<lparr>dense_rank := 0, first_add := True\<rparr>"

definition dense_rank_val_int :: "item_sum_dense_rank \<Rightarrow> longlong" where
  "dense_rank_val_int st = dense_rank st"

section \<open>PERCENT_RANK and CUME_DIST\<close>

text \<open>\<^verbatim>\<open>Partition_row_count\<close> and \<^verbatim>\<open>Current_row_count\<close>, the bases of the other functions.\<close>

record row_counts =
  partition_row_count :: ulonglong
  current_row_count :: ulonglong

definition set_partition_row_count :: "ulonglong \<Rightarrow> ('a row_counts_scheme) \<Rightarrow> ('a row_counts_scheme)" where
  "set_partition_row_count count st = st\<lparr>partition_row_count := count\<rparr>"

definition calc_val_real :: "'d double_ops \<Rightarrow> ulonglong \<Rightarrow> ('a row_counts_scheme) \<Rightarrow> bool \<times> 'd" where
  "calc_val_real dd count st =
     (if partition_row_count st = 0 then (True, d_of_ulonglong dd 0)
      else (False, d_divide dd (d_of_ulonglong dd count) (d_of_ulonglong dd (partition_row_count st))))"

definition get_row_count :: "('a row_counts_scheme) \<Rightarrow> longlong" where
  "get_row_count st = partition_row_count st"

definition get_row_number :: "('a row_counts_scheme) \<Rightarrow> ulonglong" where
  "get_row_number st = current_row_count st"

text \<open>The value of \<^verbatim>\<open>PERCENT_RANK\<close>, with its flag for NULL.\<close>

definition percent_rank_clear :: "item_sum_rank \<Rightarrow> item_sum_rank" where
  "percent_rank_clear st = st\<lparr>cur_rank := 1, row_number := 0\<rparr>"

definition percent_rank_val_real :: "'d double_ops \<Rightarrow> ('a row_counts_scheme) \<Rightarrow> item_sum_rank \<Rightarrow> bool \<times> 'd" where
  "percent_rank_val_real dd counts st =
     (let partition_rows = get_row_count counts;
          null_value = (if partition_rows > 0 then False else True)
      in (null_value,
          if partition_rows > 1
          then d_divide dd (d_of_longlong dd (cur_rank st - 1)) (d_of_ulonglong dd (partition_rows - 1))
          else d_of_ulonglong dd 0))"

definition count_row :: "('a row_counts_scheme) \<Rightarrow> bool \<times> ('a row_counts_scheme)" where
  "count_row st = (False, st\<lparr>current_row_count := current_row_count st + 1\<rparr>)"

definition cume_dist_val_real :: "'d double_ops \<Rightarrow> row_counts \<Rightarrow> bool \<times> 'd" where
  "cume_dist_val_real dd st = calc_val_real dd (current_row_count st) st"

definition cume_dist_clear :: "row_counts \<Rightarrow> row_counts" where
  "cume_dist_clear st = st\<lparr>current_row_count := 0, partition_row_count := 0\<rparr>"

section \<open>NTILE\<close>

record ntile = row_counts +
  n_old_val :: ulonglong

definition ntile_clear :: "ntile \<Rightarrow> ntile" where
  "ntile_clear st = st\<lparr>current_row_count := 0, partition_row_count := 0, n_old_val := 0\<rparr>"

text \<open>
  The error that is reported, the flag for NULL, which a failure leaves as it was, and the value. A
  division by zero is \<^const>\<open>None\<close>.
\<close>

definition ntile_val_int ::
    "longlong \<Rightarrow> bool \<Rightarrow> ntile \<Rightarrow> (wf_error option \<times> bool \<times> longlong \<times> ntile) option" where
  "ntile_val_int num_quantiles null_value st =
     (if get_row_count st = 0 then Some (None, True, 0, st)
      else if sint num_quantiles \<le> 0 \<or> (num_quantiles \<noteq> n_old_val st \<and> n_old_val st > 0)
      then Some (Some ER_INVALID_NTILE_ARGUMENT, null_value, 1, st)
      else let st = st\<lparr>n_old_val := num_quantiles\<rparr>;
               quantile_size = word_of_int (sint (get_row_count st) sdiv sint num_quantiles) :: ulonglong;
               extra_rows = get_row_count st - quantile_size * num_quantiles
           in if current_row_count st \<le> extra_rows * (quantile_size + 1)
              then if quantile_size + 1 = 0 then None
                   else Some (None, False, (current_row_count st - 1) div (quantile_size + 1) + 1, st)
              else if quantile_size = 0 then None
              else Some (None, False, (current_row_count st - 1 - extra_rows) div quantile_size + 1, st))"

section \<open>PERCENTILE_DISC\<close>

text \<open>The cache of the value is \<^const>\<open>None\<close> when it is NULL; \<open>'v\<close> is the type of the ordered expression.\<close>

record ('d, 'v) percentile_disc = row_counts +
  disc_value :: "'v option"
  val_calculated :: bool
  disc_first_call :: bool
  disc_prev_value :: 'd

definition disc_clear :: "('d, 'v) percentile_disc \<Rightarrow> ('d, 'v) percentile_disc" where
  "disc_clear st = st\<lparr>val_calculated := False, disc_first_call := True, disc_value := None,
     partition_row_count := 0, current_row_count := 0\<rparr>"

text \<open>\<^verbatim>\<open>val_int()\<close>, \<^verbatim>\<open>val_real()\<close>, \<^verbatim>\<open>val_decimal()\<close> and \<^verbatim>\<open>val_str()\<close>: \<open>read\<close> converts the cached value.\<close>

definition disc_val :: "('v option \<Rightarrow> 'x) \<Rightarrow> 'x \<Rightarrow> 'd option \<Rightarrow> ('d, 'v) percentile_disc \<Rightarrow> bool \<times> 'x" where
  "disc_val read zero arg st =
     (if get_row_count st = 0 \<or> arg = None then (True, zero) else (False, read (disc_value st)))"

text \<open>\<^verbatim>\<open>get_date()\<close> and \<^verbatim>\<open>val_native()\<close> report a failure instead.\<close>

definition disc_get :: "('v option \<Rightarrow> bool \<times> 'x) \<Rightarrow> 'x \<Rightarrow> 'd option \<Rightarrow> ('d, 'v) percentile_disc \<Rightarrow> bool \<times> bool \<times> 'x" where
  "disc_get read old arg st =
     (if get_row_count st = 0 \<or> arg = None then (True, True, old) else (False, read (disc_value st)))"

definition disc_add ::
    "('d :: linorder) double_ops \<Rightarrow> 'd option \<Rightarrow> 'v option \<Rightarrow> ('d, 'v) percentile_disc \<Rightarrow>
     wf_error option \<times> ('d, 'v) percentile_disc" where
  "disc_add dd arg order_item st =
     (case arg of
        None \<Rightarrow> (None, st)
      | Some arg_val \<Rightarrow>
          let (failed, st) =
            (if disc_first_call st
             then let st = st\<lparr>disc_prev_value := arg_val\<rparr>
                  in if disc_prev_value st > d_of_ulonglong dd 1 \<or> disc_prev_value st < d_of_ulonglong dd 0
                     then (True, st) else (False, st\<lparr>disc_first_call := False\<rparr>)
             else (False, st))
          in if failed then (Some ER_ARGUMENT_OUT_OF_RANGE, st)
             else if disc_prev_value st \<noteq> arg_val then (Some ER_ARGUMENT_NOT_CONSTANT, st)
             else if val_calculated st then (None, st)
             else let st = st\<lparr>disc_value := order_item\<rparr>
                  in if order_item = None then (None, st)
                     else let st = st\<lparr>current_row_count := current_row_count st + 1\<rparr>;
                              (null_value, val) = calc_val_real dd (current_row_count st) st
                          in (None, if val \<ge> disc_prev_value st \<and> \<not> val_calculated st
                                    then st\<lparr>val_calculated := True\<rparr> else st))"

section \<open>PERCENTILE_CONT\<close>

record 'd percentile_cont = row_counts +
  floor_value :: "'d option"
  ceil_value :: "'d option"
  cont_first_call :: bool
  cont_prev_value :: 'd
  ceil_val_calculated :: bool
  floor_val_calculated :: bool

definition cont_clear :: "'d percentile_cont \<Rightarrow> 'd percentile_cont" where
  "cont_clear st = st\<lparr>cont_first_call := True, floor_value := None, ceil_value := None,
     floor_val_calculated := False, ceil_val_calculated := False, partition_row_count := 0, current_row_count := 0\<rparr>"

text \<open>The position of the value among the rows; the number of rows is a signed integer here.\<close>

definition cont_position :: "'d double_ops \<Rightarrow> 'd percentile_cont \<Rightarrow> 'd" where
  "cont_position dd st = d_plus dd (d_of_ulonglong dd 1)
     (d_times dd (cont_prev_value st) (d_of_longlong dd (get_row_count st - 1)))"

definition cont_val_real :: "'d double_ops \<Rightarrow> ('d option \<Rightarrow> 'd) \<Rightarrow> 'd option \<Rightarrow> 'd percentile_cont \<Rightarrow> bool \<times> 'd" where
  "cont_val_real dd val_real arg st =
     (if get_row_count st = 0 \<or> arg = None then (True, d_of_ulonglong dd 0)
      else let val = cont_position dd st
           in (False,
               if d_ceil dd val = d_floor dd val then val_real (floor_value st)
               else d_plus dd
                 (d_times dd (d_minus dd val (d_floor dd val)) (val_real (ceil_value st)))
                 (d_times dd (d_minus dd (d_ceil dd val) val) (val_real (floor_value st)))))"

definition cont_add ::
    "('d :: linorder) double_ops \<Rightarrow> 'd option \<Rightarrow> 'd option \<Rightarrow> 'd percentile_cont \<Rightarrow>
     wf_error option \<times> 'd percentile_cont" where
  "cont_add dd arg order_item st =
     (case arg of
        None \<Rightarrow> (None, st)
      | Some arg_val \<Rightarrow>
          let (failed, st) =
            (if cont_first_call st
             then let st = st\<lparr>cont_first_call := False, cont_prev_value := arg_val\<rparr>
                  in (cont_prev_value st > d_of_ulonglong dd 1 \<or> cont_prev_value st < d_of_ulonglong dd 0, st)
             else (False, st))
          in if failed then (Some ER_ARGUMENT_OUT_OF_RANGE, st)
             else if cont_prev_value st \<noteq> arg_val then (Some ER_ARGUMENT_NOT_CONSTANT, st)
             else let (is_null, st) =
                    (if \<not> floor_val_calculated st
                     then (order_item = None, st\<lparr>floor_value := order_item\<rparr>) else (False, st))
                  in if is_null then (None, st)
                     else let (is_null, st) =
                            (if floor_val_calculated st \<and> \<not> ceil_val_calculated st
                             then (order_item = None, st\<lparr>ceil_value := order_item\<rparr>) else (False, st))
                          in if is_null then (None, st)
                             else let st = st\<lparr>current_row_count := current_row_count st + 1\<rparr>;
                                      val = cont_position dd st;
                                      st = (if \<not> floor_val_calculated st \<and>
                                               d_of_ulonglong dd (get_row_number st) = d_floor dd val
                                            then st\<lparr>floor_val_calculated := True\<rparr> else st);
                                      st = (if \<not> ceil_val_calculated st \<and>
                                               d_of_ulonglong dd (get_row_number st) = d_ceil dd val
                                            then st\<lparr>ceil_val_calculated := True\<rparr> else st)
                                  in (None, st))"

section \<open>Item_window_func\<close>

datatype sum_functype =
  COUNT_FUNC | COUNT_DISTINCT_FUNC | SUM_FUNC | SUM_DISTINCT_FUNC | AVG_FUNC |
  AVG_DISTINCT_FUNC | MIN_FUNC | MAX_FUNC | STD_FUNC |
  VARIANCE_FUNC | SUM_BIT_FUNC | UDF_SUM_FUNC | GROUP_CONCAT_FUNC |
  ROW_NUMBER_FUNC | RANK_FUNC | DENSE_RANK_FUNC | PERCENT_RANK_FUNC |
  CUME_DIST_FUNC | NTILE_FUNC | FIRST_VALUE_FUNC | LAST_VALUE_FUNC |
  NTH_VALUE_FUNC | LEAD_FUNC | LAG_FUNC | PERCENTILE_CONT_FUNC |
  PERCENTILE_DISC_FUNC | SP_AGGREGATE_FUNC | JSON_ARRAYAGG_FUNC |
  JSON_OBJECTAGG_FUNC

definition is_frame_prohibited :: "sum_functype \<Rightarrow> bool" where
  "is_frame_prohibited fn \<longleftrightarrow> fn = ROW_NUMBER_FUNC \<or> fn = RANK_FUNC \<or> fn = DENSE_RANK_FUNC \<or>
     fn = PERCENT_RANK_FUNC \<or> fn = CUME_DIST_FUNC \<or> fn = NTILE_FUNC \<or> fn = PERCENTILE_CONT_FUNC \<or>
     fn = PERCENTILE_DISC_FUNC"

definition requires_special_cursors :: "sum_functype \<Rightarrow> bool" where
  "requires_special_cursors fn \<longleftrightarrow> fn = FIRST_VALUE_FUNC \<or> fn = LAST_VALUE_FUNC \<or> fn = NTH_VALUE_FUNC \<or>
     fn = LAG_FUNC \<or> fn = LEAD_FUNC"

definition requires_partition_size :: "sum_functype \<Rightarrow> bool" where
  "requires_partition_size fn \<longleftrightarrow> fn = PERCENT_RANK_FUNC \<or> fn = CUME_DIST_FUNC \<or> fn = NTILE_FUNC \<or>
     fn = PERCENTILE_CONT_FUNC \<or> fn = PERCENTILE_DISC_FUNC"

definition requires_peer_size :: "sum_functype \<Rightarrow> bool" where
  "requires_peer_size fn \<longleftrightarrow> fn = CUME_DIST_FUNC"

definition is_order_list_mandatory :: "sum_functype \<Rightarrow> bool" where
  "is_order_list_mandatory fn \<longleftrightarrow> fn = RANK_FUNC \<or> fn = DENSE_RANK_FUNC \<or> fn = PERCENT_RANK_FUNC \<or>
     fn = CUME_DIST_FUNC \<or> fn = LAG_FUNC \<or> fn = LEAD_FUNC \<or> fn = PERCENTILE_CONT_FUNC \<or>
     fn = PERCENTILE_DISC_FUNC"

definition only_single_element_order_list :: "sum_functype \<Rightarrow> bool" where
  "only_single_element_order_list fn \<longleftrightarrow> fn = PERCENTILE_CONT_FUNC \<or> fn = PERCENTILE_DISC_FUNC"

record item_window_func =
  force_return_blank :: bool
  read_value_from_result_field :: bool

text \<open>A new item is in the initial phase.\<close>

definition Item_window_func :: item_window_func where
  "Item_window_func = \<lparr>force_return_blank = True, read_value_from_result_field = False\<rparr>"

definition set_phase_to_initial :: "item_window_func \<Rightarrow> item_window_func" where
  "set_phase_to_initial st = st\<lparr>force_return_blank := True, read_value_from_result_field := False\<rparr>"

definition set_phase_to_computation :: "item_window_func \<Rightarrow> item_window_func" where
  "set_phase_to_computation st = st\<lparr>force_return_blank := False, read_value_from_result_field := False\<rparr>"

definition set_phase_to_retrieval :: "item_window_func \<Rightarrow> item_window_func" where
  "set_phase_to_retrieval st = st\<lparr>force_return_blank := False, read_value_from_result_field := True\<rparr>"

text \<open>
  The field of the temporary table and the window function are their value and their flag for NULL; the
  result is the flag of the item and its value.
\<close>

definition wf_is_null :: "item_window_func \<Rightarrow> bool \<Rightarrow> bool \<Rightarrow> bool" where
  "wf_is_null st field_null func_null =
     (if force_return_blank st then True
      else if read_value_from_result_field st then field_null else func_null)"

definition wf_val_number :: "'x \<Rightarrow> item_window_func \<Rightarrow> bool \<times> 'x \<Rightarrow> bool \<times> 'x \<Rightarrow> bool \<times> 'x" where
  "wf_val_number zero st result_field window_func =
     (if force_return_blank st then (True, zero)
      else if read_value_from_result_field st then (fst result_field, snd result_field)
      else (fst window_func, snd window_func))"

definition wf_val_real :: "'d double_ops \<Rightarrow> item_window_func \<Rightarrow> bool \<times> 'd \<Rightarrow> bool \<times> 'd \<Rightarrow> bool \<times> 'd" where
  "wf_val_real dd = wf_val_number (d_of_ulonglong dd 0)"

definition wf_val_int :: "item_window_func \<Rightarrow> bool \<times> longlong \<Rightarrow> bool \<times> longlong \<Rightarrow> bool \<times> longlong" where
  "wf_val_int = wf_val_number 0"

text \<open>The pointer to a string or a decimal, \<^const>\<open>None\<close> for \<^verbatim>\<open>NULL\<close>, and the failure of \<^verbatim>\<open>get_date\<close>.\<close>

definition wf_val_object :: "item_window_func \<Rightarrow> bool \<times> 'x option \<Rightarrow> bool \<times> 'x option \<Rightarrow> bool \<times> 'x option" where
  "wf_val_object st result_field window_func =
     (if force_return_blank st then (True, None)
      else if read_value_from_result_field st
      then if fst result_field then (True, None) else (False, snd result_field)
      else (fst window_func, snd window_func))"

definition wf_get_date :: "item_window_func \<Rightarrow> bool \<times> bool \<Rightarrow> bool \<times> bool \<Rightarrow> bool \<times> bool" where
  "wf_get_date st result_field window_func =
     (if force_return_blank st then (True, True)
      else if read_value_from_result_field st
      then if fst result_field then (True, True) else (False, snd result_field)
      else (fst window_func, snd window_func))"

section \<open>Groups\<close>

text \<open>
  \<open>key\<close> gives the items of a row. What is needed of \<^verbatim>\<open>test_if_group_changed\<close>: it reports whether the cached
  items differ from those of the row, and caches those.
\<close>

definition test_law :: "('r \<Rightarrow> 'c list) \<Rightarrow> ('r \<Rightarrow> 'c list \<Rightarrow> int \<times> 'c list) \<Rightarrow> bool" where
  "test_law key test \<longleftrightarrow> (\<forall>row fields. (fst (test row fields) > -1 \<longleftrightarrow> fields \<noteq> key row) \<and> snd (test row fields) = key row)"

fun track :: "('r \<Rightarrow> 'c list \<Rightarrow> int \<times> 'c list) \<Rightarrow> 'r list \<Rightarrow> 'c tracker \<Rightarrow> bool list" where
  "track test [] t = []"
| "track test (r # rs) t = (let (b, t) = check_if_next_group test r t in b # track test rs t)"

fun group_starts :: "('r \<Rightarrow> 'c list) \<Rightarrow> 'c list option \<Rightarrow> 'r list \<Rightarrow> bool list" where
  "group_starts key prev [] = []"
| "group_starts key prev (r # rs) = (prev \<noteq> Some (key r)) # group_starts key (Some (key r)) rs"

lemma track_from:
  "test_law key test \<Longrightarrow> \<not> first_check t \<Longrightarrow> track test rs t = group_starts key (Some (group_fields t)) rs"
proof (induction rs arbitrary: t)
  case (Cons r rs)
  have l: "fst (test r (group_fields t)) > -1 \<longleftrightarrow> group_fields t \<noteq> key r" "snd (test r cs) = key r" for cs
    using Cons.prems(1) by (simp_all add: test_law_def)
  then show ?case using Cons by (simp add: check_if_next_group_def Let_def case_prod_unfold)
qed simp

lemma group_bounds:
  assumes "test_law key test"
  shows "track test rs (tracker_init t) = group_starts key None rs"
proof (cases rs)
  case (Cons r rs')
  have "snd (test r (group_fields t)) = key r" using assms by (simp add: test_law_def)
  then show ?thesis using Cons assms
    by (simp add: check_if_next_group_def tracker_init_def Let_def case_prod_unfold track_from)
qed simp

lemma compare_with_cache_zero:
  "compare_with_cache cmp row t = 0 \<longleftrightarrow> (\<forall>c\<in>set (group_fields t). cmp row c = 0)"
proof -
  have "compare_loop cmp row cs = 0 \<longleftrightarrow> (\<forall>c\<in>set cs. cmp row c = 0)" for cs
    by (induction cs) (simp_all add: Let_def)
  then show ?thesis by (simp add: compare_with_cache_def)
qed

section \<open>The distribution of NTILE\<close>

text \<open>The number of the bucket of row \<open>i\<close> of \<open>n\<close> in \<open>q\<close> buckets, its first row less one and its size.\<close>

definition bucket :: "nat \<Rightarrow> nat \<Rightarrow> nat \<Rightarrow> nat" where
  "bucket n q i = (let s = n div q; e = n mod q
     in if i \<le> e * (s + 1) then (i - 1) div (s + 1) + 1 else (i - 1 - e) div s + 1)"

definition bucket_start :: "nat \<Rightarrow> nat \<Rightarrow> nat \<Rightarrow> nat" where
  "bucket_start n q b = (b - 1) * (n div q) + min (b - 1) (n mod q)"

definition bucket_size :: "nat \<Rightarrow> nat \<Rightarrow> nat \<Rightarrow> nat" where
  "bucket_size n q b = n div q + (if b \<le> n mod q then 1 else 0)"

lemma div_between:
  assumes "0 < (s :: nat)"
  shows "x div s = k \<longleftrightarrow> k * s \<le> x \<and> x < (k + 1) * s"
  using assms by (metis div_nat_eqI dividend_less_times_div mult.commute times_div_less_eq_dividend
      Suc_eq_plus1 mult_Suc_right add.commute)

lemma bucket_rows:
  assumes q: "0 < q" and b: "1 \<le> b" "b \<le> q" and i: "1 \<le> i" "i \<le> n"
  shows "bucket n q i = b \<longleftrightarrow> bucket_start n q b < i \<and> i \<le> bucket_start n q b + bucket_size n q b"
proof -
  define s where "s = n div q"
  define e where "e = n mod q"
  have n: "n = s * q + e" "e < q" using q by (simp_all add: s_def e_def)
  obtain c where c: "b = Suc c" using b by (cases b) simp_all
  obtain j where j: "i = Suc j" using i by (cases i) simp_all
  show ?thesis
  proof (cases "i \<le> e * (s + 1)")
    case True
    have "bucket n q i = b \<longleftrightarrow> j div (s + 1) = c" using True j c by (simp add: bucket_def s_def e_def Let_def)
    also have "\<dots> \<longleftrightarrow> c * (s + 1) \<le> j \<and> j < (c + 1) * (s + 1)" by (rule div_between) simp
    also have "\<dots> \<longleftrightarrow> bucket_start n q b < i \<and> i \<le> bucket_start n q b + bucket_size n q b"
    proof (cases "b \<le> e")
      case True
      then show ?thesis using c j by (auto simp: bucket_start_def bucket_size_def s_def [symmetric] e_def [symmetric] algebra_simps)
    next
      case False
      then have "e * (s + 1) \<le> c * (s + 1)" using c by (intro mult_right_mono) simp_all
      then have "\<not> c * (s + 1) \<le> j" using \<open>i \<le> e * (s + 1)\<close> j by linarith
      have es: "e * s \<le> c * s" using False c by (intro mult_right_mono) simp_all
      have "bucket_start n q b = c * s + e"
        using False c by (simp add: bucket_start_def s_def [symmetric] e_def [symmetric])
      moreover have "e * (s + 1) = e * s + e" by simp
      ultimately have "i \<le> bucket_start n q b" using es \<open>i \<le> e * (s + 1)\<close> by linarith
      then show ?thesis using \<open>\<not> c * (s + 1) \<le> j\<close> by simp
    qed
    finally show ?thesis .
  next
    case False
    have s: "0 < s"
    proof (rule ccontr)
      assume "\<not> 0 < s"
      then show False using False n i by simp
    qed
    have big: "e * s + e \<le> j" using False j by (simp add: algebra_simps)
    have "bucket n q i = b \<longleftrightarrow> (j - e) div s = c" using False j c by (simp add: bucket_def s_def e_def Let_def)
    also have "\<dots> \<longleftrightarrow> c * s \<le> j - e \<and> j - e < (c + 1) * s" by (rule div_between [OF s])
    also have "\<dots> \<longleftrightarrow> bucket_start n q b < i \<and> i \<le> bucket_start n q b + bucket_size n q b"
    proof (cases "b \<le> e")
      case True
      then have "(c + 1) * s \<le> e * s" using c by (intro mult_right_mono) simp_all
      then have "\<not> j - e < (c + 1) * s" using big by linarith
      moreover have "bucket_start n q b + bucket_size n q b < i"
        using True c big j \<open>(c + 1) * s \<le> e * s\<close>
        by (simp add: bucket_start_def bucket_size_def s_def [symmetric] e_def [symmetric] algebra_simps)
      ultimately show ?thesis by simp
    next
      case False
      then show ?thesis using c j big
        by (auto simp: bucket_start_def bucket_size_def s_def [symmetric] e_def [symmetric] algebra_simps)
    qed
    finally show ?thesis .
  qed
qed

lemma bucket_range:
  assumes "0 < q" and "1 \<le> i" "i \<le> n"
  shows "1 \<le> bucket n q i \<and> bucket n q i \<le> q"
proof -
  define s where "s = n div q"
  define e where "e = n mod q"
  have n: "n = s * q + e" "e < q" using assms(1) by (simp_all add: s_def e_def)
  have "bucket n q i \<le> q"
  proof (cases "i \<le> e * (s + 1)")
    case True
    have "(i - 1) div (s + 1) < e" using True assms(2) by (simp add: div_less_iff_less_mult algebra_simps)
    then show ?thesis using True n(2) by (simp add: bucket_def s_def [symmetric] e_def [symmetric] Let_def)
  next
    case False
    have "0 < s" using False n assms(3) by (cases s) simp_all
    have "0 < q * s" using \<open>0 < s\<close> assms(1) by simp
    moreover have "n = q * s + e" using n(1) by (simp add: mult.commute)
    ultimately have "i - 1 - e < q * s" using assms(2,3) by linarith
    moreover note \<open>0 < s\<close>
    ultimately have "(i - 1 - e) div s < q" by (simp add: div_less_iff_less_mult)
    then show ?thesis using False by (simp add: bucket_def s_def [symmetric] e_def [symmetric] Let_def)
  qed
  then show ?thesis by (simp add: bucket_def Let_def)
qed

lemma bucket_set:
  assumes "0 < q" and "1 \<le> b" "b \<le> q"
  shows "{i. 1 \<le> i \<and> i \<le> n \<and> bucket n q i = b} =
    {bucket_start n q b <.. bucket_start n q b + bucket_size n q b}"
proof -
  have "bucket_start n q b + bucket_size n q b \<le> n"
  proof -
    define s where "s = n div q"
    define e where "e = n mod q"
    have n: "n = q * s + e" by (simp add: s_def e_def)
    obtain c where c: "b = Suc c" using assms(2) by (cases b) simp_all
    have "b * s \<le> q * s" using assms(3) by (intro mult_right_mono) simp_all
    moreover have "bucket_start n q b + bucket_size n q b = b * s + min b e"
      using c by (auto simp: bucket_start_def bucket_size_def s_def [symmetric] e_def [symmetric])
    ultimately show ?thesis using n by linarith
  qed
  then have le: "i \<le> n" if "i \<le> bucket_start n q b + bucket_size n q b" for i using that by simp
  show ?thesis
  proof (rule set_eqI)
    fix i
    show "i \<in> {i. 1 \<le> i \<and> i \<le> n \<and> bucket n q i = b} \<longleftrightarrow>
        i \<in> {bucket_start n q b <.. bucket_start n q b + bucket_size n q b}"
    proof (cases "1 \<le> i \<and> i \<le> n")
      case True
      then show ?thesis using bucket_rows [OF assms, of i n] by simp
    next
      case False
      then show ?thesis using le [of i] by auto
    qed
  qed
qed

text \<open>The computation on words.\<close>

lemma u64: "n < 2 ^ 64 \<Longrightarrow> unat (of_nat n :: 64 word) = n"
  by (simp add: unat_of_nat)

lemma sint_u64: "n < 2 ^ 63 \<Longrightarrow> sint (of_nat n :: 64 word) = int n"
  by (simp add: signed_of_nat signed_take_bit_int_eq_self)

definition counts :: "ulonglong \<Rightarrow> ulonglong \<Rightarrow> ulonglong \<Rightarrow> ntile" where
  "counts n i old = \<lparr>partition_row_count = n, current_row_count = i, n_old_val = old\<rparr>"

lemma ntile_val_bucket:
  assumes n: "0 < n" "n < 2 ^ 63" and q: "0 < q" "q < 2 ^ 63" and i: "1 \<le> i" "i \<le> n"
    and old: "old = 0 \<or> old = of_nat q"
  shows "ntile_val_int (of_nat q) nv (counts (of_nat n) (of_nat i) old) =
    Some (None, False, of_nat (bucket n q i), counts (of_nat n) (of_nat i) (of_nat q))"
proof -
  define s where "s = n div q"
  define e where "e = n mod q"
  have se: "n = s * q + e" "e < q" using q by (simp_all add: s_def e_def)
  have es: "e * (s + 1) \<le> n"
  proof -
    have "e * s \<le> q * s" using se(2) by (intro mult_right_mono) simp_all
    then show ?thesis using se(1) by (simp add: algebra_simps)
  qed
  have sn: "s \<le> n" by (simp add: s_def)
  have qs: "word_of_int (sint (of_nat n :: 64 word) sdiv sint (of_nat q :: 64 word)) = (of_nat s :: ulonglong)"
    using n q by (simp add: sint_u64 s_def signed_divide_int_def zdiv_int [symmetric] del: of_nat_div)
  have ex: "(of_nat n :: ulonglong) - of_nat s * of_nat q = of_nat e" unfolding se(1) by simp
  have s1: "unat (of_nat s + 1 :: ulonglong) = s + 1"
  proof -
    have "unat (of_nat (s + 1) :: ulonglong) = s + 1" using sn n by (intro u64) simp
    then show ?thesis by (simp add: add.commute)
  qed
  have es1: "unat (of_nat e * (of_nat s + 1) :: ulonglong) = e * (s + 1)"
  proof -
    have "unat (of_nat (e * (s + 1)) :: ulonglong) = e * (s + 1)" using es n by (intro u64) simp
    then show ?thesis by (simp add: algebra_simps)
  qed
  have ui: "unat (of_nat i :: ulonglong) = i" using i n by (intro u64) simp
  have le: "(of_nat i :: ulonglong) \<le> of_nat e * (of_nat s + 1) \<longleftrightarrow> i \<le> e * (s + 1)"
    by (simp add: word_le_nat_alt ui es1)
  have n0: "(of_nat n :: ulonglong) \<noteq> 0" using u64 [of n] n by auto
  have q0: "\<not> sint (of_nat q :: 64 word) \<le> 0" using q by (simp add: sint_u64)
  let ?st = "counts (of_nat n) (of_nat i) (of_nat q)"
  show ?thesis
  proof (cases "i \<le> e * (s + 1)")
    case True
    have "(of_nat i - 1 :: ulonglong) = of_nat (i - 1)" using i by (simp add: of_nat_diff)
    moreover have "unat (of_nat (i - 1) :: ulonglong) = i - 1" using i n by (intro u64) simp
    ultimately have u: "unat ((of_nat i - 1 :: ulonglong) div (of_nat s + 1)) = (i - 1) div (s + 1)"
      using s1 by (simp add: unat_div)
    have "((of_nat i - 1 :: ulonglong) div (of_nat s + 1)) = of_nat ((i - 1) div (s + 1))"
      by (metis u of_nat_unat ucast_id)
    moreover have "(of_nat s + 1 :: ulonglong) \<noteq> 0" using s1 by auto
    ultimately show ?thesis
      using True le qs ex n0 q0 old
      by (auto simp: ntile_val_int_def counts_def get_row_count_def bucket_def s_def [symmetric] e_def [symmetric] Let_def)
  next
    case False
    then have s0: "0 < s" using se i by (cases s) simp_all
    have us: "unat (of_nat s :: ulonglong) = s" using sn n by (intro u64) simp
    then have s0w: "(of_nat s :: ulonglong) \<noteq> 0" using s0 by auto
    have "e * (s + 1) = e * s + e" by simp
    then have ei: "e \<le> i - 1" using False by linarith
    have "(of_nat i - 1 - of_nat e :: ulonglong) = of_nat (i - 1 - e)" using i ei by (simp add: of_nat_diff)
    moreover have "unat (of_nat (i - 1 - e) :: ulonglong) = i - 1 - e" using i n by (intro u64) simp
    ultimately have u: "unat ((of_nat i - 1 - of_nat e :: ulonglong) div of_nat s) = (i - 1 - e) div s"
      using us by (simp add: unat_div)
    have "((of_nat i - 1 - of_nat e :: ulonglong) div of_nat s) = of_nat ((i - 1 - e) div s)"
      by (metis u of_nat_unat ucast_id)
    then show ?thesis
      using False le qs ex n0 q0 old s0w
      by (auto simp: ntile_val_int_def counts_def get_row_count_def bucket_def s_def [symmetric] e_def [symmetric] Let_def)
  qed
qed

text \<open>A pass over \<open>k\<close> rows: each is counted, then the value is read.\<close>

fun ntile_rows :: "longlong \<Rightarrow> nat \<Rightarrow> ntile \<Rightarrow> longlong list option" where
  "ntile_rows q 0 st = Some []"
| "ntile_rows q (Suc k) st =
     (case ntile_val_int q False (snd (count_row st)) of
        Some (None, False, v, st) \<Rightarrow> map_option (\<lambda>vs. v # vs) (ntile_rows q k st)
      | _ \<Rightarrow> None)"

lemma count_counts: "snd (count_row (counts n i old)) = counts n (i + 1) old"
  by (simp add: count_row_def counts_def)

lemma ntile_rows_from:
  assumes n: "0 < n" "n < 2 ^ 63" and q: "0 < q" "q < 2 ^ 63"
  shows "i + k = n \<Longrightarrow> old = 0 \<or> old = of_nat q \<Longrightarrow>
    ntile_rows (of_nat q) k (counts (of_nat n) (of_nat i) old) =
      Some (map (\<lambda>i. of_nat (bucket n q i)) [Suc i..<Suc n])"
proof (induction k arbitrary: i old)
  case 0
  then show ?case by simp
next
  case (Suc k)
  have r: "ntile_val_int (of_nat q) False (counts (of_nat n) (of_nat (Suc i)) old) =
      Some (None, False, of_nat (bucket n q (Suc i)), counts (of_nat n) (of_nat (Suc i)) (of_nat q))"
    by (rule ntile_val_bucket [OF n q]) (use Suc.prems in auto)
  have "ntile_rows (of_nat q) k (counts (of_nat n) (of_nat (Suc i)) (of_nat q)) =
      Some (map (\<lambda>i. of_nat (bucket n q i)) [Suc (Suc i)..<Suc n])"
    by (rule Suc.IH) (use Suc.prems in auto)
  moreover have "[Suc i..<Suc n] = Suc i # [Suc (Suc i)..<Suc n]" using Suc.prems(1) by (simp add: upt_conv_Cons)
  ultimately show ?case using r by (simp add: count_counts add.commute del: upt_Suc)
qed

section \<open>The rows of a percentile\<close>

fun present :: "'v option list \<Rightarrow> 'v list" where
  "present [] = []"
| "present (None # os) = present os"
| "present (Some v # os) = v # present os"

text \<open>A pass over the rows, which ends at an error.\<close>

fun run_rows :: "('v option \<Rightarrow> 's \<Rightarrow> wf_error option \<times> 's) \<Rightarrow> 'v option list \<Rightarrow> 's \<Rightarrow> wf_error option \<times> 's" where
  "run_rows add [] st = (None, st)"
| "run_rows add (v # vs) st =
     (case add v st of (None, st) \<Rightarrow> run_rows add vs st | (Some err, st) \<Rightarrow> (Some err, st))"

text \<open>
  What is needed of doubles for \<open>n\<close> rows and the fraction \<open>p\<close>: the quotient of two counts grows with the
  first one and reaches \<open>p\<close> at the last row.
\<close>

definition ratio :: "'d double_ops \<Rightarrow> nat \<Rightarrow> nat \<Rightarrow> 'd" where
  "ratio dd k n = d_divide dd (d_of_ulonglong dd (of_nat k)) (d_of_ulonglong dd (of_nat n))"

definition disc_law :: "('d :: linorder) double_ops \<Rightarrow> 'd \<Rightarrow> nat \<Rightarrow> bool" where
  "disc_law dd p n \<longleftrightarrow> d_of_ulonglong dd 0 \<le> p \<and> p \<le> d_of_ulonglong dd 1 \<and> p \<le> ratio dd n n"

text \<open>While no value is found, and after that.\<close>

definition searching :: "('d :: linorder) double_ops \<Rightarrow> 'd \<Rightarrow> nat \<Rightarrow> nat \<Rightarrow> ('d, 'v) percentile_disc \<Rightarrow> bool" where
  "searching dd p n c st \<longleftrightarrow> partition_row_count st = of_nat n \<and> current_row_count st = of_nat c \<and>
     \<not> val_calculated st \<and> (disc_first_call st \<or> disc_prev_value st = p) \<and> (\<forall>j. 1 \<le> j \<and> j \<le> c \<longrightarrow> ratio dd j n < p)"

lemma disc_found:
  "val_calculated st \<Longrightarrow> \<not> disc_first_call st \<Longrightarrow> disc_prev_value st = p \<Longrightarrow>
   run_rows (disc_add dd (Some p)) os st = (None, st)"
  by (induction os) (simp_all add: disc_add_def)

lemma disc_add_none:
  assumes "searching dd p n c st" and "disc_law dd p n"
  shows "\<exists>st'. disc_add dd (Some p) None st = (None, st') \<and> searching dd p n c st'"
  using assms by (auto simp: disc_add_def searching_def disc_law_def Let_def not_less)

lemma disc_add_some:
  assumes s: "searching dd p n c st" and l: "disc_law dd p n" and n: "c < n" "n < 2 ^ 64"
  shows "\<exists>st'. disc_add dd (Some p) (Some v) st = (None, st') \<and>
    (if p \<le> ratio dd (Suc c) n
     then val_calculated st' \<and> \<not> disc_first_call st' \<and> disc_prev_value st' = p \<and> disc_value st' = Some v \<and>
       partition_row_count st' = of_nat n
     else searching dd p n (Suc c) st')"
proof -
  have n0: "(of_nat n :: ulonglong) \<noteq> 0" using u64 [of n] n by auto
  show ?thesis
  proof (cases "p \<le> ratio dd (Suc c) n")
    case True
    then show ?thesis using s l n0
      by (auto simp: add.commute disc_add_def searching_def disc_law_def Let_def not_less calc_val_real_def ratio_def)
  next
    case False
    have "ratio dd j n < p" if "1 \<le> j" "j \<le> Suc c" for j
      using that s False by (cases "j = Suc c") (auto simp: searching_def)
    then show ?thesis using False s l n0
      by (auto simp: add.commute disc_add_def searching_def disc_law_def Let_def not_less calc_val_real_def ratio_def)
  qed
qed

lemma disc_run:
  assumes l: "disc_law dd p n" and n: "n < 2 ^ 64"
  shows "searching dd p n c st \<Longrightarrow> c + length (present os) = n \<Longrightarrow> c < n \<Longrightarrow>
    \<exists>st' k. run_rows (disc_add dd (Some p)) os st = (None, st') \<and> c < k \<and> k \<le> n \<and> p \<le> ratio dd k n \<and>
      (\<forall>j. 1 \<le> j \<and> j < k \<longrightarrow> ratio dd j n < p) \<and> disc_value st' = Some (present os ! (k - Suc c)) \<and>
      partition_row_count st' = of_nat n"
proof (induction os arbitrary: c st)
  case Nil
  then show ?case by simp
next
  case (Cons x os)
  show ?case
  proof (cases x)
    case None
    obtain st1 where "disc_add dd (Some p) None st = (None, st1)" "searching dd p n c st1"
      using disc_add_none [OF Cons.prems(1) l] by blast
    then show ?thesis using Cons.IH [of c st1] Cons.prems(2,3) None by simp
  next
    case (Some v)
    obtain st1 where st1: "disc_add dd (Some p) (Some v) st = (None, st1)"
      "if p \<le> ratio dd (Suc c) n
       then val_calculated st1 \<and> \<not> disc_first_call st1 \<and> disc_prev_value st1 = p \<and> disc_value st1 = Some v \<and>
         partition_row_count st1 = of_nat n
       else searching dd p n (Suc c) st1"
      using disc_add_some [OF Cons.prems(1) l Cons.prems(3) n] by blast
    show ?thesis
    proof (cases "p \<le> ratio dd (Suc c) n")
      case True
      have "\<forall>j. 1 \<le> j \<and> j < Suc c \<longrightarrow> ratio dd j n < p" using Cons.prems(1) by (simp add: searching_def)
      then show ?thesis using True st1 disc_found [of st1 p dd os] Cons.prems(3) Some
        by (intro exI [of _ st1] exI [of _ "Suc c"]) simp
    next
      case False
      have "Suc c < n"
      proof (rule ccontr)
        assume "\<not> Suc c < n"
        then have "Suc c = n" using Cons.prems(3) by simp
        then show False using False l by (simp add: disc_law_def)
      qed
      then obtain st' k where k: "run_rows (disc_add dd (Some p)) os st1 = (None, st')" "Suc c < k" "k \<le> n"
        "p \<le> ratio dd k n" "\<forall>j. 1 \<le> j \<and> j < k \<longrightarrow> ratio dd j n < p"
        "disc_value st' = Some (present os ! (k - Suc (Suc c)))" "partition_row_count st' = of_nat n"
        using Cons.IH [of "Suc c" st1] st1(2) False Cons.prems(2) Some by auto
      have "present (x # os) ! (k - Suc c) = present os ! (k - Suc (Suc c))"
        using k(2) Some by (simp add: nth_Cons')
      then show ?thesis using k st1(1) Some
        by (intro exI [of _ st'] exI [of _ k]) simp
    qed
  qed
qed

text \<open>
  For the other percentile: the position of the value lies between the rows \<open>f\<close> and \<open>g\<close>, and row numbers are
  exact as doubles.
\<close>

definition cont_law :: "('d :: linorder) double_ops \<Rightarrow> 'd \<Rightarrow> nat \<Rightarrow> nat \<Rightarrow> nat \<Rightarrow> bool" where
  "cont_law dd p n f g \<longleftrightarrow> d_of_ulonglong dd 0 \<le> p \<and> p \<le> d_of_ulonglong dd 1 \<and>
     1 \<le> f \<and> f \<le> g \<and> g \<le> Suc f \<and> g \<le> n \<and>
     (let val = d_plus dd (d_of_ulonglong dd 1) (d_times dd p (d_of_longlong dd (of_nat n - 1)))
      in d_floor dd val = d_of_ulonglong dd (of_nat f) \<and> d_ceil dd val = d_of_ulonglong dd (of_nat g)) \<and>
     (\<forall>i j. i \<le> n \<and> j \<le> n \<and> d_of_ulonglong dd (of_nat i) = d_of_ulonglong dd (of_nat j) \<longrightarrow> i = j)"

text \<open>After \<open>c\<close> rows with the values \<open>vs\<close>: before the upper row is read, and after that.\<close>

definition cont_searching :: "nat \<Rightarrow> 'd \<Rightarrow> nat \<Rightarrow> 'd list \<Rightarrow> nat \<Rightarrow> 'd percentile_cont \<Rightarrow> bool" where
  "cont_searching n p f vs c st \<longleftrightarrow> partition_row_count st = of_nat n \<and> current_row_count st = of_nat c \<and>
     (cont_first_call st \<or> cont_prev_value st = p) \<and> \<not> ceil_val_calculated st \<and>
     (floor_val_calculated st \<longleftrightarrow> f \<le> c) \<and> (f \<le> c \<longrightarrow> floor_value st = Some (vs ! (f - 1)))"

definition cont_done :: "nat \<Rightarrow> 'd \<Rightarrow> nat \<Rightarrow> nat \<Rightarrow> 'd list \<Rightarrow> 'd percentile_cont \<Rightarrow> bool" where
  "cont_done n p f g vs st \<longleftrightarrow> partition_row_count st = of_nat n \<and> \<not> cont_first_call st \<and> cont_prev_value st = p \<and>
     floor_val_calculated st \<and> ceil_val_calculated st \<and> floor_value st = Some (vs ! (f - 1)) \<and>
     (f \<noteq> g \<longrightarrow> ceil_value st = Some (vs ! (g - 1)))"

lemma cont_add_done:
  assumes "cont_done n p f g vs st"
  shows "\<exists>st'. cont_add dd (Some p) x st = (None, st') \<and> cont_done n p f g vs st'"
  using assms by (auto simp: cont_add_def cont_done_def Let_def)

lemma cont_run_done:
  "cont_done n p f g vs st \<Longrightarrow> \<exists>st'. run_rows (cont_add dd (Some p)) os st = (None, st') \<and> cont_done n p f g vs st'"
proof (induction os arbitrary: st)
  case (Cons x os)
  then show ?case using cont_add_done [OF Cons.prems, of dd x] by auto
qed simp

lemma cont_add_none:
  assumes "cont_searching n p f vs c st" and "cont_law dd p n f g"
  shows "\<exists>st'. cont_add dd (Some p) None st = (None, st') \<and> cont_searching n p f vs c st'"
  using assms by (auto simp: cont_add_def cont_searching_def cont_law_def Let_def not_less)

lemma cont_add_some:
  assumes s: "cont_searching n p f vs c st" and l: "cont_law dd p n f g" and c: "c < g"
  shows "\<exists>st'. cont_add dd (Some p) (Some (vs ! c)) st = (None, st') \<and>
    (if Suc c = g then cont_done n p f g vs st' else cont_searching n p f vs (Suc c) st')"
proof -
  let ?val = "d_plus dd (d_of_ulonglong dd 1) (d_times dd p (d_of_longlong dd (of_nat n - 1)))"
  have num: "d_of_ulonglong dd (1 + of_nat c) = d_floor dd ?val \<longleftrightarrow> Suc c = f"
    "d_of_ulonglong dd (1 + of_nat c) = d_ceil dd ?val \<longleftrightarrow> Suc c = g"
  proof -
    have "1 + of_nat c = (of_nat (Suc c) :: ulonglong)" by simp
    then show "d_of_ulonglong dd (1 + of_nat c) = d_floor dd ?val \<longleftrightarrow> Suc c = f"
      "d_of_ulonglong dd (1 + of_nat c) = d_ceil dd ?val \<longleftrightarrow> Suc c = g"
      using l c unfolding cont_law_def Let_def by (metis Suc_leI le_trans)+
  qed
  have p01: "\<not> p > d_of_ulonglong dd 1" "\<not> p < d_of_ulonglong dd 0" using l by (auto simp: cont_law_def)
  have fg: "1 \<le> f" "f \<le> g" "g \<le> Suc f" using l by (simp_all add: cont_law_def)
  show ?thesis
  proof (cases "f \<le> c")
    case True
    then have "Suc c = g" "c = f" using fg c by simp_all
    then show ?thesis using s num p01 fg True
      by (auto simp: cont_add_def cont_searching_def cont_done_def cont_position_def get_row_count_def
        get_row_number_def Let_def add.commute)
  next
    case False
    have fc: "f - 1 = c" if "Suc c = f" using that by simp
    show ?thesis using s num p01 fg False c fc
      by (auto simp: cont_add_def cont_searching_def cont_done_def cont_position_def get_row_count_def
        get_row_number_def Let_def add.commute)
  qed
qed

lemma cont_run:
  assumes l: "cont_law dd p n f g"
  shows "cont_searching n p f vs c st \<Longrightarrow> c < g \<Longrightarrow> drop c vs = present os \<Longrightarrow> length vs = n \<Longrightarrow>
    \<exists>st'. run_rows (cont_add dd (Some p)) os st = (None, st') \<and> cont_done n p f g vs st'"
proof (induction os arbitrary: c st)
  case Nil
  then have "n \<le> c" by simp
  then show ?case using Nil.prems(2) l by (simp add: cont_law_def)
next
  case (Cons x os)
  show ?case
  proof (cases x)
    case None
    then show ?thesis using cont_add_none [OF Cons.prems(1) l] Cons.IH [of c] Cons.prems(2-4) by auto
  next
    case (Some v)
    have d: "drop c vs = v # present os" using Cons.prems(3) Some by simp
    then have v: "v = vs ! c" "drop (Suc c) vs = present os"
      by (metis Cons_nth_drop_Suc drop_eq_Nil linorder_not_less list.distinct(1) list.inject)+
    obtain st1 where st1: "cont_add dd (Some p) (Some (vs ! c)) st = (None, st1)"
      "if Suc c = g then cont_done n p f g vs st1 else cont_searching n p f vs (Suc c) st1"
      using cont_add_some [OF Cons.prems(1) l Cons.prems(2)] by blast
    show ?thesis
    proof (cases "Suc c = g")
      case True
      then show ?thesis using st1 cont_run_done [of n p f g vs st1 dd os] Some v by simp
    next
      case False
      then show ?thesis using st1 Cons.IH [of "Suc c" st1] v(2) Cons.prems(2,4) Some v(1) by simp
    qed
  qed
qed

section \<open>Properties\<close>

lemma ntile_start: "set_partition_row_count (of_nat n) (ntile_clear st) = counts (of_nat n) (of_nat 0) 0"
  by (rule ntile.equality) (simp_all add: set_partition_row_count_def ntile_clear_def counts_def)

text \<open>
  C23. NTILE distributes the rows of a partition as the standard asks for: over a whole pass the values are
  the numbers of \<open>q\<close> consecutive buckets, the first \<open>n mod q\<close> of them with one row more than the others,
  computed on 64-bit words without overflow or division by zero, also when there are more buckets than
  rows. An argument that is not positive, or that has changed since the last row, is reported as an error.
\<close>
theorem ntile_distributes_rows:
  "(0 < n \<and> n < 2 ^ 63 \<and> 0 < q \<and> q < 2 ^ 63 \<longrightarrow>
    ntile_rows (of_nat q) n (set_partition_row_count (of_nat n) (ntile_clear st)) =
      Some (map (\<lambda>i. of_nat (bucket n q i)) [1..<Suc n]) \<and>
    (\<forall>i. 1 \<le> i \<and> i \<le> n \<longrightarrow> 1 \<le> bucket n q i \<and> bucket n q i \<le> q) \<and>
    (\<forall>b. 1 \<le> b \<and> b \<le> q \<longrightarrow>
      {i. 1 \<le> i \<and> i \<le> n \<and> bucket n q i = b} = {bucket_start n q b <.. bucket_start n q b + bucket_size n q b})) \<and>
   (\<forall>num null_value st'. partition_row_count st' \<noteq> 0 \<and>
      (sint num \<le> 0 \<or> num \<noteq> n_old_val st' \<and> n_old_val st' > 0) \<longrightarrow>
      ntile_val_int num null_value st' = Some (Some ER_INVALID_NTILE_ARGUMENT, null_value, 1, st'))"
proof (intro conjI impI allI)
  assume h: "0 < n \<and> n < 2 ^ 63 \<and> 0 < q \<and> q < 2 ^ 63"
  show "ntile_rows (of_nat q) n (set_partition_row_count (of_nat n) (ntile_clear st)) =
      Some (map (\<lambda>i. of_nat (bucket n q i)) [1..<Suc n])"
    using ntile_rows_from [of n q 0 n 0] h by (simp add: ntile_start)
  show "1 \<le> bucket n q i" "bucket n q i \<le> q" if "1 \<le> i \<and> i \<le> n" for i
    using bucket_range [of q i n] h that by simp_all
  show "{i. 1 \<le> i \<and> i \<le> n \<and> bucket n q i = b} = {bucket_start n q b <.. bucket_start n q b + bucket_size n q b}"
    if "1 \<le> b \<and> b \<le> q" for b using bucket_set [of q b n] h that by simp
next
  show "ntile_val_int num null_value st' = Some (Some ER_INVALID_NTILE_ARGUMENT, null_value, 1, st')"
    if "partition_row_count st' \<noteq> 0 \<and> (sint num \<le> 0 \<or> num \<noteq> n_old_val st' \<and> n_old_val st' > 0)"
    for num null_value st' using that by (auto simp: ntile_val_int_def get_row_count_def)
qed

text \<open>
  C24. PERCENTILE_DISC selects the first value whose cumulative distribution reaches the fraction: when the
  partition has \<open>n\<close> rows that are not NULL, wherever the NULLs are, the pass reports no error and the value
  is that of the first row \<open>k\<close> with \<open>k / n\<close> not below the fraction. A NULL fraction gives NULL, one outside
  of 0 to 1 and one that changes are errors.
\<close>
theorem percentile_disc_selects:
  "(disc_law dd p n \<and> 1 \<le> n \<and> n < 2 ^ 64 \<and> length (present rows) = n \<longrightarrow>
    (\<exists>st' k. run_rows (disc_add dd (Some p)) rows (set_partition_row_count (of_nat n) (disc_clear st)) = (None, st') \<and>
      1 \<le> k \<and> k \<le> n \<and> p \<le> ratio dd k n \<and> (\<forall>j. 1 \<le> j \<and> j < k \<longrightarrow> ratio dd j n < p) \<and>
      disc_val the zero (Some p) st' = (False, present rows ! (k - 1)))) \<and>
   disc_val the zero None st = (True, zero) \<and>
   (disc_first_call st \<and> (p < d_of_ulonglong dd 0 \<or> d_of_ulonglong dd 1 < p) \<longrightarrow>
     fst (disc_add dd (Some p) x st) = Some ER_ARGUMENT_OUT_OF_RANGE) \<and>
   (\<not> disc_first_call st \<and> disc_prev_value st \<noteq> p \<longrightarrow>
     disc_add dd (Some p) x st = (Some ER_ARGUMENT_NOT_CONSTANT, st))"
proof (intro conjI impI)
  assume h: "disc_law dd p n \<and> 1 \<le> n \<and> n < 2 ^ 64 \<and> length (present rows) = n"
  then have a: "disc_law dd p n" "n < 2 ^ 64" "0 + length (present rows) = n" "0 < n" by simp_all
  have s: "searching dd p n 0 (set_partition_row_count (of_nat n) (disc_clear st))"
    by (simp add: searching_def set_partition_row_count_def disc_clear_def)
  from disc_run [OF a(1,2) s a(3,4)]
  obtain st' k where k: "run_rows (disc_add dd (Some p)) rows (set_partition_row_count (of_nat n) (disc_clear st)) = (None, st')"
    "0 < k" "k \<le> n" "p \<le> ratio dd k n" "\<forall>j. 1 \<le> j \<and> j < k \<longrightarrow> ratio dd j n < p"
    "disc_value st' = Some (present rows ! (k - Suc 0))" "partition_row_count st' = of_nat n" by blast
  have "(of_nat n :: ulonglong) \<noteq> 0" using u64 [of n] h by auto
  then show "\<exists>st' k. run_rows (disc_add dd (Some p)) rows (set_partition_row_count (of_nat n) (disc_clear st)) = (None, st') \<and>
      1 \<le> k \<and> k \<le> n \<and> p \<le> ratio dd k n \<and> (\<forall>j. 1 \<le> j \<and> j < k \<longrightarrow> ratio dd j n < p) \<and>
      disc_val the zero (Some p) st' = (False, present rows ! (k - 1))"
    using k by (intro exI [of _ st'] exI [of _ k]) (simp add: disc_val_def get_row_count_def)
qed (auto simp: disc_val_def disc_add_def Let_def)

text \<open>
  PERCENTILE_CONT interpolates: when its position \<open>1 + p * (n - 1)\<close> lies between the rows \<open>f\<close> and \<open>g\<close>
  of the \<open>n\<close> rows that are not NULL, the value is that of row \<open>f\<close> if they are the same, and else the
  sum of both values weighted with the distance of the position to the other row.
\<close>
theorem percentile_cont_interpolates:
  "cont_law dd p n f g \<and> n < 2 ^ 64 \<and> length (present rows) = n \<longrightarrow>
    (\<exists>st'. run_rows (cont_add dd (Some p)) rows (set_partition_row_count (of_nat n) (cont_clear st)) = (None, st') \<and>
      cont_val_real dd the (Some p) st' =
        (let val = d_plus dd (d_of_ulonglong dd 1) (d_times dd p (d_of_longlong dd (of_nat n - 1)))
         in (False, if f = g then present rows ! (f - 1)
            else d_plus dd (d_times dd (d_minus dd val (d_floor dd val)) (present rows ! (g - 1)))
                   (d_times dd (d_minus dd (d_ceil dd val) val) (present rows ! (f - 1))))))"
proof (rule impI)
  assume h: "cont_law dd p n f g \<and> n < 2 ^ 64 \<and> length (present rows) = n"
  then have l: "cont_law dd p n f g" by simp
  then have fg: "1 \<le> f" "f \<le> g" "g \<le> n" by (simp_all add: cont_law_def)
  let ?val = "d_plus dd (d_of_ulonglong dd 1) (d_times dd p (d_of_longlong dd (of_nat n - 1)))"
  have "cont_searching n p f (present rows) 0 (set_partition_row_count (of_nat n) (cont_clear st))"
    using fg by (simp add: cont_searching_def set_partition_row_count_def cont_clear_def)
  then obtain st' where st': "run_rows (cont_add dd (Some p)) rows (set_partition_row_count (of_nat n) (cont_clear st)) = (None, st')"
    "cont_done n p f g (present rows) st'"
    using cont_run [OF l, of "present rows" 0 _ rows] fg h by auto
  have "(of_nat n :: ulonglong) \<noteq> 0" using u64 [of n] h fg by auto
  moreover have "d_ceil dd ?val = d_floor dd ?val \<longleftrightarrow> f = g"
    using l fg unfolding cont_law_def Let_def by (metis le_trans)
  ultimately show "\<exists>st'. run_rows (cont_add dd (Some p)) rows (set_partition_row_count (of_nat n) (cont_clear st)) = (None, st') \<and>
      cont_val_real dd the (Some p) st' =
        (let val = ?val
         in (False, if f = g then present rows ! (f - 1)
            else d_plus dd (d_times dd (d_minus dd val (d_floor dd val)) (present rows ! (g - 1)))
                   (d_times dd (d_minus dd (d_ceil dd val) val) (present rows ! (f - 1)))))"
    using st' by (intro exI [of _ st']) (auto simp: cont_val_real_def cont_done_def cont_position_def get_row_count_def Let_def)
qed

text \<open>The values in the three phases of a query.\<close>

lemma window_func_phases:
  "wf_val_int (set_phase_to_initial st) field func = (True, 0)"
  "wf_val_int (set_phase_to_computation st) field func = func"
  "wf_val_int (set_phase_to_retrieval st) field func = field"
  "wf_is_null (set_phase_to_initial st) field_null func_null"
  "wf_is_null (set_phase_to_computation st) field_null func_null = func_null"
  "wf_is_null (set_phase_to_retrieval st) field_null func_null = field_null"
  by (simp_all add: wf_val_int_def wf_val_number_def wf_is_null_def set_phase_to_initial_def
      set_phase_to_computation_def set_phase_to_retrieval_def)

text \<open>Exact arithmetic as an example of doubles.\<close>

definition exact_doubles :: "rat double_ops" where
  "exact_doubles = \<lparr>d_of_ulonglong = (\<lambda>n. of_nat (unat n)), d_of_longlong = (\<lambda>n. of_int (sint n)),
     d_plus = (+), d_minus = (-), d_times = (*), d_divide = (/),
     d_floor = (\<lambda>x. of_int \<lfloor>x\<rfloor>), d_ceil = (\<lambda>x. of_int \<lceil>x\<rceil>)\<rparr>"

theorem ntile_distributes_rows_witness:
  "ntile_rows 3 5 (set_partition_row_count 5 (ntile_clear (counts 0 0 0))) = Some [1, 1, 2, 2, 3]"
proof -
  have "ntile_rows (of_nat 3) 5 (set_partition_row_count (of_nat 5) (ntile_clear (counts 0 0 0))) =
      Some (map (\<lambda>i. of_nat (bucket 5 3 i)) [1..<Suc 5])"
    using ntile_distributes_rows [of 5 3 "counts 0 0 0"] by simp
  moreover have "map (\<lambda>i. of_nat (bucket 5 3 i)) [1..<Suc 5] = [1, 1, 2, 2, 3 :: longlong]"
    by code_simp
  ultimately show ?thesis by simp
qed

definition sample_disc :: "(rat, int) percentile_disc" where
  "sample_disc = \<lparr>partition_row_count = 0, current_row_count = 0, disc_value = None, val_calculated = True,
     disc_first_call = False, disc_prev_value = 0\<rparr>"

theorem percentile_disc_selects_witness:
  "\<exists>st' k. run_rows (disc_add exact_doubles (Some (1 / 2))) [None, Some 10, Some 20]
      (set_partition_row_count (of_nat 2) (disc_clear sample_disc)) = (None, st') \<and>
    1 \<le> k \<and> k \<le> 2 \<and> disc_val the 0 (Some (1 / 2)) st' = (False, [10, 20] ! (k - 1))"
proof -
  have "disc_law exact_doubles (1 / 2) 2" by (simp add: disc_law_def exact_doubles_def ratio_def)
  then show ?thesis
    using percentile_disc_selects [of exact_doubles "1 / 2" 2 "[None, Some 10, Some 20]" sample_disc 0 None] by auto
qed

definition sample_cont :: "rat percentile_cont" where
  "sample_cont = \<lparr>partition_row_count = 0, current_row_count = 0, floor_value = None, ceil_value = None,
     cont_first_call = False, cont_prev_value = 0, ceil_val_calculated = True, floor_val_calculated = True\<rparr>"

theorem percentile_cont_interpolates_witness:
  "\<exists>st'. run_rows (cont_add exact_doubles (Some (1 / 2))) [Some 10, None, Some 20]
      (set_partition_row_count (of_nat 2) (cont_clear sample_cont)) = (None, st') \<and>
    cont_val_real exact_doubles the (Some (1 / 2)) st' = (False, 15)"
proof -
  have small: "i \<le> 2 \<longleftrightarrow> i = 0 \<or> i = 1 \<or> i = (2 :: nat)" for i by auto
  have fl: "\<lfloor>3 / 2 :: rat\<rfloor> = 1" "\<lceil>3 / 2 :: rat\<rceil> = 2" by (simp_all add: floor_unique ceiling_unique)
  have "cont_law exact_doubles (1 / 2) 2 1 2"
    unfolding cont_law_def small by (auto simp: exact_doubles_def fl Let_def)
  then show ?thesis
    using percentile_cont_interpolates [of exact_doubles "1 / 2" 2 1 2 "[Some 10, None, Some 20]" sample_cont]
    by (auto simp: exact_doubles_def fl Let_def)
qed

end
