(* ===== verification/Sql_Statistics.thy ===== *)
theory Sql_Statistics
  imports Byte_Order
begin

text \<open>
  Engine-independent statistics: \<^verbatim>\<open>sql_statistics.h\<close>. The height-balanced histogram of a column
  with its search for the bucket of a value, the counters a histogram builder feeds, and the
  statistics kept of a column and of the prefixes of an index.

  A histogram is its type, the size in bytes and the bytes of \<^verbatim>\<open>values\<close>, as a memory addressed
  from that pointer. Floating point numbers are a type variable: \<^verbatim>\<open>(T) (x * factor)\<close> is the
  parameter \<^verbatim>\<open>conv\<close>, the product with its fraction discarded, as an integer; the conversion to an
  unsigned type \<^verbatim>\<open>T\<close> is undefined in C when that integer is not a value of \<^verbatim>\<open>T\<close>, which is
  \<^const>\<open>None\<close> here. \<^verbatim>\<open>(double) n / factor\<close> is the parameter \<^verbatim>\<open>quot\<close>. An index outside of the
  array is \<^const>\<open>None\<close> too: it breaks the assertion of \<^verbatim>\<open>get_value\<close>, and a build without
  assertions accesses memory behind the histogram. The positions \<^verbatim>\<open>lp\<close>, \<^verbatim>\<open>rp\<close>, \<^verbatim>\<open>d\<close> and \<^verbatim>\<open>i\<close> of
  the search are natural numbers: a histogram has at most some hundred buckets, so the \<^verbatim>\<open>int\<close> and
  \<^verbatim>\<open>uint\<close> of the code do not wrap.
\<close>

section \<open>Modes and types\<close>

datatype use_stat_tables_mode =
  NEVER | COMPLEMENTARY | PREFERABLY | COMPLEMENTARY_FOR_QUERIES | PREFERABLY_FOR_QUERIES

definition check_eits_collection_allowed :: "use_stat_tables_mode \<Rightarrow> bool" where
  "check_eits_collection_allowed m \<longleftrightarrow> m = COMPLEMENTARY \<or> m = PREFERABLY"

definition check_eits_preferred :: "use_stat_tables_mode \<Rightarrow> bool" where
  "check_eits_preferred m \<longleftrightarrow> m = PREFERABLY \<or> m = PREFERABLY_FOR_QUERIES"

datatype histogram_type = SINGLE_PREC_HB | DOUBLE_PREC_HB | JSON_HB | INVALID_HISTOGRAM

text \<open>The level of \<^verbatim>\<open>optimizer_use_condition_selectivity\<close> from which histograms are used.\<close>

definition hist_is_usable :: "ulonglong \<Rightarrow> bool" where
  "hist_is_usable level \<longleftrightarrow> level > 3"

text \<open>The conversion of a truncated product to an unsigned type of \<open>w\<close> bits.\<close>

definition to_unsigned :: "nat \<Rightarrow> int \<Rightarrow> ulonglong option" where
  "to_unsigned w t = (if 0 \<le> t \<and> t < 2 ^ w then Some (word_of_int t) else None)"

section \<open>The height-balanced histogram\<close>

record histogram_binary =
  hb_type :: histogram_type
  hb_size :: ulonglong
  hb_values :: memory

fun prec_factor :: "histogram_type \<Rightarrow> uint" where
  "prec_factor SINGLE_PREC_HB = push_bit 8 1 - 1"
| "prec_factor DOUBLE_PREC_HB = push_bit 16 1 - 1"
| "prec_factor _ = 1"

definition hb_width :: "histogram_binary \<Rightarrow> uint" where
  "hb_width h = (case hb_type h of
     SINGLE_PREC_HB \<Rightarrow> ucast (hb_size h)
   | DOUBLE_PREC_HB \<Rightarrow> ucast (hb_size h div 2)
   | _ \<Rightarrow> 0)"

definition hb_get_value :: "histogram_binary \<Rightarrow> nat \<Rightarrow> uint option" where
  "hb_get_value h i =
     (if i < unat (hb_width h) then
        (case hb_type h of
           SINGLE_PREC_HB \<Rightarrow> Some (ucast (hb_values h i))
         | DOUBLE_PREC_HB \<Rightarrow> Some (ucast (uint2korr (hb_values h) (i * 2)))
         | _ \<Rightarrow> Some 0)
      else None)"

definition hb_get_size :: "histogram_binary \<Rightarrow> uint" where
  "hb_get_size h = ucast (hb_size h)"

text \<open>
  The writers carry no assertion; \<^const>\<open>None\<close> is a write outside of the array. The two bytes of
  a value of double precision are stored low byte first.
\<close>

definition hb_set_value ::
    "('d \<Rightarrow> uint \<Rightarrow> int) \<Rightarrow> histogram_binary \<Rightarrow> nat \<Rightarrow> 'd \<Rightarrow> histogram_binary option" where
  "hb_set_value conv h i val =
     (case hb_type h of
        SINGLE_PREC_HB \<Rightarrow>
          (case to_unsigned 8 (conv val (prec_factor (hb_type h))) of
             None \<Rightarrow> None
           | Some v \<Rightarrow>
               if i < unat (hb_size h)
               then Some (h\<lparr>hb_values := (hb_values h)(i := ucast v)\<rparr>) else None)
      | DOUBLE_PREC_HB \<Rightarrow>
          (case to_unsigned 16 (conv val (prec_factor (hb_type h))) of
             None \<Rightarrow> None
           | Some v \<Rightarrow>
               if i * 2 + 1 < unat (hb_size h)
               then Some (h\<lparr>hb_values := int2store (hb_values h) (i * 2) v\<rparr>) else None)
      | _ \<Rightarrow> Some h)"

definition hb_set_prev_value :: "histogram_binary \<Rightarrow> nat \<Rightarrow> histogram_binary option" where
  "hb_set_prev_value h i =
     (case hb_type h of
        SINGLE_PREC_HB \<Rightarrow>
          if 0 < i \<and> i < unat (hb_size h)
          then Some (h\<lparr>hb_values := (hb_values h)(i := hb_values h (i - 1))\<rparr>) else None
      | DOUBLE_PREC_HB \<Rightarrow>
          if 0 < i \<and> i * 2 + 1 < unat (hb_size h)
          then Some (h\<lparr>hb_values :=
                 int2store (hb_values h) (i * 2) (ucast (uint2korr (hb_values h) (i * 2 - 2)))\<rparr>)
          else None
      | _ \<Rightarrow> Some h)"

subsection \<open>The search for a bucket\<close>

text \<open>
  The first loop of \<^verbatim>\<open>find_bucket\<close> halves the range from \<^verbatim>\<open>lp\<close> to \<^verbatim>\<open>rp\<close>; its value is the index
  \<^verbatim>\<open>i\<close> it leaves with.
\<close>

function hb_halve :: "histogram_binary \<Rightarrow> ulonglong \<Rightarrow> nat \<Rightarrow> nat \<Rightarrow> nat \<Rightarrow> nat option" where
  "hb_halve h val lp rp d =
     (let i = lp + d in
      if d = 0 then Some i
      else case hb_get_value h i of
        None \<Rightarrow> None
      | Some x \<Rightarrow>
          if val = ucast x then Some i
          else if val < ucast x then hb_halve h val lp i ((i - lp) div 2)
          else case hb_get_value h (i + 1) of
            None \<Rightarrow> None
          | Some y \<Rightarrow>
              if val > ucast y then hb_halve h val (i + 1) rp ((rp - (i + 1)) div 2)
              else Some i)"
  by pat_completeness auto

text \<open>
  Neither the range nor the step alone shrinks in every round: the first step is half the width,
  not half the range.
\<close>

termination
  by (relation "measure (\<lambda>(h, val, lp, rp, d). 2 * max (rp - lp) d + of_bool (rp - lp \<le> d))")
    auto

fun hb_first_equal :: "histogram_binary \<Rightarrow> ulonglong \<Rightarrow> nat \<Rightarrow> nat option" where
  "hb_first_equal h val 0 = Some 0"
| "hb_first_equal h val (Suc i) =
     (case hb_get_value h i of
        None \<Rightarrow> None
      | Some x \<Rightarrow> if val = ucast x then hb_first_equal h val i else Some (Suc i))"

function hb_last_equal :: "histogram_binary \<Rightarrow> ulonglong \<Rightarrow> nat \<Rightarrow> nat option" where
  "hb_last_equal h val i =
     (if i + 1 < unat (hb_width h) then
        (case hb_get_value h (i + 1) of
           None \<Rightarrow> None
         | Some x \<Rightarrow> if val = ucast x then hb_last_equal h val (i + 1) else Some i)
      else Some i)"
  by pat_completeness auto
termination
  by (relation "measure (\<lambda>(h, val, i). unat (hb_width h) - i)") auto

text \<open>What follows the first loop: one step to the right, then the run of equal values.\<close>

definition hb_settle :: "histogram_binary \<Rightarrow> ulonglong \<Rightarrow> bool \<Rightarrow> nat \<Rightarrow> nat option" where
  "hb_settle h val first i0 =
     (case hb_get_value h i0 of
        None \<Rightarrow> None
      | Some x \<Rightarrow>
          let i = (if val > ucast x \<and> i0 < unat (hb_width h - 1) then i0 + 1 else i0) in
          case hb_get_value h i of
            None \<Rightarrow> None
          | Some y \<Rightarrow>
              if val = ucast y
              then (if first then hb_first_equal h val i else hb_last_equal h val i)
              else Some i)"

definition hb_search :: "histogram_binary \<Rightarrow> ulonglong \<Rightarrow> bool \<Rightarrow> nat option" where
  "hb_search h val first =
     (let w = unat (hb_width h) in
      case hb_halve h val 0 (w - 1) (w div 2) of
        None \<Rightarrow> None
      | Some i \<Rightarrow> hb_settle h val first i)"

definition find_bucket ::
    "('d \<Rightarrow> uint \<Rightarrow> int) \<Rightarrow> histogram_binary \<Rightarrow> 'd \<Rightarrow> bool \<Rightarrow> nat option" where
  "find_bucket conv h pos first =
     (case to_unsigned 64 (conv pos (prec_factor (hb_type h))) of
        None \<Rightarrow> None
      | Some val \<Rightarrow> hb_search h val first)"


section \<open>The values of a histogram\<close>

text \<open>
  The abstraction: the list of the values, and what the search promises of it, as a scan from
  the left.
\<close>

definition hb_val :: "histogram_binary \<Rightarrow> nat \<Rightarrow> ulonglong" where
  "hb_val h i = (case hb_get_value h i of Some x \<Rightarrow> ucast x | None \<Rightarrow> 0)"

definition hb_list :: "histogram_binary \<Rightarrow> ulonglong list" where
  "hb_list h = map (hb_val h) [0..<unat (hb_width h)]"

definition scan_bucket :: "ulonglong list \<Rightarrow> ulonglong \<Rightarrow> bool \<Rightarrow> nat" where
  "scan_bucket vs val first =
     (if \<not> first \<and> val \<in> set vs then length (takeWhile (\<lambda>x. x \<le> val) vs) - 1
      else min (length vs - 1) (length (takeWhile (\<lambda>x. x < val) vs)))"

abbreviation W :: "histogram_binary \<Rightarrow> nat" where "W h \<equiv> unat (hb_width h)"

lemma length_hb_list [simp]: "length (hb_list h) = W h"
  by (simp add: hb_list_def)

lemma nth_hb_list [simp]: "i < W h \<Longrightarrow> hb_list h ! i = hb_val h i"
  by (simp add: hb_list_def)

lemma hb_get_value_None [simp]: "hb_get_value h i = None \<longleftrightarrow> W h \<le> i"
  by (auto simp: hb_get_value_def split: histogram_type.splits)

lemma hb_get_value_Some: "i < W h \<Longrightarrow> \<exists>x. hb_get_value h i = Some x \<and> ucast x = hb_val h i"
  by (cases "hb_get_value h i") (auto simp: hb_val_def)

lemma hb_sorted_mono: "sorted (hb_list h) \<Longrightarrow> i \<le> j \<Longrightarrow> j < W h \<Longrightarrow> hb_val h i \<le> hb_val h j"
  using sorted_nth_mono [of "hb_list h" i j] by simp

declare hb_halve.simps [simp del] hb_last_equal.simps [simp del]

text \<open>One round of the first loop, over the values.\<close>

lemma hb_halve_stop: "hb_halve h val lp rp 0 = Some lp"
  by (simp add: hb_halve.simps)

lemma hb_halve_round:
  assumes "0 < d" and "lp + d < W h"
  shows "hb_halve h val lp rp d =
     (if val = hb_val h (lp + d) then Some (lp + d)
      else if val < hb_val h (lp + d) then hb_halve h val lp (lp + d) (d div 2)
      else if W h \<le> lp + d + 1 then None
      else if val > hb_val h (lp + d + 1)
        then hb_halve h val (lp + d + 1) rp ((rp - (lp + d + 1)) div 2)
      else Some (lp + d))"
proof -
  obtain x where x: "hb_get_value h (lp + d) = Some x" "ucast x = hb_val h (lp + d)"
    using hb_get_value_Some assms by blast
  show ?thesis
  proof (cases "lp + d + 1 < W h")
    case True
    then obtain y where y: "hb_get_value h (lp + d + 1) = Some y" "ucast y = hb_val h (lp + d + 1)"
      using hb_get_value_Some by blast
    show ?thesis
      by (subst hb_halve.simps, use True assms(1) in \<open>simp only: x y Let_def option.case if_False\<close>)
        simp
  next
    case False
    then have y: "hb_get_value h (lp + d + 1) = None" by simp
    show ?thesis
      by (subst hb_halve.simps, use False assms(1) in \<open>simp only: x y Let_def option.case if_False\<close>)
        simp
  qed
qed

text \<open>
  The loop stays inside the array, and where it leaves, the value is found, lies between two
  neighbours, or is below all or above all of them.
\<close>

definition halve_range :: "histogram_binary \<Rightarrow> ulonglong \<Rightarrow> nat \<Rightarrow> nat \<Rightarrow> nat \<Rightarrow> bool" where
  "halve_range h val lp rp d \<longleftrightarrow>
     lp \<le> rp \<and> rp < W h \<and> (0 < d \<longrightarrow> lp + d < rp) \<and> (d = 0 \<longrightarrow> rp \<le> lp + 1) \<and>
     (0 < lp \<longrightarrow> hb_val h lp < val) \<and> (rp + 1 < W h \<longrightarrow> val < hb_val h rp)"

definition halve_found :: "histogram_binary \<Rightarrow> ulonglong \<Rightarrow> nat \<Rightarrow> bool" where
  "halve_found h val i \<longleftrightarrow>
     i < W h \<and> (hb_val h i = val \<or> (val < hb_val h i \<and> i = 0) \<or>
       (hb_val h i < val \<and> (i + 2 < W h \<longrightarrow> val \<le> hb_val h (i + 1))))"

lemma halve_range_left:
  assumes "halve_range h val lp rp d" and "0 < d" and "val < hb_val h (lp + d)"
  shows "halve_range h val lp (lp + d) (d div 2)"
  using assms by (auto simp: halve_range_def)

lemma halve_range_right:
  assumes "halve_range h val lp rp d" and "0 < d" and "hb_val h (lp + d + 1) < val"
  shows "halve_range h val (lp + d + 1) rp ((rp - (lp + d + 1)) div 2)"
  using assms by (auto simp: halve_range_def)

lemma halve_range_stop: "halve_range h val lp rp 0 \<Longrightarrow> halve_found h val lp"
  by (cases "rp = lp"; cases "rp = lp + 1"; cases "lp = 0"; cases "hb_val h lp" val rule: linorder_cases)
    (auto simp: halve_range_def halve_found_def intro: less_imp_le)

lemma hb_halve_found:
  "halve_range h val lp rp d \<Longrightarrow> \<exists>i. hb_halve h val lp rp d = Some i \<and> halve_found h val i"
proof (induction "rp - lp" arbitrary: lp rp d rule: less_induct)
  case less
  show ?case
  proof (cases "d = 0")
    case True
    then show ?thesis using less.prems halve_range_stop by (auto simp: hb_halve_stop)
  next
    case False
    then have r: "lp + d < rp" "rp < W h" using less.prems by (auto simp: halve_range_def)
    consider (eq) "val = hb_val h (lp + d)" | (lt) "val < hb_val h (lp + d)"
      | (gt) "hb_val h (lp + d) < val" "hb_val h (lp + d + 1) < val"
      | (mid) "hb_val h (lp + d) < val" "val \<le> hb_val h (lp + d + 1)"
      by (meson linorder_cases not_less)
    then show ?thesis
    proof cases
      case eq then show ?thesis using r False by (auto simp: hb_halve_round halve_found_def)
    next
      case lt
      then show ?thesis
        using less.hyps [of "lp + d" lp "d div 2"] halve_range_left [OF less.prems] r False
        by (auto simp: hb_halve_round)
    next
      case gt
      have "hb_halve h val lp rp d =
          hb_halve h val (lp + d + 1) rp ((rp - (lp + d + 1)) div 2)"
        using less_imp_neq [OF gt(1)] leD [OF less_imp_le [OF gt(1)]] gt(2) r False
        by (simp add: hb_halve_round not_le)
      moreover have "rp - (lp + d + 1) < rp - lp" using r by linarith
      ultimately show ?thesis
        using less.hyps halve_range_right [OF less.prems _ gt(2)] False by simp
    next
      case mid
      then have "hb_halve h val lp rp d = Some (lp + d)"
        using less_imp_neq [OF mid(1)] leD [OF less_imp_le [OF mid(1)]]
          leD [OF mid(2)] r False
        by (simp add: hb_halve_round not_le)
      then show ?thesis using mid r unfolding halve_found_def by (intro exI [of _ "lp + d"]) linarith
    qed
  qed
qed

lemma first_equal_run:
  assumes "i < W h" and "hb_val h i = val"
  shows "\<exists>k \<le> i. hb_first_equal h val i = Some k \<and> hb_val h k = val \<and>
     (0 < k \<longrightarrow> hb_val h (k - 1) \<noteq> val)"
  using assms
proof (induction i)
  case 0
  then show ?case by auto
next
  case (Suc i)
  obtain x where x: "hb_get_value h i = Some x" "ucast x = hb_val h i"
    using hb_get_value_Some [of i h] Suc.prems by auto
  show ?case
  proof (cases "hb_val h i = val")
    case True
    then obtain k where "k \<le> i" "hb_first_equal h val i = Some k" "hb_val h k = val"
        "0 < k \<longrightarrow> hb_val h (k - 1) \<noteq> val"
      using Suc.IH Suc.prems(1) by (metis Suc_lessD)
    then show ?thesis using x True by (auto intro!: exI [of _ k])
  next
    case False
    then show ?thesis using x Suc.prems by (auto intro!: exI [of _ "Suc i"])
  qed
qed

lemma last_equal_run:
  assumes "i < W h" and "hb_val h i = val"
  shows "\<exists>k \<ge> i. k < W h \<and> hb_last_equal h val i = Some k \<and> hb_val h k = val \<and>
     (k + 1 < W h \<longrightarrow> hb_val h (k + 1) \<noteq> val)"
  using assms
proof (induction "W h - i" arbitrary: i rule: less_induct)
  case less
  show ?case
  proof (cases "i + 1 < W h")
    case True
    then obtain x where x: "hb_get_value h (i + 1) = Some x" "ucast x = hb_val h (i + 1)"
      using hb_get_value_Some by blast
    show ?thesis
    proof (cases "hb_val h (i + 1) = val")
      case eq: True
      then obtain k where "i + 1 \<le> k" "k < W h" "hb_last_equal h val (i + 1) = Some k"
          "hb_val h k = val" "k + 1 < W h \<longrightarrow> hb_val h (k + 1) \<noteq> val"
        using less.hyps [of "i + 1"] True diff_less_mono2 [of i "i + 1" "W h"] by force
      then show ?thesis
        using x True eq by (subst hb_last_equal.simps) (auto intro!: exI [of _ k])
    next
      case False
      then show ?thesis
        using x True less.prems by (subst hb_last_equal.simps) (auto intro!: exI [of _ i])
    qed
  next
    case False
    then show ?thesis
      using less.prems by (subst hb_last_equal.simps) (auto intro!: exI [of _ i])
  qed
qed

text \<open>Where the scan of a sorted list stops.\<close>

lemma length_takeWhile_eqI:
  assumes "k \<le> length xs" and "\<And>j. j < k \<Longrightarrow> P (xs ! j)" and "k < length xs \<Longrightarrow> \<not> P (xs ! k)"
  shows "length (takeWhile P xs) = k"
proof -
  have "takeWhile P xs = take k xs"
    using assms by (intro takeWhile_eq_take_P_nth) auto
  then show ?thesis using assms(1) by simp
qed

lemma scan_first_eqI:
  assumes "sorted (hb_list h)" and "k < W h"
    and "0 < k \<longrightarrow> hb_val h (k - 1) < val" and "k + 1 < W h \<longrightarrow> val \<le> hb_val h k"
  shows "min (W h - 1) (length (takeWhile (\<lambda>x. x < val) (hb_list h))) = k"
proof -
  have below: "hb_val h j < val" if "j < k" for j
    using that assms hb_sorted_mono [OF assms(1), of j "k - 1"] by force
  show ?thesis
  proof (cases "hb_val h k < val")
    case True
    then have "k + 1 = W h" using assms by (metis Suc_eq_plus1 Suc_lessI leD)
    then have "length (takeWhile (\<lambda>x. x < val) (hb_list h)) = W h"
      using True below \<open>k + 1 = W h\<close> [symmetric]
      by (intro length_takeWhile_eqI) (auto simp: less_Suc_eq)
    then show ?thesis using \<open>k + 1 = W h\<close> by simp
  next
    case False
    then have "length (takeWhile (\<lambda>x. x < val) (hb_list h)) = k"
      using assms(2) below by (intro length_takeWhile_eqI) auto
    then show ?thesis using assms(2) by simp
  qed
qed

lemma scan_last_eqI:
  assumes "sorted (hb_list h)" and "k < W h" and "hb_val h k = val"
    and "k + 1 < W h \<longrightarrow> hb_val h (k + 1) \<noteq> val"
  shows "length (takeWhile (\<lambda>x. x \<le> val) (hb_list h)) - 1 = k"
proof -
  have "length (takeWhile (\<lambda>x. x \<le> val) (hb_list h)) = k + 1"
  proof (rule length_takeWhile_eqI)
    show "hb_list h ! j \<le> val" if "j < k + 1" for j
      using that assms hb_sorted_mono [OF assms(1), of j k] by auto
    show "\<not> hb_list h ! (k + 1) \<le> val" if "k + 1 < length (hb_list h)"
      using that assms hb_sorted_mono [OF assms(1), of k "k + 1"] by (auto simp: antisym)
  qed (use assms(2) in simp)
  then show ?thesis by simp
qed

definition settled :: "histogram_binary \<Rightarrow> ulonglong \<Rightarrow> nat \<Rightarrow> bool" where
  "settled h val i \<longleftrightarrow> i < W h \<and> (hb_val h i = val \<or> (hb_val h i < val \<and> i + 1 = W h) \<or>
     ((0 < i \<longrightarrow> hb_val h (i - 1) < val) \<and> (i + 1 < W h \<longrightarrow> val < hb_val h i)))"

lemma unat_width_minus: "0 < W h \<Longrightarrow> unat (hb_width h - 1) = W h - 1"
  by (simp add: unat_sub_if' Suc_leI)

lemma hb_settle_steps:
  assumes "halve_found h val i0"
  shows "\<exists>i. settled h val i \<and> hb_settle h val first i0 =
     (if hb_val h i = val
      then (if first then hb_first_equal h val i else hb_last_equal h val i) else Some i)"
proof -
  define i where "i = (if hb_val h i0 < val \<and> i0 < W h - 1 then i0 + 1 else i0)"
  have w: "i0 < W h" "i < W h" using assms by (auto simp: halve_found_def i_def)
  obtain x where x: "hb_get_value h i0 = Some x" "ucast x = hb_val h i0"
    using hb_get_value_Some w by blast
  obtain y where y: "hb_get_value h i = Some y" "ucast y = hb_val h i"
    using hb_get_value_Some w by blast
  have "unat (hb_width h - 1) = W h - 1" using w by (intro unat_width_minus) simp
  then have i: "(if val > ucast x \<and> i0 < unat (hb_width h - 1) then i0 + 1 else i0) = i"
    by (simp only: x(2) i_def)
  have "hb_settle h val first i0 =
     (if hb_val h i = val
      then (if first then hb_first_equal h val i else hb_last_equal h val i) else Some i)"
    unfolding hb_settle_def x(1) option.case Let_def i y by (simp only: eq_commute)
  moreover have "settled h val i"
    using assms by (auto simp: halve_found_def settled_def i_def not_less)
  ultimately show ?thesis by blast
qed

lemma settled_scan:
  assumes "sorted (hb_list h)" and "settled h val i" and "hb_val h i \<noteq> val"
  shows "i < W h" and "0 < i \<longrightarrow> hb_val h (i - 1) < val" and "i + 1 < W h \<longrightarrow> val < hb_val h i"
  using assms hb_sorted_mono [OF assms(1), of "i - 1" i] by (auto simp: settled_def)

lemma hb_settle_total:
  assumes "halve_found h val i0"
  shows "\<exists>k. hb_settle h val first i0 = Some k \<and> k < W h"
proof -
  obtain i where i: "settled h val i" "hb_settle h val first i0 =
     (if hb_val h i = val
      then (if first then hb_first_equal h val i else hb_last_equal h val i) else Some i)"
    using hb_settle_steps [OF assms] by blast
  then have w: "i < W h" by (simp add: settled_def)
  show ?thesis
    using i(2) w first_equal_run [OF w] last_equal_run [OF w]
    by (cases "hb_val h i = val"; cases first) fastforce+
qed

lemma hb_settle_scan:
  assumes s: "sorted (hb_list h)" and f: "halve_found h val i0"
  shows "hb_settle h val first i0 = Some (scan_bucket (hb_list h) val first)"
proof -
  obtain i where i: "settled h val i" "hb_settle h val first i0 =
     (if hb_val h i = val
      then (if first then hb_first_equal h val i else hb_last_equal h val i) else Some i)"
    using hb_settle_steps [OF f] by blast
  then have w: "i < W h" by (simp add: settled_def)
  show ?thesis
  proof (cases "hb_val h i = val")
    case True
    then have "val \<in> set (hb_list h)" using w by (auto simp: hb_list_def)
    show ?thesis
    proof (cases first)
      case f: True
      obtain k where k: "k \<le> i" "hb_first_equal h val i = Some k" "hb_val h k = val"
          "0 < k \<longrightarrow> hb_val h (k - 1) \<noteq> val"
        using first_equal_run [OF w True] by blast
      then have "0 < k \<longrightarrow> hb_val h (k - 1) < val"
        using hb_sorted_mono [OF s, of "k - 1" k] w by force
      then have "min (W h - 1) (length (takeWhile (\<lambda>x. x < val) (hb_list h))) = k"
        using k w by (intro scan_first_eqI [OF s]) auto
      then show ?thesis using i(2) True f k(2) by (simp add: scan_bucket_def)
    next
      case f: False
      obtain k where k: "k < W h" "hb_last_equal h val i = Some k" "hb_val h k = val"
          "k + 1 < W h \<longrightarrow> hb_val h (k + 1) \<noteq> val"
        using last_equal_run [OF w True] by blast
      then show ?thesis
        using i(2) True f \<open>val \<in> set (hb_list h)\<close> scan_last_eqI [OF s k(1,3,4)]
        by (simp add: scan_bucket_def)
    qed
  next
    case False
    note g = settled_scan [OF s i(1) False]
    have "hb_val h j \<noteq> val" if "j < W h" for j
    proof (cases "j < i")
      case True
      then have "hb_val h j \<le> hb_val h (i - 1)" using hb_sorted_mono [OF s, of j "i - 1"] w by simp
      then show ?thesis using g(2) True by auto
    next
      case ge: False
      then show ?thesis
        using hb_sorted_mono [OF s, of i j] g(3) that False by (cases "i = j") auto
    qed
    then have "val \<notin> set (hb_list h)" by (metis in_set_conv_nth length_hb_list nth_hb_list)
    moreover have "min (W h - 1) (length (takeWhile (\<lambda>x. x < val) (hb_list h))) = i"
      using g by (intro scan_first_eqI [OF s]) auto
    ultimately show ?thesis using i(2) False by (simp add: scan_bucket_def)
  qed
qed

lemma halve_range_start: "0 < W h \<Longrightarrow> W h \<noteq> 2 \<Longrightarrow> halve_range h val 0 (W h - 1) (W h div 2)"
  by (auto simp: halve_range_def)

section \<open>What the search returns\<close>

text \<open>A histogram of other than two buckets is searched inside of its array, sorted or not.\<close>

lemma hb_search_total:
  assumes "0 < W h" and "W h \<noteq> 2"
  shows "\<exists>i. hb_search h val first = Some i \<and> i < W h"
  using hb_halve_found [OF halve_range_start [OF assms], of val] hb_settle_total [of h val _ first]
  by (auto simp: hb_search_def)

lemma hb_search_scan:
  assumes "0 < W h" and "W h \<noteq> 2" and "sorted (hb_list h)"
  shows "hb_search h val first = Some (scan_bucket (hb_list h) val first)"
  using hb_halve_found [OF halve_range_start [OF assms(1,2)], of val] hb_settle_scan [OF assms(3)]
  by (auto simp: hb_search_def)

text \<open>
  With two buckets the first step is one, which is the whole range: a value above the last one
  makes the loop look at the value after the last.
\<close>

lemma hb_halve_two:
  assumes "W h = 2"
  shows "hb_halve h val 0 1 1 =
     (if val = hb_val h 1 then Some 1 else if val < hb_val h 1 then Some 0 else None)"
proof -
  have "hb_halve h val 0 1 1 =
      (if val = hb_val h 1 then Some 1
       else if val < hb_val h 1 then hb_halve h val 0 1 0
       else None)"
    using hb_halve_round [of 1 0 h val 1] assms by simp
  then show ?thesis by (simp add: hb_halve_stop)
qed

lemma two_below_found: "W h = 2 \<Longrightarrow> val < hb_val h 1 \<Longrightarrow> halve_found h val 0"
  by (cases "hb_val h 0" val rule: linorder_cases) (auto simp: halve_found_def)

lemma two_equal_found: "W h = 2 \<Longrightarrow> val = hb_val h 1 \<Longrightarrow> halve_found h val 1"
  by (auto simp: halve_found_def)

lemma hb_search_two:
  assumes "W h = 2" and "sorted (hb_list h)"
  shows "hb_search h val first =
     (if hb_val h 1 < val then None else Some (scan_bucket (hb_list h) val first))"
  using assms hb_halve_two [OF assms(1), of val] two_below_found [of h val]
    two_equal_found [of h val] hb_settle_scan [OF assms(2), of val _ first]
  by (cases "hb_val h 1" val rule: linorder_cases) (auto simp: hb_search_def)

section \<open>Writing and reading back\<close>

lemma prec_factor_unat [simp]:
  "prec_factor SINGLE_PREC_HB = 255" "prec_factor DOUBLE_PREC_HB = 65535"
  by (simp_all add: push_bit_eq_mult)

lemma hb_width_values [simp]: "hb_width (h\<lparr>hb_values := m\<rparr>) = hb_width h"
  by (simp add: hb_width_def split: histogram_type.split)

lemma hb_list_eq_updateI:
  assumes "hb_width h' = hb_width h" and "i < W h" and "hb_val h' i = v"
    and "\<And>j. j < W h \<Longrightarrow> j \<noteq> i \<Longrightarrow> hb_val h' j = hb_val h j"
  shows "hb_list h' = (hb_list h)[i := v]"
proof (rule nth_equalityI)
  fix j assume "j < length (hb_list h')"
  then show "hb_list h' ! j = (hb_list h)[i := v] ! j"
    using assms by (cases "j = i") simp_all
qed (use assms(1) in simp)

text \<open>The values of the two precisions, as bytes of the array.\<close>

lemma hb_val_single: "hb_type h = SINGLE_PREC_HB \<Longrightarrow> i < W h \<Longrightarrow> hb_val h i = b64 (hb_values h i)"
  by (simp add: hb_val_def hb_get_value_def, rule bit_word_eqI)
    (auto simp: bit_simps dest: bit_word_lt)

lemma hb_val_double:
  "hb_type h = DOUBLE_PREC_HB \<Longrightarrow> i < W h \<Longrightarrow>
     hb_val h i = ucast (uint2korr (hb_values h) (i * 2))"
  by (simp add: hb_val_def hb_get_value_def ucast_up_ucast is_up)

lemma uint2korr_store_same: "uint2korr (int2store m p v) p = ucast v"
  by (rule bit_word_eqI) (auto simp: le2.load_store bit_simps)

lemma uint2korr_store_other:
  "q + 1 < p \<or> p + 1 < q \<Longrightarrow> uint2korr (int2store m p v) q = uint2korr m q"
  by (auto simp: uint2korr_def int2store_def Let_def)

lemma width_single:
  "hb_type h = SINGLE_PREC_HB \<Longrightarrow> unat (hb_size h) < 2 ^ 32 \<Longrightarrow> W h = unat (hb_size h)"
  by (simp add: hb_width_def unat_ucast_less)

lemma width_double:
  "hb_type h = DOUBLE_PREC_HB \<Longrightarrow> unat (hb_size h) < 2 ^ 32 \<Longrightarrow> W h = unat (hb_size h) div 2"
  by (simp add: hb_width_def unat_ucast_less unat_div)

text \<open>A write is an update of the list of values.\<close>

definition binary_hist :: "histogram_binary \<Rightarrow> bool" where
  "binary_hist h \<longleftrightarrow>
     (hb_type h = SINGLE_PREC_HB \<or> hb_type h = DOUBLE_PREC_HB) \<and> unat (hb_size h) < 2 ^ 32"

lemma to_unsigned_Some: "to_unsigned w t = Some v \<longleftrightarrow> 0 \<le> t \<and> t < 2 ^ w \<and> v = word_of_int t"
  by (auto simp: to_unsigned_def)

lemma ucast_small_word:
  assumes "0 \<le> t" and "t < 2 ^ LENGTH('a::len)" and "LENGTH('a) \<le> 64"
  shows "ucast (ucast (word_of_int t :: ulonglong) :: 'a word) = (word_of_int t :: ulonglong)"
proof -
  have t: "take_bit LENGTH('a) t = t" using assms(1,2) by (simp add: take_bit_int_eq_self)
  have "bit t n \<Longrightarrow> n < LENGTH('a)" for n
    using bit_take_bit_iff [of "LENGTH('a)" t n] t by simp
  then show ?thesis
    using assms(3) by (intro bit_word_eqI) (auto simp: bit_simps bit_word_of_int_iff)
qed

lemma ucast16_64: "ucast (ucast (ucast (x :: uint16) :: ulonglong) :: uint16) = (ucast x :: ulonglong)"
  by (rule bit_word_eqI) (auto simp: bit_simps dest: bit_word_lt)

lemma hb_set_value_list:
  assumes "binary_hist h" and "hb_set_value conv h i p = Some h'"
  shows "i < W h" and "hb_width h' = hb_width h" and "binary_hist h'" and "hb_type h' = hb_type h"
    and "hb_list h' = (hb_list h)[i := word_of_int (conv p (prec_factor (hb_type h)))]"
proof -
  let ?t = "conv p (prec_factor (hb_type h))"
  have "i < W h \<and> (\<exists>m. h' = h\<lparr>hb_values := m\<rparr>) \<and> hb_val h' i = word_of_int ?t \<and>
      (\<forall>j < W h. j \<noteq> i \<longrightarrow> hb_val h' j = hb_val h j)"
  proof (cases "hb_type h = SINGLE_PREC_HB")
    case True
    then have t: "0 \<le> ?t" "?t < 2 ^ 8" and i: "i < unat (hb_size h)"
      and h': "h' = h\<lparr>hb_values := (hb_values h)(i := ucast (word_of_int ?t :: ulonglong))\<rparr>"
      using assms(2) by (auto simp: hb_set_value_def to_unsigned_def split: if_splits)
    have "W h = unat (hb_size h)" using True assms(1) by (simp add: width_single binary_hist_def)
    then show ?thesis
      using True i h' t ucast_small_word [where 'a = 8, of ?t] by (auto simp: hb_val_single)
  next
    case False
    then have d: "hb_type h = DOUBLE_PREC_HB" using assms(1) by (auto simp: binary_hist_def)
    then have t: "0 \<le> ?t" "?t < 2 ^ 16" and i: "i * 2 + 1 < unat (hb_size h)"
      and h': "h' = h\<lparr>hb_values := int2store (hb_values h) (i * 2) (word_of_int ?t)\<rparr>"
      using assms(2) by (auto simp: hb_set_value_def to_unsigned_def split: if_splits)
    have "W h = unat (hb_size h) div 2" using d assms(1) by (simp add: width_double binary_hist_def)
    moreover have "j * 2 + 1 < i * 2 \<or> i * 2 + 1 < j * 2" if "j \<noteq> i" for j using that by linarith
    ultimately show ?thesis
      using d i h' t ucast_small_word [where 'a = 16, of ?t]
      by (auto simp: hb_val_double uint2korr_store_same uint2korr_store_other)
  qed
  then show "i < W h" "hb_width h' = hb_width h" "binary_hist h'" "hb_type h' = hb_type h"
      "hb_list h' = (hb_list h)[i := word_of_int ?t]"
    using assms(1) by (auto simp: binary_hist_def intro!: hb_list_eq_updateI)
qed

lemma hb_set_prev_value_list:
  assumes "binary_hist h" and "hb_set_prev_value h i = Some h'"
  shows "0 < i" and "i < W h" and "hb_width h' = hb_width h" and "binary_hist h'"
    and "hb_type h' = hb_type h" and "hb_list h' = (hb_list h)[i := hb_list h ! (i - 1)]"
proof -
  have "0 < i \<and> i < W h \<and> (\<exists>m. h' = h\<lparr>hb_values := m\<rparr>) \<and> hb_val h' i = hb_val h (i - 1) \<and>
      (\<forall>j < W h. j \<noteq> i \<longrightarrow> hb_val h' j = hb_val h j)"
  proof (cases "hb_type h = SINGLE_PREC_HB")
    case True
    moreover have "W h = unat (hb_size h)"
      using True assms(1) by (simp add: width_single binary_hist_def)
    ultimately show ?thesis
      using assms(2) by (auto simp: hb_set_prev_value_def hb_val_single split: if_splits)
  next
    case False
    then have d: "hb_type h = DOUBLE_PREC_HB" using assms(1) by (auto simp: binary_hist_def)
    then have i: "0 < i" "i * 2 + 1 < unat (hb_size h)"
      and h': "h' = h\<lparr>hb_values :=
        int2store (hb_values h) (i * 2) (ucast (uint2korr (hb_values h) (i * 2 - 2)))\<rparr>"
      using assms(2) by (auto simp: hb_set_prev_value_def split: if_splits)
    have "W h = unat (hb_size h) div 2" using d assms(1) by (simp add: width_double binary_hist_def)
    moreover have "j * 2 + 1 < i * 2 \<or> i * 2 + 1 < j * 2" if "j \<noteq> i" for j using that by linarith
    moreover have "i * 2 - 2 = (i - 1) * 2" by simp
    ultimately show ?thesis
      using d i h'
      by (auto simp: hb_val_double uint2korr_store_same uint2korr_store_other ucast16_64)
  qed
  then show "0 < i" "i < W h" "hb_width h' = hb_width h" "binary_hist h'" "hb_type h' = hb_type h"
      "hb_list h' = (hb_list h)[i := hb_list h ! (i - 1)]"
    using assms(1) by (auto simp: binary_hist_def intro!: hb_list_eq_updateI)
qed

subsection \<open>Filling a histogram from the left\<close>

text \<open>
  A builder writes the positions one after the other and repeats the last one. The list holds
  the truncated positions written so far.
\<close>

inductive filled :: "('d \<Rightarrow> uint \<Rightarrow> int) \<Rightarrow> histogram_binary \<Rightarrow> int list \<Rightarrow> bool"
  for conv :: "'d \<Rightarrow> uint \<Rightarrow> int" where
  start: "binary_hist h \<Longrightarrow> filled conv h []"
| put: "filled conv h ts \<Longrightarrow> ts = [] \<or> last ts \<le> conv p (prec_factor (hb_type h)) \<Longrightarrow>
    hb_set_value conv h (length ts) p = Some h' \<Longrightarrow>
    filled conv h' (ts @ [conv p (prec_factor (hb_type h))])"
| again: "filled conv h ts \<Longrightarrow> hb_set_prev_value h (length ts) = Some h' \<Longrightarrow>
    filled conv h' (ts @ [last ts])"

lemma hb_set_value_range:
  assumes "binary_hist h" and "hb_set_value conv h i p = Some h'"
  shows "0 \<le> conv p (prec_factor (hb_type h)) \<and> conv p (prec_factor (hb_type h)) < 2 ^ 16"
  using assms
  by (auto simp: binary_hist_def hb_set_value_def to_unsigned_def split: if_splits)

lemma take_Suc_update: "length ts < length xs \<Longrightarrow> take (Suc (length ts)) (xs[length ts := v]) = take (length ts) xs @ [v]"
  by (simp add: take_Suc_conv_app_nth)

lemma filled_prefix:
  assumes "filled conv h ts"
  shows "binary_hist h \<and> length ts \<le> W h \<and> sorted ts \<and> (\<forall>t \<in> set ts. 0 \<le> t \<and> t < 2 ^ 16) \<and>
    take (length ts) (hb_list h) = map word_of_int ts"
  using assms
proof induction
  case (start h)
  then show ?case by simp
next
  case (put h ts p h')
  then have b: "binary_hist h" by simp
  note u = hb_set_value_list [OF b put.hyps(3)] and r = hb_set_value_range [OF b put.hyps(3)]
  have "sorted (ts @ [conv p (prec_factor (hb_type h))])"
    using put.IH put.hyps(2) by (cases ts rule: rev_cases) (auto simp: sorted_append)
  then show ?case using put.IH u r by (auto simp: take_Suc_update)
next
  case (again h ts h')
  then have b: "binary_hist h" by simp
  note u = hb_set_prev_value_list [OF b again.hyps(2)]
  obtain us t where ts: "ts = us @ [t]" using u(1) by (cases ts rule: rev_cases) auto
  have "hb_list h ! (length ts - 1) = map word_of_int ts ! (length ts - 1)"
    using again.IH u(1,2) by (metis diff_less less_numeral_extra(1) nth_take)
  then have "hb_list h ! (length ts - 1) = word_of_int t" using ts by (simp add: nth_append)
  then show ?case
    using again.IH u ts take_Suc_update [of ts "hb_list h" "word_of_int t"]
    by (auto simp: sorted_append)
qed

lemma small_word_mono: "0 \<le> s \<Longrightarrow> s \<le> t \<Longrightarrow> t < 2 ^ 16 \<Longrightarrow> (word_of_int s :: ulonglong) \<le> word_of_int t"
  by (simp add: word_le_def unsigned_of_int take_bit_int_eq_self)

lemma filled_complete:
  assumes "filled conv h ts" and "length ts = W h"
  shows "hb_list h = map word_of_int ts" and "sorted (hb_list h)"
proof -
  note p = filled_prefix [OF assms(1)]
  show "hb_list h = map word_of_int ts" using p assms(2) by simp
  moreover have "sorted_wrt (\<lambda>s t. (word_of_int s :: ulonglong) \<le> word_of_int t) ts"
  proof (rule sorted_wrt_mono_rel)
    show "(word_of_int s :: ulonglong) \<le> word_of_int t" if "s \<in> set ts" "t \<in> set ts" "s \<le> t" for s t
      using that p by (intro small_word_mono) auto
    show "sorted ts" using p by simp
  qed
  ultimately show "sorted (hb_list h)" by (simp add: sorted_wrt_map)
qed

section \<open>Counters of the builder\<close>

record basic_stats_collector =
  bsc_count :: ulonglong
  bsc_count_distinct :: ulonglong
  bsc_count_single :: ulonglong

definition bsc_init :: basic_stats_collector where
  "bsc_init = \<lparr>bsc_count = 0, bsc_count_distinct = 0, bsc_count_single = 0\<rparr>"

definition bsc_next :: "basic_stats_collector \<Rightarrow> uint \<Rightarrow> basic_stats_collector" where
  "bsc_next c n = c\<lparr>bsc_count_distinct := bsc_count_distinct c + 1,
     bsc_count_single := (if n = 1 then bsc_count_single c + 1 else bsc_count_single c),
     bsc_count := bsc_count c + ucast n\<rparr>"

lemma bsc_fold:
  "foldl bsc_next c ns = c\<lparr>
     bsc_count_distinct := bsc_count_distinct c + of_nat (length ns),
     bsc_count_single := bsc_count_single c + of_nat (length (filter (\<lambda>n. n = 1) ns)),
     bsc_count := bsc_count c + of_nat (sum_list (map unat ns))\<rparr>"
  by (induction ns arbitrary: c) (simp_all add: bsc_next_def)

section \<open>Statistics of a column\<close>

text \<open>
  The fields of \<^verbatim>\<open>mysql.column_stats\<close>, by their number. \<^verbatim>\<open>ulong\<close> has 32 bits on the platform of
  the package.
\<close>

abbreviation COLUMN_STAT_COLUMN_NAME :: nat where "COLUMN_STAT_COLUMN_NAME \<equiv> 2"
abbreviation COLUMN_STAT_MIN_VALUE :: nat where "COLUMN_STAT_MIN_VALUE \<equiv> 3"
abbreviation COLUMN_STAT_MAX_VALUE :: nat where "COLUMN_STAT_MAX_VALUE \<equiv> 4"
abbreviation COLUMN_STAT_HISTOGRAM :: nat where "COLUMN_STAT_HISTOGRAM \<equiv> 10"

record column_statistics =
  column_stat_nulls :: uint32
  nulls_ratio :: uint32
  avg_length :: ulonglong
  avg_frequency :: ulonglong

definition Scale_factor :: uint where
  "Scale_factor = 100000"

definition no_values_provided_bitmap :: uint32 where
  "no_values_provided_bitmap =
     push_bit (COLUMN_STAT_COLUMN_NAME + 1)
       (push_bit (COLUMN_STAT_HISTOGRAM - COLUMN_STAT_COLUMN_NAME) 1 - 1)"

definition cs_set_all_nulls :: "column_statistics \<Rightarrow> column_statistics" where
  "cs_set_all_nulls c = c\<lparr>column_stat_nulls := no_values_provided_bitmap\<rparr>"

definition cs_set_not_null :: "column_statistics \<Rightarrow> nat \<Rightarrow> column_statistics" where
  "cs_set_not_null c n = c\<lparr>column_stat_nulls := column_stat_nulls c AND NOT (push_bit n 1)\<rparr>"

definition cs_set_null :: "column_statistics \<Rightarrow> nat \<Rightarrow> column_statistics" where
  "cs_set_null c n = c\<lparr>column_stat_nulls := column_stat_nulls c OR push_bit n 1\<rparr>"

definition cs_is_null :: "column_statistics \<Rightarrow> nat \<Rightarrow> bool" where
  "cs_is_null c n \<longleftrightarrow> column_stat_nulls c AND push_bit n 1 \<noteq> 0"

definition get_nulls_ratio :: "(ulonglong \<Rightarrow> uint \<Rightarrow> 'd) \<Rightarrow> column_statistics \<Rightarrow> 'd" where
  "get_nulls_ratio quot c = quot (ucast (nulls_ratio c)) Scale_factor"

definition get_avg_length :: "(ulonglong \<Rightarrow> uint \<Rightarrow> 'd) \<Rightarrow> column_statistics \<Rightarrow> 'd" where
  "get_avg_length quot c = quot (avg_length c) Scale_factor"

definition cs_get_avg_frequency :: "(ulonglong \<Rightarrow> uint \<Rightarrow> 'd) \<Rightarrow> column_statistics \<Rightarrow> 'd" where
  "cs_get_avg_frequency quot c = quot (avg_frequency c) Scale_factor"

definition set_nulls_ratio ::
    "('d \<Rightarrow> uint \<Rightarrow> int) \<Rightarrow> column_statistics \<Rightarrow> 'd \<Rightarrow> column_statistics option" where
  "set_nulls_ratio conv c val =
     map_option (\<lambda>v. c\<lparr>nulls_ratio := ucast v\<rparr>) (to_unsigned 32 (conv val Scale_factor))"

definition set_avg_length ::
    "('d \<Rightarrow> uint \<Rightarrow> int) \<Rightarrow> column_statistics \<Rightarrow> 'd \<Rightarrow> column_statistics option" where
  "set_avg_length conv c val =
     map_option (\<lambda>v. c\<lparr>avg_length := v\<rparr>) (to_unsigned 64 (conv val Scale_factor))"

definition cs_set_avg_frequency ::
    "('d \<Rightarrow> uint \<Rightarrow> int) \<Rightarrow> column_statistics \<Rightarrow> 'd \<Rightarrow> column_statistics option" where
  "cs_set_avg_frequency conv c val =
     map_option (\<lambda>v. c\<lparr>avg_frequency := v\<rparr>) (to_unsigned 64 (conv val Scale_factor))"

definition min_max_values_are_provided :: "column_statistics \<Rightarrow> bool" where
  "min_max_values_are_provided c \<longleftrightarrow>
     \<not> cs_is_null c COLUMN_STAT_MIN_VALUE \<and> \<not> cs_is_null c COLUMN_STAT_MAX_VALUE"

definition no_stat_values_provided :: "column_statistics \<Rightarrow> bool" where
  "no_stat_values_provided c \<longleftrightarrow> column_stat_nulls c = no_values_provided_bitmap"

lemma cs_is_null_bit: "n < 32 \<Longrightarrow> cs_is_null c n \<longleftrightarrow> bit (column_stat_nulls c) n"
  using and_exp_eq_0_iff_not_bit [of "column_stat_nulls c" n]
  by (simp add: cs_is_null_def push_bit_eq_mult)

lemma bitmap_bit: "bit no_values_provided_bitmap n \<longleftrightarrow> 3 \<le> n \<and> n \<le> 10"
proof -
  have "no_values_provided_bitmap = push_bit 3 (mask 8)"
    by (simp add: no_values_provided_bitmap_def mask_eq_decr_exp push_bit_eq_mult)
  then have "bit no_values_provided_bitmap n \<longleftrightarrow> bit (push_bit 3 (mask 8) :: uint32) n"
    by (simp only:)
  also have "\<dots> \<longleftrightarrow> 3 \<le> n \<and> n \<le> 10"
    by (simp only: bit_push_bit_iff bit_mask_iff possible_bit_word) auto
  finally show ?thesis .
qed

text \<open>The bitmap is a set of field numbers.\<close>

lemma cs_nulls_set:
  assumes "m < 32" and "n < 32"
  shows "cs_is_null (cs_set_null c n) m \<longleftrightarrow> m = n \<or> cs_is_null c m"
    and "cs_is_null (cs_set_not_null c n) m \<longleftrightarrow> m \<noteq> n \<and> cs_is_null c m"
    and "cs_is_null (cs_set_all_nulls c) m \<longleftrightarrow> 3 \<le> m \<and> m \<le> 10"
  using assms
  by (auto simp: cs_is_null_bit cs_set_null_def cs_set_not_null_def cs_set_all_nulls_def
      bitmap_bit bit_simps)

lemma no_stat_values_iff:
  "no_stat_values_provided c \<longleftrightarrow> (\<forall>n < 32. cs_is_null c n \<longleftrightarrow> 3 \<le> n \<and> n \<le> 10)"
  by (auto simp: no_stat_values_provided_def cs_is_null_bit bitmap_bit intro!: bit_word_eqI)

section \<open>Statistics of the prefixes of an index\<close>

text \<open>The array of frequencies, \<^const>\<open>None\<close> for a null pointer.\<close>

type_synonym index_statistics = "ulonglong list option"

definition init_avg_frequency :: "index_statistics \<Rightarrow> ulonglong list \<Rightarrow> index_statistics" where
  "init_avg_frequency s a = Some a"

definition avg_frequency_is_inited :: "index_statistics \<Rightarrow> bool" where
  "avg_frequency_is_inited s \<longleftrightarrow> s \<noteq> None"

definition is_get_avg_frequency ::
    "(ulonglong \<Rightarrow> uint \<Rightarrow> 'd) \<Rightarrow> index_statistics \<Rightarrow> nat \<Rightarrow> 'd option" where
  "is_get_avg_frequency quot s i =
     (case s of None \<Rightarrow> None
      | Some a \<Rightarrow> if i < length a then Some (quot (a ! i) Scale_factor) else None)"

definition is_set_avg_frequency ::
    "('d \<Rightarrow> uint \<Rightarrow> int) \<Rightarrow> index_statistics \<Rightarrow> nat \<Rightarrow> 'd \<Rightarrow> index_statistics option" where
  "is_set_avg_frequency conv s i val =
     (case s of None \<Rightarrow> None
      | Some a \<Rightarrow>
          if i < length a
          then map_option (\<lambda>v. Some (a[i := v])) (to_unsigned 64 (conv val Scale_factor))
          else None)"

section \<open>Properties\<close>

text \<open>
  C13. The search for a bucket in a histogram with other than two buckets whose values ascend
  returns the bucket a scan from the left returns: the first bucket whose value is not below the
  searched one, or the last bucket; for the right end of a run of equal values, the last of them.
\<close>

theorem find_bucket_scan:
  assumes "0 < unat (hb_width h)" and "unat (hb_width h) \<noteq> 2" and "sorted (hb_list h)"
    and "to_unsigned 64 (conv pos (prec_factor (hb_type h))) = Some val"
  shows "find_bucket conv h pos first = Some (scan_bucket (hb_list h) val first)"
  using assms by (simp add: find_bucket_def hb_search_scan)

definition hist5 :: histogram_binary where
  "hist5 = \<lparr>hb_type = SINGLE_PREC_HB, hb_size = 5, hb_values = (\<lambda>k. [10, 20, 20, 200, 255] ! k)\<rparr>"

lemma hist5_list: "hb_width hist5 = 5" "hb_list hist5 = [10, 20, 20, 200, 255]"
  by (simp_all add: hb_list_def hist5_def hb_width_def hb_val_def hb_get_value_def upt_rec)

theorem find_bucket_scan_witness:
  "find_bucket (\<lambda>d f. d * int (unat f) div 1000) hist5 80 False = Some 2"
  using find_bucket_scan [of hist5 "\<lambda>d f. d * int (unat f) div 1000" 80 20 False]
  by (simp add: hist5_list scan_bucket_def to_unsigned_def hist5_def)
    (simp add: hist5_list flip: hist5_def)

text \<open>
  The search of a histogram with other than two buckets reads only values of the array,
  whatever they are, and returns an index of it.
\<close>

theorem find_bucket_in_bounds:
  assumes "0 < unat (hb_width h)" and "unat (hb_width h) \<noteq> 2"
    and "to_unsigned 64 (conv pos (prec_factor (hb_type h))) = Some val"
  shows "\<exists>i < unat (hb_width h). find_bucket conv h pos first = Some i"
  using hb_search_total [OF assms(1,2), of val first] assms(3) by (auto simp: find_bucket_def)

theorem find_bucket_in_bounds_witness:
  "\<exists>i < unat (hb_width hist5). find_bucket (\<lambda>d f. d) hist5 300 True = Some i"
  by (rule find_bucket_in_bounds [of hist5 "\<lambda>d f. d" 300 300 True])
    (simp_all add: hist5_list to_unsigned_def)

text \<open>
  C14. With two buckets the search of a value above the last one reads the value after the
  array.
\<close>

theorem find_bucket_two_overrun:
  assumes "unat (hb_width h) = 2" and "hb_val h 1 < val"
    and "to_unsigned 64 (conv pos (prec_factor (hb_type h))) = Some val"
  shows "find_bucket conv h pos first = None"
  using assms hb_halve_two [OF assms(1), of val] leD [OF less_imp_le [OF assms(2)]]
  by (auto simp: find_bucket_def hb_search_def)

definition hist2 :: histogram_binary where
  "hist2 = \<lparr>hb_type = SINGLE_PREC_HB, hb_size = 2, hb_values = (\<lambda>k. [10, 200] ! k)\<rparr>"

theorem find_bucket_two_overrun_witness:
  "find_bucket (\<lambda>d f. d) hist2 (255 :: int) True = None"
  by (rule find_bucket_two_overrun [of hist2 255])
    (simp_all add: hist2_def hb_width_def hb_val_def hb_get_value_def to_unsigned_def)

text \<open>
  When a builder has written all buckets from the left, each position not below the one
  before or a repetition of it, the values ascend, so that the search finds the bucket of the
  scan.
\<close>

theorem filled_search:
  assumes "filled conv h ts" and "length ts = unat (hb_width h)"
    and "0 < length ts" and "length ts \<noteq> 2"
  shows "hb_search h val first = Some (scan_bucket (map word_of_int ts) val first)"
  using hb_search_scan [of h val first] filled_complete [OF assms(1,2)] assms(2-4) by simp

definition hist1 :: histogram_binary where
  "hist1 = \<lparr>hb_type = DOUBLE_PREC_HB, hb_size = 2, hb_values = (\<lambda>_. 0)\<rparr>"

theorem filled_search_witness:
  "\<exists>h. filled (\<lambda>d f. d * int (unat f)) h [65535] \<and> hb_search h 70000 True = Some 0"
proof -
  let ?c = "\<lambda>d f. d * int (unat f)"
  define h where "h = hist1\<lparr>hb_values := int2store (hb_values hist1) 0 65535\<rparr>"
  have "hb_set_value ?c hist1 (length []) 1 = Some h"
    by (simp add: hb_set_value_def hist1_def to_unsigned_def h_def)
  then have "filled ?c h ([] @ [?c 1 (prec_factor (hb_type hist1))])"
    by (intro filled.put filled.start) (simp_all add: hist1_def binary_hist_def)
  then have f: "filled ?c h [65535]" by (simp add: hist1_def)
  then show ?thesis
    using filled_search [OF f, of 70000 True]
    by (auto simp: h_def hist1_def hb_width_def scan_bucket_def)
qed

text \<open>
  A column has no statistics exactly when the fields from the minimum to the histogram, and
  no others, are marked as null.
\<close>

theorem no_stat_values_fields:
  "no_stat_values_provided c = (map (cs_is_null c) [0..<32] = map (\<lambda>n. 3 \<le> n \<and> n \<le> 10) [0..<32])"
  by (simp only: no_stat_values_iff map_eq_conv) auto

end
