(* ===== verification/Query_Tables.thy ===== *)
theory Query_Tables
  imports Prelude
begin

text \<open>
  The tables of a statement and the flags of its binary logging: class \<^verbatim>\<open>Query_tables_list\<close> of
  \<^verbatim>\<open>sql_lex.h\<close>, with the link step of \<^verbatim>\<open>TABLE_LIST::init_one_table_for_prelocking\<close> of \<^verbatim>\<open>table.h\<close>.

  A \<^verbatim>\<open>TABLE_LIST *\<close> is a number, 0 being the null pointer. A \<^verbatim>\<open>TABLE_LIST **\<close> is a slot: the member
  \<^verbatim>\<open>query_tables\<close> of the list or the member \<^verbatim>\<open>next_global\<close> of a table. The map \<^verbatim>\<open>binlog_unsafe_map\<close>,
  which a function outside of the header fills, is an argument.
\<close>

section \<open>State\<close>

type_synonym table_ref = nat

abbreviation (input) NO_TABLE :: table_ref where "NO_TABLE \<equiv> 0"

datatype table_slot = Query_tables | Next_global table_ref

record query_tables_list =
  query_tables :: table_ref
  next_global :: "table_ref \<Rightarrow> table_ref"
  prev_global :: "table_ref \<Rightarrow> table_slot"
  query_tables_last :: table_slot
  query_tables_own_last :: "table_slot option"
  sroutines_list_elements :: uint
  binlog_stmt_flags :: uint32
  stmt_accessed_table_flag :: uint32

definition slot_value :: "query_tables_list \<Rightarrow> table_slot \<Rightarrow> table_ref" where
  "slot_value q s = (case s of Query_tables \<Rightarrow> query_tables q | Next_global t \<Rightarrow> next_global q t)"

definition slot_store :: "query_tables_list \<Rightarrow> table_slot \<Rightarrow> table_ref \<Rightarrow> query_tables_list" where
  "slot_store q s v = (case s of
     Query_tables \<Rightarrow> q\<lparr>query_tables := v\<rparr>
   | Next_global t \<Rightarrow> q\<lparr>next_global := (next_global q)(t := v)\<rparr>)"

section \<open>The list of tables\<close>

definition add_to_query_tables :: "query_tables_list \<Rightarrow> table_ref \<Rightarrow> query_tables_list" where
  "add_to_query_tables q t =
     (let q = q\<lparr>prev_global := (prev_global q)(t := query_tables_last q)\<rparr>;
          q = slot_store q (query_tables_last q) t
      in q\<lparr>query_tables_last := Next_global t\<rparr>)"

text \<open>\<^verbatim>\<open>last_ptr\<close> is the address of \<^verbatim>\<open>query_tables_last\<close>.\<close>

definition link_prelocked :: "query_tables_list \<Rightarrow> table_ref \<Rightarrow> query_tables_list" where
  "link_prelocked q t =
     (let q = slot_store q (query_tables_last q) t;
          q = q\<lparr>prev_global := (prev_global q)(t := query_tables_last q)\<rparr>
      in q\<lparr>query_tables_last := Next_global t\<rparr>)"

definition requires_prelocking :: "query_tables_list \<Rightarrow> bool" where
  "requires_prelocking q \<longleftrightarrow> query_tables_own_last q \<noteq> None"

definition mark_as_requiring_prelocking ::
    "query_tables_list \<Rightarrow> table_slot \<Rightarrow> query_tables_list" where
  "mark_as_requiring_prelocking q own = q\<lparr>query_tables_own_last := Some own\<rparr>"

definition first_not_own_table :: "query_tables_list \<Rightarrow> table_ref" where
  "first_not_own_table q =
     (case query_tables_own_last q of Some s \<Rightarrow> slot_value q s | None \<Rightarrow> NO_TABLE)"

definition chop_off_not_own_tables :: "query_tables_list \<Rightarrow> query_tables_list" where
  "chop_off_not_own_tables q =
     (case query_tables_own_last q of
        None \<Rightarrow> q
      | Some s \<Rightarrow>
          let q = slot_store q s NO_TABLE;
              q = q\<lparr>query_tables_last := s\<rparr>
          in q\<lparr>query_tables_own_last := None\<rparr>)"

text \<open>
  From the address of \<^verbatim>\<open>next_global\<close> back to the table that holds it; \<^const>\<open>None\<close> when
  \<^verbatim>\<open>query_tables_last\<close> is not the address of that member.
\<close>

definition last_table :: "query_tables_list \<Rightarrow> table_ref option" where
  "last_table q =
     (if query_tables q \<noteq> NO_TABLE
      then (case query_tables_last q of Next_global t \<Rightarrow> Some t | Query_tables \<Rightarrow> None)
      else Some NO_TABLE)"

definition uses_stored_routines :: "query_tables_list \<Rightarrow> bool" where
  "uses_stored_routines q \<longleftrightarrow> sroutines_list_elements q \<noteq> 0"

section \<open>Unsafe statements\<close>

datatype binlog_stmt_unsafe =
    UNSAFE_LIMIT | UNSAFE_INSERT_DELAYED | UNSAFE_SYSTEM_TABLE | UNSAFE_AUTOINC_COLUMNS
  | UNSAFE_UDF | UNSAFE_SYSTEM_VARIABLE | UNSAFE_SYSTEM_FUNCTION | UNSAFE_NONTRANS_AFTER_TRANS
  | UNSAFE_MULTIPLE_ENGINES_AND_SELF_LOGGING_ENGINE | UNSAFE_MIXED_STATEMENT
  | UNSAFE_INSERT_IGNORE_SELECT | UNSAFE_INSERT_SELECT_UPDATE | UNSAFE_WRITE_AUTOINC_SELECT
  | UNSAFE_REPLACE_SELECT | UNSAFE_CREATE_IGNORE_SELECT | UNSAFE_CREATE_REPLACE_SELECT
  | UNSAFE_CREATE_SELECT_AUTOINC | UNSAFE_UPDATE_IGNORE | UNSAFE_INSERT_TWO_KEYS
  | UNSAFE_AUTOINC_NOT_FIRST | UNSAFE_AUTOINC_LOCK_MODE | UNSAFE_SKIP_LOCKED

fun unsafe_number :: "binlog_stmt_unsafe \<Rightarrow> nat" where
  "unsafe_number UNSAFE_LIMIT = 0"
| "unsafe_number UNSAFE_INSERT_DELAYED = 1"
| "unsafe_number UNSAFE_SYSTEM_TABLE = 2"
| "unsafe_number UNSAFE_AUTOINC_COLUMNS = 3"
| "unsafe_number UNSAFE_UDF = 4"
| "unsafe_number UNSAFE_SYSTEM_VARIABLE = 5"
| "unsafe_number UNSAFE_SYSTEM_FUNCTION = 6"
| "unsafe_number UNSAFE_NONTRANS_AFTER_TRANS = 7"
| "unsafe_number UNSAFE_MULTIPLE_ENGINES_AND_SELF_LOGGING_ENGINE = 8"
| "unsafe_number UNSAFE_MIXED_STATEMENT = 9"
| "unsafe_number UNSAFE_INSERT_IGNORE_SELECT = 10"
| "unsafe_number UNSAFE_INSERT_SELECT_UPDATE = 11"
| "unsafe_number UNSAFE_WRITE_AUTOINC_SELECT = 12"
| "unsafe_number UNSAFE_REPLACE_SELECT = 13"
| "unsafe_number UNSAFE_CREATE_IGNORE_SELECT = 14"
| "unsafe_number UNSAFE_CREATE_REPLACE_SELECT = 15"
| "unsafe_number UNSAFE_CREATE_SELECT_AUTOINC = 16"
| "unsafe_number UNSAFE_UPDATE_IGNORE = 17"
| "unsafe_number UNSAFE_INSERT_TWO_KEYS = 18"
| "unsafe_number UNSAFE_AUTOINC_NOT_FIRST = 19"
| "unsafe_number UNSAFE_AUTOINC_LOCK_MODE = 20"
| "unsafe_number UNSAFE_SKIP_LOCKED = 21"

abbreviation (input) BINLOG_STMT_UNSAFE_COUNT :: nat where "BINLOG_STMT_UNSAFE_COUNT \<equiv> 22"

abbreviation (input) BINLOG_STMT_TYPE_ROW_INJECTION :: nat where
  "BINLOG_STMT_TYPE_ROW_INJECTION \<equiv> BINLOG_STMT_UNSAFE_COUNT"

definition BINLOG_STMT_UNSAFE_ALL_FLAGS :: uint32 where
  "BINLOG_STMT_UNSAFE_ALL_FLAGS = push_bit BINLOG_STMT_UNSAFE_COUNT 1 - 1"

definition get_stmt_unsafe_flags :: "query_tables_list \<Rightarrow> uint32" where
  "get_stmt_unsafe_flags q = binlog_stmt_flags q AND BINLOG_STMT_UNSAFE_ALL_FLAGS"

definition is_stmt_unsafe :: "query_tables_list \<Rightarrow> bool" where
  "is_stmt_unsafe q \<longleftrightarrow> get_stmt_unsafe_flags q \<noteq> 0"

definition is_stmt_unsafe_for :: "query_tables_list \<Rightarrow> binlog_stmt_unsafe \<Rightarrow> bool" where
  "is_stmt_unsafe_for q u \<longleftrightarrow> binlog_stmt_flags q AND push_bit (unsafe_number u) 1 \<noteq> 0"

definition set_stmt_unsafe :: "query_tables_list \<Rightarrow> binlog_stmt_unsafe \<Rightarrow> query_tables_list" where
  "set_stmt_unsafe q u =
     q\<lparr>binlog_stmt_flags := binlog_stmt_flags q OR push_bit (unsafe_number u) 1\<rparr>"

text \<open>\<^const>\<open>None\<close> when the assertion on the argument fails.\<close>

definition set_stmt_unsafe_flags :: "query_tables_list \<Rightarrow> uint32 \<Rightarrow> query_tables_list option" where
  "set_stmt_unsafe_flags q flags =
     (if flags AND NOT BINLOG_STMT_UNSAFE_ALL_FLAGS = 0
      then Some (q\<lparr>binlog_stmt_flags := binlog_stmt_flags q OR flags\<rparr>) else None)"

definition clear_stmt_unsafe :: "query_tables_list \<Rightarrow> query_tables_list" where
  "clear_stmt_unsafe q =
     q\<lparr>binlog_stmt_flags := binlog_stmt_flags q AND NOT BINLOG_STMT_UNSAFE_ALL_FLAGS\<rparr>"

definition is_stmt_row_injection :: "query_tables_list \<Rightarrow> bool" where
  "is_stmt_row_injection q \<longleftrightarrow>
     binlog_stmt_flags q AND push_bit BINLOG_STMT_TYPE_ROW_INJECTION 1 \<noteq> 0"

definition set_stmt_row_injection :: "query_tables_list \<Rightarrow> query_tables_list" where
  "set_stmt_row_injection q =
     q\<lparr>binlog_stmt_flags := binlog_stmt_flags q OR push_bit BINLOG_STMT_TYPE_ROW_INJECTION 1\<rparr>"

section \<open>Accessed tables\<close>

datatype accessed_table =
    READS_TRANS_TABLE | READS_NON_TRANS_TABLE | READS_TEMP_TRANS_TABLE
  | READS_TEMP_NON_TRANS_TABLE | WRITES_TRANS_TABLE | WRITES_NON_TRANS_TABLE
  | WRITES_TEMP_TRANS_TABLE | WRITES_TEMP_NON_TRANS_TABLE

fun accessed_number :: "accessed_table \<Rightarrow> nat" where
  "accessed_number READS_TRANS_TABLE = 0"
| "accessed_number READS_NON_TRANS_TABLE = 1"
| "accessed_number READS_TEMP_TRANS_TABLE = 2"
| "accessed_number READS_TEMP_NON_TRANS_TABLE = 3"
| "accessed_number WRITES_TRANS_TABLE = 4"
| "accessed_number WRITES_NON_TRANS_TABLE = 5"
| "accessed_number WRITES_TEMP_TRANS_TABLE = 6"
| "accessed_number WRITES_TEMP_NON_TRANS_TABLE = 7"

fun stmt_accessed_table_string :: "accessed_table \<Rightarrow> string" where
  "stmt_accessed_table_string READS_TRANS_TABLE = ''STMT_READS_TRANS_TABLE''"
| "stmt_accessed_table_string READS_NON_TRANS_TABLE = ''STMT_READS_NON_TRANS_TABLE''"
| "stmt_accessed_table_string READS_TEMP_TRANS_TABLE = ''STMT_READS_TEMP_TRANS_TABLE''"
| "stmt_accessed_table_string READS_TEMP_NON_TRANS_TABLE = ''STMT_READS_TEMP_NON_TRANS_TABLE''"
| "stmt_accessed_table_string WRITES_TRANS_TABLE = ''STMT_WRITES_TRANS_TABLE''"
| "stmt_accessed_table_string WRITES_NON_TRANS_TABLE = ''STMT_WRITES_NON_TRANS_TABLE''"
| "stmt_accessed_table_string WRITES_TEMP_TRANS_TABLE = ''STMT_WRITES_TEMP_TRANS_TABLE''"
| "stmt_accessed_table_string WRITES_TEMP_NON_TRANS_TABLE = ''STMT_WRITES_TEMP_NON_TRANS_TABLE''"

abbreviation accessed_bit :: "accessed_table \<Rightarrow> uint32" where
  "accessed_bit a \<equiv> push_bit (accessed_number a) 1"

definition set_stmt_accessed_table ::
    "query_tables_list \<Rightarrow> accessed_table \<Rightarrow> query_tables_list" where
  "set_stmt_accessed_table q a =
     q\<lparr>stmt_accessed_table_flag := stmt_accessed_table_flag q OR accessed_bit a\<rparr>"

definition stmt_accessed_table :: "query_tables_list \<Rightarrow> accessed_table \<Rightarrow> bool" where
  "stmt_accessed_table q a \<longleftrightarrow> stmt_accessed_table_flag q AND accessed_bit a \<noteq> 0"

definition stmt_accessed_trans_temp_table :: "query_tables_list \<Rightarrow> bool" where
  "stmt_accessed_trans_temp_table q \<longleftrightarrow> stmt_accessed_table_flag q AND
     (accessed_bit READS_TEMP_TRANS_TABLE OR accessed_bit WRITES_TEMP_TRANS_TABLE) \<noteq> 0"

definition stmt_writes_to_non_temp_table :: "query_tables_list \<Rightarrow> bool" where
  "stmt_writes_to_non_temp_table q \<longleftrightarrow> stmt_accessed_table_flag q AND
     (accessed_bit WRITES_TRANS_TABLE OR accessed_bit WRITES_NON_TRANS_TABLE) \<noteq> 0"

definition stmt_accessed_non_trans_temp_table :: "query_tables_list \<Rightarrow> bool" where
  "stmt_accessed_non_trans_temp_table q \<longleftrightarrow> stmt_accessed_table_flag q AND
     (accessed_bit READS_TEMP_NON_TRANS_TABLE OR accessed_bit WRITES_TEMP_NON_TRANS_TABLE) \<noteq> 0"

definition stmt_accessed_temp_table :: "query_tables_list \<Rightarrow> bool" where
  "stmt_accessed_temp_table q \<longleftrightarrow>
     stmt_accessed_non_trans_temp_table q \<or> stmt_accessed_trans_temp_table q"

abbreviation (input) ISO_REPEATABLE_READ :: uint where "ISO_REPEATABLE_READ \<equiv> 2"

definition mixed_condition :: "bool \<Rightarrow> bool \<Rightarrow> uint \<Rightarrow> uint" where
  "mixed_condition binlog_direct trx_cache_is_not_empty tx_isolation =
     (if binlog_direct then 0xF0 else 0xF) AND
     (if trx_cache_is_not_empty then 0xCC else 0x33) AND
     (if tx_isolation \<ge> ISO_REPEATABLE_READ then 0x55 else 0xAA)"

definition is_mixed_stmt_unsafe ::
    "(nat \<Rightarrow> uint) \<Rightarrow> query_tables_list \<Rightarrow> bool \<Rightarrow> bool \<Rightarrow> bool \<Rightarrow> uint \<Rightarrow> bool" where
  "is_mixed_stmt_unsafe binlog_unsafe_map q in_multi_stmt_transaction_mode binlog_direct
       trx_cache_is_not_empty tx_isolation =
     (let unsafe = (if in_multi_stmt_transaction_mode
        then binlog_unsafe_map (unat (stmt_accessed_table_flag q)) AND
               mixed_condition binlog_direct trx_cache_is_not_empty tx_isolation \<noteq> 0
        else False)
      in if stmt_accessed_table q WRITES_NON_TRANS_TABLE \<and>
            stmt_accessed_table q READS_TRANS_TABLE \<and> tx_isolation < ISO_REPEATABLE_READ
         then True
         else if stmt_accessed_table q WRITES_TEMP_NON_TRANS_TABLE \<and>
            stmt_accessed_table q READS_TRANS_TABLE \<and> tx_isolation < ISO_REPEATABLE_READ
         then True
         else unsafe)"


section \<open>The list as a sequence of tables\<close>

fun last_slot_of :: "table_slot \<Rightarrow> table_ref list \<Rightarrow> table_slot" where
  "last_slot_of s [] = s"
| "last_slot_of s (t # ts) = last_slot_of (Next_global t) ts"

text \<open>From slot \<open>s\<close> the tables \<open>ts\<close> follow one another, each knowing the slot it hangs from.\<close>

fun linked_from :: "query_tables_list \<Rightarrow> table_slot \<Rightarrow> table_ref list \<Rightarrow> table_ref \<Rightarrow> bool" where
  "linked_from q s [] e \<longleftrightarrow> slot_value q s = e"
| "linked_from q s (t # ts) e \<longleftrightarrow>
     slot_value q s = t \<and> prev_global q t = s \<and> linked_from q (Next_global t) ts e"

definition tables_rep :: "query_tables_list \<Rightarrow> table_ref list \<Rightarrow> bool" where
  "tables_rep q ts \<longleftrightarrow> distinct ts \<and> NO_TABLE \<notin> set ts \<and> linked_from q Query_tables ts NO_TABLE \<and>
     query_tables_last q = last_slot_of Query_tables ts"

text \<open>The tables of the statement, of which the first \<open>ts\<close> are its own.\<close>

definition prelock_rep :: "query_tables_list \<Rightarrow> table_ref list \<Rightarrow> table_ref list \<Rightarrow> bool" where
  "prelock_rep q ts us \<longleftrightarrow>
     tables_rep q (ts @ us) \<and> query_tables_own_last q = Some (last_slot_of Query_tables ts)"

lemma last_slot_of_append: "last_slot_of s (ts @ us) = last_slot_of (last_slot_of s ts) us"
  by (induction s ts rule: last_slot_of.induct) simp_all

lemma last_slot_of_in: "last_slot_of s ts \<in> insert s (Next_global ` set ts)"
  by (induction s ts rule: last_slot_of.induct) auto

lemma slot_value_store [simp]:
  "slot_value (slot_store q s v) s' = (if s' = s then v else slot_value q s')"
  by (auto simp: slot_value_def slot_store_def split: table_slot.splits)

lemma slot_store_frame [simp]:
  "prev_global (slot_store q s v) = prev_global q"
  "query_tables_last (slot_store q s v) = query_tables_last q"
  "query_tables_own_last (slot_store q s v) = query_tables_own_last q"
  by (auto simp: slot_store_def split: table_slot.split)

lemma slot_value_frame [simp]:
  "slot_value (q\<lparr>prev_global := p\<rparr>) s = slot_value q s"
  "slot_value (q\<lparr>query_tables_last := l\<rparr>) s = slot_value q s"
  "slot_value (q\<lparr>query_tables_own_last := l'\<rparr>) s = slot_value q s"
  by (auto simp: slot_value_def split: table_slot.split)

lemma linked_from_cong:
  "(\<And>r. r \<in> insert s (Next_global ` set ts) \<Longrightarrow> slot_value q r = slot_value q' r) \<Longrightarrow>
   (\<And>t. t \<in> set ts \<Longrightarrow> prev_global q t = prev_global q' t) \<Longrightarrow>
     linked_from q s ts e = linked_from q' s ts e"
  by (induction s ts rule: last_slot_of.induct) simp_all

lemma linked_from_frame [simp]:
  "linked_from (q\<lparr>query_tables_last := l\<rparr>) s ts e = linked_from q s ts e"
  "linked_from (q\<lparr>query_tables_own_last := l'\<rparr>) s ts e = linked_from q s ts e"
  by (rule linked_from_cong; simp)+

lemma linked_from_append: "linked_from q s (ts @ us) e \<longleftrightarrow>
    linked_from q s ts (slot_value q (last_slot_of s ts)) \<and> linked_from q (last_slot_of s ts) us e"
  by (induction s ts rule: last_slot_of.induct) auto

text \<open>A store to the last slot makes the sequence end in the new value.\<close>

lemma linked_from_store_last:
  "linked_from q s ts e \<Longrightarrow> distinct ts \<Longrightarrow> s \<notin> Next_global ` set ts \<Longrightarrow>
     linked_from (slot_store q (last_slot_of s ts) v) s ts v"
proof (induction s ts rule: last_slot_of.induct)
  case (2 s t ts)
  have "last_slot_of (Next_global t) ts \<noteq> s"
    using last_slot_of_in [of "Next_global t" ts] 2(4) by auto
  then show ?case using 2 by auto
qed simp

lemma link_prelocked_eq: "link_prelocked q t = add_to_query_tables q t"
  by (auto simp: link_prelocked_def add_to_query_tables_def Let_def slot_store_def
      split: table_slot.split)

lemma add_linked:
  assumes l: "linked_from q s ts e" and d: "distinct ts" "s \<notin> Next_global ` set ts"
    and last: "query_tables_last q = last_slot_of s ts"
    and t: "t \<notin> set ts" "s \<noteq> Next_global t" "next_global q t = NO_TABLE"
  shows "linked_from (add_to_query_tables q t) s (ts @ [t]) NO_TABLE"
proof -
  let ?L = "last_slot_of s ts"
  have L: "?L \<noteq> Next_global t" using last_slot_of_in [of s ts] t by auto
  have "linked_from (slot_store (q\<lparr>prev_global := (prev_global q)(t := ?L)\<rparr>) ?L t) s ts t"
  proof (rule linked_from_store_last [OF _ d])
    show "linked_from (q\<lparr>prev_global := (prev_global q)(t := ?L)\<rparr>) s ts e"
      using l t(1) by (subst linked_from_cong [of s ts _ q]) auto
  qed
  moreover have "slot_value q (Next_global t) = NO_TABLE" using t(3) by (simp add: slot_value_def)
  ultimately show ?thesis
    using last L by (simp add: add_to_query_tables_def linked_from_append Let_def)
qed

lemma add_rep:
  assumes r: "tables_rep q ts" and t: "t \<noteq> NO_TABLE" "t \<notin> set ts" "next_global q t = NO_TABLE"
  shows "tables_rep (add_to_query_tables q t) (ts @ [t])"
  using add_linked [of q Query_tables ts NO_TABLE t] r t
  by (auto simp: tables_rep_def last_slot_of_append)
    (auto simp: add_to_query_tables_def Let_def)

lemma add_frame:
  "query_tables_own_last (add_to_query_tables q t) = query_tables_own_last q"
  "u \<noteq> t \<Longrightarrow> tables_rep q ts \<Longrightarrow> u \<notin> set ts \<Longrightarrow>
     next_global (add_to_query_tables q t) u = next_global q u"
  using last_slot_of_in [of Query_tables ts]
  by (auto simp: add_to_query_tables_def Let_def slot_store_def tables_rep_def
      split: table_slot.splits)

lemma add_all_rep:
  assumes "tables_rep q ts" and "distinct us" and "set ts \<inter> set us = {}"
    and "\<forall>u \<in> set us. u \<noteq> NO_TABLE \<and> next_global q u = NO_TABLE"
  shows "tables_rep (foldl add_to_query_tables q us) (ts @ us) \<and>
    query_tables_own_last (foldl add_to_query_tables q us) = query_tables_own_last q"
  using assms
proof (induction us arbitrary: q ts)
  case Nil
  then show ?case by simp
next
  case (Cons u us)
  have "tables_rep (add_to_query_tables q u) (ts @ [u])"
    using add_rep [OF Cons.prems(1), of u] Cons.prems(3,4) by auto
  moreover have "\<forall>v \<in> set us. next_global (add_to_query_tables q u) v = next_global q v"
  proof
    fix v assume "v \<in> set us"
    then show "next_global (add_to_query_tables q u) v = next_global q v"
      using Cons.prems by (intro add_frame(2) [of v u q ts]) auto
  qed
  ultimately show ?case
    using Cons.IH [of "add_to_query_tables q u" "ts @ [u]"] Cons.prems
    by (auto simp: add_frame(1))
qed

lemma mark_rep:
  "tables_rep q ts \<Longrightarrow> tables_rep (mark_as_requiring_prelocking q s) ts"
  by (simp add: tables_rep_def mark_as_requiring_prelocking_def)

lemma chop_rep:
  assumes "prelock_rep q ts us"
  shows "tables_rep (chop_off_not_own_tables q) ts"
proof -
  have "linked_from (slot_store q (last_slot_of Query_tables ts) NO_TABLE) Query_tables ts NO_TABLE"
    using assms by (intro linked_from_store_last [where e = "slot_value q (last_slot_of Query_tables ts)"])
      (auto simp: prelock_rep_def tables_rep_def linked_from_append)
  then show ?thesis
    using assms
    by (auto simp: chop_off_not_own_tables_def Let_def prelock_rep_def tables_rep_def)
qed

lemma linked_from_start: "linked_from q s ts e \<Longrightarrow> slot_value q s = hd (ts @ [e])"
  by (cases ts) auto

lemma first_not_own_rep:
  "prelock_rep q ts us \<Longrightarrow> first_not_own_table q = hd (us @ [NO_TABLE])"
  using linked_from_start [of q "last_slot_of Query_tables ts" us NO_TABLE]
  by (simp add: prelock_rep_def tables_rep_def linked_from_append first_not_own_table_def)

lemma last_table_rep:
  "tables_rep q ts \<Longrightarrow> last_table q = Some (last (NO_TABLE # ts))"
proof (cases ts rule: rev_cases)
  case (snoc us t)
  assume r: "tables_rep q ts"
  then have "query_tables q = hd ts" "hd ts \<in> set ts"
    using linked_from_start [of q Query_tables ts NO_TABLE] snoc
    by (auto simp: tables_rep_def slot_value_def hd_append)
  then have "query_tables q \<noteq> NO_TABLE" using r by (metis tables_rep_def)
  then show ?thesis
    using r snoc by (simp add: tables_rep_def last_table_def last_slot_of_append)
qed (simp add: tables_rep_def last_table_def slot_value_def)

section \<open>Flags\<close>

text \<open>
  Both bit fields are sets of marks: a mark is set once it was put, and the others stay as they
  are.
\<close>

locale marks =
  fixes test :: "'q \<Rightarrow> 'm \<Rightarrow> bool" and put :: "'q \<Rightarrow> 'm \<Rightarrow> 'q"
  assumes test_put: "test (put q a) b \<longleftrightarrow> b = a \<or> test q b"
begin

lemma test_put_all: "test (foldl put q as) b \<longleftrightarrow> b \<in> set as \<or> test q b"
  by (induction as arbitrary: q) (auto simp: test_put)

lemma put_order: "set as = set bs \<Longrightarrow> test (foldl put q as) b = test (foldl put q bs) b"
  by (simp add: test_put_all)

end

lemma and_bit_iff: "(w :: uint32) AND 2 ^ n \<noteq> 0 \<longleftrightarrow> bit w n"
  using and_exp_eq_0_iff_not_bit [of w n] by simp

lemma unsafe_number_less: "unsafe_number u < BINLOG_STMT_UNSAFE_COUNT"
  by (cases u) simp_all

lemma unsafe_number_inj [simp]: "unsafe_number u = unsafe_number v \<longleftrightarrow> u = v"
  by (cases u; cases v) simp_all

lemma accessed_number_less: "accessed_number a < 8"
  by (cases a) simp_all

lemma accessed_number_inj [simp]: "accessed_number a = accessed_number b \<longleftrightarrow> a = b"
  by (cases a; cases b) simp_all

lemma is_stmt_unsafe_for_bit:
  "is_stmt_unsafe_for q u \<longleftrightarrow> bit (binlog_stmt_flags q) (unsafe_number u)"
  by (simp add: is_stmt_unsafe_for_def and_bit_iff)

lemma stmt_accessed_table_bit:
  "stmt_accessed_table q a \<longleftrightarrow> bit (stmt_accessed_table_flag q) (accessed_number a)"
  by (simp add: stmt_accessed_table_def and_bit_iff)

lemma bit_or_mark: "n < 32 \<Longrightarrow> bit ((w :: uint32) OR 2 ^ n) m \<longleftrightarrow> m = n \<or> bit w m"
  by (auto simp: bit_simps)

interpretation unsafe: marks is_stmt_unsafe_for set_stmt_unsafe
proof
  fix q u v
  have "unsafe_number u < 32" using unsafe_number_less [of u] by simp
  then show "is_stmt_unsafe_for (set_stmt_unsafe q u) v \<longleftrightarrow> v = u \<or> is_stmt_unsafe_for q v"
    by (simp add: is_stmt_unsafe_for_bit set_stmt_unsafe_def bit_or_mark)
qed

interpretation accessed: marks stmt_accessed_table set_stmt_accessed_table
proof
  fix q a b
  have "accessed_number a < 32" using accessed_number_less [of a] by simp
  then show "stmt_accessed_table (set_stmt_accessed_table q a) b \<longleftrightarrow> b = a \<or> stmt_accessed_table q b"
    by (simp add: stmt_accessed_table_bit set_stmt_accessed_table_def bit_or_mark)
qed

lemma unsafe_all_flags_mask: "BINLOG_STMT_UNSAFE_ALL_FLAGS = mask 22"
  by (simp add: BINLOG_STMT_UNSAFE_ALL_FLAGS_def mask_eq_decr_exp push_bit_eq_mult)

lemma unsafe_flags_bit: "bit (get_stmt_unsafe_flags q) n \<longleftrightarrow> bit (binlog_stmt_flags q) n \<and> n < 22"
  by (auto simp: get_stmt_unsafe_flags_def unsafe_all_flags_mask bit_and_iff bit_mask_iff)

definition all_unsafe :: "binlog_stmt_unsafe list" where
  "all_unsafe = [UNSAFE_LIMIT, UNSAFE_INSERT_DELAYED, UNSAFE_SYSTEM_TABLE, UNSAFE_AUTOINC_COLUMNS,
     UNSAFE_UDF, UNSAFE_SYSTEM_VARIABLE, UNSAFE_SYSTEM_FUNCTION, UNSAFE_NONTRANS_AFTER_TRANS,
     UNSAFE_MULTIPLE_ENGINES_AND_SELF_LOGGING_ENGINE, UNSAFE_MIXED_STATEMENT,
     UNSAFE_INSERT_IGNORE_SELECT, UNSAFE_INSERT_SELECT_UPDATE, UNSAFE_WRITE_AUTOINC_SELECT,
     UNSAFE_REPLACE_SELECT, UNSAFE_CREATE_IGNORE_SELECT, UNSAFE_CREATE_REPLACE_SELECT,
     UNSAFE_CREATE_SELECT_AUTOINC, UNSAFE_UPDATE_IGNORE, UNSAFE_INSERT_TWO_KEYS,
     UNSAFE_AUTOINC_NOT_FIRST, UNSAFE_AUTOINC_LOCK_MODE, UNSAFE_SKIP_LOCKED]"

lemma all_unsafe_numbers: "map unsafe_number all_unsafe = [0..<22]" "length all_unsafe = 22"
  by (simp_all add: all_unsafe_def upt_rec)

lemma unsafe_number_onto: "n < 22 \<Longrightarrow> \<exists>u. unsafe_number u = n"
  using all_unsafe_numbers by (metis add_0 nth_map nth_upt)

lemma is_stmt_unsafe_iff: "is_stmt_unsafe q \<longleftrightarrow> (\<exists>u. is_stmt_unsafe_for q u)"
proof
  assume "is_stmt_unsafe q"
  then obtain n where "bit (get_stmt_unsafe_flags q) n"
    using bit_eq_iff [of "get_stmt_unsafe_flags q" 0] by (auto simp: is_stmt_unsafe_def)
  then show "\<exists>u. is_stmt_unsafe_for q u"
    using unsafe_number_onto by (auto simp: unsafe_flags_bit is_stmt_unsafe_for_bit)
next
  assume "\<exists>u. is_stmt_unsafe_for q u"
  then have "\<exists>n. bit (get_stmt_unsafe_flags q) n"
    using unsafe_number_less by (auto simp: unsafe_flags_bit is_stmt_unsafe_for_bit)
  then show "is_stmt_unsafe q" by (auto simp: is_stmt_unsafe_def)
qed

lemma clear_not_unsafe: "\<not> is_stmt_unsafe (clear_stmt_unsafe q)"
proof -
  have "get_stmt_unsafe_flags (clear_stmt_unsafe q) = 0"
    by (rule bit_word_eqI)
      (auto simp: clear_stmt_unsafe_def unsafe_flags_bit unsafe_all_flags_mask bit_simps)
  then show ?thesis by (simp add: is_stmt_unsafe_def)
qed

lemma bit_or_22: "bit ((w :: uint32) OR 4194304) m \<longleftrightarrow> m = 22 \<or> bit w m"
  using bit_or_mark [of 22 w m] by simp

lemma row_injection_bit: "is_stmt_row_injection q \<longleftrightarrow> bit (binlog_stmt_flags q) 22"
  using and_bit_iff [of _ 22] by (simp add: is_stmt_row_injection_def)

lemma row_injection_kept:
  "is_stmt_row_injection (set_stmt_unsafe q u) = is_stmt_row_injection q"
  "is_stmt_row_injection (clear_stmt_unsafe q) = is_stmt_row_injection q"
  "is_stmt_row_injection (set_stmt_row_injection q)"
  using unsafe_number_less [of u]
  by (auto simp: row_injection_bit set_stmt_unsafe_def clear_stmt_unsafe_def bit_and_iff bit_not_iff
      set_stmt_row_injection_def unsafe_all_flags_mask bit_mask_iff bit_or_mark bit_or_22)

lemma row_injection_not_unsafe:
  "is_stmt_unsafe_for (set_stmt_row_injection q) u = is_stmt_unsafe_for q u"
  using unsafe_number_less [of u]
  by (auto simp: is_stmt_unsafe_for_bit set_stmt_row_injection_def bit_or_22)

text \<open>The temporary tables among the accessed ones.\<close>

lemma and_two_bits: "(w :: uint32) AND (2 ^ n OR 2 ^ m) \<noteq> 0 \<longleftrightarrow> bit w n \<or> bit w m"
  by (simp only: bit.conj_disj_distrib or_eq_0_iff de_Morgan_conj and_bit_iff)

lemma temp_tables:
  "stmt_accessed_temp_table q \<longleftrightarrow>
     stmt_accessed_table q READS_TEMP_TRANS_TABLE \<or> stmt_accessed_table q WRITES_TEMP_TRANS_TABLE \<or>
     stmt_accessed_table q READS_TEMP_NON_TRANS_TABLE \<or>
     stmt_accessed_table q WRITES_TEMP_NON_TRANS_TABLE"
  unfolding stmt_accessed_temp_table_def stmt_accessed_non_trans_temp_table_def
    stmt_accessed_trans_temp_table_def stmt_accessed_table_bit push_bit_of_1 and_two_bits
  by blast

text \<open>The three masks of \<^verbatim>\<open>is_mixed_stmt_unsafe\<close> leave one bit of the byte.\<close>

definition condition_number :: "bool \<Rightarrow> bool \<Rightarrow> uint \<Rightarrow> nat" where
  "condition_number binlog_direct trx_cache_is_not_empty tx_isolation =
     (if binlog_direct then 4 else 0) + (if trx_cache_is_not_empty then 2 else 0) +
     (if tx_isolation < 2 then 1 else 0)"

lemma mixed_condition_bit: "mixed_condition d c i = push_bit (condition_number d c i) 1"
  by (cases d; cases c; cases "i < 2") (simp_all add: mixed_condition_def condition_number_def)

section \<open>Properties\<close>

text \<open>
  A table whose link to the next one is null, added to the tables of a statement, becomes
  the last of them and knows the slot it hangs from.
\<close>

theorem add_to_query_tables_appends:
  assumes "tables_rep q ts" and "t \<noteq> 0" and "t \<notin> set ts" and "next_global q t = 0"
  shows "tables_rep (add_to_query_tables q t) (ts @ [t])"
  by (rule add_rep [OF assms])

definition no_tables :: query_tables_list where
  "no_tables = \<lparr>query_tables = 0, next_global = (\<lambda>_. 0), prev_global = (\<lambda>_. Query_tables),
     query_tables_last = Query_tables, query_tables_own_last = None, sroutines_list_elements = 0,
     binlog_stmt_flags = 0, stmt_accessed_table_flag = 0\<rparr>"

lemma no_tables_rep: "tables_rep no_tables []"
  by (simp add: tables_rep_def no_tables_def slot_value_def)

theorem add_to_query_tables_appends_witness:
  "tables_rep (add_to_query_tables (add_to_query_tables no_tables 7) 5) [7, 5]"
proof -
  have "tables_rep (add_to_query_tables no_tables 7) ([] @ [7])"
    by (rule add_rep [OF no_tables_rep]) (simp_all add: no_tables_def)
  moreover have "next_global (add_to_query_tables no_tables 7) 5 = 0"
    by (simp add: add_to_query_tables_def no_tables_def slot_store_def)
  ultimately have "tables_rep (add_to_query_tables (add_to_query_tables no_tables 7) 5) ([7] @ [5])"
    by (intro add_to_query_tables_appends) simp_all
  then show ?thesis by simp
qed

text \<open>
  C16. Prelocking round trip. When the end of the own tables is remembered and the tables of
  stored routines are added behind it, chopping them off gives the own tables back.
\<close>

theorem chop_off_prelocked:
  assumes "tables_rep q ts" and "distinct us" and "set ts \<inter> set us = {}"
    and "\<forall>u \<in> set us. u \<noteq> 0 \<and> next_global q u = 0"
  shows "tables_rep (chop_off_not_own_tables (foldl link_prelocked
    (mark_as_requiring_prelocking q (query_tables_last q)) us)) ts"
proof -
  let ?m = "mark_as_requiring_prelocking q (query_tables_last q)"
  have "next_global ?m = next_global q" by (simp add: mark_as_requiring_prelocking_def)
  then have "prelock_rep (foldl add_to_query_tables ?m us) ts us"
    using add_all_rep [OF mark_rep [OF assms(1)] assms(2,3)] assms(1,4)
    by (simp add: prelock_rep_def tables_rep_def mark_as_requiring_prelocking_def)
  then show ?thesis by (simp add: chop_rep link_prelocked_eq [abs_def])
qed

theorem chop_off_prelocked_witness:
  "tables_rep (chop_off_not_own_tables (foldl link_prelocked
    (mark_as_requiring_prelocking no_tables (query_tables_last no_tables)) [4, 9])) []"
  by (rule chop_off_prelocked [OF no_tables_rep]) (simp_all add: no_tables_def)

text \<open>
  Inside of a transaction of several statements, \<^verbatim>\<open>is_mixed_stmt_unsafe\<close> looks at one bit of
  the byte of the accessed tables, the one whose number has the option, the state of the cache
  and the isolation level as its binary digits; reading a transactional table while writing a
  non-transactional one below the level of repeatable reads is unsafe in any case.
\<close>

theorem is_mixed_stmt_unsafe_bit:
  "is_mixed_stmt_unsafe um q True d c i \<longleftrightarrow>
     bit (um (unat (stmt_accessed_table_flag q))) (condition_number d c i) \<or>
     i < 2 \<and> stmt_accessed_table q READS_TRANS_TABLE \<and>
       (stmt_accessed_table q WRITES_NON_TRANS_TABLE \<or>
        stmt_accessed_table q WRITES_TEMP_NON_TRANS_TABLE)"
  using and_bit_iff [of _ "condition_number d c i"]
  by (auto simp: is_mixed_stmt_unsafe_def mixed_condition_bit Let_def)

text \<open>
  A statement is unsafe after some marks were put on a cleared statement exactly when there
  was one, in whatever order they came, and a row injection stays one.
\<close>

theorem clear_then_mark:
  "(is_stmt_unsafe (foldl set_stmt_unsafe (clear_stmt_unsafe q) us),
    is_stmt_row_injection (foldl set_stmt_unsafe (clear_stmt_unsafe q) us)) =
   (us \<noteq> [], is_stmt_row_injection q)"
proof -
  have "\<not> is_stmt_unsafe_for (clear_stmt_unsafe q) u" for u
    using clear_not_unsafe [of q] is_stmt_unsafe_iff by blast
  then have "is_stmt_unsafe (foldl set_stmt_unsafe (clear_stmt_unsafe q) us) \<longleftrightarrow> us \<noteq> []"
    by (simp add: is_stmt_unsafe_iff unsafe.test_put_all flip: ex_in_conv)
      (metis list.set_intros(1) neq_Nil_conv set_empty2 equals0D)
  moreover have "is_stmt_row_injection (foldl set_stmt_unsafe q us) = is_stmt_row_injection q" for q
    by (induction us arbitrary: q) (simp_all add: row_injection_kept)
  ultimately show ?thesis by (simp add: row_injection_kept)
qed

end
