(* ===== verification/Lex_Input.thy ===== *)
theory Lex_Input
  imports Prelude
begin

text \<open>
  The input stream of the lexical analyser: class \<^verbatim>\<open>Lex_input_stream\<close> of \<^verbatim>\<open>sql_lex.h\<close>. A query is
  read from the raw buffer \<^verbatim>\<open>m_buf\<close>; while \<^verbatim>\<open>m_echo\<close> is on, what is read is copied to the
  pre-processed buffer \<^verbatim>\<open>m_cpp_buf\<close>, which ends up with the query without the comments that were
  read with the echo off.

  The two buffers are lists of bytes, a pointer into one of them is its offset. An access outside
  of the allocated bytes is \<^const>\<open>None\<close>, and so is a decrement of a pointer at the start of its
  buffer. The counts \<^verbatim>\<open>int n\<close> of characters are natural numbers. \<^verbatim>\<open>m_body_utf8\<close> is its bytes up to
  \<^verbatim>\<open>m_body_utf8_ptr\<close>, which functions outside of the header append to.
\<close>

section \<open>State\<close>

datatype comment_state = NO_COMMENT | PRESERVE_COMMENT | DISCARD_COMMENT

record lex_input =
  m_raw :: "uchar list"
  m_ptr :: nat
  m_tok_start :: nat
  m_tok_end :: nat
  m_end_of_query :: nat
  m_tok_start_prev :: nat
  m_echo :: bool
  m_echo_saved :: bool
  m_cpp :: "uchar list"
  m_cpp_ptr :: nat
  m_cpp_tok_start :: nat
  m_cpp_tok_start_prev :: nat
  m_cpp_tok_end :: nat
  m_body_utf8 :: "uchar list"
  m_body_utf8_ptr :: nat
  lookahead_token :: uint
  in_comment :: comment_state
  in_comment_saved :: comment_state

section \<open>Echo and comment state\<close>

definition set_echo :: "lex_input \<Rightarrow> bool \<Rightarrow> lex_input" where
  "set_echo s echo = s\<lparr>m_echo := echo\<rparr>"

definition save_in_comment_state :: "lex_input \<Rightarrow> lex_input" where
  "save_in_comment_state s = s\<lparr>m_echo_saved := m_echo s, in_comment_saved := in_comment s\<rparr>"

definition restore_in_comment_state :: "lex_input \<Rightarrow> lex_input" where
  "restore_in_comment_state s = s\<lparr>m_echo := m_echo_saved s, in_comment := in_comment_saved s\<rparr>"

section \<open>Reading\<close>

text \<open>A store to the pre-processed buffer, and the copy of \<open>n\<close> bytes of the raw buffer.\<close>

definition cpp_store :: "lex_input \<Rightarrow> nat \<Rightarrow> uchar \<Rightarrow> lex_input option" where
  "cpp_store s p c = (if p < length (m_cpp s) then Some (s\<lparr>m_cpp := (m_cpp s)[p := c]\<rparr>) else None)"

definition cpp_memcpy :: "lex_input \<Rightarrow> nat \<Rightarrow> lex_input option" where
  "cpp_memcpy s n =
     (if m_ptr s + n \<le> length (m_raw s) \<and> m_cpp_ptr s + n \<le> length (m_cpp s)
      then Some (s\<lparr>m_cpp := take (m_cpp_ptr s) (m_cpp s) @ take n (drop (m_ptr s) (m_raw s)) @
                  drop (m_cpp_ptr s + n) (m_cpp s)\<rparr>)
      else None)"

definition skip_binary :: "lex_input \<Rightarrow> nat \<Rightarrow> lex_input option" where
  "skip_binary s n =
     (case (if m_echo s
            then map_option (\<lambda>s. s\<lparr>m_cpp_ptr := m_cpp_ptr s + n\<rparr>) (cpp_memcpy s n)
            else Some s) of
        None \<Rightarrow> None
      | Some s \<Rightarrow> Some (s\<lparr>m_ptr := m_ptr s + n\<rparr>))"

definition yyGet :: "lex_input \<Rightarrow> (uchar \<times> lex_input) option" where
  "yyGet s =
     (if m_ptr s < length (m_raw s) then
        let c = m_raw s ! m_ptr s; s = s\<lparr>m_ptr := m_ptr s + 1\<rparr> in
        if m_echo s
        then map_option (\<lambda>s. (c, s\<lparr>m_cpp_ptr := m_cpp_ptr s + 1\<rparr>)) (cpp_store s (m_cpp_ptr s) c)
        else Some (c, s)
      else None)"

definition yyPeekn :: "lex_input \<Rightarrow> nat \<Rightarrow> uchar option" where
  "yyPeekn s n =
     (if m_ptr s + n < length (m_raw s) then Some (m_raw s ! (m_ptr s + n)) else None)"

definition yyPeek :: "lex_input \<Rightarrow> uchar option" where
  "yyPeek s = (if m_ptr s < length (m_raw s) then Some (m_raw s ! m_ptr s) else None)"

definition yyGetLast :: "lex_input \<Rightarrow> uchar option" where
  "yyGetLast s =
     (if 0 < m_ptr s \<and> m_ptr s \<le> length (m_raw s) then Some (m_raw s ! (m_ptr s - 1)) else None)"

definition yyUnget :: "lex_input \<Rightarrow> lex_input option" where
  "yyUnget s =
     (if m_ptr s = 0 then None
      else let s = s\<lparr>m_ptr := m_ptr s - 1\<rparr> in
        if m_echo s
        then (if m_cpp_ptr s = 0 then None else Some (s\<lparr>m_cpp_ptr := m_cpp_ptr s - 1\<rparr>))
        else Some s)"

definition yySkip :: "lex_input \<Rightarrow> lex_input option" where
  "yySkip s =
     (if m_echo s then
        (if m_ptr s < length (m_raw s)
         then map_option (\<lambda>s. s\<lparr>m_cpp_ptr := m_cpp_ptr s + 1, m_ptr := m_ptr s + 1\<rparr>)
                (cpp_store s (m_cpp_ptr s) (m_raw s ! m_ptr s))
         else None)
      else Some (s\<lparr>m_ptr := m_ptr s + 1\<rparr>))"

definition yySkipn :: "lex_input \<Rightarrow> nat \<Rightarrow> lex_input option" where
  "yySkipn s n =
     (case (if m_echo s
            then map_option (\<lambda>s. s\<lparr>m_cpp_ptr := m_cpp_ptr s + n\<rparr>) (cpp_memcpy s n)
            else Some s) of
        None \<Rightarrow> None
      | Some s \<Rightarrow> Some (s\<lparr>m_ptr := m_ptr s + n\<rparr>))"

text \<open>The value is the new pointer.\<close>

definition yyUnput :: "lex_input \<Rightarrow> uchar \<Rightarrow> (nat \<times> lex_input) option" where
  "yyUnput s ch =
     (if 0 < m_ptr s \<and> m_ptr s \<le> length (m_raw s) then
        let s = s\<lparr>m_ptr := m_ptr s - 1, m_raw := (m_raw s)[m_ptr s - 1 := ch]\<rparr> in
        if m_echo s
        then (if m_cpp_ptr s = 0 then None
              else Some (m_ptr s, s\<lparr>m_cpp_ptr := m_cpp_ptr s - 1\<rparr>))
        else Some (m_ptr s, s)
      else None)"

definition eofn :: "lex_input \<Rightarrow> nat \<Rightarrow> bool" where
  "eofn s n \<longleftrightarrow> m_end_of_query s \<le> m_ptr s + n"

definition eof :: "lex_input \<Rightarrow> bool" where
  "eof s \<longleftrightarrow> m_end_of_query s \<le> m_ptr s"

section \<open>Tokens\<close>

definition start_token :: "lex_input \<Rightarrow> lex_input" where
  "start_token s = s\<lparr>m_tok_start_prev := m_tok_start s, m_tok_start := m_ptr s,
     m_tok_end := m_ptr s, m_cpp_tok_start_prev := m_cpp_tok_start s,
     m_cpp_tok_start := m_cpp_ptr s, m_cpp_tok_end := m_cpp_ptr s\<rparr>"

definition restart_token :: "lex_input \<Rightarrow> lex_input" where
  "restart_token s = s\<lparr>m_tok_start := m_ptr s, m_cpp_tok_start := m_cpp_ptr s\<rparr>"

definition yyLength :: "lex_input \<Rightarrow> uint option" where
  "yyLength s =
     (if m_tok_start s < m_ptr s then Some (of_nat (m_ptr s - m_tok_start s - 1)) else None)"

definition has_lookahead :: "lex_input \<Rightarrow> bool" where
  "has_lookahead s \<longleftrightarrow> 0 \<le> sint (lookahead_token s)"

definition get_tok_start :: "lex_input \<Rightarrow> nat" where
  "get_tok_start s = (if has_lookahead s then m_tok_start_prev s else m_tok_start s)"

definition set_cpp_tok_start :: "lex_input \<Rightarrow> nat \<Rightarrow> lex_input" where
  "set_cpp_tok_start s pos = s\<lparr>m_cpp_tok_start := pos\<rparr>"

definition get_cpp_tok_start :: "lex_input \<Rightarrow> nat" where
  "get_cpp_tok_start s = (if has_lookahead s then m_cpp_tok_start_prev s else m_cpp_tok_start s)"

text \<open>
  A byte is a space when the table of the character set says so; the table has an entry before
  that of the byte 0.
\<close>

definition my_isspace :: "(nat \<Rightarrow> uchar) \<Rightarrow> uchar \<Rightarrow> bool" where
  "my_isspace m_ctype c \<longleftrightarrow> m_ctype (unat c + 1) AND 8 \<noteq> 0"

text \<open>The loop that leaves out the spaces before \<open>p\<close>.\<close>

fun rtrim_from :: "(uchar \<Rightarrow> bool) \<Rightarrow> uchar list \<Rightarrow> nat \<Rightarrow> nat" where
  "rtrim_from sp buf 0 = 0"
| "rtrim_from sp buf (Suc p) = (if sp (buf ! p) then rtrim_from sp buf p else Suc p)"

definition get_cpp_tok_end_rtrim :: "(nat \<Rightarrow> uchar) \<Rightarrow> lex_input \<Rightarrow> nat" where
  "get_cpp_tok_end_rtrim m_ctype s = rtrim_from (my_isspace m_ctype) (m_cpp s) (m_cpp_tok_end s)"

definition get_cpp_ptr_rtrim :: "(nat \<Rightarrow> uchar) \<Rightarrow> lex_input \<Rightarrow> nat" where
  "get_cpp_ptr_rtrim m_ctype s = rtrim_from (my_isspace m_ctype) (m_cpp s) (m_cpp_ptr s)"

definition body_utf8 :: "lex_input \<Rightarrow> uchar list" where
  "body_utf8 s = take (m_body_utf8_ptr s) (m_body_utf8 s)"


section \<open>What a read does\<close>

text \<open>
  The output is what the pre-processed buffer holds up to its pointer. A stream is well formed
  when the pre-processed buffer has the room of the raw one and holds no more than was read.
\<close>

definition lex_output :: "lex_input \<Rightarrow> uchar list" where
  "lex_output s = take (m_cpp_ptr s) (m_cpp s)"

definition lex_ok :: "lex_input \<Rightarrow> bool" where
  "lex_ok s \<longleftrightarrow>
     m_cpp_ptr s \<le> m_ptr s \<and> m_ptr s \<le> length (m_raw s) \<and> length (m_raw s) \<le> length (m_cpp s)"

definition advances :: "lex_input \<Rightarrow> nat \<Rightarrow> lex_input \<Rightarrow> bool" where
  "advances s n s' \<longleftrightarrow>
     m_ptr s' = m_ptr s + n \<and> m_raw s' = m_raw s \<and> m_echo s' = m_echo s \<and>
     length (m_cpp s') = length (m_cpp s) \<and>
     m_cpp_ptr s' = m_cpp_ptr s + (if m_echo s then n else 0) \<and>
     lex_output s' = lex_output s @ (if m_echo s then take n (drop (m_ptr s) (m_raw s)) else [])"

lemma take_Suc_update_append:
  "p < length xs \<Longrightarrow> take (Suc p) (xs[p := c]) = take p xs @ [c]"
  by (simp add: take_Suc_conv_app_nth)

lemma take_one_drop: "p < length xs \<Longrightarrow> take (Suc 0) (drop p xs) = [xs ! p]"
  by (simp add: take_Suc_conv_app_nth)

lemma take_shorter: "take (Suc p) xs = take p ys @ zs \<Longrightarrow> p \<le> length ys \<Longrightarrow> take p xs = take p ys"
  by (drule arg_cong [of _ _ "take p"]) (simp add: min_def)

text \<open>Every reader of the stream has the same contract, for the number of bytes it reads.\<close>

locale lex_reader =
  fixes rd :: "lex_input \<Rightarrow> lex_input option" and n :: nat
  assumes advance: "lex_ok s \<Longrightarrow> m_ptr s + n \<le> length (m_raw s) \<Longrightarrow>
    \<exists>s'. rd s = Some s' \<and> advances s n s'"
begin

lemma keeps_ok:
  assumes "lex_ok s" and "m_ptr s + n \<le> length (m_raw s)"
  shows "\<exists>s'. rd s = Some s' \<and> lex_ok s' \<and> advances s n s'"
  using advance [OF assms] assms by (fastforce simp: advances_def lex_ok_def)

lemma unique:
  assumes "lex_ok s" and "m_ptr s + n \<le> length (m_raw s)" and "rd s = Some s'"
  shows "lex_ok s' \<and> advances s n s'"
  using keeps_ok [OF assms(1,2)] assms(3) by auto

end

text \<open>What reads one byte is taken back by \<^verbatim>\<open>yyUnget\<close>.\<close>

locale char_reader = lex_reader rd 1 for rd
begin

lemma unget:
  assumes "lex_ok s" and "m_ptr s < length (m_raw s)"
  shows "\<exists>s' s''. rd s = Some s' \<and> yyUnget s' = Some s'' \<and> m_ptr s'' = m_ptr s \<and>
    m_raw s'' = m_raw s \<and> m_cpp_ptr s'' = m_cpp_ptr s \<and> lex_output s'' = lex_output s"
proof -
  obtain s' where s': "rd s = Some s'" "lex_ok s'" "advances s 1 s'"
    using keeps_ok [OF assms(1)] assms(2) by auto
  have "m_cpp_ptr s \<le> length (m_cpp s)" using assms(1) by (simp add: lex_ok_def)
  then have "take (m_cpp_ptr s) (m_cpp s') = lex_output s"
    using s'(3) take_shorter [of "m_cpp_ptr s" "m_cpp s'" "m_cpp s"]
    by (auto simp: advances_def lex_output_def split: if_splits)
  then show ?thesis
    using s' by (auto simp: yyUnget_def advances_def lex_output_def Let_def)
qed

end

lemma memcpy_advances:
  assumes "lex_ok s" and "m_ptr s + n \<le> length (m_raw s)" and "m_echo s"
  shows "\<exists>t. cpp_memcpy s n = Some t \<and>
    advances s n (t\<lparr>m_cpp_ptr := m_cpp_ptr t + n, m_ptr := m_ptr t + n\<rparr>)"
  using assms by (auto simp: cpp_memcpy_def advances_def lex_output_def lex_ok_def)

interpretation skipn: lex_reader "\<lambda>s. yySkipn s n" n for n
proof
  fix s assume "lex_ok s" "m_ptr s + n \<le> length (m_raw s)"
  then show "\<exists>s'. yySkipn s n = Some s' \<and> advances s n s'"
    using memcpy_advances [of s n]
    by (cases "m_echo s") (auto simp: yySkipn_def, simp add: advances_def lex_output_def)
qed

lemma skip_binary_eq: "skip_binary = yySkipn"
  by (intro ext) (simp add: skip_binary_def yySkipn_def)

interpretation binary: lex_reader "\<lambda>s. skip_binary s n" n for n
  unfolding skip_binary_eq by (rule skipn.lex_reader_axioms)

interpretation skip: char_reader yySkip
proof
  fix s assume "lex_ok s" "m_ptr s + 1 \<le> length (m_raw s)"
  then show "\<exists>s'. yySkip s = Some s' \<and> advances s 1 s'"
    by (auto simp: yySkip_def cpp_store_def advances_def lex_output_def lex_ok_def
        take_Suc_update_append take_one_drop)
qed

interpretation get: char_reader "\<lambda>s. map_option snd (yyGet s)"
proof
  fix s assume "lex_ok s" "m_ptr s + 1 \<le> length (m_raw s)"
  then show "\<exists>s'. map_option snd (yyGet s) = Some s' \<and> advances s 1 s'"
    by (auto simp: yyGet_def Let_def cpp_store_def advances_def lex_output_def lex_ok_def
        take_Suc_update_append take_one_drop)
qed

section \<open>Runs of the stream\<close>

text \<open>The steps by which the lexical analyser moves through a query, and what they echo.\<close>

datatype lex_cmd = Get | Skip | Skipn nat | Binary nat | Echo bool

fun lex_step :: "lex_input \<Rightarrow> lex_cmd \<Rightarrow> lex_input option" where
  "lex_step s Get = map_option snd (yyGet s)"
| "lex_step s Skip = yySkip s"
| "lex_step s (Skipn n) = yySkipn s n"
| "lex_step s (Binary n) = skip_binary s n"
| "lex_step s (Echo b) = Some (set_echo s b)"

fun lex_run :: "lex_input \<Rightarrow> lex_cmd list \<Rightarrow> lex_input option" where
  "lex_run s [] = Some s"
| "lex_run s (c # cs) = (case lex_step s c of None \<Rightarrow> None | Some s \<Rightarrow> lex_run s cs)"

fun lex_width :: "lex_cmd \<Rightarrow> nat" where
  "lex_width Get = 1"
| "lex_width Skip = 1"
| "lex_width (Skipn n) = n"
| "lex_width (Binary n) = n"
| "lex_width (Echo b) = 0"

fun echoed :: "bool \<Rightarrow> uchar list \<Rightarrow> lex_cmd list \<Rightarrow> uchar list" where
  "echoed e raw [] = []"
| "echoed e raw (Echo b # cs) = echoed b raw cs"
| "echoed e raw (c # cs) =
     (if e then take (lex_width c) raw else []) @ echoed e (drop (lex_width c) raw) cs"

lemma lex_step_read:
  assumes "lex_ok s" and "m_ptr s + lex_width c \<le> length (m_raw s)" and "c \<noteq> Echo True" "c \<noteq> Echo False"
  shows "\<exists>s'. lex_step s c = Some s' \<and> lex_ok s' \<and> advances s (lex_width c) s'"
  using assms get.keeps_ok [of s] skip.keeps_ok [of s] skipn.keeps_ok [of s]
    binary.keeps_ok [of s]
  by (cases c) auto

lemma echoed_read:
  "c \<noteq> Echo True \<Longrightarrow> c \<noteq> Echo False \<Longrightarrow> echoed e raw (c # cs) =
     (if e then take (lex_width c) raw else []) @ echoed e (drop (lex_width c) raw) cs"
  by (cases c) simp_all

lemma lex_run_total:
  assumes "lex_ok s" and "m_ptr s + sum_list (map lex_width cs) \<le> length (m_raw s)"
  shows "\<exists>s'. lex_run s cs = Some s' \<and> lex_ok s' \<and>
    m_ptr s' = m_ptr s + sum_list (map lex_width cs) \<and> m_raw s' = m_raw s \<and>
    lex_output s' = lex_output s @ echoed (m_echo s) (drop (m_ptr s) (m_raw s)) cs"
  using assms
proof (induction cs arbitrary: s)
  case Nil
  then show ?case by simp
next
  case (Cons c cs)
  show ?case
  proof (cases "\<exists>b. c = Echo b")
    case True
    then obtain b where "c = Echo b" by blast
    then show ?thesis
      using Cons.IH [of "set_echo s b"] Cons.prems
      by (simp add: set_echo_def lex_ok_def lex_output_def)
  next
    case False
    then obtain t where t: "lex_step s c = Some t" "lex_ok t" "advances s (lex_width c) t"
      using lex_step_read [OF Cons.prems(1), of c] Cons.prems(2) by auto
    then show ?thesis
      using Cons.IH [of t] Cons.prems False
      by (auto simp: advances_def echoed_read add.assoc drop_drop add.commute)
  qed
qed

section \<open>Trailing spaces\<close>

lemma rtrim_from_spec:
  "p \<le> length buf \<Longrightarrow> take (rtrim_from sp buf p) buf = rev (dropWhile sp (rev (take p buf)))"
  by (induction p) (simp_all add: take_Suc_conv_app_nth)

lemma rtrim_from_le: "rtrim_from sp buf p \<le> p"
  by (induction p) simp_all

section \<open>Tokens\<close>

lemma start_token_positions:
  "get_tok_start (start_token s) = (if has_lookahead s then m_tok_start s else m_ptr s)"
  "get_cpp_tok_start (start_token s) = (if has_lookahead s then m_cpp_tok_start s else m_cpp_ptr s)"
  by (simp_all add: get_tok_start_def get_cpp_tok_start_def start_token_def has_lookahead_def)

lemma run_frame:
  "lex_step s c = Some s' \<Longrightarrow> m_tok_start s' = m_tok_start s \<and>
     m_end_of_query s' = m_end_of_query s \<and> lookahead_token s' = lookahead_token s"
  by (cases c)
    (auto simp: yyGet_def yySkip_def yySkipn_def skip_binary_def set_echo_def cpp_store_def
      cpp_memcpy_def Let_def split: if_splits)

lemma lex_run_frame:
  "lex_run s cs = Some s' \<Longrightarrow> m_tok_start s' = m_tok_start s \<and>
     m_end_of_query s' = m_end_of_query s \<and> lookahead_token s' = lookahead_token s"
proof (induction cs arbitrary: s)
  case (Cons c cs)
  then show ?case using run_frame [of s c] by (auto split: option.splits)
qed simp

section \<open>Properties\<close>

text \<open>
  C15. From a well-formed stream, reading a part of the query that is inside of the raw buffer
  never leaves either buffer, and the pre-processed buffer grows by exactly the bytes that were
  read while the echo was on.
\<close>

theorem lex_run_output:
  assumes "lex_ok s" and "m_ptr s + sum_list (map lex_width cs) \<le> length (m_raw s)"
  shows "map_option lex_output (lex_run s cs) =
    Some (lex_output s @ echoed (m_echo s) (drop (m_ptr s) (m_raw s)) cs)"
  using lex_run_total [OF assms] by auto

definition lex_sample :: lex_input where
  "lex_sample = \<lparr>m_raw = [65, 47, 42, 66, 42, 47, 67, 0], m_ptr = 0, m_tok_start = 0,
     m_tok_end = 0, m_end_of_query = 7, m_tok_start_prev = 0, m_echo = True,
     m_echo_saved = True, m_cpp = replicate 8 0, m_cpp_ptr = 0, m_cpp_tok_start = 0,
     m_cpp_tok_start_prev = 0, m_cpp_tok_end = 0, m_body_utf8 = [], m_body_utf8_ptr = 0,
     lookahead_token = - 1, in_comment = NO_COMMENT, in_comment_saved = NO_COMMENT\<rparr>"

theorem lex_run_output_witness:
  "map_option lex_output (lex_run lex_sample [Get, Echo False, Skipn 5, Echo True, Skip]) =
     Some [65, 67]"
  using lex_run_output [of lex_sample "[Get, Echo False, Skipn 5, Echo True, Skip]"]
  by (simp add: lex_sample_def lex_ok_def lex_output_def)

text \<open>
  The function \<^verbatim>\<open>yyUnget\<close> takes back \<^verbatim>\<open>yyGet\<close>: both pointers and the pre-processed text are as before.
\<close>

theorem yyUnget_yyGet:
  assumes "lex_ok s" and "m_ptr s < length (m_raw s)"
    and "yyGet s = Some (c, s')" and "yyUnget s' = Some s''"
  shows "(m_ptr s'', m_raw s'', m_cpp_ptr s'', lex_output s'') =
    (m_ptr s, m_raw s, m_cpp_ptr s, lex_output s)"
  using get.unget [OF assms(1,2)] assms(3,4) by auto

theorem yyUnget_yyGet_witness:
  "\<exists>s' s''. yyGet lex_sample = Some (65, s') \<and> yyUnget s' = Some s'' \<and>
     (m_ptr s'', m_raw s'', m_cpp_ptr s'', lex_output s'') = (0, m_raw lex_sample, 0, [])"
proof -
  define s' where "s' = snd (the (yyGet lex_sample))"
  define s'' where "s'' = the (yyUnget s')"
  have g: "yyGet lex_sample = Some (65, s')"
    by (simp add: s'_def yyGet_def lex_sample_def cpp_store_def)
  have u: "yyUnget s' = Some s''"
    by (simp add: s''_def yyUnget_def s'_def yyGet_def lex_sample_def cpp_store_def)
  have "(m_ptr s'', m_raw s'', m_cpp_ptr s'', lex_output s'') =
      (m_ptr lex_sample, m_raw lex_sample, m_cpp_ptr lex_sample, lex_output lex_sample)"
    by (rule yyUnget_yyGet [OF _ _ g u]) (simp_all add: lex_sample_def lex_ok_def)
  then show ?thesis using g u by (simp add: lex_sample_def lex_output_def)
qed

text \<open>
  The text of the token in the pre-processed buffer up to the pointer of
  \<^verbatim>\<open>get_cpp_tok_end_rtrim\<close> is the text up to its end without the trailing spaces.
\<close>

theorem tok_end_rtrim:
  assumes "m_cpp_tok_end s \<le> length (m_cpp s)"
  shows "take (get_cpp_tok_end_rtrim m_ctype s) (m_cpp s) =
    rev (dropWhile (my_isspace m_ctype) (rev (take (m_cpp_tok_end s) (m_cpp s))))"
  using assms by (simp add: get_cpp_tok_end_rtrim_def rtrim_from_spec)

theorem tok_end_rtrim_witness:
  "take (get_cpp_tok_end_rtrim (\<lambda>k. if k = 33 then 8 else 0)
      (lex_sample\<lparr>m_cpp := [65, 32, 66, 32, 32], m_cpp_tok_end := 5\<rparr>)) [65, 32, 66, 32, 32] =
    [65 :: uchar, 32, 66]"
  using tok_end_rtrim [of "lex_sample\<lparr>m_cpp := [65, 32, 66, 32, 32], m_cpp_tok_end := 5\<rparr>"
      "\<lambda>k. if k = 33 then 8 else 0"]
  by (simp add: my_isspace_def)

text \<open>
  What the analyser reads after the start of a token is its length, plus the one character
  it is ahead.
\<close>

theorem yyLength_run:
  assumes "lex_ok s" and "m_ptr s + sum_list (map lex_width cs) \<le> length (m_raw s)"
    and "0 < sum_list (map lex_width cs)" and "lex_run (start_token s) cs = Some s'"
  shows "yyLength s' = Some (of_nat (sum_list (map lex_width cs) - 1))"
proof -
  have "lex_ok (start_token s)" "m_ptr (start_token s) = m_ptr s" "m_raw (start_token s) = m_raw s"
      "m_tok_start (start_token s) = m_ptr s"
    using assms(1) by (auto simp: lex_ok_def start_token_def)
  then show ?thesis
    using lex_run_total [of "start_token s" cs] lex_run_frame [OF assms(4)] assms
    by (auto simp: yyLength_def)
qed

theorem yyLength_run_witness:
  "\<exists>s'. lex_run (start_token lex_sample) [Skipn 3, Get] = Some s' \<and> yyLength s' = Some 3"
proof -
  define s' where "s' = the (lex_run (start_token lex_sample) [Skipn 3, Get])"
  have r: "lex_run (start_token lex_sample) [Skipn 3, Get] = Some s'"
    by (simp add: s'_def start_token_def lex_sample_def yySkipn_def yyGet_def cpp_memcpy_def
        cpp_store_def numeral_eq_Suc)
  show ?thesis
    using yyLength_run [OF _ _ _ r] r by (simp add: lex_sample_def lex_ok_def)
qed

end
