(* ===== verification/Fixed_Bin.thy ===== *)
theory Fixed_Bin
  imports Prelude
begin

text \<open>
  Data types of a fixed number of bytes, such as INET6 and UUID: \<^verbatim>\<open>FixedBinTypeStorage\<close> of
  \<^verbatim>\<open>sql_type_fixedbin_storage.h\<close> and the templates of \<^verbatim>\<open>sql_type_fixedbin.h\<close>, namely the value
  \<^verbatim>\<open>Fbt\<close> and \<^verbatim>\<open>Fbt_null\<close>, the column \<^verbatim>\<open>Field_fbt\<close>, the comparators \<^verbatim>\<open>cmp_item_fbt\<close> and \<^verbatim>\<open>in_fbt\<close>, the
  items that hold or convert a value, and the sort keys and conversions of \<^verbatim>\<open>Type_handler_fbt\<close>.

  The class \<^verbatim>\<open>FbtImpl\<close> a template is instantiated with is a record of its functions. An item is
  what its virtual methods return. A conversion that fails returns \<^const>\<open>None\<close>, the null value of
  \<^verbatim>\<open>Fbt_null\<close>, along with the warnings it pushes. The flag \<^verbatim>\<open>oom\<close> says that the allocation of the
  result failed.
\<close>

section \<open>Strings, warnings and items\<close>

type_synonym bytes = "uchar list"

datatype charset = Charset_bin | Charset_latin1 | Charset nat

datatype err_conv =
    Err_string bytes charset
  | Err_decimal string
  | Err_integer longlong bool
  | Err_double string
  | Err_time string

datatype fbt_warning = Wrong_value err_conv | Truncated_value err_conv

text \<open>
  An item at some moment: whether its type handler is the one of the data type, what \<^verbatim>\<open>val_native\<close> and
  \<^verbatim>\<open>val_str\<close> return at that moment, and what is known of it before execution. Unless the item is a constant,
  its values differ from one execution to the next (\<open>runs_as\<close> below).
\<close>

record item =
  it_fbt :: bool
  it_native :: "bytes option"
  it_str :: "(bytes \<times> charset) option"
  it_maybe_null :: bool
  it_const :: bool
  it_expensive :: bool

record fbt_impl =
  binary_length :: nat
  max_char_length :: nat
  ascii_to_fbt :: "bytes \<Rightarrow> bytes option"
  fbt_text :: "bytes \<Rightarrow> bytes"
  memory_to_record :: "bytes \<Rightarrow> bytes"
  record_to_memory :: "bytes \<Rightarrow> bytes"
  fbt_cmp :: "bytes \<Rightarrow> bytes \<Rightarrow> int"

text \<open>The character sets: which are not ASCII compatible, and the copy to latin1.\<close>

record charset_lib =
  nonascii :: "charset \<Rightarrow> bool"
  well_formed_copy :: "nat \<Rightarrow> charset \<Rightarrow> bytes \<Rightarrow> bytes"

section \<open>FixedBinTypeStorage\<close>

definition fbs_zero :: "nat \<Rightarrow> bytes" where
  "fbs_zero native_len = replicate native_len 0"

definition fbs_init :: "nat \<Rightarrow> bytes \<Rightarrow> bytes" where
  "fbs_init native_len str =
     (if length str \<noteq> native_len then fbs_zero native_len else take native_len str)"

text \<open>The sign of the first difference.\<close>

fun memcmp :: "bytes \<Rightarrow> bytes \<Rightarrow> nat \<Rightarrow> int" where
  "memcmp (x # xs) (y # ys) (Suc n) = (if x < y then - 1 else if y < x then 1 else memcmp xs ys n)"
| "memcmp _ _ _ = 0"

definition fbs_cmp :: "bytes \<Rightarrow> bytes \<Rightarrow> int" where
  "fbs_cmp a b = memcmp a b (length b)"

definition fbs_memory_to_record :: "nat \<Rightarrow> bytes \<Rightarrow> bytes" where
  "fbs_memory_to_record native_len from = take native_len from"

definition fbs_record_to_memory :: "nat \<Rightarrow> bytes \<Rightarrow> bytes" where
  "fbs_record_to_memory native_len from = take native_len from"

fun only_zero_bytes :: "bytes \<Rightarrow> nat \<Rightarrow> bool" where
  "only_zero_bytes (c # cs) (Suc n) = (if c \<noteq> 0 then False else only_zero_bytes cs n)"
| "only_zero_bytes _ _ = True"

text \<open>A data type that keeps the defaults, like INET6; the conversions to and from text are its own.\<close>

definition storage_impl ::
    "nat \<Rightarrow> nat \<Rightarrow> (bytes \<Rightarrow> bytes option) \<Rightarrow> (bytes \<Rightarrow> bytes) \<Rightarrow> fbt_impl" where
  "storage_impl native_len max_char from_text to_text =
     \<lparr>binary_length = native_len, max_char_length = max_char, ascii_to_fbt = from_text,
      fbt_text = to_text, memory_to_record = fbs_memory_to_record native_len,
      record_to_memory = fbs_record_to_memory native_len, fbt_cmp = fbs_cmp\<rparr>"

section \<open>Fbt and Fbt_null\<close>

definition character_string_to_fbt ::
    "fbt_impl \<Rightarrow> charset_lib \<Rightarrow> bytes \<Rightarrow> charset \<Rightarrow> bytes option" where
  "character_string_to_fbt impl lib str cs =
     (if nonascii lib cs
      then ascii_to_fbt impl (well_formed_copy lib (max_char_length impl + 1) cs str)
      else ascii_to_fbt impl str)"

definition make_from_character_or_binary_string ::
    "fbt_impl \<Rightarrow> charset_lib \<Rightarrow> bytes \<times> charset \<Rightarrow> bool \<Rightarrow> bytes option \<times> fbt_warning list" where
  "make_from_character_or_binary_string impl lib str warn =
     (if snd str \<noteq> Charset_bin then
        let rc = character_string_to_fbt impl lib (fst str) (snd str) in
        (rc, if rc = None \<and> warn then [Wrong_value (Err_string (fst str) (snd str))] else [])
      else if length (fst str) \<noteq> binary_length impl then
        (None, if warn then [Wrong_value (Err_string (fst str) (snd str))] else [])
      else (Some (fst str), []))"

definition binary_to_fbt :: "fbt_impl \<Rightarrow> bytes \<Rightarrow> bytes option" where
  "binary_to_fbt impl str = (if length str \<noteq> binary_length impl then None else Some str)"

definition make_from_item ::
    "fbt_impl \<Rightarrow> charset_lib \<Rightarrow> item \<Rightarrow> bool \<Rightarrow> bytes option \<times> fbt_warning list" where
  "make_from_item impl lib it warn =
     (if it_fbt it then (it_native it, [])
      else case it_str it of
        Some str \<Rightarrow> make_from_character_or_binary_string impl lib str warn
      | None \<Rightarrow> (None, []))"

definition fbt_zero :: "fbt_impl \<Rightarrow> bytes" where
  "fbt_zero impl = fbs_zero (binary_length impl)"

definition fbt_record_to_memory :: "fbt_impl \<Rightarrow> bytes \<Rightarrow> bytes" where
  "fbt_record_to_memory impl ptr = record_to_memory impl ptr"

definition maybe_null_on_conversion :: "fbt_impl \<Rightarrow> charset_lib \<Rightarrow> item \<Rightarrow> bool" where
  "maybe_null_on_conversion impl lib it =
     (if it_maybe_null it then True
      else if it_fbt it then False
      else if \<not> it_const it \<or> it_expensive it then True
      else fst (make_from_item impl lib it False) = None)"

fun any_maybe_null_on_conversion :: "fbt_impl \<Rightarrow> charset_lib \<Rightarrow> item list \<Rightarrow> bool" where
  "any_maybe_null_on_conversion impl lib [] = False"
| "any_maybe_null_on_conversion impl lib (it # its) =
     (if maybe_null_on_conversion impl lib it then True
      else any_maybe_null_on_conversion impl lib its)"

definition fbt_to_record :: "fbt_impl \<Rightarrow> bytes \<Rightarrow> bytes" where
  "fbt_to_record impl v = memory_to_record impl v"

definition fbt_to_binary :: "bool \<Rightarrow> bytes \<Rightarrow> (bytes \<times> charset) option" where
  "fbt_to_binary oom v = (if oom then None else Some (v, Charset_bin))"

definition fbt_to_native :: "bool \<Rightarrow> bytes \<Rightarrow> bytes option" where
  "fbt_to_native oom v = (if oom then None else Some v)"

definition fbt_to_string :: "fbt_impl \<Rightarrow> bool \<Rightarrow> bytes \<Rightarrow> (bytes \<times> charset) option" where
  "fbt_to_string impl oom v = (if oom then None else Some (fbt_text impl v, Charset_latin1))"

definition fbt_to_bool :: "fbt_impl \<Rightarrow> bytes \<Rightarrow> bool" where
  "fbt_to_bool impl v \<longleftrightarrow> \<not> only_zero_bytes v (binary_length impl)"

definition fbt_value_cmp :: "fbt_impl \<Rightarrow> bytes \<Rightarrow> bytes \<Rightarrow> int" where
  "fbt_value_cmp impl v other = fbt_cmp impl v other"

definition fbt_null_text :: "fbt_impl \<Rightarrow> charset_lib \<Rightarrow> bytes \<Rightarrow> charset \<Rightarrow> bytes option" where
  "fbt_null_text impl lib str cs = character_string_to_fbt impl lib str cs"

definition fbt_null_string :: "fbt_impl \<Rightarrow> charset_lib \<Rightarrow> bytes \<times> charset \<Rightarrow> bytes option" where
  "fbt_null_string impl lib str = fbt_null_text impl lib (fst str) (snd str)"

definition fbt_null_binary :: "fbt_impl \<Rightarrow> bytes \<Rightarrow> bytes option" where
  "fbt_null_binary impl str = binary_to_fbt impl str"

definition fbt_null_item ::
    "fbt_impl \<Rightarrow> charset_lib \<Rightarrow> item \<Rightarrow> bool \<Rightarrow> bytes option \<times> fbt_warning list" where
  "fbt_null_item impl lib it warn = make_from_item impl lib it warn"

section \<open>Item_literal_fbt\<close>

definition literal_val_str :: "fbt_impl \<Rightarrow> bool \<Rightarrow> bytes \<Rightarrow> (bytes \<times> charset) option" where
  "literal_val_str impl oom v = fbt_to_string impl oom v"

definition literal_val_bool :: "fbt_impl \<Rightarrow> bytes \<Rightarrow> bool" where
  "literal_val_bool impl v = fbt_to_bool impl v"

text \<open>The name of the type in upper case, and the text of the value in quotes.\<close>

definition literal_print :: "fbt_impl \<Rightarrow> (bytes \<Rightarrow> bytes) \<Rightarrow> bytes \<Rightarrow> bytes \<Rightarrow> bytes \<Rightarrow> bytes" where
  "literal_print impl caseup type_name str v =
     str @ caseup type_name @ [39] @ fbt_text impl v @ [39]"

section \<open>Field_fbt\<close>

text \<open>
  A column: the bytes of its value in the record, its null bit (\<^const>\<open>None\<close> when it has none),
  \<^verbatim>\<open>maybe_null\<close> of its table, and whether warnings are counted beyond expressions.
\<close>

record field_fbt =
  f_ptr :: bytes
  f_null :: "bool option"
  f_table_maybe_null :: bool
  f_warns :: bool
  f_warnings :: "fbt_warning list"

definition field_maybe_null :: "field_fbt \<Rightarrow> bool" where
  "field_maybe_null f \<longleftrightarrow> f_null f \<noteq> None \<or> f_table_maybe_null f"

definition field_set_null :: "field_fbt \<Rightarrow> field_fbt" where
  "field_set_null f = (if f_null f \<noteq> None then f\<lparr>f_null := Some True\<rparr> else f)"

definition field_set_notnull :: "field_fbt \<Rightarrow> field_fbt" where
  "field_set_notnull f = (if f_null f \<noteq> None then f\<lparr>f_null := Some False\<rparr> else f)"

definition set_min_value :: "fbt_impl \<Rightarrow> field_fbt \<Rightarrow> field_fbt" where
  "set_min_value impl f = f\<lparr>f_ptr := replicate (binary_length impl) 0\<rparr>"

definition set_max_value :: "fbt_impl \<Rightarrow> field_fbt \<Rightarrow> field_fbt" where
  "set_max_value impl f = f\<lparr>f_ptr := replicate (binary_length impl) 0xFF\<rparr>"

definition store_warning :: "field_fbt \<Rightarrow> err_conv \<Rightarrow> field_fbt" where
  "store_warning f str =
     (if \<not> f_warns f then f else f\<lparr>f_warnings := f_warnings f @ [Truncated_value str]\<rparr>)"

definition set_null_with_warn :: "field_fbt \<Rightarrow> err_conv \<Rightarrow> int \<times> field_fbt" where
  "set_null_with_warn f str = (1, field_set_null (store_warning f str))"

definition set_min_value_with_warn :: "fbt_impl \<Rightarrow> field_fbt \<Rightarrow> err_conv \<Rightarrow> int \<times> field_fbt" where
  "set_min_value_with_warn impl f str = (1, set_min_value impl (store_warning f str))"

definition set_max_value_with_warn :: "fbt_impl \<Rightarrow> field_fbt \<Rightarrow> err_conv \<Rightarrow> int \<times> field_fbt" where
  "set_max_value_with_warn impl f str = (1, set_max_value impl (store_warning f str))"

definition store_fbt_null_with_warn ::
    "fbt_impl \<Rightarrow> field_fbt \<Rightarrow> bytes option \<Rightarrow> err_conv \<Rightarrow> int \<times> field_fbt" where
  "store_fbt_null_with_warn impl f fbt err =
     (case fbt of
        None \<Rightarrow> (if field_maybe_null f then set_null_with_warn f err
                 else set_min_value_with_warn impl f err)
      | Some v \<Rightarrow> (0, f\<lparr>f_ptr := fbt_to_record impl v\<rparr>))"

definition store_text :: "fbt_impl \<Rightarrow> charset_lib \<Rightarrow> field_fbt \<Rightarrow> bytes \<Rightarrow> charset \<Rightarrow> int \<times> field_fbt" where
  "store_text impl lib f str cs =
     store_fbt_null_with_warn impl f (fbt_null_text impl lib str cs) (Err_string str cs)"

definition store_binary :: "fbt_impl \<Rightarrow> field_fbt \<Rightarrow> bytes \<Rightarrow> int \<times> field_fbt" where
  "store_binary impl f str =
     store_fbt_null_with_warn impl f (fbt_null_binary impl str) (Err_string str Charset_bin)"

definition field_store :: "fbt_impl \<Rightarrow> charset_lib \<Rightarrow> field_fbt \<Rightarrow> bytes \<Rightarrow> charset \<Rightarrow> int \<times> field_fbt" where
  "field_store impl lib f str cs =
     (if cs = Charset_bin then store_binary impl f str else store_text impl lib f str cs)"

definition store_hex_hybrid :: "fbt_impl \<Rightarrow> field_fbt \<Rightarrow> bytes \<Rightarrow> int \<times> field_fbt" where
  "store_hex_hybrid impl f str = store_binary impl f str"

definition store_decimal :: "fbt_impl \<Rightarrow> field_fbt \<Rightarrow> string \<Rightarrow> int \<times> field_fbt" where
  "store_decimal impl f num = set_min_value_with_warn impl f (Err_decimal num)"

definition store_longlong :: "fbt_impl \<Rightarrow> field_fbt \<Rightarrow> longlong \<Rightarrow> bool \<Rightarrow> int \<times> field_fbt" where
  "store_longlong impl f nr unsigned_flag =
     set_min_value_with_warn impl f (Err_integer nr unsigned_flag)"

definition store_double :: "fbt_impl \<Rightarrow> field_fbt \<Rightarrow> string \<Rightarrow> int \<times> field_fbt" where
  "store_double impl f nr = set_min_value_with_warn impl f (Err_double nr)"

definition store_time_dec :: "fbt_impl \<Rightarrow> field_fbt \<Rightarrow> string \<Rightarrow> int \<times> field_fbt" where
  "store_time_dec impl f ltime = set_min_value_with_warn impl f (Err_time ltime)"

text \<open>\<^const>\<open>None\<close> when the value has not the length the assertion asks for.\<close>

definition store_native :: "fbt_impl \<Rightarrow> field_fbt \<Rightarrow> bytes \<Rightarrow> (int \<times> field_fbt) option" where
  "store_native impl f value =
     (if length value = binary_length impl
      then Some (0, f\<lparr>f_ptr := memory_to_record impl value\<rparr>) else None)"

definition field_val_native :: "fbt_impl \<Rightarrow> bool \<Rightarrow> field_fbt \<Rightarrow> bytes option" where
  "field_val_native impl oom f = (if oom then None else Some (record_to_memory impl (f_ptr f)))"

definition field_to_fbt :: "fbt_impl \<Rightarrow> field_fbt \<Rightarrow> bytes" where
  "field_to_fbt impl f = fbt_record_to_memory impl (f_ptr f)"

definition field_val_str :: "fbt_impl \<Rightarrow> bool \<Rightarrow> field_fbt \<Rightarrow> (bytes \<times> charset) option" where
  "field_val_str impl oom f = fbt_to_string impl oom (field_to_fbt impl f)"

definition field_val_bool :: "fbt_impl \<Rightarrow> field_fbt \<Rightarrow> bool" where
  "field_val_bool impl f \<longleftrightarrow> \<not> only_zero_bytes (f_ptr f) (binary_length impl)"

definition field_cmp :: "fbt_impl \<Rightarrow> bytes \<Rightarrow> bytes \<Rightarrow> int" where
  "field_cmp impl a b = memcmp a b (binary_length impl)"

definition field_sort_string :: "field_fbt \<Rightarrow> nat \<Rightarrow> bytes" where
  "field_sort_string f len = take len (f_ptr f)"

definition get_equal_const_item :: "fbt_impl \<Rightarrow> charset_lib \<Rightarrow> item \<Rightarrow> bytes option" where
  "get_equal_const_item impl lib const_item = fst (fbt_null_item impl lib const_item True)"

section \<open>cmp_item_fbt\<close>

abbreviation (input) UNKNOWN :: int where "UNKNOWN \<equiv> - 1"

record cmp_item_fbt =
  ci_native :: bytes
  ci_null_value :: bool

text \<open>A failed conversion leaves bytes in the value that no comparison looks at; they are zero here.\<close>

definition ci_store_value :: "fbt_impl \<Rightarrow> charset_lib \<Rightarrow> item \<Rightarrow> cmp_item_fbt \<times> fbt_warning list" where
  "ci_store_value impl lib it =
     (let (v, ws) = make_from_item impl lib it True in
      (case v of None \<Rightarrow> \<lparr>ci_native = fbt_zero impl, ci_null_value = True\<rparr>
              | Some v \<Rightarrow> \<lparr>ci_native = v, ci_null_value = False\<rparr>, ws))"

definition ci_cmp_not_null :: "fbt_impl \<Rightarrow> charset_lib \<Rightarrow> cmp_item_fbt \<Rightarrow> bytes \<times> charset \<Rightarrow> int option" where
  "ci_cmp_not_null impl lib ci val =
     map_option (fbt_value_cmp impl (ci_native ci)) (fbt_null_string impl lib val)"

definition ci_cmp :: "fbt_impl \<Rightarrow> charset_lib \<Rightarrow> cmp_item_fbt \<Rightarrow> item \<Rightarrow> int" where
  "ci_cmp impl lib ci arg =
     (case fst (fbt_null_item impl lib arg True) of
        None \<Rightarrow> UNKNOWN
      | Some v \<Rightarrow> if ci_null_value ci then UNKNOWN
                  else of_bool (fbt_value_cmp impl (ci_native ci) v \<noteq> 0))"

definition ci_compare :: "fbt_impl \<Rightarrow> cmp_item_fbt \<Rightarrow> cmp_item_fbt \<Rightarrow> int option" where
  "ci_compare impl ci other =
     (if ci_null_value ci \<or> ci_null_value other then None
      else Some (fbt_value_cmp impl (ci_native ci) (ci_native other)))"

section \<open>in_fbt\<close>

text \<open>The vector of an IN list; a position outside of it is \<^const>\<open>None\<close>.\<close>

definition in_set :: "fbt_impl \<Rightarrow> charset_lib \<Rightarrow> bytes list \<Rightarrow> nat \<Rightarrow> item \<Rightarrow> (bool \<times> bytes list) option" where
  "in_set impl lib base pos it =
     (if pos < length base then
        (case fst (fbt_null_item impl lib it True) of
           None \<Rightarrow> Some (True, base[pos := fbt_zero impl])
         | Some v \<Rightarrow> Some (False, base[pos := v]))
      else None)"

definition in_get_value :: "fbt_impl \<Rightarrow> charset_lib \<Rightarrow> item \<Rightarrow> bytes option" where
  "in_get_value impl lib it = fst (fbt_null_item impl lib it True)"

definition in_value_to_item :: "bytes list \<Rightarrow> nat \<Rightarrow> bytes option" where
  "in_value_to_item base pos = (if pos < length base then Some (base ! pos) else None)"

section \<open>Items that hold a value\<close>

text \<open>\<^verbatim>\<open>Item_copy_fbt\<close>: the copied value, or null.\<close>

definition copy_copy :: "item \<Rightarrow> bytes option" where
  "copy_copy it = it_native it"

definition copy_val_native :: "bool \<Rightarrow> bytes option \<Rightarrow> bytes option" where
  "copy_val_native oom c = (case c of None \<Rightarrow> None | Some v \<Rightarrow> if oom then None else Some v)"

definition copy_val_str :: "fbt_impl \<Rightarrow> bool \<Rightarrow> bytes option \<Rightarrow> (bytes \<times> charset) option" where
  "copy_val_str impl oom c =
     (case c of None \<Rightarrow> None
      | Some v \<Rightarrow> (case fbt_null_binary impl v of None \<Rightarrow> None
                   | Some v \<Rightarrow> fbt_to_string impl oom v))"

text \<open>
  \<^verbatim>\<open>Item_typecast_fbt\<close>: the value and the new \<^verbatim>\<open>null_value\<close>. \<^verbatim>\<open>print\<close> takes what the argument prints.
\<close>

definition typecast_val_str ::
    "fbt_impl \<Rightarrow> charset_lib \<Rightarrow> bool \<Rightarrow> item \<Rightarrow> (bytes \<times> charset) option \<times> bool" where
  "typecast_val_str impl lib oom arg =
     (let r = (case fst (fbt_null_item impl lib arg True) of None \<Rightarrow> None
               | Some v \<Rightarrow> fbt_to_string impl oom v)
      in (r, r = None))"

definition typecast_val_native ::
    "fbt_impl \<Rightarrow> charset_lib \<Rightarrow> bool \<Rightarrow> item \<Rightarrow> bytes option \<times> bool" where
  "typecast_val_native impl lib oom arg =
     (let r = (case fst (fbt_null_item impl lib arg True) of None \<Rightarrow> None
               | Some v \<Rightarrow> fbt_to_native oom v)
      in (r, r = None))"

definition typecast_maybe_null :: "fbt_impl \<Rightarrow> charset_lib \<Rightarrow> bool \<Rightarrow> item \<Rightarrow> bool" where
  "typecast_maybe_null impl lib maybe_null arg =
     (if maybe_null_on_conversion impl lib arg then True else maybe_null)"

text \<open>
  \<^verbatim>\<open>Item_cache_fbt\<close>: \<^verbatim>\<open>example\<close> is the conversion of the cached item, \<^const>\<open>None\<close> when there is none;
  \<^verbatim>\<open>has_value\<close> is the one of \<^verbatim>\<open>Item_cache\<close> in \<^verbatim>\<open>item.h\<close>.
\<close>

record cache_fbt =
  ca_example :: "bytes option option"
  ca_cached :: bool
  ca_value :: bytes
  ca_null_value :: bool

definition cache_value :: "cache_fbt \<Rightarrow> bool \<times> cache_fbt" where
  "cache_value c =
     (case ca_example c of
        None \<Rightarrow> (False, c)
      | Some r \<Rightarrow>
          (True, c\<lparr>ca_cached := True, ca_null_value := (r = None),
             ca_value := (case r of Some v \<Rightarrow> v | None \<Rightarrow> ca_value c)\<rparr>))"

definition has_value :: "cache_fbt \<Rightarrow> bool \<times> cache_fbt" where
  "has_value c =
     (let (b, c) = (if ca_cached c then (True, c) else cache_value c)
      in (b \<and> \<not> ca_null_value c, c))"

definition cache_val_str :: "fbt_impl \<Rightarrow> bool \<Rightarrow> cache_fbt \<Rightarrow> (bytes \<times> charset) option \<times> cache_fbt" where
  "cache_val_str impl oom c =
     (let (b, c) = has_value c in
      (if \<not> b then None
       else (case fbt_null_binary impl (ca_value c) of None \<Rightarrow> None
             | Some v \<Rightarrow> fbt_to_string impl oom v), c))"

definition cache_val_native :: "bool \<Rightarrow> cache_fbt \<Rightarrow> bytes option \<times> cache_fbt" where
  "cache_val_native oom c =
     (let (b, c) = has_value c in
      (if \<not> b then None else if oom then None else Some (ca_value c), c))"

section \<open>Type_handler_fbt\<close>

text \<open>
  A binary string is taken as it is, with a warning when its length or the copy is wrong; the
  conversion of a character string warns only when the text is not a value of the type.
\<close>

definition character_or_binary_string_to_native ::
    "fbt_impl \<Rightarrow> charset_lib \<Rightarrow> bool \<Rightarrow> bytes \<times> charset \<Rightarrow> bytes option \<times> fbt_warning list" where
  "character_or_binary_string_to_native impl lib oom str =
     (let w = [Wrong_value (Err_string (fst str) (snd str))] in
      if snd str = Charset_bin then
        (if length (fst str) \<noteq> binary_length impl \<or> oom then (None, w) else (Some (fst str), []))
      else case fbt_null_string impl lib str of
        None \<Rightarrow> (None, w)
      | Some v \<Rightarrow> (fbt_to_native oom v, []))"

definition val_native_with_conversion ::
    "fbt_impl \<Rightarrow> charset_lib \<Rightarrow> bool \<Rightarrow> item \<Rightarrow> bytes option \<times> fbt_warning list" where
  "val_native_with_conversion impl lib oom it =
     (if it_fbt it then (it_native it, [])
      else case it_str it of
        Some str \<Rightarrow> character_or_binary_string_to_native impl lib oom str
      | None \<Rightarrow> (None, []))"

definition stored_field_cmp_to_item ::
    "fbt_impl \<Rightarrow> charset_lib \<Rightarrow> bool \<Rightarrow> field_fbt \<Rightarrow> item \<Rightarrow> int" where
  "stored_field_cmp_to_item impl lib oom f it =
     (case fst (fbt_null_item impl lib it True) of
        None \<Rightarrow> 0
      | Some ni \<Rightarrow> (case field_val_native impl oom f of
                      None \<Rightarrow> 0
                    | Some tmp \<Rightarrow> - fbt_value_cmp impl ni tmp))"

definition item_decimal_precision :: "fbt_impl \<Rightarrow> nat" where
  "item_decimal_precision impl = (binary_length impl * 8 + 7) div 10 * 3"

definition item_eq_value :: "fbt_impl \<Rightarrow> charset_lib \<Rightarrow> item \<Rightarrow> item \<Rightarrow> bool" where
  "item_eq_value impl lib a b =
     (case (fst (fbt_null_item impl lib a True), fst (fbt_null_item impl lib b True)) of
        (Some na, Some nb) \<Rightarrow> fbt_value_cmp impl na nb = 0
      | _ \<Rightarrow> False)"

definition item_val_bool :: "item \<Rightarrow> bool" where
  "item_val_bool it =
     (case it_native it of None \<Rightarrow> False | Some tmp \<Rightarrow> \<not> only_zero_bytes tmp (length tmp))"

text \<open>
  The loop of \<^verbatim>\<open>Item_hybrid_func_fix_attributes\<close> over the arguments; \<^verbatim>\<open>IFNULL\<close> starts at the second
  one.
\<close>

fun hybrid_maybe_null :: "fbt_impl \<Rightarrow> charset_lib \<Rightarrow> bool \<Rightarrow> item list \<Rightarrow> bool" where
  "hybrid_maybe_null impl lib maybe_null [] = maybe_null"
| "hybrid_maybe_null impl lib maybe_null (it # its) =
     (if maybe_null_on_conversion impl lib it then True
      else hybrid_maybe_null impl lib maybe_null its)"

definition hybrid_func_fix_attributes ::
    "fbt_impl \<Rightarrow> charset_lib \<Rightarrow> bool \<Rightarrow> bool \<Rightarrow> item list \<Rightarrow> bool" where
  "hybrid_func_fix_attributes impl lib ifnull maybe_null items =
     hybrid_maybe_null impl lib maybe_null (drop (if ifnull then 1 else 0) items)"

text \<open>
  The key of a value for sorting; \<^const>\<open>None\<close> when an assertion fails. A nullable item has a byte
  before the value, which is 0 for null. \<open>sort_length\<close> is the length of the sort field.
\<close>

definition make_sort_key_part :: "fbt_impl \<Rightarrow> item \<Rightarrow> nat \<Rightarrow> bytes option" where
  "make_sort_key_part impl it sort_length =
     (if \<not> it_fbt it then None
      else case it_native it of
        None \<Rightarrow> if it_maybe_null it then Some (replicate (binary_length impl + 1) 0) else None
      | Some tmp \<Rightarrow>
          if length tmp = binary_length impl \<and> binary_length impl = sort_length
          then Some ((if it_maybe_null it then [1] else []) @ memory_to_record impl tmp)
          else None)"

definition make_packed_sort_key_part :: "fbt_impl \<Rightarrow> item \<Rightarrow> nat \<Rightarrow> (bytes \<times> nat) option" where
  "make_packed_sort_key_part impl it sort_length =
     (if \<not> it_fbt it then None
      else case it_native it of
        None \<Rightarrow> if it_maybe_null it then Some ([0], 0) else None
      | Some tmp \<Rightarrow>
          if length tmp = binary_length impl \<and> binary_length impl = sort_length
          then Some ((if it_maybe_null it then [1] else []) @ memory_to_record impl tmp, length tmp)
          else None)"

definition partition_field_append_value ::
    "fbt_impl \<Rightarrow> charset_lib \<Rightarrow> bool \<Rightarrow> bytes \<Rightarrow> item \<Rightarrow> bytes option" where
  "partition_field_append_value impl lib oom to it =
     (case fst (fbt_null_item impl lib it True) of
        None \<Rightarrow> None
      | Some fbt \<Rightarrow> (case fbt_to_string impl oom fbt of
                       None \<Rightarrow> None
                     | Some s \<Rightarrow> Some (to @ [39] @ fst s @ [39])))"

definition item_param_val_native ::
    "fbt_impl \<Rightarrow> charset_lib \<Rightarrow> bool \<Rightarrow> item \<Rightarrow> bytes option" where
  "item_param_val_native impl lib oom it =
     (case it_str it of
        None \<Rightarrow> None
      | Some str \<Rightarrow> (case fbt_null_string impl lib str of
                       None \<Rightarrow> None | Some v \<Rightarrow> fbt_to_native oom v))"

text \<open>An item for a constant: the null literal or a literal of the type.\<close>

definition make_const_item_for_comparison ::
    "fbt_impl \<Rightarrow> charset_lib \<Rightarrow> item \<Rightarrow> bytes option" where
  "make_const_item_for_comparison impl lib src = fst (fbt_null_item impl lib src True)"

definition cmp_native :: "fbt_impl \<Rightarrow> bytes \<Rightarrow> bytes \<Rightarrow> int" where
  "cmp_native impl a b = fbt_cmp impl a b"

definition hybrid_field_type_val_str :: "fbt_impl \<Rightarrow> bool \<Rightarrow> item \<Rightarrow> (bytes \<times> charset) option" where
  "hybrid_field_type_val_str impl oom it =
     (case it_native it of None \<Rightarrow> None
      | Some native \<Rightarrow> (case fbt_null_binary impl native of None \<Rightarrow> None
                        | Some v \<Rightarrow> fbt_to_string impl oom v))"

definition min_max_val_str ::
    "fbt_impl \<Rightarrow> charset_lib \<Rightarrow> bool \<Rightarrow> item \<Rightarrow> (bytes \<times> charset) option" where
  "min_max_val_str impl lib oom it =
     (case fst (fbt_null_item impl lib it True) of None \<Rightarrow> None
      | Some v \<Rightarrow> fbt_to_string impl oom v)"

text \<open>The nullability of comparisons, of BETWEEN (three arguments) and of IN.\<close>

definition rowready_func2_maybe_null :: "fbt_impl \<Rightarrow> charset_lib \<Rightarrow> bool \<Rightarrow> item list \<Rightarrow> bool" where
  "rowready_func2_maybe_null impl lib maybe_null args =
     (if \<not> maybe_null \<and> any_maybe_null_on_conversion impl lib (take 2 args) then True
      else maybe_null)"

definition between_maybe_null :: "fbt_impl \<Rightarrow> charset_lib \<Rightarrow> bool \<Rightarrow> item list \<Rightarrow> bool" where
  "between_maybe_null impl lib maybe_null args =
     (if \<not> maybe_null \<and> any_maybe_null_on_conversion impl lib (take 3 args) then True
      else maybe_null)"

definition in_maybe_null :: "fbt_impl \<Rightarrow> charset_lib \<Rightarrow> bool \<Rightarrow> item list \<Rightarrow> bool" where
  "in_maybe_null impl lib maybe_null args =
     (if \<not> maybe_null \<and> any_maybe_null_on_conversion impl lib args then True else maybe_null)"

text \<open>The type of a cast to a binary string, by its length in bytes.\<close>

datatype binary_handler = Handler_string | Handler_varchar | Handler_blob nat

definition cast_return_type_handler :: "nat \<Rightarrow> binary_handler" where
  "cast_return_type_handler max_length =
     (if max_length > 65532 then Handler_blob max_length
      else if max_length > 255 then Handler_varchar else Handler_string)"

text \<open>What \<^verbatim>\<open>print\<close> of a cast appends: \<open>arg\<close> is the printed argument.\<close>

definition typecast_print :: "bytes \<Rightarrow> bytes \<Rightarrow> bytes \<Rightarrow> bytes" where
  "typecast_print type_name str arg =
     str @ [99, 97, 115, 116, 40] @ arg @ [32, 97, 115, 32] @ type_name @ [41]"

text \<open>
  The leaf of the range optimizer for \<open>field op value\<close>: \<open>optimizable\<close> is what
  \<^verbatim>\<open>can_optimize_scalar_range\<close> answers, \<open>err\<close> and \<open>real_null\<close> what saving the value in the column
  returned and left.
\<close>

datatype mm_leaf = No_leaf | Null_element | Impossible | Stored_leaf

definition get_mm_leaf :: "bool \<Rightarrow> int \<Rightarrow> bool \<Rightarrow> bool \<Rightarrow> bool \<Rightarrow> mm_leaf" where
  "get_mm_leaf optimizable err real_null op_eq op_equal =
     (if \<not> optimizable then No_leaf
      else if (\<not> op_equal \<and> real_null) \<or> err < 0 then Null_element
      else if err > 0 then (if op_eq \<or> op_equal then Impossible else No_leaf)
      else Stored_leaf)"

text \<open>The common type of two handlers of the collection.\<close>

definition aggregate_common :: "nat \<Rightarrow> nat \<Rightarrow> nat option" where
  "aggregate_common a b = (if a = b then Some a else None)"


section \<open>Comparison of bytes\<close>

text \<open>\<^const>\<open>memcmp\<close> compares the bytes as digits of a number, high byte first.\<close>

fun be_number :: "bytes \<Rightarrow> nat" where
  "be_number [] = 0"
| "be_number (x # xs) = unat x * 256 ^ length xs + be_number xs"

lemma be_number_less: "be_number xs < 256 ^ length xs"
proof (induction xs)
  case (Cons x xs)
  have "unat x * 256 ^ length xs \<le> 255 * 256 ^ length xs"
    using unat_lt_pow [of 8 x] by (intro mult_right_mono) auto
  then show ?case using Cons by (simp only: be_number.simps list.size power_Suc add_0_right add_Suc_right)
qed simp

lemma be_number_first:
  assumes "x < y" and "length xs = length ys"
  shows "be_number (x # xs) < be_number (y # ys)"
proof -
  have "unat x + 1 \<le> unat y" using assms(1) by (simp add: word_less_nat_alt)
  then have "(unat x + 1) * 256 ^ length ys \<le> unat y * 256 ^ length ys" by (rule mult_right_mono) simp
  then show ?thesis using be_number_less [of xs] assms(2) by simp
qed

lemma memcmp_number:
  "length xs = n \<Longrightarrow> length ys = n \<Longrightarrow>
     memcmp xs ys n = sgn (int (be_number xs) - int (be_number ys))"
proof (induction xs ys n rule: memcmp.induct)
  case (1 x xs y ys n)
  show ?case
  proof (cases x y rule: linorder_cases)
    case equal
    then show ?thesis using 1 by simp
  qed (use 1 be_number_first [of x y xs ys] be_number_first [of y x ys xs] in
      \<open>auto simp: sgn_if simp del: be_number.simps\<close>)
qed auto

lemma be_number_inj: "length xs = length ys \<Longrightarrow> be_number xs = be_number ys \<longleftrightarrow> xs = ys"
proof (induction xs ys rule: list_induct2)
  case (Cons x xs y ys)
  then show ?case
    using be_number_first [of x y xs ys] be_number_first [of y x ys xs]
    by (cases x y rule: linorder_cases) auto
qed simp

lemma memcmp_eq_iff: "length xs = n \<Longrightarrow> length ys = n \<Longrightarrow> memcmp xs ys n = 0 \<longleftrightarrow> xs = ys"
  using be_number_inj [of xs ys] by (simp add: memcmp_number sgn_if)

lemma sgn_memcmp [simp]: "sgn (memcmp xs ys n) = memcmp xs ys n"
  by (induction xs ys n rule: memcmp.induct) simp_all

lemma only_zero_bytes_iff: "only_zero_bytes xs (length xs) \<longleftrightarrow> xs = replicate (length xs) 0"
  by (induction xs) auto

section \<open>The contract of a data type\<close>

text \<open>
  What the header asks of \<^verbatim>\<open>FbtImpl\<close>: the form of a value in the record has its length and gives the value back.
\<close>

locale fbt_storage =
  fixes impl :: fbt_impl
  assumes record_length: "length v = binary_length impl \<Longrightarrow> length (memory_to_record impl v) = binary_length impl"
    and record_memory: "length v = binary_length impl \<Longrightarrow> record_to_memory impl (memory_to_record impl v) = v"
begin

lemma stored_value:
  "length v = binary_length impl \<Longrightarrow>
     field_to_fbt impl (snd (store_fbt_null_with_warn impl f (Some v) err)) = v"
  by (simp add: store_fbt_null_with_warn_def field_to_fbt_def fbt_record_to_memory_def
      fbt_to_record_def record_memory)

lemma native_round_trip:
  assumes "store_native impl f v = Some (r, f')"
  shows "field_val_native impl False f' = Some v"
  using assms by (auto simp: store_native_def field_val_native_def record_memory split: if_splits)

text \<open>A value that is stored is what the column returns, in each of its forms.\<close>

lemma stored_forms:
  assumes "length v = binary_length impl" and "f_ptr f = memory_to_record impl v"
  shows "field_val_native impl False f = Some v" and "field_to_fbt impl f = v"
    and "field_val_str impl False f = Some (fbt_text impl v, Charset_latin1)"
  using assms record_memory
  by (simp_all add: field_val_native_def field_to_fbt_def field_val_str_def fbt_to_string_def
      fbt_record_to_memory_def)

end

text \<open>For a type whose columns are sorted as its values, \<^verbatim>\<open>memcmp\<close> of the records is the comparison of the type.\<close>

locale fbt_type = fbt_storage +
  assumes record_order: "length v = binary_length impl \<Longrightarrow> length w = binary_length impl \<Longrightarrow>
      memcmp (memory_to_record impl v) (memory_to_record impl w) (binary_length impl) =
      sgn (fbt_cmp impl v w)"
begin

lemma cmp_eq: "length v = binary_length impl \<Longrightarrow> length w = binary_length impl \<Longrightarrow>
    fbt_cmp impl v w = 0 \<longleftrightarrow> v = w"
  using record_order [of v w] memcmp_eq_iff [OF record_length record_length, of v w] record_memory
  by (metis sgn_0_0)

text \<open>The rows of a column are ordered as its values.\<close>

lemma field_order:
  assumes "length v = binary_length impl" and "length w = binary_length impl"
  shows "field_cmp impl (f_ptr (snd (store_fbt_null_with_warn impl f (Some v) e)))
     (f_ptr (snd (store_fbt_null_with_warn impl g (Some w) e'))) = sgn (fbt_value_cmp impl v w)"
  using assms
  by (simp add: store_fbt_null_with_warn_def field_cmp_def fbt_to_record_def fbt_value_cmp_def
      record_order)

end

text \<open>
  A type like UUID, whose form in the record is another one than in memory: four bytes, the last one first.
\<close>

definition swapped :: fbt_impl where
  "swapped = (storage_impl 4 4 (\<lambda>s. if length s = 4 then Some s else None) (\<lambda>v. v))
     \<lparr>memory_to_record := rev, record_to_memory := rev, fbt_cmp := \<lambda>v w. memcmp (rev v) (rev w) 4\<rparr>"

interpretation swapped: fbt_storage swapped
  by unfold_locales (simp_all add: swapped_def storage_impl_def)

interpretation swapped_order: fbt_type swapped
  by unfold_locales (simp add: swapped_def storage_impl_def)

lemma storage_fbt_storage: "fbt_storage (storage_impl n m from_text to_text)"
  by unfold_locales (simp_all add: storage_impl_def fbs_memory_to_record_def fbs_record_to_memory_def)

interpretation storage: fbt_storage "storage_impl n m from_text to_text" for n m from_text to_text
  by (rule storage_fbt_storage)

interpretation storage_order: fbt_type "storage_impl n m from_text to_text" for n m from_text to_text
  by unfold_locales (simp add: storage_impl_def fbs_memory_to_record_def fbs_cmp_def)

section \<open>Sort keys\<close>

text \<open>A key in which every value has the same length starts with the byte for null, if there is one.\<close>

lemma memcmp_prefix_byte: "memcmp (x # xs) (x # ys) (n + 1) = memcmp xs ys n"
  by simp

lemma sort_key_order:
  assumes "it_maybe_null a = it_maybe_null b"
    and "make_sort_key_part impl a len = Some ka" and "make_sort_key_part impl b len = Some kb"
  shows "memcmp ka kb (binary_length impl + (if it_maybe_null a then 1 else 0)) =
    (case (it_native a, it_native b) of
       (None, None) \<Rightarrow> 0 | (None, Some _) \<Rightarrow> - 1 | (Some _, None) \<Rightarrow> 1
     | (Some v, Some w) \<Rightarrow> field_cmp impl (fbt_to_record impl v) (fbt_to_record impl w))"
proof -
  have "memcmp (replicate k 0) (replicate k 0) k = 0" for k by (rule memcmp_eq_iff [THEN iffD2]) simp_all
  then show ?thesis
    using assms
    by (auto simp: make_sort_key_part_def field_cmp_def fbt_to_record_def split: option.splits if_splits)
qed

lemma storage_column_order:
  assumes "impl = storage_impl n m a2f tos" and "length v = n" and "length w = n"
  shows "field_cmp impl (fbt_to_record impl v) (fbt_to_record impl w) = cmp_native impl v w"
  using assms
  by (simp add: field_cmp_def fbt_to_record_def cmp_native_def storage_impl_def fbs_memory_to_record_def fbs_cmp_def)

section \<open>Nullability\<close>

text \<open>
  An item when a function is prepared, and at some execution of it. What is known of the item beforehand stays;
  the value of a constant that is not expensive to compute does, too; and an item of the type that is not nullable
  has a value.
\<close>

definition runs_as :: "item \<Rightarrow> item \<Rightarrow> bool" where
  "runs_as it rt \<longleftrightarrow>
     it_fbt rt = it_fbt it \<and> it_maybe_null rt = it_maybe_null it \<and>
     it_const rt = it_const it \<and> it_expensive rt = it_expensive it \<and>
     (it_const it \<and> \<not> it_expensive it \<longrightarrow> it_native rt = it_native it \<and> it_str rt = it_str it) \<and>
     (\<not> it_maybe_null it \<and> it_fbt it \<longrightarrow> it_native rt \<noteq> None)"

definition converts :: "fbt_impl \<Rightarrow> charset_lib \<Rightarrow> item \<Rightarrow> bool" where
  "converts impl lib it \<longleftrightarrow> fst (fbt_null_item impl lib it True) \<noteq> None"

lemma make_from_item_warn: "fst (make_from_item impl lib it w) = fst (make_from_item impl lib it w')"
  by (auto simp: make_from_item_def make_from_character_or_binary_string_def Let_def
      split: option.splits)

lemma not_null_converts:
  assumes "\<not> maybe_null_on_conversion impl lib it" and "runs_as it rt"
  shows "converts impl lib rt"
proof (cases "it_fbt it")
  case True
  then show ?thesis using assms
    by (auto simp: maybe_null_on_conversion_def converts_def fbt_null_item_def runs_as_def make_from_item_def
      split: if_splits)
next
  case False
  then have c: "it_const it" "\<not> it_expensive it" "fst (make_from_item impl lib it False) \<noteq> None"
    using assms(1) by (auto simp: maybe_null_on_conversion_def split: if_splits)
  then have "it_str rt = it_str it" "it_native rt = it_native it" "it_fbt rt = it_fbt it"
    using assms(2) by (simp_all add: runs_as_def)
  then have "fst (make_from_item impl lib rt False) = fst (make_from_item impl lib it False)"
    by (simp add: make_from_item_def)
  then show ?thesis
    using c(3) make_from_item_warn [of impl lib rt True False] by (simp add: converts_def fbt_null_item_def)
qed

lemma maybe_null_on_conversion_iff:
  "maybe_null_on_conversion impl lib it \<longleftrightarrow> it_maybe_null it \<or>
     \<not> it_fbt it \<and> (\<not> it_const it \<or> it_expensive it \<or> \<not> converts impl lib it)"
  using make_from_item_warn [of impl lib it True False]
  by (auto simp: maybe_null_on_conversion_def converts_def fbt_null_item_def)

lemma any_maybe_null_iff:
  "any_maybe_null_on_conversion impl lib its \<longleftrightarrow> (\<exists>it \<in> set its. maybe_null_on_conversion impl lib it)"
  by (induction its) auto

lemma hybrid_maybe_null_any:
  "hybrid_maybe_null impl lib b its \<longleftrightarrow> any_maybe_null_on_conversion impl lib its \<or> b"
  by (induction its) auto

lemma not_null_arguments:
  assumes "\<not> any_maybe_null_on_conversion impl lib its" and "list_all2 runs_as its rts"
  shows "list_all (converts impl lib) rts"
  using assms(2,1)
proof (induction rule: list_all2_induct)
  case (Cons it its rt rts)
  then show ?case using not_null_converts [of impl lib it rt] by (simp split: if_splits)
qed simp

section \<open>Caches\<close>

lemma has_value_again:
  assumes "has_value c = (b, c')"
  shows "has_value c' = (b, c')"
  using assms by (auto simp: has_value_def cache_value_def split: if_splits option.splits prod.splits)

section \<open>Properties\<close>

text \<open>The type of the samples: four bytes, whose text is the bytes themselves.\<close>

definition quad :: fbt_impl where
  "quad = storage_impl 4 4 (\<lambda>s. if length s = 4 then Some s else None) (\<lambda>v. v)"

definition ascii_lib :: charset_lib where
  "ascii_lib = \<lparr>nonascii = (\<lambda>_. False), well_formed_copy = (\<lambda>_ _ s. s)\<rparr>"

definition quad_field :: field_fbt where
  "quad_field = \<lparr>f_ptr = [9, 9, 9, 9], f_null = None, f_table_maybe_null = False, f_warns = True,
     f_warnings = []\<rparr>"

definition quad_item :: "bytes option \<Rightarrow> item" where
  "quad_item v = \<lparr>it_fbt = True, it_native = v, it_str = None, it_maybe_null = True,
     it_const = False, it_expensive = False\<rparr>"

lemmas quad_defs = quad_def storage_impl_def ascii_lib_def quad_field_def quad_item_def

text \<open>
  C10. A text that is a value of the type, stored in a column, is read back as that value, for every type that
  restores a value from the form it has in the record: the store reports success, changes the bytes in the record
  only, to that form, and the binary value, the value and the text of the column are those of the converted text.
\<close>

theorem store_text_read_back:
  assumes "fbt_storage impl" and "cs \<noteq> Charset_bin"
    and "character_string_to_fbt impl lib str cs = Some v" and "length v = binary_length impl"
  shows "\<exists>f'. field_store impl lib f str cs = (0, f') \<and> f' = f\<lparr>f_ptr := memory_to_record impl v\<rparr> \<and>
    field_val_native impl False f' = Some v \<and> field_to_fbt impl f' = v \<and>
    field_val_str impl False f' = Some (fbt_text impl v, Charset_latin1)"
proof -
  have "field_store impl lib f str cs = (0, f\<lparr>f_ptr := memory_to_record impl v\<rparr>)"
    using assms(2,3)
    by (simp add: field_store_def store_text_def fbt_null_text_def store_fbt_null_with_warn_def fbt_to_record_def)
  then show ?thesis
    using fbt_storage.stored_forms [OF assms(1,4), of "f\<lparr>f_ptr := memory_to_record impl v\<rparr>"] by simp
qed

theorem store_text_read_back_witness:
  "\<exists>f'. field_store swapped ascii_lib quad_field [1, 2, 3, 4] Charset_latin1 = (0, f') \<and>
     f_ptr f' = [4, 3, 2, 1] \<and> field_val_native swapped False f' = Some [1, 2, 3, 4]"
proof -
  have "character_string_to_fbt swapped ascii_lib [1, 2, 3, 4] Charset_latin1 = Some [1, 2, 3, 4]"
    "length [1, 2, 3, 4 :: uchar] = binary_length swapped"
    by (simp_all add: character_string_to_fbt_def swapped_def quad_defs)
  from store_text_read_back [OF swapped.fbt_storage_axioms _ this, of quad_field] show ?thesis
    by (auto simp: swapped_def)
qed

text \<open>
  A text that is not a value of the type makes the column null where it can be null and
  zero where it cannot, reports 1, and pushes one warning exactly when warnings are counted.
\<close>

theorem store_invalid_text:
  assumes "cs \<noteq> Charset_bin" and "character_string_to_fbt impl lib str cs = None"
  shows "field_store impl lib f str cs =
    (1, f\<lparr>f_ptr := (if f_null f = None \<and> \<not> f_table_maybe_null f
                   then replicate (binary_length impl) 0 else f_ptr f),
          f_null := map_option (\<lambda>_. True) (f_null f),
          f_warnings := f_warnings f @ (if f_warns f then [Truncated_value (Err_string str cs)] else [])\<rparr>)"
  using assms
  by (cases f; cases "f_null f"; cases "f_table_maybe_null f"; cases "f_warns f")
    (auto simp: field_store_def store_text_def fbt_null_text_def store_fbt_null_with_warn_def
      field_maybe_null_def set_null_with_warn_def set_min_value_with_warn_def set_min_value_def
      field_set_null_def store_warning_def)

theorem store_invalid_text_witness:
  "field_store quad ascii_lib quad_field [1, 2] Charset_latin1 =
     (1, quad_field\<lparr>f_ptr := [0, 0, 0, 0],
        f_warnings := [Truncated_value (Err_string [1, 2] Charset_latin1)]\<rparr>)"
  using store_invalid_text [of Charset_latin1 quad ascii_lib "[1, 2]" quad_field]
  by (simp add: quad_defs character_string_to_fbt_def numeral_eq_Suc)

text \<open>
  C11. Two items of a type, both nullable or both not, for which the assertions about the lengths hold: their keys,
  compared with \<^verbatim>\<open>memcmp\<close> over the length of a value and the byte for null, sort null before the values, and
  the values as \<^verbatim>\<open>Field_fbt::cmp\<close> compares them when they are stored in columns. For a type that keeps the
  conversions and the comparison of \<^verbatim>\<open>FixedBinTypeStorage\<close> that is the order in which \<^verbatim>\<open>cmp_native\<close>
  compares them. Whether the two orders agree for a type with conversions of its own depends on that type.
\<close>

theorem sort_keys_ordered:
  assumes "it_maybe_null a = it_maybe_null b"
    and "make_sort_key_part impl a len = Some ka" and "make_sort_key_part impl b len = Some kb"
  shows "memcmp ka kb (binary_length impl + (if it_maybe_null a then 1 else 0)) =
    (case (it_native a, it_native b) of
       (None, None) \<Rightarrow> 0 | (None, Some _) \<Rightarrow> - 1 | (Some _, None) \<Rightarrow> 1
     | (Some v, Some w) \<Rightarrow>
         field_cmp impl (f_ptr (snd (store_fbt_null_with_warn impl f (Some v) e)))
           (f_ptr (snd (store_fbt_null_with_warn impl g (Some w) e')))) \<and>
    (\<forall>n m a2f tos v w. impl = storage_impl n m a2f tos \<and> it_native a = Some v \<and> it_native b = Some w \<longrightarrow>
       memcmp ka kb (binary_length impl + (if it_maybe_null a then 1 else 0)) = cmp_native impl v w)"
proof -
  have ptr: "f_ptr (snd (store_fbt_null_with_warn impl h (Some x) c)) = fbt_to_record impl x" for h x c
    by (simp add: store_fbt_null_with_warn_def)
  have len: "length x = binary_length impl"
    if "make_sort_key_part impl it len = Some k" "it_native it = Some x" for it k x
    using that by (auto simp: make_sort_key_part_def split: if_splits)
  have "field_cmp impl (fbt_to_record impl v) (fbt_to_record impl w) = cmp_native impl v w"
    if "impl = storage_impl n m a2f tos" "it_native a = Some v" "it_native b = Some w" for n m a2f tos v w
    using storage_column_order [OF that(1), of v w] len [OF assms(2) that(2)] len [OF assms(3) that(3)] that(1)
    by (simp add: storage_impl_def)
  then have "memcmp ka kb (binary_length impl + (if it_maybe_null a then 1 else 0)) = cmp_native impl v w"
    if "impl = storage_impl n m a2f tos" "it_native a = Some v" "it_native b = Some w" for n m a2f tos v w
    using sort_key_order [OF assms] that(2,3) that(1) by simp
  then show ?thesis using sort_key_order [OF assms] unfolding ptr by blast
qed

theorem sort_keys_ordered_witness:
  "memcmp [0, 0, 0, 0, 0] [1, 7, 0, 0, 0] (4 + 1) = - 1 \<and>
   make_sort_key_part swapped (quad_item (Some [0, 0, 0, 7])) 4 = Some [1, 7, 0, 0, 0]"
proof -
  have k: "make_sort_key_part swapped (quad_item None) 4 = Some [0, 0, 0, 0, 0]"
    "make_sort_key_part swapped (quad_item (Some [0, 0, 0, 7])) 4 = Some [1, 7, 0, 0, 0]"
    by (simp_all add: make_sort_key_part_def swapped_def quad_defs numeral_eq_Suc)
  from sort_keys_ordered [OF _ this, of quad_field "Err_string [] Charset_bin" quad_field "Err_string [] Charset_bin"]
  show ?thesis using k(2) by (simp add: swapped_def quad_defs)
qed

text \<open>
  C12. The nullability of a function is set when it is prepared, and holds for every execution of it: the values of
  its arguments may then be others, except those of constants that are not expensive. When a cast, a function of
  the hybrid kind (\<^verbatim>\<open>IFNULL\<close> apart from its first argument), a comparison of two arguments, \<^verbatim>\<open>BETWEEN\<close> or
  \<^verbatim>\<open>IN\<close> is not nullable, then it was not so before, and the arguments that count convert to a value of the type
  whenever it is executed. It is made nullable only by an argument that is nullable or that is neither of the type
  nor a constant, not expensive, that converts.
\<close>

theorem not_null_arguments_convert:
  assumes "list_all2 runs_as its rts"
  shows "(\<not> hybrid_func_fix_attributes impl lib ifnull mn its \<longrightarrow>
      \<not> mn \<and> list_all (converts impl lib) (drop (if ifnull then 1 else 0) rts)) \<and>
    (\<not> rowready_func2_maybe_null impl lib mn its \<longrightarrow> \<not> mn \<and> list_all (converts impl lib) (take 2 rts)) \<and>
    (\<not> between_maybe_null impl lib mn its \<longrightarrow> \<not> mn \<and> list_all (converts impl lib) (take 3 rts)) \<and>
    (\<not> in_maybe_null impl lib mn its \<longrightarrow> \<not> mn \<and> list_all (converts impl lib) rts) \<and>
    (list_all2 (\<lambda>it rt. \<not> typecast_maybe_null impl lib mn it \<longrightarrow>
       (\<exists>v. typecast_val_native impl lib False rt = (Some v, False) \<and>
         typecast_val_str impl lib False rt = (Some (fbt_text impl v, Charset_latin1), False))) its rts) \<and>
    (\<not> mn \<and> (\<forall>it\<in>set its. \<not> it_maybe_null it \<and>
         (it_fbt it \<or> it_const it \<and> \<not> it_expensive it \<and> converts impl lib it)) \<longrightarrow>
       \<not> hybrid_func_fix_attributes impl lib ifnull mn its \<and> \<not> rowready_func2_maybe_null impl lib mn its \<and>
       \<not> between_maybe_null impl lib mn its \<and> \<not> in_maybe_null impl lib mn its \<and>
       (\<forall>it\<in>set its. \<not> typecast_maybe_null impl lib mn it))"
proof (intro conjI)
  note sub = not_null_arguments [of impl lib]
  show "\<not> hybrid_func_fix_attributes impl lib ifnull mn its \<longrightarrow>
      \<not> mn \<and> list_all (converts impl lib) (drop (if ifnull then 1 else 0) rts)"
    using sub [OF _ list_all2_dropI [OF assms]] by (auto simp: hybrid_func_fix_attributes_def hybrid_maybe_null_any)
  show "\<not> rowready_func2_maybe_null impl lib mn its \<longrightarrow> \<not> mn \<and> list_all (converts impl lib) (take 2 rts)"
    "\<not> between_maybe_null impl lib mn its \<longrightarrow> \<not> mn \<and> list_all (converts impl lib) (take 3 rts)"
    "\<not> in_maybe_null impl lib mn its \<longrightarrow> \<not> mn \<and> list_all (converts impl lib) rts"
    using sub [OF _ list_all2_takeI [OF assms]] sub [OF _ assms]
    by (auto simp: rowready_func2_maybe_null_def between_maybe_null_def in_maybe_null_def split: if_splits)
  show "list_all2 (\<lambda>it rt. \<not> typecast_maybe_null impl lib mn it \<longrightarrow>
       (\<exists>v. typecast_val_native impl lib False rt = (Some v, False) \<and>
         typecast_val_str impl lib False rt = (Some (fbt_text impl v, Charset_latin1), False))) its rts"
    by (rule list_all2_mono [OF assms])
      (auto dest!: not_null_converts simp: typecast_maybe_null_def converts_def typecast_val_native_def
        typecast_val_str_def fbt_to_native_def fbt_to_string_def split: if_splits)
  show "\<not> mn \<and> (\<forall>it\<in>set its. \<not> it_maybe_null it \<and>
         (it_fbt it \<or> it_const it \<and> \<not> it_expensive it \<and> converts impl lib it)) \<longrightarrow>
       \<not> hybrid_func_fix_attributes impl lib ifnull mn its \<and> \<not> rowready_func2_maybe_null impl lib mn its \<and>
       \<not> between_maybe_null impl lib mn its \<and> \<not> in_maybe_null impl lib mn its \<and>
       (\<forall>it\<in>set its. \<not> typecast_maybe_null impl lib mn it)"
    by (auto simp: hybrid_func_fix_attributes_def hybrid_maybe_null_any rowready_func2_maybe_null_def
        between_maybe_null_def in_maybe_null_def typecast_maybe_null_def any_maybe_null_iff
        maybe_null_on_conversion_iff dest: in_set_takeD in_set_dropD)
qed

text \<open>A column of the type whose value is another one at execution, and a constant text.\<close>

theorem not_null_arguments_convert_witness:
  "list_all (converts swapped ascii_lib)
     [(quad_item (Some [5, 6, 7, 8]))\<lparr>it_maybe_null := False\<rparr>,
      \<lparr>it_fbt = False, it_native = None, it_str = Some ([1, 2, 3, 4], Charset_latin1), it_maybe_null = False,
       it_const = True, it_expensive = False\<rparr>]"
proof -
  let ?c = "\<lparr>it_fbt = False, it_native = None, it_str = Some ([1, 2, 3, 4], Charset_latin1), it_maybe_null = False,
       it_const = True, it_expensive = False\<rparr>"
  let ?its = "[(quad_item None)\<lparr>it_maybe_null := False\<rparr>, ?c]"
  let ?rts = "[(quad_item (Some [5, 6, 7, 8]))\<lparr>it_maybe_null := False\<rparr>, ?c]"
  have "list_all2 runs_as ?its ?rts" by (simp add: runs_as_def quad_item_def)
  moreover have "\<not> in_maybe_null swapped ascii_lib False ?its"
    by (simp add: in_maybe_null_def maybe_null_on_conversion_def make_from_item_def
      make_from_character_or_binary_string_def character_string_to_fbt_def swapped_def quad_defs)
  ultimately show ?thesis using not_null_arguments_convert [of ?its ?rts swapped ascii_lib False False] by simp
qed

end
