(* ===== verification/Temporal.thy ===== *)
theory Temporal
  imports Sql_Type_Int
begin

text \<open>
  Dates and times: the inline functions of \<^verbatim>\<open>my_time.h\<close> and the classes \<^verbatim>\<open>Sec6\<close>, \<^verbatim>\<open>Sec9\<close>,
  \<^verbatim>\<open>Sec6_add\<close>, \<^verbatim>\<open>Year\<close>, \<^verbatim>\<open>Temporal\<close>, \<^verbatim>\<open>Extract_source\<close>, \<^verbatim>\<open>Interval_DDhhmmssff\<close>, \<^verbatim>\<open>Time\<close>,
  \<^verbatim>\<open>Temporal_with_date\<close>, \<^verbatim>\<open>Date\<close>, \<^verbatim>\<open>Datetime\<close> and \<^verbatim>\<open>Timestamp\<close> of \<^verbatim>\<open>sql_type.h\<close>.

  The functions these classes call and whose bodies are in other files of the server are a record
  \<^verbatim>\<open>lib\<close> of parameters; \<^verbatim>\<open>long\<close> and \<^verbatim>\<open>ulong\<close> have 32 bits, as on the platform of the package. A
  \<^verbatim>\<open>int *warn\<close> is a bit mask that a function returns along with its result. The parts that
  \<^verbatim>\<open>Extract_source\<close> returns as \<^verbatim>\<open>int\<close> or \<^verbatim>\<open>longlong\<close> are integers: they are below \<open>2 ^ 31\<close> and
  \<open>2 ^ 63\<close> for a value in the ranges of the class. The conditions that the methods of a class assert
  of every value (\<^verbatim>\<open>is_valid_time_slow\<close> and others) are definitions of their own; another assertion
  that fails is \<^const>\<open>None\<close>, and the bounds of an argument that a method asserts are hypotheses of
  the lemmas.
\<close>

section \<open>MYSQL_TIME and the parameters\<close>

datatype timestamp_type = TS_NONE | TS_ERROR | TS_DATE | TS_DATETIME | TS_TIME

record mysql_time =
  mt_year :: uint
  mt_month :: uint
  mt_day :: uint
  mt_hour :: uint
  mt_minute :: uint
  mt_second :: uint
  mt_second_part :: uint
  mt_neg :: bool
  mt_type :: timestamp_type

type_synonym warnings = uint

text \<open>
  \<^verbatim>\<open>current_date\<close> is what \<^verbatim>\<open>set_current_date\<close> stores, and \<^verbatim>\<open>calc_time_diff_time\<close> the overload of
  \<^verbatim>\<open>calc_time_diff\<close> that stores a TIME. \<^verbatim>\<open>round_time\<close>, \<^verbatim>\<open>round_time_nsec\<close>, \<^verbatim>\<open>round_datetime_nsec\<close> and \<^verbatim>\<open>round_timestamp\<close> stand for the methods
  \<^verbatim>\<open>round_or_set_max\<close> and \<^verbatim>\<open>round_or_invalidate\<close>.
\<close>

record time_lib =
  log_10_int :: "nat \<Rightarrow> ulonglong"
  set_zero_time :: "timestamp_type \<Rightarrow> mysql_time"
  number_to_time_only :: "bool \<Rightarrow> ulonglong \<Rightarrow> uint \<Rightarrow> uint \<Rightarrow> bool \<times> mysql_time \<times> warnings"
  number_to_datetime_or_date :: "ulonglong \<Rightarrow> uint \<Rightarrow> ulonglong \<Rightarrow> int \<times> mysql_time \<times> warnings"
  check_time_range :: "mysql_time \<Rightarrow> nat \<Rightarrow> bool \<times> mysql_time \<times> warnings"
  adjust_time_range_with_warn :: "mysql_time \<Rightarrow> nat \<Rightarrow> bool \<times> mysql_time"
  check_datetime_range :: "mysql_time \<Rightarrow> bool"
  calc_time_diff :: "mysql_time \<Rightarrow> mysql_time \<Rightarrow> int \<Rightarrow> bool \<times> ulonglong \<times> uint"
  calc_time_from_sec :: "mysql_time \<Rightarrow> uint \<Rightarrow> uint \<Rightarrow> mysql_time"
  get_date_from_daynr :: "uint \<Rightarrow> bool \<times> uint \<times> uint \<times> uint"
  current_date :: mysql_time
  calc_time_diff_time :: "mysql_time \<Rightarrow> mysql_time \<Rightarrow> int \<Rightarrow> mysql_time"
  datetime_to_date :: "mysql_time \<Rightarrow> mysql_time"
  calc_daynr :: "uint \<Rightarrow> uint \<Rightarrow> uint \<Rightarrow> uint"
  calc_weekday :: "uint \<Rightarrow> bool \<Rightarrow> uint"
  calc_week :: "mysql_time \<Rightarrow> uint \<Rightarrow> uint \<times> uint"
  TIME_to_ulonglong :: "mysql_time \<Rightarrow> ulonglong"
  TIME_to_ulonglong_time :: "mysql_time \<Rightarrow> ulonglong"
  TIME_to_ulonglong_date :: "mysql_time \<Rightarrow> ulonglong"
  TIME_to_ulonglong_datetime :: "mysql_time \<Rightarrow> ulonglong"
  pack_time :: "mysql_time \<Rightarrow> longlong"
  round_time :: "mysql_time \<Rightarrow> nat \<Rightarrow> warnings \<Rightarrow> mysql_time \<times> warnings"
  round_time_nsec :: "mysql_time \<Rightarrow> nat \<Rightarrow> uint \<Rightarrow> warnings \<Rightarrow> mysql_time \<times> warnings"
  round_datetime :: "mysql_time \<Rightarrow> nat \<Rightarrow> warnings \<Rightarrow> mysql_time \<times> warnings"
  round_datetime_nsec :: "mysql_time \<Rightarrow> nat \<Rightarrow> uint \<Rightarrow> warnings \<Rightarrow> mysql_time \<times> warnings"

abbreviation (input) TIME_MAX_HOUR :: uint where "TIME_MAX_HOUR \<equiv> 838"
abbreviation (input) TIME_MAX_INTERVAL_HOUR :: uint where "TIME_MAX_INTERVAL_HOUR \<equiv> 87649415"
abbreviation (input) TIME_MAX_MINUTE :: uint where "TIME_MAX_MINUTE \<equiv> 59"
abbreviation (input) TIME_MAX_SECOND :: uint where "TIME_MAX_SECOND \<equiv> 59"
abbreviation (input) TIME_MAX_SECOND_PART :: uint where "TIME_MAX_SECOND_PART \<equiv> 999999"
abbreviation (input) TIME_SECOND_PART_DIGITS :: nat where "TIME_SECOND_PART_DIGITS \<equiv> 6"
abbreviation (input) TIME_MAX_VALUE_SECONDS :: ulonglong where
  "TIME_MAX_VALUE_SECONDS \<equiv> 838 * 3600 + 59 * 60 + 59"
abbreviation (input) SECONDS_IN_24H :: ulonglong where "SECONDS_IN_24H \<equiv> 86400"
abbreviation (input) TIME_WARN_OUT_OF_RANGE :: warnings where "TIME_WARN_OUT_OF_RANGE \<equiv> 2"
abbreviation (input) TIME_NOTE_TRUNCATED :: warnings where "TIME_NOTE_TRUNCATED \<equiv> 16"

section \<open>my_time.h\<close>

definition validate_timestamp_range :: "mysql_time \<Rightarrow> bool" where
  "validate_timestamp_range t =
     (if (mt_year t > 2038 \<or> mt_year t < 1969) \<or>
         (mt_year t = 2038 \<and> (mt_month t > 1 \<or> mt_day t > 19)) \<or>
         (mt_year t = 1969 \<and> (mt_month t < 12 \<or> mt_day t < 31))
      then False else True)"

text \<open>The quotient and the remainder of C truncate towards zero.\<close>

definition quot_trunc :: "int \<Rightarrow> int \<Rightarrow> int" where
  "quot_trunc a b = sgn a * sgn b * (\<bar>a\<bar> div \<bar>b\<bar>)"

definition rem_trunc :: "int \<Rightarrow> int \<Rightarrow> int" where
  "rem_trunc a b = sgn a * (\<bar>a\<bar> mod \<bar>b\<bar>)"

definition sec_part_shift :: "time_lib \<Rightarrow> longlong \<Rightarrow> nat \<Rightarrow> longlong" where
  "sec_part_shift lib second_part digits =
     word_of_int (quot_trunc (sint second_part)
       (sint (log_10_int lib (TIME_SECOND_PART_DIGITS - digits))))"

definition sec_part_unshift :: "time_lib \<Rightarrow> longlong \<Rightarrow> nat \<Rightarrow> longlong" where
  "sec_part_unshift lib second_part digits =
     second_part * log_10_int lib (TIME_SECOND_PART_DIGITS - digits)"

definition my_time_fraction_remainder :: "time_lib \<Rightarrow> uint \<Rightarrow> nat \<Rightarrow> uint" where
  "my_time_fraction_remainder lib nr decimals =
     word_of_int (rem_trunc (sint nr)
       (sint (ucast (log_10_int lib (TIME_SECOND_PART_DIGITS - decimals)) :: uint)))"

definition my_datetime_trunc :: "time_lib \<Rightarrow> mysql_time \<Rightarrow> nat \<Rightarrow> mysql_time" where
  "my_datetime_trunc lib t decimals =
     t\<lparr>mt_second_part :=
         mt_second_part t - my_time_fraction_remainder lib (mt_second_part t) decimals\<rparr>"

definition my_time_trunc :: "time_lib \<Rightarrow> mysql_time \<Rightarrow> nat \<Rightarrow> mysql_time" where
  "my_time_trunc lib t decimals =
     (let t = t\<lparr>mt_second_part :=
            mt_second_part t - my_time_fraction_remainder lib (mt_second_part t) decimals\<rparr>
      in if mt_second_part t = 0 \<and> mt_neg t \<and>
            mt_hour t = 0 \<and> mt_minute t = 0 \<and> mt_second t = 0
         then t\<lparr>mt_neg := False\<rparr> else t)"

record timeval =
  tv_sec :: uint
  tv_usec :: uint

definition my_timeval_trunc :: "time_lib \<Rightarrow> timeval \<Rightarrow> nat \<Rightarrow> timeval" where
  "my_timeval_trunc lib tv decimals =
     tv\<lparr>tv_usec := tv_usec tv - my_time_fraction_remainder lib (tv_usec tv) decimals\<rparr>"

section \<open>Sec6 and Sec9\<close>

record sec6 =
  s6_sec :: ulonglong
  s6_usec :: uint
  s6_neg :: bool
  s6_truncated :: bool

definition sec6_make_from_int :: "Longlong_hybrid \<Rightarrow> sec6" where
  "sec6_make_from_int nr = \<lparr>s6_sec = lh_abs nr, s6_usec = 0, s6_neg = lh_neg nr, s6_truncated = False\<rparr>"

definition sec6_reset :: sec6 where
  "sec6_reset = \<lparr>s6_sec = 0, s6_usec = 0, s6_neg = False, s6_truncated = False\<rparr>"

definition sec6_add_nanoseconds :: "sec6 \<Rightarrow> uint \<Rightarrow> bool \<times> sec6" where
  "sec6_add_nanoseconds s nanoseconds =
     (if nanoseconds < 500 then (False, s)
      else let s = s\<lparr>s6_usec := s6_usec s + (nanoseconds + 500) div 1000\<rparr> in
        if s6_usec s < 1000000 then (False, s)
        else (True, s\<lparr>s6_usec := s6_usec s mod 1000000\<rparr>))"

definition to_interval_hhmmssff_only :: "time_lib \<Rightarrow> sec6 \<Rightarrow> bool \<times> mysql_time \<times> warnings" where
  "to_interval_hhmmssff_only lib s =
     number_to_time_only lib (s6_neg s) (s6_sec s) (s6_usec s) TIME_MAX_INTERVAL_HOUR"

text \<open>
  The flags are the bits of \<^verbatim>\<open>date_conv_mode_t\<close>, of which three are passed on; \<open>to\<close> is the target,
  unchanged by the early return.
\<close>

abbreviation (input) TIME_INVALID_DATES :: ulonglong where "TIME_INVALID_DATES \<equiv> 0x2000000"
abbreviation (input) TIME_MODE_FOR_XXX_TO_DATE :: ulonglong where
  "TIME_MODE_FOR_XXX_TO_DATE \<equiv> 0x800000 OR 0x1000000 OR 0x2000000"

definition to_datetime_or_date ::
    "time_lib \<Rightarrow> sec6 \<Rightarrow> mysql_time \<Rightarrow> ulonglong \<Rightarrow> bool \<times> mysql_time \<times> warnings" where
  "to_datetime_or_date lib s to flags =
     (if s6_neg s then (True, to, TIME_WARN_OUT_OF_RANGE)
      else let (r, t, w) = number_to_datetime_or_date lib (s6_sec s) (s6_usec s)
              (flags AND TIME_MODE_FOR_XXX_TO_DATE)
        in (r = - 1, t, w))"

definition to_datetime_or_to_interval_hhmmssff ::
    "time_lib \<Rightarrow> sec6 \<Rightarrow> mysql_time \<Rightarrow> bool \<times> mysql_time \<times> warnings" where
  "to_datetime_or_to_interval_hhmmssff lib s to =
     (if s6_sec s > 999999995959 \<and> s6_sec s \<le> 99991231235959 \<and> \<not> s6_neg s
      then to_datetime_or_date lib s to TIME_INVALID_DATES
      else if s6_sec s div 10000 > ucast TIME_MAX_INTERVAL_HOUR
      then (True, to, TIME_WARN_OUT_OF_RANGE)
      else to_interval_hhmmssff_only lib s)"

definition to_datetime_or_time :: "time_lib \<Rightarrow> sec6 \<Rightarrow> ulonglong \<Rightarrow> bool \<times> mysql_time \<times> warnings" where
  "to_datetime_or_time lib s mode =
     (if s6_sec s > 9999999 \<and> s6_sec s \<le> 99991231235959 \<and> \<not> s6_neg s
      then let (r, t, w) = number_to_datetime_or_date lib (s6_sec s) (s6_usec s)
              (mode AND TIME_MODE_FOR_XXX_TO_DATE)
        in (r < 0, t, w)
      else number_to_time_only lib (s6_neg s) (s6_sec s) (s6_usec s) TIME_MAX_HOUR)"

definition sec_to_time :: "time_lib \<Rightarrow> sec6 \<Rightarrow> nat \<Rightarrow> bool \<times> mysql_time" where
  "sec_to_time lib s dec =
     (let t = (set_zero_time lib TS_TIME)\<lparr>mt_neg := s6_neg s\<rparr> in
      if s6_sec s > TIME_MAX_VALUE_SECONDS
      then (True, fst (snd (check_time_range lib (t\<lparr>mt_hour := TIME_MAX_HOUR + 1\<rparr>) dec)))
      else (False, t\<lparr>mt_hour := ucast (s6_sec s div 3600),
              mt_minute := ucast (s6_sec s mod 3600) div 60,
              mt_second := ucast (s6_sec s) mod 60,
              mt_second_part := s6_usec s\<rparr>))"

definition sec6_trunc :: "time_lib \<Rightarrow> sec6 \<Rightarrow> nat \<Rightarrow> sec6" where
  "sec6_trunc lib s dec =
     s\<lparr>s6_usec := s6_usec s - my_time_fraction_remainder lib (s6_usec s) dec\<rparr>"

record sec9 = sec6 +
  s9_nsec :: uint

definition sec9_make_from_int :: "Longlong_hybrid \<Rightarrow> sec9" where
  "sec9_make_from_int nr = sec6.extend (sec6_make_from_int nr) \<lparr>s9_nsec = 0\<rparr>"

definition sec9_trunc :: "time_lib \<Rightarrow> sec9 \<Rightarrow> nat \<Rightarrow> sec9" where
  "sec9_trunc lib s dec =
     (let s = s\<lparr>s9_nsec := 0\<rparr>
      in s\<lparr>s6_usec := s6_usec s - my_time_fraction_remainder lib (s6_usec s) dec\<rparr>)"

datatype round_mode = FRAC_NONE | FRAC_TRUNCATE | FRAC_ROUND

definition sec9_round_mode ::
    "time_lib \<Rightarrow> (sec9 \<Rightarrow> nat \<Rightarrow> sec9) \<Rightarrow> sec9 \<Rightarrow> nat \<Rightarrow> round_mode \<Rightarrow> sec9" where
  "sec9_round_mode lib round s dec mode =
     (if mode = FRAC_TRUNCATE then sec9_trunc lib s dec else round s dec)"

section \<open>Sec6_add\<close>

record sec6_add =
  sa_sec :: ulonglong
  sa_usec :: uint
  sa_neg :: bool
  sa_error :: bool

text \<open>
  The members of an object whose construction failed keep what was in memory: \<open>old\<close>. The first
  assertion asks for a sign of 1 or -1, the second for a negative value to be a TIME.
\<close>

definition sec6_add_make ::
    "time_lib \<Rightarrow> sec6_add \<Rightarrow> mysql_time \<Rightarrow> mysql_time \<Rightarrow> int \<Rightarrow> sec6_add option" where
  "sec6_add_make lib old ltime1 ltime2 sign =
     (if (sign = - 1 \<or> sign = 1) \<and> (mt_neg ltime1 \<longrightarrow> mt_type ltime1 = TS_TIME) then
        let err = mt_type ltime2 \<noteq> TS_TIME in
        if \<not> err then
          let sign = (if mt_neg ltime1 \<noteq> mt_neg ltime2 then - sign else sign);
              (neg, sec, usec) = calc_time_diff lib ltime1 ltime2 (- sign);
              neg = (if mt_neg ltime1 \<and> (sec \<noteq> 0 \<or> usec \<noteq> 0) then \<not> neg else neg)
          in Some \<lparr>sa_sec = sec, sa_usec = usec, sa_neg = neg, sa_error = False\<rparr>
        else Some (old\<lparr>sa_error := True\<rparr>)
      else None)"

definition to_hh24mmssff :: "time_lib \<Rightarrow> sec6_add \<Rightarrow> timestamp_type \<Rightarrow> mysql_time" where
  "to_hh24mmssff lib s tstype =
     (let t = \<lparr>mt_year = 0, mt_month = 0, mt_day = 0, mt_hour = 0, mt_minute = 0, mt_second = 0,
               mt_second_part = 0, mt_neg = sa_neg s, mt_type = TS_DATE\<rparr>;
          t = calc_time_from_sec lib t (ucast (sa_sec s mod SECONDS_IN_24H)) (sa_usec s)
      in t\<lparr>mt_type := tstype\<rparr>)"

definition to_days_abs :: "sec6_add \<Rightarrow> uint" where
  "to_days_abs s = ucast (sa_sec s div SECONDS_IN_24H)"

definition sec6_add_to_time :: "time_lib \<Rightarrow> sec6_add \<Rightarrow> mysql_time \<Rightarrow> nat \<Rightarrow> bool \<times> mysql_time" where
  "sec6_add_to_time lib s to decimals =
     (if sa_error s then (True, to)
      else let t = to_hh24mmssff lib s TS_TIME;
               t = t\<lparr>mt_hour := mt_hour t + to_days_abs s * 24\<rparr>
        in adjust_time_range_with_warn lib t decimals)"

definition sec6_add_to_datetime :: "time_lib \<Rightarrow> sec6_add \<Rightarrow> mysql_time \<Rightarrow> bool \<times> mysql_time" where
  "sec6_add_to_datetime lib s to =
     (if sa_error s \<or> sa_neg s then (True, to)
      else let t = to_hh24mmssff lib s TS_DATETIME;
               (r, y, m, d) = get_date_from_daynr lib (to_days_abs s)
        in (r \<or> d = 0, t\<lparr>mt_year := y, mt_month := m, mt_day := d\<rparr>))"

section \<open>Year\<close>

record year_rec =
  m_year :: uint
  yr_truncated :: bool

definition year_zero :: year_rec where
  "year_zero = \<lparr>m_year = 0, yr_truncated = False\<rparr>"

definition to_YYYYMMDD :: "year_rec \<Rightarrow> uint" where
  "to_YYYYMMDD y = m_year y * 10000"

section \<open>Temporal\<close>

definition has_valid_mmssff :: "mysql_time \<Rightarrow> bool" where
  "has_valid_mmssff t \<longleftrightarrow> mt_minute t \<le> TIME_MAX_MINUTE \<and> mt_second t \<le> TIME_MAX_SECOND \<and>
     mt_second_part t \<le> TIME_MAX_SECOND_PART"

definition has_zero_YYYYMM :: "mysql_time \<Rightarrow> bool" where
  "has_zero_YYYYMM t \<longleftrightarrow> mt_year t = 0 \<and> mt_month t = 0"

definition has_zero_YYYYMMDD :: "mysql_time \<Rightarrow> bool" where
  "has_zero_YYYYMMDD t \<longleftrightarrow> mt_year t = 0 \<and> mt_month t = 0 \<and> mt_day t = 0"

definition time_hhmmssff_set_max :: "mysql_time \<Rightarrow> uint \<Rightarrow> mysql_time" where
  "time_hhmmssff_set_max t max_hour =
     t\<lparr>mt_hour := max_hour, mt_minute := TIME_MAX_MINUTE, mt_second := TIME_MAX_SECOND,
       mt_second_part := TIME_MAX_SECOND_PART\<rparr>"

definition add_nanoseconds_ssff :: "mysql_time \<Rightarrow> uint \<Rightarrow> bool \<times> mysql_time" where
  "add_nanoseconds_ssff t nanoseconds =
     (if nanoseconds < 500 then (False, t)
      else let t = t\<lparr>mt_second_part := mt_second_part t + (nanoseconds + 500) div 1000\<rparr> in
        if mt_second_part t < 1000000 then (False, t)
        else let t = t\<lparr>mt_second_part := mt_second_part t mod 1000000\<rparr> in
          if mt_second t < 59 then (False, t\<lparr>mt_second := mt_second t + 1\<rparr>)
          else (True, t\<lparr>mt_second := 0\<rparr>))"

definition add_nanoseconds_mmssff :: "mysql_time \<Rightarrow> uint \<Rightarrow> bool \<times> mysql_time" where
  "add_nanoseconds_mmssff t nanoseconds =
     (let (carry, t) = add_nanoseconds_ssff t nanoseconds in
      if \<not> carry then (False, t)
      else if mt_minute t < 59 then (False, t\<lparr>mt_minute := mt_minute t + 1\<rparr>)
      else (True, t\<lparr>mt_minute := 0\<rparr>))"

text \<open>\<open>with_round\<close> is \<^verbatim>\<open>add_nanoseconds_with_round\<close>, which is not in the header.\<close>

definition temporal_add_nanoseconds ::
    "(mysql_time \<Rightarrow> uint \<Rightarrow> bool \<times> mysql_time) \<Rightarrow> mysql_time \<Rightarrow> round_mode \<Rightarrow> uint \<Rightarrow> bool \<times> mysql_time" where
  "temporal_add_nanoseconds with_round t mode nsec =
     (if mode = FRAC_ROUND then with_round t nsec else (False, t))"

definition fraction_remainder :: "time_lib \<Rightarrow> mysql_time \<Rightarrow> nat \<Rightarrow> uint" where
  "fraction_remainder lib t dec = my_time_fraction_remainder lib (mt_second_part t) dec"

definition make_from_out_of_range :: "mysql_time \<Rightarrow> mysql_time \<times> warnings" where
  "make_from_out_of_range t = (t\<lparr>mt_type := TS_NONE\<rparr>, TIME_WARN_OUT_OF_RANGE)"

definition is_valid_temporal :: "mysql_time \<Rightarrow> bool" where
  "is_valid_temporal t \<longleftrightarrow> mt_type t \<noteq> TS_NONE"

definition hybrid_to_longlong :: "time_lib \<Rightarrow> mysql_time \<Rightarrow> longlong" where
  "hybrid_to_longlong lib t =
     (if \<not> is_valid_temporal t then 0
      else let v = TIME_to_ulonglong lib t in if mt_neg t then - v else v)"

section \<open>Extract_source\<close>

definition time_to_daytime_interval :: "mysql_time \<Rightarrow> mysql_time option" where
  "time_to_daytime_interval t =
     (if mt_type t = TS_TIME \<and> has_zero_YYYYMMDD t
      then Some (t\<lparr>mt_day := mt_hour t div 24, mt_hour := mt_hour t mod 24\<rparr>) else None)"

definition is_valid_extract_source_slow :: "mysql_time \<Rightarrow> bool" where
  "is_valid_extract_source_slow t \<longleftrightarrow>
     is_valid_temporal t \<and> mt_hour t < 24 \<and> (has_zero_YYYYMM t \<or> mt_type t \<noteq> TS_TIME)"

definition extract_is_valid_value_slow :: "mysql_time \<Rightarrow> bool" where
  "extract_is_valid_value_slow t \<longleftrightarrow> mt_type t = TS_NONE \<or> is_valid_extract_source_slow t"

text \<open>The constructor, for the value \<^verbatim>\<open>Temporal_hybrid\<close> got from the item.\<close>

definition extract_source_make :: "mysql_time \<Rightarrow> mysql_time option" where
  "extract_source_make t =
     (case (if mt_type t = TS_TIME then time_to_daytime_interval t else Some t) of
        None \<Rightarrow> None
      | Some t \<Rightarrow> if extract_is_valid_value_slow t then Some t else None)"

definition ex_sign :: "mysql_time \<Rightarrow> int" where
  "ex_sign t = (if mt_neg t then - 1 else 1)"

definition ex_year :: "mysql_time \<Rightarrow> uint" where "ex_year t = mt_year t"
definition ex_month :: "mysql_time \<Rightarrow> uint" where "ex_month t = mt_month t"
definition ex_day :: "mysql_time \<Rightarrow> int" where "ex_day t = sint (mt_day t) * ex_sign t"
definition ex_hour :: "mysql_time \<Rightarrow> int" where "ex_hour t = sint (mt_hour t) * ex_sign t"
definition ex_minute :: "mysql_time \<Rightarrow> int" where "ex_minute t = sint (mt_minute t) * ex_sign t"
definition ex_second :: "mysql_time \<Rightarrow> int" where "ex_second t = sint (mt_second t) * ex_sign t"
definition ex_microsecond :: "mysql_time \<Rightarrow> int" where
  "ex_microsecond t = sint (mt_second_part t) * ex_sign t"
definition ex_year_month :: "mysql_time \<Rightarrow> uint" where "ex_year_month t = ex_year t * 100 + ex_month t"
definition ex_quarter :: "mysql_time \<Rightarrow> uint" where "ex_quarter t = (ex_month t + 2) div 3"

definition second_microsecond :: "mysql_time \<Rightarrow> int" where
  "second_microsecond t = ex_second t * 1000000 + ex_microsecond t"
definition day_hour :: "mysql_time \<Rightarrow> int" where "day_hour t = ex_day t * 100 + ex_hour t"
definition day_minute :: "mysql_time \<Rightarrow> int" where "day_minute t = day_hour t * 100 + ex_minute t"
definition day_second :: "mysql_time \<Rightarrow> int" where "day_second t = day_minute t * 100 + ex_second t"
definition day_microsecond :: "mysql_time \<Rightarrow> int" where
  "day_microsecond t = day_second t * 1000000 + ex_microsecond t"
definition hour_minute :: "mysql_time \<Rightarrow> int" where "hour_minute t = ex_hour t * 100 + ex_minute t"
definition hour_second :: "mysql_time \<Rightarrow> int" where "hour_second t = hour_minute t * 100 + ex_second t"
definition hour_microsecond :: "mysql_time \<Rightarrow> int" where
  "hour_microsecond t = hour_second t * 1000000 + ex_microsecond t"
definition minute_second :: "mysql_time \<Rightarrow> int" where
  "minute_second t = ex_minute t * 100 + ex_second t"
definition minute_microsecond :: "mysql_time \<Rightarrow> int" where
  "minute_microsecond t = minute_second t * 1000000 + ex_microsecond t"

section \<open>Interval_DDhhmmssff\<close>

definition is_valid_interval_DDhhmmssff_slow :: "mysql_time \<Rightarrow> bool" where
  "is_valid_interval_DDhhmmssff_slow t \<longleftrightarrow>
     mt_type t = TS_TIME \<and> has_zero_YYYYMMDD t \<and> has_valid_mmssff t"

definition max_useful_hour :: uint where "max_useful_hour = TIME_MAX_INTERVAL_HOUR"

definition max_int_part_char_length :: nat where "max_int_part_char_length = 1 + 7 + 1 + 8"

definition interval_max_char_length :: "nat \<Rightarrow> nat" where
  "interval_max_char_length fsp = max_int_part_char_length + (if fsp \<noteq> 0 then 1 else 0) + fsp"

section \<open>Time\<close>

datatype datetime_to_time_mode =
    DISALLOW | YYYYMMDD_000000DD_MIX_TO_HOURS | YYYYMMDD_TRUNCATE | YYYYMMDD_00000000_ONLY
  | MINUS_CURRENT_DATE

definition is_valid_time_slow :: "mysql_time \<Rightarrow> bool" where
  "is_valid_time_slow t \<longleftrightarrow> mt_type t = TS_TIME \<and> has_zero_YYYYMMDD t \<and> has_valid_mmssff t"

definition time_is_valid_value_slow :: "mysql_time \<Rightarrow> bool" where
  "time_is_valid_value_slow t \<longleftrightarrow> mt_type t = TS_NONE \<or> is_valid_time_slow t"

definition hhmmssff_copy :: "mysql_time \<Rightarrow> mysql_time \<Rightarrow> mysql_time" where
  "hhmmssff_copy t from = t\<lparr>mt_hour := mt_hour from, mt_minute := mt_minute from,
     mt_second := mt_second from, mt_second_part := mt_second_part from\<rparr>"

definition mix_to_hours :: "mysql_time \<Rightarrow> warnings \<Rightarrow> uint \<Rightarrow> uint \<Rightarrow> uint \<Rightarrow> mysql_time \<times> warnings" where
  "mix_to_hours t warn from_year from_month from_day =
     (if from_year \<noteq> 0 \<or> from_month \<noteq> 0 then (t, warn OR TIME_NOTE_TRUNCATED)
      else (t\<lparr>mt_hour := mt_hour t + from_day * 24\<rparr>, warn))"

definition datetime_to_time_minus_current_date :: "time_lib \<Rightarrow> mysql_time \<Rightarrow> mysql_time" where
  "datetime_to_time_minus_current_date lib t =
     (let tmp = calc_time_diff_time lib t (current_date lib) 1
      in fst (snd (check_time_range lib tmp TIME_SECOND_PART_DIGITS)))"

text \<open>
  The assertions on the day and the hour of a date before its conversion, and on the type of the result of a
  conversion from a number, are promises of the functions in other files; the model goes on without them.
\<close>

definition valid_datetime_to_valid_time ::
    "time_lib \<Rightarrow> mysql_time \<Rightarrow> warnings \<Rightarrow> datetime_to_time_mode \<Rightarrow> mysql_time \<times> warnings" where
  "valid_datetime_to_valid_time lib t warn opt =
     (if opt = MINUS_CURRENT_DATE then (datetime_to_time_minus_current_date lib t, warn)
      else let (t, warn) = (if opt = YYYYMMDD_000000DD_MIX_TO_HOURS
              then mix_to_hours t warn (mt_year t) (mt_month t) (mt_day t) else (t, warn))
        in (t\<lparr>mt_year := 0, mt_month := 0, mt_day := 0, mt_type := TS_TIME\<rparr>, warn))"

definition valid_MYSQL_TIME_to_valid_value ::
    "time_lib \<Rightarrow> mysql_time \<Rightarrow> warnings \<Rightarrow> datetime_to_time_mode \<Rightarrow> mysql_time \<times> warnings" where
  "valid_MYSQL_TIME_to_valid_value lib t warn opt =
     (if mt_type t = TS_DATE \<or> mt_type t = TS_DATETIME then
        (if opt = YYYYMMDD_00000000_ONLY \<and> (mt_year t \<noteq> 0 \<or> mt_month t \<noteq> 0 \<or> mt_day t \<noteq> 0)
         then make_from_out_of_range t
         else if opt = DISALLOW then make_from_out_of_range t
         else valid_datetime_to_valid_time lib t warn opt)
      else if mt_type t = TS_ERROR then (set_zero_time lib TS_TIME, warn)
      else (t, warn))"

definition adjust_time_range_or_invalidate :: "time_lib \<Rightarrow> mysql_time \<Rightarrow> mysql_time \<times> warnings" where
  "adjust_time_range_or_invalidate lib t =
     (let (r, t, w) = check_time_range lib t TIME_SECOND_PART_DIGITS
      in (if r then t\<lparr>mt_type := TS_NONE\<rparr> else t, w))"

text \<open>The constructors from a number with six and with nine fractional digits.\<close>

definition time_from_sec6 ::
    "time_lib \<Rightarrow> sec6 \<Rightarrow> datetime_to_time_mode \<Rightarrow> mysql_time \<times> warnings" where
  "time_from_sec6 lib nr opt =
     (let (rc, t, w) = to_datetime_or_time lib nr TIME_INVALID_DATES;
          t = (if rc then t\<lparr>mt_type := TS_NONE\<rparr> else t)
      in valid_MYSQL_TIME_to_valid_value lib t w opt)"

definition time_is_valid :: "mysql_time \<Rightarrow> bool" where
  "time_is_valid t \<longleftrightarrow> mt_type t = TS_TIME"

definition time_from_sec9 ::
    "time_lib \<Rightarrow> sec9 \<Rightarrow> datetime_to_time_mode \<Rightarrow> round_mode \<Rightarrow> mysql_time \<times> warnings" where
  "time_from_sec9 lib nr opt rnd =
     (let (t, w) = time_from_sec6 lib (sec6.truncate nr) opt in
      if time_is_valid t \<and> rnd = FRAC_ROUND
      then round_time_nsec lib t 6 (s9_nsec nr) w else (t, w))"

definition time_copy_to_mysql_time :: "mysql_time \<Rightarrow> mysql_time \<Rightarrow> bool \<times> mysql_time" where
  "time_copy_to_mysql_time t ltime =
     (if mt_type t = TS_NONE then (True, ltime\<lparr>mt_type := TS_NONE\<rparr>) else (False, t))"

definition time_to_packed :: "time_lib \<Rightarrow> mysql_time \<Rightarrow> longlong" where
  "time_to_packed lib t = (if time_is_valid t then pack_time lib t else 0)"

definition time_cmp :: "time_lib \<Rightarrow> mysql_time \<Rightarrow> mysql_time \<Rightarrow> int" where
  "time_cmp lib t other =
     (let p0 = sint (time_to_packed lib t); p1 = sint (time_to_packed lib other) in
      if p0 < p1 then - 1 else if p0 > p1 then 1 else 0)"

definition time_to_seconds_abs :: "mysql_time \<Rightarrow> int" where
  "time_to_seconds_abs t =
     sint (ucast (mt_hour t * 3600 + mt_minute t * 60 + mt_second t) :: longlong)"

definition time_to_seconds :: "mysql_time \<Rightarrow> int" where
  "time_to_seconds t = (if mt_neg t then - time_to_seconds_abs t else time_to_seconds_abs t)"

definition time_to_bool :: "time_lib \<Rightarrow> mysql_time \<Rightarrow> bool" where
  "time_to_bool lib t \<longleftrightarrow>
     time_is_valid t \<and> (TIME_to_ulonglong_time lib t \<noteq> 0 \<or> mt_second_part t \<noteq> 0)"

definition time_to_longlong :: "time_lib \<Rightarrow> mysql_time \<Rightarrow> longlong" where
  "time_to_longlong lib t =
     (if \<not> time_is_valid t then 0
      else let v = TIME_to_ulonglong_time lib t in if mt_neg t then - v else v)"

definition time_trunc :: "time_lib \<Rightarrow> mysql_time \<Rightarrow> nat \<Rightarrow> mysql_time" where
  "time_trunc lib t dec = (if time_is_valid t then my_time_trunc lib t dec else t)"

definition time_ceiling :: "time_lib \<Rightarrow> mysql_time \<Rightarrow> mysql_time" where
  "time_ceiling lib t =
     (if time_is_valid t then
        (if mt_neg t then my_time_trunc lib t 0
         else if mt_second_part t \<noteq> 0 then fst (round_time_nsec lib t 0 999999999 0) else t)
      else t)"

definition time_floor :: "time_lib \<Rightarrow> mysql_time \<Rightarrow> mysql_time" where
  "time_floor lib t =
     (if time_is_valid t then
        (if \<not> mt_neg t then my_time_trunc lib t 0
         else if mt_second_part t \<noteq> 0 then fst (round_time_nsec lib t 0 999999999 0) else t)
      else t)"

definition time_round :: "time_lib \<Rightarrow> mysql_time \<Rightarrow> nat \<Rightarrow> mysql_time" where
  "time_round lib t dec = (if time_is_valid t then fst (round_time lib t dec 0) else t)"

definition time_round_mode :: "time_lib \<Rightarrow> mysql_time \<Rightarrow> nat \<Rightarrow> round_mode \<Rightarrow> mysql_time option" where
  "time_round_mode lib t dec mode =
     (case mode of
        FRAC_NONE \<Rightarrow> (if fraction_remainder lib t dec = 0 then Some (time_trunc lib t dec) else None)
      | FRAC_TRUNCATE \<Rightarrow> Some (time_trunc lib t dec)
      | FRAC_ROUND \<Rightarrow> Some (time_round lib t dec))"

section \<open>Temporal_with_date, Date and Datetime\<close>

definition wd_daynr :: "time_lib \<Rightarrow> mysql_time \<Rightarrow> uint" where
  "wd_daynr lib t = calc_daynr lib (mt_year t) (mt_month t) (mt_day t)"

definition wd_weekday :: "time_lib \<Rightarrow> mysql_time \<Rightarrow> bool \<Rightarrow> uint" where
  "wd_weekday lib t sunday_first = calc_weekday lib (wd_daynr lib t) sunday_first"

definition wd_dayofyear :: "time_lib \<Rightarrow> mysql_time \<Rightarrow> uint" where
  "wd_dayofyear lib t = wd_daynr lib t - calc_daynr lib (mt_year t) 1 1 + 1"

definition wd_quarter :: "mysql_time \<Rightarrow> uint" where
  "wd_quarter t = (mt_month t + 2) div 3"

definition wd_week :: "time_lib \<Rightarrow> mysql_time \<Rightarrow> uint \<Rightarrow> uint" where
  "wd_week lib t week_behaviour = fst (calc_week lib t week_behaviour)"

definition wd_yearweek :: "time_lib \<Rightarrow> mysql_time \<Rightarrow> uint \<Rightarrow> uint" where
  "wd_yearweek lib t week_behaviour =
     (let (week, year) = calc_week lib t week_behaviour in week + year * 100)"

definition wd_from_sec6 :: "time_lib \<Rightarrow> sec6 \<Rightarrow> mysql_time \<Rightarrow> ulonglong \<Rightarrow> mysql_time \<times> warnings" where
  "wd_from_sec6 lib nr to flags =
     (let (rc, t, w) = to_datetime_or_date lib nr to flags
      in (if rc then t\<lparr>mt_type := TS_NONE\<rparr> else t, w))"

definition date_make :: "time_lib \<Rightarrow> mysql_time \<Rightarrow> mysql_time" where
  "date_make lib t = (if mt_type t = TS_DATETIME then datetime_to_date lib t else t)"

definition date_is_valid :: "mysql_time \<Rightarrow> bool" where
  "date_is_valid t \<longleftrightarrow> mt_type t = TS_DATE"

definition date_to_longlong :: "time_lib \<Rightarrow> mysql_time \<Rightarrow> longlong" where
  "date_to_longlong lib t = (if date_is_valid t then TIME_to_ulonglong_date lib t else 0)"

definition date_to_bool :: "time_lib \<Rightarrow> mysql_time \<Rightarrow> bool" where
  "date_to_bool lib t \<longleftrightarrow> date_to_longlong lib t \<noteq> 0"

definition datetime_is_valid :: "mysql_time \<Rightarrow> bool" where
  "datetime_is_valid t \<longleftrightarrow> mt_type t = TS_DATETIME"

definition hhmmssff_is_zero :: "mysql_time \<Rightarrow> bool" where
  "hhmmssff_is_zero t \<longleftrightarrow>
     mt_hour t = 0 \<and> mt_minute t = 0 \<and> mt_second t = 0 \<and> mt_second_part t = 0"

definition hhmmss_to_seconds_abs :: "mysql_time \<Rightarrow> int" where
  "hhmmss_to_seconds_abs t =
     sint (ucast (mt_hour t * 3600 + mt_minute t * 60 + mt_second t) :: longlong)"

definition hhmmss_to_seconds :: "mysql_time \<Rightarrow> int" where
  "hhmmss_to_seconds t = (if mt_neg t then - hhmmss_to_seconds_abs t else hhmmss_to_seconds_abs t)"

definition datetime_to_seconds :: "time_lib \<Rightarrow> mysql_time \<Rightarrow> int" where
  "datetime_to_seconds lib t = hhmmss_to_seconds t + uint (wd_daynr lib t) * 24 * 3600"

text \<open>A copy with a type; as a DATE the value must have no time of day.\<close>

definition datetime_copy_typed :: "mysql_time \<Rightarrow> mysql_time \<Rightarrow> timestamp_type \<Rightarrow> (bool \<times> mysql_time) option" where
  "datetime_copy_typed t ltime ty =
     (if ty = TS_DATE \<or> ty = TS_DATETIME then
        (if mt_type t = TS_NONE then Some (True, ltime\<lparr>mt_type := TS_NONE\<rparr>)
         else if ty \<noteq> TS_DATE \<or> hhmmssff_is_zero t then Some (False, t\<lparr>mt_type := ty\<rparr>) else None)
      else None)"

definition datetime_to_bool :: "time_lib \<Rightarrow> mysql_time \<Rightarrow> bool" where
  "datetime_to_bool lib t \<longleftrightarrow> datetime_is_valid t \<and>
     (TIME_to_ulonglong_datetime lib t \<noteq> 0 \<or> mt_second_part t \<noteq> 0)"

definition datetime_to_longlong :: "time_lib \<Rightarrow> mysql_time \<Rightarrow> longlong" where
  "datetime_to_longlong lib t = (if datetime_is_valid t then TIME_to_ulonglong_datetime lib t else 0)"

definition datetime_trunc :: "time_lib \<Rightarrow> mysql_time \<Rightarrow> nat \<Rightarrow> mysql_time" where
  "datetime_trunc lib t dec = (if datetime_is_valid t then my_datetime_trunc lib t dec else t)"

definition datetime_ceiling :: "time_lib \<Rightarrow> mysql_time \<Rightarrow> mysql_time" where
  "datetime_ceiling lib t =
     (if datetime_is_valid t \<and> mt_second_part t \<noteq> 0
      then fst (round_datetime_nsec lib t 0 999999999 0) else t)"

definition datetime_round :: "time_lib \<Rightarrow> mysql_time \<Rightarrow> nat \<Rightarrow> mysql_time" where
  "datetime_round lib t dec = (if datetime_is_valid t then fst (round_datetime lib t dec 0) else t)"

definition datetime_round_mode ::
    "time_lib \<Rightarrow> mysql_time \<Rightarrow> nat \<Rightarrow> round_mode \<Rightarrow> mysql_time option" where
  "datetime_round_mode lib t dec mode =
     (case mode of
        FRAC_NONE \<Rightarrow>
          (if fraction_remainder lib t dec = 0 then Some (datetime_trunc lib t dec) else None)
      | FRAC_TRUNCATE \<Rightarrow> Some (datetime_trunc lib t dec)
      | FRAC_ROUND \<Rightarrow> Some (datetime_round lib t dec))"

section \<open>Timestamp\<close>

definition ts_add_nanoseconds_usec :: "timeval \<Rightarrow> uint \<Rightarrow> bool \<times> timeval" where
  "ts_add_nanoseconds_usec t nanoseconds =
     (if nanoseconds < 500 then (False, t)
      else let t = t\<lparr>tv_usec := tv_usec t + (nanoseconds + 500) div 1000\<rparr> in
        if sint (tv_usec t) < 1000000 then (False, t)
        else (True, t\<lparr>tv_usec := word_of_int (rem_trunc (sint (tv_usec t)) 1000000)\<rparr>))"

definition ts_cmp :: "timeval \<Rightarrow> timeval \<Rightarrow> int" where
  "ts_cmp a b =
     (if sint (tv_sec a) < sint (tv_sec b) then - 1
      else if sint (tv_sec a) > sint (tv_sec b) then 1
      else if sint (tv_usec a) < sint (tv_usec b) then - 1
      else if sint (tv_usec a) > sint (tv_usec b) then 1 else 0)"

definition ts_trunc :: "time_lib \<Rightarrow> timeval \<Rightarrow> nat \<Rightarrow> timeval" where
  "ts_trunc lib t dec = my_timeval_trunc lib t dec"

definition ts_round_mode ::
    "time_lib \<Rightarrow> (timeval \<Rightarrow> nat \<Rightarrow> timeval) \<Rightarrow> timeval \<Rightarrow> nat \<Rightarrow> round_mode \<Rightarrow> timeval option" where
  "ts_round_mode lib round t dec mode =
     (case mode of
        FRAC_NONE \<Rightarrow>
          (if my_time_fraction_remainder lib (tv_usec t) dec = 0 then Some (ts_trunc lib t dec)
           else None)
      | FRAC_TRUNCATE \<Rightarrow> Some (ts_trunc lib t dec)
      | FRAC_ROUND \<Rightarrow> Some (round t dec))"

record ts_or_zero = timeval +
  is_zero_datetime :: bool

definition toz_zero :: ts_or_zero where
  "toz_zero = \<lparr>tv_sec = 0, tv_usec = 0, is_zero_datetime = True\<rparr>"

definition toz_make :: "timeval \<Rightarrow> bool \<Rightarrow> ts_or_zero" where
  "toz_make tm is_zero = timeval.extend tm \<lparr>is_zero_datetime = is_zero\<rparr>"

definition toz_to_bool :: "ts_or_zero \<Rightarrow> bool" where
  "toz_to_bool t \<longleftrightarrow> \<not> is_zero_datetime t"

definition toz_trunc :: "time_lib \<Rightarrow> ts_or_zero \<Rightarrow> nat \<Rightarrow> ts_or_zero" where
  "toz_trunc lib t decimals =
     (if \<not> is_zero_datetime t
      then toz_make (ts_trunc lib (timeval.truncate t) decimals) (is_zero_datetime t) else t)"

definition toz_cmp :: "ts_or_zero \<Rightarrow> ts_or_zero \<Rightarrow> int" where
  "toz_cmp t other =
     (if is_zero_datetime t then (if is_zero_datetime other then 0 else - 1)
      else if is_zero_datetime other then 1
      else ts_cmp (timeval.truncate t) (timeval.truncate other))"

section \<open>Lengths of attributes\<close>

definition char_to_byte_length_safe :: "ulonglong \<Rightarrow> uint \<Rightarrow> uint" where
  "char_to_byte_length_safe char_length mbmaxlen =
     (let tmp = char_length * ucast mbmaxlen
      in if tmp > 0xFFFFFFFF then 0xFFFFFFFF else ucast tmp)"

record numeric_attributes =
  na_max_length :: uint
  na_decimals :: nat
  na_unsigned :: bool

definition type_temporal_attributes :: "uint \<Rightarrow> nat \<Rightarrow> bool \<Rightarrow> numeric_attributes" where
  "type_temporal_attributes int_part_length dec unsigned_arg =
     (let a = \<lparr>na_max_length = int_part_length + (if dec \<noteq> 0 then 1 else 0),
               na_decimals = min dec TIME_SECOND_PART_DIGITS, na_unsigned = unsigned_arg\<rparr>
      in a\<lparr>na_max_length := na_max_length a + of_nat (na_decimals a)\<rparr>)"

abbreviation (input) NOT_FIXED_DEC :: nat where "NOT_FIXED_DEC \<equiv> 39"

definition type_temporal_attributes_not_fixed_dec ::
    "uint \<Rightarrow> nat \<Rightarrow> bool \<Rightarrow> numeric_attributes" where
  "type_temporal_attributes_not_fixed_dec int_part_length dec unsigned_flag =
     (let a = \<lparr>na_max_length = int_part_length, na_decimals = dec, na_unsigned = unsigned_flag\<rparr> in
      if na_decimals a = NOT_FIXED_DEC
      then a\<lparr>na_max_length := na_max_length a + of_nat TIME_SECOND_PART_DIGITS + 1\<rparr>
      else if na_decimals a \<noteq> 0 then
        let a = a\<lparr>na_decimals := min (na_decimals a) TIME_SECOND_PART_DIGITS\<rparr>
        in a\<lparr>na_max_length := na_max_length a + of_nat (na_decimals a) + 1\<rparr>
      else a)"

section \<open>Adding nanoseconds\<close>

text \<open>
  The contract of the four methods that add nanoseconds with rounding to microseconds: the value
  of the members grows by the rounded number of microseconds, and what does not fit in the period
  of the members is reported as a carry.
\<close>

abbreviation rounded_usec :: "uint \<Rightarrow> nat" where
  "rounded_usec ns \<equiv> (unat ns + 500) div 1000"

lemma rounding_int:
  fixes a b n :: nat
  assumes "1000 * b \<le> n + 500 \<and> n \<le> 1000 * b + 500"
  shows "\<bar>int (1000 * (a + b)) - int (1000 * a + n)\<bar> \<le> 500"
  using assms by (auto simp: abs_le_iff)

locale nano_carry =
  fixes add :: "'s \<Rightarrow> uint \<Rightarrow> bool \<times> 's" and ok :: "'s \<Rightarrow> bool"
    and usecs :: "'s \<Rightarrow> nat" and period :: nat
  assumes add_ok: "ok s \<Longrightarrow> unat ns \<le> 1000000000 \<Longrightarrow> ok (snd (add s ns))"
    and add_value: "ok s \<Longrightarrow> unat ns \<le> 1000000000 \<Longrightarrow>
      usecs (snd (add s ns)) + (if fst (add s ns) then period else 0) = usecs s + rounded_usec ns"
    and below_period: "ok s \<Longrightarrow> usecs s < period"
begin

lemma carry_iff:
  assumes "ok s" and "unat ns \<le> 1000000000"
  shows "fst (add s ns) \<longleftrightarrow> period \<le> usecs s + rounded_usec ns"
  using add_value [OF assms] below_period [OF add_ok [OF assms]] by (auto split: if_splits)

lemma value_mod:
  assumes "ok s" and "unat ns \<le> 1000000000"
  shows "usecs (snd (add s ns)) = (usecs s + rounded_usec ns) mod period"
proof (cases "fst (add s ns)")
  case True
  then have "usecs s + rounded_usec ns = usecs (snd (add s ns)) + period"
    using add_value [OF assms] by simp
  then show ?thesis using below_period [OF add_ok [OF assms]] by (simp only: mod_add_self2 mod_less)
next
  case False
  have "usecs (snd (add s ns)) = usecs (snd (add s ns)) mod period"
    using below_period [OF add_ok [OF assms]] by simp
  then show ?thesis using add_value [OF assms] False by simp
qed

text \<open>The result is within half a microsecond of the exact sum.\<close>

lemma rounding_error:
  assumes "ok s" and "unat ns \<le> 1000000000"
  defines "r \<equiv> usecs (snd (add s ns)) + (if fst (add s ns) then period else 0)"
  shows "\<bar>int (1000 * r) - int (1000 * usecs s + unat ns)\<bar> \<le> 500"
proof -
  have "r = usecs s + rounded_usec ns" using add_value [OF assms(1,2)] by (simp only: r_def)
  moreover have "1000 * ((n + 500) div 1000) \<le> n + 500 \<and> n \<le> 1000 * ((n + 500) div 1000) + 500"
    for n :: nat by linarith
  ultimately show ?thesis by (metis (no_types, lifting) rounding_int)
qed

end

lemma rounded_usec_le: "unat ns \<le> 1000000000 \<Longrightarrow> rounded_usec ns \<le> 1000000"
  by simp

lemma unat_rounded:
  assumes "unat (ns :: uint) \<le> 1000000000"
  shows "unat ((ns + 500) div 1000) = rounded_usec ns"
proof -
  have "unat (ns + 500) = unat ns + 500" using assms by (subst unat_add_no_overflow) simp_all
  then show ?thesis by (simp add: unat_div)
qed

lemma unat_usec_sum:
  assumes "unat u < 1000000" and "unat ns \<le> 1000000000"
  shows "unat (u + (ns + 500) div 1000 :: uint) = unat u + rounded_usec ns"
  using assms rounded_usec_le [OF assms(2)] unat_rounded [OF assms(2)]
  by (subst unat_add_no_overflow) simp_all

lemma small_nanoseconds: "ns < 500 \<Longrightarrow> rounded_usec ns = 0"
  by (simp add: word_less_nat_alt)

lemma sint_small: "unat (u :: uint) < 2147483648 \<Longrightarrow> sint u = int (unat u)"
proof -
  assume "unat u < 2147483648"
  then have "int (unat u) < 2147483648" by linarith
  then have "uint u < 2147483648" by (simp only: of_nat_unat)
  moreover have "0 \<le> uint u" by simp
  then have "- 2147483648 \<le> uint u" by linarith
  ultimately have "signed_take_bit 31 (uint u) = uint u"
    by (intro signed_take_bit_int_eq_self) simp_all
  then show ?thesis by (simp add: sint_uint)
qed

lemma sum_mod_million:
  assumes "unat (u :: uint) < 1000000" and "unat ns \<le> 1000000000"
    and "\<not> u + (ns + 500) div 1000 < 1000000"
  shows "unat ((u + (ns + 500) div 1000) mod 1000000) + 1000000 = unat u + rounded_usec ns"
proof -
  have s: "unat (u + (ns + 500) div 1000) = unat u + rounded_usec ns"
    by (rule unat_usec_sum [OF assms(1,2)])
  then have "1000000 \<le> unat u + rounded_usec ns" using assms(3) by (simp add: word_less_nat_alt)
  moreover have "unat u + rounded_usec ns < 2 * 1000000"
    using assms(1) rounded_usec_le [OF assms(2)] by linarith
  ultimately have "(unat u + rounded_usec ns) mod 1000000 + 1000000 = unat u + rounded_usec ns"
    using le_mod_geq [of 1000000 "unat u + rounded_usec ns"] by simp
  then show ?thesis using s by (simp add: unat_mod)
qed

interpretation sec6: nano_carry sec6_add_nanoseconds "\<lambda>s. unat (s6_usec s) < 1000000"
  "\<lambda>s. unat (s6_usec s)" 1000000
proof
  fix s :: sec6 and ns :: uint
  assume a: "unat (s6_usec s) < 1000000" "unat ns \<le> 1000000000"
  show "unat (s6_usec (snd (sec6_add_nanoseconds s ns))) < 1000000"
    using a by (auto simp: sec6_add_nanoseconds_def Let_def word_less_nat_alt unat_mod)
  show "unat (s6_usec (snd (sec6_add_nanoseconds s ns))) +
      (if fst (sec6_add_nanoseconds s ns) then 1000000 else 0) = unat (s6_usec s) + rounded_usec ns"
    using unat_usec_sum [OF a] sum_mod_million [OF a] small_nanoseconds [of ns]
    by (simp add: sec6_add_nanoseconds_def Let_def)
qed

lemma signed_remainder:
  assumes "unat (w :: uint) < 2147483648"
  shows "(word_of_int (rem_trunc (sint w) 1000000) :: uint) = w mod 1000000"
proof -
  have "sgn (int n) * (int n mod 1000000) = int (n mod 1000000)" for n
    by (cases "n = 0") (simp_all add: zmod_int)
  then have "rem_trunc (sint w) 1000000 = int (unat w mod 1000000)"
    by (simp only: sint_small [OF assms] rem_trunc_def abs_of_nat abs_numeral)
  then show ?thesis by (simp add: word_unat_eq_iff unat_mod unat_of_nat take_bit_nat_eq_self
        le_less_trans [OF mod_less_eq_dividend [of "unat w" 1000000]])
qed

interpretation stamp: nano_carry ts_add_nanoseconds_usec "\<lambda>s. unat (tv_usec s) < 1000000"
  "\<lambda>s. unat (tv_usec s)" 1000000
proof
  fix s :: timeval and ns :: uint
  assume a: "unat (tv_usec s) < 1000000" "unat ns \<le> 1000000000"
  define w where "w = tv_usec s + (ns + 500) div 1000"
  have w: "unat w < 2147483648"
    using unat_usec_sum [OF a] a(1) rounded_usec_le [OF a(2)] by (simp only: w_def)
  have lt: "sint w < 1000000 \<longleftrightarrow> w < 1000000"
  proof -
    have "unat (1000000 :: uint) = 1000000" by simp
    then show ?thesis unfolding sint_small [OF w] word_less_nat_alt by linarith
  qed
  have eq: "ts_add_nanoseconds_usec s ns = (if ns < 500 then (False, s)
      else if w < 1000000 then (False, s\<lparr>tv_usec := w\<rparr>) else (True, s\<lparr>tv_usec := w mod 1000000\<rparr>))"
    using lt signed_remainder [OF w] by (simp add: ts_add_nanoseconds_usec_def Let_def w_def)
  show "unat (tv_usec (snd (ts_add_nanoseconds_usec s ns))) < 1000000"
    using a unfolding eq by (auto simp: word_less_nat_alt unat_mod)
  show "unat (tv_usec (snd (ts_add_nanoseconds_usec s ns))) +
      (if fst (ts_add_nanoseconds_usec s ns) then 1000000 else 0) = unat (tv_usec s) + rounded_usec ns"
    using unat_usec_sum [OF a] sum_mod_million [OF a] small_nanoseconds [of ns] unfolding eq
    by (simp add: w_def)
qed

text \<open>Seconds with microseconds, and minutes with both.\<close>

definition ssff_ok :: "mysql_time \<Rightarrow> bool" where
  "ssff_ok t \<longleftrightarrow> unat (mt_second t) < 60 \<and> unat (mt_second_part t) < 1000000"

definition ssff_usecs :: "mysql_time \<Rightarrow> nat" where
  "ssff_usecs t = unat (mt_second t) * 1000000 + unat (mt_second_part t)"

definition mmssff_ok :: "mysql_time \<Rightarrow> bool" where
  "mmssff_ok t \<longleftrightarrow> unat (mt_minute t) < 60 \<and> ssff_ok t"

definition mmssff_usecs :: "mysql_time \<Rightarrow> nat" where
  "mmssff_usecs t = unat (mt_minute t) * 60000000 + ssff_usecs t"

lemma has_valid_mmssff_ok: "has_valid_mmssff t \<longleftrightarrow> mmssff_ok t"
  by (auto simp: has_valid_mmssff_def mmssff_ok_def ssff_ok_def word_le_nat_alt)

lemma unat_next_below_59: "(w :: uint) < 59 \<Longrightarrow> unat (w + 1) = unat w + 1"
  by (subst unat_add_no_overflow) (simp_all add: word_less_nat_alt)

lemma ssff_minute: "mt_minute (snd (add_nanoseconds_ssff t ns)) = mt_minute t"
  by (simp add: add_nanoseconds_ssff_def Let_def)

interpretation ssff: nano_carry add_nanoseconds_ssff ssff_ok ssff_usecs 60000000
proof
  fix t :: mysql_time and ns :: uint assume o: "ssff_ok t" and n: "unat ns \<le> 1000000000"
  then have a: "unat (mt_second_part t) < 1000000" "unat (mt_second t) < 60"
    by (simp_all add: ssff_ok_def)
  show "ssff_ok (snd (add_nanoseconds_ssff t ns))"
    using a unat_next_below_59 [of "mt_second t"]
    by (auto simp: ssff_ok_def add_nanoseconds_ssff_def Let_def word_less_nat_alt unat_mod)
  have "\<not> mt_second t < 59 \<Longrightarrow> unat (mt_second t) = 59" using a by (simp add: word_less_nat_alt)
  then show "ssff_usecs (snd (add_nanoseconds_ssff t ns)) +
      (if fst (add_nanoseconds_ssff t ns) then 60000000 else 0) = ssff_usecs t + rounded_usec ns"
    using unat_usec_sum [OF a(1) n] sum_mod_million [OF a(1) n] small_nanoseconds [of ns]
      unat_next_below_59 [of "mt_second t"]
    by (cases "ns < 500"; cases "mt_second_part t + (ns + 500) div 1000 < 1000000";
        cases "mt_second t < 59") (simp_all add: ssff_usecs_def add_nanoseconds_ssff_def Let_def)
qed (auto simp: ssff_ok_def ssff_usecs_def)

interpretation mmssff: nano_carry add_nanoseconds_mmssff mmssff_ok mmssff_usecs 3600000000
proof
  fix t :: mysql_time and ns :: uint assume o: "mmssff_ok t" and n: "unat ns \<le> 1000000000"
  then have m: "unat (mt_minute t) < 60" and s: "ssff_ok t" by (simp_all add: mmssff_ok_def)
  obtain c u where u: "add_nanoseconds_ssff t ns = (c, u)" by fastforce
  then have min: "mt_minute u = mt_minute t" using ssff_minute [of t ns] by simp
  have k: "ssff_ok u" using ssff.add_ok [OF s n] u by simp
  have v: "ssff_usecs u + (if c then 60000000 else 0) = ssff_usecs t + rounded_usec ns"
    using ssff.add_value [OF s n] u by simp
  show "mmssff_ok (snd (add_nanoseconds_mmssff t ns))"
    using m k min unat_next_below_59 [of "mt_minute t"] u
    by (auto simp: add_nanoseconds_mmssff_def mmssff_ok_def ssff_ok_def word_less_nat_alt)
  have "\<not> mt_minute t < 59 \<Longrightarrow> unat (mt_minute t) = 59" using m by (simp add: word_less_nat_alt)
  then show "mmssff_usecs (snd (add_nanoseconds_mmssff t ns)) +
      (if fst (add_nanoseconds_mmssff t ns) then 3600000000 else 0) = mmssff_usecs t + rounded_usec ns"
    using v u min unat_next_below_59 [of "mt_minute t"]
    by (auto simp: add_nanoseconds_mmssff_def mmssff_usecs_def ssff_usecs_def split: if_splits)
next
  fix t assume "mmssff_ok t"
  then show "mmssff_usecs t < 3600000000"
    using ssff.below_period [of t] by (simp add: mmssff_ok_def mmssff_usecs_def)
qed

text \<open>
  C8. A value with valid minutes, seconds and microseconds keeps them valid when up to one second
  of nanoseconds is added; the sum of the members and of the carry is the old value plus the
  nanoseconds, rounded to microseconds, so it is off by at most half a microsecond, and the carry
  is set exactly when the rounded sum reaches the hour.
\<close>

theorem nanoseconds_round_and_carry:
  assumes "has_valid_mmssff t" and "unat ns \<le> 1000000000"
  defines "r \<equiv> add_nanoseconds_mmssff t ns"
  shows "has_valid_mmssff (snd r) \<and>
    mmssff_usecs (snd r) = (mmssff_usecs t + (unat ns + 500) div 1000) mod 3600000000 \<and>
    (fst r \<longleftrightarrow> 3600000000 \<le> mmssff_usecs t + (unat ns + 500) div 1000) \<and>
    \<bar>int (1000 * (mmssff_usecs (snd r) + (if fst r then 3600000000 else 0)))
      - int (1000 * mmssff_usecs t + unat ns)\<bar> \<le> 500"
proof -
  have ok: "mmssff_ok t" using assms(1) by (simp only: has_valid_mmssff_ok)
  show ?thesis unfolding r_def has_valid_mmssff_ok
    by (intro conjI mmssff.add_ok [OF ok assms(2)] mmssff.value_mod [OF ok assms(2)]
        mmssff.carry_iff [OF ok assms(2)] mmssff.rounding_error [OF ok assms(2)])
qed

abbreviation clock :: "uint \<Rightarrow> uint \<Rightarrow> uint \<Rightarrow> uint \<Rightarrow> bool \<Rightarrow> timestamp_type \<Rightarrow> mysql_time" where
  "clock h m s us neg ty \<equiv> \<lparr>mt_year = 0, mt_month = 0, mt_day = 0, mt_hour = h, mt_minute = m,
     mt_second = s, mt_second_part = us, mt_neg = neg, mt_type = ty\<rparr>"

theorem nanoseconds_round_and_carry_witness:
  "let t = clock 5 59 59 999999 False TS_TIME; r = add_nanoseconds_mmssff t 500 in
     r = (True, clock 5 0 0 0 False TS_TIME) \<and> has_valid_mmssff (snd r) \<and>
     mmssff_usecs (snd r) = (mmssff_usecs t + (unat (500 :: uint) + 500) div 1000) mod 3600000000"
  using nanoseconds_round_and_carry [of "clock 5 59 59 999999 False TS_TIME" 500]
  by (simp add: Let_def has_valid_mmssff_def add_nanoseconds_mmssff_def add_nanoseconds_ssff_def)

section \<open>Truncation\<close>

text \<open>What the code relies on: the table of \<^verbatim>\<open>log_10_int\<close> holds the powers of ten.\<close>

definition powers :: "time_lib \<Rightarrow> bool" where
  "powers lib \<longleftrightarrow> (\<forall>k \<in> {0, 1, 2, 3, 4, 5, 6}. log_10_int lib k = 10 ^ k)"

definition step_of :: "nat \<Rightarrow> nat" where
  "step_of decimals = 10 ^ (6 - decimals)"

lemma powers_uint:
  assumes "powers lib" and "k \<le> 6"
  shows "sint (ucast (log_10_int lib k) :: uint) = 10 ^ k"
proof -
  from assms(2) have "k \<in> {0, 1, 2, 3, 4, 5, 6}" by auto
  then show ?thesis using assms(1) by (auto simp: powers_def)
qed

lemma remainder_value:
  assumes "powers lib" and "unat nr < 1000000"
  shows "unat (my_time_fraction_remainder lib nr d) = unat nr mod step_of d"
proof -
  have "sgn (int n) * (int n mod 10 ^ k) = int (n mod 10 ^ k)" for n k
    by (cases "n = 0") (simp_all add: zmod_int)
  then have "rem_trunc (int n) (10 ^ k) = int (n mod 10 ^ k)" for n k
    by (simp only: rem_trunc_def abs_of_nat power_abs abs_numeral)
  moreover have "unat nr < 2147483648" using assms(2) by linarith
  ultimately have "my_time_fraction_remainder lib nr d = word_of_nat (unat nr mod step_of d)"
    using powers_uint [OF assms(1), of "6 - d"] sint_small [of nr]
    by (simp only: my_time_fraction_remainder_def step_of_def diff_le_self of_int_of_nat_eq)
  moreover have "unat nr mod step_of d < 2 ^ 32"
    using assms(2) le_less_trans [OF mod_less_eq_dividend [of "unat nr" "step_of d"]] by simp
  ultimately show ?thesis by (simp add: unat_of_nat take_bit_nat_eq_self)
qed

lemma truncated_value:
  assumes "powers lib" and "unat nr < 1000000"
  shows "unat (nr - my_time_fraction_remainder lib nr d) = unat nr - unat nr mod step_of d"
  using remainder_value [OF assms, of d] mod_less_eq_dividend [of "unat nr" "step_of d"]
  by (subst unat_sub) (simp_all add: word_le_nat_alt)

lemma truncated_twice:
  fixes n k :: nat
  shows "(n - n mod k) - (n - n mod k) mod k = n - n mod k"
  by (simp add: minus_mod_eq_mult_div)

text \<open>
  With the table of powers of ten, truncating a valid TIME to at most six decimals keeps the hour,
  the minute and the second, makes the microseconds the largest multiple of the step not above
  them, never leaves a negative zero, and truncating again changes nothing.
\<close>

theorem time_trunc_is_floor:
  fixes d :: nat
  assumes "powers lib" and "unat (mt_second_part t) < 1000000" and "time_is_valid t" and "d \<le> 6"
  defines "u \<equiv> time_trunc lib t d"
  shows "unat (mt_second_part u) = step_of d * (unat (mt_second_part t) div step_of d)"
    and "u = t\<lparr>mt_second_part := mt_second_part u, mt_neg := mt_neg u\<rparr>"
    and "mt_neg u \<longleftrightarrow> mt_neg t \<and> \<not> hhmmssff_is_zero u"
    and "time_trunc lib u d = u"
proof -
  define p where "p = mt_second_part t - my_time_fraction_remainder lib (mt_second_part t) d"
  have p: "unat p = unat (mt_second_part t) - unat (mt_second_part t) mod step_of d"
    unfolding p_def by (rule truncated_value [OF assms(1,2)])
  have u: "u = t\<lparr>mt_second_part := p, mt_neg := mt_neg t \<and>
      \<not> (p = 0 \<and> mt_hour t = 0 \<and> mt_minute t = 0 \<and> mt_second t = 0)\<rparr>"
    using assms(3) by (cases t) (auto simp: u_def time_trunc_def my_time_trunc_def p_def Let_def)
  show "unat (mt_second_part u) = step_of d * (unat (mt_second_part t) div step_of d)"
    using p u by (simp add: minus_mod_eq_mult_div)
  show "u = t\<lparr>mt_second_part := mt_second_part u, mt_neg := mt_neg u\<rparr>"
    using u by simp
  show neg: "mt_neg u \<longleftrightarrow> mt_neg t \<and> \<not> hhmmssff_is_zero u"
    using u by (auto simp: hhmmssff_is_zero_def)
  have "unat p < 1000000" using p assms(2) by linarith
  then have "unat (p - my_time_fraction_remainder lib p d) = unat p"
    using truncated_value [OF assms(1), of p d] p truncated_twice by simp
  then have "p - my_time_fraction_remainder lib p d = p" by (simp only: word_unat_eq_iff)
  then show "time_trunc lib u d = u"
    using u assms(3) by (auto simp: time_trunc_def my_time_trunc_def Let_def time_is_valid_def)
qed

text \<open>A library for the examples: only the members the examples reach do something.\<close>

definition sample_lib :: time_lib where
  "sample_lib = \<lparr>log_10_int = (\<lambda>k. 10 ^ k), set_zero_time = clock 0 0 0 0 False,
     number_to_time_only = (\<lambda>neg n f h. if n > 8385959 then (True, clock 0 0 0 0 False TS_NONE, 2)
       else (False, clock (ucast (n div 10000)) (ucast (n div 100) mod 60) (ucast n mod 60)
               (f mod 1000000) neg TS_TIME, 0)),
     number_to_datetime_or_date = (\<lambda>n f fl. (- 1, clock 0 0 0 0 False TS_NONE, 2)),
     check_time_range = (\<lambda>t d. (False, t, 0)), adjust_time_range_with_warn = (\<lambda>t d. (False, t)),
     check_datetime_range = (\<lambda>t. False), calc_time_diff = (\<lambda>a b n. (False, 0, 0)),
     calc_time_from_sec = (\<lambda>t s us. t), get_date_from_daynr = (\<lambda>d. (False, 0, 0, 0)),
     current_date = clock 0 0 0 0 False TS_DATE,
     calc_time_diff_time = (\<lambda>a b n. clock 0 0 0 0 False TS_TIME), datetime_to_date = id,
     calc_daynr = (\<lambda>y m d. d), calc_weekday = (\<lambda>d s. d mod 7), calc_week = (\<lambda>t b. (0, 0)),
     TIME_to_ulonglong = (\<lambda>t. 0), TIME_to_ulonglong_time = (\<lambda>t. 0),
     TIME_to_ulonglong_date = (\<lambda>t. 0), TIME_to_ulonglong_datetime = (\<lambda>t. 0),
     pack_time = (\<lambda>t. 0), round_time = (\<lambda>t d w. (t, w)), round_time_nsec = (\<lambda>t d n w. (t, w)),
     round_datetime = (\<lambda>t d w. (t, w)), round_datetime_nsec = (\<lambda>t d n w. (t, w))\<rparr>"

lemma sample_powers: "powers sample_lib"
  by (simp add: powers_def sample_lib_def)

theorem time_trunc_is_floor_witness:
  "let t = clock 0 0 0 987 True TS_TIME in
     unat (mt_second_part (time_trunc sample_lib t 4)) = step_of 4 * (987 div step_of 4) \<and>
     mt_neg (time_trunc sample_lib t 4) \<and> \<not> mt_neg (time_trunc sample_lib t 3)"
proof -
  define t where "t = clock 0 0 0 987 True TS_TIME"
  have t: "unat (mt_second_part t) < 1000000" "time_is_valid t" by (simp_all add: t_def time_is_valid_def)
  note f = time_trunc_is_floor(1-3) [OF sample_powers t]
  have le: "4 \<le> (6 :: nat)" "3 \<le> (6 :: nat)" by simp_all
  have z: "hhmmssff_is_zero (time_trunc sample_lib t d) \<longleftrightarrow> unat (mt_second_part (time_trunc sample_lib t d)) = 0"
    if "d \<le> 6" for d using arg_cong [OF f(2) [OF that], of mt_hour]
      arg_cong [OF f(2) [OF that], of mt_minute] arg_cong [OF f(2) [OF that], of mt_second]
    by (simp add: hhmmssff_is_zero_def t_def unsigned_eq_0_iff)
  show ?thesis
    using f(1,3) [OF le(1)] f(1,3) [OF le(2)] z [OF le(1)] z [OF le(2)] by (simp add: Let_def step_of_def t_def)
qed

section \<open>Seconds to TIME\<close>

lemma unat_ucast_small: "unat (w :: ulonglong) < 2 ^ 32 \<Longrightarrow> unat (ucast w :: uint) = unat w"
  by (simp add: unsigned_ucast_eq take_bit_nat_eq_self)

lemma hms_unat:
  assumes "(s :: ulonglong) \<le> TIME_MAX_VALUE_SECONDS"
  shows "unat (ucast (s div 3600) :: uint) = unat s div 3600"
    and "unat (ucast (s mod 3600) div 60 :: uint) = unat s mod 3600 div 60"
    and "unat (ucast s mod 60 :: uint) = unat s mod 60"
proof -
  have s: "unat s \<le> 3020399" using assms by (simp add: word_le_nat_alt)
  then show "unat (ucast s mod 60 :: uint) = unat s mod 60"
    by (simp add: unat_mod unat_ucast_small)
  have "unat (s div 3600) = unat s div 3600" "unat (s mod 3600) = unat s mod 3600"
    by (simp_all add: unat_div unat_mod)
  moreover have "unat s div 3600 < 2 ^ 32" "unat s mod 3600 < 2 ^ 32"
    using s by (simp_all add: div_less_iff_less_mult less_trans [OF mod_less_divisor])
  ultimately show "unat (ucast (s div 3600) :: uint) = unat s div 3600"
    and "unat (ucast (s mod 3600) div 60 :: uint) = unat s mod 3600 div 60"
    by (simp_all only: unat_ucast_small unat_div) simp_all
qed

lemma hms_recompose: "(n div 3600) * 3600 + (n mod 3600 div 60) * 60 + n mod 60 = (n :: nat)"
proof -
  have "n mod 60 = n mod 3600 mod 60" by (simp add: mod_mod_cancel)
  then show ?thesis by (simp only: add.assoc div_mult_mod_eq mult.commute mod_mult_div_eq) simp
qed

lemma seconds_as_longlong:
  assumes "unat (w :: uint) = unat (n :: ulonglong)"
  shows "sint (ucast w :: longlong) = uint n"
proof -
  have "uint w = uint n" using assms by (metis of_nat_unat)
  moreover have "uint w < 2 ^ 32" using unsigned_less [of w] by simp
  ultimately show ?thesis
    by (simp add: sint_uint signed_take_bit_int_eq_self unsigned_ucast_eq take_bit_int_eq_self)
qed

text \<open>
  C9. A number of seconds in the range of TIME becomes a valid TIME with its sign, with at most
  838 hours and with its microseconds, from which the same number is read back; a number out of
  the range is reported.
\<close>

theorem sec_to_time_round_trip:
  assumes "set_zero_time lib TS_TIME = clock 0 0 0 0 False TS_TIME" and "s6_usec s < 1000000"
  shows "if s6_sec s \<le> TIME_MAX_VALUE_SECONDS then
      \<exists>t. sec_to_time lib s d = (False, t) \<and> is_valid_time_slow t \<and> mt_hour t \<le> TIME_MAX_HOUR \<and>
          time_to_seconds t = (if s6_neg s then - 1 else 1) * uint (s6_sec s) \<and>
          mt_second_part t = s6_usec s \<and> mt_neg t = s6_neg s
    else fst (sec_to_time lib s d)"
proof (cases "s6_sec s \<le> TIME_MAX_VALUE_SECONDS")
  case False
  then show ?thesis by (simp add: sec_to_time_def Let_def not_le)
next
  case m: True
  note h = hms_unat [OF m]
  have n: "unat (s6_sec s) \<le> 3020399" using m by (simp add: word_le_nat_alt)
  define t where "t = clock (ucast (s6_sec s div 3600)) (ucast (s6_sec s mod 3600) div 60)
      (ucast (s6_sec s) mod 60) (s6_usec s) (s6_neg s) TS_TIME"
  have eq: "sec_to_time lib s d = (False, t)"
    using m assms(1) by (simp add: sec_to_time_def Let_def t_def not_less)
  have lt: "unat (s6_sec s) mod 3600 div 60 \<le> 59" "unat (s6_sec s) mod 60 \<le> 59"
    "unat (s6_sec s) div 3600 \<le> 838" using n by linarith+
  have v: "is_valid_time_slow t" "mt_hour t \<le> TIME_MAX_HOUR"
    using lt assms(2) by (simp_all add: is_valid_time_slow_def has_zero_YYYYMMDD_def
        has_valid_mmssff_def t_def word_le_nat_alt h word_less_nat_alt)
  have a: "unat (mt_hour t * 3600 + mt_minute t * 60 + mt_second t) = unat (s6_sec s)"
  proof -
    have 1: "unat (mt_hour t * 3600) = unat (s6_sec s) div 3600 * 3600"
      using lt h by (subst unat_mult_no_overflow) (simp_all add: t_def)
    have 2: "unat (mt_minute t * 60) = unat (s6_sec s) mod 3600 div 60 * 60"
      using lt h by (subst unat_mult_no_overflow) (simp_all add: t_def)
    have 3: "unat (mt_hour t * 3600 + mt_minute t * 60) =
        unat (s6_sec s) div 3600 * 3600 + unat (s6_sec s) mod 3600 div 60 * 60"
      using lt 1 2 by (subst unat_add_no_overflow) simp_all
    have "unat (mt_second t) = unat (s6_sec s) mod 60" using h by (simp add: t_def)
    then have "unat (mt_hour t * 3600 + mt_minute t * 60 + mt_second t) =
        unat (s6_sec s) div 3600 * 3600 + unat (s6_sec s) mod 3600 div 60 * 60 +
        unat (s6_sec s) mod 60"
      using lt 3 by (subst unat_add_no_overflow) simp_all
    then show ?thesis by (simp only: hms_recompose)
  qed
  have "time_to_seconds_abs t = uint (s6_sec s)"
    unfolding time_to_seconds_abs_def
    using a n by (simp add: seconds_as_longlong)
  then show ?thesis
    using eq v m by (auto simp: time_to_seconds_def t_def)
qed

theorem sec_to_time_round_trip_witness:
  "\<exists>t. sec_to_time sample_lib \<lparr>s6_sec = 3020399, s6_usec = 5, s6_neg = True, s6_truncated = False\<rparr> 6
       = (False, t) \<and> time_to_seconds t = - 3020399"
  using sec_to_time_round_trip [of sample_lib
      "\<lparr>s6_sec = 3020399, s6_usec = 5, s6_neg = True, s6_truncated = False\<rparr>" 6]
  by (auto simp: sample_lib_def)

section \<open>The class invariant of TIME\<close>

text \<open>
  What the constructors rely on: a conversion that reports success gives a TIME without a date
  part, or a DATE or DATETIME, with valid minutes, seconds and microseconds, or marks the value as
  none or as an error; the difference of two values is a valid TIME, limiting a TIME to its range
  keeps it valid, and so is the zero TIME.
\<close>

definition converted_ok :: "mysql_time \<Rightarrow> bool" where
  "converted_ok t \<longleftrightarrow> has_valid_mmssff t \<and> (mt_type t = TS_TIME \<longrightarrow> has_zero_YYYYMMDD t)"

definition conversions_ok :: "time_lib \<Rightarrow> bool" where
  "conversions_ok lib \<longleftrightarrow>
     (\<forall>neg n f h. case number_to_time_only lib neg n f h of (rc, t, w) \<Rightarrow> rc \<or> converted_ok t) \<and>
     (\<forall>n f fl. case number_to_datetime_or_date lib n f fl of (r, t, w) \<Rightarrow> r < 0 \<or> converted_ok t) \<and>
     (\<forall>a b n. has_valid_mmssff a \<longrightarrow> is_valid_time_slow (calc_time_diff_time lib a b n)) \<and>
     (\<forall>t d. is_valid_time_slow t \<longrightarrow> is_valid_time_slow (fst (snd (check_time_range lib t d)))) \<and>
     is_valid_time_slow (set_zero_time lib TS_TIME)"

lemma conversions_okD:
  assumes "conversions_ok lib"
  shows "number_to_time_only lib neg n f h = (rc, t, w) \<Longrightarrow> rc \<or> converted_ok t"
    and "number_to_datetime_or_date lib n f fl = (r, t, w) \<Longrightarrow> r < 0 \<or> converted_ok t"
proof -
  note c = conjunct1 [OF assms [unfolded conversions_ok_def]]
    conjunct1 [OF conjunct2 [OF assms [unfolded conversions_ok_def]]]
  show "number_to_time_only lib neg n f h = (rc, t, w) \<Longrightarrow> rc \<or> converted_ok t"
    using spec [OF spec [OF spec [OF spec [OF c(1), of neg], of n], of f], of h]
    by (simp only: prod.case)
  show "number_to_datetime_or_date lib n f fl = (r, t, w) \<Longrightarrow> r < 0 \<or> converted_ok t"
    using spec [OF spec [OF spec [OF c(2), of n], of f], of fl] by (simp only: prod.case)
qed

lemma to_datetime_or_time_ok:
  assumes "conversions_ok lib" and "to_datetime_or_time lib s mode = (rc, t, w)" and "\<not> rc"
  shows "converted_ok t"
proof (cases "s6_sec s > 9999999 \<and> s6_sec s \<le> 99991231235959 \<and> \<not> s6_neg s")
  case True
  obtain r t' w' where n: "number_to_datetime_or_date lib (s6_sec s) (s6_usec s)
      (mode AND TIME_MODE_FOR_XXX_TO_DATE) = (r, t', w')" by (rule prod_cases3)
  have "to_datetime_or_time lib s mode = (r < 0, t', w')"
    using True n by (simp only: to_datetime_or_time_def if_True Let_def prod.case simp_thms)
  then have "\<not> r < 0" "t' = t" using assms(2,3) by auto
  then show ?thesis using conversions_okD(2) [OF assms(1) n] by blast
next
  case False
  then have "number_to_time_only lib (s6_neg s) (s6_sec s) (s6_usec s) TIME_MAX_HOUR = (rc, t, w)"
    using assms(2) by (simp only: to_datetime_or_time_def if_False)
  then show ?thesis using conversions_okD(1) [OF assms(1)] assms(3) by blast
qed

lemma mix_to_hours_simps [simp]:
  "mt_minute (fst (mix_to_hours t w y m d)) = mt_minute t"
  "mt_second (fst (mix_to_hours t w y m d)) = mt_second t"
  "mt_second_part (fst (mix_to_hours t w y m d)) = mt_second_part t"
  by (simp_all add: mix_to_hours_def)

lemma valid_datetime_ok:
  assumes "conversions_ok lib" and "has_valid_mmssff t"
  shows "is_valid_time_slow (fst (valid_datetime_to_valid_time lib t w opt))"
proof (cases "opt = MINUS_CURRENT_DATE")
  case True
  then show ?thesis using assms
    by (simp add: valid_datetime_to_valid_time_def datetime_to_time_minus_current_date_def
        conversions_ok_def)
next
  case False
  obtain u w' where m: "mix_to_hours t w (mt_year t) (mt_month t) (mt_day t) = (u, w')" by fastforce
  then show ?thesis
    using False assms(2) mix_to_hours_simps [of t w "mt_year t" "mt_month t" "mt_day t"]
    by (auto simp: valid_datetime_to_valid_time_def is_valid_time_slow_def has_zero_YYYYMMDD_def
        has_valid_mmssff_def)
qed

lemma valid_value_ok:
  assumes "conversions_ok lib" and "mt_type t = TS_NONE \<or> converted_ok t"
  shows "time_is_valid_value_slow (fst (valid_MYSQL_TIME_to_valid_value lib t w opt))"
  using assms valid_datetime_ok [of lib t w opt]
  by (cases "mt_type t")
    (auto simp: valid_MYSQL_TIME_to_valid_value_def time_is_valid_value_slow_def make_from_out_of_range_def
      converted_ok_def conversions_ok_def is_valid_time_slow_def)

text \<open>
  C7. A TIME that is made from a number, in any of the five modes, satisfies the invariant that
  the constructors assert: it is none, or a TIME without a date part and with valid minutes,
  seconds and microseconds. A failed conversion is none, and a date that has no time of day is
  refused where the mode disallows it.
\<close>

theorem time_from_number_valid:
  assumes "conversions_ok lib"
  shows "time_is_valid_value_slow (fst (time_from_sec6 lib nr opt)) \<and>
    (fst (to_datetime_or_time lib nr TIME_INVALID_DATES) \<longrightarrow>
      mt_type (fst (time_from_sec6 lib nr opt)) = TS_NONE) \<and>
    (mt_type (fst (snd (to_datetime_or_time lib nr TIME_INVALID_DATES))) \<in> {TS_DATE, TS_DATETIME} \<longrightarrow>
      mt_type (fst (time_from_sec6 lib nr DISALLOW)) = TS_NONE)"
proof (intro conjI impI)
  obtain rc t w where r: "to_datetime_or_time lib nr TIME_INVALID_DATES = (rc, t, w)"
    by (cases "to_datetime_or_time lib nr TIME_INVALID_DATES") auto
  define u where "u = (if rc then t\<lparr>mt_type := TS_NONE\<rparr> else t)"
  have f: "time_from_sec6 lib nr opt = valid_MYSQL_TIME_to_valid_value lib u w opt" for opt
    by (simp only: time_from_sec6_def r prod.case Let_def u_def)
  have "mt_type u = TS_NONE \<or> converted_ok u"
    using to_datetime_or_time_ok [OF assms r] by (auto simp: u_def)
  then show "time_is_valid_value_slow (fst (time_from_sec6 lib nr opt))"
    unfolding f by (rule valid_value_ok [OF assms])
  show "mt_type (fst (time_from_sec6 lib nr opt)) = TS_NONE"
    if "fst (to_datetime_or_time lib nr TIME_INVALID_DATES)"
    using that r f [of opt] by (simp add: u_def valid_MYSQL_TIME_to_valid_value_def)
  show "mt_type (fst (time_from_sec6 lib nr DISALLOW)) = TS_NONE"
    if "mt_type (fst (snd (to_datetime_or_time lib nr TIME_INVALID_DATES))) \<in> {TS_DATE, TS_DATETIME}"
    using that r f [of DISALLOW]
    by (auto simp: u_def valid_MYSQL_TIME_to_valid_value_def make_from_out_of_range_def)
qed

lemma sample_conversions: "conversions_ok sample_lib"
  by (auto simp: conversions_ok_def sample_lib_def converted_ok_def has_valid_mmssff_def
      has_zero_YYYYMMDD_def is_valid_time_slow_def word_le_nat_alt unat_mod less_Suc_eq_le [symmetric])

theorem time_from_number_valid_witness:
  "time_is_valid_value_slow (fst (time_from_sec6 sample_lib
      \<lparr>s6_sec = 123456, s6_usec = 7, s6_neg = True, s6_truncated = False\<rparr> YYYYMMDD_TRUNCATE)) \<and>
   mt_type (fst (time_from_sec6 sample_lib
      \<lparr>s6_sec = 8390000, s6_usec = 7, s6_neg = True, s6_truncated = False\<rparr> YYYYMMDD_TRUNCATE)) = TS_NONE"
  using conjunct1 [OF time_from_number_valid [OF sample_conversions,
      of "\<lparr>s6_sec = 123456, s6_usec = 7, s6_neg = True, s6_truncated = False\<rparr>" YYYYMMDD_TRUNCATE]]
    time_from_number_valid [OF sample_conversions,
      of "\<lparr>s6_sec = 8390000, s6_usec = 7, s6_neg = True, s6_truncated = False\<rparr>" YYYYMMDD_TRUNCATE]
  by (simp add: sample_lib_def to_datetime_or_time_def)

section \<open>Extract_source\<close>

definition clock_usecs :: "mysql_time \<Rightarrow> int" where
  "clock_usecs t = ((int (unat (mt_hour t)) * 60 + int (unat (mt_minute t))) * 60 +
     int (unat (mt_second t))) * 1000000 + int (unat (mt_second_part t))"

lemma factor_out: "e * a * (k :: int) = e * (a * k)" "e * a + e * b = e * (a + b :: int)"
  by (simp_all add: distrib_left)

text \<open>
  A TIME without a date part becomes a valid source for EXTRACT whose hour is below 24; its
  day, hour, minute, second and microsecond, each with the sign of the value, add up to the same
  signed number of microseconds, and the digits of \<^verbatim>\<open>DAY_SECOND\<close> are those parts.
\<close>

theorem extract_source_keeps_time:
  assumes "mt_type t = TS_TIME" and "has_zero_YYYYMMDD t" and "has_valid_mmssff t"
  shows "\<exists>u. extract_source_make t = Some u \<and> is_valid_extract_source_slow u \<and> mt_hour u < 24 \<and>
    (((ex_day u * 24 + ex_hour u) * 60 + ex_minute u) * 60 + ex_second u) * 1000000 +
      ex_microsecond u = ex_sign t * clock_usecs t \<and>
    day_second u = ex_sign t * (((int (unat (mt_hour t) div 24) * 100 + int (unat (mt_hour t) mod 24)) * 100
      + int (unat (mt_minute t))) * 100 + int (unat (mt_second t)))"
proof -
  define u where "u = t\<lparr>mt_day := mt_hour t div 24, mt_hour := mt_hour t mod 24\<rparr>"
  have h: "mt_hour u < 24" by (simp add: u_def word_less_nat_alt unat_mod)
  have v: "is_valid_extract_source_slow u"
    using assms h by (simp add: is_valid_extract_source_slow_def is_valid_temporal_def has_zero_YYYYMM_def
        has_zero_YYYYMMDD_def u_def)
  have e: "extract_source_make t = Some u"
    using assms(1,2) v by (simp add: extract_source_make_def time_to_daytime_interval_def
        extract_is_valid_value_slow_def u_def)
  have small: "unat (mt_minute t) < 2147483648" "unat (mt_second t) < 2147483648" "unat (mt_second_part t) < 2147483648"
    using assms(3) by (simp_all add: has_valid_mmssff_def word_le_nat_alt)
  have day: "unat (mt_hour t div 24) = unat (mt_hour t) div 24"
    and hour: "unat (mt_hour t mod 24) = unat (mt_hour t) mod 24" by (simp_all add: unat_div unat_mod)
  have "unat (mt_hour t) < 4294967296" using unsigned_less [of "mt_hour t"] by simp
  then have "unat (mt_hour t div 24) < 2147483648" "unat (mt_hour t mod 24) < 2147483648"
    unfolding day hour by linarith+
  note s = sint_small [OF this(1)] sint_small [OF this(2)] sint_small [OF small(1)]
    sint_small [OF small(2)] sint_small [OF small(3)]
  have parts: "ex_day u = ex_sign t * int (unat (mt_hour t) div 24)"
    "ex_hour u = ex_sign t * int (unat (mt_hour t) mod 24)"
    "ex_minute u = ex_sign t * int (unat (mt_minute t))"
    "ex_second u = ex_sign t * int (unat (mt_second t))"
    "ex_microsecond u = ex_sign t * int (unat (mt_second_part t))"
    using s by (simp_all add: ex_day_def ex_hour_def ex_minute_def ex_second_def ex_microsecond_def
        u_def day hour ex_sign_def)
  have "int (unat (mt_hour t)) = int (unat (mt_hour t) div 24) * 24 + int (unat (mt_hour t) mod 24)"
    by (metis div_mult_mod_eq of_nat_add of_nat_mult of_nat_numeral)
  then have "(((ex_day u * 24 + ex_hour u) * 60 + ex_minute u) * 60 + ex_second u) * 1000000 +
      ex_microsecond u = ex_sign t * clock_usecs t"
    unfolding parts clock_usecs_def by (simp only: factor_out)
  moreover have "day_second u = ex_sign t *
      (((int (unat (mt_hour t) div 24) * 100 + int (unat (mt_hour t) mod 24)) * 100
        + int (unat (mt_minute t))) * 100 + int (unat (mt_second t)))"
    unfolding day_second_def day_minute_def day_hour_def parts by (simp only: factor_out)
  ultimately show ?thesis using e v h by blast
qed

theorem extract_source_keeps_time_witness:
  "\<exists>u. extract_source_make (clock 49 2 3 4 True TS_TIME) = Some u \<and> mt_hour u < 24 \<and>
     day_second u = - 2010203"
  using extract_source_keeps_time [of "clock 49 2 3 4 True TS_TIME"]
  by (auto simp: has_zero_YYYYMMDD_def has_valid_mmssff_def ex_sign_def)

section \<open>Order of timestamps\<close>

definition ts_key :: "timeval \<Rightarrow> int" where
  "ts_key t = sint (tv_sec t) * 4294967296 + sint (tv_usec t)"

lemma sint_range: "- 2147483648 \<le> sint (u :: uint)" "sint (u :: uint) < 2147483648"
  using sint_ge [of u] sint_lt [of u] by simp_all

interpretation ts_order: three_way ts_cmp ts_key
proof
  fix a b :: timeval
  note r = sint_range [of "tv_usec a"] sint_range [of "tv_usec b"]
  show "ts_cmp a b < 0 \<longleftrightarrow> ts_key a < ts_key b"
    using r unfolding ts_cmp_def ts_key_def by (cases "sint (tv_sec a)" "sint (tv_sec b)" rule: linorder_cases) auto
  show "ts_cmp a b = 0 \<longleftrightarrow> ts_key a = ts_key b"
    using r unfolding ts_cmp_def ts_key_def by (cases "sint (tv_sec a)" "sint (tv_sec b)" rule: linorder_cases) auto
qed

text \<open>A zero datetime is below every timestamp.\<close>

definition toz_key :: "ts_or_zero \<Rightarrow> int" where
  "toz_key t = (if is_zero_datetime t then - (2 ^ 64) else ts_key (timeval.truncate t))"

lemma ts_key_above: "- (2 ^ 64) < ts_key t"
  using sint_range(1) [of "tv_sec t"] sint_range(1) [of "tv_usec t"] by (simp add: ts_key_def)

interpretation toz_order: three_way toz_cmp toz_key
proof
  fix a b :: ts_or_zero
  note k = ts_key_above [of "timeval.truncate a"] ts_key_above [of "timeval.truncate b"]
  show "toz_cmp a b < 0 \<longleftrightarrow> toz_key a < toz_key b"
    using k by (auto simp: toz_cmp_def toz_key_def ts_order.cmp_less)
  show "toz_cmp a b = 0 \<longleftrightarrow> toz_key a = toz_key b"
    using k by (auto simp: toz_cmp_def toz_key_def ts_order.cmp_eq)
qed

text \<open>
  Comparing timestamps with a zero datetime is a total preorder: comparing the other way
  round gives the opposite sign, it is transitive, and it is zero exactly for two zero datetimes or
  for equal seconds and microseconds; truncation to some decimals keeps a zero datetime, and
  a result is never above the timestamp it was made from.
\<close>

theorem timestamp_order:
  shows "toz_cmp a b < 0 \<longleftrightarrow> toz_cmp b a > 0"
    and "toz_cmp a b \<le> 0 \<Longrightarrow> toz_cmp b c \<le> 0 \<Longrightarrow> toz_cmp a c \<le> 0"
    and "toz_cmp a b = 0 \<longleftrightarrow> is_zero_datetime a \<and> is_zero_datetime b \<or>
      \<not> is_zero_datetime a \<and> \<not> is_zero_datetime b \<and> tv_sec a = tv_sec b \<and> tv_usec a = tv_usec b"
    and "powers lib \<Longrightarrow> unat (tv_usec a) < 1000000 \<Longrightarrow> d \<le> 6 \<Longrightarrow> toz_cmp (toz_trunc lib a d) a \<le> 0"
proof -
  show "toz_cmp a b < 0 \<longleftrightarrow> toz_cmp b a > 0" by (rule toz_order.cmp_antisym)
  show "toz_cmp a c \<le> 0" if "toz_cmp a b \<le> 0" "toz_cmp b c \<le> 0"
    using that by (rule toz_order.cmp_trans)
  show "toz_cmp a b = 0 \<longleftrightarrow> is_zero_datetime a \<and> is_zero_datetime b \<or>
      \<not> is_zero_datetime a \<and> \<not> is_zero_datetime b \<and> tv_sec a = tv_sec b \<and> tv_usec a = tv_usec b"
    using signed_word_eqI [of "tv_sec a" "tv_sec b"] signed_word_eqI [of "tv_usec a" "tv_usec b"]
    by (auto simp: toz_cmp_def ts_cmp_def timeval.defs split: if_splits)
  assume p: "powers lib" and u: "unat (tv_usec a) < 1000000"
  define v where "v = tv_usec a - my_time_fraction_remainder lib (tv_usec a) d"
  have "unat v \<le> unat (tv_usec a)" using truncated_value [OF p u, of d] by (simp add: v_def)
  then have "sint v \<le> sint (tv_usec a)"
    using sint_small [of v] sint_small [of "tv_usec a"] u by linarith
  then show "toz_cmp (toz_trunc lib a d) a \<le> 0"
    by (simp add: toz_cmp_def toz_trunc_def toz_make_def ts_trunc_def my_timeval_trunc_def
        timeval.defs ts_cmp_def v_def)
qed

definition moment :: "uint \<Rightarrow> uint \<Rightarrow> bool \<Rightarrow> ts_or_zero" where
  "moment s us z = \<lparr>tv_sec = s, tv_usec = us, is_zero_datetime = z\<rparr>"

theorem timestamp_order_witness:
  "toz_cmp (moment 5 9 True) (moment 6 8 False) \<le> 0 \<and>
   toz_cmp (moment 5 9 True) (moment 7 0 False) \<le> 0 \<and>
   toz_cmp (toz_trunc sample_lib (moment 5 123456 False) 3) (moment 5 123456 False) \<le> 0"
  using timestamp_order(2) [of "moment 5 9 True" "moment 6 8 False" "moment 7 0 False"]
    timestamp_order(4) [OF sample_powers, of "moment 5 123456 False" 3]
  by (simp add: moment_def toz_cmp_def ts_cmp_def timeval.defs)

section \<open>Lengths\<close>

text \<open>
  The length in bytes is the product, or the largest 32-bit number; the product itself is taken
  modulo \<open>2 ^ 64\<close>, so a number of characters above \<open>2 ^ 32\<close> may give a small length.
\<close>

lemma char_to_byte_length_exact:
  assumes "unat n \<le> 4294967295"
  shows "unat (char_to_byte_length_safe n m) = min (unat n * unat m) 4294967295"
proof -
  have "unat m < 4294967296" using unsigned_less [where 'b = 32 and 'a = nat and w = m] by simp
  then have "unat m \<le> 4294967295" by linarith
  then have "unat n * unat m \<le> 4294967295 * 4294967295" using assms mult_le_mono by blast
  then have "unat (n * ucast m) = unat n * unat m"
    by (subst unat_mult_no_overflow) (simp_all add: unsigned_ucast_eq take_bit_nat_eq_self)
  then show ?thesis
    by (auto simp: char_to_byte_length_safe_def Let_def word_less_nat_alt unsigned_ucast_eq
        take_bit_nat_eq_self min_def)
qed

lemma char_to_byte_length_wraps: "char_to_byte_length_safe 0x4000000000000000 4 = 0"
  by (simp add: char_to_byte_length_safe_def)

end
