(* ===== verification/Spatial.thy ===== *)
theory Spatial
  imports Byte_Order Lex_Input
begin

text \<open>
  Spatial values: the bounding rectangles \<^verbatim>\<open>MBR\<close> and the checks and readers of well-known binary
  data of \<^verbatim>\<open>spatial.h\<close>, and the reader of well-known text \<^verbatim>\<open>Gis_read_stream\<close> of \<^verbatim>\<open>gstream.h\<close>.

  A coordinate is an element of a linear order with subtraction, addition and change of sign of
  which no law is assumed: doubles that are not NaN compare like that. Where coordinates are read
  from memory, \<open>dbl\<close> is the number that eight bytes stand for. A rectangle denotes its set of
  points, \<^verbatim>\<open>box\<close>, and the tests of two rectangles are compared with the relations of these sets.
\<close>

section \<open>MBR\<close>

record 'd mbr =
  xmin :: 'd
  ymin :: 'd
  xmax :: 'd
  ymax :: 'd

definition mbr_empty :: "'d::uminus \<Rightarrow> 'd mbr" where
  "mbr_empty dbl_max = \<lparr>xmin = dbl_max, ymin = dbl_max, xmax = - dbl_max, ymax = - dbl_max\<rparr>"

definition mbr_make :: "'d \<Rightarrow> 'd \<Rightarrow> 'd \<Rightarrow> 'd \<Rightarrow> 'd mbr" where
  "mbr_make xmin_arg ymin_arg xmax_arg ymax_arg =
     \<lparr>xmin = xmin_arg, ymin = ymin_arg, xmax = xmax_arg, ymax = ymax_arg\<rparr>"

definition mbr_of_corners :: "'d \<times> 'd \<Rightarrow> 'd \<times> 'd \<Rightarrow> 'd mbr" where
  "mbr_of_corners min_point max_point =
     \<lparr>xmin = fst min_point, ymin = snd min_point, xmax = fst max_point, ymax = snd max_point\<rparr>"

definition add_xy :: "('d::linorder) mbr \<Rightarrow> 'd \<Rightarrow> 'd \<Rightarrow> 'd mbr" where
  "add_xy m x y =
     (let m = (if x < xmin m then m\<lparr>xmin := x\<rparr> else m);
          m = (if x > xmax m then m\<lparr>xmax := x\<rparr> else m);
          m = (if y < ymin m then m\<lparr>ymin := y\<rparr> else m);
          m = (if y > ymax m then m\<lparr>ymax := y\<rparr> else m)
      in m)"

definition add_xy_bytes :: "(uchar list \<Rightarrow> 'd::linorder) \<Rightarrow> memory \<Rightarrow> 'd mbr \<Rightarrow> nat \<Rightarrow> nat \<Rightarrow> 'd mbr" where
  "add_xy_bytes dbl mem m px py = add_xy m (dbl (float8get mem px)) (dbl (float8get mem py))"

definition add_mbr :: "('d::linorder) mbr \<Rightarrow> 'd mbr \<Rightarrow> 'd mbr" where
  "add_mbr m mbr =
     (let m = (if xmin mbr < xmin m then m\<lparr>xmin := xmin mbr\<rparr> else m);
          m = (if xmax mbr > xmax m then m\<lparr>xmax := xmax mbr\<rparr> else m);
          m = (if ymin mbr < ymin m then m\<lparr>ymin := ymin mbr\<rparr> else m);
          m = (if ymax mbr > ymax m then m\<lparr>ymax := ymax mbr\<rparr> else m)
      in m)"

definition mbr_join :: "('d::linorder) mbr \<Rightarrow> 'd mbr \<Rightarrow> 'd mbr" where
  "mbr_join mbr1 mbr2 =
     add_mbr \<lparr>xmin = xmin mbr1, ymin = ymin mbr1, xmax = xmax mbr1, ymax = ymax mbr1\<rparr> mbr2"

definition buffer :: "('d::{minus, plus}) mbr \<Rightarrow> 'd \<Rightarrow> 'd mbr" where
  "buffer m d = \<lparr>xmin = xmin m - d, ymin = ymin m - d, xmax = xmax m + d, ymax = ymax m + d\<rparr>"

definition mbr_equals :: "'d mbr \<Rightarrow> 'd mbr \<Rightarrow> bool" where
  "mbr_equals m mbr \<longleftrightarrow>
     xmin mbr = xmin m \<and> ymin mbr = ymin m \<and> xmax mbr = xmax m \<and> ymax mbr = ymax m"

definition disjoint :: "('d::linorder) mbr \<Rightarrow> 'd mbr \<Rightarrow> bool" where
  "disjoint m mbr \<longleftrightarrow>
     xmin mbr > xmax m \<or> ymin mbr > ymax m \<or> xmax mbr < xmin m \<or> ymax mbr < ymin m"

definition intersects :: "('d::linorder) mbr \<Rightarrow> 'd mbr \<Rightarrow> bool" where
  "intersects m mbr \<longleftrightarrow> \<not> disjoint m mbr"

definition touches :: "('d::linorder) mbr \<Rightarrow> 'd mbr \<Rightarrow> bool" where
  "touches m mbr \<longleftrightarrow>
     ((xmin mbr = xmax m \<or> xmax mbr = xmin m) \<and>
      ((ymin mbr \<ge> ymin m \<and> ymin mbr \<le> ymax m) \<or> (ymax mbr \<ge> ymin m \<and> ymax mbr \<le> ymax m))) \<or>
     ((ymin mbr = ymax m \<or> ymax mbr = ymin m) \<and>
      ((xmin mbr \<ge> xmin m \<and> xmin mbr \<le> xmax m) \<or> (xmax mbr \<ge> xmin m \<and> xmax mbr \<le> xmax m)))"

definition mbr_contains :: "('d::linorder) mbr \<Rightarrow> 'd mbr \<Rightarrow> bool" where
  "mbr_contains m mbr \<longleftrightarrow>
     xmin mbr \<ge> xmin m \<and> ymin mbr \<ge> ymin m \<and> xmax mbr \<le> xmax m \<and> ymax mbr \<le> ymax m"

definition inner_point :: "('d::linorder) mbr \<Rightarrow> 'd \<Rightarrow> 'd \<Rightarrow> bool" where
  "inner_point m x y \<longleftrightarrow> xmin m < x \<and> xmax m > x \<and> ymin m < y \<and> ymax m > y"

definition dimension :: "('d::linorder) mbr \<Rightarrow> int" where
  "dimension m =
     (let d = 0 in
      if xmin m > xmax m then - 1
      else let d = (if xmin m < xmax m then d + 1 else d) in
        if ymin m > ymax m then - 1
        else if ymin m < ymax m then d + 1 else d)"

text \<open>\<open>within\<close> is \<^verbatim>\<open>MBR::within\<close>, whose body is not in the header.\<close>

definition overlaps :: "(('d::linorder) mbr \<Rightarrow> 'd mbr \<Rightarrow> bool) \<Rightarrow> 'd mbr \<Rightarrow> 'd mbr \<Rightarrow> bool" where
  "overlaps within m mbr =
     (let d = dimension m in
      if d \<noteq> dimension mbr \<or> d \<le> 0 \<or> mbr_contains m mbr \<or> within m mbr then False
      else let intersection = mbr_make (max (xmin m) (xmin mbr)) (max (ymin m) (ymin mbr))
                                (min (xmax m) (xmax mbr)) (min (ymax m) (ymax mbr))
        in d = dimension intersection)"

definition mbr_valid :: "('d::linorder) mbr \<Rightarrow> bool" where
  "mbr_valid m \<longleftrightarrow> xmin m \<le> xmax m \<and> ymin m \<le> ymax m"

section \<open>Geometry and Gis_point\<close>

abbreviation (input) SIZEOF_STORED_DOUBLE :: nat where "SIZEOF_STORED_DOUBLE \<equiv> 8"
abbreviation (input) POINT_DATA_SIZE :: uint where "POINT_DATA_SIZE \<equiv> 16"
abbreviation (input) WKB_HEADER_SIZE :: nat where "WKB_HEADER_SIZE \<equiv> 5"

text \<open>The data of a geometry: addresses in memory.\<close>

record geometry =
  m_data :: nat
  m_data_end :: nat

definition set_data_ptr :: "nat \<Rightarrow> nat \<Rightarrow> geometry" where
  "set_data_ptr data data_len = \<lparr>m_data = data, m_data_end = data + data_len\<rparr>"

definition shift_wkb_header :: "geometry \<Rightarrow> geometry" where
  "shift_wkb_header g = g\<lparr>m_data := m_data g + WKB_HEADER_SIZE\<rparr>"

definition find_class :: "(nat \<Rightarrow> 'c option) \<Rightarrow> int \<Rightarrow> 'c option" where
  "find_class ci_collection type_id =
     (if type_id < 1 \<or> type_id > 7 then None else ci_collection (nat type_id))"

definition no_data :: "geometry \<Rightarrow> nat \<Rightarrow> nat \<Rightarrow> bool" where
  "no_data g cur_data data_amount \<longleftrightarrow> cur_data + data_amount > m_data_end g"

text \<open>A divisor of 0, which the sum of the sizes can wrap to, is undefined.\<close>

definition not_enough_points :: "geometry \<Rightarrow> nat \<Rightarrow> uint \<Rightarrow> uint \<Rightarrow> bool option" where
  "not_enough_points g data expected_points extra_point_space =
     (if m_data_end g < data then Some True
      else if POINT_DATA_SIZE + extra_point_space = 0 then None
      else Some (unat expected_points >
        (m_data_end g - data) div unat (POINT_DATA_SIZE + extra_point_space)))"

definition get_xy :: "(uchar list \<Rightarrow> 'd) \<Rightarrow> memory \<Rightarrow> geometry \<Rightarrow> ('d \<times> 'd) option" where
  "get_xy dbl mem g =
     (let data = m_data g in
      if no_data g data (SIZEOF_STORED_DOUBLE * 2) then None
      else Some (dbl (float8get mem data), dbl (float8get mem (data + SIZEOF_STORED_DOUBLE))))"

definition get_xy_radian ::
    "('d \<Rightarrow> 'd) \<Rightarrow> (uchar list \<Rightarrow> 'd) \<Rightarrow> memory \<Rightarrow> geometry \<Rightarrow> ('d \<times> 'd) option" where
  "get_xy_radian radian dbl mem g =
     (case get_xy dbl mem g of Some (x, y) \<Rightarrow> Some (radian x, radian y) | None \<Rightarrow> None)"

definition get_x :: "(uchar list \<Rightarrow> 'd) \<Rightarrow> memory \<Rightarrow> geometry \<Rightarrow> 'd option" where
  "get_x dbl mem g =
     (if no_data g (m_data g) SIZEOF_STORED_DOUBLE then None else Some (dbl (float8get mem (m_data g))))"

definition get_y :: "(uchar list \<Rightarrow> 'd) \<Rightarrow> memory \<Rightarrow> geometry \<Rightarrow> 'd option" where
  "get_y dbl mem g =
     (let data = m_data g in
      if no_data g data (SIZEOF_STORED_DOUBLE * 2) then None
      else Some (dbl (float8get mem (data + SIZEOF_STORED_DOUBLE))))"

definition max_n_points :: uint where
  "max_n_points = (0xFFFFFFFF - 5 - 4) div (5 + POINT_DATA_SIZE)"

section \<open>Gis_read_stream\<close>

text \<open>The text is a list, the current position and the limit are indices in it.\<close>

record gis_stream =
  g_text :: "uchar list"
  g_cur :: nat
  g_err_msg :: "string option"

function skip_space :: "(nat \<Rightarrow> uchar) \<Rightarrow> gis_stream \<Rightarrow> gis_stream" where
  "skip_space m_ctype s =
     (if g_cur s < length (g_text s) \<and> my_isspace m_ctype (g_text s ! g_cur s)
      then skip_space m_ctype (s\<lparr>g_cur := g_cur s + 1\<rparr>) else s)"
  by pat_completeness auto
termination
  by (relation "measure (\<lambda>(m_ctype, s). length (g_text s) - g_cur s)") auto

declare skip_space.simps [simp del]

definition skip_char :: "(nat \<Rightarrow> uchar) \<Rightarrow> gis_stream \<Rightarrow> uchar \<Rightarrow> bool \<times> gis_stream" where
  "skip_char m_ctype s c =
     (let s = skip_space m_ctype s in
      if g_cur s \<ge> length (g_text s) \<or> g_text s ! g_cur s \<noteq> c then (True, s)
      else (False, s\<lparr>g_cur := g_cur s + 1\<rparr>))"

definition next_symbol :: "(nat \<Rightarrow> uchar) \<Rightarrow> gis_stream \<Rightarrow> uchar \<times> gis_stream" where
  "next_symbol m_ctype s =
     (let s = skip_space m_ctype s in
      if g_cur s \<ge> length (g_text s) then (0, s) else (g_text s ! g_cur s, s))"

definition get_error_msg :: "gis_stream \<Rightarrow> string option \<times> gis_stream" where
  "get_error_msg s = (g_err_msg s, s\<lparr>g_err_msg := None\<rparr>)"

section \<open>Rectangles as sets of points\<close>

definition box :: "('d::linorder) mbr \<Rightarrow> ('d \<times> 'd) set" where
  "box m = {xmin m..xmax m} \<times> {ymin m..ymax m}"

lemma box_empty_iff: "box m = {} \<longleftrightarrow> \<not> mbr_valid m"
  by (auto simp: box_def mbr_valid_def)

lemma valid_box: "mbr_valid m \<Longrightarrow> (xmin m, ymin m) \<in> box m" "mbr_valid m \<Longrightarrow> (xmax m, ymax m) \<in> box m"
  by (auto simp: box_def mbr_valid_def)

text \<open>
  The interface of a test of two rectangles: on rectangles that have points, it is a relation of
  their sets of points.
\<close>

locale box_test =
  fixes test :: "('d::linorder) mbr \<Rightarrow> 'd mbr \<Rightarrow> bool"
    and rel :: "('d \<times> 'd) set \<Rightarrow> ('d \<times> 'd) set \<Rightarrow> bool"
  assumes test_iff: "mbr_valid a \<Longrightarrow> mbr_valid b \<Longrightarrow> test a b \<longleftrightarrow> rel (box a) (box b)"
begin

lemma same_box:
  assumes "mbr_valid a" and "mbr_valid b" and "mbr_valid c" and "box a = box b"
  shows "test a c = test b c" and "test c a = test c b"
  using test_iff assms by simp_all

lemma symmetric:
  assumes "\<And>A B. rel A B = rel B A" and "mbr_valid a" and "mbr_valid b"
  shows "test a b = test b a"
  using test_iff assms by simp

lemma transitive:
  assumes "\<And>A B C. rel A B \<Longrightarrow> rel B C \<Longrightarrow> rel A C"
    and "mbr_valid a" and "mbr_valid b" and "mbr_valid c" and "test a b" and "test b c"
  shows "test a c"
  using test_iff assms by metis

end

interpretation contains: box_test mbr_contains "\<lambda>A B. B \<subseteq> A"
proof
  fix a b :: "'d::linorder mbr"
  assume v: "mbr_valid a" "mbr_valid b"
  show "mbr_contains a b \<longleftrightarrow> box b \<subseteq> box a"
  proof
    show "mbr_contains a b \<Longrightarrow> box b \<subseteq> box a"
      by (auto simp: mbr_contains_def box_def)
    assume "box b \<subseteq> box a"
    then have "(xmin b, ymin b) \<in> box a" "(xmax b, ymax b) \<in> box a" using valid_box [OF v(2)] by blast+
    then show "mbr_contains a b" by (simp add: mbr_contains_def box_def)
  qed
qed

interpretation disjoint: box_test disjoint "\<lambda>A B. A \<inter> B = {}"
proof
  fix a b :: "'d::linorder mbr"
  assume v: "mbr_valid a" "mbr_valid b"
  show "disjoint a b \<longleftrightarrow> box a \<inter> box b = {}"
  proof
    show "disjoint a b \<Longrightarrow> box a \<inter> box b = {}"
      by (auto simp: disjoint_def box_def)
    assume e: "box a \<inter> box b = {}"
    show "disjoint a b"
    proof (rule ccontr)
      assume "\<not> disjoint a b"
      then have "(max (xmin a) (xmin b), max (ymin a) (ymin b)) \<in> box a \<inter> box b"
        using v by (auto simp: disjoint_def box_def mbr_valid_def)
      then show False using e by blast
    qed
  qed
qed

interpretation intersects: box_test intersects "\<lambda>A B. A \<inter> B \<noteq> {}"
  by unfold_locales (simp add: intersects_def disjoint.test_iff)

interpretation equals: box_test mbr_equals "\<lambda>A B. A = B"
proof
  fix a b :: "'d::linorder mbr"
  assume v: "mbr_valid a" "mbr_valid b"
  have "mbr_equals a b \<longleftrightarrow> mbr_contains a b \<and> mbr_contains b a"
    by (auto simp: mbr_equals_def mbr_contains_def)
  then show "mbr_equals a b \<longleftrightarrow> box a = box b"
    using contains.test_iff [OF v] contains.test_iff [OF v(2,1)] by auto
qed

text \<open>The rectangle of the common points.\<close>

definition mbr_meet :: "('d::linorder) mbr \<Rightarrow> 'd mbr \<Rightarrow> 'd mbr" where
  "mbr_meet m mbr = mbr_make (max (xmin m) (xmin mbr)) (max (ymin m) (ymin mbr))
     (min (xmax m) (xmax mbr)) (min (ymax m) (ymax mbr))"

lemma box_meet: "box (mbr_meet a b) = box a \<inter> box b"
  by (auto simp: box_def mbr_meet_def mbr_make_def)

text \<open>Sides with more than one point.\<close>

lemma dimension_valid: "dimension m = - 1 \<longleftrightarrow> \<not> mbr_valid m" "- 1 \<le> dimension m" "dimension m \<le> 2"
  by (auto simp: dimension_def mbr_valid_def Let_def)

lemma dimension_sides:
  "mbr_valid m \<Longrightarrow> dimension m = of_bool (xmin m < xmax m) + of_bool (ymin m < ymax m)"
  by (auto simp: dimension_def mbr_valid_def Let_def)

text \<open>
  C22. The tests of two rectangles that have points: \<^verbatim>\<open>contains\<close> is the inclusion of their sets of
  points, \<^verbatim>\<open>disjoint\<close> and \<^verbatim>\<open>intersects\<close> tell whether they have a common point, and \<^verbatim>\<open>equals\<close> whether
  they have the same points; rectangles that overlap have common points, which form a rectangle of
  the same dimension, and the second is not a part of the first.
\<close>

theorem mbr_tests_are_set_relations:
  fixes a b :: "('d::linorder) mbr"
  assumes "mbr_valid a" and "mbr_valid b"
  shows "(mbr_contains a b \<longleftrightarrow> box b \<subseteq> box a) \<and>
    (disjoint a b \<longleftrightarrow> box a \<inter> box b = {}) \<and> (intersects a b \<longleftrightarrow> box a \<inter> box b \<noteq> {}) \<and>
    (mbr_equals a b \<longleftrightarrow> box a = box b) \<and>
    (overlaps within a b \<longrightarrow> (\<exists>m. mbr_valid m \<and> box m = box a \<inter> box b \<and> \<not> box b \<subseteq> box a \<and>
       dimension m = dimension a \<and> dimension m = dimension b))"
proof (intro conjI impI)
  show "mbr_contains a b \<longleftrightarrow> box b \<subseteq> box a" by (rule contains.test_iff [OF assms])
  show "disjoint a b \<longleftrightarrow> box a \<inter> box b = {}" by (rule disjoint.test_iff [OF assms])
  show "intersects a b \<longleftrightarrow> box a \<inter> box b \<noteq> {}" by (rule intersects.test_iff [OF assms])
  show "mbr_equals a b \<longleftrightarrow> box a = box b" by (rule equals.test_iff [OF assms])
  assume "overlaps within a b"
  then have o: "dimension a = dimension b" "0 < dimension a" "\<not> mbr_contains a b"
    "dimension (mbr_meet a b) = dimension a"
    by (auto simp: overlaps_def mbr_meet_def Let_def split: if_splits)
  then have "mbr_valid (mbr_meet a b)" using dimension_valid(1) [of "mbr_meet a b"] by auto
  then show "\<exists>m. mbr_valid m \<and> box m = box a \<inter> box b \<and> \<not> box b \<subseteq> box a \<and>
      dimension m = dimension a \<and> dimension m = dimension b"
    using o contains.test_iff [OF assms] box_meet [of a b] by auto
qed

theorem mbr_tests_are_set_relations_witness:
  "disjoint (mbr_make 0 0 1 1) (mbr_make (2 :: int) 0 3 1) \<longleftrightarrow>
     box (mbr_make 0 0 1 1) \<inter> box (mbr_make (2 :: int) 0 3 1) = {}"
  using mbr_tests_are_set_relations [of "mbr_make 0 0 1 1" "mbr_make (2 :: int) 0 3 1" "\<lambda>_ _. False"]
  by (simp add: mbr_valid_def mbr_make_def)

text \<open>
  \<^verbatim>\<open>touches\<close> looks for a corner of the second rectangle between the corners of the first one: of
  two rectangles that have an edge in common and no inner point, it finds that the first touches the
  second and does not find that the second touches the first.
\<close>

theorem mbr_touches_not_symmetric:
  "\<exists>a b :: int mbr. mbr_valid a \<and> mbr_valid b \<and> box a \<inter> box b \<noteq> {} \<and>
     (\<forall>x y. \<not> (inner_point a x y \<and> inner_point b x y)) \<and> touches a b \<and> \<not> touches b a"
proof -
  define a b :: "int mbr" where "a = mbr_make 1 (- 1) 2 2" and "b = mbr_make 0 0 1 1"
  have v: "mbr_valid a" "mbr_valid b" by (simp_all add: a_def b_def mbr_make_def mbr_valid_def)
  moreover have "intersects a b" by (simp add: a_def b_def mbr_make_def intersects_def disjoint_def)
  moreover have "\<forall>x y. \<not> (inner_point a x y \<and> inner_point b x y)"
    by (simp add: a_def b_def mbr_make_def inner_point_def)
  moreover have "touches a b" "\<not> touches b a"
    by (simp_all add: a_def b_def mbr_make_def touches_def)
  ultimately show ?thesis using intersects.test_iff [OF v] by blast
qed

section \<open>The rectangle of points\<close>

definition add_points :: "('d::linorder) mbr \<Rightarrow> ('d \<times> 'd) list \<Rightarrow> 'd mbr" where
  "add_points = foldl (\<lambda>m p. add_xy m (fst p) (snd p))"

lemma add_xy_sides:
  "xmin (add_xy m x y) = min x (xmin m)" "xmax (add_xy m x y) = max x (xmax m)"
  "ymin (add_xy m x y) = min y (ymin m)" "ymax (add_xy m x y) = max y (ymax m)"
  by (auto simp: add_xy_def Let_def min_def max_def)

lemma add_mbr_sides:
  "xmin (add_mbr m n) = min (xmin n) (xmin m)" "xmax (add_mbr m n) = max (xmax n) (xmax m)"
  "ymin (add_mbr m n) = min (ymin n) (ymin m)" "ymax (add_mbr m n) = max (ymax n) (ymax m)"
  by (auto simp: add_mbr_def Let_def min_def max_def)

lemma add_points_sides:
  "xmin (add_points m ps) = foldr min (rev (map fst ps)) (xmin m)"
  "xmax (add_points m ps) = foldr max (rev (map fst ps)) (xmax m)"
  "ymin (add_points m ps) = foldr min (rev (map snd ps)) (ymin m)"
  "ymax (add_points m ps) = foldr max (rev (map snd ps)) (ymax m)"
  by (induction ps arbitrary: m) (simp_all add: add_points_def add_xy_sides)

lemma foldr_min_le: "z \<le> foldr min xs (a :: 'd::linorder) \<longleftrightarrow> z \<le> a \<and> (\<forall>x \<in> set xs. z \<le> x)"
  by (induction xs) auto

lemma foldr_max_ge: "foldr max xs (a :: 'd::linorder) \<le> z \<longleftrightarrow> a \<le> z \<and> (\<forall>x \<in> set xs. x \<le> z)"
  by (induction xs) auto

lemma foldr_min_lower: "foldr min xs (a :: 'd::linorder) \<le> a" "x \<in> set xs \<Longrightarrow> foldr min xs a \<le> x"
  using foldr_min_le [of "foldr min xs a" xs a] by auto

lemma foldr_max_upper: "(a :: 'd::linorder) \<le> foldr max xs a" "x \<in> set xs \<Longrightarrow> x \<le> foldr max xs a"
  using foldr_max_ge [of xs a "foldr max xs a"] by auto

text \<open>
  The rectangle that is made from nothing and from points between the largest numbers, one
  point after the other, has points, contains each of the points, and is contained in every
  rectangle that contains them.
\<close>

theorem mbr_of_points_is_least:
  assumes "qs \<noteq> []"
    and "\<forall>(x, y) \<in> set qs. x \<le> big \<and> - big \<le> x \<and> y \<le> big \<and> - big \<le> (y :: 'd::{linorder, uminus})"
  shows "mbr_valid (add_points (mbr_empty big) qs) \<and> set qs \<subseteq> box (add_points (mbr_empty big) qs) \<and>
    (\<forall>m. set qs \<subseteq> box m \<longrightarrow> mbr_contains m (add_points (mbr_empty big) qs))"
proof (intro conjI allI impI)
  let ?m = "add_points (mbr_empty big) qs"
  obtain x y where p: "(x, y) \<in> set qs" using assms(1) by (cases qs) auto
  show sub: "set qs \<subseteq> box ?m"
    by (force simp: box_def add_points_sides intro: foldr_min_lower foldr_max_upper)
  show "mbr_valid ?m" using sub p box_empty_iff [of ?m] by blast
  show "mbr_contains m ?m" if "set qs \<subseteq> box m" for m
  proof -
    have q: "xmin m \<le> x \<and> x \<le> xmax m \<and> ymin m \<le> y \<and> y \<le> ymax m" if "(x, y) \<in> set qs" for x y
      using that \<open>set qs \<subseteq> box m\<close> by (auto simp: box_def)
    have b: "x \<le> big" "- big \<le> x" "y \<le> big" "- big \<le> y" using assms(2) p by auto
    have "xmin m \<le> big" "ymin m \<le> big" "- big \<le> xmax m" "- big \<le> ymax m"
      using q [OF p] b by (auto intro: order_trans)
    then show ?thesis using q
      by (auto simp: mbr_contains_def add_points_sides mbr_empty_def foldr_min_le foldr_max_ge)
  qed
qed

theorem mbr_of_points_is_least_witness:
  "mbr_contains (mbr_make 0 0 9 9) (add_points (mbr_empty (100 :: int)) [(3, 4), (5, 1)])"
  using mbr_of_points_is_least [of "[(3, 4), (5, 1)]" "100 :: int"]
  by (simp add: box_def mbr_make_def)

text \<open>Joining two rectangles gives the least one that contains both.\<close>

lemma join_least:
  "mbr_contains (mbr_join a b) a \<and> mbr_contains (mbr_join a b) b \<and>
   (mbr_contains m a \<and> mbr_contains m b \<longrightarrow> mbr_contains m (mbr_join a b))"
  by (auto simp: mbr_contains_def mbr_join_def add_mbr_sides)

section \<open>Bounds of the data\<close>

lemma points_fit:
  assumes "not_enough_points g data n extra = Some False"
  shows "data + unat n * unat (POINT_DATA_SIZE + extra) \<le> m_data_end g"
proof -
  let ?s = "unat (POINT_DATA_SIZE + extra)"
  have d: "data \<le> m_data_end g" "unat n \<le> (m_data_end g - data) div ?s"
    using assms by (auto simp: not_enough_points_def split: if_splits)
  then have "unat n * ?s \<le> (m_data_end g - data) div ?s * ?s" by (intro mult_le_mono1)
  also have "\<dots> \<le> m_data_end g - data" by (rule div_times_less_eq_dividend)
  finally show ?thesis using d(1) by linarith
qed

text \<open>
  When the check for enough points passes, and the size of a point does not wrap around, each
  of the points lies before the end of the data; the two coordinates that \<^verbatim>\<open>get_xy\<close> returns are those
  that \<^verbatim>\<open>get_x\<close> and \<^verbatim>\<open>get_y\<close> return, and there are sixteen bytes of data.
\<close>

theorem wkb_reads_in_bounds:
  assumes "not_enough_points g data n extra = Some False" and "unat extra < 2 ^ 32 - 16"
  shows "(\<forall>i < unat n. \<not> no_data g (data + i * (16 + unat extra)) (16 + unat extra)) \<and>
    (\<forall>dbl mem p. get_xy dbl mem g = Some p \<longrightarrow> m_data g + 16 \<le> m_data_end g \<and>
       get_x dbl mem g = Some (fst p) \<and> get_y dbl mem g = Some (snd p))"
proof (intro conjI allI impI)
  fix i assume i: "i < unat n"
  have s: "unat (POINT_DATA_SIZE + extra) = 16 + unat extra"
    using assms(2) by (subst unat_add_no_overflow) simp_all
  have "(i + 1) * (16 + unat extra) \<le> unat n * (16 + unat extra)" using i by (intro mult_le_mono1) simp
  then have "data + i * (16 + unat extra) + (16 + unat extra) \<le> m_data_end g"
    using points_fit [OF assms(1)] unfolding s by (simp add: algebra_simps)
  then show "\<not> no_data g (data + i * (16 + unat extra)) (16 + unat extra)"
    by (simp add: no_data_def)
qed (auto simp: get_xy_def get_x_def get_y_def no_data_def Let_def split: if_splits)

theorem wkb_reads_in_bounds_witness:
  "\<forall>i < 3. \<not> no_data (set_data_ptr 100 60) (106 + i * 16) 16"
  using conjunct1 [OF wkb_reads_in_bounds [of "set_data_ptr 100 60" 106 3 0]]
  by (simp add: not_enough_points_def set_data_ptr_def)

section \<open>Reading text\<close>

definition rest :: "gis_stream \<Rightarrow> uchar list" where
  "rest s = drop (g_cur s) (g_text s)"

lemma rest_skip_space:
  "rest (skip_space m_ctype s) = dropWhile (my_isspace m_ctype) (rest s) \<and>
   g_text (skip_space m_ctype s) = g_text s \<and> g_err_msg (skip_space m_ctype s) = g_err_msg s"
proof (induction m_ctype s rule: skip_space.induct)
  case (1 m_ctype s)
  show ?case
  proof (cases "g_cur s < length (g_text s)")
    case True
    then have "rest s = g_text s ! g_cur s # rest (s\<lparr>g_cur := g_cur s + 1\<rparr>)"
      by (simp add: rest_def Cons_nth_drop_Suc)
    then show ?thesis using 1 True by (subst (1 2 3) skip_space.simps) auto
  next
    case False
    then show ?thesis by (subst (1 2 3) skip_space.simps) (simp add: rest_def)
  qed
qed

lemma rest_Nil: "g_cur s \<ge> length (g_text s) \<longleftrightarrow> rest s = []"
  by (simp add: rest_def)

lemma rest_Cons: "rest s = c # cs \<Longrightarrow> g_cur s < length (g_text s) \<and> g_text s ! g_cur s = c \<and>
    rest (s\<lparr>g_cur := g_cur s + 1\<rparr>) = cs"
  unfolding rest_def by (metis Cons_nth_drop_Suc drop_all gis_stream.select_convs(1)
      gis_stream.surjective gis_stream.update_convs(2) gis_stream.select_convs(2) leI list.discI list.inject Suc_eq_plus1)

text \<open>
  Skipping a character passes over white space and then over the character, when it comes
  next, and otherwise over the white space only; the next symbol is the first character after
  the white space, or 0 at the end.
\<close>

theorem gis_stream_skips:
  "rest (snd (skip_char m_ctype s c)) =
     (case dropWhile (my_isspace m_ctype) (rest s) of
        [] \<Rightarrow> [] | d # ds \<Rightarrow> if d = c then ds else d # ds) \<and>
   (fst (skip_char m_ctype s c) \<longleftrightarrow> \<not> (\<exists>ds. dropWhile (my_isspace m_ctype) (rest s) = c # ds)) \<and>
   fst (next_symbol m_ctype s) =
     (case dropWhile (my_isspace m_ctype) (rest s) of [] \<Rightarrow> 0 | d # ds \<Rightarrow> d) \<and>
   rest (snd (next_symbol m_ctype s)) = dropWhile (my_isspace m_ctype) (rest s)"
proof (cases "dropWhile (my_isspace m_ctype) (rest s)")
  case Nil
  then have "rest (skip_space m_ctype s) = []" using rest_skip_space [of m_ctype s] by simp
  then show ?thesis using rest_Nil [of "skip_space m_ctype s"] unfolding Nil
    by (simp add: skip_char_def next_symbol_def Let_def)
next
  case (Cons d ds)
  then have "rest (skip_space m_ctype s) = d # ds" using rest_skip_space [of m_ctype s] by simp
  then show ?thesis using Cons rest_Cons [of "skip_space m_ctype s" d ds]
    by (auto simp: skip_char_def next_symbol_def Let_def)
qed

end
