(* ===== verification/Loose_Scan.thy ===== *)
theory Loose_Scan
  imports Prelude
begin

text \<open>
  The choice of a loose index scan for a semi-join: \<^verbatim>\<open>Loose_scan_opt\<close> of \<^verbatim>\<open>opt_subselect.h\<close>, and
  \<^verbatim>\<open>prev_bits\<close> of \<^verbatim>\<open>sql_select.h\<close>.

  What the optimizer reads of the join, of the table and of the index is an argument of the
  operations; \<^verbatim>\<open>key_part_map\<close> is an \<^verbatim>\<open>ulong\<close> of 32 bits. A cost is an element of a linear order, as
  doubles that are not NaN. A shift by the width or more is undefined in C and makes the result
  \<^const>\<open>None\<close>.
\<close>

type_synonym table_map = ulonglong
type_synonym key_part_map = uint

section \<open>prev_bits\<close>

text \<open>The number is at most the width wherever the optimizer calls it, as \<open>in_range\<close> below states.\<close>

definition prev_bits :: "nat \<Rightarrow> 'a::len word" where
  "prev_bits n_bits =
     (if n_bits = 0 then 0
      else let tmp = push_bit (n_bits - 1) 1 in (tmp - 1) OR tmp)"

section \<open>The state\<close>

text \<open>
  A \<^verbatim>\<open>KEYUSE\<close>: the number of its IN-equality, whether its index returns rows in order, the tables
  its value refers to, and its key part. A pointer to one is a number, 0 is NULL.
\<close>

record keyuse =
  sj_pred_no :: uint
  ku_read_order :: bool
  ku_used_tables :: table_map
  ku_keypart :: uint

record 'd loose_scan_opt =
  try_loosescan :: bool
  bound_sj_equalities :: ulonglong
  handled_sj_equalities :: ulonglong
  loose_scan_keyparts :: key_part_map
  max_loose_keypart :: uint
  part1_conds_met :: bool
  quick_uses_applicable_index :: bool
  quick_max_loose_keypart :: uint
  best_loose_scan_key :: uint
  best_loose_scan_cost :: 'd
  best_loose_scan_records :: 'd
  best_loose_scan_start_key :: nat
  best_max_loose_keypart :: uint
  best_ref_depend_map :: table_map

text \<open>
  The constructor does not initialize the accumulated properties: \<open>old\<close> is what was in memory.
\<close>

definition loose_scan_make :: "'d \<Rightarrow> 'd loose_scan_opt \<Rightarrow> 'd loose_scan_opt" where
  "loose_scan_make zero old =
     old\<lparr>try_loosescan := False, bound_sj_equalities := 0, quick_uses_applicable_index := False,
       quick_max_loose_keypart := 0, best_loose_scan_key := 0, best_loose_scan_cost := zero,
       best_loose_scan_records := zero, best_loose_scan_start_key := 0, best_max_loose_keypart := 0,
       best_ref_depend_map := 0\<rparr>"

record sj_nest =
  sj_in_exprs :: uint
  sj_inner_tables :: table_map
  sj_corr_tables :: table_map
  sj_depends_on :: table_map

text \<open>\<open>bound_eqs\<close> is \<^verbatim>\<open>get_bound_sj_equalities\<close>, whose body is not in the header.\<close>

definition loose_scan_init ::
    "'d \<Rightarrow> (sj_nest \<Rightarrow> table_map \<Rightarrow> ulonglong) \<Rightarrow> bool \<Rightarrow> bool \<Rightarrow> table_map \<Rightarrow> sj_nest option \<Rightarrow> table_map \<Rightarrow>
     'd loose_scan_opt \<Rightarrow> 'd loose_scan_opt" where
  "loose_scan_init dbl_max bound_eqs emb_sjm_nest loosescan_on cur_sj_inner_tables emb_sj_nest
       remaining_tables opt =
     (let opt = opt\<lparr>best_loose_scan_cost := dbl_max\<rparr> in
      case emb_sj_nest of
        None \<Rightarrow> opt
      | Some nest \<Rightarrow>
          if \<not> emb_sjm_nest \<and> sj_in_exprs nest < 64 \<and>
             remaining_tables AND sj_inner_tables nest = sj_inner_tables nest \<and>
             cur_sj_inner_tables = 0 \<and> remaining_tables AND sj_corr_tables nest = 0 \<and>
             remaining_tables AND sj_depends_on nest \<noteq> 0 \<and> loosescan_on
          then opt\<lparr>bound_sj_equalities := bound_eqs nest remaining_tables, try_loosescan := True\<rparr>
          else opt)"

definition next_ref_key :: "'d loose_scan_opt \<Rightarrow> 'd loose_scan_opt" where
  "next_ref_key opt = opt\<lparr>handled_sj_equalities := 0, loose_scan_keyparts := 0,
     max_loose_keypart := 0, part1_conds_met := False\<rparr>"

abbreviation (input) NO_PRED :: uint where "NO_PRED \<equiv> 0xFFFFFFFF"

definition add_keyuse :: "table_map \<Rightarrow> keyuse \<Rightarrow> 'd loose_scan_opt \<Rightarrow> 'd loose_scan_opt option" where
  "add_keyuse remaining_tables ku opt =
     (if try_loosescan opt \<and> sj_pred_no ku \<noteq> NO_PRED \<and> ku_read_order ku then
        (if sj_pred_no ku \<ge> 64 then None
         else if remaining_tables AND ku_used_tables ku = 0
         then Some (opt\<lparr>bound_sj_equalities :=
                bound_sj_equalities opt OR push_bit (unat (sj_pred_no ku)) 1\<rparr>)
         else if ku_keypart ku \<ge> 32 then None
         else Some (opt\<lparr>handled_sj_equalities :=
                  handled_sj_equalities opt OR push_bit (unat (sj_pred_no ku)) 1,
                loose_scan_keyparts := loose_scan_keyparts opt OR push_bit (unat (ku_keypart ku)) 1,
                max_loose_keypart := max (max_loose_keypart opt) (ku_keypart ku)\<rparr>))
      else Some opt)"

definition have_a_case :: "'d loose_scan_opt \<Rightarrow> bool" where
  "have_a_case opt \<longleftrightarrow> handled_sj_equalities opt \<noteq> 0"

text \<open>
  The index that is considered: its number, whether it covers a part of a column only, whether it
  is the index of a quick range select, whether it covers the query, the rows of the table and the
  time to read the index, the rows per key of its prefixes, and the quotient of rows.
\<close>

record 'd index_info =
  ix_key :: uint
  ix_partial_cols :: bool
  ix_quick_range :: bool
  ix_covering :: bool
  ix_records :: 'd
  ix_read_time :: 'd
  ix_rec_per_key :: "uint \<Rightarrow> uint"
  ix_quotient :: "'d \<Rightarrow> uint \<Rightarrow> 'd"

definition check_ref_access_part1 ::
    "uint \<Rightarrow> ('d::linorder) index_info \<Rightarrow> nat \<Rightarrow> table_map \<Rightarrow> 'd loose_scan_opt \<Rightarrow> 'd loose_scan_opt" where
  "check_ref_access_part1 in_exprs ix start_key found_part opt =
     (let parts = ucast (prev_bits (unat (max_loose_keypart opt + 1)) :: key_part_map) in
      if try_loosescan opt \<and>
         handled_sj_equalities opt OR bound_sj_equalities opt = prev_bits (unat in_exprs) \<and>
         parts AND (found_part OR ucast (loose_scan_keyparts opt)) = parts \<and> \<not> ix_partial_cols ix
      then
        let opt = (if ix_quick_range ix
              then opt\<lparr>quick_uses_applicable_index := True,
                     quick_max_loose_keypart := max_loose_keypart opt\<rparr> else opt);
            opt = (if found_part AND 1 \<noteq> 0 then opt\<lparr>part1_conds_met := True\<rparr> else opt)
        in if found_part AND 1 = 0 \<and> ix_covering ix then
             let opt = opt\<lparr>part1_conds_met := True\<rparr>;
                 rpc = ix_rec_per_key ix (max_loose_keypart opt);
                 records = (if rpc \<noteq> 0 then ix_quotient ix (ix_records ix) rpc else ix_records ix)
             in if ix_read_time ix < best_loose_scan_cost opt
                then opt\<lparr>best_loose_scan_key := ix_key ix,
                       best_loose_scan_cost := ix_read_time ix, best_loose_scan_records := records,
                       best_max_loose_keypart := max_loose_keypart opt,
                       best_loose_scan_start_key := start_key, best_ref_depend_map := 0\<rparr>
                else opt
           else opt
      else opt)"

definition check_ref_access_part2 ::
    "uint \<Rightarrow> nat \<Rightarrow> 'd \<Rightarrow> 'd::linorder \<Rightarrow> table_map \<Rightarrow> 'd loose_scan_opt \<Rightarrow> 'd loose_scan_opt" where
  "check_ref_access_part2 key start_key records read_time ref_depend_map_arg opt =
     (if part1_conds_met opt \<and> read_time < best_loose_scan_cost opt
      then opt\<lparr>best_loose_scan_key := key, best_loose_scan_cost := read_time,
             best_loose_scan_records := records, best_max_loose_keypart := max_loose_keypart opt,
             best_loose_scan_start_key := start_key, best_ref_depend_map := ref_depend_map_arg\<rparr>
      else opt)"

text \<open>\<open>first_table\<close>: the table is the first one that is not constant.\<close>

definition check_range_access ::
    "bool \<Rightarrow> uint \<Rightarrow> 'd::linorder \<Rightarrow> 'd \<Rightarrow> 'd loose_scan_opt \<Rightarrow> 'd loose_scan_opt" where
  "check_range_access first_table quick_index read_time records opt =
     (if quick_uses_applicable_index opt \<and> first_table \<and> read_time < best_loose_scan_cost opt
      then opt\<lparr>best_loose_scan_key := quick_index, best_loose_scan_cost := read_time,
             best_loose_scan_records := records,
             best_max_loose_keypart := quick_max_loose_keypart opt,
             best_loose_scan_start_key := 0, best_ref_depend_map := 0\<rparr>
      else opt)"

record 'd position =
  pos_read_time :: 'd
  pos_records_read :: 'd
  pos_key :: nat
  pos_cond_selectivity :: 'd
  pos_loosescan_key :: uint
  pos_loosescan_parts :: uint
  pos_use_join_buffer :: bool
  pos_table :: nat
  pos_range_rowid_filter_info :: nat
  pos_ref_depend_map :: table_map

definition save_to_position ::
    "'d \<Rightarrow> 'd \<Rightarrow> nat \<Rightarrow> nat \<Rightarrow> 'd::linorder loose_scan_opt \<Rightarrow> 'd position \<Rightarrow> 'd position" where
  "save_to_position dbl_max one tab filter_info opt pos =
     (let pos = pos\<lparr>pos_read_time := best_loose_scan_cost opt\<rparr> in
      if best_loose_scan_cost opt \<noteq> dbl_max
      then pos\<lparr>pos_records_read := best_loose_scan_records opt,
             pos_key := best_loose_scan_start_key opt, pos_cond_selectivity := one,
             pos_loosescan_key := best_loose_scan_key opt,
             pos_loosescan_parts := best_max_loose_keypart opt + 1,
             pos_use_join_buffer := False, pos_table := tab,
             pos_range_rowid_filter_info := filter_info,
             pos_ref_depend_map := best_ref_depend_map opt\<rparr>
      else pos)"

section \<open>The equalities and the key parts\<close>

lemma bit_prev_bits:
  assumes "n \<le> LENGTH('a)"
  shows "bit (prev_bits n :: 'a::len word) k \<longleftrightarrow> k < n"
proof (cases n)
  case 0
  then show ?thesis by (simp add: prev_bits_def)
next
  case (Suc m)
  then have "(prev_bits n :: 'a word) = mask m OR 2 ^ m"
    by (simp add: prev_bits_def Let_def mask_eq_exp_minus_1 push_bit_eq_mult)
  then show ?thesis
    using assms Suc by (auto simp: bit_or_iff bit_mask_iff bit_exp_iff less_Suc_eq possible_bit_word)
qed

text \<open>The equalities that an operand of the search is about, and the key parts below the largest.\<close>

definition covered :: "uint \<Rightarrow> table_map \<Rightarrow> 'd loose_scan_opt \<Rightarrow> bool" where
  "covered in_exprs found_part opt \<longleftrightarrow>
     (\<forall>k < unat in_exprs. bit (handled_sj_equalities opt) k \<or> bit (bound_sj_equalities opt) k) \<and>
     (\<forall>p \<le> unat (max_loose_keypart opt). bit found_part p \<or> bit (loose_scan_keyparts opt) p)"

text \<open>The numbers of equalities are below the number of the subquery, and key parts below 32.\<close>

definition in_range :: "uint \<Rightarrow> 'd loose_scan_opt \<Rightarrow> bool" where
  "in_range in_exprs opt \<longleftrightarrow> in_exprs < 64 \<and> max_loose_keypart opt < 32 \<and>
     (\<forall>k. bit (handled_sj_equalities opt) k \<or> bit (bound_sj_equalities opt) k \<longrightarrow> k < unat in_exprs)"

lemma all_equalities_iff:
  assumes "in_range in_exprs opt"
  shows "handled_sj_equalities opt OR bound_sj_equalities opt = prev_bits (unat in_exprs) \<longleftrightarrow>
    (\<forall>k < unat in_exprs. bit (handled_sj_equalities opt) k \<or> bit (bound_sj_equalities opt) k)"
proof -
  have n: "unat in_exprs \<le> 64" using assms by (simp add: in_range_def word_less_nat_alt)
  let ?h = "handled_sj_equalities opt" and ?b = "bound_sj_equalities opt"
  have r: "bit ?h k \<or> bit ?b k \<Longrightarrow> k < unat in_exprs" for k
    using assms unfolding in_range_def by blast
  show ?thesis
  proof
    assume e: "?h OR ?b = prev_bits (unat in_exprs)"
    have "bit (?h OR ?b) k" if "k < unat in_exprs" for k
      unfolding e by (simp add: bit_prev_bits n that)
    then show "\<forall>k < unat in_exprs. bit ?h k \<or> bit ?b k" by (simp add: bit_or_iff)
  next
    assume "\<forall>k < unat in_exprs. bit ?h k \<or> bit ?b k"
    then show "?h OR ?b = prev_bits (unat in_exprs)"
      using r by (intro bit_eqI) (auto simp: bit_or_iff bit_prev_bits n)
  qed
qed

lemma all_parts_iff:
  fixes found_part :: table_map
  assumes "max_loose_keypart opt < 32"
  defines "parts \<equiv> ucast (prev_bits (unat (max_loose_keypart opt + 1)) :: key_part_map) :: table_map"
  shows "parts AND (found_part OR ucast (loose_scan_keyparts opt)) = parts \<longleftrightarrow>
    (\<forall>p \<le> unat (max_loose_keypart opt). bit found_part p \<or> bit (loose_scan_keyparts opt) p)"
proof -
  let ?m = "unat (max_loose_keypart opt)"
  have n: "unat (max_loose_keypart opt + 1) = ?m + 1"
    using assms(1) by (subst unat_add_no_overflow) (simp_all add: word_less_nat_alt)
  have l: "?m + 1 \<le> 32" using assms(1) by (simp add: word_less_nat_alt)
  have p: "bit parts k \<longleftrightarrow> k \<le> ?m" for k
    using l unfolding parts_def n by (auto simp: bit_ucast_iff bit_prev_bits possible_bit_word)
  show ?thesis
  proof
    assume e: "parts AND (found_part OR ucast (loose_scan_keyparts opt)) = parts"
    have "bit (parts AND (found_part OR ucast (loose_scan_keyparts opt))) k" if "k \<le> ?m" for k
      unfolding e p by (rule that)
    then show "\<forall>p \<le> ?m. bit found_part p \<or> bit (loose_scan_keyparts opt) p"
      by (auto simp: bit_or_iff bit_and_iff bit_ucast_iff)
  next
    assume "\<forall>q \<le> ?m. bit found_part q \<or> bit (loose_scan_keyparts opt) q"
    then show "parts AND (found_part OR ucast (loose_scan_keyparts opt)) = parts"
      by (intro bit_eqI) (auto simp: bit_or_iff bit_and_iff bit_ucast_iff p)
  qed
qed

lemma add_keyuse_in_range:
  assumes "in_range n opt" and "sj_pred_no ku = NO_PRED \<or> sj_pred_no ku < n"
    and "add_keyuse remaining ku opt = Some opt'"
  shows "in_range n opt'"
  using assms
  by (auto simp: add_keyuse_def in_range_def bit_or_iff bit_exp_iff word_less_nat_alt
      max_def not_le split: if_splits)

text \<open>
  When the numbers of the equalities are in range, a reference access meets the first part of
  the conditions exactly when it did before, or loose scans are tried, the index covers whole
  columns, every IN-equality is bound or handled, every key part up to the largest handled one is
  bound or handled, and the first key part is bound or the index covers the query.
\<close>

theorem loose_scan_conditions:
  assumes "in_range in_exprs opt"
  shows "part1_conds_met (check_ref_access_part1 in_exprs ix start_key found_part opt) \<longleftrightarrow>
    part1_conds_met opt \<or> (try_loosescan opt \<and> \<not> ix_partial_cols ix \<and> covered in_exprs found_part opt \<and>
      (bit found_part 0 \<or> ix_covering ix))"
proof -
  have b: "found_part AND 1 = 0 \<longleftrightarrow> \<not> bit found_part 0"
    by (simp add: and_one_eq bit_0 odd_iff_mod_2_eq_one flip: even_iff_mod_2_eq_zero)
  have k: "max_loose_keypart opt < 32" using assms by (simp add: in_range_def)
  show ?thesis
    unfolding check_ref_access_part1_def Let_def all_equalities_iff [OF assms] all_parts_iff [OF k] b
    by (auto simp: covered_def)
qed

definition fresh_opt :: "int loose_scan_opt" where
  "fresh_opt = \<lparr>try_loosescan = True, bound_sj_equalities = 1, handled_sj_equalities = 2,
     loose_scan_keyparts = 2, max_loose_keypart = 1, part1_conds_met = False,
     quick_uses_applicable_index = False, quick_max_loose_keypart = 0, best_loose_scan_key = 0,
     best_loose_scan_cost = 1000, best_loose_scan_records = 0, best_loose_scan_start_key = 0,
     best_max_loose_keypart = 0, best_ref_depend_map = 0\<rparr>"

definition sample_index :: "int index_info" where
  "sample_index = \<lparr>ix_key = 3, ix_partial_cols = False, ix_quick_range = False, ix_covering = False,
     ix_records = 50, ix_read_time = 20, ix_rec_per_key = (\<lambda>_. 5), ix_quotient = (\<lambda>r n. r div uint n)\<rparr>"

lemma fresh_in_range: "in_range 2 fresh_opt"
proof -
  have "bit (2 :: ulonglong) k \<longleftrightarrow> k = 1" "bit (1 :: ulonglong) k \<longleftrightarrow> k = 0" for k
    using bit_push_bit_iff [of 1 "1 :: ulonglong" k] by (auto simp: bit_1_iff push_bit_eq_mult)
  then show ?thesis by (simp add: in_range_def fresh_opt_def)
qed

theorem loose_scan_conditions_witness:
  "part1_conds_met (check_ref_access_part1 2 sample_index 7 1 fresh_opt) \<longleftrightarrow>
   covered 2 1 fresh_opt"
  using loose_scan_conditions [OF fresh_in_range, of sample_index 7 1]
  by (simp add: fresh_opt_def sample_index_def bit_0)

section \<open>The best plan\<close>

text \<open>
  A plan: its cost, rows, index, start key, last key part and the tables it depends on. The steps of
  the optimizer with the plans they offer; the operation compares the offer with the best one.
\<close>

type_synonym 'd plan = "'d \<times> 'd \<times> uint \<times> nat \<times> uint \<times> table_map"

definition best_plan :: "'d loose_scan_opt \<Rightarrow> 'd plan" where
  "best_plan opt = (best_loose_scan_cost opt, best_loose_scan_records opt, best_loose_scan_key opt,
     best_loose_scan_start_key opt, best_max_loose_keypart opt, best_ref_depend_map opt)"

datatype 'd loose_cmd =
    Next_ref_key
  | Add_keyuse table_map keyuse
  | Part1 uint "'d index_info" nat table_map
  | Part2 uint nat 'd 'd table_map
  | Range bool uint 'd 'd

fun loose_step :: "('d::linorder) loose_cmd \<Rightarrow> 'd loose_scan_opt \<Rightarrow> 'd loose_scan_opt option" where
  "loose_step Next_ref_key opt = Some (next_ref_key opt)"
| "loose_step (Add_keyuse remaining ku) opt = add_keyuse remaining ku opt"
| "loose_step (Part1 n ix start_key found_part) opt =
     Some (check_ref_access_part1 n ix start_key found_part opt)"
| "loose_step (Part2 key start_key records read_time depend) opt =
     Some (check_ref_access_part2 key start_key records read_time depend opt)"
| "loose_step (Range first_table index read_time records) opt =
     Some (check_range_access first_table index read_time records opt)"

fun loose_run :: "('d::linorder) loose_cmd list \<Rightarrow> 'd loose_scan_opt \<Rightarrow> 'd loose_scan_opt option" where
  "loose_run [] opt = Some opt"
| "loose_run (c # cs) opt = (case loose_step c opt of None \<Rightarrow> None | Some opt \<Rightarrow> loose_run cs opt)"

text \<open>The plan that a step offers, read off the conditions of the steps and not of the costs.\<close>

fun offer :: "('d::linorder) loose_cmd \<Rightarrow> 'd loose_scan_opt \<Rightarrow> 'd plan list" where
  "offer (Part1 n ix start_key found_part) opt =
     (if try_loosescan opt \<and>
         handled_sj_equalities opt OR bound_sj_equalities opt = prev_bits (unat n) \<and>
         (let parts = ucast (prev_bits (unat (max_loose_keypart opt + 1)) :: key_part_map)
          in parts AND (found_part OR ucast (loose_scan_keyparts opt)) = parts) \<and>
         \<not> ix_partial_cols ix \<and> found_part AND 1 = 0 \<and> ix_covering ix
      then [(ix_read_time ix,
             if ix_rec_per_key ix (max_loose_keypart opt) \<noteq> 0
             then ix_quotient ix (ix_records ix) (ix_rec_per_key ix (max_loose_keypart opt))
             else ix_records ix, ix_key ix, start_key, max_loose_keypart opt, 0)] else [])"
| "offer (Part2 key start_key records read_time depend) opt =
     (if part1_conds_met opt
      then [(read_time, records, key, start_key, max_loose_keypart opt, depend)] else [])"
| "offer (Range first_table index read_time records) opt =
     (if quick_uses_applicable_index opt \<and> first_table
      then [(read_time, records, index, 0, quick_max_loose_keypart opt, 0)] else [])"
| "offer _ opt = []"

fun offers :: "('d::linorder) loose_cmd list \<Rightarrow> 'd loose_scan_opt \<Rightarrow> 'd plan list" where
  "offers [] opt = []"
| "offers (c # cs) opt =
     offer c opt @ (case loose_step c opt of None \<Rightarrow> [] | Some opt \<Rightarrow> offers cs opt)"

definition better :: "('d::linorder) plan \<Rightarrow> 'd plan \<Rightarrow> 'd plan" where
  "better p q = (if fst q < fst p then q else p)"

lemma step_better:
  assumes "loose_step c opt = Some opt'"
  shows "best_plan opt' = foldl better (best_plan opt) (offer c opt)"
proof (cases c)
  case (Part1 n ix start_key found_part)
  then show ?thesis using assms
    by (auto simp: check_ref_access_part1_def best_plan_def better_def Let_def split: if_splits)
qed (use assms in \<open>auto simp: next_ref_key_def add_keyuse_def check_ref_access_part2_def
    check_range_access_def best_plan_def better_def split: if_splits\<close>)

lemma run_better:
  "loose_run cs opt = Some opt' \<Longrightarrow> best_plan opt' = foldl better (best_plan opt) (offers cs opt)"
  by (induction cs arbitrary: opt) (auto simp: step_better split: option.splits)

lemma foldl_better:
  "\<exists>i \<le> length qs. foldl better p qs = (p # qs) ! i \<and> (\<forall>q \<in> set (p # qs). fst (foldl better p qs) \<le> fst q) \<and>
     (\<forall>j < i. fst (foldl better p qs) < fst ((p # qs) ! j))"
proof (induction qs arbitrary: p)
  case (Cons q qs)
  obtain i where i: "i \<le> length qs" "foldl better (better p q) qs = (better p q # qs) ! i"
    "\<forall>r \<in> set (better p q # qs). fst (foldl better (better p q) qs) \<le> fst r"
    "\<forall>j < i. fst (foldl better (better p q) qs) < fst ((better p q # qs) ! j)"
    using Cons.IH by blast
  show ?case
  proof (cases "fst q < fst p")
    case True
    then have b: "better p q = q" by (simp add: better_def)
    show ?thesis
      using i True unfolding b foldl.simps
      by (intro exI [of _ "Suc i"]) (auto simp: less_Suc_eq_0_disj)
  next
    case False
    then have b: "better p q = p" by (simp add: better_def)
    show ?thesis
    proof (cases i)
      case 0
      then show ?thesis using i False unfolding b foldl.simps by (intro exI [of _ 0]) auto
    next
      case (Suc k)
      then have "fst (foldl better p qs) < fst p" using i(4) unfolding b by (metis nth_Cons_0 zero_less_Suc)
      have lt: "fst (foldl better p qs) < fst ((p # q # qs) ! j)" if "j < Suc (Suc k)" for j
      proof (cases j)
        case (Suc l)
        show ?thesis
        proof (cases l)
          case (Suc l')
          then show ?thesis using i(4) \<open>i = Suc k\<close> \<open>j = Suc l\<close> that unfolding b by (metis Suc_less_eq nth_Cons_Suc)
        qed (use \<open>fst (foldl better p qs) < fst p\<close> False \<open>j = Suc l\<close> in auto)
      qed (use \<open>fst (foldl better p qs) < fst p\<close> in simp)
      show ?thesis using i(1-3) False Suc lt \<open>fst (foldl better p qs) < fst p\<close> unfolding b foldl.simps
        by (intro exI [of _ "Suc (Suc k)"]) auto
    qed
  qed
qed simp

text \<open>
  C19. After any sequence of operations on an object whose best cost is the largest number, the
  best cost is the least of the costs that were offered and below the largest number, and the
  plan that is kept is the first one with this cost; when no plan was offered below the largest
  number, the cost is still that number and nothing but the cost is saved in the position.
\<close>

theorem loose_scan_keeps_first_best:
  assumes "loose_run cs (loose_scan_init dbl_max bound_eqs sjm on cur nest remaining opt) = Some opt'"
  defines "ps \<equiv> offers cs (loose_scan_init dbl_max bound_eqs sjm on cur nest remaining opt)"
  shows "(\<forall>p \<in> set ps. best_loose_scan_cost opt' \<le> fst p) \<and>
    (if \<exists>p \<in> set ps. fst p < dbl_max
     then (\<exists>i < length ps. best_plan opt' = ps ! i \<and> (\<forall>j < i. fst (ps ! i) < fst (ps ! j)))
     else best_loose_scan_cost opt' = dbl_max \<and>
       save_to_position dbl_max one tab info opt' pos = pos\<lparr>pos_read_time := dbl_max\<rparr>)"
proof -
  let ?opt = "loose_scan_init dbl_max bound_eqs sjm on cur nest remaining opt"
  have c: "fst (best_plan ?opt) = dbl_max"
    by (simp add: loose_scan_init_def best_plan_def Let_def split: option.splits)
  have b: "best_plan opt' = foldl better (best_plan ?opt) ps"
    using run_better [OF assms(1)] by (simp only: ps_def)
  have cost: "best_loose_scan_cost opt' = fst (best_plan opt')" by (simp add: best_plan_def)
  obtain i where i: "i \<le> length ps" "best_plan opt' = (best_plan ?opt # ps) ! i"
    "\<forall>q \<in> set (best_plan ?opt # ps). fst (best_plan opt') \<le> fst q"
    "\<forall>j < i. fst (best_plan opt') < fst ((best_plan ?opt # ps) ! j)"
    using foldl_better [of ps "best_plan ?opt"] unfolding b by blast
  show ?thesis
  proof (cases "\<exists>p \<in> set ps. fst p < dbl_max")
    case True
    then have "fst (best_plan opt') < dbl_max" using i(3) by force
    then obtain k where k: "i = Suc k" using i(2) c by (cases i) auto
    have "\<forall>j < k. fst (ps ! k) < fst (ps ! j)" using i(2,4) k by fastforce
    moreover have "k < length ps" "best_plan opt' = ps ! k" using i(1,2) k by simp_all
    ultimately have "\<exists>i < length ps. best_plan opt' = ps ! i \<and> (\<forall>j < i. fst (ps ! i) < fst (ps ! j))"
      by blast
    then show ?thesis using True i(3) cost by simp
  next
    case False
    have "i = 0"
    proof (rule ccontr)
      assume "i \<noteq> 0"
      then have "fst (best_plan opt') < dbl_max" using i(4) c by force
      moreover have "best_plan opt' \<in> set ps" using i(1,2) \<open>i \<noteq> 0\<close> by (cases i) auto
      ultimately show False using False by blast
    qed
    then have "best_loose_scan_cost opt' = dbl_max" using i(2) c cost by simp
    then show ?thesis using False i(3) cost by (auto simp: save_to_position_def)
  qed
qed

theorem loose_scan_keeps_first_best_witness:
  "\<exists>opt'. loose_run [Part2 4 9 10 70 0, Range True 5 60 8]
      (loose_scan_init 1000 (\<lambda>_ _. 0) False True 0 None 0 (fresh_opt\<lparr>part1_conds_met := True\<rparr>)) = Some opt' \<and>
    best_plan opt' = (70, 10, 4, 9, 1, 0)"
proof -
  let ?cs = "[Part2 4 9 10 70 0, Range True 5 60 8] :: int loose_cmd list"
  let ?opt = "loose_scan_init 1000 (\<lambda>_ _. 0) False True 0 None 0 (fresh_opt\<lparr>part1_conds_met := True\<rparr>)"
  have o: "offers ?cs ?opt = [(70, 10, 4, 9, 1, 0)]"
    by (simp add: loose_scan_init_def fresh_opt_def check_ref_access_part2_def)
  obtain opt' where r: "loose_run ?cs ?opt = Some opt'" by simp
  have "\<exists>i < 1. best_plan opt' = [(70, 10, 4, 9, 1, 0)] ! i"
    using loose_scan_keeps_first_best [OF r, of 1 0 0] unfolding o by auto
  then show ?thesis using r by auto
qed
end
