(* ===== verification/Auto_Values.thy ===== *)
theory Auto_Values
  imports Prelude
begin

text \<open>
  Generated values: the next value of a sequence (\<^verbatim>\<open>sql_sequence.h\<close>) and the intervals of
  automatically incremented values of a statement, with their list (\<^verbatim>\<open>structs.h\<close>).

  A sequence computes with signed 64-bit numbers, whose overflow is undefined in C and makes the
  result \<^const>\<open>None\<close>; an interval computes with unsigned ones, which wrap around. The intervals of a list
  are in a store, in which address 0 is NULL and a deleted interval is \<^const>\<open>None\<close>.
\<close>

section \<open>SEQUENCE\<close>

definition ll_plus :: "longlong \<Rightarrow> longlong \<Rightarrow> longlong option" where
  "ll_plus a b = (if sint (a + b) = sint a + sint b then Some (a + b) else None)"

definition ll_minus :: "longlong \<Rightarrow> longlong \<Rightarrow> longlong option" where
  "ll_minus a b = (if sint (a - b) = sint a - sint b then Some (a - b) else None)"

datatype seq_init = SEQ_UNINTIALIZED | SEQ_IN_PREPARE | SEQ_IN_ALTER | SEQ_READY_TO_USE

record sequence_definition =
  reserved_until :: longlong
  min_value :: longlong
  max_value :: longlong
  seq_start :: longlong
  increment :: longlong
  cache :: longlong
  round_no :: ulonglong
  restart :: longlong
  cycle :: bool
  used_fields :: uint
  real_increment :: longlong
  next_free_value :: longlong

text \<open>The members that the constructor leaves uninitialized keep what was in memory.\<close>

definition sequence_definition_make :: "sequence_definition \<Rightarrow> sequence_definition" where
  "sequence_definition_make old =
     old\<lparr>min_value := 1, max_value := LONGLONG_MAX - 1, seq_start := 1, increment := 1,
       cache := 1000, round_no := 0, restart := 0, cycle := False, used_fields := 0\<rparr>"

record sequence =
  seq_def :: sequence_definition
  all_values_used :: bool
  initialized :: seq_init

text \<open>\<open>adjust_values\<close> is a function whose body is not in the header.\<close>

definition sequence_copy ::
    "(longlong \<Rightarrow> sequence_definition \<Rightarrow> sequence_definition) \<Rightarrow> sequence_definition \<Rightarrow> sequence \<Rightarrow> sequence" where
  "sequence_copy adjust_values sq s =
     (let s = s\<lparr>seq_def := sq\<rparr>;
          s = s\<lparr>seq_def := adjust_values (reserved_until (seq_def s)) (seq_def s)\<rparr>
      in s\<lparr>all_values_used := False\<rparr>)"

definition increment_value :: "sequence_definition \<Rightarrow> longlong \<Rightarrow> longlong option" where
  "increment_value s val =
     (if 0 <s real_increment s then
        Option.bind (ll_minus (max_value s) (real_increment s)) (\<lambda>last_start.
        Option.bind (if last_start <s val then Some True
            else Option.bind (ll_plus val (real_increment s)) (\<lambda>next_value.
              Some (max_value s <s next_value))) (\<lambda>past.
        if past then ll_plus (max_value s) 1 else ll_plus val (real_increment s)))
      else
        Option.bind (ll_plus val (real_increment s)) (\<lambda>next_value.
        Option.bind (if next_value <s min_value s then Some True
            else Option.bind (ll_minus (min_value s) (real_increment s)) (\<lambda>last_start.
              Some (val <s last_start))) (\<lambda>past.
        if past then ll_minus (min_value s) 1 else ll_plus val (real_increment s))))"

section \<open>Discrete_interval\<close>

record discrete_interval =
  interval_min :: ulonglong
  interval_values :: ulonglong
  interval_max :: ulonglong
  next_interval :: nat

definition interval_replace ::
    "discrete_interval \<Rightarrow> ulonglong \<Rightarrow> ulonglong \<Rightarrow> ulonglong \<Rightarrow> discrete_interval" where
  "interval_replace i start val incr =
     i\<lparr>interval_min := start, interval_values := val,
       interval_max := (if val = ULONGLONG_MAX then val else start + val * incr)\<rparr>"

text \<open>The constructor sets the link and fills the interval, whose members had any value.\<close>

definition interval_make :: "discrete_interval \<Rightarrow> ulonglong \<Rightarrow> ulonglong \<Rightarrow> ulonglong \<Rightarrow> discrete_interval" where
  "interval_make old start val incr = interval_replace (old\<lparr>next_interval := 0\<rparr>) start val incr"

definition interval_make_empty :: "discrete_interval \<Rightarrow> discrete_interval" where
  "interval_make_empty old = interval_replace (old\<lparr>next_interval := 0\<rparr>) 0 0 0"

text \<open>The result is \<^const>\<open>False\<close> when the values were merged.\<close>

definition merge_if_contiguous ::
    "discrete_interval \<Rightarrow> ulonglong \<Rightarrow> ulonglong \<Rightarrow> ulonglong \<Rightarrow> bool \<times> discrete_interval" where
  "merge_if_contiguous i start val incr =
     (if interval_max i = start then
        (False, if val = ULONGLONG_MAX
           then i\<lparr>interval_values := val, interval_max := val\<rparr>
           else i\<lparr>interval_values := interval_values i + val, interval_max := start + val * incr\<rparr>)
      else (True, i))"

section \<open>Discrete_intervals_list\<close>

type_synonym interval_store = "nat \<Rightarrow> discrete_interval option"

record intervals_list =
  il_head :: nat
  il_tail :: nat
  il_current :: nat
  il_elements :: uint

definition set_members :: "nat \<Rightarrow> nat \<Rightarrow> nat \<Rightarrow> uint \<Rightarrow> intervals_list" where
  "set_members h t c el = \<lparr>il_head = h, il_tail = t, il_current = c, il_elements = el\<rparr>"

text \<open>The constructor does not set the tail.\<close>

definition intervals_list_make :: "nat \<Rightarrow> intervals_list" where
  "intervals_list_make old_tail = \<lparr>il_head = 0, il_tail = old_tail, il_current = 0, il_elements = 0\<rparr>"

definition empty_no_free :: intervals_list where
  "empty_no_free = set_members 0 0 0 0"

text \<open>Reading or deleting an interval that is not in the store is undefined.\<close>

partial_function (option) empty_loop :: "nat \<Rightarrow> interval_store \<Rightarrow> interval_store option" where
  "empty_loop i st =
     (if i = 0 then Some st
      else Option.bind (st i) (\<lambda>iv. empty_loop (next_interval iv) (st(i := None))))"

definition intervals_empty :: "interval_store \<Rightarrow> intervals_list \<Rightarrow> (interval_store \<times> intervals_list) option" where
  "intervals_empty st l = Option.bind (empty_loop (il_head l) st) (\<lambda>st. Some (st, empty_no_free))"

definition copy_shallow :: "intervals_list \<Rightarrow> intervals_list" where
  "copy_shallow dli = \<lparr>il_head = il_head dli, il_tail = il_tail dli, il_current = il_current dli,
     il_elements = il_elements dli\<rparr>"

definition intervals_swap :: "intervals_list \<Rightarrow> intervals_list \<Rightarrow> intervals_list \<times> intervals_list" where
  "intervals_swap l dli =
     (let h = il_head dli; t = il_tail dli; c = il_current dli; el = il_elements dli;
          dli = copy_shallow l
      in (set_members h t c el, dli))"

text \<open>The interval that was the current one is returned, and the next one becomes the current one.\<close>

definition get_next :: "interval_store \<Rightarrow> intervals_list \<Rightarrow> (nat \<times> intervals_list) option" where
  "get_next st l =
     (let tmp = il_current l in
      if il_current l \<noteq> 0
      then Option.bind (st (il_current l)) (\<lambda>iv. Some (tmp, l\<lparr>il_current := next_interval iv\<rparr>))
      else Some (tmp, l))"

definition list_minimum :: "interval_store \<Rightarrow> intervals_list \<Rightarrow> ulonglong option" where
  "list_minimum st l =
     (if il_head l \<noteq> 0 then map_option interval_min (st (il_head l)) else Some 0)"

definition list_maximum :: "interval_store \<Rightarrow> intervals_list \<Rightarrow> ulonglong option" where
  "list_maximum st l =
     (if il_head l \<noteq> 0 then map_option interval_max (st (il_tail l)) else Some 0)"

section \<open>The values of a sequence\<close>

lemma longlong_range: "- 9223372036854775808 \<le> sint (w :: longlong)" "sint (w :: longlong) \<le> 9223372036854775807"
  using sint_ge [of w] sint_lt [of w] by simp_all

text \<open>The signed operations are exact where the result fits, and undefined elsewhere.\<close>

lemma ll_plus_fits:
  "ll_plus a b = Some (a + b) \<and> sint (a + b) = sint a + sint b
     \<longleftrightarrow> - 9223372036854775808 \<le> sint a + sint b \<and> sint a + sint b \<le> 9223372036854775807"
  (is "_ \<longleftrightarrow> ?r")
proof -
  have "sint (a + b) = sint a + sint b" if ?r
    using that by (simp add: sint_word_ariths signed_take_bit_int_eq_self)
  then show ?thesis using longlong_range [of "a + b"] by (auto simp: ll_plus_def)
qed

lemma ll_minus_fits:
  "ll_minus a b = Some (a - b) \<and> sint (a - b) = sint a - sint b
     \<longleftrightarrow> - 9223372036854775808 \<le> sint a - sint b \<and> sint a - sint b \<le> 9223372036854775807"
  (is "_ \<longleftrightarrow> ?r")
proof -
  have "sint (a - b) = sint a - sint b" if ?r
    using that by (simp add: sint_word_ariths signed_take_bit_int_eq_self)
  then show ?thesis using longlong_range [of "a - b"] by (auto simp: ll_minus_def)
qed

lemma ll_plus_cases:
  obtains "ll_plus a b = Some (a + b)" "sint (a + b) = sint a + sint b"
    "- 9223372036854775808 \<le> sint a + sint b" "sint a + sint b \<le> 9223372036854775807"
  | "ll_plus a b = None" "sint a + sint b < - 9223372036854775808 \<or> 9223372036854775807 < sint a + sint b"
  using ll_plus_fits [of a b] by (fastforce simp: ll_plus_def split: if_splits)

lemma ll_minus_cases:
  obtains "ll_minus a b = Some (a - b)" "sint (a - b) = sint a - sint b"
    "- 9223372036854775808 \<le> sint a - sint b" "sint a - sint b \<le> 9223372036854775807"
  | "ll_minus a b = None" "sint a - sint b < - 9223372036854775808 \<or> 9223372036854775807 < sint a - sint b"
  using ll_minus_fits [of a b] by (fastforce simp: ll_minus_def split: if_splits)

text \<open>Memory that is all zero, for the examples.\<close>

definition zero_definition :: sequence_definition where
  "zero_definition = \<lparr>reserved_until = 0, min_value = 0, max_value = 0, seq_start = 0, increment = 0,
     cache = 0, round_no = 0, restart = 0, cycle = False, used_fields = 0, real_increment = 0,
     next_free_value = 0\<rparr>"

definition zero_interval :: discrete_interval where
  "zero_interval = \<lparr>interval_min = 0, interval_values = 0, interval_max = 0, next_interval = 0\<rparr>"

text \<open>The step up and the step down, as integers.\<close>

lemma step_up:
  assumes "0 < sint (real_increment s)" and "sint (max_value s) < 9223372036854775807"
  shows "increment_value s v =
    (if sint (max_value s) - sint (real_increment s) < - 9223372036854775808 then None
     else if sint v + sint (real_increment s) \<le> sint (max_value s) then Some (v + real_increment s)
     else Some (max_value s + 1))"
proof (cases rule: ll_minus_cases [of "max_value s" "real_increment s"])
  case 1
  note m = 1
  have p: "ll_plus (max_value s) 1 = Some (max_value s + 1)"
    using ll_plus_fits [of "max_value s" 1] assms(2) longlong_range [of "max_value s"] by simp
  show ?thesis
  proof (cases "sint (max_value s) - sint (real_increment s) < sint v")
    case True
    then show ?thesis using m p assms(1) by (simp add: increment_value_def word_sless_alt)
  next
    case False
    have "ll_plus v (real_increment s) = Some (v + real_increment s) \<and>
        sint (v + real_increment s) = sint v + sint (real_increment s)"
      using False longlong_range [of "max_value s"] longlong_range [of v] assms(1) by (intro ll_plus_fits [THEN iffD2]) auto
    then show ?thesis using m p False assms(1) by (simp add: increment_value_def word_sless_alt)
  qed
next
  case 2
  then show ?thesis using assms(1) longlong_range [of "max_value s"] by (simp add: increment_value_def word_sless_alt)
qed

lemma step_down:
  assumes "sint (real_increment s) \<le> 0" and "- 9223372036854775808 < sint (min_value s)"
  shows "increment_value s v =
    (if sint v + sint (real_increment s) < - 9223372036854775808 then None
     else if sint v + sint (real_increment s) < sint (min_value s) then Some (min_value s - 1)
     else if 9223372036854775807 < sint (min_value s) - sint (real_increment s) then None
     else Some (v + real_increment s))"
proof (cases rule: ll_plus_cases [of v "real_increment s"])
  case 1
  note m = 1
  have p: "ll_minus (min_value s) 1 = Some (min_value s - 1)"
    using ll_minus_fits [of "min_value s" 1] assms(2) longlong_range [of "min_value s"] by simp
  show ?thesis
  proof (cases rule: ll_minus_cases [of "min_value s" "real_increment s"])
    case 1
    then show ?thesis using m p assms(1) by (simp add: increment_value_def word_sless_alt)
  next
    case 2
    then show ?thesis using m p assms(1) longlong_range [of "min_value s"]
      by (auto simp: increment_value_def word_sless_alt)
  qed
next
  case 2
  then show ?thesis using assms(1) longlong_range [of v] by (simp add: increment_value_def word_sless_alt)
qed

primrec values_after :: "sequence_definition \<Rightarrow> nat \<Rightarrow> longlong \<Rightarrow> longlong option" where
  "values_after s 0 v = Some v"
| "values_after s (Suc n) v = Option.bind (increment_value s v) (values_after s n)"

text \<open>
  A sequence that counts up, whose largest value is below the largest number: after any number
  of steps, the value is the first one plus as many increments, as long as this is not above the
  largest value, and from then on it is the largest value plus 1.
\<close>

theorem sequence_counts_up:
  assumes "0 < sint (real_increment s)" and "sint (max_value s) < 9223372036854775807"
    and "- 9223372036854775808 \<le> sint (max_value s) - sint (real_increment s)"
    and "sint v \<le> sint (max_value s) + 1"
  shows "\<exists>w. values_after s n v = Some w \<and>
    sint w = (if sint v + int n * sint (real_increment s) \<le> sint (max_value s)
      then sint v + int n * sint (real_increment s) else sint (max_value s) + 1)"
  using assms(4)
proof (induction n arbitrary: v)
  case (Suc n)
  let ?i = "sint (real_increment s)" and ?m = "sint (max_value s)"
  have m: "sint (max_value s + 1) = ?m + 1"
    using ll_plus_fits [of "max_value s" 1] assms(2) longlong_range [of "max_value s"] by simp
  have ge: "0 \<le> int n * ?i" using assms(1) by simp
  show ?case
  proof (cases "sint v + ?i \<le> ?m")
    case True
    have "sint (v + real_increment s) = sint v + ?i"
      using True assms(1) longlong_range [of v] longlong_range [of "max_value s"] ll_plus_fits [of v "real_increment s"] by auto
    then obtain w where "values_after s n (v + real_increment s) = Some w"
      "sint w = (if sint v + ?i + int n * ?i \<le> ?m then sint v + ?i + int n * ?i else ?m + 1)"
      using Suc.IH [of "v + real_increment s"] True by auto
    moreover have "sint v + int (Suc n) * ?i = sint v + ?i + int n * ?i" by (simp add: algebra_simps)
    ultimately show ?thesis using True assms(3) step_up [OF assms(1,2), of v] by simp
  next
    case False
    have "values_after s (Suc n) v = values_after s n (max_value s + 1)"
      using False assms(3) step_up [OF assms(1,2), of v] by simp
    moreover obtain w where "values_after s n (max_value s + 1) = Some w" "sint w = ?m + 1"
      using Suc.IH [of "max_value s + 1"] ge m by auto
    moreover have "\<not> sint v + int (Suc n) * ?i \<le> ?m"
    proof -
      have "sint v + int (Suc n) * ?i = sint v + ?i + int n * ?i" by (simp add: algebra_simps)
      then show ?thesis using False ge by linarith
    qed
    ultimately show ?thesis by simp
  qed
qed simp

theorem sequence_counts_up_witness:
  "\<exists>w. values_after (sequence_definition_make zero_definition \<lparr>max_value := 10, real_increment := 4\<rparr>) 3 1 = Some w \<and> sint w = 11"
  using sequence_counts_up [of "sequence_definition_make zero_definition \<lparr>max_value := 10, real_increment := 4\<rparr>" 1 3]
  by simp

text \<open>
  C21. When the limits are not the limits of the type, a step up is undefined only when the largest
  value minus the increment overflows; a step down is undefined whenever the value plus the
  increment overflows, which it is asked for before the limit is, or when it is allowed and the
  least value minus the increment overflows.
\<close>

theorem sequence_step_undefined:
  assumes "- 9223372036854775808 < sint (min_value s)" and "sint (max_value s) < 9223372036854775807"
  shows "increment_value s v = None \<longleftrightarrow>
    (if 0 < sint (real_increment s)
     then sint (max_value s) - sint (real_increment s) < - 9223372036854775808
     else sint v + sint (real_increment s) < - 9223372036854775808 \<or>
       (sint (min_value s) \<le> sint v + sint (real_increment s) \<and>
        9223372036854775807 < sint (min_value s) - sint (real_increment s)))"
  using step_up [of s v] step_down [of s v] assms by auto

theorem sequence_step_undefined_witness:
  "increment_value (sequence_definition_make zero_definition \<lparr>min_value := LONGLONG_MIN + 1, real_increment := - 10\<rparr>)
     (LONGLONG_MIN + 5) = None"
  using sequence_step_undefined
    [of "sequence_definition_make zero_definition \<lparr>min_value := LONGLONG_MIN + 1, real_increment := - 10\<rparr>" "LONGLONG_MIN + 5"]
  by (simp add: sequence_definition_make_def)

section \<open>The values of an interval\<close>

text \<open>
  The values that an interval stands for, and an interval without wrap-around: its end is the first
  value behind it.
\<close>

definition progression :: "nat \<Rightarrow> nat \<Rightarrow> nat \<Rightarrow> nat set" where
  "progression first n incr = (\<lambda>k. first + k * incr) ` {..<n}"

definition interval_set :: "discrete_interval \<Rightarrow> ulonglong \<Rightarrow> nat set" where
  "interval_set i incr = progression (unat (interval_min i)) (unat (interval_values i)) (unat incr)"

definition interval_ok :: "discrete_interval \<Rightarrow> ulonglong \<Rightarrow> bool" where
  "interval_ok i incr \<longleftrightarrow>
     unat (interval_max i) = unat (interval_min i) + unat (interval_values i) * unat incr"

lemma progression_append:
  "progression a (m + n) d = progression a m d \<union> progression (a + m * d) n d"
proof -
  have "{..<m + n} = {..<m} \<union> (\<lambda>k. m + k) ` {..<n}"
    by (auto simp: image_iff) (metis add_diff_inverse_nat lessThan_iff nat_add_left_cancel_less)
  then show ?thesis by (simp add: progression_def image_Un image_image algebra_simps)
qed

lemma progression_disjoint: "0 < d \<Longrightarrow> progression a m d \<inter> progression (a + m * d) n d = {}"
  by (auto simp: progression_def) (metis add_lessD1 add_mult_distrib mult_less_cancel2 not_less_iff_gr_or_eq)

lemma end_no_wrap:
  assumes "unat start + unat val * unat incr < 2 ^ 64"
  shows "unat (start + val * incr :: ulonglong) = unat start + unat val * unat incr"
proof -
  have "unat (val * incr) = unat val * unat incr" using assms by (intro unat_mult_no_overflow) simp
  then show ?thesis using assms by (subst unat_add_no_overflow) simp_all
qed

lemma merged_end:
  assumes "interval_ok i incr" and "0 < incr" and "val \<noteq> ULONGLONG_MAX"
    and "unat start + unat val * unat incr < 2 ^ 64" and "interval_max i = start"
  shows "unat start = unat (interval_min i) + unat (interval_values i) * unat incr"
    and "unat (interval_values i + val) = unat (interval_values i) + unat val"
    and "unat (start + val * incr) =
      unat (interval_min i) + (unat (interval_values i) + unat val) * unat incr"
proof -
  let ?v = "interval_values i"
  show s: "unat start = unat (interval_min i) + unat ?v * unat incr"
    using assms by (simp add: interval_ok_def)
  have "1 \<le> unat incr" using assms(2) by (simp add: word_less_nat_alt)
  then have "(unat ?v + unat val) * 1 \<le> (unat ?v + unat val) * unat incr" by (intro mult_le_mono2)
  also have "\<dots> < 2 ^ 64" using assms(4) s by (simp add: algebra_simps)
  finally show "unat (?v + val) = unat ?v + unat val" by (intro unat_add_no_overflow) simp
  show "unat (start + val * incr) = unat (interval_min i) + (unat ?v + unat val) * unat incr"
    unfolding end_no_wrap [OF assms(4)] s by (simp add: algebra_simps)
qed

lemma merged_set:
  assumes "interval_ok i incr" and "0 < incr" and "val \<noteq> ULONGLONG_MAX"
    and "unat start + unat val * unat incr < 2 ^ 64" and "interval_max i = start"
  defines "j \<equiv> if val = ULONGLONG_MAX then i\<lparr>interval_values := val, interval_max := val\<rparr>
    else i\<lparr>interval_values := interval_values i + val, interval_max := start + val * incr\<rparr>"
  shows "interval_ok j incr \<and>
    interval_set j incr = interval_set i incr \<union> progression (unat start) (unat val) (unat incr) \<and>
    interval_set i incr \<inter> progression (unat start) (unat val) (unat incr) = {}"
proof (intro conjI)
  note s = merged_end [OF assms(1-5)]
  have j: "interval_min j = interval_min i" "interval_values j = interval_values i + val"
    "interval_max j = start + val * incr"
    using assms(3) by (simp_all add: j_def)
  show "interval_ok j incr" using s(2,3) unfolding interval_ok_def j by argo
  show "interval_set j incr = interval_set i incr \<union> progression (unat start) (unat val) (unat incr)"
    by (simp only: interval_set_def j s(1,2) progression_append)
  show "interval_set i incr \<inter> progression (unat start) (unat val) (unat incr) = {}"
    unfolding interval_set_def s(1) using assms(2) by (intro progression_disjoint) (simp add: word_less_nat_alt)
qed

lemma unat_end: "unat (start + val * incr :: ulonglong) = (unat start + unat val * unat incr) mod 2 ^ 64"
  by (simp add: unat_word_ariths mod_simps)

text \<open>
  C20. Appending values, for a step that is not 0, to an interval whose end is the first value behind it as a
  number, not only modulo 2^64. They are merged exactly when they start at its end, and otherwise the
  interval does not change. Merging leaves the first value. The number \<^verbatim>\<open>ULONGLONG_MAX\<close> of appended values stands
  for an unlimited interval: it becomes the number of values and the end. Any other number is added, and the end
  becomes the first value behind the appended ones, modulo 2^64; when that does not wrap around, the interval
  stands for its own values and the appended ones, which are different, and can be extended again; when it does, the
  end is not the first value behind the interval any more, or the number of values has wrapped around as well.
\<close>

theorem merged_interval_values:
  assumes "interval_ok i incr" and "0 < incr"
  shows "(\<not> fst (merge_if_contiguous i start val incr) \<longleftrightarrow>
      unat start = unat (interval_min i) + unat (interval_values i) * unat incr) \<and>
    (case merge_if_contiguous i start val incr of
       (True, j) \<Rightarrow> j = i
     | (False, j) \<Rightarrow> interval_min j = interval_min i \<and> next_interval j = next_interval i \<and>
         (val = ULONGLONG_MAX \<longrightarrow> interval_values j = ULONGLONG_MAX \<and> interval_max j = ULONGLONG_MAX) \<and>
         (val \<noteq> ULONGLONG_MAX \<longrightarrow> interval_values j = interval_values i + val \<and>
           unat (interval_max j) = (unat start + unat val * unat incr) mod 2 ^ 64) \<and>
         (val \<noteq> ULONGLONG_MAX \<and> unat start + unat val * unat incr < 2 ^ 64 \<longrightarrow> interval_ok j incr \<and>
           interval_set j incr = interval_set i incr \<union> progression (unat start) (unat val) (unat incr) \<and>
           interval_set i incr \<inter> progression (unat start) (unat val) (unat incr) = {}) \<and>
         (val \<noteq> ULONGLONG_MAX \<and> 2 ^ 64 \<le> unat start + unat val * unat incr \<longrightarrow> \<not> interval_ok j incr \<or>
           unat (interval_values j) < unat (interval_values i) + unat val))"
proof (cases "interval_max i = start")
  case True
  let ?j = "if val = ULONGLONG_MAX then i\<lparr>interval_values := val, interval_max := val\<rparr>
    else i\<lparr>interval_values := interval_values i + val, interval_max := start + val * incr\<rparr>"
  have m: "merge_if_contiguous i start val incr = (False, ?j)"
    using True by (simp add: merge_if_contiguous_def)
  have st: "unat start = unat (interval_min i) + unat (interval_values i) * unat incr"
    using assms(1) True unfolding interval_ok_def by blast
  have nowrap: "interval_ok ?j incr \<and>
      interval_set ?j incr = interval_set i incr \<union> progression (unat start) (unat val) (unat incr) \<and>
      interval_set i incr \<inter> progression (unat start) (unat val) (unat incr) = {}"
    if v: "val \<noteq> ULONGLONG_MAX" "unat start + unat val * unat incr < 2 ^ 64"
    by (rule merged_set [OF assms v True])
  have wrap: "\<not> interval_ok ?j incr \<or> unat (interval_values ?j) < unat (interval_values i) + unat val"
    if v: "val \<noteq> ULONGLONG_MAX" "2 ^ 64 \<le> unat start + unat val * unat incr"
  proof (rule ccontr)
    assume "\<not> (\<not> interval_ok ?j incr \<or> unat (interval_values ?j) < unat (interval_values i) + unat val)"
    then have h: "interval_ok ?j incr" "unat (interval_values i) + unat val \<le> unat (interval_values ?j)" by auto
    have "unat start + unat val * unat incr =
        unat (interval_min i) + (unat (interval_values i) + unat val) * unat incr"
      unfolding st by (simp add: algebra_simps)
    also have "\<dots> \<le> unat (interval_min i) + unat (interval_values ?j) * unat incr"
      using h(2) by (intro add_left_mono mult_right_mono) simp_all
    also have "\<dots> = unat (interval_max ?j)" using h(1) v(1) by (simp add: interval_ok_def)
    also have "\<dots> < 2 ^ 64" using unat_lt_pow [of 64 "interval_max ?j"] by simp
    finally show False using v(2) by simp
  qed
  have e: "val \<noteq> ULONGLONG_MAX \<longrightarrow> unat (interval_max ?j) = (unat start + unat val * unat incr) mod 2 ^ 64"
    using unat_end by simp
  have p: "interval_min ?j = interval_min i" "next_interval ?j = next_interval i"
    "val = ULONGLONG_MAX \<longrightarrow> interval_values ?j = ULONGLONG_MAX \<and> interval_max ?j = ULONGLONG_MAX"
    "val \<noteq> ULONGLONG_MAX \<longrightarrow> interval_values ?j = interval_values i + val" by simp_all
  show ?thesis unfolding m fst_conv prod.case bool.case using st nowrap wrap e p by blast
next
  case False
  then have m: "merge_if_contiguous i start val incr = (True, i)" by (simp add: merge_if_contiguous_def)
  have "unat start \<noteq> unat (interval_max i)" using False unsigned_word_eqI [of start "interval_max i"] by auto
  then show ?thesis using assms(1) unfolding m fst_conv prod.case bool.case interval_ok_def by argo
qed

theorem merged_interval_values_witness:
  "interval_set (snd (merge_if_contiguous (interval_make zero_interval 1 2 10) 21 3 10)) 10 =
   interval_set (interval_make zero_interval 1 2 10) 10 \<union> progression 21 3 10"
  using merged_interval_values [of "interval_make zero_interval 1 2 10" 10 21 3]
  by (simp add: interval_ok_def interval_make_def interval_replace_def merge_if_contiguous_def Let_def)

section \<open>The intervals of a list\<close>

primrec interval_chain :: "interval_store \<Rightarrow> nat \<Rightarrow> nat list \<Rightarrow> bool" where
  "interval_chain st i [] \<longleftrightarrow> i = 0"
| "interval_chain st i (x # xs) \<longleftrightarrow>
     i = x \<and> x \<noteq> 0 \<and> (\<exists>iv. st x = Some iv \<and> interval_chain st (next_interval iv) xs)"

lemma interval_chain_unique: "interval_chain st i xs \<Longrightarrow> interval_chain st i ys \<Longrightarrow> xs = ys"
proof (induction xs arbitrary: i ys)
  case Nil
  then show ?case by (cases ys) auto
next
  case (Cons x xs)
  then show ?case by (cases ys) auto
qed

lemma interval_chain_suffix:
  "interval_chain st i (us @ x # vs) \<Longrightarrow> interval_chain st x (x # vs)"
  by (induction us arbitrary: i) auto

lemma interval_chain_distinct: "interval_chain st i xs \<Longrightarrow> distinct xs"
proof (induction xs arbitrary: i)
  case (Cons x xs)
  have "x \<notin> set xs"
  proof
    assume "x \<in> set xs"
    then obtain us vs where e: "xs = us @ x # vs" by (meson split_list)
    have "interval_chain st x (x # xs)" "interval_chain st x (x # vs)"
      using Cons.prems interval_chain_suffix [of st i "x # us" x vs] by (auto simp: e)
    then show False using interval_chain_unique [of st x "x # xs" "x # vs"] e by (metis length_append
        length_Cons list.inject not_add_less2 lessI)
  qed
  then show ?case using Cons by auto
qed simp

lemma interval_chain_frame: "x \<notin> set xs \<Longrightarrow> interval_chain (st(x := v)) i xs = interval_chain st i xs"
  by (induction xs arbitrary: i) auto

lemma empty_loop_frees:
  "interval_chain st i xs \<Longrightarrow> empty_loop i st = Some (st |` (- set xs))"
proof (induction xs arbitrary: i st)
  case Nil
  then show ?case by (simp add: empty_loop.simps)
next
  case (Cons x xs)
  obtain iv where iv: "i = x" "x \<noteq> 0" "st x = Some iv" "interval_chain st (next_interval iv) xs"
    using Cons.prems by auto
  have "x \<notin> set xs" using interval_chain_distinct [OF Cons.prems] by simp
  then have "empty_loop (next_interval iv) (st(x := None)) = Some (st(x := None) |` (- set xs))"
    using iv by (intro Cons.IH) (simp add: interval_chain_frame del: fun_upd_apply)
  then show ?case using iv
    by (subst empty_loop.simps) (auto simp: restrict_map_def fun_eq_iff)
qed

primrec take_next :: "interval_store \<Rightarrow> nat \<Rightarrow> intervals_list \<Rightarrow> (nat list \<times> intervals_list) option" where
  "take_next st 0 l = Some ([], l)"
| "take_next st (Suc n) l =
     Option.bind (get_next st l) (\<lambda>(i, l).
     Option.bind (take_next st n l) (\<lambda>(is, l). Some (i # is, l)))"

lemma take_next_chain:
  "interval_chain st (il_current l) xs \<Longrightarrow>
   take_next st (length xs + n) l = Some (xs @ replicate n 0, l\<lparr>il_current := 0\<rparr>)"
proof (induction xs arbitrary: l)
  case Nil
  then show ?case
    by (induction n) (auto simp: get_next_def)
next
  case (Cons x xs)
  then show ?case by (auto simp: get_next_def)
qed

text \<open>
  For a list whose intervals form a chain to NULL: taking the next interval again and again
  gives its intervals in order and then NULL; emptying it ends, deletes exactly its intervals, and
  leaves a list with no interval, no least and no largest value.
\<close>

theorem intervals_list_walk:
  assumes "interval_chain st (il_head l) xs"
  shows "take_next st (length xs + n) (l\<lparr>il_current := il_head l\<rparr>) =
      Some (xs @ replicate n 0, l\<lparr>il_current := 0\<rparr>) \<and>
    intervals_empty st l = Some (st |` (- set xs), empty_no_free) \<and>
    list_minimum st' empty_no_free = Some 0 \<and> list_maximum st' empty_no_free = Some 0"
  using assms take_next_chain [of st "l\<lparr>il_current := il_head l\<rparr>" xs n] empty_loop_frees [OF assms]
  by (simp add: intervals_empty_def list_minimum_def list_maximum_def empty_no_free_def set_members_def)

theorem intervals_list_walk_witness:
  "intervals_empty [7 \<mapsto> interval_make zero_interval 1 2 1 \<lparr>next_interval := 9\<rparr>, 9 \<mapsto> interval_make zero_interval 5 2 1]
     (set_members 7 9 7 2) = Some (Map.empty, empty_no_free)"
proof -
  let ?st = "[7 \<mapsto> interval_make zero_interval 1 2 1 \<lparr>next_interval := 9\<rparr>, 9 \<mapsto> interval_make zero_interval 5 2 1]"
  have c: "interval_chain ?st (il_head (set_members 7 9 7 2)) [7, 9]"
    by (simp add: set_members_def interval_make_def interval_replace_def)
  have "?st |` (- {7, 9}) = Map.empty" by (auto simp: restrict_map_def fun_eq_iff)
  then show ?thesis using intervals_list_walk [OF c, of 0 ?st] by simp
qed

end
