(* ===== verification/Filesort.thy ===== *)
theory Filesort
  imports Byte_Order
begin

text \<open>
  The records of a sort: the buffer of records and record pointers (\<^verbatim>\<open>Filesort_buffer\<close> of
  \<^verbatim>\<open>filesort_utils.h\<close>), the lengths of packed keys and fields, and the chunks that are merged
  (\<^verbatim>\<open>sql_sort.h\<close>).

  A pointer into a buffer is an address, 0 being NULL. The array of record pointers is indexed from
  the pointer to its right end, as in the code, so that indices are integers and mostly negative. A
  failed debug assertion, and a pointer that leaves its buffer, is \<^const>\<open>None\<close>.
\<close>

section \<open>Filesort_buffer\<close>

record filesort_buffer =
  m_next_rec_ptr :: nat
  m_rawmem :: nat
  m_record_pointers :: "int \<Rightarrow> nat"
  m_sort_keys :: "int option"
  m_num_records :: uint
  m_record_length :: uint
  m_sort_length :: uint
  m_size_in_bytes :: ulonglong
  m_idx :: int

abbreviation (input) sizeof_ptr :: nat where "sizeof_ptr \<equiv> 8"

definition filesort_buffer_make :: "(int \<Rightarrow> nat) \<Rightarrow> filesort_buffer" where
  "filesort_buffer_make ptrs =
     \<lparr>m_next_rec_ptr = 0, m_rawmem = 0, m_record_pointers = ptrs, m_sort_keys = None,
      m_num_records = 0, m_record_length = 0, m_sort_length = 0, m_size_in_bytes = 0, m_idx = 0\<rparr>"

text \<open>The index of the first sort key, and NULL when there is no record.\<close>

definition get_sort_keys :: "filesort_buffer \<Rightarrow> int option" where
  "get_sort_keys b = (if m_idx b = 0 then None else Some (1 - m_idx b))"

definition get_sorted_record :: "filesort_buffer \<Rightarrow> uint \<Rightarrow> nat option" where
  "get_sorted_record b ix = map_option (\<lambda>k. m_record_pointers b (k + uint ix)) (m_sort_keys b)"

definition init_next_record_pointer :: "filesort_buffer \<Rightarrow> filesort_buffer" where
  "init_next_record_pointer b = b\<lparr>m_idx := 0, m_next_rec_ptr := m_rawmem b, m_sort_keys := None\<rparr>"

definition get_next_record_pointer :: "filesort_buffer \<Rightarrow> nat \<times> filesort_buffer" where
  "get_next_record_pointer b =
     (let retval = m_next_rec_ptr b;
          b = b\<lparr>m_record_pointers := (m_record_pointers b)(- m_idx b := m_next_rec_ptr b)\<rparr>;
          b = b\<lparr>m_idx := m_idx b + 1\<rparr>;
          b = b\<lparr>m_next_rec_ptr := m_next_rec_ptr b + unat (m_record_length b)\<rparr>
      in (retval, b))"

definition adjust_next_record_pointer :: "uint \<Rightarrow> filesort_buffer \<Rightarrow> filesort_buffer option" where
  "adjust_next_record_pointer val b =
     (let distance = unat (m_record_length b - val) in
      if m_next_rec_ptr b < m_rawmem b + distance then None
      else Some (b\<lparr>m_next_rec_ptr := m_next_rec_ptr b - distance\<rparr>))"

function reverse_loop :: "int \<Rightarrow> int \<Rightarrow> int \<Rightarrow> (int \<Rightarrow> nat) \<Rightarrow> (int \<Rightarrow> nat)" where
  "reverse_loop keys count ix ptrs =
     (if ix \<le> count div 2 then
        let tmp = ptrs (keys + (count - ix));
            ptrs = ptrs(keys + (count - ix) := ptrs (keys + ix));
            ptrs = ptrs(keys + ix := tmp)
        in reverse_loop keys count (ix + 1) ptrs
      else ptrs)"
  by pat_completeness auto
termination by (relation "measure (\<lambda>(keys, count, ix, ptrs). nat (count div 2 + 1 - ix))") auto

declare reverse_loop.simps [simp del]

definition reverse_record_pointers :: "filesort_buffer \<Rightarrow> filesort_buffer" where
  "reverse_record_pointers b =
     (if m_idx b < 2 then b
      else case get_sort_keys b of
        None \<Rightarrow> b
      | Some keys \<Rightarrow>
          b\<lparr>m_record_pointers := reverse_loop keys (m_idx b - 1) 0 (m_record_pointers b)\<rparr>)"

function init_loop :: "filesort_buffer \<Rightarrow> filesort_buffer" where
  "init_loop b = (if m_idx b < uint (m_num_records b) then init_loop (snd (get_next_record_pointer b)) else b)"
  by pat_completeness auto
termination
  by (relation "measure (\<lambda>b. nat (uint (m_num_records b) - m_idx b))")
     (auto simp: get_next_record_pointer_def Let_def)

declare init_loop.simps [simp del]

definition init_record_pointers :: "filesort_buffer \<Rightarrow> filesort_buffer" where
  "init_record_pointers b = reverse_record_pointers (init_loop (init_next_record_pointer b))"

definition space_used_for_data :: "filesort_buffer \<Rightarrow> nat" where
  "space_used_for_data b = (if m_next_rec_ptr b \<noteq> 0 then m_next_rec_ptr b - m_rawmem b else 0)"

definition spaceleft :: "filesort_buffer \<Rightarrow> ulonglong option" where
  "spaceleft b =
     (if m_next_rec_ptr b \<ge> m_rawmem b then
        let spaceused = of_nat (m_next_rec_ptr b - m_rawmem b) + of_int (m_idx b) * of_nat sizeof_ptr
        in Some (m_size_in_bytes b - spaceused)
      else None)"

definition isfull :: "filesort_buffer \<Rightarrow> bool option" where
  "isfull b =
     (if m_idx b < uint (m_num_records b) then Some False
      else map_option (\<lambda>left. left < ucast (m_record_length b) + of_nat sizeof_ptr) (spaceleft b))"

definition sort_buffer_size :: "filesort_buffer \<Rightarrow> ulonglong" where
  "sort_buffer_size b = m_size_in_bytes b"

definition is_allocated :: "filesort_buffer \<Rightarrow> bool" where
  "is_allocated b \<longleftrightarrow> m_rawmem b \<noteq> 0"

definition reset :: "filesort_buffer \<Rightarrow> filesort_buffer" where
  "reset b = b\<lparr>m_rawmem := 0\<rparr>"

definition get_raw_buf :: "filesort_buffer \<Rightarrow> nat \<times> ulonglong" where
  "get_raw_buf b = (m_rawmem b, m_size_in_bytes b)"

definition get_sort_length_of_buffer :: "filesort_buffer \<Rightarrow> uint" where
  "get_sort_length_of_buffer b = m_sort_length b"

definition set_sort_length :: "uint \<Rightarrow> filesort_buffer \<Rightarrow> filesort_buffer" where
  "set_sort_length val b = b\<lparr>m_sort_length := val\<rparr>"

section \<open>Merge_chunk\<close>

record merge_chunk =
  m_current_key :: nat
  m_file_position :: ulonglong
  m_buffer_start :: nat
  m_buffer_end :: nat
  m_rowcount :: ulonglong
  m_mem_count :: ulonglong
  m_max_keys :: ulonglong

definition merge_chunk_make :: merge_chunk where
  "merge_chunk_make = \<lparr>m_current_key = 0, m_file_position = 0, m_buffer_start = 0, m_buffer_end = 0,
     m_rowcount = 0, m_mem_count = 0, m_max_keys = 0\<rparr>"

definition set_file_position :: "ulonglong \<Rightarrow> merge_chunk \<Rightarrow> merge_chunk" where
  "set_file_position val c = c\<lparr>m_file_position := val\<rparr>"

definition advance_file_position :: "ulonglong \<Rightarrow> merge_chunk \<Rightarrow> merge_chunk" where
  "advance_file_position val c = c\<lparr>m_file_position := m_file_position c + val\<rparr>"

definition set_buffer :: "nat \<Rightarrow> nat \<Rightarrow> merge_chunk \<Rightarrow> merge_chunk" where
  "set_buffer start ende c = c\<lparr>m_buffer_start := start, m_buffer_end := ende\<rparr>"

definition set_buffer_start :: "nat \<Rightarrow> merge_chunk \<Rightarrow> merge_chunk" where
  "set_buffer_start start c = c\<lparr>m_buffer_start := start\<rparr>"

definition set_buffer_end :: "nat \<Rightarrow> merge_chunk \<Rightarrow> merge_chunk option" where
  "set_buffer_end ende c =
     (if m_buffer_end c = 0 \<or> ende \<le> m_buffer_end c then Some (c\<lparr>m_buffer_end := ende\<rparr>) else None)"

definition init_current_key :: "merge_chunk \<Rightarrow> merge_chunk" where
  "init_current_key c = c\<lparr>m_current_key := m_buffer_start c\<rparr>"

definition advance_current_key :: "uint \<Rightarrow> merge_chunk \<Rightarrow> merge_chunk" where
  "advance_current_key val c = c\<lparr>m_current_key := m_current_key c + unat val\<rparr>"

definition set_rowcount :: "ulonglong \<Rightarrow> merge_chunk \<Rightarrow> merge_chunk" where
  "set_rowcount val c = c\<lparr>m_rowcount := val\<rparr>"

definition decrement_rowcount :: "ulonglong \<Rightarrow> merge_chunk \<Rightarrow> merge_chunk" where
  "decrement_rowcount val c = c\<lparr>m_rowcount := m_rowcount c - val\<rparr>"

definition set_mem_count :: "ulonglong \<Rightarrow> merge_chunk \<Rightarrow> merge_chunk" where
  "set_mem_count val c = c\<lparr>m_mem_count := val\<rparr>"

definition decrement_mem_count :: "merge_chunk \<Rightarrow> ulonglong \<times> merge_chunk" where
  "decrement_mem_count c = (m_mem_count c - 1, c\<lparr>m_mem_count := m_mem_count c - 1\<rparr>)"

definition set_max_keys :: "ulonglong \<Rightarrow> merge_chunk \<Rightarrow> merge_chunk" where
  "set_max_keys val c = c\<lparr>m_max_keys := val\<rparr>"

definition chunk_buffer_size :: "merge_chunk \<Rightarrow> ulonglong" where
  "chunk_buffer_size c = of_nat (m_buffer_end c) - of_nat (m_buffer_start c)"

definition merge_freed_buff :: "merge_chunk \<Rightarrow> merge_chunk \<Rightarrow> bool \<times> merge_chunk" where
  "merge_freed_buff this mc =
     (if m_buffer_end mc = m_buffer_start this then
        (True, mc\<lparr>m_buffer_end := m_buffer_end this, m_max_keys := m_max_keys mc + m_max_keys this\<rparr>)
      else if m_buffer_start mc = m_buffer_end this then
        (True, mc\<lparr>m_buffer_start := m_buffer_start this, m_max_keys := m_max_keys mc + m_max_keys this\<rparr>)
      else (False, mc))"

section \<open>Addon_fields and Sort_keys\<close>

text \<open>The fields are described by any type; the buffer of a failed allocation is NULL.\<close>

record 'f addon_fields =
  m_field_descriptors :: "'f list"
  m_addon_buf :: nat
  m_addon_buf_length :: uint
  af_using_packed :: bool

definition addon_fields_make :: "'f list option \<Rightarrow> 'f addon_fields option" where
  "addon_fields_make arr = map_option (\<lambda>fs. \<lparr>m_field_descriptors = fs, m_addon_buf = 0,
     m_addon_buf_length = 0, af_using_packed = False\<rparr>) arr"

definition allocate_addon_buf :: "nat \<Rightarrow> uint \<Rightarrow> 'f addon_fields \<Rightarrow> nat \<times> 'f addon_fields" where
  "allocate_addon_buf malloced sz af =
     (let af = af\<lparr>m_addon_buf := malloced\<rparr>;
          af = (if m_addon_buf af \<noteq> 0 then af\<lparr>m_addon_buf_length := sz\<rparr> else af)
      in (m_addon_buf af, af))"

text \<open>The result is the block that is given back, with the object.\<close>

definition free_addon_buff :: "'f addon_fields \<Rightarrow> nat \<times> 'f addon_fields" where
  "free_addon_buff af = (m_addon_buf af, af\<lparr>m_addon_buf := 0, m_addon_buf_length := 0\<rparr>)"

definition set_using_packed_addons :: "bool \<Rightarrow> 'f addon_fields \<Rightarrow> 'f addon_fields" where
  "set_using_packed_addons val af = af\<lparr>af_using_packed := val\<rparr>"

definition can_pack_addon_fields :: "uint \<Rightarrow> bool" where
  "can_pack_addon_fields record_length \<longleftrightarrow> record_length \<le> 0xFFFF"

definition read_addon_length :: "memory \<Rightarrow> nat \<Rightarrow> uint" where
  "read_addon_length m p = 2 + ucast (uint2korr m p)"

definition store_addon_length :: "memory \<Rightarrow> nat \<Rightarrow> uint \<Rightarrow> memory" where
  "store_addon_length m p sz = int2store m p (ucast (sz - 2))"

record sort_keys =
  sk_using_packed :: bool
  size_of_packable_fields :: uint
  sort_length_with_original_values :: uint
  sort_length_with_memcmp_values :: uint
  parameters_computed :: bool

definition sort_keys_make :: "nat \<Rightarrow> sort_keys option" where
  "sort_keys_make arr =
     (if arr \<noteq> 0 then Some \<lparr>sk_using_packed = False, size_of_packable_fields = 0,
        sort_length_with_original_values = 0, sort_length_with_memcmp_values = 0,
        parameters_computed = False\<rparr> else None)"

definition set_using_packed_sortkeys :: "bool \<Rightarrow> sort_keys \<Rightarrow> sort_keys" where
  "set_using_packed_sortkeys val sk = sk\<lparr>sk_using_packed := val\<rparr>"

definition set_size_of_packable_fields :: "uint \<Rightarrow> sort_keys \<Rightarrow> sort_keys" where
  "set_size_of_packable_fields len sk = sk\<lparr>size_of_packable_fields := len\<rparr>"

definition set_sort_length_with_original_values :: "uint \<Rightarrow> sort_keys \<Rightarrow> sort_keys" where
  "set_sort_length_with_original_values len sk = sk\<lparr>sort_length_with_original_values := len\<rparr>"

definition set_sort_length_with_memcmp_values :: "uint \<Rightarrow> sort_keys \<Rightarrow> sort_keys" where
  "set_sort_length_with_memcmp_values len sk = sk\<lparr>sort_length_with_memcmp_values := len\<rparr>"

definition store_sortkey_length :: "memory \<Rightarrow> nat \<Rightarrow> uint \<Rightarrow> memory" where
  "store_sortkey_length m p sz = int4store m p (ucast (sz - 4))"

definition read_sortkey_length :: "memory \<Rightarrow> nat \<Rightarrow> uint" where
  "read_sortkey_length m p = 4 + uint4korr m p"

definition increment_size_of_packable_fields :: "uint \<Rightarrow> sort_keys \<Rightarrow> sort_keys" where
  "increment_size_of_packable_fields len sk =
     sk\<lparr>size_of_packable_fields := size_of_packable_fields sk + len\<rparr>"

definition increment_original_sort_length :: "uint \<Rightarrow> sort_keys \<Rightarrow> sort_keys" where
  "increment_original_sort_length len sk =
     sk\<lparr>sort_length_with_original_values := sort_length_with_original_values sk + len\<rparr>"

definition set_parameters_computed :: "bool \<Rightarrow> sort_keys \<Rightarrow> sort_keys" where
  "set_parameters_computed val sk = sk\<lparr>parameters_computed := val\<rparr>"

section \<open>Sort_param\<close>

record 'f sort_param =
  rec_length :: uint
  sort_length :: uint
  addon_length :: uint
  res_length :: uint
  sp_addon_fields :: "'f addon_fields option"
  sp_sort_keys :: "sort_keys option"
  m_using_packed_addons :: bool
  m_using_packed_sortkeys :: bool
  m_packed_format :: bool

definition sort_param_make :: "'f sort_param" where
  "sort_param_make = \<lparr>rec_length = 0, sort_length = 0, addon_length = 0, res_length = 0,
     sp_addon_fields = None, sp_sort_keys = None, m_using_packed_addons = False,
     m_using_packed_sortkeys = False, m_packed_format = False\<rparr>"

definition using_packed_addons :: "'f sort_param \<Rightarrow> bool option" where
  "using_packed_addons sp =
     (if m_using_packed_addons sp =
         (case sp_addon_fields sp of None \<Rightarrow> False | Some af \<Rightarrow> af_using_packed af)
      then Some (m_using_packed_addons sp) else None)"

definition using_packed_sortkeys :: "'f sort_param \<Rightarrow> bool option" where
  "using_packed_sortkeys sp =
     (if m_using_packed_sortkeys sp =
         (case sp_sort_keys sp of None \<Rightarrow> False | Some sk \<Rightarrow> sk_using_packed sk)
      then Some (m_using_packed_sortkeys sp) else None)"

definition using_addon_fields :: "'f sort_param \<Rightarrow> bool" where
  "using_addon_fields sp \<longleftrightarrow> sp_addon_fields sp \<noteq> None"

definition get_result_length :: "'f sort_param \<Rightarrow> memory \<Rightarrow> nat \<Rightarrow> uint" where
  "get_result_length sp m plen =
     (if \<not> m_using_packed_addons sp then res_length sp else read_addon_length m plen)"

definition get_addon_length :: "'f sort_param \<Rightarrow> memory \<Rightarrow> nat \<Rightarrow> uint option" where
  "get_addon_length sp m plen =
     map_option (\<lambda>packed. if packed then read_addon_length m plen else addon_length sp)
       (using_packed_addons sp)"

definition get_sort_length :: "'f sort_param \<Rightarrow> memory \<Rightarrow> nat \<Rightarrow> uint option" where
  "get_sort_length sp m plen =
     map_option (\<lambda>packed. if packed
         then read_sortkey_length m plen + (if using_addon_fields sp then 0 else res_length sp)
         else sort_length sp)
       (using_packed_sortkeys sp)"

definition get_record_length :: "'f sort_param \<Rightarrow> memory \<Rightarrow> nat \<Rightarrow> uint option" where
  "get_record_length sp m plen =
     (if m_packed_format sp then
        Option.bind (get_sort_length sp m plen) (\<lambda>sort_len.
        Option.bind (get_addon_length sp m (plen + unat sort_len)) (\<lambda>addon_len.
        Some (sort_len + addon_len)))
      else Some (rec_length sp))"

definition get_rec_and_res_len :: "'f sort_param \<Rightarrow> memory \<Rightarrow> nat \<Rightarrow> (uint \<times> uint) option" where
  "get_rec_and_res_len sp m record_start =
     (if m_packed_format sp then
        Option.bind (get_sort_length sp m record_start) (\<lambda>sort_len.
        Option.bind (get_addon_length sp m (record_start + unat sort_len)) (\<lambda>addon_len.
        Some (sort_len + addon_len, if using_addon_fields sp then addon_len else res_length sp)))
      else Some (rec_length sp, res_length sp))"

text \<open>\<open>packed_compare\<close> and \<open>ptr_compare\<close> are functions whose bodies are not in the headers.\<close>

definition get_compare_function :: "'c \<Rightarrow> (uint \<Rightarrow> 'c) \<Rightarrow> 'f sort_param \<Rightarrow> 'c option" where
  "get_compare_function packed_compare ptr_compare sp =
     map_option (\<lambda>packed. if packed then packed_compare else ptr_compare (sort_length sp))
       (using_packed_sortkeys sp)"

definition get_compare_argument :: "nat \<Rightarrow> nat \<Rightarrow> 'f sort_param \<Rightarrow> nat option" where
  "get_compare_argument this sort_len sp =
     map_option (\<lambda>packed. if packed then this else sort_len) (using_packed_sortkeys sp)"

section \<open>The pointers are in the order of the records\<close>

lemma reverse_loop_swaps:
  assumes "0 \<le> ix"
  shows "reverse_loop keys count ix ptrs (keys + j) =
    (if ix \<le> j \<and> j \<le> count - ix then ptrs (keys + (count - j)) else ptrs (keys + j))"
  using assms
proof (induction keys count ix ptrs rule: reverse_loop.induct)
  case (1 keys count ix ptrs)
  show ?case
  proof (cases "ix \<le> count div 2")
    case True
    let ?p = "ptrs(keys + (count - ix) := ptrs (keys + ix), keys + ix := ptrs (keys + (count - ix)))"
    have "reverse_loop keys count ix ptrs (keys + j) = reverse_loop keys count (ix + 1) ?p (keys + j)"
      using True by (subst reverse_loop.simps) (simp add: Let_def)
    also have "\<dots> = (if ix + 1 \<le> j \<and> j \<le> count - (ix + 1) then ?p (keys + (count - j)) else ?p (keys + j))"
      by (rule 1(1) [OF True refl refl refl]) (use 1(2) in simp)
    also have "\<dots> = (if ix \<le> j \<and> j \<le> count - ix then ptrs (keys + (count - j)) else ptrs (keys + j))"
      using True by auto
    finally show ?thesis .
  next
    case False
    then show ?thesis by (subst reverse_loop.simps) auto
  qed
qed

text \<open>The pointers that are set before they are reversed.\<close>

lemma init_loop_fills:
  assumes "0 \<le> m_idx b" and "m_idx b \<le> uint (m_num_records b)"
    and "m_next_rec_ptr b = m_rawmem b + nat (m_idx b) * unat (m_record_length b)"
    and "\<forall>j. 0 \<le> j \<and> j < m_idx b \<longrightarrow> m_record_pointers b (- j) = m_rawmem b + nat j * unat (m_record_length b)"
  shows "m_idx (init_loop b) = uint (m_num_records b) \<and> m_rawmem (init_loop b) = m_rawmem b \<and>
    m_record_length (init_loop b) = m_record_length b \<and>
    (\<forall>j. 0 \<le> j \<and> j < uint (m_num_records b) \<longrightarrow>
      m_record_pointers (init_loop b) (- j) = m_rawmem b + nat j * unat (m_record_length b))"
  using assms
proof (induction b rule: init_loop.induct)
  case (1 b)
  show ?case
  proof (cases "m_idx b < uint (m_num_records b)")
    case True
    let ?b = "snd (get_next_record_pointer b)"
    have s: "m_idx ?b = m_idx b + 1" "m_num_records ?b = m_num_records b" "m_rawmem ?b = m_rawmem b"
      "m_record_length ?b = m_record_length b"
      "m_next_rec_ptr ?b = m_next_rec_ptr b + unat (m_record_length b)"
      "m_record_pointers ?b = (m_record_pointers b)(- m_idx b := m_next_rec_ptr b)"
      by (simp_all add: get_next_record_pointer_def Let_def)
    have n: "nat (m_idx b + 1) = nat (m_idx b) + 1" using 1(2) by simp
    have "m_next_rec_ptr ?b = m_rawmem ?b + nat (m_idx ?b) * unat (m_record_length ?b)"
      unfolding s n using 1(4) by simp
    moreover have "\<forall>j. 0 \<le> j \<and> j < m_idx ?b \<longrightarrow>
        m_record_pointers ?b (- j) = m_rawmem ?b + nat j * unat (m_record_length ?b)"
      unfolding s using 1(4,5) by auto
    ultimately have "m_idx (init_loop ?b) = uint (m_num_records ?b) \<and> m_rawmem (init_loop ?b) = m_rawmem ?b \<and>
        m_record_length (init_loop ?b) = m_record_length ?b \<and>
        (\<forall>j. 0 \<le> j \<and> j < uint (m_num_records ?b) \<longrightarrow>
          m_record_pointers (init_loop ?b) (- j) = m_rawmem ?b + nat j * unat (m_record_length ?b))"
      using 1(1) [OF True] 1(2) True s(1,2) by simp
    moreover have "init_loop b = init_loop ?b" using True by (subst init_loop.simps) simp
    ultimately show ?thesis unfolding s by simp
  next
    case False
    then have "init_loop b = b" by (subst init_loop.simps) simp
    then show ?thesis using False 1(2-5) by auto
  qed
qed

text \<open>
  After all record pointers are initialized, the array of sort keys, read from left to right,
  holds the addresses of the records from the first to the last one.
\<close>

theorem record_pointers_in_order:
  assumes "0 \<le> j" and "j < uint (m_num_records b)"
  shows "\<exists>keys. get_sort_keys (init_record_pointers b) = Some keys \<and>
    m_record_pointers (init_record_pointers b) (keys + j) =
      m_rawmem b + nat j * unat (m_record_length b)"
proof -
  let ?b = "init_loop (init_next_record_pointer b)" and ?n = "uint (m_num_records b)"
  have i: "m_idx ?b = ?n \<and> m_rawmem ?b = m_rawmem b \<and> m_record_length ?b = m_record_length b \<and>
      (\<forall>j. 0 \<le> j \<and> j < ?n \<longrightarrow> m_record_pointers ?b (- j) = m_rawmem b + nat j * unat (m_record_length b))"
    using init_loop_fills [of "init_next_record_pointer b"] by (simp add: init_next_record_pointer_def)
  have k: "get_sort_keys ?b = Some (1 - ?n)" using i assms by (auto simp: get_sort_keys_def)
  show ?thesis
  proof (cases "?n < 2")
    case True
    then have "?n = 1" "j = 0" using assms by linarith+
    then show ?thesis using i k by (auto simp: init_record_pointers_def reverse_record_pointers_def)
  next
    case False
    have "m_record_pointers (init_record_pointers b) (1 - ?n + j) =
        reverse_loop (1 - ?n) (?n - 1) 0 (m_record_pointers ?b) (1 - ?n + j)"
      using False i k by (simp add: init_record_pointers_def reverse_record_pointers_def)
    also have "\<dots> = m_record_pointers ?b (- j)"
      using assms by (subst reverse_loop_swaps) auto
    also have "\<dots> = m_rawmem b + nat j * unat (m_record_length b)" using i assms by blast
    moreover have "get_sort_keys (init_record_pointers b) = Some (1 - ?n)"
      using False i k by (simp add: init_record_pointers_def reverse_record_pointers_def get_sort_keys_def)
    ultimately show ?thesis by simp
  qed
qed

theorem record_pointers_in_order_witness:
  "\<exists>keys. get_sort_keys (init_record_pointers (filesort_buffer_make (\<lambda>_. 0)
       \<lparr>m_rawmem := 1000, m_num_records := 3, m_record_length := 20\<rparr>)) = Some keys \<and>
     m_record_pointers (init_record_pointers (filesort_buffer_make (\<lambda>_. 0)
       \<lparr>m_rawmem := 1000, m_num_records := 3, m_record_length := 20\<rparr>)) (keys + 2) = 1040"
  using record_pointers_in_order [of 2 "filesort_buffer_make (\<lambda>_. 0)
    \<lparr>m_rawmem := 1000, m_num_records := 3, m_record_length := 20\<rparr>"]
  by simp

section \<open>The records do not meet the pointers\<close>

text \<open>
  Filling the buffer with records of given lengths, until it is full: each record gets the next
  place, and the space that it does not need is given back.
\<close>

fun fill :: "uint list \<Rightarrow> filesort_buffer \<Rightarrow> filesort_buffer option" where
  "fill [] b = Some b"
| "fill (v # vs) b =
     Option.bind (isfull b) (\<lambda>full.
     if full then Some b
     else Option.bind (adjust_next_record_pointer v (snd (get_next_record_pointer b))) (fill vs))"

text \<open>
  What holds between two records: \<open>n\<close> records are stored, with lengths \<open>ls\<close> that are at most the
  record length; the first records, as many as the buffer was made for, need no test.
\<close>

definition filled :: "uint list \<Rightarrow> filesort_buffer \<Rightarrow> bool" where
  "filled ls b \<longleftrightarrow> m_idx b = int (length ls) \<and> (\<forall>v \<in> set ls. v \<le> m_record_length b) \<and>
     m_next_rec_ptr b = m_rawmem b + sum_list (map unat ls) \<and>
     (\<forall>i < length ls. m_record_pointers b (- int i) = m_rawmem b + sum_list (map unat (take i ls))) \<and>
     unat (m_num_records b) * (unat (m_record_length b) + 8) \<le> unat (m_size_in_bytes b) \<and>
     sum_list (map unat ls) + 8 * length ls \<le> unat (m_size_in_bytes b)"

lemma sum_lengths: "\<forall>v \<in> set ls. v \<le> l \<Longrightarrow> sum_list (map unat ls) \<le> length ls * unat l"
  by (induction ls) (auto simp: word_le_nat_alt add_mono)

lemma unat_minus_of_nat:
  fixes s :: ulonglong
  assumes "u \<le> unat s"
  shows "unat (s - of_nat u) = unat s - u"
proof -
  have "u < 2 ^ 64" using assms unat_lt_pow [of 64 s] by simp
  then have "unat (of_nat u :: ulonglong) = u" by (simp add: unat_of_nat take_bit_nat_eq_self)
  then show ?thesis using assms by (subst unat_sub) (simp_all add: word_le_nat_alt)
qed

lemma spaceleft_filled:
  assumes "filled ls b" and "u = sum_list (map unat ls) + 8 * length ls"
  shows "\<exists>left. spaceleft b = Some left \<and> unat left = unat (m_size_in_bytes b) - u"
proof -
  have "of_nat (m_next_rec_ptr b - m_rawmem b) + of_int (m_idx b) * of_nat 8 = (of_nat u :: ulonglong)"
    using assms by (simp add: filled_def mult.commute)
  then have "spaceleft b = Some (m_size_in_bytes b - of_nat u)"
    using assms(1) by (simp add: spaceleft_def filled_def Let_def)
  moreover have "u \<le> unat (m_size_in_bytes b)" using assms by (simp add: filled_def)
  ultimately show ?thesis using unat_minus_of_nat by blast
qed

lemma not_full_fits:
  assumes "filled ls b" and "isfull b = Some False"
  shows "sum_list (map unat ls) + 8 * length ls + (unat (m_record_length b) + 8) \<le> unat (m_size_in_bytes b)"
proof (cases "m_idx b < uint (m_num_records b)")
  case True
  let ?l = "unat (m_record_length b)"
  have "m_idx b = int (length ls)" using assms(1) unfolding filled_def by blast
  then have "int (length ls) < int (unat (m_num_records b))" using True by (simp add: of_nat_unat)
  then have "length ls + 1 \<le> unat (m_num_records b)" by linarith
  then have "(length ls + 1) * (?l + 8) \<le> unat (m_num_records b) * (?l + 8)" by (rule mult_le_mono1)
  moreover have "sum_list (map unat ls) \<le> length ls * ?l" using assms(1) unfolding filled_def by (intro sum_lengths) blast
  moreover have "unat (m_num_records b) * (?l + 8) \<le> unat (m_size_in_bytes b)"
    using assms(1) unfolding filled_def by blast
  ultimately show ?thesis by (simp add: algebra_simps)
next
  case False
  let ?u = "sum_list (map unat ls) + 8 * length ls" and ?l = "unat (m_record_length b)"
  have l: "?l < 2 ^ 32" using unat_lt_pow [of 32 "m_record_length b"] by simp
  have s: "unat (ucast (m_record_length b) + of_nat 8 :: ulonglong) = ?l + 8"
    using l by (subst unat_add_no_overflow) (simp_all add: unat_ucast_less)
  obtain left where left: "spaceleft b = Some left" "unat left = unat (m_size_in_bytes b) - ?u"
    using spaceleft_filled [OF assms(1) refl] by blast
  have "\<not> left < ucast (m_record_length b) + of_nat 8"
    using assms(2) left(1) False by (simp add: isfull_def)
  then have "?l + 8 \<le> unat (m_size_in_bytes b) - ?u"
    unfolding word_less_nat_alt s left(2) by simp
  moreover have "?u \<le> unat (m_size_in_bytes b)" using assms(1) unfolding filled_def by blast
  ultimately show ?thesis by linarith
qed

lemma fill_step:
  assumes "filled ls b" and "isfull b = Some False" and "v \<le> m_record_length b"
  shows "\<exists>b'. adjust_next_record_pointer v (snd (get_next_record_pointer b)) = Some b' \<and>
    filled (ls @ [v]) b' \<and> m_rawmem b' = m_rawmem b \<and> m_record_length b' = m_record_length b \<and>
    m_size_in_bytes b' = m_size_in_bytes b"
proof -
  let ?l = "m_record_length b" and ?b = "snd (get_next_record_pointer b)"
  let ?b' = "?b\<lparr>m_next_rec_ptr := m_next_rec_ptr ?b - unat (?l - v)\<rparr>"
  have vl: "unat v \<le> unat ?l" using assms(3) by (simp add: word_le_nat_alt)
  have bk: "unat (?l - v) = unat ?l - unat v" using assms(3) by (rule unat_sub)
  have s: "m_idx ?b = m_idx b + 1" "m_num_records ?b = m_num_records b" "m_rawmem ?b = m_rawmem b"
    "m_record_length ?b = ?l" "m_next_rec_ptr ?b = m_next_rec_ptr b + unat ?l"
    "m_size_in_bytes ?b = m_size_in_bytes b"
    "m_record_pointers ?b = (m_record_pointers b)(- m_idx b := m_next_rec_ptr b)"
    by (simp_all add: get_next_record_pointer_def Let_def)
  have f: "m_idx b = int (length ls)" "\<forall>v \<in> set ls. v \<le> ?l"
    "m_next_rec_ptr b = m_rawmem b + sum_list (map unat ls)"
    "\<forall>i < length ls. m_record_pointers b (- int i) = m_rawmem b + sum_list (map unat (take i ls))"
    "unat (m_num_records b) * (unat ?l + 8) \<le> unat (m_size_in_bytes b)"
    using assms(1) unfolding filled_def by blast+
  have ptr: "m_next_rec_ptr ?b - unat (?l - v) = m_rawmem b + sum_list (map unat ls) + unat v"
    "\<not> m_next_rec_ptr ?b < m_rawmem ?b + unat (?l - v)"
    using vl bk f(3) s by simp_all
  have "filled (ls @ [v]) ?b'"
    unfolding filled_def
  proof (intro conjI)
    show "\<forall>i < length (ls @ [v]). m_record_pointers ?b' (- int i) =
        m_rawmem ?b' + sum_list (map unat (take i (ls @ [v])))"
      using f s by (auto simp: less_Suc_eq)
    show "sum_list (map unat (ls @ [v])) + 8 * length (ls @ [v]) \<le> unat (m_size_in_bytes ?b')"
      using not_full_fits [OF assms(1,2)] vl s by simp
  qed (use f s ptr assms(3) in auto)
  then show ?thesis using ptr s by (auto simp: adjust_next_record_pointer_def Let_def)
qed

lemma fill_filled:
  assumes "filled ls b" and "\<forall>v \<in> set vs. v \<le> m_record_length b"
  shows "\<exists>k \<le> length vs. \<exists>b'. fill vs b = Some b' \<and> filled (ls @ take k vs) b' \<and> m_rawmem b' = m_rawmem b \<and>
    m_record_length b' = m_record_length b \<and> m_size_in_bytes b' = m_size_in_bytes b \<and>
    (k < length vs \<longrightarrow> isfull b' = Some True)"
  using assms
proof (induction vs arbitrary: ls b)
  case (Cons v vs)
  obtain full where full: "isfull b = Some full"
    using spaceleft_filled [OF Cons.prems(1) refl] by (cases "isfull b") (auto simp: isfull_def split: if_splits)
  show ?case
  proof (cases full)
    case True
    then show ?thesis using full Cons.prems(1) by (intro exI [of _ 0]) auto
  next
    case False
    obtain b1 where b1: "adjust_next_record_pointer v (snd (get_next_record_pointer b)) = Some b1"
      "filled (ls @ [v]) b1" "m_rawmem b1 = m_rawmem b" "m_record_length b1 = m_record_length b"
      "m_size_in_bytes b1 = m_size_in_bytes b"
      using fill_step [OF Cons.prems(1)] full False Cons.prems(2) by (metis list.set_intros(1))
    obtain k b2 where "k \<le> length vs" "fill vs b1 = Some b2" "filled ((ls @ [v]) @ take k vs) b2"
      "m_rawmem b2 = m_rawmem b1" "m_record_length b2 = m_record_length b1"
      "m_size_in_bytes b2 = m_size_in_bytes b1" "k < length vs \<longrightarrow> isfull b2 = Some True"
      using Cons.IH [OF b1(2)] Cons.prems(2) b1(4) by auto
    then show ?thesis using full False b1 by (intro exI [of _ "Suc k"]) auto
  qed
qed (auto intro!: exI [of _ 0])

text \<open>
  C17. A buffer that has room for the number of records it was made for, with their pointers, is
  filled, from its start, with records that are at most as long as the record length: the records
  are stored one after the other without gaps, as many as there are or until the buffer is full,
  their pointers are stored in order, and the records never reach the pointers, which fill the
  buffer from its other end.
\<close>

theorem records_stay_below_pointers:
  assumes "unat (m_num_records b) * (unat (m_record_length b) + 8) \<le> unat (m_size_in_bytes b)"
    and "\<forall>v \<in> set vs. v \<le> m_record_length b"
  shows "\<exists>k b'. fill vs (init_next_record_pointer b) = Some b' \<and> m_idx b' = int k \<and> k \<le> length vs \<and>
    (k < length vs \<longrightarrow> isfull b' = Some True) \<and>
    (\<forall>i < k. m_record_pointers b' (- int i) = m_rawmem b + sum_list (map unat (take i vs))) \<and>
    m_next_rec_ptr b' = m_rawmem b + sum_list (map unat (take k vs)) \<and>
    m_next_rec_ptr b' \<le> m_rawmem b + unat (m_size_in_bytes b) - 8 * k"
proof -
  let ?b = "init_next_record_pointer b"
  have "filled [] ?b" using assms(1) by (simp add: filled_def init_next_record_pointer_def)
  moreover have "\<forall>v \<in> set vs. v \<le> m_record_length ?b"
    using assms(2) by (simp add: init_next_record_pointer_def)
  ultimately obtain k b' where r: "k \<le> length vs" "fill vs ?b = Some b'" "filled ([] @ take k vs) b'"
    "m_rawmem b' = m_rawmem ?b" "m_record_length b' = m_record_length ?b"
    "m_size_in_bytes b' = m_size_in_bytes ?b" "k < length vs \<longrightarrow> isfull b' = Some True"
    using fill_filled [of "[]" ?b vs] by metis
  have s: "m_rawmem ?b = m_rawmem b" "m_size_in_bytes ?b = m_size_in_bytes b"
    by (simp_all add: init_next_record_pointer_def)
  have f: "m_idx b' = int k" "m_next_rec_ptr b' = m_rawmem b + sum_list (map unat (take k vs))"
    "\<forall>i < k. m_record_pointers b' (- int i) = m_rawmem b + sum_list (map unat (take i (take k vs)))"
    "sum_list (map unat (take k vs)) + 8 * k \<le> unat (m_size_in_bytes b)"
    using r(1,3) unfolding filled_def r(4,6) s by simp_all
  have "\<forall>i < k. m_record_pointers b' (- int i) = m_rawmem b + sum_list (map unat (take i vs))"
    using f(3) by (auto simp: min_absorb1)
  moreover have "m_next_rec_ptr b' \<le> m_rawmem b + unat (m_size_in_bytes b) - 8 * k"
    using f(2,4) by linarith
  ultimately show ?thesis using r(1,2,7) f(1,2) by blast
qed

theorem records_stay_below_pointers_witness:
  "\<exists>b'. fill [20, 5, 7, 1] (init_next_record_pointer (filesort_buffer_make (\<lambda>_. 0)
      \<lparr>m_rawmem := 1000, m_num_records := 2, m_record_length := 20, m_size_in_bytes := 64\<rparr>)) = Some b' \<and>
    m_record_pointers b' 0 = 1000"
proof -
  let ?b = "filesort_buffer_make (\<lambda>_. 0)
    \<lparr>m_rawmem := 1000, m_num_records := 2, m_record_length := 20, m_size_in_bytes := 64\<rparr>"
  obtain k b' where r: "fill [20, 5, 7, 1] (init_next_record_pointer ?b) = Some b'"
    "m_idx b' = int k" "k < 4 \<longrightarrow> isfull b' = Some True"
    "\<forall>i < k. m_record_pointers b' (- int i) = 1000 + sum_list (map unat (take i [20, 5, 7, 1 :: uint]))"
    using records_stay_below_pointers [of ?b "[20, 5, 7, 1]"] by auto
  have "0 < k"
  proof (rule ccontr)
    assume "\<not> 0 < k"
    then have "m_idx b' = 0" "isfull b' = Some True" using r(2,3) by simp_all
    moreover have "m_num_records b' = 2" using r(1)
      by (auto simp: isfull_def init_next_record_pointer_def filesort_buffer_make_def
          get_next_record_pointer_def adjust_next_record_pointer_def spaceleft_def Let_def split: if_splits)
    ultimately show False by (simp add: isfull_def)
  qed
  then show ?thesis using r(1,4) by auto
qed

section \<open>Packed records\<close>

lemma addon_length_back:
  "read_addon_length (store_addon_length m p sz) p = 2 + ucast (take_bit 16 (sz - 2))"
proof -
  have "uint2korr (store_addon_length m p sz) p = ucast (take_bit 16 (ucast (sz - 2) :: ulonglong))"
    using le2.load_store [of m p "ucast (sz - 2)"] by (simp add: store_addon_length_def)
  also have "\<dots> = ucast (sz - 2)" by (rule bit_word_eqI) (auto simp: bit_ucast_iff bit_take_bit_iff)
  finally have "uint2korr (store_addon_length m p sz) p = ucast (sz - 2)" .
  moreover have "(ucast (ucast (sz - 2) :: uint16) :: uint) = take_bit 16 (sz - 2)"
    by (rule bit_word_eqI) (auto simp: bit_ucast_iff bit_take_bit_iff)
  ultimately show ?thesis by (simp add: read_addon_length_def)
qed

lemma addon_length_back_small:
  assumes "2 \<le> sz" and "sz < 65538"
  shows "read_addon_length (store_addon_length m p sz) p = sz"
proof -
  have "unat (sz - 2) = unat sz - 2" using assms(1) by (subst unat_sub) simp_all
  then have "unat (sz - 2) < 2 ^ 16" using assms by (simp add: word_less_nat_alt word_le_nat_alt)
  then have "take_bit 16 (sz - 2) = sz - 2"
    by (intro unsigned_word_eqI [where ?'a = nat]) (simp add: unsigned_take_bit_eq take_bit_nat_eq_self)
  then show ?thesis by (simp add: addon_length_back)
qed

lemma sortkey_length_back: "read_sortkey_length (store_sortkey_length m p sz) p = sz"
proof -
  have "uint4korr (store_sortkey_length m p sz) p = ucast (take_bit 32 (ucast (sz - 4) :: ulonglong))"
    using le4.load_store [of m p "ucast (sz - 4)"] by (simp add: store_sortkey_length_def)
  also have "\<dots> = sz - 4" by (rule bit_word_eqI) (auto simp: bit_ucast_iff bit_take_bit_iff)
  finally show ?thesis by (simp add: read_sortkey_length_def)
qed

text \<open>
  The lengths of records that lie one behind the other, and the walk that reads them: the lengths of
  the key and of the fields are stored at the start of each part.
\<close>

fun store_lengths :: "memory \<Rightarrow> nat \<Rightarrow> (uint \<times> uint) list \<Rightarrow> memory" where
  "store_lengths m p [] = m"
| "store_lengths m p ((k, a) # rs) =
     store_lengths (store_addon_length (store_sortkey_length m p k) (p + unat k) a) (p + unat k + unat a) rs"

fun walk_records :: "'f sort_param \<Rightarrow> memory \<Rightarrow> nat \<Rightarrow> nat \<Rightarrow> (nat \<times> uint \<times> uint) list option" where
  "walk_records sp m p 0 = Some []"
| "walk_records sp m p (Suc n) =
     Option.bind (get_rec_and_res_len sp m p) (\<lambda>(recl, resl).
     Option.bind (walk_records sp m (p + unat recl) n) (\<lambda>rs. Some ((p, recl, resl) # rs)))"

fun record_starts :: "nat \<Rightarrow> (uint \<times> uint) list \<Rightarrow> (nat \<times> uint \<times> uint) list" where
  "record_starts p [] = []"
| "record_starts p ((k, a) # rs) = (p, k + a, a) # record_starts (p + unat k + unat a) rs"

definition lengths_ok :: "uint \<times> uint \<Rightarrow> bool" where
  "lengths_ok r \<longleftrightarrow> 4 \<le> fst r \<and> 2 \<le> snd r \<and> snd r < 65538 \<and> unat (fst r) + unat (snd r) < 2 ^ 32"

lemma store_lengths_frame:
  "\<forall>r \<in> set rs. lengths_ok r \<Longrightarrow> q < p \<Longrightarrow> store_lengths m p rs q = m q"
proof (induction m p rs rule: store_lengths.induct)
  case (2 m p k a rs)
  then show ?case
    by (auto simp: store_addon_length_def store_sortkey_length_def le2.store_frame le4.store_frame)
qed simp

text \<open>
  C18. When keys and fields are packed and the record of the sort is consistent: the lengths that
  are stored for any number of records behind each other, each with a key of at least 4 bytes and
  fields of at most 65537 bytes, are found again by walking from record to record, with the start,
  the length and the length of the fields of each.
\<close>

theorem packed_records_walk:
  assumes "m_packed_format sp" and "using_packed_addons sp = Some True"
    and "using_packed_sortkeys sp = Some True" and "\<forall>r \<in> set rs. lengths_ok r"
  shows "walk_records sp (store_lengths m p rs) p (length rs) = Some (record_starts p rs)"
  using assms(4)
proof (induction rs arbitrary: m p)
  case (Cons r rs)
  obtain k a where r: "r = (k, a)" by (cases r)
  have ok: "4 \<le> unat k" "2 \<le> unat a" "2 \<le> a" "a < 65538" "unat (k + a) = unat k + unat a"
    using Cons.prems unat_add_no_overflow [of k a] by (simp_all add: r lengths_ok_def word_le_nat_alt)
  have af: "using_addon_fields sp"
    using assms(2) by (auto simp: using_packed_addons_def using_addon_fields_def split: if_splits option.splits)
  let ?keyed = "store_sortkey_length m p k"
  let ?both = "store_addon_length ?keyed (p + unat k) a"
  let ?all = "store_lengths m p (r # rs)"
  have fr: "?all q = ?both q" if "q < p + unat k + unat a" for q
    using store_lengths_frame [of rs q "p + unat k + unat a" ?both] that Cons.prems by (simp add: r)
  have e4: "uint4korr ?all p = uint4korr ?keyed p"
    using ok by (intro le4.load_frame) (simp add: fr store_addon_length_def le2.store_frame)
  have k: "read_sortkey_length ?all p = k"
    unfolding read_sortkey_length_def e4 by (rule sortkey_length_back [unfolded read_sortkey_length_def])
  have e2: "uint2korr ?all (p + unat k) = uint2korr ?both (p + unat k)"
    using ok by (intro le2.load_frame) (simp add: fr)
  have a: "read_addon_length ?all (p + unat k) = a"
    unfolding read_addon_length_def e2
    by (rule addon_length_back_small [OF ok(3,4), unfolded read_addon_length_def])
  have "get_rec_and_res_len sp ?all p = Some (k + a, a)"
    using assms(1-3) af k a by (simp add: get_rec_and_res_len_def get_sort_length_def get_addon_length_def)
  moreover have "walk_records sp ?all (p + unat (k + a)) (length rs) = Some (record_starts (p + unat (k + a)) rs)"
    using Cons.IH [of ?both "p + unat (k + a)"] Cons.prems by (simp add: r ok add.assoc)
  ultimately show ?case by (simp add: r ok add.assoc)
qed simp

definition packed_param :: "unit sort_param" where
  "packed_param = sort_param_make
     \<lparr>sp_addon_fields := Some \<lparr>m_field_descriptors = [], m_addon_buf = 0, m_addon_buf_length = 0,
        af_using_packed = True\<rparr>,
      sp_sort_keys := map_option (set_using_packed_sortkeys True) (sort_keys_make 1),
      m_using_packed_addons := True, m_using_packed_sortkeys := True, m_packed_format := True\<rparr>"

theorem packed_records_walk_witness:
  "walk_records packed_param (store_lengths (\<lambda>_. 0) 100 [(6, 10), (4, 300)]) 100 (Suc (Suc 0)) =
     Some [(100, 16, 10), (116, 304, 300)]"
  using packed_records_walk [of packed_param "[(6, 10), (4, 300)]" "\<lambda>_. 0" 100]
  by (simp add: packed_param_def sort_param_make_def sort_keys_make_def set_using_packed_sortkeys_def
      using_packed_addons_def using_packed_sortkeys_def lengths_ok_def
      del: walk_records.simps store_lengths.simps)

section \<open>Merging the space of chunks\<close>

text \<open>
  Space of a chunk that is no longer in use is given to another chunk exactly when the two
  areas are adjacent, on either side: then the area of the other one becomes the union of both, its
  size and its number of keys become the sums, and an area that met neither does not meet it.
  Otherwise the other chunk does not change.
\<close>

theorem freed_space_is_joined:
  assumes "m_buffer_start this \<le> m_buffer_end this" and "m_buffer_start mc \<le> m_buffer_end mc"
  shows "(fst (merge_freed_buff this mc) \<longleftrightarrow>
      m_buffer_end mc = m_buffer_start this \<or> m_buffer_start mc = m_buffer_end this) \<and>
    (case merge_freed_buff this mc of
       (True, c) \<Rightarrow>
         {m_buffer_start c..<m_buffer_end c} =
           {m_buffer_start mc..<m_buffer_end mc} \<union> {m_buffer_start this..<m_buffer_end this} \<and>
         chunk_buffer_size c = chunk_buffer_size mc + chunk_buffer_size this \<and>
         m_max_keys c = m_max_keys mc + m_max_keys this \<and>
         (\<forall>x. x \<inter> {m_buffer_start mc..<m_buffer_end mc} = {} \<and>
              x \<inter> {m_buffer_start this..<m_buffer_end this} = {} \<longrightarrow>
              x \<inter> {m_buffer_start c..<m_buffer_end c} = {})
     | (False, c) \<Rightarrow> c = mc)"
proof -
  let ?c = "snd (merge_freed_buff this mc)"
  show ?thesis
  proof (cases "m_buffer_end mc = m_buffer_start this \<or> m_buffer_start mc = m_buffer_end this")
    case True
    have c: "merge_freed_buff this mc = (True, ?c)" using True by (auto simp: merge_freed_buff_def)
    have u: "{m_buffer_start ?c..<m_buffer_end ?c} =
        {m_buffer_start mc..<m_buffer_end mc} \<union> {m_buffer_start this..<m_buffer_end this}"
      using True assms by (auto simp: merge_freed_buff_def)
    have "chunk_buffer_size ?c = chunk_buffer_size mc + chunk_buffer_size this"
      "m_max_keys ?c = m_max_keys mc + m_max_keys this"
      using True by (auto simp: merge_freed_buff_def chunk_buffer_size_def)
    then show ?thesis using True u by (subst (1 2) c) (auto simp: Int_Un_distrib)
  next
    case False
    then show ?thesis by (auto simp: merge_freed_buff_def)
  qed
qed

theorem freed_space_is_joined_witness:
  "m_buffer_end (snd (merge_freed_buff (set_buffer 50 80 merge_chunk_make) (set_buffer 20 50 merge_chunk_make))) = 80"
proof -
  have "{20..<m_buffer_end (snd (merge_freed_buff (set_buffer 50 80 merge_chunk_make)
      (set_buffer 20 50 merge_chunk_make)))} = {20..<50} \<union> {50..<80 :: nat}"
    using freed_space_is_joined [of "set_buffer 50 80 merge_chunk_make" "set_buffer 20 50 merge_chunk_make"]
    by (simp add: merge_freed_buff_def set_buffer_def merge_chunk_make_def)
  also have "\<dots> = {20..<80}" by auto
  finally show ?thesis by (simp add: atLeastLessThan_eq_iff merge_freed_buff_def set_buffer_def merge_chunk_make_def)
qed

text \<open>The getters of a record agree on its length.\<close>

lemma record_length_agrees: "map_option fst (get_rec_and_res_len sp m p) = get_record_length sp m p"
  by (simp add: get_rec_and_res_len_def get_record_length_def map_option_bind comp_def)

end
