(* ===== verification/Matching.thy ===== *)
theory Matching
  imports Prelude "HOL-Library.Sublist"
begin

text \<open>
  The matching engine of the web application: \<^verbatim>\<open>includes/matching.php\<close> with \<^verbatim>\<open>notify_match_found\<close>
  and \<^verbatim>\<open>create_notification\<close> of \<^verbatim>\<open>includes/functions.php\<close>, on a database with the tables of
  \<^verbatim>\<open>database.sql\<close>. A PHP string is the list of its bytes; a table is the list of its rows. \<^verbatim>\<open>strtotime\<close>
  is a parameter (\<^const>\<open>None\<close> is PHP's false), as are the outcome of sending mail and whether the
  server runs in strict SQL mode, where too long a value is an error instead of being
  truncated. An operation that can throw returns whether it did, together with the database as
  it is then: every statement is committed on its own. Ids are natural numbers: their
  range is not modelled.
\<close>

section \<open>Strings\<close>

definition code :: "char \<Rightarrow> nat" where
  "code c = of_char c"

definition tolower :: "char \<Rightarrow> char" where
  "tolower c = (if 65 \<le> code c \<and> code c \<le> 90 then char_of (code c + 32) else c)"

definition strcasecmp_eq :: "string \<Rightarrow> string \<Rightarrow> bool" where
  "strcasecmp_eq a b \<longleftrightarrow> map tolower a = map tolower b"

definition is_space :: "char \<Rightarrow> bool" where
  "is_space c \<longleftrightarrow> 9 \<le> code c \<and> code c \<le> 13 \<or> code c = 32"

definition is_word_char :: "char \<Rightarrow> bool" where
  "is_word_char c \<longleftrightarrow> 97 \<le> code c \<and> code c \<le> 122 \<or> 48 \<le> code c \<and> code c \<le> 57"

definition is_trim :: "char \<Rightarrow> bool" where
  "is_trim c \<longleftrightarrow> code c \<in> {32, 9, 10, 13, 0, 11}"

definition trim :: "string \<Rightarrow> string" where
  "trim s = rev (dropWhile is_trim (rev (dropWhile is_trim s)))"

text \<open>\<^verbatim>\<open>empty($x)\<close> for a column that may be null.\<close>

definition php_empty :: "string option \<Rightarrow> bool" where
  "php_empty x \<longleftrightarrow> x = None \<or> x = Some '''' \<or> x = Some ''0''"

text \<open>\<^verbatim>\<open>preg_split('/\s+/', ..., PREG_SPLIT_NO_EMPTY)\<close>.\<close>

function split_words :: "string \<Rightarrow> string list" where
  "split_words [] = []"
| "split_words (c # cs) =
     (if is_space c then split_words cs
      else takeWhile (\<lambda>d. \<not> is_space d) (c # cs) # split_words (dropWhile (\<lambda>d. \<not> is_space d) (c # cs)))"
  by pat_completeness auto
termination
  by (relation "measure length") (auto simp: length_dropWhile_le less_Suc_eq_le)

definition stopwords :: "string list" where
  "stopwords = [''the'', ''a'', ''an'', ''is'', ''was'', ''my'', ''i'', ''it'', ''in'', ''on'', ''at'',
     ''of'', ''with'', ''and'', ''to'', ''for'', ''lost'', ''found'', ''near'']"

definition extract_keywords :: "string \<Rightarrow> string list" where
  "extract_keywords text =
     (let text = map tolower text;
          text = map (\<lambda>c. if is_word_char c \<or> is_space c then c else char_of (32 :: nat)) text;
          ws = split_words text
      in filter (\<lambda>w. w \<notin> set stopwords) ws)"

text \<open>\<^verbatim>\<open>array_intersect\<close> keeps the elements of the first array, duplicates included.\<close>

definition array_intersect :: "string list \<Rightarrow> string list \<Rightarrow> string list" where
  "array_intersect xs ys = filter (\<lambda>w. w \<in> set ys) xs"

section \<open>Rows\<close>

datatype item_status = Open | Matched | Resolved

text \<open>A row of \<^verbatim>\<open>lost_items\<close> or \<^verbatim>\<open>found_items\<close>; \<open>item_date\<close> is \<^verbatim>\<open>date_lost\<close> or \<^verbatim>\<open>date_found\<close>.\<close>

record item =
  item_id :: nat
  user_id :: nat
  item_name :: string
  category :: string
  description :: string
  color :: "string option"
  brand :: "string option"
  location :: string
  item_date :: string
  status :: item_status

record user =
  u_id :: nat
  full_name :: string
  email :: string

record match_row =
  match_id :: nat
  lost_item_id :: nat
  found_item_id :: nat
  match_score :: nat

text \<open>A notification: its receiver, its title (a fixed text with a name inserted), and the item it
  links to. A mail has such a text as its subject.\<close>

datatype notice = Similar_Found string | Match_For_Report string | Match_For_Item string

record notification =
  n_user :: nat
  n_notice :: notice
  n_link :: nat

record db =
  users :: "user list"
  lost_items :: "item list"
  found_items :: "item list"
  matches :: "match_row list"
  notifications :: "notification list"
  outbox :: "(string \<times> notice) list"
  next_match_id :: nat

definition MATCH_THRESHOLD :: nat where
  "MATCH_THRESHOLD = 55"

section \<open>Score\<close>

text \<open>\<^verbatim>\<open>round($overlap * 30)\<close> for \<open>c\<close> of \<open>n\<close> words: rounding half up.\<close>

definition round_overlap :: "nat \<Rightarrow> nat \<Rightarrow> nat" where
  "round_overlap c n = (60 * c + max n 1) div (2 * max n 1)"

text \<open>Comparison and arithmetic on the result of \<^verbatim>\<open>strtotime\<close>: with false on one side PHP compares
  truth values, and false counts as 0 in a difference.\<close>

definition date_true :: "int option \<Rightarrow> bool" where
  "date_true d \<longleftrightarrow> (case d of None \<Rightarrow> False | Some t \<Rightarrow> t \<noteq> 0)"

definition date_ge :: "int option \<Rightarrow> int option \<Rightarrow> bool" where
  "date_ge f l = (case (f, l) of (Some a, Some b) \<Rightarrow> a \<ge> b | _ \<Rightarrow> date_true l \<longrightarrow> date_true f)"

definition date_val :: "int option \<Rightarrow> int" where
  "date_val d = (case d of None \<Rightarrow> 0 | Some t \<Rightarrow> t)"

definition same_text :: "string option \<Rightarrow> string option \<Rightarrow> bool" where
  "same_text a b \<longleftrightarrow> \<not> php_empty a \<and> \<not> php_empty b \<and> strcasecmp_eq (trim (the a)) (trim (the b))"

definition calculate_match_score :: "(string \<Rightarrow> int option) \<Rightarrow> item \<Rightarrow> item \<Rightarrow> nat" where
  "calculate_match_score strtotime lost found =
     (let score = 0;
          score = (if strcasecmp_eq (category lost) (category found) then score + 30 else score);
          lostWords = extract_keywords (item_name lost @ '' '' @ description lost);
          foundWords = extract_keywords (item_name found @ '' '' @ description found);
          score = (if length lostWords > 0
                   then score + round_overlap (length (array_intersect lostWords foundWords))
                                  (length lostWords)
                   else score);
          score = (if same_text (color lost) (color found) then score + 10 else score);
          score = (if same_text (brand lost) (brand found) then score + 10 else score);
          lostLoc = extract_keywords (location lost);
          foundLoc = extract_keywords (location found);
          score = (if length lostLoc > 0
                   then if length (array_intersect lostLoc foundLoc) > 0 then score + 10 else score
                   else score);
          lostDate = strtotime (item_date lost);
          foundDate = strtotime (item_date found);
          score = (if date_ge foundDate lostDate
                   then let diff = date_val foundDate - date_val lostDate
                        in if diff \<le> 30 * 86400 then score + 10
                           else if diff \<le> 60 * 86400 then score + 5 else score
                   else score)
      in min score 100)"

section \<open>Notifications\<close>

text \<open>The length of a string in characters: UTF-8 continuation bytes do not count.\<close>

definition utf8_length :: "string \<Rightarrow> nat" where
  "utf8_length s = length (filter (\<lambda>c. \<not> (128 \<le> code c \<and> code c < 192)) s)"

text \<open>The fixed parts of the texts have 26, 38 and 36 characters.\<close>

definition title_length :: "notice \<Rightarrow> nat" where
  "title_length t = (case t of Similar_Found nm \<Rightarrow> 26 + utf8_length nm
                     | Match_For_Report nm \<Rightarrow> 38 + utf8_length nm
                     | Match_For_Item nm \<Rightarrow> 36 + utf8_length nm)"

text \<open>
  The column \<^verbatim>\<open>title\<close> holds 150 characters: a longer one is an error in strict mode. Otherwise the database cuts
  it, which the model, where a title is the kind of notice, does not show.
\<close>

definition create_notification :: "bool \<Rightarrow> db \<Rightarrow> nat \<Rightarrow> notice \<Rightarrow> nat \<Rightarrow> bool \<times> db" where
  "create_notification strict d userId title lnk =
     (if strict \<and> title_length title > 150 then (True, d)
      else (False, d\<lparr>notifications := notifications d @ [\<lparr>n_user = userId, n_notice = title, n_link = lnk\<rparr>]\<rparr>))"

definition send_email_notification :: "(string \<Rightarrow> bool) \<Rightarrow> db \<Rightarrow> string \<Rightarrow> notice \<Rightarrow> bool \<times> db" where
  "send_email_notification mail_ok d toEmail subject =
     (mail_ok toEmail, d\<lparr>outbox := outbox d @ [(toEmail, subject)]\<rparr>)"

definition find_user :: "db \<Rightarrow> nat \<Rightarrow> user option" where
  "find_user d i = find (\<lambda>u. u_id u = i) (users d)"

text \<open>Whether an exception was thrown, the result \<^verbatim>\<open>$allSent\<close>, and the database.\<close>

definition notify_user ::
  "bool \<Rightarrow> (string \<Rightarrow> bool) \<Rightarrow> db \<Rightarrow> bool \<Rightarrow> user \<Rightarrow> notice \<Rightarrow> notice \<Rightarrow> nat \<Rightarrow> bool \<times> bool \<times> db" where
  "notify_user strict mail_ok d allSent u title subject lnk =
     (case create_notification strict d (u_id u) title lnk of
        (True, d) \<Rightarrow> (True, allSent, d)
      | (False, d) \<Rightarrow>
          (case send_email_notification mail_ok d (email u) subject of
             (res, d) \<Rightarrow> (False, (if \<not> res then False else allSent), d)))"

definition notify_match_found ::
  "bool \<Rightarrow> (string \<Rightarrow> bool) \<Rightarrow> db \<Rightarrow> item \<Rightarrow> item \<Rightarrow> nat \<Rightarrow> bool \<times> bool \<times> db" where
  "notify_match_found strict mail_ok d lostItem foundItem matchScore =
     (let lostOwner = find_user d (user_id lostItem);
          finder = find_user d (user_id foundItem);
          (ex, allSent, d) =
            (case lostOwner of
               None \<Rightarrow> (False, True, d)
             | Some u \<Rightarrow> if \<not> php_empty (Some (email u))
                 then notify_user strict mail_ok d True u (Similar_Found (item_name lostItem))
                        (Similar_Found (item_name lostItem)) (item_id lostItem)
                 else (False, True, d))
      in if ex then (True, allSent, d)
         else case finder of
                None \<Rightarrow> (False, allSent, d)
              | Some u \<Rightarrow>
                  if \<not> php_empty (Some (email u)) \<and> (lostOwner = None \<or> u_id u \<noteq> u_id (the lostOwner))
                  then notify_user strict mail_ok d allSent u (Match_For_Report (item_name foundItem))
                         (Match_For_Item (item_name foundItem)) (item_id foundItem)
                  else (False, allSent, d))"

section \<open>Matching\<close>

definition set_matched :: "nat \<Rightarrow> item list \<Rightarrow> item list" where
  "set_matched i rows = map (\<lambda>r. if item_id r = i \<and> status r = Open then r\<lparr>status := Matched\<rparr> else r) rows"

definition evaluate_and_store_match ::
  "(string \<Rightarrow> int option) \<Rightarrow> bool \<Rightarrow> (string \<Rightarrow> bool) \<Rightarrow> db \<Rightarrow> item \<Rightarrow> item \<Rightarrow> bool \<times> db" where
  "evaluate_and_store_match strtotime strict mail_ok d lost found =
     (let score = calculate_match_score strtotime lost found
      in if score \<ge> MATCH_THRESHOLD
         then if find (\<lambda>m. lost_item_id m = item_id lost \<and> found_item_id m = item_id found) (matches d) = None
              then let d = d\<lparr>matches := matches d @ [\<lparr>match_id = next_match_id d,
                             lost_item_id = item_id lost, found_item_id = item_id found,
                             match_score = score\<rparr>],
                           next_match_id := next_match_id d + 1\<rparr>;
                       d = d\<lparr>lost_items := set_matched (item_id lost) (lost_items d)\<rparr>;
                       d = d\<lparr>found_items := set_matched (item_id found) (found_items d)\<rparr>;
                       (ex, sent, d) = notify_match_found strict mail_ok d lost found score
                   in (ex, d)
              else (False, d)
         else (False, d))"

fun match_lost_loop ::
  "(string \<Rightarrow> int option) \<Rightarrow> bool \<Rightarrow> (string \<Rightarrow> bool) \<Rightarrow> item \<Rightarrow> item list \<Rightarrow> db \<Rightarrow> bool \<times> db" where
  "match_lost_loop strtotime strict mail_ok lost [] d = (False, d)"
| "match_lost_loop strtotime strict mail_ok lost (found # fs) d =
     (case evaluate_and_store_match strtotime strict mail_ok d lost found of
        (True, d) \<Rightarrow> (True, d)
      | (False, d) \<Rightarrow> match_lost_loop strtotime strict mail_ok lost fs d)"

definition match_new_lost_item ::
  "(string \<Rightarrow> int option) \<Rightarrow> bool \<Rightarrow> (string \<Rightarrow> bool) \<Rightarrow> db \<Rightarrow> nat \<Rightarrow> bool \<times> db" where
  "match_new_lost_item strtotime strict mail_ok d lostItemId =
     (case find (\<lambda>r. item_id r = lostItemId) (lost_items d) of
        None \<Rightarrow> (False, d)
      | Some lost \<Rightarrow>
          match_lost_loop strtotime strict mail_ok lost
            (filter (\<lambda>r. status r \<noteq> Resolved) (found_items d)) d)"

fun match_found_loop ::
  "(string \<Rightarrow> int option) \<Rightarrow> bool \<Rightarrow> (string \<Rightarrow> bool) \<Rightarrow> item \<Rightarrow> item list \<Rightarrow> db \<Rightarrow> bool \<times> db" where
  "match_found_loop strtotime strict mail_ok found [] d = (False, d)"
| "match_found_loop strtotime strict mail_ok found (lost # ls) d =
     (case evaluate_and_store_match strtotime strict mail_ok d lost found of
        (True, d) \<Rightarrow> (True, d)
      | (False, d) \<Rightarrow> match_found_loop strtotime strict mail_ok found ls d)"

definition match_new_found_item ::
  "(string \<Rightarrow> int option) \<Rightarrow> bool \<Rightarrow> (string \<Rightarrow> bool) \<Rightarrow> db \<Rightarrow> nat \<Rightarrow> bool \<times> db" where
  "match_new_found_item strtotime strict mail_ok d foundItemId =
     (case find (\<lambda>r. item_id r = foundItemId) (found_items d) of
        None \<Rightarrow> (False, d)
      | Some found \<Rightarrow>
          match_found_loop strtotime strict mail_ok found
            (filter (\<lambda>r. status r \<noteq> Resolved) (lost_items d)) d)"

section \<open>Pages that change the tables\<close>

text \<open>Reporting an item inserts its row, with a new id and status open, and matches it.\<close>

definition report_lost ::
  "(string \<Rightarrow> int option) \<Rightarrow> bool \<Rightarrow> (string \<Rightarrow> bool) \<Rightarrow> db \<Rightarrow> item \<Rightarrow> bool \<times> db" where
  "report_lost strtotime strict mail_ok d row =
     match_new_lost_item strtotime strict mail_ok (d\<lparr>lost_items := lost_items d @ [row\<lparr>status := Open\<rparr>]\<rparr>)
       (item_id row)"

definition report_found ::
  "(string \<Rightarrow> int option) \<Rightarrow> bool \<Rightarrow> (string \<Rightarrow> bool) \<Rightarrow> db \<Rightarrow> item \<Rightarrow> bool \<times> db" where
  "report_found strtotime strict mail_ok d row =
     match_new_found_item strtotime strict mail_ok (d\<lparr>found_items := found_items d @ [row\<lparr>status := Open\<rparr>]\<rparr>)
       (item_id row)"

definition set_resolved :: "nat \<Rightarrow> item list \<Rightarrow> item list" where
  "set_resolved i rows = map (\<lambda>r. if item_id r = i then r\<lparr>status := Resolved\<rparr> else r) rows"

text \<open>The owner of an item marks it resolved.\<close>

definition resolve_lost :: "db \<Rightarrow> nat \<Rightarrow> nat option \<Rightarrow> db" where
  "resolve_lost d i current_user =
     (case find (\<lambda>r. item_id r = i) (lost_items d) of
        None \<Rightarrow> d
      | Some r \<Rightarrow> if current_user = Some (user_id r)
                  then d\<lparr>lost_items := set_resolved i (lost_items d)\<rparr> else d)"

definition resolve_found :: "db \<Rightarrow> nat \<Rightarrow> nat option \<Rightarrow> db" where
  "resolve_found d i current_user =
     (case find (\<lambda>r. item_id r = i) (found_items d) of
        None \<Rightarrow> d
      | Some r \<Rightarrow> if current_user = Some (user_id r)
                  then d\<lparr>found_items := set_resolved i (found_items d)\<rparr> else d)"

text \<open>Deleting rows in the administration page; the foreign keys delete the dependent rows.\<close>

definition delete_matches_where :: "(match_row \<Rightarrow> bool) \<Rightarrow> db \<Rightarrow> db" where
  "delete_matches_where P d = d\<lparr>matches := filter (\<lambda>m. \<not> P m) (matches d)\<rparr>"

definition delete_lost :: "db \<Rightarrow> nat \<Rightarrow> db" where
  "delete_lost d i =
     delete_matches_where (\<lambda>m. lost_item_id m = i)
       (d\<lparr>lost_items := filter (\<lambda>r. item_id r \<noteq> i) (lost_items d)\<rparr>)"

definition delete_found :: "db \<Rightarrow> nat \<Rightarrow> db" where
  "delete_found d i =
     delete_matches_where (\<lambda>m. found_item_id m = i)
       (d\<lparr>found_items := filter (\<lambda>r. item_id r \<noteq> i) (found_items d)\<rparr>)"

definition delete_match :: "db \<Rightarrow> nat \<Rightarrow> db" where
  "delete_match d i = delete_matches_where (\<lambda>m. match_id m = i) d"

definition delete_user :: "db \<Rightarrow> nat \<Rightarrow> db" where
  "delete_user d i =
     (let lost = map item_id (filter (\<lambda>r. user_id r = i) (lost_items d));
          found = map item_id (filter (\<lambda>r. user_id r = i) (found_items d))
      in delete_matches_where (\<lambda>m. lost_item_id m \<in> set lost \<or> found_item_id m \<in> set found)
           (d\<lparr>users := filter (\<lambda>u. u_id u \<noteq> i) (users d),
              lost_items := filter (\<lambda>r. user_id r \<noteq> i) (lost_items d),
              found_items := filter (\<lambda>r. user_id r \<noteq> i) (found_items d),
              notifications := filter (\<lambda>n. n_user n \<noteq> i) (notifications d)\<rparr>))"

text \<open>The requests that change items and matches. A new row has an unused id and an existing
  reporter.\<close>

inductive request :: "(string \<Rightarrow> int option) \<Rightarrow> bool \<Rightarrow> (string \<Rightarrow> bool) \<Rightarrow> db \<Rightarrow> db \<Rightarrow> bool"
  for strtotime strict mail_ok where
  lost: "item_id row \<notin> item_id ` set (lost_items d) \<Longrightarrow> user_id row \<in> u_id ` set (users d) \<Longrightarrow>
     request strtotime strict mail_ok d (snd (report_lost strtotime strict mail_ok d row))"
| found: "item_id row \<notin> item_id ` set (found_items d) \<Longrightarrow> user_id row \<in> u_id ` set (users d) \<Longrightarrow>
     request strtotime strict mail_ok d (snd (report_found strtotime strict mail_ok d row))"
| resolve_lost: "request strtotime strict mail_ok d (resolve_lost d i u)"
| resolve_found: "request strtotime strict mail_ok d (resolve_found d i u)"
| delete_lost: "request strtotime strict mail_ok d (delete_lost d i)"
| delete_found: "request strtotime strict mail_ok d (delete_found d i)"
| delete_match: "request strtotime strict mail_ok d (delete_match d i)"
| delete_user: "request strtotime strict mail_ok d (delete_user d i)"

definition empty_db :: "user list \<Rightarrow> db" where
  "empty_db us = \<lparr>users = us, lost_items = [], found_items = [], matches = [], notifications = [],
     outbox = [], next_match_id = 1\<rparr>"

inductive reachable :: "(string \<Rightarrow> int option) \<Rightarrow> bool \<Rightarrow> (string \<Rightarrow> bool) \<Rightarrow> db \<Rightarrow> bool"
  for strtotime strict mail_ok where
  init: "reachable strtotime strict mail_ok (empty_db us)"
| step: "reachable strtotime strict mail_ok d \<Longrightarrow> request strtotime strict mail_ok d d' \<Longrightarrow>
     reachable strtotime strict mail_ok d'"

section \<open>Keywords\<close>

lemma split_words_word:
  "w \<in> set (split_words s) \<Longrightarrow> w \<noteq> [] \<and> set w \<subseteq> set s \<and> (\<forall>c\<in>set w. \<not> is_space c)"
proof (induction s rule: split_words.induct)
  case (2 c cs)
  show ?case
  proof (cases "is_space c")
    case True
    then show ?thesis using 2(1) [OF True] 2(3) by auto
  next
    case False
    have sub: "set (dropWhile (\<lambda>d. \<not> is_space d) (c # cs)) \<subseteq> set (c # cs)" by (meson set_dropWhileD subsetI)
    show ?thesis
    proof (cases "w = takeWhile (\<lambda>d. \<not> is_space d) (c # cs)")
      case True
      then show ?thesis using False by (auto dest: set_takeWhileD)
    next
      case neq: False
      then have "w \<in> set (split_words (dropWhile (\<lambda>d. \<not> is_space d) (c # cs)))"
        using 2(3) False by simp
      then show ?thesis using 2(2) [OF False] sub by blast
    qed
  qed
qed simp

lemma space_is_space: "is_space (char_of (32 :: nat))" "is_space CHR '' ''"
  by (simp_all add: is_space_def code_def)

lemma word_char_not_space: "is_word_char c \<Longrightarrow> \<not> is_space c"
  by (auto simp: is_word_char_def is_space_def)

lemma word_char_tolower: "is_word_char c \<Longrightarrow> tolower c = c"
  by (auto simp: is_word_char_def tolower_def)

lemma split_words_Cons_word:
  assumes "w \<noteq> []" and "\<forall>c\<in>set w. \<not> is_space c" and "is_space b"
  shows "split_words (w @ b # rest) = w # split_words rest"
proof -
  obtain c cs where w: "w = c # cs" using assms(1) by (cases w) auto
  have "takeWhile (\<lambda>d. \<not> is_space d) (w @ b # rest) = w" "dropWhile (\<lambda>d. \<not> is_space d) (w @ b # rest) = b # rest"
    using assms(2,3) by (simp_all add: takeWhile_append2 dropWhile_append2)
  then show ?thesis using assms(2,3) by (simp add: w)
qed

definition join_words :: "string list \<Rightarrow> string" where
  "join_words ws = concat (map (\<lambda>w. w @ '' '') ws)"

lemma split_join_words:
  "\<forall>w\<in>set ws. w \<noteq> [] \<and> (\<forall>c\<in>set w. \<not> is_space c) \<Longrightarrow> split_words (join_words ws) = ws"
proof (induction ws)
  case (Cons w ws)
  then show ?case
    using split_words_Cons_word [of w "CHR '' ''" "join_words ws"]
    by (simp add: join_words_def space_is_space)
qed (simp add: join_words_def)

lemma extract_keywords_word:
  assumes "w \<in> set (extract_keywords s)"
  shows "w \<noteq> []" and "\<forall>c\<in>set w. is_word_char c" and "w \<notin> set stopwords"
proof -
  let ?t = "map (\<lambda>c. if is_word_char c \<or> is_space c then c else char_of (32 :: nat)) (map tolower s)"
  have w: "w \<in> set (split_words ?t)" "w \<notin> set stopwords"
    using assms by (auto simp: extract_keywords_def Let_def)
  have "is_word_char c \<or> is_space c" if "c \<in> set ?t" for c
    using that by (auto simp: space_is_space)
  then show "w \<noteq> []" "\<forall>c\<in>set w. is_word_char c" "w \<notin> set stopwords"
    using split_words_word [OF w(1)] w(2) by blast+
qed

lemma extract_join_words:
  assumes "\<forall>w\<in>set ws. w \<noteq> [] \<and> (\<forall>c\<in>set w. is_word_char c) \<and> w \<notin> set stopwords"
  shows "extract_keywords (join_words ws) = ws"
proof -
  have keep: "tolower c = c" "is_word_char c \<or> is_space c" if "c \<in> set (join_words ws)" for c
  proof -
    have "is_word_char c \<or> c = CHR '' ''" using that assms by (auto simp: join_words_def split: if_splits)
    moreover have "tolower CHR '' '' = CHR '' ''" by (simp add: tolower_def code_def)
    ultimately show "tolower c = c" "is_word_char c \<or> is_space c"
      using word_char_tolower space_is_space by auto
  qed
  have "map (\<lambda>c. if is_word_char c \<or> is_space c then c else char_of (32 :: nat))
      (map tolower (join_words ws)) = join_words ws"
    using keep by (auto intro!: map_idI)
  moreover have "split_words (join_words ws) = ws"
    using assms word_char_not_space by (intro split_join_words) blast
  ultimately show ?thesis
    using assms by (simp add: extract_keywords_def Let_def filter_id_conv del: map_map)
qed

text \<open>
  Keyword extraction: every keyword is a non-empty sequence of lower case letters and digits
  and not a stop word, and extracting again from the keywords written with spaces between them
  gives the same list: nothing is lost and nothing is split further.
\<close>

theorem extract_keywords_normal_form:
  "(\<forall>w \<in> set (extract_keywords s). w \<noteq> [] \<and> (\<forall>c \<in> set w. is_word_char c) \<and> w \<notin> set stopwords) \<and>
   extract_keywords (join_words (extract_keywords s)) = extract_keywords s"
  using extract_keywords_word [of _ s] extract_join_words [of "extract_keywords s"] by blast

theorem extract_keywords_normal_form_witness:
  "extract_keywords ''The BLACK-Bag, near gate 2'' = [''black'', ''bag'', ''gate'', ''2''] \<and>
   extract_keywords (join_words [''black'', ''bag'', ''gate'', ''2'']) = [''black'', ''bag'', ''gate'', ''2'']"
proof -
  have "extract_keywords ''The BLACK-Bag, near gate 2'' = [''black'', ''bag'', ''gate'', ''2'']"
    by code_simp
  then show ?thesis
    using extract_keywords_normal_form [of "''The BLACK-Bag, near gate 2''"] by simp
qed

section \<open>Properties of the score\<close>

lemma round_overlap_le:
  assumes "c \<le> n"
  shows "round_overlap c n \<le> 30"
proof -
  define k where "k = max n 1"
  have "60 * c + k < 31 * (2 * k)" using assms by (auto simp: k_def)
  then have "(60 * c + k) div (2 * k) < 31" by (simp add: div_less_iff_less_mult k_def)
  then show ?thesis by (simp add: round_overlap_def k_def)
qed

lemma round_overlap_all: "0 < n \<Longrightarrow> round_overlap n n = 30"
proof -
  assume "0 < n"
  then have "max n 1 = n" by simp
  then have "round_overlap n n = (n + 30 * (2 * n)) div (2 * n)"
    unfolding round_overlap_def by (simp add: algebra_simps)
  also have "\<dots> = 30" using \<open>0 < n\<close> by (simp del: mult_Suc_right)
  finally show ?thesis .
qed

lemma round_overlap_ge: "0 < n \<Longrightarrow> k \<le> round_overlap c n \<longleftrightarrow> 2 * k * n \<le> 60 * c + n"
proof -
  assume "0 < n"
  then have "max n 1 = n" by simp
  then show ?thesis
    using \<open>0 < n\<close> unfolding round_overlap_def by (simp add: less_eq_div_iff_mult_less_eq algebra_simps)
qed

lemma intersect_length: "length (array_intersect xs ys) \<le> length xs"
  by (simp add: array_intersect_def)

definition keyword_points :: "string list \<Rightarrow> string list \<Rightarrow> nat" where
  "keyword_points lw fw =
     (if lw = [] then 0 else round_overlap (length (array_intersect lw fw)) (length lw))"

definition date_points :: "int option \<Rightarrow> int option \<Rightarrow> nat" where
  "date_points l f =
     (if date_ge f l
      then if date_val f - date_val l \<le> 30 * 86400 then 10
           else if date_val f - date_val l \<le> 60 * 86400 then 5 else 0
      else 0)"

lemma keyword_points_le: "keyword_points lw fw \<le> 30"
  by (simp add: keyword_points_def round_overlap_le intersect_length)

lemma points_if:
  "(if b then s + k else s) = s + (if b then k else (0 :: nat))"
  "(if b then s + x else s + y) = s + (if b then x else (y :: nat))"
  by simp_all

text \<open>The score is the sum of the points of the six criteria: the final minimum never cuts.\<close>

lemma score_sum:
  "calculate_match_score strtotime l f =
     (if strcasecmp_eq (category l) (category f) then 30 else 0) +
     keyword_points (extract_keywords (item_name l @ '' '' @ description l))
       (extract_keywords (item_name f @ '' '' @ description f)) +
     (if same_text (color l) (color f) then 10 else 0) +
     (if same_text (brand l) (brand f) then 10 else 0) +
     (if array_intersect (extract_keywords (location l)) (extract_keywords (location f)) \<noteq> [] then 10 else 0) +
     date_points (strtotime (item_date l)) (strtotime (item_date f))"
proof -
  define lw where "lw = extract_keywords (item_name l @ '' '' @ description l)"
  define fw where "fw = extract_keywords (item_name f @ '' '' @ description f)"
  define ll where "ll = extract_keywords (location l)"
  define fl where "fl = extract_keywords (location f)"
  have kw: "(if length lw > 0 then round_overlap (length (array_intersect lw fw)) (length lw) else 0) =
      keyword_points lw fw" by (simp add: keyword_points_def)
  have loc: "(if length ll > 0 then if length (array_intersect ll fl) > 0 then 10 else 0 else 0) =
      (if array_intersect ll fl \<noteq> [] then 10 else (0 :: nat))" by (auto simp: array_intersect_def)
  have "keyword_points lw fw \<le> 30" by (rule keyword_points_le)
  moreover have "date_points (strtotime (item_date l)) (strtotime (item_date f)) \<le> 10"
    by (simp add: date_points_def)
  ultimately show ?thesis
    unfolding calculate_match_score_def Let_def points_if lw_def [symmetric] fw_def [symmetric]
      ll_def [symmetric] fl_def [symmetric] kw loc date_points_def [symmetric]
    by simp
qed

text \<open>
  C3. The score: it never exceeds 100; a report that agrees in everything (category, all
  keywords of the lost item, colour, brand, a word of the location, found within 30 days) scores
  100; without the same category a match needs nearly half of the keywords of the lost item;
  and category, location and date alone never make a match.
\<close>

theorem match_score_meaning:
  "let s = calculate_match_score strtotime l f;
       lw = extract_keywords (item_name l @ '' '' @ description l);
       fw = extract_keywords (item_name f @ '' '' @ description f);
       cat = strcasecmp_eq (category l) (category f);
       col = same_text (color l) (color f); br = same_text (brand l) (brand f);
       loc = array_intersect (extract_keywords (location l)) (extract_keywords (location f)) \<noteq> [];
       lt = strtotime (item_date l); ft = strtotime (item_date f)
   in s \<le> 100 \<and>
      (cat \<and> lw \<noteq> [] \<and> set lw \<subseteq> set fw \<and> col \<and> br \<and> loc \<and> date_ge ft lt \<and>
         date_val ft - date_val lt \<le> 30 * 86400 \<longrightarrow> s = 100) \<and>
      (\<not> cat \<and> MATCH_THRESHOLD \<le> s \<longrightarrow> 29 * length lw \<le> 60 * length (array_intersect lw fw)) \<and>
      (array_intersect lw fw = [] \<and> \<not> col \<and> \<not> br \<longrightarrow> s < MATCH_THRESHOLD)"
proof -
  define lw where "lw = extract_keywords (item_name l @ '' '' @ description l)"
  define fw where "fw = extract_keywords (item_name f @ '' '' @ description f)"
  define dp where "dp = date_points (strtotime (item_date l)) (strtotime (item_date f))"
  note sum = score_sum [of strtotime l f, folded lw_def fw_def dp_def]
  have kp: "keyword_points lw fw \<le> 30" by (rule keyword_points_le)
  have dp: "dp \<le> 10" by (simp add: dp_def date_points_def)
  have all: "keyword_points lw fw = 30" if "lw \<noteq> []" "set lw \<subseteq> set fw"
  proof -
    have "array_intersect lw fw = lw" using that(2) by (auto simp: array_intersect_def filter_id_conv)
    then show ?thesis using that(1) by (simp add: keyword_points_def round_overlap_all)
  qed
  have none: "keyword_points lw fw = 0" if "array_intersect lw fw = []"
    using that round_overlap_ge [of "length lw" 1 0] by (auto simp: keyword_points_def)
  have half: "29 * length lw \<le> 60 * length (array_intersect lw fw)" if "15 \<le> keyword_points lw fw"
  proof (cases "lw = []")
    case False
    then show ?thesis
      using that round_overlap_ge [of "length lw" 15 "length (array_intersect lw fw)"]
      by (simp add: keyword_points_def)
  qed simp
  have date10: "dp = 10" if "date_ge (strtotime (item_date f)) (strtotime (item_date l))"
      "date_val (strtotime (item_date f)) - date_val (strtotime (item_date l)) \<le> 30 * 86400"
    using that by (simp add: dp_def date_points_def)
  show ?thesis
    unfolding Let_def lw_def [symmetric] fw_def [symmetric]
  proof (intro conjI impI; (elim conjE)?)
    show "calculate_match_score strtotime l f \<le> 100" using sum kp dp by simp
    show "calculate_match_score strtotime l f = 100"
      if "strcasecmp_eq (category l) (category f)" "lw \<noteq> []" "set lw \<subseteq> set fw"
        "same_text (color l) (color f)" "same_text (brand l) (brand f)"
        "array_intersect (extract_keywords (location l)) (extract_keywords (location f)) \<noteq> []"
        "date_ge (strtotime (item_date f)) (strtotime (item_date l))"
        "date_val (strtotime (item_date f)) - date_val (strtotime (item_date l)) \<le> 30 * 86400"
      using that sum all date10 by simp
    show "29 * length lw \<le> 60 * length (array_intersect lw fw)"
      if "\<not> strcasecmp_eq (category l) (category f)" "MATCH_THRESHOLD \<le> calculate_match_score strtotime l f"
      using that sum dp by (intro half) (simp add: MATCH_THRESHOLD_def split: if_splits)
    show "calculate_match_score strtotime l f < MATCH_THRESHOLD"
      if "array_intersect lw fw = []" "\<not> same_text (color l) (color f)" "\<not> same_text (brand l) (brand f)"
      using that sum none dp by (simp add: MATCH_THRESHOLD_def)
  qed
qed

definition sample_lost :: item where
  "sample_lost = \<lparr>item_id = 1, user_id = 1, item_name = ''Black Bag'', category = ''Bag / Backpack'',
     description = ''with two books'', color = Some ''black'', brand = Some ''Acer'', location = ''Annex 5'',
     item_date = ''2025-01-01'', status = Open\<rparr>"

definition sample_found :: item where
  "sample_found = \<lparr>item_id = 1, user_id = 2, item_name = ''bag'', category = ''Keys'',
     description = ''black, books inside'', color = Some ''Black '', brand = Some ''ACER'',
     location = ''annex 5 lobby'', item_date = ''2025-01-03'', status = Open\<rparr>"

text \<open>A stand-in for \<^verbatim>\<open>strtotime\<close> on the two sample dates.\<close>

definition sample_strtotime :: "string \<Rightarrow> int option" where
  "sample_strtotime s = (if s = ''2025-01-01'' then Some 1735689600
     else if s = ''2025-01-03'' then Some 1735862400 else None)"

theorem match_score_meaning_witness:
  "calculate_match_score sample_strtotime sample_lost sample_found = 63 \<and>
   \<not> strcasecmp_eq (category sample_lost) (category sample_found) \<and>
   (let lw = extract_keywords (item_name sample_lost @ '' '' @ description sample_lost);
        fw = extract_keywords (item_name sample_found @ '' '' @ description sample_found)
    in 29 * length lw \<le> 60 * length (array_intersect lw fw))"
proof -
  have s: "calculate_match_score sample_strtotime sample_lost sample_found = 63" by code_simp
  have c: "\<not> strcasecmp_eq (category sample_lost) (category sample_found)" by code_simp
  have t: "MATCH_THRESHOLD \<le> calculate_match_score sample_strtotime sample_lost sample_found"
    by (simp add: s MATCH_THRESHOLD_def)
  show ?thesis
    using match_score_meaning [of sample_strtotime sample_lost sample_found] s c t
    unfolding Let_def by blast
qed

section \<open>Effect of one comparison\<close>

text \<open>Notifying adds notifications and mails only.\<close>

definition only_notices :: "db \<Rightarrow> db \<Rightarrow> bool" where
  "only_notices d d' \<longleftrightarrow> users d' = users d \<and> lost_items d' = lost_items d \<and>
     found_items d' = found_items d \<and> matches d' = matches d \<and> next_match_id d' = next_match_id d \<and>
     prefix (notifications d) (notifications d') \<and> prefix (outbox d) (outbox d')"

lemma notify_user_only: "only_notices d (snd (snd (notify_user strict mail_ok d s u t b i)))"
  by (auto simp: only_notices_def notify_user_def create_notification_def send_email_notification_def)

lemma only_notices_trans: "only_notices d d' \<Longrightarrow> only_notices d' d'' \<Longrightarrow> only_notices d d''"
  by (auto simp: only_notices_def intro: prefix_order.trans)

lemma only_notices_refl: "only_notices d d"
  by (simp add: only_notices_def)

lemma notify_only: "only_notices d (snd (snd (notify_match_found strict mail_ok d l f s)))"
proof -
  define r where "r = (case find_user d (user_id l) of
       None \<Rightarrow> (False, True, d)
     | Some u \<Rightarrow> if \<not> php_empty (Some (email u))
         then notify_user strict mail_ok d True u (Similar_Found (item_name l)) (Similar_Found (item_name l)) (item_id l)
         else (False, True, d))"
  obtain ex sent d1 where r: "r = (ex, sent, d1)" by (cases r)
  have "only_notices d (snd (snd r))"
    by (auto simp: r_def only_notices_refl notify_user_only split: option.split)
  then have "only_notices d d1" by (simp add: r)
  moreover have "only_notices d1 (snd (snd (notify_match_found strict mail_ok d l f s)))"
    unfolding notify_match_found_def r_def [symmetric] Let_def r
    by (auto simp: only_notices_refl notify_user_only split: option.split)
  ultimately show ?thesis by (rule only_notices_trans)
qed

definition has_match :: "db \<Rightarrow> nat \<Rightarrow> nat \<Rightarrow> bool" where
  "has_match d i j \<longleftrightarrow> (\<exists>m\<in>set (matches d). lost_item_id m = i \<and> found_item_id m = j)"

lemma has_match_find:
  "find (\<lambda>m. lost_item_id m = i \<and> found_item_id m = j) (matches d) = None \<longleftrightarrow> \<not> has_match d i j"
  by (auto simp: has_match_def find_None_iff)

text \<open>Whether a comparison stores a match, and the tables after it.\<close>

definition stores :: "(string \<Rightarrow> int option) \<Rightarrow> db \<Rightarrow> item \<Rightarrow> item \<Rightarrow> bool" where
  "stores strtotime d l f \<longleftrightarrow>
     MATCH_THRESHOLD \<le> calculate_match_score strtotime l f \<and> \<not> has_match d (item_id l) (item_id f)"

lemma evaluate_skip:
  "\<not> stores strtotime d l f \<Longrightarrow> evaluate_and_store_match strtotime strict mail_ok d l f = (False, d)"
  by (auto simp: evaluate_and_store_match_def stores_def has_match_find Let_def)

lemma evaluate_store:
  fixes strict :: bool and mail_ok :: "string \<Rightarrow> bool"
  assumes "stores strtotime d l f"
  defines "d' \<equiv> snd (evaluate_and_store_match strtotime strict mail_ok d l f)"
  shows "matches d' = matches d @ [\<lparr>match_id = next_match_id d, lost_item_id = item_id l,
           found_item_id = item_id f, match_score = calculate_match_score strtotime l f\<rparr>]"
    and "lost_items d' = set_matched (item_id l) (lost_items d)"
    and "found_items d' = set_matched (item_id f) (found_items d)" and "users d' = users d"
    and "next_match_id d' = next_match_id d + 1"
proof -
  define d1 where "d1 = d\<lparr>matches := matches d @ [\<lparr>match_id = next_match_id d, lost_item_id = item_id l,
        found_item_id = item_id f, match_score = calculate_match_score strtotime l f\<rparr>],
      next_match_id := next_match_id d + 1, lost_items := set_matched (item_id l) (lost_items d),
      found_items := set_matched (item_id f) (found_items d)\<rparr>"
  have "d' = snd (snd (notify_match_found strict mail_ok d1 l f (calculate_match_score strtotime l f)))"
    using assms(1)
    by (simp add: d'_def evaluate_and_store_match_def stores_def has_match_find Let_def d1_def
        case_prod_unfold)
  then have "only_notices d1 d'" using notify_only by simp
  then show "matches d' = matches d @ [\<lparr>match_id = next_match_id d, lost_item_id = item_id l,
           found_item_id = item_id f, match_score = calculate_match_score strtotime l f\<rparr>]"
    "lost_items d' = set_matched (item_id l) (lost_items d)"
    "found_items d' = set_matched (item_id f) (found_items d)" "users d' = users d"
    "next_match_id d' = next_match_id d + 1"
    by (simp_all add: only_notices_def d1_def)
qed

section \<open>Loops that stop at an exception\<close>

text \<open>The contract of the two loops over reports: each element is processed by \<open>step\<close>, and an
  exception leaves the loop.\<close>

locale throwing_loop =
  fixes step :: "'x \<Rightarrow> 'd \<Rightarrow> bool \<times> 'd" and loop :: "'x list \<Rightarrow> 'd \<Rightarrow> bool \<times> 'd"
  assumes loop_Nil: "loop [] d = (False, d)"
    and loop_Cons: "loop (x # xs) d =
      (if fst (step x d) then (True, snd (step x d)) else loop xs (snd (step x d)))"
begin

lemma loop_invariant:
  assumes "\<And>x d. x \<in> set xs \<Longrightarrow> I d \<Longrightarrow> I (snd (step x d))" and "I d"
  shows "I (snd (loop xs d))"
  using assms by (induction xs arbitrary: d) (simp_all add: loop_Nil loop_Cons)

lemma loop_reaches_all:
  assumes "\<not> fst (loop xs d)" and "\<And>x d. x \<in> set xs \<Longrightarrow> \<not> fst (step x d) \<Longrightarrow> P x (snd (step x d))"
    and keep: "\<And>x y d. P x d \<Longrightarrow> P x (snd (step y d))" and "x \<in> set xs"
  shows "P x (snd (loop xs d))"
  using assms(1,2,4)
proof (induction xs arbitrary: d)
  case (Cons y ys)
  have ok: "\<not> fst (step y d)" "loop (y # ys) d = loop ys (snd (step y d))"
    using Cons.prems(1) by (auto simp: loop_Cons split: if_splits)
  show ?case
  proof (cases "x \<in> set ys")
    case True
    then show ?thesis using Cons.IH [of "snd (step y d)"] Cons.prems ok by simp
  next
    case False
    then have "P x (snd (step y d))" using Cons.prems ok by auto
    then have "P x (snd (loop ys (snd (step y d))))"
      by (rule loop_invariant [where I = "P x", rotated]) (rule keep)
    then show ?thesis using ok by simp
  qed
qed simp

lemma loop_no_exception:
  assumes "\<And>x d. x \<in> set xs \<Longrightarrow> \<not> fst (step x d)"
  shows "\<not> fst (loop xs d)"
  using assms by (induction xs arbitrary: d) (simp_all add: loop_Nil loop_Cons)

lemma loop_stops:
  assumes "\<forall>x\<in>set xs. step x d = (False, d)" and "fst (step y d)"
  shows "loop (xs @ y # ys) d = (True, snd (step y d))"
  using assms by (induction xs) (simp_all add: loop_Cons)

end

interpretation lost_loop: throwing_loop
    "\<lambda>f d. evaluate_and_store_match strtotime strict mail_ok d l f"
    "match_lost_loop strtotime strict mail_ok l" for strtotime strict mail_ok l
  by unfold_locales (simp_all split: prod.split bool.split)

interpretation found_loop: throwing_loop
    "\<lambda>l d. evaluate_and_store_match strtotime strict mail_ok d l f"
    "match_found_loop strtotime strict mail_ok f" for strtotime strict mail_ok f
  by unfold_locales (simp_all split: prod.split bool.split)

section \<open>The invariant of the tables\<close>

definition db_inv :: "db \<Rightarrow> bool" where
  "db_inv d \<longleftrightarrow>
     distinct (map item_id (lost_items d)) \<and> distinct (map item_id (found_items d)) \<and>
     distinct (map (\<lambda>m. (lost_item_id m, found_item_id m)) (matches d)) \<and>
     (\<forall>m\<in>set (matches d). MATCH_THRESHOLD \<le> match_score m \<and> match_score m \<le> 100 \<and>
        lost_item_id m \<in> item_id ` set (lost_items d) \<and> found_item_id m \<in> item_id ` set (found_items d)) \<and>
     (\<forall>r\<in>set (lost_items d). status r = Open \<longrightarrow> (\<forall>m\<in>set (matches d). lost_item_id m \<noteq> item_id r)) \<and>
     (\<forall>r\<in>set (found_items d). status r = Open \<longrightarrow> (\<forall>m\<in>set (matches d). found_item_id m \<noteq> item_id r))"

lemma set_matched_ids [simp]: "map item_id (set_matched i rows) = map item_id rows"
  by (auto simp: set_matched_def)

lemma set_matched_ids_set [simp]: "item_id ` set (set_matched i rows) = item_id ` set rows"
  by (metis set_map set_matched_ids)

lemma set_matched_open:
  "r \<in> set (set_matched i rows) \<Longrightarrow> status r = Open \<Longrightarrow> r \<in> set rows \<and> item_id r \<noteq> i"
  by (auto simp: set_matched_def split: if_splits)

lemma score_le_100: "calculate_match_score strtotime l f \<le> 100"
  unfolding calculate_match_score_def Let_def by (rule min.cobounded2)

lemma evaluate_ids:
  "map item_id (lost_items (snd (evaluate_and_store_match strtotime strict mail_ok d l f))) =
     map item_id (lost_items d)"
  "map item_id (found_items (snd (evaluate_and_store_match strtotime strict mail_ok d l f))) =
     map item_id (found_items d)"
  by (cases "stores strtotime d l f"; simp add: evaluate_skip evaluate_store)+

lemma evaluate_inv:
  assumes inv: "db_inv d" and ids: "item_id l \<in> item_id ` set (lost_items d)"
    "item_id f \<in> item_id ` set (found_items d)"
  shows "db_inv (snd (evaluate_and_store_match strtotime strict mail_ok d l f))"
proof (cases "stores strtotime d l f")
  case True
  let ?d = "snd (evaluate_and_store_match strtotime strict mail_ok d l f)"
  note st = evaluate_store [OF True, of strict mail_ok]
  have new: "MATCH_THRESHOLD \<le> calculate_match_score strtotime l f"
    "(item_id l, item_id f) \<notin> set (map (\<lambda>m. (lost_item_id m, found_item_id m)) (matches d))"
    using True by (auto simp: stores_def has_match_def)
  show ?thesis
    unfolding db_inv_def st
  proof (intro conjI ballI impI)
    fix r m
    assume "r \<in> set (set_matched (item_id l) (lost_items d))" "status r = Open"
      "m \<in> set (matches d @ [\<lparr>match_id = next_match_id d, lost_item_id = item_id l,
         found_item_id = item_id f, match_score = calculate_match_score strtotime l f\<rparr>])"
    then show "lost_item_id m \<noteq> item_id r"
      using set_matched_open [of r "item_id l" "lost_items d"] inv by (auto simp: db_inv_def)
  next
    fix r m
    assume "r \<in> set (set_matched (item_id f) (found_items d))" "status r = Open"
      "m \<in> set (matches d @ [\<lparr>match_id = next_match_id d, lost_item_id = item_id l,
         found_item_id = item_id f, match_score = calculate_match_score strtotime l f\<rparr>])"
    then show "found_item_id m \<noteq> item_id r"
      using set_matched_open [of r "item_id f" "found_items d"] inv by (auto simp: db_inv_def)
  qed (use inv ids new score_le_100 in \<open>auto simp: db_inv_def\<close>)
qed (simp add: evaluate_skip inv)

definition inv_with_ids :: "nat list \<Rightarrow> nat list \<Rightarrow> db \<Rightarrow> bool" where
  "inv_with_ids li fi d \<longleftrightarrow> db_inv d \<and> map item_id (lost_items d) = li \<and> map item_id (found_items d) = fi"

lemma evaluate_inv_with_ids:
  assumes "inv_with_ids li fi d" and "item_id l \<in> set li" and "item_id f \<in> set fi"
  shows "inv_with_ids li fi (snd (evaluate_and_store_match strtotime strict mail_ok d l f))"
proof -
  have "item_id l \<in> item_id ` set (lost_items d)" "item_id f \<in> item_id ` set (found_items d)"
    using assms by (auto simp: inv_with_ids_def simp flip: set_map)
  then show ?thesis
    using assms(1) evaluate_inv evaluate_ids by (simp add: inv_with_ids_def)
qed

lemma match_new_lost_inv:
  assumes "db_inv d"
  shows "db_inv (snd (match_new_lost_item strtotime strict mail_ok d i))"
proof (cases "find (\<lambda>r. item_id r = i) (lost_items d)")
  case None
  then show ?thesis using assms by (simp add: match_new_lost_item_def)
next
  case (Some l)
  let ?li = "map item_id (lost_items d)" and ?fi = "map item_id (found_items d)"
  have l: "item_id l \<in> set ?li" using Some by (auto simp: find_Some_iff)
  have "inv_with_ids ?li ?fi (snd (match_lost_loop strtotime strict mail_ok l
      (filter (\<lambda>r. status r \<noteq> Resolved) (found_items d)) d))"
  proof (rule lost_loop.loop_invariant)
    fix f d1
    assume "f \<in> set (filter (\<lambda>r. status r \<noteq> Resolved) (found_items d))" "inv_with_ids ?li ?fi d1"
    then show "inv_with_ids ?li ?fi (snd (evaluate_and_store_match strtotime strict mail_ok d1 l f))"
      using l by (intro evaluate_inv_with_ids) auto
  qed (use assms in \<open>simp add: inv_with_ids_def\<close>)
  then show ?thesis using Some by (simp add: match_new_lost_item_def inv_with_ids_def)
qed

lemma match_new_found_inv:
  assumes "db_inv d"
  shows "db_inv (snd (match_new_found_item strtotime strict mail_ok d i))"
proof (cases "find (\<lambda>r. item_id r = i) (found_items d)")
  case None
  then show ?thesis using assms by (simp add: match_new_found_item_def)
next
  case (Some f)
  let ?li = "map item_id (lost_items d)" and ?fi = "map item_id (found_items d)"
  have f: "item_id f \<in> set ?fi" using Some by (auto simp: find_Some_iff)
  have "inv_with_ids ?li ?fi (snd (match_found_loop strtotime strict mail_ok f
      (filter (\<lambda>r. status r \<noteq> Resolved) (lost_items d)) d))"
  proof (rule found_loop.loop_invariant)
    fix l d1
    assume "l \<in> set (filter (\<lambda>r. status r \<noteq> Resolved) (lost_items d))" "inv_with_ids ?li ?fi d1"
    then show "inv_with_ids ?li ?fi (snd (evaluate_and_store_match strtotime strict mail_ok d1 l f))"
      using f by (intro evaluate_inv_with_ids) auto
  qed (use assms in \<open>simp add: inv_with_ids_def\<close>)
  then show ?thesis using Some by (simp add: match_new_found_item_def inv_with_ids_def)
qed

lemma set_resolved_ids [simp]: "map item_id (set_resolved i rows) = map item_id rows"
  by (auto simp: set_resolved_def)

lemma set_resolved_ids_set [simp]: "item_id ` set (set_resolved i rows) = item_id ` set rows"
  by (metis set_map set_resolved_ids)

lemma set_resolved_open: "r \<in> set (set_resolved i rows) \<Longrightarrow> status r = Open \<Longrightarrow> r \<in> set rows"
  by (auto simp: set_resolved_def split: if_splits)

lemma inv_restrict:
  assumes "db_inv d" and "lost_items d' = filter P (lost_items d)"
    and "found_items d' = filter Q (found_items d)" and "matches d' = filter R (matches d)"
    and "\<And>m. m \<in> set (matches d) \<Longrightarrow> R m \<Longrightarrow> (\<exists>r\<in>set (lost_items d). item_id r = lost_item_id m \<and> P r) \<and>
       (\<exists>r\<in>set (found_items d). item_id r = found_item_id m \<and> Q r)"
  shows "db_inv d'"
proof -
  show ?thesis
    unfolding db_inv_def assms(2-4)
  proof (intro conjI ballI impI)
    fix m
    assume "m \<in> set (filter R (matches d))"
    then show "lost_item_id m \<in> item_id ` set (filter P (lost_items d))"
      "found_item_id m \<in> item_id ` set (filter Q (found_items d))"
      using assms(5) [of m] by (auto simp: image_iff eq_commute)
  qed (use assms(1) in \<open>auto simp: db_inv_def intro: distinct_map_filter\<close>)
qed

lemma match_rows:
  assumes "db_inv d" and "m \<in> set (matches d)"
  shows "\<exists>r\<in>set (lost_items d). item_id r = lost_item_id m"
    and "\<exists>r\<in>set (found_items d). item_id r = found_item_id m"
proof -
  have "lost_item_id m \<in> item_id ` set (lost_items d)" "found_item_id m \<in> item_id ` set (found_items d)"
    using assms unfolding db_inv_def by blast+
  then show "\<exists>r\<in>set (lost_items d). item_id r = lost_item_id m"
    "\<exists>r\<in>set (found_items d). item_id r = found_item_id m" by force+
qed

lemma request_inv:
  assumes "request strtotime strict mail_ok d d'" and inv: "db_inv d"
  shows "db_inv d'"
  using assms(1)
proof cases
  case (lost row)
  have "db_inv (d\<lparr>lost_items := lost_items d @ [row\<lparr>status := Open\<rparr>]\<rparr>)"
  proof -
    have "\<forall>m\<in>set (matches d). lost_item_id m \<noteq> item_id row"
      using inv lost(2) unfolding db_inv_def by metis
    then show ?thesis using inv lost(2) by (auto simp: db_inv_def)
  qed
  then show ?thesis unfolding lost(1) report_lost_def by (rule match_new_lost_inv)
next
  case (found row)
  have "db_inv (d\<lparr>found_items := found_items d @ [row\<lparr>status := Open\<rparr>]\<rparr>)"
  proof -
    have "\<forall>m\<in>set (matches d). found_item_id m \<noteq> item_id row"
      using inv found(2) unfolding db_inv_def by metis
    then show ?thesis using inv found(2) by (auto simp: db_inv_def)
  qed
  then show ?thesis unfolding found(1) report_found_def by (rule match_new_found_inv)
next
  case (resolve_lost i u)
  have "db_inv (d\<lparr>lost_items := set_resolved i (lost_items d)\<rparr>)"
    using inv by (auto simp: db_inv_def dest: set_resolved_open)
  then show ?thesis using inv by (simp add: resolve_lost resolve_lost_def split: option.split)
next
  case (resolve_found i u)
  have "db_inv (d\<lparr>found_items := set_resolved i (found_items d)\<rparr>)"
    using inv by (auto simp: db_inv_def dest: set_resolved_open)
  then show ?thesis using inv by (simp add: resolve_found resolve_found_def split: option.split)
next
  case (delete_lost i)
  show ?thesis
    unfolding delete_lost
    by (rule inv_restrict [OF inv, where P = "\<lambda>r. item_id r \<noteq> i" and Q = "\<lambda>r. True"
          and R = "\<lambda>m. lost_item_id m \<noteq> i"])
      (use match_rows [OF inv] in \<open>fastforce simp: delete_lost_def delete_matches_where_def\<close>)+
next
  case (delete_found i)
  show ?thesis
    unfolding delete_found
    by (rule inv_restrict [OF inv, where P = "\<lambda>r. True" and Q = "\<lambda>r. item_id r \<noteq> i"
          and R = "\<lambda>m. found_item_id m \<noteq> i"])
      (use match_rows [OF inv] in \<open>fastforce simp: delete_found_def delete_matches_where_def\<close>)+
next
  case (delete_match i)
  show ?thesis
    unfolding delete_match
    by (rule inv_restrict [OF inv, where P = "\<lambda>r. True" and Q = "\<lambda>r. True" and R = "\<lambda>m. match_id m \<noteq> i"])
      (use match_rows [OF inv] in \<open>fastforce simp: delete_match_def delete_matches_where_def\<close>)+
next
  case (delete_user i)
  let ?R = "\<lambda>m. \<not> (lost_item_id m \<in> item_id ` {r \<in> set (lost_items d). user_id r = i} \<or>
      found_item_id m \<in> item_id ` {r \<in> set (found_items d). user_id r = i})"
  show ?thesis
    unfolding delete_user
  proof (rule inv_restrict [OF inv, where P = "\<lambda>r. user_id r \<noteq> i" and Q = "\<lambda>r. user_id r \<noteq> i" and R = ?R])
    fix m
    assume m: "m \<in> set (matches d)" "?R m"
    obtain r s where "r \<in> set (lost_items d)" "item_id r = lost_item_id m"
        "s \<in> set (found_items d)" "item_id s = found_item_id m"
      using match_rows [OF inv m(1)] by blast
    moreover from this have "user_id r \<noteq> i" "user_id s \<noteq> i" using m(2) by force+
    ultimately show "(\<exists>r\<in>set (lost_items d). item_id r = lost_item_id m \<and> user_id r \<noteq> i) \<and>
       (\<exists>r\<in>set (found_items d). item_id r = found_item_id m \<and> user_id r \<noteq> i)" by blast
  qed (simp_all add: delete_user_def delete_matches_where_def Let_def)
qed

text \<open>
  C1. In every database the application can reach by reports, resolutions and deletions, also
  when exceptions interrupt the matching: no pair of items is matched twice, every match has a
  score from the threshold to 100 and refers to existing items, ids are unique, and an item
  that is still open has no match.
\<close>

theorem reachable_tables_consistent:
  assumes "reachable strtotime strict mail_ok d"
  shows "db_inv d"
  using assms
proof (induction rule: reachable.induct)
  case (init us)
  show ?case by (simp add: db_inv_def empty_db_def)
next
  case (step d d')
  from request_inv [OF step(2,3)] show ?case .
qed

theorem reachable_tables_consistent_witness:
  "reachable sample_strtotime True (\<lambda>_. True)
     (snd (report_lost sample_strtotime True (\<lambda>_. True) (empty_db [\<lparr>u_id = 1, full_name = ''A'', email = ''a@b''\<rparr>]) sample_lost)) \<and>
   db_inv (snd (report_lost sample_strtotime True (\<lambda>_. True) (empty_db [\<lparr>u_id = 1, full_name = ''A'', email = ''a@b''\<rparr>]) sample_lost))"
proof -
  have r: "reachable sample_strtotime True (\<lambda>_. True)
      (snd (report_lost sample_strtotime True (\<lambda>_. True) (empty_db [\<lparr>u_id = 1, full_name = ''A'', email = ''a@b''\<rparr>]) sample_lost))"
    by (rule reachable.step [OF reachable.init request.lost]) (simp_all add: empty_db_def sample_lost_def)
  then show ?thesis using reachable_tables_consistent by blast
qed

section \<open>Completeness of the matching\<close>

lemma evaluate_matches_prefix:
  "prefix (matches d) (matches (snd (evaluate_and_store_match strtotime strict mail_ok d l f)))"
  by (cases "stores strtotime d l f") (simp_all add: evaluate_skip evaluate_store)

lemma has_match_mono: "prefix (matches d) (matches d') \<Longrightarrow> has_match d i j \<Longrightarrow> has_match d' i j"
  by (auto simp: has_match_def prefix_def)

lemma evaluate_has_match:
  assumes "MATCH_THRESHOLD \<le> calculate_match_score strtotime l f"
  shows "has_match (snd (evaluate_and_store_match strtotime strict mail_ok d l f)) (item_id l) (item_id f)"
proof (cases "stores strtotime d l f")
  case True
  then show ?thesis by (simp add: has_match_def evaluate_store)
next
  case False
  then show ?thesis using assms by (simp add: evaluate_skip stores_def)
qed

text \<open>Which titles fit into the column.\<close>

definition titles_fit :: "item \<Rightarrow> item \<Rightarrow> bool" where
  "titles_fit l f \<longleftrightarrow> utf8_length (item_name l) \<le> 124 \<and> utf8_length (item_name f) \<le> 112"

lemma notify_user_fits: "title_length t \<le> 150 \<Longrightarrow> \<not> fst (notify_user strict mail_ok d s u t b i)"
  by (auto simp: notify_user_def create_notification_def send_email_notification_def)

lemma notify_fits:
  assumes "\<not> strict \<or> titles_fit l f"
  shows "\<not> fst (notify_match_found strict mail_ok d l f s)"
proof -
  have n: "\<not> fst (notify_user strict mail_ok d s u (Similar_Found (item_name l)) b i)"
    "\<not> fst (notify_user strict mail_ok d s u (Match_For_Report (item_name f)) b i)" for d s u b i
    using assms notify_user_fits
    by (auto simp: titles_fit_def title_length_def notify_user_def create_notification_def
        send_email_notification_def)
  show ?thesis
    unfolding notify_match_found_def Let_def
    by (auto simp: n case_prod_unfold split: option.split)
qed

lemma evaluate_fits:
  "\<not> strict \<or> titles_fit l f \<Longrightarrow> \<not> fst (evaluate_and_store_match strtotime strict mail_ok d l f)"
  using notify_fits by (auto simp: evaluate_and_store_match_def Let_def case_prod_unfold)

lemma evaluate_throws:
  assumes "stores strtotime d l f" and "find_user d (user_id l) = Some u" and "\<not> php_empty (Some (email u))"
    and "strict" and "124 < utf8_length (item_name l)"
  shows "fst (evaluate_and_store_match strtotime strict mail_ok d l f)"
  using assms
  by (simp add: evaluate_and_store_match_def stores_def has_match_find Let_def notify_match_found_def
      find_user_def notify_user_def create_notification_def title_length_def)

text \<open>
  C2. Matching a new lost report: unless an exception interrupts it, every found item that is not
  resolved and scores at least the threshold has a match with it afterwards; existing matches are
  kept and each new one belongs to such an item and carries its score. No exception can occur when
  the names leave room for the fixed part of the notification titles (or outside strict SQL mode).
  But in strict mode, when the name has more than 124 characters and the report's owner has an
  e-mail address, the first item that gives a new match ends the matching with an exception: the
  items before it gave none, its match is the only one added, and the tables are left as that one
  comparison leaves them, so that the remaining items are not examined.
\<close>

theorem match_new_lost_complete:
  assumes "find (\<lambda>r. item_id r = i) (lost_items d) = Some l"
  shows "let (ex, d') = match_new_lost_item strtotime strict mail_ok d i
    in (\<not> ex \<longrightarrow> (\<forall>f \<in> set (found_items d). status f \<noteq> Resolved \<and>
          MATCH_THRESHOLD \<le> calculate_match_score strtotime l f \<longrightarrow> has_match d' i (item_id f))) \<and>
       prefix (matches d) (matches d') \<and>
       (\<forall>m \<in> set (matches d'). m \<in> set (matches d) \<or>
          (\<exists>f \<in> set (found_items d). status f \<noteq> Resolved \<and> lost_item_id m = i \<and>
             found_item_id m = item_id f \<and> match_score m = calculate_match_score strtotime l f \<and>
             MATCH_THRESHOLD \<le> match_score m)) \<and>
       (\<not> strict \<or> (\<forall>f \<in> set (found_items d). titles_fit l f) \<longrightarrow> \<not> ex) \<and>
       (strict \<and> 124 < utf8_length (item_name l) \<and>
          find_user d (user_id l) = Some u \<and> \<not> php_empty (Some (email u)) \<and>
          filter (\<lambda>r. status r \<noteq> Resolved) (found_items d) = xs @ f0 # ys \<and>
          (\<forall>f \<in> set xs. \<not> stores strtotime d l f) \<and> stores strtotime d l f0 \<longrightarrow>
        ex \<and> d' = snd (evaluate_and_store_match strtotime strict mail_ok d l f0) \<and>
        matches d' = matches d @ [\<lparr>match_id = next_match_id d, lost_item_id = i,
           found_item_id = item_id f0, match_score = calculate_match_score strtotime l f0\<rparr>])"
proof -
  let ?fs = "filter (\<lambda>r. status r \<noteq> Resolved) (found_items d)"
  let ?r = "match_lost_loop strtotime strict mail_ok l ?fs d"
  have res: "match_new_lost_item strtotime strict mail_ok d i = ?r"
    by (simp add: match_new_lost_item_def assms)
  have id: "item_id l = i" using assms by (auto simp: find_Some_iff)
  have complete: "has_match (snd ?r) i (item_id f)"
    if "\<not> fst ?r" "f \<in> set ?fs" "MATCH_THRESHOLD \<le> calculate_match_score strtotime l f" for f
  proof -
    have "MATCH_THRESHOLD \<le> calculate_match_score strtotime l f \<longrightarrow> has_match (snd ?r) (item_id l) (item_id f)"
      by (rule lost_loop.loop_reaches_all [OF that(1) _ _ that(2)])
        (auto intro: evaluate_has_match has_match_mono [OF evaluate_matches_prefix])
    then show ?thesis using that(3) id by simp
  qed
  define good where "good m \<longleftrightarrow> m \<in> set (matches d) \<or> (\<exists>f\<in>set (found_items d). status f \<noteq> Resolved \<and>
      lost_item_id m = i \<and> found_item_id m = item_id f \<and>
      match_score m = calculate_match_score strtotime l f \<and> MATCH_THRESHOLD \<le> match_score m)" for m
  have "prefix (matches d) (matches (snd ?r)) \<and> (\<forall>m\<in>set (matches (snd ?r)). good m)"
  proof (rule lost_loop.loop_invariant)
    fix f and d1 :: db
    assume f: "f \<in> set ?fs" and d1: "prefix (matches d) (matches d1) \<and> (\<forall>m\<in>set (matches d1). good m)"
    let ?d2 = "snd (evaluate_and_store_match strtotime strict mail_ok d1 l f)"
    have "good m" if "m \<in> set (matches ?d2)" for m
      using that d1 f id
      by (cases "stores strtotime d1 l f")
        (auto simp: evaluate_skip evaluate_store good_def stores_def)
    then show "prefix (matches d) (matches ?d2) \<and> (\<forall>m\<in>set (matches ?d2). good m)"
      using d1 evaluate_matches_prefix prefix_order.trans by blast
  qed (simp add: good_def)
  moreover have "\<not> fst ?r" if "\<not> strict \<or> (\<forall>f\<in>set (found_items d). titles_fit l f)"
    using that by (intro lost_loop.loop_no_exception evaluate_fits) auto
  moreover have "?r = (True, snd (evaluate_and_store_match strtotime strict mail_ok d l f0))"
    if "strict" "124 < utf8_length (item_name l)" "find_user d (user_id l) = Some u"
      "\<not> php_empty (Some (email u))" "?fs = xs @ f0 # ys"
      "\<forall>f \<in> set xs. \<not> stores strtotime d l f" "stores strtotime d l f0"
  proof -
    have "fst (evaluate_and_store_match strtotime strict mail_ok d l f0)"
      using that by (intro evaluate_throws) assumption+
    moreover have "\<forall>f \<in> set xs. evaluate_and_store_match strtotime strict mail_ok d l f = (False, d)"
      using that(6) evaluate_skip by blast
    ultimately show ?thesis unfolding that(5) by (rule lost_loop.loop_stops [rotated])
  qed
  ultimately show ?thesis
    using complete evaluate_store(1) id unfolding res good_def case_prod_unfold Let_def by auto
qed

definition sample_db :: db where
  "sample_db = (empty_db [\<lparr>u_id = 1, full_name = ''A'', email = ''a@b''\<rparr>])
     \<lparr>lost_items := [sample_lost], found_items := [sample_found]\<rparr>"

theorem match_new_lost_complete_witness:
  "\<not> fst (match_new_lost_item sample_strtotime True (\<lambda>_. True) sample_db 1) \<and>
   has_match (snd (match_new_lost_item sample_strtotime True (\<lambda>_. True) sample_db 1)) 1 1"
proof -
  have l: "find (\<lambda>r. item_id r = 1) (lost_items sample_db) = Some sample_lost"
    by (simp add: sample_db_def sample_lost_def)
  have f: "found_items sample_db = [sample_found]" by (simp add: sample_db_def)
  have t: "titles_fit sample_lost sample_found" by code_simp
  have s: "MATCH_THRESHOLD \<le> calculate_match_score sample_strtotime sample_lost sample_found" by code_simp
  have st: "status sample_found \<noteq> Resolved" "item_id sample_found = 1" by (simp_all add: sample_found_def)
  show ?thesis
    using match_new_lost_complete [OF l, of sample_strtotime True "\<lambda>_. True"] t s st
    unfolding f case_prod_unfold Let_def by simp
qed

end
