(* ===== verification/Spec2Isabelle.thy ===== *)
theory Spec2Isabelle
  imports My_Bit Sql_Bitmap Sql_Type_Int Privilege Sql_Basic_Types Lifo_Buffer Sql_List Sql_I_List
    Ilist Byte_Order Sql_Plist Hash_Filo Array_Views Mem_Root_Array Sql_Limit Sql_String String_Owner
    Lex_String Thread_Cache Tranx_Allocator Sel_Arg Window_Func
    Sql_Statistics Query_Tables Lex_Input Fixed_Bin Temporal Spatial Loose_Scan Auto_Values Filesort Matching
begin

text \<open>
  Verification of the AIUB Lost-and-Found application.

  The repository holds two things: the web application itself, written in PHP
  (\<^verbatim>\<open>aiub-lost-and-found/\<close>), and the MariaDB package it runs on, of which the C and C++ headers
  (\<^verbatim>\<open>mariadb/include/mysql/server/\<close>) are the program text. The application stores reports of
  lost and found items in database tables and matches each new report with the open reports of
  the other kind; the server's headers contain the data structures and the arithmetic on which
  statements are executed. Most files of the headers are declarations whose functions are defined in
  files that are not part of the package; the development models the headers that carry their code.

  \<^bold>\<open>How the code is modelled.\<close> C integers are words of their width, so that sums wrap as in C; a pointer
  is a natural number and 0 is \<^verbatim>\<open>NULL\<close>. Memory that is accessed by byte is a function from addresses to
  bytes (\<^verbatim>\<open>memory\<close>); linked structures live in an explicit store, a record of functions from addresses to
  the members of the nodes, which the operations take and return. An operation that can fail an assertion,
  read outside of an object, or throw returns an option. A loop whose end depends on the data is a partial
  function with values in option, so that a theorem which says that it returns a value says that it ends; the
  other loops recurse on a length, with a measure where that is needed. Loops over a fixed
  number of words are recursions on the index. Two recursions have fuel: the loop of \<^verbatim>\<open>my_find_first_bit\<close>
  over the sixteen nibbles of a word has sixteen steps, and a word that is not 0 has a nibble that ends it; \<^verbatim>\<open>drain\<close>
  of \<^verbatim>\<open>Lifo_Buffer\<close>, which reads a buffer to its end, gets one step more than the buffer has elements. What is
  proved of them is that they return a value. \<^verbatim>\<open>ulong\<close> and \<^verbatim>\<open>long\<close> have 32 bits and pointers 64, as on the
  platform of the package.

  \<^bold>\<open>The application.\<close>
  \<^item> \<^verbatim>\<open>Matching\<close>: \<^verbatim>\<open>includes/matching.php\<close>, the notifications of \<^verbatim>\<open>includes/functions.php\<close>, and the
    pages that change items (\<^verbatim>\<open>report-lost.php\<close>, \<^verbatim>\<open>report-found.php\<close>, \<^verbatim>\<open>item-details.php\<close>,
    \<^verbatim>\<open>admin/dashboard.php\<close>), on the tables of \<^verbatim>\<open>database.sql\<close>. The state is a record of tables with
    the counters of their keys; each request is a function on it, and \<^verbatim>\<open>reachable\<close> is the closure of the
    requests. The lemmas show the normal form of keywords, the meaning of a score, the effect of one
    comparison, the invariant of the tables (keys, references, at most one match of each pair) and that a new
    report is compared with every candidate, or up to the first new match when that throws. The interpretations \<^verbatim>\<open>lost_loop\<close> and \<^verbatim>\<open>found_loop\<close> of the
    locale \<^verbatim>\<open>throwing_loop\<close> share what holds of a loop that an exception ends. Parameters: \<^verbatim>\<open>strtotime\<close>,
    the outcome of sending a mail, and strict mode of the database.

  \<^bold>\<open>Bits and numbers.\<close>
  \<^item> \<^verbatim>\<open>Prelude\<close>: the machine types, named collections of facts, lemmas on words, lists and quantifiers over an
    index range, and the locales \<^verbatim>\<open>three_way\<close> (a comparison that orders by a number) and \<^verbatim>\<open>flag_set\<close>
    (bitwise operators on a type of flags), which later theories interpret.
  \<^item> \<^verbatim>\<open>My_Bit\<close>: \<^verbatim>\<open>my_bit.h\<close>. Logarithms, population count, rounding to a power of two, bit reversal with its
    table as a parameter, each with the number it computes.
  \<^item> \<^verbatim>\<open>Sql_Bitmap\<close>: \<^verbatim>\<open>sql_bitmap.h\<close>. A bitmap is a list of 64-bit words and denotes a set of numbers below its
    width; the locale \<^verbatim>\<open>bit_set\<close> is the interface of a set of bits, interpreted by the bitmap's operations.
    Iterators enumerate the set in increasing order.
  \<^item> \<^verbatim>\<open>Sql_Type_Int\<close>: \<^verbatim>\<open>sql_type_int.h\<close>. Integers with a NULL flag and integers that are signed or unsigned,
    with the number each denotes; comparison, negation, absolute value and multiplication with overflow.
  \<^item> \<^verbatim>\<open>Privilege\<close>: \<^verbatim>\<open>privilege.h\<close>. The enumeration as 64-bit words, every named combination, and the packing of the
    rights of databases, tables, columns and procedures as interpretations of the locale \<^verbatim>\<open>rights_packing\<close>.
  \<^item> \<^verbatim>\<open>Sql_Basic_Types\<close>: \<^verbatim>\<open>sql_basic_types.h\<close>. Date conversion and rounding modes, with their operators.
  \<^item> \<^verbatim>\<open>Byte_Order\<close>: \<^verbatim>\<open>myisampack.h\<close>, \<^verbatim>\<open>byte_order_generic.h\<close> with its x86 variants, \<^verbatim>\<open>little_endian.h\<close>,
    \<^verbatim>\<open>big_endian.h\<close>. The locale \<^verbatim>\<open>byte_codec\<close> is the contract of a reader and a writer of \<^verbatim>\<open>n\<close> bytes, and
    \<^verbatim>\<open>high_first\<close> extends it to keys that compare bytewise; every width in every order interprets them.
  \<^item> \<^verbatim>\<open>Sql_Limit\<close>: \<^verbatim>\<open>sql_limit.h\<close>. The counters of LIMIT and the window of row numbers between them.

  \<^bold>\<open>Lists.\<close>
  \<^item> \<^verbatim>\<open>Sql_List\<close>: \<^verbatim>\<open>base_list\<close>, its iterators, \<^verbatim>\<open>List\<close> and \<^verbatim>\<open>bubble_sort\<close> of \<^verbatim>\<open>sql_list.h\<close>. A slot
    is the member of a list or of a node that holds a pointer; a chain of slots represents a sequence. The
    locale \<^verbatim>\<open>list_update\<close> is the contract of an operation that changes one list and leaves the others alone;
    pushes and pop interpret it. Other lemmas treat splicing, editing while iterating, traversal and sorting.
  \<^item> \<^verbatim>\<open>Sql_I_List\<close>: \<^verbatim>\<open>SQL_I_List\<close>, \<^verbatim>\<open>ilink\<close> and \<^verbatim>\<open>base_ilist\<close> of the same header, as chains linked through a
    member of the elements, and as doubly linked chains with a sentinel.
  \<^item> \<^verbatim>\<open>Ilist\<close>: \<^verbatim>\<open>ilist.h\<close>. Circular lists through a sentinel, as rings.
  \<^item> \<^verbatim>\<open>Sql_Plist\<close>: \<^verbatim>\<open>sql_plist.h\<close>. Lists with policies (counting, fast push back); the locale
    \<^verbatim>\<open>plist_update\<close> lifts an operation on one list to a store that holds several.
  \<^item> \<^verbatim>\<open>Hash_Filo\<close>: \<^verbatim>\<open>hash_filo.h\<close>. The cache refines a list of limited length, most recent first. The hash
    table of \<^verbatim>\<open>mysys\<close> is a parameter with its documented laws, and a witness gives a table that has them.

  \<^bold>\<open>Memory and buffers.\<close>
  \<^item> \<^verbatim>\<open>Lifo_Buffer\<close>: \<^verbatim>\<open>sql_lifo_buffer.h\<close>. Two buffers that grow towards each other in one piece of memory; the
    locale \<^verbatim>\<open>lifo_reader\<close> is shared by reading a buffer and by its iterator. \<^verbatim>\<open>my_qsort2\<close> is a parameter.
  \<^item> \<^verbatim>\<open>Mem_Root_Array\<close>: \<^verbatim>\<open>mem_root_array.h\<close>. A growing array refines a sequence; \<^verbatim>\<open>alloc_root\<close> is a
    parameter, and the area of the elements is as large as what was asked of it. An element may be passed by a
    reference into the array itself.
  \<^item> \<^verbatim>\<open>Array_Views\<close>: \<^verbatim>\<open>span.h\<close> and \<^verbatim>\<open>Bounds_checked_array\<close> of \<^verbatim>\<open>sql_array.h\<close>, both interpretations of
    \<^verbatim>\<open>checked_view\<close>.
  \<^item> \<^verbatim>\<open>Tranx_Allocator\<close>: \<^verbatim>\<open>Tranx_node_allocator\<close> of \<^verbatim>\<open>semisync_master.h\<close>. A list of blocks of sixteen nodes
    refines a queue of nodes; allocation, freeing and the reserve of blocks. \<^verbatim>\<open>my_malloc\<close> is the argument that
    holds the address of the new block, or 0.
  \<^item> \<^verbatim>\<open>Sql_String\<close>: \<^verbatim>\<open>sql_string.h\<close>. \<^verbatim>\<open>Binary_string\<close> and the parts of \<^verbatim>\<open>String\<close> whose bodies are in the
    header. Lengths are 32-bit words; \<^verbatim>\<open>content\<close> is the text of an object, and sequences of appends
    refine concatenation. The allocating functions, and \<^verbatim>\<open>append\<close> with a conversion between character
    sets, are parameters with laws; the locale \<^verbatim>\<open>text_append\<close> holds what follows for text, and its
    interpretation \<^verbatim>\<open>plain\<close> is the append of the class.
  \<^item> \<^verbatim>\<open>String_Owner\<close>: a pool of such objects that set, copy, swap, move and release buffers; every block has
    exactly one owner, and moving, swapping and releasing pass it on.
  \<^item> \<^verbatim>\<open>Lex_String\<close>: \<^verbatim>\<open>lex_string.h\<close>. Trimming and comparing strings that refer to the text of others.

  \<^item> \<^verbatim>\<open>Filesort\<close>: \<^verbatim>\<open>filesort_utils.h\<close> and \<^verbatim>\<open>sql_sort.h\<close>. The buffer of a sort holds records from its start and
    their pointers from its end; \<^verbatim>\<open>filled\<close> is its invariant, which each record that is added while the buffer
    is not full keeps. The lengths in packed records are read back by walking over them; the space of chunks
    is joined when it is adjacent. Allocation and the merging itself are not in the headers.

  \<^bold>\<open>Range optimizer.\<close>
  \<^item> \<^verbatim>\<open>Sel_Arg\<close>: \<^verbatim>\<open>SEL_ARG\<close> and \<^verbatim>\<open>QUICK_RANGE\<close> of \<^verbatim>\<open>opt_range.h\<close>. An interval denotes a set of values of a
    linear order, and the operations on intervals are operations on these sets, for any comparison of ends with
    \<^verbatim>\<open>sel_cmp_law\<close>. A graph of intervals represents a chain (\<^verbatim>\<open>crep\<close>, \<^verbatim>\<open>rooted\<close>), which states a condition on
    tuples (\<^verbatim>\<open>sat\<close>); the keys that \<^verbatim>\<open>store_min_key\<close> and \<^verbatim>\<open>store_max_key\<close> write consist of as many ends of its first
    parts as they may (\<^verbatim>\<open>first_ends\<close>) and bound all tuples that satisfy it. The two functions call each other and are one partial function with a side. The comment at line 833 of the header
    shows an index with mixed directions; \<^verbatim>\<open>sel_arg_start_key_loses_rows\<close> shows where the code departs.

  \<^item> \<^verbatim>\<open>Loose_Scan\<close>: \<^verbatim>\<open>Loose_scan_opt\<close> of \<^verbatim>\<open>opt_subselect.h\<close>. The maps of equalities and key parts are words, read as
    sets by \<^verbatim>\<open>covered\<close>; any sequence of calls keeps the first cheapest of the plans it is offered. What the
    optimizer knows of tables and indexes is an argument.

  \<^bold>\<open>Statements.\<close>
  \<^item> \<^verbatim>\<open>Lex_Input\<close>: \<^verbatim>\<open>Lex_input_stream\<close> of \<^verbatim>\<open>sql_lex.h\<close>. The raw and the pre-processed buffer are lists with
    positions, and each access is checked against them. The locale \<^verbatim>\<open>lex_reader\<close> is the contract of a function
    that reads some bytes, and \<^verbatim>\<open>char_reader\<close> of one that reads a byte; sequences of calls copy what they read
    while echo is on. The scanner itself and the conversion to utf8 are not in the header.
  \<^item> \<^verbatim>\<open>Query_Tables\<close>: \<^verbatim>\<open>Query_tables_list\<close> of the same header. The chain of the tables of a statement represents
    a sequence (\<^verbatim>\<open>tables_rep\<close>), of which prelocking adds and chops off the rear. The marks of a statement are
    two interpretations of the locale \<^verbatim>\<open>marks\<close>, sets of flags in a word. The table \<^verbatim>\<open>binlog_unsafe_map\<close> is a
    parameter.
  \<^item> \<^verbatim>\<open>Sql_Statistics\<close>: \<^verbatim>\<open>sql_statistics.h\<close>. Histograms are bytes in memory; \<^verbatim>\<open>find_bucket\<close>, a search by halves
    with a measure, is compared with a scan of the buckets. The conversions between doubles and integers are
    parameters, and one that is undefined in C is \<^const>\<open>None\<close>.

  \<^item> \<^verbatim>\<open>Auto_Values\<close>: the next value of a sequence (\<^verbatim>\<open>sql_sequence.h\<close>), with signed overflow as \<^const>\<open>None\<close>, and the
    intervals of generated values with their list (\<^verbatim>\<open>structs.h\<close>), which stand for arithmetic progressions.

  \<^bold>\<open>Data types.\<close>
  \<^item> \<^verbatim>\<open>Fixed_Bin\<close>: \<^verbatim>\<open>sql_type_fixedbin.h\<close> and \<^verbatim>\<open>sql_type_fixedbin_storage.h\<close>, the templates of types such as INET6.
    The class a template is instantiated with is a record of functions, with the locale \<^verbatim>\<open>fbt_storage\<close> as its
    contract, and \<^verbatim>\<open>fbt_type\<close> where the records are ordered as the values, interpreted on \<^verbatim>\<open>FixedBinTypeStorage\<close> and on a type with another form in the record; an item is what
    its virtual methods return at some moment, and \<^verbatim>\<open>runs_as\<close> relates its preparation to an execution.
  \<^item> \<^verbatim>\<open>Temporal\<close>: dates and times of \<^verbatim>\<open>my_time.h\<close> and \<^verbatim>\<open>sql_type.h\<close>. The functions with bodies elsewhere are the
    record \<^verbatim>\<open>time_lib\<close>, with \<^verbatim>\<open>powers\<close> and \<^verbatim>\<open>conversions_ok\<close> for what the code relies on. The locale \<^verbatim>\<open>nano_carry\<close>
    is the contract of the four methods that add nanoseconds with rounding.
  \<^item> \<^verbatim>\<open>Spatial\<close>: bounding rectangles and the checks of stored geometries (\<^verbatim>\<open>spatial.h\<close>), and the reader of their text
    (\<^verbatim>\<open>gstream.h\<close>). A rectangle denotes a set of points; the locale \<^verbatim>\<open>box_test\<close> is the contract of a test that is
    a relation of these sets, and four tests interpret it. \<^verbatim>\<open>mbr_touches_not_symmetric\<close> shows where \<^verbatim>\<open>touches\<close>
    is not one.

  \<^bold>\<open>Window functions.\<close>
  \<^item> \<^verbatim>\<open>Window_Func\<close>: \<^verbatim>\<open>item_windowfunc.h\<close>. Each function is a record with \<^verbatim>\<open>clear\<close>, \<^verbatim>\<open>add\<close> and its value; a pass
    over a partition is a recursion over its rows. NTILE is computed on words and compared with the buckets of
    the standard on natural numbers, for up to \<^verbatim>\<open>2 ^ 63\<close> rows; the percentiles are compared with the rows that
    are not NULL, for any arithmetic of doubles with \<^verbatim>\<open>disc_law\<close> or \<^verbatim>\<open>cont_law\<close>, of which exact arithmetic is
    the example. \<^verbatim>\<open>test_if_group_changed\<close> is a parameter of the tracker of groups.

  \<^bold>\<open>Threads.\<close>
  \<^item> \<^verbatim>\<open>Thread_Cache\<close>: \<^verbatim>\<open>thread_cache.h\<close>. The functions under the mutex are functions on the state, and an
    inductive step relation interleaves any number of threads that park and flush; conditions may wake a thread
    for no reason. The invariant needs the numbers of threads below \<^verbatim>\<open>2 ^ 32\<close>, the width of the counters.

  \<^bold>\<open>How the parts interact.\<close> The strings, the intervals and the byte orders share the memory of \<^verbatim>\<open>Byte_Order\<close>, and the strings
  store numbers with its macros; the borrowed strings are those that \<^verbatim>\<open>Sql_String\<close> appends. \<^verbatim>\<open>Thread_Cache\<close>
  queues its connections in an \<^verbatim>\<open>I_List\<close>, whose \<^verbatim>\<open>get\<close> and \<^verbatim>\<open>push_back\<close> are modelled by their effect on the
  sequence, which \<^verbatim>\<open>Sql_I_List\<close> proves of the pointers. Histograms live in the memory of \<^verbatim>\<open>Byte_Order\<close> and read it with
  its macros, and so do packed sort records and stored points; \<^verbatim>\<open>Spatial\<close> takes white space from \<^verbatim>\<open>Lex_Input\<close>; \<^verbatim>\<open>Temporal\<close> takes its integers from \<^verbatim>\<open>Sql_Type_Int\<close>. The application reaches the server through SQL text only;
  its queries are modelled as functions on the tables.

  \<^bold>\<open>Not modelled.\<close>
  \<^item> The pages that only render, sessions, the upload of images, the texts of mails, and PHPMailer.
  \<^item> Headers of declarations (\<^verbatim>\<open>sql_class.h\<close>, \<^verbatim>\<open>item.h\<close>, \<^verbatim>\<open>field.h\<close>, \<^verbatim>\<open>handler.h\<close>, \<^verbatim>\<open>log_event.h\<close>,
    the rest of \<^verbatim>\<open>sql_lex.h\<close> and of \<^verbatim>\<open>sql_type.h\<close>, and others): their behaviour is in files that are not part of
    the package.
  \<^item> The storage engine, of which only declarations are in the package.
  \<^item> \<^verbatim>\<open>Dynamic_array\<close> of \<^verbatim>\<open>sql_array.h\<close>, which wraps functions of \<^verbatim>\<open>mysys\<close>; the merging of character sets of
    \<^verbatim>\<open>lex_charset.h\<close>, and the functions of \<^verbatim>\<open>String\<close> that convert or print, whose bodies are elsewhere.
\<close>

end
